(* ===== verification/Prelude.thy ===== *)
theory Prelude
  imports Main "HOL-Library.Word"
begin

text \<open>
  Shared vocabulary of the development: bytes, faults and the result type that the
  fallible operations return, Rust's checked slices and slice assignment, the
  \<^verbatim>\<open>named_theorems\<close> collections, and the list facts the component theories share.
\<close>

section \<open>Proof collections\<close>

named_theorems layout_defs "constants of src/qmdb/src/def.rs, unfolded to numerals"
named_theorems res_simps "evaluation of fallible steps"

section \<open>Types\<close>

type_synonym byte = "8 word"
type_synonym bytes = "byte list"
type_synonym u16 = "16 word"
type_synonym u32 = "32 word"
type_synonym u64 = "64 word"
type_synonym i64 = "64 word"
type_synonym hash32 = bytes

section \<open>Faults\<close>

text \<open>
  A Rust panic (an explicit one, an index or slice out of range, an \<^verbatim>\<open>unwrap\<close> of
  \<^verbatim>\<open>None\<close>) and an \<^verbatim>\<open>Err\<close> return are values of one type; an operation that can
  fail returns \<open>Inl\<close> of it.
\<close>

datatype fault = Panic string | Err string

type_synonym 'a result = "fault + 'a"

primrec bindE :: "'a result \<Rightarrow> ('a \<Rightarrow> 'b result) \<Rightarrow> 'b result" where
  "bindE (Inl e) f = Inl e"
| "bindE (Inr x) f = f x"

definition guardE :: "bool \<Rightarrow> fault \<Rightarrow> unit result" where
  "guardE b e = (if b then Inr () else Inl e)"

definition unwrap :: "string \<Rightarrow> 'a option \<Rightarrow> 'a result" where
  "unwrap msg x = (case x of None \<Rightarrow> Inl (Panic msg) | Some y \<Rightarrow> Inr y)"

primrec is_ok :: "'a result \<Rightarrow> bool" where
  "is_ok (Inl e) = False"
| "is_ok (Inr x) = True"

text \<open>A loop over a list whose body may fail, threading a state.\<close>

primrec foldE :: "('x \<Rightarrow> 's \<Rightarrow> 's result) \<Rightarrow> 'x list \<Rightarrow> 's \<Rightarrow> 's result" where
  "foldE f [] s = Inr s"
| "foldE f (x # xs) s = bindE (f x s) (foldE f xs)"

lemma bindE_eq_Inr [simp]: "bindE m f = Inr y \<longleftrightarrow> (\<exists>x. m = Inr x \<and> f x = Inr y)"
  by (cases m) auto

lemma bindE_assoc: "bindE (bindE m f) g = bindE m (\<lambda>x. bindE (f x) g)"
  by (cases m) auto

lemma bindE_cong [fundef_cong]:
  "m = m' \<Longrightarrow> (\<And>x. m' = Inr x \<Longrightarrow> f x = f' x) \<Longrightarrow> bindE m f = bindE m' f'"
  by (cases m') auto

lemma guardE_eq [res_simps]: "guardE b e = Inr u \<longleftrightarrow> b"
  by (simp add: guardE_def)

lemma guardE_True [simp]: "b \<Longrightarrow> guardE b e = Inr ()"
  by (simp add: guardE_def)

lemma unwrap_Some [simp]: "unwrap msg (Some x) = Inr x"
  by (simp add: unwrap_def)

lemma unwrap_None [simp]: "unwrap msg None = Inl (Panic msg)"
  by (simp add: unwrap_def)

lemma unwrap_eq [res_simps]: "unwrap msg x = Inr y \<longleftrightarrow> x = Some y"
  by (simp add: unwrap_def split: option.splits)

lemma is_ok_iff: "is_ok m \<longleftrightarrow> (\<exists>x. m = Inr x)"
  by (cases m) auto

lemma foldE_append: "foldE f (xs @ ys) s = bindE (foldE f xs s) (foldE f ys)"
proof (induction xs arbitrary: s)
  case Nil
  then show ?case by simp
next
  case (Cons x xs)
  have "foldE f (xs @ ys) = (\<lambda>u. bindE (foldE f xs u) (foldE f ys))"
    using Cons by auto
  then show ?case by (simp add: bindE_assoc)
qed

lemma foldE_append3:
  "foldE f (xs @ ys @ zs) s = bindE (foldE f xs s) (\<lambda>s. bindE (foldE f ys s) (foldE f zs))"
  by (cases "foldE f xs s") (simp_all add: foldE_append)

lemma foldE_snoc [simp]: "foldE f (xs @ [x]) s = bindE (foldE f xs s) (f x)"
proof -
  have "foldE f [x] = f x"
  proof
    fix t show "foldE f [x] t = f x t" by (cases "f x t") simp_all
  qed
  then show ?thesis by (simp add: foldE_append)
qed

text \<open>An invariant of the body is an invariant of the loop.\<close>

lemma foldE_invariant:
  assumes "foldE f xs s = Inr t" and "P s"
    and "\<And>x s s'. x \<in> set xs \<Longrightarrow> P s \<Longrightarrow> f x s = Inr s' \<Longrightarrow> P s'"
  shows "P t"
  using assms
proof (induction xs arbitrary: s)
  case Nil
  then show ?case by simp
next
  case (Cons x xs)
  from Cons.prems(1) obtain u where u: "f x s = Inr u" and t: "foldE f xs u = Inr t"
    by auto
  have "P u" using Cons.prems(2,3) u by auto
  with t Cons.prems(3) show ?case by (auto intro: Cons.IH)
qed

text \<open>A loop whose body always succeeds under an invariant is the plain fold.\<close>

lemma foldE_total:
  assumes "\<And>x s. x \<in> set xs \<Longrightarrow> P s \<Longrightarrow> f x s = Inr (g x s)"
    and "\<And>x s. x \<in> set xs \<Longrightarrow> P s \<Longrightarrow> P (g x s)" and "P s"
  shows "foldE f xs s = Inr (fold g xs s)"
  using assms by (induction xs arbitrary: s) auto

section \<open>Slices\<close>

text \<open>\<open>slice bz a b\<close> is \<^verbatim>\<open>&bz[a..b]\<close>, and \<open>write_at b i xs\<close> is
  \<^verbatim>\<open>b[i..i + xs.len()].copy_from_slice(xs)\<close>; both panic out of range.\<close>

definition slice :: "'a list \<Rightarrow> nat \<Rightarrow> nat \<Rightarrow> 'a list result" where
  "slice bz a b =
     (if a \<le> b \<and> b \<le> length bz then Inr (take (b - a) (drop a bz))
      else Inl (Panic ''slice index out of range''))"

definition index :: "'a list \<Rightarrow> nat \<Rightarrow> 'a result" where
  "index bz i =
     (if i < length bz then Inr (bz ! i) else Inl (Panic ''index out of bounds''))"

definition splice :: "'a list \<Rightarrow> nat \<Rightarrow> 'a list \<Rightarrow> 'a list" where
  "splice b i xs = take i b @ xs @ drop (i + length xs) b"

definition write_at :: "'a list \<Rightarrow> nat \<Rightarrow> 'a list \<Rightarrow> 'a list result" where
  "write_at b i xs =
     (if i + length xs \<le> length b then Inr (splice b i xs)
      else Inl (Panic ''slice index out of range''))"

lemma slice_ok [simp]:
  "a \<le> b \<Longrightarrow> b \<le> length bz \<Longrightarrow> slice bz a b = Inr (take (b - a) (drop a bz))"
  by (simp add: slice_def)

lemma slice_Inr [res_simps]:
  "slice bz a b = Inr s \<longleftrightarrow> a \<le> b \<and> b \<le> length bz \<and> s = take (b - a) (drop a bz)"
  by (auto simp: slice_def)

lemma index_ok [simp]: "i < length bz \<Longrightarrow> index bz i = Inr (bz ! i)"
  by (simp add: index_def)

lemma index_Inr [res_simps]: "index bz i = Inr x \<longleftrightarrow> i < length bz \<and> x = bz ! i"
  by (auto simp: index_def)

lemma write_at_ok [simp]:
  "i + length xs \<le> length b \<Longrightarrow> write_at b i xs = Inr (splice b i xs)"
  by (simp add: write_at_def)

lemma write_at_Inr [res_simps]:
  "write_at b i xs = Inr c \<longleftrightarrow> i + length xs \<le> length b \<and> c = splice b i xs"
  by (auto simp: write_at_def)

lemma length_splice [simp]:
  "i + length xs \<le> length b \<Longrightarrow> length (splice b i xs) = length b"
  by (simp add: splice_def)

lemma slice_append_mid:
  "length xs = a \<Longrightarrow> length ys = b - a \<Longrightarrow> a \<le> b \<Longrightarrow> slice (xs @ ys @ zs) a b = Inr ys"
  by (simp add: slice_def)

lemma take_drop_mid:
  "length xs = a \<Longrightarrow> length ys = n \<Longrightarrow> take n (drop a (xs @ ys @ zs)) = ys"
  by simp

text \<open>Writing right behind a prefix that is already in place extends the prefix.\<close>

lemma splice_prefix:
  assumes "length pre = i"
  shows "splice (pre @ drop i b) i xs = (pre @ xs) @ drop (length (pre @ xs)) b"
  using assms by (simp add: splice_def add.commute)

section \<open>Lists\<close>

lemma drop_skip: "length xs = k \<Longrightarrow> drop (k + n) (xs @ ys) = drop n ys"
  by simp

lemma nth_splice:
  assumes "i + length xs \<le> length b" and "j < length b"
  shows "splice b i xs ! j =
    (if j < i then b ! j else if j < i + length xs then xs ! (j - i) else b ! j)"
  using assms by (auto simp: splice_def nth_append min_def)

lemma list_update_splice: "i < length b \<Longrightarrow> b[i := x] = splice b i [x]"
  by (simp add: splice_def upd_conv_take_nth_drop)

lemma unat_byte_lt [simp]: "unat (b :: byte) < 256"
  using unsigned_less [of b] by simp

lemma take_drop_splice_before:
  "j + n \<le> i \<Longrightarrow> i \<le> length b \<Longrightarrow> take n (drop j (splice b i xs)) = take n (drop j b)"
  by (auto simp: splice_def drop_take min_def)

lemma take_drop_splice_same:
  "i \<le> length b \<Longrightarrow> take (length xs) (drop i (splice b i xs)) = xs"
  by (simp add: splice_def)

section \<open>Bits\<close>

lemma div_pow_Suc: "x div 2 ^ Suc l = x div 2 ^ l div (2::nat)"
  by (metis div_mult2_eq power_Suc2)

lemma or_shift_add: "b < 2 ^ n \<Longrightarrow> or (a * 2 ^ n) b = a * 2 ^ n + (b::nat)"
proof -
  assume "b < 2 ^ n"
  then have "take_bit n b = b" by (simp add: take_bit_nat_eq_self)
  then have "\<not> bit b k" if "n \<le> k" for k
    using that by (metis bit_take_bit_iff linorder_not_less)
  then have "and (push_bit n a) b = 0"
    by (auto simp: bit_eq_iff bit_simps)
  then show ?thesis by (simp add: disjunctive_add_eq_or flip: push_bit_eq_mult)
qed

end
