(* ===== verification/Codec.thy ===== *)
theory Codec
  imports Prelude
begin

text \<open>
  Little- and big-endian integer layouts: \<^verbatim>\<open>to_le_bytes\<close>/\<^verbatim>\<open>from_le_bytes\<close> of the
  standard library, which are what \<^verbatim>\<open>LittleEndian::read_*\<close>/\<^verbatim>\<open>write_*\<close> of
  \<^verbatim>\<open>byteorder\<close> are documented to compute, and the helpers of
  \<^verbatim>\<open>src/qmdb/src/utils/codec.rs\<close> on top of them.
\<close>

section \<open>Base-256 digits\<close>

primrec le_enc :: "nat \<Rightarrow> nat \<Rightarrow> bytes" where
  "le_enc 0 x = []"
| "le_enc (Suc n) x = word_of_nat x # le_enc n (x div 256)"

primrec le_dec :: "bytes \<Rightarrow> nat" where
  "le_dec [] = 0"
| "le_dec (b # bs) = unat b + 256 * le_dec bs"

lemma length_le_enc [simp]: "length (le_enc n x) = n"
  by (induction n arbitrary: x) simp_all

lemma unat_byte_of_nat [simp]: "unat (word_of_nat x :: byte) = x mod 256"
  by (simp add: unat_of_nat)

lemma le_dec_enc: "le_dec (le_enc n x) = x mod 256 ^ n"
proof (induction n arbitrary: x)
  case 0
  then show ?case by simp
next
  case (Suc n)
  have "x mod 256 ^ Suc n = x mod 256 + 256 * (x div 256 mod 256 ^ n)"
    by (simp add: mod_mult2_eq)
  with Suc show ?case by simp
qed

lemma le_enc_dec: "le_enc (length bs) (le_dec bs) = bs"
proof (induction bs)
  case Nil
  then show ?case by simp
next
  case (Cons b bs)
  have "(word_of_nat (unat b + 256 * le_dec bs) :: byte) = b"
    by (simp add: word_unat_eq_iff del: of_nat_add of_nat_mult)
  moreover have "(unat b + 256 * le_dec bs) div 256 = le_dec bs" by simp
  ultimately show ?case using Cons by (simp del: of_nat_add of_nat_mult)
qed

lemma le_dec_bound: "le_dec bs < 256 ^ length bs"
proof (induction bs)
  case Nil
  then show ?case by simp
next
  case (Cons b bs)
  have "unat b < 256" by (rule unat_byte_lt)
  moreover have "256 * Suc (le_dec bs) \<le> 256 * 256 ^ length bs"
    using Cons by (intro mult_le_mono2) simp
  ultimately show ?case by (simp del: unat_byte_lt)
qed

section \<open>Fixed-width integers\<close>

definition u16_le :: "u16 \<Rightarrow> bytes" where "u16_le w = le_enc 2 (unat w)"
definition u32_le :: "u32 \<Rightarrow> bytes" where "u32_le w = le_enc 4 (unat w)"
definition u64_le :: "u64 \<Rightarrow> bytes" where "u64_le w = le_enc 8 (unat w)"
definition u16_be :: "u16 \<Rightarrow> bytes" where "u16_be w = rev (le_enc 2 (unat w))"
definition u64_be :: "u64 \<Rightarrow> bytes" where "u64_be w = rev (le_enc 8 (unat w))"

text \<open>The readers take the first bytes of the slice and panic when it is shorter.\<close>

definition read_le :: "nat \<Rightarrow> bytes \<Rightarrow> nat result" where
  "read_le n bz = bindE (slice bz 0 n) (\<lambda>s. Inr (le_dec s))"

definition read_u16 :: "bytes \<Rightarrow> u16 result" where
  "read_u16 bz = bindE (read_le 2 bz) (\<lambda>x. Inr (word_of_nat x))"

definition read_u32 :: "bytes \<Rightarrow> u32 result" where
  "read_u32 bz = bindE (read_le 4 bz) (\<lambda>x. Inr (word_of_nat x))"

definition read_u64 :: "bytes \<Rightarrow> u64 result" where
  "read_u64 bz = bindE (read_le 8 bz) (\<lambda>x. Inr (word_of_nat x))"

definition read_u64_be :: "bytes \<Rightarrow> u64 result" where
  "read_u64_be bz = bindE (slice bz 0 8) (\<lambda>s. Inr (word_of_nat (le_dec (rev s))))"

definition read_u16_be :: "bytes \<Rightarrow> u16 result" where
  "read_u16_be bz = bindE (slice bz 0 2) (\<lambda>s. Inr (word_of_nat (le_dec (rev s))))"

text \<open>\<^verbatim>\<open>codec.rs\<close>.\<close>

definition decode_le_i64 :: "bytes \<Rightarrow> i64 result" where
  "decode_le_i64 v = bindE (slice v 0 8) read_u64"

definition decode_le_u64 :: "bytes \<Rightarrow> u64 result" where
  "decode_le_u64 v = bindE (slice v 0 8) read_u64"

definition encode_le_u64 :: "u64 \<Rightarrow> bytes" where
  "encode_le_u64 n = u64_le n"

definition encode_le_i64 :: "i64 \<Rightarrow> bytes" where
  "encode_le_i64 n = u64_le n"

lemma length_u16_le [simp]: "length (u16_le w) = 2" by (simp add: u16_le_def)
lemma length_u32_le [simp]: "length (u32_le w) = 4" by (simp add: u32_le_def)
lemma length_u64_le [simp]: "length (u64_le w) = 8" by (simp add: u64_le_def)
lemma length_u16_be [simp]: "length (u16_be w) = 2" by (simp add: u16_be_def)
lemma length_u64_be [simp]: "length (u64_be w) = 8" by (simp add: u64_be_def)

lemma u16_be_eq: "u16_be w = [word_of_nat (unat w div 256), word_of_nat (unat w)]"
  by (simp only: u16_be_def numeral_2_eq_2 le_enc.simps rev.simps append_Nil append_Cons)

lemma word_le_dec_enc:
  fixes w :: "'a::len word"
  assumes "(2::nat) ^ LENGTH('a) = 256 ^ n"
  shows "(word_of_nat (le_dec (le_enc n (unat w))) :: 'a word) = w"
proof -
  have "unat w < 256 ^ n" unfolding assms [symmetric] by (rule unsigned_less)
  then show ?thesis by (simp add: le_dec_enc)
qed

lemma read_u16_le [simp]: "read_u16 (u16_le w @ bz) = Inr w"
  by (simp add: read_u16_def read_le_def u16_le_def word_le_dec_enc)

lemma read_u32_le [simp]: "read_u32 (u32_le w @ bz) = Inr w"
  by (simp add: read_u32_def read_le_def u32_le_def word_le_dec_enc)

lemma read_u64_le [simp]: "read_u64 (u64_le w @ bz) = Inr w"
  by (simp add: read_u64_def read_le_def u64_le_def word_le_dec_enc)

lemma read_u64_be_be [simp]: "read_u64_be (u64_be w @ bz) = Inr w"
  by (simp add: read_u64_be_def u64_be_def word_le_dec_enc)

lemma read_u16_be_be [simp]: "read_u16_be (u16_be w @ bz) = Inr w"
  by (simp add: read_u16_be_def u16_be_def word_le_dec_enc)

lemmas read_le_exact [simp] =
  read_u16_le [where bz = "[]", simplified] read_u32_le [where bz = "[]", simplified]
  read_u64_le [where bz = "[]", simplified] read_u64_be_be [where bz = "[]", simplified]
  read_u16_be_be [where bz = "[]", simplified]

end
