(* ===== verification/Defs.thy ===== *)
theory Defs
  imports Prelude
begin

text \<open>
  The layout constants of \<^verbatim>\<open>src/qmdb/src/def.rs\<close> and its two arithmetic helpers.
  The constants are collected in \<open>layout_defs\<close>. The build modelled throughout is the
  default one: the cargo features \<^verbatim>\<open>tee_cipher\<close>, \<^verbatim>\<open>slow_hashing\<close>, \<^verbatim>\<open>directio\<close> and
  \<^verbatim>\<open>check_rec\<close> are off.
\<close>

section \<open>Constants\<close>

definition BIG_BUF_SIZE :: nat where [layout_defs]: "BIG_BUF_SIZE = 64 * 1024"
definition ENTRY_FIXED_LENGTH :: nat where [layout_defs]: "ENTRY_FIXED_LENGTH = 1 + 3 + 1 + 32 + 8 + 8"
definition ENTRY_BASE_LENGTH :: nat where [layout_defs]: "ENTRY_BASE_LENGTH = ENTRY_FIXED_LENGTH"
definition NULL_ENTRY_VERSION :: i64 where [layout_defs]: "NULL_ENTRY_VERSION = - 2"
definition SHARD_COUNT :: nat where [layout_defs]: "SHARD_COUNT = 16"
definition SENTRY_COUNT :: nat where [layout_defs]: "SENTRY_COUNT = 2 ^ 16 div SHARD_COUNT"
definition SHARD_DIV :: nat where [layout_defs]: "SHARD_DIV = 2 ^ 16 div SHARD_COUNT"
definition PRUNE_EVERY_NBLOCKS :: int where [layout_defs]: "PRUNE_EVERY_NBLOCKS = 500"
definition HPFILE_RANGE :: int where [layout_defs]: "HPFILE_RANGE = 2 ^ 51"
definition FIRST_LEVEL_ABOVE_TWIG :: nat where [layout_defs]: "FIRST_LEVEL_ABOVE_TWIG = 13"
definition TWIG_ROOT_LEVEL :: nat where [layout_defs]: "TWIG_ROOT_LEVEL = FIRST_LEVEL_ABOVE_TWIG - 1"
definition MIN_PRUNE_COUNT :: nat where [layout_defs]: "MIN_PRUNE_COUNT = 2"
definition TWIG_SHARD_COUNT :: nat where [layout_defs]: "TWIG_SHARD_COUNT = 4"
definition NODE_SHARD_COUNT :: nat where [layout_defs]: "NODE_SHARD_COUNT = 4"
definition MAX_TREE_LEVEL :: nat where [layout_defs]: "MAX_TREE_LEVEL = 64"
definition TWIG_SHIFT :: nat where [layout_defs]: "TWIG_SHIFT = 11"
definition LEAF_COUNT_IN_TWIG :: nat where [layout_defs]: "LEAF_COUNT_IN_TWIG = 2 ^ TWIG_SHIFT"
definition TWIG_MASK :: nat where [layout_defs]: "TWIG_MASK = LEAF_COUNT_IN_TWIG - 1"
definition IN_BLOCK_IDX_BITS :: nat where [layout_defs]: "IN_BLOCK_IDX_BITS = 24"
definition OP_READ :: byte where [layout_defs]: "OP_READ = 1"
definition OP_WRITE :: byte where [layout_defs]: "OP_WRITE = 2"
definition OP_CREATE :: byte where [layout_defs]: "OP_CREATE = 3"
definition OP_DELETE :: byte where [layout_defs]: "OP_DELETE = 4"

section \<open>Compaction threshold\<close>

text \<open>
  All operands are 64 bits wide (\<^verbatim>\<open>usize\<close> on the supported targets); the products wrap.
\<close>

definition is_compactible :: "i64 \<Rightarrow> i64 \<Rightarrow> i64 \<Rightarrow> u64 \<Rightarrow> u64 \<Rightarrow> u64 \<Rightarrow> bool" where
  "is_compactible utilization_div utilization_ratio compact_thres active_count sn_start sn_end =
     (let total_count = sn_end - sn_start in
      if total_count * utilization_ratio < active_count * utilization_div
         \<or> active_count < compact_thres
      then False else True)"

text \<open>Without overflow the test is the ratio comparison its comment describes.\<close>

lemma is_compactible_nat:
  assumes "sn_start \<le> sn_end"
    and "(unat sn_end - unat sn_start) * unat ratio < 2 ^ 64"
    and "unat active * unat dv < 2 ^ 64"
  shows "is_compactible dv ratio thres active sn_start sn_end \<longleftrightarrow>
    unat active * unat dv \<le> (unat sn_end - unat sn_start) * unat ratio
    \<and> unat thres \<le> unat active"
proof -
  have "unat (sn_end - sn_start) = unat sn_end - unat sn_start"
    using assms(1) by (simp add: unat_sub)
  then have "unat ((sn_end - sn_start) * ratio) = (unat sn_end - unat sn_start) * unat ratio"
    using assms(2) by (simp add: unat_word_ariths)
  moreover have "unat (active * dv) = unat active * unat dv"
    using assms(3) by (simp add: unat_word_ariths)
  ultimately show ?thesis
    by (auto simp: is_compactible_def word_less_nat_alt)
qed

section \<open>Levels\<close>

fun bit_length :: "nat \<Rightarrow> nat" where
  "bit_length n = (if n = 0 then 0 else Suc (bit_length (n div 2)))"

declare bit_length.simps [simp del]

definition leading_zeros :: "nat \<Rightarrow> nat" where
  "leading_zeros n = 64 - bit_length n"

definition calc_max_level :: "nat \<Rightarrow> nat" where
  "calc_max_level youngest_twig_id =
     FIRST_LEVEL_ABOVE_TWIG + 63 - leading_zeros youngest_twig_id"

lemma bit_length_0 [simp]: "bit_length 0 = 0"
  by (simp add: bit_length.simps)

lemma bit_length_pos: "0 < n \<Longrightarrow> bit_length n = Suc (bit_length (n div 2))"
  by (subst bit_length.simps) simp

lemma bit_length_le_iff: "bit_length n \<le> k \<longleftrightarrow> n < 2 ^ k"
proof (induction k arbitrary: n)
  case 0
  then show ?case by (cases "n = 0") (simp_all add: bit_length_pos)
next
  case (Suc k)
  show ?case
  proof (cases "n = 0")
    case True
    then show ?thesis by simp
  next
    case False
    then have "bit_length n \<le> Suc k \<longleftrightarrow> n div 2 < 2 ^ k"
      using Suc [of "n div 2"] by (simp add: bit_length_pos)
    also have "\<dots> \<longleftrightarrow> n < 2 ^ Suc k" by (simp add: less_mult_imp_div_less div_less_iff_less_mult mult.commute)
    finally show ?thesis .
  qed
qed

lemma calc_max_level_eq:
  "y < 2 ^ 64 \<Longrightarrow> calc_max_level y = TWIG_ROOT_LEVEL + bit_length y"
  using bit_length_le_iff [of y 64]
  by (simp add: calc_max_level_def leading_zeros_def layout_defs)

lemma shift_to_root: "y < 2 ^ k \<longleftrightarrow> y div 2 ^ k = (0::nat)"
  by (simp add: div_eq_0_iff)

end
