(* ===== verification/Hasher.thy ===== *)
theory Hasher
  imports Prelude
begin

text \<open>
  \<^verbatim>\<open>src/qmdb/src/utils/hasher.rs\<close>. SHA-256 is the parameter \<open>H\<close>; what the code relies
  on (a 32-byte digest) is the hypothesis \<open>digest32 H\<close>. \<^verbatim>\<open>node_hash_inplace\<close> writes
  its digest into a \<^verbatim>\<open>[u8; 32]\<close> target, so the model returns the target's new content.
\<close>

type_synonym hashfun = "bytes \<Rightarrow> hash32"

definition ZERO_HASH32 :: hash32 where
  "ZERO_HASH32 = replicate 32 0"

definition hash :: "hashfun \<Rightarrow> bytes \<Rightarrow> hash32" where
  "hash H a = H a"

definition hash1 :: "hashfun \<Rightarrow> byte \<Rightarrow> bytes \<Rightarrow> hash32" where
  "hash1 H level a = H (level # a)"

definition hash2 :: "hashfun \<Rightarrow> byte \<Rightarrow> bytes \<Rightarrow> bytes \<Rightarrow> hash32" where
  "hash2 H children_level a b = H (children_level # a @ b)"

definition hash2x :: "hashfun \<Rightarrow> byte \<Rightarrow> bytes \<Rightarrow> bytes \<Rightarrow> bool \<Rightarrow> hash32" where
  "hash2x H children_level a b exchange_ab =
     (if exchange_ab then hash2 H children_level b a else hash2 H children_level a b)"

definition node_hash_inplace :: "hashfun \<Rightarrow> byte \<Rightarrow> bytes \<Rightarrow> bytes \<Rightarrow> hash32" where
  "node_hash_inplace H children_level src_a src_b = H (children_level # src_a @ src_b)"

definition digest32 :: "hashfun \<Rightarrow> bool" where
  "digest32 H \<longleftrightarrow> (\<forall>x. length (H x) = 32)"

lemma node_hash_inplace_eq: "node_hash_inplace H l a b = hash2 H l a b"
  by (simp add: node_hash_inplace_def hash2_def)

lemma hash1_pair: "hash1 H l (a @ b) = hash2 H l a b"
  by (simp add: hash1_def hash2_def)

lemma length_ZERO_HASH32 [simp]: "length ZERO_HASH32 = 32"
  by (simp add: ZERO_HASH32_def)

lemma digest32_hash2: "digest32 H \<Longrightarrow> length (hash2 H l a b) = 32"
  by (simp add: digest32_def hash2_def)

text \<open>
  A concrete digest of 32 bytes, so that statements with the hypothesis \<open>digest32 H\<close>
  can be instantiated: the first 32 bytes of the input, padded with zeros.
\<close>

definition toy_digest :: hashfun where
  "toy_digest x = take 32 (x @ replicate 32 0)"

lemma digest32_toy [simp]: "digest32 toy_digest"
  by (auto simp: digest32_def toy_digest_def min_def)

text \<open>
  Equal digests of two node inputs with equal levels mean equal children, unless the
  two inputs collide under \<open>H\<close>.
\<close>

definition collides :: "hashfun \<Rightarrow> bytes \<Rightarrow> bytes \<Rightarrow> bool" where
  "collides H x y \<longleftrightarrow> x \<noteq> y \<and> H x = H y"

lemma hash2_inj:
  assumes "hash2 H l a b = hash2 H l c d" "length a = length c"
    and "\<not> collides H (l # a @ b) (l # c @ d)"
  shows "a = c \<and> b = d"
  using assms by (auto simp: hash2_def collides_def)

end
