(* ===== verification/Entry.thy ===== *)
theory Entry
  imports Codec Defs Hasher
begin

text \<open>
  \<^verbatim>\<open>src/qmdb/src/entryfile/entry.rs\<close>, first half: the \<^verbatim>\<open>Entry\<close> record, its
  serialisation \<^verbatim>\<open>dump\<close> into a caller's buffer, the accessors of the serialised form
  \<^verbatim>\<open>EntryBz\<close> (a byte slice), the sentry and null entries. The codec lemmas show that
  \<open>dump\<close> writes exactly the layout \<open>entry_layout\<close> and that every accessor recovers
  its field from that layout.
\<close>

section \<open>Data\<close>

record entry =
  e_key :: bytes
  e_value :: bytes
  e_next_key_hash :: bytes
  e_version :: i64
  e_serial_number :: u64

definition get_serialized_len :: "entry \<Rightarrow> nat \<Rightarrow> nat" where
  "get_serialized_len e deactived_sn_count =
     (let len = ENTRY_BASE_LENGTH + length (e_key e) + length (e_value e)
      in (len + 7) div 8 * 8 + deactived_sn_count * 8)"

section \<open>Writing an entry\<close>

fun dump_sn_list :: "bytes \<Rightarrow> nat \<Rightarrow> u64 list \<Rightarrow> (bytes \<times> nat) result" where
  "dump_sn_list b i [] = Inr (b, i)"
| "dump_sn_list b i (sn # sns) =
     bindE (write_at b i (u64_le sn)) (\<lambda>b. dump_sn_list b (i + 8) sns)"

function dump_padding :: "bytes \<Rightarrow> nat \<Rightarrow> (bytes \<times> nat) result" where
  "dump_padding b i =
     (if i mod 8 \<noteq> 0 then bindE (write_at b i [0]) (\<lambda>b. dump_padding b (i + 1))
      else Inr (b, i))"
  by pat_completeness auto
termination
  by (relation "measure (\<lambda>(b, i). (8 - i mod 8) mod 8)") (auto simp: mod_Suc)

declare dump_padding.simps [simp del]

text \<open>\<open>dump e b dsns\<close> returns the number of bytes written and the buffer.\<close>

definition dump :: "entry \<Rightarrow> bytes \<Rightarrow> u64 list \<Rightarrow> (nat \<times> bytes) result" where
  "dump e b deactived_sn_list =
     (if length b < get_serialized_len e (length deactived_sn_list)
      then Inl (Panic ''Not enough space for dumping'')
      else
       (let first32 = (word_of_nat (length (e_value e) * 256 + length (e_key e)) :: u32) in
        bindE (write_at b 4 [word_of_nat (length deactived_sn_list)]) (\<lambda>b.
        bindE (write_at b 0 (u32_le first32)) (\<lambda>b.
        let i = 5 in
        bindE (write_at b i (e_key e)) (\<lambda>b.
        let i = i + length (e_key e) in
        bindE (write_at b i (e_value e)) (\<lambda>b.
        let i = i + length (e_value e) in
        bindE (guardE (length (e_next_key_hash e) = 32)
                 (Panic ''NextKeyHash is not 32-byte'')) (\<lambda>_.
        bindE (write_at b i (e_next_key_hash e)) (\<lambda>b.
        let i = i + 32 in
        bindE (write_at b i (u64_le (e_version e))) (\<lambda>b.
        let i = i + 8 in
        bindE (write_at b i (u64_le (e_serial_number e))) (\<lambda>b.
        let i = i + 8 in
        bindE (dump_sn_list b i deactived_sn_list) (\<lambda>(b, i).
        bindE (dump_padding b i) (\<lambda>(b, i). Inr (i, b)))))))))))))"

definition entry_to_bytes :: "entry \<Rightarrow> u64 list \<Rightarrow> bytes \<Rightarrow> bytes result" where
  "entry_to_bytes e deactived_sn_list bz =
     (let total_len = get_serialized_len e (length deactived_sn_list) in
      bindE (dump e bz deactived_sn_list) (\<lambda>(_, bz). slice bz 0 total_len))"

definition entry_to_vec :: "entry \<Rightarrow> u64 list \<Rightarrow> bytes result" where
  "entry_to_vec e deactived_sn_list =
     (let total_len =
        (ENTRY_BASE_LENGTH + length (e_key e) + length (e_value e) + 7) div 8 * 8
        + length deactived_sn_list * 8 in
      bindE (dump e (replicate total_len 0) deactived_sn_list) (\<lambda>(_, v). Inr v))"

definition entry_equal :: "bytes \<Rightarrow> entry \<Rightarrow> u64 list \<Rightarrow> bool result" where
  "entry_equal bz e deactived_sn_list =
     bindE (entry_to_vec e deactived_sn_list) (\<lambda>v. Inr (v = bz))"

section \<open>Reading a serialised entry\<close>

definition get_kv_len :: "bytes \<Rightarrow> (nat \<times> nat) result" where
  "get_kv_len len_bytes =
     bindE (slice len_bytes 0 4) (\<lambda>s. bindE (read_u32 s) (\<lambda>first32.
       Inr (unat (and first32 0xff), unat (drop_bit 8 first32))))"

definition get_entry_len :: "bytes \<Rightarrow> nat result" where
  "get_entry_len len_bytes =
     bindE (get_kv_len len_bytes) (\<lambda>(key_len, value_len).
     bindE (index len_bytes 4) (\<lambda>c.
       Inr ((ENTRY_BASE_LENGTH + key_len + value_len + 7) div 8 * 8 + unat c * 8)))"

definition payload_len :: "bytes \<Rightarrow> nat result" where
  "payload_len bz =
     bindE (get_kv_len bz) (\<lambda>(key_len, value_len).
     bindE (index bz 4) (\<lambda>c.
       Inr (ENTRY_FIXED_LENGTH + key_len + value_len + unat c * 8)))"

definition ebz_hash :: "hashfun \<Rightarrow> bytes \<Rightarrow> hash32 result" where
  "ebz_hash H bz =
     bindE (payload_len bz) (\<lambda>n. bindE (slice bz 0 n) (\<lambda>s. Inr (hash H s)))"

definition ebz_value :: "bytes \<Rightarrow> bytes result" where
  "ebz_value bz =
     bindE (get_kv_len bz) (\<lambda>(key_len, value_len).
       slice bz (5 + key_len) (5 + key_len + value_len))"

definition ebz_key :: "bytes \<Rightarrow> bytes result" where
  "ebz_key bz = bindE (index bz 0) (\<lambda>k. slice bz 5 (5 + unat k))"

definition ebz_key_hash :: "hashfun \<Rightarrow> bytes \<Rightarrow> hash32 result" where
  "ebz_key_hash H bz =
     bindE (ebz_value bz) (\<lambda>v.
       if v = [] then
         bindE (index bz 5) (\<lambda>b0. bindE (index bz 6) (\<lambda>b1.
           Inr (b0 # b1 # replicate 30 0)))
       else bindE (ebz_key bz) (\<lambda>k. Inr (hash H k)))"

definition next_key_hash_start :: "bytes \<Rightarrow> nat result" where
  "next_key_hash_start bz =
     bindE (slice bz 0 4) (\<lambda>s. bindE (get_kv_len s) (\<lambda>(key_len, value_len).
       Inr (5 + key_len + value_len)))"

definition ebz_next_key_hash :: "bytes \<Rightarrow> bytes result" where
  "ebz_next_key_hash bz =
     bindE (next_key_hash_start bz) (\<lambda>start. slice bz start (start + 32))"

definition ebz_version :: "bytes \<Rightarrow> i64 result" where
  "ebz_version bz =
     bindE (next_key_hash_start bz) (\<lambda>start.
     bindE (slice bz (start + 32) (start + 32 + 8)) read_u64)"

definition ebz_serial_number :: "bytes \<Rightarrow> u64 result" where
  "ebz_serial_number bz =
     bindE (next_key_hash_start bz) (\<lambda>start.
     bindE (slice bz (start + 40) (start + 40 + 8)) read_u64)"

definition dsn_count :: "bytes \<Rightarrow> nat result" where
  "dsn_count bz = bindE (index bz 4) (\<lambda>c. Inr (unat c))"

definition get_deactived_sn :: "bytes \<Rightarrow> nat \<Rightarrow> u64 result" where
  "get_deactived_sn bz n =
     bindE (get_kv_len bz) (\<lambda>(key_len, value_len).
       let start = ENTRY_FIXED_LENGTH + key_len + value_len + n * 8 in
       bindE (slice bz start (start + 8)) read_u64)"

text \<open>\<^verbatim>\<open>dsn_iter\<close> with \<^verbatim>\<open>DSNIter::next\<close>: the pairs the iterator yields from \<open>idx\<close> on.\<close>

function dsn_iter_from :: "bytes \<Rightarrow> nat \<Rightarrow> nat \<Rightarrow> (nat \<times> u64) list result" where
  "dsn_iter_from bz count idx =
     (if count \<le> idx then Inr []
      else bindE (get_deactived_sn bz idx) (\<lambda>sn.
           bindE (dsn_iter_from bz count (idx + 1)) (\<lambda>r. Inr ((idx, sn) # r))))"
  by pat_completeness auto
termination
  by (relation "measure (\<lambda>(bz, count, idx). count - idx)") auto

declare dsn_iter_from.simps [simp del]

definition dsn_iter :: "bytes \<Rightarrow> (nat \<times> u64) list result" where
  "dsn_iter bz = bindE (dsn_count bz) (\<lambda>count. dsn_iter_from bz count 0)"

definition entry_from_bz :: "bytes \<Rightarrow> entry result" where
  "entry_from_bz bz =
     bindE (ebz_key bz) (\<lambda>k. bindE (ebz_value bz) (\<lambda>v.
     bindE (ebz_next_key_hash bz) (\<lambda>n. bindE (ebz_version bz) (\<lambda>ver.
     bindE (ebz_serial_number bz) (\<lambda>sn.
       Inr \<lparr>e_key = k, e_value = v, e_next_key_hash = n, e_version = ver,
            e_serial_number = sn\<rparr>)))))"

section \<open>Sentry and null entries\<close>

definition sentry_entry :: "nat \<Rightarrow> u64 \<Rightarrow> bytes \<Rightarrow> bytes result" where
  "sentry_entry shard_id sn bz =
     (if SHARD_COUNT \<le> shard_id \<or> 2 ^ 16 div SHARD_COUNT \<le> unat sn
      then Inl (Panic ''SentryEntry Overflow'')
      else
       (let first16 = (word_of_nat (or (shard_id * 2 ^ 16 div SHARD_COUNT) (unat sn)) :: u16);
            key = u16_be first16 @ replicate 30 0;
            next_key_hash = (if first16 = 0xFFFF then replicate 32 0xFF
                             else u16_be (first16 + 1) @ replicate 30 0);
            e = \<lparr>e_key = key, e_value = [], e_next_key_hash = next_key_hash,
                 e_version = 0, e_serial_number = sn\<rparr> in
        bindE (dump e bz []) (\<lambda>(i, bz). slice bz 0 i)))"

definition null_entry :: "bytes \<Rightarrow> bytes result" where
  "null_entry bz =
     (let e = \<lparr>e_key = [], e_value = [], e_next_key_hash = replicate 32 0,
               e_version = NULL_ENTRY_VERSION, e_serial_number = - 1\<rparr> in
      bindE (dump e bz []) (\<lambda>(i, bz). slice bz 0 i))"

section \<open>The layout that dump writes\<close>

definition first32 :: "entry \<Rightarrow> u32" where
  "first32 e = word_of_nat (length (e_value e) * 256 + length (e_key e))"

definition entry_header :: "entry \<Rightarrow> u64 list \<Rightarrow> bytes" where
  "entry_header e dsns = u32_le (first32 e) @ [word_of_nat (length dsns)]"

definition sn_list_bytes :: "u64 list \<Rightarrow> bytes" where
  "sn_list_bytes dsns = concat (map u64_le dsns)"

definition entry_payload :: "entry \<Rightarrow> u64 list \<Rightarrow> bytes" where
  "entry_payload e dsns =
     entry_header e dsns @ e_key e @ e_value e @ e_next_key_hash e
     @ u64_le (e_version e) @ u64_le (e_serial_number e) @ sn_list_bytes dsns"

definition pad8 :: "nat \<Rightarrow> nat" where
  "pad8 n = (8 - n mod 8) mod 8"

definition entry_layout :: "entry \<Rightarrow> u64 list \<Rightarrow> bytes" where
  "entry_layout e dsns =
     entry_payload e dsns @ replicate (pad8 (length (entry_payload e dsns))) 0"

lemma length_sn_list_bytes [simp]: "length (sn_list_bytes dsns) = 8 * length dsns"
  by (induction dsns) (simp_all add: sn_list_bytes_def)

lemma length_entry_header [simp]: "length (entry_header e dsns) = 5"
  by (simp add: entry_header_def)

lemma length_entry_payload:
  "length (e_next_key_hash e) = 32 \<Longrightarrow>
   length (entry_payload e dsns) =
     ENTRY_FIXED_LENGTH + length (e_key e) + length (e_value e) + 8 * length dsns"
  by (simp add: entry_payload_def layout_defs)

lemma pad8_cases: "pad8 n = (if n mod 8 = 0 then 0 else 8 - n mod 8)"
  by (simp add: pad8_def)

lemma pad8_eq_0: "pad8 n = 0 \<longleftrightarrow> n mod 8 = 0"
proof -
  have "n mod 8 < 8" by simp
  then show ?thesis by (simp add: pad8_cases del: mod_less_divisor)
qed

lemma round_up8: "n + pad8 n = (n + 7) div 8 * (8::nat)"
proof -
  define q r where "q = n div 8" and "r = n mod 8"
  have n: "n = 8 * q + r" and r: "r < 8" by (simp_all add: q_def r_def)
  have "pad8 n = (if r = 0 then 0 else 8 - r)" by (simp add: pad8_cases r_def)
  moreover have "(n + 7) div 8 = q + (r + 7) div 8"
    unfolding n by (metis add.assoc add.commute div_mult_self2 zero_neq_numeral)
  moreover have "(r + 7) div 8 = (if r = 0 then 0 else 1)"
  proof (cases "r = 0")
    case False
    then have "r + 7 = 8 + (r - 1)" and "r - 1 < 8" using r by simp_all
    then show ?thesis by (simp only: div_add_self1 zero_neq_numeral not_False_eq_True) simp
  qed simp
  ultimately show ?thesis using n r by simp
qed

lemma round_up8_add: "(n + 8 * m + 7) div 8 * 8 = (n + 7) div 8 * 8 + m * (8::nat)"
proof -
  have "n + 8 * m + 7 = (n + 7) + m * 8" by simp
  then show ?thesis by (simp only: div_mult_self1) (simp add: algebra_simps)
qed

lemma length_entry_layout:
  assumes "length (e_next_key_hash e) = 32"
  shows "length (entry_layout e dsns) = get_serialized_len e (length dsns)"
proof -
  let ?n = "ENTRY_FIXED_LENGTH + length (e_key e) + length (e_value e)"
  have "length (entry_layout e dsns) = (?n + 8 * length dsns + 7) div 8 * 8"
    using assms by (simp add: entry_layout_def length_entry_payload round_up8)
  also have "(?n + 8 * length dsns + 7) div 8 * 8 = (?n + 7) div 8 * 8 + length dsns * 8"
    by (rule round_up8_add)
  finally show ?thesis by (simp add: get_serialized_len_def ENTRY_BASE_LENGTH_def)
qed

lemma dump_sn_list_writes:
  "length pre + 8 * length dsns \<le> length b \<Longrightarrow>
   dump_sn_list (pre @ drop (length pre) b) (length pre) dsns =
     Inr ((pre @ sn_list_bytes dsns) @ drop (length (pre @ sn_list_bytes dsns)) b,
          length (pre @ sn_list_bytes dsns))"
proof (induction dsns arbitrary: pre)
  case Nil
  then show ?case by (simp add: sn_list_bytes_def)
next
  case (Cons sn dsns)
  let ?pre = "pre @ u64_le sn"
  have w: "write_at (pre @ drop (length pre) b) (length pre) (u64_le sn) =
      Inr (?pre @ drop (length ?pre) b)"
    using Cons.prems by (simp add: splice_def add.commute)
  have "dump_sn_list (?pre @ drop (length ?pre) b) (length ?pre) dsns =
      Inr ((?pre @ sn_list_bytes dsns) @ drop (length (?pre @ sn_list_bytes dsns)) b,
           length (?pre @ sn_list_bytes dsns))"
    using Cons.prems by (intro Cons.IH) simp
  with w show ?case by (simp add: sn_list_bytes_def)
qed

lemma dump_padding_writes:
  "length pre + pad8 (length pre) \<le> length b \<Longrightarrow>
   dump_padding (pre @ drop (length pre) b) (length pre) =
     Inr ((pre @ replicate (pad8 (length pre)) 0)
            @ drop (length pre + pad8 (length pre)) b, length pre + pad8 (length pre))"
proof (induction "pad8 (length pre)" arbitrary: pre)
  case 0
  then have "length pre mod 8 = 0" by (simp add: pad8_eq_0)
  with "0.hyps" show ?case by (simp add: dump_padding.simps pad8_def)
next
  case (Suc n)
  let ?pre = "pre @ [0]"
  from Suc.hyps(2) have m: "length pre mod 8 \<noteq> 0"
    by (simp flip: pad8_eq_0)
  then have p: "pad8 (length pre) = Suc (pad8 (Suc (length pre)))"
    by (auto simp: pad8_def mod_Suc)
  have w: "write_at (pre @ drop (length pre) b) (length pre) [0] =
      Inr (?pre @ drop (length ?pre) b)"
    using Suc.prems Suc.hyps(2) by (simp add: splice_def)
  have "n = pad8 (length ?pre)" using p Suc.hyps(2) by simp
  from Suc.hyps(1) [OF this] have
    "dump_padding (?pre @ drop (length ?pre) b) (length ?pre) =
       Inr ((?pre @ replicate (pad8 (length ?pre)) 0)
              @ drop (length ?pre + pad8 (length ?pre)) b,
            length ?pre + pad8 (length ?pre))"
    using Suc.prems p by simp
  with m w p show ?case
    by (subst dump_padding.simps) (simp add: replicate_append_same)
qed

lemma write_next:
  "length pre = i \<Longrightarrow> i + length xs \<le> length b \<Longrightarrow>
   write_at (pre @ drop i b) i xs = Inr ((pre @ xs) @ drop (i + length xs) b)"
  by (simp add: splice_def add.commute)

lemma dump_eq:
  assumes nkh: "length (e_next_key_hash e) = 32"
    and space: "get_serialized_len e (length dsns) \<le> length b"
  shows "dump e b dsns =
    Inr (get_serialized_len e (length dsns),
         entry_layout e dsns @ drop (get_serialized_len e (length dsns)) b)"
proof -
  let ?k = "length (e_key e)" and ?v = "length (e_value e)"
  let ?p = "entry_payload e dsns"
  have pl: "length ?p = 53 + ?k + ?v + 8 * length dsns"
    using nkh by (simp add: length_entry_payload layout_defs)
  have tot: "get_serialized_len e (length dsns) = length ?p + pad8 (length ?p)"
    using length_entry_layout [OF nkh, of dsns] by (simp add: entry_layout_def)
  have len: "53 + ?k + ?v + 8 * length dsns \<le> length b" using space tot pl by simp
  have pad: "length ?p + pad8 (length ?p) \<le> length b" using space tot by simp
  let ?h = "entry_header e dsns"
  let ?a = "((((?h @ e_key e) @ e_value e) @ e_next_key_hash e)
     @ u64_le (e_version e)) @ u64_le (e_serial_number e)"
  have w0: "write_at b 4 [word_of_nat (length dsns)] = Inr (splice b 4 [word_of_nat (length dsns)])"
    and w1: "write_at (splice b 4 [word_of_nat (length dsns)]) 0
        (u32_le (word_of_nat (?v * 256 + ?k))) = Inr (?h @ drop 5 b)"
    using len by (simp_all add: splice_def entry_header_def first32_def)
  note w2 = write_next [of ?h 5 "e_key e" b]
    and w3 = write_next [of "?h @ e_key e" "5 + ?k" "e_value e" b]
    and w4 = write_next [of "(?h @ e_key e) @ e_value e" "5 + ?k + ?v" "e_next_key_hash e" b,
      unfolded nkh]
    and w5 = write_next [of "((?h @ e_key e) @ e_value e) @ e_next_key_hash e"
      "5 + ?k + ?v + 32" "u64_le (e_version e)" b, unfolded length_u64_le]
    and w6 = write_next [of "(((?h @ e_key e) @ e_value e) @ e_next_key_hash e)
        @ u64_le (e_version e)" "5 + ?k + ?v + 32 + 8" "u64_le (e_serial_number e)" b,
        unfolded length_u64_le]
  have sns: "dump_sn_list (?a @ drop (5 + ?k + ?v + 32 + 8 + 8) b)
        (5 + ?k + ?v + 32 + 8 + 8) dsns = Inr (?p @ drop (length ?p) b, length ?p)"
    using dump_sn_list_writes [of ?a dsns b] len nkh
    by (simp add: entry_payload_def)
  have g: "guardE (length (e_next_key_hash e) = 32) (Panic ''NextKeyHash is not 32-byte'') = Inr ()"
    using nkh by simp
  have ns: "\<not> length b < get_serialized_len e (length dsns)" using space by simp
  have "dump e b dsns = Inr (length ?p + pad8 (length ?p),
      (?p @ replicate (pad8 (length ?p)) 0) @ drop (length ?p + pad8 (length ?p)) b)"
    using len nkh
    by (simp only: dump_def Let_def guardE_True [OF refl] if_not_P [OF ns] w0 w1 w2 w3 w4 w5 w6 g sns
        dump_padding_writes [OF pad] bindE.simps prod.case length_append length_entry_header
        length_u64_le)
  then show ?thesis by (simp add: tot entry_layout_def)
qed

section \<open>Reading back what was written\<close>

text \<open>
  \<open>entry_ok\<close> bounds the fields by the widths of the header: one byte for the key
  length, three for the value length, one for the number of deactivated serial numbers.
  \<^verbatim>\<open>dump\<close> does not check these bounds.
\<close>

definition entry_ok :: "entry \<Rightarrow> u64 list \<Rightarrow> bool" where
  "entry_ok e dsns \<longleftrightarrow>
     length (e_key e) < 256 \<and> length (e_value e) < 2 ^ 24
     \<and> length (e_next_key_hash e) = 32 \<and> length dsns < 256"

lemma u32_low_byte: "unat (and (w :: u32) 0xff) = unat w mod 256"
proof -
  have "(0xff :: u32) = mask 8" by (simp add: mask_eq_exp_minus_1)
  then have "and w 0xff = take_bit 8 w" by (simp only: take_bit_eq_mask)
  then show ?thesis by (simp add: take_bit_eq_mod unat_mod)
qed

lemma u32_high_bytes: "unat (drop_bit 8 (w :: u32)) = unat w div 256"
  by (simp add: drop_bit_eq_div unat_div)

lemma entry_header_take4: "take 4 (entry_header e dsns @ rest) = u32_le (first32 e)"
  by (simp add: entry_header_def)

lemma kv_len_header:
  "get_kv_len (entry_header e dsns @ rest) =
     Inr (unat (first32 e) mod 256, unat (first32 e) div 256)"
  by (simp add: get_kv_len_def u32_low_byte u32_high_bytes entry_header_def)

lemma unat_first32:
  assumes "length (e_key e) < 256" "length (e_value e) < 2 ^ 24"
  shows "unat (first32 e) = length (e_value e) * 256 + length (e_key e)"
proof -
  have "length (e_value e) * 256 + length (e_key e) < 2 ^ 32" using assms by simp
  then show ?thesis by (simp add: first32_def unat_of_nat del: of_nat_add of_nat_mult)
qed

lemma entry_ok_simps:
  assumes "entry_ok e dsns"
  shows "length (e_key e) < 256" "length (e_next_key_hash e) = 32" "length dsns < 256"
    and "unat (first32 e) = length (e_value e) * 256 + length (e_key e)"
  using assms by (simp_all add: entry_ok_def unat_first32)

lemma get_kv_len_header:
  "entry_ok e dsns \<Longrightarrow>
   get_kv_len (entry_header e dsns @ rest) = Inr (length (e_key e), length (e_value e))"
  by (simp add: kv_len_header entry_ok_simps)

lemma header_nth:
  "unat ((entry_header e dsns @ rest) ! 4) = length dsns mod 256"
  "unat ((entry_header e dsns @ rest) ! 0) = unat (first32 e) mod 256"
proof -
  have "u32_le (first32 e) ! 0 = word_of_nat (unat (first32 e))"
    by (simp only: u32_le_def numeral_eq_Suc le_enc.simps nth_Cons_0)
  then have "unat (u32_le (first32 e) ! 0) = unat (first32 e) mod 256"
    by (simp only: unat_byte_of_nat)
  then show "unat ((entry_header e dsns @ rest) ! 0) = unat (first32 e) mod 256"
    by (simp add: entry_header_def nth_append)
  show "unat ((entry_header e dsns @ rest) ! 4) = length dsns mod 256"
    by (simp add: entry_header_def nth_append)
qed

text \<open>The layout, cut at each field, with anything behind it.\<close>

lemma entry_layout_split:
  "entry_layout e dsns @ rest =
     entry_header e dsns @ e_key e @ e_value e @ e_next_key_hash e
     @ u64_le (e_version e) @ u64_le (e_serial_number e) @ sn_list_bytes dsns
     @ replicate (pad8 (length (entry_payload e dsns))) 0 @ rest"
  by (simp add: entry_layout_def entry_payload_def)

lemma take_sn_list_bytes:
  "n < length dsns \<Longrightarrow> take 8 (drop (n * 8) (sn_list_bytes dsns @ rest)) = u64_le (dsns ! n)"
proof (induction dsns arbitrary: n)
  case Nil
  then show ?case by simp
next
  case (Cons sn dsns)
  then show ?case by (cases n) (simp_all add: sn_list_bytes_def)
qed

named_theorems entry_reads "accessors of a serialised entry on the layout that dump writes"

lemma read_entry_len [entry_reads]:
  "entry_ok e dsns \<Longrightarrow>
   get_entry_len (entry_layout e dsns @ rest) = Inr (length (entry_layout e dsns))"
  using length_entry_layout [of e dsns]
  by (simp add: get_entry_len_def entry_layout_split get_kv_len_header header_nth
      get_serialized_len_def entry_ok_simps)

lemma read_payload_len [entry_reads]:
  "entry_ok e dsns \<Longrightarrow>
   payload_len (entry_layout e dsns @ rest) = Inr (length (entry_payload e dsns))"
  by (simp add: payload_len_def entry_layout_split get_kv_len_header header_nth
      length_entry_payload entry_ok_simps)

lemma read_hash [entry_reads]:
  "entry_ok e dsns \<Longrightarrow>
   ebz_hash H (entry_layout e dsns @ rest) = Inr (H (entry_payload e dsns))"
  by (simp add: ebz_hash_def read_payload_len hash_def) (simp add: entry_layout_def)

lemma read_value [entry_reads]:
  "entry_ok e dsns \<Longrightarrow> ebz_value (entry_layout e dsns @ rest) = Inr (e_value e)"
  by (simp add: ebz_value_def entry_layout_split get_kv_len_header)

lemma read_key [entry_reads]:
  "entry_ok e dsns \<Longrightarrow> ebz_key (entry_layout e dsns @ rest) = Inr (e_key e)"
  by (simp add: ebz_key_def entry_layout_split header_nth entry_ok_simps)

lemma read_next_start [entry_reads]:
  "entry_ok e dsns \<Longrightarrow>
   next_key_hash_start (entry_layout e dsns @ rest) = Inr (5 + length (e_key e) + length (e_value e))"
  by (simp add: next_key_hash_start_def entry_layout_split get_kv_len_def entry_header_def
      u32_low_byte u32_high_bytes entry_ok_simps)

lemma read_next_key_hash [entry_reads]:
  "entry_ok e dsns \<Longrightarrow> ebz_next_key_hash (entry_layout e dsns @ rest) = Inr (e_next_key_hash e)"
  by (simp add: ebz_next_key_hash_def read_next_start) (simp add: entry_layout_split entry_ok_simps)

lemma read_version [entry_reads]:
  "entry_ok e dsns \<Longrightarrow> ebz_version (entry_layout e dsns @ rest) = Inr (e_version e)"
  by (simp add: ebz_version_def read_next_start) (simp add: entry_layout_split entry_ok_simps)

lemma read_serial_number [entry_reads]:
  "entry_ok e dsns \<Longrightarrow>
   ebz_serial_number (entry_layout e dsns @ rest) = Inr (e_serial_number e)"
  by (simp add: ebz_serial_number_def read_next_start) (simp add: entry_layout_split entry_ok_simps)

lemma read_dsn_count [entry_reads]:
  "entry_ok e dsns \<Longrightarrow> dsn_count (entry_layout e dsns @ rest) = Inr (length dsns)"
  by (simp add: dsn_count_def entry_layout_split header_nth entry_ok_simps)

lemma read_dsn [entry_reads]:
  assumes ok: "entry_ok e dsns" and n: "n < length dsns"
  shows "get_deactived_sn (entry_layout e dsns @ rest) n = Inr (dsns ! n)"
proof -
  let ?pad = "replicate (pad8 (length (entry_payload e dsns))) 0 @ rest"
  let ?pre = "entry_header e dsns @ e_key e @ e_value e @ e_next_key_hash e
     @ u64_le (e_version e) @ u64_le (e_serial_number e)"
  let ?start = "53 + length (e_key e) + length (e_value e) + n * 8"
  have split: "entry_layout e dsns @ rest = ?pre @ sn_list_bytes dsns @ ?pad"
    by (simp add: entry_layout_split)
  have "drop ?start (?pre @ sn_list_bytes dsns @ ?pad) = drop (n * 8) (sn_list_bytes dsns @ ?pad)"
    by (rule drop_skip) (simp add: entry_ok_simps [OF ok])
  then have "take 8 (drop ?start (entry_layout e dsns @ rest)) = u64_le (dsns ! n)"
    by (simp only: split take_sn_list_bytes [OF n])
  moreover have "?start + 8 \<le> length (entry_layout e dsns @ rest)"
    using n by (simp add: split entry_ok_simps [OF ok])
  moreover have "get_kv_len (entry_layout e dsns @ rest) = Inr (length (e_key e), length (e_value e))"
    by (simp add: entry_layout_split get_kv_len_header [OF ok])
  ultimately show ?thesis by (simp add: get_deactived_sn_def layout_defs slice_def)
qed

lemma dsn_iter_from_layout:
  assumes "entry_ok e dsns" "idx \<le> length dsns"
  shows "dsn_iter_from (entry_layout e dsns @ rest) (length dsns) idx =
    Inr (zip [idx..<length dsns] (drop idx dsns))"
  using assms(2)
proof (induction "length dsns - idx" arbitrary: idx)
  case 0
  then show ?case by (simp add: dsn_iter_from.simps)
next
  case (Suc n)
  then have lt: "idx < length dsns" by simp
  have "dsn_iter_from (entry_layout e dsns @ rest) (length dsns) (idx + 1) =
      Inr (zip [idx + 1..<length dsns] (drop (idx + 1) dsns))"
    using Suc.hyps(2) lt by (intro Suc.hyps(1)) simp_all
  with lt show ?case
    by (subst dsn_iter_from.simps)
      (simp add: read_dsn [OF assms(1)] upt_conv_Cons Cons_nth_drop_Suc [symmetric])
qed

lemma read_dsn_iter [entry_reads]:
  "entry_ok e dsns \<Longrightarrow>
   dsn_iter (entry_layout e dsns @ rest) = Inr (zip [0..<length dsns] dsns)"
  by (simp add: dsn_iter_def read_dsn_count dsn_iter_from_layout)

lemma read_entry [entry_reads]:
  "entry_ok e dsns \<Longrightarrow> entry_from_bz (entry_layout e dsns @ rest) = Inr e"
  by (simp add: entry_from_bz_def entry_reads)

lemma read_key_hash [entry_reads]:
  "entry_ok e dsns \<Longrightarrow> e_value e \<noteq> [] \<Longrightarrow>
   ebz_key_hash H (entry_layout e dsns @ rest) = Inr (H (e_key e))"
  by (simp add: ebz_key_hash_def read_value read_key hash_def)

text \<open>A two-byte prefix stands for the key hash when the value is empty.\<close>

lemma read_key_hash_empty [entry_reads]:
  assumes "entry_ok e dsns" "e_value e = []" "2 \<le> length (e_key e)"
  shows "ebz_key_hash H (entry_layout e dsns @ rest) =
    Inr (e_key e ! 0 # e_key e ! 1 # replicate 30 0)"
proof -
  obtain a b ks where k: "e_key e = a # b # ks"
    using assms(3) by (cases "e_key e"; cases "tl (e_key e)") auto
  have "(entry_header e dsns @ x) ! 5 = x ! 0" "(entry_header e dsns @ x) ! 6 = x ! 1"
    for x by (simp_all add: nth_append)
  then show ?thesis
    using assms(1,2) k by (simp add: ebz_key_hash_def read_value) (simp add: entry_layout_split)
qed

lemma entry_to_vec_eq:
  "length (e_next_key_hash e) = 32 \<Longrightarrow> entry_to_vec e dsns = Inr (entry_layout e dsns)"
  using dump_eq [of e dsns "replicate (get_serialized_len e (length dsns)) 0"]
  by (simp add: entry_to_vec_def get_serialized_len_def Let_def)

lemma entry_to_bytes_eq:
  assumes "length (e_next_key_hash e) = 32" "get_serialized_len e (length dsns) \<le> length b"
  shows "entry_to_bytes e dsns b = Inr (entry_layout e dsns)"
  using assms dump_eq [OF assms] length_entry_layout [of e dsns]
  by (simp add: entry_to_bytes_def Let_def)

lemma layout_multiple_of_8: "get_serialized_len e n mod 8 = 0"
  by (simp add: get_serialized_len_def Let_def)

lemma kv_len_layout:
  "get_kv_len (entry_layout e dsns @ rest) =
     Inr (length (e_key e) mod 256, (length (e_value e) + length (e_key e) div 256) mod 2 ^ 24)"
proof -
  let ?x = "length (e_value e) * 256 + length (e_key e)"
  have "unat (first32 e) = ?x mod (2 ^ 24 * 256)"
    by (simp add: first32_def unat_of_nat del: of_nat_add of_nat_mult)
  also have "\<dots> = 256 * (?x div 256 mod 2 ^ 24) + ?x mod 256"
    by (metis mod_mult2_eq mult.commute)
  finally have "unat (first32 e) = 256 * (?x div 256 mod 2 ^ 24) + ?x mod 256" .
  moreover have "?x mod 256 = length (e_key e) mod 256"
    and "?x div 256 = length (e_value e) + length (e_key e) div 256" by simp_all
  moreover have "?x mod 256 < 256" by simp
  ultimately have "unat (first32 e) mod 256 = length (e_key e) mod 256"
    and "unat (first32 e) div 256 = (length (e_value e) + length (e_key e) div 256) mod 2 ^ 24"
    by simp_all
  then show ?thesis by (simp add: entry_layout_split kv_len_header)
qed

section \<open>Properties of the entry codec\<close>

text \<open>C5. Entry round trip: dumping an entry whose fields fit the header into a large
  enough buffer writes a multiple of eight bytes, leaves the rest of the buffer alone, and
  every accessor reads the entry back: its length, its fields, its deactivated serial
  numbers in order, and its leaf hash, which covers the unpadded payload.\<close>

theorem dump_roundtrip:
  assumes "entry_ok e dsns" and "get_serialized_len e (length dsns) \<le> length b"
  shows "\<exists>n b'. dump e b dsns = Inr (n, b') \<and> n mod 8 = 0 \<and> length b' = length b
     \<and> drop n b' = drop n b
     \<and> get_entry_len b' = Inr n
     \<and> entry_from_bz b' = Inr e
     \<and> dsn_iter b' = Inr (zip [0..<length dsns] dsns)
     \<and> ebz_hash H b' = Inr (hash H (entry_payload e dsns))"
proof -
  have nkh: "length (e_next_key_hash e) = 32" using assms(1) by (rule entry_ok_simps)
  note len = length_entry_layout [OF nkh, of dsns]
  show ?thesis
    using assms by (simp add: dump_eq nkh entry_reads layout_multiple_of_8 len hash_def)
qed

definition demo_entry :: entry where
  "demo_entry = \<lparr>e_key = [1, 2, 3], e_value = [9], e_next_key_hash = replicate 32 7,
     e_version = 5, e_serial_number = 42\<rparr>"

lemma demo_entry_ok: "entry_ok demo_entry [11, 12]" "get_serialized_len demo_entry (Suc (Suc 0)) = 80"
  by (simp_all add: entry_ok_def demo_entry_def get_serialized_len_def layout_defs)

theorem dump_roundtrip_witness:
  "\<exists>n b'. dump demo_entry (replicate 100 1) [11, 12] = Inr (n, b') \<and> n mod 8 = 0
     \<and> length b' = length (replicate 100 (1::byte))
     \<and> drop n b' = drop n (replicate 100 1)
     \<and> get_entry_len b' = Inr n
     \<and> entry_from_bz b' = Inr demo_entry
     \<and> dsn_iter b' = Inr (zip [0..<length [11, 12 :: u64]] [11, 12])
     \<and> ebz_hash toy_digest b' = Inr (hash toy_digest (entry_payload demo_entry [11, 12]))"
  by (rule dump_roundtrip) (simp_all add: demo_entry_ok)

text \<open>Every outcome of \<^verbatim>\<open>dump\<close>: it panics exactly when the buffer is shorter than
  the serialised length, or, the buffer being long enough, when the next-key hash is not
  32 bytes; otherwise it writes \<open>entry_layout\<close> at the front and returns its length.\<close>

theorem dump_outcome:
  "dump e b dsns =
     (if length b < get_serialized_len e (length dsns)
      then Inl (Panic ''Not enough space for dumping'')
      else if length (e_next_key_hash e) \<noteq> 32
      then Inl (Panic ''NextKeyHash is not 32-byte'')
      else Inr (get_serialized_len e (length dsns),
                entry_layout e dsns @ drop (get_serialized_len e (length dsns)) b))"
proof (cases "length b < get_serialized_len e (length dsns)")
  case True
  then show ?thesis by (simp add: dump_def)
next
  case space: False
  show ?thesis
  proof (cases "length (e_next_key_hash e) = 32")
    case True
    with space show ?thesis by (simp add: dump_eq)
  next
    case False
    let ?n = "ENTRY_BASE_LENGTH + length (e_key e) + length (e_value e)"
    have "?n \<le> (?n + 7) div 8 * 8"
      using round_up8 [of ?n] by simp
    then have "53 + length (e_key e) + length (e_value e) \<le> length b"
      using space by (simp add: get_serialized_len_def Let_def layout_defs)
    with space False show ?thesis
      by (simp add: dump_def Let_def guardE_def)
  qed
qed

text \<open>C33. The header has one byte for the key length and three for the value length, and
  \<^verbatim>\<open>dump\<close> does not check them: the lengths read back are those written only modulo these
  widths, and the excess of the key length is added to the value length.\<close>

theorem header_wraps:
  assumes "length (e_next_key_hash e) = 32"
  shows "\<exists>bz. entry_to_vec e dsns = Inr bz
    \<and> get_kv_len bz = Inr (length (e_key e) mod 256,
          (length (e_value e) + length (e_key e) div 256) mod 2 ^ 24)
    \<and> dsn_count bz = Inr (length dsns mod 256)"
proof -
  have "dsn_count (entry_layout e dsns @ []) = Inr (length dsns mod 256)"
    unfolding entry_layout_split by (simp add: dsn_count_def header_nth)
  then show ?thesis
    using kv_len_layout [of e dsns "[]"] by (simp add: entry_to_vec_eq [OF assms])
qed

theorem header_wraps_witness:
  "\<exists>bz. entry_to_vec (demo_entry\<lparr>e_key := replicate 300 1\<rparr>) [] = Inr bz
    \<and> get_kv_len bz = Inr (44, Suc (Suc 0)) \<and> dsn_count bz = Inr 0"
  using header_wraps [of "demo_entry\<lparr>e_key := replicate 300 1\<rparr>" "[]"]
  by (simp add: demo_entry_def)

section \<open>Sentry entries\<close>

text \<open>The 65536 sentries partition the hash space; \<open>sentry_hash n\<close> is the key hash of the
  sentry with 16-bit prefix \<open>n\<close>.\<close>

definition sentry_hash :: "nat \<Rightarrow> hash32" where
  "sentry_hash n = (if n < 2 ^ 16 then u16_be (word_of_nat n) @ replicate 30 0
     else replicate 32 0xFF)"

definition sentry_of :: "nat \<Rightarrow> u64 \<Rightarrow> entry" where
  "sentry_of n sn = \<lparr>e_key = sentry_hash n, e_value = [],
     e_next_key_hash = sentry_hash (n + 1), e_version = 0, e_serial_number = sn\<rparr>"

lemma length_sentry_hash [simp]: "length (sentry_hash n) = 32"
  by (simp add: sentry_hash_def)

lemma sentry_of_sel:
  "e_next_key_hash (sentry_of n sn) = sentry_hash (Suc n)"
  "e_serial_number (sentry_of n sn) = sn"
  by (simp_all add: sentry_of_def)

lemma sentry_of_ok: "entry_ok (sentry_of n sn) []"
  by (simp add: entry_ok_def sentry_of_def)

lemma sentry_len: "get_serialized_len (sentry_of n sn) 0 = 88"
  by (simp add: get_serialized_len_def sentry_of_def layout_defs)

lemma sentry_entry_eq:
  assumes "shard < SHARD_COUNT" "unat sn < SENTRY_COUNT" "88 \<le> length b"
  shows "sentry_entry shard sn b = Inr (entry_layout (sentry_of (shard * 2 ^ 12 + unat sn) sn) [])"
proof -
  define n where "n = shard * 2 ^ 12 + unat sn"
  have lt: "shard < 16" "unat sn < 2 ^ 12" using assms by (simp_all add: layout_defs)
  then have n: "n < 2 ^ 16" by (simp add: n_def)
  have "shard * 2 ^ 16 div SHARD_COUNT = shard * 2 ^ 12" by (simp add: layout_defs)
  then have w: "or (shard * 2 ^ 16 div SHARD_COUNT) (unat sn) = n"
    using or_shift_add [OF lt(2), of shard] by (simp add: n_def)
  have un: "unat (word_of_nat n :: u16) = n" using n by (simp add: unat_of_nat)
  have last: "(word_of_nat n :: u16) = 0xFFFF \<longleftrightarrow> \<not> n + 1 < 2 ^ 16"
    using n by (simp add: word_unat_eq_iff un) presburger
  have nk: "(if (word_of_nat n :: u16) = 0xFFFF then replicate 32 0xFF
      else u16_be (word_of_nat n + 1) @ replicate 30 0) = sentry_hash (n + 1)"
    unfolding last by (simp add: sentry_hash_def add.commute)
  have "\<not> (SHARD_COUNT \<le> shard \<or> 2 ^ 16 div SHARD_COUNT \<le> unat sn)"
    using lt by (simp add: layout_defs)
  then have "sentry_entry shard sn b =
      bindE (dump (sentry_of n sn) b []) (\<lambda>(i, bz). slice bz 0 i)"
    using n by (simp only: sentry_entry_def Let_def if_False w nk)
      (simp add: sentry_of_def sentry_hash_def)
  also have "\<dots> = Inr (entry_layout (sentry_of n sn) [])"
    using dump_eq [of "sentry_of n sn" "[]" b] assms(3) entry_ok_simps(2) [OF sentry_of_ok]
      length_entry_layout [of "sentry_of n sn" "[]"] by (simp add: sentry_len)
  finally show ?thesis by (simp add: n_def)
qed

lemma sentry_key_hash:
  assumes "n < 2 ^ 16"
  shows "ebz_key_hash H (entry_layout (sentry_of n sn) []) = Inr (sentry_hash n)"
proof -
  have "e_key (sentry_of n sn) ! 0 # e_key (sentry_of n sn) ! 1 # replicate 30 0 = sentry_hash n"
    using assms by (simp add: sentry_of_def sentry_hash_def u16_be_eq)
  then show ?thesis
    using read_key_hash_empty [OF sentry_of_ok, of n sn H "[]"] by (simp add: sentry_of_def)
qed

lemma sentry_hash_shard:
  assumes "shard < 16" "k < 2 ^ 12"
  shows "unat (sentry_hash (shard * 2 ^ 12 + k) ! 0) * 256 div SHARD_DIV = shard"
proof -
  define n where "n = shard * 2 ^ 12 + k"
  have n: "n < 2 ^ 16" using assms by (simp add: n_def)
  then have u: "unat (word_of_nat n :: u16) = n" by (simp add: unat_of_nat)
  have "unat (sentry_hash n ! 0) = n div 256 mod 256"
    using n by (simp only: sentry_hash_def u16_be_eq u if_True append_Cons nth_Cons_0 unat_byte_of_nat)
  also have "\<dots> = n div 256" using n by simp
  also have "\<dots> = shard * 16 + k div 256" by (simp add: n_def)
  finally have "unat (sentry_hash n ! 0) * 256 div SHARD_DIV = (shard * 16 + k div 256) div 16"
    by (simp add: layout_defs)
  also have "k div 256 < 16" using assms(2) by simp
  then have "(shard * 16 + k div 256) div 16 = shard" by simp
  finally show ?thesis by (simp add: n_def)
qed

text \<open>The sentries chain: for every shard and serial number in range, \<^verbatim>\<open>sentry_entry\<close>
  yields an entry whose key hash is its 16-bit prefix, belongs to its own shard, and whose
  next-key hash is the key hash of the sentry with the next prefix (all ones after the
  last one). Outside the range it panics.\<close>

theorem sentry_chain:
  assumes "88 \<le> length b"
  shows "if shard < SHARD_COUNT \<and> unat sn < SENTRY_COUNT
    then \<exists>bz. sentry_entry shard sn b = Inr bz
       \<and> ebz_key_hash H bz = Inr (sentry_hash (shard * SENTRY_COUNT + unat sn))
       \<and> ebz_next_key_hash bz = Inr (sentry_hash (shard * SENTRY_COUNT + unat sn + 1))
       \<and> ebz_serial_number bz = Inr sn
       \<and> unat (sentry_hash (shard * SENTRY_COUNT + unat sn) ! 0) * 256 div SHARD_DIV = shard
    else sentry_entry shard sn b = Inl (Panic ''SentryEntry Overflow'')"
proof (cases "shard < SHARD_COUNT \<and> unat sn < SENTRY_COUNT")
  case True
  let ?n = "shard * 2 ^ 12 + unat sn"
  have lt: "shard < 16" "unat sn < 2 ^ 12" using True by (simp_all add: layout_defs)
  then have "?n < 2 ^ 16" by simp
  moreover have "SENTRY_COUNT = 2 ^ 12" by (simp add: layout_defs)
  ultimately show ?thesis
    using True assms sentry_entry_eq [of shard sn b] sentry_key_hash [of ?n H sn]
      read_next_key_hash [OF sentry_of_ok, of ?n sn "[]"]
      read_serial_number [OF sentry_of_ok, of ?n sn "[]"] sentry_hash_shard [OF lt]
    by (simp add: sentry_of_sel)
next
  case False
  then show ?thesis by (auto simp: sentry_entry_def layout_defs)
qed

theorem sentry_chain_witness:
  "\<exists>bz. sentry_entry 15 4095 (replicate 88 0) = Inr bz
       \<and> ebz_key_hash toy_digest bz = Inr (sentry_hash (15 * SENTRY_COUNT + 4095))
       \<and> ebz_next_key_hash bz = Inr (sentry_hash (15 * SENTRY_COUNT + 4095 + 1))
       \<and> ebz_serial_number bz = Inr 4095
       \<and> unat (sentry_hash (15 * SENTRY_COUNT + 4095) ! 0) * 256 div SHARD_DIV = 15"
  using sentry_chain [of "replicate 88 0" 15 4095 toy_digest] by (simp add: layout_defs)

end
