(* ===== verification/EntryVec.thy ===== *)
theory EntryVec
  imports Entry
begin

text \<open>
  \<^verbatim>\<open>EntryVec\<close> of \<^verbatim>\<open>src/qmdb/src/entryfile/entry.rs\<close>: the list of 64 KiB buffers in which
  the updater collects a block's new entries, with the position of every entry per shard,
  and its transport form (\<^verbatim>\<open>to_bytes\<close>, \<^verbatim>\<open>from_bytes\<close>). The lemmas relate it to a table
  of serialised entries per shard, and show where the packing of the buffers fails.
\<close>

section \<open>State\<close>

record entry_vec =
  buf_list :: "bytes list"
  pos_list :: "nat list list"
  next_pos :: nat

definition new_big_buf_boxed :: bytes where
  "new_big_buf_boxed = replicate BIG_BUF_SIZE 0"

definition byte0_to_shard_id :: "byte \<Rightarrow> nat" where
  "byte0_to_shard_id byte0 = unat byte0 * SHARD_COUNT div 256"

definition ev_new :: entry_vec where
  "ev_new = \<lparr>buf_list = [new_big_buf_boxed], pos_list = replicate SHARD_COUNT [], next_pos = 0\<rparr>"

section \<open>Adding and reading entries\<close>

text \<open>\<^verbatim>\<open>_add_entry\<close> returns the offset inside the last buffer.\<close>

definition ev_add_slot :: "entry_vec \<Rightarrow> nat \<Rightarrow> nat \<Rightarrow> (nat \<times> entry_vec) result" where
  "ev_add_slot v shard_id len =
     (let offset = next_pos v mod BIG_BUF_SIZE;
          (offset, v) =
            (if BIG_BUF_SIZE < offset + len
             then (0, v\<lparr>next_pos := length (buf_list v) * BIG_BUF_SIZE,
                        buf_list := buf_list v @ [new_big_buf_boxed]\<rparr>)
             else (offset, v)) in
      bindE (index (pos_list v) shard_id) (\<lambda>ps.
        Inr (offset, v\<lparr>pos_list := (pos_list v)[shard_id := ps @ [next_pos v]],
                       next_pos := next_pos v + len\<rparr>)))"

definition ev_last_mut :: "entry_vec \<Rightarrow> (bytes \<Rightarrow> bytes result) \<Rightarrow> entry_vec result" where
  "ev_last_mut v f =
     (if buf_list v = [] then Inl (Panic ''unwrap on None'')
      else bindE (f (last (buf_list v))) (\<lambda>b.
             Inr (v\<lparr>buf_list := butlast (buf_list v) @ [b]\<rparr>)))"

definition ev_add_entry ::
  "entry_vec \<Rightarrow> hash32 \<Rightarrow> entry \<Rightarrow> u64 list \<Rightarrow> (nat \<times> entry_vec) result" where
  "ev_add_entry v kh e dsn_list =
     bindE (index kh 0) (\<lambda>b0.
     let shard_id = unat b0 * 256 div SHARD_DIV;
         len = get_serialized_len e (length dsn_list) in
     bindE (ev_add_slot v shard_id len) (\<lambda>(offset, v).
     bindE (ev_last_mut v (\<lambda>buf.
        bindE (slice buf offset (length buf)) (\<lambda>tail.
        bindE (dump e tail dsn_list) (\<lambda>(_, t). Inr (take offset buf @ t))))) (\<lambda>v.
     bindE (index (pos_list v) shard_id) (\<lambda>ps. Inr (length ps - 1, v)))))"

definition ev_add_entry_bz :: "hashfun \<Rightarrow> entry_vec \<Rightarrow> bytes \<Rightarrow> (nat \<times> entry_vec) result" where
  "ev_add_entry_bz H v e =
     bindE (ebz_key_hash H e) (\<lambda>key_hash.
     bindE (index key_hash 0) (\<lambda>b0.
     let shard_id = unat b0 * 256 div SHARD_DIV; len = length e in
     bindE (ev_add_slot v shard_id len) (\<lambda>(offset, v).
     bindE (ev_last_mut v (\<lambda>buf. write_at buf offset e)) (\<lambda>v.
     bindE (index (pos_list v) shard_id) (\<lambda>ps. Inr (length ps - 1, v))))))"

definition batch_add_entry_data :: "hashfun \<Rightarrow> entry_vec \<Rightarrow> bytes list \<Rightarrow> entry_vec result" where
  "batch_add_entry_data H v data =
     foldE (\<lambda>item v. bindE (ev_add_entry_bz H v item) (\<lambda>(_, v). Inr v)) data v"

definition get_entry_by_pos :: "entry_vec \<Rightarrow> nat \<Rightarrow> bytes result" where
  "get_entry_by_pos v pos =
     (let idx = pos div BIG_BUF_SIZE; offset = pos mod BIG_BUF_SIZE in
      bindE (index (buf_list v) idx) (\<lambda>buf.
      bindE (slice buf offset (offset + 5)) (\<lambda>hd.
      bindE (get_entry_len hd) (\<lambda>len. slice buf offset (offset + len)))))"

definition ev_get_entry :: "entry_vec \<Rightarrow> nat \<Rightarrow> nat \<Rightarrow> bytes result" where
  "ev_get_entry v shard_id i =
     bindE (index (pos_list v) shard_id) (\<lambda>ps. bindE (index ps i) (get_entry_by_pos v))"

text \<open>\<^verbatim>\<open>enumerate\<close> with \<^verbatim>\<open>EntryBzIter::next\<close>: what the iterator yields from \<open>idx\<close> on.\<close>

function ev_enumerate_from :: "entry_vec \<Rightarrow> nat \<Rightarrow> nat \<Rightarrow> (nat \<times> bytes) list result" where
  "ev_enumerate_from v shard_id idx =
     bindE (index (pos_list v) shard_id) (\<lambda>ps.
       if length ps \<le> idx then Inr []
       else bindE (ev_get_entry v shard_id idx) (\<lambda>e.
            bindE (ev_enumerate_from v shard_id (idx + 1)) (\<lambda>r. Inr ((idx, e) # r))))"
  by pat_completeness auto
termination
  by (relation "measure (\<lambda>(v, shard_id, idx). length (pos_list v ! shard_id) - idx)")
    (auto simp: res_simps)

declare ev_enumerate_from.simps [simp del]

definition ev_enumerate :: "entry_vec \<Rightarrow> nat \<Rightarrow> (nat \<times> bytes) list result" where
  "ev_enumerate v shard_id = ev_enumerate_from v shard_id 0"

section \<open>Transport form\<close>

definition read_u64_at :: "bytes \<Rightarrow> nat \<Rightarrow> u64 result" where
  "read_u64_at bz off = bindE (slice bz off (length bz)) read_u64"

primrec ev_read_positions :: "bytes \<Rightarrow> nat \<Rightarrow> nat \<Rightarrow> (nat list \<times> nat) result" where
  "ev_read_positions bz 0 off = Inr ([], off)"
| "ev_read_positions bz (Suc n) off =
     bindE (read_u64_at bz off) (\<lambda>pos.
     bindE (ev_read_positions bz n (off + 8)) (\<lambda>(v, off). Inr (unat pos # v, off)))"

primrec ev_read_shards :: "bytes \<Rightarrow> nat \<Rightarrow> nat \<Rightarrow> (nat list list \<times> nat) result" where
  "ev_read_shards bz 0 off = Inr ([], off)"
| "ev_read_shards bz (Suc k) off =
     bindE (read_u64_at bz off) (\<lambda>n.
     bindE (ev_read_positions bz (unat n) (off + 8)) (\<lambda>(v, off).
     bindE (ev_read_shards bz k off) (\<lambda>(vs, off). Inr (v # vs, off))))"

primrec ev_read_bufs :: "bytes \<Rightarrow> nat \<Rightarrow> nat \<Rightarrow> (bytes list \<times> nat) result" where
  "ev_read_bufs bz 0 off = Inr ([], off)"
| "ev_read_bufs bz (Suc k) off =
     (let size = min (length bz - off) BIG_BUF_SIZE in
      bindE (slice bz off (off + size)) (\<lambda>s.
      bindE (write_at new_big_buf_boxed 0 s) (\<lambda>buf.
      bindE (ev_read_bufs bz k (off + size)) (\<lambda>(bs, off). Inr (buf # bs, off)))))"

definition ev_from_bytes :: "bytes \<Rightarrow> entry_vec result" where
  "ev_from_bytes bz =
     bindE (read_u64_at bz 0) (\<lambda>np.
     bindE (ev_read_shards bz SHARD_COUNT 8) (\<lambda>(ps, off).
     bindE (ev_read_bufs bz ((unat np + BIG_BUF_SIZE - 1) div BIG_BUF_SIZE) off) (\<lambda>(bs, off).
     bindE (guardE (off = length bz) (Panic ''assertion failed'')) (\<lambda>_.
       Inr \<lparr>buf_list = bs, pos_list = ps, next_pos = unat np\<rparr>))))"

definition ev_write_shard :: "nat list \<Rightarrow> bytes \<times> nat \<Rightarrow> (bytes \<times> nat) result" where
  "ev_write_shard ps = (\<lambda>(b, off).
     bindE (write_at b off (u64_le (word_of_nat (length ps)))) (\<lambda>b.
       dump_sn_list b (off + 8) (map word_of_nat ps)))"

text \<open>The subtraction in \<^verbatim>\<open>next_pos - i * BIG_BUF_SIZE\<close> wraps for a buffer behind
  \<^verbatim>\<open>next_pos\<close>, so that the minimum is then the whole buffer.\<close>

primrec ev_extend_bufs :: "nat \<Rightarrow> nat \<Rightarrow> bytes list \<Rightarrow> bytes \<Rightarrow> bytes result" where
  "ev_extend_bufs np i [] bz = Inr bz"
| "ev_extend_bufs np i (buf # bufs) bz =
     (let size = (if i * BIG_BUF_SIZE \<le> np then min (np - i * BIG_BUF_SIZE) BIG_BUF_SIZE
                  else BIG_BUF_SIZE) in
      bindE (slice buf 0 size) (\<lambda>s. ev_extend_bufs np (i + 1) bufs (bz @ s)))"

definition ev_to_bytes :: "entry_vec \<Rightarrow> bytes result" where
  "ev_to_bytes v =
     bindE (slice (pos_list v) 0 SHARD_COUNT) (\<lambda>pl.
     let size = (1 + SHARD_COUNT) * 8 + sum_list (map (\<lambda>ps. length ps * 8) pl) in
     bindE (write_at (replicate size 0) 0 (u64_le (word_of_nat (next_pos v)))) (\<lambda>bz.
     bindE (foldE ev_write_shard pl (bz, 8)) (\<lambda>(bz, off).
     bindE (ev_extend_bufs (next_pos v) 0 (buf_list v) bz) (\<lambda>bz.
     bindE (guardE (size + next_pos v = length bz) (Panic ''assertion failed'')) (\<lambda>_. Inr bz)))))"

section \<open>The buffers hold the entries\<close>

definition ev_inv :: "entry_vec \<Rightarrow> bool" where
  "ev_inv v \<longleftrightarrow>
     length (pos_list v) = SHARD_COUNT \<and> buf_list v \<noteq> []
     \<and> (\<forall>b\<in>set (buf_list v). length b = BIG_BUF_SIZE)
     \<and> (length (buf_list v) - 1) * BIG_BUF_SIZE \<le> next_pos v
     \<and> next_pos v \<le> length (buf_list v) * BIG_BUF_SIZE"

text \<open>The state in which \<^verbatim>\<open>_add_entry\<close> computes a position inside the last buffer.\<close>

definition ev_room :: "entry_vec \<Rightarrow> bool" where
  "ev_room v \<longleftrightarrow> next_pos v < length (buf_list v) * BIG_BUF_SIZE"

definition ev_holds :: "entry_vec \<Rightarrow> nat \<Rightarrow> bytes \<Rightarrow> bool" where
  "ev_holds v p bz \<longleftrightarrow>
     p div BIG_BUF_SIZE < length (buf_list v) \<and> p + length bz \<le> next_pos v
     \<and> p mod BIG_BUF_SIZE + length bz \<le> BIG_BUF_SIZE
     \<and> take (length bz) (drop (p mod BIG_BUF_SIZE) (buf_list v ! (p div BIG_BUF_SIZE))) = bz
     \<and> 5 \<le> length bz \<and> get_entry_len (take 5 bz) = Inr (length bz)"

definition ev_rel :: "entry_vec \<Rightarrow> (nat \<Rightarrow> bytes list) \<Rightarrow> bool" where
  "ev_rel v A \<longleftrightarrow> ev_inv v
     \<and> (\<forall>s<SHARD_COUNT. list_all2 (ev_holds v) (pos_list v ! s) (A s))"

lemma BIG_pos [simp]: "0 < BIG_BUF_SIZE" by (simp add: layout_defs)

lemma get_entry_by_pos_holds:
  assumes "ev_inv v" "ev_holds v p bz"
  shows "get_entry_by_pos v p = Inr bz"
proof -
  let ?i = "p div BIG_BUF_SIZE" and ?o = "p mod BIG_BUF_SIZE"
  let ?buf = "buf_list v ! ?i"
  have i: "?i < length (buf_list v)" and o: "?o + length bz \<le> length ?buf"
    and t: "take (length bz) (drop ?o ?buf) = bz" and l: "5 \<le> length bz"
    and g: "get_entry_len (take 5 bz) = Inr (length bz)"
    using assms by (auto simp: ev_holds_def ev_inv_def)
  have "take 5 (drop ?o ?buf) = take 5 bz" using t l by (metis min.absorb1 take_take)
  then show ?thesis using i o t l g by (simp add: get_entry_by_pos_def)
qed

lemma ev_get_entry_rel:
  assumes "ev_rel v A" "s < SHARD_COUNT" "i < length (A s)"
  shows "ev_get_entry v s i = Inr (A s ! i)"
proof -
  have l: "list_all2 (ev_holds v) (pos_list v ! s) (A s)" and inv: "ev_inv v"
    using assms by (auto simp: ev_rel_def)
  then have "ev_holds v (pos_list v ! s ! i) (A s ! i)" "i < length (pos_list v ! s)"
    using assms(3) by (auto simp: list_all2_conv_all_nth)
  then show ?thesis
    using assms(2) inv by (simp add: ev_get_entry_def get_entry_by_pos_holds ev_inv_def)
qed

lemma ev_enumerate_from_rel:
  assumes "ev_rel v A" "s < SHARD_COUNT" "idx \<le> length (A s)"
  shows "ev_enumerate_from v s idx = Inr (zip [idx..<length (A s)] (drop idx (A s)))"
  using assms(3)
proof (induction "length (A s) - idx" arbitrary: idx)
  case 0
  have "length (pos_list v ! s) = length (A s)" "s < length (pos_list v)"
    using assms by (auto simp: ev_rel_def ev_inv_def dest: list_all2_lengthD)
  with 0 show ?case by (simp add: ev_enumerate_from.simps)
next
  case (Suc n)
  have len: "length (pos_list v ! s) = length (A s)" "s < length (pos_list v)"
    using assms by (auto simp: ev_rel_def ev_inv_def dest: list_all2_lengthD)
  have lt: "idx < length (A s)" using Suc by simp
  have "ev_enumerate_from v s (idx + 1) = Inr (zip [idx + 1..<length (A s)] (drop (idx + 1) (A s)))"
    using Suc.hyps(2) lt by (intro Suc.hyps(1)) simp_all
  with lt len show ?case
    by (subst ev_enumerate_from.simps)
      (simp add: ev_get_entry_rel [OF assms(1,2)] upt_conv_Cons Cons_nth_drop_Suc [symmetric])
qed

section \<open>Adding\<close>

definition ev_put :: "entry_vec \<Rightarrow> nat \<Rightarrow> bytes \<Rightarrow> (nat \<times> entry_vec) result" where
  "ev_put v s bz =
     bindE (ev_add_slot v s (length bz)) (\<lambda>(offset, v).
     bindE (ev_last_mut v (\<lambda>buf. write_at buf offset bz)) (\<lambda>v.
     bindE (index (pos_list v) s) (\<lambda>ps. Inr (length ps - 1, v))))"

text \<open>The slot that \<^verbatim>\<open>_add_entry\<close> reserves when there is room.\<close>

lemma ev_add_slot_room:
  assumes inv: "ev_inv v" and room: "ev_room v" and len: "len \<le> BIG_BUF_SIZE"
    and s: "s < SHARD_COUNT"
  shows "\<exists>p bufs. ev_add_slot v s len = Inr (p mod BIG_BUF_SIZE,
      v\<lparr>buf_list := bufs, pos_list := (pos_list v)[s := pos_list v ! s @ [p]], next_pos := p + len\<rparr>)
    \<and> p div BIG_BUF_SIZE = length bufs - 1 \<and> p mod BIG_BUF_SIZE + len \<le> BIG_BUF_SIZE
    \<and> next_pos v \<le> p \<and> (bufs = buf_list v \<or> bufs = buf_list v @ [new_big_buf_boxed])"
proof -
  let ?B = BIG_BUF_SIZE and ?n = "length (buf_list v)"
  have n: "0 < ?n" and lo: "(?n - 1) * ?B \<le> next_pos v" and hi: "next_pos v < ?n * ?B"
    and sl: "s < length (pos_list v)"
    using inv room s by (auto simp: ev_inv_def ev_room_def)
  have "next_pos v div ?B = ?n - 1"
  proof (rule div_nat_eqI)
    show "?B * (?n - 1) \<le> next_pos v" using lo by (simp add: mult.commute)
    show "next_pos v < ?B * Suc (?n - 1)" using hi n by (simp add: mult.commute)
  qed
  then show ?thesis
  proof (cases "?B < next_pos v mod ?B + len")
    case True
    have "ev_add_slot v s len = Inr ((?n * ?B) mod ?B,
      v\<lparr>buf_list := buf_list v @ [new_big_buf_boxed],
        pos_list := (pos_list v)[s := pos_list v ! s @ [?n * ?B]], next_pos := ?n * ?B + len\<rparr>)"
      using True sl by (simp add: ev_add_slot_def)
    then show ?thesis using hi len
      by (intro exI [of _ "?n * ?B"] exI [of _ "buf_list v @ [new_big_buf_boxed]"]) simp
  next
    case False
    have "ev_add_slot v s len = Inr (next_pos v mod ?B,
      v\<lparr>buf_list := buf_list v, pos_list := (pos_list v)[s := pos_list v ! s @ [next_pos v]],
        next_pos := next_pos v + len\<rparr>)"
      using False sl by (simp add: ev_add_slot_def)
    then show ?thesis using False \<open>next_pos v div ?B = ?n - 1\<close>
      by (intro exI [of _ "next_pos v"] exI [of _ "buf_list v"]) simp
  qed
qed

text \<open>Storing into the last buffer at a position behind \<open>next_pos\<close> keeps what is held.\<close>

lemma ev_holds_store:
  assumes h: "ev_holds v q bz" and p: "p div BIG_BUF_SIZE = length bufs - 1"
    and fits: "p mod BIG_BUF_SIZE + length xs \<le> BIG_BUF_SIZE" and np: "next_pos v \<le> p"
    and bufs: "bufs = buf_list v \<or> bufs = buf_list v @ [new_big_buf_boxed]"
    and ne: "buf_list v \<noteq> []" and lens: "\<forall>b\<in>set bufs. length b = BIG_BUF_SIZE"
    and v': "buf_list v' = butlast bufs @ [splice (last bufs) (p mod BIG_BUF_SIZE) xs]"
      "next_pos v' = p + length xs"
  shows "ev_holds v' q bz"
proof -
  let ?i = "q div BIG_BUF_SIZE" and ?o = "q mod BIG_BUF_SIZE"
  have i: "?i < length (buf_list v)" and q: "q + length bz \<le> p" using h np by (auto simp: ev_holds_def)
  have bne: "bufs \<noteq> []" and old: "bufs ! ?i = buf_list v ! ?i" and il: "?i < length bufs"
    using bufs ne i by (auto simp: nth_append)
  have "take (length bz) (drop ?o (buf_list v' ! ?i)) = bz"
  proof (cases "?i = length bufs - 1")
    case True
    then have same: "?i = p div BIG_BUF_SIZE" using p by simp
    have "?o + length bz \<le> p mod BIG_BUF_SIZE"
    proof -
      have "q = ?i * BIG_BUF_SIZE + ?o" "p = ?i * BIG_BUF_SIZE + p mod BIG_BUF_SIZE"
        unfolding same by (metis div_mult_mod_eq same) (metis div_mult_mod_eq)
      with q show ?thesis by linarith
    qed
    moreover have "buf_list v' ! ?i = splice (bufs ! ?i) (p mod BIG_BUF_SIZE) xs"
      using True bne v'(1) by (simp add: nth_append last_conv_nth)
    moreover have "p mod BIG_BUF_SIZE \<le> length (bufs ! ?i)" using lens il fits by auto
    ultimately show ?thesis
      using h by (simp add: take_drop_splice_before old ev_holds_def)
  next
    case False
    then have "?i < length bufs - 1" using il by linarith
    then have "buf_list v' ! ?i = bufs ! ?i" using v'(1) by (simp add: nth_append nth_butlast)
    then show ?thesis using h by (simp add: old ev_holds_def)
  qed
  moreover have "length (buf_list v') = length bufs" using bne v'(1) by simp
  ultimately show ?thesis using h q il v'(2) by (simp add: ev_holds_def)
qed

lemma ev_put_refines:
  assumes rel: "ev_rel v A" and room: "ev_room v" and s: "s < SHARD_COUNT"
    and bz: "5 \<le> length bz" "length bz \<le> BIG_BUF_SIZE" "get_entry_len (take 5 bz) = Inr (length bz)"
  shows "\<exists>v'. ev_put v s bz = Inr (length (A s), v') \<and> ev_rel v' (A(s := A s @ [bz]))"
proof -
  have inv: "ev_inv v" using rel by (simp add: ev_rel_def)
  obtain p bufs where slot: "ev_add_slot v s (length bz) = Inr (p mod BIG_BUF_SIZE,
      v\<lparr>buf_list := bufs, pos_list := (pos_list v)[s := pos_list v ! s @ [p]],
        next_pos := p + length bz\<rparr>)"
    and p: "p div BIG_BUF_SIZE = length bufs - 1"
    and fits: "p mod BIG_BUF_SIZE + length bz \<le> BIG_BUF_SIZE" and np: "next_pos v \<le> p"
    and bufs: "bufs = buf_list v \<or> bufs = buf_list v @ [new_big_buf_boxed]"
    using ev_add_slot_room [OF inv room bz(2) s] by blast
  have ne: "buf_list v \<noteq> []" "bufs \<noteq> []" using inv bufs by (auto simp: ev_inv_def)
  have lens: "\<forall>b\<in>set bufs. length b = BIG_BUF_SIZE"
    using inv bufs by (auto simp: ev_inv_def new_big_buf_boxed_def)
  have last: "length (last bufs) = BIG_BUF_SIZE" using lens ne(2) by simp
  define v' where "v' = v\<lparr>buf_list := butlast bufs @ [splice (last bufs) (p mod BIG_BUF_SIZE) bz],
     pos_list := (pos_list v)[s := pos_list v ! s @ [p]], next_pos := p + length bz\<rparr>"
  have sl: "s < length (pos_list v)" using inv s by (simp add: ev_inv_def)
  have l: "length (pos_list v ! s) = length (A s)"
    using rel s by (auto simp: ev_rel_def dest: list_all2_lengthD)
  have put: "ev_put v s bz = Inr (length (A s), v')"
    using ne(2) fits last sl l by (simp add: ev_put_def slot ev_last_mut_def v'_def)
  have sp: "length (splice (last bufs) (p mod BIG_BUF_SIZE) bz) = BIG_BUF_SIZE"
    using fits last by simp
  have split: "p = (length bufs - 1) * BIG_BUF_SIZE + p mod BIG_BUF_SIZE"
    by (metis p div_mult_mod_eq)
  have "p + length bz \<le> (length bufs - 1) * BIG_BUF_SIZE + BIG_BUF_SIZE"
    using split fits by linarith
  also have "\<dots> = length bufs * BIG_BUF_SIZE"
    using ne(2) by (cases bufs) simp_all
  finally have top: "p + length bz \<le> length bufs * BIG_BUF_SIZE" .
  have inv': "ev_inv v'"
    using inv ne(2) lens sp split top
    by (auto simp: ev_inv_def v'_def dest: in_set_butlastD)
  have new: "ev_holds v' p bz"
    using bz(1,3) p ne(2) fits last take_drop_splice_same [of "p mod BIG_BUF_SIZE" "last bufs" bz]
    by (simp add: ev_holds_def v'_def nth_append)
  have old: "ev_holds v' q x" if "ev_holds v q x" for q x
    using that p fits np bufs ne(1) lens by (rule ev_holds_store) (simp_all add: v'_def)
  have "list_all2 (ev_holds v') (pos_list v' ! t) ((A(s := A s @ [bz])) t)" if "t < SHARD_COUNT" for t
  proof -
    have "list_all2 (ev_holds v) (pos_list v ! t) (A t)" using rel that by (simp add: ev_rel_def)
    then have "list_all2 (ev_holds v') (pos_list v ! t) (A t)" by (rule list_all2_mono) (rule old)
    then show ?thesis using new sl
      by (cases "t = s") (simp_all add: v'_def list_all2_appendI)
  qed
  with inv' put show ?thesis by (auto simp: ev_rel_def)
qed

lemma ev_add_entry_put:
  assumes "length (e_next_key_hash e) = 32" "get_serialized_len e (length dsns) \<le> BIG_BUF_SIZE"
    and "ev_inv v" "ev_add_slot v s (get_serialized_len e (length dsns)) = Inr (off, w)"
    and "off + get_serialized_len e (length dsns) \<le> BIG_BUF_SIZE"
    and "\<forall>b\<in>set (buf_list w). length b = BIG_BUF_SIZE" "buf_list w \<noteq> []"
    and "kh = b0 # khs" "s = unat b0 * 256 div SHARD_DIV"
  shows "ev_add_entry v kh e dsns = ev_put v s (entry_layout e dsns)"
proof -
  let ?buf = "last (buf_list w)"
  note len = length_entry_layout [OF assms(1), of dsns]
  have "length ?buf = BIG_BUF_SIZE" using assms(6,7) by simp
  then have "take off ?buf @ entry_layout e dsns
      @ drop (get_serialized_len e (length dsns)) (drop off ?buf) = splice ?buf off (entry_layout e dsns)"
    by (simp add: splice_def len add.commute)
  moreover have "get_serialized_len e (length dsns) \<le> length (drop off ?buf)"
    using assms(5) \<open>length ?buf = BIG_BUF_SIZE\<close> by simp
  ultimately show ?thesis
    using assms(4,5,7,8,9) \<open>length ?buf = BIG_BUF_SIZE\<close>
    by (simp add: ev_add_entry_def ev_put_def len ev_last_mut_def dump_eq [OF assms(1)])
qed

lemma layout_entry_len:
  assumes "entry_ok e dsns"
  shows "5 \<le> length (entry_layout e dsns)"
    and "get_entry_len (take 5 (entry_layout e dsns)) = Inr (length (entry_layout e dsns))"
proof -
  have h: "entry_header e dsns = entry_header e dsns @ []" by simp
  have t: "take 5 (entry_layout e dsns) = entry_header e dsns"
    by (simp add: entry_layout_def entry_payload_def)
  show "5 \<le> length (entry_layout e dsns)" by (simp add: entry_layout_def entry_payload_def)
  show "get_entry_len (take 5 (entry_layout e dsns)) = Inr (length (entry_layout e dsns))"
    unfolding t using length_entry_layout [of e dsns] assms
    by (subst h) (simp only: get_entry_len_def get_kv_len_header header_nth bindE.simps prod.case
        index_ok length_append length_entry_header,
        simp add: get_serialized_len_def entry_ok_simps header_nth [where rest = "[]", simplified])
qed

lemma shard_id_lt: "unat (b :: byte) * 256 div SHARD_DIV < SHARD_COUNT"
proof -
  have "unat b < 256" by (rule unat_byte_lt)
  then show ?thesis by (simp add: layout_defs less_mult_imp_div_less del: unat_byte_lt)
qed

text \<open>\<^verbatim>\<open>add_entry\<close> shards by the same bits as \<^verbatim>\<open>byte0_to_shard_id\<close>.\<close>

lemma shard_id_byte0: "unat b * 256 div SHARD_DIV = byte0_to_shard_id b"
  by (simp add: byte0_to_shard_id_def layout_defs)

section \<open>Properties\<close>

text \<open>C16. \<^verbatim>\<open>add_entry\<close> refines appending to the shard's list, unless the last buffer is exactly
  full (\<open>ev_room\<close>; that case is shown below): adding an entry that fits one buffer returns the index of the new entry in
  its shard, and all shards then enumerate exactly their former entries, the chosen one
  with the serialised entry behind them.\<close>

theorem ev_add_entry_refines:
  assumes rel: "ev_rel v A" and room: "ev_room v"
    and ok: "entry_ok e dsns" and fits: "get_serialized_len e (length dsns) \<le> BIG_BUF_SIZE"
    and kh: "length kh = 32"
  shows "\<exists>v'. let s = byte0_to_shard_id (kh ! 0); A' = A(s := A s @ [entry_layout e dsns]) in
    ev_add_entry v kh e dsns = Inr (length (A s), v') \<and> ev_rel v' A'
    \<and> (\<forall>t<SHARD_COUNT. ev_enumerate v' t = Inr (zip [0..<length (A' t)] (A' t)))"
proof -
  obtain b0 khs where k: "kh = b0 # khs" using kh by (cases kh) auto
  let ?s = "unat b0 * 256 div SHARD_DIV" and ?len = "get_serialized_len e (length dsns)"
  have inv: "ev_inv v" using rel by (simp add: ev_rel_def)
  have nkh: "length (e_next_key_hash e) = 32" using ok by (rule entry_ok_simps)
  obtain p bufs where slot: "ev_add_slot v ?s ?len = Inr (p mod BIG_BUF_SIZE,
      v\<lparr>buf_list := bufs, pos_list := (pos_list v)[?s := pos_list v ! ?s @ [p]], next_pos := p + ?len\<rparr>)"
    and pf: "p mod BIG_BUF_SIZE + ?len \<le> BIG_BUF_SIZE"
    and bufs: "bufs = buf_list v \<or> bufs = buf_list v @ [new_big_buf_boxed]"
    using ev_add_slot_room [OF inv room fits shard_id_lt [of b0]] by blast
  have "ev_add_entry v kh e dsns = ev_put v ?s (entry_layout e dsns)"
    by (rule ev_add_entry_put [OF nkh fits inv slot pf _ _ k refl])
      (use inv bufs in \<open>auto simp: ev_inv_def new_big_buf_boxed_def\<close>)
  moreover obtain v' where "ev_put v ?s (entry_layout e dsns) = Inr (length (A ?s), v')"
    and r: "ev_rel v' (A(?s := A ?s @ [entry_layout e dsns]))"
    using ev_put_refines [OF rel room shard_id_lt layout_entry_len(1) [OF ok] _ layout_entry_len(2) [OF ok]]
      fits length_entry_layout [OF nkh, of dsns] by metis
  moreover have "ev_enumerate v' t = Inr (zip [0..<length ((A(?s := A ?s @ [entry_layout e dsns])) t)]
      ((A(?s := A ?s @ [entry_layout e dsns])) t))" if "t < SHARD_COUNT" for t
    using ev_enumerate_from_rel [OF r that, of 0] by (simp add: ev_enumerate_def)
  ultimately show ?thesis
    unfolding Let_def k shard_id_byte0 nth_Cons_0
    by (intro exI [of _ v']) (simp del: fun_upd_apply)
qed

lemma ev_new_rel: "ev_rel ev_new (\<lambda>_. [])" "ev_room ev_new"
  by (simp_all add: ev_rel_def ev_inv_def ev_new_def new_big_buf_boxed_def ev_room_def)

theorem ev_add_entry_refines_witness:
  "\<exists>v'. let kh = replicate 32 0x35; s = byte0_to_shard_id (kh ! 0);
      A' = (\<lambda>_. [])(s := [] @ [entry_layout demo_entry [11, 12]]) in
    ev_add_entry ev_new kh demo_entry [11, 12] = Inr (length ([] :: bytes list), v') \<and> ev_rel v' A'
    \<and> (\<forall>t<SHARD_COUNT. ev_enumerate v' t = Inr (zip [0..<length (A' t)] (A' t)))"
proof -
  have "get_serialized_len demo_entry (length [11, 12 :: u64]) \<le> BIG_BUF_SIZE"
    by (simp add: demo_entry_ok layout_defs)
  from ev_add_entry_refines [OF ev_new_rel demo_entry_ok(1) this, of "replicate 32 0x35"]
  show ?thesis by (simp only: Let_def length_replicate simp_thms)
qed

text \<open>C39. The full-buffer corner: when the entries so far fill the last buffer exactly,
  \<^verbatim>\<open>_add_entry\<close> neither starts a new buffer nor notices. The next entry is written over
  the front of the full buffer, its recorded position lies in a buffer that does not
  exist, and reading it back panics.\<close>

theorem ev_full_buffer_overwrites:
  assumes inv: "ev_inv v" and full: "next_pos v = length (buf_list v) * BIG_BUF_SIZE"
    and ok: "entry_ok e dsns" and fits: "get_serialized_len e (length dsns) \<le> BIG_BUF_SIZE"
    and kh: "length kh = 32"
  shows "\<exists>i v'. ev_add_entry v kh e dsns = Inr (i, v')
    \<and> length (buf_list v') = length (buf_list v)
    \<and> take (length (entry_layout e dsns)) (last (buf_list v')) = entry_layout e dsns
    \<and> ev_get_entry v' (byte0_to_shard_id (kh ! 0)) i = Inl (Panic ''index out of bounds'')"
proof -
  obtain b0 khs where k: "kh = b0 # khs" using kh by (cases kh) auto
  define s where "s = unat b0 * 256 div SHARD_DIV"
  let ?len = "get_serialized_len e (length dsns)" and ?n = "length (buf_list v)"
  let ?bz = "entry_layout e dsns"
  have nkh: "length (e_next_key_hash e) = 32" using ok by (rule entry_ok_simps)
  note len = length_entry_layout [OF nkh, of dsns]
  have ne: "buf_list v \<noteq> []" and lens: "\<forall>b\<in>set (buf_list v). length b = BIG_BUF_SIZE"
    and s: "s < length (pos_list v)"
    using inv shard_id_lt [of b0] by (auto simp: ev_inv_def s_def)
  have last: "length (last (buf_list v)) = BIG_BUF_SIZE" using lens ne by simp
  define w where "w = v\<lparr>pos_list := (pos_list v)[s := pos_list v ! s @ [?n * BIG_BUF_SIZE]],
     next_pos := ?n * BIG_BUF_SIZE + ?len\<rparr>"
  have slot: "ev_add_slot v s ?len = Inr (0, w)"
    using full fits s by (simp add: ev_add_slot_def w_def)
  have "ev_add_entry v kh e dsns = ev_put v s ?bz"
    using slot fits by (intro ev_add_entry_put [OF nkh fits inv slot _ _ _ k s_def])
      (use ne lens in \<open>simp_all add: w_def\<close>)
  moreover have "ev_put v s ?bz = Inr (length (pos_list v ! s),
      w\<lparr>buf_list := butlast (buf_list v) @ [splice (last (buf_list v)) 0 ?bz]\<rparr>)"
    using s ne last fits by (simp add: ev_put_def len slot ev_last_mut_def w_def)
  moreover have "byte0_to_shard_id (kh ! 0) = s" by (simp add: k s_def shard_id_byte0)
  ultimately show ?thesis
    using s ne last by (simp add: ev_get_entry_def get_entry_by_pos_def w_def splice_def)
      (simp add: index_def)
qed

text \<open>The corner is reachable: one entry with a 65480-byte value fills the first buffer.\<close>

definition filling_entry :: entry where
  "filling_entry = demo_entry\<lparr>e_value := replicate 65480 1\<rparr>"

lemma filling_entry_len: "entry_ok filling_entry []"
  "length (entry_layout filling_entry []) = BIG_BUF_SIZE"
proof -
  show "entry_ok filling_entry []" by (simp add: filling_entry_def demo_entry_def entry_ok_def)
  show "length (entry_layout filling_entry []) = BIG_BUF_SIZE"
    using length_entry_layout [of filling_entry "[]"]
    by (simp add: filling_entry_def demo_entry_def get_serialized_len_def layout_defs)
qed

definition filled_vec :: entry_vec where
  "filled_vec = ev_new\<lparr>buf_list := [entry_layout filling_entry []],
     pos_list := (replicate SHARD_COUNT [])[0 := [0]], next_pos := BIG_BUF_SIZE\<rparr>"

lemma ev_add_filling: "ev_add_entry ev_new (replicate 32 0) filling_entry [] = Inr (0, filled_vec)"
proof -
  have nkh: "length (e_next_key_hash filling_entry) = 32"
    by (simp add: filling_entry_def demo_entry_def)
  have len: "get_serialized_len filling_entry (length []) = BIG_BUF_SIZE"
    using length_entry_layout [OF nkh, of "[]"] filling_entry_len(2) by simp
  have c: "0 < SHARD_COUNT" by (simp add: layout_defs)
  have slot: "ev_add_slot ev_new 0 (get_serialized_len filling_entry (length [])) =
      Inr (0, ev_new\<lparr>pos_list := (replicate SHARD_COUNT [])[0 := [0]], next_pos := BIG_BUF_SIZE\<rparr>)"
    unfolding len using c by (simp add: ev_add_slot_def ev_new_def)
  have "ev_add_entry ev_new (replicate 32 0) filling_entry [] =
      ev_put ev_new 0 (entry_layout filling_entry [])"
  proof (rule ev_add_entry_put [OF nkh _ _ slot])
    show "replicate 32 0 = (0::byte) # tl (replicate 32 0)" by (simp add: numeral_eq_Suc)
  qed (use ev_new_rel(1) len in \<open>simp_all add: ev_rel_def ev_new_def new_big_buf_boxed_def\<close>)
  also have "\<dots> = Inr (0, filled_vec)"
    using slot len c by (simp add: ev_put_def filling_entry_len ev_last_mut_def filled_vec_def)
      (simp add: ev_new_def new_big_buf_boxed_def filling_entry_len splice_def)
  finally show ?thesis .
qed

theorem ev_full_buffer_overwrites_witness:
  "\<exists>v i v'. ev_add_entry ev_new (replicate 32 0) filling_entry [] = Inr (0, v)
    \<and> ev_add_entry v (replicate 32 0) demo_entry [11, 12] = Inr (i, v')
    \<and> length (buf_list v') = length (buf_list v)
    \<and> take (length (entry_layout demo_entry [11, 12])) (last (buf_list v'))
        = entry_layout demo_entry [11, 12]
    \<and> ev_get_entry v' (byte0_to_shard_id (replicate 32 0 ! 0)) i
        = Inl (Panic ''index out of bounds'')"
proof -
  have "ev_inv filled_vec"
    by (simp add: ev_inv_def filled_vec_def filling_entry_len)
  moreover have "next_pos filled_vec = length (buf_list filled_vec) * BIG_BUF_SIZE"
    by (simp add: filled_vec_def)
  moreover have "get_serialized_len demo_entry (length [11, 12 :: u64]) \<le> BIG_BUF_SIZE"
    by (simp add: demo_entry_ok layout_defs)
  ultimately show ?thesis
    using ev_full_buffer_overwrites [OF _ _ demo_entry_ok(1), of filled_vec "replicate 32 0"]
      ev_add_filling by (simp del: replicate.simps)
qed

section \<open>Transport round trip\<close>

definition shard_bytes :: "nat list \<Rightarrow> bytes" where
  "shard_bytes ps = u64_le (word_of_nat (length ps)) @ sn_list_bytes (map word_of_nat ps)"

lemma length_shard_bytes [simp]: "length (shard_bytes ps) = 8 + 8 * length ps"
  by (simp add: shard_bytes_def)

lemma ev_write_shard_writes:
  assumes "length pre + length (shard_bytes ps) \<le> length b"
  shows "ev_write_shard ps (pre @ drop (length pre) b, length pre) =
    Inr ((pre @ shard_bytes ps) @ drop (length (pre @ shard_bytes ps)) b, length (pre @ shard_bytes ps))"
proof -
  let ?pre = "pre @ u64_le (word_of_nat (length ps))"
  have "write_at (pre @ drop (length pre) b) (length pre) (u64_le (word_of_nat (length ps))) =
      Inr (?pre @ drop (length ?pre) b)"
    using assms by (simp add: splice_def add.commute)
  moreover have "length ?pre + 8 * length (map word_of_nat ps :: u64 list) \<le> length b"
    using assms by simp
  note dump_sn_list_writes [OF this]
  ultimately show ?thesis by (simp add: ev_write_shard_def shard_bytes_def)
qed

lemma ev_write_shards_writes:
  "length pre + length (concat (map shard_bytes pl)) \<le> length b \<Longrightarrow>
   foldE ev_write_shard pl (pre @ drop (length pre) b, length pre) =
     Inr ((pre @ concat (map shard_bytes pl)) @ drop (length (pre @ concat (map shard_bytes pl))) b,
          length (pre @ concat (map shard_bytes pl)))"
proof (induction pl arbitrary: pre)
  case Nil
  then show ?case by simp
next
  case (Cons ps pl)
  have "length pre + length (shard_bytes ps) \<le> length b"
    and "length (pre @ shard_bytes ps) + length (concat (map shard_bytes pl)) \<le> length b"
    using Cons.prems by simp_all
  then show ?case
    by (simp only: foldE.simps bindE.simps ev_write_shard_writes Cons.IH) simp
qed

lemma ev_extend_bufs_eq:
  "\<forall>b\<in>set bufs. length b = BIG_BUF_SIZE \<Longrightarrow> i * BIG_BUF_SIZE \<le> np \<Longrightarrow>
   np \<le> (i + length bufs) * BIG_BUF_SIZE \<Longrightarrow>
   bufs \<noteq> [] \<longrightarrow> (i + length bufs - 1) * BIG_BUF_SIZE \<le> np \<Longrightarrow>
   ev_extend_bufs np i bufs bz = Inr (bz @ take (np - i * BIG_BUF_SIZE) (concat bufs))"
proof (induction bufs arbitrary: i bz)
  case Nil
  then show ?case by simp
next
  case (Cons b bufs)
  let ?B = BIG_BUF_SIZE
  show ?case
  proof (cases bufs)
    case Nil
    with Cons.prems show ?thesis by (auto simp: min_def)
  next
    case (Cons c cs)
    have nxt: "(i + 1) * ?B \<le> np"
    proof -
      have "(i + 1) * ?B \<le> (i + length (b # bufs) - 1) * ?B"
        using Cons by (intro mult_le_mono1) simp
      then show ?thesis using Cons.prems(4) by simp
    qed
    then have sz: "min (np - i * ?B) ?B = ?B" by (auto simp: min_def)
    have "ev_extend_bufs np (i + 1) bufs (bz @ b) =
        Inr ((bz @ b) @ take (np - (i + 1) * ?B) (concat bufs))"
      using Cons.prems nxt by (intro Cons.IH) simp_all
    moreover have "take (np - i * ?B) (concat (b # bufs)) = b @ take (np - (i + 1) * ?B) (concat bufs)"
      using nxt Cons.prems(1) by (simp add: diff_diff_left add.commute)
    ultimately show ?thesis using Cons.prems(1,2) nxt by (simp add: sz)
  qed
qed

definition ev_transport :: "entry_vec \<Rightarrow> bytes" where
  "ev_transport v = (u64_le (word_of_nat (next_pos v)) @ concat (map shard_bytes (pos_list v)))
     @ take (next_pos v) (concat (buf_list v))"

lemma length_concat_const:
  "\<forall>b\<in>set bufs. length b = n \<Longrightarrow> length (concat bufs) = length bufs * n"
  by (induction bufs) simp_all

lemma length_shards: "length (concat (map shard_bytes pl)) =
    8 * length pl + sum_list (map (\<lambda>ps. length ps * 8) pl)"
  by (induction pl) simp_all

lemma ev_to_bytes_eq:
  assumes "ev_inv v"
  shows "ev_to_bytes v = Inr (ev_transport v)"
proof -
  let ?pl = "pos_list v" and ?np = "next_pos v"
  let ?size = "(1 + SHARD_COUNT) * 8 + sum_list (map (\<lambda>ps. length ps * 8) ?pl)"
  let ?h = "u64_le (word_of_nat ?np)" and ?c = "concat (map shard_bytes ?pl)"
  have n: "length ?pl = SHARD_COUNT" and lens: "\<forall>b\<in>set (buf_list v). length b = BIG_BUF_SIZE"
    and bufs: "buf_list v \<noteq> []" "(length (buf_list v) - 1) * BIG_BUF_SIZE \<le> ?np"
      "?np \<le> length (buf_list v) * BIG_BUF_SIZE"
    using assms by (auto simp: ev_inv_def)
  have c: "length ?c = 8 * SHARD_COUNT + sum_list (map (\<lambda>ps. length ps * 8) ?pl)"
    by (simp add: length_shards n)
  have sl: "slice ?pl 0 SHARD_COUNT = Inr ?pl" by (simp add: n [symmetric])
  have w: "write_at (replicate ?size 0) 0 ?h = Inr (?h @ drop (length ?h) (replicate ?size 0))"
    by (simp add: splice_def)
  have "length ?h + length ?c \<le> length (replicate ?size (0::byte))" by (simp add: c)
  from ev_write_shards_writes [OF this] have f:
    "foldE ev_write_shard ?pl (?h @ drop (length ?h) (replicate ?size 0), 8) = Inr (?h @ ?c, ?size)"
    by (simp add: c)
  have e: "ev_extend_bufs ?np 0 (buf_list v) (?h @ ?c) = Inr (ev_transport v)"
    using ev_extend_bufs_eq [OF lens, of 0 ?np "?h @ ?c"] bufs by (simp add: ev_transport_def)
  have g: "?size + ?np = length (ev_transport v)"
    using bufs(3) length_concat_const [OF lens] by (simp add: ev_transport_def c)
  show ?thesis
    by (simp only: ev_to_bytes_def Let_def sl bindE.simps w f e prod.case g) simp
qed

text \<open>Reading: each reader consumes what the writer produced behind any prefix.\<close>

lemma read_u64_at_append: "read_u64_at (pre @ u64_le w @ rest) (length pre) = Inr w"
  by (simp add: read_u64_at_def)

lemma ev_read_positions_eq:
  "\<forall>p\<in>set ps. p < 2 ^ 64 \<Longrightarrow>
   ev_read_positions (pre @ sn_list_bytes (map word_of_nat ps) @ rest) (length ps) (length pre) =
     Inr (ps, length pre + 8 * length ps)"
proof (induction ps arbitrary: pre)
  case Nil
  then show ?case by simp
next
  case (Cons p ps)
  let ?w = "word_of_nat p :: u64" and ?r = "sn_list_bytes (map word_of_nat ps) @ rest"
  have p: "unat ?w = p" using Cons.prems by (simp add: unat_of_nat)
  have s: "pre @ sn_list_bytes (map word_of_nat (p # ps)) @ rest = pre @ u64_le ?w @ ?r"
    by (simp add: sn_list_bytes_def)
  have "ev_read_positions ((pre @ u64_le ?w) @ ?r) (length ps) (length (pre @ u64_le ?w)) =
      Inr (ps, length (pre @ u64_le ?w) + 8 * length ps)"
    using Cons.prems by (intro Cons.IH) simp
  then have "ev_read_positions (pre @ u64_le ?w @ ?r) (length ps) (length pre + 8) =
      Inr (ps, length pre + 8 + 8 * length ps)" by simp
  then show ?case unfolding s by (simp add: read_u64_at_append p)
qed

definition shard_sized :: "nat list \<Rightarrow> bool" where
  "shard_sized ps \<longleftrightarrow> length ps < 2 ^ 64 \<and> (\<forall>p\<in>set ps. p < 2 ^ 64)"

lemma ev_read_shards_eq:
  "\<forall>ps\<in>set pl. shard_sized ps \<Longrightarrow>
   ev_read_shards (pre @ concat (map shard_bytes pl) @ rest) (length pl) (length pre) =
     Inr (pl, length pre + length (concat (map shard_bytes pl)))"
proof (induction pl arbitrary: pre)
  case Nil
  then show ?case by simp
next
  case (Cons ps pl)
  let ?n = "word_of_nat (length ps) :: u64"
  let ?r = "concat (map shard_bytes pl) @ rest" and ?sn = "sn_list_bytes (map word_of_nat ps)"
  have n: "unat ?n = length ps" and small: "\<forall>p\<in>set ps. p < 2 ^ 64"
    using Cons.prems by (auto simp: shard_sized_def unat_of_nat)
  have s: "pre @ concat (map shard_bytes (ps # pl)) @ rest = pre @ u64_le ?n @ ?sn @ ?r"
    by (simp add: shard_bytes_def)
  have p: "ev_read_positions (pre @ u64_le ?n @ ?sn @ ?r) (length ps) (length pre + 8) =
      Inr (ps, length pre + 8 + 8 * length ps)"
    using ev_read_positions_eq [OF small, of "pre @ u64_le ?n" ?r] by simp
  have "ev_read_shards ((pre @ shard_bytes ps) @ ?r) (length pl) (length (pre @ shard_bytes ps)) =
      Inr (pl, length (pre @ shard_bytes ps) + length (concat (map shard_bytes pl)))"
    using Cons.prems by (intro Cons.IH) simp
  then have "ev_read_shards (pre @ u64_le ?n @ ?sn @ ?r) (length pl) (length pre + 8 + 8 * length ps) =
      Inr (pl, length pre + length (concat (map shard_bytes (ps # pl))))"
    by (simp add: shard_bytes_def add.assoc)
  then show ?case unfolding s
    by (simp add: read_u64_at_append n p del: concat.simps)
qed

text \<open>The last buffer comes back with zeros behind the part in use.\<close>

definition zero_tail :: "nat \<Rightarrow> bytes \<Rightarrow> bytes" where
  "zero_tail k b = take k b @ replicate (BIG_BUF_SIZE - k) 0"

lemma ev_read_bufs_eq:
  "\<forall>b\<in>set bufs. length b = BIG_BUF_SIZE \<Longrightarrow> bufs \<noteq> [] \<Longrightarrow>
   (length bufs - 1) * BIG_BUF_SIZE < m \<Longrightarrow> m \<le> length bufs * BIG_BUF_SIZE \<Longrightarrow>
   ev_read_bufs (pre @ take m (concat bufs)) (length bufs) (length pre) =
     Inr (butlast bufs @ [zero_tail (m - (length bufs - 1) * BIG_BUF_SIZE) (last bufs)],
          length pre + m)"
proof (induction bufs arbitrary: m pre)
  case Nil
  then show ?case by simp
next
  case (Cons b bufs)
  let ?B = BIG_BUF_SIZE
  show ?case
  proof (cases "bufs = []")
    case True
    with Cons.prems show ?thesis
      by (simp add: new_big_buf_boxed_def splice_def zero_tail_def)
  next
    case False
    have big: "?B < m"
    proof -
      have "?B \<le> (length (b # bufs) - 1) * ?B" using False by (cases bufs) simp_all
      then show ?thesis using Cons.prems(3) by linarith
    qed
    have lb: "length b = ?B" using Cons.prems(1) by simp
    have tk: "take m (concat (b # bufs)) = b @ take (m - ?B) (concat bufs)" using big lb by simp
    have tot: "length (concat bufs) = length bufs * ?B"
      using Cons.prems(1) by (intro length_concat_const) simp
    have "length (pre @ b @ take (m - ?B) (concat bufs)) - length pre \<ge> ?B" by (simp add: lb)
    then have size: "min (length (pre @ b @ take (m - ?B) (concat bufs)) - length pre) ?B = ?B"
      by (rule min.absorb2)
    have lo: "(length bufs - 1) * ?B < m - ?B" and hi: "m - ?B \<le> length bufs * ?B"
      using Cons.prems(3,4) False big by (cases bufs; simp add: algebra_simps; fail)+
    have "ev_read_bufs ((pre @ b) @ take (m - ?B) (concat bufs)) (length bufs) (length (pre @ b)) =
        Inr (butlast bufs @ [zero_tail (m - ?B - (length bufs - 1) * ?B) (last bufs)],
             length (pre @ b) + (m - ?B))"
      using Cons.prems(1) False lo hi by (intro Cons.IH) simp_all
    moreover have "m - ?B - (length bufs - 1) * ?B = m - (length (b # bufs) - 1) * ?B"
      using False by (cases bufs) simp_all
    ultimately show ?thesis
      using False lb big unfolding tk
      by (simp add: Let_def size [simplified] new_big_buf_boxed_def splice_def)
  qed
qed

lemma ev_from_transport:
  assumes inv: "ev_inv v" and packed: "(length (buf_list v) - 1) * BIG_BUF_SIZE < next_pos v"
    and small: "\<forall>ps\<in>set (pos_list v). shard_sized ps" "next_pos v < 2 ^ 64"
  shows "ev_from_bytes (ev_transport v) = Inr (v\<lparr>buf_list := butlast (buf_list v) @
    [zero_tail (next_pos v - (length (buf_list v) - 1) * BIG_BUF_SIZE) (last (buf_list v))]\<rparr>)"
proof -
  let ?np = "next_pos v" and ?pl = "pos_list v" and ?bufs = "buf_list v" and ?B = BIG_BUF_SIZE
  let ?h = "u64_le (word_of_nat ?np)" and ?c = "concat (map shard_bytes ?pl)"
  let ?t = "take ?np (concat ?bufs)"
  have lens: "\<forall>b\<in>set ?bufs. length b = ?B" and ne: "?bufs \<noteq> []" and hi: "?np \<le> length ?bufs * ?B"
    and n: "length ?pl = SHARD_COUNT" using inv by (auto simp: ev_inv_def)
  have tr: "ev_transport v = ?h @ ?c @ ?t" by (simp add: ev_transport_def)
  have np: "unat (word_of_nat ?np :: u64) = ?np" using small(2) by (simp add: unat_of_nat)
  have r0: "read_u64_at (?h @ ?c @ ?t) 0 = Inr (word_of_nat ?np)"
    using read_u64_at_append [of "[]"] by simp
  have r1: "ev_read_shards (?h @ ?c @ ?t) SHARD_COUNT 8 = Inr (?pl, length (?h @ ?c))"
    using ev_read_shards_eq [OF small(1), of ?h ?t] by (simp add: n)
  have k: "(?np + ?B - 1) div ?B = length ?bufs"
  proof (rule div_nat_eqI)
    have l: "length ?bufs * ?B = (length ?bufs - 1) * ?B + ?B" using ne by (cases ?bufs) simp_all
    show "?B * length ?bufs \<le> ?np + ?B - 1" using packed l by (simp add: mult.commute)
    show "?np + ?B - 1 < ?B * Suc (length ?bufs)" using hi BIG_pos
      by (simp add: mult.commute del: BIG_pos)
  qed
  have r2: "ev_read_bufs (?h @ ?c @ ?t) (length ?bufs) (length (?h @ ?c)) =
      Inr (butlast ?bufs @ [zero_tail (?np - (length ?bufs - 1) * ?B) (last ?bufs)],
           length (?h @ ?c) + ?np)"
    using ev_read_bufs_eq [OF lens ne packed hi, of "?h @ ?c"] by simp
  have g: "length (?h @ ?c) + ?np = length (?h @ ?c @ ?t)"
    using hi length_concat_const [OF lens] by simp
  show ?thesis unfolding tr
    by (simp only: ev_from_bytes_def r0 bindE.simps r1 prod.case np k r2 g guardE_True) simp
qed

lemma ev_holds_zero_tail:
  assumes inv: "ev_inv v" and h: "ev_holds v p bz"
  shows "ev_holds (v\<lparr>buf_list := butlast (buf_list v) @
    [zero_tail (next_pos v - (length (buf_list v) - 1) * BIG_BUF_SIZE) (last (buf_list v))]\<rparr>) p bz"
proof -
  let ?B = BIG_BUF_SIZE and ?n = "length (buf_list v)"
  let ?i = "p div ?B" and ?o = "p mod ?B" and ?k = "next_pos v - (?n - 1) * ?B"
  have ne: "buf_list v \<noteq> []" and i: "?i < ?n" using inv h by (auto simp: ev_inv_def ev_holds_def)
  show ?thesis
  proof (cases "?i = ?n - 1")
    case True
    have l: "length (last (buf_list v)) = ?B" using inv ne by (auto simp: ev_inv_def)
    have "p = (?n - 1) * ?B + ?o" by (metis True div_mult_mod_eq)
    then have "?o + length bz \<le> ?k" using h by (auto simp: ev_holds_def)
    moreover have "?k \<le> ?B" using inv ne by (cases "buf_list v") (auto simp: ev_inv_def)
    ultimately have "take (length bz) (drop ?o (zero_tail ?k (last (buf_list v)))) =
        take (length bz) (drop ?o (last (buf_list v)))"
      using l by (auto simp: zero_tail_def drop_take min_def)
    then show ?thesis using h True ne by (simp add: ev_holds_def nth_append last_conv_nth)
  next
    case False
    then have "?i < ?n - 1" using i by linarith
    then show ?thesis using h ne by (simp add: ev_holds_def nth_append nth_butlast)
  qed
qed

text \<open>C27. Transport round trip: a non-empty entry vector whose sizes fit 64 bits survives
  \<^verbatim>\<open>to_bytes\<close> and \<^verbatim>\<open>from_bytes\<close>; the receiver holds the same entries at the same
  positions, in every shard, and the same total size.\<close>

theorem ev_transport_roundtrip:
  assumes rel: "ev_rel v A" and packed: "(length (buf_list v) - 1) * BIG_BUF_SIZE < next_pos v"
    and small: "\<forall>ps\<in>set (pos_list v). shard_sized ps" "next_pos v < 2 ^ 64"
  shows "\<exists>v'. bindE (ev_to_bytes v) ev_from_bytes = Inr v' \<and> ev_rel v' A
    \<and> pos_list v' = pos_list v \<and> next_pos v' = next_pos v"
proof -
  let ?k = "next_pos v - (length (buf_list v) - 1) * BIG_BUF_SIZE"
  let ?v = "v\<lparr>buf_list := butlast (buf_list v) @ [zero_tail ?k (last (buf_list v))]\<rparr>"
  have inv: "ev_inv v" using rel by (simp add: ev_rel_def)
  have ne: "buf_list v \<noteq> []" and l: "length (last (buf_list v)) = BIG_BUF_SIZE"
    using inv by (auto simp: ev_inv_def)
  have "?k \<le> BIG_BUF_SIZE" using inv ne by (cases "buf_list v") (auto simp: ev_inv_def)
  then have "length (zero_tail ?k (last (buf_list v))) = BIG_BUF_SIZE"
    using l by (simp add: zero_tail_def)
  then have "ev_inv ?v" using inv ne by (auto simp: ev_inv_def dest: in_set_butlastD)
  moreover have "list_all2 (ev_holds ?v) (pos_list v ! s) (A s)" if "s < SHARD_COUNT" for s
  proof -
    have "list_all2 (ev_holds v) (pos_list v ! s) (A s)" using rel that by (simp add: ev_rel_def)
    then show ?thesis by (rule list_all2_mono) (rule ev_holds_zero_tail [OF inv])
  qed
  ultimately have "ev_rel ?v A" by (simp add: ev_rel_def)
  then show ?thesis
    by (intro exI [of _ ?v]) (simp add: ev_to_bytes_eq [OF inv] ev_from_transport [OF inv packed small])
qed

lemma filled_vec_rel:
  "ev_rel filled_vec (\<lambda>s. if s = 0 then [entry_layout filling_entry []] else [])"
proof -
  have "ev_holds filled_vec 0 (entry_layout filling_entry [])"
    using layout_entry_len [OF filling_entry_len(1)]
    by (simp add: ev_holds_def filled_vec_def filling_entry_len)
  then show ?thesis
    by (simp add: ev_rel_def ev_inv_def filled_vec_def filling_entry_len nth_list_update)
qed

theorem ev_transport_roundtrip_witness:
  "\<exists>v'. bindE (ev_to_bytes filled_vec) ev_from_bytes = Inr v'
    \<and> ev_rel v' (\<lambda>s. if s = 0 then [entry_layout filling_entry []] else [])
    \<and> pos_list v' = pos_list filled_vec \<and> next_pos v' = next_pos filled_vec"
proof (rule ev_transport_roundtrip [OF filled_vec_rel])
  have "set (pos_list filled_vec) \<subseteq> {[0], []}"
    using set_update_subset_insert [of "replicate SHARD_COUNT []" 0 "[0]"]
    by (auto simp: filled_vec_def)
  then show "\<forall>ps\<in>set (pos_list filled_vec). shard_sized ps"
    by (auto simp: shard_sized_def)
  show "(length (buf_list filled_vec) - 1) * BIG_BUF_SIZE < next_pos filled_vec"
    "next_pos filled_vec < 2 ^ 64" by (simp_all add: filled_vec_def layout_defs)
qed

end
