(* ===== verification/Bits.thy ===== *)
theory Bits
  imports Defs
begin

text \<open>
  The two bit sets of the program: \<^verbatim>\<open>ActiveBits\<close> of \<^verbatim>\<open>src/qmdb/src/merkletree/twig.rs\<close>
  (256 bytes per twig, one bit per leaf) and \<^verbatim>\<open>ActiveBits\<close> of
  \<^verbatim>\<open>src/qmdb/src/utils/activebits.rs\<close> (a map of segments, one bit per serial number).
  Their common contract is the locale \<open>bit_store\<close>; both models interpret it.
\<close>

section \<open>The contract of a bit set\<close>

datatype bit_op = SetBit nat | ClearBit nat

primrec bit_op_ix :: "bit_op \<Rightarrow> nat" where
  "bit_op_ix (SetBit n) = n"
| "bit_op_ix (ClearBit n) = n"

primrec bit_op_spec :: "bit_op \<Rightarrow> nat set \<Rightarrow> nat set" where
  "bit_op_spec (SetBit n) A = insert n A"
| "bit_op_spec (ClearBit n) A = A - {n}"

locale bit_store =
  fixes valid :: "nat \<Rightarrow> bool" and inv :: "'s \<Rightarrow> bool"
    and look :: "'s \<Rightarrow> nat \<Rightarrow> bool result"
    and put :: "'s \<Rightarrow> nat \<Rightarrow> 's result" and del :: "'s \<Rightarrow> nat \<Rightarrow> 's result"
  assumes look_ok: "inv s \<Longrightarrow> valid n \<Longrightarrow> \<exists>b. look s n = Inr b"
    and put_ok: "inv s \<Longrightarrow> valid n \<Longrightarrow> \<exists>s'. put s n = Inr s' \<and> inv s'
      \<and> (\<forall>m. valid m \<longrightarrow> look s' m = (if m = n then Inr True else look s m))"
    and del_ok: "inv s \<Longrightarrow> valid n \<Longrightarrow> \<exists>s'. del s n = Inr s' \<and> inv s'
      \<and> (\<forall>m. valid m \<longrightarrow> look s' m = (if m = n then Inr False else look s m))"
begin

definition members :: "'s \<Rightarrow> nat set" where
  "members s = {n. valid n \<and> look s n = Inr True}"

definition run_op :: "bit_op \<Rightarrow> 's \<Rightarrow> 's result" where
  "run_op p s = (case p of SetBit n \<Rightarrow> put s n | ClearBit n \<Rightarrow> del s n)"

lemma run_op_refines:
  assumes "inv s" "valid (bit_op_ix p)"
  shows "\<exists>s'. run_op p s = Inr s' \<and> inv s' \<and> members s' = bit_op_spec p (members s)"
proof (cases p)
  case (SetBit n)
  then obtain s' where "put s n = Inr s'" "inv s'"
    "\<forall>m. valid m \<longrightarrow> look s' m = (if m = n then Inr True else look s m)"
    using put_ok [OF assms(1), of n] assms(2) by auto
  with SetBit assms(2) show ?thesis by (auto simp: run_op_def members_def)
next
  case (ClearBit n)
  then obtain s' where "del s n = Inr s'" "inv s'"
    "\<forall>m. valid m \<longrightarrow> look s' m = (if m = n then Inr False else look s m)"
    using del_ok [OF assms(1), of n] assms(2) by auto
  with ClearBit assms(2) show ?thesis by (auto simp: run_op_def members_def split: if_splits)
qed

lemma run_refines:
  assumes "inv s" "\<forall>p\<in>set ps. valid (bit_op_ix p)"
  shows "\<exists>s'. foldE run_op ps s = Inr s' \<and> inv s' \<and> members s' = fold bit_op_spec ps (members s)"
  using assms
proof (induction ps arbitrary: s)
  case Nil
  then show ?case by simp
next
  case (Cons p ps)
  obtain s1 where s1: "run_op p s = Inr s1" "inv s1" "members s1 = bit_op_spec p (members s)"
    using run_op_refines [OF Cons.prems(1), of p] Cons.prems(2) by auto
  obtain s2 where "foldE run_op ps s1 = Inr s2" "inv s2" "members s2 = fold bit_op_spec ps (members s1)"
    using Cons.IH [OF s1(2)] Cons.prems(2) by auto
  with s1 show ?case by simp
qed

lemma look_members:
  assumes "inv s" "valid n"
  shows "look s n = Inr (n \<in> members s)"
  using look_ok [OF assms] assms(2) by (auto simp: members_def)

end

section \<open>Bit sets stored in words\<close>

lemma bit_words_update:
  fixes xs :: "'a::len word list"
  assumes "n div LENGTH('a) < length xs" "m div LENGTH('a) < length xs"
  shows "bit (xs[n div LENGTH('a) := set_bit (n mod LENGTH('a)) (xs ! (n div LENGTH('a)))]
            ! (m div LENGTH('a))) (m mod LENGTH('a))
         \<longleftrightarrow> m = n \<or> bit (xs ! (m div LENGTH('a))) (m mod LENGTH('a))" (is ?s)
    and "bit (xs[n div LENGTH('a) := unset_bit (n mod LENGTH('a)) (xs ! (n div LENGTH('a)))]
            ! (m div LENGTH('a))) (m mod LENGTH('a))
         \<longleftrightarrow> m \<noteq> n \<and> bit (xs ! (m div LENGTH('a))) (m mod LENGTH('a))" (is ?u)
proof -
  have eq: "m = n \<longleftrightarrow> m div LENGTH('a) = n div LENGTH('a) \<and> m mod LENGTH('a) = n mod LENGTH('a)"
    by (metis div_mult_mod_eq)
  have lt: "n mod LENGTH('a) < LENGTH('a)" by simp
  show ?s ?u
    using assms lt
    by (cases "m div LENGTH('a) = n div LENGTH('a)";
        auto simp: eq nth_list_update bit_set_bit_iff bit_unset_bit_iff)+
qed

section \<open>Active bits of a twig\<close>

definition ab_new :: bytes where
  "ab_new = replicate 256 0"

definition ab_set_bit :: "bytes \<Rightarrow> nat \<Rightarrow> bytes result" where
  "ab_set_bit b offset =
     (if LEAF_COUNT_IN_TWIG < offset then Inl (Panic ''Invalid ID'')
      else (let mask = push_bit (and offset 7) 1; pos = drop_bit 3 offset in
            bindE (index b pos) (\<lambda>x. Inr (b[pos := or x mask]))))"

definition ab_clear_bit :: "bytes \<Rightarrow> nat \<Rightarrow> bytes result" where
  "ab_clear_bit b offset =
     (if LEAF_COUNT_IN_TWIG < offset then Inl (Panic ''Invalid ID'')
      else (let mask = push_bit (and offset 7) 1; pos = drop_bit 3 offset in
            bindE (index b pos) (\<lambda>x. Inr (b[pos := and x (not mask)]))))"

definition ab_get_bit :: "bytes \<Rightarrow> nat \<Rightarrow> bool result" where
  "ab_get_bit b offset =
     (if LEAF_COUNT_IN_TWIG < offset then Inl (Panic ''Invalid ID'')
      else (let mask = push_bit (and offset 7) 1; pos = drop_bit 3 offset in
            bindE (index b pos) (\<lambda>x. Inr (and x mask \<noteq> 0))))"

definition ab_get_bits :: "bytes \<Rightarrow> nat \<Rightarrow> nat \<Rightarrow> bytes result" where
  "ab_get_bits b page_num page_size = slice b (page_num * page_size) ((page_num + 1) * page_size)"

lemma and_7: "and n 7 = n mod (8::nat)"
proof -
  have "(7::nat) = mask 3" by (simp add: mask_eq_exp_minus_1)
  then have "and n 7 = take_bit 3 n" by (simp only: take_bit_eq_mask)
  then show ?thesis by (simp add: take_bit_eq_mod)
qed

lemma drop_3: "drop_bit 3 n = n div (8::nat)"
  by (simp add: drop_bit_eq_div)

lemma ab_set_eq:
  assumes "length b = 256" "n < LEAF_COUNT_IN_TWIG"
  shows "ab_set_bit b n = Inr (b[n div 8 := set_bit (n mod 8) (b ! (n div 8))])"
    and "ab_clear_bit b n = Inr (b[n div 8 := unset_bit (n mod 8) (b ! (n div 8))])"
    and "ab_get_bit b n = Inr (bit (b ! (n div 8)) (n mod 8))"
proof -
  have "n div 8 < length b" using assms by (simp add: layout_defs less_mult_imp_div_less)
  then show "ab_set_bit b n = Inr (b[n div 8 := set_bit (n mod 8) (b ! (n div 8))])"
    and "ab_clear_bit b n = Inr (b[n div 8 := unset_bit (n mod 8) (b ! (n div 8))])"
    and "ab_get_bit b n = Inr (bit (b ! (n div 8)) (n mod 8))"
    using assms(2)
    by (simp_all only: ab_set_bit_def ab_clear_bit_def ab_get_bit_def Let_def and_7 drop_3 index_ok
        bindE.simps set_bit_eq_or unset_bit_eq_and_not bit_iff_and_push_bit_not_eq_0) simp_all
qed

lemma ab_update:
  fixes b :: bytes
  assumes "length b = 256" "n < LEAF_COUNT_IN_TWIG" "m < LEAF_COUNT_IN_TWIG"
  shows "bit (b[n div 8 := set_bit (n mod 8) (b ! (n div 8))] ! (m div 8)) (m mod 8)
      \<longleftrightarrow> m = n \<or> bit (b ! (m div 8)) (m mod 8)"
    and "bit (b[n div 8 := unset_bit (n mod 8) (b ! (n div 8))] ! (m div 8)) (m mod 8)
      \<longleftrightarrow> m \<noteq> n \<and> bit (b ! (m div 8)) (m mod 8)"
  using bit_words_update [of n b m] assms by (simp_all add: layout_defs less_mult_imp_div_less)

interpretation tb: bit_store "\<lambda>n. n < LEAF_COUNT_IN_TWIG" "\<lambda>b. length b = 256"
  ab_get_bit ab_set_bit ab_clear_bit
proof unfold_locales
  fix b :: bytes and n :: nat
  assume b: "length b = 256" and n: "n < LEAF_COUNT_IN_TWIG"
  show "\<exists>x. ab_get_bit b n = Inr x" using b n by (simp add: ab_set_eq)
  show "\<exists>s'. ab_set_bit b n = Inr s' \<and> length s' = 256 \<and>
      (\<forall>m<LEAF_COUNT_IN_TWIG. ab_get_bit s' m = (if m = n then Inr True else ab_get_bit b m))"
    using b n by (auto simp: ab_set_eq ab_update)
  show "\<exists>s'. ab_clear_bit b n = Inr s' \<and> length s' = 256 \<and>
      (\<forall>m<LEAF_COUNT_IN_TWIG. ab_get_bit s' m = (if m = n then Inr False else ab_get_bit b m))"
    using b n by (auto simp: ab_set_eq ab_update)
qed

text \<open>Twig offsets come from 11-bit masks; the guard of the three operations lets 2048
  through, which the array index then rejects.\<close>

lemma ab_offset_2048:
  "length b = 256 \<Longrightarrow> ab_get_bit b LEAF_COUNT_IN_TWIG = Inl (Panic ''index out of bounds'')"
  by (simp add: ab_get_bit_def drop_3 layout_defs index_def)

lemma tb_new: "tb.members ab_new = {}"
proof -
  have "ab_get_bit ab_new n = Inr False" if "n < LEAF_COUNT_IN_TWIG" for n
  proof -
    have "n div 8 < 256" using that by (simp add: layout_defs less_mult_imp_div_less)
    then show ?thesis using that by (simp add: ab_set_eq ab_new_def)
  qed
  then show ?thesis by (simp add: tb.members_def)
qed

section \<open>Segments of serial numbers\<close>

definition U32_COUNT :: nat where [layout_defs]: "U32_COUNT = 1024"
definition BIT_COUNT :: nat where [layout_defs]: "BIT_COUNT = 32 * U32_COUNT"

record segment =
  seg_count :: u32
  seg_arr :: "u32 list"

definition seg_new :: segment where
  "seg_new = \<lparr>seg_count = 0, seg_arr = replicate U32_COUNT 0\<rparr>"

definition seg_get :: "segment \<Rightarrow> nat \<Rightarrow> bool result" where
  "seg_get g n =
     (let i = n div 32; j = n mod 32; mask = push_bit j 1 in
      bindE (index (seg_arr g) i) (\<lambda>old. Inr (and old mask \<noteq> 0)))"

definition seg_set :: "segment \<Rightarrow> nat \<Rightarrow> segment result" where
  "seg_set g n =
     (let i = n div 32; j = n mod 32; mask = push_bit j 1 in
      bindE (index (seg_arr g) i) (\<lambda>old.
      let g = g\<lparr>seg_arr := (seg_arr g)[i := or old mask]\<rparr> in
      Inr (if and old mask = 0 then g\<lparr>seg_count := seg_count g + 1\<rparr> else g)))"

text \<open>\<^verbatim>\<open>clear\<close> returns whether the segment has become empty.\<close>

definition seg_clear :: "segment \<Rightarrow> nat \<Rightarrow> (bool \<times> segment) result" where
  "seg_clear g n =
     (let i = n div 32; j = n mod 32; mask = push_bit j 1 in
      bindE (index (seg_arr g) i) (\<lambda>old.
      let g = g\<lparr>seg_arr := (seg_arr g)[i := and old (not mask)]\<rparr> in
      if and old mask \<noteq> 0
      then Inr (seg_count g = 1, g\<lparr>seg_count := seg_count g - 1\<rparr>)
      else Inr (False, g)))"

type_synonym active_bits = "nat \<Rightarrow> segment option"

definition abits_get :: "active_bits \<Rightarrow> nat \<Rightarrow> bool result" where
  "abits_get m n =
     (let i = n div BIT_COUNT; j = n mod BIT_COUNT in
      case m i of Some seg \<Rightarrow> seg_get seg j | None \<Rightarrow> Inr False)"

definition abits_set :: "active_bits \<Rightarrow> nat \<Rightarrow> active_bits result" where
  "abits_set m n =
     (let i = n div BIT_COUNT; j = n mod BIT_COUNT in
      case m i of
        Some seg \<Rightarrow> bindE (seg_set seg j) (\<lambda>seg. Inr (m(i \<mapsto> seg)))
      | None \<Rightarrow> bindE (seg_set seg_new j) (\<lambda>seg. Inr (m(i \<mapsto> seg))))"

definition abits_clear :: "active_bits \<Rightarrow> nat \<Rightarrow> active_bits result" where
  "abits_clear m n =
     (let i = n div BIT_COUNT; j = n mod BIT_COUNT in
      case m i of
        Some seg \<Rightarrow> bindE (seg_clear seg j) (\<lambda>(need_remove, seg).
          Inr (if need_remove then m(i := None) else m(i \<mapsto> seg)))
      | None \<Rightarrow> Inr m)"

text \<open>The bits of a segment, and the invariant that ties the counter to them.\<close>

definition seg_bits :: "segment \<Rightarrow> nat set" where
  "seg_bits g = {n. n < BIT_COUNT \<and> bit (seg_arr g ! (n div 32)) (n mod 32)}"

definition seg_ok :: "segment \<Rightarrow> bool" where
  "seg_ok g \<longleftrightarrow> length (seg_arr g) = U32_COUNT \<and> unat (seg_count g) = card (seg_bits g)"

lemma finite_seg_bits [simp]: "finite (seg_bits g)"
  by (rule finite_subset [of _ "{..<BIT_COUNT}"]) (auto simp: seg_bits_def)

lemma card_seg_bits: "card (seg_bits g) \<le> BIT_COUNT"
  using card_mono [of "{..<BIT_COUNT}" "seg_bits g"] by (auto simp: seg_bits_def)

lemma seg_index: "length (seg_arr g) = U32_COUNT \<Longrightarrow> n < BIT_COUNT \<Longrightarrow> n div 32 < length (seg_arr g)"
  by (simp add: layout_defs less_mult_imp_div_less)

lemma seg_new_ok: "seg_ok seg_new" "seg_bits seg_new = {}"
proof -
  show "seg_bits seg_new = {}"
    by (auto simp: seg_bits_def seg_new_def layout_defs less_mult_imp_div_less)
  then show "seg_ok seg_new" by (simp add: seg_ok_def) (simp add: seg_new_def)
qed

lemma seg_get_eq: "seg_ok g \<Longrightarrow> n < BIT_COUNT \<Longrightarrow> seg_get g n = Inr (n \<in> seg_bits g)"
  using seg_index [of g n]
  by (auto simp: seg_get_def seg_ok_def seg_bits_def bit_iff_and_push_bit_not_eq_0)

lemma seg_set_eq:
  assumes "seg_ok g" "n < BIT_COUNT"
  shows "\<exists>g'. seg_set g n = Inr g' \<and> seg_ok g' \<and> seg_bits g' = insert n (seg_bits g)"
proof -
  let ?w = "seg_arr g ! (n div 32)"
  let ?arr = "(seg_arr g)[n div 32 := set_bit (n mod 32) ?w]"
  let ?old = "n \<in> seg_bits g"
  define g' where "g' = g\<lparr>seg_arr := ?arr, seg_count := (if ?old then seg_count g else seg_count g + 1)\<rparr>"
  have l: "length (seg_arr g) = U32_COUNT" using assms by (simp add: seg_ok_def)
  have b: "bit (?arr ! (m div 32)) (m mod 32) \<longleftrightarrow> m = n \<or> bit (seg_arr g ! (m div 32)) (m mod 32)"
    if "m < BIT_COUNT" for m
    using bit_words_update(1) [of n "seg_arr g" m] seg_index [OF l] assms(2) that by simp
  have bits: "seg_bits g' = insert n (seg_bits g)"
    using b assms(2) by (auto simp: seg_bits_def g'_def)
  have "and ?w (push_bit (n mod 32) 1) = 0 \<longleftrightarrow> \<not> ?old"
    using assms(2) by (simp add: seg_bits_def bit_iff_and_push_bit_not_eq_0)
  then have s: "seg_set g n = Inr g'"
    using seg_index [OF l assms(2)] by (simp add: seg_set_def Let_def g'_def set_bit_eq_or)
  have "seg_ok g'"
  proof (cases ?old)
    case True
    then show ?thesis using assms(1) bits l by (simp add: seg_ok_def insert_absorb) (simp add: g'_def)
  next
    case False
    have "unat (seg_count g) \<le> BIT_COUNT"
      using assms(1) card_seg_bits [of g] by (simp add: seg_ok_def)
    then have "unat (seg_count g + 1) = unat (seg_count g) + 1"
      by (simp add: unat_word_ariths layout_defs)
    then show ?thesis using assms(1) bits l False
      by (simp add: seg_ok_def) (simp add: g'_def)
  qed
  with s bits show ?thesis by blast
qed

lemma seg_clear_eq:
  assumes "seg_ok g" "n < BIT_COUNT"
  shows "\<exists>g'. seg_clear g n = Inr (n \<in> seg_bits g \<and> seg_bits g = {n}, g')
    \<and> seg_ok g' \<and> seg_bits g' = seg_bits g - {n}"
proof -
  let ?w = "seg_arr g ! (n div 32)"
  let ?arr = "(seg_arr g)[n div 32 := unset_bit (n mod 32) ?w]"
  let ?old = "n \<in> seg_bits g"
  define g' where "g' = g\<lparr>seg_arr := ?arr, seg_count := (if ?old then seg_count g - 1 else seg_count g)\<rparr>"
  have l: "length (seg_arr g) = U32_COUNT" and c: "unat (seg_count g) = card (seg_bits g)"
    using assms by (simp_all add: seg_ok_def)
  have b: "bit (?arr ! (m div 32)) (m mod 32) \<longleftrightarrow> m \<noteq> n \<and> bit (seg_arr g ! (m div 32)) (m mod 32)"
    if "m < BIT_COUNT" for m
    using bit_words_update(2) [of n "seg_arr g" m] seg_index [OF l] assms(2) that by simp
  have bits: "seg_bits g' = seg_bits g - {n}"
    using b by (auto simp: seg_bits_def g'_def)
  have "and ?w (push_bit (n mod 32) 1) = 0 \<longleftrightarrow> \<not> ?old"
    using assms(2) by (simp add: seg_bits_def bit_iff_and_push_bit_not_eq_0)
  moreover have "seg_count g = 1 \<longleftrightarrow> seg_bits g = {n}" if ?old
    using that c by (auto simp: word_unat_eq_iff card_1_singleton_iff)
  ultimately have s: "seg_clear g n = Inr (?old \<and> seg_bits g = {n}, g')"
    using seg_index [OF l assms(2)] by (auto simp: seg_clear_def Let_def g'_def unset_bit_eq_and_not)
  have "seg_ok g'"
  proof (cases ?old)
    case True
    then have "0 < unat (seg_count g)" using c by (auto simp: card_gt_0_iff)
    then have "unat (seg_count g - 1) = unat (seg_count g) - 1"
      by (simp add: unat_sub word_le_nat_alt)
    then show ?thesis using bits l True c by (simp add: seg_ok_def) (simp add: g'_def)
  next
    case False
    then show ?thesis using bits l c by (simp add: seg_ok_def) (simp add: g'_def)
  qed
  with s bits show ?thesis by blast
qed

definition abits_ok :: "active_bits \<Rightarrow> bool" where
  "abits_ok m \<longleftrightarrow> (\<forall>g\<in>ran m. seg_ok g \<and> seg_bits g \<noteq> {})"

definition abits_bits :: "active_bits \<Rightarrow> nat \<Rightarrow> nat set" where
  "abits_bits m i = (case m i of None \<Rightarrow> {} | Some g \<Rightarrow> seg_bits g)"

lemma BIT_COUNT_mod [simp]: "n mod BIT_COUNT < BIT_COUNT" by (simp add: layout_defs)

lemma abits_get_eq:
  "abits_ok m \<Longrightarrow> abits_get m n = Inr (n mod BIT_COUNT \<in> abits_bits m (n div BIT_COUNT))"
  by (auto simp: abits_get_def abits_bits_def abits_ok_def ran_def seg_get_eq split: option.splits)

lemma abits_set_eq:
  assumes "abits_ok m"
  shows "\<exists>m'. abits_set m n = Inr m' \<and> abits_ok m'
    \<and> abits_bits m' = (abits_bits m)(n div BIT_COUNT :=
         insert (n mod BIT_COUNT) (abits_bits m (n div BIT_COUNT)))"
proof -
  let ?i = "n div BIT_COUNT" and ?j = "n mod BIT_COUNT"
  define g where "g = (case m ?i of None \<Rightarrow> seg_new | Some g \<Rightarrow> g)"
  have "seg_ok g" "seg_bits g = abits_bits m ?i"
    using assms seg_new_ok by (auto simp: g_def abits_bits_def abits_ok_def ran_def split: option.splits)
  then obtain g' where g': "seg_set g ?j = Inr g'" "seg_ok g'"
      "seg_bits g' = insert ?j (abits_bits m ?i)"
    using seg_set_eq [of g ?j] by auto
  have "abits_set m n = Inr (m(?i \<mapsto> g'))"
    using g'(1) by (auto simp: abits_set_def g_def split: option.splits)
  moreover have "abits_ok (m(?i \<mapsto> g'))"
    using assms g'(2,3) by (auto simp: abits_ok_def ran_def)
  moreover have "abits_bits (m(?i \<mapsto> g')) = (abits_bits m)(?i := insert ?j (abits_bits m ?i))"
    by (auto simp: abits_bits_def fun_eq_iff g'(3))
  ultimately show ?thesis by blast
qed

lemma abits_clear_eq:
  assumes "abits_ok m"
  shows "\<exists>m'. abits_clear m n = Inr m' \<and> abits_ok m'
    \<and> abits_bits m' = (abits_bits m)(n div BIT_COUNT :=
         abits_bits m (n div BIT_COUNT) - {n mod BIT_COUNT})"
proof (cases "m (n div BIT_COUNT)")
  case None
  then show ?thesis
    using assms by (auto simp: abits_clear_def abits_bits_def fun_eq_iff)
next
  case (Some g)
  let ?i = "n div BIT_COUNT" and ?j = "n mod BIT_COUNT"
  have g: "seg_ok g" "seg_bits g \<noteq> {}" using assms Some by (auto simp: abits_ok_def ran_def)
  obtain g' where g': "seg_clear g ?j = Inr (?j \<in> seg_bits g \<and> seg_bits g = {?j}, g')"
    "seg_ok g'" "seg_bits g' = seg_bits g - {?j}" using seg_clear_eq [OF g(1), of ?j] by auto
  let ?m = "if seg_bits g = {?j} then m(?i := None) else m(?i \<mapsto> g')"
  have "abits_clear m n = Inr ?m" using Some g' by (auto simp: abits_clear_def)
  moreover have "abits_ok ?m" using assms g g'(2,3) by (auto simp: abits_ok_def ran_def)
  moreover have "abits_bits ?m = (abits_bits m)(?i := abits_bits m ?i - {?j})"
    using Some g' by (auto simp: abits_bits_def fun_eq_iff)
  ultimately show ?thesis by blast
qed

lemma div_mod_BIT: "m = n \<longleftrightarrow> m div BIT_COUNT = n div BIT_COUNT \<and> m mod BIT_COUNT = n mod BIT_COUNT"
  by (metis div_mult_mod_eq)

interpretation sb: bit_store "\<lambda>_. True" abits_ok abits_get abits_set abits_clear
proof unfold_locales
  fix m :: active_bits and n :: nat
  assume ok: "abits_ok m"
  show "\<exists>b. abits_get m n = Inr b" using ok by (simp add: abits_get_eq)
  show "\<exists>m'. abits_set m n = Inr m' \<and> abits_ok m' \<and>
      (\<forall>k. True \<longrightarrow> abits_get m' k = (if k = n then Inr True else abits_get m k))"
    using abits_set_eq [OF ok, of n] ok by (auto simp: abits_get_eq div_mod_BIT [where n = n])
  show "\<exists>m'. abits_clear m n = Inr m' \<and> abits_ok m' \<and>
      (\<forall>k. True \<longrightarrow> abits_get m' k = (if k = n then Inr False else abits_get m k))"
    using abits_clear_eq [OF ok, of n] ok by (auto simp: abits_get_eq div_mod_BIT [where n = n])
qed

lemma sb_empty: "abits_ok Map.empty" "sb.members Map.empty = {}"
  by (simp_all add: abits_ok_def sb.members_def abits_get_def)

lemma abits_dom:
  assumes "abits_ok m"
  shows "dom m = (\<lambda>n. n div BIT_COUNT) ` sb.members m"
proof (rule equalityI; rule subsetI)
  fix i assume "i \<in> dom m"
  then obtain g j where g: "m i = Some g" "seg_ok g" and j: "j \<in> seg_bits g"
    using assms by (fastforce simp: abits_ok_def ran_def)
  have jl: "j < BIT_COUNT" using j by (simp add: seg_bits_def)
  then have "(i * BIT_COUNT + j) div BIT_COUNT = i" "(i * BIT_COUNT + j) mod BIT_COUNT = j"
    by simp_all
  moreover from this have "i * BIT_COUNT + j \<in> sb.members m"
    using g j by (simp add: sb.members_def abits_get_def seg_get_eq jl)
  ultimately show "i \<in> (\<lambda>n. n div BIT_COUNT) ` sb.members m" by (metis imageI)
next
  fix i assume "i \<in> (\<lambda>n. n div BIT_COUNT) ` sb.members m"
  then show "i \<in> dom m"
    by (auto simp: sb.members_def abits_get_def split: option.splits)
qed

section \<open>Properties\<close>

definition twig_bit_op :: "bit_op \<Rightarrow> bytes \<Rightarrow> bytes result" where
  "twig_bit_op p b = (case p of SetBit n \<Rightarrow> ab_set_bit b n | ClearBit n \<Rightarrow> ab_clear_bit b n)"

definition sn_bit_op :: "bit_op \<Rightarrow> active_bits \<Rightarrow> active_bits result" where
  "sn_bit_op p m = (case p of SetBit n \<Rightarrow> abits_set m n | ClearBit n \<Rightarrow> abits_clear m n)"

lemma bit_op_runs: "twig_bit_op = tb.run_op" "sn_bit_op = sb.run_op"
  by (simp_all add: fun_eq_iff twig_bit_op_def sn_bit_op_def tb.run_op_def sb.run_op_def)

text \<open>The active bits of a twig behave as a set of leaf offsets: any sequence of set and
  clear operations on offsets below 2048, from the empty bits, succeeds, and reading any
  offset afterwards tells membership in the set that the same operations build.\<close>

theorem twig_bits_refine_set:
  assumes "\<forall>p\<in>set ps. bit_op_ix p < LEAF_COUNT_IN_TWIG"
  shows "\<exists>b. foldE twig_bit_op ps ab_new = Inr b \<and> length b = 256
    \<and> (\<forall>n<LEAF_COUNT_IN_TWIG. ab_get_bit b n = Inr (n \<in> fold bit_op_spec ps {}))"
proof -
  have "length ab_new = 256" by (simp add: ab_new_def)
  from tb.run_refines [OF this assms] show ?thesis
    unfolding bit_op_runs tb_new by (auto simp: tb.look_members)
qed

theorem twig_bits_refine_set_witness:
  "\<exists>b. foldE twig_bit_op [SetBit 2047, SetBit 25, ClearBit 2047] ab_new = Inr b \<and> length b = 256
    \<and> (\<forall>n<LEAF_COUNT_IN_TWIG. ab_get_bit b n =
         Inr (n \<in> fold bit_op_spec [SetBit 2047, SetBit 25, ClearBit 2047] {}))"
  by (rule twig_bits_refine_set) (simp add: layout_defs)

text \<open>The segmented active bits of the indexer behave as a set of serial numbers, for any
  sequence of set and clear operations from empty; no operation panics, no counter wraps,
  and a segment is allocated exactly when some bit of it is set, so memory is released
  with the last active entry of a segment.\<close>

theorem sn_bits_refine_set:
  "\<exists>m. foldE sn_bit_op ps Map.empty = Inr m
    \<and> (\<forall>n. abits_get m n = Inr (n \<in> fold bit_op_spec ps {}))
    \<and> dom m = (\<lambda>n. n div BIT_COUNT) ` fold bit_op_spec ps {}"
proof -
  from sb.run_refines [OF sb_empty(1), of ps] obtain m where
    "foldE sb.run_op ps Map.empty = Inr m" "abits_ok m" "sb.members m = fold bit_op_spec ps {}"
    by (auto simp: sb_empty)
  then show ?thesis
    unfolding bit_op_runs by (auto simp: sb.look_members abits_dom)
qed

end
