(* ===== verification/ShortList.thy ===== *)
theory ShortList
  imports Codec
begin

text \<open>
  \<^verbatim>\<open>src/qmdb/src/utils/shortlist.rs\<close>: a duplicate-free list of file positions that keeps up
  to two of them in a 14-byte array, seven bytes each, the first in little-endian and the
  second in big-endian order. The theorem relates it to a plain list.
\<close>

section \<open>Model\<close>

datatype short_list = SLArray (sl_size: byte) (sl_arr: bytes) | SLVector (sl_vec: "i64 list")

definition sl_new :: short_list where
  "sl_new = SLArray 0 (replicate 14 0)"

fun sl_len :: "short_list \<Rightarrow> nat" where
  "sl_len (SLArray sz arr) = unat sz"
| "sl_len (SLVector v) = length v"

fun sl_get :: "short_list \<Rightarrow> nat \<Rightarrow> i64 result" where
  "sl_get (SLArray sz arr) idx =
     (if idx = 0
      then bindE (slice arr 0 8) (\<lambda>s. bindE (read_u64 s) (\<lambda>w. Inr (drop_bit 8 (push_bit 8 w))))
      else bindE (slice arr 6 (length arr)) (\<lambda>s.
           bindE (read_u64_be s) (\<lambda>w. Inr (drop_bit 8 (push_bit 8 w)))))"
| "sl_get (SLVector v) idx = index v idx"

text \<open>The scan for a duplicate in \<^verbatim>\<open>append\<close>: \<open>fuel\<close> counts the indices left.\<close>

fun sl_scan :: "short_list \<Rightarrow> i64 \<Rightarrow> nat \<Rightarrow> nat \<Rightarrow> bool result" where
  "sl_scan l elem i 0 = Inr False"
| "sl_scan l elem i (Suc left) =
     bindE (sl_get l i) (\<lambda>x. if elem = x then Inr True else sl_scan l elem (i + 1) left)"

definition sl_push :: "short_list \<Rightarrow> i64 \<Rightarrow> short_list result" where
  "sl_push l elem = (case l of
     SLArray sz arr \<Rightarrow>
       if sz = 0 then
         bindE (write_at arr 0 (u64_le elem)) (\<lambda>arr. Inr (SLArray (sz + 1) arr))
       else if sz = 1 then
         bindE (index arr 6) (\<lambda>byte.
         bindE (write_at arr 6 (u64_be elem)) (\<lambda>arr.
           Inr (SLArray (sz + 1) (arr[6 := byte]))))
       else
         bindE (sl_get l 0) (\<lambda>a. bindE (sl_get l 1) (\<lambda>b. Inr (SLVector ([a, b] @ [elem]))))
   | SLVector v \<Rightarrow> Inr (SLVector (v @ [elem])))"

definition sl_append :: "short_list \<Rightarrow> i64 \<Rightarrow> short_list result" where
  "sl_append l elem =
     bindE (sl_scan l elem 0 (sl_len l)) (\<lambda>dup. if dup then Inr l else sl_push l elem)"

definition sl_from :: "i64 \<Rightarrow> short_list result" where
  "sl_from elem = sl_append (SLArray 0 (replicate 14 0)) elem"

fun sl_clear :: "short_list \<Rightarrow> short_list" where
  "sl_clear (SLArray sz arr) = SLArray 0 arr"
| "sl_clear (SLVector v) = SLVector []"

text \<open>\<^verbatim>\<open>enumerate\<close> with \<^verbatim>\<open>ShortListIter::next\<close>, and \<^verbatim>\<open>contains\<close> on top of it.\<close>

function sl_enumerate_from :: "short_list \<Rightarrow> nat \<Rightarrow> (nat \<times> i64) list result" where
  "sl_enumerate_from l idx =
     (if sl_len l \<le> idx then Inr []
      else bindE (sl_get l idx) (\<lambda>e.
           bindE (sl_enumerate_from l (idx + 1)) (\<lambda>r. Inr ((idx, e) # r))))"
  by pat_completeness auto
termination
  by (relation "measure (\<lambda>(l, idx). sl_len l - idx)") auto

declare sl_enumerate_from.simps [simp del]

definition sl_contains :: "short_list \<Rightarrow> i64 \<Rightarrow> bool result" where
  "sl_contains l elem =
     bindE (sl_enumerate_from l 0) (\<lambda>vs. Inr (elem \<in> snd ` set vs))"

section \<open>Seven-byte fields\<close>

lemma le_dec_append: "le_dec (xs @ ys) = le_dec xs + 256 ^ length xs * le_dec ys"
  by (induction xs) simp_all

lemma le_dec_take7:
  assumes "length bs = 8"
  shows "drop_bit 8 (push_bit 8 (word_of_nat (le_dec bs) :: u64)) = word_of_nat (le_dec (take 7 bs))"
proof -
  have "le_dec bs = le_dec (take 7 bs) + 2 ^ 56 * le_dec (drop 7 bs)"
    using le_dec_append [of "take 7 bs" "drop 7 bs"] assms by simp
  moreover have lt: "le_dec (take 7 bs) < 2 ^ 56"
    using le_dec_bound [of "take 7 bs"] assms by simp
  ultimately have t: "le_dec bs mod 2 ^ 56 = le_dec (take 7 bs)" by simp
  have "drop_bit 8 (push_bit 8 (word_of_nat (le_dec bs) :: u64)) =
      take_bit 56 (word_of_nat (le_dec bs))"
    by (rule bit_word_eqI) (auto simp: bit_simps)
  also have "\<dots> = word_of_nat (take_bit 56 (le_dec bs))"
    by (simp add: take_bit_of_nat)
  finally show ?thesis by (simp only: take_bit_eq_mod t)
qed

definition fld0 :: "bytes \<Rightarrow> i64" where "fld0 arr = word_of_nat (le_dec (take 7 arr))"
definition fld1 :: "bytes \<Rightarrow> i64" where "fld1 arr = word_of_nat (le_dec (rev (drop 7 arr)))"

lemma sl_get_array:
  assumes "length arr = 14"
  shows "sl_get (SLArray sz arr) 0 = Inr (fld0 arr)"
    and "sl_get (SLArray sz arr) (Suc i) = Inr (fld1 arr)"
proof -
  show "sl_get (SLArray sz arr) 0 = Inr (fld0 arr)"
    using assms le_dec_take7 [of "take 8 arr"]
    by (simp add: read_u64_def read_le_def fld0_def)
  show "sl_get (SLArray sz arr) (Suc i) = Inr (fld1 arr)"
    using assms le_dec_take7 [of "rev (drop 6 arr)"]
    by (simp add: read_u64_be_def fld1_def take_rev)
qed

lemma le_enc_snoc: "le_enc (Suc n) x = le_enc n x @ [word_of_nat (x div 256 ^ n)]"
  by (induction n arbitrary: x) (simp_all add: div_mult2_eq)

lemma le_enc_8: "\<exists>t. le_enc 8 x = le_enc 7 x @ [t]"
proof -
  have "8 = Suc 7" by simp
  then show ?thesis by (metis le_enc_snoc)
qed

lemma fld_small:
  assumes "unat x < 2 ^ 56"
  shows "word_of_nat (le_dec (le_enc 7 (unat x))) = (x :: u64)"
  using assms by (simp add: le_dec_enc)

lemma fld0_first:
  assumes "length arr = 14" "unat x < 2 ^ 56"
  shows "fld0 (splice arr 0 (u64_le x)) = x"
proof -
  obtain t where "le_enc 8 (unat x) = le_enc 7 (unat x) @ [t]" using le_enc_8 by blast
  then show ?thesis using assms fld_small by (simp add: fld0_def splice_def u64_le_def)
qed

lemma fld_second:
  assumes "length arr = 14" "unat x < 2 ^ 56"
  shows "fld1 ((splice arr 6 (u64_be x))[6 := arr ! 6]) = x"
    and "fld0 ((splice arr 6 (u64_be x))[6 := arr ! 6]) = fld0 arr"
proof -
  obtain t where t: "le_enc 8 (unat x) = le_enc 7 (unat x) @ [t]" using le_enc_8 by blast
  have arr: "(splice arr 6 (u64_be x))[6 := arr ! 6] = take 7 arr @ rev (le_enc 7 (unat x))"
    using assms(1)
    by (simp add: splice_def u64_be_def t list_update_append take_Suc_conv_app_nth [of 6, simplified])
  show "fld1 ((splice arr 6 (u64_be x))[6 := arr ! 6]) = x"
    using assms fld_small unfolding arr by (simp add: fld1_def)
  show "fld0 ((splice arr 6 (u64_be x))[6 := arr ! 6]) = fld0 arr"
    using assms unfolding arr by (simp add: fld0_def)
qed

section \<open>Refinement to a list\<close>

fun sl_ok :: "short_list \<Rightarrow> bool" where
  "sl_ok (SLArray sz arr) \<longleftrightarrow> length arr = 14 \<and> unat sz \<le> 2"
| "sl_ok (SLVector v) \<longleftrightarrow> True"

fun sl_abs :: "short_list \<Rightarrow> i64 list" where
  "sl_abs (SLArray sz arr) = take (unat sz) [fld0 arr, fld1 arr]"
| "sl_abs (SLVector v) = v"

lemma sl_len_abs: "sl_ok l \<Longrightarrow> length (sl_abs l) = sl_len l"
  by (cases l) simp_all

lemma sl_get_abs: "sl_ok l \<Longrightarrow> i < sl_len l \<Longrightarrow> sl_get l i = Inr (sl_abs l ! i)"
  by (cases l; cases i) (auto simp: sl_get_array nth_Cons' simp del: sl_get.simps(1))

lemma sl_scan_abs:
  "sl_ok l \<Longrightarrow> i + left = sl_len l \<Longrightarrow>
   sl_scan l x i left = Inr (x \<in> set (drop i (sl_abs l)))"
proof (induction left arbitrary: i)
  case 0
  then show ?case by (simp add: sl_len_abs)
next
  case (Suc left)
  then have "drop i (sl_abs l) = sl_abs l ! i # drop (i + 1) (sl_abs l)"
    by (simp add: Cons_nth_drop_Suc sl_len_abs)
  with Suc show ?case by (simp add: sl_get_abs)
qed

lemma sl_enumerate_abs:
  "sl_ok l \<Longrightarrow> idx \<le> sl_len l \<Longrightarrow>
   sl_enumerate_from l idx = Inr (zip [idx..<sl_len l] (drop idx (sl_abs l)))"
proof (induction "sl_len l - idx" arbitrary: idx)
  case 0
  then show ?case by (simp add: sl_enumerate_from.simps)
next
  case (Suc n)
  then have lt: "idx < sl_len l" by simp
  have "sl_enumerate_from l (idx + 1) = Inr (zip [idx + 1..<sl_len l] (drop (idx + 1) (sl_abs l)))"
    using Suc by (intro Suc.hyps(1)) simp_all
  with lt Suc.prems(1) show ?case
    by (subst sl_enumerate_from.simps)
      (simp add: sl_get_abs upt_conv_Cons sl_len_abs Cons_nth_drop_Suc [symmetric])
qed

lemma sl_push_abs:
  assumes "sl_ok l" "unat x < 2 ^ 56"
  shows "\<exists>l'. sl_push l x = Inr l' \<and> sl_ok l' \<and> sl_abs l' = sl_abs l @ [x]"
proof (cases l)
  case (SLVector v)
  then show ?thesis by (simp add: sl_push_def)
next
  case (SLArray sz arr)
  then have arr: "length arr = 14" and sz: "unat sz \<le> 2" using assms(1) by simp_all
  consider "sz = 0" | "sz = 1" | "sz = 2"
    using sz by (fastforce simp: word_unat_eq_iff)
  then show ?thesis
  proof cases
    case 1
    then show ?thesis using SLArray arr assms(2)
      by (simp add: sl_push_def fld0_first)
  next
    case 2
    then show ?thesis using SLArray arr fld_second [OF arr assms(2)]
      by (simp add: sl_push_def)
  next
    case 3
    then show ?thesis using SLArray arr
      by (simp add: sl_push_def sl_get_array del: sl_get.simps)
  qed
qed

definition add_new :: "'a \<Rightarrow> 'a list \<Rightarrow> 'a list" where
  "add_new x xs = (if x \<in> set xs then xs else xs @ [x])"

lemma sl_append_abs:
  assumes "sl_ok l" "unat x < 2 ^ 56"
  shows "\<exists>l'. sl_append l x = Inr l' \<and> sl_ok l' \<and> sl_abs l' = add_new x (sl_abs l)"
  using assms sl_push_abs [OF assms] sl_scan_abs [OF assms(1), of 0 "sl_len l" x]
  by (auto simp: sl_append_def add_new_def)

lemma sl_appends_abs:
  "sl_ok l \<Longrightarrow> \<forall>x\<in>set xs. unat x < 2 ^ 56 \<Longrightarrow>
   \<exists>l'. foldE (\<lambda>x l. sl_append l x) xs l = Inr l' \<and> sl_ok l' \<and> sl_abs l' = fold add_new xs (sl_abs l)"
proof (induction xs arbitrary: l)
  case Nil
  then show ?case by simp
next
  case (Cons x xs)
  obtain l1 where "sl_append l x = Inr l1" "sl_ok l1" "sl_abs l1 = add_new x (sl_abs l)"
    using sl_append_abs [OF Cons.prems(1), of x] Cons.prems(2) by auto
  with Cons.IH [of l1] Cons.prems(2) show ?case by simp
qed

lemma set_fold_add_new: "set (fold add_new xs acc) = set xs \<union> set acc"
  by (induction xs arbitrary: acc) (auto simp: add_new_def)

lemma distinct_fold_add_new: "distinct acc \<Longrightarrow> distinct (fold add_new xs acc)"
  by (induction xs arbitrary: acc) (auto simp: add_new_def)

section \<open>Property\<close>

text \<open>A short list built by appending 56-bit values holds each value once, in the order
  of first appearance, through the switch from the packed array to the vector: its length,
  every \<^verbatim>\<open>get\<close>, the iterator and \<^verbatim>\<open>contains\<close> agree with that list.\<close>

theorem short_list_refines_list:
  assumes "\<forall>x\<in>set xs. unat x < 2 ^ 56"
  shows "\<exists>l. foldE (\<lambda>x l. sl_append l x) xs sl_new = Inr l
    \<and> (let vs = fold add_new xs [] in
       distinct vs \<and> sl_len l = length vs \<and> (\<forall>i<length vs. sl_get l i = Inr (vs ! i))
       \<and> sl_enumerate_from l 0 = Inr (zip [0..<length vs] vs)
       \<and> (\<forall>x. sl_contains l x = Inr (x \<in> set xs)))"
proof -
  have new: "sl_ok sl_new" "sl_abs sl_new = []" by (simp_all add: sl_new_def)
  obtain l where l: "foldE (\<lambda>x l. sl_append l x) xs sl_new = Inr l" "sl_ok l"
    "sl_abs l = fold add_new xs []"
    using sl_appends_abs [OF new(1) assms] new(2) by auto
  have len: "sl_len l = length (fold add_new xs [])" using sl_len_abs [OF l(2)] l(3) by simp
  have en: "sl_enumerate_from l 0 = Inr (zip [0..<length (fold add_new xs [])] (fold add_new xs []))"
    using sl_enumerate_abs [OF l(2), of 0] by (simp add: l(3) len)
  have "snd ` set (zip [0..<length vs] vs) = set vs" for vs :: "i64 list"
    by (metis length_map list.set_map map_nth map_snd_zip)
  then have "sl_contains l x = Inr (x \<in> set xs)" for x
    by (simp add: sl_contains_def en set_fold_add_new)
  with l en len show ?thesis
    by (simp add: Let_def distinct_fold_add_new sl_get_abs)
qed

theorem short_list_refines_list_witness:
  "\<exists>l. foldE (\<lambda>x l. sl_append l x) [5, 7, 5, 9] sl_new = Inr l
    \<and> (let vs = fold add_new [5, 7, 5, 9] [] in
       distinct vs \<and> sl_len l = length vs \<and> (\<forall>i<length vs. sl_get l i = Inr (vs ! i))
       \<and> sl_enumerate_from l 0 = Inr (zip [0..<length vs] vs)
       \<and> (\<forall>x. sl_contains l x = Inr (x \<in> set [5, 7, 5, 9])))"
  by (rule short_list_refines_list) simp

end
