(* ===== verification/Twig.thy ===== *)
theory Twig
  imports Bits Entry
begin

text \<open>
  \<^verbatim>\<open>src/qmdb/src/merkletree/twig.rs\<close>: the 4096-slot Merkle tree over the 2048 leaves of a
  twig, its incremental update \<^verbatim>\<open>sync_mtree\<close>, the small tree over the active bits kept in
  \<^verbatim>\<open>Twig\<close>, and the null values. The reference definition is \<open>mnode\<close>, the Merkle hash of
  a range of leaves; the lemmas show that the incremental update restores it everywhere.
\<close>

section \<open>The reference tree\<close>

text \<open>\<open>mnode H b f l q\<close> is the node \<open>l\<close> levels above the leaves \<open>f\<close>, at index \<open>q\<close>; a node is
  hashed with the level of its children, and the leaves are at level \<open>b\<close>.\<close>

primrec mnode :: "hashfun \<Rightarrow> nat \<Rightarrow> (nat \<Rightarrow> hash32) \<Rightarrow> nat \<Rightarrow> nat \<Rightarrow> hash32" where
  "mnode H b f 0 q = f q"
| "mnode H b f (Suc l) q =
     hash2 H (word_of_nat (b + l)) (mnode H b f l (2 * q)) (mnode H b f l (2 * q + 1))"

abbreviation tnode :: "hashfun \<Rightarrow> (nat \<Rightarrow> hash32) \<Rightarrow> nat \<Rightarrow> nat \<Rightarrow> hash32" where
  "tnode H \<equiv> mnode H 0"

lemma mnode_cong:
  "(\<And>i. q * 2 ^ l \<le> i \<Longrightarrow> i < (q + 1) * 2 ^ l \<Longrightarrow> f i = g i) \<Longrightarrow> mnode H b f l q = mnode H b g l q"
proof (induction l arbitrary: q)
  case 0
  then show ?case by simp
next
  case (Suc l)
  have "mnode H b f l (2 * q) = mnode H b g l (2 * q)"
    "mnode H b f l (2 * q + 1) = mnode H b g l (2 * q + 1)"
    by (rule Suc.IH; rule Suc.prems; simp add: algebra_simps)+
  then show ?case by simp
qed

lemma mnode_const: "mnode H b (\<lambda>_. x) l q = mnode H b (\<lambda>_. x) l 0"
proof (induction l arbitrary: q)
  case 0
  then show ?case by simp
next
  case (Suc l)
  from Suc [of "2 * q"] Suc [of "2 * q + 1"] Suc [of 1] show ?case by simp
qed

section \<open>Updating the tree of a twig\<close>

text \<open>
  The arguments of \<^verbatim>\<open>sync_mtree\<close> are \<^verbatim>\<open>i32\<close>; no caller passes a negative one (the sentinel
  \<open>-1\<close> is filtered before the call), so they are naturals here. \<open>sync_row\<close> is the inner
  loop, \<open>sync_rows\<close> the outer one.
\<close>

function sync_row :: "hashfun \<Rightarrow> nat \<Rightarrow> nat \<Rightarrow> nat \<Rightarrow> nat \<Rightarrow> hash32 list \<Rightarrow> hash32 list result" where
  "sync_row H level base end_round j mtree =
     (if j \<le> end_round \<and> j + 1 < base then
        let i = base + j in
        bindE (index mtree i) (\<lambda>a. bindE (index mtree (i + 1)) (\<lambda>b.
        let node = node_hash_inplace H (word_of_nat level) a b in
        bindE (write_at mtree (i div 2) [node]) (\<lambda>mtree.
          sync_row H level base end_round (j + 2) mtree)))
      else Inr mtree)"
  by pat_completeness auto
termination
  by (relation "measure (\<lambda>(H, level, base, end_round, j, mtree). base - j)") auto

declare sync_row.simps [simp del]

function sync_rows :: "hashfun \<Rightarrow> nat \<Rightarrow> nat \<Rightarrow> nat \<Rightarrow> nat \<Rightarrow> hash32 list \<Rightarrow> hash32 list result" where
  "sync_rows H level base cur_start cur_end mtree =
     (if 2 \<le> base then
        let end_round = (if cur_end mod 2 = 1 then cur_end + 1 else cur_end);
            j = cur_start div 2 * 2 in
        bindE (sync_row H level base end_round j mtree) (\<lambda>mtree.
          sync_rows H (level + 1) (base div 2) (cur_start div 2) (cur_end div 2) mtree)
      else Inr mtree)"
  by pat_completeness auto
termination
  by (relation "measure (\<lambda>(H, level, base, s, e, mtree). base)") auto

declare sync_rows.simps [simp del]

definition sync_mtree :: "hashfun \<Rightarrow> hash32 list \<Rightarrow> nat \<Rightarrow> nat \<Rightarrow> hash32 list result" where
  "sync_mtree H mtree start end_leaf = sync_rows H 0 LEAF_COUNT_IN_TWIG start end_leaf mtree"

section \<open>Twig record\<close>

record twig =
  active_bits_mtl1 :: "hash32 list"
  active_bits_mtl2 :: "hash32 list"
  active_bits_mtl3 :: hash32
  left_root :: hash32
  twig_root :: hash32

definition twig_new :: twig where
  "twig_new = \<lparr>active_bits_mtl1 = replicate 4 (replicate 32 0),
     active_bits_mtl2 = replicate 2 (replicate 32 0), active_bits_mtl3 = replicate 32 0,
     left_root = replicate 32 0, twig_root = replicate 32 0\<rparr>"

definition sync_l1 :: "hashfun \<Rightarrow> twig \<Rightarrow> nat \<Rightarrow> bytes \<Rightarrow> twig result" where
  "sync_l1 H t pos active_bits =
     (if pos < 4 then
        bindE (ab_get_bits active_bits (2 * pos) 32) (\<lambda>a.
        bindE (ab_get_bits active_bits (2 * pos + 1) 32) (\<lambda>b.
          Inr (t\<lparr>active_bits_mtl1 := (active_bits_mtl1 t)[pos := node_hash_inplace H 8 a b]\<rparr>)))
      else Inl (Panic ''Can not reach here!''))"

definition sync_l2 :: "hashfun \<Rightarrow> twig \<Rightarrow> nat \<Rightarrow> twig result" where
  "sync_l2 H t pos =
     (if pos < 2 then
        bindE (index (active_bits_mtl1 t) (2 * pos)) (\<lambda>a.
        bindE (index (active_bits_mtl1 t) (2 * pos + 1)) (\<lambda>b.
          Inr (t\<lparr>active_bits_mtl2 := (active_bits_mtl2 t)[pos := node_hash_inplace H 9 a b]\<rparr>)))
      else Inl (Panic ''Can not reach here!''))"

definition sync_l3 :: "hashfun \<Rightarrow> twig \<Rightarrow> twig result" where
  "sync_l3 H t =
     bindE (index (active_bits_mtl2 t) 0) (\<lambda>a. bindE (index (active_bits_mtl2 t) 1) (\<lambda>b.
       Inr (t\<lparr>active_bits_mtl3 := node_hash_inplace H 10 a b\<rparr>)))"

definition sync_top :: "hashfun \<Rightarrow> twig \<Rightarrow> twig" where
  "sync_top H t = t\<lparr>twig_root := node_hash_inplace H 11 (left_root t) (active_bits_mtl3 t)\<rparr>"

section \<open>Null values\<close>

definition create_null_mt_for_twig :: "hashfun \<Rightarrow> hash32 list result" where
  "create_null_mt_for_twig H =
     bindE (null_entry (replicate (ENTRY_BASE_LENGTH + 8) 0)) (\<lambda>bz.
     bindE (ebz_hash H bz) (\<lambda>null_hash.
       sync_mtree H (replicate 2048 ZERO_HASH32 @ replicate 2048 null_hash) 0 2047))"

definition create_null_twig :: "hashfun \<Rightarrow> hash32 \<Rightarrow> twig result" where
  "create_null_twig H null_mt_root =
     bindE (sync_l1 H twig_new 0 ab_new) (\<lambda>t. bindE (sync_l1 H t 1 ab_new) (\<lambda>t.
     bindE (sync_l1 H t 2 ab_new) (\<lambda>t. bindE (sync_l1 H t 3 ab_new) (\<lambda>t.
     bindE (sync_l2 H t 0) (\<lambda>t. bindE (sync_l2 H t 1) (\<lambda>t.
     bindE (sync_l3 H t) (\<lambda>t.
       Inr (sync_top H (t\<lparr>left_root := null_mt_root\<rparr>)))))))))"

definition create_null_node_in_higher_tree :: "hashfun \<Rightarrow> twig \<Rightarrow> hash32 list" where
  "create_null_node_in_higher_tree H null_twig =
     (let ns = (replicate 64 ZERO_HASH32)
            [FIRST_LEVEL_ABOVE_TWIG :=
               hash2 H (word_of_nat TWIG_ROOT_LEVEL) (twig_root null_twig) (twig_root null_twig)] in
      fold (\<lambda>i ns. ns[i := hash2 H (word_of_nat (i - 1)) (ns ! (i - 1)) (ns ! (i - 1))])
        [FIRST_LEVEL_ABOVE_TWIG + 1..<64] ns)"

definition get_init_data :: "hashfun \<Rightarrow> (hash32 list \<times> twig \<times> hash32 list) result" where
  "get_init_data H =
     bindE (create_null_mt_for_twig H) (\<lambda>mt.
     bindE (index mt 1) (\<lambda>root.
     bindE (create_null_twig H root) (\<lambda>t.
       Inr (mt, t, create_null_node_in_higher_tree H t))))"

section \<open>The update restores the reference tree\<close>

lemma sync_row_nth:
  assumes "length mt = 4096" "base \<le> 2048" "even base" "even j"
  shows "\<exists>mt'. sync_row H l base er j mt = Inr mt' \<and> length mt' = 4096
    \<and> (\<forall>k<4096. mt' ! k =
          (if base div 2 + j div 2 \<le> k \<and> k \<le> base div 2 + er div 2 \<and> k < base
           then hash2 H (word_of_nat l) (mt ! (2 * k)) (mt ! (2 * k + 1)) else mt ! k))"
  using assms
proof (induction "base - j" arbitrary: j mt rule: less_induct)
  case less
  obtain b where b: "base = 2 * b" using less.prems(3) by blast
  obtain i where i: "j = 2 * i" using less.prems(4) by blast
  show ?case
  proof (cases "j \<le> er \<and> j + 1 < base")
    case True
    let ?p = "b + i"
    let ?h = "hash2 H (word_of_nat l) (mt ! (2 * ?p)) (mt ! (2 * ?p + 1))"
    let ?mt = "mt[?p := ?h]"
    have lt: "?p < b + b" "2 * ?p + 1 < length mt" using True b i less.prems(1,2) by auto
    have step: "sync_row H l base er j mt = sync_row H l base er (j + 2) ?mt"
      using True lt b i
      by (subst sync_row.simps) (simp add: Let_def node_hash_inplace_eq distrib_left flip: list_update_splice)
    have "base - (j + 2) < base - j" using True by auto
    from less.hyps [OF this, of ?mt] obtain mt' where mt':
      "sync_row H l base er (j + 2) ?mt = Inr mt'" "length mt' = 4096"
      "\<forall>k<4096. mt' ! k =
          (if b + Suc i \<le> k \<and> k \<le> b + er div 2 \<and> k < base
           then hash2 H (word_of_nat l) (?mt ! (2 * k)) (?mt ! (2 * k + 1)) else ?mt ! k)"
      using less.prems b i by auto
    have "mt' ! k = (if b + i \<le> k \<and> k \<le> b + er div 2 \<and> k < base
           then hash2 H (word_of_nat l) (mt ! (2 * k)) (mt ! (2 * k + 1)) else mt ! k)"
      if "k < 4096" for k
    proof (cases "k = ?p")
      case True
      moreover have "i \<le> er div 2" using \<open>j \<le> er \<and> j + 1 < base\<close> i by auto
      ultimately show ?thesis using mt'(3) that lt b by auto
    next
      case False
      then show ?thesis using mt'(3) that lt b by auto
    qed
    then show ?thesis using step mt'(1,2) b i by auto
  next
    case False
    then have "\<not> (b + i \<le> k \<and> k \<le> b + er div 2 \<and> k < base)" for k
      using b i by auto
    moreover have "sync_row H l base er j mt = Inr mt" using False by (subst sync_row.simps) auto
    ultimately show ?thesis using less.prems(1) b i by auto
  qed
qed

text \<open>\<open>mt_upto H f d L mt\<close>: rows up to \<open>L\<close> agree with the reference tree over \<open>f\<close>, and
  above them every node outside the dirty set \<open>d\<close> does.\<close>

definition mt_upto ::
  "hashfun \<Rightarrow> (nat \<Rightarrow> hash32) \<Rightarrow> (nat \<Rightarrow> nat \<Rightarrow> bool) \<Rightarrow> nat \<Rightarrow> hash32 list \<Rightarrow> bool" where
  "mt_upto H f d L mt \<longleftrightarrow> length mt = 4096 \<and>
     (\<forall>m\<le>11. \<forall>q<2 ^ (11 - m). m \<le> L \<or> \<not> d m q \<longrightarrow> mt ! (2 ^ (11 - m) + q) = tnode H f m q)"

definition dirty :: "nat \<Rightarrow> nat \<Rightarrow> nat \<Rightarrow> nat \<Rightarrow> bool" where
  "dirty s e m q \<longleftrightarrow> s div 2 ^ m \<le> q \<and> q \<le> e div 2 ^ m"

lemma sync_row_upto:
  assumes inv: "mt_upto H f (dirty s e) l mt" and l: "l < 11"
  shows "\<exists>mt'. sync_row H l (2 ^ (11 - l))
      (if e div 2 ^ l mod 2 = 1 then e div 2 ^ l + 1 else e div 2 ^ l) (s div 2 ^ l div 2 * 2) mt = Inr mt'
    \<and> mt_upto H f (dirty s e) (Suc l) mt'"
proof -
  let ?b = "2 ^ (10 - l) :: nat"
  let ?er = "if e div 2 ^ l mod 2 = 1 then e div 2 ^ l + 1 else e div 2 ^ l"
  have base: "(2::nat) ^ (11 - l) = 2 * ?b"
    using l by (metis Suc_diff_le less_Suc_eq_le numeral_eq_Suc pred_numeral_simps(2)
        pred_numeral_simps(3) power_Suc)
  have len: "length mt = 4096" using inv by (simp add: mt_upto_def)
  have "(2::nat) ^ (11 - l) \<le> 2 ^ 11" by (intro power_increasing) simp_all
  then have small: "2 * ?b \<le> 2048" by (simp add: base)
  from sync_row_nth [OF len this, of "s div 2 ^ l div 2 * 2" H l ?er] obtain mt' where
    mt': "sync_row H l (2 * ?b) ?er (s div 2 ^ l div 2 * 2) mt = Inr mt'" "length mt' = 4096"
    and nth: "\<And>k. k < 4096 \<Longrightarrow> mt' ! k =
          (if ?b + s div 2 ^ l div 2 \<le> k \<and> k \<le> ?b + ?er div 2 \<and> k < 2 * ?b
           then hash2 H (word_of_nat l) (mt ! (2 * k)) (mt ! (2 * k + 1)) else mt ! k)"
    by auto
  have end_ge: "e div 2 ^ l div 2 \<le> ?er div 2" by auto
  have row: "mt' ! (2 ^ (11 - m) + q) = tnode H f m q"
    if m: "m \<le> 11" "q < 2 ^ (11 - m)" "m \<le> Suc l \<or> \<not> dirty s e m q" for m q
  proof -
    have k: "2 ^ (11 - m) + q < 4096"
    proof -
      have "(2::nat) ^ (11 - m) \<le> 2 ^ 11" by (intro power_increasing) simp_all
      then show ?thesis using m(2) by simp
    qed
    have old: "mt ! (2 ^ (11 - m') + q') = tnode H f m' q'"
      if "m' \<le> 11" "q' < 2 ^ (11 - m')" "m' \<le> l \<or> \<not> dirty s e m' q'" for m' q'
      using inv that unfolding mt_upto_def by blast
    consider "m \<le> l" | "m = Suc l" | "Suc l < m" by linarith
    then show ?thesis
    proof cases
      case 1
      then have "(2::nat) ^ (11 - l) \<le> 2 ^ (11 - m)" by (intro power_increasing) simp_all
      then show ?thesis using nth [OF k] old [OF m(1,2)] 1 by (simp add: base)
    next
      case 2
      then have b: "2 ^ (11 - m) = ?b" by simp
      have q: "2 * q < 2 ^ (11 - l)" "2 * q + 1 < 2 ^ (11 - l)" using m(2) b base by simp_all
      have ch: "mt ! (2 * (?b + q)) = tnode H f l (2 * q)"
        "mt ! (2 * (?b + q) + 1) = tnode H f l (2 * q + 1)"
        using old [of l "2 * q"] old [of l "2 * q + 1"] q l base
        by (simp_all add: distrib_left)
      show ?thesis
      proof (cases "s div 2 ^ l div 2 \<le> q \<and> q \<le> ?er div 2")
        case True
        then show ?thesis using nth [OF k] m(2) 2 ch unfolding b by simp
      next
        case False
        then have "\<not> dirty s e m q" using end_ge unfolding 2 dirty_def div_pow_Suc by linarith
        then show ?thesis using nth [OF k] old [OF m(1,2)] False unfolding b by auto
      qed
    next
      case 3
      then have "(2::nat) * 2 ^ (11 - m) = 2 ^ (Suc (11 - m))" and "Suc (11 - m) \<le> 10 - l"
        using m(1) by simp_all
      then have "2 * 2 ^ (11 - m) \<le> ?b" by (metis one_le_numeral power_increasing)
      then have "2 ^ (11 - m) + q < ?b" using m(2) by linarith
      then show ?thesis using nth [OF k] old [OF m(1,2)] m(3) 3 by simp
    qed
  qed
  have "mt_upto H f (dirty s e) (Suc l) mt'"
    using mt'(2) row by (simp add: mt_upto_def)
  with mt'(1) show ?thesis by (auto simp: base)
qed

lemma sync_rows_upto:
  "mt_upto H f (dirty s e) l mt \<Longrightarrow> l \<le> 11 \<Longrightarrow>
   \<exists>mt'. sync_rows H l (2 ^ (11 - l)) (s div 2 ^ l) (e div 2 ^ l) mt = Inr mt'
     \<and> mt_upto H f (dirty s e) 11 mt'"
proof (induction "11 - l" arbitrary: l mt)
  case 0
  then show ?case by (auto simp: sync_rows.simps)
next
  case (Suc n)
  then have l: "l < 11" by simp
  have base: "2 \<le> (2::nat) ^ (11 - l)" "(2::nat) ^ (11 - l) div 2 = 2 ^ (11 - Suc l)"
    using l by (simp_all add: Suc_diff_Suc power_Suc flip: Suc_diff_Suc [of l 11])
  obtain mt1 where mt1: "sync_row H l (2 ^ (11 - l))
      (if e div 2 ^ l mod 2 = 1 then e div 2 ^ l + 1 else e div 2 ^ l) (s div 2 ^ l div 2 * 2) mt = Inr mt1"
    "mt_upto H f (dirty s e) (Suc l) mt1" using sync_row_upto [OF Suc.prems(1) l] by blast
  have "\<exists>mt'. sync_rows H (Suc l) (2 ^ (11 - Suc l)) (s div 2 ^ Suc l) (e div 2 ^ Suc l) mt1 = Inr mt'
      \<and> mt_upto H f (dirty s e) 11 mt'"
    using Suc.hyps(2) l by (intro Suc.hyps(1) mt1(2)) simp_all
  with mt1(1) base show ?case
    by (subst sync_rows.simps) (simp add: Let_def div_pow_Suc del: power_Suc)
qed

text \<open>\<open>mt_of H f mt\<close>: the array is the whole reference tree over leaves \<open>f\<close>.\<close>

definition mt_of :: "hashfun \<Rightarrow> (nat \<Rightarrow> hash32) \<Rightarrow> hash32 list \<Rightarrow> bool" where
  "mt_of H f mt \<longleftrightarrow> length mt = 4096 \<and>
     (\<forall>m\<le>11. \<forall>q<2 ^ (11 - m). mt ! (2 ^ (11 - m) + q) = tnode H f m q)"

lemma mt_upto_11: "mt_upto H f d 11 mt \<longleftrightarrow> mt_of H f mt"
  by (auto simp: mt_upto_def mt_of_def)

text \<open>Changing leaves inside \<open>[s, e]\<close> of a consistent tree leaves only dirty nodes stale.\<close>

lemma not_dirty_leaves:
  assumes "\<not> dirty s e m q" "q * 2 ^ m \<le> i" "i < (q + 1) * 2 ^ m"
  shows "\<not> (s \<le> i \<and> i \<le> e)"
proof
  assume r: "s \<le> i \<and> i \<le> e"
  have "i div 2 ^ m = q" using assms(2,3) by (intro div_nat_eqI) (simp_all add: mult.commute)
  then have "s div 2 ^ m \<le> q" "q \<le> e div 2 ^ m" using r by (auto intro: div_le_mono)
  with assms(1) show False by (simp add: dirty_def)
qed

lemma mt_upto_changed:
  assumes old: "mt_of H g mt" and len: "length mt' = 4096"
    and leaves: "\<forall>i<2048. mt' ! (2048 + i) = f i"
    and upper: "\<forall>k<2048. mt' ! k = mt ! k"
    and same: "\<forall>i<2048. \<not> (s \<le> i \<and> i \<le> e) \<longrightarrow> f i = g i"
  shows "mt_upto H f (dirty s e) 0 mt'"
  unfolding mt_upto_def
proof (intro conjI allI impI)
  show "length mt' = 4096" by (rule len)
  fix m q :: nat assume m: "m \<le> 11" "q < 2 ^ (11 - m)" and c: "m \<le> 0 \<or> \<not> dirty s e m q"
  show "mt' ! (2 ^ (11 - m) + q) = tnode H f m q"
  proof (cases m)
    case 0
    then show ?thesis using m leaves by simp
  next
    case (Suc n)
    have top: "(q + 1) * 2 ^ m \<le> 2048"
    proof -
      have "(q + 1) * 2 ^ m \<le> 2 ^ (11 - m) * 2 ^ m" using m(2) by (intro mult_le_mono1) simp
      also have "\<dots> = 2 ^ 11" using m(1) by (simp flip: power_add)
      finally show ?thesis by simp
    qed
    have "2 ^ (11 - m) + q < 2048"
    proof -
      have "(2::nat) ^ (11 - m) \<le> 2 ^ 10" using Suc by (intro power_increasing) simp_all
      then show ?thesis using m(2) by simp
    qed
    then have "mt' ! (2 ^ (11 - m) + q) = tnode H g m q"
      using upper old m by (simp add: mt_of_def)
    also have "\<dots> = tnode H f m q"
    proof (rule mnode_cong)
      fix i assume i: "q * 2 ^ m \<le> i" "i < (q + 1) * 2 ^ m"
      have "\<not> dirty s e m q" using c Suc by simp
      then have "\<not> (s \<le> i \<and> i \<le> e)" using i by (rule not_dirty_leaves)
      then show "g i = f i" using same i(2) top by simp
    qed
    finally show ?thesis .
  qed
qed

lemma sync_mtree_full:
  assumes "length mt = 4096"
  shows "\<exists>mt'. sync_mtree H mt 0 2047 = Inr mt' \<and> mt_of H (\<lambda>i. mt ! (2048 + i)) mt'"
proof -
  have "dirty 0 2047 m q" if "m \<le> 11" "q < 2 ^ (11 - m)" for m q
  proof -
    have "q * 2 ^ m < 2 ^ (11 - m) * 2 ^ m" using that(2) by simp
    also have "\<dots> = 2048" using that(1) by (simp flip: power_add)
    finally have "q * 2 ^ m \<le> 2047" by simp
    then show ?thesis by (simp add: dirty_def less_eq_div_iff_mult_less_eq)
  qed
  then have "mt_upto H (\<lambda>i. mt ! (2048 + i)) (dirty 0 2047) 0 mt"
    using assms by (auto simp: mt_upto_def)
  from sync_rows_upto [OF this] show ?thesis
    by (simp add: sync_mtree_def layout_defs mt_upto_11)
qed

section \<open>Properties\<close>

text \<open>C10. Incremental Merkle update: if the array was the Merkle tree of the old leaves and
  only leaves between \<open>s\<close> and \<open>e\<close> have been overwritten since, \<^verbatim>\<open>sync_mtree\<close> over that range
  makes every node of the array the Merkle hash of the new leaves below it, so that the
  incremental update equals rebuilding the tree.\<close>

theorem sync_mtree_restores:
  assumes "mt_of H g mt" and "length mt' = 4096" and "\<forall>k<2048. mt' ! k = mt ! k"
    and "\<forall>i<2048. i < s \<or> e < i \<longrightarrow> mt' ! (2048 + i) = g i"
  shows "\<exists>mt''. sync_mtree H mt' s e = Inr mt'' \<and> mt_of H (\<lambda>i. mt' ! (2048 + i)) mt''"
proof -
  have "mt_upto H (\<lambda>i. mt' ! (2048 + i)) (dirty s e) 0 mt'"
    using assms(4) by (intro mt_upto_changed [OF assms(1,2) _ assms(3)]) (auto simp: not_le)
  from sync_rows_upto [OF this] show ?thesis
    by (simp add: sync_mtree_def layout_defs mt_upto_11)
qed

lemma zero_tree_exists: "\<exists>mt. mt_of H (\<lambda>i. replicate 4096 x ! (2048 + i)) mt"
  using sync_mtree_full [of "replicate 4096 x" H] by auto

theorem sync_mtree_restores_witness:
  "\<exists>mt mt''. sync_mtree toy_digest (mt[2050 := replicate 32 7]) 2 2 = Inr mt''
    \<and> mt_of toy_digest (\<lambda>i. mt[2050 := replicate 32 7] ! (2048 + i)) mt''"
proof -
  let ?g = "\<lambda>i. replicate 4096 ZERO_HASH32 ! (2048 + i)"
  obtain mt where mt: "mt_of toy_digest ?g mt" using zero_tree_exists by blast
  have leaf: "mt ! (2048 + i) = ?g i" if "i < 2048" for i
    using mt that by (auto simp: mt_of_def dest: spec [of _ 0])
  have "\<exists>mt''. sync_mtree toy_digest (mt[2050 := replicate 32 7]) 2 2 = Inr mt''
    \<and> mt_of toy_digest (\<lambda>i. mt[2050 := replicate 32 7] ! (2048 + i)) mt''"
    using mt leaf by (intro sync_mtree_restores [OF mt]) (auto simp: mt_of_def)
  then show ?thesis by blast
qed

section \<open>The tree over the active bits\<close>

definition page :: "bytes \<Rightarrow> nat \<Rightarrow> hash32" where
  "page ab i = take 32 (drop (i * 32) ab)"

definition twig_bits_ok :: "hashfun \<Rightarrow> bytes \<Rightarrow> twig \<Rightarrow> bool" where
  "twig_bits_ok H ab t \<longleftrightarrow>
     active_bits_mtl1 t = map (mnode H 8 (page ab) 1) [0, 1, 2, 3]
     \<and> active_bits_mtl2 t = map (mnode H 8 (page ab) 2) [0, 1]
     \<and> active_bits_mtl3 t = mnode H 8 (page ab) 3 0"

definition twig_ok :: "hashfun \<Rightarrow> bytes \<Rightarrow> twig \<Rightarrow> bool" where
  "twig_ok H ab t \<longleftrightarrow> twig_bits_ok H ab t
     \<and> twig_root t = hash2 H 11 (left_root t) (active_bits_mtl3 t)"

lemma ab_get_bits_page:
  "length ab = 256 \<Longrightarrow> i < 8 \<Longrightarrow> ab_get_bits ab i 32 = Inr (page ab i)"
  by (simp add: ab_get_bits_def page_def)

lemma sync_l1_eq:
  "length ab = 256 \<Longrightarrow> p < 4 \<Longrightarrow>
   sync_l1 H t p ab = Inr (t\<lparr>active_bits_mtl1 := (active_bits_mtl1 t)[p := mnode H 8 (page ab) 1 p]\<rparr>)"
  by (simp add: sync_l1_def ab_get_bits_page node_hash_inplace_eq)

lemma sync_l2_eq:
  assumes "length (active_bits_mtl1 t) = 4" "p < 2"
    and "active_bits_mtl1 t ! (2 * p) = mnode H 8 g 1 (2 * p)"
    and "active_bits_mtl1 t ! (2 * p + 1) = mnode H 8 g 1 (2 * p + 1)"
  shows "sync_l2 H t p = Inr (t\<lparr>active_bits_mtl2 := (active_bits_mtl2 t)[p := mnode H 8 g 2 p]\<rparr>)"
  using assms by (simp add: sync_l2_def node_hash_inplace_eq numeral_2_eq_2)

lemma sync_l3_eq:
  assumes "active_bits_mtl2 t = map (mnode H 8 g 2) [0, 1]"
  shows "sync_l3 H t = Inr (t\<lparr>active_bits_mtl3 := mnode H 8 g 3 0\<rparr>)"
  using assms by (simp add: sync_l3_def node_hash_inplace_eq numeral_3_eq_3 numeral_2_eq_2)

lemma create_null_twig_eq:
  "\<exists>t. create_null_twig H root = Inr t \<and> twig_ok H ab_new t \<and> left_root t = root"
proof -
  let ?m = "mnode H 8 (page ab_new)"
  have ab: "length ab_new = 256" by (simp add: ab_new_def)
  let ?t1 = "twig_new\<lparr>active_bits_mtl1 := map (?m 1) [0, 1, 2, 3]\<rparr>"
  let ?t2 = "?t1\<lparr>active_bits_mtl2 := map (?m 2) [0, 1]\<rparr>"
  have l1: "bindE (sync_l1 H twig_new 0 ab_new) (\<lambda>t. bindE (sync_l1 H t 1 ab_new) (\<lambda>t.
      bindE (sync_l1 H t 2 ab_new) (\<lambda>t. bindE (sync_l1 H t 3 ab_new) f))) = f ?t1" for f :: "twig \<Rightarrow> twig result"
    by (simp add: sync_l1_eq [OF ab] twig_new_def numeral_eq_Suc)
  have l2: "bindE (sync_l2 H ?t1 0) (\<lambda>t. bindE (sync_l2 H t 1) f) = f ?t2" for f :: "twig \<Rightarrow> twig result"
    by (simp add: sync_l2_def node_hash_inplace_eq twig_new_def numeral_eq_Suc)
  have l3: "sync_l3 H ?t2 = Inr (?t2\<lparr>active_bits_mtl3 := ?m 3 0\<rparr>)"
    by (rule sync_l3_eq) simp
  show ?thesis
    by (simp only: create_null_twig_def l1 l2 l3 bindE.simps)
      (simp add: sync_top_def twig_ok_def twig_bits_ok_def node_hash_inplace_eq)
qed

lemma null_nodes_fold:
  "n \<le> 64 \<Longrightarrow> 14 \<le> n \<Longrightarrow>
   fold (\<lambda>i ns. ns[i := hash2 H (word_of_nat (i - 1)) (ns ! (i - 1)) (ns ! (i - 1))]) [14..<n]
     ((replicate 64 z)[13 := hash2 H 12 r r]) =
   replicate 13 z @ map (\<lambda>l. mnode H 12 (\<lambda>_. r) (l - 12) 0) [13..<n] @ replicate (64 - n) z"
proof (induction n)
  case 0
  then show ?case by simp
next
  case (Suc n)
  let ?g = "\<lambda>l. mnode H 12 (\<lambda>_. r) (l - 12) 0"
  show ?case
  proof (cases "n = 13")
    case True
    then show ?thesis by (simp add: numeral_eq_Suc list_update_append)
  next
    case False
    then have n: "14 \<le> n" "n < 64" using Suc.prems by simp_all
    let ?xs = "replicate 13 z @ map ?g [13..<n] @ replicate (64 - n) z"
    have "?xs ! (n - 1) = ?g (n - 1)" using n by (auto simp: nth_append)
    moreover have "mnode H 12 (\<lambda>_. r) (n - 12) 0 =
        hash2 H (word_of_nat (n - 1)) (?g (n - 1)) (?g (n - 1))"
    proof -
      have "n - 12 = Suc (n - 13)" "12 + (n - 13) = n - 1" "n - 1 - 12 = n - 13" using n by simp_all
      moreover have "mnode H 12 (\<lambda>_. r) (n - 13) (2 * 0 + 1) = mnode H 12 (\<lambda>_. r) (n - 13) 0"
        by (rule mnode_const)
      ultimately show ?thesis by simp
    qed
    moreover have "replicate (64 - n) z = z # replicate (64 - Suc n) z"
      using n by (metis Suc_diff_Suc replicate_Suc)
    ultimately show ?thesis
      using Suc.IH n by (simp add: list_update_append)
  qed
qed

lemma null_nodes_eq:
  "create_null_node_in_higher_tree H t = replicate 13 ZERO_HASH32
     @ map (\<lambda>l. mnode H 12 (\<lambda>_. twig_root t) (l - TWIG_ROOT_LEVEL) 0) [13..<64]"
proof -
  have c: "FIRST_LEVEL_ABOVE_TWIG = 13" "TWIG_ROOT_LEVEL = 12" "13 + 1 = (14::nat)"
    "(word_of_nat 12 :: byte) = 12" "(64::nat) - 64 = 0" "replicate 0 ZERO_HASH32 = []"
    by (simp_all add: layout_defs)
  have "(64::nat) \<le> 64" "14 \<le> (64::nat)" by simp_all
  from null_nodes_fold [OF this, of H ZERO_HASH32 "twig_root t"] show ?thesis
    by (simp only: create_null_node_in_higher_tree_def Let_def c append_Nil2)
qed

definition null_of :: entry where
  "null_of = \<lparr>e_key = [], e_value = [], e_next_key_hash = replicate 32 0,
     e_version = NULL_ENTRY_VERSION, e_serial_number = - 1\<rparr>"

lemma null_of_ok: "entry_ok null_of []" "get_serialized_len null_of 0 = 56"
  by (simp_all add: null_of_def entry_ok_def get_serialized_len_def layout_defs)

lemma null_entry_eq: "56 \<le> length b \<Longrightarrow> null_entry b = Inr (entry_layout null_of [])"
  using dump_eq [of null_of "[]" b] length_entry_layout [of null_of "[]"] null_of_ok
  by (simp add: null_entry_def null_of_def [symmetric] entry_ok_simps)

lemma null_entry_hash:
  "56 \<le> length b \<Longrightarrow> bindE (null_entry b) (ebz_hash H) = Inr (H (entry_payload null_of []))"
  using read_hash [OF null_of_ok(1), of H "[]"] by (simp add: null_entry_eq)

text \<open>The null values are those of an empty tree: \<^verbatim>\<open>get_init_data\<close> succeeds; its first
  part is the Merkle tree of 2048 null-entry hashes, its second the twig with no active bit
  over that tree, and above level 12 its third part holds at every level the root of the
  subtree whose twigs are all null.\<close>

theorem null_values_are_empty_tree:
  "\<exists>mt t ns. get_init_data H = Inr (mt, t, ns)
    \<and> mt_of H (\<lambda>i. replicate 2048 (H (entry_payload null_of [])) ! i) mt
    \<and> left_root t = mt ! 1 \<and> twig_ok H ab_new t
    \<and> ns = replicate 13 ZERO_HASH32
           @ map (\<lambda>l. mnode H 12 (\<lambda>_. twig_root t) (l - TWIG_ROOT_LEVEL) 0) [13..<64]"
proof -
  let ?h = "H (entry_payload null_of [])"
  let ?mt = "replicate 2048 ZERO_HASH32 @ replicate 2048 ?h"
  obtain mt where mt: "sync_mtree H ?mt 0 2047 = Inr mt" "mt_of H (\<lambda>i. ?mt ! (2048 + i)) mt"
    using sync_mtree_full [of ?mt H] by auto
  have leaves: "(\<lambda>i. ?mt ! (2048 + i)) = (\<lambda>i. replicate 2048 ?h ! i)"
    by (simp add: fun_eq_iff nth_append)
  have c: "create_null_mt_for_twig H = Inr mt"
    using null_entry_hash [of "replicate (ENTRY_BASE_LENGTH + 8) 0" H] mt(1)
    by (auto simp: create_null_mt_for_twig_def layout_defs)
  obtain t where t: "create_null_twig H (mt ! 1) = Inr t" "twig_ok H ab_new t" "left_root t = mt ! 1"
    using create_null_twig_eq by blast
  have "create_null_node_in_higher_tree H t = replicate 13 ZERO_HASH32
      @ map (\<lambda>l. mnode H 12 (\<lambda>_. twig_root t) (l - TWIG_ROOT_LEVEL) 0) [13..<64]"
    by (rule null_nodes_eq)
  moreover have "length mt = 4096" using mt(2) by (simp add: mt_of_def)
  ultimately show ?thesis
    using c t mt(2) unfolding leaves by (simp add: get_init_data_def)
qed

end
