(* ===== verification/ProofPath.thy ===== *)
theory ProofPath
  imports Twig
begin

text \<open>
  \<^verbatim>\<open>src/qmdb/src/merkletree/proof.rs\<close>: Merkle proofs. A proof climbs from the leaf hash
  through the twig's left tree, from the page of active bits through its right tree, joins
  both at the twig root and goes on to the root of the shard. The section on \<open>climb\<close> is
  the reference: a path recomputes the root (completeness), and a path that yields the true
  root at a wrong leaf exhibits a collision (soundness).
\<close>

section \<open>Data\<close>

record proof_node =
  self_hash :: hash32
  peer_hash :: hash32
  peer_at_left :: bool

record proof_path =
  left_of_twig :: "proof_node list"
  right_of_twig :: "proof_node list"
  upper_path :: "proof_node list"
  serial_num :: u64
  pp_root :: hash32

definition empty_node :: proof_node where
  "empty_node = \<lparr>self_hash = replicate 32 0, peer_hash = replicate 32 0, peer_at_left = False\<rparr>"

definition pp_new :: proof_path where
  "pp_new = \<lparr>left_of_twig = replicate 11 empty_node, right_of_twig = replicate 3 empty_node,
     upper_path = [], serial_num = 0, pp_root = replicate 32 0\<rparr>"

definition OTHER_NODE_COUNT :: nat where [layout_defs]: "OTHER_NODE_COUNT = 1 + 11 + 1 + 3 + 1"

section \<open>Checking a path\<close>

definition node_up :: "hashfun \<Rightarrow> nat \<Rightarrow> proof_node \<Rightarrow> hash32" where
  "node_up H level p = hash2x H (word_of_nat level) (self_hash p) (peer_hash p) (peer_at_left p)"

text \<open>The loops of \<^verbatim>\<open>check\<close>: each node's hash is stored into the next node (\<open>complete\<close>) or
  compared with it.\<close>

fun check_chain :: "hashfun \<Rightarrow> bool \<Rightarrow> string \<Rightarrow> nat \<Rightarrow> proof_node list \<Rightarrow> proof_node list result" where
  "check_chain H complete msg level [] = Inr []"
| "check_chain H complete msg level [a] = Inr [a]"
| "check_chain H complete msg level (a # b # rest) =
     (let res = node_up H level a in
      if complete then
        bindE (check_chain H complete msg (level + 1) (b\<lparr>self_hash := res\<rparr> # rest)) (\<lambda>ns. Inr (a # ns))
      else if res \<noteq> self_hash b then Inl (Err msg)
      else bindE (check_chain H complete msg (level + 1) (b # rest)) (\<lambda>ns. Inr (a # ns)))"

definition pp_check :: "hashfun \<Rightarrow> bool \<Rightarrow> proof_path \<Rightarrow> proof_path result" where
  "pp_check H complete p =
     bindE (check_chain H complete ''Mismatch at left path'' 0 (left_of_twig p)) (\<lambda>left.
     bindE (index left 10) (\<lambda>l10.
     let leaf_mt_root = node_up H 10 l10 in
     bindE (check_chain H complete ''Mismatch at right path'' 8 (right_of_twig p)) (\<lambda>right.
     bindE (index right 2) (\<lambda>r2.
     let active_bits_mt_l3 = node_up H 10 r2;
         twig_root = hash2 H 11 leaf_mt_root active_bits_mt_l3 in
     bindE (index (upper_path p) 0) (\<lambda>u0.
     bindE (if complete then Inr ((upper_path p)[0 := u0\<lparr>self_hash := twig_root\<rparr>])
            else if twig_root \<noteq> self_hash u0 then Inl (Err ''Mismatch at twig top'')
            else Inr (upper_path p)) (\<lambda>upper.
     bindE (check_chain H complete ''Mismatch at upper path'' TWIG_ROOT_LEVEL upper) (\<lambda>upper.
     if node_up H (TWIG_ROOT_LEVEL + length upper - 1) (last upper) \<noteq> pp_root p
     then Inl (Err ''Mismatch at root'')
     else Inr (p\<lparr>left_of_twig := left, right_of_twig := right, upper_path := upper\<rparr>))))))))"

section \<open>Serialisation\<close>

definition pp_to_bytes :: "proof_path \<Rightarrow> bytes result" where
  "pp_to_bytes p =
     bindE (index (left_of_twig p) 0) (\<lambda>l0.
     bindE (index (right_of_twig p) 0) (\<lambda>r0.
       Inr (u64_le (serial_num p) @ self_hash l0 @ concat (map peer_hash (left_of_twig p))
            @ self_hash r0 @ concat (map peer_hash (right_of_twig p))
            @ concat (map peer_hash (upper_path p)) @ pp_root p)))"

definition take32 :: "bytes \<Rightarrow> (hash32 \<times> bytes) result" where
  "take32 bz = bindE (slice bz 0 32) (\<lambda>h. bindE (slice bz 32 (length bz)) (\<lambda>bz. Inr (h, bz)))"

definition sn_bit :: "u64 \<Rightarrow> nat \<Rightarrow> bool" where
  "sn_bit sn i \<longleftrightarrow> and (drop_bit (i mod 64) sn) 1 = 1"

text \<open>Reads the peer hashes of \<open>n\<close> nodes, the first of which is at bit \<open>i\<close> of the serial
  number; a shift by 64 or more is taken modulo 64.\<close>

primrec read_peers :: "u64 \<Rightarrow> nat \<Rightarrow> nat \<Rightarrow> bytes \<Rightarrow> (proof_node list \<times> bytes) result" where
  "read_peers sn 0 i bz = Inr ([], bz)"
| "read_peers sn (Suc n) i bz =
     bindE (take32 bz) (\<lambda>(h, bz).
     bindE (read_peers sn n (i + 1) bz) (\<lambda>(ns, bz).
       Inr (empty_node\<lparr>peer_hash := h, peer_at_left := sn_bit sn i\<rparr> # ns, bz)))"

text \<open>\<^verbatim>\<open>bz.len() - 8\<close> and \<^verbatim>\<open>n / 32 - OTHER_NODE_COUNT\<close> wrap; the cast of the difference to
  \<^verbatim>\<open>i32\<close> keeps its low 32 bits.\<close>

definition bytes_to_proof_path :: "bytes \<Rightarrow> proof_path result" where
  "bytes_to_proof_path bz =
     (let n = (word_of_nat (length bz) :: u64) - 8;
          upper_count = signed_take_bit 31 (sint (n div 32 - word_of_nat OTHER_NODE_COUNT)) in
      if n mod 32 \<noteq> 0 \<or> upper_count < 0 then Inl (Err ''Invalid byte slice length'')
      else
       bindE (slice bz 0 8) (\<lambda>s. bindE (read_u64 s) (\<lambda>sn.
       bindE (slice bz 8 (length bz)) (\<lambda>bz.
       bindE (take32 bz) (\<lambda>(self0, bz).
       bindE (read_peers sn 11 0 bz) (\<lambda>(left, bz).
       bindE (take32 bz) (\<lambda>(rself0, bz).
       bindE (read_peers sn 3 8 bz) (\<lambda>(right, bz).
       bindE (read_peers sn (nat upper_count) (FIRST_LEVEL_ABOVE_TWIG - 2) bz) (\<lambda>(upper, bz).
       bindE (slice bz 0 32) (\<lambda>root.
         Inr \<lparr>left_of_twig = (hd left)\<lparr>self_hash := self0\<rparr> # tl left,
              right_of_twig = (hd right)\<lparr>self_hash := rself0\<rparr> # tl right,
              upper_path = upper, serial_num = sn, pp_root = root\<rparr>))))))))))"

definition check_proof :: "hashfun \<Rightarrow> proof_path \<Rightarrow> bytes result" where
  "check_proof H path =
     bindE (pp_check H False path) (\<lambda>path.
     bindE (pp_to_bytes path) (\<lambda>bz.
     bindE (bytes_to_proof_path bz) (\<lambda>path2.
     bindE (pp_check H True path2) (\<lambda>_. Inr bz))))"

section \<open>Extracting a path\<close>

definition get_right_path :: "twig \<Rightarrow> bytes \<Rightarrow> nat \<Rightarrow> proof_node list result" where
  "get_right_path t active_bits sn =
     (let n = and sn TWIG_MASK in
      let self_id = n div 256; peer = xor self_id 1 in
      bindE (ab_get_bits active_bits self_id 32) (\<lambda>s0.
      bindE (ab_get_bits active_bits peer 32) (\<lambda>p0.
      let r0 = \<lparr>self_hash = s0, peer_hash = p0, peer_at_left = (and peer 1 = 0)\<rparr>;
          self_id = n div 512; peer = xor self_id 1 in
      bindE (index (active_bits_mtl1 t) self_id) (\<lambda>s1.
      bindE (index (active_bits_mtl1 t) peer) (\<lambda>p1.
      let r1 = \<lparr>self_hash = s1, peer_hash = p1, peer_at_left = (and peer 1 = 0)\<rparr>;
          self_id = n div 1024; peer = xor self_id 1 in
      bindE (index (active_bits_mtl2 t) self_id) (\<lambda>s2.
      bindE (index (active_bits_mtl2 t) peer) (\<lambda>p2.
      let r2 = \<lparr>self_hash = s2, peer_hash = p2, peer_at_left = (and peer 1 = 0)\<rparr> in
      Inr [r0, r1, r2])))))))"

text \<open>The closure \<^verbatim>\<open>get_hash\<close> may keep a state (the cache of the on-disk variant).\<close>

primrec left_path_from ::
  "(nat \<Rightarrow> 's \<Rightarrow> (hash32 \<times> 's) result) \<Rightarrow> nat \<Rightarrow> nat \<Rightarrow> nat \<Rightarrow> 's \<Rightarrow> (proof_node list \<times> 's) result" where
  "left_path_from get_hash n level 0 s = Inr ([], s)"
| "left_path_from get_hash n level (Suc k) s =
     (let stride = drop_bit level 2048; self_id = drop_bit level n; peer = xor self_id 1 in
      bindE (get_hash (stride + self_id) s) (\<lambda>(a, s).
      bindE (get_hash (stride + peer) s) (\<lambda>(b, s).
      bindE (left_path_from get_hash n (level + 1) k s) (\<lambda>(ns, s).
        Inr (\<lparr>self_hash = a, peer_hash = b, peer_at_left = (and peer 1 = 0)\<rparr> # ns, s)))))"

definition get_left_path ::
  "nat \<Rightarrow> (nat \<Rightarrow> 's \<Rightarrow> (hash32 \<times> 's) result) \<Rightarrow> 's \<Rightarrow> (proof_node list \<times> 's) result" where
  "get_left_path sn get_hash s = left_path_from get_hash (and sn TWIG_MASK) 0 11 s"

definition get_left_path_in_mem :: "hash32 list \<Rightarrow> nat \<Rightarrow> proof_node list result" where
  "get_left_path_in_mem mt4twig sn =
     bindE (get_left_path sn (\<lambda>i s. bindE (index mt4twig i) (\<lambda>h. Inr (h, s))) ()) (\<lambda>(ns, _). Inr ns)"

section \<open>Climbing\<close>

text \<open>\<open>climb H b h ss\<close> hashes \<open>h\<close>, a node of level \<open>b\<close>, upwards along the steps \<open>ss\<close>, each a peer
  hash and whether the peer is on the left.\<close>

primrec climb :: "hashfun \<Rightarrow> nat \<Rightarrow> hash32 \<Rightarrow> (hash32 \<times> bool) list \<Rightarrow> hash32" where
  "climb H b h [] = h"
| "climb H b h (s # ss) = climb H (b + 1) (hash2x H (word_of_nat b) h (fst s) (snd s)) ss"

text \<open>The byte strings hashed on the way, and those of the reference tree above leaf \<open>n\<close>.\<close>

primrec climb_inputs :: "hashfun \<Rightarrow> nat \<Rightarrow> hash32 \<Rightarrow> (hash32 \<times> bool) list \<Rightarrow> bytes list" where
  "climb_inputs H b h [] = []"
| "climb_inputs H b h (s # ss) =
     (word_of_nat b # (if snd s then fst s @ h else h @ fst s))
     # climb_inputs H (b + 1) (hash2x H (word_of_nat b) h (fst s) (snd s)) ss"

primrec tree_inputs :: "hashfun \<Rightarrow> nat \<Rightarrow> (nat \<Rightarrow> hash32) \<Rightarrow> nat \<Rightarrow> nat \<Rightarrow> bytes list" where
  "tree_inputs H b f n 0 = []"
| "tree_inputs H b f n (Suc l) =
     (word_of_nat b # f (2 * (n div 2)) @ f (2 * (n div 2) + 1))
     # tree_inputs H (b + 1) (mnode H b f 1) (n div 2) l"

definition path_sides :: "nat \<Rightarrow> (hash32 \<times> bool) list \<Rightarrow> bool" where
  "path_sides n ss \<longleftrightarrow> (\<forall>i<length ss. snd (ss ! i) = odd (n div 2 ^ i))"

lemma path_sides_Cons: "path_sides n (s # ss) \<longleftrightarrow> snd s = odd n \<and> path_sides (n div 2) ss"
proof -
  have "n div 2 div 2 ^ i = n div 2 ^ Suc i" for i by (simp add: div_mult2_eq)
  then show ?thesis
    by (auto simp: path_sides_def nth_Cons less_Suc_eq_0_disj simp del: power_Suc split: nat.splits)
qed

lemma mnode_shift: "mnode H b f (Suc l) q = mnode H (b + 1) (mnode H b f 1) l q"
proof (induction l arbitrary: q)
  case 0
  then show ?case by simp
next
  case (Suc l)
  show ?case by (subst mnode.simps(2), subst (1 2) Suc) simp
qed

lemma length_mnode:
  "digest32 H \<Longrightarrow> (\<And>i. length (f i) = 32) \<Longrightarrow> length (mnode H b f l q) = 32"
  by (cases l) (simp_all add: digest32_hash2)

text \<open>Completeness: with the true peers, climbing from a leaf reaches the node above it.\<close>

definition true_peers :: "hashfun \<Rightarrow> nat \<Rightarrow> (nat \<Rightarrow> hash32) \<Rightarrow> nat \<Rightarrow> nat \<Rightarrow> (hash32 \<times> bool) list" where
  "true_peers H b f n l =
     map (\<lambda>i. (mnode H b f i (xor (n div 2 ^ i) 1), odd (n div 2 ^ i))) [0..<l]"

lemma xor_1: "xor n (Suc 0) = (if even n then n + 1 else n - 1)"
  by (simp add: xor_Suc_0_eq)

lemma true_peers_Suc:
  "true_peers H b f n (Suc l) =
     (f (xor n 1), odd n) # true_peers H (b + 1) (mnode H b f 1) (n div 2) l"
proof -
  have e: "n div 2 ^ Suc i = n div 2 div 2 ^ i" for i by (simp add: div_mult2_eq)
  show ?thesis
    by (simp only: true_peers_def upt_conv_Cons [of 0 "Suc l"] zero_less_Suc list.map map_Suc_upt [symmetric]
        map_map comp_def e mnode_shift) simp
qed

lemma climb_complete:
  "climb H b (f n) (true_peers H b f n l) = mnode H b f l (n div 2 ^ l)"
proof (induction l arbitrary: b f n)
  case 0
  then show ?case by (simp add: true_peers_def)
next
  case (Suc l)
  have "hash2x H (word_of_nat b) (f n) (f (xor n 1)) (odd n) = mnode H b f 1 (n div 2)"
    by (auto simp: hash2x_def xor_1 elim!: evenE oddE)
  moreover have "n div 2 ^ Suc l = n div 2 div 2 ^ l" by (simp add: div_mult2_eq)
  ultimately show ?case
    using Suc.IH [of "b + 1" "mnode H b f 1" "n div 2"]
    by (simp only: true_peers_Suc climb.simps fst_conv snd_conv mnode_shift)
qed

text \<open>Soundness: a climb that ends in the true node started from the true leaf, or two of
  the hashed strings collide.\<close>

lemma climb_sound:
  assumes "digest32 H" "\<And>i. length (f i) = 32" "length h = 32" "\<forall>s\<in>set ss. length (fst s) = 32"
    and "path_sides n ss" "climb H b h ss = mnode H b f (length ss) (n div 2 ^ length ss)"
  shows "h = f n \<or> (\<exists>i<length ss.
    collides H (climb_inputs H b h ss ! i) (tree_inputs H b f n (length ss) ! i))"
  using assms
proof (induction ss arbitrary: b f n h)
  case Nil
  then show ?case by simp
next
  case (Cons s ss)
  let ?in = "word_of_nat b # (if snd s then fst s @ h else h @ fst s)"
  let ?tr = "word_of_nat b # f (2 * (n div 2)) @ f (2 * (n div 2) + 1)"
  let ?h = "hash2x H (word_of_nat b) h (fst s) (snd s)" and ?f = "mnode H b f 1"
  have h: "?h = H ?in" and f: "?f (n div 2) = H ?tr" by (simp_all add: hash2x_def hash2_def)
  have odd: "snd s = odd n" and sides: "path_sides (n div 2) ss"
    using Cons.prems(5) by (simp_all add: path_sides_Cons)
  have len: "length ?h = 32" "\<And>i. length (?f i) = 32"
    using Cons.prems(1) by (simp_all add: h digest32_def hash2_def)
  have "n div 2 ^ length (s # ss) = n div 2 div 2 ^ length ss" by (simp add: div_mult2_eq)
  then have "climb H (b + 1) ?h ss = mnode H (b + 1) ?f (length ss) (n div 2 div 2 ^ length ss)"
    using Cons.prems(6) by (simp only: climb.simps mnode_shift list.size add_Suc_right add_0_right)
  moreover have "\<forall>s\<in>set ss. length (fst s) = 32" using Cons.prems(4) by simp
  ultimately have "?h = ?f (n div 2) \<or> (\<exists>i<length ss. collides H (climb_inputs H (b + 1) ?h ss ! i)
        (tree_inputs H (b + 1) ?f (n div 2) (length ss) ! i))"
    using Cons.IH [of ?f ?h "n div 2" "b + 1", OF Cons.prems(1) len(2) len(1) _ sides] by blast
  then consider "?h = ?f (n div 2)"
    | i where "i < length ss" "collides H (climb_inputs H (b + 1) ?h ss ! i)
        (tree_inputs H (b + 1) ?f (n div 2) (length ss) ! i)" by blast
  then show ?case
  proof cases
    case 1
    show ?thesis
    proof (cases "?in = ?tr")
      case True
      then have "h = f n"
        using odd Cons.prems(2,3,4) by (cases "even n") (auto elim!: evenE oddE)
      then show ?thesis ..
    next
      case False
      then have "collides H ?in ?tr" using 1 h f by (simp add: collides_def)
      then show ?thesis by (intro disjI2 exI [of _ 0]) simp
    qed
  next
    case 2
    then show ?thesis by (intro disjI2 exI [of _ "Suc i"]) simp
  qed
qed

section \<open>What check computes\<close>

definition steps :: "proof_node list \<Rightarrow> (hash32 \<times> bool) list" where
  "steps ns = map (\<lambda>p. (peer_hash p, peer_at_left p)) ns"

text \<open>\<open>fill\<close> stores into every node the hash of the one below it.\<close>

fun fill :: "hashfun \<Rightarrow> nat \<Rightarrow> proof_node list \<Rightarrow> proof_node list" where
  "fill H level (a # b # rest) = a # fill H (level + 1) (b\<lparr>self_hash := node_up H level a\<rparr> # rest)"
| "fill H level ns = ns"

lemma length_fill [simp]: "length (fill H l ns) = length ns"
  by (induction H l ns rule: fill.induct) simp_all

lemma fill_Nil [simp]: "fill H l ns = [] \<longleftrightarrow> ns = []"
  by (metis length_0_conv length_fill)

lemma hd_fill: "ns \<noteq> [] \<Longrightarrow> hd (fill H l ns) = hd ns"
  by (cases ns; cases "tl ns") simp_all

lemma self_hash_id: "self_hash a = h \<Longrightarrow> a\<lparr>self_hash := h\<rparr> = a"
  by simp

lemma fill_self:
  "fill H l (u\<lparr>self_hash := t\<rparr> # us) = u # us \<longleftrightarrow> self_hash u = t \<and> fill H l (u # us) = u # us"
proof
  assume f: "fill H l (u\<lparr>self_hash := t\<rparr> # us) = u # us"
  then have "u\<lparr>self_hash := t\<rparr> = u" using hd_fill [of "u\<lparr>self_hash := t\<rparr> # us" H l] by simp
  moreover from this have "self_hash u = t"
    by (cases u) simp
  ultimately show "self_hash u = t \<and> fill H l (u # us) = u # us" using f by metis
qed (simp add: self_hash_id)

lemma steps_fill [simp]: "steps (fill H l ns) = steps ns"
  by (induction H l ns rule: fill.induct) (simp_all add: steps_def)

lemma check_chain_True: "check_chain H True msg l ns = Inr (fill H l ns)"
  by (induction H True msg l ns rule: check_chain.induct) (simp_all add: Let_def)

lemma check_chain_False:
  "check_chain H False msg l ns = (if fill H l ns = ns then Inr ns else Inl (Err msg))"
proof (induction H False msg l ns rule: check_chain.induct)
  case (3 H msg l a b rest)
  show ?case
  proof (cases "node_up H l a = self_hash b")
    case True
    then have "b\<lparr>self_hash := node_up H l a\<rparr> = b" by simp
    with True 3 show ?thesis by simp
  next
    case False
    have "self_hash (hd (fill H (l + 1) (b\<lparr>self_hash := node_up H l a\<rparr> # rest))) = node_up H l a"
      by (cases rest) simp_all
    then have "fill H (l + 1) (b\<lparr>self_hash := node_up H l a\<rparr> # rest) \<noteq> b # rest"
      using False by (metis list.sel(1))
    with False show ?thesis by simp
  qed
qed simp_all

lemma node_up_last_fill:
  "node_up H (l + length rest) (last (fill H l (a # rest))) = climb H l (self_hash a) (steps (a # rest))"
proof (induction rest arbitrary: a l)
  case Nil
  then show ?case by (simp add: steps_def node_up_def)
next
  case (Cons b rest)
  from Cons [of "l + 1" "b\<lparr>self_hash := node_up H l a\<rparr>"] show ?case
    by (simp add: steps_def node_up_def)
qed

text \<open>The shape guaranteed by the array types, and at least one node above the twig.\<close>

definition pp_shape :: "proof_path \<Rightarrow> bool" where
  "pp_shape p \<longleftrightarrow> length (left_of_twig p) = 11 \<and> length (right_of_twig p) = 3 \<and> upper_path p \<noteq> []"

definition pp_twig_root :: "hashfun \<Rightarrow> proof_path \<Rightarrow> hash32" where
  "pp_twig_root H p = hash2 H 11
     (climb H 0 (self_hash (hd (left_of_twig p))) (steps (left_of_twig p)))
     (climb H 8 (self_hash (hd (right_of_twig p))) (steps (right_of_twig p)))"

definition pp_computed_root :: "hashfun \<Rightarrow> proof_path \<Rightarrow> hash32" where
  "pp_computed_root H p = climb H TWIG_ROOT_LEVEL (pp_twig_root H p) (steps (upper_path p))"

definition pp_fill :: "hashfun \<Rightarrow> proof_path \<Rightarrow> proof_path" where
  "pp_fill H p = p\<lparr>left_of_twig := fill H 0 (left_of_twig p),
     right_of_twig := fill H 8 (right_of_twig p),
     upper_path := fill H TWIG_ROOT_LEVEL
       ((hd (upper_path p))\<lparr>self_hash := pp_twig_root H p\<rparr> # tl (upper_path p))\<rparr>"

lemma left_top:
  assumes "length ns = 11"
  shows "node_up H 10 (fill H 0 ns ! 10) = climb H 0 (self_hash (hd ns)) (steps ns)"
proof -
  obtain a rest where ns: "ns = a # rest" using assms by (cases ns) auto
  have "fill H 0 ns \<noteq> []" using assms length_fill [of H 0 ns] by (metis list.size(3) zero_neq_numeral)
  then have "last (fill H 0 ns) = fill H 0 ns ! 10" using assms by (simp add: last_conv_nth)
  with node_up_last_fill [of H 0 rest a] show ?thesis using assms ns by simp
qed

lemma right_top:
  assumes "length ns = 3"
  shows "node_up H 10 (fill H 8 ns ! 2) = climb H 8 (self_hash (hd ns)) (steps ns)"
proof -
  obtain a rest where ns: "ns = a # rest" using assms by (cases ns) auto
  have "fill H 8 ns \<noteq> []" using assms length_fill [of H 8 ns] by (metis list.size(3) zero_neq_numeral)
  then have "last (fill H 8 ns) = fill H 8 ns ! 2" using assms by (simp add: last_conv_nth)
  with node_up_last_fill [of H 8 rest a] show ?thesis using assms ns by simp
qed

lemma upper_top:
  "us \<noteq> [] \<Longrightarrow> node_up H (l + length us - 1) (last (fill H l us))
     = climb H l (self_hash (hd us)) (steps us)"
  using node_up_last_fill [of H l "tl us" "hd us"] by (cases us) simp_all

text \<open>\<^verbatim>\<open>check(true)\<close> fills the path in and accepts iff it climbs to the root.\<close>

lemma pp_check_True:
  assumes "pp_shape p"
  shows "pp_check H True p =
    (if pp_computed_root H p = pp_root p then Inr (pp_fill H p) else Inl (Err ''Mismatch at root''))"
proof -
  let ?u = "(hd (upper_path p))\<lparr>self_hash := pp_twig_root H p\<rparr> # tl (upper_path p)"
  have n: "length (left_of_twig p) = 11" "length (right_of_twig p) = 3" "upper_path p \<noteq> []"
    using assms by (auto simp: pp_shape_def)
  have u: "(upper_path p)[0 := (upper_path p ! 0)\<lparr>self_hash := pp_twig_root H p\<rparr>] = ?u"
    using n(3) by (cases "upper_path p") simp_all
  have "node_up H (TWIG_ROOT_LEVEL + length (fill H TWIG_ROOT_LEVEL ?u) - 1)
      (last (fill H TWIG_ROOT_LEVEL ?u)) = pp_computed_root H p"
    using upper_top [of ?u H TWIG_ROOT_LEVEL] n(3)
    by (cases "upper_path p") (simp_all add: pp_computed_root_def steps_def)
  then show ?thesis
    using n u by (simp add: pp_check_def check_chain_True Let_def left_top right_top
        pp_twig_root_def [symmetric] pp_fill_def)
qed

text \<open>\<^verbatim>\<open>check(false)\<close> accepts iff the path is already filled in and climbs to the root; it
  does not change the path.\<close>

lemma pp_check_False:
  assumes "pp_shape p"
  shows "pp_check H False p = Inr p' \<longleftrightarrow>
    p' = p \<and> pp_fill H p = p \<and> pp_computed_root H p = pp_root p"
proof -
  let ?l = "left_of_twig p" and ?r = "right_of_twig p" and ?us = "upper_path p"
  have n: "length ?l = 11" "length ?r = 3" "?us \<noteq> []" using assms by (auto simp: pp_shape_def)
  have "pp_fill H p = p \<longleftrightarrow> fill H 0 ?l = ?l \<and> fill H 8 ?r = ?r
      \<and> fill H TWIG_ROOT_LEVEL ((hd ?us)\<lparr>self_hash := pp_twig_root H p\<rparr> # tl ?us) = hd ?us # tl ?us"
    using n(3) by (cases p) (auto simp: pp_fill_def)
  then have filled: "pp_fill H p = p \<longleftrightarrow> fill H 0 ?l = ?l \<and> fill H 8 ?r = ?r
      \<and> self_hash (hd ?us) = pp_twig_root H p \<and> fill H TWIG_ROOT_LEVEL ?us = ?us"
    unfolding fill_self using n(3) by simp
  show ?thesis
    using n upper_top [of ?us H TWIG_ROOT_LEVEL]
    by (auto simp: pp_check_def check_chain_False Let_def filled pp_computed_root_def hd_conv_nth
        pp_twig_root_def left_top [symmetric] right_top [symmetric] split: if_splits)
qed

section \<open>Parsing what was serialised\<close>

text \<open>What the bytes keep of a path: the two starting hashes and the peers, the sides being
  recomputed from the serial number.\<close>

primrec wire_nodes :: "u64 \<Rightarrow> nat \<Rightarrow> proof_node list \<Rightarrow> proof_node list" where
  "wire_nodes sn i [] = []"
| "wire_nodes sn i (p # ns) =
     empty_node\<lparr>peer_hash := peer_hash p, peer_at_left := sn_bit sn i\<rparr> # wire_nodes sn (i + 1) ns"

definition wire :: "proof_path \<Rightarrow> proof_path" where
  "wire p = (let sn = serial_num p; l = wire_nodes sn 0 (left_of_twig p);
       r = wire_nodes sn 8 (right_of_twig p) in
     p\<lparr>left_of_twig := (hd l)\<lparr>self_hash := self_hash (hd (left_of_twig p))\<rparr> # tl l,
       right_of_twig := (hd r)\<lparr>self_hash := self_hash (hd (right_of_twig p))\<rparr> # tl r,
       upper_path := wire_nodes sn 11 (upper_path p)\<rparr>)"

definition pp_hashes :: "proof_path \<Rightarrow> bool" where
  "pp_hashes p \<longleftrightarrow> (\<forall>n\<in>set (left_of_twig p @ right_of_twig p @ upper_path p).
     length (self_hash n) = 32 \<and> length (peer_hash n) = 32) \<and> length (pp_root p) = 32"

lemma length_wire_nodes [simp]: "length (wire_nodes sn i ns) = length ns"
  by (induction ns arbitrary: i) simp_all

lemma take32_append [simp]: "length h = 32 \<Longrightarrow> take32 (h @ bz) = Inr (h, bz)"
  by (simp add: take32_def)

lemma read_peers_wire:
  "\<forall>n\<in>set ns. length (peer_hash n) = 32 \<Longrightarrow>
   read_peers sn (length ns) i (concat (map peer_hash ns) @ rest) = Inr (wire_nodes sn i ns, rest)"
  by (induction ns arbitrary: i) simp_all

lemma length_concat_peers:
  "\<forall>n\<in>set ns. length (peer_hash n) = 32 \<Longrightarrow> length (concat (map peer_hash ns)) = 32 * length ns"
  by (induction ns) simp_all

text \<open>The number of upper nodes recovered from the total length.\<close>

lemma upper_count_eq:
  assumes "len = 8 + 32 * (17 + k)" "k < 2 ^ 31"
  shows "(word_of_nat len - 8 :: u64) mod 32 = 0"
    and "signed_take_bit 31 (sint ((word_of_nat len - 8 :: u64) div 32 - 17)) = int k"
proof -
  define m where "m = 32 * (17 + k)"
  have m: "m < 2 ^ 64" "m div 32 = 17 + k" "m mod 32 = 0" using assms(2) by (simp_all add: m_def)
  have w: "(word_of_nat len - 8 :: u64) = word_of_nat m" using assms(1) by (simp add: m_def)
  have u: "unat (word_of_nat m :: u64) = m" using m(1) by (simp add: unat_of_nat)
  show "(word_of_nat len - 8 :: u64) mod 32 = 0"
    unfolding w using m(3) by (simp add: word_unat_eq_iff unat_mod u)
  have "unat ((word_of_nat m :: u64) div 32) = 17 + k" using m(2) by (simp add: unat_div u)
  then have "(word_of_nat m :: u64) div 32 = word_of_nat (17 + k)"
    using assms(2) by (simp add: word_unat_eq_iff unat_of_nat del: of_nat_add)
  then have d: "(word_of_nat len - 8 :: u64) div 32 - 17 = word_of_nat k"
    unfolding w by simp
  have uk: "unat (word_of_nat k :: u64) = k" using assms(2) by (simp add: unat_of_nat)
  have "sint (word_of_nat k :: u64) = int k"
    unfolding sint_uint uint_nat uk using assms(2) by (simp add: signed_take_bit_int_eq_self)
  then show "signed_take_bit 31 (sint ((word_of_nat len - 8 :: u64) div 32 - 17)) = int k"
    unfolding d using assms(2) by (simp add: signed_take_bit_int_eq_self)
qed

lemma wire_roundtrip:
  assumes "length (left_of_twig p) = 11" "length (right_of_twig p) = 3" "pp_hashes p"
    "length (upper_path p) < 2 ^ 31"
  shows "\<exists>bz. pp_to_bytes p = Inr bz \<and> bytes_to_proof_path bz = Inr (wire p)"
proof -
  let ?l = "left_of_twig p" and ?r = "right_of_twig p" and ?u = "upper_path p" and ?sn = "serial_num p"
  have ph: "\<forall>n\<in>set ?l. length (peer_hash n) = 32" "\<forall>n\<in>set ?r. length (peer_hash n) = 32"
    "\<forall>n\<in>set ?u. length (peer_hash n) = 32" and root: "length (pp_root p) = 32"
    using assms(3) by (auto simp: pp_hashes_def)
  have ne: "?l \<noteq> []" "?r \<noteq> []" using assms(1,2) by auto
  then have sh: "length (self_hash (hd ?l)) = 32" "length (self_hash (hd ?r)) = 32"
    using assms(3) by (auto simp: pp_hashes_def)
  let ?tail = "self_hash (hd ?l) @ concat (map peer_hash ?l)
     @ self_hash (hd ?r) @ concat (map peer_hash ?r) @ concat (map peer_hash ?u) @ pp_root p"
  let ?bz = "u64_le ?sn @ ?tail"
  have to: "pp_to_bytes p = Inr ?bz" using ne by (simp add: pp_to_bytes_def hd_conv_nth)
  have len: "length ?bz = 8 + 32 * (17 + length ?u)"
    using ph sh root assms(1,2) by (simp add: length_concat_peers)
  note uc = upper_count_eq [OF len assms(4)]
  have o: "(word_of_nat OTHER_NODE_COUNT :: u64) = 17" "FIRST_LEVEL_ABOVE_TWIG - 2 = 11"
    by (simp_all add: layout_defs)
  have r11: "read_peers ?sn 11 0 (concat (map peer_hash ?l) @ x) = Inr (wire_nodes ?sn 0 ?l, x)" for x
    using read_peers_wire [OF ph(1)] assms(1) by metis
  have r3: "read_peers ?sn 3 8 (concat (map peer_hash ?r) @ x) = Inr (wire_nodes ?sn 8 ?r, x)" for x
    using read_peers_wire [OF ph(2)] assms(2) by metis
  have s0: "slice ?bz 0 8 = Inr (u64_le ?sn)" "slice ?bz 8 (length ?bz) = Inr ?tail"
    by (simp_all add: slice_def)
  have root_s: "slice (pp_root p) 0 32 = Inr (pp_root p)" using root by simp
  have g: "\<not> ((word_of_nat (length ?bz) - 8 :: u64) mod 32 \<noteq> 0
      \<or> signed_take_bit 31 (sint ((word_of_nat (length ?bz) - 8 :: u64) div 32 - 17)) < 0)"
    unfolding uc by simp
  have "bytes_to_proof_path ?bz = Inr (wire p)"
    unfolding bytes_to_proof_path_def Let_def o if_not_P [OF g] s0 bindE.simps
    by (simp only: uc nat_int read_le_exact bindE.simps sh take32_append prod.case r11 r3
        read_peers_wire [OF ph(3)] root_s) (simp add: wire_def Let_def)
  with to show ?thesis by blast
qed

lemma self_hash_hd_wire: "self_hash (hd (left_of_twig (wire p))) = self_hash (hd (left_of_twig p))"
  "self_hash (hd (right_of_twig (wire p))) = self_hash (hd (right_of_twig p))"
  by (simp_all add: wire_def Let_def)

definition side_bits :: "u64 \<Rightarrow> nat \<Rightarrow> proof_node list \<Rightarrow> bool" where
  "side_bits sn i ns \<longleftrightarrow> (\<forall>k<length ns. peer_at_left (ns ! k) = sn_bit sn (i + k))"

definition pp_sides :: "proof_path \<Rightarrow> bool" where
  "pp_sides p \<longleftrightarrow> side_bits (serial_num p) 0 (left_of_twig p)
     \<and> side_bits (serial_num p) 8 (right_of_twig p) \<and> side_bits (serial_num p) 11 (upper_path p)"

lemma side_bits_Cons: "side_bits sn i (p # ns) \<longleftrightarrow> peer_at_left p = sn_bit sn i \<and> side_bits sn (i + 1) ns"
  by (auto simp: side_bits_def nth_Cons less_Suc_eq_0_disj split: nat.splits)

lemma steps_wire_nodes: "side_bits sn i ns \<Longrightarrow> steps (wire_nodes sn i ns) = steps ns"
  by (induction ns arbitrary: i) (simp_all add: side_bits_Cons steps_def)

lemma steps_upd_hd: "ns \<noteq> [] \<Longrightarrow> steps ((hd ns)\<lparr>self_hash := h\<rparr> # tl ns) = steps ns"
  by (cases ns) (simp_all add: steps_def)

lemma computed_root_wire:
  assumes "pp_shape p" "pp_sides p"
  shows "pp_computed_root H (wire p) = pp_computed_root H p" "pp_shape (wire p)"
proof -
  have ne: "wire_nodes (serial_num p) 0 (left_of_twig p) \<noteq> []"
    "wire_nodes (serial_num p) 8 (right_of_twig p) \<noteq> []"
    using assms(1) by (auto simp: pp_shape_def dest: arg_cong [of _ _ length])
  have "steps (left_of_twig (wire p)) = steps (left_of_twig p)"
    "steps (right_of_twig (wire p)) = steps (right_of_twig p)"
    "steps (upper_path (wire p)) = steps (upper_path p)"
    using assms(2) ne by (simp_all add: wire_def Let_def steps_upd_hd steps_wire_nodes pp_sides_def)
  then show "pp_computed_root H (wire p) = pp_computed_root H p"
    by (simp add: pp_computed_root_def pp_twig_root_def self_hash_hd_wire)
  have "wire_nodes (serial_num p) 11 (upper_path p) \<noteq> []"
    using assms(1) by (auto simp: pp_shape_def dest: arg_cong [of _ _ length])
  then show "pp_shape (wire p)" using assms(1) by (simp add: pp_shape_def wire_def Let_def)
qed

text \<open>Filling depends only on the first hash, the peers and the sides.\<close>

lemma fill_cong_tail: "steps xs = steps ys \<Longrightarrow> fill H l (a # xs) = fill H l (a # ys)"
proof (induction xs arbitrary: a l ys)
  case Nil
  then show ?case by (simp add: steps_def)
next
  case (Cons b xs)
  then obtain b' ys' where ys: "ys = b' # ys'" by (cases ys) (auto simp: steps_def)
  let ?h = "node_up H l a"
  have e: "b\<lparr>self_hash := ?h\<rparr> = b'\<lparr>self_hash := ?h\<rparr>" using Cons.prems ys by (simp add: steps_def)
  have "steps xs = steps ys'" using Cons.prems ys by (simp add: steps_def)
  note ih = Cons.IH [OF this]
  show ?case unfolding ys fill.simps(1) e by (rule arg_cong2 [where f = Cons, OF refl ih])
qed

lemma fill_cong:
  assumes "xs \<noteq> []" "self_hash (hd xs) = self_hash (hd ys)" "steps xs = steps ys"
  shows "fill H l xs = fill H l ys"
proof -
  obtain a xs' where xs: "xs = a # xs'" using assms(1) by (cases xs) auto
  with assms(3) obtain a' ys' where ys: "ys = a' # ys'" by (cases ys) (auto simp: steps_def)
  have "a = a'" using assms(2,3) xs ys by (simp add: steps_def)
  moreover have "steps xs' = steps ys'" using assms(3) xs ys by (simp add: steps_def)
  ultimately show ?thesis unfolding xs ys by (simp only: fill_cong_tail [of xs' ys'])
qed

lemma fill_wire:
  assumes "pp_shape p" "pp_sides p"
  shows "pp_fill H (wire p) = pp_fill H p"
proof -
  have ne: "left_of_twig p \<noteq> []" "right_of_twig p \<noteq> []" "upper_path p \<noteq> []"
    "left_of_twig (wire p) \<noteq> []" "right_of_twig (wire p) \<noteq> []" "upper_path (wire p) \<noteq> []"
    using assms(1) computed_root_wire(2) [OF assms] by (auto simp: pp_shape_def)
  have wn: "wire_nodes (serial_num p) 0 (left_of_twig p) \<noteq> []"
    "wire_nodes (serial_num p) 8 (right_of_twig p) \<noteq> []"
    using assms(1) by (auto simp: pp_shape_def dest: arg_cong [of _ _ length])
  have st: "steps (left_of_twig (wire p)) = steps (left_of_twig p)"
    "steps (right_of_twig (wire p)) = steps (right_of_twig p)"
    "steps (upper_path (wire p)) = steps (upper_path p)"
    using assms(2) wn by (simp_all add: wire_def Let_def steps_upd_hd steps_wire_nodes pp_sides_def)
  have t: "pp_twig_root H (wire p) = pp_twig_root H p"
    by (simp add: pp_twig_root_def st self_hash_hd_wire)
  have "fill H 0 (left_of_twig (wire p)) = fill H 0 (left_of_twig p)"
    "fill H 8 (right_of_twig (wire p)) = fill H 8 (right_of_twig p)"
    by (rule fill_cong; simp add: ne st self_hash_hd_wire)+
  moreover have "fill H TWIG_ROOT_LEVEL ((hd (upper_path (wire p)))\<lparr>self_hash := t\<rparr> # tl (upper_path (wire p)))
      = fill H TWIG_ROOT_LEVEL ((hd (upper_path p))\<lparr>self_hash := t\<rparr> # tl (upper_path p))" for t
    by (rule fill_cong) (simp_all add: steps_upd_hd ne st)
  ultimately show ?thesis by (simp add: pp_fill_def t) (simp add: wire_def Let_def)
qed

section \<open>Properties\<close>

text \<open>A path whose stored hashes chain: in each part every node stores the hash of the node below it,
  the first upper node the hash of the two tops of the twig, and the root is the hash of the last
  node. \<open>pp_encoding\<close> lists the bytes of a path.\<close>

definition linked :: "hashfun \<Rightarrow> nat \<Rightarrow> proof_node list \<Rightarrow> bool" where
  "linked H l ns \<longleftrightarrow> (\<forall>i. Suc i < length ns \<longrightarrow> self_hash (ns ! Suc i) = node_up H (l + i) (ns ! i))"

definition pp_chained :: "hashfun \<Rightarrow> proof_path \<Rightarrow> bool" where
  "pp_chained H p \<longleftrightarrow> linked H 0 (left_of_twig p) \<and> linked H 8 (right_of_twig p)
     \<and> self_hash (hd (upper_path p)) =
         hash2 H 11 (node_up H 10 (last (left_of_twig p))) (node_up H 10 (last (right_of_twig p)))
     \<and> linked H 12 (upper_path p) \<and> pp_root p = node_up H (11 + length (upper_path p)) (last (upper_path p))"

definition pp_encoding :: "proof_path \<Rightarrow> bytes" where
  "pp_encoding p = u64_le (serial_num p)
     @ self_hash (hd (left_of_twig p)) @ concat (map peer_hash (left_of_twig p))
     @ self_hash (hd (right_of_twig p)) @ concat (map peer_hash (right_of_twig p))
     @ concat (map peer_hash (upper_path p)) @ pp_root p"

lemma linked_Cons: "linked H l (a # b # ns) \<longleftrightarrow> self_hash b = node_up H l a \<and> linked H (l + 1) (b # ns)"
  by (auto simp: linked_def nth_Cons split: nat.splits)

lemma linked_fill: "linked H l ns \<longleftrightarrow> fill H l ns = ns"
proof (induction ns arbitrary: l rule: induct_list012)
  case (3 a b ns)
  have "fill H (l + 1) (b\<lparr>self_hash := node_up H l a\<rparr> # ns) = b # ns
      \<longleftrightarrow> self_hash b = node_up H l a \<and> fill H (l + 1) (b # ns) = b # ns" by (rule fill_self)
  then show ?case using 3(2) [of "l + 1"] by (simp add: linked_Cons)
qed (simp_all add: linked_def)

lemma pp_chained_iff:
  assumes "pp_shape p"
  shows "pp_chained H p \<longleftrightarrow> pp_fill H p = p \<and> pp_computed_root H p = pp_root p"
proof -
  let ?l = "left_of_twig p" and ?r = "right_of_twig p" and ?us = "upper_path p"
  have n: "length ?l = 11" "length ?r = 3" "?us \<noteq> []" using assms by (auto simp: pp_shape_def)
  have ne: "?l \<noteq> []" "?r \<noteq> []" using n by auto
  have top: "node_up H 10 (last ?l) = climb H 0 (self_hash (hd ?l)) (steps ?l)" if "fill H 0 ?l = ?l"
    using left_top [OF n(1), of H] that ne n by (simp add: last_conv_nth)
  have top': "node_up H 10 (last ?r) = climb H 8 (self_hash (hd ?r)) (steps ?r)" if "fill H 8 ?r = ?r"
    using right_top [OF n(2), of H] that ne n by (simp add: last_conv_nth)
  have up: "node_up H (11 + length ?us) (last ?us) = climb H 12 (self_hash (hd ?us)) (steps ?us)" if "fill H 12 ?us = ?us"
    using upper_top [OF n(3), of H 12] that n(3) by (cases ?us) (simp_all add: add.commute)
  have "pp_fill H p = p \<longleftrightarrow> fill H 0 ?l = ?l \<and> fill H 8 ?r = ?r
      \<and> fill H 12 ((hd ?us)\<lparr>self_hash := pp_twig_root H p\<rparr> # tl ?us) = hd ?us # tl ?us"
    using n(3) by (cases p) (auto simp: pp_fill_def layout_defs)
  then have "pp_fill H p = p \<longleftrightarrow> fill H 0 ?l = ?l \<and> fill H 8 ?r = ?r
      \<and> self_hash (hd ?us) = pp_twig_root H p \<and> fill H 12 ?us = ?us"
    unfolding fill_self using n(3) by simp
  moreover have "pp_twig_root H p = hash2 H 11 (node_up H 10 (last ?l)) (node_up H 10 (last ?r))"
    if "fill H 0 ?l = ?l" "fill H 8 ?r = ?r" using top [OF that(1)] top' [OF that(2)] by (simp add: pp_twig_root_def)
  ultimately show ?thesis
    using up by (auto simp: pp_chained_def linked_fill pp_computed_root_def layout_defs)
qed

lemma pp_encoding_bytes: "pp_shape p \<Longrightarrow> pp_to_bytes p = Inr (pp_encoding p)"
  by (cases "left_of_twig p"; cases "right_of_twig p") (auto simp: pp_shape_def pp_to_bytes_def pp_encoding_def)

lemma pp_check_False_error:
  assumes "pp_shape p" and "\<not> pp_chained H p"
  shows "\<exists>msg. pp_check H False p = Inl (Err msg)"
proof (cases "pp_check H False p")
  case (Inr p')
  then show ?thesis using assms pp_check_False [OF assms(1), of H p'] by (simp add: pp_chained_iff)
next
  case (Inl x)
  then show ?thesis
    using assms(1) by (auto simp: pp_check_def check_chain_False Let_def pp_shape_def split: if_splits)
qed

lemma check_proof_chained:
  assumes "pp_shape p" "pp_sides p" "pp_hashes p" "length (upper_path p) < 2 ^ 31" "pp_chained H p"
  shows "check_proof H p = Inr (pp_encoding p)"
    and "bindE (bytes_to_proof_path (pp_encoding p)) (pp_check H True) = Inr p"
proof -
  have n: "length (left_of_twig p) = 11" "length (right_of_twig p) = 3"
    using assms(1) by (simp_all add: pp_shape_def)
  have b: "pp_to_bytes p = Inr (pp_encoding p)" "bytes_to_proof_path (pp_encoding p) = Inr (wire p)"
    using wire_roundtrip [OF n assms(3,4)] pp_encoding_bytes [OF assms(1)] by auto
  have root: "pp_root (wire p) = pp_root p" by (simp add: wire_def Let_def)
  note w = computed_root_wire [OF assms(1,2)] and ch = pp_chained_iff [OF assms(1), of H, THEN iffD1, OF assms(5)]
  show "bindE (bytes_to_proof_path (pp_encoding p)) (pp_check H True) = Inr p"
    using b ch by (simp add: pp_check_True [OF w(2)] w(1) root fill_wire [OF assms(1,2)])
  show "check_proof H p = Inr (pp_encoding p)"
    using b ch by (simp add: check_proof_def pp_check_False [OF assms(1), THEN iffD2] pp_check_True [OF w(2)] w(1) root)
qed

text \<open>Nothing compares the serial number with the height of the path: setting or clearing one of its
  bits above the path yields another accepted proof, with the same leaf and root.\<close>

lemma check_proof_shifted_serial:
  fixes i :: nat
  assumes "pp_shape p" "pp_sides p" "pp_hashes p" "pp_chained H p" "11 + length (upper_path p) \<le> i" "i < 64"
  defines "q \<equiv> p\<lparr>serial_num := xor (serial_num p) (push_bit i 1)\<rparr>"
  shows "check_proof H q = Inr (pp_encoding q)"
proof (rule check_proof_chained(1))
  have b: "sn_bit (xor sn (push_bit i 1)) k = sn_bit sn k" if "k < i" for sn k
  proof -
    have "sn_bit x k \<longleftrightarrow> bit x k" for x
      using that assms(6) by (simp add: sn_bit_def and_one_eq bit_iff_odd_drop_bit odd_iff_mod_2_eq_one)
    then show ?thesis using that by (simp add: bit_simps)
  qed
  then have "side_bits (xor sn (push_bit i 1)) k ns = side_bits sn k ns" if "k + length ns \<le> i" for sn k ns
    using that by (auto simp: side_bits_def)
  then show "pp_sides q" using assms(1,2,5) by (simp add: pp_sides_def q_def pp_shape_def)
qed (use assms in \<open>simp_all add: q_def pp_shape_def pp_hashes_def pp_chained_def\<close>)

text \<open>C15. \<^verbatim>\<open>check_proof\<close> on a path whose sides are those of its serial number and that has at least one
  and fewer than \<open>2\<^sup>3\<^sup>1\<close> nodes above the twig: it accepts exactly when the stored hashes chain to the
  root, and then returns the serialised path; otherwise it returns an error and does not panic. A
  verifier that parses the returned bytes and runs \<^verbatim>\<open>check(true)\<close> recovers the whole path.\<close>

theorem check_proof_iff:
  assumes "pp_shape p" "pp_sides p" "pp_hashes p" "length (upper_path p) < 2 ^ 31"
  shows "(\<forall>bz. check_proof H p = Inr bz \<longleftrightarrow> pp_chained H p \<and> bz = pp_encoding p)
    \<and> (\<not> pp_chained H p \<longrightarrow> (\<exists>msg. check_proof H p = Inl (Err msg)))
    \<and> (pp_chained H p \<longrightarrow> bindE (bytes_to_proof_path (pp_encoding p)) (pp_check H True) = Inr p)"
proof (cases "pp_chained H p")
  case True
  then show ?thesis using check_proof_chained [OF assms True] by auto
next
  case False
  then show ?thesis using pp_check_False_error [OF assms(1) False] by (auto simp: check_proof_def)
qed

definition zero_path :: proof_path where
  "zero_path = pp_new\<lparr>upper_path := [empty_node]\<rparr>"

lemma sn_bit_0 [simp]: "\<not> sn_bit 0 i"
  by (simp add: sn_bit_def)

lemma zero_path_wf: "pp_shape zero_path" "pp_sides zero_path" "pp_hashes zero_path"
  "length (upper_path zero_path) < 2 ^ 31"
proof -
  show "pp_shape zero_path" "pp_hashes zero_path" "length (upper_path zero_path) < 2 ^ 31"
    by (simp_all add: zero_path_def pp_new_def pp_shape_def pp_hashes_def empty_node_def)
  have "side_bits 0 i (replicate n empty_node)" for i n
    by (simp add: side_bits_def empty_node_def)
  from this [of _ 1] this show "pp_sides zero_path"
    by (simp add: pp_sides_def zero_path_def pp_new_def)
qed

theorem check_proof_iff_witness:
  "pp_chained (\<lambda>_. replicate 32 0) zero_path
    \<and> check_proof (\<lambda>_. replicate 32 0) zero_path = Inr (pp_encoding zero_path)
    \<and> bindE (bytes_to_proof_path (pp_encoding zero_path)) (pp_check (\<lambda>_. replicate 32 0) True) = Inr zero_path"
proof -
  have z: "node_up (\<lambda>_. replicate 32 0) l empty_node = self_hash empty_node" for l
    by (simp add: node_up_def hash2x_def hash2_def empty_node_def)
  have "linked (\<lambda>_. replicate 32 0) l (replicate n empty_node)" for l n by (simp add: linked_def z)
  from this [of _ 1] this have "pp_chained (\<lambda>_. replicate 32 0) zero_path"
    by (simp add: pp_chained_def zero_path_def pp_new_def z) (simp add: empty_node_def hash2_def)
  then show ?thesis using check_proof_iff [OF zero_path_wf, of "\<lambda>_. replicate 32 0"] by blast
qed

section \<open>Soundness against the reference tree\<close>

lemma take32_len: "take32 bz = Inr (h, r) \<Longrightarrow> length h = 32"
  by (auto simp: take32_def res_simps)

lemma read_peers_props:
  "read_peers sn n i bz = Inr (ns, r) \<Longrightarrow>
   length ns = n \<and> side_bits sn i ns \<and> (\<forall>s\<in>set (steps ns). length (fst s) = 32)"
proof (induction n arbitrary: i bz ns r)
  case 0
  then show ?case by (simp add: side_bits_def steps_def)
next
  case (Suc n)
  then obtain h b1 ns1 where t: "take32 bz = Inr (h, b1)" and r: "read_peers sn n (i + 1) b1 = Inr (ns1, r)"
    and ns: "ns = empty_node\<lparr>peer_hash := h, peer_at_left := sn_bit sn i\<rparr> # ns1" by auto
  with Suc.IH [OF r] take32_len [OF t] show ?case by (simp add: side_bits_Cons steps_def)
qed

definition parsed :: "proof_path \<Rightarrow> bool" where
  "parsed p \<longleftrightarrow> length (left_of_twig p) = 11 \<and> length (right_of_twig p) = 3 \<and> pp_sides p
     \<and> length (self_hash (hd (left_of_twig p))) = 32 \<and> length (self_hash (hd (right_of_twig p))) = 32
     \<and> (\<forall>s\<in>set (steps (left_of_twig p) @ steps (right_of_twig p) @ steps (upper_path p)).
          length (fst s) = 32)"

lemma side_bits_upd_hd: "ns \<noteq> [] \<Longrightarrow> side_bits sn i ((hd ns)\<lparr>self_hash := h\<rparr> # tl ns) = side_bits sn i ns"
  by (cases ns) (simp_all add: side_bits_Cons)

lemma bytes_to_proof_path_parsed:
  assumes "bytes_to_proof_path bz = Inr p"
  shows "parsed p"
proof -
  obtain sn self0 left rself0 right upper root b1 b2 b3 b4 b5 b6 b7 n where
    t0: "take32 b1 = Inr (self0, b2)" and l: "read_peers sn 11 0 b2 = Inr (left, b3)"
    and t1: "take32 b3 = Inr (rself0, b4)" and r: "read_peers sn 3 8 b4 = Inr (right, b5)"
    and u: "read_peers sn n 11 b5 = Inr (upper, b6)"
    and p: "p = \<lparr>left_of_twig = (hd left)\<lparr>self_hash := self0\<rparr> # tl left,
              right_of_twig = (hd right)\<lparr>self_hash := rself0\<rparr> # tl right,
              upper_path = upper, serial_num = sn, pp_root = root\<rparr>"
    using assms by (auto simp: bytes_to_proof_path_def Let_def FIRST_LEVEL_ABOVE_TWIG_def
        simp del: bindE.simps split: if_splits prod.splits)
  note props = read_peers_props [OF l] read_peers_props [OF r] read_peers_props [OF u]
  have ne: "left \<noteq> []" "right \<noteq> []" using props by auto
  show ?thesis
    using props take32_len [OF t0] take32_len [OF t1] ne
    by (auto simp: parsed_def p pp_sides_def side_bits_upd_hd steps_upd_hd)
qed

text \<open>The shard as a function of its leaves and pages of active bits.\<close>

definition twig_ref :: "hashfun \<Rightarrow> (nat \<Rightarrow> hash32) \<Rightarrow> (nat \<Rightarrow> nat \<Rightarrow> hash32) \<Rightarrow> nat \<Rightarrow> hash32" where
  "twig_ref H leaf pg t = hash2 H 11 (mnode H 0 (\<lambda>i. leaf (2048 * t + i)) 11 0) (mnode H 8 (pg t) 3 0)"

text \<open>The strings hashed by the verifier, and those hashed by the reference tree, paired.\<close>

definition proof_inputs :: "hashfun \<Rightarrow> proof_path \<Rightarrow> bytes list" where
  "proof_inputs H p =
     (let l = self_hash (hd (left_of_twig p)); r = self_hash (hd (right_of_twig p)) in
      climb_inputs H 0 l (steps (left_of_twig p)) @ climb_inputs H 8 r (steps (right_of_twig p))
      @ [11 # climb H 0 l (steps (left_of_twig p)) @ climb H 8 r (steps (right_of_twig p))]
      @ climb_inputs H 12 (pp_twig_root H p) (steps (upper_path p)))"

definition shard_inputs ::
  "hashfun \<Rightarrow> (nat \<Rightarrow> hash32) \<Rightarrow> (nat \<Rightarrow> nat \<Rightarrow> hash32) \<Rightarrow> nat \<Rightarrow> nat \<Rightarrow> bytes list" where
  "shard_inputs H leaf pg sn L =
     (let t = sn div 2048; n = sn mod 2048 in
      tree_inputs H 0 (\<lambda>i. leaf (2048 * t + i)) n 11 @ tree_inputs H 8 (pg t) (n div 256) 3
      @ [11 # mnode H 0 (\<lambda>i. leaf (2048 * t + i)) 11 0 @ mnode H 8 (pg t) 3 0]
      @ tree_inputs H 12 (twig_ref H leaf pg) t L)"

lemma length_climb_inputs [simp]: "length (climb_inputs H b h ss) = length ss"
  by (induction ss arbitrary: b h) simp_all

lemma length_tree_inputs [simp]: "length (tree_inputs H b f n l) = l"
  by (induction l arbitrary: b f n) simp_all

lemma length_steps [simp]: "length (steps ns) = length ns"
  by (simp add: steps_def)

lemma sn_bit_odd:
  assumes "i < 64"
  shows "sn_bit sn i \<longleftrightarrow> odd (unat sn div 2 ^ i)"
proof -
  have "sn_bit sn i \<longleftrightarrow> odd (drop_bit i sn)"
    using assms by (simp add: sn_bit_def and_one_eq odd_iff_mod_2_eq_one)
  also have "\<dots> \<longleftrightarrow> bit sn i" by (simp add: bit_iff_odd_drop_bit)
  also have "\<dots> \<longleftrightarrow> bit (unat sn) i" using assms by (simp add: bit_unsigned_iff)
  finally show ?thesis by (simp add: bit_iff_odd)
qed

lemma side_bits_path:
  assumes "side_bits sn i ns" "i + length ns \<le> 64"
  shows "path_sides (unat sn div 2 ^ i) (steps ns)"
  using assms
  by (auto simp: path_sides_def side_bits_def steps_def sn_bit_odd div_mult2_eq power_add)

lemma path_sides_mod:
  assumes "length ss \<le> k"
  shows "path_sides (n mod 2 ^ k) ss = path_sides n ss"
proof -
  have "odd (n mod 2 ^ k div 2 ^ i) = odd (n div 2 ^ i)" if "i < k" for i
    using that by (metis bit_iff_odd bit_take_bit_iff take_bit_eq_mod)
  then show ?thesis using assms by (auto simp: path_sides_def)
qed

definition colliding_pair :: "hashfun \<Rightarrow> bytes list \<Rightarrow> bytes list \<Rightarrow> bool" where
  "colliding_pair H xs ys \<longleftrightarrow> (\<exists>(x, y)\<in>set (zip xs ys). collides H x y)"

lemma colliding_pair_append:
  "length xs = length ys \<Longrightarrow> colliding_pair H (xs @ xs') (ys @ ys')
     \<longleftrightarrow> colliding_pair H xs ys \<or> colliding_pair H xs' ys'"
  by (auto simp: colliding_pair_def)

lemma climb_sound_pair:
  assumes "digest32 H" "\<And>i. length (f i) = 32" "length h = 32" "\<forall>s\<in>set ss. length (fst s) = 32"
    and "path_sides n ss" "length ss = l" "n < 2 ^ l" "climb H b h ss = mnode H b f l 0"
  shows "h = f n \<or> colliding_pair H (climb_inputs H b h ss) (tree_inputs H b f n l)"
proof -
  have "climb H b h ss = mnode H b f (length ss) (n div 2 ^ length ss)" using assms(6-8) by simp
  from climb_sound [OF assms(1-5) this] consider "h = f n"
    | i where "i < length ss" "collides H (climb_inputs H b h ss ! i) (tree_inputs H b f n l ! i)"
    using assms(6) by blast
  then show ?thesis
  proof cases
    case 2
    then have "(climb_inputs H b h ss ! i, tree_inputs H b f n l ! i)
        \<in> set (zip (climb_inputs H b h ss) (tree_inputs H b f n l))"
      using assms(6) by (auto simp: set_zip)
    with 2 show ?thesis by (auto simp: colliding_pair_def)
  qed simp
qed

lemma length_climb: "digest32 H \<Longrightarrow> length h = 32 \<Longrightarrow> length (climb H b h ss) = 32"
  by (induction ss arbitrary: b h) (simp_all add: hash2x_def digest32_hash2)

lemma pp_check_True_upper: "pp_check H True p = Inr p' \<Longrightarrow> upper_path p \<noteq> []"
  by (auto simp: pp_check_def Let_def index_def)

lemma parsed_path_sides:
  assumes "parsed p" "length (upper_path p) \<le> 53"
  shows "path_sides (unat (serial_num p) mod 2048) (steps (left_of_twig p))"
    and "path_sides (unat (serial_num p) mod 2048 div 256) (steps (right_of_twig p))"
    and "path_sides (unat (serial_num p) div 2048) (steps (upper_path p))"
proof -
  let ?sn = "unat (serial_num p)"
  have n: "length (left_of_twig p) = 11" "length (right_of_twig p) = 3" and "pp_sides p"
    using assms(1) by (auto simp: parsed_def)
  then have "path_sides ?sn (steps (left_of_twig p))" "path_sides (?sn div 256) (steps (right_of_twig p))"
    and u: "path_sides (?sn div 2048) (steps (upper_path p))"
    using assms(2) side_bits_path [of "serial_num p" 0 "left_of_twig p"]
      side_bits_path [of "serial_num p" 8 "right_of_twig p"]
      side_bits_path [of "serial_num p" 11 "upper_path p"] by (simp_all add: pp_sides_def)
  moreover have "?sn mod 2048 div 256 = ?sn div 256 mod 2 ^ 3"
    using mod_mult2_eq [of ?sn 256 8] by simp
  ultimately show "path_sides (?sn mod 2048) (steps (left_of_twig p))"
    and "path_sides (?sn mod 2048 div 256) (steps (right_of_twig p))"
    using path_sides_mod [of "steps (left_of_twig p)" 11 ?sn]
      path_sides_mod [of "steps (right_of_twig p)" 3 "?sn div 256"] n by simp_all
  show "path_sides (?sn div 2048) (steps (upper_path p))" by (rule u)
qed

lemma proof_sound_at:
  assumes H: "digest32 H" and leaf: "\<And>i. length (leaf i) = 32" and pg: "\<And>t i. length (pg t i) = 32"
    and parse: "parsed p" and chk: "pp_check H True p = Inr p'"
    and L: "length (upper_path p) = L" and L53: "L \<le> 53" and sn: "N = unat (serial_num p) mod 2 ^ (11 + L)"
    and root: "pp_root p = mnode H 12 (twig_ref H leaf pg) L 0"
  shows "self_hash (hd (left_of_twig p)) = leaf N
      \<and> self_hash (hd (right_of_twig p)) = pg (N div 2048) (N mod 2048 div 256)
    \<or> colliding_pair H (proof_inputs H p) (shard_inputs H leaf pg N L)"
proof -
  let ?sn = N and ?l = "self_hash (hd (left_of_twig p))"
    and ?r = "self_hash (hd (right_of_twig p))"
  let ?t = "?sn div 2048" and ?n = "?sn mod 2048"
  let ?ls = "steps (left_of_twig p)" and ?rs = "steps (right_of_twig p)" and ?us = "steps (upper_path p)"
  let ?f = "\<lambda>i. leaf (2048 * ?t + i)"
  let ?C = "colliding_pair H (proof_inputs H p) (shard_inputs H leaf pg ?sn L)"
  note pd = parse
  then have n: "length (left_of_twig p) = 11" "length (right_of_twig p) = 3" and hl: "length ?l = 32" "length ?r = 32"
    and peers: "\<forall>s\<in>set ?ls. length (fst s) = 32" "\<forall>s\<in>set ?rs. length (fst s) = 32"
      "\<forall>s\<in>set ?us. length (fst s) = 32" and sides: "pp_sides p"
    by (auto simp: parsed_def)
  have shape: "pp_shape p" using n pp_check_True_upper [OF chk] by (simp add: pp_shape_def)
  then have top: "climb H 12 (pp_twig_root H p) ?us = mnode H 12 (twig_ref H leaf pg) L 0"
    using chk root by (simp add: pp_check_True pp_computed_root_def layout_defs split: if_splits)
  have C: "?C \<longleftrightarrow> colliding_pair H (climb_inputs H 0 ?l ?ls) (tree_inputs H 0 ?f ?n 11)
      \<or> colliding_pair H (climb_inputs H 8 ?r ?rs) (tree_inputs H 8 (pg ?t) (?n div 256) 3)
      \<or> colliding_pair H [11 # climb H 0 ?l ?ls @ climb H 8 ?r ?rs]
          [11 # mnode H 0 ?f 11 0 @ mnode H 8 (pg ?t) 3 0]
      \<or> colliding_pair H (climb_inputs H 12 (pp_twig_root H p) ?us) (tree_inputs H 12 (twig_ref H leaf pg) ?t L)"
    using n L by (simp only: proof_inputs_def shard_inputs_def Let_def colliding_pair_append
        length_climb_inputs length_tree_inputs length_steps list.size)
  have split: "N = 2048 * (unat (serial_num p) div 2048 mod 2 ^ L) + unat (serial_num p) mod 2048"
    using sn mod_mult2_eq [of "unat (serial_num p)" 2048 "2 ^ L"] by (simp add: power_add)
  then have low: "?n = unat (serial_num p) mod 2048" "?t = unat (serial_num p) div 2048 mod 2 ^ L" by simp_all
  note ps = parsed_path_sides [OF pd, unfolded L, OF L53, folded low(1)]
  have ps3: "path_sides ?t ?us" unfolding low(2) using ps(3) path_sides_mod [of ?us L] L by simp
  have tw: "length (pp_twig_root H p) = 32" "\<And>i. length (twig_ref H leaf pg i) = 32"
    using H by (simp_all add: pp_twig_root_def twig_ref_def digest32_hash2)
  have t: "?t < 2 ^ L" using sn by (simp add: div_less_iff_less_mult power_add mult.commute)
  from climb_sound_pair [OF H tw(2) tw(1) peers(3) ps3 _ t top] L
  have "pp_twig_root H p = twig_ref H leaf pg ?t \<or> ?C" using C by auto
  moreover have "climb H 0 ?l ?ls = mnode H 0 ?f 11 0 \<and> climb H 8 ?r ?rs = mnode H 8 (pg ?t) 3 0 \<or> ?C"
    if "pp_twig_root H p = twig_ref H leaf pg ?t"
  proof -
    have "length (climb H 0 ?l ?ls) = length (mnode H 0 ?f 11 0)"
      using H hl leaf by (simp add: length_climb length_mnode)
    then show ?thesis
      using that hash2_inj [of H 11 "climb H 0 ?l ?ls" "climb H 8 ?r ?rs"] C
      by (auto simp: pp_twig_root_def twig_ref_def colliding_pair_def)
  qed
  moreover have "?l = leaf ?sn \<or> ?C" if "climb H 0 ?l ?ls = mnode H 0 ?f 11 0"
    using climb_sound_pair [OF H leaf hl(1) peers(1) ps(1) _ _ that] n C by auto
  moreover have "?r = pg ?t (?n div 256) \<or> ?C" if "climb H 8 ?r ?rs = mnode H 8 (pg ?t) 3 0"
  proof -
    have "?n div 256 < 2 ^ 3" by (simp add: less_mult_imp_div_less)
    with climb_sound_pair [OF H pg hl(2) peers(2) ps(2) _ _ that] n C show ?thesis by auto
  qed
  ultimately show ?thesis by blast
qed


text \<open>The strings hashed last, to give the root: they start with the number of the level below it.\<close>

lemma climb_last:
  "ss \<noteq> [] \<Longrightarrow> climb H b h ss = H (last (climb_inputs H b h ss))
    \<and> hd (last (climb_inputs H b h ss)) = word_of_nat (b + length ss - 1) \<and> climb_inputs H b h ss \<noteq> []"
proof (induction ss arbitrary: b h)
  case (Cons s ss)
  let ?h = "hash2x H (word_of_nat b) h (fst s) (snd s)"
  show ?case
  proof (cases "ss = []")
    case True
    then show ?thesis by (simp add: hash2x_def hash2_def)
  next
    case False
    then show ?thesis using Cons.IH [OF False, of "b + 1" ?h] by (simp del: of_nat_add)
  qed
qed simp

lemma tree_last:
  "0 < l \<Longrightarrow> mnode H b f l (n div 2 ^ l) = H (last (tree_inputs H b f n l))
    \<and> hd (last (tree_inputs H b f n l)) = word_of_nat (b + l - 1) \<and> tree_inputs H b f n l \<noteq> []"
proof (induction l arbitrary: b f n)
  case (Suc l)
  have e: "n div 2 ^ Suc l = n div 2 div 2 ^ l" by (simp add: div_mult2_eq)
  show ?case
  proof (cases "l = 0")
    case True
    then show ?thesis by (simp add: hash2_def)
  next
    case False
    then show ?thesis using Suc.IH [of "b + 1" "mnode H b f 1" "n div 2"] unfolding e mnode_shift tree_inputs.simps last.simps
      by (simp del: mnode.simps of_nat_add)
  qed
qed simp

lemma proof_root_string:
  assumes "pp_shape p"
  shows "pp_computed_root H p = H (last (proof_inputs H p))" "hd (last (proof_inputs H p)) = word_of_nat (11 + length (upper_path p))"
proof -
  have "steps (upper_path p) \<noteq> []" using assms by (auto simp: pp_shape_def steps_def)
  note c = climb_last [OF this, of H 12 "pp_twig_root H p"]
  then show "pp_computed_root H p = H (last (proof_inputs H p))" "hd (last (proof_inputs H p)) = word_of_nat (11 + length (upper_path p))"
    by (simp_all add: proof_inputs_def Let_def pp_computed_root_def layout_defs)
qed

lemma shard_root_string:
  assumes "N < 2 ^ (11 + L)"
  shows "mnode H 12 (twig_ref H leaf pg) L 0 = H (last (shard_inputs H leaf pg N L))"
    "hd (last (shard_inputs H leaf pg N L)) = word_of_nat (11 + L)"
proof -
  have "N div 2048 < 2 ^ L" using assms by (simp add: div_less_iff_less_mult power_add mult.commute)
  then have z: "N div 2048 div 2 ^ L = 0" by simp
  have "mnode H 12 (twig_ref H leaf pg) L 0 = H (last (shard_inputs H leaf pg N L))
    \<and> hd (last (shard_inputs H leaf pg N L)) = word_of_nat (11 + L)"
  proof (cases "L = 0")
    case True
    with z have "N div 2048 = 0" by simp
    with True show ?thesis by (simp add: shard_inputs_def Let_def twig_ref_def hash2_def)
  next
    case False
    then show ?thesis using tree_last [of L H 12 "twig_ref H leaf pg" "N div 2048"] unfolding z by (simp add: shard_inputs_def Let_def)
  qed
  then show "mnode H 12 (twig_ref H leaf pg) L 0 = H (last (shard_inputs H leaf pg N L))"
    "hd (last (shard_inputs H leaf pg N L)) = word_of_nat (11 + L)" by simp_all
qed

lemma byte_level_inj: "L < 256 \<Longrightarrow> M < 256 \<Longrightarrow> (word_of_nat (11 + L) :: byte) = word_of_nat (11 + M) \<Longrightarrow> L = M"
proof -
  assume l: "L < 256" "M < 256" and "(word_of_nat (11 + L) :: byte) = word_of_nat (11 + M)"
  then have "(word_of_nat L :: byte) = word_of_nat M" by simp
  then have "unat (word_of_nat L :: byte) = unat (word_of_nat M :: byte)" by (simp only:)
  then show "L = M" using l by (simp add: unat_of_nat)
qed

text \<open>C11. Proof soundness: if the bytes parse, \<^verbatim>\<open>check(true)\<close> accepts them, and the root they end in is the
  root of a shard of \<open>Lt\<close> levels above the twigs, then the path has just these levels, and the leaf
  hash and the page of active bits in the proof are those of the position \<open>N\<close> in the shard that the
  low \<open>11 + Lt\<close> bits of the serial number name. Otherwise one of the strings hashed by the verifier
  and the string hashed at the same node of the shard's tree, or the two strings hashed last, are a
  collision of the hash function. The verifier checks no higher bit of the serial number (see
  \<open>check_proof_shifted_serial\<close>) and numbers its levels modulo 256: paths with 256 or more nodes
  above the twig are left out.\<close>

theorem proof_sound:
  assumes "digest32 H" and "\<And>i. length (leaf i) = 32" and "\<And>t i. length (pg t i) = 32"
    and "bytes_to_proof_path bz = Inr p" and "pp_check H True p = Inr p'" and "length (upper_path p) < 256"
    and "pp_root p = mnode H 12 (twig_ref H leaf pg) Lt 0" and "Lt \<le> 53" and "N = unat (serial_num p) mod 2 ^ (11 + Lt)"
  shows "length (upper_path p) = Lt \<and> self_hash (hd (left_of_twig p)) = leaf N
      \<and> self_hash (hd (right_of_twig p)) = pg (N div 2048) (N mod 2048 div 256)
    \<or> colliding_pair H (proof_inputs H p) (shard_inputs H leaf pg N Lt)
    \<or> collides H (last (proof_inputs H p)) (last (shard_inputs H leaf pg N Lt))"
proof (cases "length (upper_path p) = Lt")
  case True
  then show ?thesis
    using proof_sound_at [OF assms(1-3) bytes_to_proof_path_parsed [OF assms(4)] assms(5) True assms(8,9,7)] by blast
next
  case False
  have pd: "parsed p" by (rule bytes_to_proof_path_parsed [OF assms(4)])
  then have shape: "pp_shape p" using pp_check_True_upper [OF assms(5)] by (simp add: pp_shape_def parsed_def)
  have N: "N < 2 ^ (11 + Lt)" using assms(9) by simp
  have "H (last (proof_inputs H p)) = H (last (shard_inputs H leaf pg N Lt))"
    using assms(5,7) proof_root_string(1) [OF shape, of H] shard_root_string(1) [OF N, of H leaf pg]
    by (simp add: pp_check_True [OF shape] split: if_splits)
  moreover have "last (proof_inputs H p) \<noteq> last (shard_inputs H leaf pg N Lt)"
    using False proof_root_string(2) [OF shape, of H] shard_root_string(2) [OF N, of H leaf pg]
      byte_level_inj [of "length (upper_path p)" Lt] assms(6,8) by auto
  ultimately show ?thesis by (simp add: collides_def)
qed

lemma climb_zero: "climb (\<lambda>_. replicate 32 0) l (replicate 32 0) ss = replicate 32 0"
  by (induction ss arbitrary: l) (simp_all add: hash2x_def hash2_def)

theorem proof_sound_witness:
  "\<exists>bz p p'. bytes_to_proof_path bz = Inr p \<and> pp_check (\<lambda>_. replicate 32 0) True p = Inr p' \<and> serial_num p = 0
    \<and> (length (upper_path p) = 1 \<and> self_hash (hd (left_of_twig p)) = replicate 32 0
        \<and> self_hash (hd (right_of_twig p)) = replicate 32 0
      \<or> colliding_pair (\<lambda>_. replicate 32 0) (proof_inputs (\<lambda>_. replicate 32 0) p)
          (shard_inputs (\<lambda>_. replicate 32 0) (\<lambda>_. replicate 32 0) (\<lambda>_ _. replicate 32 0) 0 1)
      \<or> collides (\<lambda>_. replicate 32 0) (last (proof_inputs (\<lambda>_. replicate 32 0) p))
          (last (shard_inputs (\<lambda>_. replicate 32 0) (\<lambda>_. replicate 32 0) (\<lambda>_ _. replicate 32 0) 0 1)))"
proof -
  let ?H = "\<lambda>_. replicate 32 0" and ?z = "\<lambda>_. replicate 32 0" and ?p = "wire zero_path"
  obtain bz where bz: "bytes_to_proof_path bz = Inr ?p"
    using wire_roundtrip [of zero_path] zero_path_wf by (auto simp: pp_shape_def)
  note w = computed_root_wire [OF zero_path_wf(1,2)]
  have "pp_computed_root ?H zero_path = replicate 32 0" "pp_root ?p = replicate 32 0"
    by (simp_all add: pp_computed_root_def pp_twig_root_def hash2_def climb_zero zero_path_def
        pp_new_def wire_def Let_def)
  then have c: "pp_check ?H True ?p = Inr (pp_fill ?H ?p)" by (simp add: pp_check_True [OF w(2)] w(1))
  have u: "length (upper_path ?p) = 1" "serial_num ?p = 0"
    by (simp_all add: wire_def Let_def zero_path_def pp_new_def)
  have "length (upper_path ?p) = 1 \<and> self_hash (hd (left_of_twig ?p)) = ?z 0 \<and> self_hash (hd (right_of_twig ?p)) = (\<lambda>_. ?z) (0 div 2048) (0 mod 2048 div 256)
    \<or> colliding_pair ?H (proof_inputs ?H ?p) (shard_inputs ?H ?z (\<lambda>_. ?z) 0 1)
    \<or> collides ?H (last (proof_inputs ?H ?p)) (last (shard_inputs ?H ?z (\<lambda>_. ?z) 0 1))"
    by (rule proof_sound [OF _ _ _ bz c]) (simp_all add: digest32_def u \<open>pp_root ?p = replicate 32 0\<close> hash2_def)
  then show ?thesis using bz c u(2) by blast
qed

section \<open>Extracted paths are true paths\<close>

definition true_node :: "hashfun \<Rightarrow> nat \<Rightarrow> (nat \<Rightarrow> hash32) \<Rightarrow> nat \<Rightarrow> nat \<Rightarrow> proof_node" where
  "true_node H b f n i = \<lparr>self_hash = mnode H b f i (n div 2 ^ i),
     peer_hash = mnode H b f i (xor (n div 2 ^ i) 1), peer_at_left = odd (n div 2 ^ i)\<rparr>"

definition true_nodes :: "hashfun \<Rightarrow> nat \<Rightarrow> (nat \<Rightarrow> hash32) \<Rightarrow> nat \<Rightarrow> nat \<Rightarrow> proof_node list" where
  "true_nodes H b f n l = map (true_node H b f n) [0..<l]"

lemma steps_true_nodes: "steps (true_nodes H b f n l) = true_peers H b f n l"
  by (simp add: steps_def true_nodes_def true_peers_def true_node_def)

lemma length_true_nodes [simp]: "length (true_nodes H b f n l) = l"
  by (simp add: true_nodes_def)

lemma true_nodes_Suc: "true_nodes H b f n (Suc l) =
    true_node H b f n 0 # true_nodes H (b + 1) (mnode H b f 1) (n div 2) l"
proof -
  have e: "n div 2 ^ Suc i = n div 2 div 2 ^ i" for i by (simp add: div_mult2_eq)
  have "true_node H b f n (Suc i) = true_node H (b + 1) (mnode H b f 1) (n div 2) i" for i
    by (simp only: true_node_def e mnode_shift)
  then show ?thesis
    by (simp only: true_nodes_def upt_conv_Cons [of 0 "Suc l"] zero_less_Suc list.map
        map_Suc_upt [symmetric] map_map comp_def)
qed

lemma node_up_true: "node_up H b (true_node H b f n 0) = mnode H b f 1 (n div 2)"
  by (auto simp: node_up_def true_node_def hash2x_def xor_1 elim!: evenE oddE)

lemma fill_true_nodes: "fill H b (true_nodes H b f n l) = true_nodes H b f n l"
proof (induction l arbitrary: b f n)
  case 0
  then show ?case by (simp add: true_nodes_def)
next
  case (Suc l)
  show ?case
  proof (cases l)
    case 0
    then show ?thesis by (simp add: true_nodes_Suc) (simp add: true_nodes_def)
  next
    case (Suc k)
    let ?f = "mnode H b f 1"
    have "(true_node H (b + 1) ?f (n div 2) 0)\<lparr>self_hash := node_up H b (true_node H b f n 0)\<rparr>
        = true_node H (b + 1) ?f (n div 2) 0"
      unfolding node_up_true by (simp add: true_node_def)
    then show ?thesis
      using Suc.IH [of "b + 1" ?f "n div 2"] unfolding Suc true_nodes_Suc by (simp only: fill.simps)
  qed
qed

lemma hd_true_nodes: "0 < l \<Longrightarrow> self_hash (hd (true_nodes H b f n l)) = f n"
  by (cases l) (simp_all only: true_nodes_Suc, simp_all add: true_node_def)

lemma climb_true_nodes:
  "n < 2 ^ l \<Longrightarrow> 0 < l \<Longrightarrow>
   climb H b (self_hash (hd (true_nodes H b f n l))) (steps (true_nodes H b f n l)) = mnode H b f l 0"
  using climb_complete [of H b f n l] by (simp add: steps_true_nodes hd_true_nodes)

lemma and_TWIG_MASK: "and sn TWIG_MASK = sn mod 2048"
proof -
  have "TWIG_MASK = mask 11" by (simp add: layout_defs mask_eq_exp_minus_1)
  then have "and sn TWIG_MASK = take_bit 11 sn" by (simp only: take_bit_eq_mask)
  then show ?thesis by (simp add: take_bit_eq_mod)
qed

lemma peer_side: "and (xor n 1) 1 = 0 \<longleftrightarrow> odd (n::nat)"
  by (auto simp: xor_1)

lemma xor_1_lt: "n < 2 * m \<Longrightarrow> xor n (Suc 0) < 2 * m"
  by (auto simp: xor_1 elim!: evenE)

lemma left_path_from_mt:
  assumes mt: "mt_of H f mt" and n: "n < 2048"
  shows "level + k = 11 \<Longrightarrow>
    left_path_from (\<lambda>i s. bindE (index mt i) (\<lambda>h. Inr (h, s))) n level k s =
      Inr (map (true_node H 0 f n) [level..<11], s)"
proof (induction k arbitrary: level)
  case 0
  then show ?case by simp
next
  case (Suc k)
  then have l: "level < 11" by simp
  let ?q = "n div 2 ^ level"
  have pow: "(2::nat) ^ (11 - level) * 2 ^ level = 2048" using l by (simp flip: power_add)
  have stride: "(2048::nat) div 2 ^ level = 2 ^ (11 - level)"
    using pow by (metis nonzero_mult_div_cancel_right power_not_zero zero_neq_numeral)
  have q: "?q < 2 ^ (11 - level)"
    using n pow by (simp add: div_less_iff_less_mult)
  obtain m where m: "(2::nat) ^ (11 - level) = 2 * m"
    using l by (metis Suc_diff_Suc power_Suc)
  have p: "xor ?q (Suc 0) < 2 ^ (11 - level)" using q unfolding m by (rule xor_1_lt)
  have "(2::nat) ^ (11 - level) \<le> 2 ^ 11" by (intro power_increasing) simp_all
  then have "mt ! (2 ^ (11 - level) + i) = mnode H 0 f level i" "2 ^ (11 - level) + i < length mt"
    if "i < 2 ^ (11 - level)" for i
    using mt l that by (auto simp: mt_of_def)
  with q p Suc l show ?case
    by (simp add: Let_def stride drop_bit_eq_div true_node_def upt_conv_Cons
        peer_side [simplified])
qed

lemma get_left_path_in_mem_true:
  assumes "mt_of H f mt"
  shows "get_left_path_in_mem mt sn = Inr (true_nodes H 0 f (sn mod 2048) 11)"
  using left_path_from_mt [OF assms, of "sn mod 2048" 0 11 "()"]
  by (simp add: get_left_path_in_mem_def get_left_path_def and_TWIG_MASK true_nodes_def)

lemma twig_bits_nth:
  assumes "twig_bits_ok H ab t"
  shows "length (active_bits_mtl1 t) = 4" "i < 4 \<Longrightarrow> active_bits_mtl1 t ! i = mnode H 8 (page ab) 1 i"
    and "length (active_bits_mtl2 t) = 2" "i < 2 \<Longrightarrow> active_bits_mtl2 t ! i = mnode H 8 (page ab) 2 i"
proof -
  have "[0, 1, 2, 3] = [0..<4]" "[0, 1] = [0..<2]" by (simp_all add: upt_rec)
  then show "length (active_bits_mtl1 t) = 4" "i < 4 \<Longrightarrow> active_bits_mtl1 t ! i = mnode H 8 (page ab) 1 i"
    "length (active_bits_mtl2 t) = 2" "i < 2 \<Longrightarrow> active_bits_mtl2 t ! i = mnode H 8 (page ab) 2 i"
    using assms by (simp_all add: twig_bits_ok_def del: upt_Suc mnode.simps)
qed

lemma get_right_path_true:
  assumes ab: "length ab = 256" and t: "twig_bits_ok H ab t"
  shows "get_right_path t ab sn = Inr (true_nodes H 8 (page ab) (sn mod 2048 div 256) 3)"
proof -
  let ?n = "sn mod 2048" and ?m = "mnode H 8 (page ab)"
  have lt: "?n div 256 < 8" "?n div 512 < 4" "?n div 1024 < 2" by (simp_all add: less_mult_imp_div_less)
  have px: "xor (?n div 256) 1 < 8" "xor (?n div 512) 1 < 4" "xor (?n div 1024) 1 < 2"
    using xor_1_lt [of "?n div 256" 4] xor_1_lt [of "?n div 512" 2] xor_1_lt [of "?n div 1024" 1] lt by simp_all
  have d: "?n div 256 div 2 ^ 1 = ?n div 512" "?n div 256 div 2 ^ 2 = ?n div 1024" "?n div 256 div 2 ^ 0 = ?n div 256"
    by (simp_all flip: div_mult2_eq)
  have "true_nodes H 8 (page ab) (?n div 256) 3 = map (true_node H 8 (page ab) (?n div 256)) [0, 1, 2]"
    by (simp add: true_nodes_def upt_rec numeral_2_eq_2)
  also have "\<dots> = [\<lparr>self_hash = page ab (?n div 256), peer_hash = page ab (xor (?n div 256) 1),
        peer_at_left = odd (?n div 256)\<rparr>,
      \<lparr>self_hash = ?m 1 (?n div 512), peer_hash = ?m 1 (xor (?n div 512) 1), peer_at_left = odd (?n div 512)\<rparr>,
      \<lparr>self_hash = ?m 2 (?n div 1024), peer_hash = ?m 2 (xor (?n div 1024) 1), peer_at_left = odd (?n div 1024)\<rparr>]"
    by (simp only: list.map true_node_def d mnode.simps(1))
  finally show ?thesis
    using lt px
    by (simp only: get_right_path_def and_TWIG_MASK Let_def ab_get_bits_page [OF ab] bindE.simps
        index_ok twig_bits_nth [OF t] peer_side)
qed

end
