(* ===== verification/HPFile.thy ===== *)
theory HPFile
  imports Prelude
begin

text \<open>
  \<^verbatim>\<open>src/hpfile/src/lib.rs\<close>: the head-prunable file, a sequence of segment files used as one
  append-only virtual file. The operating system's files are modelled by what they hold:
  \<open>hp_disk\<close> is the directory (content by file id), \<open>hp_open\<close> the ids in the file map and
  \<open>hp_cursor\<close> the write position of the last file. System calls succeed unless the file is
  missing. Direct I/O is off, as in the default build. The contract of the component is the
  locale \<open>slice_log\<close>: what was appended can be read back, whole slices at a time.
\<close>

section \<open>State\<close>

definition PRE_READ_BUF_SIZE :: nat where "PRE_READ_BUF_SIZE = 512 * 1024"
definition IO_BLK_SIZE :: nat where "IO_BLK_SIZE = 512"

record hpfile =
  hp_segment_size :: nat
  hp_buffer_size :: nat
  hp_disk :: "nat \<Rightarrow> bytes option"
  hp_open :: "nat \<Rightarrow> bool"
  hp_cursor :: nat
  hp_largest_id :: nat
  hp_latest_file_size :: nat
  hp_file_size :: nat
  hp_file_size_on_disk :: nat

definition hp_empty :: hpfile where
  "hp_empty = \<lparr>hp_segment_size = 0, hp_buffer_size = 0, hp_disk = Map.empty, hp_open = (\<lambda>_. False),
     hp_cursor = 0, hp_largest_id = 0, hp_latest_file_size = 0, hp_file_size = 0,
     hp_file_size_on_disk = 0\<rparr>"

definition hp_is_empty :: "hpfile \<Rightarrow> bool" where
  "hp_is_empty hp \<longleftrightarrow> hp_segment_size hp = 0"

section \<open>Opening\<close>

text \<open>\<open>id_list\<close> is what listing the directory and parsing its file names yields.\<close>

definition get_largest_id :: "nat list \<Rightarrow> nat" where
  "get_largest_id id_list = foldl max 0 id_list"

text \<open>Opens the listed files and returns the ids in the map with the sz of the last file;
  a fresh directory gets an empty file 0. The last file is opened with its cursor at 0.\<close>

definition load_file_map ::
  "(nat \<Rightarrow> bytes option) \<Rightarrow> nat list \<Rightarrow> nat \<Rightarrow> ((nat \<Rightarrow> bytes option) \<times> (nat \<Rightarrow> bool) \<times> nat) result" where
  "load_file_map disk id_list largest_id =
     (if \<exists>i\<in>set id_list. disk i = None then Inl (Err ''open'')
      else if id_list = [] then
        (if disk 0 = None then Inr (disk(0 \<mapsto> []), (\<lambda>i. i = 0), 0) else Inl (Err ''create_new''))
      else Inr (disk, (\<lambda>i. i \<in> set id_list),
                if largest_id \<in> set id_list then length (the (disk largest_id)) else 0))"

definition hp_new :: "nat \<Rightarrow> nat \<Rightarrow> nat list \<Rightarrow> (nat \<Rightarrow> bytes option) \<Rightarrow> hpfile result" where
  "hp_new wr_buf_size segment_size id_list disk =
     (if wr_buf_size = 0 then Inl (Panic ''division by zero'')
      else if segment_size mod wr_buf_size \<noteq> 0 then Inl (Err ''Invalid segmentSize'')
      else
       (let largest_id = get_largest_id id_list in
        bindE (load_file_map disk id_list largest_id) (\<lambda>(disk, opened, latest_file_size).
        let file_size = largest_id * segment_size + latest_file_size in
        Inr \<lparr>hp_segment_size = segment_size, hp_buffer_size = wr_buf_size, hp_disk = disk,
             hp_open = opened, hp_cursor = 0, hp_largest_id = largest_id,
             hp_latest_file_size = latest_file_size, hp_file_size = file_size,
             hp_file_size_on_disk = file_size\<rparr>)))"

section \<open>Truncating and pruning\<close>

function truncate_files_above :: "nat \<Rightarrow> hpfile \<Rightarrow> hpfile result" where
  "truncate_files_above sz hp =
     (if sz < hp_largest_id hp * hp_segment_size hp then
        (let i = hp_largest_id hp; hp = hp\<lparr>hp_open := (hp_open hp)(i := False)\<rparr> in
         case hp_disk hp i of
           None \<Rightarrow> Inl (Err ''remove_file'')
         | Some _ \<Rightarrow> truncate_files_above sz
             (hp\<lparr>hp_disk := (hp_disk hp)(i := None), hp_largest_id := i - 1\<rparr>))
      else Inr hp)"
  by pat_completeness auto
termination
  by (relation "measure (\<lambda>(sz, hp). hp_largest_id hp)") (auto intro!: diff_less Nat.gr0I)

declare truncate_files_above.simps [simp del]

definition set_len :: "nat \<Rightarrow> bytes \<Rightarrow> bytes" where
  "set_len n d = take n d @ replicate (n - length d) 0"

definition hp_truncate :: "hpfile \<Rightarrow> nat \<Rightarrow> hpfile result" where
  "hp_truncate hp sz =
     (if hp_is_empty hp then Inr hp
      else bindE (truncate_files_above sz hp) (\<lambda>hp.
        let i = hp_largest_id hp; remaining_size = sz - i * hp_segment_size hp in
        case hp_disk hp i of
          None \<Rightarrow> Inl (Err ''open'')
        | Some d \<Rightarrow> Inr (hp\<lparr>hp_disk := (hp_disk hp)(i \<mapsto> set_len remaining_size d),
              hp_open := (hp_open hp)(i := True), hp_cursor := remaining_size,
              hp_latest_file_size := remaining_size, hp_file_size := sz,
              hp_file_size_on_disk := sz\<rparr>)))"

text \<open>Removing the pruned files stops at the first one that is missing on disk.\<close>

definition hp_prune_head :: "hpfile \<Rightarrow> nat \<Rightarrow> hpfile result" where
  "hp_prune_head hp offset =
     (if hp_is_empty hp then Inr hp
      else
       (let file_id = offset div hp_segment_size hp;
            gone = (\<lambda>i. hp_open hp i \<and> i < file_id) in
        if \<exists>i<file_id. hp_open hp i \<and> hp_disk hp i = None then Inl (Err ''remove_file'')
        else Inr (hp\<lparr>hp_open := (\<lambda>i. hp_open hp i \<and> \<not> gone i),
                     hp_disk := (\<lambda>i. if gone i then None else hp_disk hp i)\<rparr>)))"

definition hp_close :: "hpfile \<Rightarrow> hpfile" where
  "hp_close hp = hp\<lparr>hp_open := (\<lambda>_. False)\<rparr>"

section \<open>Writing\<close>

text \<open>\<^verbatim>\<open>write_all\<close> on the open last file, at its cursor.\<close>

definition hp_write :: "hpfile \<Rightarrow> bytes \<Rightarrow> hpfile result" where
  "hp_write hp buf =
     (let i = hp_largest_id hp in
      if hp_open hp i then
        (case hp_disk hp i of
           None \<Rightarrow> Inl (Panic ''missing file'')
         | Some d \<Rightarrow>
             let c = hp_cursor hp in
             Inr (hp\<lparr>hp_disk := (hp_disk hp)(i \<mapsto> take c d @ replicate (c - length d) 0 @ buf
                                          @ drop (c + length buf) d),
                     hp_cursor := c + length buf,
                     hp_file_size_on_disk := hp_file_size_on_disk hp + length buf\<rparr>))
      else Inl (Panic ''unwrap on None''))"

definition hp_seek_end :: "hpfile \<Rightarrow> hpfile" where
  "hp_seek_end hp = (case hp_disk hp (hp_largest_id hp) of
     None \<Rightarrow> hp | Some d \<Rightarrow> hp\<lparr>hp_cursor := length d\<rparr>)"

text \<open>\<open>hp_flush\<close> and \<open>hp_append\<close> return the write buffer with the file.\<close>

definition hp_flush :: "hpfile \<Rightarrow> bytes \<Rightarrow> bool \<Rightarrow> (hpfile \<times> bytes) result" where
  "hp_flush hp buffer eof =
     (if hp_is_empty hp then Inr (hp, buffer)
      else if \<not> hp_open hp (hp_largest_id hp) then Inl (Panic ''unwrap on None'')
      else if buffer = [] then Inr (hp, buffer)
      else
       (let tail_len = length buffer mod IO_BLK_SIZE;
            buffer = (if eof \<and> tail_len \<noteq> 0
                      then buffer @ replicate (IO_BLK_SIZE - tail_len) 0 else buffer) in
        bindE (hp_write (hp_seek_end hp) buffer) (\<lambda>hp. Inr (hp, []))))"

definition hp_next_file :: "hpfile \<Rightarrow> hpfile" where
  "hp_next_file hp =
     (let i = hp_largest_id hp + 1 in
      hp\<lparr>hp_largest_id := i,
         hp_disk := (hp_disk hp)(i := Some (case hp_disk hp i of None \<Rightarrow> [] | Some d \<Rightarrow> d)),
         hp_open := (hp_open hp)(i := True), hp_cursor := 0\<rparr>)"

text \<open>First half of \<^verbatim>\<open>append\<close>: when the buffer would overflow, it is filled up and written.
  Returns the number of bytes of the slice that went that way.\<close>

definition hp_stage ::
  "hpfile \<Rightarrow> bytes \<Rightarrow> bytes \<Rightarrow> (hpfile \<times> bytes \<times> nat) result" where
  "hp_stage hp bz buffer =
     (if hp_buffer_size hp < length buffer + length bz
      then
       (let extra_bytes = length buffer + length bz - hp_buffer_size hp;
            split_pos = length bz - extra_bytes in
        bindE (hp_write hp (buffer @ take split_pos bz)) (\<lambda>hp. Inr (hp, [], split_pos)))
      else Inr (hp, buffer, 0))"

definition hp_append :: "hpfile \<Rightarrow> bytes \<Rightarrow> bytes \<Rightarrow> (nat \<times> hpfile \<times> bytes) result" where
  "hp_append hp bz buffer =
     (if hp_is_empty hp then Inr (0, hp, buffer)
      else if hp_buffer_size hp < length bz then Inl (Panic ''bz is too large'')
      else
       (let start_pos = hp_file_size hp; old_size = hp_latest_file_size hp;
            hp = hp\<lparr>hp_latest_file_size := old_size + length bz,
                    hp_file_size := start_pos + length bz\<rparr> in
        bindE (hp_stage hp bz buffer) (\<lambda>(hp, buffer, split_pos).
        let buffer = buffer @ drop split_pos bz in
        if hp_segment_size hp \<le> old_size + length bz then
         (let overflow_byte_count = old_size + length bz - hp_segment_size hp in
          bindE (hp_flush hp buffer True) (\<lambda>(hp, buffer).
          let hp = hp_next_file hp;
              buffer = (if overflow_byte_count \<noteq> 0 then replicate overflow_byte_count 0 else buffer) in
          Inr (start_pos, hp\<lparr>hp_latest_file_size := overflow_byte_count\<rparr>, buffer)))
        else Inr (start_pos, hp, buffer))))"

section \<open>Reading\<close>

text \<open>\<open>read_at\<close> of one file, up to \<open>n\<close> bytes.\<close>

definition file_read_at :: "bytes \<Rightarrow> nat \<Rightarrow> nat \<Rightarrow> bytes" where
  "file_read_at d n offset = take n (drop offset d)"

definition hp_file :: "hpfile \<Rightarrow> nat \<Rightarrow> bytes result" where
  "hp_file hp i = (if hp_open hp i then unwrap ''missing file'' (hp_disk hp i)
     else Inl (Panic ''unwrap on None''))"

definition get_file_and_pos :: "hpfile \<Rightarrow> nat \<Rightarrow> (bytes \<times> nat) result" where
  "get_file_and_pos hp offset =
     (if hp_segment_size hp = 0 then Inl (Panic ''division by zero'')
      else bindE (hp_file hp (offset div hp_segment_size hp)) (\<lambda>f.
             Inr (f, offset mod hp_segment_size hp)))"

definition hp_read_at :: "hpfile \<Rightarrow> nat \<Rightarrow> nat \<Rightarrow> bytes result" where
  "hp_read_at hp n offset =
     (if hp_segment_size hp = 0 then Inl (Panic ''division by zero'')
      else
       (let file_id = offset div hp_segment_size hp; pos = offset mod hp_segment_size hp in
        bindE (hp_file hp file_id) (\<lambda>f. Inr (file_read_at f n pos))))"

text \<open>A read into a buffer that holds \<open>buf\<close>: what is not read stays.\<close>

definition read_into :: "hpfile \<Rightarrow> bytes \<Rightarrow> nat \<Rightarrow> (nat \<times> bytes) result" where
  "read_into hp buf offset =
     bindE (hp_read_at hp (length buf) offset) (\<lambda>d. Inr (length d, d @ drop (length d) buf))"

text \<open>\<open>read_at_aligned\<close> returns the destination's first \<open>copy_len\<close> bytes: it reads one or two
  whole blocks into a zeroed buffer and copies from there.\<close>

definition read_at_aligned :: "bytes \<Rightarrow> nat \<Rightarrow> nat \<Rightarrow> bytes result" where
  "read_at_aligned f n offset =
     (if 2 * IO_BLK_SIZE < n then Inl (Panic ''Cannot read more than two io blocks'')
      else
       (let off_in_blk = offset mod IO_BLK_SIZE; off_start = offset - off_in_blk;
            buf_len = (if off_in_blk \<noteq> 0 then 2 * IO_BLK_SIZE else IO_BLK_SIZE);
            rd = file_read_at f buf_len off_start;
            buf = rd @ replicate (buf_len - length rd) 0;
            copy_len = min (length rd) n in
        slice buf off_in_blk (off_in_blk + copy_len)))"

record pre_reader =
  pr_buffer :: bytes
  pr_file_id :: nat
  pr_start :: nat
  pr_end :: nat

definition pr_new :: pre_reader where
  "pr_new = \<lparr>pr_buffer = replicate PRE_READ_BUF_SIZE 0, pr_file_id = 0, pr_start = 0, pr_end = 0\<rparr>"

definition pr_try_read :: "pre_reader \<Rightarrow> nat \<Rightarrow> nat \<Rightarrow> nat \<Rightarrow> bytes option result" where
  "pr_try_read pr file_id start n =
     (if file_id = pr_file_id pr \<and> pr_start pr \<le> start \<and> start + n \<le> pr_end pr then
        (let offset = start - pr_start pr in
         bindE (slice (pr_buffer pr) offset (offset + n)) (\<lambda>s. Inr (Some s)))
      else Inr None)"

definition pr_fill_slice :: "pre_reader \<Rightarrow> nat \<Rightarrow> nat \<Rightarrow> bytes \<Rightarrow> pre_reader" where
  "pr_fill_slice pr file_id start data =
     pr\<lparr>pr_file_id := file_id, pr_start := start,
        pr_buffer := data @ drop (length data) (pr_buffer pr), pr_end := start + length data\<rparr>"

definition read_at_with_pre_reader ::
  "hpfile \<Rightarrow> nat \<Rightarrow> nat \<Rightarrow> pre_reader \<Rightarrow> (bytes \<times> pre_reader) result" where
  "read_at_with_pre_reader hp num_bytes offset pr =
     (if hp_segment_size hp = 0 then Inl (Panic ''division by zero'')
      else
       (let file_id = offset div hp_segment_size hp; pos = offset mod hp_segment_size hp in
        bindE (pr_try_read pr file_id pos num_bytes) (\<lambda>hit.
        case hit of Some s \<Rightarrow> Inr (s, pr) | None \<Rightarrow>
          bindE (hp_file hp file_id) (\<lambda>f.
          if PRE_READ_BUF_SIZE \<le> num_bytes then Inl (Panic ''Read too many bytes'')
          else if hp_segment_size hp < pos + num_bytes then
            bindE (read_at_aligned f num_bytes pos) (\<lambda>s. Inr (s, pr))
          else
           (let aligned_pos = pos div IO_BLK_SIZE * IO_BLK_SIZE;
                fin = min (length (pr_buffer pr)) (hp_segment_size hp - aligned_pos);
                pr = pr_fill_slice pr file_id aligned_pos (file_read_at f fin aligned_pos) in
            bindE (pr_try_read pr file_id pos num_bytes) (\<lambda>hit.
            case hit of Some s \<Rightarrow> Inr (s, pr)
            | None \<Rightarrow> Inl (Panic ''Internal error: cannot read data just fetched'')))))))"

section \<open>Contract\<close>

text \<open>
  What clients rely on: appending returns the position of the slice, keeps every earlier
  slice, and a flushed file reads each slice back. \<open>held s p bz\<close> says that slice \<open>bz\<close> was
  stored at position \<open>p\<close>.
\<close>

locale slice_log =
  fixes inv :: "'s \<Rightarrow> bool" and fits :: "'s \<Rightarrow> bytes \<Rightarrow> bool" and held :: "'s \<Rightarrow> nat \<Rightarrow> bytes \<Rightarrow> bool"
    and end_pos :: "'s \<Rightarrow> nat" and app :: "'s \<Rightarrow> bytes \<Rightarrow> (nat \<times> 's) result"
    and flush :: "'s \<Rightarrow> 's result" and flushed :: "'s \<Rightarrow> bool"
    and rd :: "'s \<Rightarrow> nat \<Rightarrow> nat \<Rightarrow> bytes result"
  assumes app_ok: "inv s \<Longrightarrow> fits s bz \<Longrightarrow> \<exists>s'. app s bz = Inr (end_pos s, s') \<and> inv s'
      \<and> end_pos s' = end_pos s + length bz \<and> held s' (end_pos s) bz
      \<and> (\<forall>p x. held s p x \<longrightarrow> held s' p x) \<and> (\<forall>x. fits s' x = fits s x)"
    and flush_ok: "inv s \<Longrightarrow> \<exists>s'. flush s = Inr s' \<and> inv s' \<and> flushed s' \<and> end_pos s' = end_pos s
      \<and> (\<forall>p x. held s p x \<longrightarrow> held s' p x)"
    and rd_ok: "inv s \<Longrightarrow> flushed s \<Longrightarrow> held s p bz \<Longrightarrow> rd s (length bz) p = Inr bz"
begin

definition app_all :: "bytes list \<Rightarrow> 's \<Rightarrow> 's result" where
  "app_all = foldE (\<lambda>bz s. bindE (app s bz) (\<lambda>(_, s). Inr s))"

text \<open>Positions of consecutive slices.\<close>

definition pos_of :: "nat \<Rightarrow> bytes list \<Rightarrow> nat \<Rightarrow> nat" where
  "pos_of p xs i = p + length (concat (take i xs))"

lemma app_all_ok:
  "inv s \<Longrightarrow> \<forall>x\<in>set xs. fits s x \<Longrightarrow> \<exists>s'. app_all xs s = Inr s' \<and> inv s'
     \<and> end_pos s' = end_pos s + length (concat xs)
     \<and> (\<forall>i<length xs. held s' (pos_of (end_pos s) xs i) (xs ! i))
     \<and> (\<forall>p x. held s p x \<longrightarrow> held s' p x)"
proof (induction xs arbitrary: s)
  case Nil
  then show ?case by (simp add: app_all_def)
next
  case (Cons x xs)
  obtain s1 where s1: "app s x = Inr (end_pos s, s1)" "inv s1" "end_pos s1 = end_pos s + length x"
    "held s1 (end_pos s) x" "\<forall>p y. held s p y \<longrightarrow> held s1 p y" "\<forall>y. fits s1 y = fits s y"
    using app_ok [OF Cons.prems(1), of x] Cons.prems(2) by auto
  obtain s2 where s2: "app_all xs s1 = Inr s2" "inv s2" "end_pos s2 = end_pos s1 + length (concat xs)"
    "\<forall>i<length xs. held s2 (pos_of (end_pos s1) xs i) (xs ! i)" "\<forall>p y. held s1 p y \<longrightarrow> held s2 p y"
    using Cons.IH [OF s1(2)] Cons.prems(2) s1(6) by auto
  have "held s2 (pos_of (end_pos s) (x # xs) i) ((x # xs) ! i)" if "i < length (x # xs)" for i
  proof (cases i)
    case 0
    then show ?thesis using s1(4) s2(5) by (simp add: pos_of_def)
  next
    case (Suc j)
    then show ?thesis using s2(4) s1(3) that by (simp add: pos_of_def add.assoc)
  qed
  with s1 s2 show ?case by (auto simp: app_all_def)
qed

lemma app_all_flush_read:
  assumes "inv s" "\<forall>x\<in>set xs. fits s x"
  shows "\<exists>s'. bindE (app_all xs s) flush = Inr s' \<and> inv s'
    \<and> end_pos s' = end_pos s + length (concat xs)
    \<and> (\<forall>i<length xs. rd s' (length (xs ! i)) (pos_of (end_pos s) xs i) = Inr (xs ! i))
    \<and> (\<forall>p x. held s p x \<longrightarrow> rd s' (length x) p = Inr x)"
proof -
  obtain s1 where s1: "app_all xs s = Inr s1" "inv s1" "end_pos s1 = end_pos s + length (concat xs)"
    "\<forall>i<length xs. held s1 (pos_of (end_pos s) xs i) (xs ! i)" "\<forall>p x. held s p x \<longrightarrow> held s1 p x"
    using app_all_ok [OF assms] by blast
  obtain s2 where "flush s1 = Inr s2" "inv s2" "flushed s2" "end_pos s2 = end_pos s1"
    "\<forall>p x. held s1 p x \<longrightarrow> held s2 p x" using flush_ok [OF s1(2)] by blast
  with s1 show ?thesis by (auto intro!: rd_ok)
qed

end

section \<open>The file keeps its contract\<close>

type_synonym hp_state = "hpfile \<times> bytes"

definition hp_inv :: "hp_state \<Rightarrow> bool" where
  "hp_inv = (\<lambda>(hp, buffer). \<exists>d.
     0 < hp_buffer_size hp \<and> 0 < hp_segment_size hp \<and> hp_buffer_size hp \<le> hp_segment_size hp
     \<and> hp_open hp (hp_largest_id hp) \<and> hp_disk hp (hp_largest_id hp) = Some d
     \<and> hp_cursor hp = length d \<and> hp_latest_file_size hp = length d + length buffer
     \<and> hp_latest_file_size hp < hp_segment_size hp
     \<and> hp_file_size hp = hp_largest_id hp * hp_segment_size hp + hp_latest_file_size hp
     \<and> length buffer \<le> hp_buffer_size hp
     \<and> (\<forall>i>hp_largest_id hp. hp_disk hp i = None)
     \<and> (\<forall>i<hp_largest_id hp. \<forall>f. hp_disk hp i = Some f \<longrightarrow> hp_segment_size hp \<le> length f))"

text \<open>A file's bytes, those of the last file with the write buffer behind them.\<close>

definition hp_content :: "hp_state \<Rightarrow> nat \<Rightarrow> bytes" where
  "hp_content = (\<lambda>(hp, buffer) i.
     the (hp_disk hp i) @ (if i = hp_largest_id hp then buffer else []))"

definition hp_held :: "hp_state \<Rightarrow> nat \<Rightarrow> bytes \<Rightarrow> bool" where
  "hp_held s p bz \<longleftrightarrow>
     (let seg = hp_segment_size (fst s); i = p div seg in
      hp_open (fst s) i \<and> hp_disk (fst s) i \<noteq> None
      \<and> p mod seg + length bz \<le> length (hp_content s i)
      \<and> take (length bz) (drop (p mod seg) (hp_content s i)) = bz)"

text \<open>\<open>hp_grows s s'\<close>: files are only extended, none is closed.\<close>

definition hp_grows :: "hp_state \<Rightarrow> hp_state \<Rightarrow> bool" where
  "hp_grows s s' \<longleftrightarrow> hp_segment_size (fst s') = hp_segment_size (fst s)
     \<and> (\<forall>i. hp_open (fst s) i \<longrightarrow> hp_open (fst s') i)
     \<and> (\<forall>i. hp_disk (fst s) i \<noteq> None \<longrightarrow> hp_disk (fst s') i \<noteq> None
           \<and> (\<exists>z. hp_content s' i = hp_content s i @ z))"

lemma hp_heldI:
  assumes "hp_content s i = pre @ bz @ post" "p div hp_segment_size (fst s) = i"
    "p mod hp_segment_size (fst s) = length pre" "hp_open (fst s) i" "hp_disk (fst s) i \<noteq> None"
  shows "hp_held s p bz"
  using assms by (simp add: hp_held_def Let_def)

lemma hp_held_grows: "hp_grows s s' \<Longrightarrow> hp_held s p bz \<Longrightarrow> hp_held s' p bz"
  by (fastforce simp: hp_held_def hp_grows_def Let_def)

lemma hp_grows_trans: "hp_grows a b \<Longrightarrow> hp_grows b c \<Longrightarrow> hp_grows a c"
  unfolding hp_grows_def by (metis append.assoc)

text \<open>Writing at the end of the last file.\<close>

lemma hp_write_end:
  assumes "hp_open hp (hp_largest_id hp)" "hp_disk hp (hp_largest_id hp) = Some d" "hp_cursor hp = length d"
  shows "hp_write hp buf = Inr (hp\<lparr>hp_disk := (hp_disk hp)(hp_largest_id hp \<mapsto> d @ buf),
    hp_cursor := length d + length buf,
    hp_file_size_on_disk := hp_file_size_on_disk hp + length buf\<rparr>)"
  using assms by (simp add: hp_write_def Let_def)

lemma hp_flush_inv:
  assumes "hp_inv (hp, buffer)"
  shows "\<exists>hp'. hp_flush hp buffer False = Inr (hp', []) \<and> hp_inv (hp', [])
    \<and> hp_file_size hp' = hp_file_size hp \<and> hp_buffer_size hp' = hp_buffer_size hp
    \<and> hp_grows (hp, buffer) (hp', [])"
proof (cases "buffer = []")
  case True
  then show ?thesis
    using assms by (auto simp: hp_flush_def hp_is_empty_def hp_inv_def hp_grows_def)
next
  case False
  let ?i = "hp_largest_id hp"
  obtain d where d: "hp_disk hp ?i = Some d" "hp_open hp ?i" "hp_cursor hp = length d" "0 < hp_segment_size hp"
    using assms by (auto simp: hp_inv_def)
  let ?hp = "hp\<lparr>hp_disk := (hp_disk hp)(?i \<mapsto> d @ buffer), hp_cursor := length d + length buffer,
    hp_file_size_on_disk := hp_file_size_on_disk hp + length buffer\<rparr>"
  have "hp_flush hp buffer False = Inr (?hp, [])"
    using False d by (simp add: hp_flush_def hp_is_empty_def hp_seek_end_def hp_write_end)
  moreover have "hp_inv (?hp, [])" using assms d by (auto simp: hp_inv_def)
  moreover have "hp_grows (hp, buffer) (?hp, [])"
    using d by (auto simp: hp_grows_def hp_content_def)
  ultimately show ?thesis by (intro exI [of _ ?hp]) simp
qed

lemma hp_stage_eq:
  assumes "hp_open hp (hp_largest_id hp)" "hp_disk hp (hp_largest_id hp) = Some d" "hp_cursor hp = length d"
    "length buffer \<le> hp_buffer_size hp" "length bz \<le> hp_buffer_size hp"
  shows "\<exists>w b k n. hp_stage hp bz buffer = Inr (hp\<lparr>hp_disk := (hp_disk hp)(hp_largest_id hp \<mapsto> d @ w),
      hp_cursor := length d + length w, hp_file_size_on_disk := n\<rparr>, b, k)
    \<and> w @ b @ drop k bz = buffer @ bz \<and> length (b @ drop k bz) \<le> hp_buffer_size hp"
proof (cases "hp_buffer_size hp < length buffer + length bz")
  case True
  let ?k = "length bz - (length buffer + length bz - hp_buffer_size hp)"
  have "hp_stage hp bz buffer = Inr (hp\<lparr>hp_disk := (hp_disk hp)(hp_largest_id hp \<mapsto> d @ buffer @ take ?k bz),
      hp_cursor := length d + length (buffer @ take ?k bz),
      hp_file_size_on_disk := hp_file_size_on_disk hp + length (buffer @ take ?k bz)\<rparr>, [], ?k)"
    using True assms by (simp add: hp_stage_def Let_def hp_write_end)
  moreover have "length ([] @ drop ?k bz) \<le> hp_buffer_size hp" using assms by simp
  moreover have "(buffer @ take ?k bz) @ [] @ drop ?k bz = buffer @ bz" by simp
  ultimately show ?thesis by blast
next
  case False
  have "hp\<lparr>hp_disk := (hp_disk hp)(hp_largest_id hp \<mapsto> d @ []), hp_cursor := length d + length [],
      hp_file_size_on_disk := hp_file_size_on_disk hp\<rparr> = hp"
    using assms by (simp add: fun_upd_idem)
  then have "hp_stage hp bz buffer = Inr (hp\<lparr>hp_disk := (hp_disk hp)(hp_largest_id hp \<mapsto> d @ []),
      hp_cursor := length d + length [], hp_file_size_on_disk := hp_file_size_on_disk hp\<rparr>, buffer, 0)"
    using False by (simp add: hp_stage_def)
  then show ?thesis
    by (intro exI [of _ "[]"] exI [of _ buffer] exI [of _ 0] exI [of _ "hp_file_size_on_disk hp"]) (use False in simp)
qed

text \<open>Closing a segment: the rest of the buffer and some padding go to the file.\<close>

lemma hp_flush_eof:
  assumes "0 < hp_segment_size hp" "hp_open hp (hp_largest_id hp)"
    "hp_disk hp (hp_largest_id hp) = Some d" "hp_cursor hp = length d"
  shows "\<exists>z n. hp_flush hp buffer True = Inr (hp\<lparr>hp_disk := (hp_disk hp)(hp_largest_id hp \<mapsto> d @ buffer @ z),
      hp_cursor := length d + length buffer + length z, hp_file_size_on_disk := n\<rparr>, [])"
proof (cases "buffer = []")
  case True
  have "hp\<lparr>hp_disk := (hp_disk hp)(hp_largest_id hp \<mapsto> d @ [] @ []), hp_cursor := length d + 0 + length [],
      hp_file_size_on_disk := hp_file_size_on_disk hp\<rparr> = hp"
    using assms by (simp add: fun_upd_idem)
  then have "hp_flush hp buffer True = Inr (hp\<lparr>hp_disk := (hp_disk hp)(hp_largest_id hp \<mapsto> d @ buffer @ []),
      hp_cursor := length d + length buffer + length [], hp_file_size_on_disk := hp_file_size_on_disk hp\<rparr>, [])"
    using True assms by (simp add: hp_flush_def hp_is_empty_def)
  then show ?thesis by blast
next
  case False
  define z :: bytes where "z = (let t = length buffer mod IO_BLK_SIZE in
    if t \<noteq> 0 then replicate (IO_BLK_SIZE - t) 0 else [])"
  have "(if True \<and> length buffer mod IO_BLK_SIZE \<noteq> 0
      then buffer @ replicate (IO_BLK_SIZE - length buffer mod IO_BLK_SIZE) 0 else buffer) = buffer @ z"
    by (simp add: z_def Let_def)
  then have "hp_flush hp buffer True = bindE (hp_write (hp_seek_end hp) (buffer @ z)) (\<lambda>hp. Inr (hp, []))"
    using False assms(1,2) by (simp only: hp_flush_def hp_is_empty_def Let_def) simp
  also have "\<dots> = Inr (hp\<lparr>hp_disk := (hp_disk hp)(hp_largest_id hp \<mapsto> d @ buffer @ z),
      hp_cursor := length d + length buffer + length z,
      hp_file_size_on_disk := hp_file_size_on_disk hp + length (buffer @ z)\<rparr>, [])"
    using assms by (simp add: hp_seek_end_def hp_write_end add.assoc)
  finally show ?thesis by blast
qed

lemma hp_append_inv:
  assumes inv: "hp_inv (hp, buffer)" and bz: "length bz \<le> hp_buffer_size hp"
  shows "\<exists>hp' b. hp_append hp bz buffer = Inr (hp_file_size hp, hp', b) \<and> hp_inv (hp', b)
    \<and> hp_file_size hp' = hp_file_size hp + length bz \<and> hp_buffer_size hp' = hp_buffer_size hp
    \<and> hp_grows (hp, buffer) (hp', b) \<and> hp_held (hp', b) (hp_file_size hp) bz"
proof -
  let ?i = "hp_largest_id hp" and ?seg = "hp_segment_size hp" and ?old = "hp_latest_file_size hp"
  obtain d where d: "hp_disk hp ?i = Some d" "hp_open hp ?i" "hp_cursor hp = length d"
    and sz: "0 < ?seg" "0 < hp_buffer_size hp" "hp_buffer_size hp \<le> ?seg" "?old = length d + length buffer"
      "?old < ?seg" "length buffer \<le> hp_buffer_size hp"
      "hp_file_size hp = ?i * ?seg + ?old" and fresh: "\<forall>j>?i. hp_disk hp j = None"
      and full: "\<forall>j<?i. \<forall>f. hp_disk hp j = Some f \<longrightarrow> ?seg \<le> length f"
    using inv by (auto simp: hp_inv_def)
  let ?hp1 = "hp\<lparr>hp_latest_file_size := ?old + length bz, hp_file_size := hp_file_size hp + length bz\<rparr>"
  obtain w b k n where st: "hp_stage ?hp1 bz buffer = Inr (?hp1\<lparr>hp_disk := (hp_disk hp)(?i \<mapsto> d @ w),
      hp_cursor := length d + length w, hp_file_size_on_disk := n\<rparr>, b, k)"
    and wb: "w @ b @ drop k bz = buffer @ bz" "length (b @ drop k bz) \<le> hp_buffer_size hp"
    using hp_stage_eq [of ?hp1 d buffer bz] d sz(6) bz by auto
  have lw: "length w + length (b @ drop k bz) = length buffer + length bz"
    using arg_cong [OF wb(1), of length] by simp
  let ?hp2 = "?hp1\<lparr>hp_disk := (hp_disk hp)(?i \<mapsto> d @ w), hp_cursor := length d + length w,
    hp_file_size_on_disk := n\<rparr>"
  have div: "hp_file_size hp div ?seg = ?i" "hp_file_size hp mod ?seg = ?old" using sz by simp_all
  show ?thesis
  proof (cases "?seg \<le> ?old + length bz")
    case False
    have "hp_append hp bz buffer = Inr (hp_file_size hp, ?hp2, b @ drop k bz)"
      using False sz(1) bz by (simp add: hp_append_def hp_is_empty_def Let_def st)
    moreover have "hp_inv (?hp2, b @ drop k bz)"
      using sz d fresh full False lw wb(2) by (auto simp: hp_inv_def)
    moreover have c: "hp_content (?hp2, b @ drop k bz) ?i = (d @ buffer) @ bz"
      using d wb(1) by (simp add: hp_content_def)
    moreover have "hp_grows (hp, buffer) (?hp2, b @ drop k bz)"
      using d wb(1) by (auto simp: hp_grows_def hp_content_def)
    moreover have "hp_held (?hp2, b @ drop k bz) (hp_file_size hp) bz"
      using c d sz(4) div by (intro hp_heldI [where i = ?i and pre = "d @ buffer" and post = "[]"]) simp_all
    ultimately show ?thesis
      by (intro exI [of _ ?hp2] exI [of _ "b @ drop k bz"]) simp
  next
    case True
    let ?ov = "?old + length bz - ?seg"
    obtain z m where fl: "hp_flush ?hp2 (b @ drop k bz) True = Inr (?hp2\<lparr>hp_disk := (hp_disk ?hp2)
        (hp_largest_id ?hp2 \<mapsto> (d @ w) @ (b @ drop k bz) @ z),
      hp_cursor := length (d @ w) + length (b @ drop k bz) + length z, hp_file_size_on_disk := m\<rparr>, [])"
      using hp_flush_eof [of ?hp2 "d @ w" "b @ drop k bz"] sz(1) d by auto
    have wz: "w @ b @ drop k bz @ z = buffer @ bz @ z"
      using arg_cong [OF wb(1), of "\<lambda>x. x @ z"] by simp
    define hp3 where "hp3 = ?hp2\<lparr>hp_disk := (hp_disk hp)(?i \<mapsto> d @ buffer @ bz @ z, Suc ?i \<mapsto> []),
      hp_open := (hp_open hp)(Suc ?i := True), hp_cursor := 0, hp_largest_id := Suc ?i,
      hp_latest_file_size := ?ov, hp_file_size_on_disk := m\<rparr>"
    have "hp_append hp bz buffer = Inr (hp_file_size hp, hp3, replicate ?ov 0)"
      using True fl fresh sz(1) bz
      by (simp add: wz hp_append_def hp_is_empty_def Let_def st hp_next_file_def hp3_def)
    moreover have "hp_inv (hp3, replicate ?ov 0)"
      using sz bz True fresh full by (auto simp: hp_inv_def hp3_def algebra_simps less_Suc_eq)
    moreover have "hp_file_size hp3 = hp_file_size hp + length bz" "hp_buffer_size hp3 = hp_buffer_size hp"
      by (simp_all add: hp3_def)
    moreover have "hp_grows (hp, buffer) (hp3, replicate ?ov 0)"
      using d fresh by (auto simp: hp_grows_def hp_content_def hp3_def)
    moreover have "hp_held (hp3, replicate ?ov 0) (hp_file_size hp) bz"
      using d sz div by (simp add: hp_held_def hp3_def hp_content_def)
    ultimately show ?thesis by blast
  qed
qed

text \<open>The file with its write buffer is a \<open>slice_log\<close>.\<close>

definition hp_app :: "hp_state \<Rightarrow> bytes \<Rightarrow> (nat \<times> hp_state) result" where
  "hp_app s bz = bindE (hp_append (fst s) bz (snd s)) (\<lambda>(p, hp, b). Inr (p, hp, b))"

definition hp_flush_all :: "hp_state \<Rightarrow> hp_state result" where
  "hp_flush_all s = hp_flush (fst s) (snd s) False"

interpretation hpf: slice_log hp_inv "\<lambda>s bz. length bz \<le> hp_buffer_size (fst s)" hp_held
  "\<lambda>s. hp_file_size (fst s)" hp_app hp_flush_all "\<lambda>s. snd s = []" "\<lambda>s n p. hp_read_at (fst s) n p"
proof unfold_locales
  fix s :: hp_state and bz :: bytes
  assume inv: "hp_inv s" and fits: "length bz \<le> hp_buffer_size (fst s)"
  obtain hp buffer where s: "s = (hp, buffer)" by (cases s)
  obtain hp' b where "hp_append hp bz buffer = Inr (hp_file_size hp, hp', b)" "hp_inv (hp', b)"
    "hp_file_size hp' = hp_file_size hp + length bz" "hp_buffer_size hp' = hp_buffer_size hp"
    "hp_grows (hp, buffer) (hp', b)" "hp_held (hp', b) (hp_file_size hp) bz"
    using hp_append_inv inv fits s by (metis fst_conv)
  then show "\<exists>s'. hp_app s bz = Inr (hp_file_size (fst s), s') \<and> hp_inv s'
      \<and> hp_file_size (fst s') = hp_file_size (fst s) + length bz \<and> hp_held s' (hp_file_size (fst s)) bz
      \<and> (\<forall>p x. hp_held s p x \<longrightarrow> hp_held s' p x)
      \<and> (\<forall>x. (length x \<le> hp_buffer_size (fst s')) = (length x \<le> hp_buffer_size (fst s)))"
    unfolding s by (intro exI [of _ "(hp', b)"]) (auto simp: hp_app_def intro: hp_held_grows)
next
  fix s :: hp_state
  assume inv: "hp_inv s"
  obtain hp buffer where s: "s = (hp, buffer)" by (cases s)
  obtain hp' where "hp_flush hp buffer False = Inr (hp', [])" "hp_inv (hp', [])"
    "hp_file_size hp' = hp_file_size hp" "hp_grows (hp, buffer) (hp', [])"
    using hp_flush_inv inv s by blast
  then show "\<exists>s'. hp_flush_all s = Inr s' \<and> hp_inv s' \<and> snd s' = []
      \<and> hp_file_size (fst s') = hp_file_size (fst s) \<and> (\<forall>p x. hp_held s p x \<longrightarrow> hp_held s' p x)"
    unfolding s by (intro exI [of _ "(hp', [])"]) (auto simp: hp_flush_all_def intro: hp_held_grows)
next
  fix s :: hp_state and p :: nat and bz :: bytes
  assume "hp_inv s" "snd s = []" "hp_held s p bz"
  then show "hp_read_at (fst s) (length bz) p = Inr bz"
    by (auto simp: hp_inv_def hp_held_def hp_read_at_def hp_file_def hp_content_def Let_def
        file_read_at_def split: prod.splits if_splits)
qed

lemma read_into_held:
  assumes "hp_inv s" "snd s = []" "hp_held s p bz" "length buf = length bz"
  shows "read_into (fst s) buf p = Inr (length bz, bz)"
  using hpf.rd_ok [OF assms(1-3)] assms(4) by (simp add: read_into_def)

section \<open>Truncation and pruning keep the slices outside the removed part\<close>

lemma truncate_files_above_eq:
  assumes "0 < hp_segment_size hp" "\<forall>i. sz div hp_segment_size hp < i \<and> i \<le> hp_largest_id hp \<longrightarrow> hp_disk hp i \<noteq> None"
  shows "truncate_files_above sz hp = Inr (let n = min (hp_largest_id hp) (sz div hp_segment_size hp) in
    hp\<lparr>hp_largest_id := n, hp_open := (\<lambda>i. hp_open hp i \<and> \<not> (n < i \<and> i \<le> hp_largest_id hp)),
      hp_disk := (\<lambda>i. if n < i \<and> i \<le> hp_largest_id hp then None else hp_disk hp i)\<rparr>)"
  using assms
proof (induction "hp_largest_id hp" arbitrary: hp)
  case 0
  have "(\<lambda>i. if 0 < i \<and> i \<le> 0 then None else hp_disk hp i) = hp_disk hp"
    "(\<lambda>i. hp_open hp i \<and> \<not> (0 < i \<and> i \<le> 0)) = hp_open hp" by (auto simp: fun_eq_iff)
  moreover have "hp\<lparr>hp_largest_id := 0\<rparr> = hp" using 0 by simp
  ultimately show ?case using 0 by (subst truncate_files_above.simps) (simp add: Let_def)
next
  case (Suc n)
  let ?seg = "hp_segment_size hp" and ?L = "hp_largest_id hp"
  show ?case
  proof (cases "sz < ?L * ?seg")
    case True
    then have lt: "sz div ?seg < ?L" by (simp add: less_mult_imp_div_less)
    then obtain d where d: "hp_disk hp ?L = Some d" using Suc.prems(2) by auto
    let ?hp = "hp\<lparr>hp_open := (hp_open hp)(?L := False), hp_disk := (hp_disk hp)(?L := None),
      hp_largest_id := ?L - 1\<rparr>"
    have step: "truncate_files_above sz hp = truncate_files_above sz ?hp"
      using True d by (subst truncate_files_above.simps) (simp add: Let_def)
    have L: "?L = Suc n" using Suc.hyps(2) by simp
    have IH: "truncate_files_above sz ?hp = Inr (let m = min (hp_largest_id ?hp) (sz div hp_segment_size ?hp) in
      ?hp\<lparr>hp_largest_id := m, hp_open := (\<lambda>i. hp_open ?hp i \<and> \<not> (m < i \<and> i \<le> hp_largest_id ?hp)),
        hp_disk := (\<lambda>i. if m < i \<and> i \<le> hp_largest_id ?hp then None else hp_disk ?hp i)\<rparr>)"
      by (rule Suc.hyps(1)) (use Suc.prems L in auto)
    have m: "min n (sz div ?seg) = sz div ?seg" "min (Suc n) (sz div ?seg) = sz div ?seg" using lt L by auto
    let ?n = "sz div ?seg"
    have o: "(\<lambda>i. ((hp_open hp)(Suc n := False)) i \<and> (?n < i \<longrightarrow> \<not> i \<le> n)) =
        (\<lambda>i. hp_open hp i \<and> (?n < i \<longrightarrow> \<not> i \<le> Suc n))"
      and e: "(\<lambda>i. if ?n < i \<and> i \<le> n then None else ((hp_disk hp)(Suc n := None)) i) =
        (\<lambda>i. if ?n < i \<and> i \<le> Suc n then None else hp_disk hp i)"
      using lt L by (auto simp: fun_eq_iff le_Suc_eq)
    show ?thesis unfolding step IH Let_def
      by (simp add: m L o e del: fun_upd_apply cong: if_cong)
  next
    case False
    then have "\<not> sz div ?seg < ?L"
      using Suc.prems(1) by (simp add: not_less less_eq_div_iff_mult_less_eq)
    then have "min ?L (sz div ?seg) = ?L" by simp
    moreover have "(\<lambda>i. if ?L < i \<and> i \<le> ?L then None else hp_disk hp i) = hp_disk hp"
      by (rule ext) auto
    ultimately show ?thesis using False by (subst truncate_files_above.simps) (simp add: Let_def)
  qed
qed

lemma set_len_shrink: "n \<le> length d \<Longrightarrow> set_len n d = take n d"
  by (simp add: set_len_def)

lemma take_drop_take: "a + n \<le> m \<Longrightarrow> take n (drop a (take m d)) = take n (drop a d)"
  by (simp add: drop_take min_def)

lemma hp_truncate_inv:
  assumes inv: "hp_inv (hp, [])" and sz: "sz \<le> hp_file_size hp"
    and kept: "\<forall>i. sz div hp_segment_size hp \<le> i \<and> i \<le> hp_largest_id hp \<longrightarrow> hp_disk hp i \<noteq> None"
  shows "\<exists>hp'. hp_truncate hp sz = Inr hp' \<and> hp_inv (hp', []) \<and> hp_file_size hp' = sz
    \<and> (\<forall>p x. hp_held (hp, []) p x \<and> p + length x \<le> sz \<longrightarrow> hp_held (hp', []) p x)"
proof -
  let ?seg = "hp_segment_size hp" and ?L = "hp_largest_id hp"
  let ?n = "sz div ?seg" and ?r = "sz mod ?seg"
  obtain dL where dL: "hp_disk hp ?L = Some dL" "hp_latest_file_size hp = length dL"
    and seg: "0 < ?seg" "0 < hp_buffer_size hp" "hp_buffer_size hp \<le> ?seg"
    and fs: "hp_latest_file_size hp < ?seg" "hp_file_size hp = ?L * ?seg + hp_latest_file_size hp"
    and fresh: "\<forall>i>?L. hp_disk hp i = None" and full: "\<forall>j<?L. \<forall>f. hp_disk hp j = Some f \<longrightarrow> ?seg \<le> length f"
    using inv by (auto simp: hp_inv_def)
  have "hp_file_size hp div ?seg = ?L" using fs seg by simp
  then have nL: "?n \<le> ?L" using sz by (metis div_le_mono)
  obtain d where d: "hp_disk hp ?n = Some d" using kept nL by auto
  have rem: "sz - ?n * ?seg = ?r" by (simp add: minus_div_mult_eq_mod)
  have rd: "?r \<le> length d"
  proof (cases "?n = ?L")
    case True
    then have "sz = ?L * ?seg + ?r" by (metis div_mult_mod_eq)
    then show ?thesis using sz fs dL d True by simp
  next
    case False
    then show ?thesis using full d nL seg(1) by (metis le_neq_implies_less less_imp_le mod_less_divisor order_trans)
  qed
  define hp' where "hp' = hp\<lparr>hp_largest_id := ?n,
    hp_open := (\<lambda>i. hp_open hp i \<and> \<not> (?n < i \<and> i \<le> ?L))(?n := True),
    hp_disk := (\<lambda>i. if ?n < i \<and> i \<le> ?L then None else hp_disk hp i)(?n \<mapsto> take ?r d),
    hp_cursor := ?r, hp_latest_file_size := ?r, hp_file_size := sz, hp_file_size_on_disk := sz\<rparr>"
  have mn: "min ?L ?n = ?n" using nL by simp
  have t: "hp_truncate hp sz = Inr hp'"
    using truncate_files_above_eq [of hp sz] kept seg(1) d rd
    by (simp add: hp_truncate_def hp_is_empty_def Let_def mn rem set_len_shrink hp'_def)
  have "\<forall>j<?n. \<forall>f. hp_disk hp j = Some f \<longrightarrow> ?seg \<le> length f"
    using full nL by (meson less_le_trans)
  then have "hp_inv (hp', [])"
    using seg rd fresh nL by (auto simp: hp_inv_def hp'_def)
  moreover have "hp_held (hp', []) p x" if h: "hp_held (hp, []) p x" and le: "p + length x \<le> sz" for p x
  proof -
    have pn: "p div ?seg \<le> ?n" using le by (metis add_leD1 div_le_mono)
    show ?thesis
    proof (cases "p div ?seg = ?n")
      case True
      have "p = ?n * ?seg + p mod ?seg" "sz = ?n * ?seg + ?r" by (metis True div_mult_mod_eq) (metis div_mult_mod_eq)
      then have "p mod ?seg + length x \<le> ?r" using le by linarith
      then show ?thesis
        using h True d rd by (simp add: hp_held_def Let_def hp'_def hp_content_def take_drop_take)
    next
      case False
      then show ?thesis using h pn nL by (simp add: hp_held_def Let_def hp'_def hp_content_def)
    qed
  qed
  ultimately show ?thesis using t by (auto simp: hp'_def)
qed

lemma hp_prune_inv:
  assumes inv: "hp_inv s" and off: "off \<le> hp_file_size (fst s)"
    and disk: "\<forall>i. hp_open (fst s) i \<longrightarrow> hp_disk (fst s) i \<noteq> None"
  shows "\<exists>hp'. hp_prune_head (fst s) off = Inr hp' \<and> hp_inv (hp', snd s) \<and> hp_file_size hp' = hp_file_size (fst s)
    \<and> (\<forall>p x. hp_held s p x \<and> off \<le> p \<longrightarrow> hp_held (hp', snd s) p x)"
proof -
  obtain hp buffer where s: "s = (hp, buffer)" by (cases s)
  let ?seg = "hp_segment_size hp" and ?f = "off div hp_segment_size hp"
  have "hp_file_size hp div ?seg = hp_largest_id hp" and seg: "0 < ?seg"
    using inv by (auto simp: s hp_inv_def)
  then have L: "?f \<le> hp_largest_id hp" using off by (metis div_le_mono fst_conv s)
  let ?hp = "hp\<lparr>hp_open := (\<lambda>i. hp_open hp i \<and> \<not> (hp_open hp i \<and> i < ?f)),
    hp_disk := (\<lambda>i. if hp_open hp i \<and> i < ?f then None else hp_disk hp i)\<rparr>"
  have "hp_prune_head hp off = Inr ?hp"
    using seg disk by (auto simp: hp_prune_head_def hp_is_empty_def Let_def s)
  moreover have "hp_inv (?hp, buffer)" using inv L by (auto simp: s hp_inv_def)
  moreover have "hp_held (?hp, buffer) p x" if "hp_held (hp, buffer) p x" "off \<le> p" for p x
  proof -
    have "\<not> p div ?seg < ?f" using that(2) by (simp add: div_le_mono not_less)
    then show ?thesis using that(1) by (simp add: hp_held_def Let_def hp_content_def)
  qed
  ultimately show ?thesis by (auto simp: s)
qed

section \<open>Properties\<close>

definition hp_append_all :: "bytes list \<Rightarrow> hp_state \<Rightarrow> hp_state result" where
  "hp_append_all = foldE (\<lambda>bz s. bindE (hp_app s bz) (\<lambda>(_, s). Inr s))"

lemma hp_append_all_eq: "hp_append_all = hpf.app_all"
  by (simp add: hp_append_all_def hpf.app_all_def)

lemma hp_new_fresh:
  assumes "0 < wr" "0 < seg" "seg mod wr = 0"
  shows "\<exists>hp. hp_new wr seg [] Map.empty = Inr hp \<and> hp_inv (hp, []) \<and> hp_file_size hp = 0
    \<and> hp_buffer_size hp = wr \<and> hp_segment_size hp = seg"
proof -
  have "wr \<le> seg" using assms by (auto elim!: dvd_imp_le simp: mod_eq_0_iff_dvd)
  then show ?thesis using assms by (auto simp: hp_new_def load_file_map_def get_largest_id_def hp_inv_def)
qed

text \<open>C28. Append and read back: on a fresh head-prunable file, any list of slices no longer
  than the write buffer can be appended, across any number of segment files; after a flush
  every slice is read back whole at the offset that the total length of its predecessors
  gives.\<close>

theorem hp_slices_readable:
  assumes "0 < wr" "0 < seg" "seg mod wr = 0" and "\<forall>x\<in>set xs. length x \<le> wr"
  shows "\<exists>hp s. hp_new wr seg [] Map.empty = Inr hp
    \<and> bindE (hp_append_all xs (hp, [])) hp_flush_all = Inr s
    \<and> hp_file_size (fst s) = length (concat xs)
    \<and> (\<forall>i<length xs. hp_read_at (fst s) (length (xs ! i)) (length (concat (take i xs))) = Inr (xs ! i))"
proof -
  obtain hp where hp: "hp_new wr seg [] Map.empty = Inr hp" "hp_inv (hp, [])" "hp_file_size hp = 0"
    "hp_buffer_size hp = wr" using hp_new_fresh [OF assms(1-3)] by blast
  from hpf.app_all_flush_read [OF hp(2), of xs] assms(4) hp(3,4) show ?thesis
    unfolding hp_append_all_eq by (auto simp: hp(1) hpf.pos_of_def)
qed

theorem hp_slices_readable_witness:
  "\<exists>hp s. hp_new 64 128 [] Map.empty = Inr hp
    \<and> bindE (hp_append_all [replicate 50 1, replicate 60 2, replicate 30 3, [4]] (hp, [])) hp_flush_all = Inr s
    \<and> hp_file_size (fst s) = length (concat [replicate 50 1, replicate 60 2, replicate 30 3, [4 :: byte]])
    \<and> (\<forall>i<length [replicate 50 1, replicate 60 2, replicate 30 3, [4 :: byte]].
        hp_read_at (fst s) (length ([replicate 50 1, replicate 60 2, replicate 30 3, [4 :: byte]] ! i))
          (length (concat (take i [replicate 50 1, replicate 60 2, replicate 30 3, [4 :: byte]])))
        = Inr ([replicate 50 1, replicate 60 2, replicate 30 3, [4]] ! i))"
  by (rule hp_slices_readable) simp_all

text \<open>Truncation: on a flushed file, truncating to a size not above the current one
  succeeds, leaves exactly that size, keeps the file's invariant, and every slice that ends
  at or below the new size is still stored where it was.\<close>

theorem hp_truncate_keeps_prefix:
  assumes "hp_inv (hp, [])" "sz \<le> hp_file_size hp"
    and "\<forall>i. sz div hp_segment_size hp \<le> i \<and> i \<le> hp_largest_id hp \<longrightarrow> hp_disk hp i \<noteq> None"
  shows "\<exists>hp'. hp_truncate hp sz = Inr hp' \<and> hp_inv (hp', []) \<and> hp_file_size hp' = sz
    \<and> (\<forall>p x. hp_held (hp, []) p x \<and> p + length x \<le> sz \<longrightarrow> hp_read_at hp' (length x) p = Inr x)"
proof -
  obtain hp' where hp': "hp_truncate hp sz = Inr hp'" "hp_inv (hp', [])" "hp_file_size hp' = sz"
    "\<forall>p x. hp_held (hp, []) p x \<and> p + length x \<le> sz \<longrightarrow> hp_held (hp', []) p x"
    using hp_truncate_inv [OF assms] by blast
  then show ?thesis using hpf.rd_ok [OF hp'(2)] by auto
qed

definition demo_hp :: hpfile where
  "demo_hp = \<lparr>hp_segment_size = 16, hp_buffer_size = 16, hp_disk = [0 \<mapsto> replicate 20 1, 1 \<mapsto> replicate 9 2],
     hp_open = (\<lambda>i. i < 2), hp_cursor = 9, hp_largest_id = 1, hp_latest_file_size = 9,
     hp_file_size = 25, hp_file_size_on_disk = 25\<rparr>"

lemma demo_hp_inv: "hp_inv (demo_hp, [])"
  by (simp add: hp_inv_def demo_hp_def)

theorem hp_truncate_keeps_prefix_witness:
  "\<exists>hp'. hp_truncate demo_hp 10 = Inr hp' \<and> hp_inv (hp', []) \<and> hp_file_size hp' = 10
    \<and> hp_read_at hp' 4 6 = Inr [1, 1, 1, 1]"
proof -
  have h: "hp_held (demo_hp, []) 6 (replicate 4 1)"
    by (simp add: hp_held_def Let_def demo_hp_def hp_content_def min_def)
  have "\<exists>hp'. hp_truncate demo_hp 10 = Inr hp' \<and> hp_inv (hp', []) \<and> hp_file_size hp' = 10
      \<and> (\<forall>p x. hp_held (demo_hp, []) p x \<and> p + length x \<le> 10 \<longrightarrow> hp_read_at hp' (length x) p = Inr x)"
    by (rule hp_truncate_keeps_prefix [OF demo_hp_inv]) (auto simp: demo_hp_def)
  then obtain hp' where hp': "hp_truncate demo_hp 10 = Inr hp'" "hp_inv (hp', [])" "hp_file_size hp' = 10"
    "\<forall>p x. hp_held (demo_hp, []) p x \<and> p + length x \<le> 10 \<longrightarrow> hp_read_at hp' (length x) p = Inr x" by blast
  have "hp_read_at hp' (length (replicate 4 (1::byte))) 6 = Inr (replicate 4 1)"
    using hp'(4) [rule_format, of 6 "replicate 4 1"] h by simp
  then show ?thesis using hp' by (simp add: numeral_eq_Suc)
qed

text \<open>Reading across a segment boundary: when a slice overflows its segment, the segment
  file is padded to a block and the next slice goes to the next file. A read that spans both
  slices is not cut short at the boundary: it returns the padding in place of the second
  slice, with the full count.\<close>

theorem hp_read_across_segments_pads:
  assumes inv: "hp_inv (hp, buffer)" and fit: "length buffer + length bz \<le> hp_buffer_size hp"
    and cross: "hp_segment_size hp < hp_latest_file_size hp + length bz"
    and tail: "(length buffer + length bz) mod IO_BLK_SIZE \<noteq> 0"
    and y: "length y \<le> IO_BLK_SIZE - (length buffer + length bz) mod IO_BLK_SIZE"
      "length y \<le> hp_buffer_size hp"
  shows "\<exists>s1 s2 s3. hp_app (hp, buffer) bz = Inr (hp_file_size hp, s1)
    \<and> hp_app s1 y = Inr (hp_file_size hp + length bz, s2) \<and> hp_flush_all s2 = Inr s3
    \<and> hp_read_at (fst s3) (length y) (hp_file_size hp + length bz) = Inr y
    \<and> hp_read_at (fst s3) (length bz + length y) (hp_file_size hp) = Inr (bz @ replicate (length y) 0)"
proof -
  let ?i = "hp_largest_id hp" and ?seg = "hp_segment_size hp" and ?old = "hp_latest_file_size hp"
  let ?z = "replicate (length y) (0::byte)"
  obtain d where d: "hp_disk hp ?i = Some d" "hp_open hp ?i" "hp_cursor hp = length d"
    and sz: "0 < ?seg" "?old = length d + length buffer" "?old < ?seg" "hp_file_size hp = ?i * ?seg + ?old"
    and fresh: "\<forall>j>?i. hp_disk hp j = None"
    using inv by (auto simp: hp_inv_def)
  have bz: "length bz \<le> hp_buffer_size hp" and ne: "buffer @ bz \<noteq> []" using fit cross sz(3) by auto
  obtain hp1 b1 where a1: "hp_append hp bz buffer = Inr (hp_file_size hp, hp1, b1)" "hp_inv (hp1, b1)"
    "hp_file_size hp1 = hp_file_size hp + length bz" "hp_buffer_size hp1 = hp_buffer_size hp"
    "hp_grows (hp, buffer) (hp1, b1)" using hp_append_inv [OF inv bz] by blast
  let ?pad = "replicate (IO_BLK_SIZE - (length buffer + length bz) mod IO_BLK_SIZE) (0::byte)"
  have disk1: "hp_disk hp1 ?i = Some (d @ buffer @ bz @ ?pad)" "hp_largest_id hp1 = Suc ?i"
    using a1(1) cross fit bz tail ne d fresh sz
    by (auto simp: hp_append_def hp_is_empty_def Let_def hp_stage_def hp_flush_def hp_seek_end_def
        hp_write_def hp_next_file_def)
  have pad: "?pad = ?z @ replicate (IO_BLK_SIZE - (length buffer + length bz) mod IO_BLK_SIZE - length y) 0"
    using y(1) by (simp flip: replicate_add)
  have "hp_held (hp1, b1) (hp_file_size hp) (bz @ ?z)"
    by (rule hp_heldI [where i = ?i and pre = "d @ buffer"])
      (use disk1 pad a1(5) d sz in \<open>auto simp: hp_content_def hp_grows_def\<close>)
  moreover obtain s2 where s2: "hp_app (hp1, b1) y = Inr (hp_file_size hp1, s2)" "hp_inv s2"
    "hp_held s2 (hp_file_size hp1) y" "\<forall>p x. hp_held (hp1, b1) p x \<longrightarrow> hp_held s2 p x"
    using hpf.app_ok [OF a1(2), of y] y(2) a1(4) by auto
  moreover obtain s3 where s3: "hp_flush_all s2 = Inr s3" "hp_inv s3" "snd s3 = []"
    "\<forall>p x. hp_held s2 p x \<longrightarrow> hp_held s3 p x" using hpf.flush_ok [OF s2(2)] by blast
  ultimately have "hp_read_at (fst s3) (length (bz @ ?z)) (hp_file_size hp) = Inr (bz @ ?z)"
    "hp_read_at (fst s3) (length y) (hp_file_size hp1) = Inr y"
    using hpf.rd_ok [OF s3(2,3)] by blast+
  moreover have "hp_app (hp, buffer) bz = Inr (hp_file_size hp, hp1, b1)" using a1(1) by (simp add: hp_app_def)
  ultimately show ?thesis using s2(1) s3(1) a1(3)
    by (intro exI [of _ "(hp1, b1)"] exI [of _ s2] exI [of _ s3]) simp
qed

definition demo_hp_tail :: hpfile where
  "demo_hp_tail = \<lparr>hp_segment_size = 16, hp_buffer_size = 16, hp_disk = [0 \<mapsto> replicate 10 1],
     hp_open = (\<lambda>i. i = 0), hp_cursor = 10, hp_largest_id = 0, hp_latest_file_size = 10,
     hp_file_size = 10, hp_file_size_on_disk = 10\<rparr>"

theorem hp_read_across_segments_pads_witness:
  "\<exists>s1 s2 s3. hp_app (demo_hp_tail, []) (replicate 8 5) = Inr (10, s1)
    \<and> hp_app s1 [6, 7] = Inr (18, s2) \<and> hp_flush_all s2 = Inr s3
    \<and> hp_read_at (fst s3) (length [6, 7 :: byte]) 18 = Inr [6, 7]
    \<and> hp_read_at (fst s3) (length (replicate 8 (5::byte)) + length [6, 7 :: byte]) 10
        = Inr (replicate 8 5 @ replicate (length [6, 7 :: byte]) 0)"
proof -
  have inv: "hp_inv (demo_hp_tail, [])" by (simp add: hp_inv_def demo_hp_tail_def)
  have sz: "hp_file_size demo_hp_tail = 10" "hp_file_size demo_hp_tail + length (replicate 8 (5::byte)) = 18"
    by (simp_all add: demo_hp_tail_def)
  show ?thesis
    using hp_read_across_segments_pads [OF inv, of "replicate 8 5" "[6, 7]", unfolded sz]
    by (simp add: demo_hp_tail_def IO_BLK_SIZE_def del: replicate.simps)
qed

text \<open>Reopening without truncating: \<^verbatim>\<open>new\<close> leaves the cursor of a non-empty last file at
  its start, and the write that \<^verbatim>\<open>append\<close> issues when the buffer fills up does not seek. So the
  first full buffer after reopening overwrites the beginning of the file, although the
  positions returned are those behind the old content. (\<^verbatim>\<open>flush\<close> and \<^verbatim>\<open>truncate\<close> do seek, and
  recovery truncates before it appends.)\<close>

theorem hp_reopen_overwrites:
  assumes "0 < wr" "seg mod wr = 0" "length x \<le> wr" "length y \<le> wr" "wr < length x + length y"
    and "length d + length x + length y < seg"
  shows "\<exists>hp s1 s2. hp_new wr seg [0] [0 \<mapsto> d] = Inr hp
    \<and> hp_app (hp, []) x = Inr (length d, s1) \<and> hp_app s1 y = Inr (length d + length x, s2)
    \<and> hp_disk (fst s2) 0 = Some (x @ take (wr - length x) y @ drop wr d)"
  using assms
  by (auto simp: hp_new_def load_file_map_def get_largest_id_def hp_app_def hp_append_def hp_stage_def
      hp_write_def hp_is_empty_def Let_def)

theorem hp_reopen_overwrites_witness:
  "\<exists>hp s1 s2. hp_new 4 32 [0] [0 \<mapsto> [1, 2, 3, 4, 5]] = Inr hp
    \<and> hp_app (hp, []) [7, 7, 7] = Inr (length [1, 2, 3, 4, 5 :: byte], s1)
    \<and> hp_app s1 [8, 8] = Inr (length [1, 2, 3, 4, 5 :: byte] + length [7, 7, 7 :: byte], s2)
    \<and> hp_disk (fst s2) 0 = Some [7, 7, 7, 8, 5]"
  using hp_reopen_overwrites [of 4 32 "[7, 7, 7]" "[8, 8]" "[1, 2, 3, 4, 5]"] by simp

end
