(* ===== verification/TwigFile.thy ===== *)
theory TwigFile
  imports ProofPath HPFile
begin

text \<open>
  \<^verbatim>\<open>src/qmdb/src/merkletree/twigfile.rs\<close>: the left trees of full twigs on disk, in a
  head-prunable file. Of the 4095 nodes of a tree only the top 255 and the 2048 leaves are
  stored; the three levels in between are recomputed from eight leaves on demand. The
  \<^verbatim>\<open>xxh32\<close> checksum is the parameter \<open>X\<close>.
\<close>

section \<open>Model\<close>

definition IGNORED_COUNT :: nat where [layout_defs]: "IGNORED_COUNT = 2048 - 256"
definition TWIG_FULL_LENGTH :: nat where [layout_defs]: "TWIG_FULL_LENGTH = 4095"
definition TWIG_ENTRY_COUNT :: nat where [layout_defs]: "TWIG_ENTRY_COUNT = TWIG_FULL_LENGTH - IGNORED_COUNT"
definition TWIG_SIZE :: nat where [layout_defs]: "TWIG_SIZE = 12 + TWIG_ENTRY_COUNT * 32"

type_synonym checksum = "bytes \<Rightarrow> u32"

definition twig_header :: "checksum \<Rightarrow> i64 \<Rightarrow> bytes" where
  "twig_header X pos = u64_le pos @ u32_le (X (u64_le pos))"

text \<open>\<^verbatim>\<open>_ = self.hp_file.append(..)\<close>: an error value is dropped and the loop goes on; a panic is not caught.
  (\<open>hp_append\<close> only panics: the model's disk does not fail.)\<close>

definition hp_append_quiet :: "bytes list \<Rightarrow> hp_state \<Rightarrow> hp_state result" where
  "hp_append_quiet = foldE (\<lambda>bz s. case hp_app s bz of Inr (_, s') \<Rightarrow> Inr s' | Inl (Err _) \<Rightarrow> Inr s | Inl (Panic m) \<Rightarrow> Inl (Panic m))"

definition append_twig :: "checksum \<Rightarrow> hp_state \<Rightarrow> hash32 list \<Rightarrow> i64 \<Rightarrow> hp_state result" where
  "append_twig X s m_tree last_entry_end_pos =
     (if hp_is_empty (fst s) then Inr s
      else if sint last_entry_end_pos < 0 then Inl (Panic ''Invalid last entry end position'')
      else if length m_tree \<noteq> TWIG_FULL_LENGTH + 1 then Inl (Panic ''len(m_tree)'')
      else
        bindE (hp_append_quiet [twig_header X last_entry_end_pos] s) (\<lambda>s.
        bindE (hp_append_quiet (map (\<lambda>i. m_tree ! i) [1..<256]) s) (\<lambda>s.
          hp_append_quiet (map (\<lambda>i. m_tree ! i) [2048..<TWIG_FULL_LENGTH + 1]) s)))"

definition hpfile_range :: nat where "hpfile_range = 2 ^ 51"

definition get_first_entry_pos :: "checksum \<Rightarrow> hpfile \<Rightarrow> nat \<Rightarrow> i64 result" where
  "get_first_entry_pos X hp twig_id =
     (if twig_id = 0 then Inr 0
      else
        bindE (read_into hp (replicate 12 0) ((twig_id - 1) * TWIG_SIZE mod hpfile_range)) (\<lambda>(_, buf).
        if drop 8 buf = u32_le (X (take 8 buf)) then read_u64 (take 8 buf)
        else Inl (Panic ''Checksum Error!'')))"

definition get_leaf_range :: "nat \<Rightarrow> (nat \<times> nat) result" where
  "get_leaf_range hash_id =
     (if 256 \<le> hash_id \<and> hash_id < 512 then Inr (hash_id * 8, hash_id * 8 + 8)
      else if hash_id < 1024 then Inr (hash_id div 2 * 8, hash_id div 2 * 8 + 8)
      else if hash_id < 2048 then Inr (hash_id div 4 * 8, hash_id div 4 * 8 + 8)
      else Inl (Panic ''Invalid hashID''))"

type_synonym node_cache = "nat \<Rightarrow> hash32 option"

text \<open>The second attempt reads the eight leaves one by one.\<close>

definition read_leaves_one_by_one :: "hpfile \<Rightarrow> bytes \<Rightarrow> nat \<Rightarrow> bytes result" where
  "read_leaves_one_by_one hp buf offset =
     foldE (\<lambda>i buf. bindE (read_into hp (take 32 (drop (i * 32) buf)) (offset + i * 32)) (\<lambda>(_, d).
              Inr (splice buf (i * 32) d))) [0..<8] buf"

definition cone_level :: "hashfun \<Rightarrow> nat \<Rightarrow> nat \<Rightarrow> nat \<Rightarrow> node_cache \<Rightarrow> node_cache result" where
  "cone_level H level lo hi cache =
     foldE (\<lambda>i cache.
        bindE (unwrap ''unwrap on None'' (cache (i * 2))) (\<lambda>a.
        bindE (unwrap ''unwrap on None'' (cache (i * 2 + 1))) (\<lambda>b.
          Inr (cache(i \<mapsto> hash2 H (word_of_nat level) a b))))) [lo..<hi] cache"

definition get_hash_node_in_ignore_range ::
  "hashfun \<Rightarrow> hpfile \<Rightarrow> nat \<Rightarrow> nat \<Rightarrow> node_cache \<Rightarrow> (hash32 \<times> node_cache) result" where
  "get_hash_node_in_ignore_range H hp twig_id hash_id cache =
     bindE (get_leaf_range hash_id) (\<lambda>(start, fin).
     let offset = (twig_id * TWIG_SIZE + 12 + (start - 1) * 32 - IGNORED_COUNT * 32) mod hpfile_range in
     bindE (read_into hp (replicate (32 * 8) 0) offset) (\<lambda>(num_bytes_read, buf).
     bindE (if num_bytes_read \<noteq> length buf then read_leaves_one_by_one hp buf offset else Inr buf) (\<lambda>buf.
     let cache = fold (\<lambda>i cache.
            let off = (i - start div 2) * 64 in
            cache(i \<mapsto> hash2 H 0 (take 32 (drop off buf)) (take 32 (drop (off + 32) buf))))
          [start div 2..<fin div 2] cache in
     bindE (cone_level H 1 (start div 4) (fin div 4) cache) (\<lambda>cache.
     bindE (cone_level H 2 (start div 8) (start div 8 + 1) cache) (\<lambda>cache.
     bindE (unwrap ''unwrap on None'' (cache hash_id)) (\<lambda>out. Inr (out, cache)))))))"

definition get_hash_node ::
  "hashfun \<Rightarrow> hpfile \<Rightarrow> nat \<Rightarrow> nat \<Rightarrow> node_cache \<Rightarrow> (hash32 \<times> node_cache) result" where
  "get_hash_node H hp twig_id hash_id cache =
     (if hash_id = 0 \<or> 4096 \<le> hash_id then Inl (Panic ''Invalid hashID'')
      else if 256 \<le> hash_id \<and> hash_id < 2048
      then get_hash_node_in_ignore_range H hp twig_id hash_id cache
      else
       (let offset = twig_id * TWIG_SIZE + 12 + (hash_id - 1) * 32;
            offset = (if 2048 \<le> hash_id then offset - IGNORED_COUNT * 32 else offset);
            offset = offset mod hpfile_range in
        bindE (read_into hp (replicate 32 0) offset) (\<lambda>(_, buf). Inr (buf, cache))))"

definition get_hash_root :: "hashfun \<Rightarrow> hpfile \<Rightarrow> nat \<Rightarrow> hash32 result" where
  "get_hash_root H hp twig_id = bindE (get_hash_node H hp twig_id 1 Map.empty) (\<lambda>(h, _). Inr h)"

definition get_left_path_on_disk :: "hashfun \<Rightarrow> hpfile \<Rightarrow> nat \<Rightarrow> nat \<Rightarrow> proof_node list result" where
  "get_left_path_on_disk H hp twig_id sn =
     bindE (get_left_path sn (\<lambda>i cache.
       case cache i of Some v \<Rightarrow> Inr (v, cache) | None \<Rightarrow> get_hash_node H hp twig_id i cache)
       (Map.empty :: node_cache)) (\<lambda>(ns, _). Inr ns)"

section \<open>Where the nodes of a twig are stored\<close>

definition node_pos :: "nat \<Rightarrow> nat \<Rightarrow> nat" where
  "node_pos t i = t * TWIG_SIZE + 12 + (i - 1) * 32 - (if 2048 \<le> i then IGNORED_COUNT * 32 else 0)"

definition stored_id :: "nat \<Rightarrow> bool" where
  "stored_id i \<longleftrightarrow> 1 \<le> i \<and> i < 256 \<or> 2048 \<le> i \<and> i < 4096"

definition twig_stored :: "hp_state \<Rightarrow> nat \<Rightarrow> hash32 list \<Rightarrow> bool" where
  "twig_stored s t mt \<longleftrightarrow> (\<forall>i. stored_id i \<longrightarrow> hp_held s (node_pos t i) (mt ! i))"

definition node_ids :: "nat list" where
  "node_ids = [1..<256] @ [2048..<4096]"

lemma node_ids:
  "length node_ids = 2303" "set node_ids = {i. stored_id i}"
  "k < 255 \<Longrightarrow> node_ids ! k = k + 1" "255 \<le> k \<Longrightarrow> k < 2303 \<Longrightarrow> node_ids ! k = k + 1793"
  by (simp_all only: node_ids_def length_append length_upt set_append set_upt nth_append nth_upt)
    (auto simp: stored_id_def nth_upt simp del: upt_rec_numeral)

definition twig_slices :: "checksum \<Rightarrow> hash32 list \<Rightarrow> i64 \<Rightarrow> bytes list" where
  "twig_slices X mt pos = twig_header X pos # map (\<lambda>i. mt ! i) node_ids"

lemma length_twig_header [simp]: "length (twig_header X pos) = 12"
  by (simp add: twig_header_def)

lemma length_concat_take_const:
  "\<forall>x\<in>set xs. length x = n \<Longrightarrow> k \<le> length xs \<Longrightarrow> length (concat (take k xs)) = k * n"
proof (induction xs arbitrary: k)
  case Nil
  then show ?case by simp
next
  case (Cons x xs)
  then show ?case by (cases k) simp_all
qed

definition panics_only :: "'a result \<Rightarrow> bool" where
  "panics_only x \<longleftrightarrow> (\<forall>m. x \<noteq> Inl (Err m))"

lemma panics_only_intros:
  "panics_only (Inr y)" "panics_only (Inl (Panic m))"
  "panics_only x \<Longrightarrow> (\<And>y. panics_only (f y)) \<Longrightarrow> panics_only (bindE x f)"
  "panics_only x \<Longrightarrow> panics_only z \<Longrightarrow> panics_only (if b then x else z)"
  "(\<And>a c. panics_only (g a c)) \<Longrightarrow> panics_only (case p of (a, c) \<Rightarrow> g a c)"
  "panics_only x \<Longrightarrow> (\<And>d. panics_only (h d)) \<Longrightarrow> panics_only (case k of None \<Rightarrow> x | Some d \<Rightarrow> h d)"
  by (cases x; simp add: panics_only_def split: prod.split option.split)+

lemma hp_append_panics_only: "panics_only (hp_append hp bz buf)"
  unfolding hp_append_def hp_stage_def hp_flush_def hp_write_def Let_def by (intro panics_only_intros)

lemma hp_append_quiet_eq: "hp_append_quiet = hp_append_all"
proof -
  have "(case hp_app s bz of Inr (_, s') \<Rightarrow> Inr s' | Inl (Err _) \<Rightarrow> Inr s | Inl (Panic m) \<Rightarrow> Inl (Panic m))
      = bindE (hp_app s bz) (\<lambda>(_, s). Inr s)" for s bz
  proof (cases "hp_app s bz")
    case (Inl x)
    moreover have "hp_app s bz \<noteq> Inl (Err m)" for m
      using hp_append_panics_only [of "fst s" bz "snd s"] by (cases "hp_append (fst s) bz (snd s)") (auto simp: hp_app_def panics_only_def)
    ultimately show ?thesis by (cases x) simp_all
  next
    case (Inr r)
    then show ?thesis by (cases r) simp
  qed
  then show ?thesis by (simp add: hp_append_quiet_def hp_append_all_def)
qed

lemma append_twig_slices:
  assumes "hp_inv s" "0 \<le> sint pos" "length mt = 4096"
  shows "append_twig X s mt pos = hp_append_all (twig_slices X mt pos) s"
proof -
  have "hp_append_all (a @ b @ c) s = bindE (hp_append_all a s) (\<lambda>s. bindE (hp_append_all b s) (hp_append_all c))"
    for a b c s by (simp only: hp_append_all_def foldE_append3)
  then have "hp_append_all ([twig_header X pos] @ map (\<lambda>i. mt ! i) [1..<256] @ map (\<lambda>i. mt ! i) [2048..<4096]) s =
      bindE (hp_append_all [twig_header X pos] s) (\<lambda>s. bindE (hp_append_all (map (\<lambda>i. mt ! i) [1..<256]) s)
        (hp_append_all (map (\<lambda>i. mt ! i) [2048..<4096])))" .
  moreover have "\<not> hp_is_empty (fst s)" using assms(1) by (auto simp: hp_inv_def hp_is_empty_def)
  moreover have "TWIG_FULL_LENGTH + 1 = 4096" by (simp add: layout_defs)
  ultimately show ?thesis
    using assms(2,3) by (simp only: append_twig_def hp_append_quiet_eq twig_slices_def node_ids_def if_False map_append append_Cons append_Nil
        not_less [symmetric] simp_thms)
qed

lemma append_twig_stores:
  assumes inv: "hp_inv s" and fs: "hp_file_size (fst s) = t * TWIG_SIZE" and buf: "32 \<le> hp_buffer_size (fst s)"
    and pos: "0 \<le> sint pos" and mt: "length mt = 4096" "\<forall>h\<in>set mt. length h = 32"
  shows "\<exists>s'. append_twig X s mt pos = Inr s' \<and> hp_inv s' \<and> hp_file_size (fst s') = (t + 1) * TWIG_SIZE
    \<and> hp_held s' (t * TWIG_SIZE) (twig_header X pos) \<and> twig_stored s' t mt
    \<and> (\<forall>p x. hp_held s p x \<longrightarrow> hp_held s' p x)"
proof -
  let ?ns = "map (\<lambda>i. mt ! i) node_ids" and ?xs = "twig_slices X mt pos"
  have n32: "\<forall>x\<in>set ?ns. length x = 32" using mt by (auto simp: node_ids(2) stored_id_def)
  have len: "length ?ns = 2303" by (simp add: node_ids(1))
  have "\<forall>x\<in>set ?xs. length x \<le> hp_buffer_size (fst s)" using n32 buf by (simp add: twig_slices_def)
  from hpf.app_all_ok [OF inv this] obtain s' where s': "hp_append_all ?xs s = Inr s'" "hp_inv s'"
    "hp_file_size (fst s') = t * TWIG_SIZE + length (concat ?xs)"
    "\<forall>i<length ?xs. hp_held s' (hpf.pos_of (t * TWIG_SIZE) ?xs i) (?xs ! i)"
    "\<forall>p x. hp_held s p x \<longrightarrow> hp_held s' p x"
    unfolding hp_append_all_eq fs by blast
  have node: "hp_held s' (t * TWIG_SIZE + 12 + k * 32) (?ns ! k)" if "k < 2303" for k
  proof -
    have "Suc k < length ?xs" using that by (simp add: twig_slices_def node_ids(1))
    with s'(4) have "hp_held s' (hpf.pos_of (t * TWIG_SIZE) ?xs (Suc k)) (?ns ! k)"
      by (auto simp: twig_slices_def)
    moreover have "length (concat (take k ?ns)) = k * 32"
      using n32 len that by (intro length_concat_take_const) simp_all
    ultimately show ?thesis
      by (simp add: hpf.pos_of_def twig_slices_def add.assoc)
  qed
  have "hp_held s' (node_pos t i) (mt ! i)" if st: "stored_id i" for i
  proof -
    have ig: "IGNORED_COUNT = 1792" by (simp add: layout_defs)
    consider "1 \<le> i" "i < 256" | "2048 \<le> i" "i < 4096" using st unfolding stored_id_def by blast
    then show ?thesis
    proof cases
      case 1
      then have "?ns ! (i - 1) = mt ! i" by (simp add: node_ids)
      then show ?thesis using node [of "i - 1"] 1 by (simp add: node_pos_def)
    next
      case 2
      then have "?ns ! (i - 1793) = mt ! i" by (simp add: node_ids)
      moreover have "t * TWIG_SIZE + 12 + (i - 1793) * 32 = node_pos t i" using 2 by (simp add: node_pos_def ig)
      ultimately show ?thesis using node [of "i - 1793"] 2 by simp
    qed
  qed
  then have st: "twig_stored s' t mt" by (simp add: twig_stored_def)
  have "length (concat ?ns) = 2303 * 32" using length_concat_take_const [OF n32, of 2303] len by simp
  then have "length (concat ?xs) = TWIG_SIZE" by (simp add: twig_slices_def layout_defs)
  moreover have "hp_held s' (t * TWIG_SIZE) (twig_header X pos)"
    using s'(4) by (auto simp: twig_slices_def hpf.pos_of_def)
  ultimately show ?thesis
    using append_twig_slices [OF inv pos mt(1)] s' st by auto
qed

text \<open>Consecutive slices in one segment file are read back together.\<close>

lemma hp_held_concat:
  assumes "\<And>k. k < n \<Longrightarrow> hp_held s (p + k * 32) (f k) \<and> length (f k) = 32
      \<and> (p + k * 32) div hp_segment_size (fst s) = p div hp_segment_size (fst s)"
    and "0 < n"
  shows "hp_held s p (concat (map f [0..<n]))"
proof -
  let ?seg = "hp_segment_size (fst s)" and ?c = "hp_content s (p div hp_segment_size (fst s))"
  have m: "(p + k * 32) mod ?seg = p mod ?seg + k * 32" if "k < n" for k
  proof -
    have e: "(p + k * 32) div ?seg = p div ?seg" using assms(1) [OF that] by simp
    have "(p + k * 32) div ?seg * ?seg + (p + k * 32) mod ?seg = p + k * 32" by (rule div_mult_mod_eq)
    then have "p div ?seg * ?seg + (p + k * 32) mod ?seg = p + k * 32" unfolding e .
    moreover have "p div ?seg * ?seg + p mod ?seg = p" by (rule div_mult_mod_eq)
    ultimately show ?thesis by linarith
  qed
  have c: "take 32 (drop (p mod ?seg + k * 32) ?c) = f k" "p mod ?seg + k * 32 + 32 \<le> length ?c" if "k < n" for k
    using assms(1) [OF that] m [OF that] by (auto simp: hp_held_def Let_def)
  have "k \<le> n \<Longrightarrow> take (k * 32) (drop (p mod ?seg) ?c) = concat (map f [0..<k])" for k
  proof (induction k)
    case (Suc k)
    have "take (Suc k * 32) x = take (k * 32) x @ take 32 (drop (k * 32) x)" for x :: bytes
      using take_add [of "k * 32" 32 x] by (simp add: add.commute)
    then show ?case using Suc c(1) [of k] by (simp add: add.commute)
  qed simp
  from this [of n] have t: "take (n * 32) (drop (p mod ?seg) ?c) = concat (map f [0..<n])" by simp
  have "p mod ?seg + n * 32 \<le> length ?c" using c(2) [of "n - 1"] assms(2) by (cases n) simp_all
  moreover from this have "length (concat (map f [0..<n])) = n * 32"
    unfolding t [symmetric] by simp
  ultimately show ?thesis
    using assms(1) [OF assms(2)] t unfolding hp_held_def Let_def by simp
qed

section \<open>Reading the nodes back\<close>

lemma nth_concat_blocks:
  assumes "\<And>k. k < n \<Longrightarrow> length (f k) = 32" "k < n"
  shows "take 32 (drop (k * 32) (concat (map f [0..<n]))) = f k"
proof -
  have split: "[0..<n] = [0..<k] @ k # [Suc k..<n]" using assms(2) by (metis le_add1 less_imp_add_positive upt_add_eq_append upt_conv_Cons add_0 less_imp_le_nat)
  have "length (concat (map f [0..<k])) = k * 32"
    using length_concat_take_const [of "map f [0..<k]" 32 k] assms by auto
  then show ?thesis using assms by (simp add: split)
qed

lemma mt_parent:
  assumes "mt_of H f mt" "2 ^ (10 - l) \<le> i" "i < 2 ^ (11 - l)" "l \<le> 10"
  shows "mt ! i = hash2 H (word_of_nat l) (mt ! (2 * i)) (mt ! (2 * i + 1))"
proof -
  define q where "q = i - 2 ^ (10 - l)"
  have p: "(2::nat) ^ (11 - l) = 2 * 2 ^ (10 - l)"
  proof -
    have "11 - l = Suc (10 - l)" using assms(4) by simp
    then show ?thesis by simp
  qed
  have i: "i = 2 ^ (10 - l) + q" "q < 2 ^ (10 - l)" using assms(2,3) p by (auto simp: q_def)
  have t: "mt ! (2 ^ (11 - m) + q) = tnode H f m q" if "m \<le> 11" "q < 2 ^ (11 - m)" for m q
    using assms(1) that by (simp add: mt_of_def)
  have "mt ! i = tnode H f (Suc l) q" using t [of "Suc l" q] i assms(4) by simp
  moreover have "mt ! (2 * i) = tnode H f l (2 * q)" using t [of l "2 * q"] i p assms(4) by simp
  moreover have "mt ! (2 * i + 1) = tnode H f l (2 * q + 1)" using t [of l "2 * q + 1"] i p assms(4) by simp
  ultimately show ?thesis by simp
qed

text \<open>The eight leaves of group \<open>g\<close> lie in one segment file.\<close>

definition group_in_one_file :: "hpfile \<Rightarrow> nat \<Rightarrow> nat \<Rightarrow> bool" where
  "group_in_one_file hp t g \<longleftrightarrow>
     node_pos t (8 * g) div hp_segment_size hp = node_pos t (8 * g + 7) div hp_segment_size hp"

definition cache_ok :: "hash32 list \<Rightarrow> node_cache \<Rightarrow> bool" where
  "cache_ok mt cache \<longleftrightarrow> (\<forall>i h. cache i = Some h \<longrightarrow> h = mt ! i)"

lemma cache_ok_upd: "cache_ok mt cache \<Longrightarrow> h = mt ! i \<Longrightarrow> cache_ok mt (cache(i \<mapsto> h))"
  by (simp add: cache_ok_def)

definition twig_readable :: "hashfun \<Rightarrow> hp_state \<Rightarrow> nat \<Rightarrow> (nat \<Rightarrow> hash32) \<Rightarrow> hash32 list \<Rightarrow> bool" where
  "twig_readable H s t f mt \<longleftrightarrow> hp_inv s \<and> snd s = [] \<and> twig_stored s t mt \<and> mt_of H f mt
     \<and> (\<forall>h\<in>set mt. length h = 32) \<and> (t + 1) * TWIG_SIZE < hpfile_range"

lemma node_pos_bound: "i < 4096 \<Longrightarrow> node_pos t i < (t + 1) * TWIG_SIZE"
  by (auto simp: node_pos_def layout_defs)

lemma leaf_pos: "256 \<le> g \<Longrightarrow> node_pos t (8 * g + k) = node_pos t (8 * g) + k * 32"
  by (simp add: node_pos_def layout_defs)

lemma read_group:
  assumes r: "twig_readable H s t f mt" and g: "256 \<le> g" "g < 512" and one: "group_in_one_file (fst s) t g"
  shows "read_into (fst s) (replicate 256 0) (node_pos t (8 * g)) =
    Inr (256, concat (map (\<lambda>k. mt ! (8 * g + k)) [0..<8]))"
proof -
  let ?p = "node_pos t (8 * g)" and ?seg = "hp_segment_size (fst s)"
  let ?f = "\<lambda>k. mt ! (8 * g + k)"
  have st: "twig_stored s t mt" and inv: "hp_inv s" "snd s = []" and mt: "length mt = 4096"
    and l: "\<forall>h\<in>set mt. length h = 32"
    using r by (simp_all add: twig_readable_def mt_of_def)
  have l32: "length (?f k) = 32" if "k < 8" for k
    using l nth_mem [of "8 * g + k" mt] mt g that by simp
  have held: "hp_held s (?p + k * 32) (?f k)" if "k < 8" for k
  proof -
    have "stored_id (8 * g + k)" using g that by (simp add: stored_id_def)
    then show ?thesis using st leaf_pos [OF g(1), of t k] unfolding twig_stored_def by metis
  qed
  have seg: "(?p + k * 32) div ?seg = ?p div ?seg" if "k < 8" for k
  proof -
    have "?p div ?seg \<le> (?p + k * 32) div ?seg" by (intro div_le_mono) simp
    moreover have "(?p + k * 32) div ?seg \<le> (?p + 7 * 32) div ?seg" using that by (intro div_le_mono) simp
    moreover have "(?p + 7 * 32) div ?seg = ?p div ?seg"
      using one leaf_pos [OF g(1), of t 7] by (simp add: group_in_one_file_def)
    ultimately show ?thesis by linarith
  qed
  have "hp_held s ?p (concat (map ?f [0..<8]))"
    by (rule hp_held_concat) (use held l32 seg in auto)
  moreover have "length (concat (map ?f [0..<8])) = 256"
    using length_concat_take_const [of "map ?f [0..<8]" 32 8] l32 by (auto simp del: upt_rec_numeral)
  ultimately show ?thesis using read_into_held [OF inv, of ?p _ "replicate 256 0"] by simp
qed

lemma cone_level_ok:
  assumes "cache_ok mt cache"
    and "\<And>i. lo \<le> i \<Longrightarrow> i < hi \<Longrightarrow> 2 * i \<in> dom cache \<and> 2 * i + 1 \<in> dom cache
        \<and> mt ! i = hash2 H (word_of_nat l) (mt ! (2 * i)) (mt ! (2 * i + 1))"
  shows "\<exists>cache'. cone_level H l lo hi cache = Inr cache' \<and> cache_ok mt cache' \<and> dom cache' = dom cache \<union> {lo..<hi}"
proof (cases "lo \<le> hi")
  case True
  then have "(\<And>i. lo \<le> i \<Longrightarrow> i < hi \<Longrightarrow> 2 * i \<in> dom cache \<and> 2 * i + 1 \<in> dom cache
        \<and> mt ! i = hash2 H (word_of_nat l) (mt ! (2 * i)) (mt ! (2 * i + 1))) \<Longrightarrow> ?thesis"
  proof (induction hi rule: dec_induct)
    case base
    then show ?case using assms(1) by (simp add: cone_level_def)
  next
    case (step n)
    obtain c where c: "cone_level H l lo n cache = Inr c" "cache_ok mt c" "dom c = dom cache \<union> {lo..<n}"
      using step by auto
    have "2 * n \<in> dom c" "2 * n + 1 \<in> dom c" using step(1,2) step.prems [of n] c(3) by auto
    then obtain a b where ab: "c (n * 2) = Some a" "c (n * 2 + 1) = Some b" by (auto simp: mult.commute)
    then have "a = mt ! (2 * n)" "b = mt ! (2 * n + 1)" using c(2) by (auto simp: cache_ok_def mult.commute)
    then have v: "hash2 H (word_of_nat l) a b = mt ! n" using step(1,2) step.prems [of n] by simp
    have "cone_level H l lo (Suc n) cache = bindE (cone_level H l lo n cache) (\<lambda>c.
        bindE (unwrap ''unwrap on None'' (c (n * 2))) (\<lambda>a.
        bindE (unwrap ''unwrap on None'' (c (n * 2 + 1))) (\<lambda>b.
          Inr (c(n \<mapsto> hash2 H (word_of_nat l) a b)))))"
      using step(1) by (simp add: cone_level_def)
    then have "cone_level H l lo (Suc n) cache = Inr (c(n \<mapsto> mt ! n))" using c(1) ab v by simp
    moreover have "cache_ok mt (c(n \<mapsto> mt ! n))" using c(2) by (simp add: cache_ok_upd)
    moreover have "dom (c(n \<mapsto> mt ! n)) = dom cache \<union> {lo..<Suc n}" using c(3) step(1,2) by auto
    ultimately show ?case by blast
  qed
  then show ?thesis using assms(2) by blast
qed (use assms(1) in \<open>simp add: cone_level_def\<close>)

text \<open>Level 0 of the cone is computed from the bytes read.\<close>

lemma cone_base_ok:
  assumes "cache_ok mt cache" "\<And>i. lo \<le> i \<Longrightarrow> i < hi \<Longrightarrow> v i = mt ! i"
  shows "cache_ok mt (fold (\<lambda>i c. c(i \<mapsto> v i)) [lo..<hi] cache)
    \<and> dom (fold (\<lambda>i c. c(i \<mapsto> v i)) [lo..<hi] cache) = dom cache \<union> {lo..<hi}"
proof (cases "lo \<le> hi")
  case True
  then have "(\<And>i. lo \<le> i \<Longrightarrow> i < hi \<Longrightarrow> v i = mt ! i) \<Longrightarrow> ?thesis"
    by (induction hi rule: dec_induct) (use assms(1) in \<open>auto simp: cache_ok_upd\<close>)
  then show ?thesis using assms(2) by blast
qed (use assms(1) in simp)

definition group_of :: "nat \<Rightarrow> nat" where
  "group_of i = (if i < 512 then i else if i < 1024 then i div 2 else i div 4)"

lemma ignored_ok:
  assumes r: "twig_readable H s t f mt" and i: "256 \<le> i" "i < 2048"
    and one: "group_in_one_file (fst s) t (group_of i)" and c: "cache_ok mt cache"
  shows "\<exists>cache'. get_hash_node_in_ignore_range H (fst s) t i cache = Inr (mt ! i, cache') \<and> cache_ok mt cache'"
proof -
  define g where "g = group_of i"
  have g: "256 \<le> g" "g < 512" and rng: "get_leaf_range i = Inr (g * 8, g * 8 + 8)"
    and mem: "i = g \<or> (2 * g \<le> i \<and> i < 2 * g + 2) \<or> (4 * g \<le> i \<and> i < 4 * g + 4)"
    using i by (auto simp: g_def group_of_def get_leaf_range_def)
  have mt: "mt_of H f mt" "length mt = 4096" "\<forall>h\<in>set mt. length h = 32" "(t + 1) * TWIG_SIZE < hpfile_range"
    using r by (simp_all add: twig_readable_def mt_of_def)
  let ?buf = "concat (map (\<lambda>k. mt ! (8 * g + k)) [0..<8])"
  have off: "(t * TWIG_SIZE + 12 + (g * 8 - 1) * 32 - IGNORED_COUNT * 32) mod hpfile_range = node_pos t (8 * g)"
    using node_pos_bound [of "8 * g" t] mt(4) g by (simp add: node_pos_def mult.commute)
  have rd: "read_into (fst s) (replicate (32 * 8) 0) (node_pos t (8 * g)) = Inr (256, ?buf)"
    using read_group [OF r g] one by (simp add: g_def del: upt_rec_numeral)
  have l32: "length (mt ! (8 * g + k)) = 32" if "k < 8" for k
    using mt(3) nth_mem [of "8 * g + k" mt] mt(2) g that by simp
  then have blen: "length ?buf = 256"
    using length_concat_take_const [of "map (\<lambda>k. mt ! (8 * g + k)) [0..<8]" 32 8] by (auto simp del: upt_rec_numeral)
  have blk: "take 32 (drop (k * 32) ?buf) = mt ! (8 * g + k)" if "k < 8" for k
    by (rule nth_concat_blocks) (use l32 that in auto)
  let ?v = "\<lambda>j. hash2 H 0 (take 32 (drop ((j - 4 * g) * 64) ?buf)) (take 32 (drop ((j - 4 * g) * 64 + 32) ?buf))"
  let ?c0 = "fold (\<lambda>j c. c(j \<mapsto> ?v j)) [4 * g..<4 * g + 4] cache"
  have "?v j = mt ! j" if "4 * g \<le> j" "j < 4 * g + 4" for j
    using blk [of "2 * (j - 4 * g)"] blk [of "2 * (j - 4 * g) + 1"] mt_parent [OF mt(1), of 0 j] g that
    by (simp add: algebra_simps del: upt_rec_numeral)
  then have c0: "cache_ok mt ?c0" "dom ?c0 = dom cache \<union> {4 * g..<4 * g + 4}"
    using cone_base_ok [OF c, of "4 * g" "4 * g + 4" ?v] by blast+
  define c0 where "c0 = ?c0"
  have k0: "cache_ok mt c0" using c0(1) by (simp only: c0_def)
  have d0: "2 * j \<in> dom c0 \<and> 2 * j + 1 \<in> dom c0 \<and> mt ! j = hash2 H (word_of_nat 1) (mt ! (2 * j)) (mt ! (2 * j + 1))"
    if "2 * g \<le> j" "j < 2 * g + 2" for j
    unfolding c0_def c0(2) using mt_parent [OF mt(1), of 1 j] g that by auto
  obtain c1 where c1: "cone_level H 1 (2 * g) (2 * g + 2) c0 = Inr c1" "cache_ok mt c1"
    "dom c1 = dom c0 \<union> {2 * g..<2 * g + 2}"
    using cone_level_ok [OF k0 d0] by blast
  have d1: "2 * j \<in> dom c1 \<and> 2 * j + 1 \<in> dom c1 \<and> mt ! j = hash2 H (word_of_nat 2) (mt ! (2 * j)) (mt ! (2 * j + 1))"
    if "g \<le> j" "j < g + 1" for j
    unfolding c1(3) using mt_parent [OF mt(1), of 2 j] g that by auto
  obtain c2 where c2: "cone_level H 2 g (g + 1) c1 = Inr c2" "cache_ok mt c2" "dom c2 = dom c1 \<union> {g..<g + 1}"
    using cone_level_ok [OF c1(2) d1] by blast
  have "i \<in> dom c2" using mem unfolding c2(3) c1(3) c0_def c0(2) by auto
  then have "c2 i = Some (mt ! i)" using c2(2) by (auto simp: cache_ok_def)
  then have "get_hash_node_in_ignore_range H (fst s) t i cache = Inr (mt ! i, c2)"
    using off rd blen c1(1) c2(1) unfolding c0_def get_hash_node_in_ignore_range_def rng Let_def
    by (simp add: Let_def mult.commute del: upt_rec_numeral)
  then show ?thesis using c2(2) by blast
qed

lemma get_hash_node_ok:
  assumes r: "twig_readable H s t f mt" and i: "1 \<le> i" "i < 4096"
    and one: "256 \<le> i \<Longrightarrow> i < 2048 \<Longrightarrow> group_in_one_file (fst s) t (group_of i)" and c: "cache_ok mt cache"
  shows "\<exists>cache'. get_hash_node H (fst s) t i cache = Inr (mt ! i, cache') \<and> cache_ok mt cache'"
proof (cases "256 \<le> i \<and> i < 2048")
  case True
  then show ?thesis using ignored_ok [OF r _ _ _ c] one i by (simp add: get_hash_node_def)
next
  case False
  have st: "twig_stored s t mt" and inv: "hp_inv s" "snd s = []" and mt: "length mt = 4096"
    and l: "\<forall>h\<in>set mt. length h = 32" and b: "(t + 1) * TWIG_SIZE < hpfile_range"
    using r by (simp_all add: twig_readable_def mt_of_def)
  have "stored_id i" using False i by (auto simp: stored_id_def)
  then have "hp_held s (node_pos t i) (mt ! i)" using st by (simp add: twig_stored_def)
  moreover have "length (mt ! i) = 32" using l mt i by simp
  ultimately have "read_into (fst s) (replicate 32 0) (node_pos t i) = Inr (32, mt ! i)"
    using read_into_held [OF inv, of "node_pos t i" "mt ! i" "replicate 32 0"] by simp
  moreover have "node_pos t i mod hpfile_range = node_pos t i" using node_pos_bound [of i t] i b by simp
  ultimately have "get_hash_node H (fst s) t i cache = Inr (mt ! i, cache)"
    using False i by (cases "2048 \<le> i") (auto simp: get_hash_node_def node_pos_def Let_def)
  then show ?thesis using c by blast
qed

text \<open>Any source of nodes that answers like the array yields the array's path.\<close>

lemma left_path_from_sim:
  assumes "\<And>l i s. l < 11 \<Longrightarrow> i \<in> {drop_bit l 2048 + drop_bit l n, drop_bit l 2048 + xor (drop_bit l n) 1} \<Longrightarrow> P s
      \<Longrightarrow> \<exists>s'. get_hash i s = Inr (mt ! i, s') \<and> P s'"
  shows "level + k \<le> 11 \<Longrightarrow> P s \<Longrightarrow>
    left_path_from (\<lambda>i s. bindE (index mt i) (\<lambda>h. Inr (h, s))) n level k () = Inr (ns, ()) \<Longrightarrow>
    \<exists>s'. left_path_from get_hash n level k s = Inr (ns, s') \<and> P s'"
proof (induction k arbitrary: level s ns)
  case 0
  then show ?case by simp
next
  case (Suc k)
  let ?a = "drop_bit level 2048 + drop_bit level n" and ?b = "drop_bit level 2048 + xor (drop_bit level n) 1"
  obtain ns' where ns: "left_path_from (\<lambda>i s. bindE (index mt i) (\<lambda>h. Inr (h, s))) n (level + 1) k () = Inr (ns', ())"
    "ns = \<lparr>self_hash = mt ! ?a, peer_hash = mt ! ?b, peer_at_left = (and (xor (drop_bit level n) 1) 1 = 0)\<rparr> # ns'"
    using Suc.prems(3) by (auto simp: Let_def res_simps)
  obtain s1 where s1: "get_hash ?a s = Inr (mt ! ?a, s1)" "P s1" using assms [of level ?a s] Suc.prems by auto
  obtain s2 where s2: "get_hash ?b s1 = Inr (mt ! ?b, s2)" "P s2" using assms [of level ?b s1] Suc.prems s1 by auto
  obtain s3 where "left_path_from get_hash n (level + 1) k s2 = Inr (ns', s3)" "P s3"
    using Suc.IH [OF _ s2(2) ns(1)] Suc.prems(1) by auto
  then show ?case using s1 s2 ns(2) by (auto simp: Let_def)
qed

definition path_groups :: "nat \<Rightarrow> nat list" where
  "path_groups sn = (let g = 256 + sn mod 2048 div 8 in [g, if even g then g + 1 else g - 1])"

lemma xor_1_div2: "xor m (Suc 0) div 2 = m div (2::nat)"
  by (auto simp: xor_1 elim!: oddE evenE)

lemma path_ids:
  assumes "n < 2048" "l < 11" "i \<in> {drop_bit l 2048 + drop_bit l n, drop_bit l 2048 + xor (drop_bit l n) 1}"
  shows "1 \<le> i" "i < 4096" "256 \<le> i \<Longrightarrow> i < 2048 \<Longrightarrow> group_of i \<in> set (path_groups n)"
proof -
  consider "l = 0" | "l = 1" | "l = 2" | "l = 3" | "4 \<le> l" by linarith
  then have "1 \<le> i \<and> i < 4096 \<and> (256 \<le> i \<longrightarrow> i < 2048 \<longrightarrow> group_of i \<in> set (path_groups n))"
  proof cases
    case 5
    have "(2::nat) ^ 4 \<le> 2 ^ l" "(2::nat) ^ l \<le> 2 ^ 10" using 5 assms(2) by (intro power_increasing; simp)+
    moreover from this have "n div 2 ^ l \<le> n div 2 ^ 4" "2048 div 2 ^ l \<le> 2048 div (2 ^ 4::nat)"
      "2048 div 2 ^ 10 \<le> 2048 div (2 ^ l :: nat)" by (intro div_le_mono2; simp)+
    ultimately have "n div 2 ^ l \<le> 127" "2048 div 2 ^ l \<le> (128::nat)" "2 \<le> 2048 div (2 ^ l :: nat)" using assms(1) by auto
    moreover from this have "even (n div 2 ^ l) \<Longrightarrow> n div 2 ^ l \<noteq> 127" by auto
    ultimately show ?thesis using assms(3) by (auto simp: drop_bit_eq_div xor_1 elim!: oddE)
  next
    case 1
    then show ?thesis using assms(1,3) by (auto simp: xor_1) presburger+
  next
    case 2
    then obtain x where x: "i = 1024 + x" "x div 2 = n div 2 div 2" using assms(3) by (auto simp: drop_bit_eq_div xor_1_div2)
    have "x div 4 = n div 8" using x(2) div_mult2_eq [of x 2 2] div_mult2_eq [of n 4 2] div_mult2_eq [of n 2 2] by simp
    moreover have "x div 2 < 512" unfolding x(2) using assms(1) by (simp add: div_less_iff_less_mult)
    ultimately have "i div 4 = 256 + n div 8" "x < 1024" using x(1) by (simp_all add: div_less_iff_less_mult)
    then show ?thesis using x(1) assms(1) by (simp add: group_of_def path_groups_def Let_def)
  next
    case 3
    then obtain x where x: "i = 512 + x" "x div 2 = n div 4 div 2" using assms(3) by (auto simp: drop_bit_eq_div xor_1_div2)
    have "x div 2 = n div 8" using x(2) div_mult2_eq [of n 4 2] by simp
    then have "i div 2 = 256 + n div 8" using x(1) by simp
    moreover have "x div 2 < 256" unfolding x(2) using assms(1) by (simp add: div_less_iff_less_mult)
    then have "x < 512" by (simp add: div_less_iff_less_mult)
    ultimately show ?thesis using x(1) assms(1) by (simp add: group_of_def path_groups_def Let_def)
  next
    case 4
    then obtain x where x: "i = 256 + x" "x = n div 8 \<or> x = xor (n div 8) (Suc 0)" using assms(3) by (auto simp: drop_bit_eq_div)
    moreover have "n div 8 < 256" using assms(1) by simp
    ultimately show ?thesis using xor_1_lt [of "n div 8" 128] assms(1)
      by (auto simp: group_of_def path_groups_def Let_def xor_1)
  qed
  then show "1 \<le> i" "i < 4096" "256 \<le> i \<Longrightarrow> i < 2048 \<Longrightarrow> group_of i \<in> set (path_groups n)" by blast+
qed

lemma get_left_path_on_disk_ok:
  assumes r: "twig_readable H s t f mt" and one: "\<forall>g\<in>set (path_groups sn). group_in_one_file (fst s) t g"
  shows "get_left_path_on_disk H (fst s) t sn = get_left_path_in_mem mt sn"
proof -
  let ?n = "sn mod 2048" and ?get = "\<lambda>i cache. case cache i of
    Some v \<Rightarrow> Inr (v, cache) | None \<Rightarrow> get_hash_node H (fst s) t i cache"
  have mt: "mt_of H f mt" using r by (simp add: twig_readable_def)
  have "\<exists>c'. ?get i c = Inr (mt ! i, c') \<and> cache_ok mt c'" if c: "cache_ok mt c"
    and i: "l < 11" "i \<in> {drop_bit l 2048 + drop_bit l ?n, drop_bit l 2048 + xor (drop_bit l ?n) 1}" for l i c
  proof (cases "c i")
    case None
    have "group_of i \<in> set (path_groups sn)" if "256 \<le> i" "i < 2048"
      using path_ids(3) [OF _ i that] by (simp add: path_groups_def)
    then show ?thesis using get_hash_node_ok [OF r _ _ _ c, of i] path_ids(1,2) [OF _ i] one None by auto
  next
    case (Some v)
    then show ?thesis using c by (auto simp: cache_ok_def)
  qed
  then have sim: "\<exists>c. left_path_from ?get ?n 0 11 Map.empty = Inr (ns, c) \<and> cache_ok mt c"
    if "left_path_from (\<lambda>i s. bindE (index mt i) (\<lambda>h. Inr (h, s))) ?n 0 11 () = Inr (ns, ())" for ns
    by (intro left_path_from_sim [OF _ _ _ that]) (auto simp: cache_ok_def)
  then obtain c where "left_path_from ?get ?n 0 11 Map.empty = Inr (true_nodes H 0 f ?n 11, c)"
    using left_path_from_mt [OF mt, of ?n 0 11 "()"] unfolding true_nodes_def by auto
  then show ?thesis
    using get_left_path_in_mem_true [OF mt, of sn]
    by (simp add: get_left_path_on_disk_def get_left_path_def and_TWIG_MASK)
qed

text \<open>The segment size never changes.\<close>

lemma hp_write_seg: "hp_write hp b = Inr hp' \<Longrightarrow> hp_segment_size hp' = hp_segment_size hp"
  by (auto simp: hp_write_def Let_def split: if_splits option.splits)

lemma hp_flush_seg: "hp_flush hp b e = Inr (hp', b') \<Longrightarrow> hp_segment_size hp' = hp_segment_size hp"
  by (auto simp: hp_flush_def Let_def hp_seek_end_def split: if_splits option.splits dest!: hp_write_seg)

lemma hp_stage_seg: "hp_stage hp x b = Inr (hp', b', n) \<Longrightarrow> hp_segment_size hp' = hp_segment_size hp"
  by (auto simp: hp_stage_def Let_def split: if_splits dest!: hp_write_seg)

lemma hp_append_seg: "hp_append hp x b = Inr (p, hp', b') \<Longrightarrow> hp_segment_size hp' = hp_segment_size hp"
  by (auto simp: hp_append_def Let_def hp_next_file_def split: if_splits dest!: hp_stage_seg hp_flush_seg)

lemma hp_append_all_seg: "hp_append_all xs s = Inr s' \<Longrightarrow> hp_segment_size (fst s') = hp_segment_size (fst s)"
proof (induction xs arbitrary: s)
  case Nil
  then show ?case by (simp add: hp_append_all_def)
next
  case (Cons x xs)
  then show ?case by (auto simp: hp_append_all_def hp_app_def dest!: hp_append_seg)
qed

lemma mt_lengths:
  assumes "mt_of H f mt" "digest32 H" "\<And>i. i < 2048 \<Longrightarrow> length (f i) = 32" "1 \<le> k" "k < 4096"
  shows "length (mt ! k) = 32"
proof -
  obtain e where e: "2 ^ e \<le> k" "k < 2 ^ (e + 1)" using ex_power_ivl1 [of 2 k] assms(4) by auto
  have e11: "e \<le> 11"
  proof (rule ccontr)
    assume "\<not> e \<le> 11"
    then have "(2::nat) ^ 12 \<le> 2 ^ e" by (intro power_increasing) simp_all
    then show False using e(1) assms(5) by simp
  qed
  have "mt ! (2 ^ (11 - (11 - e)) + (k - 2 ^ e)) = tnode H f (11 - e) (k - 2 ^ e)"
    if "k - 2 ^ e < 2 ^ (11 - (11 - e))" using assms(1) that unfolding mt_of_def by (meson diff_le_self)
  then have mtk: "mt ! k = tnode H f (11 - e) (k - 2 ^ e)" using e e11 by simp
  then show ?thesis
  proof (cases "11 - e")
    case 0
    then have "k - 2 ^ e < 2048" using e e11 by simp
    then show ?thesis using mtk 0 assms(3) by simp
  next
    case (Suc l)
    then show ?thesis using mtk assms(2) by (simp add: digest32_hash2)
  qed
qed

section \<open>Properties\<close>

text \<open>C29. A full twig appended to the twig file at its place and flushed serves proofs as the
  in-memory tree did: for every serial number whose two groups of eight leaves do not cross a
  segment file, the left path read from disk, with the three unstored levels recomputed
  through the cache, is the path of the in-memory tree; the root and the first entry position
  of the next twig (whose checksum is verified) are read back, and what was stored before
  stays readable.\<close>

theorem twig_file_serves_paths:
  assumes "hp_inv s" "hp_file_size (fst s) = t * TWIG_SIZE" "32 \<le> hp_buffer_size (fst s)"
    and "0 \<le> sint pos" and mt: "mt_of H f mt" "\<forall>h\<in>set mt. length h = 32"
    and rng: "(t + 1) * TWIG_SIZE < hpfile_range"
  shows "\<exists>s'. bindE (append_twig X s mt pos) hp_flush_all = Inr s'
    \<and> hp_inv s' \<and> hp_file_size (fst s') = (t + 1) * TWIG_SIZE
    \<and> get_hash_root H (fst s') t = Inr (mt ! 1)
    \<and> get_first_entry_pos X (fst s') (t + 1) = Inr pos
    \<and> (\<forall>sn. (\<forall>g\<in>set (path_groups sn). group_in_one_file (fst s) t g) \<longrightarrow>
          get_left_path_on_disk H (fst s') t sn = get_left_path_in_mem mt sn)
    \<and> (\<forall>p x. hp_held s p x \<longrightarrow> hp_read_at (fst s') (length x) p = Inr x)"
proof -
  have len: "length mt = 4096" using mt(1) by (simp add: mt_of_def)
  with append_twig_stores [OF assms(1-4) _ mt(2)] obtain s1 where s1: "append_twig X s mt pos = Inr s1" "hp_inv s1"
    "hp_file_size (fst s1) = (t + 1) * TWIG_SIZE" "hp_held s1 (t * TWIG_SIZE) (twig_header X pos)"
    "twig_stored s1 t mt" "\<forall>p x. hp_held s p x \<longrightarrow> hp_held s1 p x" by blast
  obtain s2 where s2: "hp_flush_all s1 = Inr s2" "hp_inv s2" "snd s2 = []" "hp_file_size (fst s2) = hp_file_size (fst s1)"
    "\<forall>p x. hp_held s1 p x \<longrightarrow> hp_held s2 p x" using hpf.flush_ok [OF s1(2)] by blast
  have r: "twig_readable H s2 t f mt"
    using s1(5) s2(2,3,5) mt rng by (simp add: twig_readable_def twig_stored_def)
  have root: "get_hash_root H (fst s2) t = Inr (mt ! 1)"
    using get_hash_node_ok [OF r, of 1 Map.empty] by (auto simp: get_hash_root_def cache_ok_def)
  have "read_into (fst s2) (replicate 12 0) (t * TWIG_SIZE) = Inr (12, twig_header X pos)"
    using read_into_held [OF s2(2,3), of "t * TWIG_SIZE" "twig_header X pos" "replicate 12 0"] s1(4) s2(5) by simp
  moreover have "t * TWIG_SIZE mod hpfile_range = t * TWIG_SIZE" using rng by simp
  ultimately have "get_first_entry_pos X (fst s2) (t + 1) = Inr pos"
    using read_u64_le [of pos "[]"] by (simp add: get_first_entry_pos_def twig_header_def)
  moreover have "\<forall>p x. hp_held s p x \<longrightarrow> hp_read_at (fst s2) (length x) p = Inr x"
    using s1(6) s2(5) hpf.rd_ok [OF s2(2,3)] by blast
  moreover have "hp_append_all (twig_slices X mt pos) s = Inr s1"
    using s1(1) append_twig_slices [OF assms(1,4) len] by simp
  then have "hp_segment_size (fst s2) = hp_segment_size (fst s)"
    using s2(1) hp_append_all_seg hp_flush_seg by (metis hp_flush_all_def prod.collapse)
  then have "group_in_one_file (fst s2) t g \<longleftrightarrow> group_in_one_file (fst s) t g" for g
    by (simp add: group_in_one_file_def)
  ultimately show ?thesis using s1 s2 root get_left_path_on_disk_ok [OF r] by auto
qed

theorem twig_file_serves_paths_witness:
  "\<exists>hp s' mt. hp_new 1024 1048576 [] Map.empty = Inr hp
    \<and> bindE (append_twig (\<lambda>_. 7) (hp, []) mt 4711) hp_flush_all = Inr s'
    \<and> get_first_entry_pos (\<lambda>_. 7) (fst s') 1 = Inr 4711
    \<and> get_left_path_on_disk toy_digest (fst s') 0 1029 = get_left_path_in_mem mt 1029"
proof -
  obtain hp where hp: "hp_new 1024 1048576 [] Map.empty = Inr hp" "hp_inv (hp, [])" "hp_file_size hp = 0"
    "hp_buffer_size hp = 1024" using hp_new_fresh [of 1024 1048576] by auto
  let ?f = "\<lambda>i. replicate 4096 ZERO_HASH32 ! (2048 + i)"
  obtain mt1 where mt1: "mt_of toy_digest ?f mt1" using zero_tree_exists by blast
  define mt where "mt = mt1[0 := ZERO_HASH32]"
  have mt: "mt_of toy_digest ?f mt" using mt1 by (auto simp: mt_of_def mt_def)
  have "length (mt ! k) = 32" if "k < 4096" for k
    using mt_lengths [OF mt, of k] that mt1 by (cases "k = 0") (auto simp: mt_def mt_of_def)
  then have l: "\<forall>h\<in>set mt. length h = 32" using mt by (auto simp: mt_of_def in_set_conv_nth)
  have seg: "hp_segment_size hp = 1048576" using hp_new_fresh [of 1024 1048576] hp(1) by auto
  have "\<forall>g\<in>set (path_groups 1029). group_in_one_file (fst (hp, [])) 0 g"
    by (simp add: path_groups_def group_in_one_file_def seg node_pos_def layout_defs Let_def)
  moreover have "(0 + 1) * TWIG_SIZE < hpfile_range" by (simp add: layout_defs hpfile_range_def)
  ultimately obtain s' where "bindE (append_twig (\<lambda>_. 7) (hp, []) mt 4711) hp_flush_all = Inr s'"
    "get_first_entry_pos (\<lambda>_. 7) (fst s') (0 + 1) = Inr 4711"
    "get_left_path_on_disk toy_digest (fst s') 0 1029 = get_left_path_in_mem mt 1029"
    using twig_file_serves_paths [OF hp(2) _ _ _ mt l, of 0 4711 "\<lambda>_. 7"] hp(3,4) by auto
  then show ?thesis using hp(1) by (intro exI [of _ hp] exI [of _ s'] exI [of _ mt]) simp
qed

end
