(* ===== verification/UpperTree.thy ===== *)
theory UpperTree
  imports Twig ProofPath
begin

text \<open>
  The first half of \<^verbatim>\<open>src/qmdb/src/merkletree/tree.rs\<close>: node positions, the maps that hold
  the nodes above the twigs, their pruning and their synchronisation level by level, and
  the edge-node encoding of \<^verbatim>\<open>recover.rs\<close>. Node positions are 64-bit words as in the code.
  The lazily built null values are the argument \<open>D\<close>, the result of \<open>get_init_data\<close>.
\<close>

section \<open>Model: node positions\<close>

type_synonym node_pos = u64
type_synonym init_data = "hash32 list \<times> twig \<times> hash32 list"

definition np_pos :: "nat \<Rightarrow> nat \<Rightarrow> node_pos" where
  "np_pos level n = or (push_bit 56 (word_of_nat level)) (word_of_nat n)"

definition np_level :: "node_pos \<Rightarrow> nat" where
  "np_level p = unat (drop_bit 56 p)"

definition np_nth :: "node_pos \<Rightarrow> nat" where
  "np_nth p = unat (drop_bit 8 (push_bit 8 p))"

record edge_node =
  en_pos :: node_pos
  en_value :: hash32

definition max_n_at_level :: "nat \<Rightarrow> nat \<Rightarrow> nat result" where
  "max_n_at_level youngest_twig_id level =
     (if level < FIRST_LEVEL_ABOVE_TWIG then Inl (Panic ''level is too small'')
      else Inr (drop_bit (level - FIRST_LEVEL_ABOVE_TWIG + 1) youngest_twig_id))"

definition get_shard_idx_and_key :: "nat \<Rightarrow> nat \<times> nat" where
  "get_shard_idx_and_key twig_id = (twig_id mod TWIG_SHARD_COUNT, twig_id div TWIG_SHARD_COUNT)"

section \<open>Model: the maps of nodes and twigs\<close>

type_synonym node_map = "node_pos \<rightharpoonup> hash32"

record upper_tree =
  ut_shard_id :: nat
  ut_nodes :: "node_map list list"
  ut_twigs :: "(nat \<rightharpoonup> twig) list"

definition ut_empty :: upper_tree where
  "ut_empty = \<lparr>ut_shard_id = 0, ut_nodes = [], ut_twigs = []\<rparr>"

definition ut_new :: "nat \<Rightarrow> upper_tree" where
  "ut_new my_shard_id = \<lparr>ut_shard_id = my_shard_id,
     ut_nodes = replicate MAX_TREE_LEVEL (replicate NODE_SHARD_COUNT Map.empty),
     ut_twigs = replicate TWIG_SHARD_COUNT Map.empty\<rparr>"

definition ut_is_empty :: "upper_tree \<Rightarrow> bool" where
  "ut_is_empty u \<longleftrightarrow> length (ut_nodes u) = 0"

text \<open>Access to one of the sharded maps, keyed by twig id; the active bits of the tree use it
  with another value type.\<close>

definition shard_get :: "(nat \<rightharpoonup> 'v) list \<Rightarrow> nat \<Rightarrow> 'v option result" where
  "shard_get shards twig_id =
     (let (s, k) = get_shard_idx_and_key twig_id in bindE (index shards s) (\<lambda>m. Inr (m k)))"

definition shard_put :: "(nat \<rightharpoonup> 'v) list \<Rightarrow> nat \<Rightarrow> 'v option \<Rightarrow> (nat \<rightharpoonup> 'v) list result" where
  "shard_put shards twig_id v =
     (let (s, k) = get_shard_idx_and_key twig_id in
      bindE (index shards s) (\<lambda>m. Inr (shards[s := m(k := v)])))"

definition get_twig :: "upper_tree \<Rightarrow> nat \<Rightarrow> twig option result" where
  "get_twig u twig_id = shard_get (ut_twigs u) twig_id"

definition put_twig :: "upper_tree \<Rightarrow> nat \<Rightarrow> twig option \<Rightarrow> upper_tree result" where
  "put_twig u twig_id t = bindE (shard_put (ut_twigs u) twig_id t) (\<lambda>ts. Inr (u\<lparr>ut_twigs := ts\<rparr>))"

text \<open>The map is visited in the arbitrary order of the hash table; the argument lists its
  entries in that order.\<close>

definition add_twigs :: "upper_tree \<Rightarrow> (nat \<times> twig) list \<Rightarrow> upper_tree result" where
  "add_twigs u twig_map = foldE (\<lambda>(twig_id, t) u. put_twig u twig_id (Some t)) twig_map u"

definition node_shard :: "upper_tree \<Rightarrow> node_pos \<Rightarrow> node_map result" where
  "node_shard u pos =
     bindE (index (ut_nodes u) (np_level pos)) (\<lambda>shards. index shards (np_nth pos mod NODE_SHARD_COUNT))"

definition put_node :: "upper_tree \<Rightarrow> node_pos \<Rightarrow> hash32 option \<Rightarrow> upper_tree result" where
  "put_node u pos v =
     bindE (node_shard u pos) (\<lambda>m.
       let l = np_level pos in
       Inr (u\<lparr>ut_nodes := (ut_nodes u)[l := (ut_nodes u ! l)
                             [np_nth pos mod NODE_SHARD_COUNT := m(pos := v)]]\<rparr>))"

definition set_node :: "upper_tree \<Rightarrow> node_pos \<Rightarrow> hash32 \<Rightarrow> upper_tree result" where
  "set_node u pos node = put_node u pos (Some node)"

definition delete_node :: "upper_tree \<Rightarrow> node_pos \<Rightarrow> upper_tree result" where
  "delete_node u pos = put_node u pos None"

definition get_node :: "upper_tree \<Rightarrow> node_pos \<Rightarrow> hash32 option result" where
  "get_node u pos = bindE (node_shard u pos) (\<lambda>m. Inr (m pos))"

definition get_twig_root :: "upper_tree \<Rightarrow> nat \<Rightarrow> hash32 option result" where
  "get_twig_root u n =
     bindE (get_twig u n) (\<lambda>t. case t of
         Some v \<Rightarrow> Inr (Some (twig_root v))
       | None \<Rightarrow> get_node u (np_pos TWIG_ROOT_LEVEL n))"

section \<open>Model: pruning\<close>

text \<open>The loops over levels carry \<open>cur_start\<close> and \<open>cur_end\<close>, shifted once per level.\<close>

definition end_back_at :: "nat \<Rightarrow> nat \<Rightarrow> nat" where
  "end_back_at cur_end level =
     (if cur_end mod 2 \<noteq> 0 \<and> level \<noteq> TWIG_ROOT_LEVEL then cur_end - 1 else cur_end)"

fun remove_useless_from :: "upper_tree \<Rightarrow> nat \<Rightarrow> nat \<Rightarrow> nat list \<Rightarrow> upper_tree result" where
  "remove_useless_from u cur_start cur_end [] = Inr u"
| "remove_useless_from u cur_start cur_end (level # levels) =
     bindE (foldE (\<lambda>i u. delete_node u (np_pos level i)) [cur_start - 1..<end_back_at cur_end level] u)
       (\<lambda>u. remove_useless_from u (cur_start div 2) (cur_end div 2) levels)"

definition remove_useless_nodes :: "upper_tree \<Rightarrow> nat \<Rightarrow> nat \<Rightarrow> nat \<Rightarrow> upper_tree result" where
  "remove_useless_nodes u start stop max_level =
     remove_useless_from u start stop [TWIG_ROOT_LEVEL..<max_level + 1]"

fun edge_nodes_from :: "upper_tree \<Rightarrow> nat \<Rightarrow> nat list \<Rightarrow> edge_node list result" where
  "edge_nodes_from u cur_end [] = Inr []"
| "edge_nodes_from u cur_end (level # levels) =
     (let pos = np_pos level (end_back_at cur_end level) in
      bindE (get_node u pos) (\<lambda>v.
      bindE (unwrap ''What? can not find'' v) (\<lambda>v.
      bindE (edge_nodes_from u (cur_end div 2) levels) (\<lambda>ens.
        Inr (\<lparr>en_pos = pos, en_value = v\<rparr> # ens)))))"

definition get_edge_nodes :: "upper_tree \<Rightarrow> nat \<Rightarrow> nat \<Rightarrow> edge_node list result" where
  "get_edge_nodes u stop max_level = edge_nodes_from u stop [TWIG_ROOT_LEVEL..<max_level + 1]"

definition edge_nodes_to_bytes :: "edge_node list \<Rightarrow> bytes" where
  "edge_nodes_to_bytes edge_nodes = concat (map (\<lambda>n. u64_le (en_pos n) @ en_value n) edge_nodes)"

definition bytes_to_edge_nodes :: "bytes \<Rightarrow> edge_node list result" where
  "bytes_to_edge_nodes bz =
     (let stride = 8 + 32 in
      if length bz mod stride \<noteq> 0 then Inl (Panic ''Invalid byteslice length for EdgeNodes'')
      else
        foldE (\<lambda>i res.
          bindE (slice bz (i * stride) (i * stride + 8)) (\<lambda>p.
          bindE (read_u64 p) (\<lambda>pos.
          bindE (slice bz (i * stride + 8) ((i + 1) * stride)) (\<lambda>v.
            Inr (res @ [\<lparr>en_pos = pos, en_value = v\<rparr>])))))
          [0..<length bz div stride] [])"

definition prune_nodes :: "upper_tree \<Rightarrow> nat \<Rightarrow> nat \<Rightarrow> nat \<Rightarrow> (upper_tree \<times> bytes) result" where
  "prune_nodes u start stop youngest_twig_id =
     (let max_level = calc_max_level youngest_twig_id in
      bindE (remove_useless_nodes u start stop max_level) (\<lambda>u.
      bindE (get_edge_nodes u stop max_level) (\<lambda>ens. Inr (u, edge_nodes_to_bytes ens))))"

section \<open>Model: synchronisation\<close>

text \<open>The list of parents, without adjacent duplicates.\<close>

definition parent_list :: "nat list \<Rightarrow> nat list" where
  "parent_list n_list =
     fold (\<lambda>i new_list. if new_list = [] \<or> last new_list \<noteq> i div 2 then new_list @ [i div 2] else new_list)
       n_list []"

definition child_hash :: "node_map list \<Rightarrow> node_pos \<Rightarrow> string \<Rightarrow> hash32 result" where
  "child_hash child_nodes pos msg =
     bindE (index child_nodes (np_nth pos mod NODE_SHARD_COUNT)) (\<lambda>m. unwrap msg (m pos))"

definition sync_value ::
  "hashfun \<Rightarrow> init_data \<Rightarrow> upper_tree \<Rightarrow> node_map list \<Rightarrow> nat \<Rightarrow> nat \<Rightarrow> hash32 result" where
  "sync_value H D u child_nodes level i =
    (if level = FIRST_LEVEL_ABOVE_TWIG then
       bindE (get_twig_root u (2 * i)) (\<lambda>l.
       bindE (unwrap ''Cannot find left twig root'' l) (\<lambda>left.
       bindE (get_twig_root u (2 * i + 1)) (\<lambda>r.
       let right = (case r of Some v \<Rightarrow> v | None \<Rightarrow> twig_root (fst (snd D))) in
       Inr (node_hash_inplace H (word_of_nat level - 1) left right))))
     else
       bindE (child_hash child_nodes (np_pos (level - 1) (2 * i)) ''Cannot find left child'') (\<lambda>l.
       bindE (child_hash child_nodes (np_pos (level - 1) (2 * i + 1)) ''Cannot find right child'') (\<lambda>r.
       Inr (node_hash_inplace H (word_of_nat level - 1) l r))))"

definition do_sync_job ::
  "hashfun \<Rightarrow> init_data \<Rightarrow> upper_tree \<Rightarrow> nat \<Rightarrow> nat \<Rightarrow> nat list \<Rightarrow> node_map \<Rightarrow> node_map result" where
  "do_sync_job H D u level shard_id n_list nodes =
     bindE (if level - 1 < length (ut_nodes u) then Inr (ut_nodes u ! (level - 1))
            else Inl (Panic ''unwrap on None'')) (\<lambda>child_nodes.
     foldE (\<lambda>i nodes. if i mod NODE_SHARD_COUNT \<noteq> shard_id then Inr nodes
              else bindE (sync_value H D u child_nodes level i) (\<lambda>h. Inr (nodes(np_pos level i \<mapsto> h))))
       n_list nodes)"

text \<open>The level that is written is taken out of the tree meanwhile.\<close>

definition sync_nodes_by_level ::
  "hashfun \<Rightarrow> init_data \<Rightarrow> upper_tree \<Rightarrow> nat \<Rightarrow> nat list \<Rightarrow> nat \<Rightarrow> (upper_tree \<times> nat list) result" where
  "sync_nodes_by_level H D u level n_list youngest_twig_id =
     bindE (max_n_at_level youngest_twig_id level) (\<lambda>max_n.
     bindE (index (snd (snd D)) level) (\<lambda>null_node.
     bindE (set_node u (np_pos level max_n) null_node) (\<lambda>u.
     bindE (set_node u (np_pos level (max_n + 1)) null_node) (\<lambda>u.
     bindE (index (ut_nodes u) level) (\<lambda>written_nodes.
     let v = u\<lparr>ut_nodes := (ut_nodes u)[level := []]\<rparr> in
     bindE (foldE (\<lambda>s w. bindE (do_sync_job H D v level s n_list (w ! s)) (\<lambda>m. Inr (w[s := m])))
              [0..<length written_nodes] written_nodes) (\<lambda>written_nodes.
     Inr (u\<lparr>ut_nodes := (ut_nodes u)[level := written_nodes]\<rparr>, parent_list n_list)))))))"

definition sync_upper_nodes ::
  "hashfun \<Rightarrow> init_data \<Rightarrow> upper_tree \<Rightarrow> nat list \<Rightarrow> nat \<Rightarrow> (upper_tree \<times> nat list \<times> hash32) result" where
  "sync_upper_nodes H D u n_list youngest_twig_id =
     (let max_level = calc_max_level youngest_twig_id in
      bindE (if n_list \<noteq> [] then
               foldE (\<lambda>level (u, n_list). sync_nodes_by_level H D u level n_list youngest_twig_id)
                 [FIRST_LEVEL_ABOVE_TWIG..<max_level + 1] (u, n_list)
             else Inr (u, n_list)) (\<lambda>(u, n_list).
      bindE (get_node u (np_pos max_level 0)) (\<lambda>r.
      bindE (unwrap ''unwrap on None'' r) (\<lambda>root. Inr (u, n_list, root)))))"

section \<open>Model: the trees over the active bits\<close>

text \<open>One pass over a list of twig ids, shard by shard, applying \<open>f\<close> to the twigs.\<close>

definition for_twigs ::
  "(nat \<Rightarrow> twig \<Rightarrow> twig result) \<Rightarrow> (nat \<Rightarrow> nat) \<Rightarrow> nat list \<Rightarrow> (nat \<rightharpoonup> twig) list \<Rightarrow> (nat \<rightharpoonup> twig) list result" where
  "for_twigs f twig_of n_list shards =
     foldE (\<lambda>sid shards.
       foldE (\<lambda>i shards.
         let (s, k) = get_shard_idx_and_key (twig_of i) in
         if s \<noteq> sid then Inr shards
         else bindE (unwrap ''unwrap on None'' ((shards ! sid) k)) (\<lambda>t.
              bindE (f i t) (\<lambda>t. Inr (shards[sid := (shards ! sid)(k \<mapsto> t)])))) n_list shards)
       [0..<length shards] shards"

definition sync_mt_for_active_bits_phase2 ::
  "hashfun \<Rightarrow> upper_tree \<Rightarrow> nat list \<Rightarrow> (upper_tree \<times> nat list) result" where
  "sync_mt_for_active_bits_phase2 H u n_list =
     bindE (for_twigs (\<lambda>i t. sync_l2 H t (and i 1)) (\<lambda>i. drop_bit 1 i) n_list (ut_twigs u)) (\<lambda>ts.
     let n_list = parent_list n_list in
     bindE (for_twigs (\<lambda>i t. bindE (sync_l3 H t) (\<lambda>t. Inr (sync_top H t))) (\<lambda>i. i) n_list ts) (\<lambda>ts.
     Inr (u\<lparr>ut_twigs := ts\<rparr>, parent_list n_list)))"

definition evict_twigs :: "hashfun \<Rightarrow> upper_tree \<Rightarrow> nat list \<Rightarrow> nat \<Rightarrow> nat \<Rightarrow> (upper_tree \<times> nat list) result" where
  "evict_twigs H u n_list twig_evict_start twig_evict_end =
     bindE (sync_mt_for_active_bits_phase2 H u n_list) (\<lambda>(u, new_list).
     bindE (foldE (\<lambda>twig_id u.
         bindE (get_twig u twig_id) (\<lambda>t.
         bindE (unwrap ''unwrap on None'' t) (\<lambda>t.
         bindE (set_node u (np_pos TWIG_ROOT_LEVEL twig_id) (twig_root t)) (\<lambda>u.
           put_twig u twig_id None)))) [twig_evict_start..<twig_evict_end] u) (\<lambda>u.
     Inr (u, new_list)))"

section \<open>Node positions are a pairing\<close>

lemma unat_np_pos: "l < 256 \<Longrightarrow> n < 2 ^ 56 \<Longrightarrow> unat (np_pos l n) = l * 2 ^ 56 + n"
proof -
  assume l: "l < 256" and n: "n < 2 ^ 56"
  have "np_pos l n = word_of_nat (or (push_bit 56 l) n)"
    by (simp only: np_pos_def of_nat_or_eq push_bit_of_nat)
  also have "or (push_bit 56 l) n = l * 2 ^ 56 + n"
    using or_shift_add [OF n, of l] by (simp only: push_bit_eq_mult)
  finally have e: "np_pos l n = word_of_nat (l * 2 ^ 56 + n)" .
  have "l * 2 ^ 56 + n < 2 ^ LENGTH(64)" using l n by simp
  then show ?thesis unfolding e unat_of_nat by (rule mod_less)
qed

lemma np_level_pos [simp]: "l < 256 \<Longrightarrow> n < 2 ^ 56 \<Longrightarrow> np_level (np_pos l n) = l"
  unfolding np_level_def unat_drop_bit_eq by (simp only: unat_np_pos drop_bit_eq_div) simp

lemma np_nth_pos [simp]: "l < 256 \<Longrightarrow> n < 2 ^ 56 \<Longrightarrow> np_nth (np_pos l n) = n"
proof -
  assume l: "l < 256" and n: "n < 2 ^ 56"
  have "unat (push_bit 8 (np_pos l n)) = (l * 2 ^ 56 + n) * 2 ^ 8 mod 2 ^ 64"
    unfolding unsigned_push_bit_eq unat_np_pos [OF l n] by (simp add: push_bit_eq_mult take_bit_eq_mod)
  also have "\<dots> = n * 2 ^ 8"
    using n by (simp add: algebra_simps)
  finally show ?thesis unfolding np_nth_def unat_drop_bit_eq by (simp add: drop_bit_eq_div)
qed

lemma np_pos_inj: "l < 256 \<Longrightarrow> n < 2 ^ 56 \<Longrightarrow> l' < 256 \<Longrightarrow> n' < 2 ^ 56 \<Longrightarrow>
    np_pos l n = np_pos l' n' \<longleftrightarrow> l = l' \<and> n = n'"
  by (metis np_level_pos np_nth_pos)

section \<open>The interface of the sharded maps\<close>

text \<open>A store of optional values: reading a key in range never fails, writing one changes
  that key only.\<close>

locale keyed_store =
  fixes ok :: "'s \<Rightarrow> bool" and key :: "'k \<Rightarrow> bool" and get :: "'s \<Rightarrow> 'k \<Rightarrow> 'v option result"
    and put :: "'s \<Rightarrow> 'k \<Rightarrow> 'v option \<Rightarrow> 's result"
  assumes get_ok: "ok s \<Longrightarrow> key k \<Longrightarrow> \<exists>v. get s k = Inr v"
    and put_ok: "ok s \<Longrightarrow> key k \<Longrightarrow> \<exists>s'. put s k v = Inr s' \<and> ok s'
      \<and> (\<forall>k'. key k' \<longrightarrow> get s' k' = (if k' = k then Inr v else get s k'))"
begin

definition val :: "'s \<Rightarrow> 'k \<Rightarrow> 'v option" where
  "val s k = (case get s k of Inr v \<Rightarrow> v | Inl e \<Rightarrow> None)"

lemma get_val: "ok s \<Longrightarrow> key k \<Longrightarrow> get s k = Inr (val s k)"
  using get_ok [of s k] by (auto simp: val_def)

lemma put_val: "ok s \<Longrightarrow> key k \<Longrightarrow> \<exists>s'. put s k v = Inr s' \<and> ok s'
    \<and> (\<forall>k'. key k' \<longrightarrow> val s' k' = (if k' = k then v else val s k'))"
  using put_ok [of s k v] by (auto simp: val_def)

text \<open>A loop of writes is the override by the list, the last write winning.\<close>

definition put_all :: "('k \<times> 'v option) list \<Rightarrow> 's \<Rightarrow> 's result" where
  "put_all = foldE (\<lambda>(k, v) s. put s k v)"

lemma put_all_ok:
  "ok s \<Longrightarrow> \<forall>(k, v)\<in>set kvs. key k \<Longrightarrow> \<exists>s'. put_all kvs s = Inr s' \<and> ok s'
    \<and> (\<forall>k. key k \<longrightarrow> val s' k = (case map_of (rev kvs) k of Some v \<Rightarrow> v | None \<Rightarrow> val s k))"
proof (induction kvs arbitrary: s)
  case Nil
  then show ?case by (simp add: put_all_def)
next
  case (Cons kv kvs)
  obtain k v where kv: "kv = (k, v)" by (cases kv)
  obtain s1 where s1: "put s k v = Inr s1" "ok s1"
    "\<forall>k'. key k' \<longrightarrow> val s1 k' = (if k' = k then v else val s k')"
    using put_val [OF Cons.prems(1), of k v] Cons.prems(2) kv by auto
  obtain s2 where "put_all kvs s1 = Inr s2" "ok s2"
    "\<forall>k. key k \<longrightarrow> val s2 k = (case map_of (rev kvs) k of Some v \<Rightarrow> v | None \<Rightarrow> val s1 k)"
    using Cons.IH [OF s1(2)] Cons.prems(2) by auto
  then show ?case
    using s1 kv by (auto simp: put_all_def map_add_def split: option.splits)
qed

lemma put_all_same:
  assumes "ok s" "\<forall>k\<in>set ks. key k"
  shows "\<exists>s'. foldE (\<lambda>k s. put s k v) ks s = Inr s' \<and> ok s'
    \<and> (\<forall>k. key k \<longrightarrow> val s' k = (if k \<in> set ks then v else val s k))"
proof -
  have "foldE (\<lambda>k s. put s k v) ks s = put_all (map (\<lambda>k. (k, v)) ks) s" for s
  proof (induction ks arbitrary: s)
    case (Cons k ks)
    then show ?case by (cases "put s k v") (simp_all add: put_all_def)
  qed (simp add: put_all_def)
  moreover have "map_of (rev (map (\<lambda>k. (k, v)) ks)) k = (if k \<in> set ks then Some v else None)" for k
    using map_of_map_restrict [of "\<lambda>_. v" "rev ks"] by (simp add: rev_map restrict_map_def)
  ultimately show ?thesis
    using put_all_ok [OF assms(1), of "map (\<lambda>k. (k, v)) ks"] assms(2) by (auto split: if_splits)
qed

end

definition ut_ok :: "upper_tree \<Rightarrow> bool" where
  "ut_ok u \<longleftrightarrow> length (ut_nodes u) = MAX_TREE_LEVEL \<and> (\<forall>s\<in>set (ut_nodes u). length s = NODE_SHARD_COUNT)
     \<and> length (ut_twigs u) = TWIG_SHARD_COUNT"

lemma ut_ok_new: "ut_ok (ut_new s)"
  by (simp add: ut_ok_def ut_new_def)

lemma twig_key_eq: "get_shard_idx_and_key a = get_shard_idx_and_key b \<longleftrightarrow> a = b"
  unfolding get_shard_idx_and_key_def prod.inject by (metis div_mult_mod_eq)

interpretation shs: keyed_store "\<lambda>s. length s = TWIG_SHARD_COUNT" "\<lambda>_. True" shard_get shard_put
proof unfold_locales
  fix s :: "(nat \<rightharpoonup> 'v) list" and k :: nat
  assume "length s = TWIG_SHARD_COUNT"
  then show "\<exists>v. shard_get s k = Inr v"
    by (simp add: shard_get_def get_shard_idx_and_key_def layout_defs)
next
  fix s :: "(nat \<rightharpoonup> 'v) list" and k :: nat and v
  assume len: "length s = TWIG_SHARD_COUNT"
  let ?i = "k mod TWIG_SHARD_COUNT" and ?j = "k div TWIG_SHARD_COUNT"
  have i: "?i < length s" using len by (simp add: layout_defs)
  have "shard_put s k v = Inr (s[?i := (s ! ?i)(?j := v)])"
    using i by (simp add: shard_put_def get_shard_idx_and_key_def)
  moreover have "shard_get (s[?i := (s ! ?i)(?j := v)]) k' = (if k' = k then Inr v else shard_get s k')" for k'
  proof -
    have "k' mod TWIG_SHARD_COUNT < length s" using len by (simp add: layout_defs)
    then show ?thesis
      using i twig_key_eq [of k' k] by (auto simp: shard_get_def get_shard_idx_and_key_def nth_list_update)
  qed
  ultimately show "\<exists>s'. shard_put s k v = Inr s' \<and> length s' = TWIG_SHARD_COUNT
      \<and> (\<forall>k'. True \<longrightarrow> shard_get s' k' = (if k' = k then Inr v else shard_get s k'))"
    using len by auto
qed

interpretation tws: keyed_store ut_ok "\<lambda>_. True" get_twig put_twig
proof unfold_locales
  fix s k assume "ut_ok s"
  then show "\<exists>v. get_twig s k = Inr v" using shs.get_ok [of "ut_twigs s" k] by (auto simp: ut_ok_def get_twig_def)
next
  fix s k v assume ok: "ut_ok s"
  then obtain ts where "shard_put (ut_twigs s) k v = Inr ts" "length ts = TWIG_SHARD_COUNT"
    "\<forall>k'. shard_get ts k' = (if k' = k then Inr v else shard_get (ut_twigs s) k')"
    using shs.put_ok [of "ut_twigs s" k v] by (auto simp: ut_ok_def)
  then show "\<exists>s'. put_twig s k v = Inr s' \<and> ut_ok s'
      \<and> (\<forall>k'. True \<longrightarrow> get_twig s' k' = (if k' = k then Inr v else get_twig s k'))"
    using ok by (simp add: put_twig_def get_twig_def ut_ok_def)
qed

definition np_ok :: "node_pos \<Rightarrow> bool" where
  "np_ok p \<longleftrightarrow> np_level p < MAX_TREE_LEVEL"

lemma ut_ok_level:
  assumes "ut_ok u" "length w = NODE_SHARD_COUNT"
  shows "ut_ok (u\<lparr>ut_nodes := (ut_nodes u)[l := w]\<rparr>)"
proof -
  have "set ((ut_nodes u)[l := w]) \<subseteq> insert w (set (ut_nodes u))" by (rule set_update_subset_insert)
  then show ?thesis using assms by (auto simp: ut_ok_def)
qed

interpretation nds: keyed_store ut_ok np_ok get_node put_node
proof unfold_locales
  fix s k assume "ut_ok s" "np_ok k"
  then show "\<exists>v. get_node s k = Inr v"
    by (simp add: ut_ok_def np_ok_def get_node_def node_shard_def layout_defs)
next
  fix u k v assume ok: "ut_ok u" and k: "np_ok k"
  let ?l = "np_level k" and ?i = "np_nth k mod NODE_SHARD_COUNT" and ?ns = "ut_nodes u"
  have l: "?l < length ?ns" and i: "?i < length (?ns ! ?l)"
    using ok k by (simp_all add: ut_ok_def np_ok_def layout_defs)
  let ?u = "u\<lparr>ut_nodes := ?ns[?l := (?ns ! ?l)[?i := (?ns ! ?l ! ?i)(k := v)]]\<rparr>"
  have "put_node u k v = Inr ?u" using l i by (simp add: put_node_def node_shard_def Let_def)
  moreover have "ut_ok ?u" using ok i l by (intro ut_ok_level) (simp_all add: ut_ok_def)
  moreover have "get_node ?u k' = (if k' = k then Inr v else get_node u k')" if k': "np_ok k'" for k'
  proof -
    have "np_level k' < length ?ns" "np_nth k' mod NODE_SHARD_COUNT < length (?ns ! np_level k')"
      using ok k' by (simp_all add: ut_ok_def np_ok_def layout_defs)
    then show ?thesis
      using l i by (auto simp: get_node_def node_shard_def nth_list_update)
  qed
  ultimately show "\<exists>s'. put_node u k v = Inr s' \<and> ut_ok s'
      \<and> (\<forall>k'. np_ok k' \<longrightarrow> get_node s' k' = (if k' = k then Inr v else get_node u k'))"
    by blast
qed

text \<open>The two kinds of map do not interfere.\<close>

lemma put_node_twigs: "put_node u p v = Inr u' \<Longrightarrow> ut_twigs u' = ut_twigs u"
  by (auto simp: put_node_def Let_def)

lemma put_twig_nodes: "put_twig u t v = Inr u' \<Longrightarrow> ut_nodes u' = ut_nodes u"
  by (auto simp: put_twig_def)

lemma get_twig_same: "ut_twigs u' = ut_twigs u \<Longrightarrow> get_twig u' = get_twig u"
  by (simp add: fun_eq_iff get_twig_def)

lemma get_node_same: "ut_nodes u' = ut_nodes u \<Longrightarrow> get_node u' = get_node u"
  by (simp add: fun_eq_iff get_node_def node_shard_def)

abbreviation nd :: "upper_tree \<Rightarrow> nat \<Rightarrow> nat \<Rightarrow> hash32 option" where
  "nd u l n \<equiv> nds.val u (np_pos l n)"

lemma np_ok_pos [simp]: "l < 64 \<Longrightarrow> n < 2 ^ 56 \<Longrightarrow> np_ok (np_pos l n)"
  by (simp add: np_ok_def layout_defs)

lemma get_node_nd: "ut_ok u \<Longrightarrow> l < 64 \<Longrightarrow> n < 2 ^ 56 \<Longrightarrow> get_node u (np_pos l n) = Inr (nd u l n)"
  by (intro nds.get_val) simp_all

definition root_val :: "upper_tree \<Rightarrow> nat \<Rightarrow> hash32 option" where
  "root_val u n = (case tws.val u n of Some t \<Rightarrow> Some (twig_root t) | None \<Rightarrow> nd u 12 n)"

lemma get_twig_root_eq: "ut_ok u \<Longrightarrow> n < 2 ^ 56 \<Longrightarrow> get_twig_root u n = Inr (root_val u n)"
  using tws.get_val [of u n] get_node_nd [of u 12 n]
  by (simp add: get_twig_root_def root_val_def layout_defs split: option.splits)

lemma set_node_nd:
  assumes "ut_ok u" "l < 64" "n < 2 ^ 56"
  shows "\<exists>u'. set_node u (np_pos l n) h = Inr u' \<and> ut_ok u' \<and> ut_twigs u' = ut_twigs u
    \<and> (\<forall>l' n'. l' < 64 \<longrightarrow> n' < 2 ^ 56 \<longrightarrow> nd u' l' n' = (if l' = l \<and> n' = n then Some h else nd u l' n'))"
proof -
  obtain u' where u': "put_node u (np_pos l n) (Some h) = Inr u'" "ut_ok u'"
    "\<forall>p. np_ok p \<longrightarrow> nds.val u' p = (if p = np_pos l n then Some h else nds.val u p)"
    using nds.put_val [of u "np_pos l n" "Some h"] assms by auto
  have "nd u' l' n' = (if l' = l \<and> n' = n then Some h else nd u l' n')" if "l' < 64" "n' < 2 ^ 56" for l' n'
    using u'(3) np_pos_inj [of l' n' l n] assms that by simp
  then show ?thesis using u' put_node_twigs by (auto simp: set_node_def)
qed

section \<open>One level of synchronisation\<close>

lemma set_parent_list: "set (parent_list xs) = (\<lambda>i. i div 2) ` set xs"
proof -
  have "set (fold (\<lambda>i ns. if ns = [] \<or> last ns \<noteq> i div 2 then ns @ [i div 2] else ns) xs acc) =
      set acc \<union> (\<lambda>i. i div 2) ` set xs" for acc
  proof (induction xs arbitrary: acc)
    case (Cons x xs)
    have "x div 2 \<in> set acc" if "acc \<noteq> []" "last acc = x div 2" using that by (metis last_in_set)
    then show ?case using Cons by auto
  qed simp
  then show ?thesis by (simp add: parent_list_def)
qed

lemma do_sync_job_eq:
  assumes "level - 1 < length (ut_nodes u)"
    and "\<And>i. i \<in> set ns \<Longrightarrow> sync_value H D u (ut_nodes u ! (level - 1)) level i = Inr (h i)"
    and "\<And>i. i \<in> set ns \<Longrightarrow> i < 2 ^ 56" and "level < 64"
  shows "\<exists>m'. do_sync_job H D u level s ns m = Inr m'
    \<and> (\<forall>l n. l < 64 \<longrightarrow> n < 2 ^ 56 \<longrightarrow> m' (np_pos l n) =
          (if l = level \<and> n \<in> set ns \<and> n mod NODE_SHARD_COUNT = s then Some (h n) else m (np_pos l n)))"
  using assms(2,3)
proof (induction ns arbitrary: m)
  case Nil
  then show ?case using assms(1) by (simp add: do_sync_job_def)
next
  case (Cons i ns)
  let ?m = "if i mod NODE_SHARD_COUNT = s then m(np_pos level i \<mapsto> h i) else m"
  obtain m' where m': "do_sync_job H D u level s ns ?m = Inr m'"
    "\<forall>l n. l < 64 \<longrightarrow> n < 2 ^ 56 \<longrightarrow> m' (np_pos l n) =
          (if l = level \<and> n \<in> set ns \<and> n mod NODE_SHARD_COUNT = s then Some (h n) else ?m (np_pos l n))"
    using Cons.IH [of ?m] Cons.prems by auto
  have "do_sync_job H D u level s (i # ns) m = do_sync_job H D u level s ns ?m"
    using Cons.prems(1) [of i] assms(1) by (simp add: do_sync_job_def)
  moreover have "i < 2 ^ 56" using Cons.prems(2) by simp
  ultimately show ?case
    using m' np_pos_inj [of _ _ level i] assms(4) by (auto split: if_splits)
qed

text \<open>A loop that rewrites every cell of a list by a step of its own.\<close>

lemma foldE_cells:
  assumes "\<And>s. s < length w \<Longrightarrow> \<exists>m'. f s (w ! s) = Inr m' \<and> Q s m'"
  shows "\<exists>w'. foldE (\<lambda>s w. bindE (f s (w ! s)) (\<lambda>m. Inr (w[s := m]))) [0..<length w] w = Inr w'
    \<and> length w' = length w \<and> (\<forall>s<length w. Q s (w' ! s))"
proof -
  have "n \<le> length w \<Longrightarrow> \<exists>w'. foldE (\<lambda>s w. bindE (f s (w ! s)) (\<lambda>m. Inr (w[s := m]))) [0..<n] w = Inr w'
    \<and> length w' = length w \<and> (\<forall>s<n. Q s (w' ! s)) \<and> (\<forall>s<length w. n \<le> s \<longrightarrow> w' ! s = w ! s)" for n
  proof (induction n)
    case (Suc n)
    then obtain w' where w': "foldE (\<lambda>s w. bindE (f s (w ! s)) (\<lambda>m. Inr (w[s := m]))) [0..<n] w = Inr w'"
      "length w' = length w" "\<forall>s<n. Q s (w' ! s)" "\<forall>s<length w. n \<le> s \<longrightarrow> w' ! s = w ! s" by auto
    obtain m' where "f n (w' ! n) = Inr m'" "Q n m'" using assms [of n] w'(4) Suc.prems by auto
    then show ?case using w' Suc.prems by (auto simp: nth_list_update less_Suc_eq)
  qed simp
  from this [of "length w"] show ?thesis by auto
qed

lemma nd_index:
  assumes "ut_ok u" "l < 64" "n < 2 ^ 56"
  shows "nd u l n = (ut_nodes u ! l ! (n mod NODE_SHARD_COUNT)) (np_pos l n)"
proof -
  have "l < length (ut_nodes u)" "length (ut_nodes u ! l) = 4" using assms by (simp_all add: ut_ok_def layout_defs)
  moreover have "n mod NODE_SHARD_COUNT < 4" by (simp add: layout_defs)
  ultimately have "get_node u (np_pos l n) = Inr ((ut_nodes u ! l ! (n mod NODE_SHARD_COUNT)) (np_pos l n))"
    using assms by (simp add: get_node_def node_shard_def)
  then show ?thesis by (simp add: nds.val_def)
qed

lemma sync_value_eq:
  assumes ok: "ut_ok u" and v: "v = u\<lparr>ut_nodes := (ut_nodes u)[level := []]\<rparr>"
    and level: "13 \<le> level" "level < 64" and i: "i < 2 ^ 55"
    and L: "level = 13 \<Longrightarrow> root_val u (2 * i) = Some L"
      "level \<noteq> 13 \<Longrightarrow> nd u (level - 1) (2 * i) = Some L"
    and R: "level = 13 \<Longrightarrow> root_val u (2 * i + 1) = Some R \<or> root_val u (2 * i + 1) = None \<and> R = twig_root (fst (snd D))"
      "level \<noteq> 13 \<Longrightarrow> nd u (level - 1) (2 * i + 1) = Some R"
  shows "sync_value H D v (ut_nodes v ! (level - 1)) level i = Inr (hash2 H (word_of_nat (level - 1)) L R)"
proof -
  have lv: "word_of_nat level - 1 = (word_of_nat (level - 1) :: byte)" using level by (simp add: of_nat_diff)
  have vn: "ut_nodes v ! (level - 1) = ut_nodes u ! (level - 1)" using v level by simp
  have get: "get_twig v = get_twig u" using v by (intro get_twig_same) simp
  have node: "get_node v (np_pos 12 n) = get_node u (np_pos 12 n)" if "n < 2 ^ 56" for n
    using v level that by (simp add: get_node_def node_shard_def index_def)
  have root: "get_twig_root v n = Inr (root_val u n)" if "n < 2 ^ 56" for n
  proof -
    have T: "TWIG_ROOT_LEVEL = 12" by (simp add: layout_defs)
    have "get_twig_root v n = get_twig_root u n" by (simp only: get_twig_root_def T node [OF that] get)
    then show ?thesis using get_twig_root_eq [OF ok that] by simp
  qed
  have child: "child_hash (ut_nodes u ! (level - 1)) (np_pos (level - 1) n) msg = unwrap msg (nd u (level - 1) n)"
    if "n < 2 ^ 56" for n msg
  proof -
    have "length (ut_nodes u ! (level - 1)) = 4" using ok level by (simp add: ut_ok_def layout_defs)
    moreover have "n mod NODE_SHARD_COUNT < 4" by (simp add: layout_defs)
    ultimately show ?thesis using nd_index [OF ok, of "level - 1" n] level that by (simp add: child_hash_def)
  qed
  have b: "2 * i < 2 ^ 56" "2 * i + 1 < 2 ^ 56" using i by simp_all
  have F: "FIRST_LEVEL_ABOVE_TWIG = 13" by (simp add: layout_defs)
  show ?thesis
  proof (cases "level = 13")
    case True
    then show ?thesis using L(1) R(1) by (auto simp: sync_value_def F root [OF b(1)] root [OF b(2), simplified] lv node_hash_inplace_eq Let_def)
  next
    case False
    then show ?thesis using L(2) R(2) unfolding vn by (simp add: sync_value_def F child [OF b(1), simplified] child [OF b(2), simplified] lv node_hash_inplace_eq)
  qed
qed

lemma root_val_same:
  assumes "ut_twigs u' = ut_twigs u" "nd u' 12 n = nd u 12 n"
  shows "root_val u' n = root_val u n"
  unfolding root_val_def tws.val_def get_twig_same [OF assms(1)] assms(2) ..

text \<open>Everything one level does: new hashes at the listed places, the null value at the place
  behind the last one, nothing else.\<close>

lemma sync_level:
  assumes ok: "ut_ok u" and level: "13 \<le> level" "level < 64" and null: "length (snd (snd D)) = 64"
    and mx: "mx = y div 2 ^ (level - 12)" "mx + 1 < 2 ^ 56" and ns: "\<And>i. i \<in> set ns \<Longrightarrow> i < 2 ^ 55"
    and L: "\<And>i. i \<in> set ns \<Longrightarrow> if level = 13 then root_val u (2 * i) = Some (L i) else nd u (level - 1) (2 * i) = Some (L i)"
    and R: "\<And>i. i \<in> set ns \<Longrightarrow> if level = 13
        then root_val u (2 * i + 1) = Some (R i) \<or> root_val u (2 * i + 1) = None \<and> R i = twig_root (fst (snd D))
        else nd u (level - 1) (2 * i + 1) = Some (R i)"
  shows "\<exists>u'. sync_nodes_by_level H D u level ns y = Inr (u', parent_list ns) \<and> ut_ok u' \<and> ut_twigs u' = ut_twigs u
    \<and> (\<forall>l n. l < 64 \<longrightarrow> n < 2 ^ 56 \<longrightarrow> nd u' l n =
         (if l = level \<and> n \<in> set ns then Some (hash2 H (word_of_nat (level - 1)) (L n) (R n))
          else if l = level \<and> (n = mx \<or> n = mx + 1) then Some (snd (snd D) ! level) else nd u l n))"
proof -
  obtain u1 where u1: "set_node u (np_pos level mx) (snd (snd D) ! level) = Inr u1" "ut_ok u1" "ut_twigs u1 = ut_twigs u"
    "\<forall>l n. l < 64 \<longrightarrow> n < 2 ^ 56 \<longrightarrow> nd u1 l n = (if l = level \<and> n = mx then Some (snd (snd D) ! level) else nd u l n)"
    using set_node_nd [OF ok level(2), of mx "snd (snd D) ! level"] mx(2) by auto
  obtain u2 where u2: "set_node u1 (np_pos level (mx + 1)) (snd (snd D) ! level) = Inr u2" "ut_ok u2" "ut_twigs u2 = ut_twigs u1"
    "\<forall>l n. l < 64 \<longrightarrow> n < 2 ^ 56 \<longrightarrow> nd u2 l n = (if l = level \<and> n = mx + 1 then Some (snd (snd D) ! level) else nd u1 l n)"
    using set_node_nd [OF u1(2) level(2), of "mx + 1" "snd (snd D) ! level"] mx(2) by auto
  have same: "nd u2 l n = nd u l n" if "l < 64" "n < 2 ^ 56" "l \<noteq> level" for l n using u1(4) u2(4) that by simp
  have same_root: "root_val u2 n = root_val u n" if "n < 2 ^ 56" for n
    using root_val_same [of u2 u n] same [of 12 n] u1(3) u2(3) level that by simp
  define v where "v = u2\<lparr>ut_nodes := (ut_nodes u2)[level := []]\<rparr>"
  have val: "sync_value H D v (ut_nodes v ! (level - 1)) level i = Inr (hash2 H (word_of_nat (level - 1)) (L i) (R i))"
    if i: "i \<in> set ns" for i
  proof (rule sync_value_eq [OF u2(2) v_def level ns [OF i]])
    have b: "2 * i < 2 ^ 56" "2 * i + 1 < 2 ^ 56" using ns [OF i] by simp_all
    show "level = 13 \<Longrightarrow> root_val u2 (2 * i) = Some (L i)" using L [OF i] same_root [OF b(1)] by simp
    show "level \<noteq> 13 \<Longrightarrow> nd u2 (level - 1) (2 * i) = Some (L i)" using L [OF i] same [OF _ b(1), of "level - 1"] level by simp
    show "level = 13 \<Longrightarrow> root_val u2 (2 * i + 1) = Some (R i) \<or> root_val u2 (2 * i + 1) = None \<and> R i = twig_root (fst (snd D))"
      using R [OF i] same_root [OF b(2)] by simp
    show "level \<noteq> 13 \<Longrightarrow> nd u2 (level - 1) (2 * i + 1) = Some (R i)"
      using R [OF i] same [OF _ b(2), of "level - 1"] level by simp
  qed
  have lens: "length (ut_nodes u2) = 64" "length (ut_nodes u2 ! level) = 4"
    using u2(2) level by (simp_all add: ut_ok_def layout_defs)
  let ?w = "ut_nodes u2 ! level"
  let ?Q = "\<lambda>s m'. \<forall>l n. l < 64 \<longrightarrow> n < 2 ^ 56 \<longrightarrow> m' (np_pos l n) =
      (if l = level \<and> n \<in> set ns \<and> n mod NODE_SHARD_COUNT = s
       then Some (hash2 H (word_of_nat (level - 1)) (L n) (R n)) else (?w ! s) (np_pos l n))"
  have "\<exists>m'. do_sync_job H D v level s ns (?w ! s) = Inr m' \<and> ?Q s m'" for s
  proof (rule do_sync_job_eq)
    show "level - 1 < length (ut_nodes v)" using lens level by (simp add: v_def)
    show "i < 2 ^ 56" if "i \<in> set ns" for i using ns [OF that] by simp
  qed (use val level in auto)
  from foldE_cells [of ?w "\<lambda>s. do_sync_job H D v level s ns" ?Q, OF this]
  obtain w' where w': "foldE (\<lambda>s w. bindE (do_sync_job H D v level s ns (w ! s)) (\<lambda>m. Inr (w[s := m]))) [0..<length ?w] ?w = Inr w'"
    "length w' = length ?w" "\<forall>s<length ?w. ?Q s (w' ! s)" by blast
  let ?u = "u2\<lparr>ut_nodes := (ut_nodes u2)[level := w']\<rparr>"
  have okw: "ut_ok ?u" using u2(2) w'(2) lens by (intro ut_ok_level) (simp_all add: layout_defs)
  have "level - FIRST_LEVEL_ABOVE_TWIG + 1 = level - 12" using level by (simp add: layout_defs)
  then have mxn: "max_n_at_level y level = Inr mx" using level(1) unfolding max_n_at_level_def mx(1)
    by (simp add: layout_defs drop_bit_eq_div)
  have "sync_nodes_by_level H D u level ns y = Inr (?u, parent_list ns)"
    using u1(1) u2(1) w'(1) level null lens
    by (simp add: sync_nodes_by_level_def mxn Let_def v_def)
  moreover have "nd ?u l n = (if l = level \<and> n \<in> set ns then Some (hash2 H (word_of_nat (level - 1)) (L n) (R n))
          else if l = level \<and> (n = mx \<or> n = mx + 1) then Some (snd (snd D) ! level) else nd u l n)"
    if "l < 64" "n < 2 ^ 56" for l n
  proof (cases "l = level")
    case True
    have "nd ?u l n = (w' ! (n mod NODE_SHARD_COUNT)) (np_pos l n)"
      using nd_index [OF okw that] True level lens by simp
    moreover have "n mod NODE_SHARD_COUNT < length ?w" using lens by (simp add: layout_defs)
    ultimately show ?thesis
      using w'(3) that True u1(4) u2(4) nd_index [OF u2(2) that] by auto
  next
    case False
    then show ?thesis using same [OF that False] nd_index [OF okw that] nd_index [OF u2(2) that] by simp
  qed
  ultimately show ?thesis using okw u1(3) u2(3) by auto
qed

section \<open>The nodes above the twigs represent the Merkle tree of the twig roots\<close>

text \<open>\<open>R\<close> gives the root of every twig, the null root beyond the youngest twig \<open>y\<close>; nodes left
  of the edge of \<open>lo\<close>, the first twig not pruned, may be missing.\<close>

definition edge_at :: "nat \<Rightarrow> nat \<Rightarrow> nat" where
  "edge_at lo l = end_back_at (lo div 2 ^ (l - 12)) l"

definition upper_rep :: "hashfun \<Rightarrow> upper_tree \<Rightarrow> (nat \<Rightarrow> hash32) \<Rightarrow> nat \<Rightarrow> nat \<Rightarrow> bool" where
  "upper_rep H u R lo y \<longleftrightarrow>
     (\<forall>l n. 13 \<le> l \<longrightarrow> l \<le> calc_max_level y \<longrightarrow> edge_at lo l \<le> n \<longrightarrow> n \<le> y div 2 ^ (l - 12) + 1 \<longrightarrow>
        nd u l n = Some (mnode H 12 R (l - 12) n))"

definition roots_rep :: "init_data \<Rightarrow> upper_tree \<Rightarrow> (nat \<Rightarrow> hash32) \<Rightarrow> nat \<Rightarrow> nat \<Rightarrow> bool" where
  "roots_rep D u R lo y \<longleftrightarrow>
     (\<forall>t. lo \<le> t \<longrightarrow> t \<le> y \<longrightarrow> root_val u t = Some (R t))
     \<and> (\<forall>t. y < t \<longrightarrow> R t = twig_root (fst (snd D)))
     \<and> (root_val u (y + 1) = None \<or> root_val u (y + 1) = Some (R (y + 1)))"

lemma div_pow_level: "13 \<le> l \<Longrightarrow> x div 2 ^ (l - 12) = x div 2 div 2 ^ (l - 13)" for x :: nat
proof -
  assume "13 \<le> l"
  then have "l - 12 = Suc (l - 13)" by simp
  then show ?thesis by (simp add: div_mult2_eq)
qed

lemma even_floor: "(if x mod 2 \<noteq> 0 then x - 1 else x) = 2 * (x div 2)" for x :: nat
  by presburger

lemma edge_at_eq: "13 \<le> l \<Longrightarrow> edge_at lo l = 2 * (lo div 2 ^ (l - 12) div 2)"
  using even_floor [of "lo div 2 ^ (l - 12)"] by (simp add: edge_at_def end_back_at_def layout_defs)

lemma null_data:
  assumes "get_init_data H = Inr D"
  shows "length (snd (snd D)) = 64"
    "13 \<le> l \<Longrightarrow> l < 64 \<Longrightarrow> snd (snd D) ! l = mnode H 12 (\<lambda>_. twig_root (fst (snd D))) (l - 12) 0"
proof -
  obtain mt t where D: "D = (mt, t, create_null_node_in_higher_tree H t)"
    using assms by (auto simp: get_init_data_def)
  show "length (snd (snd D)) = 64" by (simp add: D null_nodes_eq)
  show "snd (snd D) ! l = mnode H 12 (\<lambda>_. twig_root (fst (snd D))) (l - 12) 0" if "13 \<le> l" "l < 64"
    using that nth_upt [of 13 "l - 13" 64] by (simp add: D null_nodes_eq nth_append layout_defs del: upt_rec_numeral)
qed

lemma mnode_beyond:
  assumes "get_init_data H = Inr D" "\<forall>t. y < t \<longrightarrow> R t = twig_root (fst (snd D))" "13 \<le> l" "l < 64"
    "y div 2 ^ (l - 12) < n"
  shows "mnode H 12 R (l - 12) n = snd (snd D) ! l"
proof -
  have "mnode H 12 R (l - 12) n = mnode H 12 (\<lambda>_. twig_root (fst (snd D))) (l - 12) n"
  proof (rule mnode_cong)
    fix t assume "n * 2 ^ (l - 12) \<le> t"
    moreover have "y < n * 2 ^ (l - 12)" using assms(5) by (simp add: div_less_iff_less_mult)
    ultimately show "R t = twig_root (fst (snd D))" using assms(2) by simp
  qed
  also have "\<dots> = snd (snd D) ! l" using null_data(2) [OF assms(1,3,4)] mnode_const by metis
  finally show ?thesis .
qed

lemma mnode_all_null:
  assumes "get_init_data H = Inr D" "\<And>t. t div 2 ^ (l - 12) = n \<Longrightarrow> R t = twig_root (fst (snd D))" "13 \<le> l" "l < 64"
  shows "mnode H 12 R (l - 12) n = snd (snd D) ! l"
proof -
  have "mnode H 12 R (l - 12) n = mnode H 12 (\<lambda>_. twig_root (fst (snd D))) (l - 12) n"
  proof (rule mnode_cong)
    fix t assume "n * 2 ^ (l - 12) \<le> t" "t < (n + 1) * 2 ^ (l - 12)"
    then have "t div 2 ^ (l - 12) = n" by (intro div_nat_eqI) (simp_all add: mult.commute)
    then show "R t = twig_root (fst (snd D))" by (rule assms(2))
  qed
  also have "\<dots> = snd (snd D) ! l" using null_data(2) [OF assms(1,3,4)] mnode_const by metis
  finally show ?thesis .
qed

text \<open>What the loop over the levels keeps: the levels below \<open>k\<close> are done, the list names the
  touched positions of level \<open>k\<close>, the levels from \<open>k\<close> on are as before.\<close>

definition sync_inv ::
  "hashfun \<Rightarrow> upper_tree \<Rightarrow> nat list \<Rightarrow> (nat \<Rightarrow> hash32) \<Rightarrow> nat \<Rightarrow> nat \<Rightarrow> nat \<Rightarrow> upper_tree \<times> nat list \<Rightarrow> bool" where
  "sync_inv H u ns R lo y k = (\<lambda>(w, ms). ut_ok w \<and> ut_twigs w = ut_twigs u
     \<and> set ms = (\<lambda>i. i div 2 ^ (k - 13)) ` set ns
     \<and> (\<forall>l n. l < 64 \<longrightarrow> n < 2 ^ 56 \<longrightarrow> \<not> (13 \<le> l \<and> l < k) \<longrightarrow> nd w l n = nd u l n)
     \<and> (\<forall>l n. 13 \<le> l \<longrightarrow> l < k \<longrightarrow> edge_at lo l \<le> n \<longrightarrow> n \<le> y div 2 ^ (l - 12) + 1 \<longrightarrow>
           nd w l n = Some (mnode H 12 R (l - 12) n)))"

text \<open>The nodes right of the edge that the synchronisation does not compute have their values already.\<close>

definition kept_nodes :: "hashfun \<Rightarrow> upper_tree \<Rightarrow> nat list \<Rightarrow> (nat \<Rightarrow> hash32) \<Rightarrow> nat \<Rightarrow> nat \<Rightarrow> bool" where
  "kept_nodes H u ns R lo y \<longleftrightarrow> (\<forall>l n. 13 \<le> l \<longrightarrow> l \<le> calc_max_level y \<longrightarrow> edge_at lo l \<le> n \<longrightarrow> n < y div 2 ^ (l - 12) \<longrightarrow>
     n \<notin> (\<lambda>i. i div 2 ^ (l - 13)) ` set ns \<longrightarrow> nd u l n = Some (mnode H 12 R (l - 12) n))"

text \<open>The last node of a level, when it is not computed, has null twigs below it only.\<close>

definition null_tail :: "init_data \<Rightarrow> nat list \<Rightarrow> (nat \<Rightarrow> hash32) \<Rightarrow> nat \<Rightarrow> bool" where
  "null_tail D ns R y \<longleftrightarrow> (\<forall>l t. 13 \<le> l \<longrightarrow> t div 2 ^ (l - 12) = y div 2 ^ (l - 12) \<longrightarrow>
     y div 2 ^ (l - 12) \<notin> (\<lambda>i. i div 2 ^ (l - 13)) ` set ns \<longrightarrow> R t = twig_root (fst (snd D)))"

lemma null_tailI:
  assumes "y div 2 \<in> set ns \<or> (\<forall>t. R t \<noteq> twig_root (fst (snd D)) \<longrightarrow> t div 2 \<in> set ns)"
  shows "null_tail D ns R y"
  unfolding null_tail_def
proof (intro allI impI)
  fix l t :: nat
  assume l: "13 \<le> l" and t: "t div 2 ^ (l - 12) = y div 2 ^ (l - 12)" and out: "y div 2 ^ (l - 12) \<notin> (\<lambda>i. i div 2 ^ (l - 13)) ` set ns"
  have "x div 2 \<notin> set ns" if "x div 2 ^ (l - 12) = y div 2 ^ (l - 12)" for x
    using out that unfolding div_pow_level [OF l, of y] div_pow_level [OF l, of x] by (metis imageI)
  then show "R t = twig_root (fst (snd D))" using assms t by blast
qed

lemma sync_inv_step:
  assumes D: "get_init_data H = Inr D" and y: "y < 2 ^ 51" "even lo"
    and kept: "kept_nodes H u ns R lo y" and new: "roots_rep D u R lo y"
    and ns: "\<forall>i\<in>set ns. lo div 2 \<le> i \<and> i \<le> y div 2" "null_tail D ns R y"
    and k: "13 \<le> k" "k \<le> calc_max_level y" and inv: "sync_inv H u ns R lo y k (w, ms)"
  shows "\<exists>w'. sync_nodes_by_level H D w k ms y = Inr (w', parent_list ms)
    \<and> sync_inv H u ns R lo y (k + 1) (w', parent_list ms)"
proof -
  define p where "p = (2::nat) ^ (k - 12)"
  have p: "x div p = x div 2 div 2 ^ (k - 13)" for x using div_pow_level [OF k(1), of x] by (simp add: p_def)
  have p': "x div p = x div 2 ^ (k - 13) div 2" for x by (simp add: p div_mult2_eq [symmetric] mult.commute)
  have maxl: "calc_max_level y = 12 + bit_length y" using calc_max_level_eq [of y] y by (simp add: layout_defs)
  have k64: "k < 64" using k(2) maxl bit_length_le_iff [of y 51] y by simp
  have w: "ut_ok w" "ut_twigs w = ut_twigs u" and ms: "set ms = (\<lambda>i. i div 2 ^ (k - 13)) ` set ns"
    and hi: "\<And>l n. l < 64 \<Longrightarrow> n < 2 ^ 56 \<Longrightarrow> \<not> (13 \<le> l \<and> l < k) \<Longrightarrow> nd w l n = nd u l n"
    and dn: "\<And>l n. 13 \<le> l \<Longrightarrow> l < k \<Longrightarrow> edge_at lo l \<le> n \<Longrightarrow> n \<le> y div 2 ^ (l - 12) + 1 \<Longrightarrow>
           nd w l n = Some (mnode H 12 R (l - 12) n)"
    using inv by (auto simp: sync_inv_def)
  have rng: "lo div p \<le> i \<and> i \<le> y div p" if "i \<in> set ms" for i
    using that ns(1) unfolding ms p by (auto intro: div_le_mono)
  have yp: "y div p \<le> y" by simp
  have small: "i < 2 ^ 55" "2 * i + 1 < 2 ^ 56" if "i \<in> set ms" for i
  proof -
    have "i \<le> y" using rng [OF that] yp by (meson le_trans)
    then show "i < 2 ^ 55" "2 * i + 1 < 2 ^ 56" using y(1) by simp_all
  qed
  have root: "root_val w n = root_val u n" if "n < 2 ^ 56" for n
    using root_val_same [OF w(2), of n] hi [of 12 n] that by simp
  let ?L = "\<lambda>i. mnode H 12 R (k - 13) (2 * i)" and ?R = "\<lambda>i. mnode H 12 R (k - 13) (2 * i + 1)"
  have below: "nd w (k - 1) j = Some (mnode H 12 R (k - 13) j)" if "k \<noteq> 13" "i \<in> set ms" "j = 2 * i \<or> j = 2 * i + 1" for i j
  proof -
    have "lo div 2 ^ (k - 13) div 2 \<le> i" "i \<le> y div 2 ^ (k - 13) div 2" using rng [OF that(2)] unfolding p' by simp_all
    moreover have "k - 1 - 12 = k - 13" by simp
    ultimately show ?thesis
      using dn [of "k - 1" j] edge_at_eq [of "k - 1" lo] that k(1) by auto
  qed
  have L: "if k = 13 then root_val w (2 * i) = Some (?L i) else nd w (k - 1) (2 * i) = Some (?L i)" if i: "i \<in> set ms" for i
  proof (cases "k = 13")
    case True
    have "lo \<le> 2 * i" "2 * i \<le> y" using rng [OF i] y(2) True unfolding p_def by auto
    then show ?thesis using new root [of "2 * i"] small [OF i] True by (simp add: roots_rep_def)
  next
    case False
    then show ?thesis using below [OF False i] by simp
  qed
  have Rr: "if k = 13 then root_val w (2 * i + 1) = Some (?R i) \<or> root_val w (2 * i + 1) = None \<and> ?R i = twig_root (fst (snd D))
      else nd w (k - 1) (2 * i + 1) = Some (?R i)" if i: "i \<in> set ms" for i
  proof (cases "k = 13")
    case True
    have "lo \<le> 2 * i" "2 * i \<le> y" using rng [OF i] y(2) True unfolding p_def by auto
    then have "2 * i + 1 \<le> y \<or> 2 * i + 1 = y + 1" by auto
    then show ?thesis using new root [of "2 * i + 1"] small [OF i] True \<open>lo \<le> 2 * i\<close>
      by (auto simp: roots_rep_def)
  next
    case False
    then show ?thesis using below [OF False i] by simp
  qed
  have e: "y div p = y div 2 ^ (k - 12)" by (simp add: p_def)
  have b: "y div p + 1 < 2 ^ 56" using le_less_trans [OF yp y(1)] by simp
  from sync_level [where mx = "y div p" and y = y and H = H and ns = ms, OF w(1) k(1) k64 null_data(1) [OF D] e b small(1) L Rr]
  obtain w' where w': "sync_nodes_by_level H D w k ms y = Inr (w', parent_list ms)" "ut_ok w'" "ut_twigs w' = ut_twigs w"
    "\<forall>l n. l < 64 \<longrightarrow> n < 2 ^ 56 \<longrightarrow> nd w' l n =
         (if l = k \<and> n \<in> set ms then Some (hash2 H (word_of_nat (k - 1)) (?L n) (?R n))
          else if l = k \<and> (n = y div p \<or> n = y div p + 1) then Some (snd (snd D) ! k) else nd w l n)"
    by blast
  have at_k: "nd w' k n = Some (mnode H 12 R (k - 12) n)" if n: "edge_at lo k \<le> n" "n \<le> y div p + 1" for n
  proof (cases "n \<in> set ms")
    case True
    have "k - 12 = Suc (k - 13)" "12 + (k - 13) = k - 1" using k(1) by simp_all
    moreover have "n < 2 ^ 56" using small(1) [OF True] by simp
    ultimately show ?thesis using w'(4) True k64 by simp
  next
    case False
    have n56: "n < 2 ^ 56" using n(2) b by (rule le_less_trans)
    show ?thesis
    proof (cases "n = y div p + 1")
      case True
      have "mnode H 12 R (k - 12) n = snd (snd D) ! k"
        using mnode_beyond [OF D _ k(1) k64, of y R n] new True by (simp add: roots_rep_def p_def)
      then show ?thesis using w'(4) k64 n56 False True by simp
    next
      case ny: False
      show ?thesis
      proof (cases "n = y div p")
      case True
      then have null: "R t = twig_root (fst (snd D))" if "t div p = n" for t
        using ns(2) k(1) False that unfolding null_tail_def ms p_def by blast
      have "mnode H 12 R (k - 12) n = snd (snd D) ! k"
        using null by (intro mnode_all_null [OF D _ k(1) k64]) (simp add: p_def)
      then show ?thesis using w'(4) k64 n56 False True by simp
      next
      case nmx: False
      with n(2) ny have lt: "n < y div p" by simp
      have "nd u k n = Some (mnode H 12 R (k - 12) n)"
        using kept k n(1) lt False unfolding kept_nodes_def ms by (simp add: p_def)
      then show ?thesis using w'(4) k64 n56 False ny nmx hi [of k n] by simp
      qed
    qed
  qed
  have other: "nd w' l n = nd w l n" if "l < 64" "n < 2 ^ 56" "l \<noteq> k" for l n using w'(4) that by simp
  have f0: "set (parent_list ms) = (\<lambda>i. i div 2 ^ (k + 1 - 13)) ` set ns"
  proof -
    have "k + 1 - 13 = Suc (k - 13)" using k(1) by simp
    then show ?thesis by (simp add: set_parent_list ms image_image div_mult2_eq [symmetric] mult.commute)
  qed
  have f1: "nd w' l n = nd u l n" if "l < 64" "n < 2 ^ 56" "\<not> (13 \<le> l \<and> l < k + 1)" for l n
    using other [OF that(1,2)] hi [OF that(1,2)] that(3) k(1) by auto
  have f2: "nd w' l n = Some (mnode H 12 R (l - 12) n)"
    if "13 \<le> l" "l < k + 1" "edge_at lo l \<le> n" "n \<le> y div 2 ^ (l - 12) + 1" for l n
  proof (cases "l = k")
    case True
    then show ?thesis using at_k that by (simp add: p_def)
  next
    case False
    have "y div 2 ^ (l - 12) \<le> y" by simp
    moreover have "y + 1 < 2 ^ 56" using y(1) by simp
    ultimately have "n < 2 ^ 56" using that(4) by linarith
    then show ?thesis using other [of l n] dn [of l n] that False k64 by simp
  qed
  have "sync_inv H u ns R lo y (k + 1) (w', parent_list ms)"
    unfolding sync_inv_def prod.case using w'(2,3) w(2) f0 f1 f2 by simp
  then show ?thesis using w'(1) by blast
qed

lemma sync_upper_nodes_kept:
  assumes D: "get_init_data H = Inr D" and ok: "ut_ok u" and y: "0 < y" "y < 2 ^ 51" "even lo"
    and kept: "kept_nodes H u ns R lo y" and new: "roots_rep D u R lo y"
    and ns: "\<forall>i\<in>set ns. lo div 2 \<le> i \<and> i \<le> y div 2" "null_tail D ns R y" "ns \<noteq> []"
    and lo: "lo \<le> y"
  shows "\<exists>u' ms. sync_upper_nodes H D u ns y = Inr (u', ms, mnode H 12 R (bit_length y) 0)
    \<and> ut_ok u' \<and> ut_twigs u' = ut_twigs u \<and> upper_rep H u' R lo y
    \<and> (\<forall>t<2 ^ 56. nd u' 12 t = nd u 12 t)"
proof -
  let ?step = "\<lambda>level (u, n_list). sync_nodes_by_level H D u level n_list y"
  have maxl: "calc_max_level y = 12 + bit_length y" using calc_max_level_eq [of y] y by (simp add: layout_defs)
  have b: "1 \<le> bit_length y" "bit_length y \<le> 51" using bit_length_pos [OF y(1)] bit_length_le_iff [of y 51] y by simp_all
  have "k \<le> calc_max_level y + 1 \<Longrightarrow> \<exists>wm. foldE ?step [13..<k] (u, ns) = Inr wm \<and> sync_inv H u ns R lo y k wm"
    if "13 \<le> k" for k
    using that
  proof (induction k rule: dec_induct)
    case base
    have "sync_inv H u ns R lo y 13 (u, ns)" using ok by (simp add: sync_inv_def)
    then show ?case by simp
  next
    case (step k)
    then obtain w ms where w: "foldE ?step [13..<k] (u, ns) = Inr (w, ms)" "sync_inv H u ns R lo y k (w, ms)" by auto
    have k: "13 \<le> k" "k \<le> calc_max_level y" using step by simp_all
    from sync_inv_step [OF D y(2,3) kept new ns(1,2) k w(2)]
    obtain w' where "sync_nodes_by_level H D w k ms y = Inr (w', parent_list ms)"
      "sync_inv H u ns R lo y (k + 1) (w', parent_list ms)" by blast
    then show ?case using w(1) step(1) by auto
  qed
  from this [of "calc_max_level y + 1"] obtain w ms where
    w: "foldE ?step [13..<calc_max_level y + 1] (u, ns) = Inr (w, ms)"
    and inv: "sync_inv H u ns R lo y (calc_max_level y + 1) (w, ms)"
    using maxl b by auto
  have rep: "upper_rep H w R lo y" and okw: "ut_ok w" "ut_twigs w = ut_twigs u" and low: "\<forall>t<2 ^ 56. nd w 12 t = nd u 12 t"
    using inv by (auto simp: sync_inv_def upper_rep_def)
  have yb: "y < 2 ^ bit_length y" by (simp flip: bit_length_le_iff)
  then have "edge_at lo (calc_max_level y) = 0"
    using lo b maxl by (simp add: edge_at_def end_back_at_def div_eq_0_iff)
  then have "nd w (calc_max_level y) 0 = Some (mnode H 12 R (bit_length y) 0)"
    using rep b maxl by (simp add: upper_rep_def)
  then have "get_node w (np_pos (calc_max_level y) 0) = Inr (Some (mnode H 12 R (bit_length y) 0))"
    using get_node_nd [OF okw(1), of "calc_max_level y" 0] maxl b by simp
  moreover note ns(3)
  moreover have "FIRST_LEVEL_ABOVE_TWIG = 13" by (simp add: layout_defs)
  ultimately have "sync_upper_nodes H D u ns y = Inr (w, ms, mnode H 12 R (bit_length y) 0)"
    using w by (simp only: sync_upper_nodes_def Let_def if_True bindE.simps prod.case unwrap_Some
        simp_thms not_False_eq_True)
  then show ?thesis using rep okw low by blast
qed

lemma kept_unchanged:
  assumes y: "y < 2 ^ 51" "y0 \<le> y" and old: "upper_rep H u R0 lo y0"
    and touched: "\<forall>t<y. R t \<noteq> R0 t \<or> y0 < t \<longrightarrow> t div 2 \<in> set ns"
  shows "kept_nodes H u ns R lo y"
  unfolding kept_nodes_def
proof (intro allI impI)
  fix k n :: nat
  assume k: "13 \<le> k" "k \<le> calc_max_level y" and n: "edge_at lo k \<le> n" "n < y div 2 ^ (k - 12)"
    and out: "n \<notin> (\<lambda>i. i div 2 ^ (k - 13)) ` set ns"
  define p where "p = (2::nat) ^ (k - 12)"
  have p: "x div p = x div 2 div 2 ^ (k - 13)" for x using div_pow_level [OF k(1), of x] by (simp add: p_def)
  have t_ms: "t div p \<in> (\<lambda>i. i div 2 ^ (k - 13)) ` set ns" if "t div 2 \<in> set ns" for t using that unfolding p by blast
  have maxl: "calc_max_level y = 12 + bit_length y" "calc_max_level y0 = 12 + bit_length y0"
    using calc_max_level_eq [of y] calc_max_level_eq [of y0] y by (simp_all add: layout_defs)
  have lt: "n < y div p" using n(2) by (simp add: p_def)
  have p0: "0 < p" by (simp add: p_def)
  have up: "t < y" if "t div p = n" for t using lt that by (metis div_le_mono leD leI)
  have nt: "t div p = n \<Longrightarrow> R t = R0 t \<and> \<not> y0 < t" for t using touched t_ms [of t] out up [of t] by blast
  from nt [of "n * p"] p0 have "n * p \<le> y0" by simp
  then have ny0: "n \<le> y0 div p" using less_eq_div_iff_mult_less_eq [OF p0, of n y0] by simp
  have "k \<le> calc_max_level y0"
  proof (rule ccontr)
    assume "\<not> k \<le> calc_max_level y0"
    then have "bit_length y0 \<le> k - 13" "\<not> bit_length y \<le> k - 13" using maxl k by auto
    then have "y0 < 2 ^ (k - 13)" "2 ^ (k - 13) \<le> y" by (simp_all add: bit_length_le_iff)
    moreover from this have "y0 div p = 0" "2 ^ (k - 13) div p = 0"
      using k(1) by (simp_all add: p_def div_pow_level [OF k(1)])
    ultimately show False using nt [of "2 ^ (k - 13)"] ny0 by simp
  qed
  then have "nd u k n = Some (mnode H 12 R0 (k - 12) n)"
    using old k(1) n(1) ny0 by (simp add: upper_rep_def p_def)
  moreover have "mnode H 12 R0 (k - 12) n = mnode H 12 R (k - 12) n"
  proof (rule mnode_cong)
    fix t assume "n * 2 ^ (k - 12) \<le> t" "t < (n + 1) * 2 ^ (k - 12)"
    then have "t div p = n" unfolding p_def by (intro div_nat_eqI) (simp_all add: mult.commute)
    then show "R0 t = R t" using nt by simp
  qed
  ultimately show "nd u k n = Some (mnode H 12 R (k - 12) n)" by simp
qed

lemma sync_upper_nodes_rep:
  assumes D: "get_init_data H = Inr D" and ok: "ut_ok u" and y: "0 < y" "y < 2 ^ 51" "y0 \<le> y" "even lo"
    and old: "upper_rep H u R0 lo y0" and new: "roots_rep D u R lo y"
    and ns: "\<forall>i\<in>set ns. lo div 2 \<le> i \<and> i \<le> y div 2"
      "y div 2 \<in> set ns \<or> (\<forall>t. R t \<noteq> twig_root (fst (snd D)) \<longrightarrow> t div 2 \<in> set ns)" "ns \<noteq> []"
    and touched: "\<forall>t<y. R t \<noteq> R0 t \<or> y0 < t \<longrightarrow> t div 2 \<in> set ns" and lo: "lo \<le> y"
  shows "\<exists>u' ms. sync_upper_nodes H D u ns y = Inr (u', ms, mnode H 12 R (bit_length y) 0)
    \<and> ut_ok u' \<and> ut_twigs u' = ut_twigs u \<and> upper_rep H u' R lo y
    \<and> (\<forall>t<2 ^ 56. nd u' 12 t = nd u 12 t)"
  by (rule sync_upper_nodes_kept [OF D ok y(1,2,4) kept_unchanged [OF y(2,3) old touched] new ns(1) null_tailI [OF ns(2)] ns(3) lo])

section \<open>Pruning keeps what lies right of the edge\<close>

lemma delete_range:
  assumes "ut_ok u" "l < 64" "b \<le> 2 ^ 56"
  shows "\<exists>u'. foldE (\<lambda>i u. delete_node u (np_pos l i)) [a..<b] u = Inr u' \<and> ut_ok u' \<and> ut_twigs u' = ut_twigs u
    \<and> (\<forall>l' n. l' < 64 \<longrightarrow> n < 2 ^ 56 \<longrightarrow> nd u' l' n = (if l' = l \<and> a \<le> n \<and> n < b then None else nd u l' n))"
proof -
  let ?ks = "map (np_pos l) [a..<b]"
  have e: "foldE (\<lambda>i u. delete_node u (np_pos l i)) ns v = foldE (\<lambda>k u. put_node u k None) (map (np_pos l) ns) v" for ns v
  proof (induction ns arbitrary: v)
    case (Cons n ns)
    then show ?case by (cases "put_node v (np_pos l n) None") (simp_all add: delete_node_def)
  qed simp
  have keys: "\<forall>k\<in>set ?ks. np_ok k" using assms(2,3) by auto
  from nds.put_all_same [OF assms(1) keys, of None] obtain u' where
    u': "foldE (\<lambda>k u. put_node u k None) ?ks u = Inr u'" "ut_ok u'"
    "\<forall>k. np_ok k \<longrightarrow> nds.val u' k = (if k \<in> set ?ks then None else nds.val u k)" by blast
  have "np_pos l' n \<in> set ?ks \<longleftrightarrow> l' = l \<and> a \<le> n \<and> n < b" if "l' < 64" "n < 2 ^ 56" for l' n
  proof -
    have "np_pos l' n = np_pos l i \<longleftrightarrow> l' = l \<and> n = i" if "i < b" for i
      using np_pos_inj [of l' n l i] assms(2,3) that \<open>l' < 64\<close> \<open>n < 2 ^ 56\<close> by simp
    then show ?thesis unfolding set_map set_upt image_iff by (metis atLeastLessThan_iff)
  qed
  moreover have "ut_twigs u' = ut_twigs u"
    by (rule foldE_invariant [OF u'(1), where P = "\<lambda>v. ut_twigs v = ut_twigs u"]) (auto dest: put_node_twigs)
  ultimately show ?thesis using u' e by auto
qed

lemma half_level: "12 \<le> k \<Longrightarrow> x div 2 ^ (k - 12) div 2 = x div 2 ^ (Suc k - 12)" for x :: nat
proof -
  assume "12 \<le> k"
  then have "Suc k - 12 = Suc (k - 12)" by simp
  then show ?thesis by (simp only: power_Suc div_mult2_eq [symmetric] mult.commute)
qed

lemma remove_useless_from_eq:
  assumes "ut_ok u" "\<And>l. l \<in> set [k..<m] \<Longrightarrow> l < 64" "12 \<le> k" "stop \<le> 2 ^ 55"
    and "a = start div 2 ^ (k - 12)" "b = stop div 2 ^ (k - 12)" "k \<le> m"
  shows "\<exists>u'. remove_useless_from u a b [k..<m] = Inr u' \<and> ut_ok u' \<and> ut_twigs u' = ut_twigs u
    \<and> (\<forall>l n. l < 64 \<longrightarrow> n < 2 ^ 56 \<longrightarrow> nd u' l n =
        (if k \<le> l \<and> l < m \<and> start div 2 ^ (l - 12) - 1 \<le> n \<and> n < edge_at stop l then None else nd u l n))"
  using assms
proof (induction "m - k" arbitrary: k u a b)
  case 0
  then show ?case by auto
next
  case (Suc d)
  then have k: "k < m" "k < 64" by auto
  let ?e = "end_back_at b k"
  have "b \<le> stop" using Suc.prems(6) by simp
  moreover have "?e \<le> b" by (simp add: end_back_at_def)
  moreover have "stop \<le> 2 ^ 56" using Suc.prems(4) by simp
  ultimately have e: "?e \<le> 2 ^ 56" by linarith
  obtain u1 where u1: "foldE (\<lambda>i u. delete_node u (np_pos k i)) [a - 1..<?e] u = Inr u1" "ut_ok u1" "ut_twigs u1 = ut_twigs u"
    "\<forall>l n. l < 64 \<longrightarrow> n < 2 ^ 56 \<longrightarrow> nd u1 l n = (if l = k \<and> a - 1 \<le> n \<and> n < ?e then None else nd u l n)"
    using delete_range [OF Suc.prems(1) k(2) e, of "a - 1"] by blast
  have half: "x div 2 ^ (k - 12) div 2 = x div 2 ^ (Suc k - 12)" for x :: nat
    using half_level [OF Suc.prems(3)] .
  have d: "d = m - Suc k" using Suc.hyps(2) by simp
  obtain u2 where u2: "remove_useless_from u1 (a div 2) (b div 2) [Suc k..<m] = Inr u2" "ut_ok u2" "ut_twigs u2 = ut_twigs u1"
    "\<forall>l n. l < 64 \<longrightarrow> n < 2 ^ 56 \<longrightarrow> nd u2 l n =
        (if Suc k \<le> l \<and> l < m \<and> start div 2 ^ (l - 12) - 1 \<le> n \<and> n < edge_at stop l then None else nd u1 l n)"
    using Suc.hyps(1) [OF d, of u1 "a div 2" "b div 2"] Suc.prems u1(2) k half by auto
  have "remove_useless_from u a b [k..<m] = Inr u2"
    using u1(1) u2(1) k(1) by (simp add: upt_conv_Cons)
  moreover have "?e = edge_at stop k" by (simp add: edge_at_def Suc.prems(6))
  moreover have "nd u2 l n = (if k \<le> l \<and> l < m \<and> start div 2 ^ (l - 12) - 1 \<le> n \<and> n < edge_at stop l
      then None else nd u l n)" if "l < 64" "n < 2 ^ 56" for l n
    using u1(4) u2(4) that k Suc.prems(5) \<open>?e = _\<close> by (cases "l = k") (simp_all add: Suc_le_eq)
  ultimately show ?case using u1(3) u2(2,3) by simp
qed

lemma edge_nodes_from_eq:
  assumes "ut_ok u" "12 \<le> k" "k \<le> m" "m \<le> 64" "stop < 2 ^ 56" "b = stop div 2 ^ (k - 12)"
    and "\<And>l. k \<le> l \<Longrightarrow> l < m \<Longrightarrow> nd u l (edge_at stop l) = Some (v l)"
  shows "edge_nodes_from u b [k..<m] = Inr (map (\<lambda>l. \<lparr>en_pos = np_pos l (edge_at stop l), en_value = v l\<rparr>) [k..<m])"
  using assms(2,3,6,7)
proof (induction "m - k" arbitrary: k b)
  case 0
  then show ?case by simp
next
  case (Suc d)
  then have k: "k < m" by auto
  have e: "end_back_at b k = edge_at stop k" by (simp add: edge_at_def Suc.prems(3))
  have "edge_at stop k \<le> stop"
  proof -
    have "end_back_at b k \<le> b" "b \<le> stop" using Suc.prems(3) by (simp_all add: end_back_at_def)
    then show ?thesis unfolding e by linarith
  qed
  then have g: "get_node u (np_pos k (edge_at stop k)) = Inr (Some (v k))"
    using get_node_nd [OF assms(1), of k "edge_at stop k"] Suc.prems(4) [of k] k assms(4,5) by simp
  have half: "b div 2 = stop div 2 ^ (Suc k - 12)"
    using half_level [OF Suc.prems(1)] Suc.prems(3) by simp
  have "edge_nodes_from u (b div 2) [Suc k..<m] =
      Inr (map (\<lambda>l. \<lparr>en_pos = np_pos l (edge_at stop l), en_value = v l\<rparr>) [Suc k..<m])"
    using Suc.hyps(1) [of "Suc k" "b div 2"] Suc.hyps(2) Suc.prems k half by auto
  then show ?case using g k by (simp add: upt_conv_Cons e Let_def)
qed

lemma read_edge_prefix:
  assumes "\<forall>n\<in>set ens. length (en_value n) = 32" "k \<le> length ens"
  shows "foldE (\<lambda>i res.
          bindE (slice (edge_nodes_to_bytes ens) (i * 40) (i * 40 + 8)) (\<lambda>p.
          bindE (read_u64 p) (\<lambda>pos.
          bindE (slice (edge_nodes_to_bytes ens) (i * 40 + 8) ((i + 1) * 40)) (\<lambda>v.
            Inr (res @ [\<lparr>en_pos = pos, en_value = v\<rparr>]))))) [0..<k] [] = Inr (take k ens)"
  using assms(2)
proof (induction k)
  case (Suc k)
  let ?f = "\<lambda>n. u64_le (en_pos n) @ en_value n"
  have len: "length (concat (map ?f (take k ens))) = k * 40" if "k \<le> length ens" for k
    using assms(1) that
  proof (induction ens arbitrary: k)
    case (Cons e ens)
    then show ?case by (cases k) simp_all
  qed simp
  have e: "edge_nodes_to_bytes ens = concat (map ?f (take k ens)) @ u64_le (en_pos (ens ! k)) @ en_value (ens ! k)
      @ concat (map ?f (drop (Suc k) ens))"
    using Suc.prems by (subst id_take_nth_drop [of k ens]) (simp_all add: edge_nodes_to_bytes_def)
  have v: "length (en_value (ens ! k)) = 32" using assms(1) Suc.prems by simp
  have p: "slice (edge_nodes_to_bytes ens) (k * 40) (k * 40 + 8) = Inr (u64_le (en_pos (ens ! k)))"
    using len [of k] Suc.prems unfolding e by (simp add: slice_def)
  have q: "slice (edge_nodes_to_bytes ens) (k * 40 + 8) ((k + 1) * 40) = Inr (en_value (ens ! k))"
    using len [of k] Suc.prems v unfolding e by (simp add: slice_def)
  show ?case
    using Suc p q read_u64_le [of "en_pos (ens ! k)" "[]"] by (simp add: take_Suc_conv_app_nth)
qed simp

lemma edge_nodes_roundtrip_eq:
  assumes "\<forall>n\<in>set ens. length (en_value n) = 32"
  shows "bytes_to_edge_nodes (edge_nodes_to_bytes ens) = Inr ens"
proof -
  have "length (edge_nodes_to_bytes ens) = length ens * 40"
    using assms by (induction ens) (simp_all add: edge_nodes_to_bytes_def)
  then show ?thesis using read_edge_prefix [OF assms, of "length ens"]
    by (simp add: bytes_to_edge_nodes_def Let_def)
qed

section \<open>Properties\<close>

text \<open>C4. Synchronising the nodes above the twigs: if the stored nodes were those of the Merkle
  tree over the old twig roots, up to the prune edge, and the list passed names the parents of
  every twig whose root changed or that is new, the youngest among them unless every twig that
  is not null is listed, then
  \<^verbatim>\<open>sync_upper_nodes\<close> succeeds, returns the root of the Merkle tree over the new twig roots,
  null roots beyond the youngest twig, and stores the nodes of that tree, also when the tree
  has grown by levels.\<close>

theorem sync_upper_nodes_root:
  assumes "get_init_data H = Inr D" "ut_ok u" "0 < y" "y < 2 ^ 51" "y0 \<le> y" "even lo" "lo \<le> y"
    and "upper_rep H u R0 lo y0" "roots_rep D u R lo y"
    and "\<forall>i\<in>set ns. lo div 2 \<le> i \<and> i \<le> y div 2"
      "y div 2 \<in> set ns \<or> (\<forall>t. R t \<noteq> twig_root (fst (snd D)) \<longrightarrow> t div 2 \<in> set ns)" "ns \<noteq> []"
    and "\<forall>t<y. R t \<noteq> R0 t \<or> y0 < t \<longrightarrow> t div 2 \<in> set ns"
  shows "\<exists>u' ms. sync_upper_nodes H D u ns y = Inr (u', ms, mnode H 12 R (bit_length y) 0)
    \<and> ut_ok u' \<and> ut_twigs u' = ut_twigs u \<and> upper_rep H u' R lo y"
  using sync_upper_nodes_rep [OF assms(1-6,8-13,7)] by blast

definition demo_upper :: "init_data \<Rightarrow> upper_tree" where
  "demo_upper D = (ut_new 0)\<lparr>ut_twigs := [Map.empty(0 \<mapsto> fst (snd D)), Map.empty(0 \<mapsto> fst (snd D)), Map.empty, Map.empty]\<rparr>"

lemma init_data_exists: "\<exists>D. get_init_data H = Inr D"
proof -
  obtain mt where mt: "create_null_mt_for_twig H = Inr mt" "length mt = 4096"
    using sync_mtree_full [of "replicate 2048 ZERO_HASH32 @ replicate 2048 (H (entry_payload null_of []))" H]
      null_entry_hash [of "replicate (ENTRY_BASE_LENGTH + 8) 0" H]
    by (auto simp: create_null_mt_for_twig_def layout_defs mt_of_def)
  obtain t where "create_null_twig H (mt ! 1) = Inr t" using create_null_twig_eq by blast
  with mt show ?thesis by (simp add: get_init_data_def)
qed

theorem sync_upper_nodes_root_witness:
  "\<exists>D u' ms. get_init_data toy_digest = Inr D
    \<and> sync_upper_nodes toy_digest D (demo_upper D) [0] 1 =
        Inr (u', ms, mnode toy_digest 12 (\<lambda>_. twig_root (fst (snd D))) (bit_length 1) 0)"
proof -
  obtain D where D: "get_init_data toy_digest = Inr D" using init_data_exists by blast
  let ?R = "\<lambda>_ :: nat. twig_root (fst (snd D))"
  have ok: "ut_ok (demo_upper D)" by (auto simp: ut_ok_def demo_upper_def ut_new_def layout_defs)
  have "tws.val (demo_upper D) t = (if t < 2 then Some (fst (snd D)) else None)" if "t < 3" for t
    using that by (auto simp: tws.val_def get_twig_def shard_get_def get_shard_idx_and_key_def demo_upper_def
        layout_defs index_def numeral_3_eq_3 numeral_2_eq_2 less_Suc_eq)
  moreover have "nd (demo_upper D) 12 2 = None"
    using nd_index [OF ok, of 12 2] by (simp add: demo_upper_def ut_new_def layout_defs)
  ultimately have "roots_rep D (demo_upper D) ?R 0 1"
    by (simp add: roots_rep_def root_val_def numeral_2_eq_2)
  moreover have "upper_rep toy_digest (demo_upper D) ?R 0 0"
    using calc_max_level_eq [of 0] by (simp add: upper_rep_def layout_defs)
  ultimately show ?thesis
    using sync_upper_nodes_root [OF D ok, of 1 0 0 ?R ?R "[0]"] D by auto
qed

text \<open>C30. Pruning: removing the nodes between two twig ids keeps the tree right of the new edge
  and returns the encoded edge nodes; decoding them gives, for the twig-root level and every
  level above, the node on the edge with the value of the Merkle tree, which is what recovery
  puts back.\<close>

theorem prune_nodes_keeps_edge:
  assumes "digest32 H" "ut_ok u" "0 < y" "y < 2 ^ 51" "lo \<le> stop" "stop \<le> y"
    and rep: "upper_rep H u R lo y" and stop: "nd u 12 stop = Some (R stop)" "length (R stop) = 32"
  shows "\<exists>u' bz. prune_nodes u start stop y = Inr (u', bz) \<and> ut_ok u' \<and> ut_twigs u' = ut_twigs u
    \<and> upper_rep H u' R stop y
    \<and> (\<forall>l n. 12 \<le> l \<longrightarrow> l \<le> calc_max_level y \<longrightarrow> start div 2 ^ (l - 12) \<le> n \<longrightarrow> n < edge_at stop l \<longrightarrow> nd u' l n = None)
    \<and> bytes_to_edge_nodes bz = Inr (map (\<lambda>l. \<lparr>en_pos = np_pos l (edge_at stop l),
          en_value = mnode H 12 R (l - 12) (edge_at stop l)\<rparr>) [12..<calc_max_level y + 1])"
proof -
  let ?m = "calc_max_level y"
  have m: "?m = 12 + bit_length y" "?m < 64"
    using calc_max_level_eq [of y] bit_length_le_iff [of y 51] assms(4) by (simp_all add: layout_defs)
  have b: "n < 2 ^ 56" if "n \<le> y + 1" for n using that assms(4) by simp
  have T: "TWIG_ROOT_LEVEL = 12" by (simp add: layout_defs)
  have e_le: "edge_at stop l \<le> stop div 2 ^ (l - 12)" "edge_at stop l \<le> y" for l
  proof -
    show "edge_at stop l \<le> stop div 2 ^ (l - 12)" by (simp add: edge_at_def end_back_at_def)
    moreover have "stop div 2 ^ (l - 12) \<le> stop" by simp
    ultimately show "edge_at stop l \<le> y" using assms(6) by linarith
  qed
  have mono: "edge_at lo l \<le> edge_at stop l" if "13 \<le> l" for l
    using assms(5) that by (simp add: edge_at_eq div_le_mono)
  have s55: "stop \<le> 2 ^ 55" using assms(4,6) by simp
  obtain u1 where u1: "remove_useless_nodes u start stop ?m = Inr u1" "ut_ok u1" "ut_twigs u1 = ut_twigs u"
    "\<forall>l n. l < 64 \<longrightarrow> n < 2 ^ 56 \<longrightarrow> nd u1 l n =
      (if 12 \<le> l \<and> l < ?m + 1 \<and> start div 2 ^ (l - 12) - 1 \<le> n \<and> n < edge_at stop l then None else nd u l n)"
    using remove_useless_from_eq [OF assms(2) _ _ s55, of 12 "?m + 1" start start stop] m
    unfolding remove_useless_nodes_def T by auto
  have kept: "nd u1 l n = nd u l n" if "l \<le> ?m" "n \<le> y + 1" "edge_at stop l \<le> n" for l n
    using u1(4) b [OF that(2)] that m(2) by simp
  have rep': "upper_rep H u1 R stop y"
    unfolding upper_rep_def
  proof (intro allI impI)
    fix l n assume l: "13 \<le> l" "l \<le> ?m" and n: "edge_at stop l \<le> n" "n \<le> y div 2 ^ (l - 12) + 1"
    have "y div 2 ^ (l - 12) \<le> y" by simp
    then have "n \<le> y + 1" using n(2) by linarith
    then have "nd u1 l n = nd u l n" using kept l n by simp
    then show "nd u1 l n = Some (mnode H 12 R (l - 12) n)"
      using rep l n mono [OF l(1)] by (simp add: upper_rep_def)
  qed
  have edge: "nd u1 l (edge_at stop l) = Some (mnode H 12 R (l - 12) (edge_at stop l))" if "12 \<le> l" "l < ?m + 1" for l
  proof (cases "l = 12")
    case True
    then have "edge_at stop l = stop" by (simp add: edge_at_def end_back_at_def T)
    then show ?thesis using kept [of l stop] assms(6) stop(1) True that by simp
  next
    case False
    have "stop div 2 ^ (l - 12) \<le> y div 2 ^ (l - 12)" using assms(6) by (rule div_le_mono)
    then show ?thesis using rep' that False e_le(1) [of l] by (auto simp: upper_rep_def)
  qed
  let ?ens = "map (\<lambda>l. \<lparr>en_pos = np_pos l (edge_at stop l), en_value = mnode H 12 R (l - 12) (edge_at stop l)\<rparr>) [12..<?m + 1]"
  have s56: "stop < 2 ^ 56" using b assms(6) by simp
  have ens: "get_edge_nodes u1 stop ?m = Inr ?ens"
    unfolding get_edge_nodes_def T by (rule edge_nodes_from_eq [OF u1(2) _ _ _ s56]) (use edge m in auto)
  have "\<forall>n\<in>set ?ens. length (en_value n) = 32"
  proof
    fix n assume "n \<in> set ?ens"
    then obtain l where l: "12 \<le> l" "n = \<lparr>en_pos = np_pos l (edge_at stop l), en_value = mnode H 12 R (l - 12) (edge_at stop l)\<rparr>"
      by auto
    show "length (en_value n) = 32"
    proof (cases "l - 12")
      case 0
      then have "edge_at stop l = stop" using l(1) by (simp add: edge_at_def end_back_at_def T)
      then show ?thesis using l 0 stop(2) by simp
    next
      case (Suc k)
      then show ?thesis using l assms(1) by (simp add: digest32_hash2)
    qed
  qed
  then have "bytes_to_edge_nodes (edge_nodes_to_bytes ?ens) = Inr ?ens" by (rule edge_nodes_roundtrip_eq)
  moreover have "prune_nodes u start stop y = Inr (u1, edge_nodes_to_bytes ?ens)"
    using u1(1) ens by (simp add: prune_nodes_def Let_def)
  moreover have "nd u1 l n = None" if "12 \<le> l" "l \<le> ?m" "start div 2 ^ (l - 12) \<le> n" "n < edge_at stop l" for l n
  proof -
    have "start div 2 ^ (l - 12) - 1 \<le> n" using that(3) by linarith
    then show ?thesis using u1(4) b [of n] e_le(2) [of l] that m(2) by simp
  qed
  ultimately show ?thesis using u1(2,3) rep' by blast
qed

definition demo_full_upper :: upper_tree where
  "demo_full_upper = \<lparr>ut_shard_id = 0,
     ut_nodes = map (\<lambda>l. replicate 4 (\<lambda>p. Some (mnode toy_digest 12 (\<lambda>_. ZERO_HASH32) (l - 12) (np_nth p)))) [0..<64],
     ut_twigs = replicate 4 Map.empty\<rparr>"

lemma demo_full_upper:
  "ut_ok demo_full_upper"
  "l < 64 \<Longrightarrow> n < 2 ^ 56 \<Longrightarrow> nd demo_full_upper l n = Some (mnode toy_digest 12 (\<lambda>_. ZERO_HASH32) (l - 12) n)"
proof -
  show ok: "ut_ok demo_full_upper" by (auto simp: ut_ok_def demo_full_upper_def layout_defs simp del: upt_rec_numeral)
  show "nd demo_full_upper l n = Some (mnode toy_digest 12 (\<lambda>_. ZERO_HASH32) (l - 12) n)" if "l < 64" "n < 2 ^ 56"
    using nd_index [OF ok that] that by (simp add: demo_full_upper_def layout_defs del: upt_rec_numeral)
qed

theorem prune_nodes_keeps_edge_witness:
  "\<exists>u' bz. prune_nodes demo_full_upper 0 2 5 = Inr (u', bz) \<and> nd u' 13 0 = nd demo_full_upper 13 0
    \<and> nd u' 12 1 = None"
proof -
  let ?R = "\<lambda>_ :: nat. ZERO_HASH32"
  have "calc_max_level 5 = 12 + bit_length 5" using calc_max_level_eq [of 5] by (simp add: layout_defs)
  moreover have "bit_length 5 \<le> 3" using bit_length_le_iff [of 5 3] by simp
  moreover have "\<not> bit_length 5 \<le> 0" using bit_length_le_iff [of 5 0] by simp
  ultimately have m: "13 \<le> calc_max_level 5" "calc_max_level 5 < 64" by simp_all
  have small: "n < 2 ^ 56" if "n \<le> 5 div 2 ^ k + 1" for n k :: nat
  proof -
    have "5 div 2 ^ k \<le> (5::nat)" by simp
    then have "n \<le> 6" using that by linarith
    then show ?thesis by simp
  qed
  have rep: "upper_rep toy_digest demo_full_upper ?R 0 5"
    using demo_full_upper(2) m small by (simp add: upper_rep_def)
  have "nd demo_full_upper 12 2 = Some (?R 2)" using demo_full_upper(2) [of 12 2] by simp
  from prune_nodes_keeps_edge [OF digest32_toy demo_full_upper(1) _ _ _ _ rep this, of 0]
  obtain u' bz where u': "prune_nodes demo_full_upper 0 2 5 = Inr (u', bz)" "upper_rep toy_digest u' ?R 2 5"
    "\<forall>l n. 12 \<le> l \<longrightarrow> l \<le> calc_max_level 5 \<longrightarrow> 0 div 2 ^ (l - 12) \<le> n \<longrightarrow> n < edge_at 2 l \<longrightarrow> nd u' l n = None" by auto
  have "edge_at 2 13 = 0" "edge_at 2 12 = 2" by (simp_all add: edge_at_def end_back_at_def layout_defs)
  then have "nd u' 13 0 = nd demo_full_upper 13 0" "nd u' 12 1 = None"
    using u'(2,3) m demo_full_upper(2) [of 13 0] by (simp_all add: upper_rep_def)
  then show ?thesis using u'(1) by blast
qed

end
