(* ===== verification/EntryFile.thy ===== *)
theory EntryFile
  imports Entry HPFile
begin

text \<open>
  \<^verbatim>\<open>src/qmdb/src/entryfile/entryfile.rs\<close>: the log of serialised entries in a head-prunable
  file, its optional cipher, and the two readers: by position, and scanning through a
  pre-reader. The authenticated cipher is a parameter, a record of two functions; the properties
  below are about files without a cipher.
\<close>

section \<open>Model\<close>

definition TAG_SIZE :: nat where [layout_defs]: "TAG_SIZE = 16"
definition NONCE_SIZE :: nat where [layout_defs]: "NONCE_SIZE = 12"

record cipher =
  encrypt_detached :: "bytes \<Rightarrow> bytes \<Rightarrow> (bytes \<times> bytes) option"
  decrypt_detached :: "bytes \<Rightarrow> bytes \<Rightarrow> bytes \<Rightarrow> bytes option"

definition nonce_of :: "nat \<Rightarrow> bytes" where
  "nonce_of n = u64_le (word_of_nat n) @ replicate (NONCE_SIZE - 8) 0"

definition decrypt :: "cipher option \<Rightarrow> nat \<Rightarrow> bytes \<Rightarrow> bytes result" where
  "decrypt c nonce bz = (case c of None \<Rightarrow> Inr bz | Some c \<Rightarrow>
     if length bz < TAG_SIZE then Inl (Panic ''range start index out of range'')
     else
      (let tag = drop (length bz - TAG_SIZE) bz in
       bindE (payload_len bz) (\<lambda>pl.
       bindE (slice bz 5 pl) (\<lambda>enc.
       bindE (unwrap ''aead::Error'' (decrypt_detached c (nonce_of nonce) enc tag)) (\<lambda>dec.
         write_at bz 5 dec)))))"

definition ef_append :: "cipher option \<Rightarrow> hp_state \<Rightarrow> bytes \<Rightarrow> (nat \<times> hp_state) result" where
  "ef_append c s e = (case c of None \<Rightarrow> hp_app s e | Some c \<Rightarrow>
     bindE (payload_len e) (\<lambda>pl.
     bindE (slice e 5 pl) (\<lambda>bz.
     bindE (unwrap ''aead::Error'' (encrypt_detached c (nonce_of (hp_file_size (fst s))) bz)) (\<lambda>(enc, tag).
     bindE (write_at e 5 enc) (\<lambda>tmp.
     if length tmp < TAG_SIZE then Inl (Panic ''range start index out of range'')
     else bindE (write_at tmp (length tmp - TAG_SIZE) tag) (\<lambda>tmp. hp_app s tmp))))))"

text \<open>Returns the entry's size and the new content of the caller's buffer; a size larger than
  the buffer means that it must be read again.\<close>

definition read_entry :: "cipher option \<Rightarrow> hpfile \<Rightarrow> nat \<Rightarrow> bytes \<Rightarrow> (nat \<times> bytes) result" where
  "read_entry c hp off buf =
     (let off = off mod 2 ^ 51; len = length buf in
      bindE (read_into hp buf off) (\<lambda>(_, buf).
      bindE (slice buf 0 5) (\<lambda>h.
      bindE (get_entry_len h) (\<lambda>sz.
      if len < sz then Inr (sz, buf)
      else
        bindE (decrypt c off (take sz buf)) (\<lambda>d.
        let buf = d @ drop sz buf in
        if c \<noteq> None then
          (if sz < TAG_SIZE then Inl (Panic ''range start index out of range'')
           else Inr (sz, take (sz - TAG_SIZE) buf @ replicate (length buf - (sz - TAG_SIZE)) 0))
        else Inr (sz, buf))))))"

text \<open>\<^verbatim>\<open>read_at_with_pre_reader\<close> grows the vector to the bytes asked for and fills its front.\<close>

definition fill_front :: "hpfile \<Rightarrow> bytes \<Rightarrow> nat \<Rightarrow> nat \<Rightarrow> pre_reader \<Rightarrow> (nat \<times> bytes \<times> pre_reader) result" where
  "fill_front hp buf num_bytes off pr =
     (let buf = (if length buf < num_bytes then buf @ replicate (num_bytes - length buf) 0 else buf) in
      bindE (read_at_with_pre_reader hp num_bytes off pr) (\<lambda>(d, pr).
        Inr (length d, d @ drop (length d) buf, pr)))"

definition read_entry_with_pre_reader ::
  "cipher option \<Rightarrow> hpfile \<Rightarrow> nat \<Rightarrow> nat \<Rightarrow> bytes \<Rightarrow> pre_reader \<Rightarrow> (nat \<times> bytes \<times> pre_reader) result" where
  "read_entry_with_pre_reader c hp off fin buf pr =
     (let off = off mod 2 ^ 51 in
      bindE (fill_front hp buf 5 off pr) (\<lambda>(_, buf, pr).
      bindE (slice buf 0 5) (\<lambda>h.
      bindE (get_entry_len h) (\<lambda>sz.
      if fin < off + sz then Inr (0, buf, pr)
      else
       (let buf = (if length buf < sz then buf @ replicate (sz - length buf) 0 else buf) in
        bindE (fill_front hp buf sz off pr) (\<lambda>(res, buf, pr).
        bindE (slice buf 0 sz) (\<lambda>f.
        bindE (decrypt c off f) (\<lambda>d. Inr (res, d @ drop sz buf, pr)))))))))"

lemma fill_front_length:
  "fill_front hp buf n off pr = Inr (k, buf', pr') \<Longrightarrow> length buf \<le> length buf' \<and> n \<le> length buf'"
  by (auto simp: fill_front_def Let_def split: if_splits)

lemma decrypt_length: "decrypt c off bz = Inr d \<Longrightarrow> length d = length bz"
  by (auto simp: decrypt_def Let_def res_simps split: option.splits if_splits)

lemma read_entry_with_pre_reader_grows:
  assumes "read_entry_with_pre_reader c hp off fin buf pr = Inr (n, buf', pr')"
  shows "5 \<le> length buf'"
proof -
  obtain k b1 pr1 where b1: "fill_front hp buf 5 (off mod 2 ^ 51) pr = Inr (k, b1, pr1)"
    using assms by (auto simp: read_entry_with_pre_reader_def Let_def)
  then have "5 \<le> length b1" by (simp add: fill_front_length)
  then show ?thesis using assms b1
    by (auto simp: read_entry_with_pre_reader_def Let_def res_simps split: if_splits
        dest!: decrypt_length fill_front_length)
qed

text \<open>The loop of \<^verbatim>\<open>scan_entries_lite\<close>: the list of what it hands to \<^verbatim>\<open>access\<close>. The buffer is
  kept between entries and the position advances by its length.\<close>

type_synonym visit = "bytes \<times> bytes \<times> nat \<times> u64"

function scan_lite_from ::
  "hashfun \<Rightarrow> cipher option \<Rightarrow> hpfile \<Rightarrow> nat \<Rightarrow> nat \<Rightarrow> bytes \<Rightarrow> pre_reader \<Rightarrow> visit list result" where
  "scan_lite_from H c hp sz pos buf pr =
     (if pos < sz then
        bindE (read_entry_with_pre_reader c hp pos sz buf pr) (\<lambda>(read_len, buf, pr).
        if read_len = 0 then Inl (Panic ''Met file end'')
        else
          bindE (ebz_key_hash H buf) (\<lambda>kh.
          bindE (ebz_next_key_hash buf) (\<lambda>nkh.
          bindE (ebz_serial_number buf) (\<lambda>sn.
          bindE (scan_lite_from H c hp sz (pos + length buf) buf pr) (\<lambda>vs.
            Inr ((kh, nkh, pos, sn) # vs))))))
      else Inr [])"
  by pat_completeness auto
termination
  by (relation "measure (\<lambda>(H, c, hp, sz, pos, buf, pr). sz - pos)")
    (auto dest!: read_entry_with_pre_reader_grows)

declare scan_lite_from.simps [simp del]

definition scan_entries_lite :: "hashfun \<Rightarrow> cipher option \<Rightarrow> hpfile \<Rightarrow> nat \<Rightarrow> visit list result" where
  "scan_entries_lite H c hp start_pos = scan_lite_from H c hp (hp_file_size hp) start_pos [] pr_new"

section \<open>Reading through the pre-reader\<close>

text \<open>What the pre-reader caches is what the file holds.\<close>

definition pr_ok :: "hpfile \<Rightarrow> pre_reader \<Rightarrow> bool" where
  "pr_ok hp pr \<longleftrightarrow> length (pr_buffer pr) = PRE_READ_BUF_SIZE
     \<and> (pr_start pr < pr_end pr \<longrightarrow> pr_end pr - pr_start pr \<le> PRE_READ_BUF_SIZE
        \<and> (\<exists>d. hp_disk hp (pr_file_id pr) = Some d \<and> pr_end pr \<le> length d
             \<and> take (pr_end pr - pr_start pr) (pr_buffer pr) = take (pr_end pr - pr_start pr) (drop (pr_start pr) d)))"

lemma pr_ok_new: "pr_ok hp pr_new"
  by (simp add: pr_ok_def pr_new_def)

lemma take_drop_of_take_eq:
  assumes "take m b = take m (drop s d)" "o1 + n \<le> m"
  shows "take n (drop o1 b) = take n (drop (s + o1) d)"
proof -
  have "take n (drop o1 (take m b)) = take n (drop o1 (take m (drop s d)))" using assms(1) by simp
  moreover have "min n (m - o1) = n" using assms(2) by simp
  ultimately show ?thesis by (simp add: drop_take add.commute)
qed

lemma pr_try_read_ok:
  assumes "pr_ok hp pr" "0 < n" "hp_disk hp i = Some d" "pr_try_read pr i p n = Inr (Some x)"
  shows "x = take n (drop p d)"
proof -
  have h: "i = pr_file_id pr" "pr_start pr \<le> p" "p + n \<le> pr_end pr" and
    x: "x = take n (drop (p - pr_start pr) (pr_buffer pr))"
    using assms(4) by (auto simp: pr_try_read_def Let_def res_simps split: if_splits)
  then have "take (pr_end pr - pr_start pr) (pr_buffer pr) = take (pr_end pr - pr_start pr) (drop (pr_start pr) d)"
    using assms(1-3) by (auto simp: pr_ok_def)
  from take_drop_of_take_eq [OF this, of "p - pr_start pr" n] h x show ?thesis by simp
qed

lemma pr_try_read_total:
  assumes "pr_ok hp pr" "0 < n"
  shows "pr_try_read pr i p n = (if i = pr_file_id pr \<and> pr_start pr \<le> p \<and> p + n \<le> pr_end pr
    then Inr (Some (take n (drop (p - pr_start pr) (pr_buffer pr)))) else Inr None)"
  using assms by (auto simp: pr_try_read_def Let_def pr_ok_def)

lemma read_at_aligned_ok:
  assumes "n \<le> 512" "0 < n" "p + n \<le> length f"
  shows "read_at_aligned f n p = Inr (take n (drop p f))"
proof -
  define o1 where "o1 = p mod IO_BLK_SIZE"
  have o1: "o1 < 512" "o1 \<le> p" by (simp_all add: o1_def IO_BLK_SIZE_def)
  define m where "m = (if o1 \<noteq> 0 then 2 * IO_BLK_SIZE else IO_BLK_SIZE)"
  have m: "o1 + n \<le> m" using o1 assms(1) by (simp add: m_def IO_BLK_SIZE_def)
  define rd where "rd = take m (drop (p - o1) f)"
  have len: "o1 + n \<le> length rd" using m assms(3) o1 by (simp add: rd_def)
  have "take n (drop o1 (rd @ replicate (m - length rd) 0)) = take n (drop o1 rd)" using len by simp
  also have "\<dots> = take n (drop p f)" using take_drop_of_take_eq [of m rd "p - o1" f o1 n] m o1 by (simp add: rd_def)
  finally have "slice (rd @ replicate (m - length rd) 0) o1 (o1 + n) = Inr (take n (drop p f))"
    using len by simp
  moreover have "\<not> 2 * IO_BLK_SIZE < n" using assms(1) by (simp add: IO_BLK_SIZE_def)
  moreover have "min (length rd) n = n" using len by simp
  ultimately show ?thesis
    unfolding read_at_aligned_def Let_def file_read_at_def o1_def [symmetric] m_def [symmetric] rd_def [symmetric]
    by (simp only: if_False)
qed

lemma read_at_with_pre_reader_ok:
  assumes inv: "hp_inv s" "snd s = []" and held: "hp_held s p bz" and n: "0 < length bz" "length bz \<le> 512"
    and pr: "pr_ok (fst s) pr"
  shows "\<exists>pr'. read_at_with_pre_reader (fst s) (length bz) p pr = Inr (bz, pr') \<and> pr_ok (fst s) pr'"
proof -
  let ?hp = "fst s" and ?n = "length bz"
  let ?seg = "hp_segment_size ?hp"
  let ?i = "p div ?seg" and ?q = "p mod ?seg"
  obtain d where d: "hp_open ?hp ?i" "hp_disk ?hp ?i = Some d" "?q + ?n \<le> length d" "take ?n (drop ?q d) = bz"
    using held inv(2) by (cases s) (auto simp: hp_held_def hp_content_def Let_def split: if_splits)
  have seg: "0 < ?seg" using inv(1) by (auto simp: hp_inv_def split: prod.splits)
  have f: "hp_file ?hp ?i = Inr d" using d by (simp add: hp_file_def)
  have big: "\<not> PRE_READ_BUF_SIZE \<le> ?n" using n by (simp add: PRE_READ_BUF_SIZE_def)
  note unf = read_at_with_pre_reader_def Let_def
  show ?thesis
  proof (cases "?i = pr_file_id pr \<and> pr_start pr \<le> ?q \<and> ?q + ?n \<le> pr_end pr")
    case True
    then have hit: "pr_try_read pr ?i ?q ?n = Inr (Some bz)"
      using pr_try_read_total [OF pr n(1)] pr_try_read_ok [OF pr n(1) d(2)] d(4) by (metis (no_types))
    show ?thesis using seg pr by (simp add: unf hit)
  next
    case False
    then have miss: "pr_try_read pr ?i ?q ?n = Inr None" using pr_try_read_total [OF pr n(1)] by simp
    show ?thesis
    proof (cases "?seg < ?q + ?n")
      case True
      then show ?thesis using seg pr read_at_aligned_ok [OF n(2,1) d(3)] d(4) big by (simp add: unf miss f)
    next
      case False
      define al where "al = ?q div IO_BLK_SIZE * IO_BLK_SIZE"
      have al: "al \<le> ?q" "?q < al + 512"
        using div_mult_mod_eq [of ?q IO_BLK_SIZE] mod_less_divisor [of IO_BLK_SIZE ?q] unfolding al_def
        by (simp_all add: IO_BLK_SIZE_def) 
      define fin where "fin = min (length (pr_buffer pr)) (?seg - al)"
      define data where "data = file_read_at d fin al"
      define pr' where "pr' = pr_fill_slice pr ?i al data"
      have bl: "length (pr_buffer pr) = PRE_READ_BUF_SIZE" using pr by (simp add: pr_ok_def)
      have fin: "?q + ?n \<le> al + fin" using al n False bl by (simp add: fin_def PRE_READ_BUF_SIZE_def)
      have dl: "length data = min (length d - al) fin" by (simp add: data_def file_read_at_def)
      then have cov: "?q + ?n \<le> al + length data" using fin d(3) al by simp
      have ldata: "length data \<le> PRE_READ_BUF_SIZE" using dl bl by (simp add: fin_def)
      have ok': "pr_ok ?hp pr'"
        using d(2) dl bl ldata cov n(1) al unfolding pr_ok_def pr'_def pr_fill_slice_def
        by (auto simp: data_def file_read_at_def)
      have "pr_try_read pr' ?i ?q ?n = Inr (Some bz)"
        using pr_try_read_total [OF ok' n(1), of ?i ?q] pr_try_read_ok [OF ok' n(1) d(2)] d(4) al cov
        by (auto simp: pr'_def pr_fill_slice_def)
      then have "read_at_with_pre_reader ?hp ?n p pr = Inr (bz, pr')"
        using seg False by (simp add: unf miss f big flip: al_def fin_def data_def pr'_def)
      then show ?thesis using ok' by blast
    qed
  qed
qed

lemma hp_held_take: "hp_held s p bz \<Longrightarrow> n \<le> length bz \<Longrightarrow> hp_held s p (take n bz)"
proof -
  assume h: "hp_held s p bz" and n: "n \<le> length bz"
  let ?c = "drop (p mod hp_segment_size (fst s)) (hp_content s (p div hp_segment_size (fst s)))"
  have "take (length bz) ?c = bz" using h by (simp add: hp_held_def Let_def)
  then have "take n (take (length bz) ?c) = take n bz" by simp
  then show ?thesis using h n by (simp add: hp_held_def Let_def min_def)
qed

lemma take5_layout: "take 5 (entry_layout e dsns) = entry_header e dsns"
  using entry_layout_split [of e dsns "[]"] by simp

lemma get_entry_len_header:
  assumes "entry_ok e dsns"
  shows "get_entry_len (entry_header e dsns) = Inr (length (entry_layout e dsns))"
  using assms length_entry_layout [of e dsns] get_kv_len_header [OF assms, of "[]"] header_nth(1) [of e dsns "[]"]
  by (simp add: get_entry_len_def entry_ok_simps get_serialized_len_def layout_defs ac_simps)

lemma layout_ge_5: "5 \<le> length (entry_layout e dsns)"
  using arg_cong [OF take5_layout [of e dsns], of length] by simp

text \<open>The buffer after a read: the entry in front, what was behind it before.\<close>

lemma read_entry_pr_ok:
  assumes inv: "hp_inv s" "snd s = []" and held: "hp_held s p bz" and bz: "bz = entry_layout e dsns" "entry_ok e dsns"
    and n: "length bz \<le> 512" and p: "p < 2 ^ 51" "p + length bz \<le> fin" and pr: "pr_ok (fst s) pr"
  shows "\<exists>pr'. read_entry_with_pre_reader None (fst s) p fin buf pr = Inr (length bz, bz @ drop (length bz) buf, pr')
    \<and> pr_ok (fst s) pr'"
proof -
  have l5: "5 \<le> length bz" using layout_ge_5 bz(1) by simp
  then have l0: "0 < length bz" by linarith
  have h5: "hp_held s p (take 5 bz)" using hp_held_take [OF held l5] .
  have len5: "length (take 5 bz) = 5" using l5 by simp
  obtain pr1 where pr1: "read_at_with_pre_reader (fst s) 5 p pr = Inr (take 5 bz, pr1)" "pr_ok (fst s) pr1"
    using read_at_with_pre_reader_ok [OF inv h5 _ _ pr] unfolding len5 by auto
  obtain pr2 where pr2: "read_at_with_pre_reader (fst s) (length bz) p pr1 = Inr (bz, pr2)" "pr_ok (fst s) pr2"
    using read_at_with_pre_reader_ok [OF inv held l0 n pr1(2)] by auto
  have off: "p mod 2 ^ 51 = p" using p(1) by simp
  define b1 where "b1 = take 5 bz @ drop 5 buf"
  have f1: "fill_front (fst s) buf 5 p pr = Inr (5, b1, pr1)"
    using pr1(1) l5 by (simp add: fill_front_def b1_def Let_def)
  have h: "slice b1 0 5 = Inr (take 5 bz)" using l5 by (simp add: b1_def)
  have sz: "get_entry_len (take 5 bz) = Inr (length bz)" using get_entry_len_header [OF bz(2)] by (simp add: bz(1) take5_layout)
  define b2 where "b2 = (if length b1 < length bz then b1 @ replicate (length bz - length b1) 0 else b1)"
  have d2: "drop (length bz) b2 = drop (length bz) buf" using l5 by (auto simp: b2_def b1_def)
  have f2: "fill_front (fst s) b2 (length bz) p pr1 = Inr (length bz, bz @ drop (length bz) buf, pr2)"
    using pr2(1) d2 by (auto simp: fill_front_def Let_def b2_def)
  have "read_entry_with_pre_reader None (fst s) p fin buf pr = Inr (length bz, bz @ drop (length bz) buf, pr2)"
    unfolding read_entry_with_pre_reader_def off
    using p(2) by (simp add: Let_def f1 h sz f2 decrypt_def flip: b2_def)
  then show ?thesis using pr2(2) by blast
qed

section \<open>Scanning\<close>

type_synonym logged = "entry \<times> u64 list"

definition logged_ok :: "logged \<Rightarrow> bool" where
  "logged_ok = (\<lambda>(e, dsns). entry_ok e dsns \<and> (e_value e = [] \<longrightarrow> 2 \<le> length (e_key e))
     \<and> length (entry_layout e dsns) \<le> 512)"

definition layout_of :: "logged \<Rightarrow> bytes" where
  "layout_of = (\<lambda>(e, dsns). entry_layout e dsns)"

definition key_hash_of :: "hashfun \<Rightarrow> entry \<Rightarrow> hash32" where
  "key_hash_of H e = (if e_value e = [] then e_key e ! 0 # e_key e ! 1 # replicate 30 0 else H (e_key e))"

fun visits :: "hashfun \<Rightarrow> nat \<Rightarrow> logged list \<Rightarrow> visit list" where
  "visits H p [] = []"
| "visits H p (x # xs) = (key_hash_of H (fst x), e_next_key_hash (fst x), p, e_serial_number (fst x))
     # visits H (p + length (layout_of x)) xs"

text \<open>One step of the scan: the entry is visited and the position advances by the length of
  the buffer, which never shrinks.\<close>

lemma scan_lite_step:
  assumes inv: "hp_inv s" "snd s = []" and held: "hp_held s p (layout_of x)" and x: "logged_ok x"
    and p: "p < 2 ^ 51" "p + length (layout_of x) \<le> fin" and pr: "pr_ok (fst s) pr"
  shows "\<exists>pr'. pr_ok (fst s) pr' \<and> scan_lite_from H None (fst s) fin p buf pr =
    bindE (scan_lite_from H None (fst s) fin (p + max (length (layout_of x)) (length buf))
        (layout_of x @ drop (length (layout_of x)) buf) pr')
      (\<lambda>vs. Inr ((key_hash_of H (fst x), e_next_key_hash (fst x), p, e_serial_number (fst x)) # vs))"
proof -
  obtain e d where ed: "x = (e, d)" by (cases x)
  let ?bz = "entry_layout e d"
  have ok: "entry_ok e d" "e_value e = [] \<longrightarrow> 2 \<le> length (e_key e)" "length ?bz \<le> 512"
    using x by (simp_all add: ed logged_ok_def)
  have l: "layout_of x = ?bz" by (simp add: ed layout_of_def)
  obtain pr' where rd: "read_entry_with_pre_reader None (fst s) p fin buf pr = Inr (length ?bz, ?bz @ drop (length ?bz) buf, pr')"
    "pr_ok (fst s) pr'"
    using read_entry_pr_ok [OF inv held l ok(1) _ p pr] ok(3) by (auto simp: l)
  have kh: "ebz_key_hash H (?bz @ drop (length ?bz) buf) = Inr (key_hash_of H e)"
    using ok by (auto simp: key_hash_of_def entry_reads)
  have lt: "p < fin" "length ?bz \<noteq> 0" using p(2) layout_ge_5 [of e d] l by auto
  have len: "length (?bz @ drop (length ?bz) buf) = max (length ?bz) (length buf)" by simp
  show ?thesis
    using rd lt by (intro exI [of _ pr'])
      (subst scan_lite_from.simps, simp add: kh entry_reads [OF ok(1)] layout_of_def len ed del: length_append)
qed

lemma length_layout_pos: "logged_ok x \<Longrightarrow> 0 < length (layout_of x)"
  using layout_ge_5 [of "fst x" "snd x"] by (cases x) (auto simp: layout_of_def)

lemma scan_lite_sorted:
  assumes inv: "hp_inv s" "snd s = []"
  shows "\<lbrakk>\<forall>i<length xs. hp_held s (p + length (concat (take i (map layout_of xs)))) (layout_of (xs ! i));
     \<forall>x\<in>set xs. logged_ok x; sorted (map (\<lambda>x. length (layout_of x)) xs);
     xs \<noteq> [] \<longrightarrow> length buf \<le> length (layout_of (hd xs));
     fin = p + length (concat (map layout_of xs)); fin \<le> 2 ^ 51; pr_ok (fst s) pr\<rbrakk> \<Longrightarrow>
   scan_lite_from H None (fst s) fin p buf pr = Inr (visits H p xs)"
proof (induction xs arbitrary: p buf pr)
  case Nil
  then show ?case by (simp add: scan_lite_from.simps)
next
  case (Cons x xs)
  let ?n = "length (layout_of x)"
  have n: "0 < ?n" using length_layout_pos Cons.prems(2) by simp
  have h: "hp_held s p (layout_of x)" using Cons.prems(1) by auto
  have fin: "p + ?n \<le> fin" using Cons.prems(5) by simp
  then have p: "p < 2 ^ 51" using Cons.prems(6) n by linarith
  from scan_lite_step [OF inv h _ p fin Cons.prems(7), of H buf] Cons.prems(2)
  obtain pr' where pr': "pr_ok (fst s) pr'" "scan_lite_from H None (fst s) fin p buf pr =
    bindE (scan_lite_from H None (fst s) fin (p + max ?n (length buf)) (layout_of x @ drop ?n buf) pr')
      (\<lambda>vs. Inr ((key_hash_of H (fst x), e_next_key_hash (fst x), p, e_serial_number (fst x)) # vs))" by auto
  have buf: "length buf \<le> ?n" using Cons.prems(4) by simp
  have "scan_lite_from H None (fst s) fin (p + ?n) (layout_of x) pr' = Inr (visits H (p + ?n) xs)"
  proof (rule Cons.IH)
    show "\<forall>i<length xs. hp_held s (p + ?n + length (concat (take i (map layout_of xs)))) (layout_of (xs ! i))"
      using Cons.prems(1) by (auto simp: add.assoc dest: spec [of _ "Suc _"])
    show "xs \<noteq> [] \<longrightarrow> length (layout_of x) \<le> length (layout_of (hd xs))" using Cons.prems(3) by (cases xs) auto
  qed (use Cons.prems pr'(1) in auto)
  then show ?case using pr'(2) buf by (simp add: max_def)
qed

text \<open>Entries logged in a fresh file, flushed.\<close>

lemma ef_append_None: "foldE (\<lambda>bz s. bindE (ef_append None s bz) (\<lambda>(_, s). Inr s)) = hp_append_all"
  by (simp add: hp_append_all_def ef_append_def)

lemma fresh_log:
  assumes "0 < wr" "0 < seg" "seg mod wr = 0" "\<forall>x\<in>set xs. length (layout_of x) \<le> wr"
  shows "\<exists>hp s. hp_new wr seg [] Map.empty = Inr hp
    \<and> bindE (foldE (\<lambda>bz s. bindE (ef_append None s bz) (\<lambda>(_, s). Inr s)) (map layout_of xs) (hp, [])) hp_flush_all = Inr s
    \<and> hp_inv s \<and> snd s = [] \<and> hp_file_size (fst s) = length (concat (map layout_of xs))
    \<and> (\<forall>i<length xs. hp_held s (0 + length (concat (take i (map layout_of xs)))) (layout_of (xs ! i)))"
proof -
  obtain hp where hp: "hp_new wr seg [] Map.empty = Inr hp" "hp_inv (hp, [])" "hp_file_size hp = 0"
    "hp_buffer_size hp = wr" using hp_new_fresh [OF assms(1-3)] by blast
  have "\<forall>x\<in>set (map layout_of xs). length x \<le> hp_buffer_size (fst (hp, []))" using assms(4) hp(4) by simp
  from hpf.app_all_ok [OF hp(2) this] obtain s1 where s1: "hp_append_all (map layout_of xs) (hp, []) = Inr s1" "hp_inv s1"
    "hp_file_size (fst s1) = length (concat (map layout_of xs))"
    "\<forall>i<length xs. hp_held s1 (length (concat (take i (map layout_of xs)))) (layout_of (xs ! i))"
    unfolding hp_append_all_eq hpf.pos_of_def by (auto simp: hp(3))
  obtain s2 where "hp_flush_all s1 = Inr s2" "hp_inv s2" "snd s2 = []" "hp_file_size (fst s2) = hp_file_size (fst s1)"
    "\<forall>p x. hp_held s1 p x \<longrightarrow> hp_held s2 p x" using hpf.flush_ok [OF s1(2)] by blast
  then show ?thesis using hp(1) s1 by (intro exI [of _ hp] exI [of _ s2]) (simp add: ef_append_None)
qed

section \<open>Properties\<close>

text \<open>The light scan of a log whose entries do not get shorter: on a fresh entry file, after
  any number of entries of at most 512 bytes in non-decreasing size were appended and flushed,
  \<^verbatim>\<open>scan_entries_lite\<close> from the start visits every entry once, in order, with its key hash, its
  next key hash, its position and its serial number, across segment files and through the
  pre-reader's cache.\<close>

theorem scan_entries_lite_complete:
  assumes "0 < wr" "0 < seg" "seg mod wr = 0" "512 \<le> wr"
    and "\<forall>x\<in>set xs. logged_ok x" "sorted (map (\<lambda>x. length (layout_of x)) xs)"
    and "length (concat (map layout_of xs)) \<le> 2 ^ 51"
  shows "\<exists>hp s. hp_new wr seg [] Map.empty = Inr hp
    \<and> bindE (foldE (\<lambda>bz s. bindE (ef_append None s bz) (\<lambda>(_, s). Inr s)) (map layout_of xs) (hp, [])) hp_flush_all = Inr s
    \<and> scan_entries_lite H None (fst s) 0 = Inr (visits H 0 xs)"
proof -
  have "\<forall>x\<in>set xs. length (layout_of x) \<le> wr"
    using assms(4,5) by (fastforce simp: logged_ok_def layout_of_def)
  from fresh_log [OF assms(1-3) this] obtain hp s where s: "hp_new wr seg [] Map.empty = Inr hp"
    "bindE (foldE (\<lambda>bz s. bindE (ef_append None s bz) (\<lambda>(_, s). Inr s)) (map layout_of xs) (hp, [])) hp_flush_all = Inr s"
    "hp_inv s" "snd s = []" "hp_file_size (fst s) = length (concat (map layout_of xs))"
    "\<forall>i<length xs. hp_held s (0 + length (concat (take i (map layout_of xs)))) (layout_of (xs ! i))" by blast
  have "scan_lite_from H None (fst s) (hp_file_size (fst s)) 0 [] pr_new = Inr (visits H 0 xs)"
    by (rule scan_lite_sorted [OF s(3,4,6) assms(5,6)]) (use s(5) assms(7) pr_ok_new in auto)
  then show ?thesis using s(1,2) unfolding scan_entries_lite_def by blast
qed

definition demo_log :: "logged list" where
  "demo_log = [(demo_entry, []), (demo_entry\<lparr>e_value := [], e_serial_number := 5\<rparr>, [3, 4])]"

lemma demo_log_ok: "\<forall>x\<in>set demo_log. logged_ok x" "map (\<lambda>x. length (layout_of x)) demo_log = [64, 72]"
proof -
  have ok: "entry_ok demo_entry []" "entry_ok (demo_entry\<lparr>e_value := [], e_serial_number := 5\<rparr>) [3, 4]"
    by (simp_all add: entry_ok_def demo_entry_def)
  have l: "length (entry_layout demo_entry []) = 64"
    "length (entry_layout (demo_entry\<lparr>e_value := [], e_serial_number := 5\<rparr>) [3, 4]) = 72"
    by (simp_all add: length_entry_layout demo_entry_def get_serialized_len_def layout_defs)
  show "\<forall>x\<in>set demo_log. logged_ok x" "map (\<lambda>x. length (layout_of x)) demo_log = [64, 72]"
    using ok l by (auto simp: demo_log_def logged_ok_def layout_of_def demo_entry_def)
qed

theorem scan_entries_lite_complete_witness:
  "\<exists>hp s. hp_new 512 1024 [] Map.empty = Inr hp
    \<and> bindE (foldE (\<lambda>bz s. bindE (ef_append None s bz) (\<lambda>(_, s). Inr s)) (map layout_of demo_log) (hp, [])) hp_flush_all = Inr s
    \<and> scan_entries_lite toy_digest None (fst s) 0 = Inr (visits toy_digest 0 demo_log)"
proof -
  have "length (concat (map layout_of demo_log)) = 136"
    using demo_log_ok(2) by (simp add: demo_log_def)
  then show ?thesis
    using scan_entries_lite_complete [of 512 1024 demo_log toy_digest] demo_log_ok by simp
qed

text \<open>The light scan loses entries that follow a long one: the buffer keeps the length of the
  longest entry read so far and the position advances by it, so when the entries behind the
  first two are together with the second no longer than the first, the scan of the whole log
  ends after two visits without an error.\<close>

theorem scan_entries_lite_skips:
  assumes "0 < wr" "0 < seg" "seg mod wr = 0" "512 \<le> wr"
    and xs: "\<forall>x\<in>set (a # b # zs). logged_ok x"
    and short: "length (layout_of b) + length (concat (map layout_of zs)) \<le> length (layout_of a)"
  shows "\<exists>hp s. hp_new wr seg [] Map.empty = Inr hp
    \<and> bindE (foldE (\<lambda>bz s. bindE (ef_append None s bz) (\<lambda>(_, s). Inr s)) (map layout_of (a # b # zs)) (hp, [])) hp_flush_all = Inr s
    \<and> scan_entries_lite H None (fst s) 0 = Inr (visits H 0 [a, b])"
proof -
  have le: "\<forall>x\<in>set (a # b # zs). length (layout_of x) \<le> 512"
    using xs by (fastforce simp: logged_ok_def layout_of_def)
  then have "\<forall>x\<in>set (a # b # zs). length (layout_of x) \<le> wr" using assms(4) by fastforce
  from fresh_log [OF assms(1-3) this] obtain hp s where s: "hp_new wr seg [] Map.empty = Inr hp"
    "bindE (foldE (\<lambda>bz s. bindE (ef_append None s bz) (\<lambda>(_, s). Inr s)) (map layout_of (a # b # zs)) (hp, [])) hp_flush_all = Inr s"
    "hp_inv s" "snd s = []" "hp_file_size (fst s) = length (concat (map layout_of (a # b # zs)))"
    "\<forall>i<length (a # b # zs). hp_held s (0 + length (concat (take i (map layout_of (a # b # zs))))) (layout_of ((a # b # zs) ! i))"
    by blast
  let ?a = "length (layout_of a)" and ?b = "length (layout_of b)" and ?n = "hp_file_size (fst s)"
  have a512: "?a \<le> 512" "?b \<le> 512" using le by simp_all
  have ha: "hp_held s 0 (layout_of a)" using s(6) by auto
  have hb: "hp_held s ?a (layout_of b)" using s(6) [rule_format, of 1] by simp
  have oka: "logged_ok a" and okb: "logged_ok b" using xs by simp_all
  obtain pr1 where pr1: "pr_ok (fst s) pr1" "scan_lite_from H None (fst s) ?n 0 [] pr_new =
    bindE (scan_lite_from H None (fst s) ?n ?a (layout_of a) pr1)
      (\<lambda>vs. Inr ((key_hash_of H (fst a), e_next_key_hash (fst a), 0, e_serial_number (fst a)) # vs))"
    using scan_lite_step [OF s(3,4) ha oka, of ?n pr_new H "[]"] pr_ok_new s(5) by auto
  have p: "?a < 2 ^ 51" "?a + ?b \<le> ?n" using a512 s(5) by simp_all
  obtain pr2 where pr2: "scan_lite_from H None (fst s) ?n ?a (layout_of a) pr1 =
    bindE (scan_lite_from H None (fst s) ?n (?a + max ?b ?a) (layout_of b @ drop ?b (layout_of a)) pr2)
      (\<lambda>vs. Inr ((key_hash_of H (fst b), e_next_key_hash (fst b), ?a, e_serial_number (fst b)) # vs))"
    using scan_lite_step [OF s(3,4) hb okb p pr1(1), of H "layout_of a"] by blast
  have "\<not> ?a + max ?b ?a < ?n" using s(5) short by simp
  then have "scan_lite_from H None (fst s) ?n (?a + max ?b ?a) (layout_of b @ drop ?b (layout_of a)) pr2 = Inr []"
    by (simp add: scan_lite_from.simps)
  then have "scan_entries_lite H None (fst s) 0 = Inr (visits H 0 [a, b])"
    using pr1(2) pr2 by (simp add: scan_entries_lite_def)
  then show ?thesis using s(1,2) by blast
qed

definition demo_long :: logged where
  "demo_long = (demo_entry\<lparr>e_value := replicate 200 1\<rparr>, [])"

theorem scan_entries_lite_skips_witness:
  "\<exists>hp s. hp_new 512 1024 [] Map.empty = Inr hp
    \<and> bindE (foldE (\<lambda>bz s. bindE (ef_append None s bz) (\<lambda>(_, s). Inr s))
        (map layout_of [demo_long, (demo_entry, []), (demo_entry, [])]) (hp, [])) hp_flush_all = Inr s
    \<and> scan_entries_lite toy_digest None (fst s) 0 = Inr (visits toy_digest 0 [demo_long, (demo_entry, [])])"
proof -
  have ok: "entry_ok (demo_entry\<lparr>e_value := replicate 200 1\<rparr>) []" "entry_ok demo_entry []"
    by (simp_all add: entry_ok_def demo_entry_def)
  have l: "length (entry_layout (demo_entry\<lparr>e_value := replicate 200 1\<rparr>) []) = 256"
    "length (entry_layout demo_entry []) = 64"
    by (simp_all add: length_entry_layout demo_entry_def get_serialized_len_def layout_defs)
  have "\<forall>x\<in>set [demo_long, (demo_entry, []), (demo_entry, [])]. logged_ok x"
    using ok l by (auto simp: logged_ok_def demo_long_def demo_entry_def)
  moreover have "length (layout_of (demo_entry, [])) + length (concat (map layout_of [(demo_entry, [])])) \<le> length (layout_of demo_long)"
    using l by (simp add: layout_of_def demo_long_def)
  ultimately show ?thesis
    using scan_entries_lite_skips [of 512 1024 demo_long "(demo_entry, [])" "[(demo_entry, [])]" toy_digest] by simp
qed

lemma hp_read_at_held:
  assumes "hp_inv s" "snd s = []" "hp_held s p bz"
  shows "\<exists>d. hp_read_at (fst s) n p = Inr d \<and> length d \<le> n \<and> min n (length bz) \<le> length d
    \<and> take (length bz) d = take n bz"
proof -
  let ?seg = "hp_segment_size (fst s)"
  obtain f where f: "hp_open (fst s) (p div ?seg)" "hp_disk (fst s) (p div ?seg) = Some f"
    "p mod ?seg + length bz \<le> length f" "take (length bz) (drop (p mod ?seg) f) = bz"
    using assms(2,3) by (cases s) (auto simp: hp_held_def hp_content_def Let_def split: if_splits)
  have seg: "0 < ?seg" using assms(1) by (auto simp: hp_inv_def split: prod.splits)
  let ?d = "take n (drop (p mod ?seg) f)"
  have "hp_read_at (fst s) n p = Inr ?d" using f seg by (simp add: hp_read_at_def hp_file_def file_read_at_def Let_def)
  moreover have "take (length bz) ?d = take n bz" using f(4) by (metis min.commute take_take)
  ultimately show ?thesis using f(3) by auto
qed

text \<open>C31. Reading an entry back by its position: an entry appended to the file gets the file's
  size as its position; after a flush, reading there into a buffer of at least five bytes
  reports the entry's size, and fills the front of the buffer with the entry whenever the buffer
  is large enough, so that at most one retry is needed.\<close>

theorem entry_file_read_back:
  assumes "hp_inv s" "entry_ok e dsns" "length (entry_layout e dsns) \<le> hp_buffer_size (fst s)"
    and "hp_file_size (fst s) < 2 ^ 51" "5 \<le> length buf"
  shows "\<exists>s1 s2 buf'. ef_append None s (entry_layout e dsns) = Inr (hp_file_size (fst s), s1)
    \<and> hp_flush_all s1 = Inr s2
    \<and> read_entry None (fst s2) (hp_file_size (fst s)) buf = Inr (length (entry_layout e dsns), buf')
    \<and> length buf' = length buf
    \<and> (length (entry_layout e dsns) \<le> length buf \<longrightarrow> take (length (entry_layout e dsns)) buf' = entry_layout e dsns)"
proof -
  let ?bz = "entry_layout e dsns" and ?p = "hp_file_size (fst s)"
  obtain s1 where s1: "hp_app s ?bz = Inr (?p, s1)" "hp_inv s1" "hp_held s1 ?p ?bz"
    using hpf.app_ok [OF assms(1,3)] by blast
  obtain s2 where s2: "hp_flush_all s1 = Inr s2" "hp_inv s2" "snd s2 = []" "hp_held s2 ?p ?bz"
    using hpf.flush_ok [OF s1(2)] s1(3) by blast
  obtain d where d: "hp_read_at (fst s2) (length buf) ?p = Inr d" "length d \<le> length buf"
    "min (length buf) (length ?bz) \<le> length d" "take (length ?bz) d = take (length buf) ?bz"
    using hp_read_at_held [OF s2(2-4)] by blast
  let ?b = "d @ drop (length d) buf"
  have l5: "5 \<le> length ?bz" by (rule layout_ge_5)
  have "take 5 d = take 5 (take (length ?bz) d)" using l5 by (simp add: min_def)
  also have "\<dots> = take 5 ?bz" using assms(5) by (simp add: d(4) min_def)
  finally have t5: "take 5 d = entry_header e dsns" by (simp add: take5_layout)
  have "5 \<le> length d" using d(3) assms(5) l5 by linarith
  then have h: "slice ?b 0 5 = Inr (entry_header e dsns)" using t5 d(2) assms(5) by simp
  have "read_entry None (fst s2) ?p buf = Inr (length ?bz, ?b)"
    using d(1) h get_entry_len_header [OF assms(2)] assms(4)
    by (simp add: read_entry_def read_into_def Let_def decrypt_def del: take_append drop_append)
  moreover have "take (length ?bz) ?b = ?bz" if "length ?bz \<le> length buf"
    using d(3,4) that by simp
  ultimately show ?thesis
    using s1(1) s2(1) d(2) by (intro exI [of _ s1] exI [of _ s2] exI [of _ ?b]) (simp add: ef_append_def)
qed

theorem entry_file_read_back_witness:
  "\<exists>hp s1 s2 buf'. hp_new 512 1024 [] Map.empty = Inr hp
    \<and> ef_append None (hp, []) (entry_layout demo_entry []) = Inr (0, s1) \<and> hp_flush_all s1 = Inr s2
    \<and> read_entry None (fst s2) 0 (replicate 100 0) = Inr (64, buf') \<and> take 64 buf' = entry_layout demo_entry []"
proof -
  obtain hp where hp: "hp_new 512 1024 [] Map.empty = Inr hp" "hp_inv (hp, [])" "hp_file_size hp = 0"
    "hp_buffer_size hp = 512" using hp_new_fresh [of 512 1024] by auto
  have ok: "entry_ok demo_entry []" by (simp add: entry_ok_def demo_entry_def)
  have l: "length (entry_layout demo_entry []) = 64"
    by (simp add: length_entry_layout demo_entry_def get_serialized_len_def layout_defs)
  have p: "hp_file_size (fst (hp, [])) < 2 ^ 51" "length (entry_layout demo_entry []) \<le> hp_buffer_size (fst (hp, []))"
    "5 \<le> length (replicate 100 (0::byte))" using hp(3,4) l by simp_all
  from entry_file_read_back [OF hp(2) ok p(2,1,3)] show ?thesis using hp(1,3) l by auto
qed

end
