(* ===== verification/Tree.thy ===== *)
theory Tree
  imports UpperTree TwigFile EntryFile "HOL-Library.AList"
begin

text \<open>
  The second half of \<^verbatim>\<open>src/qmdb/src/merkletree/tree.rs\<close>: the Merkle tree of one shard. It
  collects the changes of a block in the youngest twig's array and the active bits, writes
  full twigs to the twig file, and at the end of the block brings the twigs and the nodes
  above them up to date. \<^verbatim>\<open>new_twig_map\<close> is an association list; the order of its entries
  stands for the arbitrary order of the hash map. The writers are the file with its write
  buffer; \<^verbatim>\<open>temp_clone\<close> and the threads that flush them are sequential here.
\<close>

section \<open>Model: state\<close>

record tree =
  t_shard_id :: nat
  t_upper :: upper_tree
  t_new_twigs :: "(nat \<times> twig) list"
  t_entry :: hp_state
  t_twig :: hp_state
  t_youngest :: nat
  t_bits :: "(nat \<rightharpoonup> bytes) list"
  t_mt :: "hash32 list"
  t_chg_start :: int
  t_chg_end :: int
  t_touched :: "nat set"

definition NULL_MT :: "init_data \<Rightarrow> hash32 list" where "NULL_MT D = fst D"
definition NULL_TWIG :: "init_data \<Rightarrow> twig" where "NULL_TWIG D = fst (snd D)"
definition NULL_NODE :: "init_data \<Rightarrow> hash32 list" where "NULL_NODE D = snd (snd D)"

text \<open>The entry file and the twig file (the empty one without twig file) are opened by the
  caller.\<close>

definition tree_new_blank :: "init_data \<Rightarrow> nat \<Rightarrow> hpfile \<Rightarrow> hpfile \<Rightarrow> tree" where
  "tree_new_blank D shard_id ef tf = \<lparr>t_shard_id = shard_id, t_upper = ut_new shard_id, t_new_twigs = [],
     t_entry = (ef, []), t_twig = (tf, []), t_youngest = 0, t_bits = replicate TWIG_SHARD_COUNT Map.empty,
     t_mt = NULL_MT D, t_chg_start = - 1, t_chg_end = - 1, t_touched = {}\<rparr>"

definition tree_new :: "init_data \<Rightarrow> nat \<Rightarrow> hpfile \<Rightarrow> hpfile \<Rightarrow> tree result" where
  "tree_new D shard_id ef tf =
     (let t = tree_new_blank D shard_id ef tf in
      bindE (set_node (t_upper t) (np_pos FIRST_LEVEL_ABOVE_TWIG 0) (replicate 32 0)) (\<lambda>u.
      bindE (put_twig u 0 (Some (NULL_TWIG D))) (\<lambda>u.
      bindE (shard_put (t_bits t) 0 (Some ab_new)) (\<lambda>bits.
        Inr (t\<lparr>t_new_twigs := [(0, NULL_TWIG D)], t_upper := u, t_bits := bits\<rparr>)))))"

definition tree_close :: "tree \<Rightarrow> tree" where
  "tree_close t = t\<lparr>t_entry := (hp_close (fst (t_entry t)), snd (t_entry t)),
     t_twig := (hp_close (fst (t_twig t)), snd (t_twig t))\<rparr>"

definition get_file_sizes :: "tree \<Rightarrow> nat \<times> nat" where
  "get_file_sizes t = (hp_file_size (fst (t_entry t)), hp_file_size (fst (t_twig t)))"

definition truncate_files :: "tree \<Rightarrow> nat \<Rightarrow> nat \<Rightarrow> tree result" where
  "truncate_files t entry_file_size twig_file_size =
     bindE (hp_truncate (fst (t_entry t)) entry_file_size) (\<lambda>ef.
     bindE (hp_truncate (fst (t_twig t)) twig_file_size) (\<lambda>tf.
       Inr (t\<lparr>t_entry := (ef, snd (t_entry t)), t_twig := (tf, snd (t_twig t))\<rparr>)))"

section \<open>Model: active bits\<close>

definition get_active_bits :: "tree \<Rightarrow> nat \<Rightarrow> bytes result" where
  "get_active_bits t twig_id =
     bindE (shard_get (t_bits t) twig_id) (\<lambda>v. unwrap ''cannot find twig'' v)"

definition get_active_bit :: "tree \<Rightarrow> nat \<Rightarrow> bool result" where
  "get_active_bit t sn =
     bindE (get_active_bits t (drop_bit TWIG_SHIFT sn)) (\<lambda>ab. ab_get_bit ab (and sn TWIG_MASK))"

definition touch_pos :: "tree \<Rightarrow> nat \<Rightarrow> tree" where
  "touch_pos t sn = t\<lparr>t_touched := insert (sn div 512) (t_touched t)\<rparr>"

definition clear_touched_pos :: "tree \<Rightarrow> tree" where
  "clear_touched_pos t = t\<lparr>t_touched := {}\<rparr>"

definition set_entry_activiation :: "tree \<Rightarrow> nat \<Rightarrow> bool \<Rightarrow> tree result" where
  "set_entry_activiation t sn active =
     (let twig_id = drop_bit TWIG_SHIFT sn; pos = and sn TWIG_MASK in
      bindE (shard_get (t_bits t) twig_id) (\<lambda>v.
      bindE (unwrap ''unwrap on None'' v) (\<lambda>ab.
      bindE (if active then ab_set_bit ab pos else ab_clear_bit ab pos) (\<lambda>ab.
      bindE (shard_put (t_bits t) twig_id (Some ab)) (\<lambda>bits.
        Inr (touch_pos (t\<lparr>t_bits := bits\<rparr>) sn))))))"

definition active_entry :: "tree \<Rightarrow> nat \<Rightarrow> tree result" where
  "active_entry t sn = set_entry_activiation t sn True"

definition deactive_entry :: "tree \<Rightarrow> nat \<Rightarrow> tree result" where
  "deactive_entry t sn = set_entry_activiation t sn False"

section \<open>Model: the youngest twig\<close>

definition sync_mt_for_youngest_twig :: "hashfun \<Rightarrow> tree \<Rightarrow> bool \<Rightarrow> tree result" where
  "sync_mt_for_youngest_twig H t recover_mode =
     (if t_chg_start t = - 1 then Inr t
      else
        bindE (sync_mtree H (t_mt t) (nat (t_chg_start t)) (nat (t_chg_end t))) (\<lambda>mt.
        let t = t\<lparr>t_mt := mt, t_chg_start := - 1, t_chg_end := 0\<rparr> in
        bindE (index mt 1) (\<lambda>root.
        if recover_mode then
          bindE (get_twig (t_upper t) (t_youngest t)) (\<lambda>v.
          bindE (unwrap ''unwrap on None'' v) (\<lambda>yt.
          bindE (put_twig (t_upper t) (t_youngest t) (Some (yt\<lparr>left_root := root\<rparr>))) (\<lambda>u.
            Inr (t\<lparr>t_upper := u\<rparr>))))
        else
          bindE (unwrap ''unwrap on None'' (map_of (t_new_twigs t) (t_youngest t))) (\<lambda>yt.
            Inr (t\<lparr>t_new_twigs := AList.update (t_youngest t) (yt\<lparr>left_root := root\<rparr>) (t_new_twigs t)\<rparr>)))))"

definition load_mt_for_non_youngest_twig :: "hashfun \<Rightarrow> tree \<Rightarrow> nat \<Rightarrow> tree result" where
  "load_mt_for_non_youngest_twig H t twig_id =
     (if t_chg_start t = - 1 then Inr t
      else
       (let t = t\<lparr>t_chg_start := - 1, t_chg_end := 0\<rparr> in
        bindE (get_twig (t_upper t) (t_youngest t)) (\<lambda>v.
        bindE (unwrap ''unwrap on None'' v) (\<lambda>at.
        bindE (get_hash_root H (fst (t_twig t)) twig_id) (\<lambda>root.
        bindE (put_twig (t_upper t) (t_youngest t) (Some (at\<lparr>left_root := root\<rparr>))) (\<lambda>u.
          Inr (t\<lparr>t_upper := u\<rparr>)))))))"

text \<open>Writing a full twig and starting the next one, the last part of \<^verbatim>\<open>append_entry\<close>.\<close>

definition finish_twig :: "hashfun \<Rightarrow> checksum \<Rightarrow> init_data \<Rightarrow> tree \<Rightarrow> nat \<Rightarrow> nat \<Rightarrow> tree result" where
  "finish_twig H X D t sn end_pos =
     bindE (sync_mt_for_youngest_twig H t False) (\<lambda>t.
     bindE (append_twig X (t_twig t) (t_mt t) (word_of_nat end_pos)) (\<lambda>tw.
     let y = t_youngest t + 1 in
     bindE (shard_put (t_bits t) y (Some ab_new)) (\<lambda>bits.
       Inr (touch_pos (t\<lparr>t_twig := tw, t_youngest := y,
         t_new_twigs := AList.update y (NULL_TWIG D) (t_new_twigs t),
         t_bits := bits, t_mt := NULL_MT D\<rparr>) (sn + 1)))))"

definition append_entry ::
  "hashfun \<Rightarrow> checksum \<Rightarrow> cipher option \<Rightarrow> init_data \<Rightarrow> tree \<Rightarrow> bytes \<Rightarrow> (nat \<times> tree) result" where
  "append_entry H X c D t entry_bz =
     bindE (ebz_serial_number entry_bz) (\<lambda>snw.
     let sn = unat snw in
     bindE (active_entry t sn) (\<lambda>t.
     let t = t\<lparr>t_youngest := drop_bit TWIG_SHIFT sn\<rparr>; position = and sn TWIG_MASK in
     bindE (if t_chg_start t = - 1 then Inr (t\<lparr>t_chg_start := int position\<rparr>)
            else if t_chg_end t + 1 \<noteq> int position then Inl (Panic ''non-increasing position!'')
            else Inr t) (\<lambda>t.
     let t = t\<lparr>t_chg_end := int position\<rparr> in
     bindE (ef_append c (t_entry t) entry_bz) (\<lambda>(pos, es).
     bindE (ebz_hash H entry_bz) (\<lambda>h.
     bindE (index (t_mt t) (LEAF_COUNT_IN_TWIG + position)) (\<lambda>_.
     let t = t\<lparr>t_entry := es, t_mt := (t_mt t)[LEAF_COUNT_IN_TWIG + position := h]\<rparr> in
     bindE (if position = TWIG_MASK then finish_twig H X D t sn (pos + length entry_bz) else Inr t) (\<lambda>t.
       Inr (pos, t))))))))"

definition prune_twigs :: "tree \<Rightarrow> u64 \<Rightarrow> u64 \<Rightarrow> nat \<Rightarrow> tree result" where
  "prune_twigs t start_id end_id entry_file_size =
     (if unat (end_id - start_id) < MIN_PRUNE_COUNT then Inl (Panic ''The count of pruned twigs is too small'')
      else
        bindE (hp_prune_head (fst (t_entry t)) entry_file_size) (\<lambda>ef.
        bindE (hp_prune_head (fst (t_twig t)) (unat end_id * TWIG_SIZE)) (\<lambda>tf.
          Inr (t\<lparr>t_entry := (ef, snd (t_entry t)), t_twig := (tf, snd (t_twig t))\<rparr>))))"

section \<open>Model: the end of a block\<close>

definition sync_mt_for_active_bits_phase1 :: "hashfun \<Rightarrow> tree \<Rightarrow> (tree \<times> nat list) result" where
  "sync_mt_for_active_bits_phase1 H t =
     (let n_list = sorted_list_of_set (t_touched t) in
      bindE (for_twigs (\<lambda>i tw.
               bindE (shard_get (t_bits t) (drop_bit 2 i)) (\<lambda>v.
               bindE (unwrap ''unwrap on None'' v) (\<lambda>ab. sync_l1 H tw (and i 3) ab)))
             (\<lambda>i. drop_bit 2 i) n_list (ut_twigs (t_upper t))) (\<lambda>ts.
      Inr (t\<lparr>t_upper := (t_upper t)\<lparr>ut_twigs := ts\<rparr>\<rparr>, parent_list n_list)))"

definition flush_files :: "hashfun \<Rightarrow> tree \<Rightarrow> nat \<Rightarrow> nat \<Rightarrow> (tree \<times> nat list) result" where
  "flush_files H t twig_delete_start twig_delete_end =
     bindE (hp_flush_all (t_entry t)) (\<lambda>es.
     bindE (hp_flush_all (t_twig t)) (\<lambda>ts.
     let t = t\<lparr>t_entry := es, t_twig := ts\<rparr> in
     bindE (sync_mt_for_youngest_twig H t False) (\<lambda>t.
     bindE (unwrap ''unwrap on None'' (map_of (t_new_twigs t) (t_youngest t))) (\<lambda>yt.
     bindE (add_twigs (t_upper t) (t_new_twigs t)) (\<lambda>u.
     let t = t\<lparr>t_upper := u, t_new_twigs := [(t_youngest t, yt)]\<rparr> in
     bindE (sync_mt_for_active_bits_phase1 H t) (\<lambda>(t, n_list).
     bindE (foldE (\<lambda>twig_id bits. shard_put bits twig_id None) [twig_delete_start..<twig_delete_end] (t_bits t)) (\<lambda>bits.
       Inr (clear_touched_pos (t\<lparr>t_bits := bits\<rparr>), n_list))))))))"

section \<open>Model: proofs\<close>

text \<open>The loop over the levels between the twig roots and the root.\<close>

primrec upper_path_from :: "upper_tree \<Rightarrow> nat \<Rightarrow> nat \<Rightarrow> nat \<Rightarrow> proof_node list result" where
  "upper_path_from u level n 0 = Inr []"
| "upper_path_from u level n (Suc k) =
     bindE (get_node u (np_pos level n)) (\<lambda>s.
     bindE (unwrap ''Cannot find node'' s) (\<lambda>snode.
     bindE (get_node u (np_pos level (xor n 1))) (\<lambda>p.
     bindE (unwrap ''Cannot find node'' p) (\<lambda>pnode.
     bindE (upper_path_from u (level + 1) (drop_bit 1 n) k) (\<lambda>ns.
       Inr (\<lparr>self_hash = snode, peer_hash = pnode, peer_at_left = (and n 1 \<noteq> 0)\<rparr> # ns))))))"

definition get_upper_path_and_root :: "init_data \<Rightarrow> tree \<Rightarrow> nat \<Rightarrow> (proof_node list \<times> hash32) result" where
  "get_upper_path_and_root D t twig_id =
     (let max_level = calc_max_level (t_youngest t) in
      bindE (get_twig_root (t_upper t) (xor twig_id 1)) (\<lambda>p.
      let peer = (case p of Some v \<Rightarrow> v | None \<Rightarrow> twig_root (NULL_TWIG D)) in
      bindE (get_twig_root (t_upper t) twig_id) (\<lambda>s.
      case s of None \<Rightarrow> Inr ([], replicate 32 0)
      | Some self \<Rightarrow>
          bindE (upper_path_from (t_upper t) FIRST_LEVEL_ABOVE_TWIG (drop_bit 1 twig_id)
                   (max_level - FIRST_LEVEL_ABOVE_TWIG)) (\<lambda>ns.
          bindE (get_node (t_upper t) (np_pos max_level 0)) (\<lambda>r.
          bindE (unwrap ''cannot find node'' r) (\<lambda>root.
            Inr (\<lparr>self_hash = self, peer_hash = peer, peer_at_left = (and twig_id 1 \<noteq> 0)\<rparr> # ns, root)))))))"

definition get_proof :: "hashfun \<Rightarrow> init_data \<Rightarrow> tree \<Rightarrow> u64 \<Rightarrow> proof_path result" where
  "get_proof H D t snw =
     (let sn = unat snw; twig_id = drop_bit TWIG_SHIFT sn; path = pp_new\<lparr>serial_num := snw\<rparr> in
      if t_youngest t < twig_id then Inl (Err ''twig_id > self.youngest_twig_id'')
      else
        bindE (get_upper_path_and_root D t twig_id) (\<lambda>(upper, root).
        if upper = [] then Inl (Err ''Cannot find upper path'')
        else
          bindE (if twig_id = t_youngest t then get_left_path_in_mem (t_mt t) sn
                 else if hp_is_empty (fst (t_twig t)) then Inl (Err ''twig_file is empty'')
                 else get_left_path_on_disk H (fst (t_twig t)) twig_id sn) (\<lambda>left.
          bindE (get_twig (t_upper t) twig_id) (\<lambda>v.
          bindE (shard_get (t_bits t) twig_id) (\<lambda>b.
          let twig = (case v of Some x \<Rightarrow> x | None \<Rightarrow> NULL_TWIG D);
              active_bits = (case b of Some x \<Rightarrow> x | None \<Rightarrow> ab_new) in
          bindE (get_right_path twig active_bits sn) (\<lambda>right.
            Inr (path\<lparr>upper_path := upper, pp_root := root, left_of_twig := left, right_of_twig := right\<rparr>)))))))"

definition get_hash_by_node ::
  "hashfun \<Rightarrow> init_data \<Rightarrow> tree \<Rightarrow> nat \<Rightarrow> nat \<Rightarrow> node_cache \<Rightarrow> (hash32 \<times> node_cache) result" where
  "get_hash_by_node H D t level n_th cache =
     (let level_stride = (if level \<le> 12 then drop_bit level 4096 else 0);
          twig_id = (if level \<le> 12 then n_th div level_stride else 0) in
      if level \<le> 11 \<and> n_th mod level_stride < level_stride div 2 then
       (let idx = level_stride div 2 + n_th mod level_stride in
        if twig_id = t_youngest t then bindE (index (t_mt t) idx) (\<lambda>h. Inr (h, cache))
        else get_hash_node H (fst (t_twig t)) twig_id idx cache)
      else if 8 \<le> level \<and> level \<le> 11 then
        bindE (shard_get (t_bits t) twig_id) (\<lambda>b.
        let active_bits = (case b of Some x \<Rightarrow> x | None \<Rightarrow> ab_new);
            self_id = n_th mod level_stride - level_stride div 2 in
        if level = 8 then bindE (ab_get_bits active_bits self_id 32) (\<lambda>h. Inr (h, cache))
        else
          bindE (get_twig (t_upper t) twig_id) (\<lambda>v.
          let twig = (case v of Some x \<Rightarrow> x | None \<Rightarrow> NULL_TWIG D) in
          if level = 9 then bindE (index (active_bits_mtl1 twig) self_id) (\<lambda>h. Inr (h, cache))
          else if level = 10 then bindE (index (active_bits_mtl2 twig) self_id) (\<lambda>h. Inr (h, cache))
          else Inr (active_bits_mtl3 twig, cache)))
      else if level = 12 then
        bindE (get_twig_root (t_upper t) twig_id) (\<lambda>r.
          Inr (case r of Some v \<Rightarrow> v | None \<Rightarrow> twig_root (NULL_TWIG D), cache))
      else
        bindE (get_node (t_upper t) (np_pos level n_th)) (\<lambda>v. case v of Some h \<Rightarrow> Inr (h, cache)
        | None \<Rightarrow> bindE (index (NULL_NODE D) level) (\<lambda>h. Inr (h, cache))))"

definition get_hashes_by_pos_list :: "hashfun \<Rightarrow> init_data \<Rightarrow> tree \<Rightarrow> (nat \<times> nat) list \<Rightarrow> hash32 list result" where
  "get_hashes_by_pos_list H D t pos_list =
     bindE (foldE (\<lambda>(level, n_th) (hashes, cache).
        bindE (get_hash_by_node H D t level n_th cache) (\<lambda>(h, cache). Inr (hashes @ [h], cache)))
       pos_list ([], Map.empty)) (\<lambda>(hashes, _). Inr hashes)"

section \<open>Passing over the twigs\<close>

lemma shs_val: "length s = TWIG_SHARD_COUNT \<Longrightarrow> shs.val s t = (s ! (t mod TWIG_SHARD_COUNT)) (t div TWIG_SHARD_COUNT)"
  by (simp add: shs.val_def shard_get_def get_shard_idx_and_key_def layout_defs)

definition shard_step ::
  "(nat \<Rightarrow> twig \<Rightarrow> twig result) \<Rightarrow> (nat \<Rightarrow> nat) \<Rightarrow> nat \<Rightarrow> nat \<Rightarrow> (nat \<rightharpoonup> twig) list \<Rightarrow> (nat \<rightharpoonup> twig) list result" where
  "shard_step f tw sid = (\<lambda>i shards.
         let (s, k) = get_shard_idx_and_key (tw i) in
         if s \<noteq> sid then Inr shards
         else bindE (unwrap ''unwrap on None'' ((shards ! sid) k)) (\<lambda>t.
              bindE (f i t) (\<lambda>t. Inr (shards[sid := (shards ! sid)(k \<mapsto> t)]))))"

lemma for_twigs_eq:
  "for_twigs f tw ns s = foldE (\<lambda>sid. foldE (shard_step f tw sid) ns) [0..<length s] s"
  unfolding for_twigs_def shard_step_def ..

lemma for_shard:
  assumes "length s = TWIG_SHARD_COUNT" "sid < TWIG_SHARD_COUNT"
    and "\<And>t. t mod TWIG_SHARD_COUNT = sid \<Longrightarrow> t \<in> tw ` set ns \<Longrightarrow>
      shs.val s t = Some (x t) \<and> foldE f (filter (\<lambda>i. tw i = t) ns) (x t) = Inr (g t)"
  shows "\<exists>s'. foldE (shard_step f tw sid) ns s = Inr s' \<and> length s' = TWIG_SHARD_COUNT
    \<and> (\<forall>t. shs.val s' t = (if t mod TWIG_SHARD_COUNT = sid \<and> t \<in> tw ` set ns then Some (g t) else shs.val s t))"
  using assms(1,3)
proof (induction ns arbitrary: s x)
  case Nil
  then show ?case by simp
next
  case (Cons i ns)
  let ?t = "tw i"
  show ?case
  proof (cases "?t mod TWIG_SHARD_COUNT = sid")
    case False
    then have "shard_step f tw sid i s = Inr s" by (simp add: shard_step_def get_shard_idx_and_key_def)
    moreover have "\<exists>s'. foldE (shard_step f tw sid) ns s = Inr s' \<and> length s' = TWIG_SHARD_COUNT
        \<and> (\<forall>t. shs.val s' t = (if t mod TWIG_SHARD_COUNT = sid \<and> t \<in> tw ` set ns then Some (g t) else shs.val s t))"
    proof (rule Cons.IH [OF Cons.prems(1), of x])
      fix t assume t: "t mod TWIG_SHARD_COUNT = sid" "t \<in> tw ` set ns"
      then have "tw i \<noteq> t" using False by auto
      then show "shs.val s t = Some (x t) \<and> foldE f (filter (\<lambda>i. tw i = t) ns) (x t) = Inr (g t)"
        using Cons.prems(2) [OF t(1)] t(2) by simp
    qed
    ultimately show ?thesis using False by auto
  next
    case True
    have h: "shs.val s ?t = Some (x ?t)" "foldE f (i # filter (\<lambda>i. tw i = ?t) ns) (x ?t) = Inr (g ?t)"
      using Cons.prems(2) [OF True] by simp_all
    obtain x1 where x1: "f i (x ?t) = Inr x1" "foldE f (filter (\<lambda>i. tw i = ?t) ns) x1 = Inr (g ?t)"
      using h(2) by auto
    define s1 where "s1 = s[sid := (s ! sid)(?t div TWIG_SHARD_COUNT \<mapsto> x1)]"
    have "(s ! sid) (?t div TWIG_SHARD_COUNT) = Some (x ?t)" using h(1) shs_val [OF Cons.prems(1)] True by simp
    then have st: "shard_step f tw sid i s = Inr s1"
      using True x1(1) by (simp add: shard_step_def get_shard_idx_and_key_def s1_def)
    have len: "length s1 = TWIG_SHARD_COUNT" using Cons.prems(1) by (simp add: s1_def)
    have v1: "shs.val s1 t = (if t = ?t then Some x1 else shs.val s t)" for t
      using twig_key_eq [of t ?t] True assms(2) Cons.prems(1)
      unfolding shs_val [OF len] shs_val [OF Cons.prems(1)]
      by (auto simp: s1_def get_shard_idx_and_key_def nth_list_update)
    have "\<exists>s'. foldE (shard_step f tw sid) ns s1 = Inr s' \<and> length s' = TWIG_SHARD_COUNT
        \<and> (\<forall>t. shs.val s' t = (if t mod TWIG_SHARD_COUNT = sid \<and> t \<in> tw ` set ns then Some (g t) else shs.val s1 t))"
    proof (rule Cons.IH [OF len, of "x(?t := x1)"])
      fix t assume t: "t mod TWIG_SHARD_COUNT = sid" "t \<in> tw ` set ns"
      show "shs.val s1 t = Some ((x(?t := x1)) t) \<and> foldE f (filter (\<lambda>i. tw i = t) ns) ((x(?t := x1)) t) = Inr (g t)"
        using Cons.prems(2) [OF t(1)] t(2) v1 x1(2) by (cases "t = ?t") auto
    qed
    then obtain s' where s': "foldE (shard_step f tw sid) ns s1 = Inr s'" "length s' = TWIG_SHARD_COUNT"
      "\<forall>t. shs.val s' t = (if t mod TWIG_SHARD_COUNT = sid \<and> t \<in> tw ` set ns then Some (g t) else shs.val s1 t)" by blast
    have "g ?t = x1" if "?t \<notin> tw ` set ns"
    proof -
      have "filter (\<lambda>i. tw i = ?t) ns = []" using that unfolding filter_empty_conv by (metis imageI)
      then show ?thesis using x1(2) by simp
    qed
    then show ?thesis using st s' v1 True by (intro exI [of _ s']) auto
  qed
qed

lemma for_twigs_ok:
  assumes len: "length s = TWIG_SHARD_COUNT"
    and steps: "\<And>t. t \<in> tw ` set ns \<Longrightarrow> shs.val s t = Some (x t) \<and> foldE f (filter (\<lambda>i. tw i = t) ns) (x t) = Inr (g t)"
  shows "\<exists>s'. for_twigs f tw ns s = Inr s' \<and> length s' = TWIG_SHARD_COUNT
    \<and> (\<forall>t. shs.val s' t = (if t \<in> tw ` set ns then Some (g t) else shs.val s t))"
proof -
  have "n \<le> TWIG_SHARD_COUNT \<Longrightarrow> \<exists>s'. foldE (\<lambda>sid. foldE (shard_step f tw sid) ns) [0..<n] s = Inr s' \<and> length s' = TWIG_SHARD_COUNT
    \<and> (\<forall>t. shs.val s' t = (if t mod TWIG_SHARD_COUNT < n \<and> t \<in> tw ` set ns then Some (g t) else shs.val s t))" for n
  proof (induction n)
    case 0
    then show ?case using len by simp
  next
    case (Suc n)
    then obtain s1 where s1: "foldE (\<lambda>sid. foldE (shard_step f tw sid) ns) [0..<n] s = Inr s1" "length s1 = TWIG_SHARD_COUNT"
      "\<forall>t. shs.val s1 t = (if t mod TWIG_SHARD_COUNT < n \<and> t \<in> tw ` set ns then Some (g t) else shs.val s t)" by auto
    have "\<exists>s2. foldE (shard_step f tw n) ns s1 = Inr s2 \<and> length s2 = TWIG_SHARD_COUNT
      \<and> (\<forall>t. shs.val s2 t = (if t mod TWIG_SHARD_COUNT = n \<and> t \<in> tw ` set ns then Some (g t) else shs.val s1 t))"
      by (rule for_shard [OF s1(2), of n tw ns x f g]) (use Suc.prems steps s1(3) in auto)
    then show ?case using s1 by (auto simp: less_Suc_eq)
  qed
  from this [of TWIG_SHARD_COUNT] show ?thesis
    unfolding for_twigs_eq len by (simp add: layout_defs)
qed

text \<open>What a pass does to one twig: the listed cells of a level are recomputed from the level
  below.\<close>

definition l1_stage :: "hashfun \<Rightarrow> bytes \<Rightarrow> nat set \<Rightarrow> twig \<Rightarrow> twig" where
  "l1_stage H ab J x = x\<lparr>active_bits_mtl1 :=
     map (\<lambda>j. if j \<in> J then mnode H 8 (page ab) 1 j else active_bits_mtl1 x ! j) [0..<4]\<rparr>"

definition l2_stage :: "hashfun \<Rightarrow> nat set \<Rightarrow> twig \<Rightarrow> twig" where
  "l2_stage H J x = x\<lparr>active_bits_mtl2 := map (\<lambda>j. if j \<in> J
     then hash2 H 9 (active_bits_mtl1 x ! (2 * j)) (active_bits_mtl1 x ! (2 * j + 1)) else active_bits_mtl2 x ! j) [0..<2]\<rparr>"

definition top_stage :: "hashfun \<Rightarrow> twig \<Rightarrow> twig" where
  "top_stage H x = sync_top H (x\<lparr>active_bits_mtl3 := hash2 H 10 (active_bits_mtl2 x ! 0) (active_bits_mtl2 x ! 1)\<rparr>)"

lemma map_cells_update:
  assumes "length xs = n" "j < n"
  shows "(map (\<lambda>k. if k \<in> J then g k else xs ! k) [0..<n])[j := g j] = map (\<lambda>k. if k \<in> insert j J then g k else xs ! k) [0..<n]"
  using assms by (intro nth_equalityI) (auto simp: nth_list_update)

lemma l1_steps:
  assumes "length ab = 256" "length (active_bits_mtl1 x) = 4"
  shows "foldE (\<lambda>i tw. sync_l1 H tw (i mod 4) ab) is x = Inr (l1_stage H ab ((\<lambda>i. i mod 4) ` set is) x)"
proof (induction "is" rule: rev_induct)
  case Nil
  have "map (\<lambda>j. active_bits_mtl1 x ! j) [0..<4] = active_bits_mtl1 x"
    using assms(2) map_nth [of "active_bits_mtl1 x"] by simp
  then show ?case by (simp add: l1_stage_def del: upt_rec_numeral)
next
  case (snoc i "is")
  have "sync_l1 H (l1_stage H ab J x) (i mod 4) ab = Inr (l1_stage H ab (insert (i mod 4) J) x)" for J
    using sync_l1_eq [OF assms(1), of "i mod 4" H "l1_stage H ab J x"]
      map_cells_update [OF assms(2), of "i mod 4" J "mnode H 8 (page ab) 1"]
    by (simp add: l1_stage_def del: upt_rec_numeral mnode.simps)
  then show ?case using snoc by simp
qed

lemma l2_steps:
  assumes "length (active_bits_mtl1 x) = 4" "length (active_bits_mtl2 x) = 2"
  shows "foldE (\<lambda>i tw. sync_l2 H tw (i mod 2)) is x = Inr (l2_stage H ((\<lambda>i. i mod 2) ` set is) x)"
proof (induction "is" rule: rev_induct)
  case Nil
  have "map (\<lambda>j. active_bits_mtl2 x ! j) [0..<2] = active_bits_mtl2 x"
    using assms(2) map_nth [of "active_bits_mtl2 x"] by simp
  then show ?case by (simp add: l2_stage_def del: upt_rec_numeral)
next
  case (snoc i "is")
  let ?g = "\<lambda>j. hash2 H 9 (active_bits_mtl1 x ! (2 * j)) (active_bits_mtl1 x ! (2 * j + 1))"
  have "2 * (i mod 2) + 1 < 4" by (simp add: mod2_eq_if)
  then have "sync_l2 H (l2_stage H J x) (i mod 2) = Inr (l2_stage H (insert (i mod 2) J) x)" for J
    using map_cells_update [OF assms(2), of "i mod 2" J ?g] assms(1)
    by (simp add: l2_stage_def sync_l2_def node_hash_inplace_eq del: upt_rec_numeral)
  then show ?case using snoc by simp
qed

lemma top_steps:
  assumes "length (active_bits_mtl2 x) = 2" "is \<noteq> []"
  shows "foldE (\<lambda>i t. bindE (sync_l3 H t) (\<lambda>t. Inr (sync_top H t))) is x = Inr (top_stage H x)"
  using assms
proof (induction "is" arbitrary: x)
  case (Cons i "is")
  have s: "bindE (sync_l3 H x) (\<lambda>t. Inr (sync_top H t)) = Inr (top_stage H x)"
    using Cons.prems(1) by (simp add: sync_l3_def top_stage_def node_hash_inplace_eq)
  have "top_stage H (top_stage H x) = top_stage H x" "length (active_bits_mtl2 (top_stage H x)) = 2"
    using Cons.prems(1) by (simp_all add: top_stage_def sync_top_def)
  then show ?case using s Cons.IH [of "top_stage H x"] by (cases "is = []") auto
qed simp

text \<open>Recomputing the touched groups of 512 bits makes the whole tree over the bits right.\<close>

lemma stages_ok:
  assumes old: "twig_bits_ok H ob x"
    and same: "\<And>j. j < 4 \<Longrightarrow> j \<notin> J \<Longrightarrow> page ab (2 * j) = page ob (2 * j) \<and> page ab (2 * j + 1) = page ob (2 * j + 1)"
  shows "twig_ok H ab (top_stage H (l2_stage H ((\<lambda>j. j div 2) ` J) (l1_stage H ab J x)))"
    "left_root (top_stage H (l2_stage H K (l1_stage H ab J x))) = left_root x"
proof -
  note nth = twig_bits_nth [OF old]
  let ?m = "mnode H 8 (page ab)"
  have m1: "mnode H 8 (page ob) 1 j = ?m 1 j" if "j < 4" "j \<notin> J" for j
    using same [OF that] by simp
  have l1: "active_bits_mtl1 (l1_stage H ab J x) = map (?m 1) [0..<4]"
    using nth(2) m1 by (auto simp: l1_stage_def intro!: map_cong simp del: upt_rec_numeral mnode.simps)
  have up: "?m 2 j = hash2 H 9 (?m 1 (2 * j)) (?m 1 (2 * j + 1))" for j
    by (simp add: numeral_2_eq_2)
  have m2: "mnode H 8 (page ob) 2 j = ?m 2 j" if "j < 2" "j \<notin> (\<lambda>j. j div 2) ` J" for j
  proof -
    have "2 * j \<notin> J" "2 * j + 1 \<notin> J" using that(2) by force+
    then have "mnode H 8 (page ob) 1 (2 * j) = ?m 1 (2 * j)" "mnode H 8 (page ob) 1 (2 * j + 1) = ?m 1 (2 * j + 1)"
      using m1 that(1) by (simp_all del: mnode.simps)
    then show ?thesis by (simp add: numeral_2_eq_2)
  qed
  have l2: "active_bits_mtl2 (l2_stage H ((\<lambda>j. j div 2) ` J) (l1_stage H ab J x)) = map (?m 2) [0..<2]"
    unfolding l2_stage_def l1
    using nth(4) m2 up by (auto simp: l1_stage_def intro!: map_cong simp del: upt_rec_numeral mnode.simps)
  have e4: "[0, 1, 2, 3] = [0..<4]" "[0, 1] = [0..<2]" by (simp_all add: upt_rec)
  let ?y = "l2_stage H ((\<lambda>j. j div 2) ` J) (l1_stage H ab J x)"
  have up3: "?m 3 0 = hash2 H 10 (?m 2 0) (?m 2 1)" by (simp add: numeral_3_eq_3 numeral_2_eq_2)
  have f: "active_bits_mtl1 ?y = map (?m 1) [0..<4]" using l1 by (simp add: l2_stage_def)
  have n2: "map (?m 2) [0..<2] ! 0 = ?m 2 0" "map (?m 2) [0..<2] ! 1 = ?m 2 1"
    by (simp_all del: upt_rec_numeral mnode.simps)
  show "twig_ok H ab (top_stage H ?y)"
    unfolding twig_ok_def twig_bits_ok_def top_stage_def sync_top_def
    using f l2 up3 n2 e4 by (simp add: node_hash_inplace_eq del: upt_rec_numeral mnode.simps)
  show "left_root (top_stage H (l2_stage H K (l1_stage H ab J x))) = left_root x"
    by (simp add: top_stage_def sync_top_def l2_stage_def l1_stage_def)
qed

lemma foldE_cong: "(\<And>x s. x \<in> set xs \<Longrightarrow> f x s = g x s) \<Longrightarrow> foldE f xs s = foldE g xs s"
proof (induction xs arbitrary: s)
  case (Cons x xs)
  have "foldE f xs = foldE g xs" using Cons by (intro ext) simp
  then show ?case using Cons.prems [of x s] by simp
qed simp

lemma and_3: "and i 3 = i mod (4::nat)"
proof -
  have "(3::nat) = mask 2" by (simp add: mask_eq_exp_minus_1)
  then show ?thesis by (simp only: take_bit_eq_mask [symmetric] take_bit_eq_mod) simp
qed

lemma tws_val_eq: "ut_ok u \<Longrightarrow> tws.val u t = shs.val (ut_twigs u) t"
  by (simp add: tws.val_def shs.val_def get_twig_def)

lemma ut_ok_twigs: "ut_ok u \<Longrightarrow> length ts = TWIG_SHARD_COUNT \<Longrightarrow> ut_ok (u\<lparr>ut_twigs := ts\<rparr>)"
  by (simp add: ut_ok_def)

lemma phase1_ok:
  assumes ok: "ut_ok (t_upper T)" "length (t_bits T) = TWIG_SHARD_COUNT" "finite (t_touched T)"
    and tw: "\<And>t. t \<in> (\<lambda>i. i div 4) ` t_touched T \<Longrightarrow>
      tws.val (t_upper T) t = Some (x t) \<and> shs.val (t_bits T) t = Some (ab t) \<and> length (ab t) = 256
      \<and> length (active_bits_mtl1 (x t)) = 4"
  shows "\<exists>ts L. sync_mt_for_active_bits_phase1 H T = Inr (T\<lparr>t_upper := (t_upper T)\<lparr>ut_twigs := ts\<rparr>\<rparr>, L)
    \<and> length ts = TWIG_SHARD_COUNT \<and> set L = (\<lambda>i. i div 2) ` t_touched T
    \<and> (\<forall>t. shs.val ts t = (if t \<in> (\<lambda>i. i div 4) ` t_touched T
          then Some (l1_stage H (ab t) {j. j < 4 \<and> 4 * t + j \<in> t_touched T} (x t)) else tws.val (t_upper T) t))"
proof -
  let ?ns = "sorted_list_of_set (t_touched T)"
  let ?f = "\<lambda>i tw. bindE (shard_get (t_bits T) (drop_bit 2 i)) (\<lambda>v.
               bindE (unwrap ''unwrap on None'' v) (\<lambda>ab. sync_l1 H tw (and i 3) ab))"
  have ns: "set ?ns = t_touched T" using ok(3) by simp
  have d2: "drop_bit 2 i = i div 4" for i :: nat by (simp add: drop_bit_eq_div)
  have len: "length (ut_twigs (t_upper T)) = TWIG_SHARD_COUNT" using ok(1) by (simp add: ut_ok_def)
  have steps: "foldE ?f (filter (\<lambda>i. drop_bit 2 i = t) ?ns) (x t) =
      Inr (l1_stage H (ab t) {j. j < 4 \<and> 4 * t + j \<in> t_touched T} (x t))" if "t \<in> (\<lambda>i. i div 4) ` t_touched T" for t
  proof -
    let ?is = "filter (\<lambda>i. drop_bit 2 i = t) ?ns"
    have "foldE ?f ?is (x t) = foldE (\<lambda>i tw. sync_l1 H tw (i mod 4) (ab t)) ?is (x t)"
      using tw [OF that] shs.get_val [OF ok(2), of t] by (intro foldE_cong) (simp add: and_3)
    also have "\<dots> = Inr (l1_stage H (ab t) ((\<lambda>i. i mod 4) ` set ?is) (x t))"
      using tw [OF that] by (intro l1_steps) simp_all
    also have "(\<lambda>i. i mod 4) ` set ?is = {j. j < 4 \<and> 4 * t + j \<in> t_touched T}" (is "?A = ?B")
    proof
      show "?A \<subseteq> ?B"
      proof
        fix j assume "j \<in> ?A"
        then obtain i where i: "j = i mod 4" "i \<in> t_touched T" "t = i div 4" using ns by (auto simp: d2)
        have "4 * (i div 4) + i mod 4 = i" by (rule mult_div_mod_eq)
        then have "4 * t + j = i" by (simp only: i(1,3))
        then show "j \<in> ?B" using i(1,2) by simp
      qed
      show "?B \<subseteq> ?A"
      proof
        fix j assume j: "j \<in> ?B"
        then have "4 * t + j \<in> set ?is" "(4 * t + j) mod 4 = j" using ns by (simp_all add: d2)
        then show "j \<in> ?A" by (metis imageI)
      qed
    qed
    finally show ?thesis .
  qed
  have img: "(\<lambda>i. drop_bit 2 i) ` set ?ns = (\<lambda>i. i div 4) ` t_touched T" using ns by (simp add: d2)
  have "\<exists>s'. for_twigs ?f (\<lambda>i. drop_bit 2 i) ?ns (ut_twigs (t_upper T)) = Inr s' \<and> length s' = TWIG_SHARD_COUNT
    \<and> (\<forall>t. shs.val s' t = (if t \<in> (\<lambda>i. drop_bit 2 i) ` set ?ns
        then Some (l1_stage H (ab t) {j. j < 4 \<and> 4 * t + j \<in> t_touched T} (x t)) else shs.val (ut_twigs (t_upper T)) t))"
    by (rule for_twigs_ok [OF len, where x = x]) (use tw steps img tws_val_eq [OF ok(1)] in auto)
  then obtain s' where s': "for_twigs ?f (\<lambda>i. drop_bit 2 i) ?ns (ut_twigs (t_upper T)) = Inr s'" "length s' = TWIG_SHARD_COUNT"
    "\<forall>t. shs.val s' t = (if t \<in> (\<lambda>i. i div 4) ` t_touched T
        then Some (l1_stage H (ab t) {j. j < 4 \<and> 4 * t + j \<in> t_touched T} (x t)) else tws.val (t_upper T) t)"
    unfolding img tws_val_eq [OF ok(1)] by blast
  then have "sync_mt_for_active_bits_phase1 H T = Inr (T\<lparr>t_upper := (t_upper T)\<lparr>ut_twigs := s'\<rparr>\<rparr>, parent_list ?ns)"
    by (simp add: sync_mt_for_active_bits_phase1_def Let_def)
  then show ?thesis
    using s'(2,3) ns by (intro exI [of _ s'] exI [of _ "parent_list ?ns"]) (simp add: set_parent_list)
qed

lemma phase2_ok:
  assumes ok: "ut_ok u" and L: "set L = (\<lambda>i. i div 2) ` S"
    and tw: "\<And>t. t \<in> (\<lambda>i. i div 4) ` S \<Longrightarrow> tws.val u t = Some (x t)
      \<and> length (active_bits_mtl1 (x t)) = 4 \<and> length (active_bits_mtl2 (x t)) = 2"
  shows "\<exists>ts L2. sync_mt_for_active_bits_phase2 H u L = Inr (u\<lparr>ut_twigs := ts\<rparr>, L2)
    \<and> length ts = TWIG_SHARD_COUNT \<and> set L2 = (\<lambda>i. i div 8) ` S
    \<and> (\<forall>t. shs.val ts t = (if t \<in> (\<lambda>i. i div 4) ` S
          then Some (top_stage H (l2_stage H ((\<lambda>j. j div 2) ` {j. j < 4 \<and> 4 * t + j \<in> S}) (x t))) else tws.val u t))"
proof -
  have d1: "drop_bit 1 i = i div 2" "and i 1 = i mod 2" "drop_bit (Suc 0) i = i div 2" for i :: nat
    by (simp_all add: drop_bit_eq_div and_one_eq)
  have len: "length (ut_twigs u) = TWIG_SHARD_COUNT" using ok by (simp add: ut_ok_def)
  let ?J = "\<lambda>t. (\<lambda>j. j div 2) ` {j. j < 4 \<and> 4 * t + j \<in> S}"
  let ?f = "\<lambda>i t. sync_l2 H t (and i 1)"
  have img: "(\<lambda>i. drop_bit 1 i) ` set L = (\<lambda>i. i div 4) ` S"
    unfolding L image_image d1 by (simp flip: div_mult2_eq)
  have cells: "(\<lambda>i. i mod 2) ` set (filter (\<lambda>i. drop_bit 1 i = t) L) = ?J t" (is "?A = ?B") for t
  proof
    show "?A \<subseteq> ?B"
    proof
      fix j assume "j \<in> ?A"
      then obtain i where i: "i \<in> S" "j = i div 2 mod 2" "t = i div 2 div 2" using L by (auto simp: d1)
      have "4 * (i div 4) + i mod 4 = i" by (rule mult_div_mod_eq)
      then have "4 * t + i mod 4 \<in> S" using i(1,3) by (simp flip: div_mult2_eq)
      moreover have "i mod 4 div 2 = j" unfolding i(2) by presburger
      ultimately show "j \<in> ?B" by force
    qed
    show "?B \<subseteq> ?A"
    proof
      fix j assume "j \<in> ?B"
      then obtain k where k: "k < 4" "4 * t + k \<in> S" "j = k div 2" by auto
      then have "(4 * t + k) div 2 \<in> set L" unfolding L by blast
      moreover have "(4 * t + k) div 2 = 2 * t + k div 2" by simp
      moreover have "(2 * t + k div 2) div 2 = t" "(2 * t + k div 2) mod 2 = j" using k(1,3) by auto
      ultimately have "2 * t + k div 2 \<in> set (filter (\<lambda>i. drop_bit 1 i = t) L)" "(2 * t + k div 2) mod 2 = j"
        by (simp_all add: d1)
      then show "j \<in> ?A" by (metis imageI)
    qed
  qed
  have s2: "foldE ?f (filter (\<lambda>i. drop_bit 1 i = t) L) (x t) = Inr (l2_stage H (?J t) (x t))"
    if "t \<in> (\<lambda>i. i div 4) ` S" for t
    unfolding cells [symmetric] d1(2) using tw [OF that] by (intro l2_steps) simp_all
  have "\<exists>s'. for_twigs ?f (\<lambda>i. drop_bit 1 i) L (ut_twigs u) = Inr s' \<and> length s' = TWIG_SHARD_COUNT
    \<and> (\<forall>t. shs.val s' t = (if t \<in> (\<lambda>i. drop_bit 1 i) ` set L then Some (l2_stage H (?J t) (x t)) else shs.val (ut_twigs u) t))"
    by (rule for_twigs_ok [OF len, where x = x]) (use tw s2 img tws_val_eq [OF ok] in auto)
  then obtain s1 where s1: "for_twigs ?f (\<lambda>i. drop_bit 1 i) L (ut_twigs u) = Inr s1" "length s1 = TWIG_SHARD_COUNT"
    "\<forall>t. shs.val s1 t = (if t \<in> (\<lambda>i. i div 4) ` S then Some (l2_stage H (?J t) (x t)) else shs.val (ut_twigs u) t)"
    unfolding img by blast
  let ?g = "\<lambda>i t. bindE (sync_l3 H t) (\<lambda>t. Inr (sync_top H t))"
  have P: "set (parent_list L) = (\<lambda>i. i div 4) ` S" using img by (simp add: set_parent_list d1)
  have s3: "foldE ?g (filter (\<lambda>i. i = t) (parent_list L)) (l2_stage H (?J t) (x t)) = Inr (top_stage H (l2_stage H (?J t) (x t)))"
    if "t \<in> (\<lambda>i. i div 4) ` S" for t
    using tw [OF that] P that by (intro top_steps) (auto simp: l2_stage_def filter_empty_conv)
  have "\<exists>s'. for_twigs ?g (\<lambda>i. i) (parent_list L) s1 = Inr s' \<and> length s' = TWIG_SHARD_COUNT
    \<and> (\<forall>t. shs.val s' t = (if t \<in> (\<lambda>i. i) ` set (parent_list L) then Some (top_stage H (l2_stage H (?J t) (x t))) else shs.val s1 t))"
    by (rule for_twigs_ok [OF s1(2), where x = "\<lambda>t. l2_stage H (?J t) (x t)"]) (use s1(3) s3 P in auto)
  then obtain s4 where s4: "for_twigs ?g (\<lambda>i. i) (parent_list L) s1 = Inr s4" "length s4 = TWIG_SHARD_COUNT"
    "\<forall>t. shs.val s4 t = (if t \<in> (\<lambda>i. i div 4) ` S then Some (top_stage H (l2_stage H (?J t) (x t))) else shs.val s1 t)"
    unfolding image_ident P by blast
  have "set (parent_list (parent_list L)) = (\<lambda>i. i div 8) ` S"
    unfolding set_parent_list [of "parent_list L"] P image_image by (simp flip: div_mult2_eq)
  moreover have "sync_mt_for_active_bits_phase2 H u L = Inr (u\<lparr>ut_twigs := s4\<rparr>, parent_list (parent_list L))"
    using s1(1) s4(1) by (simp add: sync_mt_for_active_bits_phase2_def Let_def)
  moreover have "shs.val s4 t = (if t \<in> (\<lambda>i. i div 4) ` S then Some (top_stage H (l2_stage H (?J t) (x t))) else tws.val u t)" for t
    using s4(3) s1(3) tws_val_eq [OF ok] by simp
  ultimately show ?thesis using s4(2) by blast
qed

section \<open>Proofs of a synchronised tree\<close>

text \<open>A tree between blocks: \<open>leaf\<close> gives the hash at every serial number, \<open>ab\<close> the active bits
  of every twig; twigs below \<open>alo\<close> have been evicted with no bit set, nodes left of \<open>lo\<close> pruned.\<close>

definition shard_roots :: "hashfun \<Rightarrow> (nat \<Rightarrow> hash32) \<Rightarrow> (nat \<Rightarrow> bytes) \<Rightarrow> nat \<Rightarrow> hash32" where
  "shard_roots H leaf ab = twig_ref H leaf (\<lambda>t. page (ab t))"

definition synced ::
  "hashfun \<Rightarrow> init_data \<Rightarrow> tree \<Rightarrow> (nat \<Rightarrow> hash32) \<Rightarrow> (nat \<Rightarrow> bytes) \<Rightarrow> nat \<Rightarrow> nat \<Rightarrow> bool" where
  "synced H D T leaf ab lo alo \<longleftrightarrow>
     ut_ok (t_upper T) \<and> length (t_bits T) = TWIG_SHARD_COUNT
     \<and> 0 < t_youngest T \<and> t_youngest T < 2 ^ 51 \<and> even lo \<and> lo \<le> t_youngest T
     \<and> upper_rep H (t_upper T) (shard_roots H leaf ab) lo (t_youngest T)
     \<and> roots_rep D (t_upper T) (shard_roots H leaf ab) lo (t_youngest T)
     \<and> mt_of H (\<lambda>i. leaf (2048 * t_youngest T + i)) (t_mt T)
     \<and> (\<forall>t. alo \<le> t \<longrightarrow> t \<le> t_youngest T \<longrightarrow> shs.val (t_bits T) t = Some (ab t) \<and> length (ab t) = 256
          \<and> (\<exists>x. tws.val (t_upper T) t = Some x \<and> twig_ok H (ab t) x))
     \<and> (\<forall>t. t < alo \<longrightarrow> shs.val (t_bits T) t = None \<and> tws.val (t_upper T) t = None \<and> ab t = ab_new)"

lemma upper_path_from_true:
  assumes ok: "ut_ok u" and y: "0 < y" "y < 2 ^ 51" and rep: "upper_rep H u R lo y" and t: "lo \<le> t" "t \<le> y"
  shows "1 \<le> i \<Longrightarrow> i + k \<le> bit_length y \<Longrightarrow>
    upper_path_from u (12 + i) (t div 2 ^ i) k = Inr (map (true_node H 12 R t) [i..<i + k])"
proof (induction k arbitrary: i)
  case 0
  then show ?case by simp
next
  case (Suc k)
  let ?n = "t div 2 ^ i"
  have maxl: "calc_max_level y = 12 + bit_length y" using calc_max_level_eq [of y] y by (simp add: layout_defs)
  have b: "bit_length y \<le> 51" using bit_length_le_iff [of y 51] y by simp
  have le: "lo div 2 ^ i \<le> ?n" "?n \<le> y div 2 ^ i" using t by (simp_all add: div_le_mono)
  have e: "edge_at lo (12 + i) = 2 * (lo div 2 ^ i div 2)" using edge_at_eq [of "12 + i" lo] Suc.prems by simp
  have "2 * (lo div 2 ^ i div 2) \<le> 2 * (?n div 2)" using le by (simp add: div_le_mono)
  then have edges: "edge_at lo (12 + i) \<le> ?n" "edge_at lo (12 + i) \<le> xor ?n 1" unfolding e
    by (auto simp: xor_1 elim!: evenE oddE)
  have up: "?n \<le> y div 2 ^ i + 1" "xor ?n 1 \<le> y div 2 ^ i + 1" using le(2) by (auto simp: xor_1)
  have "y div 2 ^ i \<le> y" "y + 1 < 2 ^ 56" using y(2) by simp_all
  then have small: "?n < 2 ^ 56" "xor ?n 1 < 2 ^ 56" using up by linarith+
  have nd: "nd u (12 + i) m = Some (mnode H 12 R i m)" if "edge_at lo (12 + i) \<le> m" "m \<le> y div 2 ^ i + 1" for m
    using rep that Suc.prems maxl by (simp add: upper_rep_def)
  have g: "get_node u (np_pos (12 + i) m) = Inr (Some (mnode H 12 R i m))"
    if "edge_at lo (12 + i) \<le> m" "m \<le> y div 2 ^ i + 1" "m < 2 ^ 56" for m
    using get_node_nd [OF ok, of "12 + i" m] nd [OF that(1,2)] that(3) Suc.prems b by simp
  have half: "drop_bit 1 ?n = t div 2 ^ Suc i" by (simp add: drop_bit_eq_div div_mult2_eq [symmetric] mult.commute)
  have IH: "upper_path_from u (12 + i + 1) (drop_bit 1 ?n) k = Inr (map (true_node H 12 R t) [Suc i..<Suc i + k])"
    unfolding half using Suc.IH [of "Suc i"] Suc.prems by simp
  have "and ?n 1 \<noteq> 0 \<longleftrightarrow> odd ?n" by (simp add: and_one_eq mod2_eq_if)
  then have "upper_path_from u (12 + i) ?n (Suc k) = Inr (true_node H 12 R t i # map (true_node H 12 R t) [Suc i..<Suc i + k])"
    using g [OF edges(1) up(1) small(1)] g [OF edges(2) up(2) small(2)] IH
    by (simp only: upper_path_from.simps bindE.simps unwrap_Some true_node_def)
  moreover have "[i..<i + Suc k] = i # [Suc i..<Suc i + k]" by (simp add: upt_conv_Cons)
  ultimately show ?case by simp
qed

lemma get_upper_path_true:
  assumes D: "NULL_TWIG D = fst (snd D)" and ok: "ut_ok (t_upper T)" and y: "y = t_youngest T" "0 < y" "y < 2 ^ 51"
    and lo: "even lo" "lo \<le> t" "t \<le> y"
    and rep: "upper_rep H (t_upper T) R lo y" and roots: "roots_rep D (t_upper T) R lo y"
  shows "get_upper_path_and_root D T t =
    Inr (true_nodes H 12 R t (bit_length y), mnode H 12 R (bit_length y) 0)"
proof -
  let ?u = "t_upper T"
  have maxl: "calc_max_level y = 12 + bit_length y" using calc_max_level_eq [of y] y by (simp add: layout_defs)
  have b: "1 \<le> bit_length y" "bit_length y \<le> 51" using bit_length_pos [OF y(2)] bit_length_le_iff [of y 51] y by simp_all
  have small: "n < 2 ^ 56" if "n \<le> y + 1" for n using that y(3) by simp
  have px: "xor t 1 \<le> y + 1" "lo \<le> xor t 1" using lo by (auto simp: xor_1 elim!: evenE oddE)
  have peer: "(case root_val ?u (xor t 1) of Some v \<Rightarrow> v | None \<Rightarrow> twig_root (NULL_TWIG D)) = R (xor t 1)"
  proof (cases "xor t 1 \<le> y")
    case True
    then show ?thesis using roots px by (simp add: roots_rep_def)
  next
    case False
    then have "xor t 1 = y + 1" using px by simp
    then show ?thesis using roots D by (auto simp: roots_rep_def)
  qed
  have self: "root_val ?u t = Some (R t)" using roots lo by (simp add: roots_rep_def)
  have gp: "get_twig_root ?u (xor t 1) = Inr (root_val ?u (xor t 1))" using get_twig_root_eq [OF ok small [OF px(1)]] .
  have gs: "get_twig_root ?u t = Inr (Some (R t))" using get_twig_root_eq [OF ok small, of t] lo self by simp
  have F: "FIRST_LEVEL_ABOVE_TWIG = 13" by (simp add: layout_defs)
  have up: "upper_path_from ?u 13 (drop_bit 1 t) (12 + bit_length y - 13) = Inr (map (true_node H 12 R t) [1..<bit_length y])"
    using upper_path_from_true [OF ok y(2,3) rep lo(2,3), of 1 "bit_length y - 1"] b by (simp add: drop_bit_eq_div)
  have yb: "y < 2 ^ bit_length y" by (simp flip: bit_length_le_iff)
  then have "edge_at lo (12 + bit_length y) = 0" using lo b by (simp add: edge_at_def end_back_at_def div_eq_0_iff)
  then have "nd ?u (12 + bit_length y) 0 = Some (mnode H 12 R (bit_length y) 0)"
    using rep b maxl by (simp add: upper_rep_def)
  then have root: "get_node ?u (np_pos (12 + bit_length y) 0) = Inr (Some (mnode H 12 R (bit_length y) 0))"
    using get_node_nd [OF ok, of "12 + bit_length y" 0] b by simp
  have hd: "\<lparr>self_hash = R t, peer_hash = R (xor t 1), peer_at_left = (and t 1 \<noteq> 0)\<rparr> = true_node H 12 R t 0"
    by (simp add: true_node_def and_one_eq mod2_eq_if)
  have split: "true_nodes H 12 R t (bit_length y) = true_node H 12 R t 0 # map (true_node H 12 R t) [1..<bit_length y]"
    using b(1) by (simp add: true_nodes_def upt_conv_Cons)
  show ?thesis
    unfolding get_upper_path_and_root_def y(1) [symmetric] maxl Let_def F gp gs bindE.simps peer option.case up root unwrap_Some hd split ..
qed

lemma mt_of_cong:
  assumes "\<And>i. i < 2048 \<Longrightarrow> f i = g i"
  shows "mt_of H f mt = mt_of H g mt"
proof -
  have "tnode H f m q = tnode H g m q" if "m \<le> 11" "q < 2 ^ (11 - m)" for m q
  proof (rule mnode_cong)
    fix i assume "i < (q + 1) * 2 ^ m"
    also have "\<dots> \<le> 2 ^ (11 - m) * 2 ^ m" using that(2) by (intro mult_right_mono) simp_all
    also have "\<dots> = 2048" using that(1) by (simp flip: power_add)
    finally show "f i = g i" using assms by simp
  qed
  then show ?thesis unfolding mt_of_def by auto
qed

lemma mt_of_root: "mt_of H f mt \<Longrightarrow> mt ! 1 = mnode H 0 f 11 0"
proof -
  assume "mt_of H f mt"
  then have "\<forall>q<2 ^ (11 - 11). mt ! (2 ^ (11 - 11) + q) = tnode H f 11 q"
    unfolding mt_of_def by (elim conjE allE [of _ 11]) simp
  then show ?thesis by simp
qed

text \<open>The null values: the array over null leaves, and the twig over it.\<close>

lemma null_values:
  assumes "get_init_data H = Inr D"
  shows "twig_ok H ab_new (NULL_TWIG D)" "mt_of H (\<lambda>_. H (entry_payload null_of [])) (NULL_MT D)"
    "left_root (NULL_TWIG D) = NULL_MT D ! 1"
proof -
  let ?h = "H (entry_payload null_of [])"
  let ?mt = "replicate 2048 ZERO_HASH32 @ replicate 2048 ?h"
  obtain mt where mt: "sync_mtree H ?mt 0 2047 = Inr mt" "mt_of H (\<lambda>i. ?mt ! (2048 + i)) mt"
    using sync_mtree_full [of ?mt H] by auto
  have c: "create_null_mt_for_twig H = Inr mt"
    using null_entry_hash [of "replicate (ENTRY_BASE_LENGTH + 8) 0" H] mt(1)
    by (auto simp: create_null_mt_for_twig_def layout_defs)
  obtain t where t: "create_null_twig H (mt ! 1) = Inr t" "twig_ok H ab_new t" "left_root t = mt ! 1"
    using create_null_twig_eq by blast
  have "length mt = 4096" using mt(2) by (simp add: mt_of_def)
  then have D: "D = (mt, t, create_null_node_in_higher_tree H t)"
    using assms c t(1) by (simp add: get_init_data_def)
  show "twig_ok H ab_new (NULL_TWIG D)" "left_root (NULL_TWIG D) = NULL_MT D ! 1"
    using t by (simp_all add: D NULL_TWIG_def NULL_MT_def)
  have "mt_of H (\<lambda>_. ?h) mt" using mt(2) by (subst mt_of_cong) (auto simp: nth_append)
  then show "mt_of H (\<lambda>_. ?h) (NULL_MT D)" by (simp add: D NULL_MT_def)
qed

lemmas null_twig_ok = null_values(1)

lemma null_root_eq:
  assumes "get_init_data H = Inr D"
  shows "twig_root (NULL_TWIG D) = shard_roots H (\<lambda>_. H (entry_payload null_of [])) (\<lambda>_. ab_new) t"
  using null_values [OF assms] mt_of_root [OF null_values(2) [OF assms]]
  by (simp add: shard_roots_def twig_ref_def twig_ok_def twig_bits_ok_def del: mnode.simps)

lemma true_path_checks:
  assumes p: "left_of_twig p = true_nodes H 0 f n 11" "right_of_twig p = true_nodes H 8 g m 3"
      "upper_path p = true_nodes H 12 R t L" "pp_root p = mnode H 12 R L 0"
    and nm: "n < 2048" "m < 8" "t < 2 ^ L" "0 < L"
    and R: "R t = hash2 H 11 (mnode H 0 f 11 0) (mnode H 8 g 3 0)"
  shows "pp_check H False p = Inr p"
proof -
  have T: "TWIG_ROOT_LEVEL = 12" by (simp add: layout_defs)
  have ne: "true_nodes H 12 R t L \<noteq> []" using nm(4) by (simp add: true_nodes_def)
  then have shape: "pp_shape p" using p by (simp add: pp_shape_def)
  have tw: "pp_twig_root H p = R t"
    using climb_true_nodes [of n 11 H 0 f] climb_true_nodes [of m 3 H 8 g] nm R p by (simp add: pp_twig_root_def)
  have "pp_computed_root H p = pp_root p"
    using climb_true_nodes [OF nm(3,4), of H 12 R] tw p(3,4) hd_true_nodes [OF nm(4), of H 12 R t] T
    by (simp add: pp_computed_root_def)
  moreover have "pp_fill H p = p"
  proof -
    have "(hd (upper_path p))\<lparr>self_hash := R t\<rparr> = hd (upper_path p)"
      using hd_true_nodes [OF nm(4), of H 12 R t] p(3) by simp
    then have "(hd (upper_path p))\<lparr>self_hash := R t\<rparr> # tl (upper_path p) = upper_path p" using ne p(3) by simp
    then show ?thesis unfolding pp_fill_def tw T using p(1,2,3) by (simp add: fill_true_nodes)
  qed
  ultimately show ?thesis using pp_check_False [OF shape, of H p] by simp
qed

text \<open>The right half of a proof: the twig and its bits, or the null ones for an evicted twig.\<close>

lemma right_path_synced:
  assumes D: "get_init_data H = Inr D" and syn: "synced H D T leaf ab lo alo" and t: "t \<le> t_youngest T"
  shows "\<exists>v b. get_twig (t_upper T) t = Inr v \<and> shard_get (t_bits T) t = Inr b
    \<and> get_right_path (case v of Some x \<Rightarrow> x | None \<Rightarrow> NULL_TWIG D) (case b of Some x \<Rightarrow> x | None \<Rightarrow> ab_new) sn
        = Inr (true_nodes H 8 (page (ab t)) (sn mod 2048 div 256) 3)"
proof -
  have ok: "ut_ok (t_upper T)" "length (t_bits T) = TWIG_SHARD_COUNT" using syn by (simp_all add: synced_def)
  have g: "get_twig (t_upper T) t = Inr (tws.val (t_upper T) t)" "shard_get (t_bits T) t = Inr (shs.val (t_bits T) t)"
    using tws.get_val [OF ok(1)] shs.get_val [OF ok(2)] by simp_all
  show ?thesis
  proof (cases "alo \<le> t")
    case True
    then obtain x where "tws.val (t_upper T) t = Some x" "twig_ok H (ab t) x" "shs.val (t_bits T) t = Some (ab t)" "length (ab t) = 256"
      using syn t by (auto simp: synced_def)
    then show ?thesis using g get_right_path_true [of "ab t" H x sn] by (simp add: twig_ok_def)
  next
    case False
    then have "tws.val (t_upper T) t = None" "shs.val (t_bits T) t = None" "ab t = ab_new"
      using syn by (auto simp: synced_def)
    moreover have "length ab_new = 256" by (simp add: ab_new_def)
    ultimately show ?thesis
      using g get_right_path_true [of ab_new H "NULL_TWIG D" sn] null_twig_ok [OF D] by (simp add: twig_ok_def)
  qed
qed

section \<open>Properties\<close>

text \<open>C3. Proofs are complete: in a synchronised tree \<^verbatim>\<open>get_proof\<close> returns a path that carries the shard's
  root and the leaf hash of the serial number, and that passes \<^verbatim>\<open>check\<close>, for every serial number,
  active or not, of the youngest twig, and for every serial number of a full twig that has not been
  pruned and whose left tree is in the twig file, provided that the groups of eight leaves on its path
  do not cross the end of a segment file.  (For the others the code reads padding: the second
  attempt of \<^verbatim>\<open>get_hash_node_in_ignore_range\<close> is never made.)\<close>

theorem get_proof_complete:
  assumes D: "get_init_data H = Inr D" and syn: "synced H D T leaf ab lo alo"
    and sn: "unat snw div 2048 \<le> t_youngest T" "lo \<le> unat snw div 2048"
    and disk: "unat snw div 2048 < t_youngest T \<Longrightarrow> \<exists>mt. twig_readable H (t_twig T) (unat snw div 2048)
        (\<lambda>i. leaf (2048 * (unat snw div 2048) + i)) mt"
    and groups: "unat snw div 2048 < t_youngest T \<Longrightarrow> \<forall>g\<in>set (path_groups (unat snw)). group_in_one_file (fst (t_twig T)) (unat snw div 2048) g"
  shows "\<exists>p. get_proof H D T snw = Inr p \<and> pp_check H False p = Inr p
    \<and> serial_num p = snw \<and> pp_root p = mnode H 12 (shard_roots H leaf ab) (bit_length (t_youngest T)) 0
    \<and> self_hash (hd (left_of_twig p)) = leaf (unat snw)
    \<and> self_hash (hd (right_of_twig p)) = page (ab (unat snw div 2048)) (unat snw mod 2048 div 256)"
proof -
  let ?sn = "unat snw" and ?t = "unat snw div 2048" and ?y = "t_youngest T" and ?R = "shard_roots H leaf ab"
  let ?f = "\<lambda>i. leaf (2048 * ?t + i)"
  have tid: "drop_bit TWIG_SHIFT ?sn = ?t" by (simp add: layout_defs drop_bit_eq_div)
  have ok: "ut_ok (t_upper T)" and y: "0 < ?y" "?y < 2 ^ 51" and lo: "even lo"
    and rep: "upper_rep H (t_upper T) ?R lo ?y" and roots: "roots_rep D (t_upper T) ?R lo ?y"
    and mt: "mt_of H (\<lambda>i. leaf (2048 * ?y + i)) (t_mt T)"
    using syn by (simp_all add: synced_def)
  have up: "get_upper_path_and_root D T ?t = Inr (true_nodes H 12 ?R ?t (bit_length ?y), mnode H 12 ?R (bit_length ?y) 0)"
    using get_upper_path_true [OF _ ok refl y lo sn(2,1) rep roots] by (simp add: NULL_TWIG_def)
  have left: "(if ?t = ?y then get_left_path_in_mem (t_mt T) ?sn
      else if hp_is_empty (fst (t_twig T)) then Inl (Err ''twig_file is empty'')
      else get_left_path_on_disk H (fst (t_twig T)) ?t ?sn) = Inr (true_nodes H 0 ?f (?sn mod 2048) 11)"
  proof (cases "?t = ?y")
    case True
    then show ?thesis using get_left_path_in_mem_true [OF mt, of ?sn] by simp
  next
    case False
    then obtain m where m: "twig_readable H (t_twig T) ?t ?f m" using disk sn(1) by auto
    then have "mt_of H ?f m" "\<not> hp_is_empty (fst (t_twig T))"
      by (auto simp: twig_readable_def hp_inv_def hp_is_empty_def split: prod.splits)
    then show ?thesis using get_left_path_on_disk_ok [OF m groups] sn(1) get_left_path_in_mem_true [of H ?f m ?sn] False by simp
  qed
  obtain v b where vb: "get_twig (t_upper T) ?t = Inr v" "shard_get (t_bits T) ?t = Inr b"
    "get_right_path (case v of Some x \<Rightarrow> x | None \<Rightarrow> NULL_TWIG D) (case b of Some x \<Rightarrow> x | None \<Rightarrow> ab_new) ?sn
        = Inr (true_nodes H 8 (page (ab ?t)) (?sn mod 2048 div 256) 3)"
    using right_path_synced [OF D syn sn(1), of ?sn] by blast
  have L: "0 < bit_length ?y" using bit_length_pos [OF y(1)] by simp
  have yb: "?t < 2 ^ bit_length ?y"
  proof -
    have "?y < 2 ^ bit_length ?y" by (simp flip: bit_length_le_iff)
    then show ?thesis using sn(1) by linarith
  qed
  have nm: "?sn mod 2048 < 2048" "?sn mod 2048 div 256 < 8" by (simp_all add: less_mult_imp_div_less)
  define p where "p = pp_new\<lparr>serial_num := snw, upper_path := true_nodes H 12 ?R ?t (bit_length ?y),
    pp_root := mnode H 12 ?R (bit_length ?y) 0, left_of_twig := true_nodes H 0 ?f (?sn mod 2048) 11,
    right_of_twig := true_nodes H 8 (page (ab ?t)) (?sn mod 2048 div 256) 3\<rparr>"
  have ne: "true_nodes H 12 ?R ?t (bit_length ?y) \<noteq> []" using L by (simp add: true_nodes_def)
  have "get_proof H D T snw = Inr p"
    unfolding get_proof_def Let_def tid up bindE.simps prod.case left vb
    using sn(1) ne by (simp add: p_def)
  moreover have "pp_check H False p = Inr p"
    by (rule true_path_checks [OF _ _ _ _ nm yb L, of _ H ?f "page (ab ?t)" ?R])
      (simp_all add: p_def shard_roots_def twig_ref_def)
  moreover have "self_hash (hd (left_of_twig p)) = leaf ?sn"
    using hd_true_nodes [of 11 H 0 ?f "?sn mod 2048"] by (simp add: p_def)
  moreover have "self_hash (hd (right_of_twig p)) = page (ab ?t) (?sn mod 2048 div 256)"
    using hd_true_nodes [of 3 H 8 "page (ab ?t)" "?sn mod 2048 div 256"] by (simp add: p_def)
  ultimately show ?thesis by (intro exI [of _ p]) (simp add: p_def)
qed

definition demo_tree :: "init_data \<Rightarrow> upper_tree \<Rightarrow> tree" where
  "demo_tree D u = (tree_new_blank D 0 hp_empty hp_empty)\<lparr>t_upper := u, t_youngest := 1,
     t_bits := [Map.empty(0 \<mapsto> ab_new), Map.empty(0 \<mapsto> ab_new), Map.empty, Map.empty]\<rparr>"

lemma less_4_cases: "(\<forall>t<(2::nat). P t) \<longleftrightarrow> P 0 \<and> P 1"
  by (auto simp: less_2_cases_iff)

lemma demo_tree_synced:
  assumes D: "get_init_data H = Inr D"
  shows "\<exists>u. synced H D (demo_tree D u) (\<lambda>_. H (entry_payload null_of [])) (\<lambda>_. ab_new) 0 0"
proof -
  let ?R = "shard_roots H (\<lambda>_. H (entry_payload null_of [])) (\<lambda>_. ab_new)"
  have R: "?R t = twig_root (fst (snd D))" for t using null_root_eq [OF D] by (simp add: NULL_TWIG_def)
  have ok: "ut_ok (demo_upper D)" by (auto simp: ut_ok_def demo_upper_def ut_new_def layout_defs)
  have tw: "tws.val (demo_upper D) t = (if t < 2 then Some (NULL_TWIG D) else None)" if "t < 3" for t
    using that by (auto simp: tws.val_def get_twig_def shard_get_def get_shard_idx_and_key_def demo_upper_def
        layout_defs index_def numeral_3_eq_3 numeral_2_eq_2 less_Suc_eq NULL_TWIG_def)
  moreover have "nd (demo_upper D) 12 2 = None"
    using nd_index [OF ok, of 12 2] by (simp add: demo_upper_def ut_new_def layout_defs)
  ultimately have rr: "roots_rep D (demo_upper D) ?R 0 1"
    by (simp add: roots_rep_def root_val_def numeral_2_eq_2 R NULL_TWIG_def)
  moreover have "upper_rep H (demo_upper D) ?R 0 0"
    using calc_max_level_eq [of 0] by (simp add: upper_rep_def layout_defs)
  ultimately obtain u where u: "ut_ok u" "ut_twigs u = ut_twigs (demo_upper D)" "upper_rep H u ?R 0 1"
      "\<forall>t<2 ^ 56. nd u 12 t = nd (demo_upper D) 12 t"
    using sync_upper_nodes_rep [OF D ok, of 1 0 0 ?R ?R "[0]"] by auto
  have twu: "tws.val u t = tws.val (demo_upper D) t" for t using u(1,2) ok by (simp add: tws_val_eq)
  have root_val_eq: "root_val u t = root_val (demo_upper D) t" if "t \<le> 2" for t
    using that u(4) twu by (simp add: root_val_def split: option.split)
  have "roots_rep D u ?R 0 1"
    using rr root_val_eq by (simp add: roots_rep_def R)
  moreover have "shs.val [Map.empty(0 \<mapsto> ab_new), Map.empty(0 \<mapsto> ab_new), Map.empty, Map.empty] t = Some ab_new" if "t \<le> 1" for t
    using that by (auto simp: le_Suc_eq shs.val_def shard_get_def get_shard_idx_and_key_def layout_defs index_def)
  moreover have "length ab_new = 256" by (simp add: ab_new_def)
  ultimately have "synced H D (demo_tree D u) (\<lambda>_. H (entry_payload null_of [])) (\<lambda>_. ab_new) 0 0"
    using u(1,3) null_values [OF D] tw twu
    by (simp add: synced_def demo_tree_def tree_new_blank_def layout_defs)
  then show ?thesis by blast
qed

theorem get_proof_complete_witness:
  "\<exists>D u p. get_init_data toy_digest = Inr D \<and> get_proof toy_digest D (demo_tree D u) 3000 = Inr p
    \<and> pp_check toy_digest False p = Inr p \<and> self_hash (hd (left_of_twig p)) = toy_digest (entry_payload null_of [])"
proof -
  obtain D where D: "get_init_data toy_digest = Inr D" using init_data_exists by blast
  then obtain u where u: "synced toy_digest D (demo_tree D u) (\<lambda>_. toy_digest (entry_payload null_of [])) (\<lambda>_. ab_new) 0 0"
    using demo_tree_synced by blast
  have y: "t_youngest (demo_tree D u) = 1" by (simp add: demo_tree_def)
  have "\<exists>p. get_proof toy_digest D (demo_tree D u) 3000 = Inr p \<and> pp_check toy_digest False p = Inr p
      \<and> self_hash (hd (left_of_twig p)) = toy_digest (entry_payload null_of [])"
    using get_proof_complete [OF D u, of 3000] unfolding y by auto
  with D show ?thesis by blast
qed

end
