(* ===== verification/Block.thy ===== *)
theory Block
  imports Tree
begin

text \<open>
  The end of a block on one shard, the part of \<^verbatim>\<open>FlusherShard::flush\<close> in
  \<^verbatim>\<open>src/qmdb/src/flusher.rs\<close> that calls \<^verbatim>\<open>flush_files\<close>, \<^verbatim>\<open>evict_twigs\<close> and
  \<^verbatim>\<open>sync_upper_nodes\<close> one after the other: from the pending changes of the block to the new
  root hash. The predicate \<open>block_pending\<close> says what the block has changed; the lemmas follow
  one of the calls each.
\<close>

section \<open>The youngest twig\<close>

text \<open>The twig that the next flush puts into the upper tree.\<close>

definition cur_twig :: "tree \<Rightarrow> nat \<Rightarrow> twig option" where
  "cur_twig T t = (case map_of (t_new_twigs T) t of Some x \<Rightarrow> Some x | None \<Rightarrow> tws.val (t_upper T) t)"

text \<open>The youngest twig's array holds the leaves \<open>f\<close>; its inner nodes are right up to the range of
  pending changes.\<close>

definition mt_pending :: "hashfun \<Rightarrow> (nat \<Rightarrow> hash32) \<Rightarrow> tree \<Rightarrow> bool" where
  "mt_pending H f T \<longleftrightarrow>
     (if t_chg_start T = - 1
      then mt_of H f (t_mt T) \<and> (\<exists>x. map_of (t_new_twigs T) (t_youngest T) = Some x \<and> left_root x = t_mt T ! 1)
      else length (t_mt T) = 4096 \<and> (\<forall>i<2048. t_mt T ! (2048 + i) = f i)
        \<and> (\<exists>g mt. mt_of H g mt \<and> (\<forall>k<2048. t_mt T ! k = mt ! k)
             \<and> (\<forall>i<2048. i < nat (t_chg_start T) \<or> nat (t_chg_end T) < i \<longrightarrow> f i = g i)))"

lemma mt_pending_files: "mt_pending H f (T\<lparr>t_entry := es, t_twig := ts\<rparr>) = mt_pending H f T"
  by (simp add: mt_pending_def)

lemma sync_mtree_pending:
  assumes "length mt = 4096" "\<forall>i<2048. mt ! (2048 + i) = f i" "mt_of H g mt0" "\<forall>k<2048. mt ! k = mt0 ! k"
    "\<forall>i<2048. i < s \<or> e < i \<longrightarrow> f i = g i"
  shows "\<exists>mt'. sync_mtree H mt s e = Inr mt' \<and> mt_of H f mt'"
proof -
  have "mt_upto H (\<lambda>i. mt ! (2048 + i)) (dirty s e) 0 mt"
    using assms(2,5) by (intro mt_upto_changed [OF assms(3,1) _ assms(4)]) (auto simp: not_le)
  from sync_rows_upto [OF this] obtain mt' where "sync_mtree H mt s e = Inr mt'" "mt_of H (\<lambda>i. mt ! (2048 + i)) mt'"
    by (auto simp: sync_mtree_def layout_defs mt_upto_11)
  then show ?thesis using mt_of_cong [of "\<lambda>i. mt ! (2048 + i)" f H mt'] assms(2) by auto
qed

lemma sync_youngest_pending:
  assumes pend: "mt_pending H f T" and x: "map_of (t_new_twigs T) (t_youngest T) = Some x"
  shows "\<exists>mt s e nt. sync_mt_for_youngest_twig H T False =
      Inr (T\<lparr>t_mt := mt, t_chg_start := s, t_chg_end := e, t_new_twigs := nt\<rparr>)
    \<and> mt_of H f mt \<and> map fst nt = map fst (t_new_twigs T)
    \<and> map_of nt = (map_of (t_new_twigs T))(t_youngest T \<mapsto> x\<lparr>left_root := mnode H 0 f 11 0\<rparr>)"
proof (cases "t_chg_start T = - 1")
  case True
  then have mt: "mt_of H f (t_mt T)" "left_root x = t_mt T ! 1" using pend x by (auto simp: mt_pending_def)
  then have "x\<lparr>left_root := mnode H 0 f 11 0\<rparr> = x" using mt_of_root [OF mt(1)] by simp
  then show ?thesis using True mt(1) x
    by (intro exI [of _ "t_mt T"] exI [of _ "t_chg_start T"] exI [of _ "t_chg_end T"] exI [of _ "t_new_twigs T"])
      (simp add: sync_mt_for_youngest_twig_def map_upd_triv)
next
  case False
  then have len: "length (t_mt T) = 4096" "\<forall>i<2048. t_mt T ! (2048 + i) = f i"
    and "\<exists>g mt. mt_of H g mt \<and> (\<forall>k<2048. t_mt T ! k = mt ! k)
             \<and> (\<forall>i<2048. i < nat (t_chg_start T) \<or> nat (t_chg_end T) < i \<longrightarrow> f i = g i)"
    using pend unfolding mt_pending_def by simp_all
  then obtain mt where mt: "sync_mtree H (t_mt T) (nat (t_chg_start T)) (nat (t_chg_end T)) = Inr mt" "mt_of H f mt"
    using sync_mtree_pending [OF len] by blast
  have "length mt = 4096" using mt(2) by (simp add: mt_of_def)
  then have root: "index mt 1 = Inr (mnode H 0 f 11 0)" using mt_of_root [OF mt(2)] by (simp add: index_def)
  let ?nt = "AList.update (t_youngest T) (x\<lparr>left_root := mnode H 0 f 11 0\<rparr>) (t_new_twigs T)"
  have mem: "t_youngest T \<in> set (map fst (t_new_twigs T))" using x by (metis domI dom_map_of_conv_image_fst set_map)
  have "sync_mt_for_youngest_twig H T False = Inr (T\<lparr>t_mt := mt, t_chg_start := - 1, t_chg_end := 0, t_new_twigs := ?nt\<rparr>)"
    using False mt(1) root x by (simp add: sync_mt_for_youngest_twig_def Let_def)
  moreover have "map fst ?nt = map fst (t_new_twigs T)" using mem by (simp add: update_keys)
  ultimately show ?thesis using mt(2)
    by (intro exI [of _ mt] exI [of _ "- 1"] exI [of _ 0] exI [of _ ?nt] conjI update_conv')
qed

section \<open>Adding the new twigs and evicting the old ones\<close>

lemma map_of_rev_distinct: "distinct (map fst m) \<Longrightarrow> map_of (rev m) = map_of m"
  by (induction m) (auto simp: map_add_def fun_eq_iff dom_map_of_conv_image_fst [symmetric] split: option.splits)

lemma add_twigs_ok:
  assumes "ut_ok u" "distinct (map fst m)"
  shows "\<exists>u'. add_twigs u m = Inr u' \<and> ut_ok u' \<and> ut_nodes u' = ut_nodes u
    \<and> (\<forall>t. tws.val u' t = (case map_of m t of Some x \<Rightarrow> Some x | None \<Rightarrow> tws.val u t))"
proof -
  let ?m = "map (\<lambda>(k, v). (k, Some v)) m"
  have e: "add_twigs u m = tws.put_all ?m u" for u
    unfolding add_twigs_def tws.put_all_def
  proof (induction m arbitrary: u)
    case (Cons kv m)
    then show ?case by (cases kv; cases "put_twig u (fst kv) (Some (snd kv))") simp_all
  qed simp
  obtain u' where u': "tws.put_all ?m u = Inr u'" "ut_ok u'"
    "\<forall>k. tws.val u' k = (case map_of (rev ?m) k of Some v \<Rightarrow> v | None \<Rightarrow> tws.val u k)"
    using tws.put_all_ok [OF assms(1), of ?m] by auto
  have "map fst ?m = map fst m" by (induction m) auto
  then have "map_of (rev ?m) = map_of ?m" using assms(2) map_of_rev_distinct [of ?m] by (simp only:)
  moreover have "map_of ?m t = map_option Some (map_of m t)" for t by (induction m) auto
  moreover have "ut_nodes u' = ut_nodes u"
    by (rule foldE_invariant [OF u'(1) [unfolded tws.put_all_def], where P = "\<lambda>v. ut_nodes v = ut_nodes u"])
      (auto dest: put_twig_nodes)
  ultimately show ?thesis using u' e by (auto split: option.splits)
qed

lemma nd_same: "ut_nodes u' = ut_nodes u \<Longrightarrow> nd u' l n = nd u l n"
  unfolding nds.val_def by (simp only: get_node_same [of u' u])

lemma evict_loop:
  assumes ok: "ut_ok u" and b: "b \<le> 2 ^ 56" and tw: "\<And>t. a \<le> t \<Longrightarrow> t < b \<Longrightarrow> tws.val u t = Some (x t)"
  shows "\<exists>u'. foldE (\<lambda>twig_id u.
         bindE (get_twig u twig_id) (\<lambda>t.
         bindE (unwrap ''unwrap on None'' t) (\<lambda>t.
         bindE (set_node u (np_pos TWIG_ROOT_LEVEL twig_id) (twig_root t)) (\<lambda>u.
           put_twig u twig_id None)))) [a..<b] u = Inr u' \<and> ut_ok u'
    \<and> (\<forall>t. tws.val u' t = (if a \<le> t \<and> t < b then None else tws.val u t))
    \<and> (\<forall>l n. l < 64 \<longrightarrow> n < 2 ^ 56 \<longrightarrow>
          nd u' l n = (if l = 12 \<and> a \<le> n \<and> n < b then Some (twig_root (x n)) else nd u l n))"
  using b tw
proof (induction b)
  case 0
  then show ?case using ok by simp
next
  case (Suc b)
  show ?case
  proof (cases "a \<le> b")
    case False
    then show ?thesis using ok by (intro exI [of _ u]) auto
  next
    case True
    have b56: "b < 2 ^ 56" using Suc.prems(1) by simp
    from Suc obtain w where w: "foldE (\<lambda>twig_id u.
         bindE (get_twig u twig_id) (\<lambda>t.
         bindE (unwrap ''unwrap on None'' t) (\<lambda>t.
         bindE (set_node u (np_pos TWIG_ROOT_LEVEL twig_id) (twig_root t)) (\<lambda>u.
           put_twig u twig_id None)))) [a..<b] u = Inr w" "ut_ok w"
      and wt: "\<forall>t. tws.val w t = (if a \<le> t \<and> t < b then None else tws.val u t)"
      and wn: "\<forall>l n. l < 64 \<longrightarrow> n < 2 ^ 56 \<longrightarrow>
          nd w l n = (if l = 12 \<and> a \<le> n \<and> n < b then Some (twig_root (x n)) else nd u l n)" by auto
    have g: "get_twig w b = Inr (Some (x b))" using tws.get_val [OF w(2), of b] wt Suc.prems(2) [OF True] by simp
    obtain v where v: "set_node w (np_pos 12 b) (twig_root (x b)) = Inr v" "ut_ok v" "ut_twigs v = ut_twigs w"
      "\<forall>l n. l < 64 \<longrightarrow> n < 2 ^ 56 \<longrightarrow> nd v l n = (if l = 12 \<and> n = b then Some (twig_root (x b)) else nd w l n)"
      using set_node_nd [OF w(2), of 12 b "twig_root (x b)"] b56 by auto
    obtain u' where u': "put_twig v b None = Inr u'" "ut_ok u'" "\<forall>t. tws.val u' t = (if t = b then None else tws.val v t)"
      using tws.put_val [OF v(2), of b None] by auto
    have n': "nd u' l n = nd v l n" for l n by (rule nd_same [OF put_twig_nodes [OF u'(1)]])
    have t': "tws.val v t = tws.val w t" for t using get_twig_same [OF v(3)] by (simp add: tws.val_def)
    have "TWIG_ROOT_LEVEL = 12" by (simp add: layout_defs)
    then show ?thesis using True w(1) g v(1) u'(1,2,3) wt wn v(4) n' t'
      by (intro exI [of _ u']) (auto simp: less_Suc_eq)
  qed
qed

section \<open>From the pending changes to the root\<close>

abbreviation touched_twigs :: "tree \<Rightarrow> nat set" where
  "touched_twigs T \<equiv> (\<lambda>i. i div 4) ` t_touched T"

text \<open>A twig before the flush: untouched, it is right; touched, its hashes of the groups of 512 bits
  that were not touched are right, and its left root is, except the youngest twig's.\<close>

definition twig_pending :: "hashfun \<Rightarrow> tree \<Rightarrow> (nat \<Rightarrow> hash32) \<Rightarrow> bytes \<Rightarrow> nat \<Rightarrow> twig \<Rightarrow> bool" where
  "twig_pending H T leaf bits t x \<longleftrightarrow>
     (t \<noteq> t_youngest T \<longrightarrow> left_root x = mnode H 0 (\<lambda>i. leaf (2048 * t + i)) 11 0)
     \<and> (t \<in> touched_twigs T \<longrightarrow> (\<exists>ob. twig_bits_ok H ob x \<and> (\<forall>j<4. 4 * t + j \<notin> t_touched T \<longrightarrow>
               page bits (2 * j) = page ob (2 * j) \<and> page bits (2 * j + 1) = page ob (2 * j + 1))))
     \<and> (t \<notin> touched_twigs T \<longrightarrow> twig_ok H bits x)"

text \<open>What \<^verbatim>\<open>flush_files\<close> needs to run through: every twig from \<open>alo\<close> to the youngest is there,
  and only those are.\<close>

definition flush_ready :: "hashfun \<Rightarrow> tree \<Rightarrow> (nat \<Rightarrow> hash32) \<Rightarrow> (nat \<Rightarrow> bytes) \<Rightarrow> nat \<Rightarrow> bool" where
  "flush_ready H T leaf ab alo \<longleftrightarrow>
     ut_ok (t_upper T) \<and> length (t_bits T) = TWIG_SHARD_COUNT \<and> finite (t_touched T) \<and> alo \<le> t_youngest T
     \<and> distinct (map fst (t_new_twigs T)) \<and> fst ` set (t_new_twigs T) \<subseteq> {alo..t_youngest T}
     \<and> t_youngest T \<in> fst ` set (t_new_twigs T)
     \<and> mt_pending H (\<lambda>i. leaf (2048 * t_youngest T + i)) T
     \<and> touched_twigs T \<subseteq> {alo..t_youngest T}
     \<and> (\<forall>t. alo \<le> t \<longrightarrow> t \<le> t_youngest T \<longrightarrow> shs.val (t_bits T) t = Some (ab t) \<and> length (ab t) = 256
          \<and> (\<exists>x. cur_twig T t = Some x \<and> length (active_bits_mtl1 x) = 4))
     \<and> (\<forall>t. t < alo \<or> t_youngest T < t \<longrightarrow> tws.val (t_upper T) t = None)"

definition flushed_twig :: "hashfun \<Rightarrow> tree \<Rightarrow> (nat \<Rightarrow> hash32) \<Rightarrow> nat \<Rightarrow> twig" where
  "flushed_twig H T leaf t = (if t = t_youngest T
     then (the (cur_twig T t))\<lparr>left_root := mnode H 0 (\<lambda>i. leaf (2048 * t_youngest T + i)) 11 0\<rparr> else the (cur_twig T t))"

text \<open>The state before the end of a block: \<open>leaf\<close> and \<open>ab\<close> are the leaves and active bits after
  the block, \<open>R0\<close> the twig roots the nodes stand for, \<open>y0\<close> the youngest twig of that time; twigs
  from \<open>alo\<close> on are in memory.\<close>

definition block_pending ::
  "hashfun \<Rightarrow> init_data \<Rightarrow> tree \<Rightarrow> (nat \<Rightarrow> hash32) \<Rightarrow> (nat \<Rightarrow> bytes) \<Rightarrow> nat \<Rightarrow> nat \<Rightarrow> (nat \<Rightarrow> hash32) \<Rightarrow> nat \<Rightarrow> bool" where
  "block_pending H D T leaf ab lo alo R0 y0 \<longleftrightarrow>
     flush_ready H T leaf ab alo
     \<and> 0 < t_youngest T \<and> t_youngest T < 2 ^ 51 \<and> y0 \<le> t_youngest T \<and> even lo \<and> lo \<le> alo
     \<and> t_youngest T \<in> touched_twigs T
     \<and> (\<forall>t. alo \<le> t \<longrightarrow> t \<le> t_youngest T \<longrightarrow> twig_pending H T leaf (ab t) t (the (cur_twig T t)))
     \<and> (\<forall>t<alo. shs.val (t_bits T) t = None \<and> ab t = ab_new)
     \<and> (\<forall>t. lo \<le> t \<longrightarrow> t < alo \<longrightarrow> nd (t_upper T) 12 t = Some (shard_roots H leaf ab t))
     \<and> (\<forall>t>t_youngest T. shard_roots H leaf ab t = twig_root (NULL_TWIG D))
     \<and> nd (t_upper T) 12 (t_youngest T + 1) = None
     \<and> upper_rep H (t_upper T) R0 lo y0
     \<and> (\<forall>t. shard_roots H leaf ab t \<noteq> R0 t \<or> y0 < t \<and> t \<le> t_youngest T \<longrightarrow> t \<in> touched_twigs T)"

lemma twig_bits_left [simp]: "twig_bits_ok H ob (x\<lparr>left_root := r\<rparr>) = twig_bits_ok H ob x"
  by (simp add: twig_bits_ok_def)

text \<open>The twigs after \<^verbatim>\<open>flush_files\<close>: only the lowest level of the bit tree is up to date.\<close>

lemma flush_files_ok:
  assumes ready: "flush_ready H T leaf ab alo" and files: "hp_inv (t_entry T)" "hp_inv (t_twig T)"
    and b: "alo \<le> b" "b \<le> t_youngest T"
  shows "\<exists>T' L. flush_files H T alo b = Inr (T', L) \<and> set L = (\<lambda>i. i div 2) ` t_touched T
    \<and> ut_ok (t_upper T') \<and> ut_nodes (t_upper T') = ut_nodes (t_upper T) \<and> t_youngest T' = t_youngest T
    \<and> length (t_bits T') = TWIG_SHARD_COUNT \<and> t_touched T' = {}
    \<and> hp_inv (t_entry T') \<and> snd (t_entry T') = [] \<and> hp_inv (t_twig T') \<and> snd (t_twig T') = []
    \<and> mt_of H (\<lambda>i. leaf (2048 * t_youngest T + i)) (t_mt T')
    \<and> (\<forall>t. shs.val (t_bits T') t = (if alo \<le> t \<and> t < b then None else shs.val (t_bits T) t))
    \<and> t_new_twigs T' = [(t_youngest T, flushed_twig H T leaf (t_youngest T))]
    \<and> (\<forall>t. tws.val (t_upper T') t = (if t < alo \<or> t_youngest T < t then None
          else if t \<in> touched_twigs T
          then Some (l1_stage H (ab t) {j. j < 4 \<and> 4 * t + j \<in> t_touched T} (flushed_twig H T leaf t))
          else Some (flushed_twig H T leaf t)))"
proof -
  let ?y = "t_youngest T" and ?f = "\<lambda>i. leaf (2048 * t_youngest T + i)"
  have P: "ut_ok (t_upper T)" "length (t_bits T) = TWIG_SHARD_COUNT" "finite (t_touched T)" "distinct (map fst (t_new_twigs T))"
    "fst ` set (t_new_twigs T) \<subseteq> {alo..?y}" "?y \<in> fst ` set (t_new_twigs T)" "mt_pending H ?f T"
    "touched_twigs T \<subseteq> {alo..?y}" "alo \<le> ?y"
    using ready by (simp_all add: flush_ready_def)
  have Q: "shs.val (t_bits T) t = Some (ab t)" "length (ab t) = 256"
      "\<exists>x. cur_twig T t = Some x \<and> length (active_bits_mtl1 x) = 4" if "alo \<le> t" "t \<le> ?y" for t
    using ready that unfolding flush_ready_def by blast+
  have out: "tws.val (t_upper T) t = None" if "t < alo \<or> ?y < t" for t
    using ready that unfolding flush_ready_def by blast
  obtain es ts where es: "hp_flush_all (t_entry T) = Inr es" "hp_inv es" "snd es = []"
      and ts: "hp_flush_all (t_twig T) = Inr ts" "hp_inv ts" "snd ts = []"
    using hpf.flush_ok [OF files(1)] hpf.flush_ok [OF files(2)] by blast
  let ?T1 = "T\<lparr>t_entry := es, t_twig := ts\<rparr>"
  obtain xy where xy: "map_of (t_new_twigs T) ?y = Some xy" using P(6) by (metis map_of_eq_None_iff not_None_eq)
  have "mt_pending H ?f ?T1" using P(7) by (simp only: mt_pending_files)
  from sync_youngest_pending [OF this, of xy] xy obtain mt s e nt where
    yt: "sync_mt_for_youngest_twig H ?T1 False = Inr (?T1\<lparr>t_mt := mt, t_chg_start := s, t_chg_end := e, t_new_twigs := nt\<rparr>)"
    and mt: "mt_of H ?f mt" and nt: "map fst nt = map fst (t_new_twigs T)"
      "map_of nt = (map_of (t_new_twigs T))(?y \<mapsto> xy\<lparr>left_root := mnode H 0 ?f 11 0\<rparr>)" by auto
  obtain u where u: "add_twigs (t_upper T) nt = Inr u" "ut_ok u" "ut_nodes u = ut_nodes (t_upper T)"
    "\<forall>t. tws.val u t = (case map_of nt t of Some x \<Rightarrow> Some x | None \<Rightarrow> tws.val (t_upper T) t)"
    using add_twigs_ok [OF P(1), of nt] P(4) nt(1) by auto
  let ?x = "flushed_twig H T leaf"
  have xt: "tws.val u t = Some (?x t)" if "alo \<le> t" "t \<le> ?y" for t
    using Q(3) [OF that] u(4) nt(2) xy by (auto simp: flushed_twig_def cur_twig_def split: option.splits)
  have xout: "tws.val u t = None" if "t < alo \<or> ?y < t" for t
  proof -
    have "t \<notin> fst ` set (t_new_twigs T)" "t \<noteq> ?y" using that P(5,9) by auto
    then have "map_of nt t = None" using nt(2) by (simp add: map_of_eq_None_iff)
    then show ?thesis using u(4) out [OF that] by simp
  qed
  have xy': "xy\<lparr>left_root := mnode H 0 ?f 11 0\<rparr> = ?x ?y" using xy by (simp add: flushed_twig_def cur_twig_def)
  let ?T2 = "?T1\<lparr>t_mt := mt, t_chg_start := s, t_chg_end := e, t_upper := u, t_new_twigs := [(?y, ?x ?y)]\<rparr>"
  have "\<exists>tw L. sync_mt_for_active_bits_phase1 H ?T2 = Inr (?T2\<lparr>t_upper := (t_upper ?T2)\<lparr>ut_twigs := tw\<rparr>\<rparr>, L)
    \<and> length tw = TWIG_SHARD_COUNT \<and> set L = (\<lambda>i. i div 2) ` t_touched ?T2
    \<and> (\<forall>t. shs.val tw t = (if t \<in> (\<lambda>i. i div 4) ` t_touched ?T2
          then Some (l1_stage H (ab t) {j. j < 4 \<and> 4 * t + j \<in> t_touched ?T2} (?x t)) else tws.val (t_upper ?T2) t))"
  proof (rule phase1_ok)
    fix t assume "t \<in> (\<lambda>i. i div 4) ` t_touched ?T2"
    then have t: "t \<in> touched_twigs T" "alo \<le> t" "t \<le> ?y" using P(8) by auto
    then have "length (active_bits_mtl1 (?x t)) = 4" using Q(3) [OF t(2,3)] by (auto simp: flushed_twig_def)
    then show "tws.val (t_upper ?T2) t = Some (?x t) \<and> shs.val (t_bits ?T2) t = Some (ab t) \<and> length (ab t) = 256
        \<and> length (active_bits_mtl1 (?x t)) = 4" using xt Q(1,2) t by simp
  qed (use P u in simp_all)
  then obtain tw L where p1: "sync_mt_for_active_bits_phase1 H ?T2 = Inr (?T2\<lparr>t_upper := u\<lparr>ut_twigs := tw\<rparr>\<rparr>, L)"
    "length tw = TWIG_SHARD_COUNT" "set L = (\<lambda>i. i div 2) ` t_touched T"
    "\<forall>t. shs.val tw t = (if t \<in> touched_twigs T
          then Some (l1_stage H (ab t) {j. j < 4 \<and> 4 * t + j \<in> t_touched T} (?x t)) else tws.val u t)" by auto
  obtain bits where bits: "foldE (\<lambda>twig_id bits. shard_put bits twig_id None) [alo..<b] (t_bits T) = Inr bits"
    "length bits = TWIG_SHARD_COUNT" "\<forall>t. shs.val bits t = (if t \<in> set [alo..<b] then None else shs.val (t_bits T) t)"
    using shs.put_all_same [OF P(2), of "[alo..<b]" None] by auto
  let ?T' = "?T2\<lparr>t_upper := u\<lparr>ut_twigs := tw\<rparr>, t_bits := bits, t_touched := {}\<rparr>"
  have "flush_files H T alo b = Inr (?T', L)"
    using es(1) ts(1) yt u(1) p1(1) bits(1) nt(2) xy'
    by (simp add: flush_files_def Let_def clear_touched_pos_def del: upt_Suc)
  moreover have ok': "ut_ok (u\<lparr>ut_twigs := tw\<rparr>)" using ut_ok_twigs [OF u(2) p1(2)] .
  moreover have "tws.val (u\<lparr>ut_twigs := tw\<rparr>) t = (if t < alo \<or> ?y < t then None
          else if t \<in> touched_twigs T then Some (l1_stage H (ab t) {j. j < 4 \<and> 4 * t + j \<in> t_touched T} (?x t))
          else Some (?x t))" for t
    using tws_val_eq [OF ok', of t] p1(4) xt [of t] xout [of t] P(8) by auto
  ultimately show ?thesis
    using p1(3) u(3) bits(2,3) es ts mt by (intro exI [of _ ?T'] exI [of _ L]) (simp del: mnode.simps)
qed

text \<open>\<^verbatim>\<open>evict_twigs\<close> completes the twigs and turns the evicted ones into nodes.\<close>

lemma evict_twigs_ok:
  assumes u: "ut_ok u" and L: "set L = (\<lambda>i. i div 2) ` S" and b: "a \<le> b" "b \<le> y" "y < 2 ^ 51"
    and S: "(\<lambda>i. i div 4) ` S \<subseteq> {a..y}"
    and x: "\<And>t. a \<le> t \<Longrightarrow> t \<le> y \<Longrightarrow> tws.val u t = Some (if t \<in> (\<lambda>i. i div 4) ` S
          then l1_stage H (ab t) {j. j < 4 \<and> 4 * t + j \<in> S} (x t) else x t)"
    and old: "\<And>t. t \<in> (\<lambda>i. i div 4) ` S \<Longrightarrow> \<exists>ob. twig_bits_ok H ob (x t) \<and> (\<forall>j<4. 4 * t + j \<notin> S \<longrightarrow>
          page (ab t) (2 * j) = page ob (2 * j) \<and> page (ab t) (2 * j + 1) = page ob (2 * j + 1))"
    and rest: "\<And>t. a \<le> t \<Longrightarrow> t \<le> y \<Longrightarrow> t \<notin> (\<lambda>i. i div 4) ` S \<Longrightarrow> twig_ok H (ab t) (x t)"
  shows "\<exists>u' L2 z. evict_twigs H u L a b = Inr (u', L2) \<and> ut_ok u' \<and> set L2 = (\<lambda>i. i div 8) ` S
    \<and> (\<forall>t. a \<le> t \<longrightarrow> t \<le> y \<longrightarrow> twig_ok H (ab t) (z t) \<and> left_root (z t) = left_root (x t))
    \<and> (\<forall>t. tws.val u' t = (if a \<le> t \<and> t \<le> y then if t < b then None else Some (z t) else tws.val u t))
    \<and> (\<forall>l n. l < 64 \<longrightarrow> n < 2 ^ 56 \<longrightarrow>
          nd u' l n = (if l = 12 \<and> a \<le> n \<and> n < b then Some (twig_root (z n)) else nd u l n))"
proof -
  let ?S4 = "(\<lambda>i. i div 4) ` S"
  let ?J = "\<lambda>t. {j. j < 4 \<and> 4 * t + j \<in> S}"
  have in_range: "a \<le> t" "t \<le> y" if "t \<in> ?S4" for t using S that by auto
  define x1 where "x1 t = l1_stage H (ab t) (?J t) (x t)" for t
  define z where "z t = (if t \<in> ?S4 then top_stage H (l2_stage H ((\<lambda>j. j div 2) ` ?J t) (x1 t)) else x t)" for t
  have lens: "length (active_bits_mtl1 (x1 t)) = 4 \<and> length (active_bits_mtl2 (x1 t)) = 2" if "t \<in> ?S4" for t
    using old [OF that] by (auto simp: x1_def l1_stage_def twig_bits_ok_def simp del: mnode.simps)
  have zok: "twig_ok H (ab t) (z t) \<and> left_root (z t) = left_root (x t)" if "a \<le> t" "t \<le> y" for t
  proof (cases "t \<in> ?S4")
    case True
    then obtain ob where ob: "twig_bits_ok H ob (x t)" "\<forall>j<4. 4 * t + j \<notin> S \<longrightarrow>
          page (ab t) (2 * j) = page ob (2 * j) \<and> page (ab t) (2 * j + 1) = page ob (2 * j + 1)" using old by blast
    have "twig_ok H (ab t) (top_stage H (l2_stage H ((\<lambda>j. j div 2) ` ?J t) (l1_stage H (ab t) (?J t) (x t))))"
      by (rule stages_ok(1) [OF ob(1)]) (use ob(2) in auto)
    then show ?thesis using True stages_ok(2) [OF ob(1), of "?J t" "ab t"] ob(2)
      by (simp add: z_def x1_def)
  next
    case False
    then show ?thesis using rest that by (simp add: z_def)
  qed
  have "\<exists>ts L2. sync_mt_for_active_bits_phase2 H u L = Inr (u\<lparr>ut_twigs := ts\<rparr>, L2)
    \<and> length ts = TWIG_SHARD_COUNT \<and> set L2 = (\<lambda>i. i div 8) ` S
    \<and> (\<forall>t. shs.val ts t = (if t \<in> ?S4
          then Some (top_stage H (l2_stage H ((\<lambda>j. j div 2) ` {j. j < 4 \<and> 4 * t + j \<in> S}) (x1 t))) else tws.val u t))"
    by (rule phase2_ok [OF u L]) (use x in_range lens in \<open>auto simp: x1_def\<close>)
  then obtain ts L2 where p2: "sync_mt_for_active_bits_phase2 H u L = Inr (u\<lparr>ut_twigs := ts\<rparr>, L2)"
    "length ts = TWIG_SHARD_COUNT" "set L2 = (\<lambda>i. i div 8) ` S"
    "\<forall>t. shs.val ts t = (if t \<in> ?S4
          then Some (top_stage H (l2_stage H ((\<lambda>j. j div 2) ` {j. j < 4 \<and> 4 * t + j \<in> S}) (x1 t))) else tws.val u t)" by blast
  let ?v = "u\<lparr>ut_twigs := ts\<rparr>"
  have okv: "ut_ok ?v" using ut_ok_twigs [OF u p2(2)] .
  have v: "tws.val ?v t = (if a \<le> t \<and> t \<le> y then Some (z t) else tws.val u t)" for t
    using p2(4) x [of t] in_range [of t] tws_val_eq [OF okv, of t] by (auto simp: z_def)
  have b56: "b \<le> 2 ^ 56" using b(2,3) by simp
  have "\<exists>u'. foldE (\<lambda>twig_id u.
         bindE (get_twig u twig_id) (\<lambda>t.
         bindE (unwrap ''unwrap on None'' t) (\<lambda>t.
         bindE (set_node u (np_pos TWIG_ROOT_LEVEL twig_id) (twig_root t)) (\<lambda>u.
           put_twig u twig_id None)))) [a..<b] ?v = Inr u' \<and> ut_ok u'
    \<and> (\<forall>t. tws.val u' t = (if a \<le> t \<and> t < b then None else tws.val ?v t))
    \<and> (\<forall>l n. l < 64 \<longrightarrow> n < 2 ^ 56 \<longrightarrow>
          nd u' l n = (if l = 12 \<and> a \<le> n \<and> n < b then Some (twig_root (z n)) else nd ?v l n))"
    by (rule evict_loop [OF okv b56]) (use v b(2) in simp)
  then obtain u' where u': "foldE (\<lambda>twig_id u.
         bindE (get_twig u twig_id) (\<lambda>t.
         bindE (unwrap ''unwrap on None'' t) (\<lambda>t.
         bindE (set_node u (np_pos TWIG_ROOT_LEVEL twig_id) (twig_root t)) (\<lambda>u.
           put_twig u twig_id None)))) [a..<b] ?v = Inr u'" "ut_ok u'"
    "\<forall>t. tws.val u' t = (if a \<le> t \<and> t < b then None else tws.val ?v t)"
    "\<forall>l n. l < 64 \<longrightarrow> n < 2 ^ 56 \<longrightarrow>
          nd u' l n = (if l = 12 \<and> a \<le> n \<and> n < b then Some (twig_root (z n)) else nd ?v l n)" by blast
  have "evict_twigs H u L a b = Inr (u', L2)" unfolding evict_twigs_def p2(1) bindE.simps prod.case u'(1) ..
  moreover have "nd ?v l n = nd u l n" for l n by (rule nd_same) simp
  ultimately show ?thesis using u'(2,3,4) p2(3) zok v b(2)
    by (intro exI [of _ u'] exI [of _ L2] exI [of _ z]) auto
qed

section \<open>Properties\<close>

text \<open>C1. The root of a block whose records are right: suppose that for every twig the recorded hash of
  each group of 512 active bits that the block did not touch is right (\<open>block_pending\<close>), for the youngest
  twig in \<^verbatim>\<open>new_twig_map\<close>.  This holds when the block touched every group of the youngest twig
  that has active entries, as in the block that starts the twig; \<^verbatim>\<open>flush_files\<close> itself destroys it for
  groups that only earlier blocks touched (shown below).  Then, after the
  block's appends and deactivations, calling \<^verbatim>\<open>flush_files\<close>, \<^verbatim>\<open>evict_twigs\<close> and \<^verbatim>\<open>sync_upper_nodes\<close> in
  the flusher's order succeeds and returns the root of the reference Merkle tree over all leaves and
  active bits of the shard, the evicted twigs among them; the tree is synchronised again and both files
  keep their invariant.\<close>

theorem end_of_block_root:
  assumes D: "get_init_data H = Inr D" and pend: "block_pending H D T leaf ab lo alo R0 y0"
    and files: "hp_inv (t_entry T)" "hp_inv (t_twig T)"
    and b: "alo \<le> b" "b \<le> t_youngest T" and idle: "\<And>t. alo \<le> t \<Longrightarrow> t < b \<Longrightarrow> ab t = ab_new"
  shows "\<exists>T' L u L2 u' ms. flush_files H T alo b = Inr (T', L) \<and> evict_twigs H (t_upper T') L alo b = Inr (u, L2)
    \<and> sync_upper_nodes H D u L2 (t_youngest T') = Inr (u', ms, mnode H 12 (shard_roots H leaf ab) (bit_length (t_youngest T)) 0)
    \<and> synced H D (T'\<lparr>t_upper := u'\<rparr>) leaf ab lo b \<and> hp_inv (t_entry T') \<and> hp_inv (t_twig T')"
proof -
  let ?y = "t_youngest T" and ?R = "shard_roots H leaf ab" and ?S = "t_touched T" and ?x = "flushed_twig H T leaf"
  have P: "0 < ?y" "?y < 2 ^ 51" "y0 \<le> ?y" "even lo" "lo \<le> alo" "touched_twigs T \<subseteq> {alo..?y}" "?y \<in> touched_twigs T"
    "nd (t_upper T) 12 (?y + 1) = None" "upper_rep H (t_upper T) R0 lo y0" and ready: "flush_ready H T leaf ab alo"
    using pend by (simp_all add: block_pending_def flush_ready_def)
  have Q: "shs.val (t_bits T) t = Some (ab t)" "length (ab t) = 256" if "alo \<le> t" "t \<le> ?y" for t
    using ready that unfolding flush_ready_def by blast+
  have x: "twig_pending H T leaf (ab t) t (?x t) \<and> left_root (?x t) = mnode H 0 (\<lambda>i. leaf (2048 * t + i)) 11 0"
    if "alo \<le> t" "t \<le> ?y" for t
  proof -
    have "twig_pending H T leaf (ab t) t (the (cur_twig T t))" using pend that unfolding block_pending_def by blast
    then show ?thesis using P(7) by (cases "t = ?y") (simp_all add: flushed_twig_def twig_pending_def del: mnode.simps)
  qed
  have low: "shs.val (t_bits T) t = None" "ab t = ab_new" if "t < alo" for t
    using pend that unfolding block_pending_def by blast+
  have lown: "nd (t_upper T) 12 t = Some (?R t)" if "lo \<le> t" "t < alo" for t
    using pend that unfolding block_pending_def by blast
  have beyond: "?R t = twig_root (fst (snd D))" if "?y < t" for t
    using pend that unfolding block_pending_def NULL_TWIG_def by blast
  have chg: "t \<in> touched_twigs T" if "?R t \<noteq> R0 t \<or> y0 < t \<and> t \<le> ?y" for t
    using pend that unfolding block_pending_def by blast
  from flush_files_ok [OF ready files b] obtain T' L where
    fl: "flush_files H T alo b = Inr (T', L)" "set L = (\<lambda>i. i div 2) ` ?S"
    and ok': "ut_ok (t_upper T')" and nodes': "ut_nodes (t_upper T') = ut_nodes (t_upper T)" and y': "t_youngest T' = ?y"
    and bits': "length (t_bits T') = TWIG_SHARD_COUNT"
      "\<forall>t. shs.val (t_bits T') t = (if alo \<le> t \<and> t < b then None else shs.val (t_bits T) t)"
    and files': "hp_inv (t_entry T')" "hp_inv (t_twig T')" and mt': "mt_of H (\<lambda>i. leaf (2048 * ?y + i)) (t_mt T')"
    and tw': "\<forall>t. tws.val (t_upper T') t = (if t < alo \<or> ?y < t then None
          else if t \<in> touched_twigs T then Some (l1_stage H (ab t) {j. j < 4 \<and> 4 * t + j \<in> ?S} (?x t))
          else Some (?x t))" by blast
  have "\<exists>u' L2 z. evict_twigs H (t_upper T') L alo b = Inr (u', L2) \<and> ut_ok u' \<and> set L2 = (\<lambda>i. i div 8) ` ?S
    \<and> (\<forall>t. alo \<le> t \<longrightarrow> t \<le> ?y \<longrightarrow> twig_ok H (ab t) (z t) \<and> left_root (z t) = left_root (?x t))
    \<and> (\<forall>t. tws.val u' t = (if alo \<le> t \<and> t \<le> ?y then if t < b then None else Some (z t) else tws.val (t_upper T') t))
    \<and> (\<forall>l n. l < 64 \<longrightarrow> n < 2 ^ 56 \<longrightarrow>
          nd u' l n = (if l = 12 \<and> alo \<le> n \<and> n < b then Some (twig_root (z n)) else nd (t_upper T') l n))"
  proof (rule evict_twigs_ok [OF ok' fl(2) b P(2,6)])
    fix t assume t: "t \<in> touched_twigs T"
    then have "alo \<le> t" "t \<le> ?y" using P(6) by auto
    then show "\<exists>ob. twig_bits_ok H ob (?x t) \<and> (\<forall>j<4. 4 * t + j \<notin> ?S \<longrightarrow>
          page (ab t) (2 * j) = page ob (2 * j) \<and> page (ab t) (2 * j + 1) = page ob (2 * j + 1))"
      using x t unfolding twig_pending_def by simp
  next
    fix t assume "alo \<le> t" "t \<le> ?y" "t \<notin> touched_twigs T"
    then show "twig_ok H (ab t) (?x t)" using x unfolding twig_pending_def by simp
  qed (use tw' in simp)
  then obtain u L2 z where ev: "evict_twigs H (t_upper T') L alo b = Inr (u, L2)" "ut_ok u" "set L2 = (\<lambda>i. i div 8) ` ?S"
    and z: "\<forall>t. alo \<le> t \<longrightarrow> t \<le> ?y \<longrightarrow> twig_ok H (ab t) (z t) \<and> left_root (z t) = left_root (?x t)"
    and uv: "\<forall>t. tws.val u t = (if alo \<le> t \<and> t \<le> ?y then if t < b then None else Some (z t) else tws.val (t_upper T') t)"
    and un: "\<forall>l n. l < 64 \<longrightarrow> n < 2 ^ 56 \<longrightarrow>
          nd u l n = (if l = 12 \<and> alo \<le> n \<and> n < b then Some (twig_root (z n)) else nd (t_upper T) l n)"
    unfolding nd_same [OF nodes'] by blast
  have zr: "twig_root (z t) = ?R t" if "alo \<le> t" "t \<le> ?y" for t
    using z x that by (simp add: twig_ok_def twig_bits_ok_def shard_roots_def twig_ref_def del: mnode.simps)
  have small: "t < 2 ^ 56" if "t \<le> ?y + 1" for t using that P(2) by simp
  have root_u: "root_val u t = (if t \<le> ?y then Some (?R t) else None)" if "lo \<le> t" "t \<le> ?y + 1" for t
  proof -
    have n: "nd u 12 t = (if alo \<le> t \<and> t < b then Some (twig_root (z t)) else nd (t_upper T) 12 t)"
      using un small [OF that(2)] by simp
    show ?thesis
    proof (cases "alo \<le> t \<and> t \<le> ?y")
      case True
      then show ?thesis using uv n zr by (simp add: root_val_def)
    next
      case False
      then show ?thesis using uv n tw' lown [OF that(1)] that(2) P(8) b by (auto simp: root_val_def not_le le_Suc_eq)
    qed
  qed
  have "root_val u (?y + 1) = None" using root_u [of "?y + 1"] P(5) b by simp
  then have roots: "roots_rep D u ?R lo ?y"
    using root_u beyond by (simp add: roots_rep_def)
  have "upper_rep H u R0 lo y0"
    unfolding upper_rep_def
  proof (intro allI impI)
    fix l n assume l: "13 \<le> l" "l \<le> calc_max_level y0" "edge_at lo l \<le> n" "n \<le> y0 div 2 ^ (l - 12) + 1"
    have "bit_length y0 \<le> 51" using P(2,3) bit_length_le_iff [of y0 51] by simp
    then have "l < 64" using l(2) calc_max_level_eq [of y0] P(2,3) by (simp add: layout_defs)
    moreover have "y0 div 2 ^ (l - 12) \<le> y0" by simp
    then have "n \<le> ?y + 1" using l(4) P(3) by linarith
    then have "n < 2 ^ 56" by (rule small)
    moreover note \<open>l < 64\<close>
    ultimately have "nd u l n = nd (t_upper T) l n" using un l(1) by auto
    then show "nd u l n = Some (mnode H 12 R0 (l - 12) n)" using l P(9) by (simp add: upper_rep_def)
  qed
  moreover have half: "i div 8 = i div 4 div 2" for i :: nat by (simp flip: div_mult2_eq)
  have L2: "set L2 = (\<lambda>t. t div 2) ` touched_twigs T" unfolding ev(3) half image_image ..
  have l1: "\<forall>i\<in>set L2. lo div 2 \<le> i \<and> i \<le> ?y div 2" unfolding L2 using P(5,6) by (auto simp: div_le_mono)
  have l2: "?y div 2 \<in> set L2" unfolding L2 using P(7) by blast
  have l3: "\<forall>t<?y. ?R t \<noteq> R0 t \<or> y0 < t \<longrightarrow> t div 2 \<in> set L2" unfolding L2 using chg less_imp_le by blast
  have l4: "L2 \<noteq> []" using l2 by auto
  ultimately obtain u' ms where u': "sync_upper_nodes H D u L2 ?y = Inr (u', ms, mnode H 12 ?R (bit_length ?y) 0)"
      "ut_ok u'" "ut_twigs u' = ut_twigs u" "upper_rep H u' ?R lo ?y" "\<forall>t<2 ^ 56. nd u' 12 t = nd u 12 t"
    using sync_upper_nodes_rep [OF D ev(2) P(1-4) _ roots l1 disjI1 [OF l2] l4 l3] P(5) b by (meson le_trans)
  have tu: "tws.val u' t = tws.val u t" for t using get_twig_same [OF u'(3)] by (simp add: tws.val_def)
  have same: "root_val u' t = root_val u t" if "t \<le> ?y + 1" for t
    using root_val_same [OF u'(3)] u'(5) small [OF that] by blast
  have "roots_rep D u' ?R lo ?y"
    using root_u beyond same P(5) b by (simp add: roots_rep_def)
  moreover have "shs.val (t_bits T') t = Some (ab t) \<and> length (ab t) = 256 \<and> (\<exists>x. tws.val u' t = Some x \<and> twig_ok H (ab t) x)"
    if "b \<le> t" "t \<le> ?y" for t
    using that b(1) bits'(2) Q uv tu z by simp
  moreover have "shs.val (t_bits T') t = None \<and> tws.val u' t = None \<and> ab t = ab_new" if "t < b" for t
    using that b bits'(2) uv tu tw' low idle by (cases "alo \<le> t") simp_all
  ultimately have "synced H D (T'\<lparr>t_upper := u'\<rparr>) leaf ab lo b"
    using u'(2,4) bits'(1) mt' y' P(1,2,4,5) b by (simp add: synced_def)
  then show ?thesis using fl(1) ev(1) u'(1) files' unfolding y' [symmetric]
    by (intro exI [of _ T'] exI [of _ L] exI [of _ u] exI [of _ L2] exI [of _ u'] exI [of _ ms]) simp
qed

text \<open>A block that appends one entry, with leaf hash \<open>h\<close>, at the start of the second twig.\<close>

definition demo_bits :: bytes where
  "demo_bits = 1 # replicate 255 0"

definition demo_block :: "init_data \<Rightarrow> hash32 \<Rightarrow> nat set \<Rightarrow> tree" where
  "demo_block D h S = (tree_new_blank D 0 demo_hp demo_hp)\<lparr>t_upper := demo_upper D, t_youngest := 1,
     t_bits := [Map.empty(0 \<mapsto> ab_new), Map.empty(0 \<mapsto> demo_bits), Map.empty, Map.empty],
     t_new_twigs := [(1, NULL_TWIG D)], t_mt := (NULL_MT D)[2048 := h], t_chg_start := 0, t_chg_end := 0, t_touched := S\<rparr>"

lemma demo_block_parts:
  shows "t_youngest (demo_block D h S) = 1" "t_touched (demo_block D h S) = S" "t_upper (demo_block D h S) = demo_upper D"
    "t_new_twigs (demo_block D h S) = [(1, NULL_TWIG D)]"
  by (simp_all add: demo_block_def)

lemma demo_upper_facts:
  shows "ut_ok (demo_upper D)" "tws.val (demo_upper D) t = (if t < 2 then Some (NULL_TWIG D) else None)"
proof -
  show ok: "ut_ok (demo_upper D)" by (auto simp: ut_ok_def demo_upper_def ut_new_def layout_defs)
  show "tws.val (demo_upper D) t = (if t < 2 then Some (NULL_TWIG D) else None)"
    unfolding tws_val_eq [OF ok] using shs_val [of "ut_twigs (demo_upper D)" t]
    by (auto simp: demo_upper_def layout_defs NULL_TWIG_def nth_Cons' div_eq_0_iff split: if_splits)
qed

lemma demo_cur: "t \<le> 1 \<Longrightarrow> cur_twig (demo_block D h S) t = Some (NULL_TWIG D)"
  by (simp add: cur_twig_def demo_block_parts demo_upper_facts)

lemma demo_block_ready:
  assumes D: "get_init_data H = Inr D" and S: "finite S" "(\<lambda>i. i div 4) ` S = {1}"
  shows "flush_ready H (demo_block D h S) ((\<lambda>_. H (entry_payload null_of []))(2048 := h)) ((\<lambda>_. ab_new)(1 := demo_bits)) 0"
proof -
  let ?n = "H (entry_payload null_of [])" and ?T = "demo_block D h S"
  let ?leaf = "(\<lambda>_. ?n)(2048 := h)" and ?ab = "(\<lambda>_. ab_new)(1 := demo_bits)"
  note null = null_values [OF D]
  have bits: "shs.val (t_bits ?T) t = Some (?ab t) \<and> length (?ab t) = 256" if "t \<le> 1" for t
    using that by (auto simp: le_Suc_eq demo_block_def demo_bits_def ab_new_def shs.val_def shard_get_def
        get_shard_idx_and_key_def layout_defs index_def)
  have lenmt: "length (NULL_MT D) = 4096" using null(2) by (simp add: mt_of_def)
  have leafs: "NULL_MT D ! (2048 + i) = ?n" if "i < 2048" for i
  proof -
    have "\<forall>q<2 ^ (11 - 0). NULL_MT D ! (2 ^ (11 - 0) + q) = tnode H (\<lambda>_. ?n) 0 q"
      using null(2) unfolding mt_of_def by blast
    then show ?thesis using that by simp
  qed
  have mt: "mt_pending H (\<lambda>i. ?leaf (2048 * 1 + i)) ?T"
    unfolding mt_pending_def
    using null(2) lenmt leafs
    by (auto simp: demo_block_def nth_list_update intro!: exI [of _ "\<lambda>_. ?n"] exI [of _ "NULL_MT D"])
  have nb: "twig_bits_ok H ab_new (NULL_TWIG D)" using null(1) by (simp add: twig_ok_def)
  show ?thesis
    unfolding flush_ready_def demo_block_parts S(2)
    using mt bits demo_cur S(1) demo_upper_facts twig_bits_nth(1) [OF nb]
    by (simp add: demo_block_def layout_defs del: mnode.simps fun_upd_apply)
qed

lemma demo_block_pending:
  assumes D: "get_init_data H = Inr D"
  shows "block_pending H D (demo_block D h {4}) ((\<lambda>_. H (entry_payload null_of []))(2048 := h))
    ((\<lambda>_. ab_new)(1 := demo_bits)) 0 0 (shard_roots H (\<lambda>_. H (entry_payload null_of [])) (\<lambda>_. ab_new)) 0"
proof -
  let ?n = "H (entry_payload null_of [])" and ?T = "demo_block D h {4}"
  let ?leaf = "(\<lambda>_. ?n)(2048 := h)" and ?ab = "(\<lambda>_. ab_new)(1 := demo_bits)"
  note null = null_values [OF D]
  have y: "t_youngest ?T = 1" "t_touched ?T = {4}" "t_upper ?T = demo_upper D" by (simp_all add: demo_block_def)
  have tt: "touched_twigs ?T = {1}" using y by simp
  have pages: "page demo_bits i = page ab_new i" if "0 < i" for i
    using that by (cases i) (simp_all add: page_def demo_bits_def ab_new_def drop_Cons')
  have nb: "twig_ok H ab_new (NULL_TWIG D)" "twig_bits_ok H ab_new (NULL_TWIG D)" using null(1) by (simp_all add: twig_ok_def)
  have pend: "twig_pending H ?T ?leaf (?ab t) t (NULL_TWIG D)" if "t \<le> 1" for t
  proof (cases "t = 1")
    case True
    then show ?thesis unfolding twig_pending_def tt y(1,2)
      using nb(2) pages by (auto intro!: exI [of _ ab_new])
  next
    case False
    then have "t = 0" using that by simp
    moreover have "left_root (NULL_TWIG D) = mnode H 0 (\<lambda>i. ?leaf (2048 * 0 + i)) 11 0"
      unfolding null(3) mt_of_root [OF null(2)] by (rule mnode_cong) simp
    ultimately show ?thesis unfolding twig_pending_def tt y(1) using nb(1) by (simp del: mnode.simps)
  qed
  have roots: "shard_roots H ?leaf ?ab t = shard_roots H (\<lambda>_. ?n) (\<lambda>_. ab_new) t" if "t \<noteq> 1" for t
  proof -
    have "mnode H 0 (\<lambda>i. ?leaf (2048 * t + i)) 11 0 = mnode H 0 (\<lambda>_. ?n) 11 0"
    proof (rule mnode_cong)
      fix i :: nat assume "i < (0 + 1) * 2 ^ 11"
      then have "2048 * t + i \<noteq> 2048" using that by (cases t) auto
      then show "?leaf (2048 * t + i) = ?n" by simp
    qed
    then show ?thesis using that by (simp add: shard_roots_def twig_ref_def del: mnode.simps)
  qed
  have "nd (demo_upper D) 12 2 = None"
    using nd_index [OF demo_upper_facts(1), of 12 2] by (simp add: demo_upper_def ut_new_def layout_defs)
  then have n2: "nd (demo_upper D) 12 (1 + 1) = None" by (simp only: one_add_one)
  have chg: "\<forall>t. shard_roots H ?leaf ?ab t \<noteq> shard_roots H (\<lambda>_. ?n) (\<lambda>_. ab_new) t \<or> 0 < t \<and> t \<le> 1 \<longrightarrow> t \<in> {1}"
    using roots by auto
  show ?thesis
    unfolding block_pending_def y(1,3) tt
    using demo_block_ready [OF D, of "{4}" h] demo_cur pend roots null_root_eq [OF D] n2 chg calc_max_level_eq [of 0]
    by (simp add: upper_rep_def layout_defs del: fun_upd_apply)
qed

theorem end_of_block_root_witness:
  "\<exists>D T' L u L2 u' ms. get_init_data toy_digest = Inr D
    \<and> flush_files toy_digest (demo_block D (replicate 32 7) {4}) 0 0 = Inr (T', L)
    \<and> evict_twigs toy_digest (t_upper T') L 0 0 = Inr (u, L2)
    \<and> sync_upper_nodes toy_digest D u L2 (t_youngest T') = Inr (u', ms, mnode toy_digest 12 (shard_roots toy_digest
        ((\<lambda>_. toy_digest (entry_payload null_of []))(2048 := replicate 32 7)) ((\<lambda>_. ab_new)(1 := demo_bits))) 1 0)"
proof -
  obtain D where D: "get_init_data toy_digest = Inr D" using init_data_exists by blast
  let ?T = "demo_block D (replicate 32 7) {4}"
  have f: "hp_inv (t_entry ?T)" "hp_inv (t_twig ?T)" "t_youngest ?T = 1"
    using demo_hp_inv by (simp_all add: demo_block_def tree_new_blank_def)
  have "bit_length 1 = 1" using bit_length_le_iff [of 1 1] bit_length_pos [of 1] by simp
  then show ?thesis
    using end_of_block_root [OF D demo_block_pending [OF D, of "replicate 32 7"] f(1,2), of 0] f(3) D
    by (simp del: fun_upd_apply mnode.simps) blast
qed

text \<open>C40. Active bits of earlier blocks are lost: \<^verbatim>\<open>flush_files\<close> keeps in \<^verbatim>\<open>new_twig_map\<close> the record
  of the youngest twig as it was before its active-bit hashes were computed. When that record
  still has the hashes of a twig without active bits, it has them again after the flush, and in
  the upper tree the hash of every group of 512 bits that the block did not touch is the one of
  a group without active bits, whatever bits \<open>ab\<close> earlier blocks set in it.\<close>

theorem flush_files_drops_untouched_bits:
  assumes ready: "flush_ready H T leaf ab alo" and files: "hp_inv (t_entry T)" "hp_inv (t_twig T)"
    and x: "map_of (t_new_twigs T) (t_youngest T) = Some x" "twig_bits_ok H ab_new x"
    and j: "j < 4" "4 * t_youngest T + j \<notin> t_touched T"
  shows "\<exists>T' L x' z. flush_files H T alo alo = Inr (T', L)
    \<and> map_of (t_new_twigs T') (t_youngest T') = Some x' \<and> twig_bits_ok H ab_new x'
    \<and> get_twig (t_upper T') (t_youngest T') = Inr (Some z)
    \<and> active_bits_mtl1 z ! j = hash1 H 8 (replicate 64 0)"
proof -
  let ?y = "t_youngest T" and ?x = "flushed_twig H T leaf (t_youngest T)"
  have alo: "alo \<le> ?y" using ready by (simp add: flush_ready_def)
  have xb: "twig_bits_ok H ab_new ?x" using x by (simp add: flushed_twig_def cur_twig_def)
  from flush_files_ok [OF ready files order_refl alo] obtain T' L where
    fl: "flush_files H T alo alo = Inr (T', L)" and T': "ut_ok (t_upper T')" "t_youngest T' = ?y" "t_new_twigs T' = [(?y, ?x)]"
    and tw: "tws.val (t_upper T') ?y = (if ?y \<in> touched_twigs T
          then Some (l1_stage H (ab ?y) {j. j < 4 \<and> 4 * ?y + j \<in> t_touched T} ?x) else Some ?x)"
    using alo by auto
  have m: "mnode H 8 (page ab_new) 1 j = hash1 H 8 (replicate 64 0)"
    using j(1) by (simp add: hash1_def hash2_def page_def ab_new_def flip: replicate_add)
  have "active_bits_mtl1 ?x ! j = hash1 H 8 (replicate 64 0)"
    using twig_bits_nth(2) [OF xb j(1)] m by (simp only:)
  then have "\<exists>z. tws.val (t_upper T') ?y = Some z \<and> active_bits_mtl1 z ! j = hash1 H 8 (replicate 64 0)"
    using tw j by (auto simp: l1_stage_def simp del: upt_rec_numeral)
  then show ?thesis using fl T' xb tws.get_val [OF T'(1), of ?y] by auto
qed

theorem flush_files_drops_untouched_bits_witness:
  "\<exists>D T' L z. get_init_data toy_digest = Inr D
    \<and> flush_files toy_digest (demo_block D (replicate 32 7) {5}) 0 0 = Inr (T', L)
    \<and> get_twig (t_upper T') 1 = Inr (Some z)
    \<and> active_bits_mtl1 z ! 0 = hash1 toy_digest 8 (replicate 64 0) \<and> ab_get_bit demo_bits 0 = Inr True"
proof -
  obtain D where D: "get_init_data toy_digest = Inr D" using init_data_exists by blast
  let ?T = "demo_block D (replicate 32 7) {5}"
  have f: "hp_inv (t_entry ?T)" "hp_inv (t_twig ?T)" "t_youngest ?T = 1" "t_touched ?T = {5}"
    using demo_hp_inv by (simp_all add: demo_block_def tree_new_blank_def)
  have nb: "twig_bits_ok toy_digest ab_new (NULL_TWIG D)" using null_values(1) [OF D] by (simp add: twig_ok_def)
  have bit: "ab_get_bit demo_bits 0 = Inr True" by (simp add: ab_get_bit_def demo_bits_def index_def)
  obtain T' L z where fl: "flush_files toy_digest ?T 0 0 = Inr (T', L)"
    and z: "get_twig (t_upper T') (t_youngest T') = Inr (Some z)" "active_bits_mtl1 z ! 0 = hash1 toy_digest 8 (replicate 64 0)"
    using flush_files_drops_untouched_bits [OF demo_block_ready [OF D, of "{5}" "replicate 32 7"] f(1,2), of "NULL_TWIG D" 0]
      nb f(3,4) demo_block_parts(4) [of D _ "{5}"] by auto
  have "t_youngest T' = 1"
    using flush_files_ok [OF demo_block_ready [OF D, of "{5}" "replicate 32 7"] f(1,2), of 0] fl f(3) by auto
  then show ?thesis using D fl z bit by auto
qed

end
