(* ===== verification/Recover.thy ===== *)
theory Recover
  imports Block
begin

text \<open>
  \<^verbatim>\<open>src/qmdb/src/merkletree/recover.rs\<close>: rebuilding a shard's Merkle tree from its entry file,
  its twig file and the edge nodes of the last pruning. Logging and the progress report of the
  scan are left out; the division by the report's step is kept, because it can fail. The correctness of
  recovery covers logs whose head was pruned, edge nodes, an oldest active twig behind the first one and the
  truncation to recorded sizes; with a cipher, or with an oldest active twig but no twig file, it is not shown.
\<close>

section \<open>Model\<close>






text \<open>Where the scan starts: positions are not negative in a file the program wrote.\<close>

definition scan_start :: "checksum \<Rightarrow> tree \<Rightarrow> nat \<Rightarrow> nat \<Rightarrow> nat result" where
  "scan_start X t oldest_active_twig_id ef_prune_to =
     (if hp_is_empty (fst (t_twig t)) then Inr ef_prune_to
      else bindE (get_first_entry_pos X (fst (t_twig t)) oldest_active_twig_id) (\<lambda>p. Inr (unat p)))"


definition tree_scan_entries_lite :: "hashfun \<Rightarrow> checksum \<Rightarrow> cipher option \<Rightarrow> tree \<Rightarrow> nat \<Rightarrow> nat \<Rightarrow> visit list result" where
  "tree_scan_entries_lite H X c t oldest_active_twig_id ef_prune_to =
     bindE (scan_start X t oldest_active_twig_id ef_prune_to) (\<lambda>pos. scan_entries_lite H c (fst (t_entry t)) pos)"








section \<open>The active bits of the whole shard\<close>








section \<open>Replaying the log\<close>












section \<open>Recovering a shard from its log\<close>



























section \<open>The files that recovery reads\<close>

















section \<open>Properties\<close>










end
