(* ===== verification/Check.thy ===== *)
theory Check
  imports Tree
begin

text \<open>
  \<^verbatim>\<open>src/qmdb/src/merkletree/check.rs\<close>: the consistency checks that the tests run on a tree. A
  check that fails panics. The order in which a hash map is walked is the argument \<open>iter\<close>, a
  function from the map to the list of its keys.
\<close>

section \<open>Model\<close>

definition MAX_UPPER_LEVEL :: nat where [layout_defs]: "MAX_UPPER_LEVEL = MAX_TREE_LEVEL - FIRST_LEVEL_ABOVE_TWIG"

definition check_node :: "hashfun \<Rightarrow> hash32 list \<Rightarrow> byte \<Rightarrow> nat \<Rightarrow> unit result" where
  "check_node H mt level i =
     bindE (index mt (2 * i)) (\<lambda>l. bindE (index mt (2 * i + 1)) (\<lambda>r.
     bindE (index mt i) (\<lambda>h. if h \<noteq> node_hash_inplace H level l r then Inl (Panic ''Mismatch'') else Inr ())))"

text \<open>Strides 1, 2, 4, ..., 1024 with levels 10, 9, ..., 0.\<close>

definition check_mt :: "hashfun \<Rightarrow> hash32 list \<Rightarrow> unit result" where
  "check_mt H mt =
     foldE (\<lambda>k _. foldE (\<lambda>i _. check_node H mt (word_of_nat (10 - k)) i) [2 ^ k..<2 * 2 ^ k] ()) [0..<11] ()"

definition hash_equal :: "string \<Rightarrow> bytes \<Rightarrow> bytes \<Rightarrow> unit result" where
  "hash_equal tag a b = (if a \<noteq> b then Inl (Panic (tag @ ''Not Equal'')) else Inr ())"

definition check_upper_nodes_internal :: "hashfun \<Rightarrow> init_data \<Rightarrow> tree \<Rightarrow> node_map \<Rightarrow> node_pos list \<Rightarrow> unit result" where
  "check_upper_nodes_internal H D t nodes keys =
     foldE (\<lambda>pos _.
       bindE (unwrap ''key'' (nodes pos)) (\<lambda>parent_hash.
       let level = np_level pos; n = np_nth pos in
       bindE (if level = FIRST_LEVEL_ABOVE_TWIG then
                bindE (get_twig_root (t_upper t) (2 * n)) (\<lambda>l. case l of None \<Rightarrow> Inr None | Some left \<Rightarrow>
                bindE (get_twig_root (t_upper t) (2 * n + 1)) (\<lambda>r.
                  Inr (Some (left, case r of Some v \<Rightarrow> v | None \<Rightarrow> twig_root (NULL_TWIG D)))))
              else
                bindE (get_node (t_upper t) (np_pos (level - 1) (2 * n))) (\<lambda>l. case l of None \<Rightarrow> Inr None | Some left \<Rightarrow>
                bindE (get_node (t_upper t) (np_pos (level - 1) (2 * n + 1))) (\<lambda>r. case r of None \<Rightarrow> Inr None | Some right \<Rightarrow>
                  Inr (Some (left, right))))) (\<lambda>children.
       case children of None \<Rightarrow> Inr ()
       | Some (left, right) \<Rightarrow>
           if node_hash_inplace H (word_of_nat level - 1) left right \<noteq> parent_hash then Inl (Panic ''Mismatch'') else Inr ())))
     keys ()"

definition check_upper_nodes :: "hashfun \<Rightarrow> init_data \<Rightarrow> (node_map \<Rightarrow> node_pos list) \<Rightarrow> tree \<Rightarrow> unit result" where
  "check_upper_nodes H D iter t =
     foldE (\<lambda>k _. bindE (index (ut_nodes (t_upper t)) k) (\<lambda>level.
       foldE (\<lambda>s _. bindE (index level s) (\<lambda>m. check_upper_nodes_internal H D t m (iter m))) [0..<NODE_SHARD_COUNT] ()))
     [0..<MAX_UPPER_LEVEL] ()"

definition check_twig :: "hashfun \<Rightarrow> twig \<Rightarrow> bytes \<Rightarrow> unit result" where
  "check_twig H t active_bits =
     bindE (foldE (\<lambda>i _. bindE (index (active_bits_mtl1 t) i) (\<lambda>h.
              bindE (ab_get_bits active_bits i 64) (\<lambda>b. hash_equal ''L1'' h (hash1 H 8 b)))) [0, 1, 2, 3] ()) (\<lambda>_.
     bindE (foldE (\<lambda>i _. bindE (index (active_bits_mtl2 t) i) (\<lambda>h.
              bindE (index (active_bits_mtl1 t) (2 * i)) (\<lambda>a. bindE (index (active_bits_mtl1 t) (2 * i + 1)) (\<lambda>b.
                hash_equal ''L2'' h (hash2 H 9 a b))))) [0, 1] ()) (\<lambda>_.
     bindE (index (active_bits_mtl2 t) 0) (\<lambda>a. bindE (index (active_bits_mtl2 t) 1) (\<lambda>b.
     bindE (hash_equal ''L3'' (active_bits_mtl3 t) (hash2 H 10 a b)) (\<lambda>_.
       hash_equal ''Top'' (twig_root t) (hash2 H 11 (left_root t) (active_bits_mtl3 t)))))))"

definition check_all_twigs :: "hashfun \<Rightarrow> ((nat \<rightharpoonup> twig) \<Rightarrow> nat list) \<Rightarrow> tree \<Rightarrow> unit result" where
  "check_all_twigs H iter t =
     foldE (\<lambda>s _. bindE (index (ut_twigs (t_upper t)) s) (\<lambda>shard.
       foldE (\<lambda>k _. bindE (unwrap ''key'' (shard k)) (\<lambda>twig.
         bindE (index (t_bits t) s) (\<lambda>bits.
         bindE (unwrap ''no entry found for key'' (bits k)) (\<lambda>ab. check_twig H twig ab)))) (iter shard) ()))
     [0..<TWIG_SHARD_COUNT] ()"

definition check_hash_consistency ::
  "hashfun \<Rightarrow> init_data \<Rightarrow> ((nat \<rightharpoonup> twig) \<Rightarrow> nat list) \<Rightarrow> (node_map \<Rightarrow> node_pos list) \<Rightarrow> tree \<Rightarrow> unit result" where
  "check_hash_consistency H D iter_t iter_n t =
     bindE (check_all_twigs H iter_t t) (\<lambda>_. bindE (check_upper_nodes H D iter_n t) (\<lambda>_. check_mt H (t_mt t)))"

section \<open>What the checks accept\<close>

text \<open>A loop of checks passes when every check does.\<close>

lemma foldE_checks: "foldE (\<lambda>x _. c x) xs () = Inr () \<longleftrightarrow> (\<forall>x\<in>set xs. c x = Inr ())"
proof (induction xs)
  case (Cons x xs)
  then show ?case by (cases "c x") auto
qed simp

lemma hash_equal_iff: "hash_equal tag a b = Inr () \<longleftrightarrow> a = b"
  by (simp add: hash_equal_def)

lemma two_pages: "length b = 256 \<Longrightarrow> i < 4 \<Longrightarrow> ab_get_bits b i 64 = Inr (page b (2 * i) @ page b (2 * i + 1))"
proof -
  assume b: "length b = 256" and i: "i < 4"
  have "take 64 (drop (i * 64) b) = take 32 (drop (i * 64) b) @ take 32 (drop (i * 64 + 32) b)"
    using take_add [of 32 32 "drop (i * 64) b"] by (simp add: add.commute)
  then show ?thesis using b i by (simp add: ab_get_bits_def page_def mult.commute add.commute)
qed

lemma check_twig_ok_iff:
  assumes "length b = 256" "length (active_bits_mtl1 x) = 4" "length (active_bits_mtl2 x) = 2"
  shows "check_twig H x b = Inr () \<longleftrightarrow> twig_ok H b x"
proof -
  obtain a0 a1 a2 a3 where a: "active_bits_mtl1 x = [a0, a1, a2, a3]" using assms(2) by (auto simp: numeral_eq_Suc length_Suc_conv)
  obtain c0 c1 where c: "active_bits_mtl2 x = [c0, c1]" using assms(3) by (auto simp: numeral_eq_Suc length_Suc_conv)
  have h: "hash1 H 8 (p @ q) = hash2 H 8 p q" for p q by (simp add: hash1_def hash2_def)
  have p: "ab_get_bits b 0 64 = Inr (page b 0 @ page b 1)" "ab_get_bits b (Suc 0) 64 = Inr (page b 2 @ page b 3)"
    "ab_get_bits b 2 64 = Inr (page b 4 @ page b 5)" "ab_get_bits b 3 64 = Inr (page b 6 @ page b 7)"
    using two_pages [OF assms(1), of 0] two_pages [OF assms(1), of 1] two_pages [OF assms(1), of 2] two_pages [OF assms(1), of 3] by simp_all
  have m: "mnode H 8 g 1 q = hash2 H 8 (g (2 * q)) (g (2 * q + 1))"
    "mnode H 8 g 2 q = hash2 H 9 (mnode H 8 g 1 (2 * q)) (mnode H 8 g 1 (2 * q + 1))"
    "mnode H 8 g 3 q = hash2 H 10 (mnode H 8 g 2 (2 * q)) (mnode H 8 g 2 (2 * q + 1))" for g q
    by (simp_all add: numeral_2_eq_2 numeral_3_eq_3)
  have "twig_ok H b x \<longleftrightarrow> a0 = hash2 H 8 (page b 0) (page b 1) \<and> a1 = hash2 H 8 (page b 2) (page b 3)
      \<and> a2 = hash2 H 8 (page b 4) (page b 5) \<and> a3 = hash2 H 8 (page b 6) (page b 7)
      \<and> c0 = hash2 H 9 a0 a1 \<and> c1 = hash2 H 9 a2 a3 \<and> active_bits_mtl3 x = hash2 H 10 c0 c1
      \<and> twig_root x = hash2 H 11 (left_root x) (active_bits_mtl3 x)"
    unfolding twig_ok_def twig_bits_ok_def a c list.map list.inject m by auto
  then show ?thesis
    unfolding check_twig_def a c by (auto simp: p h hash_equal_def index_def)
qed

lemma check_node_iff:
  assumes "length mt = 4096" "i < 2048"
  shows "check_node H mt level i = Inr () \<longleftrightarrow> mt ! i = hash2 H level (mt ! (2 * i)) (mt ! (2 * i + 1))"
  using assms by (simp add: check_node_def index_def node_hash_inplace_eq)

lemma check_mt_rows:
  assumes "length mt = 4096"
  shows "check_mt H mt = Inr () \<longleftrightarrow> (\<forall>m<11. \<forall>q<2 ^ (10 - m). mt ! (2 ^ (10 - m) + q) =
    hash2 H (word_of_nat m) (mt ! (2 ^ (11 - m) + 2 * q)) (mt ! (2 ^ (11 - m) + (2 * q + 1))))"
proof -
  have row: "(\<forall>i\<in>set [2 ^ k..<2 * 2 ^ k]. check_node H mt (word_of_nat (10 - k)) i = Inr ()) \<longleftrightarrow>
     (\<forall>q<2 ^ k. mt ! (2 ^ k + q) = hash2 H (word_of_nat (10 - k)) (mt ! (2 ^ Suc k + 2 * q)) (mt ! (2 ^ Suc k + (2 * q + 1))))"
    (is "?l \<longleftrightarrow> ?r") if "k < 11" for k
  proof -
    have b: "(2::nat) ^ k * 2 \<le> 2048" using power_increasing [of k 10 "2::nat"] that by simp
    have "?l \<longleftrightarrow> (\<forall>q<2 ^ k. check_node H mt (word_of_nat (10 - k)) (2 ^ k + q) = Inr ())"
    proof
      assume l: ?l
      then show "\<forall>q<2 ^ k. check_node H mt (word_of_nat (10 - k)) (2 ^ k + q) = Inr ()" by simp
    next
      assume r: "\<forall>q<2 ^ k. check_node H mt (word_of_nat (10 - k)) (2 ^ k + q) = Inr ()"
      show ?l
      proof
        fix i :: nat assume "i \<in> set [2 ^ k..<2 * 2 ^ k]"
        then have "i - 2 ^ k < 2 ^ k" "2 ^ k + (i - 2 ^ k) = i" by auto
        then show "check_node H mt (word_of_nat (10 - k)) i = Inr ()" using r by metis
      qed
    qed
    also have "\<dots> \<longleftrightarrow> ?r"
    proof (intro all_cong)
      fix q :: nat assume q: "q < 2 ^ k"
      then have "2 ^ k + q < 2048" using b by linarith
      then show "check_node H mt (word_of_nat (10 - k)) (2 ^ k + q) = Inr () \<longleftrightarrow> mt ! (2 ^ k + q) =
          hash2 H (word_of_nat (10 - k)) (mt ! (2 ^ Suc k + 2 * q)) (mt ! (2 ^ Suc k + (2 * q + 1)))"
        using check_node_iff [OF assms, of "2 ^ k + q"] by (simp add: algebra_simps)
    qed
    finally show ?thesis .
  qed
  have "check_mt H mt = Inr () \<longleftrightarrow> (\<forall>k<11. \<forall>q<2 ^ k. mt ! (2 ^ k + q) =
      hash2 H (word_of_nat (10 - k)) (mt ! (2 ^ Suc k + 2 * q)) (mt ! (2 ^ Suc k + (2 * q + 1))))" (is "_ = (\<forall>k<11. ?P k)")
    unfolding check_mt_def foldE_checks using row by (auto simp del: upt_rec_numeral)
  also have "\<dots> \<longleftrightarrow> (\<forall>m<11. ?P (10 - m))"
  proof
    assume r: "\<forall>m<11. ?P (10 - m)"
    show "\<forall>k<11. ?P k"
    proof (intro allI impI)
      fix k q :: nat assume k: "k < 11" "q < 2 ^ k"
      have "10 - (10 - k) = k" using k(1) by simp
      then show "mt ! (2 ^ k + q) = hash2 H (word_of_nat (10 - k)) (mt ! (2 ^ Suc k + 2 * q)) (mt ! (2 ^ Suc k + (2 * q + 1)))"
        using r [rule_format, of "10 - k" q] k by simp
    qed
  qed simp
  also have "\<dots> \<longleftrightarrow> (\<forall>m<11. \<forall>q<2 ^ (10 - m). mt ! (2 ^ (10 - m) + q) =
    hash2 H (word_of_nat m) (mt ! (2 ^ (11 - m) + 2 * q)) (mt ! (2 ^ (11 - m) + (2 * q + 1))))"
  proof -
    have "Suc (10 - m) = 11 - m" "10 - (10 - m) = m" if "m < 11" for m :: nat using that by simp_all
    then show ?thesis by auto
  qed
  finally show ?thesis .
qed

lemma check_mt_ok_iff:
  assumes "length mt = 4096"
  shows "check_mt H mt = Inr () \<longleftrightarrow> mt_of H (\<lambda>i. mt ! (2048 + i)) mt"
proof -
  let ?f = "\<lambda>i. mt ! (2048 + i)"
  have step: "tnode H ?f (Suc m) q = hash2 H (word_of_nat m) (tnode H ?f m (2 * q)) (tnode H ?f m (2 * q + 1))" for m q by simp
  show ?thesis
    unfolding check_mt_rows [OF assms]
  proof
    assume r: "\<forall>m<11. \<forall>q<2 ^ (10 - m). mt ! (2 ^ (10 - m) + q) =
      hash2 H (word_of_nat m) (mt ! (2 ^ (11 - m) + 2 * q)) (mt ! (2 ^ (11 - m) + (2 * q + 1)))"
    have "m \<le> 11 \<Longrightarrow> \<forall>q<2 ^ (11 - m). mt ! (2 ^ (11 - m) + q) = tnode H ?f m q" for m
    proof (induction m)
      case (Suc m)
      have e: "11 - Suc m = 10 - m" "2 ^ (11 - m) = 2 * (2::nat) ^ (10 - m)" using Suc.prems by (simp_all add: Suc_diff_le flip: power_Suc)
      show ?case
      proof (intro allI impI)
        fix q :: nat assume q: "q < 2 ^ (11 - Suc m)"
        then have "q < 2 ^ (10 - m)" using e(1) by simp
        then have b: "2 * q < 2 ^ (11 - m)" "2 * q + 1 < 2 ^ (11 - m)" using e(2) by linarith+
        have IH: "mt ! (2 ^ (11 - m) + i) = tnode H ?f m i" if "i < 2 ^ (11 - m)" for i using Suc that by simp
        show "mt ! (2 ^ (11 - Suc m) + q) = tnode H ?f (Suc m) q"
          unfolding step IH [OF b(1), symmetric] IH [OF b(2), symmetric] e(1) using r q Suc.prems e(1) by simp
      qed
    qed simp
    then show "mt_of H ?f mt" using assms by (simp add: mt_of_def del: mnode.simps)
  next
    assume m: "mt_of H ?f mt"
    have row: "mt ! (2 ^ (11 - m) + q) = tnode H ?f m q" if "m \<le> 11" "q < 2 ^ (11 - m)" for m q
      using \<open>mt_of H ?f mt\<close> that unfolding mt_of_def by blast
    show "\<forall>m<11. \<forall>q<2 ^ (10 - m). mt ! (2 ^ (10 - m) + q) =
      hash2 H (word_of_nat m) (mt ! (2 ^ (11 - m) + 2 * q)) (mt ! (2 ^ (11 - m) + (2 * q + 1)))"
    proof (intro allI impI)
      fix m q :: nat assume mq: "m < 11" "q < 2 ^ (10 - m)"
      have e: "11 - Suc m = 10 - m" "2 ^ (11 - m) = 2 * (2::nat) ^ (10 - m)" using mq by (simp_all add: Suc_diff_le flip: power_Suc)
      have b: "2 * q < 2 ^ (11 - m)" "2 * q + 1 < 2 ^ (11 - m)" using e mq(2) by linarith+
      have "mt ! (2 ^ (10 - m) + q) = tnode H ?f (Suc m) q" using row [of "Suc m" q] mq e(1) by (simp del: mnode.simps)
      then show "mt ! (2 ^ (10 - m) + q) =
        hash2 H (word_of_nat m) (mt ! (2 ^ (11 - m) + 2 * q)) (mt ! (2 ^ (11 - m) + (2 * q + 1)))"
        unfolding step row [OF less_imp_le [OF mq(1)] b(1)] row [OF less_imp_le [OF mq(1)] b(2)] .
    qed
  qed
qed

section \<open>Properties\<close>

text \<open>C32. The consistency check is sound: when \<^verbatim>\<open>check_hash_consistency\<close> returns, whatever the order
  in which the hash maps are walked, every twig in memory has the right hashes over its active
  bits and the right twig root, and the youngest twig's array is the Merkle tree over its leaves.\<close>

theorem check_hash_consistency_sound:
  assumes ck: "check_hash_consistency H D iter_t iter_n T = Inr ()" and it: "\<forall>m\<in>set (ut_twigs (t_upper T)). set (iter_t m) = dom m"
    and ok: "ut_ok (t_upper T)" "length (t_bits T) = TWIG_SHARD_COUNT" "length (t_mt T) = 4096"
    and tw: "get_twig (t_upper T) t = Inr (Some x)" "shard_get (t_bits T) t = Inr (Some b)" "length b = 256"
      "length (active_bits_mtl1 x) = 4" "length (active_bits_mtl2 x) = 2"
  shows "twig_ok H b x \<and> mt_of H (\<lambda>i. t_mt T ! (2048 + i)) (t_mt T)"
proof -
  have c: "check_all_twigs H iter_t T = Inr ()" "check_mt H (t_mt T) = Inr ()"
    using ck by (auto simp: check_hash_consistency_def)
  let ?s = "t mod TWIG_SHARD_COUNT" and ?k = "t div TWIG_SHARD_COUNT"
  have len: "length (ut_twigs (t_upper T)) = TWIG_SHARD_COUNT" using ok(1) by (simp add: ut_ok_def)
  have s: "?s < TWIG_SHARD_COUNT" by (simp add: layout_defs)
  have x: "(ut_twigs (t_upper T) ! ?s) ?k = Some x" "(t_bits T ! ?s) ?k = Some b"
    using tw(1,2) s len ok(2) by (simp_all add: get_twig_def shard_get_def get_shard_idx_and_key_def index_def)
  let ?body = "\<lambda>s. bindE (index (ut_twigs (t_upper T)) s) (\<lambda>shard.
       foldE (\<lambda>k _. bindE (unwrap ''key'' (shard k)) (\<lambda>twig.
         bindE (index (t_bits T) s) (\<lambda>bits.
         bindE (unwrap ''no entry found for key'' (bits k)) (\<lambda>ab. check_twig H twig ab)))) (iter_t shard) ())"
  have "\<forall>s\<in>set [0..<TWIG_SHARD_COUNT]. ?body s = Inr ()"
    using c(1) unfolding check_all_twigs_def foldE_checks by blast
  then have "?body ?s = Inr ()" using s by simp
  then have "\<forall>k\<in>set (iter_t (ut_twigs (t_upper T) ! ?s)). bindE (unwrap ''key'' ((ut_twigs (t_upper T) ! ?s) k)) (\<lambda>twig.
         bindE (index (t_bits T) ?s) (\<lambda>bits.
         bindE (unwrap ''no entry found for key'' (bits k)) (\<lambda>ab. check_twig H twig ab))) = Inr ()"
    using s len by (simp add: index_def foldE_checks)
  moreover have "?k \<in> set (iter_t (ut_twigs (t_upper T) ! ?s))" using it x(1) s len by (metis domI nth_mem)
  ultimately have "bindE (unwrap ''key'' ((ut_twigs (t_upper T) ! ?s) ?k)) (\<lambda>twig.
         bindE (index (t_bits T) ?s) (\<lambda>bits.
         bindE (unwrap ''no entry found for key'' (bits ?k)) (\<lambda>ab. check_twig H twig ab))) = Inr ()" by blast
  then have "check_twig H x b = Inr ()" using x s ok(2) by (simp add: index_def)
  then show ?thesis using check_twig_ok_iff [OF tw(3-5)] check_mt_ok_iff [OF ok(3)] c(2) by blast
qed

theorem check_hash_consistency_sound_witness:
  "\<exists>D. get_init_data toy_digest = Inr D
    \<and> check_hash_consistency toy_digest D (\<lambda>m. filter (\<lambda>k. m k \<noteq> None) [0, 1]) (\<lambda>_. []) (demo_tree D (demo_upper D)) = Inr ()
    \<and> twig_ok toy_digest ab_new (NULL_TWIG D)"
proof -
  obtain D where D: "get_init_data toy_digest = Inr D" using init_data_exists by blast
  let ?T = "demo_tree D (demo_upper D)"
  note null = null_values [OF D]
  have nb: "twig_bits_ok toy_digest ab_new (NULL_TWIG D)" using null(1) by (simp add: twig_ok_def)
  have len: "length (NULL_MT D) = 4096" using null(2) by (simp add: mt_of_def)
  have "\<forall>q<2 ^ (11 - 0). NULL_MT D ! (2 ^ (11 - 0) + q) = tnode toy_digest (\<lambda>_. toy_digest (entry_payload null_of [])) 0 q"
    using null(2) unfolding mt_of_def by blast
  then have "mt_of toy_digest (\<lambda>i. NULL_MT D ! (2048 + i)) (NULL_MT D)"
    using null(2) by (subst mt_of_cong [of _ "\<lambda>_. toy_digest (entry_payload null_of [])"]) simp_all
  then have mt: "check_mt toy_digest (NULL_MT D) = Inr ()" using check_mt_ok_iff [OF len] by blast
  have ab: "length ab_new = 256" by (simp add: ab_new_def)
  have tw: "check_twig toy_digest (NULL_TWIG D) ab_new = Inr ()"
    using check_twig_ok_iff [OF ab twig_bits_nth(1,3) [OF nb]] null(1) by blast
  have u: "ut_twigs (t_upper ?T) = [Map.empty(0 \<mapsto> NULL_TWIG D), Map.empty(0 \<mapsto> NULL_TWIG D), Map.empty, Map.empty]"
    "t_bits ?T = [Map.empty(0 \<mapsto> ab_new), Map.empty(0 \<mapsto> ab_new), Map.empty, Map.empty]" "t_mt ?T = NULL_MT D"
    by (simp_all add: demo_tree_def demo_upper_def NULL_TWIG_def tree_new_blank_def)
  have "check_all_twigs toy_digest (\<lambda>m. filter (\<lambda>k. m k \<noteq> None) [0, 1]) ?T = Inr ()"
    unfolding check_all_twigs_def u by (simp add: layout_defs index_def tw upt_rec)
  moreover have nds: "ut_nodes (t_upper ?T) = replicate 64 (replicate 4 Map.empty)"
    by (simp add: demo_tree_def demo_upper_def ut_new_def layout_defs)
  have "check_upper_nodes toy_digest D (\<lambda>_. []) ?T = Inr ()"
    unfolding check_upper_nodes_def nds foldE_checks
    by (auto simp: check_upper_nodes_internal_def index_def layout_defs foldE_checks simp del: upt_rec_numeral)
  ultimately have ck: "check_hash_consistency toy_digest D (\<lambda>m. filter (\<lambda>k. m k \<noteq> None) [0, 1]) (\<lambda>_. []) ?T = Inr ()"
    using mt u(3) by (simp add: check_hash_consistency_def)
  have g: "get_twig (t_upper ?T) 0 = Inr (Some (NULL_TWIG D))" "shard_get (t_bits ?T) 0 = Inr (Some ab_new)"
    by (simp_all add: get_twig_def shard_get_def u get_shard_idx_and_key_def index_def layout_defs)
  have ok: "ut_ok (t_upper ?T)" by (auto simp: ut_ok_def demo_tree_def demo_upper_def ut_new_def layout_defs)
  have "twig_ok toy_digest ab_new (NULL_TWIG D)"
    using check_hash_consistency_sound [OF ck _ ok _ _ g ab twig_bits_nth(1,3) [OF nb]] len u by (auto simp: layout_defs split: if_splits)
  with D ck show ?thesis by blast
qed

end
