(* ===== verification/Leaf.thy ===== *)
theory Leaf
  imports ShortList
begin

text \<open>
  The leaves of the in-memory indexer, \<^verbatim>\<open>src/qmdb/src/indexer/inmem.rs\<close>: a leaf is a slice of
  bytes that holds a count and a sorted list of pairs of a 48-bit key and a 48-bit value
  (\<^verbatim>\<open>RoLeaf\<close>, \<^verbatim>\<open>Leaf\<close>); leaves are carved out of large buffers (\<^verbatim>\<open>BufList\<close>). A mutable borrow
  of a leaf is modelled by reading its bytes and writing them back.

  The lemmas relate the bytes of a leaf to a list of pairs, and the locale \<open>leaf_store\<close> is the
  contract of the buffers: leaves do not overlap.
\<close>

section \<open>Constants\<close>

definition LEAF_INIT_CAP :: nat where [layout_defs]: "LEAF_INIT_CAP = 8"
definition DEFAULT_LEAF_CAP :: nat where [layout_defs]: "DEFAULT_LEAF_CAP = 32"
definition EXTRA_KV_PAIRS :: nat where [layout_defs]: "EXTRA_KV_PAIRS = 2"
definition DEFAULT_LEAF_LEN :: nat where [layout_defs]: "DEFAULT_LEAF_LEN = DEFAULT_LEAF_CAP - EXTRA_KV_PAIRS"
definition COMPACT_RATIO :: u32 where [layout_defs]: "COMPACT_RATIO = 20"
definition COMPACT_THRES :: u32 where [layout_defs]: "COMPACT_THRES = 500"
definition BUF_SIZE :: nat where [layout_defs]: "BUF_SIZE = 1024 * 10 - 16"
definition K_SIZE :: nat where [layout_defs]: "K_SIZE = 6"
definition V_SIZE :: nat where [layout_defs]: "V_SIZE = 6"
definition KV_SIZE :: nat where [layout_defs]: "KV_SIZE = K_SIZE + V_SIZE"

section \<open>Leaves\<close>

definition leaf_len :: "bytes \<Rightarrow> nat result" where
  "leaf_len data = bindE (slice data 0 2) (\<lambda>s. bindE (read_u16 s) (\<lambda>w. Inr (unat w)))"

definition leaf_is_full :: "bytes \<Rightarrow> bool result" where
  "leaf_is_full data = bindE (leaf_len data) (\<lambda>n. Inr (2 + n * KV_SIZE = length data))"

definition leaf_get :: "bytes \<Rightarrow> nat \<Rightarrow> (u64 \<times> i64) result" where
  "leaf_get data idx =
     (let start = 2 + idx * KV_SIZE in
      bindE (bindE (slice data start (start + 8)) read_u64) (\<lambda>w.
      let k = push_bit 16 w in
      bindE (bindE (slice data (start + KV_SIZE - 8) (start + KV_SIZE)) read_u64) (\<lambda>w.
      let v = drop_bit 16 w in
      Inr (drop_bit 16 k, v))))"

text \<open>The loops over \<^verbatim>\<open>0..self.len()\<close>: \<open>i\<close> is the index, \<open>left\<close> the number of indices to come.\<close>

primrec leaf_seek_from :: "bytes \<Rightarrow> u64 \<Rightarrow> nat \<Rightarrow> nat \<Rightarrow> nat option result" where
  "leaf_seek_from data k i 0 = Inr None"
| "leaf_seek_from data k i (Suc left) =
     bindE (leaf_get data i) (\<lambda>(got_k, _).
       if k \<le> got_k then Inr (Some i) else leaf_seek_from data k (i + 1) left)"

definition leaf_seek :: "bytes \<Rightarrow> u64 \<Rightarrow> nat option result" where
  "leaf_seek data k = bindE (leaf_len data) (leaf_seek_from data k 0)"

primrec leaf_find_from :: "bytes \<Rightarrow> u64 \<Rightarrow> i64 \<Rightarrow> nat \<Rightarrow> nat \<Rightarrow> nat option result" where
  "leaf_find_from data k v i 0 = Inr None"
| "leaf_find_from data k v i (Suc left) =
     bindE (leaf_get data i) (\<lambda>(got_k, got_v).
       if (k, v) = (got_k, got_v) then Inr (Some i)
       else if k < got_k then Inr None
       else leaf_find_from data k v (i + 1) left)"

definition leaf_find_kv :: "bytes \<Rightarrow> u64 \<Rightarrow> i64 \<Rightarrow> nat option result" where
  "leaf_find_kv data k v = bindE (leaf_len data) (leaf_find_from data k v 0)"

definition leaf_change_value :: "bytes \<Rightarrow> nat \<Rightarrow> i64 \<Rightarrow> bytes result" where
  "leaf_change_value data idx v =
     (let start = 2 + idx * KV_SIZE; bz = u64_le v in
      write_at data (start + K_SIZE) (take 6 bz))"

definition copy_within :: "bytes \<Rightarrow> nat \<Rightarrow> nat \<Rightarrow> nat \<Rightarrow> bytes result" where
  "copy_within data a b dest = bindE (slice data a b) (\<lambda>s. write_at data dest s)"

definition leaf_insert :: "bytes \<Rightarrow> nat \<Rightarrow> u64 \<Rightarrow> i64 \<Rightarrow> bytes result" where
  "leaf_insert data idx k v =
     bindE (leaf_len data) (\<lambda>len.
     let start = 2 + idx * KV_SIZE; end' = 2 + len * KV_SIZE in
     bindE (if start < end' then copy_within data start end' (start + KV_SIZE) else Inr data) (\<lambda>data.
     bindE (write_at data start (u64_le k)) (\<lambda>data.
     let bz = u64_le v in
     bindE (write_at data (start + K_SIZE) (take 6 bz)) (\<lambda>data.
     let new_len = (word_of_nat len :: u16) + 1 in
     write_at data 0 (u16_le new_len)))))"

definition leaf_append :: "bytes \<Rightarrow> u64 \<Rightarrow> i64 \<Rightarrow> bytes result" where
  "leaf_append data k v = bindE (leaf_len data) (\<lambda>len. leaf_insert data len k v)"

definition leaf_remove :: "bytes \<Rightarrow> nat \<Rightarrow> bytes result" where
  "leaf_remove data idx =
     bindE (leaf_len data) (\<lambda>len.
     let start = 2 + idx * KV_SIZE; end' = 2 + len * KV_SIZE in
     bindE (copy_within data (start + KV_SIZE) end' start) (\<lambda>data.
     let new_len = (word_of_nat len :: u16) - 1 in
     write_at data 0 (u16_le new_len)))"

definition leaf_erase :: "bytes \<Rightarrow> u64 \<Rightarrow> i64 \<Rightarrow> bytes result" where
  "leaf_erase data k v =
     bindE (leaf_find_kv data k v) (\<lambda>r. case r of
       Some idx \<Rightarrow> leaf_remove data idx
     | None \<Rightarrow> Inl (Panic ''Cannot Erase Non-existent KV''))"

definition leaf_change :: "bytes \<Rightarrow> u64 \<Rightarrow> i64 \<Rightarrow> i64 \<Rightarrow> bytes result" where
  "leaf_change data k old_v new_v =
     bindE (leaf_find_kv data k old_v) (\<lambda>r. case r of
       Some idx \<Rightarrow> leaf_change_value data idx new_v
     | None \<Rightarrow> Inl (Panic ''Cannot Change Non-existent KV''))"

section \<open>Buffers\<close>

record leaf_bufs =
  lb_list :: "bytes list"
  lb_offset :: nat

definition lb_new :: leaf_bufs where
  "lb_new = \<lparr>lb_list = [replicate BUF_SIZE 0], lb_offset = 0\<rparr>"

text \<open>\<^verbatim>\<open>allocate\<close> returns the position of the new leaf, its bytes and the buffers.\<close>

definition lb_allocate :: "leaf_bufs \<Rightarrow> nat \<Rightarrow> (u64 \<times> bytes \<times> leaf_bufs) result" where
  "lb_allocate bl cap =
     (if 2 ^ 16 - 1 < cap then Inl (Panic ''Leaf Capacity Too Large'')
      else if lb_list bl = [] then Inl (Panic ''unwrap on None'')
      else let last_len = length (last (lb_list bl)); sz = cap * KV_SIZE + 4 in
      bindE (if last_len < lb_offset bl + sz then
               let buf_size = max BUF_SIZE sz in
               if 2 ^ 32 - 1 < buf_size then Inl (Panic ''Buffer Size Too Large'')
               else Inr \<lparr>lb_list = lb_list bl @ [replicate buf_size 0], lb_offset = 0\<rparr>
             else Inr bl) (\<lambda>bl.
      let buf_idx = length (lb_list bl) - 1; offset = lb_offset bl in
      bindE (write_at (last (lb_list bl)) offset (u16_le (word_of_nat cap))) (\<lambda>last'.
      let pos = or (push_bit 32 (word_of_nat buf_idx)) (word_of_nat offset) in
      bindE (slice last' (offset + 2) (offset + sz)) (\<lambda>bz.
      Inr (pos, bz, \<lparr>lb_list = butlast (lb_list bl) @ [last'], lb_offset = offset + sz\<rparr>)))))"

definition pos_buf :: "u64 \<Rightarrow> nat" where "pos_buf pos = unat (drop_bit 32 pos)"
definition pos_off :: "u64 \<Rightarrow> nat" where "pos_off pos = unat (take_bit 32 pos)"

definition lb_get_leaf :: "leaf_bufs \<Rightarrow> u64 \<Rightarrow> bytes result" where
  "lb_get_leaf bl pos =
     (let buf_idx = pos_buf pos; offset = pos_off pos in
      bindE (index (lb_list bl) buf_idx) (\<lambda>buf.
      bindE (bindE (slice buf offset (offset + 2)) read_u16) (\<lambda>w.
      let cap = unat w; sz = cap * KV_SIZE + 4 in
      slice buf (offset + 2) (offset + sz))))"

text \<open>The end of a mutable borrow of the leaf at \<open>pos\<close>, whose bytes are then \<open>data\<close>.\<close>

definition lb_put_leaf :: "leaf_bufs \<Rightarrow> u64 \<Rightarrow> bytes \<Rightarrow> leaf_bufs result" where
  "lb_put_leaf bl pos data =
     (let buf_idx = pos_buf pos; offset = pos_off pos in
      bindE (index (lb_list bl) buf_idx) (\<lambda>buf.
      bindE (write_at buf (offset + 2) data) (\<lambda>buf.
      Inr (bl\<lparr>lb_list := (lb_list bl)[buf_idx := buf]\<rparr>))))"

definition lb_create_leaf :: "leaf_bufs \<Rightarrow> u64 \<Rightarrow> i64 \<Rightarrow> (u64 \<times> leaf_bufs) result" where
  "lb_create_leaf bl k v =
     bindE (lb_allocate bl LEAF_INIT_CAP) (\<lambda>(pos, data, bl).
     bindE (write_at data 0 [0, 0]) (\<lambda>data.
     bindE (leaf_append data k v) (\<lambda>data.
     bindE (lb_put_leaf bl pos data) (\<lambda>bl. Inr (pos, bl)))))"

section \<open>Bytes of a leaf\<close>

lemma kv_sizes: "KV_SIZE = 12" "K_SIZE = 6"
  by (simp_all add: layout_defs)

lemma take_le_enc: "n \<le> m \<Longrightarrow> take n (le_enc m x) = le_enc n x"
proof (induction n arbitrary: m x)
  case 0
  then show ?case by simp
next
  case (Suc n)
  then obtain m' where "m = Suc m'" "n \<le> m'" by (cases m) auto
  with Suc.IH [of m' "x div 256"] show ?case by simp
qed

lemma splice_mid:
  "length X = i \<Longrightarrow> length Y = length W \<Longrightarrow> splice (X @ Y @ Z) i W = X @ W @ Z"
  by (simp add: splice_def)

lemma splice_at:
  "b = X @ Y @ Z \<Longrightarrow> length X = i \<Longrightarrow> length Y = length W \<Longrightarrow> splice b i W = X @ W @ Z"
  by (simp add: splice_def)

definition enc_kv :: "u64 \<times> i64 \<Rightarrow> bytes" where
  "enc_kv = (\<lambda>(k, v). le_enc 6 (unat k) @ le_enc 6 (unat v))"

definition enc_kvs :: "(u64 \<times> i64) list \<Rightarrow> bytes" where
  "enc_kvs ps = concat (map enc_kv ps)"

definition small_kv :: "u64 \<times> i64 \<Rightarrow> bool" where
  "small_kv = (\<lambda>(k, v). unat k < 2 ^ 48 \<and> unat v < 2 ^ 48)"

text \<open>The bytes hold exactly the pairs \<open>ps\<close>, with room for more behind them.\<close>

definition leaf_rep :: "bytes \<Rightarrow> (u64 \<times> i64) list \<Rightarrow> bool" where
  "leaf_rep data ps \<longleftrightarrow>
     (\<exists>rest. data = u16_le (word_of_nat (length ps)) @ enc_kvs ps @ rest \<and> 12 dvd length rest)
     \<and> length data \<le> 2 + 12 * (2 ^ 16 - 1) \<and> list_all small_kv ps"

lemma length_enc_kv [simp]: "length (enc_kv p) = 12"
  by (simp add: enc_kv_def split: prod.split)

lemma length_enc_kvs [simp]: "length (enc_kvs ps) = 12 * length ps"
  by (induction ps) (simp_all add: enc_kvs_def)

lemma enc_kvs_Nil [simp]: "enc_kvs [] = []"
  and enc_kvs_Cons [simp]: "enc_kvs (p # ps) = enc_kv p @ enc_kvs ps"
  and enc_kvs_append [simp]: "enc_kvs (ps @ qs) = enc_kvs ps @ enc_kvs qs"
  by (simp_all add: enc_kvs_def)

lemma leaf_repI:
  assumes "data = u16_le (word_of_nat (length ps)) @ enc_kvs ps @ rest" and "12 dvd length rest"
    and "length data \<le> 2 + 12 * (2 ^ 16 - 1)" and "list_all small_kv ps"
  shows "leaf_rep data ps"
  using assms unfolding leaf_rep_def by blast

lemma leaf_repE:
  assumes "leaf_rep data ps"
  obtains rest where "data = u16_le (word_of_nat (length ps)) @ enc_kvs ps @ rest"
    and "12 dvd length rest" and "length ps \<le> 2 ^ 16 - 1" and "list_all small_kv ps"
    and "length rest + 12 * length ps \<le> 12 * (2 ^ 16 - 1)"
proof -
  obtain rest where r: "data = u16_le (word_of_nat (length ps)) @ enc_kvs ps @ rest"
    "12 dvd length rest" "length data \<le> 2 + 12 * (2 ^ 16 - 1)" "list_all small_kv ps"
    using assms unfolding leaf_rep_def by blast
  then show ?thesis by (intro that [of rest]) auto
qed

lemma leaf_len_rep [simp]: "leaf_rep data ps \<Longrightarrow> leaf_len data = Inr (length ps)"
  by (erule leaf_repE) (simp add: leaf_len_def unat_of_nat read_u16_le [where bz = "[]", simplified])

lemma leaf_is_full_rep:
  "leaf_rep data ps \<Longrightarrow> leaf_is_full data = Inr (length data = 2 + 12 * length ps)"
  by (auto simp: leaf_is_full_def layout_defs)

lemma mask_low: "drop_bit 16 (push_bit 16 (word_of_nat n :: u64)) = word_of_nat (n mod 2 ^ 48)"
proof -
  have "drop_bit 16 (push_bit 16 (word_of_nat n :: u64)) = take_bit 48 (word_of_nat n)"
    by (rule bit_word_eqI) (auto simp: bit_simps)
  also have "\<dots> = word_of_nat (take_bit 48 n)" by (simp add: take_bit_of_nat)
  finally show ?thesis by (simp only: take_bit_eq_mod)
qed

lemma drop_of_nat: "n < 2 ^ 64 \<Longrightarrow> drop_bit 16 (word_of_nat n :: u64) = word_of_nat (n div 2 ^ 16)"
  by (simp add: word_unat_eq_iff unat_drop_bit_eq drop_bit_eq_div unat_div unat_of_nat)

lemma read_u64_exact: "length s = 8 \<Longrightarrow> read_u64 s = Inr (word_of_nat (le_dec s))"
  by (simp add: read_u64_def read_le_def)

lemma leaf_get_rep:
  assumes rep: "leaf_rep data ps" and i: "i < length ps"
  shows "leaf_get data i = Inr (ps ! i)"
proof -
  obtain rest where d: "data = u16_le (word_of_nat (length ps)) @ enc_kvs ps @ rest"
    and sm: "list_all small_kv ps" using rep by (rule leaf_repE)
  obtain k v where kv: "ps ! i = (k, v)" by fastforce
  then have lt: "unat k < 2 ^ 48" "unat v < 2 ^ 48"
    using sm i by (auto simp: list_all_length small_kv_def)
  define X Z where "X = u16_le (word_of_nat (length ps)) @ enc_kvs (take i ps)"
    and "Z = enc_kvs (drop (Suc i) ps) @ rest"
  have ps: "ps = take i ps @ (k, v) # drop (Suc i) ps" using id_take_nth_drop [OF i] kv by simp
  have d': "data = X @ (le_enc 6 (unat k) @ le_enc 6 (unat v)) @ Z"
    unfolding d X_def Z_def by (subst (2) ps) (simp add: enc_kv_def)
  have X: "length X = 2 + i * 12" using i by (simp add: X_def)
  have s1: "slice data (2 + i * 12) (2 + i * 12 + 8) = Inr (le_enc 6 (unat k) @ take 2 (le_enc 6 (unat v)))"
    unfolding d' using X by (simp add: slice_def)
  have s2: "slice data (2 + i * 12 + 12 - 8) (2 + i * 12 + 12) = Inr (drop 4 (le_enc 6 (unat k)) @ le_enc 6 (unat v))"
    unfolding d' using X by (simp add: slice_def)
  have n1: "le_dec (le_enc 6 (unat k) @ take 2 (le_enc 6 (unat v))) mod 2 ^ 48 = unat k"
    using lt by (simp add: le_dec_append le_dec_enc)
  define w where "w = le_dec (drop 4 (le_enc 6 (unat k)) @ le_enc 6 (unat v))"
  have b: "le_dec (drop 4 (le_enc 6 (unat k))) < 2 ^ 16"
    using le_dec_bound [of "drop 4 (le_enc 6 (unat k))"] by simp
  have w: "w = le_dec (drop 4 (le_enc 6 (unat k))) + 2 ^ 16 * unat v"
    using lt by (simp add: w_def le_dec_append le_dec_enc)
  have w64: "w < 2 ^ 64" and wd: "w div 2 ^ 16 = unat v" using b lt by (simp_all add: w)
  show ?thesis
    using n1 w64 wd
    by (simp add: leaf_get_def layout_defs s1 [simplified] s2 [simplified] read_u64_exact
        mask_low [simplified] drop_of_nat kv flip: w_def)
qed

lemma leaf_seek_from_rep:
  "leaf_rep data ps \<Longrightarrow> i + left = length ps \<Longrightarrow>
   leaf_seek_from data k i left =
     Inr (if left = length (takeWhile (\<lambda>p. fst p < k) (drop i ps)) then None
          else Some (i + length (takeWhile (\<lambda>p. fst p < k) (drop i ps))))"
proof (induction left arbitrary: i)
  case 0
  then show ?case by simp
next
  case (Suc left)
  then have i: "i < length ps" by simp
  obtain k' v' where p: "ps ! i = (k', v')" by fastforce
  have d: "drop i ps = (k', v') # drop (Suc i) ps" using i p by (simp add: Cons_nth_drop_Suc [symmetric])
  show ?case
    using Suc.IH [of "Suc i"] Suc.prems by (auto simp: leaf_get_rep i p d)
qed

lemma leaf_seek_rep:
  "leaf_rep data ps \<Longrightarrow>
   leaf_seek data k =
     (let n = length (takeWhile (\<lambda>p. fst p < k) ps) in
      Inr (if n = length ps then None else Some n))"
  using leaf_seek_from_rep [of data ps 0 "length ps" k]
  by (auto simp: leaf_seek_def Let_def)

lemma leaf_find_from_rep:
  "leaf_rep data ps \<Longrightarrow> sorted (map fst ps) \<Longrightarrow> i + left = length ps \<Longrightarrow>
   leaf_find_from data k v i left =
     Inr (if (k, v) \<in> set (drop i ps)
          then Some (i + length (takeWhile (\<lambda>p. p \<noteq> (k, v)) (drop i ps))) else None)"
proof (induction left arbitrary: i)
  case 0
  then show ?case by simp
next
  case (Suc left)
  then have i: "i < length ps" by simp
  obtain k' v' where p: "ps ! i = (k', v')" by fastforce
  have d: "drop i ps = (k', v') # drop (Suc i) ps" using i p by (simp add: Cons_nth_drop_Suc [symmetric])
  have "sorted (map fst (drop i ps))" using sorted_wrt_drop [OF Suc.prems(2), of i] by (simp add: drop_map)
  then have "k' \<le> fst q" if "q \<in> set (drop (Suc i) ps)" for q using that by (auto simp: d)
  then have "k < k' \<Longrightarrow> (k, v) \<notin> set (drop (Suc i) ps)" by fastforce
  then show ?case
    using Suc.IH [of "Suc i"] Suc.prems by (auto simp: leaf_get_rep i p d)
qed

lemma leaf_find_kv_rep:
  "leaf_rep data ps \<Longrightarrow> sorted (map fst ps) \<Longrightarrow>
   leaf_find_kv data k v =
     Inr (if (k, v) \<in> set ps then Some (length (takeWhile (\<lambda>p. p \<noteq> (k, v)) ps)) else None)"
  using leaf_find_from_rep [of data ps 0 "length ps" k v] by (simp add: leaf_find_kv_def)

section \<open>Updates of a leaf\<close>

lemma leaf_change_value_rep:
  assumes rep: "leaf_rep data ps" and i: "i < length ps" and v: "unat v < 2 ^ 48"
  shows "\<exists>data'. leaf_change_value data i v = Inr data' \<and> length data' = length data
    \<and> leaf_rep data' (ps[i := (fst (ps ! i), v)])"
proof -
  obtain rest where d: "data = u16_le (word_of_nat (length ps)) @ enc_kvs ps @ rest"
    and r: "12 dvd length rest" and sm: "list_all small_kv ps"
    and sz: "length rest + 12 * length ps \<le> 12 * (2 ^ 16 - 1)"
    using rep by (rule leaf_repE)
  obtain k w where kv: "ps ! i = (k, w)" by fastforce
  define X Z where "X = u16_le (word_of_nat (length ps)) @ enc_kvs (take i ps) @ le_enc 6 (unat k)"
    and "Z = enc_kvs (drop (Suc i) ps) @ rest"
  have ps: "ps = take i ps @ (k, w) # drop (Suc i) ps" using id_take_nth_drop [OF i] kv by simp
  have d': "data = X @ le_enc 6 (unat w) @ Z"
    unfolding d X_def Z_def by (subst (2) ps) (simp add: enc_kv_def)
  have X: "length X = 2 + i * 12 + 6" using i by (simp add: X_def)
  have "leaf_change_value data i v = Inr (X @ le_enc 6 (unat v) @ Z)"
    using splice_mid [OF X, of "le_enc 6 (unat w)" "le_enc 6 (unat v)" Z] X
    by (simp add: leaf_change_value_def layout_defs u64_le_def take_le_enc d' add.assoc)
  moreover have "leaf_rep (X @ le_enc 6 (unat v) @ Z) (ps[i := (k, v)])"
  proof (rule leaf_repI [where rest = rest])
    show "X @ le_enc 6 (unat v) @ Z = u16_le (word_of_nat (length (ps[i := (k, v)]))) @ enc_kvs (ps[i := (k, v)]) @ rest"
      using i by (simp add: X_def Z_def upd_conv_take_nth_drop enc_kv_def)
    show "length (X @ le_enc 6 (unat v) @ Z) \<le> 2 + 12 * (2 ^ 16 - 1)"
      using i sz by (simp add: X Z_def)
    show "list_all small_kv (ps[i := (k, v)])"
      using sm i v kv by (auto simp: list_all_length nth_list_update small_kv_def)
  qed (rule r)
  ultimately show ?thesis using kv d' by simp
qed

lemma copy_within_mid:
  assumes "length X = i" and "length B = m" and "length R = n"
  shows "copy_within (X @ (B @ R) @ Z) i (i + m) (i + n) = Inr (X @ take n (B @ R) @ B @ Z)"
proof -
  have s: "slice (X @ (B @ R) @ Z) i (i + m) = Inr B" using assms by (simp add: slice_def)
  have "X @ (B @ R) @ Z = (X @ take n (B @ R)) @ drop n (B @ R) @ Z"
    by (metis append.assoc append_take_drop_id)
  then have "splice (X @ (B @ R) @ Z) (i + n) B = (X @ take n (B @ R)) @ B @ Z"
    by (rule splice_at) (use assms in auto)
  then show ?thesis using assms by (simp add: copy_within_def s)
qed

lemma write_pair:
  assumes "length X = i" and "length G = 12"
  shows "bindE (write_at (X @ G @ Z) i (u64_le k)) (\<lambda>data. write_at data (i + 6) (take 6 (u64_le v)))
    = Inr (X @ enc_kv (k, v) @ Z)"
proof -
  have "X @ G @ Z = X @ take 8 G @ drop 8 G @ Z"
    by (metis append.assoc append_take_drop_id)
  then have "splice (X @ G @ Z) i (u64_le k) = X @ u64_le k @ drop 8 G @ Z"
    by (rule splice_at) (use assms in auto)
  then have w: "write_at (X @ G @ Z) i (u64_le k) = Inr (X @ le_enc 8 (unat k) @ drop 8 G @ Z)"
    using assms by (simp add: write_at_def u64_le_def)
  have "le_enc 8 (unat k) = le_enc 6 (unat k) @ drop 6 (le_enc 8 (unat k))"
    using append_take_drop_id [of 6 "le_enc 8 (unat k)"] by (simp add: take_le_enc)
  then have eq: "X @ le_enc 8 (unat k) @ drop 8 G @ Z
      = (X @ le_enc 6 (unat k)) @ (drop 6 (le_enc 8 (unat k)) @ drop 8 G) @ Z"
    by (metis append.assoc)
  have "splice (X @ le_enc 8 (unat k) @ drop 8 G @ Z) (i + 6) (le_enc 6 (unat v)) = X @ enc_kv (k, v) @ Z"
    unfolding eq by (subst splice_mid) (use assms in \<open>simp_all add: enc_kv_def\<close>)
  then have "write_at (X @ le_enc 8 (unat k) @ drop 8 G @ Z) (i + 6) (take 6 (u64_le v)) = Inr (X @ enc_kv (k, v) @ Z)"
    using assms by (simp add: write_at_def u64_le_def take_le_enc)
  then show ?thesis unfolding w bindE.simps .
qed

lemma leaf_insert_rep:
  assumes rep: "leaf_rep data ps" and i: "i \<le> length ps" and room: "length data \<noteq> 2 + 12 * length ps"
    and sm': "small_kv (k, v)"
  shows "\<exists>data'. leaf_insert data i k v = Inr data' \<and> length data' = length data
    \<and> leaf_rep data' (take i ps @ (k, v) # drop i ps)"
proof -
  obtain rest where d: "data = u16_le (word_of_nat (length ps)) @ enc_kvs ps @ rest"
    and r: "12 dvd length rest" and sm: "list_all small_kv ps"
    and sz: "length rest + 12 * length ps \<le> 12 * (2 ^ 16 - 1)"
    using rep by (rule leaf_repE)
  have "rest \<noteq> []" using room d by auto
  then have r12: "12 \<le> length rest" using dvd_imp_le [OF r] by simp
  define X B R Z where "X = u16_le (word_of_nat (length ps)) @ enc_kvs (take i ps)"
    and "B = enc_kvs (drop i ps)" and "R = take 12 rest" and "Z = drop 12 rest"
  have X: "length X = 2 + i * 12" and B: "length B = 12 * (length ps - i)" and R: "length R = 12"
    using i r12 by (simp_all add: X_def B_def R_def)
  have e: "enc_kvs ps = enc_kvs (take i ps) @ enc_kvs (drop i ps)"
    by (simp flip: enc_kvs_append)
  have d': "data = X @ (B @ R) @ Z" by (simp add: d e X_def B_def R_def Z_def)
  define G where "G = take 12 (B @ R)"
  have G: "length G = 12" using R by (simp add: G_def)
  have en: "2 + length ps * 12 = (2 + i * 12) + 12 * (length ps - i)" using i by simp
  have mv: "(if 2 + i * 12 < 2 + length ps * 12
      then copy_within data (2 + i * 12) (2 + length ps * 12) (2 + i * 12 + 12) else Inr data)
      = Inr (X @ G @ B @ Z)"
  proof (cases "i = length ps")
    case True
    then have "B = []" using B by simp
    then show ?thesis using True R by (simp add: d' G_def)
  next
    case False
    then show ?thesis using i copy_within_mid [OF X B R, of Z]
      by (simp only: d' en G_def) simp
  qed
  define D where "D = u16_le (word_of_nat (Suc (length ps))) @ enc_kvs (take i ps) @ enc_kv (k, v) @ B @ Z"
  have hdr: "write_at (X @ enc_kv (k, v) @ B @ Z) 0 (u16_le (word_of_nat (length ps) + 1)) = Inr D"
    using splice_mid [of "[]" 0 "u16_le (word_of_nat (length ps))" "u16_le (word_of_nat (length ps) + 1)"
        "enc_kvs (take i ps) @ enc_kv (k, v) @ B @ Z"]
    by (simp add: write_at_def X_def D_def add.commute)
  have "leaf_insert data i k v = Inr D"
    unfolding leaf_insert_def leaf_len_rep [OF rep] bindE.simps Let_def kv_sizes mv
    by (simp only: write_pair [OF X G] hdr bindE.simps flip: bindE_assoc)
  moreover have "length D = length data" using X B G R i by (simp add: D_def d' X_def)
  moreover have "leaf_rep D (take i ps @ (k, v) # drop i ps)"
  proof (rule leaf_repI [where rest = Z])
    show "D = u16_le (word_of_nat (length (take i ps @ (k, v) # drop i ps)))
        @ enc_kvs (take i ps @ (k, v) # drop i ps) @ Z"
      using i by (simp add: D_def B_def)
    show "12 dvd length Z" using r r12 by (simp add: Z_def dvd_diff_nat)
    show "length D \<le> 2 + 12 * (2 ^ 16 - 1)"
      using sz d \<open>length D = length data\<close> by simp
    show "list_all small_kv (take i ps @ (k, v) # drop i ps)"
      using sm sm' by (auto simp: list_all_iff dest: in_set_takeD in_set_dropD)
  qed
  ultimately show ?thesis by blast
qed

lemma leaf_remove_rep:
  assumes rep: "leaf_rep data ps" and i: "i < length ps"
  shows "\<exists>data'. leaf_remove data i = Inr data' \<and> length data' = length data
    \<and> leaf_rep data' (take i ps @ drop (Suc i) ps)"
proof -
  obtain rest where d: "data = u16_le (word_of_nat (length ps)) @ enc_kvs ps @ rest"
    and r: "12 dvd length rest" and sm: "list_all small_kv ps" and n: "length ps \<le> 2 ^ 16 - 1"
    and sz: "length rest + 12 * length ps \<le> 12 * (2 ^ 16 - 1)"
    using rep by (rule leaf_repE)
  define X P B where "X = u16_le (word_of_nat (length ps)) @ enc_kvs (take i ps)"
    and "P = enc_kv (ps ! i)" and "B = enc_kvs (drop (Suc i) ps)"
  have ps: "ps = take i ps @ ps ! i # drop (Suc i) ps" using id_take_nth_drop [OF i] .
  have d': "data = X @ P @ B @ rest" unfolding d X_def P_def B_def by (subst (2) ps) simp
  have X: "length X = 2 + i * 12" and P: "length P = 12" and B: "length B = 12 * (length ps - Suc i)"
    using i by (simp_all add: X_def P_def B_def)
  define Z where "Z = drop (length B) (P @ B) @ rest"
  have s: "slice data (2 + i * 12 + 12) (2 + length ps * 12) = Inr B"
    using X P B i by (simp add: d' slice_def)
  have "data = X @ take (length B) (P @ B) @ Z"
    unfolding d' Z_def by (metis append.assoc append_take_drop_id)
  then have sp: "splice data (2 + i * 12) B = X @ B @ Z"
    by (rule splice_at [OF _ X]) simp
  have mv: "copy_within data (2 + i * 12 + 12) (2 + length ps * 12) (2 + i * 12) = Inr (X @ B @ Z)"
    unfolding copy_within_def s bindE.simps sp [symmetric]
    by (rule write_at_ok) (use X P in \<open>simp add: d'\<close>)
  have w: "(word_of_nat (length ps) :: u16) - 1 = word_of_nat (length ps - 1)"
    using i by (simp add: of_nat_diff)
  define D where "D = u16_le (word_of_nat (length ps - 1)) @ enc_kvs (take i ps) @ B @ Z"
  have hdr: "write_at (X @ B @ Z) 0 (u16_le (word_of_nat (length ps) - 1)) = Inr D"
    using splice_mid [of "[]" 0 "u16_le (word_of_nat (length ps))" "u16_le (word_of_nat (length ps) - 1)"
        "enc_kvs (take i ps) @ B @ Z"]
    by (simp add: write_at_def X_def D_def w)
  have "leaf_remove data i = Inr D"
    using mv hdr by (simp add: leaf_remove_def leaf_len_rep [OF rep] layout_defs Let_def)
  moreover have len: "length D = length data"
    using P i by (simp add: D_def d' X_def Z_def)
  moreover have "leaf_rep D (take i ps @ drop (Suc i) ps)"
  proof (rule leaf_repI [where rest = Z])
    show "D = u16_le (word_of_nat (length (take i ps @ drop (Suc i) ps)))
        @ enc_kvs (take i ps @ drop (Suc i) ps) @ Z"
      using i by (simp add: D_def B_def min_def)
    have "length Z = 12 + length rest" using P by (simp add: Z_def)
    then show "12 dvd length Z" using r by simp
    show "length D \<le> 2 + 12 * (2 ^ 16 - 1)" using sz d len by simp
    show "list_all small_kv (take i ps @ drop (Suc i) ps)"
      using sm by (auto simp: list_all_iff dest: in_set_takeD in_set_dropD)
  qed
  ultimately show ?thesis by blast
qed

text \<open>Erasing and changing act on the first occurrence of the pair.\<close>

primrec change1 :: "u64 \<times> i64 \<Rightarrow> i64 \<Rightarrow> (u64 \<times> i64) list \<Rightarrow> (u64 \<times> i64) list" where
  "change1 p w [] = []"
| "change1 p w (q # ps) = (if q = p then (fst p, w) # ps else q # change1 p w ps)"

lemma remove1_takeWhile:
  "p \<in> set ps \<Longrightarrow>
   take (length (takeWhile (\<lambda>q. q \<noteq> p) ps)) ps @ drop (Suc (length (takeWhile (\<lambda>q. q \<noteq> p) ps))) ps = remove1 p ps"
  by (induction ps) auto

lemma change1_takeWhile:
  "p \<in> set ps \<Longrightarrow> ps[length (takeWhile (\<lambda>q. q \<noteq> p) ps) := (fst p, w)] = change1 p w ps"
  by (induction ps) auto

lemma first_index:
  assumes "p \<in> set ps"
  shows "length (takeWhile (\<lambda>q. q \<noteq> p) ps) < length ps"
    and "ps ! length (takeWhile (\<lambda>q. q \<noteq> p) ps) = p"
  using assms by (induction ps) auto

lemma leaf_erase_rep:
  assumes "leaf_rep data ps" and "sorted (map fst ps)"
  shows "(k, v) \<in> set ps \<Longrightarrow> \<exists>data'. leaf_erase data k v = Inr data' \<and> length data' = length data
      \<and> leaf_rep data' (remove1 (k, v) ps)"
    and "(k, v) \<notin> set ps \<Longrightarrow> leaf_erase data k v = Inl (Panic ''Cannot Erase Non-existent KV'')"
  using leaf_remove_rep [OF assms(1) first_index(1)]
  by (auto simp: leaf_erase_def leaf_find_kv_rep [OF assms] remove1_takeWhile)

lemma leaf_change_rep:
  assumes "leaf_rep data ps" and "sorted (map fst ps)"
  shows "(k, v) \<in> set ps \<Longrightarrow> unat w < 2 ^ 48 \<Longrightarrow>
      \<exists>data'. leaf_change data k v w = Inr data' \<and> length data' = length data
      \<and> leaf_rep data' (change1 (k, v) w ps)"
    and "(k, v) \<notin> set ps \<Longrightarrow> leaf_change data k v w = Inl (Panic ''Cannot Change Non-existent KV'')"
proof -
  assume in_ps: "(k, v) \<in> set ps" and w: "unat w < 2 ^ 48"
  show "\<exists>data'. leaf_change data k v w = Inr data' \<and> length data' = length data
      \<and> leaf_rep data' (change1 (k, v) w ps)"
    using leaf_change_value_rep [OF assms(1) first_index(1) [OF in_ps] w] in_ps
      change1_takeWhile [OF in_ps, of w]
    by (simp add: leaf_change_def leaf_find_kv_rep [OF assms] first_index(2) [OF in_ps])
next
  assume "(k, v) \<notin> set ps"
  then show "leaf_change data k v w = Inl (Panic ''Cannot Change Non-existent KV'')"
    by (simp add: leaf_change_def leaf_find_kv_rep [OF assms])
qed

section \<open>Leaves do not overlap\<close>

text \<open>
  The contract of the buffers. \<open>ok s L\<close> says that the positions in \<open>L\<close> are live; writing one
  of them or allocating a new one leaves the others alone.
\<close>

locale leaf_store =
  fixes alloc :: "'s \<Rightarrow> nat \<Rightarrow> ('p \<times> bytes \<times> 's) result"
    and get :: "'s \<Rightarrow> 'p \<Rightarrow> bytes result"
    and put :: "'s \<Rightarrow> 'p \<Rightarrow> bytes \<Rightarrow> 's result"
    and ok :: "'s \<Rightarrow> 'p set \<Rightarrow> bool"
    and room :: "'s \<Rightarrow> bool"
  assumes put_law: "\<lbrakk>ok s L; p \<in> L; get s p = Inr d; length d' = length d\<rbrakk> \<Longrightarrow>
      \<exists>s'. put s p d' = Inr s' \<and> ok s' L \<and> get s' p = Inr d' \<and> (room s \<longrightarrow> room s')
        \<and> (\<forall>q\<in>L. q \<noteq> p \<longrightarrow> get s' q = get s q)"
    and alloc_law: "\<lbrakk>ok s L; room s; cap \<le> 2 ^ 16 - 1\<rbrakk> \<Longrightarrow>
      \<exists>p d s'. alloc s cap = Inr (p, d, s') \<and> p \<notin> L \<and> ok s' (insert p L) \<and> get s' p = Inr d
        \<and> length d = 2 + 12 * cap \<and> (\<forall>q\<in>L. get s' q = get s q)"
    and drop_law: "ok s L \<Longrightarrow> L' \<subseteq> L \<Longrightarrow> ok s L'"
begin

text \<open>Allocating a leaf and filling it: what \<^verbatim>\<open>create_leaf\<close> and the split of a leaf do.\<close>

lemma alloc_put:
  assumes "ok s L" "room s" "cap \<le> 2 ^ 16 - 1"
  obtains p d s' where "alloc s cap = Inr (p, d, s')" "p \<notin> L" "length d = 2 + 12 * cap"
    and "\<And>d'. length d' = length d \<Longrightarrow> \<exists>s''. put s' p d' = Inr s'' \<and> ok s'' (insert p L)
      \<and> get s'' p = Inr d' \<and> (\<forall>q\<in>L. get s'' q = get s q)"
proof -
  obtain p d s' where a: "alloc s cap = Inr (p, d, s')" "p \<notin> L" "ok s' (insert p L)"
    "get s' p = Inr d" "length d = 2 + 12 * cap" "\<forall>q\<in>L. get s' q = get s q"
    using alloc_law [OF assms] by blast
  have "\<exists>s''. put s' p d' = Inr s'' \<and> ok s'' (insert p L) \<and> get s'' p = Inr d'
      \<and> (\<forall>q\<in>L. get s'' q = get s q)" if l: "length d' = length d" for d'
  proof -
    obtain s'' where p: "put s' p d' = Inr s''" "ok s'' (insert p L)" "get s'' p = Inr d'"
      "\<forall>q\<in>insert p L. q \<noteq> p \<longrightarrow> get s'' q = get s' q"
      using put_law [OF a(3) _ a(4) l] by blast
    have "get s'' q = get s q" if q: "q \<in> L" for q
    proof -
      have "q \<noteq> p" using a(2) q by blast
      then show ?thesis using p(4) q a(6) by simp
    qed
    then show ?thesis using p(1,2,3) by blast
  qed
  then show ?thesis using that a(1,2,5) by blast
qed

end

lemma pos_fields:
  assumes "i < 2 ^ 32" and "x < 2 ^ 32"
  shows "pos_buf (or (push_bit 32 (word_of_nat i)) (word_of_nat x)) = i"
    and "pos_off (or (push_bit 32 (word_of_nat i)) (word_of_nat x)) = x"
proof -
  let ?i = "word_of_nat i :: u64" and ?x = "word_of_nat x :: u64"
  have t: "take_bit 32 ?x = ?x" "take_bit 32 ?i = ?i"
    using assms by (simp_all add: take_bit_of_nat take_bit_nat_eq_self)
  have "drop_bit 32 (or (push_bit 32 ?i) (take_bit 32 ?x)) = take_bit 32 ?i"
    by (rule bit_word_eqI) (auto simp: bit_simps)
  then show "pos_buf (or (push_bit 32 ?i) ?x) = i"
    using assms by (simp add: pos_buf_def t unat_of_nat)
  have "take_bit 32 (or (push_bit 32 ?i) ?x) = take_bit 32 ?x"
    by (rule bit_word_eqI) (auto simp: bit_simps)
  then show "pos_off (or (push_bit 32 ?i) ?x) = x"
    using assms by (simp add: pos_off_def t unat_of_nat)
qed

definition lb_buf :: "leaf_bufs \<Rightarrow> u64 \<Rightarrow> bytes" where
  "lb_buf bl p = lb_list bl ! pos_buf p"

definition lb_cap :: "leaf_bufs \<Rightarrow> u64 \<Rightarrow> nat" where
  "lb_cap bl p = le_dec (take 2 (drop (pos_off p) (lb_buf bl p)))"

definition lb_live :: "leaf_bufs \<Rightarrow> u64 \<Rightarrow> bool" where
  "lb_live bl p \<longleftrightarrow> pos_buf p < length (lb_list bl)
     \<and> pos_off p + 12 * lb_cap bl p + 4 \<le> length (lb_buf bl p)
     \<and> (pos_buf p = length (lb_list bl) - 1 \<longrightarrow> pos_off p + 12 * lb_cap bl p + 4 \<le> lb_offset bl)"

definition lb_apart :: "leaf_bufs \<Rightarrow> u64 \<Rightarrow> u64 \<Rightarrow> bool" where
  "lb_apart bl p q \<longleftrightarrow> pos_buf p = pos_buf q \<longrightarrow>
     pos_off p + 12 * lb_cap bl p + 4 \<le> pos_off q \<or> pos_off q + 12 * lb_cap bl q + 4 \<le> pos_off p"

definition lb_ok :: "leaf_bufs \<Rightarrow> u64 set \<Rightarrow> bool" where
  "lb_ok bl L \<longleftrightarrow> lb_list bl \<noteq> [] \<and> lb_offset bl < 2 ^ 32 \<and> length (last (lb_list bl)) < 2 ^ 32
     \<and> (\<forall>p\<in>L. lb_live bl p) \<and> (\<forall>p\<in>L. \<forall>q\<in>L. p \<noteq> q \<longrightarrow> lb_apart bl p q)"

definition lb_room :: "leaf_bufs \<Rightarrow> bool" where
  "lb_room bl \<longleftrightarrow> length (lb_list bl) < 2 ^ 32"

lemma take2_le_dec: "length s = 2 \<Longrightarrow> read_u16 s = Inr w \<Longrightarrow> unat w = le_dec s"
  using le_dec_bound [of s] by (auto simp: read_u16_def read_le_def unat_of_nat)

lemma lb_get_live:
  assumes "lb_live bl p"
  shows "lb_get_leaf bl p = Inr (take (2 + 12 * lb_cap bl p) (drop (pos_off p + 2) (lb_buf bl p)))"
proof -
  let ?s = "take 2 (drop (pos_off p) (lb_buf bl p))"
  have l: "pos_off p + 12 * lb_cap bl p + 4 \<le> length (lb_buf bl p)" "pos_buf p < length (lb_list bl)"
    using assms by (auto simp: lb_live_def)
  then have "length ?s = 2" by simp
  then obtain w where w: "read_u16 ?s = Inr w" "unat w = lb_cap bl p"
    using take2_le_dec [of ?s] by (auto simp: read_u16_def read_le_def lb_cap_def)
  then show ?thesis
    using l by (simp add: lb_get_leaf_def lb_buf_def [symmetric] layout_defs mult.commute add.commute)
qed

lemma lb_put_frame:
  assumes "lb_live bl p" "length d = 2 + 12 * lb_cap bl p"
  defines "bl' \<equiv> bl\<lparr>lb_list := (lb_list bl)[pos_buf p := splice (lb_buf bl p) (pos_off p + 2) d]\<rparr>"
  shows "lb_put_leaf bl p d = Inr bl'" and "lb_cap bl' p = lb_cap bl p"
    and "lb_buf bl' p = splice (lb_buf bl p) (pos_off p + 2) d"
    and "\<lbrakk>lb_live bl q; lb_apart bl p q; q \<noteq> p\<rbrakk> \<Longrightarrow> lb_cap bl' q = lb_cap bl q \<and> lb_get_leaf bl' q = lb_get_leaf bl q"
    and "length (lb_buf bl' q) = length (lb_buf bl q)"
proof -
  have p: "pos_buf p < length (lb_list bl)" "pos_off p + 12 * lb_cap bl p + 4 \<le> length (lb_buf bl p)"
    using assms(1) by (auto simp: lb_live_def)
  show "lb_put_leaf bl p d = Inr bl'"
    using p assms(2) by (simp add: lb_put_leaf_def lb_buf_def [symmetric] bl'_def)
  show b: "lb_buf bl' p = splice (lb_buf bl p) (pos_off p + 2) d"
    using p by (simp add: lb_buf_def bl'_def)
  have "take 2 (drop (pos_off p) (splice (lb_buf bl p) (pos_off p + 2) d)) = take 2 (drop (pos_off p) (lb_buf bl p))"
    using p by (intro take_drop_splice_before) simp_all
  then show "lb_cap bl' p = lb_cap bl p" by (simp add: lb_cap_def b)
  show "length (lb_buf bl' q) = length (lb_buf bl q)"
    using p assms(2) by (cases "pos_buf q = pos_buf p") (simp_all add: lb_buf_def bl'_def)
  assume q: "lb_live bl q" "lb_apart bl p q" "q \<noteq> p"
  show "lb_cap bl' q = lb_cap bl q \<and> lb_get_leaf bl' q = lb_get_leaf bl q"
  proof (cases "pos_buf q = pos_buf p")
    case False
    then show ?thesis by (simp add: lb_cap_def lb_buf_def bl'_def lb_get_leaf_def index_def Let_def)
  next
    case True
    then have bq: "lb_buf bl' q = splice (lb_buf bl q) (pos_off p + 2) d" "lb_buf bl q = lb_buf bl p"
      using b by (simp_all add: lb_buf_def)
    have ap: "pos_off p + 12 * lb_cap bl p + 4 \<le> pos_off q \<or> pos_off q + 12 * lb_cap bl q + 4 \<le> pos_off p"
      using q(2) True by (simp add: lb_apart_def)
    have keep: "take n (drop j (lb_buf bl' q)) = take n (drop j (lb_buf bl q))"
      if "pos_off q \<le> j" "j + n \<le> pos_off q + 12 * lb_cap bl q + 4" for j n
      using ap
    proof
      assume "pos_off q + 12 * lb_cap bl q + 4 \<le> pos_off p"
      then show ?thesis unfolding bq(1) using that p bq(2)
        by (intro take_drop_splice_before) simp_all
    next
      assume "pos_off p + 12 * lb_cap bl p + 4 \<le> pos_off q"
      then have "pos_off p + 2 + length d \<le> j" using \<open>pos_off q \<le> j\<close> assms(2) by simp
      then obtain m where "j = pos_off p + 2 + length d + m" by (auto simp: le_iff_add)
      then have "drop j (lb_buf bl' q) = drop j (lb_buf bl q)"
        unfolding bq(1) splice_def using p bq(2) by (simp add: add_ac)
      then show ?thesis by simp
    qed
    have c: "lb_cap bl' q = lb_cap bl q" by (simp add: lb_cap_def keep)
    have l: "lb_live bl' q"
      using q(1) c p(2) assms(2) bq by (simp add: lb_live_def) (simp add: bl'_def)
    show ?thesis unfolding lb_get_live [OF l] lb_get_live [OF q(1)] c by (simp add: keep)
  qed
qed

lemma lb_put_law:
  assumes ok: "lb_ok bl L" and p: "p \<in> L" and g: "lb_get_leaf bl p = Inr d" and len: "length d' = length d"
  shows "\<exists>bl'. lb_put_leaf bl p d' = Inr bl' \<and> lb_ok bl' L \<and> lb_get_leaf bl' p = Inr d'
    \<and> (lb_room bl \<longrightarrow> lb_room bl') \<and> (\<forall>q\<in>L. q \<noteq> p \<longrightarrow> lb_get_leaf bl' q = lb_get_leaf bl q)"
proof -
  define bl' where "bl' = bl\<lparr>lb_list := (lb_list bl)[pos_buf p := splice (lb_buf bl p) (pos_off p + 2) d']\<rparr>"
  have lp: "lb_live bl p" using ok p by (simp add: lb_ok_def)
  have pb: "pos_off p + 12 * lb_cap bl p + 4 \<le> length (lb_buf bl p)" using lp by (simp add: lb_live_def)
  have d: "length d' = 2 + 12 * lb_cap bl p"
    using g lb_get_live [OF lp] pb len by auto
  note fr = lb_put_frame [OF lp d, folded bl'_def]
  have frame: "lb_cap bl' q = lb_cap bl q \<and> (q \<noteq> p \<longrightarrow> lb_get_leaf bl' q = lb_get_leaf bl q)" if q: "q \<in> L" for q
    using fr(2) fr(4) [of q] ok p q by (cases "q = p") (auto simp: lb_ok_def)
  have live: "lb_live bl' q" if q: "q \<in> L" for q
    using ok q frame [OF q] fr(5) [of q] by (auto simp: lb_ok_def lb_live_def bl'_def)
  have last: "length (last (lb_list bl')) = length (last (lb_list bl))"
  proof -
    have ne: "lb_list bl \<noteq> []" using ok by (simp add: lb_ok_def)
    then show ?thesis using pb d
      by (cases "pos_buf p = length (lb_list bl) - 1")
        (simp_all add: bl'_def last_conv_nth nth_list_update lb_buf_def)
  qed
  have "lb_ok bl' L"
    using ok live frame last by (auto simp: lb_ok_def lb_apart_def) (simp_all add: bl'_def)
  moreover have "lb_get_leaf bl' p = Inr d'"
    unfolding lb_get_live [OF live [OF p]] fr(2,3) using d pb take_drop_splice_same [of "pos_off p + 2" "lb_buf bl p" d']
    by simp
  moreover have "lb_room bl \<longrightarrow> lb_room bl'" by (simp add: lb_room_def bl'_def)
  ultimately show ?thesis using fr(1) frame by blast
qed

text \<open>The buffers in which \<^verbatim>\<open>allocate\<close> places the new leaf: the old ones, or one more.\<close>

definition lb_grown :: "leaf_bufs \<Rightarrow> nat \<Rightarrow> leaf_bufs" where
  "lb_grown bl sz =
     (if length (last (lb_list bl)) < lb_offset bl + sz
      then \<lparr>lb_list = lb_list bl @ [replicate (max BUF_SIZE sz) 0], lb_offset = 0\<rparr> else bl)"

lemma lb_grown_ok:
  assumes ok: "lb_ok bl L" and room: "lb_room bl" and sz: "sz \<le> 4 + 12 * (2 ^ 16 - 1)"
  defines "bl' \<equiv> lb_grown bl sz"
  shows "lb_ok bl' L" and "q \<in> L \<Longrightarrow> lb_get_leaf bl' q = lb_get_leaf bl q"
    and "lb_offset bl' + sz \<le> length (last (lb_list bl'))" and "length (lb_list bl') \<le> 2 ^ 32"
proof -
  have keep: "lb_cap bl' q = lb_cap bl q \<and> lb_get_leaf bl' q = lb_get_leaf bl q \<and> lb_live bl' q" if "q \<in> L" for q
    using ok that
    by (auto simp: bl'_def lb_grown_def lb_ok_def lb_live_def lb_cap_def lb_buf_def nth_append
        lb_get_leaf_def index_def Let_def)
  then show "q \<in> L \<Longrightarrow> lb_get_leaf bl' q = lb_get_leaf bl q" by blast
  show "lb_ok bl' L"
    unfolding lb_ok_def
  proof (intro conjI)
    show "lb_list bl' \<noteq> []" "lb_offset bl' < 2 ^ 32" "length (last (lb_list bl')) < 2 ^ 32"
      using ok sz by (simp_all add: lb_ok_def bl'_def lb_grown_def layout_defs)
    show "\<forall>p\<in>L. lb_live bl' p" "\<forall>p\<in>L. \<forall>q\<in>L. p \<noteq> q \<longrightarrow> lb_apart bl' p q"
      using ok keep by (auto simp: lb_ok_def lb_apart_def)
  qed
  show "lb_offset bl' + sz \<le> length (last (lb_list bl'))"
    by (simp add: bl'_def lb_grown_def)
  show "length (lb_list bl') \<le> 2 ^ 32" using room by (auto simp: bl'_def lb_grown_def lb_room_def)
qed

lemma lb_alloc_law:
  assumes ok0: "lb_ok bl0 L" and room: "lb_room bl0" and cap: "cap \<le> 2 ^ 16 - 1"
  shows "\<exists>p d bl'. lb_allocate bl0 cap = Inr (p, d, bl') \<and> p \<notin> L \<and> lb_ok bl' (insert p L)
    \<and> lb_get_leaf bl' p = Inr d \<and> length d = 2 + 12 * cap \<and> (\<forall>q\<in>L. lb_get_leaf bl' q = lb_get_leaf bl0 q)"
proof -
  define sz bl where "sz = cap * KV_SIZE + 4" and "bl = lb_grown bl0 sz"
  have sz: "sz = 12 * cap + 4" "sz \<le> 4 + 12 * (2 ^ 16 - 1)" using cap by (simp_all add: sz_def layout_defs)
  note gr = lb_grown_ok [OF ok0 room sz(2), folded bl_def]
  let ?o = "lb_offset bl" and ?n = "length (lb_list bl) - 1" and ?b = "last (lb_list bl)"
  have ne: "lb_list bl \<noteq> []" and o: "?o < 2 ^ 32" and lb: "length ?b < 2 ^ 32"
    using gr(1) by (simp_all add: lb_ok_def)
  define b' where "b' = splice ?b ?o (u16_le (word_of_nat cap))"
  define p where "p = or (push_bit 32 (word_of_nat ?n)) (word_of_nat ?o :: u64)"
  have pf: "pos_buf p = ?n" "pos_off p = ?o" using pos_fields [of ?n ?o] o gr(4) ne by (auto simp: p_def)
  have fit: "?o + sz \<le> length ?b" by (rule gr(3))
  then have lb': "length b' = length ?b" using sz by (simp add: b'_def)
  define bl' where "bl' = \<lparr>lb_list = butlast (lb_list bl) @ [b'], lb_offset = ?o + sz\<rparr>"
  have ll: "length (lb_list bl') = length (lb_list bl)" using ne by (simp add: bl'_def)
  have nth': "lb_list bl' ! i = (if i = ?n then b' else lb_list bl ! i)" if "i < length (lb_list bl)" for i
    using that by (auto simp: bl'_def nth_append nth_butlast)
  have bp: "lb_buf bl' p = b'" using ne by (simp add: lb_buf_def pf nth')
  have "take 2 (drop ?o b') = u16_le (word_of_nat cap)"
    using take_drop_splice_same [of ?o ?b "u16_le (word_of_nat cap)"] fit by (simp add: b'_def)
  then have capp: "lb_cap bl' p = cap"
    using cap by (simp add: lb_cap_def bp pf u16_le_def le_dec_enc unat_of_nat)
  have lp: "lb_live bl' p" using ne fit sz by (simp add: lb_live_def ll pf bp capp lb') (simp add: bl'_def)
  have qbelow: "pos_off q + 12 * lb_cap bl q + 4 \<le> ?o" if "q \<in> L" "pos_buf q = ?n" for q
    using gr(1) that by (auto simp: lb_ok_def lb_live_def)
  have keep: "lb_cap bl' q = lb_cap bl q \<and> lb_live bl' q \<and> lb_get_leaf bl' q = lb_get_leaf bl q" if q: "q \<in> L" for q
  proof -
    have lq: "lb_live bl q" using gr(1) q by (simp add: lb_ok_def)
    then have qn: "pos_buf q < length (lb_list bl)" by (simp add: lb_live_def)
    have sl: "take n (drop j (lb_buf bl' q)) = take n (drop j (lb_buf bl q))"
      if "pos_off q \<le> j" "j + n \<le> pos_off q + 12 * lb_cap bl q + 4" for j n
    proof (cases "pos_buf q = ?n")
      case True
      then have "lb_buf bl q = ?b" using ne by (simp add: lb_buf_def last_conv_nth)
      moreover have "take n (drop j b') = take n (drop j ?b)"
        unfolding b'_def using that qbelow [OF q True] fit by (intro take_drop_splice_before) simp_all
      ultimately show ?thesis using qn True by (simp add: lb_buf_def nth')
    qed (use qn in \<open>simp add: lb_buf_def nth'\<close>)
    have c: "lb_cap bl' q = lb_cap bl q" by (simp add: lb_cap_def sl)
    have "length (lb_buf bl' q) = length (lb_buf bl q)"
      using qn ne lb' by (simp add: lb_buf_def nth' last_conv_nth)
    then have l: "lb_live bl' q" using lq c by (auto simp: lb_live_def ll) (simp add: bl'_def)
    show ?thesis unfolding lb_get_live [OF l] lb_get_live [OF lq] c using l by (simp add: sl)
  qed
  have new: "p \<notin> L"
  proof
    assume "p \<in> L"
    then show False using qbelow [of p] pf by simp
  qed
  have apart: "lb_apart bl' p q" "lb_apart bl' q p" if q: "q \<in> L" for q
    using qbelow [OF q] keep [OF q] by (auto simp: lb_apart_def pf)
  have ok': "lb_ok bl' (insert p L)"
    unfolding lb_ok_def
  proof (intro conjI)
    show "lb_list bl' \<noteq> []" "lb_offset bl' < 2 ^ 32" "length (last (lb_list bl')) < 2 ^ 32"
      using fit lb lb' by (simp_all add: bl'_def)
    show "\<forall>p\<in>insert p L. lb_live bl' p" using lp keep by blast
    have "lb_apart bl' x y" if "x \<in> L" "y \<in> L" "x \<noteq> y" for x y
      using gr(1) that keep by (auto simp: lb_ok_def lb_apart_def)
    then show "\<forall>x\<in>insert p L. \<forall>y\<in>insert p L. x \<noteq> y \<longrightarrow> lb_apart bl' x y"
      using apart by blast
  qed
  have get: "lb_get_leaf bl' p = Inr (take (2 + 12 * cap) (drop (?o + 2) b'))"
    using lb_get_live [OF lp] by (simp add: capp bp pf)
  have ne0: "lb_list bl0 \<noteq> []" using ok0 by (simp add: lb_ok_def)
  have grow: "(if length (last (lb_list bl0)) < lb_offset bl0 + sz then
        let buf_size = max BUF_SIZE sz in
        if 2 ^ 32 - 1 < buf_size then Inl (Panic ''Buffer Size Too Large'')
        else Inr \<lparr>lb_list = lb_list bl0 @ [replicate buf_size 0], lb_offset = 0\<rparr>
      else Inr bl0) = Inr bl"
    using sz(2) by (auto simp: bl_def lb_grown_def layout_defs Let_def max_def)
  have w: "write_at ?b ?o (u16_le (word_of_nat cap)) = Inr b'" using fit sz by (simp add: b'_def)
  have s: "slice b' (?o + 2) (?o + sz) = Inr (take (2 + 12 * cap) (drop (?o + 2) b'))"
    using fit sz lb' by simp
  have "lb_allocate bl0 cap = Inr (p, take (2 + 12 * cap) (drop (?o + 2) b'), bl')"
    unfolding lb_allocate_def Let_def [where s = "cap * KV_SIZE + 4"] sz_def [symmetric]
    using cap ne0 grow w s by (simp add: Let_def p_def bl'_def del: slice_ok write_at_ok)
  then show ?thesis
    using new ok' get keep gr(2) fit sz lb' by (intro exI conjI) auto
qed

interpretation lbs: leaf_store lb_allocate lb_get_leaf lb_put_leaf lb_ok lb_room
proof unfold_locales
  fix bl L L'
  show "lb_ok bl L \<Longrightarrow> L' \<subseteq> L \<Longrightarrow> lb_ok bl L'" unfolding lb_ok_def by blast
qed (rule lb_put_law lb_alloc_law; assumption)+

end
