(* ===== verification/IndexUnit.thy ===== *)
theory IndexUnit
  imports Leaf Defs
begin

text \<open>
  \<^verbatim>\<open>Unit\<close> and \<^verbatim>\<open>UnitBuilder\<close> of \<^verbatim>\<open>src/qmdb/src/indexer/inmem.rs\<close>: an ordered map from 56-bit keys
  to leaves, where a leaf holds the pairs from its key up to the key of the next leaf that share
  the high 16 bits. The B-tree map is an association list sorted by key. A callback is a function
  on a state that also says whether to stop.

  This theory holds the definitions; \<open>IndexOps\<close> and \<open>IndexScan\<close> relate a unit to the sorted list of
  its pairs.
\<close>

section \<open>Ordered map\<close>

primrec bt_insert :: "u64 \<Rightarrow> 'v \<Rightarrow> (u64 \<times> 'v) list \<Rightarrow> (u64 \<times> 'v) list" where
  "bt_insert k v [] = [(k, v)]"
| "bt_insert k v (p # ps) =
     (if k < fst p then (k, v) # p # ps
      else if k = fst p then (k, v) # ps else p # bt_insert k v ps)"

definition bt_remove :: "u64 \<Rightarrow> (u64 \<times> 'v) list \<Rightarrow> (u64 \<times> 'v) list" where
  "bt_remove k bt = filter (\<lambda>p. fst p \<noteq> k) bt"

text \<open>\<^verbatim>\<open>range(..).next_back()\<close> with the given bounds.\<close>

definition bt_last :: "(u64 \<Rightarrow> bool) \<Rightarrow> (u64 \<times> 'v) list \<Rightarrow> (u64 \<times> 'v) option" where
  "bt_last P bt = (let r = filter (\<lambda>p. P (fst p)) bt in if r = [] then None else Some (last r))"

section \<open>State\<close>

record index_unit =
  u_bt :: "(u64 \<times> u64) list"
  u_bufs :: leaf_bufs
  u_last_size :: u32
  u_change_count :: u32
  u_temp_vec :: bytes

definition split_hi_lo :: "u64 \<Rightarrow> u64 \<times> u64" where
  "split_hi_lo k = (push_bit 48 (drop_bit 48 k), drop_bit 16 (push_bit 16 k))"

definition unit_new :: index_unit where
  "unit_new = \<lparr>u_bt = [], u_bufs = lb_new, u_last_size = 0, u_change_count = 0, u_temp_vec = []\<rparr>"

section \<open>Adding, erasing, changing\<close>

text \<open>The split of a full leaf in \<^verbatim>\<open>add_kv\<close>.\<close>

definition unit_split ::
  "index_unit \<Rightarrow> u64 \<Rightarrow> u64 \<Rightarrow> bytes \<Rightarrow> nat \<Rightarrow> u64 \<Rightarrow> u64 \<Rightarrow> i64 \<Rightarrow> index_unit result" where
  "unit_split u leaf_key leaf_pos leaf idx k56 k v =
     bindE (leaf_len leaf) (\<lambda>len.
     let count = len - idx; start = 2 + KV_SIZE * idx in
     bindE (slice leaf start (start + 12 * count)) (\<lambda>temp.
     bindE (write_at leaf 0 (u16_le (word_of_nat idx))) (\<lambda>leaf.
     bindE (lb_put_leaf (u_bufs u) leaf_pos leaf) (\<lambda>bl.
     let alloc_count = 1 + count + min (count div 4) 2 in
     bindE (lb_allocate bl alloc_count) (\<lambda>(pos, bz, bl).
     bindE (write_at bz 0 (u16_le (word_of_nat (1 + count)))) (\<lambda>bz.
     bindE (write_at bz 2 (u64_le k)) (\<lambda>bz.
     bindE (write_at bz 8 (take 6 (u64_le v))) (\<lambda>bz.
     bindE (write_at bz 14 temp) (\<lambda>bz.
     bindE (lb_put_leaf bl pos bz) (\<lambda>bl.
     let u = u\<lparr>u_bufs := bl, u_temp_vec := temp\<rparr> in
     Inr (if idx = 0
          then u\<lparr>u_change_count := u_change_count u + word_of_nat (alloc_count - count),
                 u_bt := bt_insert leaf_key pos (u_bt u)\<rparr>
          else u\<lparr>u_change_count := u_change_count u + word_of_nat alloc_count,
                 u_bt := bt_insert k56 pos (u_bt u)\<rparr>)))))))))))"

text \<open>A new leaf for the pair, under the given key of the map.\<close>

definition unit_new_leaf :: "index_unit \<Rightarrow> u64 \<Rightarrow> u64 \<Rightarrow> i64 \<Rightarrow> index_unit result" where
  "unit_new_leaf u key k v =
     bindE (lb_create_leaf (u_bufs u) k v) (\<lambda>(pos, bl).
     Inr (u\<lparr>u_change_count := u_change_count u + word_of_nat LEAF_INIT_CAP,
            u_bufs := bl, u_bt := bt_insert key pos (u_bt u)\<rparr>))"

definition unit_add_kv :: "index_unit \<Rightarrow> u64 \<Rightarrow> i64 \<Rightarrow> index_unit result" where
  "unit_add_kv u k56 v =
     (let (hi16, k) = split_hi_lo k56 in
      case bt_last (\<lambda>x. hi16 \<le> x \<and> x \<le> k56) (u_bt u) of
        None \<Rightarrow> unit_new_leaf u hi16 k v
      | Some (leaf_key, leaf_pos) \<Rightarrow>
          bindE (lb_get_leaf (u_bufs u) leaf_pos) (\<lambda>leaf.
          bindE (leaf_is_full leaf) (\<lambda>is_full.
          bindE (leaf_seek leaf k) (\<lambda>r. case r of
            Some idx \<Rightarrow>
              if is_full then unit_split u leaf_key leaf_pos leaf idx k56 k v
              else bindE (leaf_insert leaf idx k v) (\<lambda>leaf.
                   bindE (lb_put_leaf (u_bufs u) leaf_pos leaf) (\<lambda>bl. Inr (u\<lparr>u_bufs := bl\<rparr>)))
          | None \<Rightarrow>
              if is_full then unit_new_leaf u k56 k v
              else bindE (leaf_append leaf k v) (\<lambda>leaf.
                   bindE (lb_put_leaf (u_bufs u) leaf_pos leaf) (\<lambda>bl.
                   Inr (u\<lparr>u_bufs := bl, u_change_count := u_change_count u + 1\<rparr>)))))))"

definition unit_erase_kv :: "index_unit \<Rightarrow> u64 \<Rightarrow> i64 \<Rightarrow> index_unit result" where
  "unit_erase_kv u k v =
     (let u = u\<lparr>u_change_count := u_change_count u + 1\<rparr>; (hi16, lo48) = split_hi_lo k in
      case bt_last (\<lambda>x. hi16 \<le> x \<and> x \<le> k) (u_bt u) of
        None \<Rightarrow> Inl (Panic ''Cannot Erase Non-existent KV'')
      | Some (leaf_key, leaf_pos) \<Rightarrow>
          bindE (lb_get_leaf (u_bufs u) leaf_pos) (\<lambda>leaf.
          bindE (leaf_erase leaf lo48 v) (\<lambda>leaf.
          bindE (lb_put_leaf (u_bufs u) leaf_pos leaf) (\<lambda>bl.
          let u = u\<lparr>u_bufs := bl\<rparr> in
          bindE (leaf_len leaf) (\<lambda>n.
          Inr (if n = 0 then u\<lparr>u_bt := bt_remove leaf_key (u_bt u)\<rparr> else u))))))"

definition unit_change_kv :: "index_unit \<Rightarrow> u64 \<Rightarrow> i64 \<Rightarrow> i64 \<Rightarrow> index_unit result" where
  "unit_change_kv u k v_old v_new =
     (let u = u\<lparr>u_change_count := u_change_count u + 1\<rparr>; (hi16, lo48) = split_hi_lo k in
      case bt_last (\<lambda>x. hi16 \<le> x \<and> x \<le> k) (u_bt u) of
        None \<Rightarrow> Inl (Panic ''Cannot Change Non-existent KV'')
      | Some (_, leaf_pos) \<Rightarrow>
          bindE (lb_get_leaf (u_bufs u) leaf_pos) (\<lambda>leaf.
          bindE (leaf_change leaf lo48 v_old v_new) (\<lambda>leaf.
          bindE (lb_put_leaf (u_bufs u) leaf_pos leaf) (\<lambda>bl. Inr (u\<lparr>u_bufs := bl\<rparr>)))))"

section \<open>Scans\<close>

definition find_prev_key_and_leaf :: "index_unit \<Rightarrow> u64 \<Rightarrow> (u64 \<times> bytes) option result" where
  "find_prev_key_and_leaf u k =
     (case bt_last (\<lambda>x. x < k) (u_bt u) of
        Some (k_prev, pos) \<Rightarrow> bindE (lb_get_leaf (u_bufs u) pos) (\<lambda>leaf. Inr (Some (k_prev, leaf)))
      | None \<Rightarrow> Inr None)"

definition find_key_and_leaf :: "index_unit \<Rightarrow> u64 \<Rightarrow> (u64 \<times> bytes) option result" where
  "find_key_and_leaf u k =
     (let (hi16, _) = split_hi_lo k in
      case bt_last (\<lambda>x. hi16 \<le> x \<and> x \<le> k) (u_bt u) of
        Some (k_prev, pos) \<Rightarrow> bindE (lb_get_leaf (u_bufs u) pos) (\<lambda>leaf. Inr (Some (k_prev, leaf)))
      | None \<Rightarrow> Inr None)"

definition find_leaf :: "index_unit \<Rightarrow> u64 \<Rightarrow> bytes option result" where
  "find_leaf u k = bindE (find_key_and_leaf u k) (\<lambda>r. Inr (map_option snd r))"

text \<open>The body of \<^verbatim>\<open>for_each_value\<close> from index \<open>i\<close> on.\<close>

primrec each_value_from ::
  "(i64 \<Rightarrow> 's \<Rightarrow> 's \<times> bool) \<Rightarrow> bytes \<Rightarrow> u64 \<Rightarrow> nat \<Rightarrow> nat \<Rightarrow> 's \<Rightarrow> 's result" where
  "each_value_from access leaf lo48 i 0 s = Inr s"
| "each_value_from access leaf lo48 i (Suc left) s =
     bindE (leaf_get leaf i) (\<lambda>(k48, pos48).
       if k48 < lo48 then each_value_from access leaf lo48 (i + 1) left s
       else if k48 = lo48 then
         (let (s, stop) = access pos48 s in
          if stop then Inr s else each_value_from access leaf lo48 (i + 1) left s)
       else Inr s)"

definition unit_for_each_value ::
  "index_unit \<Rightarrow> u64 \<Rightarrow> (i64 \<Rightarrow> 's \<Rightarrow> 's \<times> bool) \<Rightarrow> 's \<Rightarrow> 's result" where
  "unit_for_each_value u k56 access s =
     bindE (find_leaf u k56) (\<lambda>r. case r of
       None \<Rightarrow> Inr s
     | Some leaf \<Rightarrow>
         let (_, lo48) = split_hi_lo k56 in
         bindE (leaf_len leaf) (\<lambda>n. each_value_from access leaf lo48 0 n s))"

text \<open>The first loop of \<^verbatim>\<open>for_each_adjacent_value\<close>, which also finds the first index whose key
  is not below \<open>lo48\<close>.\<close>

primrec adj_forward ::
  "(bytes \<Rightarrow> i64 \<Rightarrow> 's \<Rightarrow> 's \<times> bool) \<Rightarrow> bytes \<Rightarrow> bytes \<Rightarrow> u64 \<Rightarrow> nat \<Rightarrow> nat \<Rightarrow> nat \<Rightarrow> nat \<Rightarrow> 's
     \<Rightarrow> (nat \<times> 's) result" where
  "adj_forward access k80 leaf lo48 end' i 0 idx s = Inr (idx, s)"
| "adj_forward access k80 leaf lo48 end' i (Suc left) idx s =
     bindE (leaf_get leaf i) (\<lambda>(k48, pos48).
       if k48 < lo48 then adj_forward access k80 leaf lo48 end' (i + 1) left idx s
       else if k48 = lo48 then
         (let idx = (if idx = end' then i else idx); (s, stop) = access k80 pos48 s in
          if stop then Inr (idx, s)
          else adj_forward access k80 leaf lo48 end' (i + 1) left idx s)
       else Inr (if idx = end' then i else idx, s))"

text \<open>The second loop, downwards from index \<open>idx\<close>.\<close>

fun adj_backward ::
  "(bytes \<Rightarrow> i64 \<Rightarrow> 's \<Rightarrow> 's \<times> bool) \<Rightarrow> bytes \<Rightarrow> bytes \<Rightarrow> u64 \<Rightarrow> nat \<Rightarrow> 's \<Rightarrow> 's result" where
  "adj_backward access k80 target k_prev idx s =
     bindE (leaf_get target idx) (\<lambda>(lo48, pos48).
       if lo48 \<noteq> k_prev then Inr s
       else let (s, stop) = access k80 pos48 s in
            if idx = 0 \<or> stop then Inr s else adj_backward access k80 target k_prev (idx - 1) s)"

declare adj_backward.simps [simp del]

text \<open>What follows the choice of the leaf: the predecessor of index \<open>idx\<close> in \<open>target\<close>. At index 0
  the subtraction wraps and the access panics.\<close>

definition adj_prev ::
  "(bytes \<Rightarrow> i64 \<Rightarrow> 's \<Rightarrow> 's \<times> bool) \<Rightarrow> bytes \<Rightarrow> bytes \<Rightarrow> nat \<Rightarrow> 's \<Rightarrow> 's result" where
  "adj_prev access k80 target idx s =
     bindE (guardE (0 < idx) (Panic ''slice index out of range'')) (\<lambda>_.
     let idx = idx - 1 in
     bindE (leaf_get target idx) (\<lambda>(k_prev, _).
     bindE (write_at k80 3 (drop 2 (u64_be k_prev))) (\<lambda>k80.
     adj_backward access k80 target k_prev idx s)))"

definition unit_for_each_adjacent_value ::
  "index_unit \<Rightarrow> bytes \<Rightarrow> u64 \<Rightarrow> (bytes \<Rightarrow> i64 \<Rightarrow> 's \<Rightarrow> 's \<times> bool) \<Rightarrow> 's \<Rightarrow> 's result" where
  "unit_for_each_adjacent_value u k80 k56 access s =
     bindE (find_key_and_leaf u k56) (\<lambda>opt.
     bindE (case opt of
         None \<Rightarrow> Inr (k56, 0, None, s)
       | Some (cur_key, leaf) \<Rightarrow>
           let (_, lo48) = split_hi_lo k56 in
           bindE (leaf_len leaf) (\<lambda>end'.
           bindE (adj_forward access k80 leaf lo48 end' 0 end' end' s) (\<lambda>(idx, s).
           Inr (cur_key, idx, Some leaf, s)))) (\<lambda>(cur_key, idx, target, s).
     if idx = 0 then
       if cur_key = 0 then Inr s
       else bindE (find_prev_key_and_leaf u cur_key) (\<lambda>opt. case opt of
              None \<Rightarrow> Inr s
            | Some (prev_key, prev_leaf) \<Rightarrow>
                bindE (write_at k80 2 [ucast (drop_bit 48 prev_key)]) (\<lambda>k80.
                bindE (leaf_len prev_leaf) (\<lambda>idx. adj_prev access k80 prev_leaf idx s)))
     else bindE (unwrap ''unwrap on None'' target) (\<lambda>target. adj_prev access k80 target idx s)))"

section \<open>Compaction\<close>

record unit_builder =
  ub_bt :: "(u64 \<times> u64) list"
  ub_buf_list :: "bytes list"
  ub_cur_buf :: bytes
  ub_cur_hi16 :: u64
  ub_key_for_leaf :: u64
  ub_leaf_start :: nat
  ub_leaf_size :: nat
  ub_last_key :: u64
  ub_size :: nat
  ub_total_bytes :: nat

definition ub_new :: unit_builder where
  "ub_new = \<lparr>ub_bt = [], ub_buf_list = [], ub_cur_buf = replicate 4 0, ub_cur_hi16 = - 1,
     ub_key_for_leaf = - 1, ub_leaf_start = 0, ub_leaf_size = 0, ub_last_key = - 1,
     ub_size = 0, ub_total_bytes = 0\<rparr>"

definition ub_extra_bytes :: "unit_builder \<Rightarrow> nat" where
  "ub_extra_bytes b = min (ub_leaf_size b div 8) EXTRA_KV_PAIRS * 12"

definition ub_flush :: "unit_builder \<Rightarrow> unit_builder result" where
  "ub_flush b =
     (if ub_leaf_size b = 0 then Inr b
      else
      let cur_buf = ub_cur_buf b @ replicate (ub_extra_bytes b) 0;
          leaf_start = ub_leaf_start b;
          cap = (length cur_buf - leaf_start - 4) div KV_SIZE in
      bindE (write_at cur_buf leaf_start (u16_le (word_of_nat cap))) (\<lambda>cur_buf.
      bindE (write_at cur_buf (leaf_start + 2) (u16_le (word_of_nat (ub_leaf_size b)))) (\<lambda>cur_buf.
      let pos = or (push_bit 32 (word_of_nat (length (ub_buf_list b)))) (word_of_nat leaf_start);
          b = b\<lparr>ub_bt := bt_insert (ub_key_for_leaf b) pos (ub_bt b)\<rparr>;
          b = (if BUF_SIZE < length cur_buf + KV_SIZE
               then b\<lparr>ub_cur_buf := replicate 4 0, ub_total_bytes := ub_total_bytes b + length cur_buf,
                      ub_buf_list := ub_buf_list b @ [cur_buf], ub_leaf_start := 0\<rparr>
               else b\<lparr>ub_leaf_start := length cur_buf, ub_cur_buf := cur_buf @ replicate 4 0\<rparr>) in
      Inr (b\<lparr>ub_leaf_size := 0, ub_last_key := - 1\<rparr>))))"

definition ub_append :: "u64 \<times> i64 \<Rightarrow> unit_builder \<Rightarrow> unit_builder result" where
  "ub_append = (\<lambda>(k56, v) b.
     let (hi16, _) = split_hi_lo k56 in
     bindE (if hi16 \<noteq> ub_cur_hi16 b
            then bindE (ub_flush b) (\<lambda>b. Inr (b\<lparr>ub_key_for_leaf := hi16, ub_cur_hi16 := hi16\<rparr>))
            else Inr b) (\<lambda>b.
     let ready = (DEFAULT_LEAF_LEN \<le> ub_leaf_size b
           \<or> BUF_SIZE \<le> length (ub_cur_buf b) + ub_extra_bytes b + KV_SIZE);
         still_in_range = (ub_last_key b = k56) in
     bindE (if ready \<and> \<not> still_in_range
            then bindE (ub_flush b) (\<lambda>b. Inr (b\<lparr>ub_key_for_leaf := k56\<rparr>))
            else Inr b) (\<lambda>b.
     let k_le = u64_le k56; v_le = u64_le v in
     Inr (b\<lparr>ub_cur_buf := ub_cur_buf b @ take 6 k_le @ take 6 v_le,
            ub_size := ub_size b + 1, ub_leaf_size := ub_leaf_size b + 1, ub_last_key := k56\<rparr>))))"

definition unit_is_compactible :: "index_unit \<Rightarrow> bool" where
  "unit_is_compactible u \<longleftrightarrow> max (u_last_size u) COMPACT_THRES < u_change_count u * COMPACT_RATIO"

text \<open>The inner loop of \<^verbatim>\<open>compact\<close> over the pairs of a leaf.\<close>

primrec compact_leaf_from ::
  "bytes \<Rightarrow> u64 \<Rightarrow> nat \<Rightarrow> nat \<Rightarrow> unit_builder \<Rightarrow> unit_builder result" where
  "compact_leaf_from leaf hi16 i 0 b = Inr b"
| "compact_leaf_from leaf hi16 i (Suc left) b =
     bindE (leaf_get leaf i) (\<lambda>(lo48, v).
     bindE (ub_append (or hi16 lo48, v) b) (compact_leaf_from leaf hi16 (i + 1) left))"

definition compact_leaf :: "leaf_bufs \<Rightarrow> u64 \<times> u64 \<Rightarrow> unit_builder \<Rightarrow> unit_builder result" where
  "compact_leaf bl = (\<lambda>(k, pos) b.
     bindE (lb_get_leaf bl pos) (\<lambda>leaf.
     let (hi16, _) = split_hi_lo k in
     bindE (leaf_len leaf) (\<lambda>n. compact_leaf_from leaf hi16 0 n b)))"

definition unit_compact :: "index_unit \<Rightarrow> index_unit result" where
  "unit_compact u =
     bindE (foldE (compact_leaf (u_bufs u)) (u_bt u) ub_new) (\<lambda>b.
     bindE (ub_flush b) (\<lambda>b.
     Inr (u\<lparr>u_bt := ub_bt b,
            u_bufs := \<lparr>lb_list = ub_buf_list b @ [ub_cur_buf b], lb_offset = length (ub_cur_buf b)\<rparr>,
            u_last_size := word_of_nat (ub_size b),
            u_change_count := 0\<rparr>)))"

end
