(* ===== verification/IndexOps.thy ===== *)
theory IndexOps
  imports IndexUnit
begin

text \<open>
  The updates of a unit of the in-memory indexer: \<open>unit_rep u ls\<close> says that the unit holds the
  leaves \<open>ls\<close>, each with its key in the map and its sorted pairs. Adding a pair inserts it into the
  sorted list of all pairs \<open>flat ls\<close>, in front of the pairs with the same key; erasing and changing
  act on the first occurrence of a pair and panic when there is none.
\<close>

section \<open>High and low bits of a key\<close>

definition hi16 :: "u64 \<Rightarrow> u64" where "hi16 k = push_bit 48 (drop_bit 48 k)"
definition lo48 :: "u64 \<Rightarrow> u64" where "lo48 k = drop_bit 16 (push_bit 16 k)"

lemma split_hi_lo_eq: "split_hi_lo k = (hi16 k, lo48 k)"
  by (simp add: split_hi_lo_def hi16_def lo48_def)

lemma unat_lo48: "unat (lo48 k) = unat k mod 2 ^ 48"
proof -
  have "lo48 k = take_bit 48 k" unfolding lo48_def by (rule bit_word_eqI) (auto simp: bit_simps)
  then have "unat (lo48 k) = take_bit 48 (unat k)" by (simp only: unsigned_take_bit_eq)
  then show ?thesis by (simp only: take_bit_eq_mod)
qed

lemma or_hi_lo: "or (hi16 k) (lo48 k) = k"
  unfolding hi16_def lo48_def by (rule bit_word_eqI) (auto simp: bit_simps)

lemma unat_hi16: "unat (hi16 k) = unat k div 2 ^ 48 * 2 ^ 48"
proof -
  have "unat k div 2 ^ 48 * 2 ^ 48 < 2 ^ 64"
  proof (rule le_less_trans)
    show "unat k div 2 ^ 48 * 2 ^ 48 \<le> unat k" by (rule div_times_less_eq_dividend)
    show "unat k < 2 ^ 64" using unsigned_less [of k, where 'a = nat] by simp
  qed
  then show ?thesis
    unfolding hi16_def unsigned_push_bit_eq unat_drop_bit_eq
    unfolding push_bit_eq_mult drop_bit_eq_div
    by (simp add: take_bit_nat_eq_self)
qed

lemma hi16_le [simp]: "hi16 k \<le> k"
  by (simp add: word_le_nat_alt unat_hi16)

lemma hi16_mono: "k \<le> k' \<Longrightarrow> hi16 k \<le> hi16 k'"
  by (simp add: word_le_nat_alt unat_hi16 div_le_mono)

lemma hi16_idem [simp]: "hi16 (hi16 k) = hi16 k"
  by (simp add: word_unat_eq_iff unat_hi16)

lemma hi16_less: "hi16 x < hi16 k \<Longrightarrow> x < hi16 k"
proof -
  assume "hi16 x < hi16 k"
  then have "unat x div 2 ^ 48 < unat k div 2 ^ 48"
    by (simp add: word_less_nat_alt unat_hi16)
  then have "unat x < unat k div 2 ^ 48 * 2 ^ 48" by (simp add: div_less_iff_less_mult)
  then show ?thesis by (simp add: word_less_nat_alt unat_hi16)
qed

lemma hi16_between: "hi16 k \<le> K \<Longrightarrow> K \<le> k \<Longrightarrow> hi16 K = hi16 k"
  using hi16_mono [of K k] hi16_mono [of "hi16 k" K] by simp

lemma unat_hi_lo: "unat k = unat (hi16 k) + unat (lo48 k)"
  unfolding unat_hi16 unat_lo48 by (rule div_mult_mod_eq [symmetric])

lemma lo48_order:
  assumes "hi16 k = hi16 k'"
  shows "lo48 k < lo48 k' \<longleftrightarrow> k < k'" and "lo48 k \<le> lo48 k' \<longleftrightarrow> k \<le> k'" and "lo48 k = lo48 k' \<longleftrightarrow> k = k'"
  using unat_hi_lo [of k] unat_hi_lo [of k'] assms
  by (simp_all add: word_less_nat_alt word_le_nat_alt word_unat_eq_iff)

lemma lo48_small: "unat (lo48 k) < 2 ^ 48"
  by (simp add: unat_lo48)

lemma or_hi16_lo48: "hi16 K = hi16 k \<Longrightarrow> or (hi16 K) (lo48 k) = k"
  by (simp add: or_hi_lo)

section \<open>Units as sorted lists of pairs\<close>

text \<open>A leaf as its key in the map and the pairs it holds, with full keys.\<close>

type_synonym leaves = "(u64 \<times> (u64 \<times> i64) list) list"

definition leaf_wf :: "u64 \<times> (u64 \<times> i64) list \<Rightarrow> bool" where
  "leaf_wf = (\<lambda>(K, c). c \<noteq> [] \<and> sorted (map fst c)
     \<and> (\<forall>x\<in>set c. K \<le> fst x \<and> hi16 (fst x) = hi16 K \<and> unat (snd x) < 2 ^ 48))"

definition leaf_before :: "u64 \<times> (u64 \<times> i64) list \<Rightarrow> u64 \<times> (u64 \<times> i64) list \<Rightarrow> bool" where
  "leaf_before = (\<lambda>(K, c) (K', _). K < K' \<and> (\<forall>x\<in>set c. fst x < K'))"

definition leaves_wf :: "leaves \<Rightarrow> bool" where
  "leaves_wf ls \<longleftrightarrow> list_all leaf_wf ls \<and> sorted_wrt leaf_before ls"

definition flat :: "leaves \<Rightarrow> (u64 \<times> i64) list" where
  "flat ls = concat (map snd ls)"

lemma flat_simps [simp]:
  "flat [] = []" "flat ((K, c) # ls) = c @ flat ls" "flat (ls @ ls') = flat ls @ flat ls'"
  by (simp_all add: flat_def)

lemma leaves_wf_append:
  "leaves_wf (A @ B) \<longleftrightarrow> leaves_wf A \<and> leaves_wf B \<and> (\<forall>a\<in>set A. \<forall>b\<in>set B. leaf_before a b)"
  by (auto simp: leaves_wf_def sorted_wrt_append)

lemma leaves_wf_Cons:
  "leaves_wf (l # B) \<longleftrightarrow> leaf_wf l \<and> leaves_wf B \<and> (\<forall>b\<in>set B. leaf_before l b)"
  by (auto simp: leaves_wf_def)

lemma leaves_wf_Nil [simp]: "leaves_wf []" by (simp add: leaves_wf_def)

lemmas leaves_wf_simps = leaves_wf_append leaves_wf_Cons

lemma flat_set: "x \<in> set (flat ls) \<longleftrightarrow> (\<exists>K c. (K, c) \<in> set ls \<and> x \<in> set c)"
  by (force simp: flat_def)

lemma flat_above:
  "leaves_wf B \<Longrightarrow> (\<And>b. b \<in> set B \<Longrightarrow> k < fst b) \<Longrightarrow> x \<in> set (flat B) \<Longrightarrow> k < fst x"
  by (fastforce simp: leaves_wf_def list_all_iff flat_set leaf_wf_def)

lemma flat_below:
  "leaves_wf (A @ (K, c) # B) \<Longrightarrow> x \<in> set (flat A) \<Longrightarrow> fst x < K"
  by (fastforce simp: leaves_wf_simps flat_set leaf_before_def)

lemma flat_below_hi:
  assumes wf: "leaves_wf A" and lt: "\<And>a. a \<in> set A \<Longrightarrow> fst a < hi16 k" and x: "x \<in> set (flat A)"
  shows "fst x < hi16 k"
proof -
  obtain K c where K: "(K, c) \<in> set A" "x \<in> set c" using x by (auto simp: flat_set)
  then have "hi16 (fst x) = hi16 K" using wf by (fastforce simp: leaves_wf_def list_all_iff leaf_wf_def)
  also have "\<dots> \<le> K" by simp
  also have "\<dots> < hi16 k" using lt [OF K(1)] by simp
  finally show ?thesis by (rule hi16_less)
qed

text \<open>The specification of the operations, on the sorted list of all pairs.\<close>

definition ins_kv :: "u64 \<times> i64 \<Rightarrow> (u64 \<times> i64) list \<Rightarrow> (u64 \<times> i64) list" where
  "ins_kv p ps = takeWhile (\<lambda>q. fst q < fst p) ps @ p # dropWhile (\<lambda>q. fst q < fst p) ps"

lemma ins_kv_simps [simp]:
  "ins_kv p [] = [p]"
  "ins_kv p (q # ps) = (if fst q < fst p then q # ins_kv p ps else p # q # ps)"
  by (simp_all add: ins_kv_def)

lemma ins_kv_mid:
  "(\<And>x. x \<in> set A \<Longrightarrow> fst x < fst p) \<Longrightarrow> (\<And>x. x \<in> set B \<Longrightarrow> fst p < fst x) \<Longrightarrow>
   ins_kv p (A @ C @ B) = A @ ins_kv p C @ B"
proof (induction A)
  case Nil
  note B = Nil.prems(2)
  show ?case
  proof (induction C)
    case Nil
    then show ?case using B [of "hd B"] by (cases B) auto
  qed auto
qed auto

lemma set_ins_kv [simp]: "set (ins_kv p ps) = insert p (set ps)"
  by (induction ps) auto

lemma sorted_ins_kv [simp]: "sorted (map fst ps) \<Longrightarrow> sorted (map fst (ins_kv p ps))"
  by (induction ps) (auto simp: less_imp_le)

lemma ins_kv_not_Nil [simp]: "ins_kv p ps \<noteq> []"
  by (simp add: ins_kv_def)

lemma change1_append:
  "change1 p w (A @ B) = (if p \<in> set A then change1 p w A @ B else A @ change1 p w B)"
  by (induction A) auto

lemma map_fst_change1 [simp]: "map fst (change1 p w ps) = map fst ps"
  by (induction ps) auto

lemma set_change1: "x \<in> set (change1 p w ps) \<Longrightarrow> x \<in> set ps \<or> x = (fst p, w) \<and> p \<in> set ps"
  by (induction ps) (auto split: if_splits)

section \<open>The map\<close>

lemma bt_last_Some:
  assumes "bt_last P bt = Some (K, p)"
  shows "\<exists>A B. bt = A @ (K, p) # B \<and> P K \<and> (\<forall>q\<in>set B. \<not> P (fst q))"
  using assms
proof (induction bt rule: rev_induct)
  case Nil
  then show ?case by (simp add: bt_last_def)
next
  case (snoc x xs)
  show ?case
  proof (cases "P (fst x)")
    case True
    then have "x = (K, p)" using snoc.prems by (simp add: bt_last_def Let_def)
    then show ?thesis using True by (intro exI [of _ xs] exI [of _ "[]"]) simp
  next
    case False
    then have "bt_last P xs = Some (K, p)" using snoc.prems by (simp add: bt_last_def)
    then obtain A B where "xs = A @ (K, p) # B \<and> P K \<and> (\<forall>q\<in>set B. \<not> P (fst q))"
      using snoc.IH by blast
    then show ?thesis using False by (intro exI [of _ A] exI [of _ "B @ [x]"]) simp
  qed
qed

lemma bt_last_range:
  assumes "bt_last (\<lambda>x. lo \<le> x \<and> x \<le> k) bt = Some (K, p)" and s: "sorted_wrt (<) (map fst bt)"
  obtains A B where "bt = A @ (K, p) # B" "lo \<le> K" "K \<le> k" "\<And>q. q \<in> set B \<Longrightarrow> k < fst q"
proof -
  obtain A B where ab: "bt = A @ (K, p) # B" "lo \<le> K \<and> K \<le> k"
    and B: "\<And>q. q \<in> set B \<Longrightarrow> \<not> (lo \<le> fst q \<and> fst q \<le> k)"
    using bt_last_Some [OF assms(1)] by blast
  have "k < fst q" if q: "q \<in> set B" for q
  proof -
    have "K < fst q" using s q unfolding ab(1) by (auto simp: sorted_wrt_append)
    then show ?thesis using B [OF q] ab(2) by auto
  qed
  then show ?thesis using that ab by blast
qed

lemma bt_last_None:
  assumes n: "bt_last (\<lambda>x. lo \<le> x \<and> x \<le> k) bt = None" and s: "sorted_wrt (<) (map fst bt)" and "lo \<le> k"
  obtains A B where "bt = A @ B" "\<And>q. q \<in> set A \<Longrightarrow> fst q < lo" "\<And>q. q \<in> set B \<Longrightarrow> k < fst q"
proof -
  let ?A = "takeWhile (\<lambda>q. fst q < lo) bt" and ?B = "dropWhile (\<lambda>q. fst q < lo) bt"
  have n': "\<not> (lo \<le> fst q \<and> fst q \<le> k)" if "q \<in> set bt" for q
    using n that by (auto simp: bt_last_def Let_def filter_empty_conv split: if_splits)
  have "k < fst q" if q: "q \<in> set ?B" for q
  proof -
    have ne: "?B \<noteq> []"
    proof
      assume "?B = []"
      then show False using q by (simp only: list.set empty_iff)
    qed
    have "sorted_wrt (<) (map fst ?A @ map fst ?B)" using s by (simp flip: map_append)
    then have "sorted_wrt (<) (map fst ?B)" by (simp add: sorted_wrt_append)
    then have "fst (hd ?B) \<le> fst q" using q ne by (cases ?B) auto
    moreover have "lo \<le> fst (hd ?B)" using hd_dropWhile [OF ne] by auto
    ultimately show ?thesis using n' [of q] set_dropWhileD [OF q] by auto
  qed
  moreover have "fst q < lo" if "q \<in> set ?A" for q using set_takeWhileD [OF that] by simp
  ultimately show ?thesis using that [of ?A ?B] by simp
qed

lemma bt_insert_mid:
  "(\<And>q. q \<in> set A \<Longrightarrow> fst q < k) \<Longrightarrow> (\<And>q. q \<in> set B \<Longrightarrow> k < fst q) \<Longrightarrow> bt_insert k v (A @ B) = A @ (k, v) # B"
proof (induction A)
  case Nil
  then show ?case using Nil.prems(2) [of "hd B"] by (cases B) simp_all
next
  case (Cons a A)
  have "\<not> k < fst a" "k \<noteq> fst a" using Cons.prems(1) [of a] by auto
  moreover have "bt_insert k v (A @ B) = A @ (k, v) # B" using Cons by simp
  ultimately show ?case by simp
qed

lemma bt_insert_same:
  "(\<And>q. q \<in> set A \<Longrightarrow> fst q < k) \<Longrightarrow> bt_insert k v (A @ (k, w) # B) = A @ (k, v) # B"
  by (induction A) (auto simp: order_less_imp_not_less)

lemma bt_remove_mid:
  assumes "sorted_wrt (<) (map fst (A @ (k, v) # B))"
  shows "bt_remove k (A @ (k, v) # B) = A @ B"
proof -
  have "\<forall>q\<in>set (A @ B). fst q \<noteq> k" using assms by (auto simp: sorted_wrt_append)
  then have "filter (\<lambda>p. fst p \<noteq> k) (A @ B) = A @ B" by (simp only: filter_id_conv)
  then show ?thesis by (simp add: bt_remove_def)
qed

section \<open>Representation\<close>

definition lo_pair :: "u64 \<times> i64 \<Rightarrow> u64 \<times> i64" where
  "lo_pair = (\<lambda>(k, v). (lo48 k, v))"

definition holds :: "leaf_bufs \<Rightarrow> u64 \<times> u64 \<Rightarrow> u64 \<times> (u64 \<times> i64) list \<Rightarrow> bool" where
  "holds bl = (\<lambda>(K, p) (K', c). K = K' \<and> (\<exists>d. lb_get_leaf bl p = Inr d \<and> leaf_rep d (map lo_pair c)))"

definition unit_rep :: "index_unit \<Rightarrow> leaves \<Rightarrow> bool" where
  "unit_rep u ls \<longleftrightarrow> list_all2 (holds (u_bufs u)) (u_bt u) ls \<and> distinct (map snd (u_bt u))
     \<and> lb_ok (u_bufs u) (snd ` set (u_bt u)) \<and> leaves_wf ls"

lemma holds_keys: "list_all2 (holds bl) bt ls \<Longrightarrow> map fst bt = map fst ls"
  by (induction rule: list_all2_induct) (auto simp: holds_def)

lemma leaves_sorted: "leaves_wf ls \<Longrightarrow> sorted_wrt (<) (map fst ls)"
  unfolding leaves_wf_def sorted_wrt_map
  by (rule sorted_wrt_mono_rel [of _ leaf_before]) (auto simp: leaf_before_def)

lemma unit_rep_sorted: "unit_rep u ls \<Longrightarrow> sorted_wrt (<) (map fst (u_bt u))"
  by (metis holds_keys leaves_sorted unit_rep_def)

lemma holds_frame:
  assumes "list_all2 (holds bl) bt ls" and "\<And>q. q \<in> snd ` set bt \<Longrightarrow> lb_get_leaf bl' q = lb_get_leaf bl q"
  shows "list_all2 (holds bl') bt ls"
  using assms by (induction rule: list_all2_induct) (auto simp: holds_def)

lemma holdsI: "lb_get_leaf bl p = Inr d \<Longrightarrow> leaf_rep d (map lo_pair c) \<Longrightarrow> holds bl (K, p) (K, c)"
  by (auto simp: holds_def)

text \<open>The three ways in which an operation changes the leaves.\<close>

lemma unit_rep_put:
  assumes rep: "unit_rep u (LA @ (K, c) # LB)" and bt: "u_bt u = A @ (K, p) # B" and len: "length A = length LA"
    and get: "lb_get_leaf (u_bufs u) p = Inr d" and d': "length d' = length d" "leaf_rep d' (map lo_pair c')"
  obtains bl where "lb_put_leaf (u_bufs u) p d' = Inr bl"
    and "lb_ok bl (snd ` set (u_bt u))" "lb_room (u_bufs u) \<longrightarrow> lb_room bl"
    and "list_all2 (holds bl) (u_bt u) (LA @ (K, c') # LB)" and "lb_get_leaf bl p = Inr d'"
proof -
  have p: "p \<in> snd ` set (u_bt u)" by (simp add: bt)
  have ok: "lb_ok (u_bufs u) (snd ` set (u_bt u))" using rep by (simp add: unit_rep_def)
  obtain bl where bl: "lb_put_leaf (u_bufs u) p d' = Inr bl" "lb_ok bl (snd ` set (u_bt u))"
      "lb_get_leaf bl p = Inr d'" "lb_room (u_bufs u) \<longrightarrow> lb_room bl"
      "\<forall>q\<in>snd ` set (u_bt u). q \<noteq> p \<longrightarrow> lb_get_leaf bl q = lb_get_leaf (u_bufs u) q"
    using lbs.put_law [OF ok p get d'(1)] by blast
  have dist: "p \<notin> snd ` set A" "p \<notin> snd ` set B" using rep by (auto simp: unit_rep_def bt)
  have h: "list_all2 (holds (u_bufs u)) A LA" "list_all2 (holds (u_bufs u)) B LB"
    using rep len by (auto simp: unit_rep_def bt list_all2_append)
  have "list_all2 (holds bl) A LA" "list_all2 (holds bl) B LB"
    using bl(5) dist by (auto intro!: holds_frame [OF h(1)] holds_frame [OF h(2)] simp: bt)
  then have "list_all2 (holds bl) (u_bt u) (LA @ (K, c') # LB)"
    using holdsI [OF bl(3) d'(2)] by (simp add: bt list_all2_append list_all2_lengthD)
  then show ?thesis using that bl(1-4) by blast
qed

section \<open>New leaves\<close>

lemma lb_create_leaf_ok:
  assumes ok: "lb_ok bl L" and room: "lb_room bl" and sm: "small_kv (k, v)"
  obtains p bl' d where "lb_create_leaf bl k v = Inr (p, bl')" "p \<notin> L" "lb_ok bl' (insert p L)"
    and "lb_get_leaf bl' p = Inr d" "leaf_rep d [(k, v)]"
    and "\<And>q. q \<in> L \<Longrightarrow> lb_get_leaf bl' q = lb_get_leaf bl q"
proof -
  have c: "LEAF_INIT_CAP \<le> 2 ^ 16 - 1" by (simp add: layout_defs)
  obtain p d bl1 where al: "lb_allocate bl LEAF_INIT_CAP = Inr (p, d, bl1)" "p \<notin> L"
      "length d = 2 + 12 * LEAF_INIT_CAP"
    and pu: "\<And>d'. length d' = length d \<Longrightarrow> \<exists>bl'. lb_put_leaf bl1 p d' = Inr bl' \<and> lb_ok bl' (insert p L)
        \<and> lb_get_leaf bl' p = Inr d' \<and> (\<forall>q\<in>L. lb_get_leaf bl' q = lb_get_leaf bl q)"
    using lbs.alloc_put [OF ok room c] by blast
  have len: "length d = 98" using al(3) by (simp add: layout_defs)
  define d0 where "d0 = splice d 0 [0, 0]"
  have w: "write_at d 0 [0, 0] = Inr d0" using len by (simp add: d0_def)
  have l0: "length d0 = length d" using len by (simp add: d0_def)
  have z: "[0, 0] = u16_le (word_of_nat (length ([] :: (u64 \<times> i64) list)))"
    by (simp add: u16_le_def numeral_2_eq_2)
  have d0: "d0 = [0, 0] @ drop 2 d" by (simp add: d0_def splice_def numeral_2_eq_2)
  have "leaf_rep d0 []"
    by (rule leaf_repI [where rest = "drop 2 d"]) (use len l0 in \<open>simp_all add: z [symmetric] d0 del: list.size\<close>)
  then obtain d1 where d1: "leaf_append d0 k v = Inr d1" "length d1 = length d0" "leaf_rep d1 [(k, v)]"
    using leaf_insert_rep [of d0 "[]" 0 k v] sm len l0 by (auto simp: leaf_append_def)
  then obtain bl' where bl': "lb_put_leaf bl1 p d1 = Inr bl'" "lb_ok bl' (insert p L)"
      "lb_get_leaf bl' p = Inr d1" "\<forall>q\<in>L. lb_get_leaf bl' q = lb_get_leaf bl q"
    using pu [of d1] l0 by auto
  have "lb_create_leaf bl k v = Inr (p, bl')"
    by (simp add: lb_create_leaf_def al(1) w d1(1) bl'(1) del: write_at_ok)
  then show ?thesis using that al(2) bl' d1(3) by blast
qed

lemma holds_insert:
  assumes h: "list_all2 (holds bl) (A @ B) (LA @ LB)" and len: "length A = length LA"
    and fr: "\<And>q. q \<in> snd ` set (A @ B) \<Longrightarrow> lb_get_leaf bl' q = lb_get_leaf bl q"
    and new: "holds bl' (K, p) (K, c)"
  shows "list_all2 (holds bl') (A @ (K, p) # B) (LA @ (K, c) # LB)"
proof -
  have "list_all2 (holds bl') (A @ B) (LA @ LB)" by (rule holds_frame [OF h fr])
  then show ?thesis using len new by (simp add: list_all2_append)
qed

lemma holds_split:
  assumes h: "list_all2 (holds bl) (A @ B) ls"
  obtains LA LB where "ls = LA @ LB" "length A = length LA" "map fst A = map fst LA" "map fst B = map fst LB"
proof -
  obtain LA LB where "ls = LA @ LB" "list_all2 (holds bl) A LA" "list_all2 (holds bl) B LB"
    using h by (auto simp: list_all2_append1)
  then show ?thesis using that holds_keys list_all2_lengthD by metis
qed

lemma keys_bound:
  assumes "map fst A = map fst LA" and "\<And>q. q \<in> set A \<Longrightarrow> P (fst q)" and "l \<in> set LA"
  shows "P (fst l)"
proof -
  have "fst l \<in> set (map fst A)" using assms(1,3) by simp
  then show ?thesis using assms(2) by auto
qed

lemma unit_new_leaf_rep:
  assumes rep: "unit_rep u (LA @ LB)" and room: "lb_room (u_bufs u)" and v: "unat v < 2 ^ 48"
    and K: "K \<le> k" "hi16 K = hi16 k"
    and below: "\<And>l. l \<in> set LA \<Longrightarrow> fst l < K" "\<And>x. x \<in> set (flat LA) \<Longrightarrow> fst x < K"
    and above: "\<And>l. l \<in> set LB \<Longrightarrow> k < fst l"
  shows "\<exists>u'. unit_new_leaf u K (lo48 k) v = Inr u' \<and> unit_rep u' (LA @ (K, [(k, v)]) # LB)"
proof -
  define A B where "A = take (length LA) (u_bt u)" and "B = drop (length LA) (u_bt u)"
  have bt: "u_bt u = A @ B" by (simp add: A_def B_def)
  have h: "list_all2 (holds (u_bufs u)) (u_bt u) (LA @ LB)" using rep by (simp add: unit_rep_def)
  have len: "length A = length LA" using list_all2_lengthD [OF h] by (simp add: A_def)
  have keys: "map fst A = map fst LA" "map fst B = map fst LB"
    using holds_keys [OF h] len by (simp_all add: bt)
  have ok: "lb_ok (u_bufs u) (snd ` set (u_bt u))" using rep by (simp add: unit_rep_def)
  have sm: "small_kv (lo48 k, v)" using v lo48_small by (simp only: small_kv_def prod.case simp_thms)
  obtain p bl d where c: "lb_create_leaf (u_bufs u) (lo48 k) v = Inr (p, bl)" "p \<notin> snd ` set (u_bt u)"
      "lb_ok bl (insert p (snd ` set (u_bt u)))" "lb_get_leaf bl p = Inr d" "leaf_rep d [(lo48 k, v)]"
    and fr: "\<And>q. q \<in> snd ` set (u_bt u) \<Longrightarrow> lb_get_leaf bl q = lb_get_leaf (u_bufs u) q"
    by (rule lb_create_leaf_ok [OF ok room sm]) blast
  have ins: "bt_insert K p (A @ B) = A @ (K, p) # B"
  proof (rule bt_insert_mid)
    show "fst q < K" if "q \<in> set A" for q using keys_bound [where P = "\<lambda>x. x < K", OF keys(1) [symmetric] below(1) that] .
    have "k < fst q" if "q \<in> set B" for q using keys_bound [where P = "\<lambda>x. k < x", OF keys(2) [symmetric] above that] .
    then show "K < fst q" if "q \<in> set B" for q using that K(1) by (meson le_less_trans)
  qed
  define u' where "u' = u\<lparr>u_change_count := u_change_count u + word_of_nat LEAF_INIT_CAP,
      u_bufs := bl, u_bt := A @ (K, p) # B\<rparr>"
  have "unit_new_leaf u K (lo48 k) v = Inr u'"
    by (simp add: unit_new_leaf_def c(1) u'_def bt ins)
  moreover have "unit_rep u' (LA @ (K, [(k, v)]) # LB)"
    unfolding unit_rep_def
  proof (intro conjI)
    show "list_all2 (holds (u_bufs u')) (u_bt u') (LA @ (K, [(k, v)]) # LB)"
      using holds_insert [OF h [unfolded bt] len fr [unfolded bt] holdsI [OF c(4), of "[(k, v)]"]] c(5)
      by (simp add: u'_def lo_pair_def)
    show "distinct (map snd (u_bt u'))" using rep c(2) by (auto simp: u'_def unit_rep_def bt)
    have "insert p (snd ` set (u_bt u)) = snd ` set (u_bt u')" by (auto simp: u'_def bt)
    then show "lb_ok (u_bufs u') (snd ` set (u_bt u'))" using c(3) by (simp add: u'_def)
    have "leaf_wf (K, [(k, v)])" using K v by (simp add: leaf_wf_def)
    moreover have "leaf_before l (K, [(k, v)])" if "l \<in> set LA" for l
    proof (cases l)
      case (Pair K' c)
      then have "\<forall>x\<in>set c. fst x < K" using below(2) that by (auto simp: flat_set)
      then show ?thesis using below(1) [OF that] Pair by (simp add: leaf_before_def)
    qed
    moreover have "leaf_before (K, [(k, v)]) l" if "l \<in> set LB" for l
      using above [OF that] K(1) by (cases l) (auto simp: leaf_before_def)
    ultimately show "leaves_wf (LA @ (K, [(k, v)]) # LB)"
      using rep by (auto simp: unit_rep_def leaves_wf_simps)
  qed
  ultimately show ?thesis by blast
qed

section \<open>A leaf under its key\<close>

text \<open>Within one leaf the low bits order the keys as the full keys do.\<close>

lemma leaf_wf_hi: "leaf_wf (K, c) \<Longrightarrow> x \<in> set c \<Longrightarrow> hi16 (fst x) = hi16 K"
  by (simp add: leaf_wf_def)

lemma fst_lo_pair [simp]: "fst (lo_pair x) = lo48 (fst x)"
  and snd_lo_pair [simp]: "snd (lo_pair x) = snd x"
  by (simp_all add: lo_pair_def split: prod.split)

lemma lo_pair_eq:
  "hi16 (fst x) = hi16 k \<Longrightarrow> lo_pair x = (lo48 k, v) \<longleftrightarrow> x = (k, v)"
  by (cases x) (auto simp: lo_pair_def lo48_order)

lemma takeWhile_lo_pair:
  assumes "\<And>x. x \<in> set c \<Longrightarrow> hi16 (fst x) = hi16 k"
  shows "length (takeWhile (\<lambda>p. fst p < lo48 k) (map lo_pair c)) = length (takeWhile (\<lambda>p. fst p < k) c)"
proof -
  have "takeWhile ((\<lambda>p. fst p < lo48 k) \<circ> lo_pair) c = takeWhile (\<lambda>p. fst p < k) c"
    using assms by (intro takeWhile_cong) (auto simp: lo48_order)
  then show ?thesis by (simp add: takeWhile_map)
qed

lemma sorted_lo_pair:
  assumes "leaf_wf (K, c)"
  shows "sorted (map fst (map lo_pair c))"
proof -
  have "sorted (map fst c)" using assms by (simp add: leaf_wf_def)
  then show ?thesis unfolding map_map sorted_map
    by (rule sorted_wrt_mono_rel [rotated]) (use leaf_wf_hi [OF assms] in \<open>auto simp: lo48_order\<close>)
qed

lemma mem_lo_pair:
  assumes "\<And>x. x \<in> set c \<Longrightarrow> hi16 (fst x) = hi16 k"
  shows "(lo48 k, v) \<in> set (map lo_pair c) \<longleftrightarrow> (k, v) \<in> set c"
proof
  assume "(lo48 k, v) \<in> set (map lo_pair c)"
  then obtain x where x: "x \<in> set c" "lo_pair x = (lo48 k, v)" by auto
  then show "(k, v) \<in> set c" using lo_pair_eq [OF assms [OF x(1)]] by simp
next
  assume "(k, v) \<in> set c"
  then have "lo_pair (k, v) \<in> set (map lo_pair c)" by simp
  then show "(lo48 k, v) \<in> set (map lo_pair c)" by (simp add: lo_pair_def)
qed

lemma remove1_lo_pair:
  assumes "\<And>x. x \<in> set c \<Longrightarrow> hi16 (fst x) = hi16 k"
  shows "remove1 (lo48 k, v) (map lo_pair c) = map lo_pair (remove1 (k, v) c)"
  using assms
proof (induction c)
  case (Cons x c)
  have "lo_pair x = (lo48 k, v) \<longleftrightarrow> x = (k, v)" by (rule lo_pair_eq) (simp add: Cons.prems)
  then show ?case using Cons by auto
qed simp

lemma change1_lo_pair:
  assumes "\<And>x. x \<in> set c \<Longrightarrow> hi16 (fst x) = hi16 k"
  shows "change1 (lo48 k, v) w (map lo_pair c) = map lo_pair (change1 (k, v) w c)"
  using assms
proof (induction c)
  case (Cons x c)
  have "lo_pair x = (lo48 k, v) \<longleftrightarrow> x = (k, v)" by (rule lo_pair_eq) (simp add: Cons.prems)
  moreover have "lo_pair (k, w) = (lo48 k, w)" by (simp add: lo_pair_def)
  ultimately show ?case using Cons by auto
qed simp

lemma ins_kv_lo_pair:
  fixes c k v
  defines "n \<equiv> length (takeWhile (\<lambda>p. fst p < k) c)"
  shows "take n (map lo_pair c) @ (lo48 k, v) # drop n (map lo_pair c) = map lo_pair (ins_kv (k, v) c)"
proof -
  have "take n c = takeWhile (\<lambda>p. fst p < k) c" "drop n c = dropWhile (\<lambda>p. fst p < k) c"
    by (simp_all add: n_def takeWhile_eq_take [symmetric] dropWhile_eq_drop [symmetric])
  then show ?thesis by (simp add: take_map drop_map ins_kv_def lo_pair_def)
qed

text \<open>An operation that rewrites one leaf in place.\<close>

lemma unit_put_rep:
  assumes rep: "unit_rep u (LA @ (K, c) # LB)" and bt: "u_bt u = A @ (K, p) # B" and len: "length A = length LA"
    and get: "lb_get_leaf (u_bufs u) p = Inr d" and d': "length d' = length d" "leaf_rep d' (map lo_pair c')"
    and wf': "leaf_wf (K, c')" and above: "\<And>x l. x \<in> set c' \<Longrightarrow> l \<in> set LB \<Longrightarrow> fst x < fst l"
  obtains bl where "lb_put_leaf (u_bufs u) p d' = Inr bl"
    and "\<And>n. unit_rep (u\<lparr>u_bufs := bl, u_change_count := n\<rparr>) (LA @ (K, c') # LB)"
    and "\<And>n. unit_rep (u\<lparr>u_change_count := n, u_bufs := bl\<rparr>) (LA @ (K, c') # LB)"
    and "unit_rep (u\<lparr>u_bufs := bl\<rparr>) (LA @ (K, c') # LB)"
proof -
  obtain bl where bl: "lb_put_leaf (u_bufs u) p d' = Inr bl" "lb_ok bl (snd ` set (u_bt u))"
    "list_all2 (holds bl) (u_bt u) (LA @ (K, c') # LB)"
    by (rule unit_rep_put [OF rep bt len get d'])
  have "leaves_wf (LA @ (K, c) # LB)" "distinct (map snd (u_bt u))" using rep by (simp_all add: unit_rep_def)
  then have "leaves_wf (LA @ (K, c') # LB)"
    using wf' above by (auto simp: leaves_wf_simps leaf_before_def)
  then show ?thesis
    using bl \<open>distinct (map snd (u_bt u))\<close> by (intro that [of bl]) (simp_all add: unit_rep_def)
qed

text \<open>The leaf in which a key is looked up.\<close>

lemma unit_lookup:
  assumes rep: "unit_rep u ls"
  shows "bt_last (\<lambda>x. hi16 k \<le> x \<and> x \<le> k) (u_bt u) = None \<Longrightarrow>
      \<exists>LA LB. ls = LA @ LB \<and> (\<forall>l\<in>set LA. fst l < hi16 k) \<and> (\<forall>l\<in>set LB. k < fst l)"
    and "bt_last (\<lambda>x. hi16 k \<le> x \<and> x \<le> k) (u_bt u) = Some (K, p) \<Longrightarrow>
      \<exists>A B LA c LB d. u_bt u = A @ (K, p) # B \<and> ls = LA @ (K, c) # LB \<and> length A = length LA
        \<and> hi16 K = hi16 k \<and> K \<le> k \<and> (\<forall>l\<in>set LB. k < fst l)
        \<and> lb_get_leaf (u_bufs u) p = Inr d \<and> leaf_rep d (map lo_pair c) \<and> leaf_wf (K, c)"
proof -
  have h: "list_all2 (holds (u_bufs u)) (u_bt u) ls" and wf: "leaves_wf ls"
    using rep by (simp_all add: unit_rep_def)
  note srt = unit_rep_sorted [OF rep]
  {
    assume n: "bt_last (\<lambda>x. hi16 k \<le> x \<and> x \<le> k) (u_bt u) = None"
    obtain A B where ab: "u_bt u = A @ B" "\<And>q. q \<in> set A \<Longrightarrow> fst q < hi16 k" "\<And>q. q \<in> set B \<Longrightarrow> k < fst q"
      using bt_last_None [OF n srt hi16_le] by blast
    obtain LA LB where ls: "ls = LA @ LB" "map fst A = map fst LA" "map fst B = map fst LB"
      using holds_split [OF h [unfolded ab(1)]] by blast
    have "\<forall>l\<in>set LA. fst l < hi16 k"
      using keys_bound [where P = "\<lambda>x. x < hi16 k", OF ls(2) ab(2)] by blast
    moreover have "\<forall>l\<in>set LB. k < fst l"
      using keys_bound [where P = "\<lambda>x. k < x", OF ls(3) ab(3)] by blast
    ultimately show "\<exists>LA LB. ls = LA @ LB \<and> (\<forall>l\<in>set LA. fst l < hi16 k) \<and> (\<forall>l\<in>set LB. k < fst l)"
      using ls(1) by blast
  next
    assume s: "bt_last (\<lambda>x. hi16 k \<le> x \<and> x \<le> k) (u_bt u) = Some (K, p)"
    obtain A B where ab: "u_bt u = A @ (K, p) # B" "hi16 k \<le> K" "K \<le> k" "\<And>q. q \<in> set B \<Longrightarrow> k < fst q"
      using bt_last_range [OF s srt] by blast
    obtain LA l LB where ls: "ls = LA @ l # LB" "length A = length LA" "holds (u_bufs u) (K, p) l"
        "list_all2 (holds (u_bufs u)) B LB"
      using h unfolding ab(1) by (auto simp: list_all2_append1 list_all2_Cons1 dest: list_all2_lengthD)
    obtain c d where c: "l = (K, c)" "lb_get_leaf (u_bufs u) p = Inr d" "leaf_rep d (map lo_pair c)"
      using ls(3) by (cases l) (auto simp: holds_def)
    have "\<forall>l\<in>set LB. k < fst l"
      using keys_bound [where P = "\<lambda>x. k < x", OF holds_keys [OF ls(4)] ab(4)] by blast
    moreover have "leaf_wf (K, c)" using wf by (simp add: ls(1) c(1) leaves_wf_simps)
    ultimately show "\<exists>A B LA c LB d. u_bt u = A @ (K, p) # B \<and> ls = LA @ (K, c) # LB \<and> length A = length LA
        \<and> hi16 K = hi16 k \<and> K \<le> k \<and> (\<forall>l\<in>set LB. k < fst l)
        \<and> lb_get_leaf (u_bufs u) p = Inr d \<and> leaf_rep d (map lo_pair c) \<and> leaf_wf (K, c)"
      using ab(1,3) ls(1,2) c hi16_between [OF ab(2,3)]
      by (intro exI [of _ A] exI [of _ B] exI [of _ LA] exI [of _ c] exI [of _ LB] exI [of _ d]) simp
  }
qed

lemma lookup_None_flat:
  assumes wf: "leaves_wf (LA @ LB)" and "\<forall>l\<in>set LA. fst l < hi16 k" "\<forall>l\<in>set LB. k < fst l"
  shows "x \<in> set (flat LA) \<Longrightarrow> fst x < k" and "x \<in> set (flat LB) \<Longrightarrow> k < fst x" and "(k, v) \<notin> set (flat (LA @ LB))"
proof -
  have a: "fst x < k" if "x \<in> set (flat LA)" for x
  proof (rule less_le_trans)
    show "fst x < hi16 k" using flat_below_hi [of LA k x] assms that by (auto simp: leaves_wf_append)
  qed simp
  have b: "k < fst x" if "x \<in> set (flat LB)" for x
    using flat_above [of LB k x] assms that by (auto simp: leaves_wf_append)
  show "x \<in> set (flat LA) \<Longrightarrow> fst x < k" "x \<in> set (flat LB) \<Longrightarrow> k < fst x" by (fact a, fact b)
  show "(k, v) \<notin> set (flat (LA @ LB))" using a [of "(k, v)"] b [of "(k, v)"] by auto
qed

lemma lookup_Some_flat:
  assumes wf: "leaves_wf (LA @ (K, c) # LB)" and "K \<le> k" "\<forall>l\<in>set LB. k < fst l"
  shows "x \<in> set (flat LA) \<Longrightarrow> fst x < k" and "x \<in> set (flat LB) \<Longrightarrow> k < fst x"
    and "(k, v) \<notin> set (flat LA)" and "(k, v) \<notin> set (flat LB)"
proof -
  have a: "fst x < k" if "x \<in> set (flat LA)" for x using flat_below [OF wf that] assms(2) by simp
  have b: "k < fst x" if "x \<in> set (flat LB)" for x
    using flat_above [of LB k x] assms that by (auto simp: leaves_wf_simps)
  show "x \<in> set (flat LA) \<Longrightarrow> fst x < k" "x \<in> set (flat LB) \<Longrightarrow> k < fst x" by (fact a, fact b)
  show "(k, v) \<notin> set (flat LA)" "(k, v) \<notin> set (flat LB)" using a [of "(k, v)"] b [of "(k, v)"] by auto
qed

section \<open>Erasing and changing\<close>

lemma unit_rep_count [simp]: "unit_rep (u\<lparr>u_change_count := n\<rparr>) ls \<longleftrightarrow> unit_rep u ls"
  by (simp add: unit_rep_def)

lemma leaf_before_cong: "leaf_before l (K, c') = leaf_before l (K, c)"
  by (simp add: leaf_before_def split: prod.split)

lemma leaf_before_less: "leaf_before (K, c) l \<Longrightarrow> x \<in> set c \<Longrightarrow> fst x < fst l"
  by (cases l) (simp add: leaf_before_def)

lemma leaf_before_subset: "leaf_before (K, c) l \<Longrightarrow> set c' \<subseteq> set c \<Longrightarrow> leaf_before (K, c') l"
  by (auto simp: leaf_before_def split: prod.splits)

lemma leaf_wf_remove1: "leaf_wf (K, c) \<Longrightarrow> remove1 p c \<noteq> [] \<Longrightarrow> leaf_wf (K, remove1 p c)"
  by (auto simp: leaf_wf_def sorted_map_remove1 dest: notin_set_remove1 [THEN contrapos_nn] set_remove1_subset [THEN subsetD])

lemma unit_erase_in_leaf:
  assumes rep: "unit_rep u (LA @ (K, c) # LB)" and bt: "u_bt u = A @ (K, p) # B" and len: "length A = length LA"
    and get: "lb_get_leaf (u_bufs u) p = Inr d"
    and d': "length d' = length d" "leaf_rep d' (map lo_pair c')" and c': "c' = remove1 x c"
  obtains bl where "lb_put_leaf (u_bufs u) p d' = Inr bl"
    and "c' \<noteq> [] \<Longrightarrow> unit_rep (u\<lparr>u_bufs := bl\<rparr>) (LA @ (K, c') # LB)"
    and "c' = [] \<Longrightarrow> unit_rep (u\<lparr>u_bufs := bl, u_bt := bt_remove K (u_bt u)\<rparr>) (LA @ LB)"
proof -
  obtain bl where bl: "lb_put_leaf (u_bufs u) p d' = Inr bl" "lb_ok bl (snd ` set (u_bt u))"
    "list_all2 (holds bl) (u_bt u) (LA @ (K, c') # LB)"
    by (rule unit_rep_put [OF rep bt len get d'])
  have wf: "leaves_wf (LA @ (K, c) # LB)" and dist: "distinct (map snd (u_bt u))"
    using rep by (simp_all add: unit_rep_def)
  have rm: "bt_remove K (u_bt u) = A @ B"
    using bt_remove_mid unit_rep_sorted [OF rep] by (simp add: bt)
  have sub: "set c' \<subseteq> set c" unfolding c' by (rule set_remove1_subset)
  have "leaves_wf (LA @ (K, c') # LB)" if "c' \<noteq> []"
    using wf leaf_wf_remove1 [of K c x] that sub leaf_before_subset leaf_before_cong [of _ K c' c]
    by (auto simp: leaves_wf_simps simp flip: c')
  then have 1: "unit_rep (u\<lparr>u_bufs := bl\<rparr>) (LA @ (K, c') # LB)" if "c' \<noteq> []"
    using that bl dist by (simp add: unit_rep_def)
  have "lb_ok bl (snd ` set (A @ B))"
    by (rule lbs.drop_law [OF bl(2)]) (auto simp: bt)
  then have 2: "unit_rep (u\<lparr>u_bufs := bl, u_bt := bt_remove K (u_bt u)\<rparr>) (LA @ LB)"
    using bl(3) dist wf len by (simp add: unit_rep_def rm [unfolded bt] bt list_all2_append leaves_wf_simps)
  show ?thesis using that [OF bl(1)] 1 2 by blast
qed

lemma unit_erase_rep:
  assumes rep: "unit_rep u ls"
  shows "(k, v) \<in> set (flat ls) \<Longrightarrow> \<exists>u' ls'. unit_erase_kv u k v = Inr u' \<and> unit_rep u' ls'
      \<and> flat ls' = remove1 (k, v) (flat ls)"
    and "(k, v) \<notin> set (flat ls) \<Longrightarrow> unit_erase_kv u k v = Inl (Panic ''Cannot Erase Non-existent KV'')"
proof -
  define u1 where "u1 = u\<lparr>u_change_count := u_change_count u + 1\<rparr>"
  have rep1: "unit_rep u1 ls" and wf: "leaves_wf ls" using rep by (simp_all add: u1_def) (simp add: unit_rep_def)
  let ?goal = "if (k, v) \<in> set (flat ls) then \<exists>u' ls'. unit_erase_kv u k v = Inr u' \<and> unit_rep u' ls'
      \<and> flat ls' = remove1 (k, v) (flat ls)
    else unit_erase_kv u k v = Inl (Panic ''Cannot Erase Non-existent KV'')"
  have "?goal"
  proof (cases "bt_last (\<lambda>x. hi16 k \<le> x \<and> x \<le> k) (u_bt u1)")
    case None
    then obtain LA LB where ls: "ls = LA @ LB" "\<forall>l\<in>set LA. fst l < hi16 k" "\<forall>l\<in>set LB. k < fst l"
      using unit_lookup(1) [OF rep1] by blast
    have "(k, v) \<notin> set (flat ls)" using lookup_None_flat(3) wf ls by blast
    moreover have "unit_erase_kv u k v = Inl (Panic ''Cannot Erase Non-existent KV'')"
      using None by (simp add: unit_erase_kv_def split_hi_lo_eq u1_def)
    ultimately show ?thesis by simp
  next
    case (Some Kp)
    obtain K p where Kp: "Kp = (K, p)" by fastforce
    obtain A B LA c LB d where bt: "u_bt u1 = A @ (K, p) # B" and ls: "ls = LA @ (K, c) # LB" and len: "length A = length LA"
      and hi: "hi16 K = hi16 k" and le: "K \<le> k" and ab: "\<forall>l\<in>set LB. k < fst l"
      and get: "lb_get_leaf (u_bufs u1) p = Inr d" and lr: "leaf_rep d (map lo_pair c)" and lw: "leaf_wf (K, c)"
      using unit_lookup(2) [OF rep1 Some [unfolded Kp]] by blast
    have h: "hi16 (fst x) = hi16 k" if "x \<in> set c" for x using leaf_wf_hi [OF lw that] hi by simp
    have mem: "(lo48 k, v) \<in> set (map lo_pair c) \<longleftrightarrow> (k, v) \<in> set c" by (rule mem_lo_pair) (rule h)
    have rem: "remove1 (lo48 k, v) (map lo_pair c) = map lo_pair (remove1 (k, v) c)" by (rule remove1_lo_pair) (rule h)
    have nin: "(k, v) \<notin> set (flat LA)" "(k, v) \<notin> set (flat LB)"
      using lookup_Some_flat(3,4) wf le ab unfolding ls by blast+
    have run: "unit_erase_kv u k v =
        bindE (leaf_erase d (lo48 k) v) (\<lambda>leaf. bindE (lb_put_leaf (u_bufs u1) p leaf) (\<lambda>bl.
          let u = u1\<lparr>u_bufs := bl\<rparr> in bindE (leaf_len leaf) (\<lambda>n.
          Inr (if n = 0 then u\<lparr>u_bt := bt_remove K (u_bt u)\<rparr> else u))))"
      using Some get by (simp add: unit_erase_kv_def split_hi_lo_eq Kp Let_def flip: u1_def)
    show ?thesis
    proof (cases "(k, v) \<in> set c")
      case False
      then show ?thesis
        using nin run leaf_erase_rep(2) [OF lr sorted_lo_pair [OF lw], of "lo48 k" v] mem
        by (simp add: ls)
    next
      case True
      define c' where "c' = remove1 (k, v) c"
      obtain d' where d': "leaf_erase d (lo48 k) v = Inr d'" "length d' = length d" "leaf_rep d' (map lo_pair c')"
        using leaf_erase_rep(1) [OF lr sorted_lo_pair [OF lw], of "lo48 k" v] mem True rem by (auto simp: c'_def)
      obtain bl where bl: "lb_put_leaf (u_bufs u1) p d' = Inr bl"
        and r1: "c' \<noteq> [] \<Longrightarrow> unit_rep (u1\<lparr>u_bufs := bl\<rparr>) (LA @ (K, c') # LB)"
        and r2: "c' = [] \<Longrightarrow> unit_rep (u1\<lparr>u_bufs := bl, u_bt := bt_remove K (u_bt u1)\<rparr>) (LA @ LB)"
        using unit_erase_in_leaf [OF rep1 [unfolded ls] bt len get d'(2,3) c'_def] by blast
      have fl: "remove1 (k, v) (flat ls) = flat LA @ c' @ flat LB"
        using nin True by (simp add: ls remove1_append c'_def)
      show ?thesis
      proof (cases "c' = []")
        case True
        then show ?thesis using \<open>(k, v) \<in> set c\<close> run d' bl r2 fl
          by (simp add: ls) (intro exI [of _ "LA @ LB"], simp)
      next
        case False
        then show ?thesis using \<open>(k, v) \<in> set c\<close> run d' bl r1 fl
          by (simp add: ls) (intro exI [of _ "LA @ (K, c') # LB"], simp)
      qed
    qed
  qed
  then show "(k, v) \<in> set (flat ls) \<Longrightarrow> \<exists>u' ls'. unit_erase_kv u k v = Inr u' \<and> unit_rep u' ls'
      \<and> flat ls' = remove1 (k, v) (flat ls)"
    and "(k, v) \<notin> set (flat ls) \<Longrightarrow> unit_erase_kv u k v = Inl (Panic ''Cannot Erase Non-existent KV'')"
    by simp_all
qed

lemma change1_Nil [simp]: "change1 p w ps = [] \<longleftrightarrow> ps = []"
  by (cases ps) simp_all

lemma leaf_wf_change1:
  assumes lw: "leaf_wf (K, c)" and p: "(k, v) \<in> set c" and w: "unat w < 2 ^ 48"
  shows "leaf_wf (K, change1 (k, v) w c)"
proof -
  have "K \<le> fst x \<and> hi16 (fst x) = hi16 K \<and> unat (snd x) < 2 ^ 48" if "x \<in> set (change1 (k, v) w c)" for x
    using set_change1 [OF that]
  proof
    assume "x \<in> set c"
    then show ?thesis using lw by (simp add: leaf_wf_def)
  next
    assume "x = (fst (k, v), w) \<and> (k, v) \<in> set c"
    then show ?thesis using lw p w by (fastforce simp: leaf_wf_def)
  qed
  then show ?thesis using lw by (simp add: leaf_wf_def)
qed

lemma unit_change_rep:
  assumes rep: "unit_rep u ls"
  shows "(k, v) \<in> set (flat ls) \<Longrightarrow> unat w < 2 ^ 48 \<Longrightarrow> \<exists>u' ls'. unit_change_kv u k v w = Inr u' \<and> unit_rep u' ls'
      \<and> flat ls' = change1 (k, v) w (flat ls)"
    and "(k, v) \<notin> set (flat ls) \<Longrightarrow> unit_change_kv u k v w = Inl (Panic ''Cannot Change Non-existent KV'')"
proof -
  define u1 where "u1 = u\<lparr>u_change_count := u_change_count u + 1\<rparr>"
  have rep1: "unit_rep u1 ls" and wf: "leaves_wf ls" using rep by (simp_all add: u1_def) (simp add: unit_rep_def)
  let ?none = "unit_change_kv u k v w = Inl (Panic ''Cannot Change Non-existent KV'')"
    and ?some = "unat w < 2 ^ 48 \<longrightarrow> (\<exists>u' ls'. unit_change_kv u k v w = Inr u' \<and> unit_rep u' ls'
      \<and> flat ls' = change1 (k, v) w (flat ls))"
  have "if (k, v) \<in> set (flat ls) then ?some else ?none"
  proof (cases "bt_last (\<lambda>x. hi16 k \<le> x \<and> x \<le> k) (u_bt u1)")
    case None
    then obtain LA LB where ls: "ls = LA @ LB" "\<forall>l\<in>set LA. fst l < hi16 k" "\<forall>l\<in>set LB. k < fst l"
      using unit_lookup(1) [OF rep1] by blast
    have "(k, v) \<notin> set (flat ls)" using lookup_None_flat(3) wf ls by blast
    moreover have ?none using None by (simp add: unit_change_kv_def split_hi_lo_eq u1_def)
    ultimately show ?thesis by simp
  next
    case (Some Kp)
    obtain K p where Kp: "Kp = (K, p)" by fastforce
    obtain A B LA c LB d where bt: "u_bt u1 = A @ (K, p) # B" and ls: "ls = LA @ (K, c) # LB" and len: "length A = length LA"
      and hi: "hi16 K = hi16 k" and le: "K \<le> k" and ab: "\<forall>l\<in>set LB. k < fst l"
      and get: "lb_get_leaf (u_bufs u1) p = Inr d" and lr: "leaf_rep d (map lo_pair c)" and lw: "leaf_wf (K, c)"
      using unit_lookup(2) [OF rep1 Some [unfolded Kp]] by blast
    have h: "hi16 (fst x) = hi16 k" if "x \<in> set c" for x using leaf_wf_hi [OF lw that] hi by simp
    have mem: "(lo48 k, v) \<in> set (map lo_pair c) \<longleftrightarrow> (k, v) \<in> set c" by (rule mem_lo_pair) (rule h)
    have ch: "change1 (lo48 k, v) w (map lo_pair c) = map lo_pair (change1 (k, v) w c)" by (rule change1_lo_pair) (rule h)
    have nin: "(k, v) \<notin> set (flat LA)" "(k, v) \<notin> set (flat LB)"
      using lookup_Some_flat(3,4) wf le ab unfolding ls by blast+
    have run: "unit_change_kv u k v w =
        bindE (leaf_change d (lo48 k) v w) (\<lambda>leaf. bindE (lb_put_leaf (u_bufs u1) p leaf) (\<lambda>bl. Inr (u1\<lparr>u_bufs := bl\<rparr>)))"
      using Some get by (simp add: unit_change_kv_def split_hi_lo_eq Kp Let_def flip: u1_def)
    show ?thesis
    proof (cases "(k, v) \<in> set c")
      case False
      then show ?thesis
        using nin run leaf_change_rep(2) [OF lr sorted_lo_pair [OF lw], of "lo48 k" v] mem by (simp add: ls)
    next
      case True
      define c' where "c' = change1 (k, v) w c"
      have "?some"
      proof
        assume w: "unat w < 2 ^ 48"
        obtain d' where d': "leaf_change d (lo48 k) v w = Inr d'" "length d' = length d" "leaf_rep d' (map lo_pair c')"
          using leaf_change_rep(1) [OF lr sorted_lo_pair [OF lw], of "lo48 k" v w] mem True ch w by (auto simp: c'_def)
        have keys: "fst ` set c' = fst ` set c" by (metis c'_def list.set_map map_fst_change1)
        have wf': "leaf_wf (K, c')" unfolding c'_def by (rule leaf_wf_change1 [OF lw True w])
        have above: "fst x < fst l" if "x \<in> set c'" "l \<in> set LB" for x l
        proof -
          have "fst x \<in> fst ` set c" unfolding keys [symmetric] using that(1) by (rule imageI)
          then obtain y where y: "y \<in> set c" "fst x = fst y" by (rule imageE)
          have "leaf_before (K, c) l" using wf \<open>l \<in> set LB\<close> by (simp add: ls leaves_wf_simps)
          then show ?thesis unfolding y(2) using y(1) by (rule leaf_before_less)
        qed
        obtain bl where bl: "lb_put_leaf (u_bufs u1) p d' = Inr bl" "unit_rep (u1\<lparr>u_bufs := bl\<rparr>) (LA @ (K, c') # LB)"
          using unit_put_rep [OF rep1 [unfolded ls] bt len get d'(2,3) wf' above] by blast
        have "flat (LA @ (K, c') # LB) = change1 (k, v) w (flat ls)"
          using nin True by (simp add: ls change1_append c'_def)
        then show "\<exists>u' ls'. unit_change_kv u k v w = Inr u' \<and> unit_rep u' ls' \<and> flat ls' = change1 (k, v) w (flat ls)"
          using run d'(1) bl by (intro exI [of _ "u1\<lparr>u_bufs := bl\<rparr>"] exI [of _ "LA @ (K, c') # LB"]) simp
      qed
      then show ?thesis using True by (simp add: ls)
    qed
  qed
  then show "(k, v) \<in> set (flat ls) \<Longrightarrow> unat w < 2 ^ 48 \<Longrightarrow> \<exists>u' ls'. unit_change_kv u k v w = Inr u' \<and> unit_rep u' ls'
      \<and> flat ls' = change1 (k, v) w (flat ls)"
    and "(k, v) \<notin> set (flat ls) \<Longrightarrow> ?none" by simp_all
qed

section \<open>Adding\<close>

lemma leaf_cut:
  assumes lr: "leaf_rep d ps" and i: "i \<le> length ps"
  shows "slice d (2 + 12 * i) (2 + 12 * i + 12 * (length ps - i)) = Inr (enc_kvs (drop i ps))"
    and "\<exists>d'. write_at d 0 (u16_le (word_of_nat i)) = Inr d' \<and> length d' = length d \<and> leaf_rep d' (take i ps)"
proof -
  obtain rest where d: "d = u16_le (word_of_nat (length ps)) @ enc_kvs ps @ rest" and r: "12 dvd length rest"
    and sm: "list_all small_kv ps" and sz: "length rest + 12 * length ps \<le> 12 * (2 ^ 16 - 1)"
    using lr by (rule leaf_repE)
  have e: "enc_kvs ps = enc_kvs (take i ps) @ enc_kvs (drop i ps)" by (simp flip: enc_kvs_append)
  have d2: "d = (u16_le (word_of_nat (length ps)) @ enc_kvs (take i ps)) @ enc_kvs (drop i ps) @ rest"
    unfolding d by (subst e) simp
  show "slice d (2 + 12 * i) (2 + 12 * i + 12 * (length ps - i)) = Inr (enc_kvs (drop i ps))"
    unfolding d2 by (rule slice_append_mid) (use i in simp_all)
  define d' where "d' = u16_le (word_of_nat i) @ enc_kvs (take i ps) @ enc_kvs (drop i ps) @ rest"
  have "splice d 0 (u16_le (word_of_nat i)) = [] @ u16_le (word_of_nat i) @ enc_kvs (take i ps) @ enc_kvs (drop i ps) @ rest"
    by (rule splice_at [where Y = "u16_le (word_of_nat (length ps))"]) (simp_all add: d2)
  then have w: "write_at d 0 (u16_le (word_of_nat i)) = Inr d'" by (simp add: write_at_def d'_def d2)
  have len: "length d' = length d" by (simp add: d'_def d2)
  have "leaf_rep d' (take i ps)"
  proof (rule leaf_repI [where rest = "enc_kvs (drop i ps) @ rest"])
    show "d' = u16_le (word_of_nat (length (take i ps))) @ enc_kvs (take i ps) @ enc_kvs (drop i ps) @ rest"
      using i by (simp add: d'_def min_def)
    show "12 dvd length (enc_kvs (drop i ps) @ rest)" using r by simp
    show "length d' \<le> 2 + 12 * (2 ^ 16 - 1)" using len sz by (simp add: d)
    show "list_all small_kv (take i ps)" using sm by (auto simp: list_all_iff dest: in_set_takeD)
  qed
  then show "\<exists>d'. write_at d 0 (u16_le (word_of_nat i)) = Inr d' \<and> length d' = length d \<and> leaf_rep d' (take i ps)"
    using w len by blast
qed

lemma leaf_fill:
  assumes len: "length bz = 2 + 12 * cap" and cap: "Suc (length ps) \<le> cap" "cap \<le> 2 ^ 16 - 1"
    and sm: "small_kv (k, v)" "list_all small_kv ps"
  defines "run \<equiv> bindE (write_at bz 0 (u16_le (word_of_nat (1 + length ps)))) (\<lambda>bz.
     bindE (write_at bz 2 (u64_le k)) (\<lambda>bz.
     bindE (write_at bz 8 (take 6 (u64_le v))) (\<lambda>bz. write_at bz 14 (enc_kvs ps))))"
  shows "\<exists>bz'. run = Inr bz' \<and> length bz' = length bz \<and> leaf_rep bz' ((k, v) # ps)"
proof -
  let ?h = "u16_le (word_of_nat (1 + length ps))"
  define G P Z where "G = take 12 (drop 2 bz)" and "P = take (12 * length ps) (drop 12 (drop 2 bz))"
    and "Z = drop (12 * length ps) (drop 12 (drop 2 bz))"
  have l: "length G = 12" "length P = 12 * length ps" "length Z = 12 * (cap - Suc (length ps))"
    using len cap by (simp_all add: G_def P_def Z_def)
  have b: "bz = take 2 bz @ G @ P @ Z"
    unfolding G_def P_def Z_def by (simp only: append_take_drop_id)
  have w1: "write_at bz 0 ?h = Inr (?h @ G @ P @ Z)"
  proof -
    have "splice bz 0 ?h = [] @ ?h @ G @ P @ Z"
      by (rule splice_at [where Y = "take 2 bz"]) (use b len in simp_all)
    then show ?thesis using len by (simp add: write_at_def)
  qed
  have w2: "bindE (write_at (?h @ G @ P @ Z) 2 (u64_le k)) (\<lambda>bz. write_at bz 8 (take 6 (u64_le v)))
      = Inr (?h @ enc_kv (k, v) @ P @ Z)"
    using write_pair [of ?h 2 G "P @ Z" k v] l by simp
  have w3: "write_at (?h @ enc_kv (k, v) @ P @ Z) 14 (enc_kvs ps) = Inr (?h @ enc_kv (k, v) @ enc_kvs ps @ Z)"
  proof -
    have "splice (?h @ enc_kv (k, v) @ P @ Z) 14 (enc_kvs ps) = (?h @ enc_kv (k, v)) @ enc_kvs ps @ Z"
      by (rule splice_at [where Y = P]) (use l in simp_all)
    then show ?thesis using l by (simp add: write_at_def)
  qed
  have "run = Inr (?h @ enc_kv (k, v) @ enc_kvs ps @ Z)"
    unfolding run_def w1 bindE.simps by (simp only: w2 w3 bindE.simps flip: bindE_assoc)
  moreover have "length (?h @ enc_kv (k, v) @ enc_kvs ps @ Z) = length bz" using l cap len by simp
  moreover have "leaf_rep (?h @ enc_kv (k, v) @ enc_kvs ps @ Z) ((k, v) # ps)"
    by (rule leaf_repI [where rest = Z]) (use l cap sm in simp_all)
  ultimately show ?thesis by blast
qed

lemma takeWhile_cut:
  fixes c :: "(u64 \<times> i64) list" and k :: u64
  assumes "sorted (map fst c)"
  defines "n \<equiv> length (takeWhile (\<lambda>p. fst p < k) c)"
  shows "x \<in> set (take n c) \<Longrightarrow> fst x < k" and "x \<in> set (drop n c) \<Longrightarrow> k \<le> fst x"
    and "take n c @ (k, v) # drop n c = ins_kv (k, v) c"
proof -
  have t: "take n c = takeWhile (\<lambda>p. fst p < k) c" and d: "drop n c = dropWhile (\<lambda>p. fst p < k) c"
    by (simp_all add: n_def takeWhile_eq_take [symmetric] dropWhile_eq_drop [symmetric])
  show "x \<in> set (take n c) \<Longrightarrow> fst x < k" by (auto simp: t dest: set_takeWhileD)
  show "take n c @ (k, v) # drop n c = ins_kv (k, v) c" by (simp add: t d ins_kv_def)
  assume x: "x \<in> set (drop n c)"
  have s: "sorted (map fst (drop n c))" using sorted_wrt_drop [OF assms(1), of n] by (simp add: drop_map)
  show "k \<le> fst x"
  proof (cases "drop n c")
    case Nil
    then show ?thesis using x by simp
  next
    case (Cons y ys)
    have "\<not> fst y < k" using Cons unfolding d by (metis dropWhile_eq_Cons_conv)
    then show ?thesis using x s Cons by auto
  qed
qed

lemma small_lo_pair: "leaf_rep d (map lo_pair c) \<Longrightarrow> list_all small_kv (map lo_pair c)"
  by (erule leaf_repE)

text \<open>The bytes of a split: the old leaf keeps the smaller keys, the new one starts with the pair.\<close>

lemma unit_split_bytes:
  assumes rep: "unit_rep u (LA @ (K, c) # LB)" and bt: "u_bt u = A @ (K, p) # B" and len: "length A = length LA"
    and get: "lb_get_leaf (u_bufs u) p = Inr d" and lr: "leaf_rep d (map lo_pair c)"
    and room: "lb_room (u_bufs u)" and v: "unat v < 2 ^ 48" and idx: "idx < length c" and sz: "length c \<le> 2 ^ 16 - 4"
  obtains bl q m t where
    "unit_split u K p d idx k (lo48 k) v = Inr (let u = u\<lparr>u_bufs := bl, u_temp_vec := t\<rparr> in
       if idx = 0 then u\<lparr>u_change_count := m, u_bt := bt_insert K q (u_bt u)\<rparr>
       else u\<lparr>u_change_count := m, u_bt := bt_insert k q (u_bt u)\<rparr>)"
    and "q \<notin> snd ` set (u_bt u)" "lb_ok bl (insert q (snd ` set (u_bt u)))"
    and "list_all2 (holds bl) (u_bt u) (LA @ (K, take idx c) # LB)"
    and "\<forall>K'. holds bl (K', q) (K', (k, v) # drop idx c)"
proof -
  let ?L = "snd ` set (u_bt u)"
  define count where "count = length c - idx"
  define cap where "cap = 1 + count + min (count div 4) 2"
  have cp: "Suc (length (map lo_pair (drop idx c))) \<le> cap" "cap \<le> 2 ^ 16 - 1"
    using sz idx by (simp_all add: cap_def count_def)
  have i: "idx \<le> length (map lo_pair c)" using idx by simp
  obtain d1 where d1: "write_at d 0 (u16_le (word_of_nat idx)) = Inr d1" "length d1 = length d" "leaf_rep d1 (map lo_pair (take idx c))"
    using leaf_cut(2) [OF lr i] by (auto simp: take_map)
  obtain bl1 where bl1: "lb_put_leaf (u_bufs u) p d1 = Inr bl1" "lb_ok bl1 ?L" "lb_room (u_bufs u) \<longrightarrow> lb_room bl1"
      "list_all2 (holds bl1) (u_bt u) (LA @ (K, take idx c) # LB)"
    by (rule unit_rep_put [OF rep bt len get d1(2,3)])
  have room1: "lb_room bl1" using bl1(3) room by simp
  obtain q bz bl2 where al: "lb_allocate bl1 cap = Inr (q, bz, bl2)" "q \<notin> ?L" "length bz = 2 + 12 * cap"
    and pu: "\<And>d'. length d' = length bz \<Longrightarrow> \<exists>bl. lb_put_leaf bl2 q d' = Inr bl \<and> lb_ok bl (insert q ?L)
        \<and> lb_get_leaf bl q = Inr d' \<and> (\<forall>x\<in>?L. lb_get_leaf bl x = lb_get_leaf bl1 x)"
    using lbs.alloc_put [OF bl1(2) room1 cp(2)] by blast
  have sm: "small_kv (lo48 k, v)" using v lo48_small by (simp only: small_kv_def prod.case simp_thms)
  have sms: "list_all small_kv (map lo_pair (drop idx c))"
    using small_lo_pair [OF lr] by (auto simp: list_all_iff dest: in_set_dropD)
  obtain bz' where bz': "bindE (write_at bz 0 (u16_le (word_of_nat (1 + length (map lo_pair (drop idx c)))))) (\<lambda>bz.
      bindE (write_at bz 2 (u64_le (lo48 k))) (\<lambda>bz.
      bindE (write_at bz 8 (take 6 (u64_le v))) (\<lambda>bz. write_at bz 14 (enc_kvs (map lo_pair (drop idx c)))))) = Inr bz'"
      "length bz' = length bz" "leaf_rep bz' ((lo48 k, v) # map lo_pair (drop idx c))"
    using leaf_fill [OF al(3) cp sm sms] by blast
  obtain bl where bl: "lb_put_leaf bl2 q bz' = Inr bl" "lb_ok bl (insert q ?L)" "lb_get_leaf bl q = Inr bz'"
      "\<forall>x\<in>?L. lb_get_leaf bl x = lb_get_leaf bl1 x"
    using pu [OF bz'(2)] by blast
  obtain b1 b2 b3 where b: "write_at bz 0 (u16_le (word_of_nat (1 + count))) = Inr b1" "write_at b1 2 (u64_le (lo48 k)) = Inr b2"
      "write_at b2 8 (take 6 (u64_le v)) = Inr b3" "write_at b3 14 (enc_kvs (map lo_pair (drop idx c))) = Inr bz'"
    using bz'(1) by (auto simp only: bindE_eq_Inr length_map length_drop count_def)
  have cut: "slice d (2 + KV_SIZE * idx) (2 + KV_SIZE * idx + 12 * count) = Inr (enc_kvs (map lo_pair (drop idx c)))"
    using leaf_cut(1) [OF lr i] by (simp add: kv_sizes count_def drop_map)
  have "list_all2 (holds bl) (u_bt u) (LA @ (K, take idx c) # LB)"
    by (rule holds_frame [OF bl1(4)]) (use bl(4) in blast)
  moreover have "holds bl (K', q) (K', (k, v) # drop idx c)" for K'
    by (rule holdsI [OF bl(3)]) (use bz'(3) in \<open>simp add: lo_pair_def\<close>)
  moreover have "unit_split u K p d idx k (lo48 k) v = Inr (let u = u\<lparr>u_bufs := bl, u_temp_vec := enc_kvs (map lo_pair (drop idx c))\<rparr> in
       if idx = 0 then u\<lparr>u_change_count := u_change_count u + (if idx = 0 then word_of_nat (cap - count) else word_of_nat cap), u_bt := bt_insert K q (u_bt u)\<rparr>
       else u\<lparr>u_change_count := u_change_count u + (if idx = 0 then word_of_nat (cap - count) else word_of_nat cap), u_bt := bt_insert k q (u_bt u)\<rparr>)"
    unfolding unit_split_def leaf_len_rep [OF lr] length_map bindE.simps Let_def count_def [symmetric]
    unfolding cap_def [symmetric] cut bindE.simps d1(1) bl1(1) al(1) prod.case b bl(1) by simp
  ultimately show ?thesis
    by (intro that [where bl = bl and t = "enc_kvs (map lo_pair (drop idx c))" and q = q
          and m = "u_change_count u + (if idx = 0 then word_of_nat (cap - count) else word_of_nat cap)", OF _ al(2) bl(2)])
      (simp_all add: Let_def)
qed

lemma leaf_wf_subset:
  "leaf_wf (K, c) \<Longrightarrow> set c' \<subseteq> set c \<Longrightarrow> sorted (map fst c') \<Longrightarrow> c' \<noteq> [] \<Longrightarrow> leaf_wf (K, c')"
  by (auto simp: leaf_wf_def)

lemma leaf_wf_Cons:
  assumes lw: "leaf_wf (K, c)" and sub: "set c' \<subseteq> set c" and srt: "sorted (map fst c')"
    and k: "\<And>x. x \<in> set c' \<Longrightarrow> k \<le> fst x" and K': "K' \<le> k" "hi16 K' = hi16 k" "hi16 K = hi16 k" and v: "unat v < 2 ^ 48"
  shows "leaf_wf (K', (k, v) # c')"
proof -
  have "K' \<le> fst x \<and> hi16 (fst x) = hi16 K' \<and> unat (snd x) < 2 ^ 48" if x: "x \<in> set c'" for x
    using lw sub k [OF x] K' x by (auto simp: leaf_wf_def)
  then show ?thesis using srt k K' v by (simp add: leaf_wf_def)
qed

lemma unit_split_rep:
  assumes rep: "unit_rep u (LA @ (K, c) # LB)" and bt: "u_bt u = A @ (K, p) # B" and len: "length A = length LA"
    and get: "lb_get_leaf (u_bufs u) p = Inr d" and lr: "leaf_rep d (map lo_pair c)"
    and room: "lb_room (u_bufs u)" and v: "unat v < 2 ^ 48" and sz: "length c \<le> 2 ^ 16 - 4"
    and le: "K \<le> k" and hi: "hi16 K = hi16 k" and ab: "\<forall>l\<in>set LB. k < fst l"
    and idx: "idx = length (takeWhile (\<lambda>p. fst p < k) c)" "idx < length c"
  shows "\<exists>u' ls'. unit_split u K p d idx k (lo48 k) v = Inr u' \<and> unit_rep u' ls'
    \<and> flat ls' = flat LA @ ins_kv (k, v) c @ flat LB"
proof -
  let ?L = "snd ` set (u_bt u)"
  obtain bl q m t where run: "unit_split u K p d idx k (lo48 k) v = Inr (let u = u\<lparr>u_bufs := bl, u_temp_vec := t\<rparr> in
       if idx = 0 then u\<lparr>u_change_count := m, u_bt := bt_insert K q (u_bt u)\<rparr>
       else u\<lparr>u_change_count := m, u_bt := bt_insert k q (u_bt u)\<rparr>)"
    and q: "q \<notin> ?L" and ok: "lb_ok bl (insert q ?L)"
    and h: "list_all2 (holds bl) (u_bt u) (LA @ (K, take idx c) # LB)"
    and hqs: "\<forall>K'. holds bl (K', q) (K', (k, v) # drop idx c)"
    by (rule unit_split_bytes [OF rep bt len get lr room v idx(2) sz])
  have hq: "holds bl (K', q) (K', (k, v) # drop idx c)" for K' using hqs by blast
  have wf: "leaves_wf (LA @ (K, c) # LB)" and dist: "distinct (map snd (u_bt u))"
    using rep by (simp_all add: unit_rep_def)
  have lw: "leaf_wf (K, c)" using wf by (simp add: leaves_wf_simps)
  have sc: "sorted (map fst c)" using lw by (simp add: leaf_wf_def)
  note cut = takeWhile_cut [OF sc, where k = k, folded idx(1)]
  have srt: "sorted (map fst (drop idx c))" "sorted (map fst (take idx c))"
    using sorted_wrt_drop [OF sc, of idx] sorted_wrt_take [OF sc, of idx] by (simp_all add: drop_map take_map)
  have sub: "set (drop idx c) \<subseteq> set c" "set (take idx c) \<subseteq> set c" by (simp_all add: set_drop_subset set_take_subset)
  have new: "leaf_wf (K', (k, v) # drop idx c)" if "K' \<le> k" "hi16 K' = hi16 k" for K'
    by (rule leaf_wf_Cons [OF lw sub(1) srt(1) cut(2) that hi v])
  have beyond: "leaf_before (K', (k, v) # drop idx c) l" if "K' \<le> k" "l \<in> set LB" for K' l
  proof -
    have "leaf_before (K, c) l" using wf that by (simp add: leaves_wf_simps)
    then have "leaf_before (K, drop idx c) l" by (rule leaf_before_subset [OF _ sub(1)])
    moreover have "k < fst l" using ab that(2) by blast
    ultimately show ?thesis using that(1) by (cases l) (auto simp: leaf_before_def)
  qed
  have keysA: "fst x < K" if "x \<in> set A" for x
    using unit_rep_sorted [OF rep] that by (auto simp: bt sorted_wrt_append)
  have hAB: "list_all2 (holds bl) A LA" "holds bl (K, p) (K, take idx c)" "list_all2 (holds bl) B LB"
    using h len by (simp_all add: bt list_all2_append)
  have keysB: "k < fst x" if "x \<in> set B" for x
    using keys_bound [where P = "\<lambda>y. k < y", OF holds_keys [OF hAB(3), symmetric] _ that] ab by blast
  show ?thesis
  proof (cases "idx = 0")
    case True
    have ins: "bt_insert K q (u_bt u) = A @ (K, q) # B" unfolding bt by (rule bt_insert_same) (rule keysA)
    define u' where "u' = u\<lparr>u_bufs := bl, u_temp_vec := t, u_change_count := m, u_bt := A @ (K, q) # B\<rparr>"
    have "leaves_wf (LA @ (K, (k, v) # drop idx c) # LB)"
      using wf new [OF le hi] beyond [OF le] leaf_before_cong [of _ K "(k, v) # drop idx c" c]
      by (simp add: leaves_wf_simps)
    moreover have "lb_ok bl (snd ` set (A @ (K, q) # B))" by (rule lbs.drop_law [OF ok]) (auto simp: bt)
    ultimately have "unit_rep u' (LA @ (K, (k, v) # drop idx c) # LB)"
      using hAB(1,3) hq [of K] dist q len by (auto simp: unit_rep_def u'_def bt list_all2_append)
    moreover have "unit_split u K p d idx k (lo48 k) v = Inr u'"
      using run True by (simp add: u'_def ins)
    moreover have "flat (LA @ (K, (k, v) # drop idx c) # LB) = flat LA @ ins_kv (k, v) c @ flat LB"
      using cut(3) [of v] True by simp
    ultimately show ?thesis by blast
  next
    case False
    then have ne: "take idx c \<noteq> []" "c \<noteq> []" using idx(2) by auto
    have "fst (hd (take idx c)) < k" using cut(1) ne(1) hd_in_set by blast
    moreover have "K \<le> fst (hd (take idx c))" using lw sub(2) ne(1) hd_in_set by (fastforce simp: leaf_wf_def)
    ultimately have Kk: "K < k" by simp
    have "bt_insert k q ((A @ [(K, p)]) @ B) = (A @ [(K, p)]) @ (k, q) # B"
      by (rule bt_insert_mid) (use keysA Kk keysB in \<open>auto intro: less_trans\<close>)
    then have ins: "bt_insert k q (u_bt u) = A @ (K, p) # (k, q) # B" by (simp add: bt)
    define u' where "u' = u\<lparr>u_bufs := bl, u_temp_vec := t, u_change_count := m, u_bt := A @ (K, p) # (k, q) # B\<rparr>"
    define ls' where "ls' = LA @ (K, take idx c) # (k, (k, v) # drop idx c) # LB"
    have b1: "leaf_before a (k, (k, v) # drop idx c)" if "a \<in> set LA" for a
    proof -
      have "leaf_before a (K, c)" using wf that by (simp add: leaves_wf_simps)
      then show ?thesis using Kk by (cases a) (auto simp: leaf_before_def intro: less_trans)
    qed
    have b2: "leaf_before (K, take idx c) (k, (k, v) # drop idx c)" using Kk cut(1) by (simp add: leaf_before_def)
    have b3: "leaf_before (K, take idx c) l" if "l \<in> set LB" for l
      using wf that leaf_before_subset [OF _ sub(2)] by (auto simp: leaves_wf_simps)
    have "leaves_wf ls'"
      unfolding ls'_def using wf leaf_wf_subset [OF lw sub(2) srt(2) ne(1)] new [of k] beyond [of k] b1 b2 b3
        leaf_before_cong [of _ K "take idx c" c]
      by (simp add: leaves_wf_simps)
    moreover have "insert q ?L = snd ` set (u_bt u')" by (auto simp: u'_def bt)
    ultimately have "unit_rep u' ls'"
      using hAB hq [of k] dist q len ok by (auto simp: unit_rep_def ls'_def bt u'_def list_all2_append)
    moreover have "unit_split u K p d idx k (lo48 k) v = Inr u'" using run False by (simp add: u'_def ins)
    moreover have "flat ls' = flat LA @ ins_kv (k, v) c @ flat LB"
      unfolding cut(3) [of v, symmetric] by (simp add: ls'_def)
    ultimately show ?thesis by blast
  qed
qed

text \<open>No leaf is so large that a split would exceed the capacity of a leaf.\<close>

definition leaves_fit :: "leaves \<Rightarrow> bool" where
  "leaves_fit ls \<longleftrightarrow> list_all (\<lambda>l. length (snd l) \<le> 2 ^ 16 - 4) ls"

lemma leaf_wf_ins:
  assumes lw: "leaf_wf (K, c)" and "K \<le> k" "hi16 K = hi16 k" "unat v < 2 ^ 48"
  shows "leaf_wf (K, ins_kv (k, v) c)"
  using assms by (auto simp: leaf_wf_def)

lemma unit_insert_rep:
  assumes rep: "unit_rep u (LA @ (K, c) # LB)" and bt: "u_bt u = A @ (K, p) # B" and len: "length A = length LA"
    and get: "lb_get_leaf (u_bufs u) p = Inr d" and lr: "leaf_rep d (map lo_pair c)"
    and v: "unat v < 2 ^ 48" and le: "K \<le> k" and hi: "hi16 K = hi16 k" and ab: "\<forall>l\<in>set LB. k < fst l"
    and nf: "length d \<noteq> 2 + 12 * length c" and n: "n = length (takeWhile (\<lambda>p. fst p < k) c)"
  obtains d' bl where "leaf_insert d n (lo48 k) v = Inr d'" "lb_put_leaf (u_bufs u) p d' = Inr bl"
    and "unit_rep (u\<lparr>u_bufs := bl\<rparr>) (LA @ (K, ins_kv (k, v) c) # LB)"
proof -
  have wf: "leaves_wf (LA @ (K, c) # LB)" using rep by (simp add: unit_rep_def)
  have lw: "leaf_wf (K, c)" using wf by (simp add: leaves_wf_simps)
  have sm: "small_kv (lo48 k, v)" using v lo48_small by (simp only: small_kv_def prod.case simp_thms)
  have nl: "n \<le> length (map lo_pair c)" using length_takeWhile_le by (simp add: n)
  have nf': "length d \<noteq> 2 + 12 * length (map lo_pair c)" using nf by simp
  obtain d' where d': "leaf_insert d n (lo48 k) v = Inr d'" "length d' = length d" "leaf_rep d' (map lo_pair (ins_kv (k, v) c))"
    using leaf_insert_rep [OF lr nl nf' sm] unfolding n ins_kv_lo_pair by blast
  have above: "fst x < fst l" if "x \<in> set (ins_kv (k, v) c)" "l \<in> set LB" for x l
  proof (cases "x = (k, v)")
    case True
    then show ?thesis using ab that(2) by simp
  next
    case False
    then have "x \<in> set c" using that(1) by simp
    moreover have "leaf_before (K, c) l" using wf that(2) by (simp add: leaves_wf_simps)
    ultimately show ?thesis using leaf_before_less by blast
  qed
  obtain bl where "lb_put_leaf (u_bufs u) p d' = Inr bl"
    "unit_rep (u\<lparr>u_bufs := bl\<rparr>) (LA @ (K, ins_kv (k, v) c) # LB)"
    by (rule unit_put_rep [OF rep bt len get d'(2,3) leaf_wf_ins [OF lw le hi v] above])
  then show ?thesis using that d'(1) by blast
qed

lemma unit_add_rep:
  assumes rep: "unit_rep u ls" and fit: "leaves_fit ls" and room: "lb_room (u_bufs u)" and v: "unat v < 2 ^ 48"
  shows "\<exists>u' ls'. unit_add_kv u k v = Inr u' \<and> unit_rep u' ls' \<and> flat ls' = ins_kv (k, v) (flat ls)"
proof (cases "bt_last (\<lambda>x. hi16 k \<le> x \<and> x \<le> k) (u_bt u)")
  case None
  then obtain LA LB where ls: "ls = LA @ LB" "\<forall>l\<in>set LA. fst l < hi16 k" "\<forall>l\<in>set LB. k < fst l"
    using unit_lookup(1) [OF rep] by blast
  have wf: "leaves_wf (LA @ LB)" using rep by (simp add: unit_rep_def ls)
  have bel: "fst x < hi16 k" if "x \<in> set (flat LA)" for x
    using flat_below_hi [of LA k x] wf ls(2) that by (auto simp: leaves_wf_append)
  have "\<exists>u'. unit_new_leaf u (hi16 k) (lo48 k) v = Inr u' \<and> unit_rep u' (LA @ (hi16 k, [(k, v)]) # LB)"
    by (rule unit_new_leaf_rep [OF rep [unfolded ls(1)] room v]) (use ls bel in auto)
  moreover have "ins_kv (k, v) (flat ls) = flat (LA @ (hi16 k, [(k, v)]) # LB)"
    using ins_kv_mid [of "flat LA" "(k, v)" "flat LB" "[]"] lookup_None_flat(1,2) [OF wf ls(2,3)] by (simp add: ls)
  moreover have "unit_add_kv u k v = unit_new_leaf u (hi16 k) (lo48 k) v"
    using None by (simp add: unit_add_kv_def split_hi_lo_eq)
  ultimately show ?thesis by (metis (no_types))
next
  case (Some Kp)
  obtain K p where Kp: "Kp = (K, p)" by fastforce
  obtain A B LA c LB d where bt: "u_bt u = A @ (K, p) # B" and ls: "ls = LA @ (K, c) # LB" and len: "length A = length LA"
    and hi: "hi16 K = hi16 k" and le: "K \<le> k" and ab: "\<forall>l\<in>set LB. k < fst l"
    and get: "lb_get_leaf (u_bufs u) p = Inr d" and lr: "leaf_rep d (map lo_pair c)" and lw: "leaf_wf (K, c)"
    using unit_lookup(2) [OF rep Some [unfolded Kp]] by blast
  note rep' = rep [unfolded ls]
  have wf: "leaves_wf (LA @ (K, c) # LB)" using rep' by (simp add: unit_rep_def)
  have h: "hi16 (fst x) = hi16 k" if "x \<in> set c" for x using leaf_wf_hi [OF lw that] hi by simp
  define n where "n = length (takeWhile (\<lambda>p. fst p < k) c)"
  have tw: "length (takeWhile (\<lambda>p. fst p < lo48 k) (map lo_pair c)) = n"
    unfolding n_def by (rule takeWhile_lo_pair) (rule h)
  have seek: "leaf_seek d (lo48 k) = Inr (if n = length c then None else Some n)"
    unfolding leaf_seek_rep [OF lr] tw Let_def length_map ..
  have full: "leaf_is_full d = Inr (length d = 2 + 12 * length c)" using leaf_is_full_rep [OF lr] by simp
  have fl: "ins_kv (k, v) (flat ls) = flat LA @ ins_kv (k, v) c @ flat LB"
    using ins_kv_mid [of "flat LA" "(k, v)" "flat LB" c] lookup_Some_flat(1,2) [OF wf le ab] by (simp add: ls)
  have run: "unit_add_kv u k v =
      (if n < length c then
         if length d = 2 + 12 * length c then unit_split u K p d n k (lo48 k) v
         else bindE (leaf_insert d n (lo48 k) v) (\<lambda>leaf. bindE (lb_put_leaf (u_bufs u) p leaf) (\<lambda>bl. Inr (u\<lparr>u_bufs := bl\<rparr>)))
       else if length d = 2 + 12 * length c then unit_new_leaf u k (lo48 k) v
         else bindE (leaf_append d (lo48 k) v) (\<lambda>leaf. bindE (lb_put_leaf (u_bufs u) p leaf) (\<lambda>bl.
           Inr (u\<lparr>u_bufs := bl, u_change_count := u_change_count u + 1\<rparr>))))"
    using Some get length_takeWhile_le [of "\<lambda>p. fst p < k" c]
    by (auto simp: unit_add_kv_def split_hi_lo_eq Kp full seek n_def [symmetric])
  have nle: "n \<le> length c" unfolding n_def by (rule length_takeWhile_le)
  show ?thesis
  proof (cases "length d = 2 + 12 * length c")
    case True
    show ?thesis
    proof (cases "n < length c")
      case n: True
      have "length c \<le> 2 ^ 16 - 4" using fit by (simp add: leaves_fit_def ls)
      then have "\<exists>u' ls'. unit_split u K p d n k (lo48 k) v = Inr u' \<and> unit_rep u' ls'
          \<and> flat ls' = flat LA @ ins_kv (k, v) c @ flat LB"
        by (intro unit_split_rep [OF rep' bt len get lr room v _ le hi ab n_def n])
      then show ?thesis unfolding run fl using True n by simp
    next
      case False
      then have nc: "n = length c" using nle by simp
      have all: "fst x < k" if "x \<in> set c" for x
        using takeWhile_cut(1) [where c = c and k = k and x = x] lw nc that by (simp add: leaf_wf_def n_def)
      have "K < k" using all [of "hd c"] lw by (cases c) (auto simp: leaf_wf_def)
      have bel: "fst x < k" if "x \<in> set (flat (LA @ [(K, c)]))" for x
        using that all [of x] lookup_Some_flat(1) [OF wf le ab, of x] by auto
      have keys: "fst l < k" if "l \<in> set (LA @ [(K, c)])" for l
      proof -
        have "l \<in> set LA \<Longrightarrow> fst l < K" using wf by (cases l) (auto simp: leaves_wf_simps leaf_before_def)
        then show ?thesis using that \<open>K < k\<close> by auto
      qed
      let ?ls = "(LA @ [(K, c)]) @ (k, [(k, v)]) # LB"
      have "\<exists>u'. unit_new_leaf u k (lo48 k) v = Inr u' \<and> unit_rep u' ?ls"
        by (rule unit_new_leaf_rep [OF _ room v]) (use rep' bel keys ab in auto)
      then obtain u' where "unit_new_leaf u k (lo48 k) v = Inr u'" "unit_rep u' ?ls" by blast
      moreover have "ins_kv (k, v) c = c @ [(k, v)]"
        using takeWhile_cut(3) [where c = c and k = k and v = v] lw nc by (simp add: leaf_wf_def n_def)
      ultimately show ?thesis unfolding run fl using True False
        by (intro exI [of _ u'] exI [of _ ?ls]) simp
    qed
  next
    case False
    obtain d' bl where ins: "leaf_insert d n (lo48 k) v = Inr d'" "lb_put_leaf (u_bufs u) p d' = Inr bl"
      and r: "unit_rep (u\<lparr>u_bufs := bl\<rparr>) (LA @ (K, ins_kv (k, v) c) # LB)"
      by (rule unit_insert_rep [OF rep' bt len get lr v le hi ab False n_def])
    have "unit_add_kv u k v = Inr (u\<lparr>u_bufs := bl\<rparr>) \<or> unit_add_kv u k v = Inr (u\<lparr>u_bufs := bl, u_change_count := u_change_count u + 1\<rparr>)"
      using ins False nle by (cases "n < length c") (simp_all add: run leaf_append_def leaf_len_rep [OF lr])
    moreover have "unit_rep (u\<lparr>u_bufs := bl, u_change_count := u_change_count u + 1\<rparr>) (LA @ (K, ins_kv (k, v) c) # LB)"
      using r by (simp add: unit_rep_def)
    ultimately show ?thesis using r unfolding fl by (elim disjE) (intro exI conjI, assumption+, simp)+
  qed
qed

section \<open>Theorems\<close>

lemma lb_new_ok: "lb_ok lb_new {}" "lb_room lb_new"
  by (simp_all add: lb_ok_def lb_new_def lb_room_def layout_defs)

lemma unit_new_rep: "unit_rep unit_new []"
  using lb_new_ok(1) by (simp add: unit_rep_def unit_new_def)

text \<open>A unit with one leaf of capacity two that holds the pair (5, 7).\<close>

definition demo_unit :: index_unit where
  "demo_unit = \<lparr>u_bt = [(0, 0)],
     u_bufs = \<lparr>lb_list = [u16_le 2 @ u16_le 1 @ enc_kv (5, 7) @ replicate 12 0], lb_offset = 28\<rparr>,
     u_last_size = 0, u_change_count = 0, u_temp_vec = []\<rparr>"

lemma demo_unit_rep: "unit_rep demo_unit [(0, [(5, 7)])]"
proof -
  let ?b = "u16_le 2 @ u16_le 1 @ enc_kv (5, 7) @ replicate 12 (0 :: byte)"
  have cap: "lb_cap (u_bufs demo_unit) 0 = 2"
    by (simp add: lb_cap_def lb_buf_def demo_unit_def pos_off_def pos_buf_def u16_le_def le_dec_enc)
  have live: "lb_live (u_bufs demo_unit) 0"
    unfolding lb_live_def cap by (simp add: demo_unit_def pos_buf_def pos_off_def lb_buf_def)
  have get: "lb_get_leaf (u_bufs demo_unit) 0 = Inr (u16_le 1 @ enc_kv (5, 7) @ replicate 12 0)"
    unfolding lb_get_live [OF live] cap by (simp add: lb_buf_def demo_unit_def pos_off_def pos_buf_def)
  have lo: "map lo_pair [(5, 7)] = [(5, 7)]" by (simp add: lo_pair_def lo48_def)
  have "leaf_rep (u16_le 1 @ enc_kv (5, 7) @ replicate 12 0) (map lo_pair [(5, 7)])"
    unfolding lo by (rule leaf_repI [where rest = "replicate 12 0"]) (simp_all add: small_kv_def)
  then have "holds (u_bufs demo_unit) (0, 0) (0, [(5, 7)])" by (rule holdsI [OF get])
  moreover have "lb_ok (u_bufs demo_unit) {0}" using live by (simp add: lb_ok_def demo_unit_def)
  moreover have "leaves_wf [(0, [(5, 7)])]" by (simp add: leaves_wf_def leaf_wf_def hi16_def)
  ultimately show ?thesis by (simp add: unit_rep_def) (simp add: demo_unit_def)
qed

text \<open>C18. Adding a pair to a unit never fails while the buffers' count fits its 32-bit index and no
  leaf has more than 65532 pairs, and inserts the pair into the sorted list of the unit's pairs
  right in front of the pairs whose key is not smaller; every leaf layout the code goes through
  (insertion in place, append, split, replacement of a full leaf, new leaf) is covered.\<close>

theorem unit_add_kv_refines:
  assumes "unit_rep u ls" and "leaves_fit ls" and "lb_room (u_bufs u)" and "unat v < 2 ^ 48"
  shows "\<exists>u' ls'. unit_add_kv u k v = Inr u' \<and> unit_rep u' ls' \<and> flat ls' = ins_kv (k, v) (flat ls)"
  using assms by (rule unit_add_rep)

theorem unit_add_kv_refines_witness:
  "\<exists>u' ls'. unit_add_kv demo_unit 4 9 = Inr u' \<and> unit_rep u' ls' \<and> flat ls' = [(4, 9), (5, 7)]"
proof -
  have "leaves_fit [(0, [(5, 7)])]" "lb_room (u_bufs demo_unit)"
    by (simp_all add: leaves_fit_def lb_room_def demo_unit_def)
  then show ?thesis using unit_add_kv_refines [OF demo_unit_rep, of 9 4] by simp
qed

text \<open>Erasing a pair removes its first occurrence from the sorted list of a unit's pairs, dropping
  a leaf that becomes empty, and panics exactly when the unit does not hold the pair.\<close>

theorem unit_erase_kv_refines:
  assumes "unit_rep u ls"
  shows "if (k, v) \<in> set (flat ls)
    then \<exists>u' ls'. unit_erase_kv u k v = Inr u' \<and> unit_rep u' ls' \<and> flat ls' = remove1 (k, v) (flat ls)
    else unit_erase_kv u k v = Inl (Panic ''Cannot Erase Non-existent KV'')"
  using unit_erase_rep [OF assms, of k v] by auto

theorem unit_erase_kv_refines_witness:
  "(\<exists>u' ls'. unit_erase_kv demo_unit 5 7 = Inr u' \<and> unit_rep u' ls' \<and> flat ls' = [])
   \<and> unit_erase_kv demo_unit 5 8 = Inl (Panic ''Cannot Erase Non-existent KV'')"
  using unit_erase_kv_refines [OF demo_unit_rep, of 5 7] unit_erase_kv_refines [OF demo_unit_rep, of 5 8] by simp

text \<open>Changing the value of a pair replaces the first occurrence of the pair in the sorted list of
  a unit's pairs and keeps all others, and panics exactly when the unit does not hold the pair.\<close>

theorem unit_change_kv_refines:
  assumes "unit_rep u ls" and "unat w < 2 ^ 48"
  shows "if (k, v) \<in> set (flat ls)
    then \<exists>u' ls'. unit_change_kv u k v w = Inr u' \<and> unit_rep u' ls' \<and> flat ls' = change1 (k, v) w (flat ls)
    else unit_change_kv u k v w = Inl (Panic ''Cannot Change Non-existent KV'')"
  using unit_change_rep [OF assms(1), of k v w] assms(2) by auto

theorem unit_change_kv_refines_witness:
  "\<exists>u' ls'. unit_change_kv demo_unit 5 7 9 = Inr u' \<and> unit_rep u' ls' \<and> flat ls' = [(5, 9)]"
  using unit_change_kv_refines [OF demo_unit_rep, of 9 5 7] by simp

end
