(* ===== verification/IndexScan.thy ===== *)
theory IndexScan
  imports IndexOps
begin

text \<open>
  The scans of a unit of the in-memory indexer: which values \<^verbatim>\<open>for_each_value\<close> and
  \<^verbatim>\<open>for_each_adjacent_value\<close> visit, in which order and with which key, in terms of the sorted list
  of the unit's pairs.
\<close>

section \<open>Visiting the values of a key\<close>

primrec visit :: "('a \<Rightarrow> 's \<Rightarrow> 's \<times> bool) \<Rightarrow> 'a list \<Rightarrow> 's \<Rightarrow> 's" where
  "visit f [] s = s"
| "visit f (x # xs) s = (let (s, stop) = f x s in if stop then s else visit f xs s)"

definition values_of :: "u64 \<Rightarrow> (u64 \<times> i64) list \<Rightarrow> i64 list" where
  "values_of k ps = map snd (filter (\<lambda>p. fst p = k) ps)"

lemma values_of_append [simp]: "values_of k (A @ B) = values_of k A @ values_of k B"
  by (simp add: values_of_def)

lemma values_of_none: "(\<And>x. x \<in> set A \<Longrightarrow> fst x \<noteq> k) \<Longrightarrow> values_of k A = []"
  by (auto simp: values_of_def filter_empty_conv)

lemma each_value_from_rep:
  "leaf_rep d ps \<Longrightarrow> sorted (map fst ps) \<Longrightarrow> i + left = length ps \<Longrightarrow>
   each_value_from access d k i left s = Inr (visit access (values_of k (drop i ps)) s)"
proof (induction left arbitrary: i s)
  case 0
  then show ?case by (simp add: values_of_def)
next
  case (Suc left)
  then have i: "i < length ps" by simp
  obtain k' v' where p: "ps ! i = (k', v')" by fastforce
  have d: "drop i ps = (k', v') # drop (Suc i) ps" using i p by (simp add: Cons_nth_drop_Suc [symmetric])
  have "sorted (map fst (drop i ps))" using sorted_wrt_drop [OF Suc.prems(2), of i] by (simp add: drop_map)
  then have "k' \<le> fst q" if "q \<in> set (drop (Suc i) ps)" for q using that by (auto simp: d)
  then have "k < k' \<Longrightarrow> values_of k (drop (Suc i) ps) = []" by (intro values_of_none) fastforce
  then show ?case
    using Suc.IH [of "Suc i"] Suc.prems
    by (auto simp: leaf_get_rep i p d values_of_def not_less split: prod.split)
qed

lemma values_of_lo_pair:
  assumes "\<And>x. x \<in> set c \<Longrightarrow> hi16 (fst x) = hi16 k"
  shows "values_of (lo48 k) (map lo_pair c) = values_of k c"
  using assms by (induction c) (auto simp: values_of_def lo48_order)

lemma find_leaf_visit:
  assumes rep: "unit_rep u ls"
  shows "unit_for_each_value u k access s = Inr (visit access (values_of k (flat ls)) s)"
proof (cases "bt_last (\<lambda>x. hi16 k \<le> x \<and> x \<le> k) (u_bt u)")
  case None
  then obtain LA LB where ls: "ls = LA @ LB" "\<forall>l\<in>set LA. fst l < hi16 k" "\<forall>l\<in>set LB. k < fst l"
    using unit_lookup(1) [OF rep] by blast
  have wf: "leaves_wf (LA @ LB)" using rep by (simp add: unit_rep_def ls)
  have "values_of k (flat ls) = []"
    using lookup_None_flat(3) [OF wf ls(2,3)] by (intro values_of_none) (auto simp: ls(1))
  then show ?thesis
    using None by (simp add: unit_for_each_value_def find_leaf_def find_key_and_leaf_def split_hi_lo_eq)
next
  case (Some Kp)
  obtain K p where Kp: "Kp = (K, p)" by fastforce
  obtain A B LA c LB d where ls: "ls = LA @ (K, c) # LB" and hi: "hi16 K = hi16 k" and le: "K \<le> k"
    and ab: "\<forall>l\<in>set LB. k < fst l"
    and get: "lb_get_leaf (u_bufs u) p = Inr d" and lr: "leaf_rep d (map lo_pair c)" and lw: "leaf_wf (K, c)"
    using unit_lookup(2) [OF rep Some [unfolded Kp]] by blast
  have wf: "leaves_wf (LA @ (K, c) # LB)" using rep by (simp add: unit_rep_def ls)
  have "values_of k (flat LA) = []" "values_of k (flat LB) = []"
    using lookup_Some_flat(3,4) [OF wf le ab] by (auto intro!: values_of_none)
  moreover have "values_of (lo48 k) (map lo_pair c) = values_of k c"
    by (rule values_of_lo_pair) (use leaf_wf_hi [OF lw] hi in simp)
  ultimately show ?thesis
    using Some get each_value_from_rep [OF lr sorted_lo_pair [OF lw], of 0 "length c" access "lo48 k" s]
    by (simp add: unit_for_each_value_def find_leaf_def find_key_and_leaf_def split_hi_lo_eq Kp
        leaf_len_rep [OF lr] ls)
qed

section \<open>Visiting the neighbours of a key\<close>

text \<open>The key next below \<open>k\<close>, and the ten-byte key with the seven bytes of \<open>k\<close> in it.\<close>

definition key_below :: "u64 \<Rightarrow> (u64 \<times> i64) list \<Rightarrow> u64 option" where
  "key_below k ps = (let q = filter (\<lambda>p. fst p < k) ps in if q = [] then None else Some (fst (last q)))"

definition k80_with :: "bytes \<Rightarrow> u64 \<Rightarrow> bytes" where
  "k80_with k80 k = take 2 k80 @ drop 1 (u64_be k) @ drop 9 k80"

definition visit_adjacent ::
  "(bytes \<Rightarrow> i64 \<Rightarrow> 's \<Rightarrow> 's \<times> bool) \<Rightarrow> bytes \<Rightarrow> u64 \<Rightarrow> (u64 \<times> i64) list \<Rightarrow> 's \<Rightarrow> 's" where
  "visit_adjacent access k80 k ps s =
     (let s = visit (access k80) (values_of k ps) s in
      case key_below k ps of
        None \<Rightarrow> s
      | Some kp \<Rightarrow> visit (access (k80_with k80 kp)) (rev (values_of kp ps)) s)"

lemma values_of_Cons: "values_of k (p # ps) = (if fst p = k then snd p # values_of k ps else values_of k ps)"
  by (simp add: values_of_def)

lemma adj_forward_found:
  "leaf_rep d ps \<Longrightarrow> sorted (map fst ps) \<Longrightarrow> i + left = length ps \<Longrightarrow> idx \<noteq> length ps \<Longrightarrow>
   (\<And>x. x \<in> set (drop i ps) \<Longrightarrow> k \<le> fst x) \<Longrightarrow>
   adj_forward access k80 d k (length ps) i left idx s = Inr (idx, visit (access k80) (values_of k (drop i ps)) s)"
proof (induction left arbitrary: i s)
  case 0
  then show ?case by (simp add: values_of_def)
next
  case (Suc left)
  then have i: "i < length ps" by simp
  obtain k' v' where p: "ps ! i = (k', v')" by fastforce
  have d: "drop i ps = (k', v') # drop (Suc i) ps" using i p by (simp add: Cons_nth_drop_Suc [symmetric])
  have "sorted (map fst (drop i ps))" using sorted_wrt_drop [OF Suc.prems(2), of i] by (simp add: drop_map)
  then have mono: "k' \<le> fst q" if "q \<in> set (drop (Suc i) ps)" for q using that by (auto simp: d)
  have k': "k \<le> k'" using Suc.prems(5) [of "(k', v')"] by (simp add: d)
  have IH: "adj_forward access k80 d k (length ps) (Suc i) left idx s = Inr (idx, visit (access k80) (values_of k (drop (Suc i) ps)) s)" for s
    using Suc.prems mono k' by (intro Suc.IH) (auto intro: order_trans)
  show ?case
  proof (cases "k' = k")
    case True
    then show ?thesis using i p d IH Suc.prems(1,4) by (simp add: leaf_get_rep values_of_Cons split: prod.split)
  next
    case False
    have "values_of k (drop (Suc i) ps) = []"
      by (rule values_of_none) (use mono k' False in \<open>metis order.antisym\<close>)
    moreover have "\<not> k' < k" using k' by simp
    ultimately show ?thesis using i p d False Suc.prems(1,4) by (simp add: leaf_get_rep values_of_Cons)
  qed
qed

lemma adj_forward_rep:
  "leaf_rep d ps \<Longrightarrow> sorted (map fst ps) \<Longrightarrow> i + left = length ps \<Longrightarrow>
   adj_forward access k80 d k (length ps) i left (length ps) s =
     Inr (i + length (takeWhile (\<lambda>p. fst p < k) (drop i ps)), visit (access k80) (values_of k (drop i ps)) s)"
proof (induction left arbitrary: i s)
  case 0
  then show ?case by (simp add: values_of_def)
next
  case (Suc left)
  then have i: "i < length ps" by simp
  obtain k' v' where p: "ps ! i = (k', v')" by fastforce
  have d: "drop i ps = (k', v') # drop (Suc i) ps" using i p by (simp add: Cons_nth_drop_Suc [symmetric])
  have "sorted (map fst (drop i ps))" using sorted_wrt_drop [OF Suc.prems(2), of i] by (simp add: drop_map)
  then have mono: "k' \<le> fst q" if "q \<in> set (drop (Suc i) ps)" for q using that by (auto simp: d)
  consider "k' < k" | "k' = k" | "k < k'" by (metis less_linear)
  then show ?case
  proof cases
    case 1
    moreover have "k' \<noteq> k" using 1 by simp
    ultimately show ?thesis using Suc.IH [of "Suc i" s] Suc.prems i p d by (simp add: leaf_get_rep values_of_Cons)
  next
    case 2
    have "adj_forward access k80 d k (length ps) (Suc i) left i s = Inr (i, visit (access k80) (values_of k (drop (Suc i) ps)) s)" for s
      using Suc.prems i mono 2 by (intro adj_forward_found) simp_all
    then show ?thesis using Suc.prems(1) i p d 2 by (simp add: leaf_get_rep values_of_Cons split: prod.split)
  next
    case 3
    have "values_of k (drop (Suc i) ps) = []"
      by (rule values_of_none) (use mono 3 in \<open>metis leD\<close>)
    moreover have "k' \<noteq> k" "\<not> k' < k" using 3 by auto
    ultimately show ?thesis using Suc.prems(1) i p d by (simp add: leaf_get_rep values_of_Cons)
  qed
qed

lemma adj_backward_rep:
  "leaf_rep d ps \<Longrightarrow> idx < length ps \<Longrightarrow>
   adj_backward access k80 d kp idx s =
     Inr (visit (access k80) (map snd (takeWhile (\<lambda>p. fst p = kp) (rev (take (Suc idx) ps)))) s)"
proof (induction idx arbitrary: s)
  case 0
  obtain k' v' where p: "ps ! 0 = (k', v')" by fastforce
  have "take (Suc 0) ps = [(k', v')]" using 0 p by (cases ps) auto
  then show ?case using 0 p by (subst adj_backward.simps) (simp add: leaf_get_rep split: prod.split)
next
  case (Suc idx)
  obtain k' v' where p: "ps ! Suc idx = (k', v')" by fastforce
  have t: "rev (take (Suc (Suc idx)) ps) = (k', v') # rev (take (Suc idx) ps)"
    using Suc.prems p by (simp add: take_Suc_conv_app_nth)
  show ?case unfolding t using Suc p
    by (subst adj_backward.simps) (simp add: leaf_get_rep split: prod.split)
qed

text \<open>The key's bytes, assembled from the map's key and the leaf's low bits.\<close>

lemma le_enc_mod: "le_enc n (x mod 256 ^ n) = le_enc n x"
proof (induction n arbitrary: x)
  case (Suc n)
  have "x mod 256 ^ Suc n div 256 = x div 256 mod 256 ^ n" by (simp add: mod_mult2_eq)
  moreover have "(word_of_nat (x mod 256 ^ Suc n) :: byte) = word_of_nat x"
    by (simp add: word_unat_eq_iff mod_mult2_eq del: of_nat_add of_nat_mult)
  ultimately show ?case using Suc [of "x div 256"] by simp
qed simp

lemma u64_be_split: "drop 1 (u64_be k) = ucast (drop_bit 48 k) # drop 2 (u64_be (lo48 k))"
proof -
  have e: "le_enc 8 x = le_enc 6 x @ [word_of_nat (x div 256 ^ 6), word_of_nat (x div 256 ^ 7)]" for x
    using le_enc_snoc [of 6 x] le_enc_snoc [of 7 x] by simp
  have "unat (drop_bit 48 k) = unat k div 256 ^ 6"
    by (simp add: unat_drop_bit_eq drop_bit_eq_div unat_div)
  then have b: "(word_of_nat (unat k div 256 ^ 6) :: byte) = ucast (drop_bit 48 k)"
    by (metis of_nat_unat)
  have "le_enc 6 (unat (lo48 k)) = le_enc 6 (unat k)"
    using le_enc_mod [of 6 "unat k"] by (simp add: unat_lo48)
  then show ?thesis unfolding u64_be_def e b by simp
qed

lemma drop_bit_hi: "hi16 k = hi16 k' \<Longrightarrow> drop_bit 48 k = drop_bit 48 k'"
proof -
  have "drop_bit 48 k = drop_bit 48 (hi16 k)" for k
    unfolding hi16_def by (rule bit_word_eqI) (auto simp: bit_simps dest: bit_imp_le_length)
  then show "hi16 k = hi16 k' \<Longrightarrow> drop_bit 48 k = drop_bit 48 k'" by metis
qed

lemma k80_with_eq:
  assumes "length k80 = 10" and "hi16 K = hi16 k"
  shows "splice (k80[2 := ucast (drop_bit 48 K)]) 3 (drop 2 (u64_be (lo48 k))) = k80_with k80 k"
proof -
  let ?x = "ucast (drop_bit 48 K) :: byte"
  have hb: "drop_bit 48 K = drop_bit 48 k" by (rule drop_bit_hi) (rule assms(2))
  have "k80[2 := ?x] = take 2 k80 @ ?x # drop 3 k80"
    using assms(1) by (simp add: upd_conv_take_nth_drop)
  also have "drop 3 k80 = take 6 (drop 3 k80) @ drop 9 k80"
    using append_take_drop_id [of 6 "drop 3 k80"] by simp
  finally have "k80[2 := ?x] = (take 2 k80 @ [?x]) @ take 6 (drop 3 k80) @ drop 9 k80" by simp
  then have "splice (k80[2 := ?x]) 3 (drop 2 (u64_be (lo48 k))) = (take 2 k80 @ [?x]) @ drop 2 (u64_be (lo48 k)) @ drop 9 k80"
    by (rule splice_at) (use assms(1) in simp_all)
  then show ?thesis unfolding k80_with_def u64_be_split hb by simp
qed

lemma values_of_rev_takeWhile:
  assumes srt: "sorted (map fst (ps @ [(kp, v)]))"
  shows "map snd (takeWhile (\<lambda>p. fst p = kp) (rev (ps @ [(kp, v)]))) = rev (values_of kp (ps @ [(kp, v)]))"
proof -
  let ?qs = "ps @ [(kp, v)]"
  have desc: "sorted_wrt (\<lambda>x y. fst y \<le> fst x) (rev ?qs)" using srt unfolding sorted_map by (simp add: sorted_wrt_rev sorted_wrt_append)
  have le: "fst x \<le> kp" if "x \<in> set ?qs" for x using srt that by (auto simp: sorted_append)
  have "takeWhile (\<lambda>p. fst p = kp) (rev ?qs) = filter (\<lambda>p. fst p = kp) (rev ?qs)"
  proof (rule takeWhile_eq_filter)
    fix x assume x: "x \<in> set (dropWhile (\<lambda>p. fst p = kp) (rev ?qs))"
    let ?D = "dropWhile (\<lambda>p. fst p = kp) (rev ?qs)"
    have "?D \<noteq> []"
    proof
      assume "?D = []"
      then show False using x by (simp only: list.set empty_iff)
    qed
    then obtain y ys where D: "?D = y # ys" by (meson neq_Nil_conv)
    have y: "fst y \<noteq> kp" and qs: "rev ?qs = takeWhile (\<lambda>p. fst p = kp) (rev ?qs) @ y # ys"
      using D unfolding dropWhile_eq_Cons_conv by auto
    have "y \<in> set (rev ?qs)" by (subst qs) simp
    then have "y \<in> set ?qs" by (simp only: set_rev)
    then have "fst y < kp" using le y by (simp add: order_neq_le_trans)
    moreover have "sorted_wrt (\<lambda>x y. fst y \<le> fst x) ?D"
      unfolding D using desc by (subst (asm) qs) (simp add: sorted_wrt_append)
    then have "fst x \<le> fst y" using x unfolding D by auto
    ultimately show "fst x \<noteq> kp" by simp
  qed
  then show ?thesis by (simp add: values_of_def rev_map rev_filter)
qed

lemma adj_prev_rep:
  assumes lr: "leaf_rep d (map lo_pair c)" and lw: "leaf_wf (K, c)" and n: "0 < n" "n \<le> length c"
    and k80: "length k80 = 10" and kp: "kp = fst (c ! (n - 1))"
  shows "adj_prev access k80 d n s =
    Inr (visit (access (splice k80 3 (drop 2 (u64_be (lo48 kp))))) (rev (values_of kp (take n c))) s)"
proof -
  let ?ps = "map lo_pair c"
  obtain v where v: "c ! (n - 1) = (kp, v)" using kp by (metis prod.collapse)
  have i: "n - 1 < length ?ps" using n by simp
  have nth: "?ps ! (n - 1) = (lo48 kp, v)" using i v by (simp add: lo_pair_def)
  have t: "take n c = take (n - 1) c @ [(kp, v)]"
    using n v by (metis Suc_pred' diff_less less_le_trans take_Suc_conv_app_nth zero_less_one)
  have tm: "take (Suc (n - 1)) ?ps = map lo_pair (take (n - 1) c) @ [(lo48 kp, v)]"
    using n t by (simp add: take_map lo_pair_def)
  have s: "sorted (map fst (map lo_pair (take (n - 1) c) @ [(lo48 kp, v)]))"
    using sorted_wrt_take [OF sorted_lo_pair [OF lw], of n] t by (simp add: take_map lo_pair_def)
  have hi: "hi16 (fst x) = hi16 kp" if "x \<in> set (take n c)" for x
  proof -
    have "c ! (n - 1) \<in> set c" using n by simp
    then show ?thesis using leaf_wf_hi [OF lw] that v in_set_takeD by (metis fst_conv)
  qed
  have lo: "map lo_pair (take (n - 1) c) @ [(lo48 kp, v)] = map lo_pair (take n c)" by (simp add: t lo_pair_def)
  have vl: "values_of (lo48 kp) (map lo_pair (take n c)) = values_of kp (take n c)"
    by (rule values_of_lo_pair) (rule hi)
  have "adj_backward access k80' d (lo48 kp) (n - 1) s = Inr (visit (access k80') (rev (values_of kp (take n c))) s)" for k80'
    unfolding adj_backward_rep [OF lr i] tm
    unfolding values_of_rev_takeWhile [OF s]
    unfolding lo vl ..
  then show ?thesis
    using n k80 leaf_get_rep [OF lr i] unfolding nth by (simp add: adj_prev_def Let_def)
qed

text \<open>Where the neighbour of a key is: in the part of its leaf below the key, or at the end of the
  leaf before.\<close>

lemma key_below_split:
  assumes lo: "\<And>x. x \<in> set A \<Longrightarrow> fst x < k" and hi: "\<And>x. x \<in> set B \<Longrightarrow> k \<le> fst x"
  shows "key_below k (A @ B) = (if A = [] then None else Some (fst (last A)))"
proof -
  have "filter (\<lambda>p. fst p < k) A = A" "filter (\<lambda>p. fst p < k) B = []"
    using lo hi by (auto simp: filter_id_conv filter_empty_conv not_less)
  then show ?thesis by (simp add: key_below_def)
qed

lemma bt_last_less:
  assumes "\<And>q. q \<in> set A \<Longrightarrow> fst q < k" and "\<And>q. q \<in> set B \<Longrightarrow> k \<le> fst q"
  shows "bt_last (\<lambda>x. x < k) (A @ B) = (if A = [] then None else Some (last A))"
proof -
  have "filter (\<lambda>p. fst p < k) A = A" "filter (\<lambda>p. fst p < k) B = []"
    using assms by (auto simp: filter_id_conv filter_empty_conv not_less)
  then show ?thesis by (simp add: bt_last_def)
qed

lemma flat_eq_Nil: "leaves_wf LA \<Longrightarrow> flat LA = [] \<longleftrightarrow> LA = []"
  by (cases LA) (auto simp: leaves_wf_simps leaf_wf_def)

text \<open>The step to the previous leaf, from the key \<open>cur\<close> of the map.\<close>

definition adj_step :: "index_unit \<Rightarrow> bytes \<Rightarrow> u64 \<Rightarrow> (bytes \<Rightarrow> i64 \<Rightarrow> 's \<Rightarrow> 's \<times> bool) \<Rightarrow> 's \<Rightarrow> 's result" where
  "adj_step u k80 cur_key access s =
     (if cur_key = 0 then Inr s
      else bindE (find_prev_key_and_leaf u cur_key) (\<lambda>opt. case opt of
             None \<Rightarrow> Inr s
           | Some (prev_key, prev_leaf) \<Rightarrow>
               bindE (write_at k80 2 [ucast (drop_bit 48 prev_key)]) (\<lambda>k80.
               bindE (leaf_len prev_leaf) (\<lambda>idx. adj_prev access k80 prev_leaf idx s))))"

lemma adj_step_rep:
  assumes rep: "unit_rep u (LA @ LB)" and bt: "u_bt u = A @ B" and len: "length A = length LA"
    and lo: "\<And>l. l \<in> set LA \<Longrightarrow> fst l < cur" and hi: "\<And>l. l \<in> set LB \<Longrightarrow> cur \<le> fst l"
    and k: "\<And>x. x \<in> set (flat LA) \<Longrightarrow> fst x < k" "\<And>x. x \<in> set (flat LB) \<Longrightarrow> k \<le> fst x" and k80: "length k80 = 10"
  shows "adj_step u k80 cur access s = Inr (case key_below k (flat (LA @ LB)) of None \<Rightarrow> s
      | Some kp \<Rightarrow> visit (access (k80_with k80 kp)) (rev (values_of kp (flat (LA @ LB)))) s)"
proof -
  have h: "list_all2 (holds (u_bufs u)) (A @ B) (LA @ LB)" and wf: "leaves_wf (LA @ LB)"
    using rep by (simp_all add: unit_rep_def bt)
  have hA: "list_all2 (holds (u_bufs u)) A LA" and hB: "list_all2 (holds (u_bufs u)) B LB"
    using h len by (simp_all add: list_all2_append)
  have bl: "bt_last (\<lambda>x. x < cur) (u_bt u) = (if A = [] then None else Some (last A))"
    unfolding bt
  proof (rule bt_last_less)
    show "fst q < cur" if "q \<in> set A" for q
      using keys_bound [where P = "\<lambda>x. x < cur", OF holds_keys [OF hA, symmetric] lo that] .
    show "cur \<le> fst q" if "q \<in> set B" for q
      using keys_bound [where P = "\<lambda>x. cur \<le> x", OF holds_keys [OF hB, symmetric] hi that] .
  qed
  have pk: "key_below k (flat (LA @ LB)) = (if flat LA = [] then None else Some (fst (last (flat LA))))"
    using key_below_split [of "flat LA" k "flat LB"] k by simp
  have wfA: "leaves_wf LA" using wf by (simp add: leaves_wf_append)
  show ?thesis
  proof (cases LA rule: rev_cases)
    case Nil
    then have "A = []" using len by simp
    then show ?thesis using Nil pk bl by (simp add: adj_step_def find_prev_key_and_leaf_def)
  next
    case (snoc LA' l)
    obtain K' c' where l: "l = (K', c')" by fastforce
    obtain A' p' d' where A: "A = A' @ [(K', p')]" and get: "lb_get_leaf (u_bufs u) p' = Inr d'"
      and lr: "leaf_rep d' (map lo_pair c')"
    proof -
      obtain A' a where A: "A = A' @ [a]" using hA snoc by (cases A rule: rev_cases) auto
      have "holds (u_bufs u) a l" using list_all2_rev [THEN iffD2, OF hA] unfolding A snoc by simp
      then show ?thesis using that A l by (cases a) (auto simp: holds_def)
    qed
    have lw: "leaf_wf (K', c')" using wf by (simp add: snoc l leaves_wf_simps)
    have ne: "c' \<noteq> []" using lw by (simp add: leaf_wf_def)
    have cur: "cur \<noteq> 0" using lo [of l] snoc by auto
    define kp where "kp = fst (last c')"
    have lastc: "last c' \<in> set c'" using ne by simp
    have hk: "hi16 K' = hi16 kp" "K' \<le> kp" using lw lastc by (auto simp: leaf_wf_def kp_def)
    have kk: "kp < k" using k(1) [of "last c'"] lastc by (simp add: snoc l kp_def)
    have v1: "values_of kp (flat LA') = []"
    proof (rule values_of_none)
      fix x assume x: "x \<in> set (flat LA')"
      have "leaves_wf (LA' @ (K', c') # [])" using wfA by (simp add: snoc l)
      then have "fst x < K'" using x by (rule flat_below)
      then show "fst x \<noteq> kp" using hk(2) by auto
    qed
    have v2: "values_of kp (flat LB) = []"
      by (rule values_of_none) (use k(2) kk in fastforce)
    have vs: "values_of kp (flat (LA @ LB)) = values_of kp c'" using v1 v2 by (simp add: snoc l)
    have pk': "key_below k (flat (LA @ LB)) = Some kp" using pk ne by (simp add: snoc l kp_def)
    have w: "write_at k80 2 [ucast (drop_bit 48 K')] = Inr (k80[2 := ucast (drop_bit 48 K')])"
      using k80 by (simp add: list_update_splice)
    have kpn: "kp = fst (c' ! (length c' - 1))" using ne by (simp add: kp_def last_conv_nth)
    have "adj_prev access (k80[2 := ucast (drop_bit 48 K')]) d' (length c') s
        = Inr (visit (access (k80_with k80 kp)) (rev (values_of kp c')) s)"
      using adj_prev_rep [OF lr lw _ _ _ kpn, of "k80[2 := ucast (drop_bit 48 K')]" access s] ne k80
        k80_with_eq [OF k80 hk(1)] by simp
    then show ?thesis
      unfolding pk' option.case vs adj_step_def find_prev_key_and_leaf_def bl using cur A get w
      by (simp add: leaf_len_rep [OF lr] del: write_at_ok)
  qed
qed

lemma for_each_adjacent_rep:
  assumes rep: "unit_rep u ls" and k80: "length k80 = 10" and b: "k80 ! 2 = ucast (drop_bit 48 k)"
  shows "unit_for_each_adjacent_value u k80 k access s = Inr (visit_adjacent access k80 k (flat ls) s)"
proof (cases "bt_last (\<lambda>x. hi16 k \<le> x \<and> x \<le> k) (u_bt u)")
  case None
  obtain A B where bt: "u_bt u = A @ B" "\<And>q. q \<in> set A \<Longrightarrow> fst q < hi16 k" "\<And>q. q \<in> set B \<Longrightarrow> k < fst q"
    using bt_last_None [OF None unit_rep_sorted [OF rep] hi16_le] by blast
  have h: "list_all2 (holds (u_bufs u)) (u_bt u) ls" and wf: "leaves_wf ls" using rep by (simp_all add: unit_rep_def)
  obtain LA LB where ls: "ls = LA @ LB" and len: "length A = length LA" and keys: "map fst A = map fst LA" "map fst B = map fst LB"
    using holds_split [OF h [unfolded bt(1)]] by blast
  have kA: "\<forall>l\<in>set LA. fst l < hi16 k" using keys_bound [where P = "\<lambda>x. x < hi16 k", OF keys(1) bt(2)] by blast
  have kB: "\<forall>l\<in>set LB. k < fst l" using keys_bound [where P = "\<lambda>x. k < x", OF keys(2) bt(3)] by blast
  note fl = lookup_None_flat [OF wf [unfolded ls] kA kB]
  have "values_of k (flat ls) = []" using fl(3) by (intro values_of_none) (auto simp: ls)
  moreover have "adj_step u k80 k access s = Inr (case key_below k (flat (LA @ LB)) of None \<Rightarrow> s
      | Some kp \<Rightarrow> visit (access (k80_with k80 kp)) (rev (values_of kp (flat (LA @ LB)))) s)"
  proof (rule adj_step_rep [OF rep [unfolded ls] bt(1) len])
    show "fst l < k" if "l \<in> set LA" for l using kA that hi16_le [of k] by (metis less_le_trans)
    show "k \<le> fst l" if "l \<in> set LB" for l using kB that by (metis less_imp_le)
    show "k \<le> fst x" if "x \<in> set (flat LB)" for x using fl(2) [OF that] by simp
  qed (use fl(1) k80 in simp_all)
  ultimately show ?thesis
    using None by (simp add: unit_for_each_adjacent_value_def find_key_and_leaf_def split_hi_lo_eq
        adj_step_def visit_adjacent_def ls split: option.split)
next
  case (Some Kp)
  obtain K p where Kp: "Kp = (K, p)" by fastforce
  obtain A B LA c LB d where bt: "u_bt u = A @ (K, p) # B" and ls: "ls = LA @ (K, c) # LB" and len: "length A = length LA"
    and hi: "hi16 K = hi16 k" and le: "K \<le> k" and ab: "\<forall>l\<in>set LB. k < fst l"
    and get: "lb_get_leaf (u_bufs u) p = Inr d" and lr: "leaf_rep d (map lo_pair c)" and lw: "leaf_wf (K, c)"
    using unit_lookup(2) [OF rep Some [unfolded Kp]] by blast
  have wf: "leaves_wf (LA @ (K, c) # LB)" using rep by (simp add: unit_rep_def ls)
  note fl = lookup_Some_flat [OF wf le ab]
  have h: "hi16 (fst x) = hi16 k" if "x \<in> set c" for x using leaf_wf_hi [OF lw that] hi by simp
  have sc: "sorted (map fst c)" using lw by (simp add: leaf_wf_def)
  define n where "n = length (takeWhile (\<lambda>p. fst p < k) c)"
  note cut = takeWhile_cut [OF sc, where k = k, folded n_def]
  have tw: "length (takeWhile (\<lambda>p. fst p < lo48 k) (map lo_pair c)) = n"
    unfolding n_def by (rule takeWhile_lo_pair) (rule h)
  define s1 where "s1 = visit (access k80) (values_of k c) s"
  have vl: "values_of (lo48 k) (map lo_pair c) = values_of k c" by (rule values_of_lo_pair) (rule h)
  have fw: "adj_forward access k80 d (lo48 k) (length c) 0 (length c) (length c) s = Inr (n, s1)"
    using adj_forward_rep [OF lr sorted_lo_pair [OF lw], of 0 "length c" access k80 "lo48 k" s] tw vl
    by (simp add: s1_def)
  have "values_of k (flat LA) = []" "values_of k (flat LB) = []" using fl(3,4) by (auto intro!: values_of_none)
  then have s1: "visit (access k80) (values_of k (flat ls)) s = s1" by (simp add: ls s1_def)
  have run: "unit_for_each_adjacent_value u k80 k access s =
      (if n = 0 then adj_step u k80 K access s1 else adj_prev access k80 d n s1)"
    using Some get fw
    by (simp add: unit_for_each_adjacent_value_def find_key_and_leaf_def split_hi_lo_eq Kp leaf_len_rep [OF lr] adj_step_def)
  show ?thesis
  proof (cases "n = 0")
    case True
    have "adj_step u k80 K access s1 = Inr (case key_below k (flat (LA @ (K, c) # LB)) of None \<Rightarrow> s1
        | Some kp \<Rightarrow> visit (access (k80_with k80 kp)) (rev (values_of kp (flat (LA @ (K, c) # LB)))) s1)"
    proof (rule adj_step_rep [OF rep [unfolded ls] bt len])
      show "fst l < K" if "l \<in> set LA" for l
        using wf that by (cases l) (auto simp: leaves_wf_simps leaf_before_def)
      show "K \<le> fst l" if "l \<in> set ((K, c) # LB)" for l using that ab le by (auto intro: order_trans less_imp_le)
      show "k \<le> fst x" if "x \<in> set (flat ((K, c) # LB))" for x
        using that cut(2) [of x] fl(2) [of x] True by auto
    qed (use fl(1) k80 in simp_all)
    then show ?thesis using True unfolding run visit_adjacent_def Let_def s1 unfolding ls by simp
  next
    case False
    have nl: "n \<le> length c" unfolding n_def by (rule length_takeWhile_le)
    define kp where "kp = fst (c ! (n - 1))"
    have inc: "c ! (n - 1) \<in> set (take n c)" using False nl by (auto simp: in_set_conv_nth intro!: exI [of _ "n - 1"])
    have kk: "kp < k" using cut(1) [OF inc] by (simp add: kp_def)
    have inc': "c ! (n - 1) \<in> set c" using inc by (rule in_set_takeD)
    have Kkp: "K \<le> kp" using lw inc' by (simp add: leaf_wf_def kp_def)
    have hk: "hi16 k = hi16 kp" using h [OF inc'] by (simp add: kp_def)
    have ne: "take n c \<noteq> []" using False nl by auto
    have "key_below k ((flat LA @ take n c) @ (drop n c @ flat LB)) = (if flat LA @ take n c = [] then None else Some (fst (last (flat LA @ take n c))))"
    proof (rule key_below_split)
      show "fst x < k" if "x \<in> set (flat LA @ take n c)" for x using that fl(1) [of x] cut(1) [of x] by auto
      show "k \<le> fst x" if "x \<in> set (drop n c @ flat LB)" for x using that fl(2) [of x] cut(2) [of x] by auto
    qed
    moreover have "(flat LA @ take n c) @ (drop n c @ flat LB) = flat ls" by (simp add: ls)
    moreover have "last (flat LA @ take n c) = c ! (n - 1)"
      using ne nl False by (simp add: last_append last_conv_nth min_def)
    ultimately have pk: "key_below k (flat ls) = Some kp" using ne by (simp add: kp_def)
    have v1: "values_of kp (flat LA) = []"
      by (rule values_of_none) (use flat_below [OF wf] Kkp in fastforce)
    have v2: "values_of kp (flat LB) = []"
      by (rule values_of_none) (use fl(2) kk in fastforce)
    have v3: "values_of kp (drop n c) = []"
      by (rule values_of_none) (use cut(2) kk in fastforce)
    have "values_of kp c = values_of kp (take n c) @ values_of kp (drop n c)"
      by (simp flip: values_of_append)
    then have vs: "values_of kp (flat ls) = values_of kp (take n c)" using v1 v2 v3 by (simp add: ls)
    have "k80[2 := ucast (drop_bit 48 k)] = k80" using b by (metis list_update_id)
    then have k: "splice k80 3 (drop 2 (u64_be (lo48 kp))) = k80_with k80 kp"
      using k80_with_eq [OF k80 hk] by simp
    have "adj_prev access k80 d n s1 = Inr (visit (access (k80_with k80 kp)) (rev (values_of kp (take n c))) s1)"
      using adj_prev_rep [OF lr lw _ nl k80 kp_def, of access s1] False k by simp
    then show ?thesis using False pk vs by (simp add: run visit_adjacent_def s1)
  qed
qed

section \<open>Theorems\<close>

text \<open>A scan for a key calls its callback on exactly the values stored under the key, in their
  order, until the callback asks to stop.\<close>

theorem unit_for_each_value_visits:
  assumes "unit_rep u ls"
  shows "unit_for_each_value u k access s = Inr (visit access (values_of k (flat ls)) s)"
  using assms by (rule find_leaf_visit)

theorem unit_for_each_value_visits_witness:
  "unit_for_each_value demo_unit 5 (\<lambda>v s. (v # s, False)) [] = Inr [7]"
  using unit_for_each_value_visits [OF demo_unit_rep, of 5 "\<lambda>v s. (v # s, False)" "[]"]
  by (simp add: values_of_def)

text \<open>C20. A scan for a key and its neighbour visits the values of the key and then, from the last to
  the first, the values of the greatest smaller key in the whole unit, wherever leaf boundaries
  lie, and hands the callback that key's bytes.\<close>

theorem unit_for_each_adjacent_value_visits:
  assumes "unit_rep u ls" and "length k80 = 10" and "k80 ! 2 = ucast (drop_bit 48 k)"
  shows "unit_for_each_adjacent_value u k80 k access s = Inr (visit_adjacent access k80 k (flat ls) s)"
  using assms by (rule for_each_adjacent_rep)

theorem unit_for_each_adjacent_value_visits_witness:
  "unit_for_each_adjacent_value demo_unit [1, 2, 0, 0, 0, 0, 0, 0, 9, 0] 9 (\<lambda>k v s. ((k, v) # s, False)) []
   = Inr [([1, 2, 0, 0, 0, 0, 0, 0, 5, 0], 7)]"
proof -
  have "drop 1 (u64_be 5) = [0, 0, 0, 0, 0, 0, 5]" by code_simp
  moreover have "drop_bit 48 (9 :: u64) = 0" by simp
  ultimately show ?thesis
    using unit_for_each_adjacent_value_visits [OF demo_unit_rep, of "[1, 2, 0, 0, 0, 0, 0, 0, 9, 0]" 9 "\<lambda>k v s. ((k, v) # s, False)" "[]"]
    by (simp add: visit_adjacent_def values_of_def key_below_def k80_with_def)
qed

end
