(* ===== verification/IndexCompact.thy ===== *)
theory IndexCompact
  imports IndexScan
begin

text \<open>
  Compaction of a unit of the in-memory indexer: \<^verbatim>\<open>UnitBuilder\<close> packs the pairs into new leaves of
  about thirty pairs, in new buffers. The lemmas keep the state of the builder in step with the
  finished leaves \<open>ls\<close> and the pairs \<open>cur\<close> of the leaf under construction; the theorem states that
  compaction keeps the unit's pairs.
\<close>

section \<open>Buffers under construction\<close>

text \<open>Leaves below the mark \<open>length pre\<close> of the last buffer survive whatever is written behind it.\<close>

lemma bufs_extend:
  assumes ok: "lb_ok \<lparr>lb_list = L @ [pre @ x], lb_offset = length pre\<rparr> P"
    and sz: "o' < 2 ^ 32" "length (last ((pre @ y) # M)) < 2 ^ 32" and m: "M = [] \<longrightarrow> length pre \<le> o'"
  defines "bl \<equiv> \<lparr>lb_list = L @ [pre @ x], lb_offset = length pre\<rparr>"
    and "bl' \<equiv> \<lparr>lb_list = L @ (pre @ y) # M, lb_offset = o'\<rparr>"
  shows "lb_ok bl' P" and "q \<in> P \<Longrightarrow> lb_get_leaf bl' q = lb_get_leaf bl q" and "q \<in> P \<Longrightarrow> lb_cap bl' q = lb_cap bl q"
proof -
  have keep: "lb_cap bl' q = lb_cap bl q \<and> lb_live bl' q \<and> lb_get_leaf bl' q = lb_get_leaf bl q" if q: "q \<in> P" for q
  proof -
    have lq: "lb_live bl q" using ok q by (simp add: lb_ok_def bl_def)
    then have n: "pos_buf q \<le> length L" by (simp add: lb_live_def bl_def)
    have sl: "take n (drop j (lb_buf bl' q)) = take n (drop j (lb_buf bl q))"
      if "j + n \<le> pos_off q + 12 * lb_cap bl q + 4" for j n
    proof (cases "pos_buf q = length L")
      case True
      then have "pos_off q + 12 * lb_cap bl q + 4 \<le> length pre" using lq by (simp add: lb_live_def bl_def)
      then show ?thesis using that True by (simp add: lb_buf_def bl_def bl'_def nth_append)
    qed (use n in \<open>simp add: lb_buf_def bl_def bl'_def nth_append\<close>)
    have c: "lb_cap bl' q = lb_cap bl q" by (simp add: lb_cap_def sl)
    have ext: "pos_off q + 12 * lb_cap bl q + 4 \<le> length (lb_buf bl' q)"
    proof (cases "pos_buf q = length L")
      case True
      then have "pos_off q + 12 * lb_cap bl q + 4 \<le> length pre" using lq by (simp add: lb_live_def bl_def)
      then show ?thesis using True by (simp add: lb_buf_def bl'_def nth_append)
    next
      case False
      then show ?thesis using lq n by (simp add: lb_live_def lb_buf_def bl_def bl'_def nth_append)
    qed
    have top: "pos_off q + 12 * lb_cap bl q + 4 \<le> o'" if "pos_buf q = length (lb_list bl') - 1"
    proof -
      have "M = []" "pos_buf q = length L" using that n by (simp_all add: bl'_def)
      then show ?thesis using lq m by (simp add: lb_live_def bl_def)
    qed
    have l: "lb_live bl' q"
      unfolding lb_live_def c using ext top n by (simp add: bl'_def)
    show ?thesis unfolding lb_get_live [OF l] lb_get_live [OF lq] c using l sl by simp
  qed
  then show "q \<in> P \<Longrightarrow> lb_get_leaf bl' q = lb_get_leaf bl q" "q \<in> P \<Longrightarrow> lb_cap bl' q = lb_cap bl q" by blast+
  show "lb_ok bl' P"
    unfolding lb_ok_def
  proof (intro conjI)
    show "lb_list bl' \<noteq> []" "lb_offset bl' < 2 ^ 32" "length (last (lb_list bl')) < 2 ^ 32"
      using sz by (simp_all add: bl'_def)
    show "\<forall>p\<in>P. lb_live bl' p" using keep by blast
    show "\<forall>p\<in>P. \<forall>q\<in>P. p \<noteq> q \<longrightarrow> lb_apart bl' p q"
      using ok keep unfolding lb_ok_def lb_apart_def bl_def by simp
  qed
qed

text \<open>The leaf that is finished behind the mark.\<close>

lemma bufs_new_leaf:
  fixes L :: "bytes list" and pre body z :: bytes and M :: "bytes list"
  assumes ok: "lb_ok \<lparr>lb_list = L @ [pre @ x], lb_offset = length pre\<rparr> P"
    and cap: "length body = 2 + 12 * cap" "cap \<le> 2 ^ 16 - 1"
    and sz: "length L < 2 ^ 32" "length pre < 2 ^ 32" "o' < 2 ^ 32" "length (last ((pre @ u16_le (word_of_nat cap) @ body @ z) # M)) < 2 ^ 32"
    and m: "M = [] \<longrightarrow> length pre + 4 + 12 * cap \<le> o'"
  defines "p \<equiv> or (push_bit 32 (word_of_nat (length L))) (word_of_nat (length pre)) :: u64"
    and "bl' \<equiv> \<lparr>lb_list = L @ (pre @ u16_le (word_of_nat cap) @ body @ z) # M, lb_offset = o'\<rparr>"
  shows "lb_ok bl' (insert p P)" and "lb_get_leaf bl' p = Inr body" and "p \<notin> P"
proof -
  let ?y = "u16_le (word_of_nat cap) @ body @ z"
  have m': "M = [] \<longrightarrow> length pre \<le> o'" using m by auto
  note ext = bufs_extend [OF ok sz(3,4) m', folded bl'_def]
  have pf: "pos_buf p = length L" "pos_off p = length pre" using pos_fields [OF sz(1,2)] by (simp_all add: p_def)
  have bp: "lb_buf bl' p = pre @ ?y" by (simp add: lb_buf_def bl'_def pf nth_append)
  have c: "lb_cap bl' p = cap" using cap(2) by (simp add: lb_cap_def bp pf u16_le_def le_dec_enc unat_of_nat)
  have lp: "lb_live bl' p" unfolding lb_live_def c bp pf using cap(1) m by (auto simp: bl'_def)
  show "lb_get_leaf bl' p = Inr body" unfolding lb_get_live [OF lp] c bp pf using cap(1) by simp
  have below: "pos_off q + 12 * lb_cap bl' q + 4 \<le> length pre" if q: "q \<in> P" "pos_buf q = length L" for q
  proof -
    have "lb_live \<lparr>lb_list = L @ [pre @ x], lb_offset = length pre\<rparr> q" using ok q(1) by (simp add: lb_ok_def)
    then show ?thesis using q ext(3) [OF q(1)] by (simp add: lb_live_def)
  qed
  show "p \<notin> P"
  proof
    assume "p \<in> P"
    then show False using below [of p] pf by simp
  qed
  have "lb_apart bl' p q" "lb_apart bl' q p" if q: "q \<in> P" for q
    using below [OF q] by (auto simp: lb_apart_def pf)
  then show "lb_ok bl' (insert p P)" using ext(1) lp unfolding lb_ok_def by blast
qed

section \<open>The builder's state\<close>

definition ub_bufs :: "unit_builder \<Rightarrow> leaf_bufs" where
  "ub_bufs b = \<lparr>lb_list = ub_buf_list b @ [ub_cur_buf b], lb_offset = ub_leaf_start b\<rparr>"

definition ub_store :: "unit_builder \<Rightarrow> leaves \<Rightarrow> (u64 \<times> i64) list \<Rightarrow> bool" where
  "ub_store b ls cur \<longleftrightarrow> ub_leaf_size b = length cur
     \<and> (\<exists>pre. ub_cur_buf b = pre @ replicate 4 0 @ enc_kvs (map lo_pair cur) \<and> length pre = ub_leaf_start b)
     \<and> list_all2 (holds (ub_bufs b)) (ub_bt b) ls \<and> distinct (map snd (ub_bt b))
     \<and> lb_ok (ub_bufs b) (snd ` set (ub_bt b)) \<and> leaves_wf ls
     \<and> ub_leaf_start b \<le> BUF_SIZE \<and> length (ub_buf_list b) \<le> length (flat ls)
     \<and> list_all (\<lambda>x. unat (snd x) < 2 ^ 48) cur"

lemma le_enc_lo48: "le_enc 6 (unat (lo48 k)) = le_enc 6 (unat k)"
  using le_enc_mod [of 6 "unat k"] by (simp add: unat_lo48)

lemma small_lo: "unat v < 2 ^ 48 \<Longrightarrow> small_kv (lo_pair (k, v))"
  using lo48_small by (simp only: small_kv_def lo_pair_def prod.case simp_thms)

text \<open>The last step of \<^verbatim>\<open>append\<close>.\<close>

definition ub_push :: "u64 \<Rightarrow> i64 \<Rightarrow> unit_builder \<Rightarrow> unit_builder" where
  "ub_push k v b = b\<lparr>ub_cur_buf := ub_cur_buf b @ take 6 (u64_le k) @ take 6 (u64_le v),
     ub_size := ub_size b + 1, ub_leaf_size := ub_leaf_size b + 1, ub_last_key := k\<rparr>"

lemma ub_push_store:
  assumes st: "ub_store b ls cur" and v: "unat v < 2 ^ 48" and len: "length cur < 2 ^ 16"
  shows "ub_store (ub_push k v b) ls (cur @ [(k, v)])"
proof -
  obtain pre where pre: "ub_cur_buf b = pre @ replicate 4 0 @ enc_kvs (map lo_pair cur)" "length pre = ub_leaf_start b"
    using st by (auto simp: ub_store_def)
  have e: "take 6 (u64_le k) @ take 6 (u64_le v) = enc_kv (lo_pair (k, v))"
    by (simp add: u64_le_def take_le_enc enc_kv_def lo_pair_def le_enc_lo48)
  define y where "y = replicate 4 0 @ enc_kvs (map lo_pair (cur @ [(k, v)]))"
  have cb: "ub_cur_buf (ub_push k v b) = pre @ y" by (simp add: ub_push_def pre e y_def)
  have bl: "ub_bufs b = \<lparr>lb_list = ub_buf_list b @ [pre @ (replicate 4 0 @ enc_kvs (map lo_pair cur))], lb_offset = length pre\<rparr>"
    by (simp add: ub_bufs_def pre)
  have bl': "ub_bufs (ub_push k v b) = \<lparr>lb_list = ub_buf_list b @ (pre @ y) # [], lb_offset = length pre\<rparr>"
    by (simp add: ub_bufs_def cb) (simp add: ub_push_def pre)
  have ok: "lb_ok \<lparr>lb_list = ub_buf_list b @ [pre @ (replicate 4 0 @ enc_kvs (map lo_pair cur))], lb_offset = length pre\<rparr> (snd ` set (ub_bt b))"
    using st by (simp add: ub_store_def bl)
  have s: "ub_leaf_start b \<le> BUF_SIZE" using st by (simp add: ub_store_def)
  have sz: "length pre < 2 ^ 32" "length (last ((pre @ y) # [])) < 2 ^ 32"
    using s len by (simp_all add: pre(2) y_def layout_defs)
  note ext = bufs_extend [OF ok sz impI [OF order.refl], folded bl bl']
  have "list_all2 (holds (ub_bufs (ub_push k v b))) (ub_bt b) ls"
    by (rule holds_frame [where bl = "ub_bufs b"]) (use st ext(2) in \<open>simp_all add: ub_store_def\<close>)
  then show ?thesis
    using st ext(1) v cb pre(2)
    by (simp add: ub_store_def y_def) (simp add: ub_push_def ub_bufs_def)
qed

text \<open>Finishing the current leaf.\<close>

lemma ub_flush_store:
  assumes st: "ub_store b ls cur" and ne: "cur \<noteq> []" and len: "length cur \<le> 2 ^ 16 - 3"
    and lw: "leaf_wf (ub_key_for_leaf b, cur)" and bef: "\<And>l. l \<in> set ls \<Longrightarrow> leaf_before l (ub_key_for_leaf b, cur)"
    and tot: "length (flat ls) + length cur < 2 ^ 32"
  shows "\<exists>b'. ub_flush b = Inr b' \<and> ub_store b' (ls @ [(ub_key_for_leaf b, cur)]) []
    \<and> ub_cur_hi16 b' = ub_cur_hi16 b \<and> ub_last_key b' = - 1 \<and> ub_size b' = ub_size b"
proof -
  let ?K = "ub_key_for_leaf b" and ?L = "ub_buf_list b" and ?P = "snd ` set (ub_bt b)"
  obtain pre where pre: "ub_cur_buf b = pre @ replicate 4 0 @ enc_kvs (map lo_pair cur)" "length pre = ub_leaf_start b"
    using st by (auto simp: ub_store_def)
  define extra where "extra = min (length cur div 8) 2"
  define cap where "cap = length cur + extra"
  define body where "body = u16_le (word_of_nat (length cur)) @ enc_kvs (map lo_pair cur) @ replicate (12 * extra) 0"
  define buf where "buf = pre @ u16_le (word_of_nat cap) @ body"
  have capb: "length body = 2 + 12 * cap" "cap \<le> 2 ^ 16 - 1" using len by (simp_all add: body_def cap_def extra_def)
  have lsz: "ub_leaf_size b = length cur" using st by (simp add: ub_store_def)
  have ex: "ub_extra_bytes b = 12 * extra" by (simp add: ub_extra_bytes_def lsz extra_def layout_defs)
  define c0 where "c0 = pre @ replicate 4 0 @ enc_kvs (map lo_pair cur) @ replicate (12 * extra) 0"
  have "length c0 - length pre - 4 = 12 * cap" by (simp add: c0_def cap_def)
  then have c0l: "(length c0 - length pre - 4) div KV_SIZE = cap" by (simp add: kv_sizes)
  have w1: "write_at c0 (length pre) (u16_le (word_of_nat cap)) = Inr (pre @ u16_le (word_of_nat cap) @ replicate 2 0 @ enc_kvs (map lo_pair cur) @ replicate (12 * extra) 0)"
  proof -
    have r4: "replicate 4 (0 :: byte) = replicate 2 0 @ replicate 2 0" by (simp flip: replicate_add)
    have "c0 = pre @ replicate 2 0 @ replicate 2 0 @ enc_kvs (map lo_pair cur) @ replicate (12 * extra) 0"
      unfolding c0_def r4 by (simp only: append_assoc)
    then have "splice c0 (length pre) (u16_le (word_of_nat cap)) = pre @ u16_le (word_of_nat cap) @ replicate 2 0 @ enc_kvs (map lo_pair cur) @ replicate (12 * extra) 0"
      by (rule splice_at) simp_all
    then show ?thesis by (simp add: write_at_def c0_def)
  qed
  have w2: "write_at (pre @ u16_le (word_of_nat cap) @ replicate 2 0 @ enc_kvs (map lo_pair cur) @ replicate (12 * extra) 0) (length pre + 2) (u16_le (word_of_nat (length cur))) = Inr buf"
  proof -
    have "splice (pre @ u16_le (word_of_nat cap) @ replicate 2 0 @ enc_kvs (map lo_pair cur) @ replicate (12 * extra) 0) (length pre + 2) (u16_le (word_of_nat (length cur)))
        = (pre @ u16_le (word_of_nat cap)) @ u16_le (word_of_nat (length cur)) @ enc_kvs (map lo_pair cur) @ replicate (12 * extra) 0"
      by (rule splice_at [where Y = "replicate 2 0"]) simp_all
    then show ?thesis by (simp add: write_at_def buf_def body_def)
  qed
  define p :: u64 where "p = or (push_bit 32 (word_of_nat (length ?L))) (word_of_nat (length pre))"
  define M o' where "M = (if BUF_SIZE < length buf + KV_SIZE then [replicate 4 (0 :: byte)] else [])"
    and "o' = (if BUF_SIZE < length buf + KV_SIZE then 0 else length buf)"
  define z where "z = (if BUF_SIZE < length buf + KV_SIZE then [] else replicate 4 (0 :: byte))"
  define b' where "b' = (let b = b\<lparr>ub_bt := bt_insert ?K p (ub_bt b)\<rparr>;
          b = (if BUF_SIZE < length buf + KV_SIZE
               then b\<lparr>ub_cur_buf := replicate 4 0, ub_total_bytes := ub_total_bytes b + length buf,
                      ub_buf_list := ub_buf_list b @ [buf], ub_leaf_start := 0\<rparr>
               else b\<lparr>ub_leaf_start := length buf, ub_cur_buf := buf @ replicate 4 0\<rparr>) in
      b\<lparr>ub_leaf_size := 0, ub_last_key := - 1\<rparr>)"
  have flush: "ub_flush b = Inr b'"
    unfolding ub_flush_def Let_def ex pre(1) append_assoc pre(2) [symmetric] c0_def [symmetric] c0l lsz
    using ne w1 w2 by (simp add: b'_def p_def Let_def del: write_at_ok)
  have s: "length pre \<le> BUF_SIZE" using st by (simp add: ub_store_def pre(2))
  have bl: "ub_bufs b = \<lparr>lb_list = ?L @ [pre @ (replicate 4 0 @ enc_kvs (map lo_pair cur))], lb_offset = length pre\<rparr>"
    by (simp add: ub_bufs_def pre)
  have bl': "ub_bufs b' = \<lparr>lb_list = ?L @ (pre @ u16_le (word_of_nat cap) @ body @ z) # M, lb_offset = o'\<rparr>"
    by (simp add: ub_bufs_def b'_def M_def o'_def z_def buf_def Let_def)
  have ok: "lb_ok \<lparr>lb_list = ?L @ [pre @ (replicate 4 0 @ enc_kvs (map lo_pair cur))], lb_offset = length pre\<rparr> ?P"
    using st by (simp add: ub_store_def bl)
  have nb: "length ?L \<le> length (flat ls)" using st by (simp add: ub_store_def)
  have blen: "length buf = length pre + 4 + 12 * cap" using capb by (simp add: buf_def)
  have sz: "length ?L < 2 ^ 32" "length pre < 2 ^ 32" "o' < 2 ^ 32"
      "length (last ((pre @ u16_le (word_of_nat cap) @ body @ z) # M)) < 2 ^ 32"
    using nb tot s capb blen by (auto simp: o'_def M_def z_def layout_defs)
  have m: "M = [] \<longrightarrow> length pre + 4 + 12 * cap \<le> o'" "M = [] \<longrightarrow> length pre \<le> o'"
    by (auto simp: M_def o'_def blen split: if_splits)
  note new = bufs_new_leaf [OF ok capb sz m(1), folded p_def bl']
  note ext = bufs_extend [OF ok sz(3,4) m(2), folded bl bl']
  have "leaf_rep body (map lo_pair cur)"
  proof (rule leaf_repI [where rest = "replicate (12 * extra) 0"])
    show "list_all small_kv (map lo_pair cur)"
      using st small_lo by (auto simp: list_all_iff ub_store_def)
  qed (use capb in \<open>simp_all add: body_def cap_def\<close>)
  then have hp: "holds (ub_bufs b') (?K, p) (?K, cur)" by (rule holdsI [OF new(2)])
  have h: "list_all2 (holds (ub_bufs b)) (ub_bt b) ls" using st by (simp add: ub_store_def)
  have hb: "list_all2 (holds (ub_bufs b')) (ub_bt b) ls" by (rule holds_frame [OF h ext(2)])
  have "bt_insert ?K p (ub_bt b @ []) = ub_bt b @ [(?K, p)]"
  proof (rule bt_insert_mid)
    show "fst q < ?K" if "q \<in> set (ub_bt b)" for q
      using keys_bound [where P = "\<lambda>x. x < ?K", OF holds_keys [OF h, symmetric] _ that] bef by (auto simp: leaf_before_def)
  qed simp
  then have bt': "ub_bt b' = ub_bt b @ [(?K, p)]" by (simp add: b'_def Let_def)
  have "ub_store b' (ls @ [(?K, cur)]) []"
    unfolding ub_store_def
  proof (intro conjI)
    show "list_all2 (holds (ub_bufs b')) (ub_bt b') (ls @ [(?K, cur)])"
      unfolding bt' using hb hp by (simp add: list_all2_append list_all2_lengthD)
    show "distinct (map snd (ub_bt b'))" using st new(3) by (simp add: bt' ub_store_def)
    show "lb_ok (ub_bufs b') (snd ` set (ub_bt b'))" using new(1) by (simp add: bt')
    show "leaves_wf (ls @ [(?K, cur)])" using st lw bef by (simp add: leaves_wf_simps ub_store_def)
    show "ub_leaf_size b' = length []" by (simp add: b'_def Let_def)
    show "\<exists>pre. ub_cur_buf b' = pre @ replicate 4 0 @ enc_kvs (map lo_pair []) \<and> length pre = ub_leaf_start b'"
      by (simp add: b'_def Let_def)
    show "ub_leaf_start b' \<le> BUF_SIZE" by (simp add: b'_def Let_def)
    have "Suc (length ?L) \<le> length (flat ls) + length cur" using nb ne by (cases cur) simp_all
    then show "length (ub_buf_list b') \<le> length (flat (ls @ [(?K, cur)]))"
      using nb by (simp add: b'_def Let_def)
  qed simp
  moreover have "ub_cur_hi16 b' = ub_cur_hi16 b \<and> ub_last_key b' = - 1 \<and> ub_size b' = ub_size b"
    by (simp add: b'_def Let_def)
  ultimately show ?thesis using flush by blast
qed

section \<open>Appending\<close>

text \<open>Between two calls of \<^verbatim>\<open>append\<close>: a leaf is under construction unless nothing was appended yet,
  and it exceeds 29 pairs only by pairs with its last key.\<close>

definition ub_inv :: "unit_builder \<Rightarrow> leaves \<Rightarrow> (u64 \<times> i64) list \<Rightarrow> bool" where
  "ub_inv b ls cur \<longleftrightarrow> ub_store b ls cur
     \<and> (if cur = [] then ls = [] \<and> ub_cur_hi16 b = - 1
        else leaf_wf (ub_key_for_leaf b, cur) \<and> (\<forall>l\<in>set ls. leaf_before l (ub_key_for_leaf b, cur))
          \<and> ub_last_key b = fst (last cur) \<and> ub_cur_hi16 b = hi16 (fst (last cur))
          \<and> length cur \<le> 29 + length (values_of (fst (last cur)) cur))"

lemma ub_store_key [simp]:
  "ub_store (b\<lparr>ub_key_for_leaf := K\<rparr>) ls cur \<longleftrightarrow> ub_store b ls cur"
  "ub_store (b\<lparr>ub_cur_hi16 := h\<rparr>) ls cur \<longleftrightarrow> ub_store b ls cur"
  by (simp_all add: ub_store_def ub_bufs_def)

lemma ub_push_fields [simp]:
  "ub_key_for_leaf (ub_push k v b) = ub_key_for_leaf b" "ub_cur_hi16 (ub_push k v b) = ub_cur_hi16 b"
  "ub_last_key (ub_push k v b) = k" "ub_size (ub_push k v b) = Suc (ub_size b)"
  by (simp_all add: ub_push_def)

text \<open>What \<^verbatim>\<open>append\<close> does after the change of the high bits.\<close>

definition ub_ready :: "unit_builder \<Rightarrow> u64 \<Rightarrow> bool" where
  "ub_ready b k \<longleftrightarrow> (DEFAULT_LEAF_LEN \<le> ub_leaf_size b \<or> BUF_SIZE \<le> length (ub_cur_buf b) + ub_extra_bytes b + KV_SIZE)
     \<and> ub_last_key b \<noteq> k"

definition ub_second :: "u64 \<Rightarrow> i64 \<Rightarrow> unit_builder \<Rightarrow> unit_builder result" where
  "ub_second k v b =
     bindE (if ub_ready b k then bindE (ub_flush b) (\<lambda>b. Inr (b\<lparr>ub_key_for_leaf := k\<rparr>)) else Inr b)
       (\<lambda>b. Inr (ub_push k v b))"

lemma ub_append_steps:
  "ub_append (k, v) b =
     bindE (if hi16 k \<noteq> ub_cur_hi16 b
            then bindE (ub_flush b) (\<lambda>b. Inr (b\<lparr>ub_key_for_leaf := hi16 k, ub_cur_hi16 := hi16 k\<rparr>)) else Inr b) (ub_second k v)"
  by (simp add: ub_append_def split_hi_lo_eq Let_def ub_push_def ub_second_def [abs_def] ub_ready_def)

lemma ub_flush_empty: "ub_store b ls [] \<Longrightarrow> ub_flush b = Inr b"
  by (simp add: ub_store_def ub_flush_def)

lemma ub_start_leaf:
  assumes st: "ub_store b ls []" and K: "ub_key_for_leaf b \<le> k" "hi16 (ub_key_for_leaf b) = hi16 k" "ub_cur_hi16 b = hi16 k"
    and bef: "\<And>l. l \<in> set ls \<Longrightarrow> leaf_before l (ub_key_for_leaf b, [(k, v)])" and v: "unat v < 2 ^ 48"
  shows "ub_inv (ub_push k v b) ls [(k, v)]"
  using ub_push_store [OF st v, of k] K bef v by (simp add: ub_inv_def leaf_wf_def)

text \<open>With no leaf under construction, the second flush of \<^verbatim>\<open>append\<close> only changes the key.\<close>

lemma ub_second_step_empty:
  assumes st: "ub_store b ls []" and key: "ub_key_for_leaf b = hi16 k" "ub_cur_hi16 b = hi16 k"
    and bef: "\<And>l x. l \<in> set ls \<Longrightarrow> fst l < hi16 k" "\<And>x. x \<in> set (flat ls) \<Longrightarrow> fst x < hi16 k" and v: "unat v < 2 ^ 48"
  shows "\<exists>b'. ub_second k v b = Inr b' \<and> ub_inv b' ls [(k, v)] \<and> ub_size b' = Suc (ub_size b)"
proof -
  have before: "leaf_before l (K, [(k, v)])" if K: "hi16 k \<le> K" and l: "l \<in> set ls" for K l
  proof (cases l)
    case (Pair K' c)
    have "fst x < K" if "x \<in> set c" for x
      using bef(2) [of x] K l that Pair by (auto simp: flat_set intro: less_le_trans)
    then show ?thesis using bef(1) [OF l] K Pair by (auto simp: leaf_before_def)
  qed
  show ?thesis
  proof (cases "ub_ready b k")
    case True
    have "ub_inv (ub_push k v (b\<lparr>ub_key_for_leaf := k\<rparr>)) ls [(k, v)]"
      by (rule ub_start_leaf) (use st key before v in simp_all)
    then show ?thesis using True ub_flush_empty [OF st] by (simp add: ub_second_def)
  next
    case False
    have "ub_inv (ub_push k v b) ls [(k, v)]"
      by (rule ub_start_leaf) (use st key before v in simp_all)
    then show ?thesis using False by (auto simp: ub_second_def)
  qed
qed

lemma ub_append_inv:
  assumes inv: "ub_inv b ls cur" and v: "unat v < 2 ^ 48" and le: "\<And>x. x \<in> set (flat ls @ cur) \<Longrightarrow> fst x \<le> k"
    and mult: "\<And>k. length (values_of k cur) \<le> 2 ^ 16 - 32" and tot: "length (flat ls) + length cur < 2 ^ 32"
  shows "\<exists>b' ls' cur'. ub_append (k, v) b = Inr b' \<and> ub_inv b' ls' cur' \<and> cur' \<noteq> []
    \<and> flat ls' @ cur' = (flat ls @ cur) @ [(k, v)] \<and> ub_size b' = Suc (ub_size b)"
proof (cases "cur = []")
  case True
  have st: "ub_store b ls []" and ls: "ls = []" and h: "ub_cur_hi16 b = - 1" using inv True by (auto simp: ub_inv_def)
  have "hi16 k \<noteq> - 1"
  proof
    assume "hi16 k = - 1"
    then have "unat (hi16 k) = 2 ^ 64 - 1" by (simp add: unsigned_minus_1_eq_mask mask_eq_exp_minus_1)
    moreover have "even (unat (hi16 k))" by (simp add: unat_hi16)
    ultimately show False by simp
  qed
  then have first: "(if hi16 k \<noteq> ub_cur_hi16 b then bindE (ub_flush b) (\<lambda>b. Inr (b\<lparr>ub_key_for_leaf := hi16 k, ub_cur_hi16 := hi16 k\<rparr>)) else Inr b)
      = Inr (b\<lparr>ub_key_for_leaf := hi16 k, ub_cur_hi16 := hi16 k\<rparr>)"
    using h ub_flush_empty [OF st] by simp
  obtain b' where "ub_second k v (b\<lparr>ub_key_for_leaf := hi16 k, ub_cur_hi16 := hi16 k\<rparr>) = Inr b'"
      "ub_inv b' ls [(k, v)]" "ub_size b' = Suc (ub_size b)"
    using ub_second_step_empty [of "b\<lparr>ub_key_for_leaf := hi16 k, ub_cur_hi16 := hi16 k\<rparr>" ls k v] st ls v by auto
  then show ?thesis
    unfolding ub_append_steps first bindE.simps using ls True
    by (intro exI [of _ b'] exI [of _ ls] exI [of _ "[(k, v)]"]) simp
next
  case False
  have st: "ub_store b ls cur" and lw: "leaf_wf (ub_key_for_leaf b, cur)" and bef: "\<And>l. l \<in> set ls \<Longrightarrow> leaf_before l (ub_key_for_leaf b, cur)"
    and lk: "ub_last_key b = fst (last cur)" and h: "ub_cur_hi16 b = hi16 (fst (last cur))"
    and n: "length cur \<le> 29 + length (values_of (fst (last cur)) cur)"
    using inv False by (simp_all add: ub_inv_def)
  have len: "length cur \<le> 2 ^ 16 - 3" using n mult [of "fst (last cur)"] by simp
  let ?K = "ub_key_for_leaf b" and ?ls = "ls @ [(ub_key_for_leaf b, cur)]"
  obtain b1 where b1: "ub_flush b = Inr b1" "ub_store b1 ?ls []" "ub_cur_hi16 b1 = ub_cur_hi16 b" "ub_last_key b1 = - 1"
      "ub_size b1 = ub_size b"
    using ub_flush_store [OF st False len lw bef tot] by blast
  have wf: "leaves_wf ?ls" using b1(2) by (simp add: ub_store_def)
  have lastc: "last cur \<in> set cur" using False by simp
  have leK: "?K \<le> fst x" "hi16 (fst x) = hi16 ?K" if "x \<in> set cur" for x using lw that by (simp_all add: leaf_wf_def)
  have maxc: "fst x \<le> fst (last cur)" if x: "x \<in> set cur" for x
  proof -
    have "sorted (map fst (butlast cur @ [last cur]))" using lw False by (simp add: leaf_wf_def)
    then have "\<forall>y\<in>set (butlast cur). fst y \<le> fst (last cur)" by (simp add: sorted_append)
    moreover have "x \<in> set (butlast cur @ [last cur])" using x False by simp
    ultimately show ?thesis by auto
  qed
  have flk: "fst x \<le> fst (last cur)" if x: "x \<in> set (flat ?ls)" for x
  proof (cases "x \<in> set cur")
    case False
    then have "x \<in> set (flat ls)" using x by simp
    then have "fst x < ?K" using flat_below [of ls ?K cur "[]"] wf by simp
    then show ?thesis using leK(1) [OF lastc] by simp
  qed (rule maxc)
  have keyle: "fst l \<le> ?K" if "l \<in> set ?ls" for l
    using that bef [of l] by (auto simp: leaf_before_def less_imp_le split: prod.splits)
  have kle: "fst (last cur) \<le> k" using le lastc by simp
  show ?thesis
  proof (cases "hi16 k = ub_cur_hi16 b")
    case diff: False
    have lt: "hi16 (fst (last cur)) < hi16 k" using hi16_mono [OF kle] diff h by simp
    have below: "x < hi16 k" if "x \<le> fst (last cur)" for x
      by (rule le_less_trans [OF that hi16_less [OF lt]])
    have fk: "fst l < hi16 k" if "l \<in> set ?ls" for l
      using keyle [OF that] leK(1) [OF lastc] below by (meson order_trans)
    have first: "(if hi16 k \<noteq> ub_cur_hi16 b then bindE (ub_flush b) (\<lambda>b. Inr (b\<lparr>ub_key_for_leaf := hi16 k, ub_cur_hi16 := hi16 k\<rparr>)) else Inr b)
        = Inr (b1\<lparr>ub_key_for_leaf := hi16 k, ub_cur_hi16 := hi16 k\<rparr>)" using diff b1(1) by simp
    have fb: "fst x < hi16 k" if "x \<in> set (flat ?ls)" for x by (rule below [OF flk [OF that]])
    obtain b' where b': "ub_second k v (b1\<lparr>ub_key_for_leaf := hi16 k, ub_cur_hi16 := hi16 k\<rparr>) = Inr b'"
      "ub_inv b' ?ls [(k, v)]" "ub_size b' = Suc (ub_size b1)"
      using ub_second_step_empty [of "b1\<lparr>ub_key_for_leaf := hi16 k, ub_cur_hi16 := hi16 k\<rparr>" ?ls k v, OF _ _ _ fk fb v] b1(2)
      by auto
    show ?thesis unfolding ub_append_steps first bindE.simps b'(1)
      using b'(2,3) b1(5) by (intro exI [of _ b'] exI [of _ ?ls] exI [of _ "[(k, v)]"]) simp
  next
    case same: True
    then have first: "(if hi16 k \<noteq> ub_cur_hi16 b then bindE (ub_flush b) (\<lambda>b. Inr (b\<lparr>ub_key_for_leaf := hi16 k, ub_cur_hi16 := hi16 k\<rparr>)) else Inr b)
        = Inr b" by simp
    have hk: "hi16 ?K = hi16 k" using leK(2) [OF lastc] same h by simp
    show ?thesis
    proof (cases "ub_ready b k")
      case True
      then have lt: "fst (last cur) < k" using kle lk by (auto simp: ub_ready_def)
      have before: "leaf_before l (k, [(k, v)])" if l: "l \<in> set ?ls" for l
      proof (cases l)
        case (Pair K' c)
        have "fst x < k" if "x \<in> set c" for x
        proof -
          have "x \<in> set (flat ?ls)" using l Pair that by (auto simp: flat_set)
          then show ?thesis using flk lt by (meson le_less_trans)
        qed
        moreover have "fst l < k" using keyle [OF l] leK(1) [OF lastc] lt by (meson le_less_trans order_trans)
        ultimately show ?thesis using Pair by (simp add: leaf_before_def)
      qed
      have "ub_inv (ub_push k v (b1\<lparr>ub_key_for_leaf := k\<rparr>)) ?ls [(k, v)]"
        by (rule ub_start_leaf) (use b1 before v same in simp_all)
      then show ?thesis unfolding ub_append_steps first bindE.simps
        using True b1(1,5) unfolding ub_second_def
        by (intro exI [of _ "ub_push k v (b1\<lparr>ub_key_for_leaf := k\<rparr>)"] exI [of _ ?ls] exI [of _ "[(k, v)]"]) simp
    next
      case no: False
      have st': "ub_store (ub_push k v b) ls (cur @ [(k, v)])" by (rule ub_push_store [OF st v]) (use len in simp)
      have "?K \<le> k" using leK(1) [OF lastc] kle by (rule order_trans)
      then have "leaf_wf (?K, cur @ [(k, v)])"
        using lw hk v le by (auto simp: leaf_wf_def sorted_append)
      moreover have "leaf_before l (?K, cur @ [(k, v)])" if "l \<in> set ls" for l
        using bef [OF that] leaf_before_cong by blast
      moreover have "length (cur @ [(k, v)]) \<le> 29 + length (values_of k (cur @ [(k, v)]))"
      proof (cases "ub_last_key b = k")
        case True
        then show ?thesis using n lk by (simp add: values_of_def)
      next
        case False
        then have "length cur \<le> 29" using no st by (auto simp: ub_store_def ub_ready_def layout_defs)
        then show ?thesis by (simp add: values_of_def)
      qed
      ultimately have "ub_inv (ub_push k v b) ls (cur @ [(k, v)])"
        using st' same by (simp add: ub_inv_def)
      then show ?thesis unfolding ub_append_steps first bindE.simps
        using no unfolding ub_second_def by (intro exI [of _ "ub_push k v b"] exI [of _ ls] exI [of _ "cur @ [(k, v)]"]) auto
    qed
  qed
qed

lemma ub_append_all:
  assumes "ub_inv b ls cur" and "sorted (map fst ((flat ls @ cur) @ ps))" and "list_all (\<lambda>x. unat (snd x) < 2 ^ 48) ps"
    and "\<And>k. length (values_of k ((flat ls @ cur) @ ps)) \<le> 2 ^ 16 - 32" and "length ((flat ls @ cur) @ ps) < 2 ^ 32"
  shows "\<exists>b' ls' cur'. foldE ub_append ps b = Inr b' \<and> ub_inv b' ls' cur'
    \<and> flat ls' @ cur' = (flat ls @ cur) @ ps \<and> ub_size b' = ub_size b + length ps"
  using assms
proof (induction ps arbitrary: b ls cur)
  case Nil
  then show ?case by simp blast
next
  case (Cons p ps)
  obtain k v where p: "p = (k, v)" by fastforce
  have le: "fst x \<le> k" if "x \<in> set (flat ls @ cur)" for x
    using Cons.prems(2) that by (auto simp: p sorted_append)
  have mult: "length (values_of k cur) \<le> 2 ^ 16 - 32" for k using Cons.prems(4) [of k] by simp
  have v: "unat v < 2 ^ 48" using Cons.prems(3) by (simp add: p)
  have tot: "length (flat ls) + length cur < 2 ^ 32" using Cons.prems(5) by simp
  obtain b1 ls1 cur1 where b1: "ub_append (k, v) b = Inr b1" "ub_inv b1 ls1 cur1"
      "flat ls1 @ cur1 = (flat ls @ cur) @ [(k, v)]" "ub_size b1 = Suc (ub_size b)"
    using ub_append_inv [OF Cons.prems(1) v le mult tot] by blast
  have e: "(flat ls1 @ cur1) @ ps = (flat ls @ cur) @ p # ps" unfolding b1(3) by (simp add: p)
  obtain b' ls' cur' where "foldE ub_append ps b1 = Inr b'" "ub_inv b' ls' cur'"
      "flat ls' @ cur' = (flat ls @ cur) @ p # ps" "ub_size b' = ub_size b1 + length ps"
    using Cons.IH [OF b1(2), unfolded e] Cons.prems by auto
  then show ?case using b1(1,4) by (simp add: p) blast
qed

lemma ub_new_inv: "ub_inv ub_new [] []"
  by (simp add: ub_inv_def ub_store_def ub_new_def ub_bufs_def lb_ok_def)

lemma compact_leaf_from_eq:
  assumes lr: "leaf_rep d (map lo_pair c)" and h: "\<And>x. x \<in> set c \<Longrightarrow> hi16 (fst x) = hi16 K" and "i + left = length c"
  shows "compact_leaf_from d (hi16 K) i left b = foldE ub_append (drop i c) b"
  using assms(3)
proof (induction left arbitrary: i b)
  case 0
  then show ?case by simp
next
  case (Suc left)
  then have i: "i < length c" by simp
  obtain k v where p: "c ! i = (k, v)" by fastforce
  have d: "drop i c = (k, v) # drop (Suc i) c" using i p by (simp add: Cons_nth_drop_Suc [symmetric])
  have "hi16 K = hi16 k" using h [OF nth_mem [OF i]] p by simp
  then have o: "or (hi16 K) (lo48 k) = k" by (rule or_hi16_lo48)
  have g: "leaf_get d i = Inr (lo48 k, v)" using leaf_get_rep [OF lr, of i] i p by (simp add: lo_pair_def)
  have "compact_leaf_from d (hi16 K) (i + 1) left = foldE ub_append (drop (Suc i) c)"
    using Suc.IH [of "Suc i"] Suc.prems by auto
  then show ?case by (simp add: g o d)
qed

lemma compact_fold:
  "list_all2 (holds bl) bt ls \<Longrightarrow> list_all leaf_wf ls \<Longrightarrow> foldE (compact_leaf bl) bt b = foldE ub_append (flat ls) b"
proof (induction arbitrary: b rule: list_all2_induct)
  case Nil
  then show ?case by simp
next
  case (Cons x xs y ys)
  obtain K p c d where e: "x = (K, p)" "y = (K, c)" "lb_get_leaf bl p = Inr d" "leaf_rep d (map lo_pair c)"
    using Cons.hyps(1) by (cases x; cases y) (auto simp: holds_def)
  have lw: "leaf_wf (K, c)" using Cons.prems e by simp
  have "compact_leaf bl x b = foldE ub_append c b"
    using compact_leaf_from_eq [OF e(4) leaf_wf_hi [OF lw], of 0 "length c" b]
    by (simp add: e compact_leaf_def split_hi_lo_eq leaf_len_rep [OF e(4)])
  moreover have "foldE (compact_leaf bl) xs = foldE ub_append (flat ys)" using Cons by auto
  ultimately show ?case by (simp add: e(2) foldE_append)
qed

lemma flat_sorted: "leaves_wf ls \<Longrightarrow> sorted (map fst (flat ls))"
proof (induction ls)
  case (Cons l ls)
  obtain K c where l: "l = (K, c)" by fastforce
  have "fst x \<le> fst y" if "x \<in> set c" "y \<in> set (flat ls)" for x y
  proof -
    obtain K' c' where y: "(K', c') \<in> set ls" "y \<in> set c'" using \<open>y \<in> set (flat ls)\<close> by (auto simp: flat_set)
    have "leaf_before (K, c) (K', c')" "leaf_wf (K', c')"
      using Cons.prems y(1) by (auto simp: l leaves_wf_simps) (simp add: leaves_wf_def list_all_iff)
    then have "fst x < K'" "K' \<le> fst y" using \<open>x \<in> set c\<close> y(2) by (simp_all add: leaf_before_def leaf_wf_def)
    then show ?thesis by simp
  qed
  then show ?case using Cons by (simp add: l leaves_wf_simps sorted_append) (simp add: leaf_wf_def)
qed simp

lemma flat_small: "leaves_wf ls \<Longrightarrow> list_all (\<lambda>x. unat (snd x) < 2 ^ 48) (flat ls)"
  by (fastforce simp: leaves_wf_def list_all_iff leaf_wf_def flat_set)

lemma unit_compact_rep:
  assumes rep: "unit_rep u ls" and mult: "\<And>k. length (values_of k (flat ls)) \<le> 2 ^ 16 - 32" and tot: "length (flat ls) < 2 ^ 32"
  shows "\<exists>u' ls'. unit_compact u = Inr u' \<and> unit_rep u' ls' \<and> flat ls' = flat ls
    \<and> u_last_size u' = word_of_nat (length (flat ls)) \<and> u_change_count u' = 0"
proof -
  have h: "list_all2 (holds (u_bufs u)) (u_bt u) ls" and wf: "leaves_wf ls" using rep by (simp_all add: unit_rep_def)
  obtain b ls1 cur where b: "foldE ub_append (flat ls) ub_new = Inr b" "ub_inv b ls1 cur" "flat ls1 @ cur = flat ls"
      "ub_size b = length (flat ls)"
    using ub_append_all [OF ub_new_inv, of "flat ls"] flat_sorted [OF wf] flat_small [OF wf] mult tot
    by (auto simp: ub_new_def)
  have run: "foldE (compact_leaf (u_bufs u)) (u_bt u) ub_new = Inr b"
    using compact_fold [OF h] wf b(1) by (simp add: leaves_wf_def)
  obtain b2 ls2 where b2: "ub_flush b = Inr b2" "ub_store b2 ls2 []" "flat ls2 = flat ls" "ub_size b2 = ub_size b"
  proof (cases "cur = []")
    case True
    then have "ub_store b ls1 []" using b(2) by (auto simp: ub_inv_def)
    then show ?thesis using that [of b ls1] ub_flush_empty b(3) True by auto
  next
    case False
    then have i: "ub_store b ls1 cur" "leaf_wf (ub_key_for_leaf b, cur)" "\<And>l. l \<in> set ls1 \<Longrightarrow> leaf_before l (ub_key_for_leaf b, cur)"
      "length cur \<le> 29 + length (values_of (fst (last cur)) cur)"
      using b(2) by (auto simp: ub_inv_def)
    have "length (values_of (fst (last cur)) cur) \<le> 2 ^ 16 - 32"
      using mult [of "fst (last cur)"] unfolding b(3) [symmetric] by simp
    then have "length cur \<le> 2 ^ 16 - 3" using i(4) by simp
    moreover have "length (flat ls1) + length cur < 2 ^ 32" using tot unfolding b(3) [symmetric] by simp
    ultimately obtain b2 where "ub_flush b = Inr b2" "ub_store b2 (ls1 @ [(ub_key_for_leaf b, cur)]) []" "ub_size b2 = ub_size b"
      using ub_flush_store [OF i(1) False _ i(2,3)] by blast
    then show ?thesis using that [of b2 "ls1 @ [(ub_key_for_leaf b, cur)]"] b(3) by simp
  qed
  obtain pre where pre: "ub_cur_buf b2 = pre @ replicate 4 0" "length pre = ub_leaf_start b2" using b2(2) by (auto simp: ub_store_def)
  have s: "length pre \<le> BUF_SIZE" using b2(2) by (simp add: ub_store_def pre(2))
  have bl: "ub_bufs b2 = \<lparr>lb_list = ub_buf_list b2 @ [pre @ replicate 4 0], lb_offset = length pre\<rparr>"
    by (simp add: ub_bufs_def pre)
  define bl' where "bl' = \<lparr>lb_list = ub_buf_list b2 @ [ub_cur_buf b2], lb_offset = length (ub_cur_buf b2)\<rparr>"
  have bl'': "bl' = \<lparr>lb_list = ub_buf_list b2 @ (pre @ replicate 4 0) # [], lb_offset = length pre + 4\<rparr>"
    by (simp add: bl'_def pre)
  have ok: "lb_ok \<lparr>lb_list = ub_buf_list b2 @ [pre @ replicate 4 0], lb_offset = length pre\<rparr> (snd ` set (ub_bt b2))"
    using b2(2) by (simp add: ub_store_def bl)
  have sz: "length pre + 4 < 2 ^ 32" "length (last ((pre @ replicate 4 0) # [])) < 2 ^ 32"
    using s by (simp_all add: layout_defs)
  have "length pre \<le> length pre + 4" by simp
  note ext = bufs_extend [OF ok sz impI [OF this], folded bl bl'']
  have "list_all2 (holds bl') (ub_bt b2) ls2"
    by (rule holds_frame [where bl = "ub_bufs b2"]) (use b2(2) ext(2) in \<open>simp_all add: ub_store_def\<close>)
  then have "unit_rep (u\<lparr>u_bt := ub_bt b2, u_bufs := bl', u_last_size := word_of_nat (ub_size b2), u_change_count := 0\<rparr>) ls2"
    using b2(2) ext(1) by (simp add: unit_rep_def ub_store_def)
  moreover have "unit_compact u = Inr (u\<lparr>u_bt := ub_bt b2, u_bufs := bl', u_last_size := word_of_nat (ub_size b2), u_change_count := 0\<rparr>)"
    by (simp add: unit_compact_def run b2(1) bl'_def)
  ultimately show ?thesis using b2(3,4) b(4)
    by (intro exI [of _ "u\<lparr>u_bt := ub_bt b2, u_bufs := bl', u_last_size := word_of_nat (ub_size b2), u_change_count := 0\<rparr>"]
        exI [of _ ls2]) simp
qed

section \<open>Theorem\<close>

text \<open>C19. Compacting a unit never fails and keeps its sorted list of pairs, re-packed into fresh
  leaves, as long as no key has more than 65504 pairs and the unit fewer than \<open>2 ^ 32\<close>; the
  statistics that trigger the next compaction are reset. (A leaf of 65534 pairs gets a capacity
  of 65536, which its 16-bit field stores as 0.)\<close>

theorem unit_compact_keeps:
  assumes "unit_rep u ls" and "\<forall>k. length (values_of k (flat ls)) \<le> 2 ^ 16 - 32" and "length (flat ls) < 2 ^ 32"
  shows "\<exists>u' ls'. unit_compact u = Inr u' \<and> unit_rep u' ls' \<and> flat ls' = flat ls
    \<and> u_last_size u' = word_of_nat (length (flat ls)) \<and> u_change_count u' = 0"
  using assms by (intro unit_compact_rep) simp_all

theorem unit_compact_keeps_witness:
  "\<exists>u' ls'. unit_compact demo_unit = Inr u' \<and> unit_rep u' ls' \<and> flat ls' = [(5, 7)]
    \<and> u_last_size u' = 1 \<and> u_change_count u' = 0"
  using unit_compact_keeps [OF demo_unit_rep] by (simp add: values_of_def)

end
