(* ===== verification/Indexer.thy ===== *)
theory Indexer
  imports IndexCompact "HOL-Library.Signed_Division"
begin

text \<open>
  \<^verbatim>\<open>InMemIndexerGeneric\<close> of \<^verbatim>\<open>src/qmdb/src/indexer/inmem.rs\<close>: an array of units, chosen by the first
  two bytes of the key, and a counter per shard. The type is generic in the trait \<^verbatim>\<open>UnitTrait\<close>; so
  are the operations here, which take the methods of the trait they call as arguments. The locale
  \<open>unit_trait\<close> is the contract of the trait, interpreted on \<^verbatim>\<open>Unit\<close>. A file position is a multiple
  of 8 and stored divided by 8.
\<close>

section \<open>Model\<close>

record 'u indexer =
  ix_units :: "'u list"
  ix_sizes :: "u64 list"

definition idx_new :: "'u \<Rightarrow> nat \<Rightarrow> 'u indexer" where
  "idx_new new n = \<lparr>ix_units = replicate n new, ix_sizes = replicate SHARD_COUNT 0\<rparr>"

definition idx_len :: "'u indexer \<Rightarrow> nat \<Rightarrow> u64 result" where
  "idx_len ix shard_id = index (ix_sizes ix) shard_id"

text \<open>\<^verbatim>\<open>/\<close> and \<^verbatim>\<open>%\<close> on \<^verbatim>\<open>i64\<close> truncate.\<close>

definition i64_div8 :: "i64 \<Rightarrow> i64" where "i64_div8 v = word_of_int (sint v sdiv 8)"
definition i64_rem8 :: "i64 \<Rightarrow> int" where "i64_rem8 v = sint v smod 8"

definition get_inputs :: "'u indexer \<Rightarrow> bytes \<Rightarrow> i64 \<Rightarrow> (nat \<times> u64 \<times> i64) result" where
  "get_inputs ix k80 v =
     bindE (bindE (slice k80 0 2) read_u16_be) (\<lambda>w.
     let idx = unat w in
     bindE (bindE (slice k80 1 9) read_u64_be) (\<lambda>w.
     let k56 = drop_bit 8 (push_bit 8 w) in
     if i64_rem8 v \<noteq> 0 then Inl (Panic ''value not 8x'')
     else if ix_units ix = [] then Inl (Panic ''remainder with a divisor of zero'')
     else Inr (idx mod length (ix_units ix), k56, i64_div8 v)))"

definition idx_update :: "'u indexer \<Rightarrow> nat \<Rightarrow> ('u \<Rightarrow> 'u result) \<Rightarrow> 'u indexer result" where
  "idx_update ix idx f =
     bindE (index (ix_units ix) idx) (\<lambda>unit. bindE (f unit) (\<lambda>unit.
       Inr (ix\<lparr>ix_units := (ix_units ix)[idx := unit]\<rparr>)))"

definition idx_count :: "'u indexer \<Rightarrow> nat \<Rightarrow> u64 \<Rightarrow> 'u indexer result" where
  "idx_count ix shard_id d =
     bindE (index (ix_sizes ix) shard_id) (\<lambda>n. Inr (ix\<lparr>ix_sizes := (ix_sizes ix)[shard_id := n + d]\<rparr>))"

definition idx_add_kv :: "('u \<Rightarrow> u64 \<Rightarrow> i64 \<Rightarrow> 'u result) \<Rightarrow> 'u indexer \<Rightarrow> bytes \<Rightarrow> i64 \<Rightarrow> 'u indexer result" where
  "idx_add_kv add_kv ix k80 v =
     bindE (get_inputs ix k80 v) (\<lambda>(idx, k56, v).
     bindE (idx_update ix idx (\<lambda>unit. add_kv unit k56 v)) (\<lambda>ix. idx_count ix (idx div SHARD_DIV) 1))"

definition idx_erase_kv :: "('u \<Rightarrow> u64 \<Rightarrow> i64 \<Rightarrow> 'u result) \<Rightarrow> 'u indexer \<Rightarrow> bytes \<Rightarrow> i64 \<Rightarrow> 'u indexer result" where
  "idx_erase_kv erase_kv ix k80 v =
     bindE (get_inputs ix k80 v) (\<lambda>(idx, k56, v).
     bindE (idx_update ix idx (\<lambda>unit. erase_kv unit k56 v)) (\<lambda>ix. idx_count ix (idx div SHARD_DIV) (- 1)))"

definition idx_change_kv ::
  "('u \<Rightarrow> u64 \<Rightarrow> i64 \<Rightarrow> i64 \<Rightarrow> 'u result) \<Rightarrow> 'u indexer \<Rightarrow> bytes \<Rightarrow> i64 \<Rightarrow> i64 \<Rightarrow> 'u indexer result" where
  "idx_change_kv change_kv ix k80 v_old v_new =
     bindE (get_inputs ix k80 v_old) (\<lambda>(idx, k56, v_old).
     if i64_rem8 v_new \<noteq> 0 then Inl (Panic ''value not 8x'')
     else let v_new = i64_div8 v_new in
       idx_update ix idx (\<lambda>unit. change_kv unit k56 v_old v_new))"

definition idx_for_each_value ::
  "('u \<Rightarrow> u64 \<Rightarrow> (i64 \<Rightarrow> 's \<Rightarrow> 's \<times> bool) \<Rightarrow> 's \<Rightarrow> 's result) \<Rightarrow> 'u indexer \<Rightarrow> bytes
     \<Rightarrow> (i64 \<Rightarrow> 's \<Rightarrow> 's \<times> bool) \<Rightarrow> 's \<Rightarrow> 's result" where
  "idx_for_each_value for_each_value ix k80 access s =
     bindE (get_inputs ix k80 0) (\<lambda>(idx, k56, _).
     bindE (index (ix_units ix) idx) (\<lambda>unit. for_each_value unit k56 (\<lambda>v. access (v * 8)) s))"

definition idx_for_each_adjacent_value ::
  "('u \<Rightarrow> bytes \<Rightarrow> u64 \<Rightarrow> (bytes \<Rightarrow> i64 \<Rightarrow> 's \<Rightarrow> 's \<times> bool) \<Rightarrow> 's \<Rightarrow> 's result) \<Rightarrow> 'u indexer \<Rightarrow> bytes
     \<Rightarrow> (bytes \<Rightarrow> i64 \<Rightarrow> 's \<Rightarrow> 's \<times> bool) \<Rightarrow> 's \<Rightarrow> 's result" where
  "idx_for_each_adjacent_value for_each_adjacent_value ix k80 access s =
     bindE (get_inputs ix k80 0) (\<lambda>(idx, k56, _).
     bindE (index (ix_units ix) idx) (\<lambda>unit.
     bindE (slice k80 0 9) (\<lambda>k.
     bindE (write_at (replicate 10 0) 0 k) (\<lambda>buf.
     for_each_adjacent_value unit buf k56 (\<lambda>k v. access k (v * 8)) s))))"

definition idx_for_each ::
  "('u \<Rightarrow> u64 \<Rightarrow> (i64 \<Rightarrow> 's \<Rightarrow> 's \<times> bool) \<Rightarrow> 's \<Rightarrow> 's result)
     \<Rightarrow> ('u \<Rightarrow> bytes \<Rightarrow> u64 \<Rightarrow> (bytes \<Rightarrow> i64 \<Rightarrow> 's \<Rightarrow> 's \<times> bool) \<Rightarrow> 's \<Rightarrow> 's result)
     \<Rightarrow> 'u indexer \<Rightarrow> byte \<Rightarrow> bytes \<Rightarrow> (bytes \<Rightarrow> i64 \<Rightarrow> 's \<Rightarrow> 's \<times> bool) \<Rightarrow> 's \<Rightarrow> 's result" where
  "idx_for_each for_each_value for_each_adjacent_value ix op k80 access s =
     (if op = OP_CREATE \<or> op = OP_DELETE
      then idx_for_each_adjacent_value for_each_adjacent_value ix k80 access s
      else if op = OP_WRITE \<or> op = OP_READ
      then idx_for_each_value for_each_value ix k80 (\<lambda>offset. access k80 offset) s
      else Inr s)"

definition idx_key_exists ::
  "('u \<Rightarrow> u64 \<Rightarrow> (i64 \<Rightarrow> bool \<Rightarrow> bool \<times> bool) \<Rightarrow> bool \<Rightarrow> bool result) \<Rightarrow> 'u indexer \<Rightarrow> bytes \<Rightarrow> i64 \<Rightarrow> bool result" where
  "idx_key_exists for_each_value ix k80 file_pos =
     idx_for_each_value for_each_value ix k80
       (\<lambda>offset exists. (if offset = file_pos then True else exists, False)) False"

text \<open>One round of the compaction thread over the units from \<open>start\<close> to \<open>end'\<close>; the thread
  repeats it and sleeps in between.\<close>

definition idx_compact_round ::
  "('u \<Rightarrow> bool) \<Rightarrow> ('u \<Rightarrow> 'u result) \<Rightarrow> nat \<Rightarrow> nat \<Rightarrow> 'u indexer \<Rightarrow> 'u indexer result" where
  "idx_compact_round compactible compact start end' ix =
     foldE (\<lambda>i ix. bindE (index (ix_units ix) i) (\<lambda>unit.
       if \<not> compactible unit then Inr ix else idx_update ix i compact)) [start..<end'] ix"

section \<open>Keys\<close>

definition key_unit :: "nat \<Rightarrow> bytes \<Rightarrow> nat" where
  "key_unit n k80 = le_dec (rev (take 2 k80)) mod n"

definition key56 :: "bytes \<Rightarrow> u64" where
  "key56 k80 = word_of_nat (le_dec (rev (take 7 (drop 2 k80))))"

lemma get_inputs_ok:
  assumes "9 \<le> length k80" and "ix_units ix \<noteq> []" and "i64_rem8 v = 0"
  shows "get_inputs ix k80 v = Inr (key_unit (length (ix_units ix)) k80, key56 k80, i64_div8 v)"
proof -
  let ?b = "take 8 (drop 1 k80)"
  have "unat (word_of_nat (le_dec (rev (take 2 k80))) :: u16) = le_dec (rev (take 2 k80))"
    using le_dec_bound [of "rev (take 2 k80)"] assms(1) by (simp add: unat_of_nat)
  moreover have "take 7 (rev ?b) = rev (take 7 (drop 2 k80))"
    using assms(1) by (simp add: take_rev drop_take numeral_2_eq_2)
  then have "drop_bit 8 (push_bit 8 (word_of_nat (le_dec (rev ?b)) :: u64)) = key56 k80"
    using le_dec_take7 [of "rev ?b"] assms(1) by (simp add: key56_def)
  ultimately show ?thesis
    using assms by (simp add: get_inputs_def read_u16_be_def read_u64_be_def key_unit_def Let_def)
qed

lemma get_inputs_not_8x:
  "9 \<le> length k80 \<Longrightarrow> i64_rem8 v \<noteq> 0 \<Longrightarrow> get_inputs ix k80 v = Inl (Panic ''value not 8x'')"
  by (simp add: get_inputs_def read_u16_be_def read_u64_be_def)

lemma key56_byte:
  assumes "9 \<le> length k80"
  shows "k80 ! 2 = ucast (drop_bit 48 (key56 k80))"
proof -
  let ?r = "rev (take 6 (drop 3 k80))"
  have "take 7 (drop 2 k80) = k80 ! 2 # take 6 (drop 3 k80)"
    using assms by (simp add: Cons_nth_drop_Suc [symmetric, of 2] take_Cons')
  then have "le_dec (rev (take 7 (drop 2 k80))) = le_dec ?r + 256 ^ 6 * unat (k80 ! 2)"
    using assms by (simp add: le_dec_append)
  moreover have r: "le_dec ?r < 256 ^ 6" using le_dec_bound [of ?r] assms by simp
  ultimately have "le_dec (rev (take 7 (drop 2 k80))) div 2 ^ 48 = unat (k80 ! 2)" by simp
  moreover have "le_dec (rev (take 7 (drop 2 k80))) < 2 ^ 64"
    using le_dec_bound [of "rev (take 7 (drop 2 k80))"] assms by simp
  ultimately have n: "le_dec (rev (take 7 (drop 2 k80))) div 2 ^ 48 = unat (k80 ! 2)"
    "le_dec (rev (take 7 (drop 2 k80))) < 2 ^ 64" by simp_all
  have "unat (drop_bit 48 (key56 k80)) = unat (k80 ! 2)"
    unfolding key56_def unat_drop_bit_eq drop_bit_eq_div using n by (simp add: unat_of_nat unat_div)
  then show ?thesis by (metis of_nat_unat ucast_id)
qed

section \<open>Contract of a unit\<close>

text \<open>The units stand for the lists \<open>vs\<close> of pairs.\<close>

definition indexer_rep :: "('u \<Rightarrow> (u64 \<times> i64) list \<Rightarrow> bool) \<Rightarrow> 'u indexer \<Rightarrow> (u64 \<times> i64) list list \<Rightarrow> bool" where
  "indexer_rep rep ix vs \<longleftrightarrow> list_all2 rep (ix_units ix) vs \<and> length (ix_sizes ix) = SHARD_COUNT"

lemma idx_update_ok:
  assumes "indexer_rep rep ix vs" and "i < length (ix_units ix)" and "f (ix_units ix ! i) = Inr u'" and "rep u' ps"
  shows "\<exists>ix'. idx_update ix i f = Inr ix' \<and> indexer_rep rep ix' (vs[i := ps]) \<and> ix_sizes ix' = ix_sizes ix
    \<and> (\<forall>s. indexer_rep rep (ix'\<lparr>ix_sizes := s\<rparr>) (vs[i := ps]) \<longleftrightarrow> length s = SHARD_COUNT)"
  using assms by (auto simp: idx_update_def indexer_rep_def intro!: list_all2_update_cong)

lemma key_shard:
  assumes "indexer_rep rep ix vs" and "i < length (ix_units ix)" and "length (ix_units ix) \<le> 2 ^ 16"
  shows "i div SHARD_DIV < length (ix_sizes ix)" and "length (ix_sizes ix) = SHARD_COUNT"
  using assms by (simp_all add: indexer_rep_def layout_defs div_less_iff_less_mult)

locale unit_trait =
  fixes new :: 'u
    and add erase :: "'u \<Rightarrow> u64 \<Rightarrow> i64 \<Rightarrow> 'u result"
    and change :: "'u \<Rightarrow> u64 \<Rightarrow> i64 \<Rightarrow> i64 \<Rightarrow> 'u result"
    and each :: "'u \<Rightarrow> u64 \<Rightarrow> (i64 \<Rightarrow> 's \<Rightarrow> 's \<times> bool) \<Rightarrow> 's \<Rightarrow> 's result"
    and each_adjacent :: "'u \<Rightarrow> bytes \<Rightarrow> u64 \<Rightarrow> (bytes \<Rightarrow> i64 \<Rightarrow> 's \<Rightarrow> 's \<times> bool) \<Rightarrow> 's \<Rightarrow> 's result"
    and rep fit :: "'u \<Rightarrow> (u64 \<times> i64) list \<Rightarrow> bool"
  assumes new_law: "rep new []"
    and add_law: "\<lbrakk>fit u ps; unat v < 2 ^ 48\<rbrakk> \<Longrightarrow> \<exists>u'. add u k v = Inr u' \<and> rep u' (ins_kv (k, v) ps)"
    and erase_law: "\<lbrakk>rep u ps; (k, v) \<in> set ps\<rbrakk> \<Longrightarrow> \<exists>u'. erase u k v = Inr u' \<and> rep u' (remove1 (k, v) ps)"
    and change_law: "\<lbrakk>rep u ps; (k, v) \<in> set ps; unat w < 2 ^ 48\<rbrakk> \<Longrightarrow>
      \<exists>u'. change u k v w = Inr u' \<and> rep u' (change1 (k, v) w ps)"
    and each_law: "rep u ps \<Longrightarrow> each u k f s = Inr (visit f (values_of k ps) s)"
    and each_adjacent_law: "\<lbrakk>rep u ps; length k80 = 10; k80 ! 2 = ucast (drop_bit 48 k)\<rbrakk> \<Longrightarrow>
      each_adjacent u k80 k g s = Inr (visit_adjacent g k80 k ps s)"
    and fit_rep: "fit u ps \<Longrightarrow> rep u ps"
begin

lemma idx_add_law:
  assumes ir: "indexer_rep rep ix vs" and k: "9 \<le> length k80" and n: "ix_units ix \<noteq> []" "length (ix_units ix) \<le> 2 ^ 16"
    and v: "i64_rem8 v = 0" "unat (i64_div8 v) < 2 ^ 48"
  defines "i \<equiv> key_unit (length (ix_units ix)) k80"
  assumes fit: "fit (ix_units ix ! i) (vs ! i)"
  shows "\<exists>ix'. idx_add_kv add ix k80 v = Inr ix' \<and> indexer_rep rep ix' (vs[i := ins_kv (key56 k80, i64_div8 v) (vs ! i)])
    \<and> ix_sizes ix' = (ix_sizes ix)[i div SHARD_DIV := ix_sizes ix ! (i div SHARD_DIV) + 1]"
proof -
  obtain u' where u': "add (ix_units ix ! i) (key56 k80) (i64_div8 v) = Inr u'"
      "rep u' (ins_kv (key56 k80, i64_div8 v) (vs ! i))"
    using add_law [OF fit v(2)] by blast
  have i: "i < length (ix_units ix)" using n(1) by (simp add: i_def key_unit_def)
  show ?thesis
    using idx_update_ok [where f = "\<lambda>u. add u (key56 k80) (i64_div8 v)", OF ir i u']
      key_shard [OF ir i n(2)] get_inputs_ok [OF k n(1) v(1)]
    by (auto simp: idx_add_kv_def idx_count_def i_def)
qed

lemma idx_erase_law:
  assumes ir: "indexer_rep rep ix vs" and k: "9 \<le> length k80" and n: "ix_units ix \<noteq> []" "length (ix_units ix) \<le> 2 ^ 16"
    and v: "i64_rem8 v = 0"
  defines "i \<equiv> key_unit (length (ix_units ix)) k80"
  assumes mem: "(key56 k80, i64_div8 v) \<in> set (vs ! i)"
  shows "\<exists>ix'. idx_erase_kv erase ix k80 v = Inr ix' \<and> indexer_rep rep ix' (vs[i := remove1 (key56 k80, i64_div8 v) (vs ! i)])
    \<and> ix_sizes ix' = (ix_sizes ix)[i div SHARD_DIV := ix_sizes ix ! (i div SHARD_DIV) - 1]"
proof -
  have i: "i < length (ix_units ix)" using n(1) by (simp add: i_def key_unit_def)
  have "rep (ix_units ix ! i) (vs ! i)" using ir i by (auto simp: indexer_rep_def list_all2_conv_all_nth)
  then obtain u' where u': "erase (ix_units ix ! i) (key56 k80) (i64_div8 v) = Inr u'"
      "rep u' (remove1 (key56 k80, i64_div8 v) (vs ! i))"
    using erase_law mem by blast
  show ?thesis
    using idx_update_ok [where f = "\<lambda>u. erase u (key56 k80) (i64_div8 v)", OF ir i u']
      key_shard [OF ir i n(2)] get_inputs_ok [OF k n(1) v]
    by (auto simp: idx_erase_kv_def idx_count_def i_def)
qed

lemma idx_change_law:
  assumes ir: "indexer_rep rep ix vs" and k: "9 \<le> length k80" and n: "ix_units ix \<noteq> []"
    and v: "i64_rem8 v = 0" "i64_rem8 w = 0" "unat (i64_div8 w) < 2 ^ 48"
  defines "i \<equiv> key_unit (length (ix_units ix)) k80"
  assumes mem: "(key56 k80, i64_div8 v) \<in> set (vs ! i)"
  shows "\<exists>ix'. idx_change_kv change ix k80 v w = Inr ix'
    \<and> indexer_rep rep ix' (vs[i := change1 (key56 k80, i64_div8 v) (i64_div8 w) (vs ! i)])
    \<and> ix_sizes ix' = ix_sizes ix"
proof -
  have i: "i < length (ix_units ix)" using n by (simp add: i_def key_unit_def)
  have "rep (ix_units ix ! i) (vs ! i)" using ir i by (auto simp: indexer_rep_def list_all2_conv_all_nth)
  then obtain u' where u': "change (ix_units ix ! i) (key56 k80) (i64_div8 v) (i64_div8 w) = Inr u'"
      "rep u' (change1 (key56 k80, i64_div8 v) (i64_div8 w) (vs ! i))"
    using change_law mem v(3) by blast
  show ?thesis
    using idx_update_ok [where f = "\<lambda>u. change u (key56 k80) (i64_div8 v) (i64_div8 w)", OF ir i u']
      get_inputs_ok [OF k n v(1)] v(2)
    by (auto simp: idx_change_kv_def i_def)
qed

lemma idx_each_law:
  assumes ir: "indexer_rep rep ix vs" and k: "9 \<le> length k80" and n: "ix_units ix \<noteq> []"
  shows "idx_for_each_value each ix k80 f s
    = Inr (visit (\<lambda>v. f (v * 8)) (values_of (key56 k80) (vs ! key_unit (length (ix_units ix)) k80)) s)"
proof -
  let ?i = "key_unit (length (ix_units ix)) k80"
  have i: "?i < length (ix_units ix)" using n by (simp add: key_unit_def)
  have "rep (ix_units ix ! ?i) (vs ! ?i)" using ir i by (auto simp: indexer_rep_def list_all2_conv_all_nth)
  moreover have "i64_rem8 0 = 0" by (simp add: i64_rem8_def)
  ultimately show ?thesis using i by (simp add: idx_for_each_value_def get_inputs_ok [OF k n] each_law)
qed

lemma idx_each_adjacent_law:
  assumes ir: "indexer_rep rep ix vs" and k: "9 \<le> length k80" and n: "ix_units ix \<noteq> []"
  shows "idx_for_each_adjacent_value each_adjacent ix k80 f s
    = Inr (visit_adjacent (\<lambda>k v. f k (v * 8)) (take 9 k80 @ [0]) (key56 k80) (vs ! key_unit (length (ix_units ix)) k80) s)"
proof -
  let ?i = "key_unit (length (ix_units ix)) k80"
  have i: "?i < length (ix_units ix)" using n by (simp add: key_unit_def)
  have r: "rep (ix_units ix ! ?i) (vs ! ?i)" using ir i by (auto simp: indexer_rep_def list_all2_conv_all_nth)
  have z: "i64_rem8 0 = 0" by (simp add: i64_rem8_def)
  have w: "write_at (replicate 10 0) 0 (take 9 k80) = Inr (take 9 k80 @ [0])"
    using k by (simp add: write_at_def splice_def)
  have "(take 9 k80 @ [0]) ! 2 = ucast (drop_bit 48 (key56 k80))"
    using key56_byte [OF k] k by (simp add: nth_append)
  then show ?thesis using i k
    by (simp add: idx_for_each_adjacent_value_def get_inputs_ok [OF k n z] w each_adjacent_law [OF r])
qed

end

section \<open>The in-memory indexer\<close>

definition unit_pairs :: "index_unit \<Rightarrow> (u64 \<times> i64) list \<Rightarrow> bool" where
  "unit_pairs u ps \<longleftrightarrow> (\<exists>ls. unit_rep u ls \<and> flat ls = ps)"

definition unit_fits :: "index_unit \<Rightarrow> (u64 \<times> i64) list \<Rightarrow> bool" where
  "unit_fits u ps \<longleftrightarrow> (\<exists>ls. unit_rep u ls \<and> flat ls = ps \<and> leaves_fit ls) \<and> lb_room (u_bufs u)"

interpretation iu: unit_trait unit_new unit_add_kv unit_erase_kv unit_change_kv unit_for_each_value
  unit_for_each_adjacent_value unit_pairs unit_fits
proof unfold_locales
  show "unit_pairs unit_new []" using unit_new_rep by (auto simp: unit_pairs_def)
next
  fix u ps v k
  assume "unit_fits u ps" "unat (v :: i64) < 2 ^ 48"
  then obtain ls where "unit_rep u ls" "flat ls = ps" "leaves_fit ls" "lb_room (u_bufs u)" by (auto simp: unit_fits_def)
  then show "\<exists>u'. unit_add_kv u k v = Inr u' \<and> unit_pairs u' (ins_kv (k, v) ps)"
    using unit_add_rep [of u ls v k] \<open>unat v < 2 ^ 48\<close> by (auto simp: unit_pairs_def)
next
  fix u ps k v
  assume "unit_pairs u ps" "(k, v) \<in> set ps"
  then obtain ls where "unit_rep u ls" "flat ls = ps" by (auto simp: unit_pairs_def)
  then show "\<exists>u'. unit_erase_kv u k v = Inr u' \<and> unit_pairs u' (remove1 (k, v) ps)"
    using unit_erase_rep(1) [of u ls k v] \<open>(k, v) \<in> set ps\<close> by (auto simp: unit_pairs_def)
next
  fix u ps k v w
  assume "unit_pairs u ps" "(k, v) \<in> set ps" "unat (w :: i64) < 2 ^ 48"
  then obtain ls where "unit_rep u ls" "flat ls = ps" by (auto simp: unit_pairs_def)
  then show "\<exists>u'. unit_change_kv u k v w = Inr u' \<and> unit_pairs u' (change1 (k, v) w ps)"
    using unit_change_rep(1) [of u ls k v w] \<open>(k, v) \<in> set ps\<close> \<open>unat w < 2 ^ 48\<close> by (auto simp: unit_pairs_def)
next
  fix u ps k s and f :: "i64 \<Rightarrow> 's \<Rightarrow> 's \<times> bool"
  assume "unit_pairs u ps"
  then show "unit_for_each_value u k f s = Inr (visit f (values_of k ps) s)"
    using find_leaf_visit by (auto simp: unit_pairs_def)
next
  fix u ps s and k :: u64 and k80 :: bytes and g :: "bytes \<Rightarrow> i64 \<Rightarrow> 's \<Rightarrow> 's \<times> bool"
  assume "unit_pairs u ps" "length k80 = 10" "k80 ! 2 = ucast (drop_bit 48 k)"
  then show "unit_for_each_adjacent_value u k80 k g s = Inr (visit_adjacent g k80 k ps s)"
    using for_each_adjacent_rep by (auto simp: unit_pairs_def)
next
  fix u ps
  assume "unit_fits u ps"
  then show "unit_pairs u ps" by (auto simp: unit_fits_def unit_pairs_def)
qed

text \<open>Stored positions come back: the stored value times 8 is the position.\<close>

lemma i64_div8_times:
  assumes "i64_rem8 v = 0"
  shows "i64_div8 v * 8 = v"
proof -
  have "sint v sdiv 8 * 8 = sint v" using sdiv_mult_smod_eq [of "sint v" 8] assms by (simp add: i64_rem8_def)
  then have "word_of_int (sint v sdiv 8 * 8) = v" by simp
  then show ?thesis by (simp add: i64_div8_def)
qed

lemma visit_any:
  "visit (\<lambda>v e. (if v * 8 = x then True else e, False)) vs b = (b \<or> (\<exists>v\<in>set vs. v * 8 = (x :: i64)))"
  by (induction vs arbitrary: b) auto

lemma values_of_ins [simp]: "values_of k (ins_kv (k, v) ps) = v # values_of k ps" if "sorted (map fst ps)"
  using that
proof (induction ps)
  case (Cons q ps)
  have "values_of k ps = []" if "k < fst q" for k
    using Cons.prems that by (intro values_of_none) auto
  then show ?case using Cons by (auto simp: values_of_def)
qed (simp add: values_of_def)

lemma values_of_ins_other: "k' \<noteq> k \<Longrightarrow> values_of k' (ins_kv (k, v) ps) = values_of k' ps"
  by (induction ps) (auto simp: values_of_def)

lemma unit_pairs_sorted: "unit_pairs u ps \<Longrightarrow> sorted (map fst ps)"
  using flat_sorted by (auto simp: unit_pairs_def unit_rep_def)

lemma key_exists_eq:
  assumes "indexer_rep unit_pairs ix vs" and "9 \<le> length k80" and "ix_units ix \<noteq> []"
  shows "idx_key_exists unit_for_each_value ix k80 x
    = Inr (\<exists>v\<in>set (values_of (key56 k80) (vs ! key_unit (length (ix_units ix)) k80)). v * 8 = x)"
  using iu.idx_each_law [OF assms, of "\<lambda>offset e. (if offset = x then True else e, False)" False]
  unfolding idx_key_exists_def visit_any by simp

text \<open>An indexer with two units, one of them holding the pair (5, 7).\<close>

definition demo_indexer :: "index_unit indexer" where
  "demo_indexer = \<lparr>ix_units = [unit_new, demo_unit], ix_sizes = replicate SHARD_COUNT 0\<rparr>"

lemma demo_indexer_rep: "indexer_rep unit_pairs demo_indexer [[], [(5, 7)]]"
proof -
  have "unit_pairs demo_unit [(5, 7)]" using demo_unit_rep by (auto simp: unit_pairs_def intro!: exI [of _ "[(0, [(5, 7)])]"])
  then show ?thesis using iu.new_law by (simp add: indexer_rep_def demo_indexer_def)
qed

lemma demo_fits: "unit_fits demo_unit [(5, 7)]"
  using demo_unit_rep
  by (auto simp: unit_fits_def lb_room_def demo_unit_def leaves_fit_def intro!: exI [of _ "[(0, [(5, 7)])]"])

abbreviation demo_key :: bytes where "demo_key \<equiv> [0, 1, 0, 0, 0, 0, 0, 0, 5]"

lemma demo_key_unit: "key_unit (length (ix_units demo_indexer)) demo_key = 1" "key56 demo_key = 5"
proof -
  have "length (ix_units demo_indexer) = 2" by (simp add: demo_indexer_def)
  moreover have "key_unit 2 demo_key = 1" by code_simp
  ultimately show "key_unit (length (ix_units demo_indexer)) demo_key = 1" by simp
  show "key56 demo_key = 5" by code_simp
qed

section \<open>Theorems\<close>

text \<open>C17. Adding a position under a key to the indexer succeeds, makes exactly this position visible
  under the key, leaves what every other key finds as it was, and counts one more entry for the
  key's shard.\<close>

theorem idx_add_found:
  assumes "indexer_rep unit_pairs ix vs" and "9 \<le> length k80" and "ix_units ix \<noteq> []" and "length (ix_units ix) \<le> 2 ^ 16"
    and "i64_rem8 v = 0" and "unat (i64_div8 v) < 2 ^ 48"
    and "unit_fits (ix_units ix ! key_unit (length (ix_units ix)) k80) (vs ! key_unit (length (ix_units ix)) k80)"
  shows "\<exists>ix'. idx_add_kv unit_add_kv ix k80 v = Inr ix'
    \<and> idx_key_exists unit_for_each_value ix' k80 v = Inr True
    \<and> (\<forall>k w. 9 \<le> length k \<longrightarrow>
        (key_unit (length (ix_units ix)) k, key56 k) \<noteq> (key_unit (length (ix_units ix)) k80, key56 k80) \<longrightarrow>
        idx_key_exists unit_for_each_value ix' k w = idx_key_exists unit_for_each_value ix k w)
    \<and> ix_sizes ix' = (let s = key_unit (length (ix_units ix)) k80 div SHARD_DIV in (ix_sizes ix)[s := ix_sizes ix ! s + 1])"
proof -
  let ?n = "length (ix_units ix)"
  let ?i = "key_unit ?n k80"
  let ?vs = "vs[?i := ins_kv (key56 k80, i64_div8 v) (vs ! ?i)]"
  obtain ix' where ix': "idx_add_kv unit_add_kv ix k80 v = Inr ix'" "indexer_rep unit_pairs ix' ?vs"
      "ix_sizes ix' = (ix_sizes ix)[?i div SHARD_DIV := ix_sizes ix ! (?i div SHARD_DIV) + 1]"
    using iu.idx_add_law [OF assms] by blast
  have len: "length (ix_units ix) = length vs" "length (ix_units ix') = ?n"
    using assms(1) ix'(2) by (auto simp: indexer_rep_def dest!: list_all2_lengthD)
  have n': "ix_units ix' \<noteq> []" using len(2) assms(3) by auto
  have i: "?i < length vs" using assms(3) len(1) by (cases vs) (auto simp: key_unit_def)
  have "unit_pairs (ix_units ix ! ?i) (vs ! ?i)" by (rule iu.fit_rep) (rule assms(7))
  then have srt: "sorted (map fst (vs ! ?i))" by (rule unit_pairs_sorted)
  have "idx_key_exists unit_for_each_value ix' k80 v = Inr True"
    using key_exists_eq [OF ix'(2) assms(2) n'] i srt i64_div8_times [OF assms(5)] by (simp add: len(2))
  moreover have "idx_key_exists unit_for_each_value ix' k w = idx_key_exists unit_for_each_value ix k w"
    if "9 \<le> length k" "(key_unit ?n k, key56 k) \<noteq> (?i, key56 k80)" for k w
    using key_exists_eq [OF ix'(2) that(1) n', of w] key_exists_eq [OF assms(1) that(1) assms(3), of w] that(2) i
    by (cases "key_unit ?n k = ?i") (simp_all add: len(2) values_of_ins_other)
  ultimately show ?thesis using ix' by (intro exI [of _ ix']) (simp add: Let_def)
qed

theorem idx_add_found_witness:
  "\<exists>ix'. idx_add_kv unit_add_kv demo_indexer demo_key 72 = Inr ix'
    \<and> idx_key_exists unit_for_each_value ix' demo_key 72 = Inr True"
proof -
  have v: "i64_rem8 72 = 0" "unat (i64_div8 72) < 2 ^ 48" by (simp_all add: i64_rem8_def i64_div8_def)
  have "unit_fits (ix_units demo_indexer ! 1) ([[], [(5, 7)]] ! 1)" using demo_fits by (simp add: demo_indexer_def)
  then show ?thesis
    using idx_add_found [OF demo_indexer_rep _ _ _ v, of demo_key] unfolding demo_key_unit
    by (auto simp: demo_indexer_def)
qed

text \<open>Erasing a position that is stored under a key removes one occurrence of it from the pairs of
  the key's unit, touches no other unit, and counts one entry less for the shard.\<close>

theorem idx_erase_kv_refines:
  assumes "indexer_rep unit_pairs ix vs" and "9 \<le> length k80" and "ix_units ix \<noteq> []" and "length (ix_units ix) \<le> 2 ^ 16"
    and "i64_rem8 v = 0" and "(key56 k80, i64_div8 v) \<in> set (vs ! key_unit (length (ix_units ix)) k80)"
  shows "\<exists>ix'. idx_erase_kv unit_erase_kv ix k80 v = Inr ix'
    \<and> indexer_rep unit_pairs ix' (let i = key_unit (length (ix_units ix)) k80 in vs[i := remove1 (key56 k80, i64_div8 v) (vs ! i)])
    \<and> ix_sizes ix' = (let s = key_unit (length (ix_units ix)) k80 div SHARD_DIV in (ix_sizes ix)[s := ix_sizes ix ! s - 1])"
  using iu.idx_erase_law [OF assms] by (simp add: Let_def)

theorem idx_erase_kv_refines_witness:
  "\<exists>ix'. idx_erase_kv unit_erase_kv demo_indexer demo_key 56 = Inr ix' \<and> indexer_rep unit_pairs ix' [[], []]"
proof -
  have v: "i64_rem8 56 = 0" "i64_div8 56 = 7" by (simp_all add: i64_rem8_def i64_div8_def)
  show ?thesis
    using idx_erase_kv_refines [OF demo_indexer_rep _ _ _ v(1), of demo_key] unfolding demo_key_unit v(2)
    by (auto simp: demo_indexer_def)
qed

text \<open>What an operation sees of the index: reads and writes visit the positions stored under their
  key; creations and deletions visit these and then the positions of the next smaller key of the
  unit; other operations visit nothing.\<close>

theorem idx_for_each_visits:
  assumes "indexer_rep unit_pairs ix vs" and "9 \<le> length k80" and "ix_units ix \<noteq> []"
  shows "idx_for_each unit_for_each_value unit_for_each_adjacent_value ix op k80 access s = Inr
    (let ps = vs ! key_unit (length (ix_units ix)) k80 in
     if op \<in> {OP_CREATE, OP_DELETE}
     then visit_adjacent (\<lambda>k v. access k (v * 8)) (take 9 k80 @ [0]) (key56 k80) ps s
     else if op \<in> {OP_WRITE, OP_READ} then visit (\<lambda>v. access k80 (v * 8)) (values_of (key56 k80) ps) s
     else s)"
  by (simp add: idx_for_each_def Let_def iu.idx_each_law [OF assms] iu.idx_each_adjacent_law [OF assms])

theorem idx_for_each_visits_witness:
  "idx_for_each unit_for_each_value unit_for_each_adjacent_value demo_indexer OP_WRITE demo_key
     (\<lambda>k v s. (v # s, False)) [] = Inr [56]"
  using idx_for_each_visits [OF demo_indexer_rep, of demo_key OP_WRITE "\<lambda>k v s. (v # s, False)" "[]"]
  unfolding demo_key_unit by (simp add: demo_indexer_def layout_defs values_of_def)

end
