(* ===== verification/Changes.thy ===== *)
theory Changes
  imports EntryVec "HOL-Library.Product_Lexorder" "HOL-Library.List_Lexorder"
begin

text \<open>
  \<^verbatim>\<open>utils/changeset.rs\<close>: the operations of a task, recorded as offsets into one byte
  vector, sorted by shard, key hash and operation, and handed out per shard.  The offsets are
  32-bit, the length of an old value is 16-bit; both are kept at their width.  The theory shows
  that what a shard is handed is what was added for it, in the order of the hashes.
\<close>

section \<open>Data\<close>

record OpRecord =
  or_op_type :: byte
  or_num_active :: nat
  or_oldest_active_sn :: u64
  or_shard_id :: nat
  or_next_sn :: u64
  or_key :: bytes
  or_value :: bytes
  or_rd_list :: "bytes list"
  or_wr_list :: "bytes list"
  or_dig_list :: "bytes list"
  or_put_list :: "bytes list"

definition op_record_new :: "byte \<Rightarrow> OpRecord" where
  "op_record_new t =
     \<lparr> or_op_type = t, or_num_active = 0, or_oldest_active_sn = 0, or_shard_id = 0, or_next_sn = 0,
       or_key = [], or_value = [], or_rd_list = [], or_wr_list = [], or_dig_list = [], or_put_list = [] \<rparr>"

record ChangeOp =
  co_op_type :: byte
  co_shard_id :: byte
  co_old_value_len :: u16
  co_key_start :: u32
  co_value_start :: u32
  co_key_hash_start :: u32
  co_rec :: "OpRecord option"

record ChangeSet =
  cs_data :: bytes
  cs_op_list :: "ChangeOp list"
  cs_shard_starts :: "u32 list"
  cs_shard_op_count :: "u32 list"

definition cs_new :: ChangeSet where
  "cs_new = \<lparr> cs_data = [], cs_op_list = [], cs_shard_starts = replicate SHARD_COUNT (- 1),
     cs_shard_op_count = replicate SHARD_COUNT 0 \<rparr>"

section \<open>Recording\<close>

definition cs_add_op_with_old_value ::
  "byte \<Rightarrow> byte \<Rightarrow> hash32 \<Rightarrow> bytes \<Rightarrow> bytes \<Rightarrow> bytes \<Rightarrow> OpRecord option \<Rightarrow> ChangeSet \<Rightarrow> ChangeSet" where
  "cs_add_op_with_old_value t s kh k v old_v r cs =
     (let key_start = length (cs_data cs);
          d1 = cs_data cs @ k;
          value_start = length d1;
          d2 = d1 @ v @ old_v;
          key_hash_start = length d2
      in cs \<lparr> cs_data := d2 @ kh,
              cs_op_list := cs_op_list cs @
                [\<lparr> co_op_type = t, co_shard_id = s, co_old_value_len = of_nat (length old_v),
                   co_key_start = of_nat key_start, co_value_start = of_nat value_start,
                   co_key_hash_start = of_nat key_hash_start, co_rec = r \<rparr>] \<rparr>)"

definition cs_add_op ::
  "byte \<Rightarrow> byte \<Rightarrow> hash32 \<Rightarrow> bytes \<Rightarrow> bytes \<Rightarrow> OpRecord option \<Rightarrow> ChangeSet \<Rightarrow> ChangeSet" where
  "cs_add_op t s kh k v r cs =
     (let key_start = length (cs_data cs);
          d1 = cs_data cs @ k;
          value_start = length d1;
          d2 = d1 @ v;
          key_hash_start = length d2
      in cs \<lparr> cs_data := d2 @ kh,
              cs_op_list := cs_op_list cs @
                [\<lparr> co_op_type = t, co_shard_id = s, co_old_value_len = 0,
                   co_key_start = of_nat key_start, co_value_start = of_nat value_start,
                   co_key_hash_start = of_nat key_hash_start, co_rec = r \<rparr>] \<rparr>)"

definition cs_add_op_rec :: "(bytes \<Rightarrow> hash32) \<Rightarrow> OpRecord \<Rightarrow> ChangeSet \<Rightarrow> ChangeSet result" where
  "cs_add_op_rec H r cs =
     (let kh = H (or_key r) in
      bindE (index kh 0) (\<lambda>b0.
      let s = of_nat (byte0_to_shard_id b0) :: byte in
      if s \<noteq> of_nat (or_shard_id r) then Inl (Panic ''mismatch'')
      else
        (let key_start = length (cs_data cs);
             d1 = cs_data cs @ or_key r;
             value_start = length d1;
             d2 = d1 @ or_value r;
             key_hash_start = length d2
         in Inr (cs \<lparr> cs_data := d2 @ kh,
              cs_op_list := cs_op_list cs @
                [\<lparr> co_op_type = or_op_type r, co_shard_id = s, co_old_value_len = 0,
                   co_key_start = of_nat key_start, co_value_start = of_nat value_start,
                   co_key_hash_start = of_nat key_hash_start, co_rec = Some r \<rparr>] \<rparr>))))"

section \<open>Sorting\<close>

text \<open>
  The comparison of \<^verbatim>\<open>sort_by\<close> is the lexicographic order of shard, hash bytes and operation,
  and the sort is stable.  The hash of an operation is only read when it is compared with another
  operation of its shard, and a range outside the data then panics; a sort compares every two
  operations that end up next to each other, so each operation that is not the only one of its
  shard is read.  The loop behind the sort counts the operations of each shard and notes the first.
\<close>

definition co_hash :: "bytes \<Rightarrow> ChangeOp \<Rightarrow> bytes" where
  "co_hash d op = take 32 (drop (unat (co_key_hash_start op)) d)"

definition co_sort_key :: "bytes \<Rightarrow> ChangeOp \<Rightarrow> byte \<times> bytes \<times> byte" where
  "co_sort_key d op = (co_shard_id op, co_hash d op, co_op_type op)"

fun cs_mark :: "nat \<Rightarrow> ChangeOp list \<Rightarrow> u32 list \<times> u32 list \<Rightarrow> (u32 list \<times> u32 list) result" where
  "cs_mark idx [] (starts, counts) = Inr (starts, counts)"
| "cs_mark idx (op # ops) (starts, counts) =
     (let s = unat (co_shard_id op) in
      bindE (index counts s) (\<lambda>n.
      bindE (index starts s) (\<lambda>b.
      cs_mark (Suc idx) ops
        (if b = - 1 then starts[s := of_nat idx] else starts, counts[s := n + 1]))))"

definition cs_sort :: "ChangeSet \<Rightarrow> ChangeSet result" where
  "cs_sort cs =
     bindE (guardE (list_all (\<lambda>op. length (filter (\<lambda>b. co_shard_id b = co_shard_id op) (cs_op_list cs)) \<le> 1
                             \<or> unat (co_key_hash_start op) + 32 \<le> length (cs_data cs)) (cs_op_list cs))
             (Panic ''slice index out of range'')) (\<lambda>_.
     let ops = sort_key (co_sort_key (cs_data cs)) (cs_op_list cs) in
     bindE (cs_mark 0 ops (cs_shard_starts cs, cs_shard_op_count cs)) (\<lambda>(starts, counts).
     Inr (cs \<lparr> cs_op_list := ops, cs_shard_starts := starts, cs_shard_op_count := counts \<rparr>)))"

section \<open>Handing out\<close>

type_synonym 's access = "byte \<Rightarrow> hash32 \<Rightarrow> bytes \<Rightarrow> bytes \<Rightarrow> OpRecord option \<Rightarrow> 's \<Rightarrow> 's result"

text \<open>The ranges of one operation: hash, key, new value and old value.  The start of the old value
  is computed by a subtraction that wraps, which the range check catches.\<close>

definition co_parts :: "bytes \<Rightarrow> ChangeOp \<Rightarrow> (hash32 \<times> bytes \<times> bytes \<times> nat) result" where
  "co_parts d op =
     (let kh_start = unat (co_key_hash_start op) in
      bindE (slice d kh_start (kh_start + 32)) (\<lambda>kh.
      bindE (slice d (unat (co_key_start op)) (unat (co_value_start op))) (\<lambda>k.
      bindE (guardE (unat (co_old_value_len op) \<le> kh_start) (Panic ''slice index out of range'')) (\<lambda>_.
      let old_start = kh_start - unat (co_old_value_len op) in
      bindE (slice d (unat (co_value_start op)) old_start) (\<lambda>v.
      Inr (kh, k, v, old_start))))))"

definition cs_apply_op_in_range ::
  "ChangeSet \<Rightarrow> (byte \<Rightarrow> hash32 \<Rightarrow> bytes \<Rightarrow> bytes \<Rightarrow> bytes \<Rightarrow> OpRecord option \<Rightarrow> 's \<Rightarrow> 's result) \<Rightarrow> 's \<Rightarrow> 's result" where
  "cs_apply_op_in_range cs access =
     foldE (\<lambda>op st.
       bindE (co_parts (cs_data cs) op) (\<lambda>(kh, k, v, old_start).
       bindE (slice (cs_data cs) old_start (old_start + unat (co_old_value_len op))) (\<lambda>old_v.
       access (co_op_type op) kh k v old_v (co_rec op) st))) (cs_op_list cs)"

definition cs_op_count_in_shard :: "ChangeSet \<Rightarrow> nat \<Rightarrow> nat result" where
  "cs_op_count_in_shard cs s = bindE (index (cs_shard_op_count cs) s) (\<lambda>n. Inr (unat n))"

definition cs_run_all :: "ChangeSet \<Rightarrow> 's access \<Rightarrow> 's \<Rightarrow> 's result" where
  "cs_run_all cs access =
     foldE (\<lambda>op st.
       bindE (co_parts (cs_data cs) op) (\<lambda>(kh, k, v, old_start).
       access (co_op_type op) kh k v (co_rec op) st)) (cs_op_list cs)"

fun run_from :: "bytes \<Rightarrow> nat \<Rightarrow> 's access \<Rightarrow> ChangeOp list \<Rightarrow> 's \<Rightarrow> 's result" where
  "run_from d s access [] st = Inr st"
| "run_from d s access (op # ops) st =
     (if s \<noteq> unat (co_shard_id op) then Inr st
      else bindE (bindE (co_parts d op) (\<lambda>(kh, k, v, old_start).
                    access (co_op_type op) kh k v (co_rec op) st))
             (run_from d s access ops))"

definition cs_run_in_shard :: "ChangeSet \<Rightarrow> nat \<Rightarrow> 's access \<Rightarrow> 's \<Rightarrow> 's result" where
  "cs_run_in_shard cs s access st =
     bindE (index (cs_shard_starts cs) s) (\<lambda>shard_start.
     if shard_start = - 1 then Inr st
     else run_from (cs_data cs) s access (drop (unat shard_start) (cs_op_list cs)) st)"

section \<open>What a change set holds\<close>

record op_req =
  rq_type :: byte
  rq_shard :: byte
  rq_hash :: hash32
  rq_key :: bytes
  rq_value :: bytes
  rq_old :: bytes
  rq_rec :: "OpRecord option"

definition add_req :: "op_req \<Rightarrow> ChangeSet \<Rightarrow> ChangeSet" where
  "add_req q = cs_add_op_with_old_value (rq_type q) (rq_shard q) (rq_hash q) (rq_key q) (rq_value q) (rq_old q) (rq_rec q)"

definition req_ok :: "op_req \<Rightarrow> bool" where
  "req_ok q \<longleftrightarrow> length (rq_hash q) = 32 \<and> length (rq_old q) < 2 ^ 16 \<and> unat (rq_shard q) < SHARD_COUNT"

definition req_bytes :: "op_req \<Rightarrow> bytes" where
  "req_bytes q = rq_key q @ rq_value q @ rq_old q @ rq_hash q"

definition op_denotes :: "bytes \<Rightarrow> ChangeOp \<Rightarrow> op_req \<Rightarrow> bool" where
  "op_denotes d op q \<longleftrightarrow>
     co_op_type op = rq_type q \<and> co_shard_id op = rq_shard q \<and> co_rec op = rq_rec q
     \<and> unat (co_old_value_len op) = length (rq_old q) \<and> req_ok q
     \<and> (\<exists>pre post. d = pre @ req_bytes q @ post \<and> unat (co_key_start op) = length pre
          \<and> unat (co_value_start op) = length pre + length (rq_key q)
          \<and> unat (co_key_hash_start op) = length pre + length (rq_key q) + length (rq_value q) + length (rq_old q))"

definition cs_holds :: "ChangeSet \<Rightarrow> op_req list \<Rightarrow> bool" where
  "cs_holds cs qs \<longleftrightarrow> list_all2 (op_denotes (cs_data cs)) (cs_op_list cs) qs"

lemma op_denotes_append: "op_denotes d op q \<Longrightarrow> op_denotes (d @ e) op q"
  unfolding op_denotes_def by (metis append.assoc)

lemma add_op_is_req:
  "cs_add_op t s kh k v r = add_req \<lparr> rq_type = t, rq_shard = s, rq_hash = kh, rq_key = k, rq_value = v,
     rq_old = [], rq_rec = r \<rparr>"
  by (rule ext) (simp add: add_req_def cs_add_op_def cs_add_op_with_old_value_def Let_def)

lemma add_op_rec_is_req:
  "H (or_key r) \<noteq> [] \<Longrightarrow> cs_add_op_rec H r cs =
     (let s = of_nat (byte0_to_shard_id (hd (H (or_key r)))) in
      if s \<noteq> of_nat (or_shard_id r) then Inl (Panic ''mismatch'')
      else Inr (cs_add_op (or_op_type r) s (H (or_key r)) (or_key r) (or_value r) (Some r) cs))"
  by (simp add: cs_add_op_rec_def cs_add_op_def Let_def hd_conv_nth)

lemma add_req_data: "cs_data (add_req q cs) = cs_data cs @ req_bytes q"
  by (simp add: add_req_def cs_add_op_with_old_value_def req_bytes_def Let_def)

lemma add_req_frame [simp]:
  "cs_shard_starts (add_req q cs) = cs_shard_starts cs" "cs_shard_op_count (add_req q cs) = cs_shard_op_count cs"
  by (simp_all add: add_req_def cs_add_op_with_old_value_def Let_def)

lemma unat_small32: "n < 2 ^ 32 \<Longrightarrow> unat (of_nat n :: u32) = n"
  by (simp add: unat_of_nat take_bit_nat_eq_self)

lemma of_nat_not_max:
  assumes "n < 2 ^ 32 - 1" shows "(of_nat n :: u32) \<noteq> - 1"
proof
  assume "(of_nat n :: u32) = - 1"
  then have "unat (of_nat n :: u32) = unat (- 1 :: u32)" by simp
  moreover have "unat (of_nat n :: u32) = n" using assms by (intro unat_small32) simp
  moreover have "unat (- 1 :: u32) = 2 ^ 32 - 1" by (simp add: unsigned_minus_1_eq_mask mask_eq_exp_minus_1)
  ultimately show False using assms by simp
qed

lemma unat_small16: "n < 2 ^ 16 \<Longrightarrow> unat (of_nat n :: u16) = n"
  by (simp add: unat_of_nat take_bit_nat_eq_self)

lemma add_req_holds:
  assumes h: "cs_holds cs qs" and q: "req_ok q"
    and fits: "length (cs_data cs) + length (req_bytes q) < 2 ^ 32"
  shows "cs_holds (add_req q cs) (qs @ [q])"
proof -
  let ?op = "\<lparr> co_op_type = rq_type q, co_shard_id = rq_shard q, co_old_value_len = of_nat (length (rq_old q)),
     co_key_start = of_nat (length (cs_data cs)), co_value_start = of_nat (length (cs_data cs @ rq_key q)),
     co_key_hash_start = of_nat (length ((cs_data cs @ rq_key q) @ rq_value q @ rq_old q)), co_rec = rq_rec q \<rparr>"
  have ops: "cs_op_list (add_req q cs) = cs_op_list cs @ [?op]"
    by (simp add: add_req_def cs_add_op_with_old_value_def Let_def)
  have "unat (of_nat (length (cs_data cs)) :: u32) = length (cs_data cs)"
    and "unat (of_nat (length (cs_data cs @ rq_key q)) :: u32) = length (cs_data cs) + length (rq_key q)"
    and "unat (of_nat (length ((cs_data cs @ rq_key q) @ rq_value q @ rq_old q)) :: u32)
       = length (cs_data cs) + length (rq_key q) + length (rq_value q) + length (rq_old q)"
    using fits by (simp_all only: unat_small32 req_bytes_def length_append add.assoc)
  moreover have "unat (of_nat (length (rq_old q)) :: u16) = length (rq_old q)"
    using q by (simp add: req_ok_def unat_small16)
  ultimately have "op_denotes (cs_data cs @ req_bytes q) ?op q"
    unfolding op_denotes_def using q by (auto intro: exI [of _ "cs_data cs"])
  moreover have "list_all2 (op_denotes (cs_data cs @ req_bytes q)) (cs_op_list cs) qs"
    using h unfolding cs_holds_def by (rule list_all2_mono) (rule op_denotes_append)
  ultimately show ?thesis
    unfolding cs_holds_def ops add_req_data by (simp add: list_all2_appendI)
qed

definition reqs_size :: "op_req list \<Rightarrow> nat" where
  "reqs_size qs = sum_list (map (\<lambda>q. length (req_bytes q)) qs)"

lemma fold_add_req:
  assumes "\<forall>q\<in>set qs. req_ok q" and "reqs_size qs < 2 ^ 32"
  shows "cs_holds (fold add_req qs cs_new) qs \<and> length (cs_data (fold add_req qs cs_new)) = reqs_size qs
    \<and> cs_shard_starts (fold add_req qs cs_new) = replicate SHARD_COUNT (- 1)
    \<and> cs_shard_op_count (fold add_req qs cs_new) = replicate SHARD_COUNT 0"
  using assms
proof (induction qs rule: rev_induct)
  case Nil
  then show ?case by (simp add: cs_holds_def cs_new_def reqs_size_def)
next
  case (snoc q qs)
  then have ih: "cs_holds (fold add_req qs cs_new) qs" "length (cs_data (fold add_req qs cs_new)) = reqs_size qs"
    "cs_shard_starts (fold add_req qs cs_new) = replicate SHARD_COUNT (- 1)"
    "cs_shard_op_count (fold add_req qs cs_new) = replicate SHARD_COUNT 0"
    by (auto simp: reqs_size_def)
  have "cs_holds (add_req q (fold add_req qs cs_new)) (qs @ [q])"
    using ih snoc.prems by (intro add_req_holds) (auto simp: reqs_size_def)
  then show ?case using ih by (simp add: add_req_data reqs_size_def)
qed

lemma reqs_count: "\<forall>q\<in>set qs. req_ok q \<Longrightarrow> 32 * length qs \<le> reqs_size qs"
  by (induction qs) (auto simp: reqs_size_def req_bytes_def req_ok_def)

text \<open>The ranges of an operation give back its parts.\<close>

lemma denotes_parts:
  assumes "op_denotes d op q"
  shows "co_parts d op = Inr (rq_hash q, rq_key q, rq_value q, unat (co_key_hash_start op) - length (rq_old q))"
    and "co_hash d op = rq_hash q" and "unat (co_key_hash_start op) + 32 \<le> length d"
    and "slice d (unat (co_key_hash_start op) - length (rq_old q)) (unat (co_key_hash_start op) - length (rq_old q) + length (rq_old q))
       = Inr (rq_old q)"
  using assms by (auto simp: op_denotes_def co_parts_def co_hash_def req_ok_def req_bytes_def Let_def)

lemma denotes_access:
  assumes "op_denotes d op q"
  shows "bindE (co_parts d op) (\<lambda>(kh, k, v, old_start). access (co_op_type op) kh k v (co_rec op) st)
    = access (rq_type q) (rq_hash q) (rq_key q) (rq_value q) (rq_rec q) st"
  using assms by (simp add: denotes_parts(1)) (simp add: op_denotes_def)

section \<open>Stable sorting\<close>

lemma list_all2_insort_key:
  assumes "list_all2 R xs ys" and "R x y" and "\<And>a b. R a b \<Longrightarrow> f a = g b"
  shows "list_all2 R (insort_key f x xs) (insort_key g y ys)"
  using assms by (induction rule: list_all2_induct) auto

lemma list_all2_sort_key:
  assumes "list_all2 R xs ys" and "\<And>a b. R a b \<Longrightarrow> f a = g b"
  shows "list_all2 R (sort_key f xs) (sort_key g ys)"
  using assms(1) by (induction rule: list_all2_induct) (auto intro: list_all2_insort_key assms(2))

lemma insort_key_pair:
  "\<forall>y\<in>set (x # xs). fst (f y) = c \<Longrightarrow> insort_key f x xs = insort_key (\<lambda>y. snd (f y)) x xs"
  by (induction xs) (auto simp: less_eq_prod_def)

lemma sort_key_pair:
  "\<forall>y\<in>set xs. fst (f y) = c \<Longrightarrow> sort_key f xs = sort_key (\<lambda>y. snd (f y)) xs"
  by (induction xs) (simp_all add: insort_key_pair [where c = c])

lemma takeWhile_filter_min:
  "sorted (map f xs) \<Longrightarrow> \<forall>y\<in>set xs. s \<le> f y \<Longrightarrow> takeWhile (\<lambda>x. f x = s) xs = filter (\<lambda>x. f x = s) xs"
proof (induction xs)
  case (Cons x xs)
  have "filter (\<lambda>x. f x = s) xs = []" if "f x \<noteq> s"
    using Cons.prems that by (fastforce simp: filter_empty_conv)
  then show ?case using Cons by simp
qed simp

lemma takeWhile_dropWhile_sorted:
  "sorted (map f xs) \<Longrightarrow> takeWhile (\<lambda>x. f x = s) (dropWhile (\<lambda>x. f x \<noteq> s) xs) = filter (\<lambda>x. f x = s) xs"
proof (induction xs)
  case (Cons x xs)
  show ?case
  proof (cases "f x = s")
    case True
    then show ?thesis using Cons.prems by (simp add: takeWhile_filter_min)
  qed (use Cons in simp)
qed simp

section \<open>Sorting\<close>

lemma cs_mark_spec:
  assumes "\<forall>op\<in>set ops. unat (co_shard_id op) < n" and "length starts = n" and "length counts = n"
    and "idx + length ops < 2 ^ 32 - 1"
  obtains starts' counts' where "cs_mark idx ops (starts, counts) = Inr (starts', counts')"
    and "length starts' = n" "length counts' = n"
    and "\<forall>s<n. counts' ! s = counts ! s + of_nat (length (filter (\<lambda>op. unat (co_shard_id op) = s) ops))"
    and "\<forall>s<n. starts' ! s = (if starts ! s = - 1 \<and> (\<exists>op\<in>set ops. unat (co_shard_id op) = s)
           then of_nat (idx + length (takeWhile (\<lambda>op. unat (co_shard_id op) \<noteq> s) ops)) else starts ! s)"
proof -
  have "\<exists>starts' counts'. cs_mark idx ops (starts, counts) = Inr (starts', counts')
    \<and> length starts' = n \<and> length counts' = n
    \<and> (\<forall>s<n. counts' ! s = counts ! s + of_nat (length (filter (\<lambda>op. unat (co_shard_id op) = s) ops)))
    \<and> (\<forall>s<n. starts' ! s = (if starts ! s = - 1 \<and> (\<exists>op\<in>set ops. unat (co_shard_id op) = s)
           then of_nat (idx + length (takeWhile (\<lambda>op. unat (co_shard_id op) \<noteq> s) ops)) else starts ! s))"
    using assms
  proof (induction ops arbitrary: idx starts counts)
    case (Cons op ops)
    let ?s = "unat (co_shard_id op)"
    let ?st = "if starts ! ?s = - 1 then starts[?s := of_nat idx] else starts"
    let ?cn = "counts[?s := counts ! ?s + 1]"
    have s: "?s < n" using Cons.prems by simp
    have idx: "(of_nat idx :: u32) \<noteq> - 1" using Cons.prems(4) by (intro of_nat_not_max) simp
    have ops: "\<forall>op\<in>set ops. unat (co_shard_id op) < n" and l: "length ?st = n" "length ?cn = n"
      and idx': "Suc idx + length ops < 2 ^ 32 - 1"
      using Cons.prems by simp_all
    obtain starts' counts' where r: "cs_mark (Suc idx) ops (?st, ?cn) = Inr (starts', counts')"
      "length starts' = n" "length counts' = n"
      "\<forall>s<n. counts' ! s = ?cn ! s + of_nat (length (filter (\<lambda>op. unat (co_shard_id op) = s) ops))"
      "\<forall>s<n. starts' ! s = (if ?st ! s = - 1 \<and> (\<exists>op\<in>set ops. unat (co_shard_id op) = s)
           then of_nat (Suc idx + length (takeWhile (\<lambda>op. unat (co_shard_id op) \<noteq> s) ops)) else ?st ! s)"
      using Cons.IH [OF ops l idx'] by (elim exE conjE)
    have "cs_mark idx (op # ops) (starts, counts) = Inr (starts', counts')"
      using r(1) s Cons.prems(2,3) by (simp add: Let_def)
    moreover have "\<forall>s<n. counts' ! s = counts ! s + of_nat (length (filter (\<lambda>op. unat (co_shard_id op) = s) (op # ops)))"
      using r(4) s Cons.prems(3) by (auto simp: nth_list_update)
    moreover have "\<forall>s<n. starts' ! s = (if starts ! s = - 1 \<and> (\<exists>op\<in>set (op # ops). unat (co_shard_id op) = s)
           then of_nat (idx + length (takeWhile (\<lambda>op. unat (co_shard_id op) \<noteq> s) (op # ops))) else starts ! s)"
    proof (intro allI impI)
      fix s' assume s': "s' < n"
      show "starts' ! s' = (if starts ! s' = - 1 \<and> (\<exists>op\<in>set (op # ops). unat (co_shard_id op) = s')
           then of_nat (idx + length (takeWhile (\<lambda>op. unat (co_shard_id op) \<noteq> s') (op # ops))) else starts ! s')"
      proof (cases "s' = ?s")
        case True
        then have "starts' ! s' = ?st ! s'" using r(5) s' s Cons.prems(2) idx by (cases "starts ! ?s = - 1") simp_all
        then show ?thesis using True s Cons.prems(2) by simp
      next
        case False
        then have "?st ! s' = starts ! s'" by simp
        then show ?thesis using r(5) s' False by auto
      qed
    qed
    ultimately show ?case using r(2,3) by blast
  qed simp
  then show thesis using that by blast
qed

lemma run_from_takeWhile:
  "run_from d s access ops st =
     foldE (\<lambda>op st. bindE (co_parts d op) (\<lambda>(kh, k, v, old_start). access (co_op_type op) kh k v (co_rec op) st))
       (takeWhile (\<lambda>op. unat (co_shard_id op) = s) ops) st"
proof (induction ops arbitrary: st)
  case (Cons op ops)
  then have "run_from d s access ops = foldE (\<lambda>op st. bindE (co_parts d op) (\<lambda>(kh, k, v, old_start).
      access (co_op_type op) kh k v (co_rec op) st)) (takeWhile (\<lambda>op. unat (co_shard_id op) = s) ops)"
    by (rule ext)
  then show ?case by (simp add: eq_commute [of s])
qed simp

lemma foldE_list_all2:
  "list_all2 R xs ys \<Longrightarrow> (\<And>x y s. R x y \<Longrightarrow> f x s = g y s) \<Longrightarrow> foldE f xs s = foldE g ys s"
proof (induction xs ys arbitrary: s rule: list_all2_induct)
  case (Cons x xs y ys)
  then show ?case by (cases "g y s") auto
qed simp

section \<open>A shard is handed its operations\<close>

definition shard_reqs :: "nat \<Rightarrow> op_req list \<Rightarrow> op_req list" where
  "shard_reqs s qs = sort_key (\<lambda>q. (rq_hash q, rq_type q)) (filter (\<lambda>q. unat (rq_shard q) = s) qs)"

lemma cs_holds_sorted:
  assumes "cs_holds cs qs"
  shows "list_all2 (op_denotes (cs_data cs)) (sort_key (co_sort_key (cs_data cs)) (cs_op_list cs))
           (sort_key (\<lambda>q. (rq_shard q, rq_hash q, rq_type q)) qs)"
  using assms unfolding cs_holds_def
  by (rule list_all2_sort_key) (auto simp: co_sort_key_def denotes_parts op_denotes_def)

lemma list_all2_filter:
  "list_all2 R xs ys \<Longrightarrow> (\<And>x y. R x y \<Longrightarrow> P x = Q y) \<Longrightarrow> list_all2 R (filter P xs) (filter Q ys)"
  by (induction rule: list_all2_induct) auto

lemma filter_sorted_reqs:
  "filter (\<lambda>q. unat (rq_shard q) = s) (sort_key (\<lambda>q. (rq_shard q, rq_hash q, rq_type q)) qs) = shard_reqs s qs"
  unfolding filter_sort shard_reqs_def
  by (subst sort_key_pair [where c = "of_nat s"]) auto

text \<open>After the sort, the start of a shard is where its block of operations begins.\<close>

lemma shard_block:
  assumes "sorted (map co_shard_id ops)"
  shows "takeWhile (\<lambda>op. unat (co_shard_id op) = s)
      (drop (length (takeWhile (\<lambda>op. unat (co_shard_id op) \<noteq> s) ops)) ops) = filter (\<lambda>op. unat (co_shard_id op) = s) ops"
proof -
  have "sorted (map (\<lambda>op. unat (co_shard_id op)) ops)"
    using assms by (induction ops) (auto simp: word_le_nat_alt)
  then show ?thesis
    by (simp add: takeWhile_dropWhile_sorted flip: dropWhile_eq_drop)
qed

lemma sorted_shards: "sorted (map co_shard_id (sort_key (co_sort_key d) ops))"
proof -
  have "sorted (map (co_sort_key d) (sort_key (co_sort_key d) ops))" by (rule sorted_sort_key)
  then show ?thesis
    by (simp add: sorted_iff_nth_mono co_sort_key_def less_eq_prod_def) (meson order_less_imp_le order_refl)
qed

lemma holds_sort:
  assumes h: "cs_holds cs qs" and few: "length qs < 2 ^ 32 - 1"
    and fresh: "cs_shard_starts cs = replicate SHARD_COUNT (- 1)" "cs_shard_op_count cs = replicate SHARD_COUNT 0"
  obtains cs' where "cs_sort cs = Inr cs'" and "cs_data cs' = cs_data cs"
    and "cs_op_list cs' = sort_key (co_sort_key (cs_data cs)) (cs_op_list cs)"
    and "\<forall>s<SHARD_COUNT. index (cs_shard_op_count cs') s =
           Inr (of_nat (length (filter (\<lambda>op. unat (co_shard_id op) = s) (cs_op_list cs'))))"
    and "\<forall>s<SHARD_COUNT. index (cs_shard_starts cs') s =
           Inr (if \<exists>op\<in>set (cs_op_list cs'). unat (co_shard_id op) = s
                then of_nat (length (takeWhile (\<lambda>op. unat (co_shard_id op) \<noteq> s) (cs_op_list cs'))) else - 1)"
proof -
  let ?ops = "sort_key (co_sort_key (cs_data cs)) (cs_op_list cs)"
  have len: "length ?ops = length qs" using h by (simp add: cs_holds_def list_all2_lengthD)
  have rng: "\<forall>op\<in>set (cs_op_list cs). unat (co_shard_id op) < SHARD_COUNT \<and> unat (co_key_hash_start op) + 32 \<le> length (cs_data cs)"
  proof
    fix op assume "op \<in> set (cs_op_list cs)"
    then obtain q where "op_denotes (cs_data cs) op q"
      using h unfolding cs_holds_def by (metis in_set_conv_nth list_all2_conv_all_nth)
    moreover from this have "unat (co_shard_id op) < SHARD_COUNT" by (simp add: op_denotes_def req_ok_def)
    ultimately show "unat (co_shard_id op) < SHARD_COUNT \<and> unat (co_key_hash_start op) + 32 \<le> length (cs_data cs)"
      using denotes_parts(3) by simp
  qed
  obtain st cn where m: "cs_mark 0 ?ops (replicate SHARD_COUNT (- 1), replicate SHARD_COUNT 0) = Inr (st, cn)"
    and l: "length st = SHARD_COUNT" "length cn = SHARD_COUNT"
    and c: "\<forall>s<SHARD_COUNT. cn ! s = replicate SHARD_COUNT 0 ! s + of_nat (length (filter (\<lambda>op. unat (co_shard_id op) = s) ?ops))"
    and b: "\<forall>s<SHARD_COUNT. st ! s = (if replicate SHARD_COUNT (- 1) ! s = (- 1 :: u32) \<and> (\<exists>op\<in>set ?ops. unat (co_shard_id op) = s)
           then of_nat (0 + length (takeWhile (\<lambda>op. unat (co_shard_id op) \<noteq> s) ?ops)) else replicate SHARD_COUNT (- 1) ! s)"
    by (rule cs_mark_spec [of ?ops SHARD_COUNT "replicate SHARD_COUNT (- 1)" "replicate SHARD_COUNT 0" 0])
      (use rng len few in auto)
  have "list_all (\<lambda>op. length (filter (\<lambda>b. co_shard_id b = co_shard_id op) (cs_op_list cs)) \<le> 1
      \<or> unat (co_key_hash_start op) + 32 \<le> length (cs_data cs)) (cs_op_list cs)"
    using rng by (simp add: list_all_iff)
  then have "cs_sort cs = Inr (cs \<lparr> cs_op_list := ?ops, cs_shard_starts := st, cs_shard_op_count := cn \<rparr>)"
    using m by (simp add: cs_sort_def fresh Let_def)
  then show thesis by (rule that) (use l b c in auto)
qed

lemma holds_count_lt:
  "cs_holds cs qs \<Longrightarrow> length (cs_op_list cs) = length qs"
  by (simp add: cs_holds_def list_all2_lengthD)

lemma run_in_shard_holds:
  assumes h: "cs_holds cs qs" and few: "length qs < 2 ^ 32 - 1" and s: "s < SHARD_COUNT"
    and fresh: "cs_shard_starts cs = replicate SHARD_COUNT (- 1)" "cs_shard_op_count cs = replicate SHARD_COUNT 0"
  obtains cs' where "cs_sort cs = Inr cs'"
    and "cs_op_count_in_shard cs' s = Inr (length (shard_reqs s qs))"
    and "\<forall>access st. cs_run_in_shard cs' s access st =
      foldE (\<lambda>q. access (rq_type q) (rq_hash q) (rq_key q) (rq_value q) (rq_rec q)) (shard_reqs s qs) st"
proof -
  obtain cs' where cs': "cs_sort cs = Inr cs'" "cs_data cs' = cs_data cs"
      "cs_op_list cs' = sort_key (co_sort_key (cs_data cs)) (cs_op_list cs)"
    and cnt: "\<forall>s<SHARD_COUNT. index (cs_shard_op_count cs') s =
           Inr (of_nat (length (filter (\<lambda>op. unat (co_shard_id op) = s) (cs_op_list cs'))))"
    and st: "\<forall>s<SHARD_COUNT. index (cs_shard_starts cs') s =
           Inr (if \<exists>op\<in>set (cs_op_list cs'). unat (co_shard_id op) = s
                then of_nat (length (takeWhile (\<lambda>op. unat (co_shard_id op) \<noteq> s) (cs_op_list cs'))) else - 1)"
    by (rule holds_sort [OF h few fresh])
  let ?blk = "filter (\<lambda>op. unat (co_shard_id op) = s) (cs_op_list cs')"
  have len: "length (cs_op_list cs') < 2 ^ 32 - 1" using cs'(3) few holds_count_lt [OF h] by simp
  have all: "list_all2 (op_denotes (cs_data cs)) ?blk (shard_reqs s qs)"
    unfolding cs'(3) filter_sorted_reqs [symmetric]
    by (rule list_all2_filter [OF cs_holds_sorted [OF h]]) (simp add: op_denotes_def)
  have blk: "length ?blk < 2 ^ 32"
    using len by (meson diff_le_self length_filter_le order_le_less_trans order_less_le_trans)
  have "cs_op_count_in_shard cs' s = Inr (length (shard_reqs s qs))"
    unfolding cs_op_count_in_shard_def
    using cnt s blk list_all2_lengthD [OF all] by (simp add: unat_small32)
  moreover have "cs_run_in_shard cs' s access a =
      foldE (\<lambda>q. access (rq_type q) (rq_hash q) (rq_key q) (rq_value q) (rq_rec q)) (shard_reqs s qs) a" for access a
  proof (cases "?blk = []")
    case True
    then have "index (cs_shard_starts cs') s = Inr (- 1)" using st s by (auto simp: filter_empty_conv)
    then show ?thesis using all True by (simp add: cs_run_in_shard_def)
  next
    case False
    let ?i = "length (takeWhile (\<lambda>op. unat (co_shard_id op) \<noteq> s) (cs_op_list cs'))"
    have i: "?i < 2 ^ 32 - 1" using len length_takeWhile_le order_le_less_trans by blast
    then have u: "unat (of_nat ?i :: u32) = ?i" by (intro unat_small32) simp
    have "(of_nat ?i :: u32) \<noteq> - 1" using i by (rule of_nat_not_max)
    then have "cs_run_in_shard cs' s access a = run_from (cs_data cs) s access (drop ?i (cs_op_list cs')) a"
      using st s u False cs'(2) by (auto simp: cs_run_in_shard_def filter_empty_conv)
    also have "\<dots> = foldE (\<lambda>op st. bindE (co_parts (cs_data cs) op) (\<lambda>(kh, k, v, old_start).
        access (co_op_type op) kh k v (co_rec op) st)) ?blk a"
      unfolding run_from_takeWhile by (subst shard_block) (simp_all add: cs'(3) sorted_shards)
    also have "\<dots> = foldE (\<lambda>q. access (rq_type q) (rq_hash q) (rq_key q) (rq_value q) (rq_rec q)) (shard_reqs s qs) a"
      by (rule foldE_list_all2 [OF all]) (rule denotes_access)
    finally show ?thesis .
  qed
  ultimately show thesis using that cs'(1) by blast
qed

text \<open>C23. A change set built by adding operations and sorted hands shard \<open>s\<close> exactly the operations
  added for it, ordered by key hash and operation type and otherwise as added, each with the key, value
  and record it was added with; the count of the shard is their number.  The data must stay below
  \<open>2\<^sup>3\<^sup>2\<close> bytes and each old value below \<open>2\<^sup>1\<^sup>6\<close>, the widths of the stored offsets.\<close>

theorem run_in_shard_visits:
  assumes ok: "\<forall>q\<in>set qs. req_ok q" and fits: "reqs_size qs < 2 ^ 32" and s: "s < SHARD_COUNT"
  shows "\<exists>cs. cs_sort (fold add_req qs cs_new) = Inr cs
    \<and> cs_op_count_in_shard cs s = Inr (length (shard_reqs s qs))
    \<and> (\<forall>access st. cs_run_in_shard cs s access st =
         foldE (\<lambda>q. access (rq_type q) (rq_hash q) (rq_key q) (rq_value q) (rq_rec q)) (shard_reqs s qs) st)"
proof -
  have few: "length qs < 2 ^ 32 - 1" using reqs_count [OF ok] fits by simp
  have a: "cs_holds (fold add_req qs cs_new) qs"
    and fresh: "cs_shard_starts (fold add_req qs cs_new) = replicate SHARD_COUNT (- 1)"
      "cs_shard_op_count (fold add_req qs cs_new) = replicate SHARD_COUNT 0"
    using fold_add_req [OF ok fits] by auto
  show ?thesis by (rule run_in_shard_holds [OF a few s fresh]) blast
qed

definition demo_reqs :: "op_req list" where
  "demo_reqs =
    [\<lparr> rq_type = OP_WRITE, rq_shard = 3, rq_hash = replicate 32 7, rq_key = [1], rq_value = [2, 2], rq_old = [9], rq_rec = None \<rparr>,
     \<lparr> rq_type = OP_CREATE, rq_shard = 5, rq_hash = replicate 32 1, rq_key = [4], rq_value = [], rq_old = [], rq_rec = None \<rparr>,
     \<lparr> rq_type = OP_DELETE, rq_shard = 3, rq_hash = replicate 32 2, rq_key = [5], rq_value = [], rq_old = [8, 8], rq_rec = None \<rparr>]"

lemma demo_reqs_ok: "\<forall>q\<in>set demo_reqs. req_ok q" "reqs_size demo_reqs < 2 ^ 32"
  by (simp_all add: demo_reqs_def req_ok_def reqs_size_def req_bytes_def layout_defs)

lemma demo_shard_reqs: "map rq_key (shard_reqs 3 demo_reqs) = [[5], [1]]"
  by code_simp

theorem run_in_shard_visits_witness:
  "\<exists>cs. cs_sort (fold add_req demo_reqs cs_new) = Inr cs
    \<and> cs_op_count_in_shard cs 3 = Inr (length (shard_reqs 3 demo_reqs))
    \<and> (\<forall>access st. cs_run_in_shard cs 3 access (st :: bytes list) =
         foldE (\<lambda>q. access (rq_type q) (rq_hash q) (rq_key q) (rq_value q) (rq_rec q)) (shard_reqs 3 demo_reqs) st)"
  by (rule run_in_shard_visits [OF demo_reqs_ok]) (simp add: layout_defs)

text \<open>The order in which a shard is served, and that an old value as long as the width of its length
  field turns into part of the new value: the recorded length is 0.\<close>

lemma shard_reqs_sorted: "sorted (map (\<lambda>q. (rq_hash q, rq_type q)) (shard_reqs s qs))"
  unfolding shard_reqs_def by (rule sorted_sort_key)

lemma shard_reqs_members: "set (shard_reqs s qs) = {q \<in> set qs. unat (rq_shard q) = s}"
  by (auto simp: shard_reqs_def)

lemma shard_reqs_stable:
  "filter (\<lambda>q. (rq_hash q, rq_type q) = k) (shard_reqs s qs)
     = filter (\<lambda>q. (rq_hash q, rq_type q) = k) (filter (\<lambda>q. unat (rq_shard q) = s) qs)"
  unfolding shard_reqs_def by (rule sort_key_stable)

lemma co_parts_no_old:
  assumes "unat (co_key_start op) = 0" and "unat (co_value_start op) = length k" and "co_old_value_len op = 0"
    and "unat (co_key_hash_start op) = length k + length w" and "length kh = 32"
  shows "co_parts (k @ w @ kh) op = Inr (kh, k, w, length k + length w)"
  using assms by (simp add: co_parts_def)

lemma long_old_value_joins_value:
  assumes old: "length old_v = 2 ^ 16" and fits: "length (k @ v @ old_v) < 2 ^ 32" and kh: "length kh = 32"
  shows "cs_run_all (cs_add_op_with_old_value t s kh k v old_v r cs_new) access st
    = access t kh k (v @ old_v) r st"
proof -
  let ?op = "\<lparr> co_op_type = t, co_shard_id = s, co_old_value_len = of_nat (length old_v),
     co_key_start = 0, co_value_start = of_nat (length k),
     co_key_hash_start = of_nat (length (k @ v @ old_v)), co_rec = r \<rparr>"
  have cs: "cs_data (cs_add_op_with_old_value t s kh k v old_v r cs_new) = k @ (v @ old_v) @ kh"
    "cs_op_list (cs_add_op_with_old_value t s kh k v old_v r cs_new) = [?op]"
    by (simp_all add: cs_add_op_with_old_value_def cs_new_def Let_def)
  have "(of_nat (length old_v) :: u16) = 0" unfolding old by simp
  moreover have "unat (of_nat (length k) :: u32) = length k"
    and "unat (of_nat (length (k @ v @ old_v)) :: u32) = length (k @ v @ old_v)"
    using fits by (auto intro!: unat_small32 simp del: length_append) (simp add: unat_small32)
  ultimately have "co_parts (k @ (v @ old_v) @ kh) ?op = Inr (kh, k, v @ old_v, length k + length (v @ old_v))"
    using kh by (intro co_parts_no_old) (simp_all only: ChangeOp.simps length_append unsigned_0)
  then show ?thesis by (simp add: cs_run_all_def cs del: append_assoc) (cases "access t kh k (v @ old_v) r st", auto)
qed

end
