(* ===== verification/EntryBuffer.thy ===== *)
theory EntryBuffer
  imports EntryVec EntryFile "HOL-Library.Sublist"
begin

text \<open>
  \<^verbatim>\<open>src/qmdb/src/entryfile/entrybuffer.rs\<close>: the in-memory tail of the entry file between the
  updater, which appends entries, and the flusher, which reads them.  Entries lie in buffers of
  \<^verbatim>\<open>BIG_BUF_SIZE\<close> bytes and may straddle two of them; positions and the end of each block are sent
  through a channel.  The theory shows that an appended entry is served by position until its
  buffer is released, and that the reader gets the written entries and block ends in order for every
  interleaving of the two sides.

  A method call is one step of the model, except that \<^verbatim>\<open>read_next_entry\<close> on an empty channel
  returns \<open>None\<close> with what it has received so far; calling it again resumes the wait.  The channel is
  unbounded (the code's has room for 2048 positions and makes the sender wait).
\<close>

section \<open>Model\<close>

definition I64_MIN :: int where "I64_MIN = - (2 ^ 63)"

record entry_buffer =
  eb_start :: nat
  eb_end :: nat
  eb_buf_map :: "nat \<rightharpoonup> bytes"
  eb_free_list :: "bytes list"
  eb_chan :: "int list"

record buf_reader =
  br_curr_buf :: "bytes option"
  br_scratch_pad :: bytes
  br_end_pos :: int
  br_curr_pos :: nat
  br_buf_margin :: nat

text \<open>\<^verbatim>\<open>new\<close>: the shared buffer, the current buffer of the writer and the reader.\<close>

definition eb_new :: "nat \<Rightarrow> nat \<Rightarrow> entry_buffer \<times> bytes option \<times> buf_reader" where
  "eb_new start buf_margin =
     (\<lparr> eb_start = start, eb_end = start, eb_buf_map = Map.empty, eb_free_list = [], eb_chan = [] \<rparr>,
      Some new_big_buf_boxed,
      \<lparr> br_curr_buf = None, br_scratch_pad = [], br_end_pos = int start, br_curr_pos = start,
        br_buf_margin = buf_margin \<rparr>)"

definition eb_end_block :: "nat \<Rightarrow> u64 \<Rightarrow> u64 \<Rightarrow> bytes \<Rightarrow> entry_buffer \<Rightarrow> entry_buffer" where
  "eb_end_block compact_done_pos compact_done_sn sn_end curr_buf eb =
     eb \<lparr> eb_buf_map := (eb_buf_map eb)(eb_end eb div BIG_BUF_SIZE \<mapsto> curr_buf),
          eb_chan := eb_chan eb @ [int (eb_end eb), I64_MIN, int compact_done_pos,
                                   sint compact_done_sn, sint sn_end] \<rparr>"

definition eb_allocate :: "entry_buffer \<Rightarrow> bytes \<times> entry_buffer" where
  "eb_allocate eb =
     (if eb_free_list eb \<noteq> [] then (last (eb_free_list eb), eb \<lparr> eb_free_list := butlast (eb_free_list eb) \<rparr>)
      else (new_big_buf_boxed, eb))"

definition eb_append :: "entry \<Rightarrow> u64 list \<Rightarrow> bytes \<Rightarrow> entry_buffer \<Rightarrow> (nat \<times> bytes \<times> entry_buffer) result" where
  "eb_append e dsns curr_buf eb =
     (let sz = get_serialized_len e (length dsns) in
      if BIG_BUF_SIZE < sz then Inl (Panic ''Entry too large'')
      else
       (let file_pos = eb_end eb; idx = file_pos div BIG_BUF_SIZE; offset = file_pos mod BIG_BUF_SIZE in
        if offset + sz < BIG_BUF_SIZE then
          bindE (slice curr_buf offset (length curr_buf)) (\<lambda>room.
          bindE (dump e room dsns) (\<lambda>(_, room).
          Inr (file_pos, take offset curr_buf @ room, eb \<lparr> eb_end := file_pos + sz \<rparr>)))
        else
         (let (new_buf, eb) = eb_allocate eb in
          bindE (dump e new_buf dsns) (\<lambda>(total_length, new_buf).
          let copied_length = BIG_BUF_SIZE - offset in
          bindE (slice new_buf 0 copied_length) (\<lambda>front.
          bindE (guardE (length curr_buf - offset = copied_length) (Panic ''copy_from_slice: length mismatch'')) (\<lambda>_.
          bindE (write_at curr_buf offset front) (\<lambda>curr_buf.
          bindE (slice new_buf copied_length total_length) (\<lambda>back.
          bindE (write_at new_buf 0 back) (\<lambda>new_buf.
          Inr (file_pos, new_buf,
            eb \<lparr> eb_end := file_pos + sz, eb_buf_map := (eb_buf_map eb)(idx \<mapsto> curr_buf),
                 eb_chan := eb_chan eb @ [int file_pos] \<rparr>))))))))))"

definition eb_get_and_remove_buf :: "nat \<Rightarrow> int \<Rightarrow> entry_buffer \<Rightarrow> (bytes \<times> entry_buffer) result" where
  "eb_get_and_remove_buf idx remove_idx eb =
     bindE (unwrap ''called unwrap on None'' (eb_buf_map eb idx)) (\<lambda>res.
     if 0 \<le> remove_idx then
      (let new_start = (nat remove_idx + 1) * BIG_BUF_SIZE;
           eb = (if eb_start eb < new_start then eb \<lparr> eb_start := new_start \<rparr> else eb)
       in Inr (res, case eb_buf_map eb (nat remove_idx) of None \<Rightarrow> eb
             | Some buf \<Rightarrow> eb \<lparr> eb_buf_map := (eb_buf_map eb)(nat remove_idx := None),
                               eb_free_list := eb_free_list eb @ [buf] \<rparr>))
     else Inr (res, eb))"

text \<open>\<^verbatim>\<open>get_entry_bz_at\<close> returns whether the entry is on disk and what it handed to \<^verbatim>\<open>access\<close>;
  the current buffer is handed back unchanged.\<close>

definition eb_get_entry_bz_at :: "nat \<Rightarrow> bytes option \<Rightarrow> entry_buffer \<Rightarrow> (bool \<times> bytes option) result" where
  "eb_get_entry_bz_at file_pos curr_buf eb =
     (let idx = file_pos div BIG_BUF_SIZE; offset = file_pos mod BIG_BUF_SIZE;
          curr_buf_start = eb_end eb div BIG_BUF_SIZE * BIG_BUF_SIZE in
      if file_pos < eb_start eb then Inr (True, None)
      else if eb_end eb \<le> file_pos then Inl (Panic ''Read past end'')
      else if curr_buf_start \<le> file_pos then
        (case curr_buf of None \<Rightarrow> Inr (False, None) | Some b \<Rightarrow>
           bindE (slice b offset (offset + 5)) (\<lambda>len_bytes.
           bindE (get_entry_len len_bytes) (\<lambda>sz.
           bindE (slice b offset (offset + sz)) (\<lambda>bz. Inr (False, Some bz)))))
      else
        bindE (unwrap ''called unwrap on None'' (eb_buf_map eb idx)) (\<lambda>target.
        bindE (slice target offset (offset + 5)) (\<lambda>len_bytes.
        bindE (get_entry_len len_bytes) (\<lambda>sz.
        if offset + sz \<le> BIG_BUF_SIZE then
          bindE (slice target offset (offset + sz)) (\<lambda>bz. Inr (False, Some bz))
        else if curr_buf_start < file_pos + sz \<and> curr_buf = None then Inr (False, None)
        else
          bindE (slice target offset (length target)) (\<lambda>front.
          bindE (if curr_buf_start < file_pos + sz then unwrap ''called unwrap on None'' curr_buf
                 else unwrap ''called unwrap on None'' (eb_buf_map eb (idx + 1))) (\<lambda>next_buf.
          bindE (slice next_buf 0 (sz - (BIG_BUF_SIZE - offset))) (\<lambda>back.
          Inr (False, Some (front @ back)))))))))"

definition eb_get_entry_bz :: "nat \<Rightarrow> entry_buffer \<Rightarrow> (bool \<times> bytes option) result" where
  "eb_get_entry_bz file_pos eb = eb_get_entry_bz_at file_pos None eb"

subsection \<open>Writer\<close>

definition ebw_append :: "entry \<Rightarrow> u64 list \<Rightarrow> bytes option \<times> entry_buffer \<Rightarrow> (nat \<times> bytes option \<times> entry_buffer) result" where
  "ebw_append e dsns w =
     bindE (unwrap ''called unwrap on None'' (fst w)) (\<lambda>curr_buf.
     bindE (eb_append e dsns curr_buf (snd w)) (\<lambda>(pos, curr_buf, eb).
     Inr (pos, Some curr_buf, eb)))"

definition ebw_end_block :: "nat \<Rightarrow> u64 \<Rightarrow> u64 \<Rightarrow> bytes option \<times> entry_buffer \<Rightarrow> (bytes option \<times> entry_buffer) result" where
  "ebw_end_block compact_done_pos compact_done_sn sn_end w =
     bindE (unwrap ''called unwrap on None'' (fst w)) (\<lambda>curr_buf.
     Inr (Some curr_buf, eb_end_block compact_done_pos compact_done_sn sn_end curr_buf (snd w)))"

definition ebw_get_entry_bz_at :: "nat \<Rightarrow> bytes option \<times> entry_buffer \<Rightarrow> (bool \<times> bytes option) result" where
  "ebw_get_entry_bz_at file_pos w =
     bindE (unwrap ''called unwrap on None'' (fst w)) (\<lambda>curr_buf.
     eb_get_entry_bz_at file_pos (Some curr_buf) (snd w))"

subsection \<open>Reader\<close>

text \<open>The loop at the head of \<^verbatim>\<open>read_next_entry\<close>: it receives positions until one is ahead, and
  returns whether it met the end of a block, or \<open>None\<close> where it waits.\<close>

fun br_wait :: "int list \<Rightarrow> entry_buffer \<Rightarrow> buf_reader \<Rightarrow> (bool option \<times> int list \<times> buf_reader) result" where
  "br_wait ch eb rd =
     (if int (br_curr_pos rd) < br_end_pos rd then Inr (Some False, ch, rd)
      else case ch of [] \<Rightarrow> Inr (None, ch, rd) | pos # ch \<Rightarrow>
        if pos = I64_MIN then Inr (Some True, ch, rd \<lparr> br_curr_buf := None \<rparr>)
        else
          bindE (case br_curr_buf rd of Some b \<Rightarrow> Inr b
                 | None \<Rightarrow> bindE (eb_get_and_remove_buf (br_curr_pos rd div BIG_BUF_SIZE) (- 1) eb) (\<lambda>(b, _). Inr b))
            (\<lambda>b. br_wait ch eb (rd \<lparr> br_curr_buf := Some b, br_end_pos := pos \<rparr>)))"

declare br_wait.simps [simp del]

datatype item = Ent nat bytes | Eob nat | Info int u64 u64

text \<open>What the reader is handed: an entry with its position, the end of a block, and the numbers the
  writer sends with it.\<close>

definition br_read_next_entry :: "entry_buffer \<times> buf_reader \<Rightarrow> (item option \<times> entry_buffer \<times> buf_reader) result" where
  "br_read_next_entry s =
     (let (eb, rd) = s; file_pos = br_curr_pos rd in
      bindE (br_wait (eb_chan eb) eb rd) (\<lambda>(eob, ch, rd).
      let eb = eb \<lparr> eb_chan := ch \<rparr> in
      if eob = None then Inr (None, eb, rd)
      else if eob = Some True then Inr (Some (Eob file_pos), eb, rd)
      else
       (let idx = br_curr_pos rd div BIG_BUF_SIZE; offset = br_curr_pos rd mod BIG_BUF_SIZE in
        bindE (unwrap ''called unwrap on None'' (br_curr_buf rd)) (\<lambda>curr_buf.
        bindE (slice curr_buf offset (length curr_buf)) (\<lambda>front.
        bindE (get_entry_len front) (\<lambda>sz.
        let rd = rd \<lparr> br_curr_pos := br_curr_pos rd + sz \<rparr> in
        if offset + sz < BIG_BUF_SIZE then
          bindE (slice curr_buf offset (offset + sz)) (\<lambda>bz. Inr (Some (Ent file_pos bz), eb, rd))
        else
          bindE (eb_get_and_remove_buf (idx + 1) (int idx - int (br_buf_margin rd div BIG_BUF_SIZE) - 1) eb) (\<lambda>(next_buf, eb).
          bindE (slice next_buf 0 (sz - (BIG_BUF_SIZE - offset))) (\<lambda>back.
          Inr (Some (Ent file_pos (front @ back)), eb,
               rd \<lparr> br_scratch_pad := front @ back, br_curr_buf := Some next_buf \<rparr>)))))))))"

definition br_read_extra_info :: "entry_buffer \<Rightarrow> ((int \<times> u64 \<times> u64) \<times> entry_buffer) result" where
  "br_read_extra_info eb =
     (case eb_chan eb of a # b # c # ch \<Rightarrow> Inr ((a, word_of_int b, word_of_int c), eb \<lparr> eb_chan := ch \<rparr>)
      | _ \<Rightarrow> Inl (Err ''recv''))"

section \<open>The bytes held by the buffers\<close>

text \<open>The writer's current buffer is the buffer of the end position.  \<open>m_at\<close> is the byte at a
  position, \<open>m_held\<close> that a range holds given bytes.\<close>

definition eb_view :: "entry_buffer \<Rightarrow> bytes \<Rightarrow> (nat \<rightharpoonup> bytes)" where
  "eb_view eb cb = (eb_buf_map eb)(eb_end eb div BIG_BUF_SIZE \<mapsto> cb)"

definition m_at :: "(nat \<rightharpoonup> bytes) \<Rightarrow> nat \<Rightarrow> byte option" where
  "m_at m q = map_option (\<lambda>b. b ! (q mod BIG_BUF_SIZE)) (m (q div BIG_BUF_SIZE))"

definition m_held :: "(nat \<rightharpoonup> bytes) \<Rightarrow> nat \<Rightarrow> bytes \<Rightarrow> bool" where
  "m_held m p bz \<longleftrightarrow> (\<forall>i<length bz. m_at m (p + i) = Some (bz ! i))"

definition eb_ok :: "entry_buffer \<Rightarrow> bytes \<Rightarrow> bool" where
  "eb_ok eb cb \<longleftrightarrow> length cb = BIG_BUF_SIZE \<and> (\<forall>i b. eb_buf_map eb i = Some b \<longrightarrow> length b = BIG_BUF_SIZE)
     \<and> (\<forall>b\<in>set (eb_free_list eb). length b = BIG_BUF_SIZE)"

lemma big_pos [simp]: "0 < BIG_BUF_SIZE" and big_mod8: "BIG_BUF_SIZE mod 8 = 0"
  by (simp_all add: layout_defs)

lemma m_at_upd: "m_at (m(i \<mapsto> b)) q = (if q div BIG_BUF_SIZE = i then Some (b ! (q mod BIG_BUF_SIZE)) else m_at m q)"
  by (simp add: m_at_def)

lemma m_held_append: "m_held m p (xs @ ys) \<longleftrightarrow> m_held m p xs \<and> m_held m (p + length xs) ys"
proof -
  have "(\<forall>i<length xs + length ys. m_at m (p + i) = Some ((xs @ ys) ! i)) \<longleftrightarrow>
      (\<forall>i<length xs. m_at m (p + i) = Some (xs ! i)) \<and> (\<forall>i<length ys. m_at m (p + (length xs + i)) = Some (ys ! i))"
    (is "?l \<longleftrightarrow> ?r1 \<and> ?r2")
  proof (intro iffI conjI allI impI)
    fix i assume ?l and "i < length xs"
    then show "m_at m (p + i) = Some (xs ! i)" by (auto simp: nth_append)
  next
    fix i assume ?l and "i < length ys"
    then show "m_at m (p + (length xs + i)) = Some (ys ! i)"
      by (metis nat_add_left_cancel_less nth_append_length_plus)
  next
    fix i assume r: "?r1 \<and> ?r2" and i: "i < length xs + length ys"
    show "m_at m (p + i) = Some ((xs @ ys) ! i)"
    proof (cases "i < length xs")
      case False
      then obtain j where "i = length xs + j" by (metis less_eqE not_less)
      with r i show ?thesis by (simp add: nth_append)
    qed (use r in \<open>simp add: nth_append\<close>)
  qed
  then show ?thesis by (simp add: m_held_def add.assoc)
qed

lemma m_held_cong: "(\<And>i. i < length bz \<Longrightarrow> m_at m (p + i) = m_at m' (p + i)) \<Longrightarrow> m_held m p bz = m_held m' p bz"
  by (simp add: m_held_def)

lemma big_split: "p = p div BIG_BUF_SIZE * BIG_BUF_SIZE + p mod BIG_BUF_SIZE" "p mod BIG_BUF_SIZE < BIG_BUF_SIZE"
  by (simp_all add: layout_defs)

lemma within_buf:
  assumes "p mod BIG_BUF_SIZE + i < BIG_BUF_SIZE"
  shows "(p + i) div BIG_BUF_SIZE = p div BIG_BUF_SIZE" and "(p + i) mod BIG_BUF_SIZE = p mod BIG_BUF_SIZE + i"
proof -
  have "p + i = p div BIG_BUF_SIZE * BIG_BUF_SIZE + (p mod BIG_BUF_SIZE + i)"
    using big_split(1) [of p] by linarith
  then show "(p + i) div BIG_BUF_SIZE = p div BIG_BUF_SIZE" and "(p + i) mod BIG_BUF_SIZE = p mod BIG_BUF_SIZE + i"
    using assms by (metis add.right_neutral big_pos div_less div_mult_self3 less_numeral_extra(3), metis mod_less mod_mult_self3)
qed

lemma next_buf:
  assumes "BIG_BUF_SIZE \<le> p mod BIG_BUF_SIZE + i" and "i \<le> BIG_BUF_SIZE"
  shows "(p + i) div BIG_BUF_SIZE = p div BIG_BUF_SIZE + 1"
    and "(p + i) mod BIG_BUF_SIZE = p mod BIG_BUF_SIZE + i - BIG_BUF_SIZE"
proof -
  have m: "p mod BIG_BUF_SIZE + i - BIG_BUF_SIZE < BIG_BUF_SIZE"
    using assms(2) big_split(2) [of p] by linarith
  have "p + i = (p div BIG_BUF_SIZE + 1) * BIG_BUF_SIZE + (p mod BIG_BUF_SIZE + i - BIG_BUF_SIZE)"
    using big_split(1) [of p] assms(1) unfolding add_mult_distrib by linarith
  then show "(p + i) div BIG_BUF_SIZE = p div BIG_BUF_SIZE + 1"
    and "(p + i) mod BIG_BUF_SIZE = p mod BIG_BUF_SIZE + i - BIG_BUF_SIZE"
    using m by (metis add.right_neutral big_pos div_less div_mult_self3 less_numeral_extra(3), metis mod_less mod_mult_self3)
qed

lemma same_buf_less: "q div BIG_BUF_SIZE = p div BIG_BUF_SIZE \<Longrightarrow> q < p \<Longrightarrow> q mod BIG_BUF_SIZE < p mod BIG_BUF_SIZE"
  by (metis div_mult_mod_eq nat_add_left_cancel_less)

lemma m_held_one:
  assumes "m (p div BIG_BUF_SIZE) = Some b" "length b = BIG_BUF_SIZE" "p mod BIG_BUF_SIZE + length bz \<le> BIG_BUF_SIZE"
  shows "m_held m p bz \<longleftrightarrow> take (length bz) (drop (p mod BIG_BUF_SIZE) b) = bz"
proof -
  have "m_at m (p + i) = Some (b ! (p mod BIG_BUF_SIZE + i))" if "i < length bz" for i
    using within_buf [of p i] assms that by (simp add: m_at_def)
  then have "m_held m p bz \<longleftrightarrow> (\<forall>i<length bz. b ! (p mod BIG_BUF_SIZE + i) = bz ! i)"
    by (simp add: m_held_def)
  also have "\<dots> \<longleftrightarrow> take (length bz) (drop (p mod BIG_BUF_SIZE) b) = bz"
    using assms(2,3) by (auto simp: list_eq_iff_nth_eq)
  finally show ?thesis .
qed

lemma m_held_buf:
  assumes "m_held m p bz" and "bz \<noteq> []"
  obtains b where "m (p div BIG_BUF_SIZE) = Some b"
  using assms by (auto simp: m_held_def m_at_def dest: spec [of _ 0])

section \<open>Appending\<close>

lemma eb_append_inside:
  assumes ok: "eb_ok eb cb" and e: "length (e_next_key_hash e) = 32"
    and fit: "eb_end eb mod BIG_BUF_SIZE + length (entry_layout e dsns) < BIG_BUF_SIZE"
  shows "eb_append e dsns cb eb =
    Inr (eb_end eb, splice cb (eb_end eb mod BIG_BUF_SIZE) (entry_layout e dsns),
         eb \<lparr> eb_end := eb_end eb + length (entry_layout e dsns) \<rparr>)"
proof -
  have sz: "get_serialized_len e (length dsns) = length (entry_layout e dsns)"
    using length_entry_layout [OF e] by simp
  have l: "length cb = BIG_BUF_SIZE" using ok by (simp add: eb_ok_def)
  have "dump e (drop (eb_end eb mod BIG_BUF_SIZE) cb) dsns = Inr (length (entry_layout e dsns),
      entry_layout e dsns @ drop (length (entry_layout e dsns)) (drop (eb_end eb mod BIG_BUF_SIZE) cb))"
    using dump_eq [OF e, of dsns "drop (eb_end eb mod BIG_BUF_SIZE) cb"] fit l by (simp add: sz)
  then show ?thesis using fit l
    by (simp add: eb_append_def sz Let_def splice_def add.commute)
qed

lemma eb_append_overflow:
  assumes ok: "eb_ok eb cb" and e: "length (e_next_key_hash e) = 32"
    and big: "length (entry_layout e dsns) \<le> BIG_BUF_SIZE"
    and fit: "BIG_BUF_SIZE \<le> eb_end eb mod BIG_BUF_SIZE + length (entry_layout e dsns)"
  defines "n \<equiv> BIG_BUF_SIZE - eb_end eb mod BIG_BUF_SIZE"
  obtains nb fl where "length nb = BIG_BUF_SIZE" "take (length (entry_layout e dsns) - n) nb = drop n (entry_layout e dsns)"
    and "set fl \<subseteq> set (eb_free_list eb)"
    and "eb_append e dsns cb eb = Inr (eb_end eb, nb, eb \<lparr> eb_end := eb_end eb + length (entry_layout e dsns),
      eb_buf_map := (eb_buf_map eb)(eb_end eb div BIG_BUF_SIZE \<mapsto> splice cb (eb_end eb mod BIG_BUF_SIZE) (take n (entry_layout e dsns))),
      eb_free_list := fl, eb_chan := eb_chan eb @ [int (eb_end eb)] \<rparr>)"
proof -
  let ?L = "entry_layout e dsns" and ?off = "eb_end eb mod BIG_BUF_SIZE"
  have sz: "get_serialized_len e (length dsns) = length ?L" using length_entry_layout [OF e] by simp
  have l: "length cb = BIG_BUF_SIZE" using ok by (simp add: eb_ok_def)
  have off: "?off < BIG_BUF_SIZE" by (rule big_split)
  have n: "n \<le> length ?L" using fit by (simp add: n_def)
  obtain nb0 fl where al: "eb_allocate eb = (nb0, eb \<lparr> eb_free_list := fl \<rparr>)" and nb0: "length nb0 = BIG_BUF_SIZE"
    and fl: "set fl \<subseteq> set (eb_free_list eb)"
  proof (cases "eb_free_list eb = []")
    case True
    then have "eb_allocate eb = (new_big_buf_boxed, eb \<lparr> eb_free_list := [] \<rparr>)" by (simp add: eb_allocate_def)
    then show thesis by (rule that) (simp_all add: new_big_buf_boxed_def)
  next
    case False
    then have "eb_allocate eb = (last (eb_free_list eb), eb \<lparr> eb_free_list := butlast (eb_free_list eb) \<rparr>)"
      by (simp add: eb_allocate_def)
    then show thesis by (rule that) (use ok False in \<open>auto simp: eb_ok_def dest: in_set_butlastD\<close>)
  qed
  have d: "dump e nb0 dsns = Inr (length ?L, ?L @ drop (length ?L) nb0)"
    using dump_eq [OF e, of dsns nb0] big nb0 by (simp add: sz)
  have s1: "slice (?L @ drop (length ?L) nb0) 0 n = Inr (take n ?L)"
    and s2: "slice (?L @ drop (length ?L) nb0) n (length ?L) = Inr (drop n ?L)"
    using n nb0 big by (simp_all add: slice_def)
  have w1: "write_at cb ?off (take n ?L) = Inr (splice cb ?off (take n ?L))"
    using n l off by (simp add: n_def)
  define nb where "nb = splice (?L @ drop (length ?L) nb0) 0 (drop n ?L)"
  have w2: "write_at (?L @ drop (length ?L) nb0) 0 (drop n ?L) = Inr nb" by (simp add: nb_def)
  have "length nb = BIG_BUF_SIZE" using nb0 big by (simp add: nb_def splice_def)
  moreover have "take (length ?L - n) nb = drop n ?L" by (simp add: nb_def splice_def)
  moreover have "eb_append e dsns cb eb = Inr (eb_end eb, nb, eb \<lparr> eb_end := eb_end eb + length ?L,
      eb_buf_map := (eb_buf_map eb)(eb_end eb div BIG_BUF_SIZE \<mapsto> splice cb ?off (take n ?L)),
      eb_free_list := fl, eb_chan := eb_chan eb @ [int (eb_end eb)] \<rparr>)"
    using big fit l by (simp add: eb_append_def sz Let_def al d s1 s2 w1 w2 flip: n_def)
  ultimately show thesis using fl that by blast
qed

text \<open>What an append does to the bytes: everything below the old end stays, the entry is stored at
  the old end, and a full buffer is announced with the position of the entry that filled it.\<close>

lemma eb_append_view:
  assumes ok: "eb_ok eb cb" and e: "length (e_next_key_hash e) = 32"
    and big: "length (entry_layout e dsns) \<le> BIG_BUF_SIZE"
  obtains cb' eb' where "eb_append e dsns cb eb = Inr (eb_end eb, cb', eb')" and "eb_ok eb' cb'"
    and "eb_end eb' = eb_end eb + length (entry_layout e dsns)" "eb_start eb' = eb_start eb"
    and "\<forall>q<eb_end eb. m_at (eb_view eb' cb') q = m_at (eb_view eb cb) q"
    and "m_held (eb_view eb' cb') (eb_end eb) (entry_layout e dsns)"
    and "eb_chan eb' = eb_chan eb @ (if eb_end eb mod BIG_BUF_SIZE + length (entry_layout e dsns) < BIG_BUF_SIZE then []
           else [int (eb_end eb)])"
    and "eb_buf_map eb' = (if eb_end eb mod BIG_BUF_SIZE + length (entry_layout e dsns) < BIG_BUF_SIZE then eb_buf_map eb
           else (eb_buf_map eb)(eb_end eb div BIG_BUF_SIZE := eb_view eb' cb' (eb_end eb div BIG_BUF_SIZE)))"
proof (cases "eb_end eb mod BIG_BUF_SIZE + length (entry_layout e dsns) < BIG_BUF_SIZE")
  case True
  let ?L = "entry_layout e dsns" and ?off = "eb_end eb mod BIG_BUF_SIZE"
  let ?cb = "splice cb ?off ?L" and ?eb = "eb \<lparr> eb_end := eb_end eb + length ?L \<rparr>"
  have l: "length cb = BIG_BUF_SIZE" using ok by (simp add: eb_ok_def)
  have idx: "(eb_end eb + length ?L) div BIG_BUF_SIZE = eb_end eb div BIG_BUF_SIZE" using within_buf(1) [OF True] .
  have old: "m_at (eb_view ?eb ?cb) q = m_at (eb_view eb cb) q" if q: "q < eb_end eb" for q
  proof (cases "q div BIG_BUF_SIZE = eb_end eb div BIG_BUF_SIZE")
    case True
    then have "q mod BIG_BUF_SIZE < ?off" using q by (simp add: same_buf_less)
    moreover have "?off + length ?L \<le> length cb" using \<open>?off + length ?L < BIG_BUF_SIZE\<close> l by simp
    ultimately show ?thesis using True
      by (simp add: eb_view_def idx m_at_upd) (simp add: splice_def nth_append)
  qed (simp add: eb_view_def idx m_at_upd)
  have new: "m_held (eb_view ?eb ?cb) (eb_end eb) ?L"
    using True l by (subst m_held_one [where b = ?cb]) (simp_all add: eb_view_def idx take_drop_splice_same)
  have "eb_ok ?eb ?cb" using ok True l by (simp add: eb_ok_def)
  then show thesis
    by (rule that [OF eb_append_inside [OF ok e True]]) (use old new True in auto)
next
  case False
  let ?L = "entry_layout e dsns" and ?off = "eb_end eb mod BIG_BUF_SIZE" and ?idx = "eb_end eb div BIG_BUF_SIZE"
  let ?n = "BIG_BUF_SIZE - ?off"
  have fit: "BIG_BUF_SIZE \<le> ?off + length ?L" using False by simp
  have l: "length cb = BIG_BUF_SIZE" using ok by (simp add: eb_ok_def)
  have off: "?off < BIG_BUF_SIZE" by (rule big_split)
  obtain nb fl where nb: "length nb = BIG_BUF_SIZE" "take (length ?L - ?n) nb = drop ?n ?L"
    and fl: "set fl \<subseteq> set (eb_free_list eb)"
    and r: "eb_append e dsns cb eb = Inr (eb_end eb, nb, eb \<lparr> eb_end := eb_end eb + length ?L,
      eb_buf_map := (eb_buf_map eb)(?idx \<mapsto> splice cb ?off (take ?n ?L)),
      eb_free_list := fl, eb_chan := eb_chan eb @ [int (eb_end eb)] \<rparr>)"
    by (rule eb_append_overflow [OF ok e big fit])
  let ?full = "splice cb ?off (take ?n ?L)"
  let ?eb = "eb \<lparr> eb_end := eb_end eb + length ?L, eb_buf_map := (eb_buf_map eb)(?idx \<mapsto> ?full),
      eb_free_list := fl, eb_chan := eb_chan eb @ [int (eb_end eb)] \<rparr>"
  have idx: "(eb_end eb + length ?L) div BIG_BUF_SIZE = ?idx + 1" using next_buf(1) [OF fit big] .
  have view: "eb_view ?eb nb = (eb_buf_map eb)(?idx \<mapsto> ?full, ?idx + 1 \<mapsto> nb)" by (simp add: eb_view_def idx)
  have view0: "eb_view eb cb = (eb_buf_map eb)(?idx \<mapsto> cb)" by (simp add: eb_view_def)
  have full: "length ?full = BIG_BUF_SIZE" using l off fit by (subst length_splice) simp_all
  have old: "m_at (eb_view ?eb nb) q = m_at (eb_view eb cb) q" if q: "q < eb_end eb" for q
  proof -
    have q1: "q div BIG_BUF_SIZE \<le> ?idx" using q by (simp add: div_le_mono)
    show ?thesis
    proof (cases "q div BIG_BUF_SIZE = ?idx")
      case True
      then have "q mod BIG_BUF_SIZE < ?off" using q by (simp add: same_buf_less)
      then show ?thesis using True l off unfolding view view0 m_at_upd by (simp add: splice_def nth_append)
    next
      case False
      then show ?thesis using q1 unfolding view view0 m_at_upd by simp
    qed
  qed
  have h1: "m_held (eb_view ?eb nb) (eb_end eb) (take ?n ?L)"
  proof (subst m_held_one [where b = ?full])
    show "eb_view ?eb nb ?idx = Some ?full" unfolding view by simp
    show "take (length (take ?n ?L)) (drop ?off ?full) = take ?n ?L"
      using off l by (intro take_drop_splice_same) simp
    show "?off + length (take ?n ?L) \<le> BIG_BUF_SIZE" using off fit by simp
  qed (rule full)
  have p: "eb_end eb + ?n = (?idx + 1) * BIG_BUF_SIZE"
    using big_split(1) [of "eb_end eb"] off unfolding add_mult_distrib by linarith
  have h2: "m_held (eb_view ?eb nb) (eb_end eb + ?n) (drop ?n ?L)"
  proof (subst m_held_one [where b = nb])
    show "eb_view ?eb nb ((eb_end eb + ?n) div BIG_BUF_SIZE) = Some nb" unfolding p view by simp
    show "(eb_end eb + ?n) mod BIG_BUF_SIZE + length (drop ?n ?L) \<le> BIG_BUF_SIZE"
      unfolding p length_drop mod_mult_self2_is_0 using big by linarith
    show "take (length (drop ?n ?L)) (drop ((eb_end eb + ?n) mod BIG_BUF_SIZE) nb) = drop ?n ?L"
      unfolding p length_drop mod_mult_self2_is_0 using nb(2) by simp
  qed (rule nb(1))
  have "length (take ?n ?L) = ?n" using fit by simp
  then have new: "m_held (eb_view ?eb nb) (eb_end eb) ?L"
    using h1 h2 m_held_append [of _ "eb_end eb" "take ?n ?L" "drop ?n ?L"] by simp
  have "eb_ok ?eb nb" using ok full nb fl by (auto simp: eb_ok_def)
  then show thesis
    by (rule that [OF r]) (use old new False in \<open>auto simp: view\<close>)
qed

section \<open>Reading by position\<close>

lemma slice_held:
  assumes "m_held m p bz" "m (p div BIG_BUF_SIZE) = Some b" "length b = BIG_BUF_SIZE"
    "p mod BIG_BUF_SIZE + length bz \<le> BIG_BUF_SIZE"
  shows "slice b (p mod BIG_BUF_SIZE) (p mod BIG_BUF_SIZE + length bz) = Inr bz"
  using m_held_one [of m p b bz] assms by simp

lemma m_held_take: "m_held m p bz \<Longrightarrow> m_held m p (take n bz)"
  by (simp add: m_held_def)

lemma m_held_drop: "m_held m p bz \<Longrightarrow> n \<le> length bz \<Longrightarrow> m_held m (p + n) (drop n bz)"
  using m_held_append [of m p "take n bz" "drop n bz"] by simp

lemma aligned_room: "p mod 8 = 0 \<Longrightarrow> p mod BIG_BUF_SIZE + 8 \<le> BIG_BUF_SIZE"
proof -
  assume p: "p mod 8 = 0"
  have "p mod BIG_BUF_SIZE mod 8 = 0" using p by (simp add: layout_defs mod_mod_cancel)
  then obtain k where k: "p mod BIG_BUF_SIZE = 8 * k" by (metis mod_0_imp_dvd dvdE)
  have B: "BIG_BUF_SIZE = 8 * 8192" by (simp add: layout_defs)
  have "8 * k < BIG_BUF_SIZE" using big_split(2) [of p] unfolding k .
  then have "k + 1 \<le> 8192" unfolding B by simp
  then have "8 * (k + 1) \<le> 8 * 8192" by (rule mult_le_mono2)
  then show ?thesis unfolding k unfolding B by simp
qed

lemma eb_get_held:
  assumes ok: "eb_ok eb cb" and held: "m_held (eb_view eb cb) p bz" and bz: "bz = entry_layout e dsns" "entry_ok e dsns"
    and rng: "eb_start eb \<le> p" "p + length bz \<le> eb_end eb" and al: "p mod 8 = 0" and big: "length bz \<le> BIG_BUF_SIZE"
  shows "eb_get_entry_bz_at p (Some cb) eb = Inr (False, Some bz)"
proof -
  let ?B = BIG_BUF_SIZE
  let ?idx = "p div ?B" and ?off = "p mod ?B" and ?last = "eb_end eb div ?B"
  have l5: "5 \<le> length bz" using layout_ge_5 bz(1) by simp
  have sz: "get_entry_len (take 5 bz) = Inr (length bz)" using get_entry_len_header [OF bz(2)] by (simp add: bz(1) take5_layout)
  have lt: "\<not> eb_end eb \<le> p" using rng(2) l5 by linarith
  have room: "?off + 5 \<le> ?B" using aligned_room [OF al] by simp
  have len: "length b = ?B" if "eb_view eb cb i = Some b" for i b
    using that ok by (auto simp: eb_view_def eb_ok_def split: if_splits)
  obtain b where b: "eb_view eb cb ?idx = Some b" by (rule m_held_buf [OF held]) (use l5 in auto)
  have s5: "slice b ?off (?off + 5) = Inr (take 5 bz)"
    using slice_held [OF m_held_take [OF held, of 5] b len [OF b]] l5 room by simp
  have le: "?idx \<le> ?last" using lt by (simp add: div_le_mono)
  show ?thesis
  proof (cases "?last * ?B \<le> p")
    case True
    then have last: "?last = ?idx" using le by (metis antisym div_le_mono nonzero_mult_div_cancel_right big_pos less_numeral_extra(3))
    then have "cb = b" using b by (simp add: eb_view_def)
    have "?off + length bz \<le> eb_end eb mod ?B"
      using rng(2) last by (metis add.assoc div_mult_mod_eq nat_add_left_cancel_le)
    then have "?off + length bz \<le> ?B" using big_split(2) [of "eb_end eb"] by linarith
    then have "slice b ?off (?off + length bz) = Inr bz" by (rule slice_held [OF held b len [OF b]])
    then show ?thesis using True rng(1) lt s5 sz \<open>cb = b\<close> by (simp add: eb_get_entry_bz_at_def Let_def)
  next
    case False
    then have neq: "?idx < ?last" by (metis big_split(1) add_leD1 le_add1 le_neq_implies_less le)
    then have bm: "eb_buf_map eb ?idx = Some b" using b by (simp add: eb_view_def)
    show ?thesis
    proof (cases "?off + length bz \<le> ?B")
      case True
      then have "slice b ?off (?off + length bz) = Inr bz" by (rule slice_held [OF held b len [OF b]])
      then show ?thesis using False rng(1) lt s5 sz bm True by (simp add: eb_get_entry_bz_at_def Let_def)
    next
      case long: False
      let ?n = "?B - ?off"
      have n: "?n \<le> length bz" using long by simp
      have p1: "p + ?n = (?idx + 1) * ?B" using big_split [of p] unfolding add_mult_distrib by linarith
      have d1: "(p + ?n) div ?B = ?idx + 1" "(p + ?n) mod ?B = 0" unfolding p1 by simp_all
      have h2: "m_held (eb_view eb cb) (p + ?n) (drop ?n bz)" by (rule m_held_drop [OF held n])
      obtain c where c: "eb_view eb cb (?idx + 1) = Some c"
      proof (rule m_held_buf [OF h2])
        have "?n < length bz" using long big_split(2) [of p] by linarith
        then show "drop ?n bz \<noteq> []" by (simp only: drop_eq_Nil not_le)
      qed (simp only: d1(1))
      have fr: "slice b ?off (length b) = Inr (take ?n bz)"
        using slice_held [OF m_held_take [OF held, of ?n] b len [OF b]] n big_split(2) [of p] by (simp add: len [OF b])
      have bk: "slice c 0 (length bz - ?n) = Inr (drop ?n bz)"
      proof -
        have "length (drop ?n bz) \<le> ?B" unfolding length_drop using big by linarith
        then have "slice c ((p + ?n) mod ?B) ((p + ?n) mod ?B + length (drop ?n bz)) = Inr (drop ?n bz)"
          by (intro slice_held [OF h2 _ len [OF c]]) (simp_all only: d1 c add_0)
        then show ?thesis unfolding d1(2) by (simp only: add_0 length_drop)
      qed
      have nx: "(if ?last * ?B < p + length bz then unwrap ''called unwrap on None'' (Some cb)
          else unwrap ''called unwrap on None'' (eb_buf_map eb (?idx + 1))) = Inr c"
      proof (cases "?last * ?B < p + length bz")
        case True
        then have "?last * ?B < (?idx + 1 + 1) * ?B" using p1 big n unfolding add_mult_distrib by linarith
        then have "?last < ?idx + 1 + 1" by (simp only: mult_less_cancel2)
        then have "?last = ?idx + 1" using neq by linarith
        then show ?thesis using True c by (simp add: eb_view_def)
      next
        case False
        then have "(?idx + 1) * ?B < ?last * ?B" using p1 long big_split(2) [of p] by linarith
        then have "?idx + 1 \<noteq> ?last" by (metis less_irrefl)
        then show ?thesis using False c by (simp add: eb_view_def)
      qed
      have "bindE (slice c 0 (length bz - ?n)) (\<lambda>back. Inr (False, Some (take ?n bz @ back))) = Inr (False, Some bz)"
        using bk by simp
      then show ?thesis using False long rng(1) lt s5 sz bm fr nx
        by (simp only: eb_get_entry_bz_at_def Let_def bindE.simps unwrap_Some if_False not_less [symmetric] option.distinct
            simp_thms)
    qed
  qed
qed

section \<open>The stream from the writer to the reader\<close>

text \<open>
  The pending items are those written and not yet read.  \<open>msgs\<close> is what the writer sends for them,
  \<open>laid\<close> that their entries lie one behind the other, \<open>published\<close> that the buffer of an announced
  position can be fetched and holds every byte below it.
\<close>

fun msgs :: "item list \<Rightarrow> int list" where
  "msgs [] = []"
| "msgs (Ent p bz # xs) = (if p mod BIG_BUF_SIZE + length bz < BIG_BUF_SIZE then [] else [int p]) @ msgs xs"
| "msgs (Eob p # xs) = int p # I64_MIN # msgs xs"
| "msgs (Info a b c # xs) = a # sint b # sint c # msgs xs"

fun is_mark :: "item \<Rightarrow> bool" where
  "is_mark (Ent p bz) \<longleftrightarrow> BIG_BUF_SIZE \<le> p mod BIG_BUF_SIZE + length bz"
| "is_mark (Eob p) \<longleftrightarrow> True"
| "is_mark (Info a b c) \<longleftrightarrow> False"

fun item_pos :: "item \<Rightarrow> nat" where
  "item_pos (Ent p bz) = p"
| "item_pos (Eob p) = p"
| "item_pos (Info a b c) = 0"

fun item_hi :: "item \<Rightarrow> nat" where
  "item_hi (Ent p bz) = (p div BIG_BUF_SIZE + 1) * BIG_BUF_SIZE"
| "item_hi (Eob p) = p"
| "item_hi (Info a b c) = 0"

fun item_wf :: "bool \<Rightarrow> item list \<Rightarrow> bool" where
  "item_wf x [] \<longleftrightarrow> \<not> x"
| "item_wf x (Ent p bz # xs) \<longleftrightarrow> \<not> x \<and> item_wf False xs"
| "item_wf x (Eob p # xs) \<longleftrightarrow> \<not> x \<and> item_wf True xs"
| "item_wf x (Info a b c # xs) \<longleftrightarrow> x \<and> item_wf False xs"

definition is_entry :: "bytes \<Rightarrow> bool" where
  "is_entry bz \<longleftrightarrow> (\<exists>e dsns. entry_ok e dsns \<and> bz = entry_layout e dsns) \<and> length bz \<le> BIG_BUF_SIZE"

fun laid :: "(nat \<rightharpoonup> bytes) \<Rightarrow> nat \<Rightarrow> item list \<Rightarrow> nat \<Rightarrow> bool" where
  "laid m p [] e \<longleftrightarrow> p = e"
| "laid m p (Ent q bz # xs) e \<longleftrightarrow> q = p \<and> is_entry bz \<and> m_held m p bz \<and> laid m (p + length bz) xs e"
| "laid m p (Eob q # xs) e \<longleftrightarrow> q = p \<and> laid m p xs e"
| "laid m p (Info a b c # xs) e \<longleftrightarrow> laid m p xs e"

definition published :: "(nat \<rightharpoonup> bytes) \<Rightarrow> (nat \<rightharpoonup> bytes) \<Rightarrow> item \<Rightarrow> bool" where
  "published bm m x \<longleftrightarrow> (is_mark x \<longrightarrow> bm (item_pos x div BIG_BUF_SIZE) \<noteq> None
     \<and> (\<forall>q<item_hi x. q div BIG_BUF_SIZE = item_pos x div BIG_BUF_SIZE \<longrightarrow> m_at bm q = m_at m q))"

lemma is_entry_len:
  assumes "is_entry bz"
  shows "5 \<le> length bz" "length bz mod 8 = 0" "length bz \<le> BIG_BUF_SIZE"
proof -
  obtain e dsns where e: "entry_ok e dsns" "bz = entry_layout e dsns" using assms by (auto simp: is_entry_def)
  show "5 \<le> length bz" unfolding e(2) by (rule layout_ge_5)
  show "length bz mod 8 = 0" unfolding e(2) length_entry_layout [OF entry_ok_simps(2) [OF e(1)]] by (rule layout_multiple_of_8)
  show "length bz \<le> BIG_BUF_SIZE" using assms by (simp add: is_entry_def)
qed

lemma is_entry_get_len:
  assumes "is_entry bz" "5 \<le> length x" "take 5 x = take 5 bz"
  shows "get_entry_len x = Inr (length bz)"
proof -
  obtain e dsns where e: "entry_ok e dsns" "bz = entry_layout e dsns" using assms(1) by (auto simp: is_entry_def)
  have "get_entry_len x = get_entry_len (take 5 x)"
    using assms(2) by (simp add: get_entry_len_def get_kv_len_def)
  also have "take 5 x = entry_header e dsns" unfolding assms(3) e(2) by (rule take5_layout)
  finally show ?thesis using get_entry_len_header [OF e(1)] e(2) by simp
qed

lemma laid_le: "laid m p xs e \<Longrightarrow> p \<le> e"
  by (induction m p xs e rule: laid.induct) auto

lemma laid_append: "laid m p (xs @ ys) e \<longleftrightarrow> (\<exists>q. laid m p xs q \<and> laid m q ys e)"
  by (induction m p xs e rule: laid.induct) auto

lemma laid_cong:
  assumes "laid m p xs e" and "\<And>q. p \<le> q \<Longrightarrow> q < e \<Longrightarrow> m_at m' q = m_at m q"
  shows "laid m' p xs e"
  using assms
proof (induction m p xs e rule: laid.induct)
  case (2 m p q bz xs e)
  then have l: "p + length bz \<le> e" using laid_le by simp
  have "m_held m' p bz = m_held m p bz" using 2(3) l by (intro m_held_cong) simp
  then show ?case using 2 by simp
qed auto

lemma laid_aligned: "laid m p xs e \<Longrightarrow> p mod 8 = 0 \<Longrightarrow> e mod 8 = 0"
proof (induction m p xs e rule: laid.induct)
  case (2 m p q bz xs e)
  then have "(p + length bz) mod 8 = 0" using is_entry_len(2) by (metis laid.simps(2) mod_add_left_eq plus_nat.add_0 mod_mod_trivial)
  then show ?case using 2 by simp
qed auto

lemma msgs_append: "msgs (xs @ ys) = msgs xs @ msgs ys"
  by (induction xs rule: msgs.induct) auto

lemma item_wf_append: "item_wf x xs \<Longrightarrow> item_wf x (xs @ ys) \<longleftrightarrow> item_wf False ys"
  by (induction x xs rule: item_wf.induct) auto

text \<open>Entries that are not announced stay in one buffer.\<close>

lemma unmarked_same_buf:
  assumes "laid m p xs e" and "\<forall>x\<in>set xs. (\<exists>q bz. x = Ent q bz) \<and> \<not> is_mark x"
  shows "e div BIG_BUF_SIZE = p div BIG_BUF_SIZE" and "msgs xs = []"
proof -
  have "e div BIG_BUF_SIZE = p div BIG_BUF_SIZE \<and> msgs xs = []" using assms
  proof (induction m p xs e rule: laid.induct)
    case (2 m p q bz xs e)
    then have "p mod BIG_BUF_SIZE + length bz < BIG_BUF_SIZE" by auto
    then show ?case using 2 within_buf(1) [of p "length bz"] by simp
  qed auto
  then show "e div BIG_BUF_SIZE = p div BIG_BUF_SIZE" and "msgs xs = []" by auto
qed

text \<open>The pending items up to the next announcement.\<close>

lemma item_wf_split:
  assumes "item_wf False xs"
  obtains mid rest where "xs = mid @ rest" "\<forall>x\<in>set mid. (\<exists>q bz. x = Ent q bz) \<and> \<not> is_mark x"
    and "rest = [] \<or> is_mark (hd rest)"
proof -
  have "\<exists>mid rest. xs = mid @ rest \<and> (\<forall>x\<in>set mid. (\<exists>q bz. x = Ent q bz) \<and> \<not> is_mark x) \<and> (rest = [] \<or> is_mark (hd rest))"
    using assms
  proof (induction xs)
    case (Cons x xs)
    show ?case
    proof (cases "is_mark x")
      case True
      then show ?thesis by (intro exI [of _ "[]"] exI [of _ "x # xs"]) simp
    next
      case False
      then obtain q bz where x: "x = Ent q bz" using Cons.prems by (cases x) auto
      then have "item_wf False xs" using Cons.prems by simp
      then obtain mid rest where "xs = mid @ rest \<and> (\<forall>x\<in>set mid. (\<exists>q bz. x = Ent q bz) \<and> \<not> is_mark x) \<and> (rest = [] \<or> is_mark (hd rest))"
        using Cons.IH by blast
      then show ?thesis using False x by (intro exI [of _ "x # mid"] exI [of _ rest]) auto
    qed
  qed simp
  then show thesis using that by blast
qed

lemma msgs_mark: "is_mark x \<Longrightarrow> msgs (x # xs) = int (item_pos x) # tl (msgs (x # xs))"
  by (cases x) auto

text \<open>
  The reader is idle (it holds no buffer, and everything pending is still announced in the channel)
  or busy: it has received the position of the pending item \<open>x\<close>, reads the entries \<open>pre\<close> before
  it, and its buffer has every byte up to the announced one.
\<close>

definition agree :: "bytes \<Rightarrow> nat \<Rightarrow> nat \<Rightarrow> (nat \<rightharpoonup> bytes) \<Rightarrow> bool" where
  "agree rb lo hi m \<longleftrightarrow> length rb = BIG_BUF_SIZE
     \<and> (\<forall>q. lo \<le> q \<and> q < hi \<and> q div BIG_BUF_SIZE = lo div BIG_BUF_SIZE \<longrightarrow> m_at m q = Some (rb ! (q mod BIG_BUF_SIZE)))"

definition rd_idle :: "entry_buffer \<Rightarrow> buf_reader \<Rightarrow> item list \<Rightarrow> bool" where
  "rd_idle eb rd P \<longleftrightarrow> br_curr_buf rd = None \<and> br_end_pos rd \<le> int (br_curr_pos rd) \<and> eb_chan eb = msgs P"

definition rd_busy :: "entry_buffer \<Rightarrow> buf_reader \<Rightarrow> (nat \<rightharpoonup> bytes) \<Rightarrow> item list \<Rightarrow> item \<Rightarrow> item list \<Rightarrow> bool" where
  "rd_busy eb rd m pre x rest \<longleftrightarrow> (\<exists>rb. br_curr_buf rd = Some rb \<and> agree rb (br_curr_pos rd) (item_hi x) m)
     \<and> (\<forall>y\<in>set pre. \<exists>q bz. y = Ent q bz) \<and> (\<forall>y\<in>set (tl pre). \<not> is_mark y) \<and> is_mark x
     \<and> br_end_pos rd = int (item_pos x) \<and> eb_chan eb = tl (msgs (x # rest))"

definition stream_core :: "entry_buffer \<Rightarrow> bytes \<Rightarrow> buf_reader \<Rightarrow> bool \<Rightarrow> item list \<Rightarrow> bool" where
  "stream_core eb cb rd ex P \<longleftrightarrow> eb_ok eb cb \<and> br_curr_pos rd mod 8 = 0
     \<and> laid (eb_view eb cb) (br_curr_pos rd) P (eb_end eb)
     \<and> (\<forall>x\<in>set P. published (eb_buf_map eb) (eb_view eb cb) x) \<and> item_wf ex P"

definition stream_inv :: "bytes option \<Rightarrow> entry_buffer \<Rightarrow> buf_reader \<Rightarrow> bool \<Rightarrow> item list \<Rightarrow> bool" where
  "stream_inv w eb rd ex P \<longleftrightarrow> (\<exists>cb. w = Some cb \<and> stream_core eb cb rd ex P
     \<and> (rd_idle eb rd P \<or> (\<not> ex \<and> (\<exists>pre x rest. P = pre @ x # rest \<and> rd_busy eb rd (eb_view eb cb) pre x rest))))"

lemma item_hi_le:
  assumes "laid m p xs e" "x \<in> set xs" "is_mark x"
  shows "item_hi x \<le> e" "p \<le> item_pos x" "item_pos x \<le> item_hi x"
proof -
  have "item_hi x \<le> e \<and> p \<le> item_pos x \<and> item_pos x \<le> item_hi x" using assms
  proof (induction m p xs e rule: laid.induct)
    case (2 m p q bz xs e)
    have le: "p + length bz \<le> e" using 2(2) by (auto dest: laid_le)
    have "item_hi x \<le> e \<and> p \<le> item_pos x \<and> item_pos x \<le> item_hi x" if "x = Ent p bz"
    proof -
      have "BIG_BUF_SIZE \<le> p mod BIG_BUF_SIZE + length bz" using that 2(4) by simp
      then have "(p div BIG_BUF_SIZE + 1) * BIG_BUF_SIZE \<le> e \<and> p \<le> (p div BIG_BUF_SIZE + 1) * BIG_BUF_SIZE"
        using le big_split [of p] unfolding add_mult_distrib by linarith
      then show ?thesis using that by simp
    qed
    then show ?case using 2 by auto
  next
    case (3 m p q xs e)
    then show ?case using laid_le [of m p xs e] by auto
  qed auto
  then show "item_hi x \<le> e" "p \<le> item_pos x" "item_pos x \<le> item_hi x" by auto
qed

lemma published_grow:
  assumes "published bm m x" and "item_hi x \<le> e" and "\<forall>q<e. m_at m' q = m_at m q"
    and "\<forall>d. bm' d = bm d \<or> (bm' d = m' d \<and> m' d \<noteq> None)"
  shows "published bm' m' x"
  unfolding published_def
proof (intro impI conjI allI)
  assume x: "is_mark x"
  let ?d = "item_pos x div BIG_BUF_SIZE"
  show "bm' ?d \<noteq> None" using assms(1,4) x unfolding published_def by metis
  fix q assume q: "q < item_hi x" "q div BIG_BUF_SIZE = ?d"
  have "m_at bm q = m_at m q" using assms(1) x q by (simp add: published_def)
  moreover have "m_at m' q = m_at m q" using assms(2,3) q by simp
  ultimately show "m_at bm' q = m_at m' q" using assms(4) [rule_format, of ?d] q(2) by (auto simp: m_at_def)
qed

lemma stream_grow:
  assumes inv: "stream_inv (Some cb) eb rd ex P" and ok: "eb_ok eb' cb'"
    and old: "\<forall>q<eb_end eb. m_at (eb_view eb' cb') q = m_at (eb_view eb cb) q"
    and ch: "eb_chan eb' = eb_chan eb @ msgs ys"
    and ys: "laid (eb_view eb' cb') (eb_end eb) ys (eb_end eb')" "item_wf False ys"
      "\<forall>y\<in>set ys. published (eb_buf_map eb') (eb_view eb' cb') y"
    and bm: "\<forall>d. eb_buf_map eb' d = eb_buf_map eb d \<or> (eb_buf_map eb' d = eb_view eb' cb' d \<and> eb_view eb' cb' d \<noteq> None)"
  shows "stream_inv (Some cb') eb' rd ex (P @ ys)"
proof -
  have core: "stream_core eb cb rd ex P"
    and rd: "rd_idle eb rd P \<or> (\<not> ex \<and> (\<exists>pre x rest. P = pre @ x # rest \<and> rd_busy eb rd (eb_view eb cb) pre x rest))"
    using inv by (auto simp: stream_inv_def)
  have laid: "laid (eb_view eb cb) (br_curr_pos rd) P (eb_end eb)" using core by (simp add: stream_core_def)
  have "laid (eb_view eb' cb') (br_curr_pos rd) P (eb_end eb)" by (rule laid_cong [OF laid]) (use old in simp)
  then have laid': "laid (eb_view eb' cb') (br_curr_pos rd) (P @ ys) (eb_end eb')" using ys(1) by (auto simp: laid_append)
  have pub: "published (eb_buf_map eb') (eb_view eb' cb') x" if x: "x \<in> set P" for x
  proof (cases "is_mark x")
    case True
    have "published (eb_buf_map eb) (eb_view eb cb) x" using core x by (simp add: stream_core_def)
    from this item_hi_le(1) [OF laid x True] old bm show ?thesis by (rule published_grow)
  qed (simp add: published_def)
  have "stream_core eb' cb' rd ex (P @ ys)"
    unfolding stream_core_def using ok laid' pub ys(2,3) core [unfolded stream_core_def] item_wf_append [of ex P ys]
    by (simp add: ball_Un)
  moreover have "rd_idle eb' rd (P @ ys)" if "rd_idle eb rd P"
    using that ch by (simp add: rd_idle_def msgs_append)
  moreover have "rd_busy eb' rd (eb_view eb' cb') pre x (rest @ ys)"
    if P: "P = pre @ x # rest" and b: "rd_busy eb rd (eb_view eb cb) pre x rest" for pre x rest
  proof -
    have x: "is_mark x" using b by (simp add: rd_busy_def)
    have hi: "item_hi x \<le> eb_end eb" using item_hi_le(1) [OF laid _ x] P by simp
    have "tl (msgs (x # rest @ ys)) = tl (msgs (x # rest)) @ msgs ys"
      using msgs_append [of "x # rest" ys] msgs_mark [OF x, of rest] by (metis append_Cons list.sel(3))
    moreover have "agree rb (br_curr_pos rd) (item_hi x) (eb_view eb' cb')"
      if "agree rb (br_curr_pos rd) (item_hi x) (eb_view eb cb)" for rb
      using that old hi by (simp add: agree_def)
    ultimately show ?thesis using b ch by (auto simp: rd_busy_def)
  qed
  ultimately show ?thesis unfolding stream_inv_def using rd by fastforce
qed

lemma stream_append:
  assumes inv: "stream_inv w eb rd ex P" and e: "entry_ok e dsns" and big: "length (entry_layout e dsns) \<le> BIG_BUF_SIZE"
  obtains w' eb' where "ebw_append e dsns (w, eb) = Inr (eb_end eb, w', eb')"
    and "stream_inv w' eb' rd ex (P @ [Ent (eb_end eb) (entry_layout e dsns)])"
proof -
  let ?L = "entry_layout e dsns"
  obtain cb where w: "w = Some cb" and ok: "eb_ok eb cb" using inv by (auto simp: stream_inv_def stream_core_def)
  obtain cb' eb' where a: "eb_append e dsns cb eb = Inr (eb_end eb, cb', eb')" "eb_ok eb' cb'"
    "eb_end eb' = eb_end eb + length ?L" "\<forall>q<eb_end eb. m_at (eb_view eb' cb') q = m_at (eb_view eb cb) q"
    "m_held (eb_view eb' cb') (eb_end eb) ?L"
    "eb_chan eb' = eb_chan eb @ (if eb_end eb mod BIG_BUF_SIZE + length ?L < BIG_BUF_SIZE then [] else [int (eb_end eb)])"
    "eb_buf_map eb' = (if eb_end eb mod BIG_BUF_SIZE + length ?L < BIG_BUF_SIZE then eb_buf_map eb
           else (eb_buf_map eb)(eb_end eb div BIG_BUF_SIZE := eb_view eb' cb' (eb_end eb div BIG_BUF_SIZE)))"
    by (rule eb_append_view [OF ok entry_ok_simps(2) [OF e] big])
  have some: "eb_view eb' cb' (eb_end eb div BIG_BUF_SIZE) \<noteq> None"
    using m_held_buf [OF a(5)] layout_ge_5 [of e dsns] by fastforce
  have ent: "is_entry ?L" using e big by (auto simp: is_entry_def)
  have "stream_inv (Some cb') eb' rd ex (P @ [Ent (eb_end eb) ?L])"
  proof (rule stream_grow [OF inv [unfolded w] a(2,4)])
    show "eb_chan eb' = eb_chan eb @ msgs [Ent (eb_end eb) ?L]" using a(6) by simp
    show "laid (eb_view eb' cb') (eb_end eb) [Ent (eb_end eb) ?L] (eb_end eb')" using a(3,5) ent by simp
    show "\<forall>y\<in>set [Ent (eb_end eb) ?L]. published (eb_buf_map eb') (eb_view eb' cb') y"
      using some a(7) by (simp add: published_def m_at_def)
    show "\<forall>d. eb_buf_map eb' d = eb_buf_map eb d \<or> (eb_buf_map eb' d = eb_view eb' cb' d \<and> eb_view eb' cb' d \<noteq> None)"
      using some a(7) by simp
  qed simp
  moreover have "ebw_append e dsns (w, eb) = Inr (eb_end eb, Some cb', eb')" using a(1) w by (simp add: ebw_append_def)
  ultimately show thesis using that by blast
qed

lemma stream_end_block:
  assumes inv: "stream_inv w eb rd ex P"
  obtains w' eb' where "ebw_end_block a b c (w, eb) = Inr (w', eb')"
    and "stream_inv w' eb' rd ex (P @ [Eob (eb_end eb), Info (int a) b c])"
proof -
  obtain cb where w: "w = Some cb" and ok: "eb_ok eb cb" using inv by (auto simp: stream_inv_def stream_core_def)
  let ?eb = "eb_end_block a b c cb eb"
  have view: "eb_view ?eb cb = eb_view eb cb" by (simp add: eb_view_def eb_end_block_def)
  have some: "eb_view eb cb (eb_end eb div BIG_BUF_SIZE) = Some cb" by (simp add: eb_view_def)
  have bm: "eb_buf_map ?eb = (eb_buf_map eb)(eb_end eb div BIG_BUF_SIZE \<mapsto> cb)" by (simp add: eb_end_block_def)
  have "stream_inv (Some cb) ?eb rd ex (P @ [Eob (eb_end eb), Info (int a) b c])"
  proof (rule stream_grow [OF inv [unfolded w]])
    show "eb_ok ?eb cb" using ok by (simp add: eb_ok_def eb_end_block_def)
    show "\<forall>y\<in>set [Eob (eb_end eb), Info (int a) b c]. published (eb_buf_map ?eb) (eb_view ?eb cb) y"
      using some by (simp add: published_def m_at_def bm view)
    show "\<forall>d. eb_buf_map ?eb d = eb_buf_map eb d \<or> (eb_buf_map ?eb d = eb_view ?eb cb d \<and> eb_view ?eb cb d \<noteq> None)"
      using some by (simp add: bm view)
  qed (simp_all add: view, simp_all add: eb_end_block_def)
  moreover have "ebw_end_block a b c (w, eb) = Inr (Some cb, ?eb)" by (simp add: ebw_end_block_def w)
  ultimately show thesis using that by blast
qed

subsection \<open>The reader's side\<close>

lemma laid_mark:
  assumes "laid m p (pre @ x # rest) e" "is_mark x"
  shows "laid m p pre (item_pos x)" "laid m (item_pos x) (x # rest) e"
  using assms by (cases x; auto simp: laid_append)+

lemma laid_entries_less:
  assumes "laid m p xs e" "xs \<noteq> []" "\<forall>y\<in>set xs. \<exists>q bz. y = Ent q bz"
  shows "p < e"
proof -
  obtain q bz ys where xs: "xs = Ent q bz # ys" using assms(2,3) by (cases xs) auto
  then have "is_entry bz" "p + length bz \<le> e" using assms(1) by (auto dest: laid_le)
  then show ?thesis using is_entry_len(1) [of bz] by linarith
qed

lemma eb_view_chan [simp]: "eb_view (eb \<lparr> eb_chan := c \<rparr>) cb = eb_view eb cb"
  by (simp add: eb_view_def)

lemma pos_not_min [simp]: "int n \<noteq> I64_MIN"
  by (simp add: I64_MIN_def)

definition wait_ok :: "entry_buffer \<Rightarrow> bytes \<Rightarrow> item list \<Rightarrow> bool option \<Rightarrow> int list \<Rightarrow> buf_reader \<Rightarrow> bool" where
  "wait_ok eb cb P st ch rd = (case st of
     None \<Rightarrow> (\<forall>p. Eob p \<notin> set P) \<and> (rd_idle (eb \<lparr> eb_chan := ch \<rparr>) rd P
       \<or> (\<exists>pre x rest. P = pre @ x # rest \<and> rd_busy (eb \<lparr> eb_chan := ch \<rparr>) rd (eb_view eb cb) pre x rest))
   | Some eob \<Rightarrow> if eob then \<exists>P'. P = Eob (br_curr_pos rd) # P' \<and> rd_idle (eb \<lparr> eb_chan := ch \<rparr>) rd P'
       else \<exists>pre x rest. P = pre @ x # rest \<and> pre \<noteq> [] \<and> rd_busy (eb \<lparr> eb_chan := ch \<rparr>) rd (eb_view eb cb) pre x rest)"

lemma wait_busy:
  assumes laid: "laid (eb_view eb cb) (br_curr_pos rd) (pre @ x # rest) e" and wf: "item_wf False (pre @ x # rest)"
    and b: "rd_busy (eb \<lparr> eb_chan := ch \<rparr>) rd (eb_view eb cb) pre x rest"
  obtains st ch' rd' where "br_wait ch eb rd = Inr (st, ch', rd')" "wait_ok eb cb (pre @ x # rest) st ch' rd'"
    "br_curr_pos rd' = br_curr_pos rd" "br_buf_margin rd' = br_buf_margin rd"
proof -
  obtain rb where rb: "br_curr_buf rd = Some rb" "agree rb (br_curr_pos rd) (item_hi x) (eb_view eb cb)"
    and ents: "\<forall>y\<in>set pre. \<exists>q bz. y = Ent q bz" and x: "is_mark x"
    and fin: "br_end_pos rd = int (item_pos x)" and ch: "ch = tl (msgs (x # rest))"
    using b by (auto simp: rd_busy_def)
  show thesis
  proof (cases "pre = []")
    case False
    then have "br_curr_pos rd < item_pos x" using laid_entries_less [OF laid_mark(1) [OF laid x]] ents by simp
    then have "br_wait ch eb rd = Inr (Some False, ch, rd)" using fin by (subst br_wait.simps) simp
    moreover have "wait_ok eb cb (pre @ x # rest) (Some False) ch rd" using False b by (auto simp: wait_ok_def)
    ultimately show thesis using that by blast
  next
    case pre: True
    have eq: "item_pos x = br_curr_pos rd" using laid_mark(1) [OF laid x] pre by simp
    show thesis
    proof (cases x)
      case (Eob p)
      let ?rd = "rd \<lparr> br_curr_buf := None \<rparr>"
      have "br_wait ch eb rd = Inr (Some True, msgs rest, ?rd)" using fin eq ch Eob by (subst br_wait.simps) simp
      moreover have "wait_ok eb cb (pre @ x # rest) (Some True) (msgs rest) ?rd"
        using pre Eob eq fin by (auto simp: wait_ok_def rd_idle_def)
      ultimately show thesis by (rule that) simp_all
    next
      case (Ent p bz)
      then have c: "ch = msgs rest" using ch x by simp
      have "item_wf False rest" using wf pre Ent by simp
      then obtain mid rest' where sp: "rest = mid @ rest'" "\<forall>y\<in>set mid. (\<exists>q bz. y = Ent q bz) \<and> \<not> is_mark y"
        "rest' = [] \<or> is_mark (hd rest')"
        by (rule item_wf_split)
      have lr: "laid (eb_view eb cb) (br_curr_pos rd) ((x # mid) @ rest') e" using laid pre sp(1) by simp
      have mm: "msgs mid = []" using unmarked_same_buf(2) sp(2) laid pre sp(1) Ent by (auto simp: laid_append)
      show thesis
      proof (cases rest')
        case Nil
        then have "br_wait ch eb rd = Inr (None, ch, rd)" using fin eq c mm sp(1) by (subst br_wait.simps) simp
        moreover have "\<forall>p. Eob p \<notin> set (pre @ x # rest)" using sp Nil pre Ent by auto
        then have "wait_ok eb cb (pre @ x # rest) None ch rd" using b by (auto simp: wait_ok_def)
        ultimately show thesis using that by blast
      next
        case (Cons y ys)
        then have y: "is_mark y" using sp(3) by simp
        let ?rd = "rd \<lparr> br_curr_buf := Some rb, br_end_pos := int (item_pos y) \<rparr>" and ?ch = "tl (msgs (y # ys))"
        have chy: "ch = int (item_pos y) # ?ch" using c mm sp(1) Cons msgs_mark [OF y, of ys] by (simp add: msgs_append)
        have ents': "\<forall>z\<in>set (x # mid). \<exists>q bz. z = Ent q bz" using sp(2) Ent by auto
        have lt: "br_curr_pos rd < item_pos y"
          using laid_entries_less [OF laid_mark(1) [OF lr [unfolded Cons] y]] ents' by simp
        have "br_wait ch eb rd = br_wait ?ch eb ?rd"
          unfolding chy using fin eq rb(1) by (subst br_wait.simps) simp
        also have "\<dots> = Inr (Some False, ?ch, ?rd)" using lt by (subst br_wait.simps) simp
        finally have w: "br_wait ch eb rd = Inr (Some False, ?ch, ?rd)" .
        have "agree rb (br_curr_pos rd) (item_hi y) (eb_view eb cb)"
          unfolding agree_def
        proof (intro conjI allI impI)
          show "length rb = BIG_BUF_SIZE" using rb(2) by (simp add: agree_def)
          fix q assume q: "br_curr_pos rd \<le> q \<and> q < item_hi y \<and> q div BIG_BUF_SIZE = br_curr_pos rd div BIG_BUF_SIZE"
          have "q < (q div BIG_BUF_SIZE + 1) * BIG_BUF_SIZE" using big_split [of q] unfolding add_mult_distrib by linarith
          then have "q < item_hi x" using Ent eq q by simp
          then show "m_at (eb_view eb cb) q = Some (rb ! (q mod BIG_BUF_SIZE))" using rb(2) q by (simp add: agree_def)
        qed
        then have "rd_busy (eb \<lparr> eb_chan := ?ch \<rparr>) ?rd (eb_view eb cb) (x # mid) y ys"
          using sp(2) ents' y by (auto simp: rd_busy_def)
        moreover have "pre @ x # rest = (x # mid) @ y # ys" using pre sp(1) Cons by simp
        ultimately have "\<exists>pre' x' rest''. pre @ x # rest = pre' @ x' # rest'' \<and> pre' \<noteq> []
            \<and> rd_busy (eb \<lparr> eb_chan := ?ch \<rparr>) ?rd (eb_view eb cb) pre' x' rest''"
          by (intro exI [of _ "x # mid"] exI [of _ y] exI [of _ ys] conjI) simp_all
        then have "wait_ok eb cb (pre @ x # rest) (Some False) ?ch ?rd" by (simp add: wait_ok_def)
        with w show thesis by (rule that) simp_all
      qed
    next
      case (Info a b c)
      then show thesis using x by simp
    qed
  qed
qed

lemma wait_idle:
  assumes core: "stream_core eb cb rd False P" and i: "rd_idle eb rd P"
  obtains st ch' rd' where "br_wait (eb_chan eb) eb rd = Inr (st, ch', rd')" "wait_ok eb cb P st ch' rd'"
    "br_curr_pos rd' = br_curr_pos rd" "br_buf_margin rd' = br_buf_margin rd"
proof -
  have laid: "laid (eb_view eb cb) (br_curr_pos rd) P (eb_end eb)" and wf: "item_wf False P"
    using core by (auto simp: stream_core_def)
  obtain mid rest where sp: "P = mid @ rest" "\<forall>y\<in>set mid. (\<exists>q bz. y = Ent q bz) \<and> \<not> is_mark y"
      "rest = [] \<or> is_mark (hd rest)"
    using wf by (rule item_wf_split)
  have mm: "msgs mid = []" using unmarked_same_buf(2) sp laid by (auto simp: laid_append)
  show thesis
  proof (cases rest)
    case Nil
    then have "br_wait (eb_chan eb) eb rd = Inr (None, eb_chan eb, rd)"
      using i mm sp(1) by (subst br_wait.simps) (simp add: rd_idle_def)
    moreover have "\<forall>p. Eob p \<notin> set P" using sp Nil by auto
    then have "wait_ok eb cb P None (eb_chan eb) rd" using i by (simp add: wait_ok_def)
    ultimately show thesis using that by blast
  next
    case (Cons x xs)
    then have x: "is_mark x" using sp(3) by simp
    have P: "P = mid @ x # xs" using sp(1) Cons by simp
    have same: "item_pos x div BIG_BUF_SIZE = br_curr_pos rd div BIG_BUF_SIZE"
      using unmarked_same_buf(1) [OF laid_mark(1) [OF laid [unfolded P] x]] sp(2) by simp
    have pub: "published (eb_buf_map eb) (eb_view eb cb) x" using core P by (simp add: stream_core_def)
    then obtain b where b: "eb_buf_map eb (br_curr_pos rd div BIG_BUF_SIZE) = Some b"
      using x same by (auto simp: published_def)
    let ?rd = "rd \<lparr> br_curr_buf := Some b, br_end_pos := int (item_pos x) \<rparr>" and ?ch = "tl (msgs (x # xs))"
    have chx: "eb_chan eb = int (item_pos x) # ?ch"
      using i mm P msgs_mark [OF x, of xs] by (simp add: rd_idle_def msgs_append)
    have "br_curr_buf rd = None" "br_end_pos rd \<le> int (br_curr_pos rd)" using i by (auto simp: rd_idle_def)
    then have w: "br_wait (eb_chan eb) eb rd = br_wait ?ch eb ?rd"
      unfolding chx using b by (subst br_wait.simps) (simp add: eb_get_and_remove_buf_def)
    have "length b = BIG_BUF_SIZE" using core b by (auto simp: stream_core_def eb_ok_def)
    moreover have "m_at (eb_view eb cb) q = Some (b ! (q mod BIG_BUF_SIZE))"
      if "q < item_hi x" "q div BIG_BUF_SIZE = br_curr_pos rd div BIG_BUF_SIZE" for q
    proof -
      have "m_at (eb_buf_map eb) q = m_at (eb_view eb cb) q" using pub x that same by (simp add: published_def)
      then show ?thesis using b that(2) by (simp add: m_at_def)
    qed
    ultimately have "agree b (br_curr_pos rd) (item_hi x) (eb_view eb cb)" by (simp add: agree_def)
    then have busy: "rd_busy (eb \<lparr> eb_chan := ?ch \<rparr>) ?rd (eb_view eb cb) mid x xs"
      using sp(2) x by (cases mid) (auto simp: rd_busy_def)
    have laid': "laid (eb_view eb cb) (br_curr_pos ?rd) (mid @ x # xs) (eb_end eb)" using laid P by simp
    have wf': "item_wf False (mid @ x # xs)" using wf P by simp
    obtain st ch' rd' where "br_wait ?ch eb ?rd = Inr (st, ch', rd')" "wait_ok eb cb (mid @ x # xs) st ch' rd'"
        "br_curr_pos rd' = br_curr_pos ?rd" "br_buf_margin rd' = br_buf_margin ?rd"
      by (rule wait_busy [OF laid' wf' busy])
    then show thesis using that w P by simp
  qed
qed

lemma stream_wait:
  assumes "stream_inv (Some cb) eb rd False P"
  obtains st ch' rd' where "br_wait (eb_chan eb) eb rd = Inr (st, ch', rd')" "wait_ok eb cb P st ch' rd'"
    "br_curr_pos rd' = br_curr_pos rd" "br_buf_margin rd' = br_buf_margin rd"
proof -
  have core: "stream_core eb cb rd False P"
    and rd: "rd_idle eb rd P \<or> (\<exists>pre x rest. P = pre @ x # rest \<and> rd_busy eb rd (eb_view eb cb) pre x rest)"
    using assms by (auto simp: stream_inv_def)
  show thesis
  proof (cases "rd_idle eb rd P")
    case True
    show thesis by (rule wait_idle [OF core True]) (rule that)
  next
    case False
    then obtain pre x rest where P: "P = pre @ x # rest" and b: "rd_busy eb rd (eb_view eb cb) pre x rest" using rd by blast
    have l: "laid (eb_view eb cb) (br_curr_pos rd) (pre @ x # rest) (eb_end eb)" and w: "item_wf False (pre @ x # rest)"
      using core P by (auto simp: stream_core_def)
    have b': "rd_busy (eb \<lparr> eb_chan := eb_chan eb \<rparr>) rd (eb_view eb cb) pre x rest" using b by simp
    obtain st ch' rd' where "br_wait (eb_chan eb) eb rd = Inr (st, ch', rd')" "wait_ok eb cb (pre @ x # rest) st ch' rd'"
        "br_curr_pos rd' = br_curr_pos rd" "br_buf_margin rd' = br_buf_margin rd"
      by (rule wait_busy [OF l w b'])
    then show thesis using that P by simp
  qed
qed

lemma agree_take:
  assumes a: "agree rb p hi m" and h: "m_held m p bz" and n: "n \<le> length bz" "p + n \<le> hi" "p mod BIG_BUF_SIZE + n \<le> BIG_BUF_SIZE"
  shows "take n (drop (p mod BIG_BUF_SIZE) rb) = take n bz"
proof (rule nth_equalityI)
  show "length (take n (drop (p mod BIG_BUF_SIZE) rb)) = length (take n bz)" using a n by (simp add: agree_def)
next
  fix i assume "i < length (take n (drop (p mod BIG_BUF_SIZE) rb))"
  then have i: "i < n" by simp
  have w: "(p + i) div BIG_BUF_SIZE = p div BIG_BUF_SIZE" "(p + i) mod BIG_BUF_SIZE = p mod BIG_BUF_SIZE + i"
    using within_buf [of p i] n(3) i by simp_all
  have "m_at m (p + i) = Some (bz ! i)" using h n(1) i by (simp add: m_held_def)
  moreover have "m_at m (p + i) = Some (rb ! (p mod BIG_BUF_SIZE + i))" using a w n(2) i by (simp add: agree_def)
  ultimately show "take n (drop (p mod BIG_BUF_SIZE) rb) ! i = take n bz ! i" using i n a by (simp add: agree_def)
qed

lemma get_and_remove:
  assumes "eb_buf_map eb i = Some nb" and "r < int i" and ok: "eb_ok eb cb"
  obtains eb' where "eb_get_and_remove_buf i r eb = Inr (nb, eb')" "eb_end eb' = eb_end eb" "eb_chan eb' = eb_chan eb"
    "\<forall>d. r < int d \<longrightarrow> eb_buf_map eb' d = eb_buf_map eb d" "eb_ok eb' cb"
proof (cases "0 \<le> r")
  case False
  then have "eb_get_and_remove_buf i r eb = Inr (nb, eb)" using assms(1) by (simp add: eb_get_and_remove_buf_def)
  then show thesis by (rule that) (use ok in simp_all)
next
  case True
  let ?eb = "if eb_start eb < (nat r + 1) * BIG_BUF_SIZE then eb \<lparr> eb_start := (nat r + 1) * BIG_BUF_SIZE \<rparr> else eb"
  let ?eb' = "case eb_buf_map ?eb (nat r) of None \<Rightarrow> ?eb
     | Some buf \<Rightarrow> ?eb \<lparr> eb_buf_map := (eb_buf_map ?eb)(nat r := None), eb_free_list := eb_free_list ?eb @ [buf] \<rparr>"
  have "eb_get_and_remove_buf i r eb = Inr (nb, ?eb')" 
    unfolding eb_get_and_remove_buf_def Let_def assms(1) by (simp only: unwrap_Some bindE.simps True if_True)
  moreover have "eb_end ?eb' = eb_end eb" "eb_chan ?eb' = eb_chan eb" by (simp_all split: option.split)
  moreover have "\<forall>d. r < int d \<longrightarrow> eb_buf_map ?eb' d = eb_buf_map eb d" using True by (auto split: option.split)
  moreover have "eb_ok ?eb' cb" using ok by (auto simp: eb_ok_def split: option.split)
  ultimately show thesis by (rule that)
qed

text \<open>Reading one entry in the busy state.\<close>

lemma read_busy:
  assumes core: "stream_core eb cb rd False P" and P: "P = Ent c bz # pre @ x # rest"
    and b: "rd_busy eb rd (eb_view eb cb) (Ent c bz # pre) x rest"
  defines "sz \<equiv> length bz"
  obtains rb where "br_curr_buf rd = Some rb" "c = br_curr_pos rd" "length rb = BIG_BUF_SIZE"
    "get_entry_len (drop (c mod BIG_BUF_SIZE) rb) = Inr sz"
    "c mod BIG_BUF_SIZE + sz < BIG_BUF_SIZE \<Longrightarrow> take sz (drop (c mod BIG_BUF_SIZE) rb) = bz"
    "BIG_BUF_SIZE \<le> c mod BIG_BUF_SIZE + sz \<Longrightarrow> drop (c mod BIG_BUF_SIZE) rb = take (BIG_BUF_SIZE - c mod BIG_BUF_SIZE) bz"
    "agree rb c (item_hi x) (eb_view eb cb)" "c + sz \<le> item_hi x"
    "BIG_BUF_SIZE \<le> c mod BIG_BUF_SIZE + sz \<Longrightarrow> item_pos x div BIG_BUF_SIZE = c div BIG_BUF_SIZE + 1"
    "laid (eb_view eb cb) (c + sz) (pre @ x # rest) (eb_end eb)" "is_entry bz" "m_held (eb_view eb cb) c bz"
proof -
  let ?B = BIG_BUF_SIZE and ?m = "eb_view eb cb"
  obtain rb where rb: "br_curr_buf rd = Some rb" and ag: "agree rb (br_curr_pos rd) (item_hi x) ?m"
    and pre: "\<forall>y\<in>set pre. \<exists>q bz. y = Ent q bz" "\<forall>y\<in>set pre. \<not> is_mark y" and x: "is_mark x"
    using b by (auto simp: rd_busy_def)
  have laid: "laid ?m (br_curr_pos rd) P (eb_end eb)" and al: "br_curr_pos rd mod 8 = 0"
    using core by (auto simp: stream_core_def)
  have c: "c = br_curr_pos rd" and ent: "is_entry bz" and held: "m_held ?m c bz"
    and laid': "laid ?m (c + sz) (pre @ x # rest) (eb_end eb)"
    using laid P by (auto simp: sz_def)
  have lp: "laid ?m (c + sz) pre (item_pos x)" by (rule laid_mark(1) [OF laid' x])
  have hi: "c + sz \<le> item_hi x"
    using laid_le [OF lp] item_hi_le(3) [OF laid' _ x] by simp
  have l: "length rb = ?B" using ag by (simp add: agree_def)
  have "take 5 (drop (c mod ?B) rb) = take 5 bz"
    using agree_take [OF ag [folded c] held, of 5] is_entry_len(1) [OF ent] aligned_room [OF al [folded c]] hi by (simp add: sz_def)
  moreover have "5 \<le> length (drop (c mod ?B) rb)" using aligned_room [OF al [folded c]] l by simp
  ultimately have "get_entry_len (drop (c mod ?B) rb) = Inr sz" unfolding sz_def by (intro is_entry_get_len [OF ent])
  moreover have "take sz (drop (c mod ?B) rb) = bz" if "c mod ?B + sz < ?B"
    using agree_take [OF ag [folded c] held, of sz] that hi by (simp add: sz_def)
  moreover have "drop (c mod ?B) rb = take (?B - c mod ?B) bz" if "?B \<le> c mod ?B + sz"
  proof -
    have "take (?B - c mod ?B) (drop (c mod ?B) rb) = take (?B - c mod ?B) bz"
      using that hi big_split(2) [of c] by (intro agree_take [OF ag [folded c] held]) (simp_all add: sz_def)
    then show ?thesis using l by simp
  qed
  moreover have "item_pos x div ?B = c div ?B + 1" if "?B \<le> c mod ?B + sz"
    using unmarked_same_buf(1) [OF lp] pre next_buf(1) [OF that] is_entry_len(3) [OF ent] by (simp add: sz_def)
  ultimately show thesis using that [OF rb c l] ag c hi laid' ent held by blast
qed

lemma stream_core_next:
  assumes core: "stream_core eb cb rd False (Ent c bz # P)" and ok: "eb_ok eb' cb"
    and laid: "laid (eb_view eb cb) (c + length bz) P (eb_end eb)" and c: "c = br_curr_pos rd" "br_curr_pos rd' = c + length bz"
    and same: "eb_end eb' = eb_end eb" "\<forall>d. (c + length bz) div BIG_BUF_SIZE \<le> d \<longrightarrow> eb_buf_map eb' d = eb_buf_map eb d"
  shows "stream_core eb' cb rd' False P"
    and "\<forall>q. (c + length bz) div BIG_BUF_SIZE \<le> q div BIG_BUF_SIZE \<longrightarrow> m_at (eb_view eb' cb) q = m_at (eb_view eb cb) q"
proof -
  let ?e = "c + length bz"
  show at: "\<forall>q. ?e div BIG_BUF_SIZE \<le> q div BIG_BUF_SIZE \<longrightarrow> m_at (eb_view eb' cb) q = m_at (eb_view eb cb) q"
    using same by (simp add: m_at_def eb_view_def)
  have bm: "m_at (eb_buf_map eb') q = m_at (eb_buf_map eb) q" if "?e div BIG_BUF_SIZE \<le> q div BIG_BUF_SIZE" for q
    using same that by (simp add: m_at_def)
  have "laid (eb_view eb' cb) ?e P (eb_end eb)"
    by (rule laid_cong [OF laid]) (use at in \<open>simp add: div_le_mono\<close>)
  moreover have "published (eb_buf_map eb') (eb_view eb' cb) y" if y: "y \<in> set P" for y
    unfolding published_def
  proof (intro impI conjI allI)
    assume m: "is_mark y"
    have pub: "published (eb_buf_map eb) (eb_view eb cb) y" using core y by (simp add: stream_core_def)
    have d: "?e div BIG_BUF_SIZE \<le> item_pos y div BIG_BUF_SIZE" using item_hi_le(2) [OF laid y m] by (rule div_le_mono)
    show "eb_buf_map eb' (item_pos y div BIG_BUF_SIZE) \<noteq> None" using pub m d same(2) by (simp add: published_def)
    fix q assume "q < item_hi y" "q div BIG_BUF_SIZE = item_pos y div BIG_BUF_SIZE"
    then show "m_at (eb_buf_map eb') q = m_at (eb_view eb' cb) q" using pub m d at bm by (simp add: published_def)
  qed
  moreover have "is_entry bz" "c mod 8 = 0" using core c by (auto simp: stream_core_def)
  then have "?e mod 8 = 0" using is_entry_len(2) by (simp add: mod_add_eq [symmetric])
  ultimately show "stream_core eb' cb rd' False P"
    using core ok c same(1) by (simp add: stream_core_def)
qed

lemma agree_next:
  "agree rb c hi m \<Longrightarrow> c mod BIG_BUF_SIZE + n < BIG_BUF_SIZE \<Longrightarrow> agree rb (c + n) hi m"
  using within_buf(1) [of c n] by (simp add: agree_def)

lemma stream_read_entry:
  assumes core: "stream_core eb cb rd False P" and P: "P = Ent c bz # pre @ x # rest"
    and b: "rd_busy eb rd (eb_view eb cb) (Ent c bz # pre) x rest"
    and w: "br_wait (eb_chan eb0) eb0 rd0 = Inr (Some False, eb_chan eb, rd)" and eb: "eb = eb0 \<lparr> eb_chan := eb_chan eb \<rparr>"
    and pos: "br_curr_pos rd0 = br_curr_pos rd"
  obtains eb' rd' where "br_read_next_entry (eb0, rd0) = Inr (Some (Ent c bz), eb', rd')"
    "stream_inv (Some cb) eb' rd' False (pre @ x # rest)"
proof -
  let ?B = BIG_BUF_SIZE and ?m = "eb_view eb cb" and ?sz = "length bz" and ?off = "c mod BIG_BUF_SIZE"
  obtain rb where rb: "br_curr_buf rd = Some rb" and c: "c = br_curr_pos rd" and l: "length rb = ?B"
    and len: "get_entry_len (drop ?off rb) = Inr ?sz"
    and in_one: "?off + ?sz < ?B \<Longrightarrow> take ?sz (drop ?off rb) = bz"
    and two: "?B \<le> ?off + ?sz \<Longrightarrow> drop ?off rb = take (?B - ?off) bz"
    and ag: "agree rb c (item_hi x) ?m" and hi: "c + ?sz \<le> item_hi x"
    and nx: "?B \<le> ?off + ?sz \<Longrightarrow> item_pos x div ?B = c div ?B + 1"
    and laid: "laid ?m (c + ?sz) (pre @ x # rest) (eb_end eb)" and ent: "is_entry bz" and held: "m_held ?m c bz"
    by (rule read_busy [OF core P b]) (rule that, assumption+)
  have off: "?off < ?B" by (rule big_split)
  have busy: "(\<forall>y\<in>set pre. \<exists>q bz. y = Ent q bz)" "(\<forall>y\<in>set (tl pre). \<not> is_mark y)" "is_mark x"
    "br_end_pos rd = int (item_pos x)" "eb_chan eb = tl (msgs (x # rest))"
    using b by (cases pre; auto simp: rd_busy_def)+
  note rn = br_read_next_entry_def prod.case Let_def w bindE.simps eb [symmetric] pos rb unwrap_Some c [symmetric]
  have sl: "slice rb ?off (length rb) = Inr (drop ?off rb)" using l off by (simp add: slice_def)
  show thesis
  proof (cases "?off + ?sz < ?B")
    case True
    let ?rd = "rd \<lparr> br_curr_pos := c + ?sz \<rparr>"
    have "slice rb ?off (?off + ?sz) = Inr bz" using in_one True l by simp
    then have r: "br_read_next_entry (eb0, rd0) = Inr (Some (Ent c bz), eb, ?rd)"
      unfolding rn using True by (simp add: sl len)
    have "stream_core eb cb ?rd False (pre @ x # rest)"
      by (rule stream_core_next(1) [OF core [unfolded P] _ laid c]) (use core in \<open>simp_all add: stream_core_def\<close>)
    moreover have "rd_busy eb ?rd ?m pre x rest"
      unfolding rd_busy_def using busy rb agree_next [OF ag True] by simp
    ultimately have "stream_inv (Some cb) eb ?rd False (pre @ x # rest)" unfolding stream_inv_def by blast
    with r show thesis by (rule that)
  next
    case False
    then have ov: "?B \<le> ?off + ?sz" by simp
    let ?i = "c div ?B + 1" and ?n = "?B - ?off"
    have pub: "published (eb_buf_map eb) ?m x" using core P by (simp add: stream_core_def)
    obtain nb where nb: "eb_buf_map eb ?i = Some nb" using pub busy(3) nx [OF ov] by (auto simp: published_def)
    have okb: "eb_ok eb cb" using core by (simp add: stream_core_def)
    let ?r = "int (c div ?B) - int (br_buf_margin rd div ?B) - 1"
    obtain eb' where g: "eb_get_and_remove_buf ?i ?r eb = Inr (nb, eb')" "eb_end eb' = eb_end eb" "eb_chan eb' = eb_chan eb"
        "\<forall>d. ?r < int d \<longrightarrow> eb_buf_map eb' d = eb_buf_map eb d" "eb_ok eb' cb"
    proof (rule get_and_remove [OF nb _ okb])
      have "0 \<le> int (br_buf_margin rd div ?B)" by simp
      then show "?r < int ?i" by linarith
    qed
    have idx: "(c + ?sz) div ?B = ?i" using next_buf(1) [OF ov is_entry_len(3) [OF ent]] .
    have nbl: "length nb = ?B" using okb nb by (auto simp: eb_ok_def)
    have nbm: "m_at ?m q = Some (nb ! (q mod ?B))" if "q < item_hi x" "q div ?B = ?i" for q
    proof -
      have "m_at (eb_buf_map eb) q = m_at ?m q" using pub busy(3) that nx [OF ov] by (simp add: published_def)
      then show ?thesis using nb that(2) by (simp add: m_at_def)
    qed
    have p1: "c + ?n = ?i * ?B" using big_split [of c] unfolding add_mult_distrib by linarith
    have "?n \<le> ?sz" using ov by linarith
    then have h2: "m_held ?m (?i * ?B) (drop ?n bz)" using m_held_drop [OF held, of ?n] p1 by simp
    have "agree nb (?i * ?B) (item_hi x) ?m" using nbm nbl by (simp add: agree_def)
    then have "take (?sz - ?n) (drop (?i * ?B mod ?B) nb) = take (?sz - ?n) (drop ?n bz)"
    proof (rule agree_take [OF _ h2])
      show "?i * ?B + (?sz - ?n) \<le> item_hi x" unfolding p1 [symmetric] using hi ov by linarith
      show "?i * ?B mod ?B + (?sz - ?n) \<le> ?B" unfolding mod_mult_self2_is_0 using is_entry_len(3) [OF ent] by linarith
    qed simp
    moreover have "?sz - ?n \<le> ?B" using is_entry_len(3) [OF ent] by linarith
    ultimately have bk: "slice nb 0 (?sz - ?n) = Inr (drop ?n bz)"
      using nbl by (subst slice_ok) (simp_all only: mod_mult_self2_is_0 drop_0 length_drop take_all_iff order_refl diff_zero, simp)
    let ?rd = "rd \<lparr> br_curr_pos := c + ?sz, br_scratch_pad := bz, br_curr_buf := Some nb \<rparr>"
    have r: "br_read_next_entry (eb0, rd0) = Inr (Some (Ent c bz), eb', ?rd)"
      unfolding rn using False
      by (simp add: sl len g(1) [simplified] bk del: diff_diff_right) (simp add: two [OF ov] bk del: diff_diff_right)
    have low: "\<forall>d. (c + ?sz) div ?B \<le> d \<longrightarrow> eb_buf_map eb' d = eb_buf_map eb d" using g(4) idx by simp
    have "stream_core eb' cb ?rd False (pre @ x # rest)"
      by (rule stream_core_next(1) [OF core [unfolded P] g(5) laid c _ g(2) low]) simp
    moreover have "agree nb (c + ?sz) (item_hi x) (eb_view eb' cb)"
      using stream_core_next(2) [OF core [unfolded P] g(5) laid c _ g(2) low, of ?rd] nbm nbl idx by (simp add: agree_def)
    then have "rd_busy eb' ?rd (eb_view eb' cb) pre x rest" unfolding rd_busy_def using busy g(3) by simp
    ultimately have "stream_inv (Some cb) eb' ?rd False (pre @ x # rest)" unfolding stream_inv_def by blast
    with r show thesis by (rule that)
  qed
qed

lemma stream_read:
  assumes inv: "stream_inv w eb rd False P"
  obtains "\<exists>eb' rd'. br_read_next_entry (eb, rd) = Inr (None, eb', rd') \<and> stream_inv w eb' rd' False P \<and> (\<forall>p. Eob p \<notin> set P)"
    | "\<exists>p P' eb' rd'. P = Eob p # P' \<and> br_read_next_entry (eb, rd) = Inr (Some (Eob p), eb', rd') \<and> stream_inv w eb' rd' True P'"
    | "\<exists>p bz P' eb' rd'. P = Ent p bz # P' \<and> br_read_next_entry (eb, rd) = Inr (Some (Ent p bz), eb', rd') \<and> stream_inv w eb' rd' False P'"
proof -
  obtain cb where w: "w = Some cb" and core: "stream_core eb cb rd False P" using inv by (auto simp: stream_inv_def)
  obtain st ch rd' where wt: "br_wait (eb_chan eb) eb rd = Inr (st, ch, rd')" and ok: "wait_ok eb cb P st ch rd'"
      and pos: "br_curr_pos rd' = br_curr_pos rd" and mg: "br_buf_margin rd' = br_buf_margin rd"
    by (rule stream_wait [OF inv [unfolded w]])
  let ?eb = "eb \<lparr> eb_chan := ch \<rparr>"
  have core': "stream_core ?eb cb rd' False P" using core pos by (simp add: stream_core_def eb_ok_def)
  note rn = br_read_next_entry_def prod.case Let_def wt bindE.simps pos
  show thesis
  proof (cases st)
    case None
    have "stream_inv w ?eb rd' False P" unfolding stream_inv_def using core' ok None w by (auto simp: wait_ok_def)
    moreover have "br_read_next_entry (eb, rd) = Inr (None, ?eb, rd')" unfolding rn None by simp
    moreover have "\<forall>p. Eob p \<notin> set P" using ok None by (simp add: wait_ok_def)
    ultimately show thesis using that(1) by blast
  next
    case (Some eob)
    show thesis
    proof (cases eob)
      case True
      then obtain P' where P: "P = Eob (br_curr_pos rd') # P'" and i: "rd_idle ?eb rd' P'"
        using ok Some by (auto simp: wait_ok_def)
      have "stream_core ?eb cb rd' True P'" using core' P by (simp add: stream_core_def)
      then have "stream_inv w ?eb rd' True P'" using i w by (auto simp: stream_inv_def)
      moreover have "br_read_next_entry (eb, rd) = Inr (Some (Eob (br_curr_pos rd')), ?eb, rd')"
        unfolding rn Some using True by simp
      ultimately show thesis using that(2) P by blast
    next
      case False
      then obtain pre x rest where P: "P = pre @ x # rest" and ne: "pre \<noteq> []"
          and b: "rd_busy ?eb rd' (eb_view eb cb) pre x rest"
        using ok Some by (auto simp: wait_ok_def)
      obtain y ys where y: "pre = y # ys" using ne by (cases pre) auto
      then obtain c bz where pre: "pre = Ent c bz # ys" using b by (auto simp: rd_busy_def)
      have P': "P = Ent c bz # ys @ x # rest" using P pre by simp
      have b': "rd_busy ?eb rd' (eb_view ?eb cb) (Ent c bz # ys) x rest" using b pre by simp
      have wt': "br_wait (eb_chan eb) eb rd = Inr (Some False, eb_chan ?eb, rd')" using wt Some False by simp
      obtain eb' rd'' where "br_read_next_entry (eb, rd) = Inr (Some (Ent c bz), eb', rd'')"
          "stream_inv (Some cb) eb' rd'' False (ys @ x # rest)"
        by (rule stream_read_entry [OF core' P' b' wt' _ pos [symmetric]]) simp
      then show thesis using that(3) P' w by blast
    qed
  qed
qed

lemma stream_extra:
  assumes inv: "stream_inv w eb rd True P"
  obtains a b c P' eb' where "P = Info a b c # P'" "br_read_extra_info eb = Inr ((a, b, c), eb')" "stream_inv w eb' rd False P'"
proof -
  obtain cb where w: "w = Some cb" and core: "stream_core eb cb rd True P" and i: "rd_idle eb rd P"
    using inv by (auto simp: stream_inv_def)
  obtain a b c P' where P: "P = Info a b c # P'"
    using core by (cases "(True, P)" rule: item_wf.cases) (auto simp: stream_core_def)
  let ?eb = "eb \<lparr> eb_chan := msgs P' \<rparr>"
  have "br_read_extra_info eb = Inr ((a, b, c), ?eb)"
    using i P by (simp add: rd_idle_def br_read_extra_info_def)
  moreover have "stream_inv w ?eb rd False P'"
    using core i P w by (auto simp: stream_inv_def stream_core_def rd_idle_def eb_ok_def)
  ultimately show thesis using that P by blast
qed

lemma stream_new:
  assumes "start mod 8 = 0" and "eb_new start margin = (eb, w, rd)"
  shows "stream_inv w eb rd False []"
  using assms by (auto simp: eb_new_def stream_inv_def stream_core_def rd_idle_def eb_ok_def new_big_buf_boxed_def)

section \<open>Interleavings of writer and reader\<close>

text \<open>The runs of an entry buffer: what was written and what was read after any interleaving of
  the writer's calls with the reader's, which asks for the extra numbers after each end of a block.\<close>

definition at_eob :: "item list \<Rightarrow> bool" where
  "at_eob R \<longleftrightarrow> R \<noteq> [] \<and> (case last R of Eob p \<Rightarrow> True | _ \<Rightarrow> False)"

inductive eb_run :: "nat \<Rightarrow> nat \<Rightarrow> bytes option \<Rightarrow> entry_buffer \<Rightarrow> buf_reader \<Rightarrow> item list \<Rightarrow> item list \<Rightarrow> bool"
  for start margin where
  run_new: "eb_new start margin = (eb, w, rd) \<Longrightarrow> eb_run start margin w eb rd [] []"
| run_append: "eb_run start margin w eb rd W R \<Longrightarrow> entry_ok e dsns \<Longrightarrow> ebw_append e dsns (w, eb) = Inr (pos, w', eb')
    \<Longrightarrow> eb_run start margin w' eb' rd (W @ [Ent pos (entry_layout e dsns)]) R"
| run_end_block: "eb_run start margin w eb rd W R \<Longrightarrow> ebw_end_block a b c (w, eb) = Inr (w', eb')
    \<Longrightarrow> eb_run start margin w' eb' rd (W @ [Eob (eb_end eb), Info (int a) b c]) R"
| run_read: "eb_run start margin w eb rd W R \<Longrightarrow> \<not> at_eob R \<Longrightarrow> br_read_next_entry (eb, rd) = Inr (Some x, eb', rd')
    \<Longrightarrow> eb_run start margin w eb' rd' W (R @ [x])"
| run_wait: "eb_run start margin w eb rd W R \<Longrightarrow> \<not> at_eob R \<Longrightarrow> br_read_next_entry (eb, rd) = Inr (None, eb', rd')
    \<Longrightarrow> eb_run start margin w eb' rd' W R"
| run_extra: "eb_run start margin w eb rd W R \<Longrightarrow> at_eob R \<Longrightarrow> br_read_extra_info eb = Inr ((a, b, c), eb')
    \<Longrightarrow> eb_run start margin w eb' rd W (R @ [Info a b c])"

lemma at_eob_simps [simp]:
  "\<not> at_eob []" "\<not> at_eob (R @ [Ent p bz])" "at_eob (R @ [Eob p])" "\<not> at_eob (R @ [Info a b c])"
  by (simp_all add: at_eob_def)

lemma big_append_panics:
  "entry_ok e dsns \<Longrightarrow> ebw_append e dsns (w, eb) = Inr r \<Longrightarrow> length (entry_layout e dsns) \<le> BIG_BUF_SIZE"
  using length_entry_layout [of e dsns] by (cases r) (auto simp: ebw_append_def eb_append_def entry_ok_simps Let_def split: if_splits)

lemma eb_run_inv:
  assumes "eb_run start margin w eb rd W R" and st: "start mod 8 = 0"
  shows "\<exists>P. W = R @ P \<and> stream_inv w eb rd (at_eob R) P"
  using assms(1)
proof (induction rule: eb_run.induct)
  case (run_new eb w rd)
  then show ?case using stream_new [OF st] by simp
next
  case (run_append w eb rd W R e dsns pos w' eb')
  then obtain P where P: "W = R @ P" "stream_inv w eb rd (at_eob R) P" by blast
  obtain w'' eb'' where "ebw_append e dsns (w, eb) = Inr (eb_end eb, w'', eb'')"
      "stream_inv w'' eb'' rd (at_eob R) (P @ [Ent (eb_end eb) (entry_layout e dsns)])"
    by (rule stream_append [OF P(2) run_append.hyps(2) big_append_panics [OF run_append.hyps(2,3)]])
  then show ?case using P(1) run_append.hyps(3) by auto
next
  case (run_end_block w eb rd W R a b c w' eb')
  then obtain P where P: "W = R @ P" "stream_inv w eb rd (at_eob R) P" by blast
  obtain w'' eb'' where "ebw_end_block a b c (w, eb) = Inr (w'', eb'')"
      "stream_inv w'' eb'' rd (at_eob R) (P @ [Eob (eb_end eb), Info (int a) b c])"
    by (rule stream_end_block [OF P(2)])
  then show ?case using P(1) run_end_block.hyps(2) by auto
next
  case (run_read w eb rd W R x eb' rd')
  then obtain P where P: "W = R @ P" "stream_inv w eb rd False P" by auto
  show ?case by (rule stream_read [OF P(2)]) (use P(1) run_read.hyps(3) in auto)
next
  case (run_wait w eb rd W R eb' rd')
  then obtain P where P: "W = R @ P" "stream_inv w eb rd False P" by auto
  show ?case by (rule stream_read [OF P(2)]) (use P(1) run_wait.hyps(2,3) in auto)
next
  case (run_extra w eb rd W R a b c eb')
  then obtain P where P: "W = R @ P" "stream_inv w eb rd True P" by auto
  show ?case by (rule stream_extra [OF P(2)]) (use P(1) run_extra.hyps(3) in auto)
qed

lemma stream_read_outcome:
  assumes "stream_inv w eb rd False P"
  shows "\<exists>it eb' rd'. br_read_next_entry (eb, rd) = Inr (it, eb', rd')
    \<and> (case it of Some x \<Rightarrow> prefix [x] P | None \<Rightarrow> \<forall>p. Eob p \<notin> set P)"
  by (rule stream_read [OF assms]) (auto split: option.splits)

lemma stream_extra_outcome:
  assumes "stream_inv w eb rd True P"
  shows "\<exists>a b c eb'. br_read_extra_info eb = Inr ((a, b, c), eb') \<and> prefix [Info a b c] P"
  by (rule stream_extra [OF assms]) auto

text \<open>C21. Whatever the interleaving of writer and reader, the reader has got a prefix of what was
  written, never panics, and waits only while no end of a block is pending; after an end of a block it gets
  the numbers sent with it.  An append of an entry of at most one buffer succeeds and returns the end
  position.\<close>

theorem entry_buffer_stream:
  assumes run: "eb_run start margin w eb rd W R" and start: "start mod 8 = 0"
  shows "\<exists>P. W = R @ P
    \<and> (\<not> at_eob R \<longrightarrow> (\<exists>it eb' rd'. br_read_next_entry (eb, rd) = Inr (it, eb', rd')
           \<and> (case it of Some x \<Rightarrow> prefix [x] P | None \<Rightarrow> \<forall>p. Eob p \<notin> set P)))
    \<and> (at_eob R \<longrightarrow> (\<exists>a b c eb'. br_read_extra_info eb = Inr ((a, b, c), eb') \<and> prefix [Info a b c] P))
    \<and> (\<forall>e dsns. entry_ok e dsns \<and> length (entry_layout e dsns) \<le> BIG_BUF_SIZE
           \<longrightarrow> (\<exists>w' eb'. ebw_append e dsns (w, eb) = Inr (eb_end eb, w', eb')))"
proof -
  obtain P where P: "W = R @ P" and inv: "stream_inv w eb rd (at_eob R) P" using eb_run_inv [OF run start] by blast
  have "\<exists>w' eb'. ebw_append e dsns (w, eb) = Inr (eb_end eb, w', eb')"
    if "entry_ok e dsns" "length (entry_layout e dsns) \<le> BIG_BUF_SIZE" for e dsns
    by (rule stream_append [OF inv that]) blast
  then show ?thesis using P inv stream_read_outcome [of w eb rd P] stream_extra_outcome [of w eb rd P]
    by (intro exI [of _ P] conjI impI allI) simp_all
qed

definition demo_cb :: bytes where "demo_cb = splice new_big_buf_boxed 0 (entry_layout demo_entry [])"

definition demo_eb :: entry_buffer where
  "demo_eb = \<lparr> eb_start = 0, eb_end = length (entry_layout demo_entry []), eb_buf_map = Map.empty(0 \<mapsto> demo_cb),
     eb_free_list = [], eb_chan = [int (length (entry_layout demo_entry [])), I64_MIN, 7, 1, 2] \<rparr>"

definition demo_rd :: buf_reader where
  "demo_rd = \<lparr> br_curr_buf = None, br_scratch_pad = [], br_end_pos = 0, br_curr_pos = 0, br_buf_margin = 0 \<rparr>"

lemma demo_layout_len: "entry_ok demo_entry []" "length (entry_layout demo_entry []) = 64"
  using length_entry_layout [of demo_entry "[]"]
  by (simp_all add: demo_entry_def entry_ok_def get_serialized_len_def layout_defs)

lemma demo_run: "eb_run 0 0 (Some demo_cb) demo_eb demo_rd
   [Ent 0 (entry_layout demo_entry []), Eob 64, Info 7 1 2] []"
proof -
  let ?eb = "\<lparr> eb_start = 0, eb_end = 0, eb_buf_map = Map.empty, eb_free_list = [], eb_chan = [] \<rparr>"
  let ?eb1 = "?eb \<lparr> eb_end := 64 \<rparr>"
  have 1: "eb_run 0 0 (Some new_big_buf_boxed) ?eb demo_rd [] []"
    by (rule eb_run.run_new) (simp add: eb_new_def demo_rd_def)
  have ok: "eb_ok ?eb new_big_buf_boxed" by (simp add: eb_ok_def new_big_buf_boxed_def)
  have "eb_append demo_entry [] new_big_buf_boxed ?eb = Inr (0, demo_cb, ?eb1)"
    using eb_append_inside [OF ok, of demo_entry "[]"] demo_layout_len
    by (simp add: demo_cb_def entry_ok_simps layout_defs)
  then have "ebw_append demo_entry [] (Some new_big_buf_boxed, ?eb) = Inr (0, Some demo_cb, ?eb1)"
    by (simp add: ebw_append_def)
  from eb_run.run_append [OF 1 demo_layout_len(1) this]
  have 2: "eb_run 0 0 (Some demo_cb) ?eb1 demo_rd [Ent 0 (entry_layout demo_entry [])] []" by simp
  have "ebw_end_block 7 1 2 (Some demo_cb, ?eb1) = Inr (Some demo_cb, demo_eb)"
    by (simp add: ebw_end_block_def eb_end_block_def demo_eb_def demo_layout_len layout_defs)
  from eb_run.run_end_block [OF 2 this] show ?thesis by simp
qed

theorem entry_buffer_stream_witness:
  "\<exists>P. [Ent 0 (entry_layout demo_entry []), Eob 64, Info 7 1 2] = [] @ P
    \<and> (\<exists>it eb' rd'. br_read_next_entry (demo_eb, demo_rd) = Inr (it, eb', rd')
           \<and> (case it of Some x \<Rightarrow> prefix [x] P | None \<Rightarrow> \<forall>p. Eob p \<notin> set P))"
  using entry_buffer_stream [OF demo_run] by (simp only: at_eob_simps) simp

section \<open>Entries are served until their buffer is released\<close>

lemma get_and_remove_keeps:
  assumes "eb_get_and_remove_buf i r eb = Inr (b, eb')"
  shows "eb_end eb' = eb_end eb" "eb_start eb \<le> eb_start eb'"
    "\<forall>q\<ge>eb_start eb'. m_at (eb_view eb' cb) q = m_at (eb_view eb cb) q"
    "eb_start eb' \<le> max (eb_start eb) (nat (r + 1) * BIG_BUF_SIZE)"
proof -
  have "eb_end eb' = eb_end eb \<and> eb_start eb \<le> eb_start eb' \<and> (r < 0 \<longrightarrow> eb' = eb)
    \<and> (0 \<le> r \<longrightarrow> (nat r + 1) * BIG_BUF_SIZE \<le> eb_start eb' \<and> (\<forall>d. d \<noteq> nat r \<longrightarrow> eb_buf_map eb' d = eb_buf_map eb d))
    \<and> (eb_start eb' = eb_start eb \<or> 0 \<le> r \<and> eb_start eb' = (nat r + 1) * BIG_BUF_SIZE)"
  proof (cases "0 \<le> r")
    case True
    let ?eb = "if eb_start eb < (nat r + 1) * BIG_BUF_SIZE then eb \<lparr> eb_start := (nat r + 1) * BIG_BUF_SIZE \<rparr> else eb"
    have "eb' = (case eb_buf_map ?eb (nat r) of None \<Rightarrow> ?eb
       | Some buf \<Rightarrow> ?eb \<lparr> eb_buf_map := (eb_buf_map ?eb)(nat r := None), eb_free_list := eb_free_list ?eb @ [buf] \<rparr>)"
      using assms True unfolding eb_get_and_remove_buf_def Let_def by (simp only: bindE_eq_Inr if_True) blast
    then show ?thesis using True by (simp split: option.split)
  next
    case False
    then have "eb' = eb" using assms by (simp add: eb_get_and_remove_buf_def)
    then show ?thesis using False by simp
  qed
  then have e: "eb_end eb' = eb_end eb" and s: "eb_start eb \<le> eb_start eb'" and neg: "r < 0 \<Longrightarrow> eb' = eb"
    and pos: "0 \<le> r \<Longrightarrow> (nat r + 1) * BIG_BUF_SIZE \<le> eb_start eb'"
      "\<And>d. 0 \<le> r \<Longrightarrow> d \<noteq> nat r \<Longrightarrow> eb_buf_map eb' d = eb_buf_map eb d"
    and st: "eb_start eb' = eb_start eb \<or> 0 \<le> r \<and> eb_start eb' = (nat r + 1) * BIG_BUF_SIZE"
    by blast+
  show "eb_end eb' = eb_end eb" "eb_start eb \<le> eb_start eb'" by (rule e, rule s)
  show "eb_start eb' \<le> max (eb_start eb) (nat (r + 1) * BIG_BUF_SIZE)"
    using st by (auto simp: nat_add_distrib)
  show "\<forall>q\<ge>eb_start eb'. m_at (eb_view eb' cb) q = m_at (eb_view eb cb) q"
  proof (intro allI impI)
    fix q assume q: "eb_start eb' \<le> q"
    show "m_at (eb_view eb' cb) q = m_at (eb_view eb cb) q"
    proof (cases "0 \<le> r")
      case True
      have "nat r + 1 \<le> q div BIG_BUF_SIZE"
        using div_le_mono [OF order_trans [OF pos(1) [OF True] q], of BIG_BUF_SIZE] by simp
      then have "eb_buf_map eb' (q div BIG_BUF_SIZE) = eb_buf_map eb (q div BIG_BUF_SIZE)" using pos(2) [OF True] by simp
      then show ?thesis by (simp add: m_at_def eb_view_def e)
    qed (use neg in simp)
  qed
qed

lemma br_wait_pos:
  "br_wait ch eb rd = Inr (st, ch', rd') \<Longrightarrow> br_curr_pos rd' = br_curr_pos rd"
proof (induction ch arbitrary: rd)
  case Nil
  then show ?case by (subst (asm) br_wait.simps) (auto split: if_splits)
next
  case (Cons pos ch)
  show ?case using Cons.prems
    by (subst (asm) br_wait.simps) (auto split: if_splits option.splits dest!: Cons.IH)
qed

lemma read_keeps:
  assumes "br_read_next_entry (eb, rd) = Inr (it, eb', rd')"
  shows "eb_end eb' = eb_end eb" "\<forall>q\<ge>eb_start eb'. m_at (eb_view eb' cb) q = m_at (eb_view eb cb) q"
    "eb_start eb \<le> eb_start eb'" "eb_start eb' \<le> max (eb_start eb) (br_curr_pos rd div BIG_BUF_SIZE * BIG_BUF_SIZE)"
proof -
  obtain st ch rd1 where w: "br_wait (eb_chan eb) eb rd = Inr (st, ch, rd1)"
    using assms(1) by (auto simp: br_read_next_entry_def Let_def)
  have rd1: "br_curr_pos rd1 = br_curr_pos rd"
    by (rule br_wait_pos [OF w])
  let ?r = "int (br_curr_pos rd1 div BIG_BUF_SIZE) - int (br_buf_margin rd1 div BIG_BUF_SIZE) - 1"
  consider "eb' = eb \<lparr> eb_chan := ch \<rparr>"
    | b where "eb_get_and_remove_buf (br_curr_pos rd1 div BIG_BUF_SIZE + 1) ?r (eb \<lparr> eb_chan := ch \<rparr>) = Inr (b, eb')"
    using assms(1) w by (auto simp: br_read_next_entry_def Let_def split: if_splits)
  then have "eb_end eb' = eb_end eb \<and> (\<forall>q\<ge>eb_start eb'. m_at (eb_view eb' cb) q = m_at (eb_view eb cb) q)
    \<and> eb_start eb \<le> eb_start eb' \<and> eb_start eb' \<le> max (eb_start eb) (br_curr_pos rd div BIG_BUF_SIZE * BIG_BUF_SIZE)"
  proof cases
    case (2 b)
    have "nat (?r + 1) \<le> br_curr_pos rd div BIG_BUF_SIZE" using rd1 by simp
    then have "nat (?r + 1) * BIG_BUF_SIZE \<le> br_curr_pos rd div BIG_BUF_SIZE * BIG_BUF_SIZE" by (rule mult_le_mono1)
    then have "max (eb_start eb) (nat (?r + 1) * BIG_BUF_SIZE) \<le> max (eb_start eb) (br_curr_pos rd div BIG_BUF_SIZE * BIG_BUF_SIZE)"
      by (rule max.mono [OF order_refl])
    moreover have "eb_start eb' \<le> max (eb_start eb) (nat (?r + 1) * BIG_BUF_SIZE)" using get_and_remove_keeps(4) [OF 2] by simp
    ultimately have "eb_start eb' \<le> max (eb_start eb) (br_curr_pos rd div BIG_BUF_SIZE * BIG_BUF_SIZE)"
      by (rule order_trans [rotated])
    then show ?thesis using get_and_remove_keeps(1,2) [OF 2] get_and_remove_keeps(3) [OF 2, of cb] by simp
  qed simp
  then show "eb_end eb' = eb_end eb" "\<forall>q\<ge>eb_start eb'. m_at (eb_view eb' cb) q = m_at (eb_view eb cb) q"
    "eb_start eb \<le> eb_start eb'" "eb_start eb' \<le> max (eb_start eb) (br_curr_pos rd div BIG_BUF_SIZE * BIG_BUF_SIZE)"
    by auto
qed

text \<open>Every written entry is held from the start position on, and the start never passes the reader.\<close>

definition serves :: "bytes option \<Rightarrow> entry_buffer \<Rightarrow> item list \<Rightarrow> bool" where
  "serves w eb W \<longleftrightarrow> (\<forall>cb. w = Some cb \<longrightarrow> (\<forall>p bz. Ent p bz \<in> set W \<longrightarrow>
     p mod 8 = 0 \<and> is_entry bz \<and> p + length bz \<le> eb_end eb \<and> (eb_start eb \<le> p \<longrightarrow> m_held (eb_view eb cb) p bz)))"

lemma serves_mono:
  assumes s: "serves (Some cb) eb W" and e: "eb_end eb \<le> eb_end eb'" "eb_start eb \<le> eb_start eb'"
    and m: "\<forall>q. eb_start eb' \<le> q \<and> q < eb_end eb \<longrightarrow> m_at (eb_view eb' cb') q = m_at (eb_view eb cb) q"
  shows "serves (Some cb') eb' W"
  unfolding serves_def
proof (intro allI impI)
  fix cb'' p bz assume cb: "Some cb' = Some cb''" and x: "Ent p bz \<in> set W"
  have a: "p mod 8 = 0" "is_entry bz" "p + length bz \<le> eb_end eb" "eb_start eb \<le> p \<longrightarrow> m_held (eb_view eb cb) p bz"
    using s x by (auto simp: serves_def)
  have "m_held (eb_view eb' cb'') p bz" if st: "eb_start eb' \<le> p"
  proof -
    have "m_held (eb_view eb' cb') p bz = m_held (eb_view eb cb) p bz"
      using m st a(3) by (intro m_held_cong) simp
    then show ?thesis using a(4) st e(2) cb by simp
  qed
  then show "p mod 8 = 0 \<and> is_entry bz \<and> p + length bz \<le> eb_end eb' \<and> (eb_start eb' \<le> p \<longrightarrow> m_held (eb_view eb' cb'') p bz)"
    using a e(1) by simp
qed

lemma stream_pos_le: "stream_inv w eb rd ex P \<Longrightarrow> br_curr_pos rd \<le> eb_end eb \<and> eb_end eb mod 8 = 0 \<and> (\<exists>cb. w = Some cb)"
  by (auto simp: stream_inv_def stream_core_def dest: laid_le laid_aligned)

lemma eb_run_pos_mono:
  "br_read_next_entry (eb, rd) = Inr (it, eb', rd') \<Longrightarrow> br_curr_pos rd \<le> br_curr_pos rd'"
  by (auto simp: br_read_next_entry_def Let_def split: if_splits dest!: br_wait_pos)

lemma read_serves:
  assumes inv: "stream_inv w eb rd ex P" and s: "serves w eb W" "eb_start eb \<le> br_curr_pos rd"
    and r: "br_read_next_entry (eb, rd) = Inr (it, eb', rd')"
  shows "serves w eb' W \<and> eb_start eb' \<le> br_curr_pos rd'"
proof -
  obtain cb where w: "w = Some cb" using stream_pos_le [OF inv] by blast
  note k = read_keeps(1,3,4) [OF r] read_keeps(2) [OF r, of cb]
  have "serves (Some cb) eb' W" by (rule serves_mono [of cb eb]) (use s w k in simp_all)
  moreover have "max (eb_start eb) (br_curr_pos rd div BIG_BUF_SIZE * BIG_BUF_SIZE) \<le> br_curr_pos rd"
    using s(2) by simp
  then have "eb_start eb' \<le> br_curr_pos rd" using k(3) by (rule order_trans [rotated])
  ultimately show ?thesis using eb_run_pos_mono [OF r] w by simp
qed

lemma eb_run_serves:
  assumes run: "eb_run start margin w eb rd W R" and st: "start mod 8 = 0"
  shows "serves w eb W \<and> eb_start eb \<le> br_curr_pos rd"
  using run
proof (induction rule: eb_run.induct)
  case (run_new eb w rd)
  then show ?case by (auto simp: eb_new_def serves_def)
next
  case (run_append w eb rd W R e dsns pos w' eb')
  obtain P where inv: "stream_inv w eb rd (at_eob R) P" using eb_run_inv [OF run_append.hyps(1) st] by blast
  then obtain cb where w: "w = Some cb" and ok: "eb_ok eb cb" by (auto simp: stream_inv_def stream_core_def)
  have big: "length (entry_layout e dsns) \<le> BIG_BUF_SIZE" by (rule big_append_panics [OF run_append.hyps(2,3)])
  obtain cb' eb2 where a: "eb_append e dsns cb eb = Inr (eb_end eb, cb', eb2)"
    "eb_end eb2 = eb_end eb + length (entry_layout e dsns)" "eb_start eb2 = eb_start eb"
    "\<forall>q<eb_end eb. m_at (eb_view eb2 cb') q = m_at (eb_view eb cb) q" "m_held (eb_view eb2 cb') (eb_end eb) (entry_layout e dsns)"
    by (rule eb_append_view [OF ok entry_ok_simps(2) [OF run_append.hyps(2)] big])
  have eq: "pos = eb_end eb" "w' = Some cb'" "eb' = eb2" using run_append.hyps(3) a(1) w by (simp_all add: ebw_append_def)
  have "serves (Some cb') eb2 W"
    by (rule serves_mono [of cb eb]) (use run_append.IH w a(2,3,4) in simp_all)
  moreover have "is_entry (entry_layout e dsns)" using run_append.hyps(2) big by (auto simp: is_entry_def)
  moreover have "eb_end eb mod 8 = 0" using stream_pos_le [OF inv] by simp
  ultimately have "serves w' eb' (W @ [Ent pos (entry_layout e dsns)])" using a(2,5) unfolding eq serves_def by auto
  then show ?case using run_append.IH a(3) eq by simp
next
  case (run_end_block w eb rd W R a b c w' eb')
  obtain P where inv: "stream_inv w eb rd (at_eob R) P" using eb_run_inv [OF run_end_block.hyps(1) st] by blast
  then obtain cb where w: "w = Some cb" using stream_pos_le by blast
  then have eq: "w' = Some cb" "eb' = eb_end_block a b c cb eb" using run_end_block.hyps(2) by (simp_all add: ebw_end_block_def)
  have "serves (Some cb) (eb_end_block a b c cb eb) W"
    by (rule serves_mono [of cb eb]) (use run_end_block.IH w in \<open>simp_all add: eb_end_block_def eb_view_def\<close>)
  then show ?case using run_end_block.IH unfolding eq by (auto simp: serves_def eb_end_block_def)
next
  case (run_read w eb rd W R x eb' rd')
  obtain P where inv: "stream_inv w eb rd (at_eob R) P" using eb_run_inv [OF run_read.hyps(1) st] by blast
  show ?case by (rule read_serves [OF inv _ _ run_read.hyps(3)]) (use run_read.IH in simp_all)
next
  case (run_wait w eb rd W R eb' rd')
  obtain P where inv: "stream_inv w eb rd (at_eob R) P" using eb_run_inv [OF run_wait.hyps(1) st] by blast
  show ?case by (rule read_serves [OF inv _ _ run_wait.hyps(3)]) (use run_wait.IH in simp_all)
next
  case (run_extra w eb rd W R a b c eb')
  then have "eb_start eb' = eb_start eb" "eb_end eb' = eb_end eb" "eb_buf_map eb' = eb_buf_map eb"
    by (auto simp: br_read_extra_info_def split: list.splits)
  then show ?case using run_extra.IH by (simp add: serves_def eb_view_def)
qed

text \<open>C22. After any run, the writer finds each entry it has written at the position it was given: in the
  buffers, or reported as on disk once its buffer is released, which never happens before the entry was read.\<close>

theorem written_entries_served:
  assumes run: "eb_run start margin w eb rd W R" and start: "start mod 8 = 0" and x: "Ent p bz \<in> set W"
  shows "ebw_get_entry_bz_at p (w, eb) = (if p < eb_start eb then Inr (True, None) else Inr (False, Some bz))
    \<and> eb_start eb \<le> br_curr_pos rd"
proof -
  have s: "serves w eb W" "eb_start eb \<le> br_curr_pos rd" using eb_run_serves [OF run start] by auto
  obtain P where inv: "stream_inv w eb rd (at_eob R) P" using eb_run_inv [OF run start] by blast
  then obtain cb where w: "w = Some cb" and ok: "eb_ok eb cb" by (auto simp: stream_inv_def stream_core_def)
  have a: "p mod 8 = 0" "is_entry bz" "p + length bz \<le> eb_end eb" "eb_start eb \<le> p \<longrightarrow> m_held (eb_view eb cb) p bz"
    using s(1) x w by (auto simp: serves_def)
  obtain e dsns where e: "entry_ok e dsns" "bz = entry_layout e dsns" "length bz \<le> BIG_BUF_SIZE"
    using a(2) by (auto simp: is_entry_def)
  have "eb_get_entry_bz_at p (Some cb) eb = Inr (False, Some bz)" if "eb_start eb \<le> p"
    using eb_get_held [OF ok _ e(2,1) that a(3,1) e(3)] a(4) that by simp
  moreover have "eb_get_entry_bz_at p (Some cb) eb = Inr (True, None)" if "p < eb_start eb"
    using that by (simp add: eb_get_entry_bz_at_def Let_def)
  ultimately show ?thesis using s(2) w by (simp add: ebw_get_entry_bz_at_def)
qed

theorem written_entries_served_witness:
  "ebw_get_entry_bz_at 0 (Some demo_cb, demo_eb) = Inr (False, Some (entry_layout demo_entry []))"
  using written_entries_served [OF demo_run, of 0 "entry_layout demo_entry []"] by (simp add: demo_eb_def)

end
