(* ===== verification/Cache.thy ===== *)
theory Cache
  imports EntryVec EntryFile
begin

text \<open>
  \<^verbatim>\<open>src/qmdb/src/utils/bytescache.rs\<close> and \<^verbatim>\<open>src/qmdb/src/entryfile/entrycache.rs\<close>: byte strings stored
  one behind the other in large buffers, found through a map from keys to a buffer index and an
  offset packed into 64 bits, and the cache of entries built on it, one per shard.  The theory shows that the
  cache refines a map from positions to entries.  A method call holds its lock throughout and is one
  step.
\<close>

unbundle bit_operations_syntax

section \<open>Model\<close>

definition BYTES_CACHE_SHARD_COUNT :: nat where [layout_defs]: "BYTES_CACHE_SHARD_COUNT = 32"

definition new_cache_pos :: u64 where "new_cache_pos = - 1"

definition make_cache_pos :: "u32 \<Rightarrow> u32 \<Rightarrow> u64" where
  "make_cache_pos idx offset = push_bit 32 (ucast idx) OR ucast offset"

definition split_cache_pos :: "u64 \<Rightarrow> nat \<times> nat" where
  "split_cache_pos p = (unat (drop_bit 32 p), unat (drop_bit 32 (push_bit 32 p)))"

record 'k cache_shard =
  bs_pos_map :: "'k \<rightharpoonup> u64"
  bs_buf_list :: "bytes list"
  bs_free_list :: "bytes list"
  bs_curr_buf_idx :: u32
  bs_curr_offset :: u32

definition bs_new :: "'k cache_shard" where
  "bs_new = \<lparr> bs_pos_map = Map.empty, bs_buf_list = [], bs_free_list = [], bs_curr_buf_idx = 0, bs_curr_offset = 0 \<rparr>"

definition bs_clear :: "'k cache_shard \<Rightarrow> 'k cache_shard" where
  "bs_clear s =
     (let fl = bs_free_list s @ bs_buf_list s in
      s \<lparr> bs_pos_map := Map.empty, bs_buf_list := [], bs_free_list := take (length fl * 7 div 8) fl,
          bs_curr_buf_idx := 0, bs_curr_offset := 0 \<rparr>)"

definition bs_allocate_big_buf :: "'k cache_shard \<Rightarrow> bytes \<times> 'k cache_shard" where
  "bs_allocate_big_buf s =
     (if bs_free_list s = [] then (new_big_buf_boxed, s)
      else (last (bs_free_list s), s \<lparr> bs_free_list := butlast (bs_free_list s) \<rparr>))"

definition bs_insert :: "'k \<Rightarrow> u64 \<Rightarrow> 'k cache_shard \<Rightarrow> 'k cache_shard" where
  "bs_insert k p s = s \<lparr> bs_pos_map := (bs_pos_map s)(k \<mapsto> p) \<rparr>"

definition bs_allocate_if_missing :: "'k \<Rightarrow> u64 \<Rightarrow> 'k cache_shard \<Rightarrow> bool \<times> 'k cache_shard" where
  "bs_allocate_if_missing k p s =
     (case bs_pos_map s k of Some _ \<Rightarrow> (False, s)
      | None \<Rightarrow> (True, s \<lparr> bs_pos_map := (bs_pos_map s)(k \<mapsto> p) \<rparr>))"

definition bs_push_buf :: "'k cache_shard \<Rightarrow> 'k cache_shard" where
  "bs_push_buf s = (let (b, s) = bs_allocate_big_buf s in s \<lparr> bs_buf_list := bs_buf_list s @ [b] \<rparr>)"

definition bs_fill :: "bytes \<Rightarrow> 'k cache_shard \<Rightarrow> (u32 \<times> u32 \<times> 'k cache_shard) result" where
  "bs_fill bz s =
     (let sz = length bz;
          s = (if bs_buf_list s = [] then bs_push_buf s else s);
          s = (if BIG_BUF_SIZE < unat (bs_curr_offset s) + sz
               then (let s = bs_push_buf s in
                     s \<lparr> bs_curr_buf_idx := of_nat (length (bs_buf_list s)) - 1, bs_curr_offset := 0 \<rparr>)
               else s)
      in
      bindE (index (bs_buf_list s) (unat (bs_curr_buf_idx s))) (\<lambda>buf.
      bindE (write_at buf (unat (bs_curr_offset s)) bz) (\<lambda>buf.
      Inr (bs_curr_buf_idx s, bs_curr_offset s,
           s \<lparr> bs_buf_list := (bs_buf_list s)[unat (bs_curr_buf_idx s) := buf],
               bs_curr_offset := bs_curr_offset s + of_nat sz \<rparr>))))"

definition bs_contains :: "'k \<Rightarrow> 'k cache_shard \<Rightarrow> bool" where
  "bs_contains k s = (case bs_pos_map s k of Some p \<Rightarrow> p \<noteq> - 1 | None \<Rightarrow> False)"

text \<open>\<^verbatim>\<open>_read_bytes_at\<close>: what it hands to \<^verbatim>\<open>access\<close>, if anything.\<close>

definition bs_read_bytes_at :: "'k \<Rightarrow> 'k cache_shard \<Rightarrow> bytes option result" where
  "bs_read_bytes_at k s =
     (case bs_pos_map s k of None \<Rightarrow> Inr None
      | Some p \<Rightarrow>
          if p = - 1 then Inr None
          else
           (let (buf_idx, offset) = split_cache_pos p in
            bindE (index (bs_buf_list s) buf_idx) (\<lambda>b.
            bindE (slice b offset (length b)) (\<lambda>bz. Inr (Some bz)))))"

subsection \<open>\<^verbatim>\<open>BytesCache\<close>\<close>

type_synonym 'k bytes_cache = "'k cache_shard list"

definition bc_new :: "'k bytes_cache" where
  "bc_new = replicate BYTES_CACHE_SHARD_COUNT bs_new"

definition bc_clear :: "'k bytes_cache \<Rightarrow> 'k bytes_cache result" where
  "bc_clear c = foldE (\<lambda>i c. bindE (index c i) (\<lambda>s. Inr (c[i := bs_clear s]))) [0..<BYTES_CACHE_SHARD_COUNT] c"

definition bs_store :: "'k \<Rightarrow> bytes \<Rightarrow> 'k cache_shard \<Rightarrow> 'k cache_shard result" where
  "bs_store k bz s = bindE (bs_fill bz s) (\<lambda>(idx, offset, s). Inr (bs_insert k (make_cache_pos idx offset) s))"

definition bc_insert :: "'k \<Rightarrow> nat \<Rightarrow> bytes \<Rightarrow> 'k bytes_cache \<Rightarrow> 'k bytes_cache result" where
  "bc_insert k i bz c = bindE (index c i) (\<lambda>s. bindE (bs_store k bz s) (\<lambda>s. Inr (c[i := s])))"

definition bc_insert_if_missing :: "'k \<Rightarrow> nat \<Rightarrow> bytes \<Rightarrow> 'k bytes_cache \<Rightarrow> 'k bytes_cache result" where
  "bc_insert_if_missing k i bz c =
     bindE (index c i) (\<lambda>s. if bs_contains k s then Inr c else bindE (bs_store k bz s) (\<lambda>s. Inr (c[i := s])))"

definition bc_allocate_if_missing :: "'k \<Rightarrow> nat \<Rightarrow> u64 \<Rightarrow> 'k bytes_cache \<Rightarrow> (bool \<times> 'k bytes_cache) result" where
  "bc_allocate_if_missing k i p c =
     bindE (index c i) (\<lambda>s. let (r, s) = bs_allocate_if_missing k p s in Inr (r, c[i := s]))"

definition bc_fill :: "nat \<Rightarrow> bytes \<Rightarrow> 'k bytes_cache \<Rightarrow> (u32 \<times> u32 \<times> 'k bytes_cache) result" where
  "bc_fill i bz c = bindE (index c i) (\<lambda>s. bindE (bs_fill bz s) (\<lambda>(idx, off, s). Inr (idx, off, c[i := s])))"

definition bc_lookup :: "'k \<Rightarrow> nat \<Rightarrow> 'k bytes_cache \<Rightarrow> bytes option result" where
  "bc_lookup k i c = bindE (index c i) (bs_read_bytes_at k)"

subsection \<open>\<^verbatim>\<open>EntryCache\<close>\<close>

type_synonym entry_cache = "i64 bytes_cache list"

definition ec_new :: entry_cache where "ec_new = replicate SHARD_COUNT bc_new"
definition ec_new_uninit :: entry_cache where "ec_new_uninit = []"

definition ec_clear :: "entry_cache \<Rightarrow> entry_cache result" where
  "ec_clear c = foldE (\<lambda>b acc. bindE (bc_clear b) (\<lambda>b. Inr (acc @ [b]))) c []"

definition pos2idx :: "i64 \<Rightarrow> nat" where
  "pos2idx file_pos = unat (signed_drop_bit 8 file_pos XOR file_pos) mod BYTES_CACHE_SHARD_COUNT"

definition ec_allocate_if_missing :: "nat \<Rightarrow> i64 \<Rightarrow> u64 \<Rightarrow> entry_cache \<Rightarrow> (bool \<times> entry_cache) result" where
  "ec_allocate_if_missing shard_id file_pos p c =
     bindE (index c shard_id) (\<lambda>b.
     bindE (bc_allocate_if_missing file_pos (pos2idx file_pos) p b) (\<lambda>(r, b). Inr (r, c[shard_id := b])))"

definition ec_insert :: "nat \<Rightarrow> i64 \<Rightarrow> bytes \<Rightarrow> entry_cache \<Rightarrow> entry_cache result" where
  "ec_insert shard_id file_pos bz c =
     bindE (index c shard_id) (\<lambda>b.
     bindE (bc_insert file_pos (pos2idx file_pos) bz b) (\<lambda>b. Inr (c[shard_id := b])))"

definition ec_lookup :: "nat \<Rightarrow> i64 \<Rightarrow> entry_cache \<Rightarrow> bytes option result" where
  "ec_lookup shard_id file_pos c =
     bindE (index c shard_id) (\<lambda>b.
     bindE (bc_lookup file_pos (pos2idx file_pos) b) (\<lambda>r.
     case r of None \<Rightarrow> Inr None
     | Some bz \<Rightarrow> bindE (get_entry_len bz) (\<lambda>sz. bindE (slice bz 0 sz) (\<lambda>bz. Inr (Some bz)))))"

section \<open>A shard of the cache refines a map\<close>

text \<open>\<open>bs_rep s M\<close>: the strings of \<open>M\<close> are stored below the fill position.\<close>

definition bs_wf :: "'k cache_shard \<Rightarrow> bool" where
  "bs_wf s \<longleftrightarrow> (\<forall>b\<in>set (bs_buf_list s) \<union> set (bs_free_list s). length b = BIG_BUF_SIZE)
     \<and> unat (bs_curr_offset s) \<le> BIG_BUF_SIZE
     \<and> (if bs_buf_list s = [] then bs_curr_buf_idx s = 0 \<and> bs_curr_offset s = 0
        else unat (bs_curr_buf_idx s) = length (bs_buf_list s) - 1)"

definition bs_holds :: "'k cache_shard \<Rightarrow> 'k \<Rightarrow> bytes \<Rightarrow> bool" where
  "bs_holds s k bz \<longleftrightarrow> (\<exists>i off. bs_pos_map s k = Some (make_cache_pos i off) \<and> i \<noteq> - 1 \<and> unat i < length (bs_buf_list s)
     \<and> unat off + length bz \<le> BIG_BUF_SIZE \<and> take (length bz) (drop (unat off) (bs_buf_list s ! unat i)) = bz
     \<and> (unat i = unat (bs_curr_buf_idx s) \<longrightarrow> unat off + length bz \<le> unat (bs_curr_offset s)))"

definition bs_rep :: "'k cache_shard \<Rightarrow> ('k \<rightharpoonup> bytes) \<Rightarrow> bool" where
  "bs_rep s M \<longleftrightarrow> bs_wf s \<and> (\<forall>k. case M k of Some bz \<Rightarrow> bs_holds s k bz
     | None \<Rightarrow> bs_pos_map s k = None \<or> bs_pos_map s k = Some (- 1))"

lemma split_make_cache_pos: "split_cache_pos (make_cache_pos i off) = (unat i, unat off)"
proof -
  have a: "drop_bit 32 (make_cache_pos i off) = ucast i"
    by (rule bit_eqI) (auto simp: make_cache_pos_def bit_simps dest: bit_imp_le_length)
  have b: "drop_bit 32 (push_bit 32 (make_cache_pos i off)) = ucast off"
    by (rule bit_eqI) (auto simp: make_cache_pos_def bit_simps dest: bit_imp_le_length)
  have "unat (ucast (x :: u32) :: u64) = unat x" for x
    using unsigned_less [of x, where ?'a = nat] by (simp add: unsigned_ucast_eq take_bit_nat_eq_self)
  then show ?thesis unfolding split_cache_pos_def a b by simp
qed

lemma make_cache_pos_not_new: "i \<noteq> - 1 \<Longrightarrow> make_cache_pos i off \<noteq> - 1"
proof
  assume i: "i \<noteq> - 1" and m: "make_cache_pos i off = - 1"
  have "unat i = unat (drop_bit 32 (- 1 :: u64))" using split_make_cache_pos [of i off] m by (simp add: split_cache_pos_def)
  also have "\<dots> = unat (- 1 :: u32)" 
    by (simp add: unat_drop_bit_eq unsigned_minus_1_eq_mask mask_eq_exp_minus_1 drop_bit_eq_div)
  finally have "i = - 1" by (rule injD [OF inj_unsigned])
  then show False using i by simp
qed

lemma read_bytes_rep:
  assumes "bs_rep s M"
  shows "\<exists>r. bs_read_bytes_at k s = Inr r \<and> (case M k of None \<Rightarrow> r = None | Some bz \<Rightarrow> \<exists>post. r = Some (bz @ post))"
proof (cases "M k")
  case None
  then have "bs_pos_map s k = None \<or> bs_pos_map s k = Some (- 1)" using assms by (auto simp: bs_rep_def dest!: spec [of _ k])
  then show ?thesis using None by (auto simp: bs_read_bytes_at_def)
next
  case (Some bz)
  then have "bs_holds s k bz" and wf: "bs_wf s" using assms by (auto simp: bs_rep_def dest!: spec [of _ k])
  then obtain i off where h: "bs_pos_map s k = Some (make_cache_pos i off)" "i \<noteq> - 1" "unat i < length (bs_buf_list s)"
    "unat off + length bz \<le> BIG_BUF_SIZE" "take (length bz) (drop (unat off) (bs_buf_list s ! unat i)) = bz"
    by (auto simp: bs_holds_def)
  let ?b = "bs_buf_list s ! unat i"
  have l: "length ?b = BIG_BUF_SIZE" using wf h(3) by (auto simp: bs_wf_def)
  have "drop (unat off) ?b = bz @ drop (length bz) (drop (unat off) ?b)" by (metis append_take_drop_id h(5))
  moreover have "bs_read_bytes_at k s = Inr (Some (drop (unat off) ?b))"
    using h l make_cache_pos_not_new by (simp add: bs_read_bytes_at_def split_make_cache_pos)
  ultimately show ?thesis using Some by auto
qed

lemma allocate_wf:
  assumes "bs_wf s"
  shows "length (fst (bs_allocate_big_buf s)) = BIG_BUF_SIZE"
    "\<exists>fl. bs_allocate_big_buf s = (fst (bs_allocate_big_buf s), s \<lparr> bs_free_list := fl \<rparr>) \<and> set fl \<subseteq> set (bs_free_list s)"
proof -
  show "length (fst (bs_allocate_big_buf s)) = BIG_BUF_SIZE"
    using assms by (auto simp: bs_allocate_big_buf_def bs_wf_def new_big_buf_boxed_def)
  show "\<exists>fl. bs_allocate_big_buf s = (fst (bs_allocate_big_buf s), s \<lparr> bs_free_list := fl \<rparr>) \<and> set fl \<subseteq> set (bs_free_list s)"
  proof (cases "bs_free_list s = []")
    case True
    then show ?thesis by (intro exI [of _ "bs_free_list s"]) (simp add: bs_allocate_big_buf_def)
  next
    case False
    then show ?thesis
      by (intro exI [of _ "butlast (bs_free_list s)"]) (auto simp: bs_allocate_big_buf_def dest: in_set_butlastD)
  qed
qed

lemma push_buf_eq:
  assumes "bs_wf s"
  obtains b fl where "bs_push_buf s = s \<lparr> bs_buf_list := bs_buf_list s @ [b], bs_free_list := fl \<rparr>"
    "length b = BIG_BUF_SIZE" "set fl \<subseteq> set (bs_free_list s)"
proof -
  obtain fl where "bs_allocate_big_buf s = (fst (bs_allocate_big_buf s), s \<lparr> bs_free_list := fl \<rparr>)" "set fl \<subseteq> set (bs_free_list s)"
    using allocate_wf(2) [OF assms] by blast
  then have "bs_push_buf s = s \<lparr> bs_buf_list := bs_buf_list s @ [fst (bs_allocate_big_buf s)], bs_free_list := fl \<rparr>"
    by (cases "bs_allocate_big_buf s") (simp add: bs_push_buf_def)
  then show thesis using that allocate_wf(1) [OF assms] \<open>set fl \<subseteq> _\<close> by blast
qed

text \<open>Making room: what is stored stays, and the string fits behind the fill position.\<close>

definition bs_room :: "nat \<Rightarrow> 'k cache_shard \<Rightarrow> 'k cache_shard" where
  "bs_room sz s =
     (let s = (if bs_buf_list s = [] then bs_push_buf s else s) in
      if BIG_BUF_SIZE < unat (bs_curr_offset s) + sz
      then (let s = bs_push_buf s in
            s \<lparr> bs_curr_buf_idx := of_nat (length (bs_buf_list s)) - 1, bs_curr_offset := 0 \<rparr>)
      else s)"

lemma bs_first_buf:
  assumes "bs_wf s"
  defines "s' \<equiv> if bs_buf_list s = [] then bs_push_buf s else s"
  shows "bs_wf s'" "bs_buf_list s' \<noteq> []" "bs_pos_map s' = bs_pos_map s" "\<forall>k bz. bs_holds s k bz \<longrightarrow> bs_holds s' k bz"
    "length (bs_buf_list s') \<le> length (bs_buf_list s) + 1"
proof -
  have "bs_wf s' \<and> bs_buf_list s' \<noteq> [] \<and> bs_pos_map s' = bs_pos_map s \<and> (\<forall>k bz. bs_holds s k bz \<longrightarrow> bs_holds s' k bz)
    \<and> length (bs_buf_list s') \<le> length (bs_buf_list s) + 1"
  proof (cases "bs_buf_list s = []")
    case True
    obtain b fl where p: "bs_push_buf s = s \<lparr> bs_buf_list := bs_buf_list s @ [b], bs_free_list := fl \<rparr>"
        "length b = BIG_BUF_SIZE" "set fl \<subseteq> set (bs_free_list s)"
      by (rule push_buf_eq [OF assms(1)])
    have "s' = s \<lparr> bs_buf_list := [b], bs_free_list := fl \<rparr>" using True p(1) by (simp add: s'_def)
    then show ?thesis using True p(2,3) assms(1) by (auto simp: bs_wf_def bs_holds_def)
  qed (use assms(1) in \<open>simp add: s'_def\<close>)
  then show "bs_wf s'" "bs_buf_list s' \<noteq> []" "bs_pos_map s' = bs_pos_map s" "\<forall>k bz. bs_holds s k bz \<longrightarrow> bs_holds s' k bz"
    "length (bs_buf_list s') \<le> length (bs_buf_list s) + 1" by auto
qed

lemma bs_room_ok:
  assumes wf: "bs_wf s" and sz: "sz \<le> BIG_BUF_SIZE" and few: "length (bs_buf_list s) + 2 < 2 ^ 32"
  defines "s' \<equiv> bs_room sz s"
  shows "bs_wf s'" "bs_buf_list s' \<noteq> []" "bs_pos_map s' = bs_pos_map s" "unat (bs_curr_offset s') + sz \<le> BIG_BUF_SIZE"
    "\<forall>k bz. bs_holds s k bz \<longrightarrow> bs_holds s' k bz" "length (bs_buf_list s') \<le> length (bs_buf_list s) + 2"
proof -
  define t where "t = (if bs_buf_list s = [] then bs_push_buf s else s)"
  note f = bs_first_buf [OF wf, folded t_def]
  have "bs_wf s' \<and> bs_buf_list s' \<noteq> [] \<and> bs_pos_map s' = bs_pos_map t \<and> unat (bs_curr_offset s') + sz \<le> BIG_BUF_SIZE
    \<and> (\<forall>k bz. bs_holds t k bz \<longrightarrow> bs_holds s' k bz) \<and> length (bs_buf_list s') \<le> length (bs_buf_list t) + 1"
  proof (cases "BIG_BUF_SIZE < unat (bs_curr_offset t) + sz")
    case True
    obtain b fl where p: "bs_push_buf t = t \<lparr> bs_buf_list := bs_buf_list t @ [b], bs_free_list := fl \<rparr>"
        "length b = BIG_BUF_SIZE" "set fl \<subseteq> set (bs_free_list t)"
      by (rule push_buf_eq [OF f(1)])
    let ?n = "length (bs_buf_list t)"
    have s': "s' = t \<lparr> bs_buf_list := bs_buf_list t @ [b], bs_free_list := fl, bs_curr_buf_idx := of_nat (?n + 1) - 1, bs_curr_offset := 0 \<rparr>"
      using True p(1) by (simp add: s'_def bs_room_def Let_def flip: t_def)
    have "unat (of_nat ?n :: u32) = ?n" using few f(5) by (simp add: unat_of_nat take_bit_nat_eq_self)
    moreover have "(of_nat (?n + 1) - 1 :: u32) = of_nat ?n" by simp
    ultimately have idx: "unat (bs_curr_buf_idx s') = ?n" using s' by simp
    have "bs_wf s'" using s' p(2,3) f(1) idx by (auto simp: bs_wf_def)
    moreover have "bs_holds s' k bz" if "bs_holds t k bz" for k bz
      using that idx s' unfolding bs_holds_def by (auto simp: nth_append)
    ultimately show ?thesis using s' sz by auto
  next
    case False
    then have "s' = t" by (simp add: s'_def bs_room_def Let_def flip: t_def)
    then show ?thesis using f False by simp
  qed
  then show "bs_wf s'" "bs_buf_list s' \<noteq> []" "bs_pos_map s' = bs_pos_map s" "unat (bs_curr_offset s') + sz \<le> BIG_BUF_SIZE"
    "\<forall>k bz. bs_holds s k bz \<longrightarrow> bs_holds s' k bz" "length (bs_buf_list s') \<le> length (bs_buf_list s) + 2"
    using f by auto
qed

lemma bs_fill_room:
  "bs_fill bz s = (let s = bs_room (length bz) s in
     bindE (index (bs_buf_list s) (unat (bs_curr_buf_idx s))) (\<lambda>buf.
     bindE (write_at buf (unat (bs_curr_offset s)) bz) (\<lambda>buf.
     Inr (bs_curr_buf_idx s, bs_curr_offset s,
          s \<lparr> bs_buf_list := (bs_buf_list s)[unat (bs_curr_buf_idx s) := buf],
              bs_curr_offset := bs_curr_offset s + of_nat (length bz) \<rparr>))))"
  by (simp add: bs_fill_def bs_room_def Let_def)

lemma bs_store_rep:
  assumes rep: "bs_rep s M" and sz: "length bz \<le> BIG_BUF_SIZE" and few: "length (bs_buf_list s) + 2 < 2 ^ 32"
  shows "\<exists>s'. bs_store k bz s = Inr s' \<and> bs_rep s' (M(k \<mapsto> bz)) \<and> length (bs_buf_list s') \<le> length (bs_buf_list s) + 2"
proof -
  have wf: "bs_wf s" using rep by (simp add: bs_rep_def)
  define t where "t = bs_room (length bz) s"
  note r = bs_room_ok [OF wf sz few, folded t_def]
  let ?i = "bs_curr_buf_idx t" and ?o = "bs_curr_offset t"
  have i: "unat ?i = length (bs_buf_list t) - 1" "unat ?i < length (bs_buf_list t)" using r(1,2) by (auto simp: bs_wf_def)
  let ?b = "bs_buf_list t ! unat ?i"
  have l: "length ?b = BIG_BUF_SIZE" using r(1) i(2) by (auto simp: bs_wf_def)
  let ?b' = "splice ?b (unat ?o) bz"
  let ?u = "t \<lparr> bs_buf_list := (bs_buf_list t)[unat ?i := ?b'], bs_curr_offset := ?o + of_nat (length bz) \<rparr>"
  let ?s = "bs_insert k (make_cache_pos ?i ?o) ?u"
  have st: "bs_store k bz s = Inr ?s"
    using i(2) l r(4) by (simp add: bs_store_def bs_fill_room Let_def flip: t_def)
  have off: "unat (?o + of_nat (length bz)) = unat ?o + length bz"
  proof -
    have "unat ?o + length bz < 2 ^ 32" using r(4) by (simp add: layout_defs)
    then show ?thesis by (simp add: unat_word_ariths unat_of_nat take_bit_nat_eq_self)
  qed
  have bits: "length ?b' = BIG_BUF_SIZE" using l r(4) by simp
  have wf': "bs_wf ?s" using r(1,2,4) bits off
    by (auto simp: bs_wf_def bs_insert_def dest!: subsetD [OF set_update_subset_insert])
  have imax: "?i \<noteq> - 1"
  proof
    assume "?i = - 1"
    then have "unat ?i = 2 ^ 32 - 1" by (simp add: unsigned_minus_1_eq_mask mask_eq_exp_minus_1)
    then show False using i(1) r(6) few by simp
  qed
  have new: "bs_holds ?s k bz"
    unfolding bs_holds_def using i(2) imax r(4) off l
    by (intro exI [of _ ?i] exI [of _ ?o]) (simp add: bs_insert_def take_drop_splice_same)
  have old: "bs_holds ?s k' bz'" if h: "bs_holds s k' bz'" and ne: "k' \<noteq> k" for k' bz'
  proof -
    obtain j o' where j: "bs_pos_map t k' = Some (make_cache_pos j o')" "j \<noteq> - 1" "unat j < length (bs_buf_list t)"
        "unat o' + length bz' \<le> BIG_BUF_SIZE" "take (length bz') (drop (unat o') (bs_buf_list t ! unat j)) = bz'"
        "unat j = unat ?i \<longrightarrow> unat o' + length bz' \<le> unat ?o"
      using r(5) h unfolding bs_holds_def by blast
    have "take (length bz') (drop (unat o') (bs_buf_list ?u ! unat j)) = bz'"
    proof (cases "unat j = unat ?i")
      case True
      have "take (length bz') (drop (unat o') ?b') = take (length bz') (drop (unat o') ?b)"
        using j(6) True l r(4) by (intro take_drop_splice_before) simp_all
      then show ?thesis using j(5) True i(2) by simp
    qed (use j(5) in simp)
    then show ?thesis unfolding bs_holds_def using j ne off
      by (intro exI [of _ j] exI [of _ o']) (auto simp: bs_insert_def)
  qed
  have "case (M(k \<mapsto> bz)) k' of Some bz \<Rightarrow> bs_holds ?s k' bz
     | None \<Rightarrow> bs_pos_map ?s k' = None \<or> bs_pos_map ?s k' = Some (- 1)" for k'
  proof (cases "k' = k")
    case False
    have "case M k' of Some bz \<Rightarrow> bs_holds s k' bz | None \<Rightarrow> bs_pos_map s k' = None \<or> bs_pos_map s k' = Some (- 1)"
      using rep by (auto simp: bs_rep_def)
    then show ?thesis using False old r(3) by (auto simp: bs_insert_def split: option.splits)
  qed (use new in simp)
  then have "bs_rep ?s (M(k \<mapsto> bz))" using wf' unfolding bs_rep_def by blast
  then show ?thesis using st r(6) by (intro exI [of _ ?s]) (simp add: bs_insert_def)
qed

section \<open>The entry cache refines a map\<close>

text \<open>The strings stored for shard \<open>s\<close> are spread over the shards of its bytes cache by position.\<close>

definition ec_rep :: "entry_cache \<Rightarrow> (nat \<times> i64 \<rightharpoonup> bytes) \<Rightarrow> bool" where
  "ec_rep c M \<longleftrightarrow> length c = SHARD_COUNT \<and> (\<forall>s<SHARD_COUNT. length (c ! s) = BYTES_CACHE_SHARD_COUNT
     \<and> (\<forall>i<BYTES_CACHE_SHARD_COUNT. bs_rep (c ! s ! i) (\<lambda>pos. if pos2idx pos = i then M (s, pos) else None)))"

definition ec_small :: "entry_cache \<Rightarrow> nat \<Rightarrow> bool" where
  "ec_small c n \<longleftrightarrow> (\<forall>s<SHARD_COUNT. \<forall>i<BYTES_CACHE_SHARD_COUNT. length (bs_buf_list (c ! s ! i)) \<le> n)"

lemma pos2idx_less [simp]: "pos2idx pos < BYTES_CACHE_SHARD_COUNT"
  by (simp add: pos2idx_def layout_defs)

lemma ec_new_rep: "ec_rep ec_new Map.empty" "ec_small ec_new 0"
  by (simp_all add: ec_rep_def ec_small_def ec_new_def bc_new_def bs_new_def bs_rep_def bs_wf_def)

lemma ec_insert_rep:
  assumes rep: "ec_rep c M" and s: "s < SHARD_COUNT" and sz: "length bz \<le> BIG_BUF_SIZE"
    and small: "ec_small c n" "n + 2 < 2 ^ 32"
  shows "\<exists>c'. ec_insert s pos bz c = Inr c' \<and> ec_rep c' (M((s, pos) \<mapsto> bz)) \<and> ec_small c' (n + 2)"
proof -
  let ?i = "pos2idx pos"
  let ?M = "\<lambda>s i p. if pos2idx p = i then M (s, p) else None"
  have l: "s < length c" "?i < length (c ! s)" using rep s by (auto simp: ec_rep_def)
  have r: "bs_rep (c ! s ! ?i) (?M s ?i)" using rep s by (simp add: ec_rep_def)
  have "length (bs_buf_list (c ! s ! ?i)) \<le> n" using small(1) s by (simp add: ec_small_def)
  then have few: "length (bs_buf_list (c ! s ! ?i)) + 2 < 2 ^ 32" using small(2) by linarith
  obtain b where b: "bs_store pos bz (c ! s ! ?i) = Inr b" "bs_rep b ((?M s ?i)(pos \<mapsto> bz))"
      "length (bs_buf_list b) \<le> length (bs_buf_list (c ! s ! ?i)) + 2"
    using bs_store_rep [OF r sz few] by blast
  let ?c = "c[s := (c ! s)[?i := b]]"
  have "ec_insert s pos bz c = Inr ?c" using l b(1) by (simp add: ec_insert_def bc_insert_def)
  moreover have "bs_rep (?c ! s' ! j) (\<lambda>p. if pos2idx p = j then (M((s, pos) \<mapsto> bz)) (s', p) else None)"
    if "s' < SHARD_COUNT" "j < BYTES_CACHE_SHARD_COUNT" for s' j
  proof (cases "s' = s \<and> j = ?i")
    case True
    have "(\<lambda>p. if pos2idx p = ?i then (M((s, pos) \<mapsto> bz)) (s, p) else None) = (?M s ?i)(pos \<mapsto> bz)" by (rule ext) simp
    then show ?thesis using l b(2) unfolding conjunct1 [OF True] conjunct2 [OF True] by simp
  next
    case False
    have "bs_rep (c ! s' ! j) (?M s' j)" using rep that by (simp add: ec_rep_def)
    moreover have "(\<lambda>p. if pos2idx p = j then (M((s, pos) \<mapsto> bz)) (s', p) else None) = ?M s' j" using False by (intro ext) auto
    moreover have "?c ! s' ! j = c ! s' ! j" using False l by (cases "s' = s") simp_all
    ultimately show ?thesis by simp
  qed
  then have "ec_rep ?c (M((s, pos) \<mapsto> bz))" using rep l unfolding ec_rep_def by (auto simp: nth_list_update)
  moreover have "ec_small ?c (n + 2)"
    unfolding ec_small_def
  proof (intro allI impI)
    fix s' j assume "s' < SHARD_COUNT" "j < BYTES_CACHE_SHARD_COUNT"
    then have "length (bs_buf_list (c ! s' ! j)) \<le> n" using small(1) by (simp add: ec_small_def)
    then show "length (bs_buf_list (?c ! s' ! j)) \<le> n + 2" using l b(3) by (cases "s' = s"; cases "j = ?i") auto
  qed
  ultimately show ?thesis by blast
qed

lemma ec_lookup_rep:
  assumes rep: "ec_rep c M" and s: "s < SHARD_COUNT" and e: "\<forall>bz. M (s, pos) = Some bz \<longrightarrow> (\<exists>e dsns. entry_ok e dsns \<and> bz = entry_layout e dsns)"
  shows "ec_lookup s pos c = Inr (M (s, pos))"
proof -
  let ?i = "pos2idx pos"
  have l: "s < length c" "?i < length (c ! s)" using rep s by (auto simp: ec_rep_def)
  have "bs_rep (c ! s ! ?i) (\<lambda>p. if pos2idx p = ?i then M (s, p) else None)" using rep s by (simp add: ec_rep_def)
  from read_bytes_rep [OF this, of pos] obtain r where r: "bs_read_bytes_at pos (c ! s ! ?i) = Inr r"
    "case M (s, pos) of None \<Rightarrow> r = None | Some bz \<Rightarrow> \<exists>post. r = Some (bz @ post)" by auto
  then show ?thesis using l e
    by (auto simp: ec_lookup_def bc_lookup_def read_entry_len split: option.splits)
qed

definition cache_map :: "(nat \<times> i64 \<times> entry \<times> u64 list) list \<Rightarrow> (nat \<times> i64 \<rightharpoonup> bytes)" where
  "cache_map ops = fold (\<lambda>(s, pos, e, dsns) M. M((s, pos) \<mapsto> entry_layout e dsns)) ops Map.empty"

lemma cache_map_simps [simp]:
  "cache_map [] = Map.empty" "cache_map (ops @ [(s, pos, e, dsns)]) = (cache_map ops)((s, pos) \<mapsto> entry_layout e dsns)"
  by (simp_all add: cache_map_def)

text \<open>C26. The entry cache is a map: after any sequence of insertions of entries, a lookup returns the entry
  inserted last for the shard and position, and nothing where none was inserted.  (Each insertion
  starts at most two buffers; the bound keeps their index within 32 bits.)\<close>

theorem entry_cache_refines_map:
  assumes ok: "\<forall>(s, pos, e, dsns)\<in>set ops. s < SHARD_COUNT \<and> entry_ok e dsns \<and> length (entry_layout e dsns) \<le> BIG_BUF_SIZE"
    and few: "2 * length ops + 2 < 2 ^ 32"
  shows "\<exists>c. foldE (\<lambda>(s, pos, e, dsns). ec_insert s pos (entry_layout e dsns)) ops ec_new = Inr c
    \<and> (\<forall>s<SHARD_COUNT. \<forall>pos. ec_lookup s pos c =
         Inr (cache_map ops (s, pos)))"
proof -
  have "\<exists>c. foldE (\<lambda>(s, pos, e, dsns). ec_insert s pos (entry_layout e dsns)) ops ec_new = Inr c
    \<and> ec_rep c (cache_map ops) \<and> ec_small c (2 * length ops)
    \<and> (\<forall>x bz. cache_map ops x = Some bz \<longrightarrow> (\<exists>e dsns. entry_ok e dsns \<and> bz = entry_layout e dsns))"
    using ok few
  proof (induction ops rule: rev_induct)
    case Nil
    then show ?case using ec_new_rep by simp
  next
    case (snoc op ops)
    obtain s pos e dsns where op: "op = (s, pos, e, dsns)" by (cases op)
    have ok': "\<forall>(s, pos, e, dsns)\<in>set ops. s < SHARD_COUNT \<and> entry_ok e dsns \<and> length (entry_layout e dsns) \<le> BIG_BUF_SIZE"
      and few': "2 * length ops + 2 < 2 ^ 32"
      using snoc.prems by simp_all
    obtain c where c: "foldE (\<lambda>(s, pos, e, dsns). ec_insert s pos (entry_layout e dsns)) ops ec_new = Inr c"
        "ec_rep c (cache_map ops)" "ec_small c (2 * length ops)"
        "\<forall>x bz. cache_map ops x = Some bz \<longrightarrow> (\<exists>e dsns. entry_ok e dsns \<and> bz = entry_layout e dsns)"
      using snoc.IH [OF ok' few'] by (elim exE conjE)
    obtain c' where c': "ec_insert s pos (entry_layout e dsns) c = Inr c'" "ec_rep c' ((cache_map ops)((s, pos) \<mapsto> entry_layout e dsns))"
        "ec_small c' (2 * length ops + 2)"
      using ec_insert_rep [OF c(2) _ _ c(3), of s "entry_layout e dsns" pos] snoc.prems op by auto
    have "\<forall>x bz. ((cache_map ops)((s, pos) \<mapsto> entry_layout e dsns)) x = Some bz \<longrightarrow> (\<exists>e dsns. entry_ok e dsns \<and> bz = entry_layout e dsns)"
      using c(4) snoc.prems(1) op by auto
    moreover have "foldE (\<lambda>(s, pos, e, dsns). ec_insert s pos (entry_layout e dsns)) (ops @ [op]) ec_new = Inr c'"
      using c(1) c'(1) op by simp
    moreover have "ec_small c' (2 * length (ops @ [op]))" using c'(3) by simp
    ultimately show ?case using c'(2) unfolding op cache_map_simps by blast
  qed
  then show ?thesis using ec_lookup_rep by metis
qed

theorem entry_cache_refines_map_witness:
  "\<exists>c. foldE (\<lambda>(s, pos, e, dsns). ec_insert s pos (entry_layout e dsns)) [(3, 64, demo_entry, [])] ec_new = Inr c
    \<and> ec_lookup 3 64 c = Inr (Some (entry_layout demo_entry [])) \<and> ec_lookup 3 128 c = Inr None"
proof -
  have "length (entry_layout demo_entry []) \<le> BIG_BUF_SIZE" "entry_ok demo_entry []"
    using length_entry_layout [of demo_entry "[]"]
    by (simp_all add: demo_entry_def entry_ok_def get_serialized_len_def layout_defs)
  then show ?thesis
    using entry_cache_refines_map [of "[(3, 64, demo_entry, [])]"] by (auto simp: layout_defs cache_map_def)
qed

end
