(* ===== verification/Tasks.thy ===== *)
theory Tasks
  imports Changes Cache
begin

text \<open>
  \<^verbatim>\<open>src/qmdb/src/tasks\<close>: the tasks of a block (\<^verbatim>\<open>tasksmanager.rs\<close>), the hub that keeps the
  two blocks being processed (\<^verbatim>\<open>bptaskhub.rs\<close>), and the ring of jobs between compactor and
  updater (\<^verbatim>\<open>utils/ringchannel.rs\<close>).  A task is a value of the type \<open>'t\<close>; its change sets
  are read through the method of the trait \<^verbatim>\<open>Task\<close>, an argument.  The hub is shown to refine a map from
  heights to blocks that holds at most two, the ring to keep its number of jobs.
\<close>

section \<open>Tasks of a block\<close>

definition IN_BLOCK_IDX_MASK :: i64 where "IN_BLOCK_IDX_MASK = push_bit IN_BLOCK_IDX_BITS 1 - 1"

record 't tasks_manager =
  tm_tasks :: "'t option list"
  tm_last_task_id :: i64

definition tm_default :: "'t tasks_manager" where
  "tm_default = \<lparr> tm_tasks = [], tm_last_task_id = - 1 \<rparr>"

definition tm_new :: "'t option list \<Rightarrow> i64 \<Rightarrow> 't tasks_manager" where
  "tm_new ts last_id = \<lparr> tm_tasks = ts, tm_last_task_id = last_id \<rparr>"

definition tm_tasks_len :: "'t tasks_manager \<Rightarrow> nat" where "tm_tasks_len tm = length (tm_tasks tm)"

definition tm_get_tasks_change_sets :: "('t \<Rightarrow> ChangeSet list) \<Rightarrow> nat \<Rightarrow> 't tasks_manager \<Rightarrow> ChangeSet list result" where
  "tm_get_tasks_change_sets css idx tm =
     bindE (index (tm_tasks tm) idx) (\<lambda>t. bindE (unwrap ''called unwrap on None'' t) (\<lambda>t. Inr (css t)))"

definition tm_task_for_read :: "nat \<Rightarrow> 't tasks_manager \<Rightarrow> 't option result" where
  "tm_task_for_read idx tm =
     (if length (tm_tasks tm) \<le> idx then Inl (Panic ''task index out of range'') else Inr (tm_tasks tm ! idx))"

definition tm_set_task :: "nat \<Rightarrow> 't \<Rightarrow> 't tasks_manager \<Rightarrow> 't tasks_manager result" where
  "tm_set_task idx t tm =
     (if length (tm_tasks tm) \<le> idx then Inl (Panic ''task index out of range'')
      else Inr (tm \<lparr> tm_tasks := (tm_tasks tm)[idx := Some t] \<rparr>))"

section \<open>The hub\<close>

record 't task_hub =
  th_tasks0 :: "'t tasks_manager"
  th_tasks1 :: "'t tasks_manager"
  th_height0 :: i64
  th_height1 :: i64
  th_cache0 :: entry_cache
  th_cache1 :: entry_cache

definition th_new :: "'t task_hub" where
  "th_new = \<lparr> th_tasks0 = tm_default, th_tasks1 = tm_default, th_height0 = - 1, th_height1 = - 1,
     th_cache0 = ec_new_uninit, th_cache1 = ec_new_uninit \<rparr>"

definition th_free_slot_count :: "'t task_hub \<Rightarrow> nat" where
  "th_free_slot_count h = (if sint (th_height0 h) < 0 then 1 else 0) + (if sint (th_height1 h) < 0 then 1 else 0)"

definition th_end_block :: "i64 \<Rightarrow> 't task_hub \<Rightarrow> 't task_hub result" where
  "th_end_block height h =
     (if th_height0 h = height then Inr (h \<lparr> th_height0 := - 1 \<rparr>)
      else if th_height1 h = height then Inr (h \<lparr> th_height1 := - 1 \<rparr>)
      else Inl (Panic ''no data found for height''))"

definition th_start_block :: "i64 \<Rightarrow> 't tasks_manager \<Rightarrow> entry_cache \<Rightarrow> 't task_hub \<Rightarrow> 't task_hub result" where
  "th_start_block height tm cache h =
     (if sint (th_height0 h) < 0 then Inr (h \<lparr> th_tasks0 := tm, th_cache0 := cache, th_height0 := height \<rparr>)
      else if sint (th_height1 h) < 0 then Inr (h \<lparr> th_tasks1 := tm, th_cache1 := cache, th_height1 := height \<rparr>)
      else Inl (Panic ''no data found for height''))"

definition task_height :: "i64 \<Rightarrow> i64" where "task_height task_id = signed_drop_bit IN_BLOCK_IDX_BITS task_id"

definition th_check_begin_end :: "i64 \<Rightarrow> 't task_hub \<Rightarrow> (entry_cache option \<times> bool) result" where
  "th_check_begin_end task_id h =
     (if th_height0 h = task_height task_id then
        (let last_task_in_blk0 = tm_last_task_id (th_tasks0 h) in
         if task_id AND IN_BLOCK_IDX_MASK \<noteq> 0 then Inr (None, last_task_in_blk0 = task_id)
         else Inr (Some (th_cache0 h), last_task_in_blk0 = task_id))
      else if th_height1 h = task_height task_id then
        (let last_task_in_blk1 = tm_last_task_id (th_tasks1 h) in
         if task_id AND IN_BLOCK_IDX_MASK \<noteq> 0 then Inr (None, last_task_in_blk1 = task_id)
         else Inr (Some (th_cache1 h), last_task_in_blk1 = task_id))
      else Inl (Panic ''no data found for height''))"

definition th_get_change_sets :: "('t \<Rightarrow> ChangeSet list) \<Rightarrow> i64 \<Rightarrow> 't task_hub \<Rightarrow> ChangeSet list result" where
  "th_get_change_sets css task_id h =
     (if th_height0 h = task_height task_id then
        tm_get_tasks_change_sets css (unat (task_id AND IN_BLOCK_IDX_MASK)) (th_tasks0 h)
      else if th_height1 h = task_height task_id then
        tm_get_tasks_change_sets css (unat (task_id AND IN_BLOCK_IDX_MASK)) (th_tasks1 h)
      else Inl (Panic ''no data found for height''))"

text \<open>\<^verbatim>\<open>utils/slice.rs\<close>: a slice whose end is checked; a start beyond the end still panics.\<close>

definition try_get_slice :: "bytes \<Rightarrow> nat \<Rightarrow> nat \<Rightarrow> bytes result" where
  "try_get_slice bz start end' = (if length bz < end' then Inl (Err ''end >= bz.len()'') else slice bz start end')"

section \<open>Job ring\<close>

text \<open>Two channels of the same capacity; an element sent back can be sent forward again.  Receiving from an
  empty channel and sending to a full one wait: the step is not taken, \<open>None\<close>.\<close>

record 'a ring =
  rc_size :: nat
  rc_fwd :: "'a list"
  rc_bck :: "'a list"

definition ring_new :: "nat \<Rightarrow> 'a \<Rightarrow> 'a ring" where
  "ring_new n t = \<lparr> rc_size = n, rc_fwd = [], rc_bck = replicate n t \<rparr>"

definition ring_produce :: "'a \<Rightarrow> 'a ring \<Rightarrow> 'a ring option" where
  "ring_produce t r = (if length (rc_fwd r) < rc_size r then Some (r \<lparr> rc_fwd := rc_fwd r @ [t] \<rparr>) else None)"

definition ring_receive_returned :: "'a ring \<Rightarrow> ('a \<times> 'a ring) option" where
  "ring_receive_returned r = (case rc_bck r of [] \<Rightarrow> None | t # ts \<Rightarrow> Some (t, r \<lparr> rc_bck := ts \<rparr>))"

definition ring_consume :: "'a ring \<Rightarrow> ('a \<times> 'a ring) option" where
  "ring_consume r = (case rc_fwd r of [] \<Rightarrow> None | t # ts \<Rightarrow> Some (t, r \<lparr> rc_fwd := ts \<rparr>))"

definition ring_send_returned :: "'a \<Rightarrow> 'a ring \<Rightarrow> 'a ring option" where
  "ring_send_returned t r = (if length (rc_bck r) < rc_size r then Some (r \<lparr> rc_bck := rc_bck r @ [t] \<rparr>) else None)"

text \<open>The producer holds at most the job it received, the consumer those it has consumed; sending never
  waits, because a held job leaves room in either channel.\<close>

definition ring_ok :: "'a ring \<Rightarrow> nat \<Rightarrow> bool" where
  "ring_ok r held \<longleftrightarrow> length (rc_fwd r) + length (rc_bck r) + held = rc_size r"

lemma ring_new_ok: "ring_ok (ring_new n t) 0"
  by (simp add: ring_ok_def ring_new_def)

lemma ring_send_never_waits:
  "ring_ok r (Suc held) \<Longrightarrow> \<exists>r'. ring_produce t r = Some r' \<and> ring_ok r' held \<and> rc_fwd r' = rc_fwd r @ [t]"
  "ring_ok r (Suc held) \<Longrightarrow> \<exists>r'. ring_send_returned t r = Some r' \<and> ring_ok r' held \<and> rc_fwd r' = rc_fwd r"
  by (auto simp: ring_ok_def ring_produce_def ring_send_returned_def)

lemma ring_recv_ok:
  "ring_ok r held \<Longrightarrow> ring_consume r = Some (t, r') \<Longrightarrow> ring_ok r' (Suc held) \<and> rc_fwd r = t # rc_fwd r'"
  "ring_ok r held \<Longrightarrow> ring_receive_returned r = Some (t, r') \<Longrightarrow> ring_ok r' (Suc held) \<and> rc_fwd r' = rc_fwd r"
  by (auto simp: ring_ok_def ring_consume_def ring_receive_returned_def split: list.splits)

section \<open>The hub is a map of at most two blocks\<close>

definition hub_blocks :: "'t task_hub \<Rightarrow> i64 \<rightharpoonup> ('t tasks_manager \<times> entry_cache)" where
  "hub_blocks h height =
     (if sint height < 0 then None
      else if th_height0 h = height then Some (th_tasks0 h, th_cache0 h)
      else if th_height1 h = height then Some (th_tasks1 h, th_cache1 h) else None)"

definition hub_ok :: "'t task_hub \<Rightarrow> bool" where
  "hub_ok h \<longleftrightarrow> sint (th_height0 h) \<ge> - 1 \<and> sint (th_height1 h) \<ge> - 1
     \<and> (0 \<le> sint (th_height0 h) \<longrightarrow> th_height0 h \<noteq> th_height1 h)"

lemma th_new_ok: "hub_ok th_new" "hub_blocks th_new = Map.empty"
  by (auto simp: hub_ok_def th_new_def hub_blocks_def fun_eq_iff)

lemma start_block_refines:
  assumes "hub_ok h" and "0 \<le> sint height" and "hub_blocks h height = None"
  shows "case th_start_block height tm c h of
      Inr h' \<Rightarrow> hub_ok h' \<and> hub_blocks h' = (hub_blocks h)(height \<mapsto> (tm, c)) \<and> th_free_slot_count h = Suc (th_free_slot_count h')
    | Inl e \<Rightarrow> th_free_slot_count h = 0"
  using assms by (auto simp: th_start_block_def hub_ok_def hub_blocks_def th_free_slot_count_def fun_eq_iff split: if_splits)

lemma end_block_refines:
  assumes "hub_ok h" and "0 \<le> sint height"
  shows "case th_end_block height h of
      Inr h' \<Rightarrow> hub_blocks h height \<noteq> None \<and> hub_ok h' \<and> hub_blocks h' = (hub_blocks h)(height := None)
        \<and> th_free_slot_count h' = Suc (th_free_slot_count h)
    | Inl e \<Rightarrow> hub_blocks h height = None"
  using assms by (auto simp: th_end_block_def hub_ok_def hub_blocks_def th_free_slot_count_def fun_eq_iff)

lemma hub_lookup:
  assumes "0 \<le> sint (task_height task_id)"
  shows "th_check_begin_end task_id h = (case hub_blocks h (task_height task_id) of
      None \<Rightarrow> Inl (Panic ''no data found for height'')
    | Some (tm, c) \<Rightarrow> Inr (if task_id AND IN_BLOCK_IDX_MASK = 0 then Some c else None, tm_last_task_id tm = task_id))"
    and "th_get_change_sets css task_id h = (case hub_blocks h (task_height task_id) of
      None \<Rightarrow> Inl (Panic ''no data found for height'')
    | Some (tm, c) \<Rightarrow> tm_get_tasks_change_sets css (unat (task_id AND IN_BLOCK_IDX_MASK)) tm)"
  using assms by (auto simp: th_check_begin_end_def th_get_change_sets_def hub_blocks_def)

end
