(* ===== verification/Updater.thy ===== *)
theory Updater
  imports Tasks EntryBuffer Indexer
begin

text \<open>
  \<^verbatim>\<open>src/qmdb/src/updater.rs\<close>: the thread of a shard that applies change sets.  It finds
  entries through the index, reads them from the entry cache, the entry buffer or the entry file,
  appends new versions and keeps the entries of the shard linked by the hash of the next key.

  The two fields of the struct that put tasks in order (\<^verbatim>\<open>next_task_id_map\<close>, \<^verbatim>\<open>next_task_id\<close>) are
  the record \<open>task_queue\<close>, the others the record \<open>updater\<close>.  The checks against a reference
  (\<^verbatim>\<open>compare_*\<close>) are compiled out without the feature \<^verbatim>\<open>check_rec\<close> and left out.  A closure
  handed to the index may panic: its state is a result, and a fault stops the scan.
\<close>

section \<open>State\<close>

definition DEFAULT_ENTRY_SIZE :: nat where [layout_defs]: "DEFAULT_ENTRY_SIZE = 300"

record compact_job =
  cj_old_pos :: i64
  cj_entry_bz :: bytes

record updater =
  u_shard_id :: nat
  u_writer :: "bytes option \<times> entry_buffer"
  u_cache :: entry_cache
  u_cipher :: "cipher option"
  u_file :: hpfile
  u_indexer :: "index_unit indexer"
  u_read_buf :: bytes
  u_prev_buf :: bytes
  u_curr_version :: i64
  u_sn_start :: u64
  u_sn_end :: u64
  u_jobs :: "compact_job ring"
  u_compact_done_pos :: i64
  u_utilization_div :: i64
  u_utilization_ratio :: i64
  u_compact_thres :: i64

record task_queue =
  tq_map :: "i64 \<rightharpoonup> i64"
  tq_next :: i64

definition resize :: "nat \<Rightarrow> bytes \<Rightarrow> bytes" where
  "resize n b = take n b @ replicate (n - length b) 0"

section \<open>Reading an entry\<close>

text \<open>After \<^verbatim>\<open>resize(size, 0)\<close> the buffer is never shorter than \<^verbatim>\<open>size\<close>, so the second
  read of the code is written out and never taken.\<close>

definition upd_read_disk :: "i64 \<Rightarrow> updater \<Rightarrow> updater result" where
  "upd_read_disk file_pos u =
     bindE (read_entry (u_cipher u) (u_file u) (unat file_pos) (u_read_buf u)) (\<lambda>(sz, buf).
     let buf = resize sz buf in
     if length buf < sz
     then bindE (read_entry (u_cipher u) (u_file u) (unat file_pos) buf) (\<lambda>(_, buf). Inr (u \<lparr> u_read_buf := buf \<rparr>))
     else Inr (u \<lparr> u_read_buf := buf \<rparr>))"

definition upd_read_entry :: "nat \<Rightarrow> i64 \<Rightarrow> updater \<Rightarrow> updater result" where
  "upd_read_entry shard_id file_pos u =
     bindE (ec_lookup shard_id file_pos (u_cache u)) (\<lambda>hit.
     case hit of Some bz \<Rightarrow> Inr (u \<lparr> u_read_buf := bz \<rparr>)
     | None \<Rightarrow>
       bindE (ebw_get_entry_bz_at (unat file_pos) (u_writer u)) (\<lambda>(in_disk, accessed).
       case accessed of
         Some bz \<Rightarrow> bindE (entry_from_bz bz) (\<lambda>_. Inr (u \<lparr> u_read_buf := bz \<rparr>))
       | None \<Rightarrow>
           let u = u \<lparr> u_read_buf := resize DEFAULT_ENTRY_SIZE (u_read_buf u) \<rparr> in
           if in_disk then upd_read_disk file_pos u
           else Inl (Panic ''Cannot read the entry'')))"

section \<open>Appending and indexing\<close>

definition upd_append :: "entry \<Rightarrow> u64 list \<Rightarrow> updater \<Rightarrow> (i64 \<times> updater) result" where
  "upd_append e dsns u =
     bindE (ebw_append e dsns (u_writer u)) (\<lambda>(pos, w). Inr (of_nat pos, u \<lparr> u_writer := w \<rparr>))"

definition upd_change_kv :: "bytes \<Rightarrow> i64 \<Rightarrow> i64 \<Rightarrow> updater \<Rightarrow> updater result" where
  "upd_change_kv k80 old_pos new_pos u =
     bindE (idx_change_kv unit_change_kv (u_indexer u) k80 old_pos new_pos) (\<lambda>ix. Inr (u \<lparr> u_indexer := ix \<rparr>))"

definition upd_add_kv :: "bytes \<Rightarrow> i64 \<Rightarrow> updater \<Rightarrow> updater result" where
  "upd_add_kv k80 pos u =
     bindE (idx_add_kv unit_add_kv (u_indexer u) k80 pos) (\<lambda>ix. Inr (u \<lparr> u_indexer := ix \<rparr>))"

definition upd_erase_kv :: "bytes \<Rightarrow> i64 \<Rightarrow> updater \<Rightarrow> updater result" where
  "upd_erase_kv k80 pos u =
     bindE (idx_erase_kv unit_erase_kv (u_indexer u) k80 pos) (\<lambda>ix. Inr (u \<lparr> u_indexer := ix \<rparr>))"

definition upd_is_compactible :: "updater \<Rightarrow> bool result" where
  "upd_is_compactible u =
     bindE (idx_len (u_indexer u) (u_shard_id u)) (\<lambda>n.
     Inr (is_compactible (u_utilization_div u) (u_utilization_ratio u) (u_compact_thres u) n (u_sn_start u) (u_sn_end u)))"

text \<open>A closure handed to the index: \<open>f\<close> is its body, \<open>stop\<close> the value it returns.\<close>

definition closure :: "('x \<Rightarrow> 's \<Rightarrow> 's result) \<Rightarrow> ('s \<Rightarrow> bool) \<Rightarrow> 'x \<Rightarrow> 's result \<Rightarrow> 's result \<times> bool" where
  "closure f stop x s = (case s of Inl e \<Rightarrow> (Inl e, True)
     | Inr t \<Rightarrow> (case f x t of Inl e \<Rightarrow> (Inl e, True) | Inr t \<Rightarrow> (Inr t, stop t)))"

section \<open>Compaction\<close>

text \<open>The loop that takes jobs until one is still indexed; it waits on an empty ring.\<close>

function upd_next_job :: "(bytes \<Rightarrow> hash32) \<Rightarrow> updater \<Rightarrow> (compact_job \<times> hash32 \<times> updater) result" where
  "upd_next_job H u =
     (case ring_consume (u_jobs u) of None \<Rightarrow> Inl (Err ''recv'')
      | Some (job, r) \<Rightarrow>
          bindE (ebz_key_hash H (cj_entry_bz job)) (\<lambda>kh.
          bindE (ebz_serial_number (cj_entry_bz job)) (\<lambda>sn.
          bindE (idx_key_exists unit_for_each_value (u_indexer u) kh (cj_old_pos job)) (\<lambda>ke.
          if ke then Inr (job, kh, u \<lparr> u_jobs := r \<rparr>)
          else case ring_send_returned job r of None \<Rightarrow> Inl (Err ''send'')
            | Some r \<Rightarrow> upd_next_job H (u \<lparr> u_jobs := r \<rparr>)))))"
  by pat_completeness auto
termination
  by (relation "measure (\<lambda>(H, u). length (rc_fwd (u_jobs u)))")
    (auto simp: ring_consume_def ring_send_returned_def split: list.splits if_splits)

declare upd_next_job.simps [simp del]

definition upd_compact :: "(bytes \<Rightarrow> hash32) \<Rightarrow> updater \<Rightarrow> updater result" where
  "upd_compact H u =
     bindE (upd_next_job H u) (\<lambda>(job, kh, u).
     let bz = cj_entry_bz job in
     bindE (ebz_key bz) (\<lambda>k. bindE (ebz_value bz) (\<lambda>v.
     bindE (ebz_next_key_hash bz) (\<lambda>n. bindE (ebz_version bz) (\<lambda>ver.
     bindE (ebz_serial_number bz) (\<lambda>sn.
     let new_entry = \<lparr> e_key = k, e_value = v, e_next_key_hash = n, e_version = ver, e_serial_number = u_sn_end u \<rparr> in
     bindE (upd_append new_entry [sn] u) (\<lambda>(new_pos, u).
     bindE (upd_change_kv kh (cj_old_pos job) new_pos u) (\<lambda>u.
     let u = u \<lparr> u_sn_end := u_sn_end u + 1, u_sn_start := sn + 1,
                 u_compact_done_pos := cj_old_pos job + of_nat (length bz) \<rparr> in
     case ring_send_returned job (u_jobs u) of None \<Rightarrow> Inl (Err ''send'')
     | Some r \<Rightarrow> Inr (u \<lparr> u_jobs := r \<rparr>)))))))))"

section \<open>Writing\<close>

definition wr_body :: "bytes \<Rightarrow> i64 \<Rightarrow> i64 \<times> updater \<Rightarrow> (i64 \<times> updater) result" where
  "wr_body key file_pos s =
     (let (old_pos, u) = s in
      bindE (upd_read_entry (u_shard_id u) file_pos u) (\<lambda>u.
      bindE (ebz_key (u_read_buf u)) (\<lambda>k.
      Inr (if k = key then file_pos else old_pos, u))))"

definition found :: "i64 \<times> 's \<Rightarrow> bool" where "found s \<longleftrightarrow> 0 \<le> sint (fst s)"

definition upd_write_kv :: "(bytes \<Rightarrow> hash32) \<Rightarrow> hash32 \<Rightarrow> bytes \<Rightarrow> bytes \<Rightarrow> updater \<Rightarrow> updater result" where
  "upd_write_kv H key_hash key value u =
     bindE (idx_for_each_value unit_for_each_value (u_indexer u) key_hash (closure (wr_body key) found) (Inr (- 1, u))) (\<lambda>s.
     bindE s (\<lambda>(old_pos, u).
     if sint old_pos < 0 then Inl (Panic ''Write to non-exist key'')
     else
       bindE (ebz_next_key_hash (u_read_buf u)) (\<lambda>n.
       bindE (ebz_serial_number (u_read_buf u)) (\<lambda>sn.
       let new_entry = \<lparr> e_key = key, e_value = value, e_next_key_hash = n, e_version = u_curr_version u,
                         e_serial_number = u_sn_end u \<rparr> in
       bindE (upd_append new_entry [sn] u) (\<lambda>(new_pos, u).
       bindE (upd_change_kv key_hash old_pos new_pos u) (\<lambda>u.
       let u = u \<lparr> u_sn_end := u_sn_end u + 1 \<rparr> in
       bindE (upd_is_compactible u) (\<lambda>c. if c then upd_compact H u else Inr u)))))))"

section \<open>Deleting\<close>

record del_state =
  ds_del_pos :: i64
  ds_del_sn :: u64
  ds_old_next :: hash32
  ds_prev_k80 :: bytes
  ds_old_pos :: i64
  ds_upd :: updater

definition del_body :: "hash32 \<Rightarrow> bytes \<Rightarrow> bytes \<Rightarrow> i64 \<Rightarrow> del_state \<Rightarrow> del_state result" where
  "del_body key_hash key k_buf file_pos d =
     bindE (upd_read_entry (u_shard_id (ds_upd d)) file_pos (ds_upd d)) (\<lambda>u.
     let bz = u_read_buf u; d = d \<lparr> ds_upd := u \<rparr> in
     bindE (if sint (ds_del_pos d) < 0 then bindE (ebz_key bz) (\<lambda>k. Inr (k = key)) else Inr False) (\<lambda>is_del.
     if is_del then
       bindE (ebz_serial_number bz) (\<lambda>sn. bindE (ebz_next_key_hash bz) (\<lambda>n.
       Inr (d \<lparr> ds_del_pos := file_pos, ds_del_sn := sn, ds_old_next := n \<rparr>)))
     else
       bindE (if sint (ds_old_pos d) < 0 then bindE (ebz_next_key_hash bz) (\<lambda>n. Inr (n = key_hash)) else Inr False) (\<lambda>is_prev.
       if is_prev then
         bindE (guardE (length k_buf = 10) (Panic ''copy_from_slice: length mismatch'')) (\<lambda>_.
         Inr (d \<lparr> ds_prev_k80 := k_buf, ds_old_pos := file_pos, ds_upd := u \<lparr> u_prev_buf := bz \<rparr> \<rparr>))
       else Inr d)))"

definition del_found :: "del_state \<Rightarrow> bool" where
  "del_found d \<longleftrightarrow> 0 \<le> sint (ds_del_pos d) \<and> 0 \<le> sint (ds_old_pos d)"

definition upd_delete_kv :: "hash32 \<Rightarrow> bytes \<Rightarrow> updater \<Rightarrow> updater result" where
  "upd_delete_kv key_hash key u =
     bindE (idx_for_each_adjacent_value unit_for_each_adjacent_value (u_indexer u) key_hash
       (\<lambda>k_buf. closure (del_body key_hash key k_buf) del_found)
       (Inr \<lparr> ds_del_pos = - 1, ds_del_sn = 0, ds_old_next = replicate 32 0, ds_prev_k80 = replicate 10 0,
              ds_old_pos = - 1, ds_upd = u \<rparr>)) (\<lambda>s.
     bindE s (\<lambda>d.
     let u = ds_upd d in
     if sint (ds_del_pos d) < 0 then Inl (Panic ''Delete non-exist key'')
     else if sint (ds_old_pos d) < 0 then Inl (Panic ''Cannot find prevEntry'')
     else
       bindE (ebz_key (u_prev_buf u)) (\<lambda>k. bindE (ebz_value (u_prev_buf u)) (\<lambda>v.
       bindE (ebz_serial_number (u_prev_buf u)) (\<lambda>sn.
       let prev_changed = \<lparr> e_key = k, e_value = v, e_next_key_hash = ds_old_next d, e_version = u_curr_version u,
                            e_serial_number = u_sn_end u \<rparr> in
       bindE (upd_append prev_changed [ds_del_sn d, sn] u) (\<lambda>(new_pos, u).
       bindE (upd_erase_kv key_hash (ds_del_pos d) u) (\<lambda>u.
       bindE (upd_change_kv (ds_prev_k80 d) (ds_old_pos d) new_pos u) (\<lambda>u.
       Inr (u \<lparr> u_sn_end := u_sn_end u + 1 \<rparr>)))))))))"

section \<open>Creating\<close>

definition cr_body :: "(bytes \<Rightarrow> hash32) \<Rightarrow> hash32 \<Rightarrow> bytes \<Rightarrow> i64 \<Rightarrow> i64 \<times> bytes \<times> updater \<Rightarrow> (i64 \<times> bytes \<times> updater) result" where
  "cr_body H key_hash k_buf file_pos s =
     (let (old_pos, prev_k80, u) = s in
      bindE (upd_read_entry (u_shard_id u) file_pos u) (\<lambda>u.
      bindE (ebz_key_hash H (u_read_buf u)) (\<lambda>pk.
      bindE (if pk < key_hash then bindE (ebz_next_key_hash (u_read_buf u)) (\<lambda>n. Inr (key_hash < n)) else Inr False) (\<lambda>between.
      if between then
        bindE (guardE (length k_buf = 10) (Panic ''copy_from_slice: length mismatch'')) (\<lambda>_. Inr (file_pos, k_buf, u))
      else Inr (old_pos, prev_k80, u)))))"

definition upd_create_kv :: "(bytes \<Rightarrow> hash32) \<Rightarrow> hash32 \<Rightarrow> bytes \<Rightarrow> bytes \<Rightarrow> updater \<Rightarrow> updater result" where
  "upd_create_kv H key_hash key value u =
     bindE (idx_for_each_adjacent_value unit_for_each_adjacent_value (u_indexer u) key_hash
       (\<lambda>k_buf. closure (cr_body H key_hash k_buf) found) (Inr (- 1, replicate 10 0, u))) (\<lambda>s.
     bindE s (\<lambda>(old_pos, prev_k80, u).
     if sint old_pos < 0 then Inl (Panic ''Cannot find prevKey when creating'')
     else
       bindE (ebz_next_key_hash (u_read_buf u)) (\<lambda>n.
       let new_entry = \<lparr> e_key = key, e_value = value, e_next_key_hash = n, e_version = u_curr_version u,
                         e_serial_number = u_sn_end u \<rparr> in
       bindE (upd_append new_entry [] u) (\<lambda>(create_pos, u).
       bindE (ebz_key (u_read_buf u)) (\<lambda>k. bindE (ebz_value (u_read_buf u)) (\<lambda>v.
       bindE (ebz_serial_number (u_read_buf u)) (\<lambda>sn.
       let prev_changed = \<lparr> e_key = k, e_value = v, e_next_key_hash = key_hash, e_version = u_curr_version u,
                            e_serial_number = u_sn_end u + 1 \<rparr> in
       bindE (upd_append prev_changed [sn] u) (\<lambda>(new_pos, u).
       bindE (upd_add_kv key_hash create_pos u) (\<lambda>u.
       bindE (upd_change_kv prev_k80 old_pos new_pos u) (\<lambda>u.
       let u = u \<lparr> u_sn_end := u_sn_end u + 2 \<rparr> in
       bindE (upd_is_compactible u) (\<lambda>c.
       if c then bindE (upd_compact H u) (upd_compact H) else Inr u)))))))))))"

section \<open>Tasks\<close>

definition upd_run_op :: "(bytes \<Rightarrow> hash32) \<Rightarrow> updater access" where
  "upd_run_op H op key_hash k v r u =
     (if op = OP_WRITE then upd_write_kv H key_hash k v u
      else if op = OP_CREATE then upd_create_kv H key_hash k v u
      else if op = OP_DELETE then upd_delete_kv key_hash k u
      else if op = OP_READ then Inr u
      else Inl (Panic ''Updater: unsupported operation''))"

definition upd_run_task :: "(bytes \<Rightarrow> hash32) \<Rightarrow> ('t \<Rightarrow> ChangeSet list) \<Rightarrow> 't task_hub \<Rightarrow> i64 \<Rightarrow> updater \<Rightarrow> updater result" where
  "upd_run_task H css hub task_id u =
     bindE (th_check_begin_end task_id hub) (\<lambda>(cache_for_new_block, end_block).
     let u = (case cache_for_new_block of None \<Rightarrow> u | Some c \<Rightarrow> u \<lparr> u_cache := c \<rparr>);
         u = (if task_id AND IN_BLOCK_IDX_MASK = 0 then u \<lparr> u_curr_version := task_id \<rparr> else u) in
     bindE (th_get_change_sets css task_id hub) (\<lambda>sets.
     bindE (foldE (\<lambda>cs u.
         bindE (cs_run_in_shard cs (u_shard_id u) (upd_run_op H) u) (\<lambda>u.
         Inr (u \<lparr> u_curr_version := u_curr_version u + 1 \<rparr>))) sets u) (\<lambda>u.
     if end_block then
       bindE (ebw_end_block (unat (u_compact_done_pos u)) (u_sn_start u) (u_sn_end u) (u_writer u)) (\<lambda>w.
       Inr (u \<lparr> u_writer := w \<rparr>))
     else Inr u)))"

text \<open>The loop follows the linked list of task ids; each round removes an element of the map.\<close>

function run_chain :: "(i64 \<Rightarrow> 's \<Rightarrow> 's result) \<Rightarrow> (i64 \<rightharpoonup> i64) \<Rightarrow> i64 \<Rightarrow> 's \<Rightarrow> ((i64 \<rightharpoonup> i64) \<times> i64 \<times> 's) result" where
  "run_chain run m task_id s =
     (case m task_id of None \<Rightarrow> Inr (m, task_id, s)
      | Some next_id \<Rightarrow> bindE (run task_id s) (\<lambda>s. run_chain run (m(task_id := None)) next_id s))"
  by pat_completeness auto
termination
proof (relation "measure (\<lambda>(run, m, task_id, s). card (dom m))")
  fix run :: "i64 \<Rightarrow> 's \<Rightarrow> 's result" and m :: "i64 \<rightharpoonup> i64" and task_id s next_id and t :: 's
  assume "m task_id = Some next_id"
  then have "task_id \<in> dom m" by auto
  moreover from this have "0 < card (dom m)" by (auto simp: card_gt_0_iff)
  ultimately show "((run, m(task_id := None), next_id, t), run, m, task_id, s) \<in> measure (\<lambda>(run, m, task_id, s). card (dom m))"
    by simp
qed simp

declare run_chain.simps [simp del]

definition upd_run_task_with_ooo_id ::
  "(i64 \<Rightarrow> 's \<Rightarrow> 's result) \<Rightarrow> i64 \<Rightarrow> i64 \<Rightarrow> task_queue \<times> 's \<Rightarrow> (task_queue \<times> 's) result" where
  "upd_run_task_with_ooo_id run task_id next_task_id st =
     (let (q, u) = st in
      bindE (run_chain run ((tq_map q)(task_id \<mapsto> next_task_id)) (tq_next q) u) (\<lambda>(m, next_id, u).
      Inr (\<lparr> tq_map = m, tq_next = next_id \<rparr>, u)))"

section \<open>Tasks run in the order of their chain\<close>

text \<open>The chain \<open>c ! 0, c ! 1, \<dots>\<close> of task ids: the tasks \<open>S\<close> have arrived, those before \<open>k\<close> have run.\<close>

definition pending :: "i64 list \<Rightarrow> nat set \<Rightarrow> nat \<Rightarrow> (i64 \<rightharpoonup> i64) \<Rightarrow> bool" where
  "pending c S k m \<longleftrightarrow>
     (\<forall>i. Suc i < length c \<longrightarrow> m (c ! i) = (if i \<in> S \<and> k \<le> i then Some (c ! Suc i) else None))
     \<and> (\<forall>x. (\<forall>i. Suc i < length c \<longrightarrow> c ! i \<noteq> x) \<longrightarrow> m x = None)"

lemma run_chain_stops: "m t = None \<Longrightarrow> run_chain run m t u = Inr (m, t, u)"
  by (subst run_chain.simps) simp

lemma run_chain_steps:
  "m t = Some t' \<Longrightarrow> run_chain run m t u = bindE (run t u) (run_chain run (m(t := None)) t')"
  by (subst run_chain.simps) simp

lemma run_chain_spec:
  assumes "distinct c" and "pending c S k m" and "Suc k \<le> length c"
  shows "\<exists>k' m'. k \<le> k' \<and> Suc k' \<le> length c \<and> {k..<k'} \<subseteq> S \<and> (Suc k' < length c \<longrightarrow> k' \<notin> S) \<and> pending c S k' m'
    \<and> (\<forall>run (u :: 's). run_chain run m (c ! k) u = bindE (foldE run (map ((!) c) [k..<k']) u) (\<lambda>u. Inr (m', c ! k', u)))"
  using assms(2,3)
proof (induction "length c - k" arbitrary: k m rule: less_induct)
  case (less k m)
  show ?case
  proof (cases "Suc k < length c \<and> k \<in> S")
    case True
    let ?m = "m(c ! k := None)"
    have some: "m (c ! k) = Some (c ! Suc k)" using less.prems True by (simp add: pending_def)
    have "pending c S (Suc k) ?m"
      using less.prems(1) True assms(1) by (auto simp: pending_def nth_eq_iff_index_eq)
    then obtain k' m' where k': "Suc k \<le> k'" "Suc k' \<le> length c" "{Suc k..<k'} \<subseteq> S" "Suc k' < length c \<longrightarrow> k' \<notin> S"
        "pending c S k' m'"
      and run: "\<forall>run (u :: 's). run_chain run ?m (c ! Suc k) u
        = bindE (foldE run (map ((!) c) [Suc k..<k']) u) (\<lambda>u. Inr (m', c ! k', u))"
    proof -
      have "length c - Suc k < length c - k" "Suc (Suc k) \<le> length c" using True by auto
      from less.hyps [OF this(1) \<open>pending c S (Suc k) ?m\<close> this(2)] show thesis using that by blast
    qed
    have "{k..<k'} = insert k {Suc k..<k'}" using k'(1) by auto
    then have sub: "{k..<k'} \<subseteq> S" using k'(3) True by simp
    have up: "[k..<k'] = k # [Suc k..<k']" using k'(1) by (simp add: upt_conv_Cons)
    have "run_chain run m (c ! k) u = bindE (foldE run (map ((!) c) [k..<k']) u) (\<lambda>u. Inr (m', c ! k', u))" for run and u :: 's
      unfolding run_chain_steps [where m = m and t = "c ! k", OF some] up using run by (cases "run (c ! k) u") (simp_all add: bindE_assoc)
    then show ?thesis using k' sub by (intro exI [of _ k'] exI [of _ m']) auto
  next
    case False
    have "m (c ! k) = None"
    proof (cases "Suc k < length c")
      case True
      then show ?thesis using False less.prems(1) by (simp add: pending_def)
    next
      case False
      then have "\<forall>i. Suc i < length c \<longrightarrow> c ! i \<noteq> c ! k" using less.prems(2) assms(1) by (auto simp: nth_eq_iff_index_eq)
      then show ?thesis using less.prems(1) by (simp add: pending_def)
    qed
    then show ?thesis using less.prems False
      by (intro exI [of _ k] exI [of _ m]) (auto simp: run_chain_stops)
  qed
qed

definition chain_link :: "i64 list \<Rightarrow> nat \<Rightarrow> i64 \<times> i64" where "chain_link c i = (c ! i, c ! Suc i)"

definition deliver :: "(i64 \<Rightarrow> 's \<Rightarrow> 's result) \<Rightarrow> i64 \<times> i64 \<Rightarrow> task_queue \<times> 's \<Rightarrow> (task_queue \<times> 's) result" where
  "deliver run p = upd_run_task_with_ooo_id run (fst p) (snd p)"

lemma deliver_chain:
  assumes c: "distinct c" "c \<noteq> []" and "distinct is" and "\<forall>i\<in>set is. Suc i < length c"
  shows "\<exists>k m. Suc k \<le> length c \<and> {..<k} \<subseteq> set is \<and> (Suc k < length c \<longrightarrow> k \<notin> set is) \<and> pending c (set is) k m
    \<and> foldE (deliver run) (map (chain_link c) is) (\<lparr> tq_map = Map.empty, tq_next = c ! 0 \<rparr>, u)
      = bindE (foldE run (map ((!) c) [0..<k]) u) (\<lambda>u. Inr (\<lparr> tq_map = m, tq_next = c ! k \<rparr>, u))"
  using assms(3,4)
proof (induction "is" rule: rev_induct)
  case Nil
  then show ?case using c by (intro exI [of _ 0] exI [of _ Map.empty]) (simp add: pending_def Suc_le_eq)
next
  case (snoc i "is")
  obtain k m where k: "Suc k \<le> length c" "{..<k} \<subseteq> set is" "pending c (set is) k m"
    and run: "foldE (deliver run) (map (chain_link c) is) (\<lparr> tq_map = Map.empty, tq_next = c ! 0 \<rparr>, u)
      = bindE (foldE run (map ((!) c) [0..<k]) u) (\<lambda>u. Inr (\<lparr> tq_map = m, tq_next = c ! k \<rparr>, u))"
    using snoc by auto
  have i: "i \<notin> set is" "Suc i < length c" using snoc.prems by auto
  then have ki: "k \<le> i" using k(2) by (meson lessThan_iff linorder_not_le subsetD)
  let ?S = "set (is @ [i])" and ?m = "m(c ! i \<mapsto> c ! Suc i)"
  have "pending c ?S k ?m" using k(3) i ki c(1) by (auto simp: pending_def nth_eq_iff_index_eq)
  from run_chain_spec [OF c(1) this k(1), where ?'s = 'a] obtain k' m' where
    k': "k \<le> k'" "Suc k' \<le> length c" "{k..<k'} \<subseteq> ?S" "Suc k' < length c \<longrightarrow> k' \<notin> ?S" "pending c ?S k' m'"
    and chain: "\<forall>run (u :: 'a). run_chain run ?m (c ! k) u
        = bindE (foldE run (map ((!) c) [k..<k']) u) (\<lambda>u. Inr (m', c ! k', u))"
    by blast
  have up: "[0..<k'] = [0..<k] @ [k..<k']" using k'(1) by (metis le0 upt_add_eq_append le_add_diff_inverse)
  have "foldE (deliver run) (map (chain_link c) (is @ [i])) (\<lparr> tq_map = Map.empty, tq_next = c ! 0 \<rparr>, u)
      = bindE (foldE run (map ((!) c) [0..<k']) u) (\<lambda>u. Inr (\<lparr> tq_map = m', tq_next = c ! k' \<rparr>, u))"
    unfolding map_append list.map foldE_snoc run up foldE_append bindE_assoc
    by (simp add: deliver_def chain_link_def upd_run_task_with_ooo_id_def chain bindE_assoc)
  moreover have "{..<k'} \<subseteq> ?S"
  proof
    fix x assume "x \<in> {..<k'}"
    then have "x \<in> {..<k} \<or> x \<in> {k..<k'}" by auto
    then show "x \<in> ?S" using k(2) k'(3) by auto
  qed
  ultimately show ?case using k' by (intro exI [of _ k'] exI [of _ m']) auto
qed

text \<open>C25. Tasks may arrive in any order.  The loop of \<^verbatim>\<open>run_task_with_ooo_id\<close> always ends, and when every
  task of a chain of distinct ids has arrived, each has run exactly once, in the order of the chain, and
  the updater waits for the last id of the chain, with nothing left over.\<close>

theorem ooo_tasks_run_in_order:
  assumes c: "distinct c" "c \<noteq> []" and arr: "distinct arrivals" "set arrivals = set (zip c (tl c))"
  shows "foldE (deliver (upd_run_task H css hub)) arrivals (\<lparr> tq_map = Map.empty, tq_next = hd c \<rparr>, u)
    = bindE (foldE (upd_run_task H css hub) (butlast c) u) (\<lambda>u. Inr (\<lparr> tq_map = Map.empty, tq_next = last c \<rparr>, u))"
proof -
  let ?n = "length c - 1"
  let ?f = "the_inv_into {..<?n} (chain_link c)"
  have inj: "inj_on (chain_link c) {..<?n}" using c(1) by (auto simp: inj_on_def chain_link_def nth_eq_iff_index_eq)
  have img: "set arrivals = chain_link c ` {..<?n}"
    unfolding arr(2) by (auto simp: set_zip chain_link_def nth_tl image_def)
  have arr_eq: "map (chain_link c) (map ?f arrivals) = arrivals"
    unfolding map_map comp_def by (rule map_idI) (rule f_the_inv_into_f [OF inj], simp add: img)
  have st: "set (map ?f arrivals) = {..<?n}" unfolding set_map img using the_inv_into_onto [OF inj] by simp
  have "distinct (map ?f arrivals)"
    unfolding distinct_map using arr(1) img inj_on_the_inv_into [OF inj] by simp
  moreover have "\<forall>i\<in>set (map ?f arrivals). Suc i < length c" unfolding st using c(2) by auto
  ultimately obtain k m where k: "Suc k \<le> length c" "Suc k < length c \<longrightarrow> k \<notin> {..<?n}" "pending c {..<?n} k m"
    and run: "foldE (deliver (upd_run_task H css hub)) arrivals (\<lparr> tq_map = Map.empty, tq_next = c ! 0 \<rparr>, u)
      = bindE (foldE (upd_run_task H css hub) (map ((!) c) [0..<k]) u) (\<lambda>u. Inr (\<lparr> tq_map = m, tq_next = c ! k \<rparr>, u))"
    using deliver_chain [OF c, of "map ?f arrivals" "upd_run_task H css hub" u] unfolding arr_eq st by blast
  have kn: "k = ?n" using k(1,2) by auto
  have "m x = None" for x
  proof (cases "\<exists>i. Suc i < length c \<and> c ! i = x")
    case True
    then obtain i where "Suc i < length c" "c ! i = x" by blast
    then show ?thesis using k(3) kn by (auto simp: pending_def)
  next
    case False
    then show ?thesis using k(3) by (auto simp: pending_def)
  qed
  then have "m = Map.empty" by (rule ext)
  moreover have "map ((!) c) [0..<k] = butlast c" 
    unfolding kn by (rule nth_equalityI) (simp_all add: nth_butlast)
  ultimately show ?thesis using run c(2) kn by (simp add: hd_conv_nth last_conv_nth)
qed

lemma demo_arrivals:
  "distinct [0, 1, 2 :: i64]" "[0, 1, 2 :: i64] \<noteq> []" "distinct [(1, 2), (0, 1 :: i64) :: i64 \<times> i64]"
  "set [(1, 2), (0, 1)] = set (zip [0, 1, 2 :: i64] (tl [0, 1, 2 :: i64]))"
  by auto

theorem ooo_tasks_run_in_order_witness:
  "\<forall>H css (hub :: nat task_hub) u.
    foldE (deliver (upd_run_task H css hub)) [(1, 2), (0, 1)] (\<lparr> tq_map = Map.empty, tq_next = 0 \<rparr>, u)
    = bindE (foldE (upd_run_task H css hub) [0, 1] u) (\<lambda>u. Inr (\<lparr> tq_map = Map.empty, tq_next = 2 \<rparr>, u))"
proof (intro allI)
  fix H css and hub :: "nat task_hub" and u
  show "foldE (deliver (upd_run_task H css hub)) [(1, 2), (0, 1)] (\<lparr> tq_map = Map.empty, tq_next = 0 \<rparr>, u)
    = bindE (foldE (upd_run_task H css hub) [0, 1] u) (\<lambda>u. Inr (\<lparr> tq_map = Map.empty, tq_next = 2 \<rparr>, u))"
    using ooo_tasks_run_in_order [OF demo_arrivals, of H css hub u] by simp
qed

end
