(* ===== verification/KeyOrder.thy ===== *)
theory KeyOrder
  imports Indexer Changes
begin

text \<open>
  The order of key hashes and what it means for the index.  A hash of 32 bytes is compared byte by
  byte; the index splits it into the unit (two bytes) and a key of 56 bits (seven bytes), and drops
  the rest.  The theory relates the two orders, places the sentries, and has the arithmetic of
  successors and predecessors in a finite set of hashes.
\<close>

section \<open>Byte strings as big-endian numbers\<close>

lemma less_append_same_length:
  fixes a a' :: "'a :: linorder list"
  assumes "length a = length a'"
  shows "a @ b < a' @ b' \<longleftrightarrow> a < a' \<or> a = a' \<and> b < b'"
  using assms by (induction a a' rule: list_induct2) auto

lemma be_less:
  fixes xs ys :: bytes
  assumes "length xs = length ys"
  shows "xs < ys \<longleftrightarrow> le_dec (rev xs) < le_dec (rev ys)"
  using assms
proof (induction xs ys rule: list_induct2)
  case (Cons x xs y ys)
  let ?B = "256 ^ length ys :: nat"
  have b: "le_dec (rev xs) < ?B" "le_dec (rev ys) < ?B"
    using le_dec_bound [of "rev xs"] le_dec_bound [of "rev ys"] Cons.hyps by simp_all
  have val: "le_dec (rev (x # xs)) = le_dec (rev xs) + ?B * unat x" "le_dec (rev (y # ys)) = le_dec (rev ys) + ?B * unat y"
    using Cons.hyps by (simp_all add: le_dec_append)
  have lt: "le_dec (rev us) + ?B * m < le_dec (rev vs) + ?B * n"
    if "m < n" "le_dec (rev us) < ?B" for m n and us vs :: bytes
  proof -
    have "?B * Suc m \<le> ?B * n" using that(1) by (intro mult_le_mono2) simp
    then show ?thesis using that(2) by simp
  qed
  show ?case
  proof (cases "x = y")
    case True
    then show ?thesis using Cons.IH unfolding val by simp
  next
    case False
    then have "x < y \<or> y < x" by auto
    then show ?thesis
      using lt [OF _ b(1), of "unat x" "unat y" ys] lt [OF _ b(2), of "unat y" "unat x" xs] False
      unfolding val by (auto simp: word_less_nat_alt)
  qed
qed simp

lemma le_dec_rev_inj: "length xs = length ys \<Longrightarrow> le_dec (rev xs) = le_dec (rev ys) \<longleftrightarrow> xs = ys"
  using be_less [of xs ys] be_less [of ys xs] by (auto simp: neq_iff)

section \<open>Hashes, units and keys of 56 bits\<close>

definition unit_of :: "bytes \<Rightarrow> nat" where "unit_of k = le_dec (rev (take 2 k))"

lemma unit_of_less: "unit_of k < 2 ^ 16"
proof -
  have "(256 :: nat) ^ length (rev (take 2 k)) \<le> 256 ^ 2" by (rule power_increasing) simp_all
  then show ?thesis using le_dec_bound [of "rev (take 2 k)"] by (simp add: unit_of_def)
qed

lemma key_unit_full: "key_unit 65536 k = unit_of k"
  using unit_of_less [of k] by (simp add: key_unit_def unit_of_def)

lemma unit_of_inj: "2 \<le> length k \<Longrightarrow> 2 \<le> length k' \<Longrightarrow> unit_of k = unit_of k' \<longleftrightarrow> take 2 k = take 2 k'"
  by (simp add: unit_of_def le_dec_rev_inj)

lemma unit_of_take9: "9 \<le> length k \<Longrightarrow> take 9 k = take 9 k' \<Longrightarrow> unit_of k = unit_of k' \<and> key56 k = key56 k'"
proof -
  assume t: "take 9 k = take 9 k'"
  then have "take 2 (take 9 k) = take 2 (take 9 k')" "drop 2 (take 9 k) = drop 2 (take 9 k')" by simp_all
  then show ?thesis by (simp add: unit_of_def key56_def drop_take)
qed

lemma unat_key56: "9 \<le> length k \<Longrightarrow> unat (key56 k) = le_dec (rev (take 7 (drop 2 k)))"
  using le_dec_bound [of "rev (take 7 (drop 2 k))"] by (simp add: key56_def unat_of_nat)

lemma hash_split: "9 \<le> length k \<Longrightarrow> k = take 2 k @ take 7 (drop 2 k) @ drop 9 k"
proof -
  have "take 7 (drop 2 k) @ drop 9 k = drop 2 k" using append_take_drop_id [of 7 "drop 2 k"] by simp
  then show ?thesis by simp
qed

lemma key56_less_imp_less:
  assumes "9 \<le> length k" "9 \<le> length k'" and u: "unit_of k = unit_of k'" and "key56 k < key56 k'"
  shows "k < k'"
proof -
  have "take 7 (drop 2 k) < take 7 (drop 2 k')"
    using assms unat_key56 be_less [of "take 7 (drop 2 k)" "take 7 (drop 2 k')"] by (simp add: word_less_nat_alt)
  moreover have "take 2 k = take 2 k'" using u unit_of_inj assms(1,2) by simp
  ultimately have "take 2 k @ take 7 (drop 2 k) @ drop 9 k < take 2 k' @ take 7 (drop 2 k') @ drop 9 k'"
    using assms(1,2) by (simp add: less_append_same_length)
  then show ?thesis using hash_split assms(1,2) by metis
qed

lemma key56_mono:
  assumes "9 \<le> length k" "9 \<le> length k'" "unit_of k = unit_of k'" "k \<le> k'"
  shows "key56 k \<le> key56 k'"
proof (rule ccontr)
  assume "\<not> key56 k \<le> key56 k'"
  then have "k' < k" using key56_less_imp_less [of k' k] assms by simp
  then show False using assms(4) by simp
qed

lemma key56_eq_take9:
  assumes "9 \<le> length k" "9 \<le> length k'" "unit_of k = unit_of k'" "key56 k = key56 k'"
  shows "take 9 k = take 9 k'"
proof -
  have "le_dec (rev (take 7 (drop 2 k))) = le_dec (rev (take 7 (drop 2 k')))"
    using assms(4) unat_key56 [OF assms(1)] unat_key56 [OF assms(2)] by simp
  then have "take 7 (drop 2 k) = take 7 (drop 2 k')" using le_dec_rev_inj assms(1,2) by simp
  moreover have "take 2 k = take 2 k'" using assms unit_of_inj by simp
  moreover have "take 9 x = take 2 x @ take 7 (drop 2 x)" for x :: bytes using take_add [of 2 7 x] by simp
  ultimately show ?thesis by simp
qed

lemma unit_of_between:
  assumes "2 \<le> length a" "2 \<le> length b" "2 \<le> length c" "a \<le> b" "b \<le> c" "unit_of a = unit_of c"
  shows "unit_of b = unit_of c"
proof -
  have le: "take 2 x \<le> take 2 y" if "x \<le> y" "2 \<le> length x" "2 \<le> length y" for x y :: bytes
    using less_append_same_length [of "take 2 y" "take 2 x" "drop 2 y" "drop 2 x"] that by (auto simp: not_less [symmetric])
  have "take 2 a = take 2 c" using assms unit_of_inj by simp
  then have "take 2 b = take 2 c" using le [of a b] le [of b c] assms by simp
  then show ?thesis using assms unit_of_inj by simp
qed

lemma drop1_key56: "9 \<le> length k \<Longrightarrow> drop 1 (u64_be (key56 k)) = take 7 (drop 2 k)"
proof -
  assume l: "9 \<le> length k"
  have "u64_be (key56 k) = rev (le_enc 8 (le_dec (rev (take 7 (drop 2 k)))))" by (simp add: u64_be_def unat_key56 [OF l])
  moreover have "le_enc 8 x = le_enc 7 x @ [word_of_nat (x div 256 ^ 7)]" for x using le_enc_snoc [of 7 x] by simp
  moreover have "le_enc 7 (le_dec (rev (take 7 (drop 2 k)))) = rev (take 7 (drop 2 k))"
    using le_enc_dec [of "rev (take 7 (drop 2 k))"] l by simp
  ultimately show ?thesis by simp
qed

lemma k80_with_key56:
  assumes "9 \<le> length k" "9 \<le> length k'" "unit_of k = unit_of k'"
  shows "k80_with (take 9 k @ [0]) (key56 k') = take 9 k' @ [0]"
proof -
  have "take 2 k = take 2 k'" using assms unit_of_inj by simp
  moreover have "take 9 x = take 2 x @ take 7 (drop 2 x)" for x :: bytes using take_add [of 2 7 x] by simp
  ultimately show ?thesis using assms drop1_key56 [OF assms(2)] by (simp add: k80_with_def)
qed

lemma sentry_hash_unit: "n < 2 ^ 16 \<Longrightarrow> unit_of (sentry_hash n) = n"
proof -
  assume n: "n < 2 ^ 16"
  then have "take 2 (sentry_hash n) = u16_be (word_of_nat n)" by (simp add: sentry_hash_def u16_be_def)
  then show ?thesis using n by (simp add: unit_of_def u16_be_def le_dec_enc unat_of_nat)
qed

lemma sentry_hash_least:
  assumes "length k = 32"
  shows "sentry_hash (unit_of k) \<le> k"
proof -
  let ?n = "unit_of k"
  have n: "?n < 2 ^ 16" by (rule unit_of_less)
  have "unit_of (sentry_hash ?n) = ?n" by (rule sentry_hash_unit) (rule n)
  then have t: "take 2 (sentry_hash ?n) = take 2 k" using unit_of_inj [of "sentry_hash ?n" k] assms by simp
  have "drop 2 (sentry_hash ?n) = replicate 30 0" using n by (simp add: sentry_hash_def u16_be_def)
  moreover have "\<not> x < replicate (length x) 0" for x :: bytes
    by (induction x) auto
  from this [of "drop 2 k"] have "\<not> drop 2 k < replicate 30 0" using assms by simp
  ultimately have "\<not> k < take 2 (sentry_hash ?n) @ drop 2 (sentry_hash ?n)"
    using t less_append_same_length [of "take 2 k" "take 2 k" "drop 2 k" "replicate 30 0"] by simp
  then show ?thesis by (simp add: not_less)
qed

section \<open>Neighbours in a finite set\<close>

text \<open>\<open>nxt hi S k\<close> is the next larger element of \<open>S\<close>, or \<open>hi\<close>; \<open>prv S k\<close> the next smaller one.\<close>

definition nxt :: "'a :: linorder \<Rightarrow> 'a set \<Rightarrow> 'a \<Rightarrow> 'a" where
  "nxt hi S k = Min (insert hi {x \<in> S. k < x})"

definition prv :: "'a :: linorder set \<Rightarrow> 'a \<Rightarrow> 'a" where
  "prv S k = Max {x \<in> S. x < k}"

lemma nxt_eqI:
  assumes "finite S" "m = hi \<or> m \<in> S \<and> k < m" "m \<le> hi" "\<And>x. x \<in> S \<Longrightarrow> k < x \<Longrightarrow> m \<le> x"
  shows "nxt hi S k = m"
  unfolding nxt_def using assms by (intro Min_eqI) auto

lemma nxt_cases:
  assumes "finite S"
  shows "nxt hi S k = hi \<or> nxt hi S k \<in> S \<and> k < nxt hi S k" "nxt hi S k \<le> hi"
    "x \<in> S \<Longrightarrow> k < x \<Longrightarrow> nxt hi S k \<le> x"
proof -
  let ?M = "insert hi {x \<in> S. k < x}"
  have f: "finite ?M" using assms by simp
  show "nxt hi S k = hi \<or> nxt hi S k \<in> S \<and> k < nxt hi S k" using Min_in [OF f] by (auto simp: nxt_def)
  show "nxt hi S k \<le> hi" "x \<in> S \<Longrightarrow> k < x \<Longrightarrow> nxt hi S k \<le> x" using f by (simp_all add: nxt_def)
qed

lemma prv_props:
  assumes "finite S" "y \<in> S" "y < k"
  shows "prv S k \<in> S" "prv S k < k" "\<And>x. x \<in> S \<Longrightarrow> x < k \<Longrightarrow> x \<le> prv S k"
proof -
  have f: "finite {x \<in> S. x < k}" and ne: "{x \<in> S. x < k} \<noteq> {}" using assms by auto
  show "prv S k \<in> S" "prv S k < k" using Max_in [OF f ne] by (simp_all add: prv_def)
  show "x \<le> prv S k" if "x \<in> S" "x < k" for x using f that by (simp add: prv_def)
qed

lemma prv_iff_between:
  assumes S: "finite S" "y \<in> S" "y < k" and k: "k \<notin> S" "k < hi" and x: "x \<in> S"
  shows "x < k \<and> k < nxt hi S x \<longleftrightarrow> x = prv S k"
proof
  assume a: "x < k \<and> k < nxt hi S x"
  have "\<not> x < prv S k"
  proof
    assume "x < prv S k"
    then have "nxt hi S x \<le> prv S k" using nxt_cases(3) [OF S(1) prv_props(1) [OF S]] by blast
    then show False using a prv_props(2) [OF S] by (meson leD less_trans)
  qed
  then show "x = prv S k" using prv_props(3) [OF S x] a by simp
next
  assume e: "x = prv S k"
  have "k < nxt hi S x"
    using nxt_cases(1) [OF S(1), of hi x]
  proof
    assume n: "nxt hi S x \<in> S \<and> x < nxt hi S x"
    then have "\<not> nxt hi S x < k" using prv_props(3) [OF S] e by (meson leD)
    moreover have "nxt hi S x \<noteq> k" using n k(1) by auto
    ultimately show ?thesis by simp
  qed (use k(2) in simp)
  then show "x < k \<and> k < nxt hi S x" using prv_props(2) [OF S] e by simp
qed

lemma prv_iff_nxt:
  assumes S: "finite S" "y \<in> S" "y < k" and k: "k \<in> S" "k < hi" and x: "x \<in> S"
  shows "nxt hi S x = k \<longleftrightarrow> x = prv S k"
proof
  assume e: "nxt hi S x = k"
  then have lt: "x < k" using nxt_cases(1) [OF S(1), of hi x] k(2) by auto
  have "\<not> x < prv S k"
    using nxt_cases(3) [OF S(1) prv_props(1) [OF S], of x hi] prv_props(2) [OF S] e by auto
  then show "x = prv S k" using prv_props(3) [OF S x lt] by simp
next
  assume e: "x = prv S k"
  show "nxt hi S x = k"
  proof (rule nxt_eqI [OF S(1)])
    show "k = hi \<or> k \<in> S \<and> x < k" using k(1) prv_props(2) [OF S] e by simp
    show "k \<le> z" if "z \<in> S" "x < z" for z using prv_props(3) [OF S that(1)] that(2) e by (meson leD linorder_not_less)
  qed (use k(2) in simp)
qed

lemma nxt_insert:
  assumes S: "finite S" "y \<in> S" "y < k" and k: "k \<notin> S" "k < hi"
  shows "nxt hi (insert k S) (prv S k) = k" and "nxt hi (insert k S) k = nxt hi S (prv S k)"
    and "\<And>x. x \<in> S \<Longrightarrow> x \<noteq> prv S k \<Longrightarrow> nxt hi (insert k S) x = nxt hi S x"
proof -
  let ?p = "prv S k"
  have f: "finite (insert k S)" using S(1) by simp
  have p: "?p \<in> S" "?p < k" and max: "\<And>x. x \<in> S \<Longrightarrow> x < k \<Longrightarrow> x \<le> ?p" using prv_props [OF S] by blast+
  have kn: "k < nxt hi S ?p" using prv_iff_between [OF S k p(1)] by simp
  show "nxt hi (insert k S) ?p = k"
    by (rule nxt_eqI [OF f]) (use p k max in \<open>auto simp: not_less [symmetric]\<close>)
  show "nxt hi (insert k S) k = nxt hi S ?p"
  proof (rule nxt_eqI [OF f])
    show "nxt hi S ?p = hi \<or> nxt hi S ?p \<in> insert k S \<and> k < nxt hi S ?p" using nxt_cases(1) [OF S(1), of hi ?p] kn by auto
    show "nxt hi S ?p \<le> z" if "z \<in> insert k S" "k < z" for z
      using that p(2) by (intro nxt_cases(3) [OF S(1)]) auto
  qed (rule nxt_cases(2) [OF S(1)])
  fix x assume x: "x \<in> S" "x \<noteq> ?p"
  show "nxt hi (insert k S) x = nxt hi S x"
  proof (rule nxt_eqI [OF f])
    show "nxt hi S x = hi \<or> nxt hi S x \<in> insert k S \<and> x < nxt hi S x" using nxt_cases(1) [OF S(1), of hi x] by auto
    show "nxt hi S x \<le> z" if z: "z \<in> insert k S" "x < z" for z
    proof (cases "z = k")
      case True
      then have "\<not> k < nxt hi S x" using prv_iff_between [OF S k x(1)] z x(2) by auto
      then show ?thesis using True by simp
    qed (use z in \<open>auto intro: nxt_cases(3) [OF S(1)]\<close>)
  qed (rule nxt_cases(2) [OF S(1)])
qed

lemma nxt_remove:
  assumes S: "finite S" "y \<in> S" "y < k" and k: "k \<in> S" "k < hi"
  shows "nxt hi (S - {k}) (prv S k) = nxt hi S k"
    and "\<And>x. x \<in> S \<Longrightarrow> x \<noteq> k \<Longrightarrow> x \<noteq> prv S k \<Longrightarrow> nxt hi (S - {k}) x = nxt hi S x"
proof -
  let ?S = "S - {k}"
  have S': "finite ?S" "y \<in> ?S" "y < k" using S by auto
  have k': "k \<notin> ?S" by simp
  have e: "insert k ?S = S" using k(1) by auto
  have "{x \<in> ?S. x < k} = {x \<in> S. x < k}" by auto
  then have p: "prv ?S k = prv S k" by (simp add: prv_def)
  note ins = nxt_insert [OF S' k' k(2), unfolded e p]
  show "nxt hi ?S (prv S k) = nxt hi S k" by (rule ins(2) [symmetric])
  show "nxt hi ?S x = nxt hi S x" if "x \<in> S" "x \<noteq> k" "x \<noteq> prv S k" for x
    using ins(3) [of x] that by simp
qed


end
