(* ===== verification/KvIndex.thy ===== *)
theory KvIndex
  imports KeyOrder
begin

text \<open>
  The index as a table.  A table gives the live entries of a shard: to each key hash the position of
  its entry in the log, the entry and the serial numbers it deactivates.  \<open>idx_ok\<close> says that the
  in-memory index holds exactly the positions of a table; the theory shows how its operations act on
  the table and which positions its scans visit.
\<close>

section \<open>Tables\<close>

type_synonym table = "hash32 \<rightharpoonup> (nat \<times> entry \<times> u64 list)"

definition pos_of :: "table \<Rightarrow> hash32 \<Rightarrow> nat" where "pos_of D kh = fst (the (D kh))"
definition ent_of :: "table \<Rightarrow> hash32 \<Rightarrow> entry" where "ent_of D kh = fst (snd (the (D kh)))"

definition pos_ok :: "table \<Rightarrow> bool" where
  "pos_ok D \<longleftrightarrow> inj_on (pos_of D) (dom D) \<and> (\<forall>kh\<in>dom D. length kh = 32 \<and> pos_of D kh mod 8 = 0 \<and> pos_of D kh < 2 ^ 51)"

definition row_pair :: "table \<Rightarrow> hash32 \<Rightarrow> u64 \<times> i64" where
  "row_pair D kh = (key56 kh, of_nat (pos_of D kh div 8))"

definition unit_keys :: "table \<Rightarrow> nat \<Rightarrow> hash32 set" where
  "unit_keys D i = {kh \<in> dom D. unit_of kh = i}"

definition idx_pairs :: "(u64 \<times> i64) list list \<Rightarrow> nat \<Rightarrow> table \<Rightarrow> bool" where
  "idx_pairs vs s D \<longleftrightarrow> (\<forall>i<2 ^ 16. i div SHARD_DIV = s \<longrightarrow> distinct (vs ! i) \<and> set (vs ! i) = row_pair D ` unit_keys D i)"

definition idx_ok :: "index_unit indexer \<Rightarrow> nat \<Rightarrow> table \<Rightarrow> bool" where
  "idx_ok ix s D \<longleftrightarrow> length (ix_units ix) = 65536 \<and> ix_sizes ix ! s = of_nat (card (dom D))
     \<and> (\<exists>vs. indexer_rep unit_pairs ix vs \<and> idx_pairs vs s D)"

lemma pos_of_upd [simp]: "pos_of (D(k \<mapsto> (p, e, d))) x = (if x = k then p else pos_of D x)"
  "ent_of (D(k \<mapsto> (p, e, d))) x = (if x = k then e else ent_of D x)"
  by (simp_all add: pos_of_def ent_of_def)

lemma pos_of_del [simp]: "x \<noteq> k \<Longrightarrow> pos_of (D(k := None)) x = pos_of D x" "x \<noteq> k \<Longrightarrow> ent_of (D(k := None)) x = ent_of D x"
  by (simp_all add: pos_of_def ent_of_def)

section \<open>Positions as 64-bit integers\<close>

lemma pos_i64:
  assumes "p < 2 ^ 51"
  shows "unat (of_nat p :: i64) = p" "0 \<le> sint (of_nat p :: i64)" "sint (of_nat p :: i64) = int p"
proof -
  show u: "unat (of_nat p :: i64) = p" using assms by (simp add: unat_of_nat)
  show s: "sint (of_nat p :: i64) = int p"
    using assms by (simp add: signed_of_nat signed_take_bit_int_eq_self_iff)
  show "0 \<le> sint (of_nat p :: i64)" unfolding s by simp
qed

lemma pos_div8:
  assumes "p < 2 ^ 51" "p mod 8 = 0"
  shows "i64_rem8 (of_nat p) = 0" "i64_div8 (of_nat p) = of_nat (p div 8)" "unat (of_nat (p div 8) :: i64) = p div 8"
    "p div 8 < 2 ^ 48" "of_nat (p div 8) * 8 = (of_nat p :: i64)"
proof -
  have "sint (of_nat p :: i64) smod 8 = int (p mod 8)" "sint (of_nat p :: i64) sdiv 8 = int (p div 8)"
    unfolding pos_i64(3) [OF assms(1)] by (cases "p = 0"; simp add: signed_modulo_int_def signed_divide_int_def zdiv_int zmod_int)+
  then show "i64_rem8 (of_nat p) = 0" "i64_div8 (of_nat p) = of_nat (p div 8)"
    using assms(2) by (simp_all add: i64_rem8_def i64_div8_def)
  show lt: "p div 8 < 2 ^ 48" using assms(1) by simp
  show "unat (of_nat (p div 8) :: i64) = p div 8" using lt by (simp add: unat_of_nat)
  have "p div 8 * 8 = p" using assms(2) by presburger
  then show "of_nat (p div 8) * 8 = (of_nat p :: i64)" by (metis of_nat_mult of_nat_numeral)
qed

lemma pos_div8_inj:
  assumes "p < 2 ^ 51" "p mod 8 = 0" "q < 2 ^ 51" "q mod 8 = 0" "(of_nat (p div 8) :: i64) = of_nat (q div 8)"
  shows "p = q"
proof -
  have "p div 8 = q div 8" using assms(5) pos_div8(3) [OF assms(1,2)] pos_div8(3) [OF assms(3,4)] by metis
  then show ?thesis using assms(2,4) by (metis mult_div_mod_eq)
qed

lemma row_pair_inj: "pos_ok D \<Longrightarrow> inj_on (row_pair D) (dom D)"
  using pos_div8_inj by (auto simp: pos_ok_def row_pair_def inj_on_def)

section \<open>Operations of the index on a table\<close>

lemma change1_set:
  assumes "distinct xs" "p \<in> set xs" "(fst p, w) \<notin> set xs"
  shows "distinct (change1 p w xs)" "set (change1 p w xs) = insert (fst p, w) (set xs - {p})"
proof -
  have "distinct (change1 p w xs) \<and> set (change1 p w xs) = insert (fst p, w) (set xs - {p})"
    using assms by (induction xs) auto
  then show "distinct (change1 p w xs)" "set (change1 p w xs) = insert (fst p, w) (set xs - {p})" by auto
qed

lemma distinct_ins_kv: "p \<notin> set xs \<Longrightarrow> distinct xs \<Longrightarrow> distinct (ins_kv p xs)"
  by (induction xs) auto

text \<open>The pairs of a unit after a row was changed, removed or added.\<close>

lemma row_image_upd:
  assumes "pos_ok D" and "K \<subseteq> dom D"
  shows "row_pair (D(k \<mapsto> (p, e, d))) ` (insert k K) = insert (key56 k, of_nat (p div 8)) (row_pair D ` (K - {k}))"
    and "row_pair (D(k := None)) ` (K - {k}) = row_pair D ` (K - {k})"
    and "k \<in> dom D \<Longrightarrow> row_pair D ` (K - {k}) = row_pair D ` K - {row_pair D k}"
proof -
  show "row_pair (D(k \<mapsto> (p, e, d))) ` (insert k K) = insert (key56 k, of_nat (p div 8)) (row_pair D ` (K - {k}))"
  proof -
    have "row_pair (D(k \<mapsto> (p, e, d))) ` (K - {k}) = row_pair D ` (K - {k})" by (rule image_cong) (simp_all add: row_pair_def)
    moreover have "insert k K = insert k (K - {k})" by auto
    ultimately have "row_pair (D(k \<mapsto> (p, e, d))) ` (insert k K) = insert (row_pair (D(k \<mapsto> (p, e, d))) k) (row_pair D ` (K - {k}))"
      by (metis image_insert)
    moreover have "row_pair (D(k \<mapsto> (p, e, d))) k = (key56 k, of_nat (p div 8))" by (simp add: row_pair_def)
    ultimately show ?thesis by simp
  qed
  show "row_pair (D(k := None)) ` (K - {k}) = row_pair D ` (K - {k})" by (rule image_cong) (simp_all add: row_pair_def)
  show "row_pair D ` (K - {k}) = row_pair D ` K - {row_pair D k}" if "k \<in> dom D"
    using inj_on_image_set_diff [OF row_pair_inj [OF assms(1)], of K "{k}"] assms(2) that by auto
qed

lemma unit_keys_upd:
  "unit_keys (D(k \<mapsto> r)) i = (if unit_of k = i then insert k (unit_keys D i) else unit_keys D i)"
  "unit_keys (D(k := None)) i = unit_keys D i - {k}"
  by (auto simp: unit_keys_def)

lemma row_pair_other:
  "unit_of k \<noteq> i \<Longrightarrow> row_pair (D(k \<mapsto> r)) ` unit_keys D i = row_pair D ` unit_keys D i"
  by (rule image_cong) (auto simp: unit_keys_def row_pair_def pos_of_def)

lemma fresh_pair:
  assumes "pos_ok D" and "p < 2 ^ 51" "p mod 8 = 0" and "\<forall>x\<in>dom D. pos_of D x \<noteq> p"
  shows "(c, of_nat (p div 8)) \<notin> row_pair D ` unit_keys D i"
proof
  assume "(c, of_nat (p div 8)) \<in> row_pair D ` unit_keys D i"
  then obtain x where x: "x \<in> dom D" "(of_nat (p div 8) :: i64) = of_nat (pos_of D x div 8)"
    by (auto simp: row_pair_def unit_keys_def simp del: of_nat_div)
  then have "p = pos_of D x" using assms(1) by (intro pos_div8_inj [OF assms(2,3)]) (auto simp: pos_ok_def)
  then show False using assms(4) x(1) by blast
qed

lemma idx_pairs_change:
  assumes pr: "idx_pairs vs s D" and len: "length vs = 65536" and ok: "pos_ok D" and k: "k \<in> dom D" "unit_of k div SHARD_DIV = s"
    and p: "p < 2 ^ 51" "p mod 8 = 0" "\<forall>x\<in>dom D. pos_of D x \<noteq> p"
  shows "row_pair D k \<in> set (vs ! unit_of k)"
    and "idx_pairs (vs[unit_of k := change1 (row_pair D k) (of_nat (p div 8)) (vs ! unit_of k)]) s (D(k \<mapsto> (p, e, d)))"
proof -
  let ?u = "unit_of k"
  have u: "?u < 2 ^ 16" by (rule unit_of_less)
  have du: "distinct (vs ! ?u)" and su: "set (vs ! ?u) = row_pair D ` unit_keys D ?u" using pr u k(2) by (auto simp: idx_pairs_def)
  have ku: "k \<in> unit_keys D ?u" using k(1) by (simp add: unit_keys_def)
  show mem: "row_pair D k \<in> set (vs ! ?u)" unfolding su using ku by blast
  have fr: "(fst (row_pair D k), of_nat (p div 8)) \<notin> set (vs ! ?u)" unfolding su by (rule fresh_pair [OF ok p])
  have sub: "unit_keys D ?u \<subseteq> dom D" by (auto simp: unit_keys_def)
  show "idx_pairs (vs[?u := change1 (row_pair D k) (of_nat (p div 8)) (vs ! ?u)]) s (D(k \<mapsto> (p, e, d)))"
    unfolding idx_pairs_def
  proof (intro allI impI)
    fix i assume i: "i < 2 ^ 16" "i div SHARD_DIV = s"
    show "distinct (vs[?u := change1 (row_pair D k) (of_nat (p div 8)) (vs ! ?u)] ! i) \<and>
      set (vs[?u := change1 (row_pair D k) (of_nat (p div 8)) (vs ! ?u)] ! i) = row_pair (D(k \<mapsto> (p, e, d))) ` unit_keys (D(k \<mapsto> (p, e, d))) i"
    proof (cases "i = ?u")
      case True
      then show ?thesis
        using change1_set [OF du mem fr] len u row_image_upd(1) [OF ok sub, of k p e d] row_image_upd(3) [OF ok sub k(1)]
        by (simp add: unit_keys_upd su row_pair_def)
    next
      case False
      then show ?thesis using pr i row_pair_other by (auto simp: idx_pairs_def unit_keys_upd)
    qed
  qed
qed

lemma idx_pairs_add:
  assumes pr: "idx_pairs vs s D" and len: "length vs = 65536" and ok: "pos_ok D" and k: "k \<notin> dom D" "unit_of k div SHARD_DIV = s"
    and p: "p < 2 ^ 51" "p mod 8 = 0" "\<forall>x\<in>dom D. pos_of D x \<noteq> p"
  shows "idx_pairs (vs[unit_of k := ins_kv (key56 k, of_nat (p div 8)) (vs ! unit_of k)]) s (D(k \<mapsto> (p, e, d)))"
  unfolding idx_pairs_def
proof (intro allI impI)
  let ?u = "unit_of k"
  have u: "?u < 2 ^ 16" by (rule unit_of_less)
  have du: "distinct (vs ! ?u)" and su: "set (vs ! ?u) = row_pair D ` unit_keys D ?u" using pr u k(2) by (auto simp: idx_pairs_def)
  have fr: "(key56 k, of_nat (p div 8)) \<notin> set (vs ! ?u)" unfolding su by (rule fresh_pair [OF ok p])
  have sub: "unit_keys D ?u \<subseteq> dom D" by (auto simp: unit_keys_def)
  then have nk: "unit_keys D ?u - {k} = unit_keys D ?u" using k(1) by auto
  fix i assume i: "i < 2 ^ 16" "i div SHARD_DIV = s"
  show "distinct (vs[?u := ins_kv (key56 k, of_nat (p div 8)) (vs ! ?u)] ! i) \<and>
    set (vs[?u := ins_kv (key56 k, of_nat (p div 8)) (vs ! ?u)] ! i) = row_pair (D(k \<mapsto> (p, e, d))) ` unit_keys (D(k \<mapsto> (p, e, d))) i"
  proof (cases "i = ?u")
    case True
    then show ?thesis
      using distinct_ins_kv [OF fr du] len u row_image_upd(1) [OF ok sub, of k p e d] nk by (simp add: unit_keys_upd su)
  next
    case False
    then show ?thesis using pr i row_pair_other by (auto simp: idx_pairs_def unit_keys_upd)
  qed
qed

lemma idx_pairs_erase:
  assumes pr: "idx_pairs vs s D" and len: "length vs = 65536" and ok: "pos_ok D" and k: "k \<in> dom D" "unit_of k div SHARD_DIV = s"
  shows "row_pair D k \<in> set (vs ! unit_of k)"
    and "idx_pairs (vs[unit_of k := remove1 (row_pair D k) (vs ! unit_of k)]) s (D(k := None))"
proof -
  let ?u = "unit_of k"
  have u: "?u < 2 ^ 16" by (rule unit_of_less)
  have du: "distinct (vs ! ?u)" and su: "set (vs ! ?u) = row_pair D ` unit_keys D ?u" using pr u k(2) by (auto simp: idx_pairs_def)
  show "row_pair D k \<in> set (vs ! ?u)" unfolding su using k(1) by (simp add: unit_keys_def)
  have sub: "unit_keys D i \<subseteq> dom D" for i by (auto simp: unit_keys_def)
  show "idx_pairs (vs[?u := remove1 (row_pair D k) (vs ! ?u)]) s (D(k := None))"
    unfolding idx_pairs_def unit_keys_upd row_image_upd(2) [OF ok sub]
  proof (intro allI impI)
    fix i assume i: "i < 2 ^ 16" "i div SHARD_DIV = s"
    show "distinct (vs[?u := remove1 (row_pair D k) (vs ! ?u)] ! i) \<and>
      set (vs[?u := remove1 (row_pair D k) (vs ! ?u)] ! i) = row_pair D ` (unit_keys D i - {k})"
    proof (cases "i = ?u")
      case True
      then show ?thesis using du len u row_image_upd(3) [OF ok sub k(1)] by (simp add: su set_remove1_eq)
    next
      case False
      then have "unit_keys D i - {k} = unit_keys D i" by (auto simp: unit_keys_def)
      then show ?thesis using pr i False by (auto simp: idx_pairs_def)
    qed
  qed
qed


text \<open>The same for the indexer.\<close>

lemma shard_bound: "unit_of k div SHARD_DIV < SHARD_COUNT"
  using unit_of_less [of k] by (simp add: layout_defs div_less_iff_less_mult)

lemma idx_len_vs: "indexer_rep unit_pairs ix vs \<Longrightarrow> length (ix_units ix) = length vs"
  by (auto simp: indexer_rep_def dest: list_all2_lengthD)

lemma idx_ok_change:
  assumes ix: "idx_ok ix s D" and ok: "pos_ok D" and k: "k \<in> dom D" "unit_of k div SHARD_DIV = s"
    and p: "p < 2 ^ 51" "p mod 8 = 0" "\<forall>x\<in>dom D. pos_of D x \<noteq> p"
    and k80: "9 \<le> length k80" "take 9 k80 = take 9 k"
  shows "\<exists>ix'. idx_change_kv unit_change_kv ix k80 (of_nat (pos_of D k)) (of_nat p) = Inr ix' \<and> idx_ok ix' s (D(k \<mapsto> (p, e, d)))
    \<and> ix_sizes ix' = ix_sizes ix"
proof -
  obtain vs where len: "length (ix_units ix) = 65536" "ix_sizes ix ! s = of_nat (card (dom D))"
    and ir: "indexer_rep unit_pairs ix vs" and pr: "idx_pairs vs s D" using ix by (auto simp: idx_ok_def)
  have lvs: "length vs = 65536" using idx_len_vs [OF ir] len(1) by simp
  have q: "pos_of D k mod 8 = 0" "pos_of D k < 2 ^ 51" "9 \<le> length k" using ok k(1) by (auto simp: pos_ok_def)
  note u = unit_of_take9 [OF k80]
  note ch = idx_pairs_change [OF pr lvs ok k p]
  have ne: "ix_units ix \<noteq> []" using len(1) by auto
  have "(key56 k80, i64_div8 (of_nat (pos_of D k))) \<in> set (vs ! key_unit (length (ix_units ix)) k80)"
    using ch(1) u pos_div8 [OF q(2,1)] by (simp add: len(1) key_unit_full row_pair_def)
  then obtain ix' where ix': "idx_change_kv unit_change_kv ix k80 (of_nat (pos_of D k)) (of_nat p) = Inr ix'"
      "indexer_rep unit_pairs ix' (vs[unit_of k := change1 (row_pair D k) (of_nat (p div 8)) (vs ! unit_of k)])"
      "ix_sizes ix' = ix_sizes ix"
    using iu.idx_change_law [OF ir k80(1) ne pos_div8(1) [OF q(2,1)] pos_div8(1) [OF p(1,2)]]
      pos_div8 [OF p(1,2)] pos_div8 [OF q(2,1)] u
    by (auto simp: len(1) key_unit_full row_pair_def)
  have "dom (D(k \<mapsto> (p, e, d))) = dom D" using k(1) by auto
  then have "idx_ok ix' s (D(k \<mapsto> (p, e, d)))"
    using ix' ch(2) len idx_len_vs [OF ix'(2)] lvs by (auto simp: idx_ok_def)
  then show ?thesis using ix' by blast
qed

lemma idx_ok_add:
  assumes ix: "idx_ok ix s D" and ok: "pos_ok D" and k: "k \<notin> dom D" "unit_of k div SHARD_DIV = s" "9 \<le> length k"
    and p: "p < 2 ^ 51" "p mod 8 = 0" "\<forall>x\<in>dom D. pos_of D x \<noteq> p"
    and fin: "finite (dom D)" and fits: "\<forall>ps. unit_pairs (ix_units ix ! unit_of k) ps \<longrightarrow> unit_fits (ix_units ix ! unit_of k) ps"
  shows "\<exists>ix'. idx_add_kv unit_add_kv ix k (of_nat p) = Inr ix' \<and> idx_ok ix' s (D(k \<mapsto> (p, e, d)))"
proof -
  obtain vs where len: "length (ix_units ix) = 65536" "ix_sizes ix ! s = of_nat (card (dom D))"
    and ir: "indexer_rep unit_pairs ix vs" and pr: "idx_pairs vs s D" using ix by (auto simp: idx_ok_def)
  have lvs: "length vs = 65536" using idx_len_vs [OF ir] len(1) by simp
  have ne: "ix_units ix \<noteq> []" "length (ix_units ix) \<le> 2 ^ 16" using len(1) by auto
  have "unit_pairs (ix_units ix ! unit_of k) (vs ! unit_of k)"
    using ir unit_of_less [of k] len(1) by (auto simp: indexer_rep_def list_all2_conv_all_nth)
  then have "unit_fits (ix_units ix ! key_unit (length (ix_units ix)) k) (vs ! key_unit (length (ix_units ix)) k)"
    using fits by (simp add: len(1) key_unit_full)
  then obtain ix' where ix': "idx_add_kv unit_add_kv ix k (of_nat p) = Inr ix'"
      "indexer_rep unit_pairs ix' (vs[unit_of k := ins_kv (key56 k, of_nat (p div 8)) (vs ! unit_of k)])"
      "ix_sizes ix' = (ix_sizes ix)[s := ix_sizes ix ! s + 1]"
    using iu.idx_add_law [OF ir k(3) ne pos_div8(1) [OF p(1,2)]] pos_div8 [OF p(1,2)] k(2)
    by (auto simp: len(1) key_unit_full)
  have "s < length (ix_sizes ix)" using shard_bound [of k] k(2) ir by (simp add: indexer_rep_def)
  moreover have "card (dom (D(k \<mapsto> (p, e, d)))) = Suc (card (dom D))" using k(1) fin by simp
  ultimately have "idx_ok ix' s (D(k \<mapsto> (p, e, d)))"
    using ix' idx_pairs_add [OF pr lvs ok k(1,2) p] len idx_len_vs [OF ix'(2)] lvs by (auto simp: idx_ok_def)
  then show ?thesis using ix' by blast
qed

lemma idx_ok_erase:
  assumes ix: "idx_ok ix s D" and ok: "pos_ok D" and k: "k \<in> dom D" "unit_of k div SHARD_DIV = s" and fin: "finite (dom D)"
  shows "\<exists>ix'. idx_erase_kv unit_erase_kv ix k (of_nat (pos_of D k)) = Inr ix' \<and> idx_ok ix' s (D(k := None))"
proof -
  obtain vs where len: "length (ix_units ix) = 65536" "ix_sizes ix ! s = of_nat (card (dom D))"
    and ir: "indexer_rep unit_pairs ix vs" and pr: "idx_pairs vs s D" using ix by (auto simp: idx_ok_def)
  have lvs: "length vs = 65536" using idx_len_vs [OF ir] len(1) by simp
  have ne: "ix_units ix \<noteq> []" "length (ix_units ix) \<le> 2 ^ 16" using len(1) by auto
  have q: "pos_of D k mod 8 = 0" "pos_of D k < 2 ^ 51" "9 \<le> length k" using ok k(1) by (auto simp: pos_ok_def)
  note er = idx_pairs_erase [OF pr lvs ok k]
  have "(key56 k, i64_div8 (of_nat (pos_of D k))) \<in> set (vs ! key_unit (length (ix_units ix)) k)"
    using er(1) pos_div8 [OF q(2,1)] by (simp add: len(1) key_unit_full row_pair_def)
  then obtain ix' where ix': "idx_erase_kv unit_erase_kv ix k (of_nat (pos_of D k)) = Inr ix'"
      "indexer_rep unit_pairs ix' (vs[unit_of k := remove1 (row_pair D k) (vs ! unit_of k)])"
      "ix_sizes ix' = (ix_sizes ix)[s := ix_sizes ix ! s - 1]"
    using iu.idx_erase_law [OF ir q(3) ne pos_div8(1) [OF q(2,1)]] pos_div8 [OF q(2,1)] k(2)
    by (auto simp: len(1) key_unit_full row_pair_def)
  have "s < length (ix_sizes ix)" using shard_bound [of k] k(2) ir by (simp add: indexer_rep_def)
  moreover have "card (dom D) = Suc (card (dom (D(k := None))))"
    using k(1) fin by (metis card_Suc_Diff1 dom_fun_upd)
  ultimately have "idx_ok ix' s (D(k := None))"
    using ix' er(2) len idx_len_vs [OF ix'(2)] lvs by (auto simp: idx_ok_def)
  then show ?thesis using ix' by blast
qed


section \<open>What the scans visit\<close>

definition same9 :: "table \<Rightarrow> hash32 \<Rightarrow> hash32 set" where
  "same9 D k = {x \<in> dom D. take 9 x = take 9 k}"

definition spots :: "table \<Rightarrow> hash32 set \<Rightarrow> i64 set" where
  "spots D K = (\<lambda>x. of_nat (pos_of D x)) ` K"

lemma visit_map: "visit (\<lambda>v. f (g v)) L s = visit f (map g L) s"
  by (induction L arbitrary: s) (simp_all add: split: prod.splits)

lemma values_spots:
  assumes pr: "idx_pairs vs s D" and ok: "pos_ok D" and k: "9 \<le> length k" "unit_of k div SHARD_DIV = s"
  shows "(\<lambda>v. v * 8) ` set (values_of (key56 k) (vs ! unit_of k)) = spots D (same9 D k)"
proof -
  have keys: "{x \<in> unit_keys D (unit_of k). key56 x = key56 k} = same9 D k"
  proof (intro set_eqI iffI)
    fix x assume x: "x \<in> {x \<in> unit_keys D (unit_of k). key56 x = key56 k}"
    then have "9 \<le> length x" using ok by (auto simp: unit_keys_def pos_ok_def)
    then show "x \<in> same9 D k" using x key56_eq_take9 [of x k] k(1) by (auto simp: unit_keys_def same9_def)
  next
    fix x assume "x \<in> same9 D k"
    then show "x \<in> {x \<in> unit_keys D (unit_of k). key56 x = key56 k}"
      using unit_of_take9 [of k x] k(1) by (auto simp: unit_keys_def same9_def)
  qed
  have "set (values_of (key56 k) (vs ! unit_of k)) = snd ` {q \<in> row_pair D ` unit_keys D (unit_of k). fst q = key56 k}"
    using pr unit_of_less [of k] k(2) by (simp add: values_of_def idx_pairs_def)
  also have "{q \<in> row_pair D ` unit_keys D (unit_of k). fst q = key56 k} = row_pair D ` same9 D k"
  proof -
    have "{q \<in> f ` A. P q} = f ` {x \<in> A. P (f x)}" for f :: "hash32 \<Rightarrow> u64 \<times> i64" and A P by blast
    from this [of "row_pair D" "unit_keys D (unit_of k)" "\<lambda>q. fst q = key56 k"] show ?thesis
      unfolding keys [symmetric] by (simp add: row_pair_def)
  qed
  finally have "(\<lambda>v. v * 8) ` set (values_of (key56 k) (vs ! unit_of k)) = (\<lambda>x. of_nat (pos_of D x div 8) * 8) ` same9 D k"
    by (simp add: image_image row_pair_def)
  also have "\<dots> = spots D (same9 D k)"
    unfolding spots_def by (rule image_cong) (use ok pos_div8(5) in \<open>auto simp: same9_def pos_ok_def\<close>)
  finally show ?thesis .
qed

lemma idx_ok_each_value:
  assumes ix: "idx_ok ix s D" and ok: "pos_ok D" and k: "9 \<le> length k" "unit_of k div SHARD_DIV = s"
  shows "\<exists>L. set L = spots D (same9 D k) \<and> idx_for_each_value unit_for_each_value ix k f st = Inr (visit f L st)"
proof -
  obtain vs where len: "length (ix_units ix) = 65536" and ir: "indexer_rep unit_pairs ix vs" and pr: "idx_pairs vs s D"
    using ix by (auto simp: idx_ok_def)
  have ne: "ix_units ix \<noteq> []" using len by auto
  show ?thesis
    using iu.idx_each_law [OF ir k(1) ne, of f st] values_spots [OF pr ok k]
    by (intro exI [of _ "map (\<lambda>v. v * 8) (values_of (key56 k) (vs ! unit_of k))"]) (simp add: len key_unit_full visit_map [where g = "\<lambda>v. v * 8", symmetric])
qed

text \<open>The scan of the neighbours: first the positions under the nine bytes of \<open>k\<close>, then those under the
  nine bytes of a smaller key, which is the predecessor unless that has been visited before.\<close>

lemma sorted_le_last: "sorted xs \<Longrightarrow> x \<in> set xs \<Longrightarrow> x \<le> last xs"
  by (induction xs) auto

lemma key_below_prv:
  assumes pr: "idx_pairs vs s D" and srt: "sorted (map fst (vs ! unit_of k))" and ok: "pos_ok D"
    and k: "length k = 32" "unit_of k div SHARD_DIV = s" and fin: "finite (dom D)"
    and y: "y \<in> dom D" "y < k" "unit_of y = unit_of k"
  shows "unit_of (prv (dom D) k) = unit_of k"
    and "take 9 (prv (dom D) k) \<noteq> take 9 k \<Longrightarrow> key_below (key56 k) (vs ! unit_of k) = Some (key56 (prv (dom D) k))"
    and "key_below (key56 k) (vs ! unit_of k) = Some kp \<Longrightarrow> \<exists>x\<in>dom D. unit_of x = unit_of k \<and> key56 x = kp"
proof -
  let ?p = "prv (dom D) k" and ?ps = "vs ! unit_of k"
  let ?q = "filter (\<lambda>p. fst p < key56 k) ?ps"
  note p = prv_props [OF fin y(1,2)]
  have len: "length x = 32" if "x \<in> dom D" for x using ok that by (auto simp: pos_ok_def)
  have yp: "y \<le> ?p" using p(3) y by blast
  show up: "unit_of ?p = unit_of k"
    by (rule unit_of_between [of y]) (use len [OF y(1)] len [OF p(1)] k(1) yp p(2) y(3) in auto)
  have st: "set ?ps = row_pair D ` unit_keys D (unit_of k)" using pr unit_of_less [of k] k(2) by (simp add: idx_pairs_def)
  show "\<exists>x\<in>dom D. unit_of x = unit_of k \<and> key56 x = kp" if "key_below (key56 k) ?ps = Some kp"
  proof -
    have "?q \<noteq> []" "kp = fst (last ?q)" using that by (auto simp: key_below_def Let_def split: if_splits)
    then have "kp \<in> fst ` set ?ps" using last_in_set [of ?q] by auto
    then show ?thesis unfolding st by (auto simp: row_pair_def unit_keys_def)
  qed
  show "key_below (key56 k) ?ps = Some (key56 ?p)" if ne: "take 9 ?p \<noteq> take 9 k"
  proof -
    have l: "9 \<le> length ?p" "9 \<le> length k" using len [OF p(1)] k(1) by simp_all
    have "key56 ?p \<le> key56 k" by (rule key56_mono [OF l up]) (use p(2) in simp)
    moreover have "key56 ?p \<noteq> key56 k" using key56_eq_take9 [OF l up] ne by blast
    ultimately have lt: "key56 ?p < key56 k" by simp
    have "row_pair D ?p \<in> set ?q" using st p(1) up lt by (auto simp: unit_keys_def row_pair_def)
    then have qne: "?q \<noteq> []" by (metis empty_iff empty_set)
    have "sorted (map fst ?q)" using srt by (simp add: sorted_filter)
    then have ge: "fst x \<le> fst (last ?q)" if "x \<in> set ?q" for x
      using sorted_le_last [of "map fst ?q" "fst x"] imageI [OF that, of fst] unfolding last_map [OF qne] set_map by blast
    obtain x where x: "x \<in> dom D" "unit_of x = unit_of k" "fst (last ?q) = key56 x" "key56 x < key56 k"
    proof -
      have "last ?q \<in> set ?ps" "fst (last ?q) < key56 k" using last_in_set [OF qne] by simp_all
      then obtain x where "x \<in> unit_keys D (unit_of k)" "last ?q = row_pair D x" "fst (last ?q) < key56 k" unfolding st by blast
      then show thesis using that by (auto simp: row_pair_def unit_keys_def)
    qed
    have "x < k" by (rule key56_less_imp_less) (use len [OF x(1)] k(1) x in simp_all)
    then have "x \<le> ?p" by (rule p(3) [OF x(1)])
    then have "key56 x \<le> key56 ?p" by (rule key56_mono [rotated 3]) (use len [OF x(1)] len [OF p(1)] x(2) up in simp_all)
    moreover have "key56 ?p \<le> key56 x" using ge [OF \<open>row_pair D ?p \<in> set ?q\<close>] x(3) by (simp add: row_pair_def)
    ultimately have "key56 x = key56 ?p" by simp
    then show ?thesis using qne x(3) by (simp add: key_below_def Let_def)
  qed
qed


lemma idx_ok_each_adjacent:
  assumes ix: "idx_ok ix s D" and ok: "pos_ok D" and k: "length k = 32" "unit_of k div SHARD_DIV = s" and fin: "finite (dom D)"
    and y: "y \<in> dom D" "y < k" "unit_of y = unit_of k"
  shows "\<exists>L1 L2 x. idx_for_each_adjacent_value unit_for_each_adjacent_value ix k f st
        = Inr (visit (f (take 9 x @ [0])) L2 (visit (f (take 9 k @ [0])) L1 st))
    \<and> set L1 = spots D (same9 D k) \<and> set L2 \<subseteq> spots D (same9 D x) \<and> length x = 32
    \<and> (take 9 (prv (dom D) k) \<noteq> take 9 k \<longrightarrow> x = prv (dom D) k \<and> set L2 = spots D (same9 D x))"
proof -
  obtain vs where len: "length (ix_units ix) = 65536" and ir: "indexer_rep unit_pairs ix vs" and pr: "idx_pairs vs s D"
    using ix by (auto simp: idx_ok_def)
  have ne: "ix_units ix \<noteq> []" using len by auto
  have k9: "9 \<le> length k" using k(1) by simp
  let ?ps = "vs ! unit_of k" and ?p = "prv (dom D) k" and ?m = "map (\<lambda>v. v * 8 :: i64)"
  have "unit_pairs (ix_units ix ! unit_of k) ?ps"
    using ir unit_of_less [of k] len by (auto simp: indexer_rep_def list_all2_conv_all_nth)
  then have srt: "sorted (map fst ?ps)" by (rule unit_pairs_sorted)
  note kb = key_below_prv [OF pr srt ok k fin y]
  have l32: "length x = 32" if "x \<in> dom D" for x using ok that by (auto simp: pos_ok_def)
  have vis: "idx_for_each_adjacent_value unit_for_each_adjacent_value ix k f st
      = Inr (visit_adjacent (\<lambda>k v. f k (v * 8)) (take 9 k @ [0]) (key56 k) ?ps st)"
    using iu.idx_each_adjacent_law [OF ir k9 ne, of f st] by (simp add: len key_unit_full)
  have L1: "set (?m (values_of (key56 k) ?ps)) = spots D (same9 D k)" using values_spots [OF pr ok k9 k(2)] by simp
  let ?s1 = "visit (f (take 9 k @ [0])) (?m (values_of (key56 k) ?ps)) st"
  show ?thesis
  proof (cases "key_below (key56 k) ?ps")
    case None
    then have "take 9 ?p = take 9 k" using kb(2) by auto
    then show ?thesis using vis L1 None k(1)
      by (intro exI [of _ "?m (values_of (key56 k) ?ps)"] exI [of _ "[]"] exI [of _ k])
        (simp add: visit_adjacent_def visit_map [where g = "\<lambda>v. v * 8", symmetric])
  next
    case (Some kp)
    define x where "x = (if take 9 ?p \<noteq> take 9 k then ?p else SOME x. x \<in> dom D \<and> unit_of x = unit_of k \<and> key56 x = kp)"
    have x: "x \<in> dom D" "unit_of x = unit_of k" "key56 x = kp"
    proof -
      have "x \<in> dom D \<and> unit_of x = unit_of k \<and> key56 x = kp"
      proof (cases "take 9 ?p = take 9 k")
        case True
        then show ?thesis using someI_ex [of "\<lambda>x. x \<in> dom D \<and> unit_of x = unit_of k \<and> key56 x = kp"] kb(3) [OF Some]
          by (auto simp: x_def)
      next
        case False
        then show ?thesis using kb(1) kb(2) [OF False] Some prv_props(1) [OF fin y(1,2)] by (simp add: x_def)
      qed
      then show "x \<in> dom D" "unit_of x = unit_of k" "key56 x = kp" by blast+
    qed
    have x9: "9 \<le> length x" using l32 [OF x(1)] by simp
    have w: "k80_with (take 9 k @ [0]) kp = take 9 x @ [0]" using k80_with_key56 [OF k9 x9 x(2) [symmetric]] x(3) by simp
    have "set (?m (rev (values_of kp ?ps))) = spots D (same9 D x)"
      using values_spots [OF pr ok x9] x k(2) by simp
    moreover have "idx_for_each_adjacent_value unit_for_each_adjacent_value ix k f st
        = Inr (visit (f (take 9 x @ [0])) (?m (rev (values_of kp ?ps))) ?s1)"
      using vis Some by (simp add: visit_adjacent_def w visit_map [where g = "\<lambda>v. v * 8", symmetric])
    ultimately show ?thesis using L1 l32 [OF x(1)] by (intro exI [of _ "?m (values_of (key56 k) ?ps)"] exI [of _ "?m (rev (values_of kp ?ps))"] exI [of _ x])
      (auto simp: x_def)
  qed
qed


end
