(* ===== verification/Store.thy ===== *)
theory Store
  imports Updater KvIndex
begin

text \<open>
  The log as the updater sees it: what \<^verbatim>\<open>read_entry\<close> and \<^verbatim>\<open>append\<close> promise.  An entry is found in the
  cache, in the buffers not yet written out, or in the file.  The locale \<open>entry_store\<close> is the contract
  that the operations of the updater rely on; it is interpreted on the model of the updater.
\<close>

section \<open>Contract\<close>

text \<open>The fields of the updater that reading depends on.\<close>

definition store_part :: "updater \<Rightarrow> nat \<times> (bytes option \<times> entry_buffer) \<times> entry_cache \<times> cipher option \<times> hpfile" where
  "store_part u = (u_shard_id u, u_writer u, u_cache u, u_cipher u, u_file u)"

lemma store_part_upd [simp]:
  "store_part (u\<lparr>u_read_buf := b\<rparr>) = store_part u" "store_part (u\<lparr>u_prev_buf := b\<rparr>) = store_part u"
  "store_part (u\<lparr>u_indexer := ix\<rparr>) = store_part u" "store_part (u\<lparr>u_sn_end := n\<rparr>) = store_part u"
  "store_part (u\<lparr>u_sn_start := n\<rparr>) = store_part u" "store_part (u\<lparr>u_compact_done_pos := q\<rparr>) = store_part u"
  "store_part (u\<lparr>u_jobs := r\<rparr>) = store_part u"
  by (simp_all add: store_part_def)

locale entry_store =
  fixes store_ok :: "updater \<Rightarrow> bool"
    and stored :: "updater \<Rightarrow> nat \<Rightarrow> bytes \<Rightarrow> bool"
    and log_end :: "updater \<Rightarrow> nat"
  assumes read_law: "\<lbrakk>store_ok u; stored u p bz; p < 2 ^ 51\<rbrakk> \<Longrightarrow>
      upd_read_entry (u_shard_id u) (of_nat p) u = Inr (u\<lparr>u_read_buf := bz\<rparr>)"
    and append_law: "\<lbrakk>store_ok u; entry_ok e d; length (entry_layout e d) \<le> BIG_BUF_SIZE;
        log_end u + length (entry_layout e d) \<le> 2 ^ 51\<rbrakk> \<Longrightarrow>
      \<exists>w. upd_append e d u = Inr (of_nat (log_end u), u\<lparr>u_writer := w\<rparr>) \<and> store_ok (u\<lparr>u_writer := w\<rparr>)
        \<and> log_end (u\<lparr>u_writer := w\<rparr>) = log_end u + length (entry_layout e d)
        \<and> (\<forall>p bz. stored u p bz \<longrightarrow> stored (u\<lparr>u_writer := w\<rparr>) p bz)
        \<and> stored (u\<lparr>u_writer := w\<rparr>) (log_end u) (entry_layout e d)"
    and frame_law: "store_part u = store_part u' \<Longrightarrow> store_ok u = store_ok u' \<and> stored u = stored u' \<and> log_end u = log_end u'"
    and end_law: "store_ok u \<Longrightarrow> log_end u mod 8 = 0"

section \<open>The store of the updater\<close>

definition in_buffer :: "updater \<Rightarrow> nat \<Rightarrow> bytes \<Rightarrow> bool" where
  "in_buffer u p bz \<longleftrightarrow> (\<exists>cb. fst (u_writer u) = Some cb \<and> m_held (eb_view (snd (u_writer u)) cb) p bz)
     \<and> eb_start (snd (u_writer u)) \<le> p \<and> p + length bz \<le> eb_end (snd (u_writer u)) \<and> p mod 8 = 0 \<and> is_entry bz"

text \<open>In the file: short enough for the buffer of \<^verbatim>\<open>DEFAULT_ENTRY_SIZE\<close> bytes, and read back from there.\<close>

definition on_disk :: "updater \<Rightarrow> nat \<Rightarrow> bytes \<Rightarrow> bool" where
  "on_disk u p bz \<longleftrightarrow> p < eb_start (snd (u_writer u)) \<and> length bz \<le> DEFAULT_ENTRY_SIZE
     \<and> (\<forall>buf. length buf = DEFAULT_ENTRY_SIZE \<longrightarrow>
          (\<exists>rest. read_entry (u_cipher u) (u_file u) p buf = Inr (length bz, bz @ rest)))"

definition upd_stored :: "updater \<Rightarrow> nat \<Rightarrow> bytes \<Rightarrow> bool" where
  "upd_stored u p bz \<longleftrightarrow> ec_lookup (u_shard_id u) (of_nat p) (u_cache u) = Inr (Some bz)
     \<or> ec_lookup (u_shard_id u) (of_nat p) (u_cache u) = Inr None \<and> (in_buffer u p bz \<or> on_disk u p bz)"

definition upd_log_end :: "updater \<Rightarrow> nat" where "upd_log_end u = eb_end (snd (u_writer u))"

definition upd_store_ok :: "updater \<Rightarrow> bool" where
  "upd_store_ok u \<longleftrightarrow> (\<exists>cb. fst (u_writer u) = Some cb \<and> eb_ok (snd (u_writer u)) cb)
     \<and> eb_start (snd (u_writer u)) \<le> upd_log_end u \<and> upd_log_end u mod 8 = 0
     \<and> (\<forall>p. upd_log_end u \<le> p \<longrightarrow> p < 2 ^ 51 \<longrightarrow> ec_lookup (u_shard_id u) (of_nat p) (u_cache u) = Inr None)"

lemma upd_read_law:
  assumes ok: "upd_store_ok u" and st: "upd_stored u p bz" and p: "p < 2 ^ 51"
  shows "upd_read_entry (u_shard_id u) (of_nat p) u = Inr (u\<lparr>u_read_buf := bz\<rparr>)"
proof (cases "ec_lookup (u_shard_id u) (of_nat p) (u_cache u) = Inr (Some bz)")
  case True
  then show ?thesis by (simp add: upd_read_entry_def)
next
  case False
  then have miss: "ec_lookup (u_shard_id u) (of_nat p) (u_cache u) = Inr None" and loc: "in_buffer u p bz \<or> on_disk u p bz"
    using st by (auto simp: upd_stored_def)
  obtain cb where cb: "fst (u_writer u) = Some cb" "eb_ok (snd (u_writer u)) cb" using ok by (auto simp: upd_store_ok_def)
  have up: "unat (of_nat p :: i64) = p" by (rule pos_i64(1) [OF p])
  show ?thesis
  proof (cases "in_buffer u p bz")
    case True
    then obtain e d where e: "entry_ok e d" "bz = entry_layout e d" "length bz \<le> BIG_BUF_SIZE"
      by (auto simp: in_buffer_def is_entry_def)
    have "eb_get_entry_bz_at p (Some cb) (snd (u_writer u)) = Inr (False, Some bz)"
      using True cb e by (intro eb_get_held) (auto simp: in_buffer_def)
    moreover have "entry_from_bz bz = Inr e" using Entry.read_entry [OF e(1), of "[]"] e(2) by simp
    ultimately show ?thesis using miss cb(1) by (simp add: upd_read_entry_def ebw_get_entry_bz_at_def up)
  next
    case False
    then have d: "on_disk u p bz" using loc by blast
    let ?b = "resize DEFAULT_ENTRY_SIZE (u_read_buf u)"
    have "length ?b = DEFAULT_ENTRY_SIZE" by (simp add: resize_def)
    then obtain rest where r: "EntryFile.read_entry (u_cipher u) (u_file u) p ?b = Inr (length bz, bz @ rest)"
      using d by (auto simp: on_disk_def)
    have "ebw_get_entry_bz_at p (u_writer u) = Inr (True, None)"
      using d cb(1) by (simp add: ebw_get_entry_bz_at_def eb_get_entry_bz_at_def on_disk_def)
    moreover have "resize (length bz) (bz @ rest) = bz" by (simp add: resize_def)
    ultimately show ?thesis using miss r by (simp add: upd_read_entry_def upd_read_disk_def up)
  qed
qed

lemma upd_append_law:
  assumes ok: "upd_store_ok u" and e: "entry_ok e d" "length (entry_layout e d) \<le> BIG_BUF_SIZE"
    and room: "upd_log_end u + length (entry_layout e d) \<le> 2 ^ 51"
  shows "\<exists>w. upd_append e d u = Inr (of_nat (upd_log_end u), u\<lparr>u_writer := w\<rparr>) \<and> upd_store_ok (u\<lparr>u_writer := w\<rparr>)
        \<and> upd_log_end (u\<lparr>u_writer := w\<rparr>) = upd_log_end u + length (entry_layout e d)
        \<and> (\<forall>p bz. upd_stored u p bz \<longrightarrow> upd_stored (u\<lparr>u_writer := w\<rparr>) p bz)
        \<and> upd_stored (u\<lparr>u_writer := w\<rparr>) (upd_log_end u) (entry_layout e d)"
proof -
  let ?L = "entry_layout e d"
  obtain cb eb where w: "u_writer u = (Some cb, eb)" and eb: "eb_ok eb cb"
    using ok by (cases "u_writer u") (auto simp: upd_store_ok_def)
  have nk: "length (e_next_key_hash e) = 32" using e(1) by (simp add: entry_ok_def)
  obtain cb' eb' where a: "eb_append e d cb eb = Inr (eb_end eb, cb', eb')" "eb_ok eb' cb'"
      "eb_end eb' = eb_end eb + length ?L" "eb_start eb' = eb_start eb"
      "\<forall>q<eb_end eb. m_at (eb_view eb' cb') q = m_at (eb_view eb cb) q" "m_held (eb_view eb' cb') (eb_end eb) ?L"
    by (rule eb_append_view [OF eb nk e(2)])
  let ?u = "u\<lparr>u_writer := (Some cb', eb')\<rparr>"
  have l: "5 \<le> length ?L" "length ?L mod 8 = 0" using layout_ge_5 is_entry_len(2) [of ?L] e by (auto simp: is_entry_def)
  have al: "eb_end eb mod 8 = 0" "eb_start eb \<le> eb_end eb" using ok w by (auto simp: upd_store_ok_def upd_log_end_def)
  then have al': "(eb_end eb + length ?L) mod 8 = 0" using l(2) by (simp add: mod_add_eq [symmetric])
  have miss: "ec_lookup (u_shard_id u) (of_nat p) (u_cache u) = Inr None" if "eb_end eb \<le> p" "p < 2 ^ 51" for p
    using ok w that by (auto simp: upd_store_ok_def upd_log_end_def)
  have "upd_store_ok ?u" using a al al' miss w by (simp add: upd_store_ok_def upd_log_end_def)
  moreover have "upd_stored ?u p bz" if "upd_stored u p bz" for p bz
  proof -
    have "in_buffer ?u p bz" if "in_buffer u p bz"
    proof -
      have "m_held (eb_view eb cb) p bz" "p + length bz \<le> eb_end eb" using that w by (auto simp: in_buffer_def)
      moreover from this have "m_held (eb_view eb' cb') p bz"
        using a(5) m_held_cong [of bz "eb_view eb' cb'" p "eb_view eb cb"] by simp
      ultimately show ?thesis using that w a by (auto simp: in_buffer_def)
    qed
    moreover have "on_disk ?u p bz" if "on_disk u p bz" using that w a(4) by (simp add: on_disk_def)
    ultimately show ?thesis using that by (auto simp: upd_stored_def)
  qed
  moreover have "upd_stored ?u (upd_log_end u) ?L"
  proof -
    have "is_entry ?L" using e by (auto simp: is_entry_def)
    then have "in_buffer ?u (eb_end eb) ?L" using a al by (simp add: in_buffer_def)
    then show ?thesis using miss [of "eb_end eb"] room l(1) w by (simp add: upd_stored_def upd_log_end_def)
  qed
  moreover have "upd_append e d u = Inr (of_nat (upd_log_end u), ?u)" using a(1) w
    by (simp add: upd_append_def ebw_append_def upd_log_end_def)
  ultimately show ?thesis using a(3) w by (intro exI [of _ "(Some cb', eb')"]) (auto simp: upd_log_end_def)
qed

interpretation us: entry_store upd_store_ok upd_stored upd_log_end
proof unfold_locales
  fix u u' :: updater
  assume "store_part u = store_part u'"
  then show "upd_store_ok u = upd_store_ok u' \<and> upd_stored u = upd_stored u' \<and> upd_log_end u = upd_log_end u'"
    by (auto simp: store_part_def upd_store_ok_def upd_stored_def upd_log_end_def in_buffer_def on_disk_def fun_eq_iff)
next
  fix u assume "upd_store_ok u"
  then show "upd_log_end u mod 8 = 0" by (simp add: upd_store_ok_def)
qed (rule upd_read_law upd_append_law; assumption)+

section \<open>Long entries in the file\<close>

lemma read_entry_short_buffer:
  assumes s: "hp_inv (hp, [])" "hp_held (hp, []) p (entry_layout e d)" and e: "entry_ok e d" and p: "p < 2 ^ 51"
    and n: "5 \<le> length buf" "length buf < length (entry_layout e d)"
  shows "EntryFile.read_entry None hp p buf = Inr (length (entry_layout e d), take (length buf) (entry_layout e d))"
proof -
  let ?bz = "entry_layout e d"
  obtain r where r: "hp_read_at hp (length buf) p = Inr r" "length r \<le> length buf" "min (length buf) (length ?bz) \<le> length r"
      "take (length ?bz) r = take (length buf) ?bz"
    using hp_read_at_held [OF s(1) _ s(2), of "length buf"] by auto
  have "length r = length buf" using r(2,3) n(2) by simp
  then have rb: "r = take (length buf) ?bz" using r(4) n(2) by simp
  have "take 5 r = entry_header e d" unfolding rb using n(1) take5_layout [of e d] by (simp add: min_def)
  then have "slice (r @ drop (length r) buf) 0 5 = Inr (entry_header e d)"
    using n(1) \<open>length r = length buf\<close> by simp
  then show ?thesis
    using r(1) get_entry_len_header [OF e] p n(2) \<open>length r = length buf\<close> rb
    by (simp add: EntryFile.read_entry_def read_into_def Let_def del: take_append drop_append)
qed

text \<open>C38. An entry of more than 300 bytes that has left the buffers and is not in the cache is not read back
  whole: the buffer gets the entry's length, but only its first 300 bytes, the rest being zeros, because
  \<^verbatim>\<open>read_entry\<close> resizes the buffer before it compares its length and never reads again.  Of the hash of the
  next key the bytes that lie behind byte 300 read as zeros: some of them when key and value have more than
  263 bytes, all of them when they have at least 295.\<close>

theorem long_entry_read_truncated:
  assumes "ec_lookup (u_shard_id u) (of_nat p) (u_cache u) = Inr None" and "u_writer u = (Some cb, eb)" and "p < eb_start eb" "p < 2 ^ 51"
    and "u_cipher u = None" and "hp_inv (u_file u, [])" and "hp_held (u_file u, []) p (entry_layout e d)"
    and "entry_ok e d" and "DEFAULT_ENTRY_SIZE < length (entry_layout e d)" and "m = 295 - (length (e_key e) + length (e_value e))"
  shows "\<exists>u'. upd_read_entry (u_shard_id u) (of_nat p) u = Inr u'
    \<and> u_read_buf u' = take 300 (entry_layout e d) @ replicate (length (entry_layout e d) - 300) 0
    \<and> ebz_next_key_hash (u_read_buf u') = Inr (take m (e_next_key_hash e) @ replicate (32 - m) 0)"
proof -
  let ?bz = "entry_layout e d" and ?b = "resize DEFAULT_ENTRY_SIZE (u_read_buf u)"
  have lb: "length ?b = 300" by (simp add: resize_def layout_defs)
  have lz: "300 < length ?bz" using assms(9) by (simp add: layout_defs)
  have rd: "EntryFile.read_entry None (u_file u) p ?b = Inr (length ?bz, take 300 ?bz)"
    using read_entry_short_buffer [OF assms(6-8,4), of ?b] lb lz by simp
  let ?r = "take 300 ?bz @ replicate (length ?bz - 300) 0"
  have rz: "resize (length ?bz) (take 300 ?bz) = ?r" using lz by (simp add: resize_def)
  have lr: "length ?r = length ?bz" using lz by simp
  have "ebw_get_entry_bz_at p (u_writer u) = Inr (True, None)"
    using assms(2,3) by (simp add: ebw_get_entry_bz_at_def eb_get_entry_bz_at_def)
  then have "upd_read_entry (u_shard_id u) (of_nat p) u = Inr (u\<lparr>u_read_buf := ?r\<rparr>)"
    using assms(1,5) rd pos_i64(1) [OF assms(4)] rz lr by (simp add: upd_read_entry_def upd_read_disk_def)
  moreover have "ebz_next_key_hash ?r = Inr (take m (e_next_key_hash e) @ replicate (32 - m) 0)"
  proof -
    let ?n = "5 + length (e_key e) + length (e_value e)"
    have m: "m = 300 - ?n" using assms(10) by simp
    have "take 4 ?r = take 4 ?bz" using lz by (simp add: min_def)
    then have "next_key_hash_start ?r = next_key_hash_start ?bz" using lz by (simp add: next_key_hash_start_def)
    also have "\<dots> = Inr ?n" using read_next_start [OF assms(8), of "[]"] by simp
    finally have st: "next_key_hash_start ?r = Inr ?n" .
    have len: "?n + 32 \<le> length ?bz" using assms(8) by (simp add: entry_layout_def entry_payload_def entry_ok_def)
    then have "slice ?r ?n (?n + 32) = Inr (take 32 (drop ?n ?r))" using lr unfolding slice_def by simp
    moreover have "take 32 (drop ?n ?bz) = e_next_key_hash e" using assms(8) by (simp add: entry_layout_def entry_payload_def entry_ok_def)
    moreover have "drop ?n ?r = take m (drop ?n ?bz) @ replicate (length ?bz - 300 - (?n - 300)) 0"
      using lz by (simp add: m drop_take)
    then have "take 32 (drop ?n ?r) = take m (take 32 (drop ?n ?bz)) @ replicate (32 - m) 0"
      using lz len by (simp add: m min_def)
    ultimately show ?thesis using st by (simp add: ebz_next_key_hash_def)
  qed
  ultimately show ?thesis by simp
qed


definition long_entry :: entry where
  "long_entry = \<lparr> e_key = [1, 2], e_value = replicate 300 7, e_next_key_hash = replicate 32 9, e_version = 0, e_serial_number = 5 \<rparr>"

definition disk_updater :: "hpfile \<Rightarrow> updater" where
  "disk_updater hp = \<lparr> u_shard_id = 0, u_writer = (Some [], \<lparr> eb_start = 1000, eb_end = 1000, eb_buf_map = Map.empty, eb_free_list = [], eb_chan = [] \<rparr>),
     u_cache = ec_new, u_cipher = None, u_file = hp, u_indexer = \<lparr>ix_units = [], ix_sizes = []\<rparr>, u_read_buf = [], u_prev_buf = [],
     u_curr_version = 0, u_sn_start = 0, u_sn_end = 0, u_jobs = ring_new 1 \<lparr> cj_old_pos = 0, cj_entry_bz = [] \<rparr>,
     u_compact_done_pos = 0, u_utilization_div = 10, u_utilization_ratio = 7, u_compact_thres = 10000 \<rparr>"

lemma long_entry_ok: "entry_ok long_entry []" "length (entry_layout long_entry []) = 360"
  "295 \<le> length (e_key long_entry) + length (e_value long_entry)"
  using length_entry_layout [of long_entry "[]"]
  by (simp_all add: entry_ok_def long_entry_def get_serialized_len_def layout_defs)

lemma fresh_cache_misses: "ec_lookup 0 q ec_new = Inr None"
  using ec_lookup_rep [OF ec_new_rep(1), of 0 q] by (simp add: layout_defs)

theorem long_entry_read_truncated_witness:
  "\<exists>hp u'. hp_held (hp, []) 0 (entry_layout long_entry []) \<and> upd_read_entry 0 0 (disk_updater hp) = Inr u'
    \<and> ebz_next_key_hash (u_read_buf u') = Inr (replicate 32 0) \<and> e_next_key_hash long_entry = replicate 32 9"
proof -
  obtain hp where hp: "hp_inv (hp, [])" "hp_file_size hp = 0" "hp_buffer_size hp = 512" using hp_new_fresh [of 512 1024] by auto
  have "length (entry_layout long_entry []) \<le> hp_buffer_size (fst (hp, []))" using long_entry_ok(2) hp(3) by simp
  from hpf.app_ok [OF hp(1) this] hp(2) obtain s1 where s1: "hp_inv s1" "hp_held s1 0 (entry_layout long_entry [])" by auto
  obtain s2 where s2: "hp_inv s2" "snd s2 = []" "hp_held s2 0 (entry_layout long_entry [])"
    using hpf.flush_ok [OF s1(1)] s1(2) by blast
  then obtain hp2 where h: "hp_inv (hp2, [])" "hp_held (hp2, []) 0 (entry_layout long_entry [])" by (cases s2) auto
  have "\<exists>u'. upd_read_entry (u_shard_id (disk_updater hp2)) (of_nat 0) (disk_updater hp2) = Inr u'
    \<and> u_read_buf u' = take 300 (entry_layout long_entry []) @ replicate (length (entry_layout long_entry []) - 300) 0
    \<and> ebz_next_key_hash (u_read_buf u') = Inr (take 0 (e_next_key_hash long_entry) @ replicate (32 - 0) 0)"
    by (rule long_entry_read_truncated [where cb = "[]" and eb = "snd (u_writer (disk_updater hp2))"])
      (use h long_entry_ok fresh_cache_misses in \<open>simp_all add: disk_updater_def layout_defs\<close>)
  then show ?thesis using h(2) by (auto simp: disk_updater_def long_entry_def)
qed


end
