(* ===== verification/Database.thy ===== *)
theory Database
  imports Store
begin

text \<open>
  A shard as a key-value store.  \<open>kv_inv\<close> ties the state of the updater to a table of live entries: every
  live entry is stored in the log, the index holds exactly the live positions, and each entry names
  the hash of the next live key, so that the keys of a shard form a chain without gaps.  The theory
  shows that writing, creating, deleting and compacting keep this and act on the table as on a map
  from keys to values.
\<close>

section \<open>Invariant\<close>

definition shard_top :: "nat \<Rightarrow> hash32" where "shard_top s = sentry_hash ((s + 1) * SHARD_DIV)"

definition in_shard :: "nat \<Rightarrow> hash32 \<Rightarrow> bool" where
  "in_shard s kh \<longleftrightarrow> length kh = 32 \<and> unit_of kh div SHARD_DIV = s \<and> kh < shard_top s"

definition sentries :: "nat \<Rightarrow> hash32 set" where
  "sentries s = sentry_hash ` {i. i < 2 ^ 16 \<and> i div SHARD_DIV = s}"

text \<open>Entries that fit into a buffer with two deactivated serial numbers.\<close>

definition small :: "entry \<Rightarrow> bool" where
  "small e \<longleftrightarrow> length (e_key e) < 256 \<and> length (e_key e) + length (e_value e) + 80 \<le> BIG_BUF_SIZE
     \<and> length (e_next_key_hash e) = 32 \<and> (e_value e = [] \<longrightarrow> 2 \<le> length (e_key e))"

definition row_ok :: "(bytes \<Rightarrow> hash32) \<Rightarrow> nat \<Rightarrow> nat \<Rightarrow> u64 \<Rightarrow> hash32 \<Rightarrow> nat \<times> entry \<times> u64 list \<Rightarrow> bool" where
  "row_ok H s end' sn kh = (\<lambda>(p, e, d). in_shard s kh \<and> key_hash_of H e = kh \<and> small e \<and> length d \<le> 2
     \<and> p mod 8 = 0 \<and> p + length (entry_layout e d) \<le> end' \<and> unat (e_serial_number e) < unat sn)"

definition rows_ok :: "(bytes \<Rightarrow> hash32) \<Rightarrow> nat \<Rightarrow> nat \<Rightarrow> u64 \<Rightarrow> table \<Rightarrow> bool" where
  "rows_ok H s end' sn D \<longleftrightarrow> (\<forall>kh r. D kh = Some r \<longrightarrow> row_ok H s end' sn kh r)
     \<and> inj_on (pos_of D) (dom D) \<and> inj_on (\<lambda>k. e_serial_number (ent_of D k)) (dom D)"

definition sentries_ok :: "nat \<Rightarrow> table \<Rightarrow> bool" where
  "sentries_ok s D \<longleftrightarrow> sentries s \<subseteq> dom D \<and> (\<forall>k\<in>dom D. e_value (ent_of D k) = [] \<longleftrightarrow> k \<in> sentries s)
     \<and> (\<forall>k\<in>sentries s. e_key (ent_of D k) = k)"

definition chain_ok :: "nat \<Rightarrow> table \<Rightarrow> bool" where
  "chain_ok s D \<longleftrightarrow> (\<forall>k\<in>dom D. e_next_key_hash (ent_of D k) = nxt (shard_top s) (dom D) k)"

text \<open>A job names a position and the entry that was stored there; a later entry never gets the same position.\<close>

definition job_ok :: "(bytes \<Rightarrow> hash32) \<Rightarrow> nat \<Rightarrow> nat \<Rightarrow> table \<Rightarrow> compact_job \<Rightarrow> bool" where
  "job_ok H s end' D job \<longleftrightarrow> (\<exists>p e d. cj_old_pos job = of_nat p \<and> p < end' \<and> p mod 8 = 0 \<and> cj_entry_bz job = entry_layout e d
     \<and> small e \<and> length d \<le> 2 \<and> in_shard s (key_hash_of H e) \<and> (\<forall>k\<in>dom D. pos_of D k = p \<longrightarrow> D k = Some (p, e, d)))"

definition jobs_ok :: "(bytes \<Rightarrow> hash32) \<Rightarrow> nat \<Rightarrow> nat \<Rightarrow> table \<Rightarrow> compact_job ring \<Rightarrow> bool" where
  "jobs_ok H s end' D r \<longleftrightarrow> length (rc_fwd r) + length (rc_bck r) \<le> rc_size r \<and> (\<forall>job\<in>set (rc_fwd r). job_ok H s end' D job)"

definition tab_inv ::
  "(updater \<Rightarrow> bool) \<Rightarrow> (updater \<Rightarrow> nat \<Rightarrow> bytes \<Rightarrow> bool) \<Rightarrow> (updater \<Rightarrow> nat) \<Rightarrow> (bytes \<Rightarrow> hash32) \<Rightarrow> u64 \<Rightarrow> updater \<Rightarrow> table \<Rightarrow> bool" where
  "tab_inv ok st end' H sn u D \<longleftrightarrow> ok u \<and> end' u \<le> 2 ^ 51 \<and> finite (dom D) \<and> rows_ok H (u_shard_id u) (end' u) sn D
     \<and> (\<forall>k p e d. D k = Some (p, e, d) \<longrightarrow> st u p (entry_layout e d)) \<and> jobs_ok H (u_shard_id u) (end' u) D (u_jobs u)"

definition kv_inv ::
  "(updater \<Rightarrow> bool) \<Rightarrow> (updater \<Rightarrow> nat \<Rightarrow> bytes \<Rightarrow> bool) \<Rightarrow> (updater \<Rightarrow> nat) \<Rightarrow> (bytes \<Rightarrow> hash32) \<Rightarrow> updater \<Rightarrow> table \<Rightarrow> bool" where
  "kv_inv ok st end' H u D \<longleftrightarrow> tab_inv ok st end' H (u_sn_end u) u D \<and> idx_ok (u_indexer u) (u_shard_id u) D
     \<and> sentries_ok (u_shard_id u) D \<and> chain_ok (u_shard_id u) D"

text \<open>The keys and values of a table.\<close>

definition live_kv :: "table \<Rightarrow> hash32 \<rightharpoonup> (bytes \<times> bytes)" where
  "live_kv D kh = (case D kh of None \<Rightarrow> None
     | Some (p, e, d) \<Rightarrow> if e_value e = [] then None else Some (e_key e, e_value e))"

definition kv_fits :: "bytes \<Rightarrow> bytes \<Rightarrow> bool" where
  "kv_fits key val \<longleftrightarrow> val \<noteq> [] \<and> length key < 256 \<and> length key + length val + 80 \<le> BIG_BUF_SIZE"

text \<open>Room for \<open>n\<close> more entries in the log and in the range of serial numbers.\<close>

definition has_room :: "nat \<Rightarrow> nat \<Rightarrow> u64 \<Rightarrow> bool" where
  "has_room n end' sn \<longleftrightarrow> end' + n * BIG_BUF_SIZE \<le> 2 ^ 51 \<and> unat sn + n < 2 ^ 64"

lemma room_step:
  assumes "has_room (Suc n) end' sn"
  shows "unat (sn + 1) = unat sn + 1" "end' + BIG_BUF_SIZE \<le> 2 ^ 51" "end' < 2 ^ 51"
    "end'' \<le> end' + BIG_BUF_SIZE \<Longrightarrow> has_room n end'' (sn + 1)"
proof -
  have B: "0 < BIG_BUF_SIZE" by simp
  have a: "end' + (BIG_BUF_SIZE + n * BIG_BUF_SIZE) \<le> 2 ^ 51" and b: "unat sn + Suc n < 2 ^ 64" using assms by (simp_all add: has_room_def)
  show sn: "unat (sn + 1) = unat sn + 1" using b by (simp add: unat_add_lem [THEN iffD1])
  show "end' + BIG_BUF_SIZE \<le> 2 ^ 51" "end' < 2 ^ 51" using a B by linarith+
  show "has_room n end'' (sn + 1)" if "end'' \<le> end' + BIG_BUF_SIZE"
    using that a b unfolding has_room_def sn by linarith
qed

lemma room_less: "has_room (n + m) end' sn \<Longrightarrow> has_room n end' sn"
  by (simp add: has_room_def add_mult_distrib)

section \<open>Tables and the log\<close>

lemma small_ok:
  assumes "small e" "length d \<le> 2"
  shows "entry_ok e d" "length (entry_layout e d) \<le> BIG_BUF_SIZE" "0 < length (entry_layout e d)"
proof -
  show ok: "entry_ok e d" using assms by (auto simp: small_def entry_ok_def layout_defs)
  let ?x = "60 + (length (e_key e) + length (e_value e))"
  have "length (entry_layout e d) = ?x div 8 * 8 + length d * 8"
    using assms length_entry_layout [of e d] by (simp add: small_def get_serialized_len_def layout_defs)
  moreover have "?x div 8 * 8 \<le> ?x" by (rule div_times_less_eq_dividend)
  moreover have "?x + 2 * 8 \<le> BIG_BUF_SIZE" using assms by (simp add: small_def)
  ultimately show "length (entry_layout e d) \<le> BIG_BUF_SIZE" using assms(2) by linarith
  show "0 < length (entry_layout e d)" using layout_ge_5 [of e d] by linarith
qed

lemma rows_okD:
  assumes "rows_ok H s end' sn D" "D k = Some (p, e, d)"
  shows "in_shard s k" "key_hash_of H e = k" "small e" "length d \<le> 2" "p mod 8 = 0" "p + length (entry_layout e d) \<le> end'"
    "unat (e_serial_number e) < unat sn" "p < end'"
proof -
  show *: "in_shard s k" "key_hash_of H e = k" "small e" "length d \<le> 2" "p mod 8 = 0" "p + length (entry_layout e d) \<le> end'"
    "unat (e_serial_number e) < unat sn" using assms by (auto simp: rows_ok_def row_ok_def)
  show "p < end'" using small_ok(3) [OF *(3,4)] *(6) by linarith
qed

lemma row_at: "D k = Some (p, e, d) \<Longrightarrow> pos_of D k = p \<and> ent_of D k = e"
  by (simp add: pos_of_def ent_of_def)

lemma rows_pos_ok: "rows_ok H s end' sn D \<Longrightarrow> end' \<le> 2 ^ 51 \<Longrightarrow> pos_ok D"
proof -
  assume r: "rows_ok H s end' sn D" and e: "end' \<le> 2 ^ 51"
  have "length k = 32 \<and> pos_of D k mod 8 = 0 \<and> pos_of D k < 2 ^ 51" if "k \<in> dom D" for k
  proof -
    from that obtain p e d where D: "D k = Some (p, e, d)" by auto
    show ?thesis using rows_okD [OF r D] row_at [of D, OF D] e by (simp add: in_shard_def)
  qed
  then show ?thesis using r by (auto simp: pos_ok_def rows_ok_def)
qed

lemma rows_below: "rows_ok H s end' sn D \<Longrightarrow> k \<in> dom D \<Longrightarrow> pos_of D k < end'"
  using rows_okD(8) by (fastforce simp: pos_of_def)

lemma inj_on_upd:
  assumes "inj_on f A" "\<And>x. x \<in> A \<Longrightarrow> x \<noteq> k \<Longrightarrow> f x \<noteq> v"
  shows "inj_on (\<lambda>x. if x = k then v else f x) (insert k A)"
  using assms by (auto simp: inj_on_def)

lemma rows_append:
  assumes r: "rows_ok H s end' sn D" and al: "end' mod 8 = 0" and k: "in_shard s k" "key_hash_of H e = k" "small e" "length d \<le> 2"
    and sn: "unat sn \<le> unat (e_serial_number e)" "unat (e_serial_number e) < unat sn'"
  shows "rows_ok H s (end' + length (entry_layout e d)) sn' (D(k \<mapsto> (end', e, d)))"
proof -
  let ?D = "D(k \<mapsto> (end', e, d))"
  have dm: "dom ?D = insert k (dom D)" by simp
  have "row_ok H s (end' + length (entry_layout e d)) sn' x r'" if xr: "?D x = Some r'" for x r'
  proof (cases "x = k")
    case True
    then have "r' = (end', e, d)" using xr by simp
    then show ?thesis using True al k sn by (simp add: row_ok_def)
  next
    case False
    then obtain p e' d' where D: "D x = Some (p, e', d')" "r' = (p, e', d')" using xr by (cases r') auto
    show ?thesis using rows_okD [OF r D(1)] sn D(2) by (simp add: row_ok_def)
  qed
  moreover have "inj_on (pos_of ?D) (dom ?D)"
  proof -
    have eq: "pos_of ?D = (\<lambda>x. if x = k then end' else pos_of D x)" by (rule ext) simp
    have "pos_of D x \<noteq> end'" if "x \<in> dom D" for x using rows_below [OF r that] by simp
    then show ?thesis unfolding eq dm using r by (intro inj_on_upd) (auto simp: rows_ok_def)
  qed
  moreover have "inj_on (\<lambda>x. e_serial_number (ent_of ?D x)) (dom ?D)"
  proof -
    have eq: "(\<lambda>x. e_serial_number (ent_of ?D x)) = (\<lambda>x. if x = k then e_serial_number e else e_serial_number (ent_of D x))"
      by (rule ext) simp
    have "e_serial_number (ent_of D x) \<noteq> e_serial_number e" if x: "x \<in> dom D" for x
    proof -
      from x obtain p e' d' where D: "D x = Some (p, e', d')" by auto
      show ?thesis using rows_okD(7) [OF r D] row_at [of D, OF D] sn(1) by auto
    qed
    then show ?thesis unfolding eq dm using r by (intro inj_on_upd) (auto simp: rows_ok_def)
  qed
  ultimately show ?thesis unfolding rows_ok_def by blast
qed

lemma rows_remove: "rows_ok H s end' sn D \<Longrightarrow> rows_ok H s end' sn (D(k := None))"
  by (auto simp: rows_ok_def inj_on_def split: if_splits)

lemma jobs_append: "jobs_ok H s end' D r \<Longrightarrow> jobs_ok H s (end' + n) (D(k \<mapsto> (end', e, d))) r"
  by (fastforce simp: jobs_ok_def job_ok_def)

lemma jobs_remove: "jobs_ok H s end' D r \<Longrightarrow> jobs_ok H s end' (D(k := None)) r"
  by (fastforce simp: jobs_ok_def job_ok_def)

context entry_store
begin

lemma shard_frame: "store_part u' = store_part u \<Longrightarrow> u_shard_id u' = u_shard_id u"
  by (simp add: store_part_def)

lemma tab_frame:
  assumes "store_part u' = store_part u" "u_jobs u' = u_jobs u"
  shows "tab_inv store_ok stored log_end H sn u' D = tab_inv store_ok stored log_end H sn u D"
  using frame_law [OF assms(1)] shard_frame [OF assms(1)] assms(2) by (simp add: tab_inv_def)

lemma read_row:
  assumes t: "tab_inv store_ok stored log_end H sn u D" and D: "D k = Some (p, e, d)" and f: "store_part u' = store_part u"
  shows "upd_read_entry (u_shard_id u') (of_nat p) u' = Inr (u'\<lparr>u_read_buf := entry_layout e d\<rparr>)"
proof (rule read_law)
  show "store_ok u'" using t frame_law [OF f] by (simp add: tab_inv_def)
  show "stored u' p (entry_layout e d)" using t D frame_law [OF f] by (simp add: tab_inv_def)
  have "rows_ok H (u_shard_id u) (log_end u) sn D" "log_end u \<le> 2 ^ 51" using t by (simp_all add: tab_inv_def)
  then show "p < 2 ^ 51" using rows_okD(8) [where D = D, OF _ D] by fastforce
qed

lemma tab_append:
  assumes t: "tab_inv store_ok stored log_end H sn u D"
    and k: "in_shard (u_shard_id u) k" "key_hash_of H e = k" "small e" "length d \<le> 2"
    and sn: "unat sn \<le> unat (e_serial_number e)" "unat (e_serial_number e) < unat sn'"
    and room: "log_end u + BIG_BUF_SIZE \<le> 2 ^ 51"
  shows "\<exists>w. upd_append e d u = Inr (of_nat (log_end u), u\<lparr>u_writer := w\<rparr>)
    \<and> tab_inv store_ok stored log_end H sn' (u\<lparr>u_writer := w\<rparr>) (D(k \<mapsto> (log_end u, e, d)))
    \<and> log_end u < log_end (u\<lparr>u_writer := w\<rparr>) \<and> log_end (u\<lparr>u_writer := w\<rparr>) \<le> log_end u + BIG_BUF_SIZE
    \<and> log_end (u\<lparr>u_writer := w\<rparr>) = log_end u + length (entry_layout e d)"
proof -
  let ?D = "D(k \<mapsto> (log_end u, e, d))"
  note s = small_ok [OF k(3,4)]
  have r: "log_end u + length (entry_layout e d) \<le> 2 ^ 51" using room s(2) by linarith
  have ok: "store_ok u" using t by (simp add: tab_inv_def)
  from append_law [OF ok s(1,2) r] obtain w where
    w: "upd_append e d u = Inr (of_nat (log_end u), u\<lparr>u_writer := w\<rparr>)" "store_ok (u\<lparr>u_writer := w\<rparr>)"
      "log_end (u\<lparr>u_writer := w\<rparr>) = log_end u + length (entry_layout e d)"
      "\<And>p bz. stored u p bz \<Longrightarrow> stored (u\<lparr>u_writer := w\<rparr>) p bz" "stored (u\<lparr>u_writer := w\<rparr>) (log_end u) (entry_layout e d)"
    by blast
  have "rows_ok H (u_shard_id u) (log_end (u\<lparr>u_writer := w\<rparr>)) sn' ?D"
    unfolding w(3) using t k sn end_law [OF ok] by (intro rows_append) (auto simp: tab_inv_def)
  moreover have "stored (u\<lparr>u_writer := w\<rparr>) p (entry_layout e' d')" if "?D x = Some (p, e', d')" for x p e' d'
    using that t w(4,5) by (auto simp: tab_inv_def split: if_splits)
  moreover have "jobs_ok H (u_shard_id u) (log_end (u\<lparr>u_writer := w\<rparr>)) ?D (u_jobs u)"
    unfolding w(3) by (rule jobs_append) (use t in \<open>simp add: tab_inv_def\<close>)
  ultimately have "tab_inv store_ok stored log_end H sn' (u\<lparr>u_writer := w\<rparr>) ?D"
    using t w(2,3) r by (simp add: tab_inv_def)
  then show ?thesis using w(1,3) s by (intro exI [of _ w]) auto
qed

lemma tab_remove: "tab_inv store_ok stored log_end H sn u D \<Longrightarrow> tab_inv store_ok stored log_end H sn u (D(k := None))"
  by (auto simp: tab_inv_def rows_remove jobs_remove split: if_splits)

end

section \<open>Scans\<close>

lemma visit_first:
  assumes "z \<in> set L" and "\<And>b. f z (S b) = (T, True)"
    and "\<And>x b. x \<in> set L \<Longrightarrow> x \<noteq> z \<Longrightarrow> \<exists>b'. f x (S b) = (S b', False)"
  shows "visit f L (S b) = T"
  using assms(1,3)
proof (induction L arbitrary: b)
  case (Cons x L)
  show ?case
  proof (cases "x = z")
    case True
    then show ?thesis using assms(2) by simp
  next
    case False
    then obtain b' where "f x (S b) = (S b', False)" using Cons.prems(2) by auto
    then show ?thesis using Cons False by simp
  qed
qed simp

lemma read_key_hash_row:
  assumes "small e" "length d \<le> 2"
  shows "ebz_key_hash H (entry_layout e d) = Inr (key_hash_of H e)"
  using read_key_hash [OF small_ok(1) [OF assms], of H "[]"] read_key_hash_empty [OF small_ok(1) [OF assms], of H "[]"] assms(1)
  by (auto simp: key_hash_of_def small_def)

lemma live_key_unique:
  assumes r: "rows_ok H s end' sn D" and sen: "sentries_ok s D" and D: "D x = Some (p, e, d)"
    and key: "e_key e = key" "\<forall>i. key \<noteq> sentry_hash i"
  shows "x = H key"
proof -
  have "e_value e \<noteq> []"
  proof
    assume v: "e_value e = []"
    have "ent_of D x = e" using row_at [of D, OF D] by simp
    then have "x \<in> sentries s" using sen v D by (auto simp: sentries_ok_def)
    then show False using sen key \<open>ent_of D x = e\<close> by (auto simp: sentries_ok_def sentries_def)
  qed
  then show ?thesis using rows_okD(2) [OF r D] key(1) by (simp add: key_hash_of_def)
qed


lemma row_reads:
  assumes "entry_ok e d"
  shows "ebz_key (entry_layout e d) = Inr (e_key e)" "ebz_value (entry_layout e d) = Inr (e_value e)"
    "ebz_next_key_hash (entry_layout e d) = Inr (e_next_key_hash e)" "ebz_version (entry_layout e d) = Inr (e_version e)"
    "ebz_serial_number (entry_layout e d) = Inr (e_serial_number e)"
  using read_key [OF assms, of "[]"] read_value [OF assms, of "[]"] read_next_key_hash [OF assms, of "[]"]
    read_version [OF assms, of "[]"] read_serial_number [OF assms, of "[]"] by simp_all

section \<open>Replacing an entry\<close>

lemma sentries_replace:
  assumes "sentries_ok s D" "k \<in> dom D" "e_value e = [] \<longleftrightarrow> e_value (ent_of D k) = []"
    "e_value e = [] \<Longrightarrow> e_key e = e_key (ent_of D k)"
  shows "sentries_ok s (D(k \<mapsto> (p, e, d)))"
proof -
  have "e_key e = k" if "k \<in> sentries s"
  proof -
    have "e_value e = []" using that assms(1-3) by (auto simp: sentries_ok_def)
    then show ?thesis using assms(1,4) that by (simp add: sentries_ok_def)
  qed
  then show ?thesis using assms(1-3) by (auto simp: sentries_ok_def)
qed

lemma chain_replace:
  assumes "chain_ok s D" "k \<in> dom D" "e_next_key_hash e = e_next_key_hash (ent_of D k)"
  shows "chain_ok s (D(k \<mapsto> (p, e, d)))"
proof -
  have "dom (D(k \<mapsto> (p, e, d))) = dom D" using assms(2) by auto
  then show ?thesis using assms by (simp add: chain_ok_def)
qed

context entry_store
begin

lemma kv_frame:
  assumes "store_part u' = store_part u" "u_jobs u' = u_jobs u" "u_indexer u' = u_indexer u" "u_sn_end u' = u_sn_end u"
  shows "kv_inv store_ok stored log_end H u' D = kv_inv store_ok stored log_end H u D"
  using tab_frame [OF assms(1,2)] shard_frame [OF assms(1)] assms(3,4) by (simp add: kv_inv_def)

lemma kv_rows: "kv_inv store_ok stored log_end H u D \<Longrightarrow> rows_ok H (u_shard_id u) (log_end u) (u_sn_end u) D"
  "kv_inv store_ok stored log_end H u D \<Longrightarrow> log_end u \<le> 2 ^ 51"
  "kv_inv store_ok stored log_end H u D \<Longrightarrow> finite (dom D)"
  by (simp_all add: kv_inv_def tab_inv_def)

lemma replace_row:
  assumes kv: "kv_inv store_ok stored log_end H u D" and D: "D k = Some (p, e0, d0)"
    and k80: "9 \<le> length k80" "take 9 k80 = take 9 k"
    and e: "key_hash_of H e = k" "small e" "e_next_key_hash e = e_next_key_hash e0" "e_serial_number e = u_sn_end u"
      "e_value e = [] \<longleftrightarrow> e_value e0 = []" "e_value e = [] \<Longrightarrow> e_key e = e_key e0"
    and d: "length d \<le> 2" and room: "has_room (Suc n) (log_end u) (u_sn_end u)"
  shows "\<exists>w ix. upd_append e d u = Inr (of_nat (log_end u), u\<lparr>u_writer := w\<rparr>)
    \<and> upd_change_kv k80 (of_nat p) (of_nat (log_end u)) (u\<lparr>u_writer := w\<rparr>) = Inr (u\<lparr>u_writer := w, u_indexer := ix\<rparr>)
    \<and> kv_inv store_ok stored log_end H (u\<lparr>u_writer := w, u_indexer := ix, u_sn_end := u_sn_end u + 1\<rparr>) (D(k \<mapsto> (log_end u, e, d)))
    \<and> has_room n (log_end (u\<lparr>u_writer := w\<rparr>)) (u_sn_end u + 1)"
proof -
  let ?s = "u_shard_id u" and ?D = "D(k \<mapsto> (log_end u, e, d))"
  note r = kv_rows(1) [OF kv]
  note rD = rows_okD [where D = D, OF r D]
  have t: "tab_inv store_ok stored log_end H (u_sn_end u) u D" and ix: "idx_ok (u_indexer u) ?s D"
    and sen: "sentries_ok ?s D" and ch: "chain_ok ?s D" using kv by (simp_all add: kv_inv_def)
  have sn: "unat (u_sn_end u) \<le> unat (e_serial_number e)" "unat (e_serial_number e) < unat (u_sn_end u + 1)"
    using room_step(1) [OF room] e(4) by simp_all
  note rm = room_step(2,3) [OF room]
  obtain w where w: "upd_append e d u = Inr (of_nat (log_end u), u\<lparr>u_writer := w\<rparr>)"
      "tab_inv store_ok stored log_end H (u_sn_end u + 1) (u\<lparr>u_writer := w\<rparr>) ?D" "log_end (u\<lparr>u_writer := w\<rparr>) \<le> log_end u + BIG_BUF_SIZE"
    using tab_append [OF t rD(1) e(1,2) d sn rm(1)] by blast
  have dom: "k \<in> dom D" using D by auto
  have fresh: "\<forall>x\<in>dom D. pos_of D x \<noteq> log_end u" using rows_below [OF r] by fastforce
  have al: "log_end u mod 8 = 0" using t end_law by (simp add: tab_inv_def)
  have sh: "unit_of k div SHARD_DIV = ?s" using rD(1) by (simp add: in_shard_def)
  obtain ix' where ix': "idx_change_kv unit_change_kv (u_indexer u) k80 (of_nat p) (of_nat (log_end u)) = Inr ix'" "idx_ok ix' ?s ?D"
    using idx_ok_change [OF ix rows_pos_ok [OF r kv_rows(2) [OF kv]] dom sh rm(2) al fresh k80] row_at [of D, OF D] by metis
  have ent: "ent_of D k = e0" using row_at [of D, OF D] by simp
  have "kv_inv store_ok stored log_end H (u\<lparr>u_writer := w, u_indexer := ix', u_sn_end := u_sn_end u + 1\<rparr>) ?D"
    using w(2) tab_frame [of "u\<lparr>u_writer := w, u_indexer := ix', u_sn_end := u_sn_end u + 1\<rparr>" "u\<lparr>u_writer := w\<rparr>"] ix'(2)
      sentries_replace [OF sen dom, of e] chain_replace [OF ch dom, of e] e ent
    by (simp add: kv_inv_def store_part_def)
  then show ?thesis using w(1) ix'(1) room_step(4) [OF room w(3)] by (intro exI [of _ w] exI [of _ ix']) (simp add: upd_change_kv_def)
qed

end


section \<open>Writing\<close>

definition compact_after :: "nat \<Rightarrow> (bytes \<Rightarrow> hash32) \<Rightarrow> updater \<Rightarrow> updater result" where
  "compact_after n H u = bindE (upd_is_compactible u) (\<lambda>c. if c then foldE (\<lambda>_. upd_compact H) [0..<n] u else Inr u)"

lemma compact_after_simps:
  "compact_after 1 H u = bindE (upd_is_compactible u) (\<lambda>c. if c then upd_compact H u else Inr u)"
  "compact_after 2 H u = bindE (upd_is_compactible u) (\<lambda>c. if c then bindE (upd_compact H u) (upd_compact H) else Inr u)"
proof -
  have r: "bindE m Inr = m" for m :: "updater result" by (cases m) simp_all
  have n: "foldE (\<lambda>_. upd_compact H) [] = Inr" by (rule ext) simp
  have o: "foldE (\<lambda>_. upd_compact H) [i] = upd_compact H" for i :: nat by (rule ext) (simp add: n r)
  have "foldE (\<lambda>_. upd_compact H) [0..<1] u = upd_compact H u"
    "foldE (\<lambda>_. upd_compact H) [0..<2] u = bindE (upd_compact H u) (upd_compact H)"
    by (simp_all add: upt_rec numeral_2_eq_2 n r o)
  then show "compact_after 1 H u = bindE (upd_is_compactible u) (\<lambda>c. if c then upd_compact H u else Inr u)"
    "compact_after 2 H u = bindE (upd_is_compactible u) (\<lambda>c. if c then bindE (upd_compact H u) (upd_compact H) else Inr u)"
    unfolding compact_after_def by (simp_all only:)
qed

lemma live_kv_replace: "live_kv (D(k \<mapsto> (p, e, d))) = (live_kv D)(k := if e_value e = [] then None else Some (e_key e, e_value e))"
  by (rule ext) (simp add: live_kv_def)

lemma not_found [simp]: "\<not> found (- 1, s)"
  by (simp add: found_def)

text \<open>The table after a write and after a creation, with \<open>at\<close> the end of the log, \<open>sn\<close> the next serial
  number and \<open>v\<close> the version: the new entry of a key lists the serial number it replaces; a new key
  takes over the successor of its predecessor, whose own entry is written again behind it.\<close>

definition written :: "table \<Rightarrow> nat \<Rightarrow> u64 \<Rightarrow> i64 \<Rightarrow> hash32 \<Rightarrow> bytes \<Rightarrow> bytes \<Rightarrow> table" where
  "written D at sn v kh key val =
     D(kh \<mapsto> (at, \<lparr>e_key = key, e_value = val, e_next_key_hash = e_next_key_hash (ent_of D kh), e_version = v, e_serial_number = sn\<rparr>,
        [e_serial_number (ent_of D kh)]))"

definition created :: "table \<Rightarrow> nat \<Rightarrow> u64 \<Rightarrow> i64 \<Rightarrow> hash32 \<Rightarrow> bytes \<Rightarrow> bytes \<Rightarrow> table" where
  "created D at sn v kh key val =
     (let pk = prv (dom D) kh; e = ent_of D pk;
          e1 = \<lparr>e_key = key, e_value = val, e_next_key_hash = e_next_key_hash e, e_version = v, e_serial_number = sn\<rparr>;
          e2 = \<lparr>e_key = e_key e, e_value = e_value e, e_next_key_hash = kh, e_version = v, e_serial_number = sn + 1\<rparr> in
      D(kh \<mapsto> (at, e1, []), pk \<mapsto> (at + length (entry_layout e1 []), e2, [e_serial_number e])))"

context entry_store
begin

lemma write_scan:
  assumes kv: "kv_inv store_ok stored log_end H u D" and D: "D (H key) = Some (p, e, d)" "e_key e = key" and key: "\<forall>i. key \<noteq> sentry_hash i"
  shows "idx_for_each_value unit_for_each_value (u_indexer u) (H key) (closure (wr_body key) found) (Inr (- 1, u))
    = Inr (Inr (of_nat p, u\<lparr>u_read_buf := entry_layout e d\<rparr>))"
proof -
  let ?s = "u_shard_id u" and ?f = "closure (wr_body key) found" and ?S = "\<lambda>b. Inr (- 1, u\<lparr>u_read_buf := b\<rparr>)"
  note r = kv_rows(1) [OF kv] and pos = rows_pos_ok [OF kv_rows(1) [OF kv] kv_rows(2) [OF kv]]
  note rD = rows_okD [where D = D, OF r D(1)]
  have t: "tab_inv store_ok stored log_end H (u_sn_end u) u D" and ix: "idx_ok (u_indexer u) ?s D" and sen: "sentries_ok ?s D"
    using kv by (simp_all add: kv_inv_def)
  have k: "9 \<le> length (H key)" "unit_of (H key) div SHARD_DIV = ?s" using rD(1) by (simp_all add: in_shard_def)
  obtain L where L: "set L = spots D (same9 D (H key))"
      "idx_for_each_value unit_for_each_value (u_indexer u) (H key) ?f (?S (u_read_buf u)) = Inr (visit ?f L (?S (u_read_buf u)))"
    using idx_ok_each_value [OF ix pos k, of ?f "?S (u_read_buf u)"] by blast
  have p: "p < 2 ^ 51" using rD(8) kv_rows(2) [OF kv] by simp
  have step: "wr_body key (of_nat (pos_of D x)) (- 1, u\<lparr>u_read_buf := b\<rparr>)
      = Inr (if x = H key then of_nat (pos_of D x) else - 1, u\<lparr>u_read_buf := entry_layout (ent_of D x) (snd (snd (the (D x))))\<rparr>)"
    if "x \<in> dom D" for x b
  proof -
    from that obtain q e' d' where x: "D x = Some (q, e', d')" by auto
    note rx = rows_okD [where D = D, OF r x]
    have "(e_key e' = key) = (x = H key)"
      using live_key_unique [where D = D, OF r sen x _ key] x D by auto
    moreover have "q = pos_of D x" "ent_of D x = e'" "snd (snd (the (D x))) = d'" using x by (simp_all add: pos_of_def ent_of_def)
    ultimately show ?thesis
      using read_row [where D = D, OF t x, of "u\<lparr>u_read_buf := b\<rparr>"] row_reads(1) [OF small_ok(1) [OF rx(3,4)]]
      by (simp add: wr_body_def)
  qed
  have dk: "H key \<in> dom D" "pos_of D (H key) = p" "ent_of D (H key) = e" "snd (snd (the (D (H key)))) = d"
    using D(1) by (auto simp: pos_of_def ent_of_def)
  have "visit ?f L (?S (u_read_buf u)) = Inr (of_nat p, u\<lparr>u_read_buf := entry_layout e d\<rparr>)"
  proof (rule visit_first [where S = ?S and z = "of_nat p"])
    show "of_nat p \<in> set L" unfolding L(1) using dk by (auto simp: spots_def same9_def)
    show "?f (of_nat p) (?S b) = (Inr (of_nat p, u\<lparr>u_read_buf := entry_layout e d\<rparr>), True)" for b
      using step [OF dk(1), of b] dk pos_i64(2) [OF p] by (simp add: closure_def found_def)
    show "\<exists>b'. ?f v (?S b) = (?S b', False)" if v: "v \<in> set L" "v \<noteq> of_nat p" for v b
    proof -
      obtain x where x: "x \<in> dom D" "v = of_nat (pos_of D x)" using v(1) unfolding L(1) by (auto simp: spots_def same9_def)
      then have "x \<noteq> H key" using v(2) dk(2) by auto
      then show ?thesis using step [OF x(1), of b] x(2) by (simp add: closure_def) blast
    qed
  qed
  then show ?thesis using L(2) by simp
qed

lemma write_ok:
  assumes kv: "kv_inv store_ok stored log_end H u D" and live: "live_kv D (H key) = Some (key, v0)" and key: "\<forall>i. key \<noteq> sentry_hash i"
    and fits: "kv_fits key val" and room: "has_room (Suc n) (log_end u) (u_sn_end u)"
  shows "\<exists>w ix b u'. u' = u\<lparr>u_read_buf := b, u_writer := w, u_indexer := ix, u_sn_end := u_sn_end u + 1\<rparr>
    \<and> upd_write_kv H (H key) key val u = compact_after 1 H u'
    \<and> kv_inv store_ok stored log_end H u' (written D (log_end u) (u_sn_end u) (u_curr_version u) (H key) key val)
    \<and> live_kv (written D (log_end u) (u_sn_end u) (u_curr_version u) (H key) key val) = (live_kv D)(H key \<mapsto> (key, val))
    \<and> has_room n (log_end u') (u_sn_end u')"
proof -
  obtain p e d where D: "D (H key) = Some (p, e, d)" "e_key e = key" "e_value e \<noteq> []"
    using live by (auto simp: live_kv_def split: option.splits if_splits)
  note rD = rows_okD [where D = D, OF kv_rows(1) [OF kv] D(1)]
  let ?u = "u\<lparr>u_read_buf := entry_layout e d\<rparr>"
  let ?e = "\<lparr>e_key = key, e_value = val, e_next_key_hash = e_next_key_hash e, e_version = u_curr_version u, e_serial_number = u_sn_end u\<rparr>"
  let ?d = "[e_serial_number e]"
  have kv': "kv_inv store_ok stored log_end H ?u D" using kv kv_frame [of ?u u] by simp
  have le: "log_end ?u = log_end u" using frame_law [of ?u u] by simp
  have sm: "small ?e" "key_hash_of H ?e = H key" using fits rD(3) by (simp_all add: small_def kv_fits_def key_hash_of_def)
  have k9: "9 \<le> length (H key)" using rD(1) by (simp add: in_shard_def)
  have p: "p < 2 ^ 51" using rD(8) kv_rows(2) [OF kv] by simp
  have rm: "has_room (Suc n) (log_end ?u) (u_sn_end ?u)" using room le by simp
  have "\<exists>w ix. upd_append ?e ?d ?u = Inr (of_nat (log_end ?u), ?u\<lparr>u_writer := w\<rparr>)
    \<and> upd_change_kv (H key) (of_nat p) (of_nat (log_end ?u)) (?u\<lparr>u_writer := w\<rparr>) = Inr (?u\<lparr>u_writer := w, u_indexer := ix\<rparr>)
    \<and> kv_inv store_ok stored log_end H (?u\<lparr>u_writer := w, u_indexer := ix, u_sn_end := u_sn_end ?u + 1\<rparr>) (D(H key \<mapsto> (log_end ?u, ?e, ?d)))
    \<and> has_room n (log_end (?u\<lparr>u_writer := w\<rparr>)) (u_sn_end ?u + 1)"
    by (rule replace_row [where D = D, OF kv' D(1) k9 refl]) (use sm D(3) fits rm in \<open>simp_all add: kv_fits_def\<close>)
  then obtain w ix where w: "upd_append ?e ?d ?u = Inr (of_nat (log_end ?u), ?u\<lparr>u_writer := w\<rparr>)"
    "upd_change_kv (H key) (of_nat p) (of_nat (log_end ?u)) (?u\<lparr>u_writer := w\<rparr>) = Inr (?u\<lparr>u_writer := w, u_indexer := ix\<rparr>)"
    "kv_inv store_ok stored log_end H (?u\<lparr>u_writer := w, u_indexer := ix, u_sn_end := u_sn_end ?u + 1\<rparr>) (D(H key \<mapsto> (log_end ?u, ?e, ?d)))"
    "has_room n (log_end (?u\<lparr>u_writer := w\<rparr>)) (u_sn_end ?u + 1)"
    by blast
  let ?u' = "?u\<lparr>u_writer := w, u_indexer := ix, u_sn_end := u_sn_end ?u + 1\<rparr>"
  have "upd_write_kv H (H key) key val u = compact_after 1 H ?u'"
    using write_scan [where D = D, OF kv D(1,2) key] w(1,2) pos_i64(2) [OF p] row_reads [OF small_ok(1) [OF rD(3,4)]]
    unfolding compact_after_simps by (simp add: upd_write_kv_def Let_def cong: if_cong)
  moreover have "live_kv (D(H key \<mapsto> (log_end ?u, ?e, ?d))) = (live_kv D)(H key \<mapsto> (key, val))"
    unfolding live_kv_replace using fits by (simp add: kv_fits_def)
  moreover have "has_room n (log_end ?u') (u_sn_end ?u')"
    using w(4) frame_law [of ?u' "?u\<lparr>u_writer := w\<rparr>"] by (simp add: store_part_def)
  moreover have "written D (log_end u) (u_sn_end u) (u_curr_version u) (H key) key val = D(H key \<mapsto> (log_end ?u, ?e, ?d))"
    using row_at [of D, OF D(1)] le by (simp add: written_def)
  ultimately show ?thesis using w(3)
    by (intro exI [of _ w], intro exI [of _ ix], intro exI [of _ "entry_layout e d"], intro exI [of _ ?u']) simp
qed

end


section \<open>Creating\<close>

definition unit_roomy :: "updater \<Rightarrow> hash32 \<Rightarrow> bool" where
  "unit_roomy u k \<longleftrightarrow> (\<exists>ps. unit_fits (ix_units (u_indexer u) ! unit_of k) ps)"

text \<open>A unit stands for one list of pairs only: its scans determine the list.\<close>

lemma values_of_determine:
  assumes "sorted (map fst ps)" "sorted (map fst qs)" "\<And>k. values_of k ps = values_of k qs"
  shows "ps = qs"
  using assms
proof (induction ps arbitrary: qs)
  case Nil
  show ?case
  proof (cases qs)
    case (Cons q qs')
    then show ?thesis using Nil.prems(3) [of "fst q"] by (simp add: values_of_def)
  qed simp
next
  case (Cons p ps)
  obtain q qs' where qs: "qs = q # qs'"
    using Cons.prems(3) [of "fst p"] by (cases qs) (simp_all add: values_of_def)
  have le: "fst a \<le> fst b" if "sorted (map fst (a # as))" "values_of (fst b) (a # as) \<noteq> []" for a b :: "u64 \<times> i64" and as
    using that by (cases "fst a = fst b") (auto simp: values_of_def filter_empty_conv)
  have "fst p \<le> fst q" by (rule le [OF Cons.prems(1)]) (use Cons.prems(3) [of "fst q"] qs in \<open>simp add: values_of_def\<close>)
  moreover have "fst q \<le> fst p"
  proof (rule le [of q qs'])
    show "sorted (map fst (q # qs'))" using Cons.prems(2) qs by simp
    have "values_of (fst p) (p # ps) \<noteq> []" by (simp add: values_of_def)
    then show "values_of (fst p) (q # qs') \<noteq> []" using Cons.prems(3) qs by metis
  qed
  ultimately have f: "fst p = fst q" by simp
  then have "p = q" using Cons.prems(3) [of "fst p"] qs by (simp add: values_of_def prod_eq_iff)
  moreover have "values_of k ps = values_of k qs'" for k using Cons.prems(3) [of k] qs f by (auto simp: values_of_def split: if_splits)
  then have "ps = qs'" using Cons.prems(1,2) qs by (intro Cons.IH) simp_all
  ultimately show ?case using qs by simp
qed

lemma unit_pairs_determined:
  assumes "unit_pairs u ps" "unit_pairs u qs"
  shows "ps = qs"
proof (rule values_of_determine)
  show "sorted (map fst ps)" "sorted (map fst qs)" using assms unit_pairs_sorted by blast+
  fix k
  have v: "visit (\<lambda>v s. (s @ [v], False)) L s = s @ L" for L s :: "i64 list" by (induction L arbitrary: s) simp_all
  show "values_of k ps = values_of k qs"
    using iu.each_law [OF assms(1), of k "\<lambda>v s. (s @ [v], False)" "[]"] iu.each_law [OF assms(2), of k "\<lambda>v s. (s @ [v], False)" "[]"]
    by (simp add: v)
qed

lemma roomy_fits:
  "unit_roomy u k \<Longrightarrow> \<forall>ps. unit_pairs (ix_units (u_indexer u) ! unit_of k) ps \<longrightarrow> unit_fits (ix_units (u_indexer u) ! unit_of k) ps"
  using unit_pairs_determined iu.fit_rep by (metis unit_roomy_def)

lemma sentry_below:
  assumes sen: "sentries_ok s D" and k: "in_shard s k" "k \<notin> sentries s"
  shows "sentry_hash (unit_of k) \<in> dom D" "sentry_hash (unit_of k) < k" "unit_of (sentry_hash (unit_of k)) = unit_of k"
proof -
  have u: "unit_of k < 2 ^ 16" by (rule unit_of_less)
  then have s: "sentry_hash (unit_of k) \<in> sentries s" using k(1) by (auto simp: sentries_def in_shard_def)
  then show "sentry_hash (unit_of k) \<in> dom D" using sen by (auto simp: sentries_ok_def)
  have "sentry_hash (unit_of k) \<le> k" using sentry_hash_least k(1) by (simp add: in_shard_def)
  moreover have "sentry_hash (unit_of k) \<noteq> k" using s k(2) by auto
  ultimately show "sentry_hash (unit_of k) < k" by simp
  show "unit_of (sentry_hash (unit_of k)) = unit_of k" by (rule sentry_hash_unit) (rule u)
qed

lemma chain_insert:
  assumes ch: "chain_ok s D" and fin: "finite (dom D)" "y \<in> dom D" "y < k" and k: "k \<notin> dom D" "k < shard_top s"
    and e: "e_next_key_hash e1 = e_next_key_hash (ent_of D (prv (dom D) k))" "e_next_key_hash e2 = k"
  shows "chain_ok s (D(k \<mapsto> (p1, e1, d1), prv (dom D) k \<mapsto> (p2, e2, d2)))"
proof -
  let ?p = "prv (dom D) k" and ?D = "D(k \<mapsto> (p1, e1, d1), prv (dom D) k \<mapsto> (p2, e2, d2))"
  note p = prv_props [OF fin] and n = nxt_insert [OF fin k]
  have dm: "dom ?D = insert k (dom D)" using p(1) by auto
  have "e_next_key_hash (ent_of ?D x) = nxt (shard_top s) (insert k (dom D)) x" if "x \<in> insert k (dom D)" for x
  proof (cases "x = ?p")
    case True
    then show ?thesis using n(1) e(2) by simp
  next
    case False
    then show ?thesis using that n(2) n(3) [of x] e(1) ch p(1) by (cases "x = k") (auto simp: chain_ok_def)
  qed
  then show ?thesis unfolding chain_ok_def dm by blast
qed

lemma sentries_insert:
  assumes "sentries_ok s D" "k \<notin> dom D" "e_value e \<noteq> []"
  shows "sentries_ok s (D(k \<mapsto> (p, e, d)))"
  using assms by (auto simp: sentries_ok_def)

lemma dom_ent: "k \<in> dom D \<Longrightarrow> D k = Some (pos_of D k, ent_of D k, snd (snd (the (D k))))"
  by (auto simp: pos_of_def ent_of_def)

context entry_store
begin

lemma create_scan:
  assumes kv: "kv_inv store_ok stored log_end H u D" and k: "in_shard (u_shard_id u) kh" and alone: "same9 D kh = {}"
    and p: "D (prv (dom D) kh) = Some (p, e, d)"
  shows "idx_for_each_adjacent_value unit_for_each_adjacent_value (u_indexer u) kh
       (\<lambda>k_buf. closure (cr_body H kh k_buf) found) (Inr (- 1, replicate 10 0, u))
    = Inr (Inr (of_nat p, take 9 (prv (dom D) kh) @ [0], u\<lparr>u_read_buf := entry_layout e d\<rparr>))"
proof -
  let ?s = "u_shard_id u" and ?pk = "prv (dom D) kh"
  let ?f = "\<lambda>k_buf. closure (cr_body H kh k_buf) found" and ?S = "\<lambda>b. Inr (- 1, replicate 10 0, u\<lparr>u_read_buf := b\<rparr>)"
  note r = kv_rows(1) [OF kv] and pos = rows_pos_ok [OF kv_rows(1) [OF kv] kv_rows(2) [OF kv]]
  have t: "tab_inv store_ok stored log_end H (u_sn_end u) u D" and ix: "idx_ok (u_indexer u) ?s D" and sen: "sentries_ok ?s D"
    and ch: "chain_ok ?s D" using kv by (simp_all add: kv_inv_def)
  have nd: "kh \<notin> dom D" using alone by (auto simp: same9_def)
  then have "kh \<notin> sentries ?s" using sen by (auto simp: sentries_ok_def)
  note y = sentry_below [OF sen k this]
  note fin = kv_rows(3) [OF kv]
  have l: "length kh = 32" "unit_of kh div SHARD_DIV = ?s" "kh < shard_top ?s" using k by (simp_all add: in_shard_def)
  have pd: "?pk \<in> dom D" by (rule prv_props(1) [OF fin y(1,2)])
  then have ne: "take 9 ?pk \<noteq> take 9 kh" using alone by (auto simp: same9_def)
  obtain L where L: "set L = spots D (same9 D ?pk)" "idx_for_each_adjacent_value unit_for_each_adjacent_value (u_indexer u) kh ?f (?S (u_read_buf u))
      = Inr (visit (?f (take 9 ?pk @ [0])) L (?S (u_read_buf u)))"
    using idx_ok_each_adjacent [OF ix pos l(1,2) fin y, of ?f "?S (u_read_buf u)"] alone ne by (auto simp: spots_def)
  have l9: "length (take 9 ?pk @ [0 :: byte]) = 10" using pos pd by (simp add: pos_ok_def)
  have step: "cr_body H kh (take 9 ?pk @ [0]) (of_nat (pos_of D x)) (- 1, replicate 10 0, u\<lparr>u_read_buf := b\<rparr>)
      = (let u = u\<lparr>u_read_buf := entry_layout (ent_of D x) (snd (snd (the (D x))))\<rparr> in
         Inr (if x = ?pk then (of_nat (pos_of D x), take 9 ?pk @ [0], u) else (- 1, replicate 10 0, u)))" if x: "x \<in> dom D" for x b
  proof -
    note rx = rows_okD [where D = D, OF r dom_ent [OF x]]
    have "x < kh \<and> kh < e_next_key_hash (ent_of D x) \<longleftrightarrow> x = ?pk"
      using prv_iff_between [OF fin y(1,2) nd l(3) x] ch x by (simp add: chain_ok_def)
    then show ?thesis
      using read_row [where D = D, OF t dom_ent [OF x], of "u\<lparr>u_read_buf := b\<rparr>"] row_reads(3) [OF small_ok(1) [OF rx(3,4)]]
        read_key_hash_row [OF rx(3,4), of H] rx(2) l9
      by (auto simp: cr_body_def Let_def)
  qed
  have pp: "pos_of D ?pk = p" "ent_of D ?pk = e" "snd (snd (the (D ?pk))) = d" using p by (simp_all add: pos_of_def ent_of_def)
  have p51: "p < 2 ^ 51" using pos pd pp(1) by (auto simp: pos_ok_def)
  have "visit (?f (take 9 ?pk @ [0])) L (?S (u_read_buf u)) = Inr (of_nat p, take 9 ?pk @ [0], u\<lparr>u_read_buf := entry_layout e d\<rparr>)"
  proof (rule visit_first [where S = ?S and z = "of_nat p"])
    show "of_nat p \<in> set L" unfolding L(1) using pd pp(1) by (auto simp: spots_def same9_def)
    show "?f (take 9 ?pk @ [0]) (of_nat p) (?S b) = (Inr (of_nat p, take 9 ?pk @ [0], u\<lparr>u_read_buf := entry_layout e d\<rparr>), True)" for b
      using step [OF pd, of b] pp pos_i64(2) [OF p51] by (simp add: closure_def found_def)
    show "\<exists>b'. ?f (take 9 ?pk @ [0]) v (?S b) = (?S b', False)" if v: "v \<in> set L" "v \<noteq> of_nat p" for v b
    proof -
      obtain x where x: "x \<in> dom D" "v = of_nat (pos_of D x)" using v(1) unfolding L(1) by (auto simp: spots_def same9_def)
      then have "x \<noteq> ?pk" using v(2) pp(1) by auto
      then show ?thesis using step [OF x(1), of b] x(2) by (simp add: closure_def) blast
    qed
  qed
  then show ?thesis using L(2) by simp
qed

end


context entry_store
begin

text \<open>The two appended entries and the two changes of the index.\<close>

lemma create_rows:
  assumes kv: "kv_inv store_ok stored log_end H u D" and k: "in_shard (u_shard_id u) kh" "kh \<notin> dom D"
    and pk: "D pk = Some (p, e0, d0)" and roomy: "unit_roomy u kh" and room: "has_room (Suc (Suc n)) (log_end u) (u_sn_end u)"
    and e1: "key_hash_of H e1 = kh" "small e1" "e_serial_number e1 = u_sn_end u" "length d1 \<le> 2"
    and e2: "key_hash_of H e2 = pk" "small e2" "e_serial_number e2 = u_sn_end u + 1" "length d2 \<le> 2"
  shows "\<exists>w1 w2 ix1 ix2. let q = log_end u + length (entry_layout e1 d1); D1 = D(kh \<mapsto> (log_end u, e1, d1)); D2 = D1(pk \<mapsto> (q, e2, d2)) in
      upd_append e1 d1 u = Inr (of_nat (log_end u), u\<lparr>u_writer := w1\<rparr>)
    \<and> upd_append e2 d2 (u\<lparr>u_writer := w1\<rparr>) = Inr (of_nat q, u\<lparr>u_writer := w2\<rparr>)
    \<and> upd_add_kv kh (of_nat (log_end u)) (u\<lparr>u_writer := w2\<rparr>) = Inr (u\<lparr>u_writer := w2, u_indexer := ix1\<rparr>)
    \<and> upd_change_kv (take 9 pk @ [0]) (of_nat p) (of_nat q) (u\<lparr>u_writer := w2, u_indexer := ix1\<rparr>)
        = Inr (u\<lparr>u_writer := w2, u_indexer := ix2\<rparr>)
    \<and> tab_inv store_ok stored log_end H (u_sn_end u + 2) (u\<lparr>u_writer := w2\<rparr>) D2 \<and> idx_ok ix2 (u_shard_id u) D2
    \<and> has_room n (log_end (u\<lparr>u_writer := w2\<rparr>)) (u_sn_end u + 2)"
proof -
  let ?s = "u_shard_id u" and ?D1 = "D(kh \<mapsto> (log_end u, e1, d1))"
  note r = kv_rows(1) [OF kv] and pos = rows_pos_ok [OF kv_rows(1) [OF kv] kv_rows(2) [OF kv]]
  note rp = rows_okD [where D = D, OF r pk]
  have t: "tab_inv store_ok stored log_end H (u_sn_end u) u D" and ix: "idx_ok (u_indexer u) ?s D" using kv by (simp_all add: kv_inv_def)
  note rm = room_step(2,3) [OF room] and room1 = room_step(4) [OF room]
  have "has_room (Suc n) (log_end u) (u_sn_end u + 1)" by (rule room1) simp
  then have sn: "unat (u_sn_end u + 1) = unat (u_sn_end u) + 1" "unat (u_sn_end u + 2) = unat (u_sn_end u) + 2"
    using room_step(1) [OF room] room_step(1) [of n "log_end u" "u_sn_end u + 1"] by (simp_all add: add.assoc)
  have sn1: "unat (u_sn_end u) \<le> unat (e_serial_number e1)" "unat (e_serial_number e1) < unat (u_sn_end u + 1)"
    and sn2: "unat (u_sn_end u + 1) \<le> unat (e_serial_number e2)" "unat (e_serial_number e2) < unat (u_sn_end u + 2)"
    using sn e1(3) e2(3) by simp_all
  obtain w1 where w1: "upd_append e1 d1 u = Inr (of_nat (log_end u), u\<lparr>u_writer := w1\<rparr>)"
      "tab_inv store_ok stored log_end H (u_sn_end u + 1) (u\<lparr>u_writer := w1\<rparr>) ?D1"
      "log_end u < log_end (u\<lparr>u_writer := w1\<rparr>)" "log_end (u\<lparr>u_writer := w1\<rparr>) \<le> log_end u + BIG_BUF_SIZE"
      "log_end (u\<lparr>u_writer := w1\<rparr>) = log_end u + length (entry_layout e1 d1)"
    using tab_append [OF t k(1) e1(1,2,4) sn1 rm(1)] by blast
  let ?u1 = "u\<lparr>u_writer := w1\<rparr>"
  let ?q = "log_end ?u1"
  let ?D2 = "?D1(pk \<mapsto> (?q, e2, d2))"
  note rm1 = room_step(2,3) [OF room1 [OF w1(4)]] and room2 = room_step(4) [OF room1 [OF w1(4)]]
  have sp: "in_shard (u_shard_id ?u1) pk" using rp(1) by simp
  obtain w2 where "upd_append e2 d2 ?u1 = Inr (of_nat ?q, ?u1\<lparr>u_writer := w2\<rparr>)"
      "tab_inv store_ok stored log_end H (u_sn_end u + 2) (?u1\<lparr>u_writer := w2\<rparr>) ?D2"
      "log_end (?u1\<lparr>u_writer := w2\<rparr>) \<le> ?q + BIG_BUF_SIZE"
    using tab_append [OF w1(2) sp e2(1,2,4) sn2 rm1(1)] by blast
  then have w2: "upd_append e2 d2 ?u1 = Inr (of_nat ?q, u\<lparr>u_writer := w2\<rparr>)"
      "tab_inv store_ok stored log_end H (u_sn_end u + 2) (u\<lparr>u_writer := w2\<rparr>) ?D2"
      "has_room n (log_end (u\<lparr>u_writer := w2\<rparr>)) (u_sn_end u + 2)" using room2 by (simp_all add: add.assoc)
  have r1: "rows_ok H ?s ?q (u_sn_end u + 1) ?D1" "?q \<le> 2 ^ 51" and al: "?q mod 8 = 0" "log_end u mod 8 = 0"
    using w1(2) t end_law by (simp_all add: tab_inv_def)
  have fr: "\<forall>x\<in>dom D. pos_of D x \<noteq> log_end u" "\<forall>x\<in>dom ?D1. pos_of ?D1 x \<noteq> ?q"
    by (intro ballI, drule rows_below [OF r] rows_below [OF r1(1)], rule less_imp_neq, assumption)+
  have l: "9 \<le> length kh" "unit_of kh div SHARD_DIV = ?s" "unit_of pk div SHARD_DIV = ?s" "9 \<le> length (take 9 pk @ [0])"
    "take 9 (take 9 pk @ [0]) = take 9 pk"
    using k(1) rp(1) by (simp_all add: in_shard_def)
  obtain ix1 where ix1: "idx_add_kv unit_add_kv (u_indexer u) kh (of_nat (log_end u)) = Inr ix1" "idx_ok ix1 ?s ?D1"
    using idx_ok_add [OF ix pos k(2) l(2,1) rm(2) al(2) fr(1) kv_rows(3) [OF kv] roomy_fits [OF roomy], of e1 d1] by blast
  have pkD: "pk \<in> dom ?D1" "pos_of ?D1 pk = p" using pk k(2) by (auto simp: pos_of_def)
  obtain ix2 where ix2: "idx_change_kv unit_change_kv ix1 (take 9 pk @ [0]) (of_nat p) (of_nat ?q) = Inr ix2" "idx_ok ix2 ?s ?D2"
    using idx_ok_change [OF ix1(2) rows_pos_ok [OF r1] pkD(1) l(3) rm1(2) al(1) fr(2) l(4,5)] unfolding pkD(2) by blast
  show ?thesis
    using w1(1) w2 ix1(1) ix2 unfolding Let_def w1(5) [symmetric]
    by (intro exI [of _ w1] exI [of _ w2] exI [of _ ix1] exI [of _ ix2]) (simp add: upd_add_kv_def upd_change_kv_def)
qed

lemma create_ok:
  assumes kv: "kv_inv store_ok stored log_end H u D" and k: "in_shard (u_shard_id u) (H key)" and alone: "same9 D (H key) = {}"
    and fits: "kv_fits key val" and room: "has_room (Suc (Suc n)) (log_end u) (u_sn_end u)" and roomy: "unit_roomy u (H key)"
  shows "\<exists>w ix b u'. u' = u\<lparr>u_read_buf := b, u_writer := w, u_indexer := ix, u_sn_end := u_sn_end u + 2\<rparr>
    \<and> upd_create_kv H (H key) key val u = compact_after 2 H u'
    \<and> kv_inv store_ok stored log_end H u' (created D (log_end u) (u_sn_end u) (u_curr_version u) (H key) key val)
    \<and> live_kv (created D (log_end u) (u_sn_end u) (u_curr_version u) (H key) key val) = (live_kv D)(H key \<mapsto> (key, val))
    \<and> has_room n (log_end u') (u_sn_end u')"
proof -
  let ?s = "u_shard_id u" and ?kh = "H key"
  let ?pk = "prv (dom D) ?kh"
  have sen: "sentries_ok ?s D" and ch: "chain_ok ?s D" using kv by (simp_all add: kv_inv_def)
  have nd: "?kh \<notin> dom D" using alone by (auto simp: same9_def)
  then have "?kh \<notin> sentries ?s" using sen by (auto simp: sentries_ok_def)
  note y = sentry_below [OF sen k this]
  note fin = kv_rows(3) [OF kv]
  have "?pk \<in> dom D" by (rule prv_props(1) [OF fin y(1,2)])
  then obtain p e d where p: "D ?pk = Some (p, e, d)" by auto
  note rp = rows_okD [where D = D, OF kv_rows(1) [OF kv] p]
  let ?u = "u\<lparr>u_read_buf := entry_layout e d\<rparr>"
  let ?e1 = "\<lparr>e_key = key, e_value = val, e_next_key_hash = e_next_key_hash e, e_version = u_curr_version u, e_serial_number = u_sn_end u\<rparr>"
  let ?e2 = "\<lparr>e_key = e_key e, e_value = e_value e, e_next_key_hash = ?kh, e_version = u_curr_version u, e_serial_number = u_sn_end u + 1\<rparr>"
  have kv': "kv_inv store_ok stored log_end H ?u D" using kv kv_frame [of ?u u] by simp
  have le: "log_end ?u = log_end u" using frame_law [of ?u u] by simp
  have hyps: "in_shard (u_shard_id ?u) ?kh" "unit_roomy ?u ?kh" "has_room (Suc (Suc n)) (log_end ?u) (u_sn_end ?u)"
    using k roomy room le by (simp_all add: unit_roomy_def)
  have e1: "key_hash_of H ?e1 = ?kh" "small ?e1" "e_serial_number ?e1 = u_sn_end ?u"
    using fits rp(3) by (simp_all add: small_def kv_fits_def key_hash_of_def)
  have "key_hash_of H ?e2 = key_hash_of H e" by (simp add: key_hash_of_def)
  then have e2: "key_hash_of H ?e2 = ?pk" "small ?e2" "e_serial_number ?e2 = u_sn_end ?u + 1"
    using rp(2,3) k by (simp_all add: small_def in_shard_def)
  let ?q = "log_end ?u + length (entry_layout ?e1 [])"
  obtain w1 w2 ix1 ix2 where w: "upd_append ?e1 [] ?u = Inr (of_nat (log_end ?u), ?u\<lparr>u_writer := w1\<rparr>)"
      "upd_append ?e2 [e_serial_number e] (?u\<lparr>u_writer := w1\<rparr>) = Inr (of_nat ?q, ?u\<lparr>u_writer := w2\<rparr>)"
      "upd_add_kv ?kh (of_nat (log_end ?u)) (?u\<lparr>u_writer := w2\<rparr>) = Inr (?u\<lparr>u_writer := w2, u_indexer := ix1\<rparr>)"
      "upd_change_kv (take 9 ?pk @ [0]) (of_nat p) (of_nat ?q) (?u\<lparr>u_writer := w2, u_indexer := ix1\<rparr>)
        = Inr (?u\<lparr>u_writer := w2, u_indexer := ix2\<rparr>)"
      "tab_inv store_ok stored log_end H (u_sn_end ?u + 2) (?u\<lparr>u_writer := w2\<rparr>)
         (D(?kh \<mapsto> (log_end ?u, ?e1, []), ?pk \<mapsto> (?q, ?e2, [e_serial_number e])))"
      "idx_ok ix2 (u_shard_id ?u) (D(?kh \<mapsto> (log_end ?u, ?e1, []), ?pk \<mapsto> (?q, ?e2, [e_serial_number e])))"
      "has_room n (log_end (?u\<lparr>u_writer := w2\<rparr>)) (u_sn_end ?u + 2)"
    using create_rows [where D = D and ?e1.0 = ?e1 and ?e2.0 = ?e2 and ?d1.0 = "[]" and ?d2.0 = "[e_serial_number e]",
        OF kv' hyps(1) nd p hyps(2,3) e1 _ e2] unfolding Let_def by auto
  let ?D = "D(?kh \<mapsto> (log_end ?u, ?e1, []), ?pk \<mapsto> (?q, ?e2, [e_serial_number e]))"
  let ?u' = "?u\<lparr>u_writer := w2, u_indexer := ix2, u_sn_end := u_sn_end u + 2\<rparr>"
  have pne: "?pk \<noteq> ?kh" using \<open>?pk \<in> dom D\<close> nd by auto
  have ent: "ent_of D ?pk = e" using row_at [of D, OF p] by simp
  have "sentries_ok ?s (D(?kh \<mapsto> (log_end ?u, ?e1, [])))" by (rule sentries_insert [OF sen nd]) (use fits in \<open>simp add: kv_fits_def\<close>)
  then have "sentries_ok ?s ?D" by (rule sentries_replace) (use pne ent p in \<open>auto\<close>)
  moreover have "chain_ok ?s ?D"
    by (rule chain_insert [OF ch fin y(1,2) nd]) (use k ent in \<open>simp_all add: in_shard_def\<close>)
  moreover have "tab_inv store_ok stored log_end H (u_sn_end u + 2) ?u' ?D"
    using w(5) tab_frame [of ?u' "?u\<lparr>u_writer := w2\<rparr>"] by (simp add: store_part_def)
  ultimately have "kv_inv store_ok stored log_end H ?u' ?D" using w(6) by (simp add: kv_inv_def)
  moreover have "live_kv ?D = (live_kv D)(?kh \<mapsto> (key, val))"
    unfolding live_kv_replace using pne p fits by (auto simp: live_kv_def kv_fits_def fun_eq_iff)
  moreover have "upd_create_kv H ?kh key val u = compact_after 2 H ?u'"
    using create_scan [where D = D, OF kv k alone p] w(1-4) pos_i64(2) [of p] rp(8) kv_rows(2) [OF kv]
      row_reads [OF small_ok(1) [OF rp(3,4)]]
    unfolding compact_after_simps by (simp add: upd_create_kv_def Let_def cong: if_cong)
  moreover have "has_room n (log_end ?u') (u_sn_end ?u')"
    using w(7) frame_law [of ?u' "?u\<lparr>u_writer := w2\<rparr>"] by (simp add: store_part_def)
  moreover have "created D (log_end u) (u_sn_end u) (u_curr_version u) ?kh key val = ?D"
    using ent le by (simp add: created_def Let_def)
  ultimately show ?thesis
    by (intro exI [of _ w2], intro exI [of _ ix2], intro exI [of _ "entry_layout e d"], intro exI [of _ ?u']) simp
qed

end


end
