(* ===== verification/Shard.thy ===== *)
theory Shard
  imports Database
begin

text \<open>
  The remaining operations on a shard, deleting and compacting, and the properties of the whole: each
  operation of the updater refines an operation on a map from keys to values.
\<close>

section \<open>Deleting\<close>

text \<open>The state of the scan: \<open>sd\<close> tells whether the entry was found, \<open>sp\<close> under which key the one before it.\<close>

definition del_st :: "updater \<Rightarrow> nat \<times> entry \<times> u64 list \<Rightarrow> nat \<times> entry \<times> u64 list \<Rightarrow> bool \<Rightarrow> bytes option \<Rightarrow> bytes \<Rightarrow> del_state" where
  "del_st u = (\<lambda>(p, e, d) (pp, pe, pd) sd sp b. \<lparr> ds_del_pos = if sd then of_nat p else - 1,
     ds_del_sn = if sd then e_serial_number e else 0, ds_old_next = if sd then e_next_key_hash e else replicate 32 0,
     ds_prev_k80 = case_option (replicate 10 0) id sp, ds_old_pos = if sp = None then - 1 else of_nat pp,
     ds_upd = u\<lparr>u_read_buf := b, u_prev_buf := if sp = None then u_prev_buf u else entry_layout pe pd\<rparr> \<rparr>)"

lemma del_body_eq:
  assumes "upd_read_entry (u_shard_id (ds_upd ds)) fp (ds_upd ds) = Inr u"
    and "ebz_key (u_read_buf u) = Inr k" "ebz_next_key_hash (u_read_buf u) = Inr n" "ebz_serial_number (u_read_buf u) = Inr sn" "length K = 10"
  shows "del_body kh key K fp ds = Inr (if sint (ds_del_pos ds) < 0 \<and> k = key
      then ds\<lparr>ds_upd := u\<rparr>\<lparr>ds_del_pos := fp, ds_del_sn := sn, ds_old_next := n\<rparr>
      else if sint (ds_old_pos ds) < 0 \<and> n = kh
      then ds\<lparr>ds_upd := u\<rparr>\<lparr>ds_prev_k80 := K, ds_old_pos := fp, ds_upd := u\<lparr>u_prev_buf := u_read_buf u\<rparr>\<rparr>
      else ds\<lparr>ds_upd := u\<rparr>)"
  using assms by (auto simp: del_body_def Let_def)

lemma spot_inj: "pos_ok D \<Longrightarrow> x \<in> dom D \<Longrightarrow> y \<in> dom D \<Longrightarrow> (of_nat (pos_of D x) :: i64) = of_nat (pos_of D y) \<longleftrightarrow> x = y"
proof -
  assume ok: "pos_ok D" and x: "x \<in> dom D" and y: "y \<in> dom D"
  then have "pos_of D x < 2 ^ 51" "pos_of D y < 2 ^ 51" by (auto simp: pos_ok_def)
  then have "(of_nat (pos_of D x) :: i64) = of_nat (pos_of D y) \<longleftrightarrow> pos_of D x = pos_of D y" using pos_i64(1) by metis
  then show ?thesis using ok x y by (auto simp: pos_ok_def inj_on_def)
qed

context entry_store
begin

lemma delete_step:
  assumes kv: "kv_inv store_ok stored log_end H u D" and D: "D (H key) = Some (p, e, d)" "e_key e = key" and key: "\<forall>i. key \<noteq> sentry_hash i"
    and P: "D (prv (dom D) (H key)) = Some (pp, pe, pd)" and K: "length K = 10" and x: "x \<in> dom D"
    and y: "y \<in> dom D" "y < H key"
  shows "closure (del_body (H key) key K) del_found (of_nat (pos_of D x)) (Inr (del_st u (p, e, d) (pp, pe, pd) sd sp b))
    = (let sd' = (sd \<or> x = H key); sp' = (if sp = None \<and> x = prv (dom D) (H key) then Some K else sp) in
       (Inr (del_st u (p, e, d) (pp, pe, pd) sd' sp' (entry_layout (ent_of D x) (snd (snd (the (D x)))))), sd' \<and> sp' \<noteq> None))"
proof -
  let ?kh = "H key" and ?pk = "prv (dom D) (H key)" and ?s = "u_shard_id u"
  note r = kv_rows(1) [OF kv] and fin = kv_rows(3) [OF kv]
  note rx = rows_okD [where D = D, OF r dom_ent [OF x]] and rk = rows_okD [where D = D, OF r D(1)] and rp = rows_okD [where D = D, OF r P]
  have t: "tab_inv store_ok stored log_end H (u_sn_end u) u D" and sen: "sentries_ok ?s D" and ch: "chain_ok ?s D"
    using kv by (simp_all add: kv_inv_def)
  have kd: "?kh \<in> dom D" "?kh < shard_top ?s" using D(1) rk(1) by (auto simp: in_shard_def)
  have isdel: "e_key (ent_of D x) = key \<longleftrightarrow> x = ?kh"
    using live_key_unique [where D = D, OF r sen dom_ent [OF x] _ key] row_at [of D, OF D(1)] D(2) by auto
  have isprev: "e_next_key_hash (ent_of D x) = ?kh \<longleftrightarrow> x = ?pk"
    using prv_iff_nxt [OF fin y kd x] ch x by (simp add: chain_ok_def)
  have ne: "?pk \<noteq> ?kh" using prv_props(2) [OF fin y] by auto
  have p51: "0 \<le> sint (of_nat p :: i64)" "0 \<le> sint (of_nat pp :: i64)"
    using rk(8) rp(8) kv_rows(2) [OF kv] by (auto intro!: pos_i64(2))
  have rd: "upd_read_entry (u_shard_id u') (of_nat (pos_of D x)) u'
      = Inr (u'\<lparr>u_read_buf := entry_layout (ent_of D x) (snd (snd (the (D x))))\<rparr>)" if "store_part u' = store_part u" for u'
    using read_row [where D = D, OF t dom_ent [OF x] that] .
  note rr = row_reads [OF small_ok(1) [OF rx(3,4)]]
  have atk: "x = ?kh \<Longrightarrow> pos_of D x = p \<and> ent_of D x = e" and atp: "x = ?pk \<Longrightarrow> pos_of D x = pp \<and> ent_of D x = pe \<and> snd (snd (the (D x))) = pd"
    using row_at [of D, OF D(1)] row_at [of D, OF P] P by simp_all
  let ?S = "del_st u (p, e, d) (pp, pe, pd)" and ?L = "entry_layout (ent_of D x) (snd (snd (the (D x))))"
  have sp0: "0 \<le> sint (ds_old_pos (?S sd sp b)) \<longleftrightarrow> sp \<noteq> None" "sint (ds_old_pos (?S sd sp b)) < 0 \<longleftrightarrow> sp = None"
    and sd0: "0 \<le> sint (ds_del_pos (?S sd sp b)) \<longleftrightarrow> sd" "sint (ds_del_pos (?S sd sp b)) < 0 \<longleftrightarrow> \<not> sd"
    and up: "store_part (ds_upd (?S sd sp b)) = store_part u" for sd sp b
    using p51 by (auto simp: del_st_def)
  have raw: "del_body ?kh key K (of_nat (pos_of D x)) (?S sd sp b) = Inr (let u1 = (ds_upd (?S sd sp b))\<lparr>u_read_buf := ?L\<rparr> in
      if \<not> sd \<and> x = ?kh
      then (?S sd sp b)\<lparr>ds_upd := u1\<rparr>\<lparr>ds_del_pos := of_nat (pos_of D x), ds_del_sn := e_serial_number (ent_of D x), ds_old_next := e_next_key_hash (ent_of D x)\<rparr>
      else if sp = None \<and> x = ?pk
      then (?S sd sp b)\<lparr>ds_upd := u1\<rparr>\<lparr>ds_prev_k80 := K, ds_old_pos := of_nat (pos_of D x), ds_upd := u1\<lparr>u_prev_buf := ?L\<rparr>\<rparr>
      else (?S sd sp b)\<lparr>ds_upd := u1\<rparr>)"
    using del_body_eq [OF rd [OF up [of sd sp b]], of "e_key (ent_of D x)" "e_next_key_hash (ent_of D x)" "e_serial_number (ent_of D x)" K ?kh key]
      rr(1,3,5) K unfolding isdel isprev sd0 sp0 Let_def by simp
  have body: "del_body ?kh key K (of_nat (pos_of D x)) (?S sd sp b) = Inr (?S (sd \<or> x = ?kh) (if sp = None \<and> x = ?pk then Some K else sp) ?L)"
  proof (cases "\<not> sd \<and> x = ?kh")
    case True
    then show ?thesis using raw ne atk by (simp add: Let_def del_st_def)
  next
    case nk: False
    then have e: "sd \<or> x = ?kh \<longleftrightarrow> sd" by auto
    show ?thesis
    proof (cases "sp = None \<and> x = ?pk")
      case True
      then show ?thesis unfolding raw e using ne atp by (simp add: Let_def del_st_def)
    next
      case False
      show ?thesis unfolding raw e Let_def if_not_P [OF False] if_not_P [OF nk] by (simp add: del_st_def)
    qed
  qed
  show ?thesis unfolding closure_def sum.case body del_found_def sd0 sp0 Let_def by (rule refl)
qed

end

lemma visit_collect:
  assumes step: "\<And>x sd sp b. x \<in> A \<Longrightarrow> f (g x) (S sd sp b)
      = (let sd' = (sd \<or> x = k); sp' = (if sp = None \<and> x = pk then Some K else sp) in (S sd' sp' (h x), sd' \<and> sp' \<noteq> None))"
    and inj: "inj_on g A" and k: "k \<in> A" "pk \<in> A" and L: "set L \<subseteq> g ` A"
  shows "\<exists>b'. visit f L (S sd sp b) = S (sd \<or> g k \<in> set L) (if sp = None \<and> g pk \<in> set L then Some K else sp) b'"
  using L
proof (induction L arbitrary: sd sp b)
  case (Cons v L)
  then obtain x where x: "x \<in> A" "v = g x" by auto
  let ?sd = "sd \<or> x = k" and ?sp = "if sp = None \<and> x = pk then Some K else sp"
  have f: "f v (S sd sp b) = (S ?sd ?sp (h x), ?sd \<and> ?sp \<noteq> None)" using step [OF x(1)] x(2) by (simp add: Let_def)
  have e: "v = g k \<longleftrightarrow> x = k" "v = g pk \<longleftrightarrow> x = pk" using x inj k by (auto simp: inj_on_def)
  show ?case
  proof (cases "?sd \<and> ?sp \<noteq> None")
    case True
    then have "visit f (v # L) (S sd sp b) = S ?sd ?sp (h x)" using f by (simp only: visit.simps Let_def split if_True simp_thms)
    moreover have "?sd = (sd \<or> g k \<in> set (v # L))" "?sp = (if sp = None \<and> g pk \<in> set (v # L) then Some K else sp)"
      using True e by (auto split: if_splits)
    ultimately have "visit f (v # L) (S sd sp b) = S (sd \<or> g k \<in> set (v # L)) (if sp = None \<and> g pk \<in> set (v # L) then Some K else sp) (h x)"
      by (simp only:)
    then show ?thesis by blast
  next
    case False
    then have v: "visit f (v # L) (S sd sp b) = visit f L (S ?sd ?sp (h x))" using f by (simp only: visit.simps Let_def split if_False)
    obtain b' where "visit f L (S ?sd ?sp (h x)) = S (?sd \<or> g k \<in> set L) (if ?sp = None \<and> g pk \<in> set L then Some K else ?sp) b'"
      using Cons.IH [of ?sd ?sp "h x"] Cons.prems by auto
    moreover have "(?sd \<or> g k \<in> set L) = (sd \<or> g k \<in> set (v # L))"
      "(if ?sp = None \<and> g pk \<in> set L then Some K else ?sp) = (if sp = None \<and> g pk \<in> set (v # L) then Some K else sp)"
      using e by auto
    ultimately have "visit f (v # L) (S sd sp b) = S (sd \<or> g k \<in> set (v # L)) (if sp = None \<and> g pk \<in> set (v # L) then Some K else sp) b'"
      using v by (simp only:)
    then show ?thesis by blast
  qed
qed auto

lemma chain_remove:
  assumes ch: "chain_ok s D" and fin: "finite (dom D)" "y \<in> dom D" "y < k" and k: "k \<in> dom D" "k < shard_top s"
    and e: "e_next_key_hash e = e_next_key_hash (ent_of D k)"
  shows "chain_ok s (D(k := None, prv (dom D) k \<mapsto> (p, e, d)))"
proof -
  let ?p = "prv (dom D) k" and ?D = "D(k := None, prv (dom D) k \<mapsto> (p, e, d))"
  note p = prv_props [OF fin] and n = nxt_remove [OF fin k]
  have dm: "dom ?D = dom D - {k}" using p(1,2) by auto
  have "e_next_key_hash (ent_of ?D x) = nxt (shard_top s) (dom D - {k}) x" if "x \<in> dom D - {k}" for x
  proof (cases "x = ?p")
    case True
    then show ?thesis using n(1) e ch k(1) by (simp add: chain_ok_def)
  next
    case False
    then show ?thesis using that n(2) [of x] ch by (simp add: chain_ok_def)
  qed
  then show ?thesis unfolding chain_ok_def dm by blast
qed

lemma sentries_remove:
  assumes "sentries_ok s D" "k \<in> dom D" "e_value (ent_of D k) \<noteq> []"
  shows "sentries_ok s (D(k := None))"
proof -
  have "k \<notin> sentries s" using assms by (auto simp: sentries_ok_def)
  then have "ent_of (D(k := None)) x = ent_of D x" if "x \<in> sentries s" for x using that by (intro pos_of_del(2)) auto
  then show ?thesis using assms(1) \<open>k \<notin> sentries s\<close> by (auto simp: sentries_ok_def)
qed

context entry_store
begin

lemma delete_scan:
  assumes kv: "kv_inv store_ok stored log_end H u D" and D: "D (H key) = Some (p, e, d)" "e_key e = key" and key: "\<forall>i. key \<noteq> sentry_hash i"
    and P: "D (prv (dom D) (H key)) = Some (pp, pe, pd)" and y: "y \<in> dom D" "y < H key" "unit_of y = unit_of (H key)"
  shows "\<exists>K b. idx_for_each_adjacent_value unit_for_each_adjacent_value (u_indexer u) (H key)
       (\<lambda>k_buf. closure (del_body (H key) key k_buf) del_found)
       (Inr \<lparr> ds_del_pos = - 1, ds_del_sn = 0, ds_old_next = replicate 32 0, ds_prev_k80 = replicate 10 0, ds_old_pos = - 1, ds_upd = u \<rparr>)
    = Inr (Inr (del_st u (p, e, d) (pp, pe, pd) True (Some K) b)) \<and> length K = 10 \<and> take 9 K = take 9 (prv (dom D) (H key))"
proof -
  let ?kh = "H key" and ?pk = "prv (dom D) (H key)" and ?s = "u_shard_id u"
  let ?f = "\<lambda>k_buf. closure (del_body (H key) key k_buf) del_found"
  let ?S = "\<lambda>sd sp b. Inr (del_st u (p, e, d) (pp, pe, pd) sd sp b)" and ?g = "\<lambda>x. of_nat (pos_of D x) :: i64"
  note r = kv_rows(1) [OF kv] and fin = kv_rows(3) [OF kv] and pos = rows_pos_ok [OF kv_rows(1) [OF kv] kv_rows(2) [OF kv]]
  note rk = rows_okD [where D = D, OF r D(1)]
  have ix: "idx_ok (u_indexer u) ?s D" using kv by (simp add: kv_inv_def)
  have l: "length ?kh = 32" "unit_of ?kh div SHARD_DIV = ?s" using rk(1) by (simp_all add: in_shard_def)
  have st: "Inr \<lparr> ds_del_pos = - 1, ds_del_sn = 0, ds_old_next = replicate 32 0, ds_prev_k80 = replicate 10 0, ds_old_pos = - 1, ds_upd = u \<rparr>
      = ?S False None (u_read_buf u)" by (simp add: del_st_def)
  obtain L1 L2 x where L: "idx_for_each_adjacent_value unit_for_each_adjacent_value (u_indexer u) ?kh ?f (?S False None (u_read_buf u))
        = Inr (visit (?f (take 9 x @ [0])) L2 (visit (?f (take 9 ?kh @ [0])) L1 (?S False None (u_read_buf u))))"
      "set L1 = spots D (same9 D ?kh)" "set L2 \<subseteq> spots D (same9 D x)" "length x = 32"
      "take 9 ?pk \<noteq> take 9 ?kh \<longrightarrow> x = ?pk \<and> set L2 = spots D (same9 D x)"
    using idx_ok_each_adjacent [OF ix pos l fin y, of ?f "?S False None (u_read_buf u)"] by blast
  have dm: "?kh \<in> dom D" "?pk \<in> dom D" using D(1) P by auto
  have inj: "inj_on ?g (dom D)" using spot_inj [OF pos] by (auto simp: inj_on_def)
  have vis: "\<exists>b'. visit (?f K) L (?S sd sp b) = ?S (sd \<or> ?g ?kh \<in> set L) (if sp = None \<and> ?g ?pk \<in> set L then Some K else sp) b'"
    if "length K = 10" "set L \<subseteq> ?g ` dom D" for K L sd sp b
    by (rule visit_collect [where S = ?S and A = "dom D" and h = "\<lambda>x. entry_layout (ent_of D x) (snd (snd (the (D x))))"])
      (use delete_step [where D = D, OF kv D key P that(1) _ y(1,2)] inj dm that(2) in auto)
  have sub: "spots D (same9 D z) \<subseteq> ?g ` dom D" for z by (auto simp: spots_def same9_def)
  have mem: "?g z \<in> spots D (same9 D z')" if "z \<in> dom D" "take 9 z = take 9 z'" for z z'
    using that by (auto simp: spots_def same9_def)
  obtain b1 where v1: "visit (?f (take 9 ?kh @ [0])) L1 (?S False None (u_read_buf u))
      = ?S True (if ?g ?pk \<in> set L1 then Some (take 9 ?kh @ [0]) else None) b1"
    using vis [of "take 9 ?kh @ [0]" L1 False None "u_read_buf u"] L(2) sub mem [OF dm(1) refl] l(1) by auto
  obtain b2 where v2: "visit (?f (take 9 x @ [0])) L2 (?S True (if ?g ?pk \<in> set L1 then Some (take 9 ?kh @ [0]) else None) b1)
      = ?S True (if ?g ?pk \<in> set L1 then Some (take 9 ?kh @ [0]) else if ?g ?pk \<in> set L2 then Some (take 9 x @ [0]) else None) b2"
    using vis [OF _ subset_trans [OF L(3) sub], of "take 9 x @ [0]" True "if ?g ?pk \<in> set L1 then Some (take 9 ?kh @ [0]) else None" b1] L(4)
    by (cases "?g ?pk \<in> set L1") (auto cong: if_cong)
  show ?thesis
  proof (cases "?g ?pk \<in> set L1")
    case True
    then obtain z where "z \<in> same9 D ?kh" "?g ?pk = ?g z" unfolding L(2) by (auto simp: spots_def)
    moreover from this have "z = ?pk" using spot_inj [OF pos dm(2), of z] by (auto simp: same9_def)
    ultimately have "take 9 ?pk = take 9 ?kh" by (simp add: same9_def)
    then show ?thesis using L(1) v1 v2 True l(1) unfolding st by (intro exI [of _ "take 9 ?kh @ [0]"] exI [of _ b2]) simp
  next
    case False
    then have "take 9 ?pk \<noteq> take 9 ?kh" using mem [OF dm(2)] L(2) by auto
    then have x: "x = ?pk" "set L2 = spots D (same9 D x)" using L(5) by auto
    then have "?g ?pk \<in> set L2" using mem [OF dm(2)] by auto
    then show ?thesis using L(1,4) v1 v2 False x(1) unfolding st by (intro exI [of _ "take 9 ?pk @ [0]"] exI [of _ b2]) simp
  qed
qed

end


context entry_store
begin

lemma delete_rows:
  assumes kv: "kv_inv store_ok stored log_end H u D" and D: "D kh = Some (p, e0, d0)" and P: "D pk = Some (pp, pe, pd)" "pk \<noteq> kh"
    and room: "has_room (Suc n) (log_end u) (u_sn_end u)" and K: "length K = 10" "take 9 K = take 9 pk"
    and e: "key_hash_of H e = pk" "small e" "e_serial_number e = u_sn_end u" and d: "length d \<le> 2"
  shows "\<exists>w ix1 ix2. let D2 = D(kh := None, pk \<mapsto> (log_end u, e, d)) in
      upd_append e d u = Inr (of_nat (log_end u), u\<lparr>u_writer := w\<rparr>)
    \<and> upd_erase_kv kh (of_nat p) (u\<lparr>u_writer := w\<rparr>) = Inr (u\<lparr>u_writer := w, u_indexer := ix1\<rparr>)
    \<and> upd_change_kv K (of_nat pp) (of_nat (log_end u)) (u\<lparr>u_writer := w, u_indexer := ix1\<rparr>) = Inr (u\<lparr>u_writer := w, u_indexer := ix2\<rparr>)
    \<and> tab_inv store_ok stored log_end H (u_sn_end u + 1) (u\<lparr>u_writer := w\<rparr>) D2 \<and> idx_ok ix2 (u_shard_id u) D2
    \<and> has_room n (log_end (u\<lparr>u_writer := w\<rparr>)) (u_sn_end u + 1)"
proof -
  let ?s = "u_shard_id u" and ?D1 = "D(kh := None)"
  note r = kv_rows(1) [OF kv] and pos = rows_pos_ok [OF kv_rows(1) [OF kv] kv_rows(2) [OF kv]]
  note rk = rows_okD [where D = D, OF r D] and rp = rows_okD [where D = D, OF r P(1)]
  have t: "tab_inv store_ok stored log_end H (u_sn_end u) u D" and ix: "idx_ok (u_indexer u) ?s D" using kv by (simp_all add: kv_inv_def)
  have t1: "tab_inv store_ok stored log_end H (u_sn_end u) u ?D1" by (rule tab_remove [OF t])
  note rm = room_step(2,3) [OF room]
  have sn: "unat (u_sn_end u) \<le> unat (e_serial_number e)" "unat (e_serial_number e) < unat (u_sn_end u + 1)"
    using room_step(1) [OF room] e(3) by simp_all
  obtain w where w: "upd_append e d u = Inr (of_nat (log_end u), u\<lparr>u_writer := w\<rparr>)"
      "tab_inv store_ok stored log_end H (u_sn_end u + 1) (u\<lparr>u_writer := w\<rparr>) (?D1(pk \<mapsto> (log_end u, e, d)))"
      "log_end (u\<lparr>u_writer := w\<rparr>) \<le> log_end u + BIG_BUF_SIZE"
    using tab_append [OF t1 rp(1) e(1,2) d sn rm(1)] by blast
  have l: "kh \<in> dom D" "unit_of kh div SHARD_DIV = ?s" "unit_of pk div SHARD_DIV = ?s" "9 \<le> length K"
    using D rk(1) rp(1) K by (auto simp: in_shard_def)
  obtain ix1 where ix1: "idx_erase_kv unit_erase_kv (u_indexer u) kh (of_nat p) = Inr ix1" "idx_ok ix1 ?s ?D1"
    using idx_ok_erase [OF ix pos l(1,2) kv_rows(3) [OF kv]] row_at [of D, OF D] by metis
  have r1: "rows_ok H ?s (log_end u) (u_sn_end u) ?D1" "log_end u \<le> 2 ^ 51" and al: "log_end u mod 8 = 0"
    using t1 end_law by (simp_all add: tab_inv_def)
  have fr: "\<forall>x\<in>dom ?D1. pos_of ?D1 x \<noteq> log_end u"
    by (intro ballI, drule rows_below [OF r1(1)], rule less_imp_neq, assumption)
  have pkD: "pk \<in> dom ?D1" "pos_of ?D1 pk = pp" using P by (auto simp: pos_of_def)
  obtain ix2 where ix2: "idx_change_kv unit_change_kv ix1 K (of_nat pp) (of_nat (log_end u)) = Inr ix2"
      "idx_ok ix2 ?s (?D1(pk \<mapsto> (log_end u, e, d)))"
    using idx_ok_change [OF ix1(2) rows_pos_ok [OF r1] pkD(1) l(3) rm(2) al fr l(4) K(2)] unfolding pkD(2) by blast
  show ?thesis using w(1,2) ix1(1) ix2 room_step(4) [OF room w(3)] by (intro exI [of _ w] exI [of _ ix1] exI [of _ ix2])
      (simp add: upd_erase_kv_def upd_change_kv_def Let_def)
qed

lemma delete_ok:
  assumes kv: "kv_inv store_ok stored log_end H u D" and live: "live_kv D (H key) = Some (key, v0)" and key: "\<forall>i. key \<noteq> sentry_hash i"
    and room: "has_room (Suc n) (log_end u) (u_sn_end u)"
  shows "\<exists>u' D'. upd_delete_kv (H key) key u = Inr u' \<and> kv_inv store_ok stored log_end H u' D'
    \<and> live_kv D' = (live_kv D)(H key := None) \<and> has_room n (log_end u') (u_sn_end u')"
proof -
  let ?s = "u_shard_id u" and ?kh = "H key"
  let ?pk = "prv (dom D) ?kh"
  obtain p e d where D: "D ?kh = Some (p, e, d)" "e_key e = key" "e_value e \<noteq> []"
    using live by (auto simp: live_kv_def split: option.splits if_splits)
  note r = kv_rows(1) [OF kv] and fin = kv_rows(3) [OF kv]
  note rk = rows_okD [where D = D, OF r D(1)]
  have sen: "sentries_ok ?s D" and ch: "chain_ok ?s D" using kv by (simp_all add: kv_inv_def)
  have ent: "ent_of D ?kh = e" using row_at [of D, OF D(1)] by simp
  have kd: "?kh \<in> dom D" "?kh < shard_top ?s" using D(1) rk(1) by (auto simp: in_shard_def)
  then have "?kh \<notin> sentries ?s" using sen D(3) ent by (auto simp: sentries_ok_def)
  note y = sentry_below [OF sen rk(1) this]
  note pp = prv_props [OF fin y(1,2)]
  obtain q pe pd where P: "D ?pk = Some (q, pe, pd)" using pp(1) by auto
  note rp = rows_okD [where D = D, OF r P]
  have ne: "?pk \<noteq> ?kh" using pp(2) by auto
  have entp: "ent_of D ?pk = pe" using row_at [of D, OF P] by simp
  obtain K b where scan: "idx_for_each_adjacent_value unit_for_each_adjacent_value (u_indexer u) ?kh
       (\<lambda>k_buf. closure (del_body ?kh key k_buf) del_found)
       (Inr \<lparr> ds_del_pos = - 1, ds_del_sn = 0, ds_old_next = replicate 32 0, ds_prev_k80 = replicate 10 0, ds_old_pos = - 1, ds_upd = u \<rparr>)
      = Inr (Inr (del_st u (p, e, d) (q, pe, pd) True (Some K) b))" and K: "length K = 10" "take 9 K = take 9 ?pk"
    using delete_scan [where D = D, OF kv D(1,2) key P y] by blast
  let ?u = "u\<lparr>u_read_buf := b, u_prev_buf := entry_layout pe pd\<rparr>"
  let ?e = "\<lparr>e_key = e_key pe, e_value = e_value pe, e_next_key_hash = e_next_key_hash e, e_version = u_curr_version u, e_serial_number = u_sn_end u\<rparr>"
  let ?d = "[e_serial_number e, e_serial_number pe]"
  have kv': "kv_inv store_ok stored log_end H ?u D" using kv kv_frame [of ?u u] by simp
  have le: "log_end ?u = log_end u" using frame_law [of ?u u] by simp
  have rm: "has_room (Suc n) (log_end ?u) (u_sn_end ?u)" using room le by simp
  have "key_hash_of H ?e = key_hash_of H pe" by (simp add: key_hash_of_def)
  then have e: "key_hash_of H ?e = ?pk" "small ?e" "e_serial_number ?e = u_sn_end ?u" using rp(2,3) rk(3) by (simp_all add: small_def)
  obtain w ix1 ix2 where w: "upd_append ?e ?d ?u = Inr (of_nat (log_end ?u), ?u\<lparr>u_writer := w\<rparr>)"
      "upd_erase_kv ?kh (of_nat p) (?u\<lparr>u_writer := w\<rparr>) = Inr (?u\<lparr>u_writer := w, u_indexer := ix1\<rparr>)"
      "upd_change_kv K (of_nat q) (of_nat (log_end ?u)) (?u\<lparr>u_writer := w, u_indexer := ix1\<rparr>) = Inr (?u\<lparr>u_writer := w, u_indexer := ix2\<rparr>)"
      "tab_inv store_ok stored log_end H (u_sn_end ?u + 1) (?u\<lparr>u_writer := w\<rparr>) (D(?kh := None, ?pk \<mapsto> (log_end ?u, ?e, ?d)))"
      "idx_ok ix2 (u_shard_id ?u) (D(?kh := None, ?pk \<mapsto> (log_end ?u, ?e, ?d)))"
      "has_room n (log_end (?u\<lparr>u_writer := w\<rparr>)) (u_sn_end ?u + 1)"
    using delete_rows [where D = D and d = ?d, OF kv' D(1) P ne rm K e] unfolding Let_def by auto
  let ?D = "D(?kh := None, ?pk \<mapsto> (log_end ?u, ?e, ?d))"
  let ?u' = "?u\<lparr>u_writer := w, u_indexer := ix2, u_sn_end := u_sn_end u + 1\<rparr>"
  have "sentries_ok ?s (D(?kh := None))" by (rule sentries_remove [OF sen kd(1)]) (use D(3) ent in simp)
  then have "sentries_ok ?s ?D" by (rule sentries_replace) (use ne P entp in auto)
  moreover have "chain_ok ?s ?D" by (rule chain_remove [OF ch fin y(1,2) kd]) (use ent in simp)
  moreover have "tab_inv store_ok stored log_end H (u_sn_end u + 1) ?u' ?D"
    using w(4) tab_frame [of ?u' "?u\<lparr>u_writer := w\<rparr>"] by (simp add: store_part_def)
  ultimately have "kv_inv store_ok stored log_end H ?u' ?D" using w(5) by (simp add: kv_inv_def)
  moreover have "live_kv ?D = (live_kv D)(?kh := None)"
    unfolding live_kv_replace using ne P by (auto simp: live_kv_def fun_eq_iff)
  moreover have "upd_delete_kv ?kh key u = Inr ?u'"
    using scan w(1-3) pos_i64(2) [of p] pos_i64(2) [of q] rk(8) rp(8) kv_rows(2) [OF kv] row_reads [OF small_ok(1) [OF rp(3,4)]]
    by (simp add: upd_delete_kv_def del_st_def Let_def)
  moreover have "has_room n (log_end ?u') (u_sn_end ?u')"
    using w(6) frame_law [of ?u' "?u\<lparr>u_writer := w\<rparr>"] by (simp add: store_part_def)
  ultimately show ?thesis by blast
qed

end


section \<open>Compacting\<close>

lemma idx_ok_key_exists:
  assumes ix: "idx_ok ix s D" and ok: "pos_ok D" and k: "9 \<le> length k" "unit_of k div SHARD_DIV = s"
  shows "idx_key_exists unit_for_each_value ix k x = Inr (x \<in> spots D (same9 D k))"
proof -
  obtain vs where len: "length (ix_units ix) = 65536" and ir: "indexer_rep unit_pairs ix vs" and pr: "idx_pairs vs s D"
    using ix by (auto simp: idx_ok_def)
  have ne: "ix_units ix \<noteq> []" using len by auto
  show ?thesis
    using key_exists_eq [OF ir k(1) ne, of x] values_spots [OF pr ok k, symmetric] by (auto simp: len key_unit_full)
qed

definition job_live :: "table \<Rightarrow> compact_job \<Rightarrow> bool" where
  "job_live D job \<longleftrightarrow> cj_old_pos job \<in> spots D (dom D)"

lemma job_row:
  assumes job: "job_ok H s end' D job" and r: "rows_ok H s end' sn D" and end': "end' \<le> 2 ^ 51"
  shows "\<exists>e d. cj_entry_bz job = entry_layout e d \<and> small e \<and> length d \<le> 2 \<and> in_shard s (key_hash_of H e)
    \<and> (cj_old_pos job \<in> spots D (same9 D (key_hash_of H e)) \<longleftrightarrow> job_live D job)
    \<and> (job_live D job \<longrightarrow> (\<exists>p. cj_old_pos job = of_nat p \<and> D (key_hash_of H e) = Some (p, e, d)))"
proof -
  obtain p e d where j: "cj_old_pos job = of_nat p" "p < end'" "cj_entry_bz job = entry_layout e d" "small e" "length d \<le> 2"
      "in_shard s (key_hash_of H e)" "\<forall>k\<in>dom D. pos_of D k = p \<longrightarrow> D k = Some (p, e, d)"
    using job by (auto simp: job_ok_def)
  have live: "D (key_hash_of H e) = Some (p, e, d)" if jl: "job_live D job"
  proof -
    obtain k where k: "k \<in> dom D" "(of_nat p :: i64) = of_nat (pos_of D k)" using jl j(1) by (auto simp: job_live_def spots_def)
    have "unat (of_nat p :: i64) = p" "unat (of_nat (pos_of D k) :: i64) = pos_of D k"
      using rows_below [OF r k(1)] j(2) end' by (auto intro!: pos_i64(1))
    then have "p = pos_of D k" using k(2) by metis
    then have "D k = Some (p, e, d)" using j(7) k(1) by blast
    then show ?thesis using rows_okD(2) [where D = D, OF r] by metis
  qed
  have "job_live D job" if "cj_old_pos job \<in> spots D (same9 D (key_hash_of H e))"
    using that by (auto simp: job_live_def spots_def same9_def)
  moreover have "cj_old_pos job \<in> spots D (same9 D (key_hash_of H e))" if "job_live D job"
  proof -
    have "key_hash_of H e \<in> same9 D (key_hash_of H e)" "pos_of D (key_hash_of H e) = p"
      using live [OF that] by (auto simp: same9_def pos_of_def)
    then show ?thesis using j(1) by (auto simp: spots_def intro!: image_eqI [of _ _ "key_hash_of H e"])
  qed
  ultimately show ?thesis using j live by (intro exI [of _ e] exI [of _ d]) auto
qed

text \<open>The positions of live entries that the jobs waiting in the ring name.\<close>

definition job_spots :: "table \<Rightarrow> updater \<Rightarrow> i64 set" where
  "job_spots D u = cj_old_pos ` set (rc_fwd (u_jobs u)) \<inter> spots D (dom D)"

text \<open>One entry moved to \<open>at\<close>: the first job of the ring that names a live entry, \<open>(p, e, d)\<close> of the key hash \<open>kh\<close>.\<close>

definition moves :: "nat \<Rightarrow> table \<Rightarrow> updater \<Rightarrow> table \<Rightarrow> updater \<Rightarrow> bool" where
  "moves at D u D' u' \<longleftrightarrow> (\<exists>dead job rest kh p e d.
     rc_fwd (u_jobs u) = dead @ job # rest \<and> (\<forall>j\<in>set dead. \<not> job_live D j)
     \<and> D kh = Some (p, e, d) \<and> cj_old_pos job = of_nat p \<and> cj_entry_bz job = entry_layout e d
     \<and> D' = D(kh \<mapsto> (at, e\<lparr>e_serial_number := u_sn_end u\<rparr>, [e_serial_number e]))
     \<and> u_sn_end u' = u_sn_end u + 1 \<and> u_sn_start u' = e_serial_number e + 1
     \<and> u_compact_done_pos u' = of_nat (p + length (entry_layout e d))
     \<and> u_jobs u' = (u_jobs u)\<lparr>rc_fwd := rest, rc_bck := rc_bck (u_jobs u) @ dead @ [job]\<rparr>)"

context entry_store
begin

lemma kv_jobs:
  "kv_inv store_ok stored log_end H u D \<Longrightarrow> jobs_ok H (u_shard_id u) (log_end u) D r \<Longrightarrow> kv_inv store_ok stored log_end H (u\<lparr>u_jobs := r\<rparr>) D"
  using frame_law [of "u\<lparr>u_jobs := r\<rparr>" u] by (simp add: kv_inv_def tab_inv_def)

lemma job_spots_empty: "job_spots D u = {} \<longleftrightarrow> (\<forall>job\<in>set (rc_fwd (u_jobs u)). \<not> job_live D job)"
  by (auto simp: job_spots_def job_live_def)

lemma next_job:
  assumes "kv_inv store_ok stored log_end H u D"
  shows "job_spots D u = {} \<and> upd_next_job H u = Inl (Err ''recv'')
    \<or> (\<exists>dead job rest kh p e d r. rc_fwd (u_jobs u) = dead @ job # rest \<and> (\<forall>j\<in>set dead. \<not> job_live D j)
        \<and> D kh = Some (p, e, d) \<and> cj_old_pos job = of_nat p \<and> cj_entry_bz job = entry_layout e d
        \<and> r = (u_jobs u)\<lparr>rc_fwd := rest, rc_bck := rc_bck (u_jobs u) @ dead\<rparr>
        \<and> upd_next_job H u = Inr (job, kh, u\<lparr>u_jobs := r\<rparr>) \<and> kv_inv store_ok stored log_end H (u\<lparr>u_jobs := r\<rparr>) D
        \<and> length (rc_fwd r) + length (rc_bck r) < rc_size r)"
  using assms
proof (induction "length (rc_fwd (u_jobs u))" arbitrary: u rule: less_induct)
  case less
  let ?r = "u_jobs u"
  note kv = less.prems
  show ?case
  proof (cases "rc_fwd ?r")
    case Nil
    then show ?thesis by (simp add: upd_next_job.simps ring_consume_def job_spots_empty)
  next
    case (Cons job js)
    have jo: "jobs_ok H (u_shard_id u) (log_end u) D ?r" using kv by (simp add: kv_inv_def tab_inv_def)
    have ix: "idx_ok (u_indexer u) (u_shard_id u) D" using kv by (simp add: kv_inv_def)
    have "job_ok H (u_shard_id u) (log_end u) D job" using jo Cons by (simp add: jobs_ok_def)
    from job_row [OF this kv_rows(1,2) [OF kv]] obtain e d where
      j: "cj_entry_bz job = entry_layout e d" "small e" "length d \<le> 2" "in_shard (u_shard_id u) (key_hash_of H e)"
        "cj_old_pos job \<in> spots D (same9 D (key_hash_of H e)) \<longleftrightarrow> job_live D job"
        "job_live D job \<longrightarrow> (\<exists>p. cj_old_pos job = of_nat p \<and> D (key_hash_of H e) = Some (p, e, d))" by blast
    let ?kh = "key_hash_of H e" and ?r1 = "?r\<lparr>rc_fwd := js\<rparr>"
    have k: "9 \<le> length ?kh" "unit_of ?kh div SHARD_DIV = u_shard_id u" using j(4) by (simp_all add: in_shard_def)
    have ke: "idx_key_exists unit_for_each_value (u_indexer u) ?kh (cj_old_pos job) = Inr (job_live D job)"
      using idx_ok_key_exists [OF ix rows_pos_ok [OF kv_rows(1,2) [OF kv]] k] j(5) by simp
    have rd: "ebz_key_hash H (cj_entry_bz job) = Inr ?kh" "ebz_serial_number (cj_entry_bz job) = Inr (e_serial_number e)"
      using read_key_hash_row [OF j(2,3)] row_reads(5) [OF small_ok(1) [OF j(2,3)]] j(1) by simp_all
    have con: "ring_consume ?r = Some (job, ?r1)" using Cons by (simp add: ring_consume_def)
    have len: "length (rc_fwd ?r1) + length (rc_bck ?r1) < rc_size ?r1" using jo Cons by (simp add: jobs_ok_def)
    show ?thesis
    proof (cases "job_live D job")
      case True
      have "upd_next_job H u = Inr (job, ?kh, u\<lparr>u_jobs := ?r1\<rparr>)"
        using con rd ke True by (simp add: upd_next_job.simps)
      moreover have "kv_inv store_ok stored log_end H (u\<lparr>u_jobs := ?r1\<rparr>) D"
        by (rule kv_jobs [OF kv]) (use jo Cons in \<open>simp add: jobs_ok_def\<close>)
      moreover obtain p where "cj_old_pos job = of_nat p" "D ?kh = Some (p, e, d)" using j(6) True by blast
      ultimately show ?thesis using j(1) len Cons
        by (intro disjI2, intro exI [of _ "[]"], intro exI [of _ job], intro exI [of _ js], intro exI [of _ ?kh],
            intro exI [of _ p], intro exI [of _ e], intro exI [of _ d], intro exI [of _ ?r1]) simp
    next
      case False
      let ?r2 = "?r1\<lparr>rc_bck := rc_bck ?r @ [job]\<rparr>"
      have "ring_send_returned job ?r1 = Some ?r2" using len by (simp add: ring_send_returned_def)
      then have step: "upd_next_job H u = upd_next_job H (u\<lparr>u_jobs := ?r2\<rparr>)"
        using con rd ke False by (subst upd_next_job.simps) simp
      have kv2: "kv_inv store_ok stored log_end H (u\<lparr>u_jobs := ?r2\<rparr>) D"
        by (rule kv_jobs [OF kv]) (use jo Cons in \<open>simp add: jobs_ok_def\<close>)
      have "length (rc_fwd (u_jobs (u\<lparr>u_jobs := ?r2\<rparr>))) < length (rc_fwd ?r)" using Cons by simp
      from less.hyps [OF this kv2] show ?thesis
      proof (elim disjE exE conjE, goal_cases)
        case 1
        then show ?case using trans [OF step 1(2)] Cons False by (simp add: job_spots_empty)
      next
        case (2 dead job' rest kh p e' d' r)
        note nj = trans [OF step 2(7)]
        show ?case using 2(1-6,8,9) nj Cons False
          by (intro disjI2, intro exI [of _ "job # dead"], intro exI [of _ job'], intro exI [of _ rest], intro exI [of _ kh],
              intro exI [of _ p], intro exI [of _ e'], intro exI [of _ d'], intro exI [of _ r]) simp
      qed
    qed
  qed
qed

lemma compact_ok:
  assumes kv: "kv_inv store_ok stored log_end H u D" and room: "has_room (Suc n) (log_end u) (u_sn_end u)"
  shows "if job_spots D u = {} then upd_compact H u = Inl (Err ''recv'')
    else \<exists>u' D'. upd_compact H u = Inr u' \<and> moves (log_end u) D u D' u' \<and> kv_inv store_ok stored log_end H u' D'
      \<and> live_kv D' = live_kv D \<and> has_room n (log_end u') (u_sn_end u')"
  using next_job [OF kv]
proof (elim disjE exE conjE, goal_cases)
  case 1
  then show ?case by (simp add: upd_compact_def)
next
  case (2 dead job rest kh p e d r)
  note j = 2
  let ?u1 = "u\<lparr>u_jobs := r\<rparr>"
  note rk = rows_okD [where D = D, OF kv_rows(1) [OF kv] j(3)]
  let ?e = "\<lparr>e_key = e_key e, e_value = e_value e, e_next_key_hash = e_next_key_hash e, e_version = e_version e, e_serial_number = u_sn_end u\<rparr>"
  let ?d = "[e_serial_number e]" and ?D = "D(kh \<mapsto> (log_end ?u1, ?e, [e_serial_number e]))"
  have "key_hash_of H ?e = key_hash_of H e" by (simp add: key_hash_of_def)
  then have e: "key_hash_of H ?e = kh" "small ?e" using rk(2,3) by (simp_all add: small_def)
  have le: "log_end ?u1 = log_end u" using frame_law [of ?u1 u] by simp
  have rm: "has_room (Suc n) (log_end ?u1) (u_sn_end ?u1)" using room le by simp
  have k9: "9 \<le> length kh" using rk(1) by (simp add: in_shard_def)
  have "\<exists>w ix. upd_append ?e ?d ?u1 = Inr (of_nat (log_end ?u1), ?u1\<lparr>u_writer := w\<rparr>)
    \<and> upd_change_kv kh (of_nat p) (of_nat (log_end ?u1)) (?u1\<lparr>u_writer := w\<rparr>) = Inr (?u1\<lparr>u_writer := w, u_indexer := ix\<rparr>)
    \<and> kv_inv store_ok stored log_end H (?u1\<lparr>u_writer := w, u_indexer := ix, u_sn_end := u_sn_end ?u1 + 1\<rparr>) ?D
    \<and> has_room n (log_end (?u1\<lparr>u_writer := w\<rparr>)) (u_sn_end ?u1 + 1)"
    by (rule replace_row [where D = D, OF j(8,3) k9 refl]) (use e rm in simp_all)
  then obtain w ix where w: "upd_append ?e ?d ?u1 = Inr (of_nat (log_end ?u1), ?u1\<lparr>u_writer := w\<rparr>)"
      "upd_change_kv kh (of_nat p) (of_nat (log_end ?u1)) (?u1\<lparr>u_writer := w\<rparr>) = Inr (?u1\<lparr>u_writer := w, u_indexer := ix\<rparr>)"
      "kv_inv store_ok stored log_end H (?u1\<lparr>u_writer := w, u_indexer := ix, u_sn_end := u_sn_end ?u1 + 1\<rparr>) ?D"
      "has_room n (log_end (?u1\<lparr>u_writer := w\<rparr>)) (u_sn_end ?u1 + 1)"
    by blast
  let ?u2 = "?u1\<lparr>u_writer := w, u_indexer := ix, u_sn_end := u_sn_end ?u1 + 1, u_sn_start := e_serial_number e + 1,
      u_compact_done_pos := of_nat p + of_nat (length (entry_layout e d))\<rparr>"
  let ?r2 = "r\<lparr>rc_bck := rc_bck r @ [job]\<rparr>"
  let ?u' = "?u2\<lparr>u_jobs := ?r2\<rparr>"
  have kv2: "kv_inv store_ok stored log_end H ?u2 ?D"
    using w(3) kv_frame [of ?u2 "?u1\<lparr>u_writer := w, u_indexer := ix, u_sn_end := u_sn_end ?u1 + 1\<rparr>"] by (simp add: store_part_def)
  have "jobs_ok H (u_shard_id ?u2) (log_end ?u2) ?D r" using kv2 by (simp add: kv_inv_def tab_inv_def)
  then have kv3: "kv_inv store_ok stored log_end H ?u' ?D"
    by (intro kv_jobs [OF kv2]) (use j(9) in \<open>simp add: jobs_ok_def\<close>)
  have "upd_compact H u = Inr ?u'"
    using j(3-5,7,9) w(1,2) row_reads [OF small_ok(1) [OF rk(3,4)]] by (simp add: upd_compact_def Let_def ring_send_returned_def)
  moreover have "live_kv ?D = live_kv D" unfolding live_kv_replace using j(3) by (auto simp: live_kv_def fun_eq_iff)
  moreover have "has_room n (log_end ?u') (u_sn_end ?u')"
    using w(4) frame_law [of ?u' "?u1\<lparr>u_writer := w\<rparr>"] by (simp add: store_part_def)
  moreover have new: "e\<lparr>e_serial_number := u_sn_end u\<rparr> = ?e" by simp
  have "moves (log_end u) D u ?D ?u'"
    unfolding moves_def using j(1-6) le
    by (intro exI [of _ dead], intro exI [of _ job], intro exI [of _ rest], intro exI [of _ kh],
        intro exI [of _ p], intro exI [of _ e], intro exI [of _ d]) (simp add: new)
  moreover have "kh \<in> dom D" "pos_of D kh = p" using j(3) by (auto simp: pos_of_def)
  then have "job_spots D u \<noteq> {}" using j(1,4) by (force simp: job_spots_def spots_def)
  ultimately show ?case using kv3 by auto
qed

lemma moves_spots:
  assumes kv: "kv_inv store_ok stored log_end H u D" and mv: "moves (log_end u) D u D' u'"
  shows "\<exists>x\<in>job_spots D u. job_spots D' u' = job_spots D u - {x}"
proof -
  obtain dead job rest kh p e d where m: "rc_fwd (u_jobs u) = dead @ job # rest" "\<forall>j\<in>set dead. \<not> job_live D j"
      "D kh = Some (p, e, d)" "cj_old_pos job = of_nat p" "rc_fwd (u_jobs u') = rest"
      "D' = D(kh \<mapsto> (log_end u, e\<lparr>e_serial_number := u_sn_end u\<rparr>, [e_serial_number e]))"
    using mv by (auto simp: moves_def)
  note pos = rows_pos_ok [OF kv_rows(1,2) [OF kv]]
  have kh: "kh \<in> dom D" "pos_of D kh = p" using m(3) by (auto simp: pos_of_def)
  have jo: "jobs_ok H (u_shard_id u) (log_end u) D (u_jobs u)" and le: "log_end u \<le> 2 ^ 51"
    using kv by (simp_all add: kv_inv_def tab_inv_def)
  have new: "cj_old_pos j \<noteq> of_nat (log_end u)" if "j \<in> set rest" for j
  proof -
    have "job_ok H (u_shard_id u) (log_end u) D j" using jo m(1) that by (simp add: jobs_ok_def)
    then obtain q where q: "cj_old_pos j = of_nat q" "q < log_end u" by (auto simp: job_ok_def)
    then have "unat (of_nat q :: i64) = q" "unat (of_nat (log_end u) :: i64) = log_end u" using le by (simp_all add: unat_of_nat)
    then show ?thesis using q by (metis less_irrefl)
  qed
  have inj: "inj_on (\<lambda>x. of_nat (pos_of D x) :: i64) (dom D)" using spot_inj [OF pos] by (auto simp: inj_on_def)
  have "spots D' (dom D - {kh}) = spots D (dom D - {kh})" unfolding m(6) spots_def by (rule image_cong) simp_all
  also have "\<dots> = spots D (dom D) - {of_nat p}"
    using inj_on_image_set_diff [OF inj, of "dom D" "{kh}"] kh by (simp add: spots_def)
  finally have "spots D' (dom D - {kh}) = spots D (dom D) - {of_nat p}" .
  moreover have "spots D' (insert kh X) = insert (of_nat (log_end u)) (spots D' X)" for X by (simp add: spots_def m(6))
  ultimately have "spots D' (insert kh (dom D - {kh})) = insert (of_nat (log_end u)) (spots D (dom D) - {of_nat p})" by metis
  moreover have "insert kh (dom D - {kh}) = dom D'" using m(6) by auto
  ultimately have sp: "spots D' (dom D') = insert (of_nat (log_end u)) (spots D (dom D) - {of_nat p})" by simp
  have "job_spots D' u' = job_spots D u - {of_nat p}"
    using m(1,2,4,5) new by (auto simp: job_spots_def sp job_live_def)
  moreover have "of_nat p \<in> job_spots D u" using m(1,4) kh by (force simp: job_spots_def spots_def)
  ultimately show ?thesis by blast
qed

text \<open>Compacting \<open>m\<close> times: the updater moves \<open>m\<close> entries, or it waits for a job because the jobs in the
  ring name fewer than \<open>m\<close> live entries.\<close>

lemma compact_times_ok:
  assumes "kv_inv store_ok stored log_end H u D" "has_room (n + m) (log_end u) (u_sn_end u)"
  shows "if card (job_spots D u) < m then foldE (\<lambda>_. upd_compact H) [0..<m] u = Inl (Err ''recv'')
    else \<exists>u' D'. foldE (\<lambda>_. upd_compact H) [0..<m] u = Inr u' \<and> kv_inv store_ok stored log_end H u' D' \<and> live_kv D' = live_kv D
      \<and> has_room n (log_end u') (u_sn_end u') \<and> card (job_spots D' u') + m = card (job_spots D u) \<and> u_sn_end u' = u_sn_end u + of_nat m"
  using assms
proof (induction m arbitrary: n)
  case 0
  then show ?case by auto
next
  case (Suc m)
  have fin: "finite (job_spots D u)" for D u by (simp add: job_spots_def)
  have "has_room (Suc n + m) (log_end u) (u_sn_end u)" using Suc.prems(2) by simp
  note ih = Suc.IH [OF Suc.prems(1) this]
  show ?case
  proof (cases "card (job_spots D u) < m")
    case False
    with ih obtain u1 D1 where u1: "foldE (\<lambda>_. upd_compact H) [0..<m] u = Inr u1" "kv_inv store_ok stored log_end H u1 D1" "live_kv D1 = live_kv D"
        "has_room (Suc n) (log_end u1) (u_sn_end u1)" "card (job_spots D1 u1) + m = card (job_spots D u)" "u_sn_end u1 = u_sn_end u + of_nat m"
      by auto
    show ?thesis
    proof (cases "job_spots D1 u1 = {}")
      case True
      then show ?thesis using compact_ok [OF u1(2,4)] u1(1,5) by simp
    next
      case ne: False
      with compact_ok [OF u1(2,4)] obtain u2 D2 where u2: "upd_compact H u1 = Inr u2" "moves (log_end u1) D1 u1 D2 u2"
          "kv_inv store_ok stored log_end H u2 D2" "live_kv D2 = live_kv D1" "has_room n (log_end u2) (u_sn_end u2)" by auto
      obtain x where "x \<in> job_spots D1 u1" "job_spots D2 u2 = job_spots D1 u1 - {x}" using moves_spots [OF u1(2) u2(2)] by blast
      then have "card (job_spots D2 u2) + Suc m = card (job_spots D u)"
        using u1(5) card_Suc_Diff1 [OF fin, of x D1 u1] by simp
      moreover have "u_sn_end u2 = u_sn_end u1 + 1" using u2(2) by (auto simp: moves_def)
      moreover have "\<not> card (job_spots D u) < Suc m" using calculation by linarith
      ultimately show ?thesis using u1 u2 by (auto simp: add.assoc)
    qed
  qed (use ih in simp)
qed

lemma compactible_eq:
  assumes kv: "kv_inv store_ok stored log_end H u D" and k: "k \<in> dom D"
  shows "upd_is_compactible u = Inr (is_compactible (u_utilization_div u) (u_utilization_ratio u) (u_compact_thres u)
    (of_nat (card (dom D))) (u_sn_start u) (u_sn_end u))"
proof -
  obtain p e d where "D k = Some (p, e, d)" using k by auto
  from rows_okD(1) [where D = D, OF kv_rows(1) [OF kv] this] have "u_shard_id u < SHARD_COUNT" using shard_bound [of k] by (simp add: in_shard_def)
  moreover have "length (ix_sizes (u_indexer u)) = SHARD_COUNT" "ix_sizes (u_indexer u) ! u_shard_id u = of_nat (card (dom D))"
    using kv by (auto simp: kv_inv_def idx_ok_def indexer_rep_def)
  ultimately show ?thesis by (simp add: upd_is_compactible_def idx_len_def)
qed

end

section \<open>Properties\<close>

definition db_inv :: "(bytes \<Rightarrow> hash32) \<Rightarrow> updater \<Rightarrow> table \<Rightarrow> bool" where
  "db_inv = kv_inv upd_store_ok upd_stored upd_log_end"

definition db_room :: "nat \<Rightarrow> updater \<Rightarrow> bool" where
  "db_room n u = has_room n (upd_log_end u) (u_sn_end u)"

text \<open>How an operation ends that appended \<open>m\<close> entries, which made the table \<open>D1\<close> out of the one of the
  updater \<open>u\<close>: when no compaction is due, it returns with this table; when one is due and the jobs in the
  ring name fewer than \<open>m\<close> live entries, it waits for a job; otherwise it returns after it moved \<open>m\<close> live
  entries, with the same keys and values.\<close>

definition compaction_due :: "updater \<Rightarrow> table \<Rightarrow> u64 \<Rightarrow> bool" where
  "compaction_due u D sn = is_compactible (u_utilization_div u) (u_utilization_ratio u) (u_compact_thres u)
     (of_nat (card (dom D))) (u_sn_start u) sn"

definition db_outcome :: "(bytes \<Rightarrow> hash32) \<Rightarrow> nat \<Rightarrow> nat \<Rightarrow> updater \<Rightarrow> table \<Rightarrow> updater result \<Rightarrow> bool" where
  "db_outcome H n m u D1 r \<longleftrightarrow> (let sn = u_sn_end u + of_nat m in
     if \<not> compaction_due u D1 sn then \<exists>u'. r = Inr u' \<and> db_inv H u' D1 \<and> db_room n u' \<and> u_sn_end u' = sn
       \<and> u_sn_start u' = u_sn_start u \<and> u_jobs u' = u_jobs u
     else if card (job_spots D1 u) < m then r = Inl (Err ''recv'')
     else \<exists>u' D'. r = Inr u' \<and> db_inv H u' D' \<and> live_kv D' = live_kv D1 \<and> db_room n u' \<and> u_sn_end u' = sn + of_nat m
       \<and> card (job_spots D' u') + m = card (job_spots D1 u))"

lemma outcome_after:
  assumes u': "u' = u\<lparr>u_read_buf := b, u_writer := w, u_indexer := ix, u_sn_end := u_sn_end u + of_nat m\<rparr>"
    and kv: "kv_inv upd_store_ok upd_stored upd_log_end H u' D1" and k: "live_kv D1 k \<noteq> None"
    and room: "has_room (n + m) (upd_log_end u') (u_sn_end u')"
  shows "db_outcome H n m u D1 (compact_after m H u')"
proof -
  have "k \<in> dom D1" using k by (auto simp: live_kv_def split: option.splits)
  from us.compactible_eq [OF kv this] have c: "upd_is_compactible u' = Inr (compaction_due u D1 (u_sn_end u + of_nat m))"
    unfolding u' compaction_due_def by simp
  have s: "job_spots D1 u' = job_spots D1 u" by (simp add: u' job_spots_def)
  show ?thesis
  proof (cases "compaction_due u D1 (u_sn_end u + of_nat m)")
    case True
    then have "compact_after m H u' = foldE (\<lambda>_. upd_compact H) [0..<m] u'" using c by (simp add: compact_after_def)
    then show ?thesis using us.compact_times_ok [OF kv room] True s
      by (auto simp: db_outcome_def Let_def db_inv_def db_room_def u' split: if_splits)
  next
    case False
    then show ?thesis using c kv room_less [OF room] by (simp add: compact_after_def db_outcome_def Let_def db_inv_def db_room_def u')
  qed
qed

text \<open>C8. Writing to a live key changes the value of this key and of no other, and keeps the invariant
  of the shard: every live entry can be read back (in the update buffer, the cache, or a file where it has
  at most 300 bytes), the index holds exactly the live positions, serial numbers of live entries are
  distinct and the keys stay chained.  The new entry is at the old end of the log and lists the serial
  number it replaces.  The operation returns when no compaction is due (\<open>is_compactible\<close>); when one is due
  it moves one more live entry and returns, or waits exactly when no job in the ring names a live
  entry.  (The value must not be empty: an empty value marks a sentry.)\<close>

theorem write_kv_refines:
  assumes "db_inv H u D" and "live_kv D (H key) = Some (key, v0)" and "\<forall>i. key \<noteq> sentry_hash i"
    and "kv_fits key val" and "db_room (n + 2) u"
  shows "let D1 = written D (upd_log_end u) (u_sn_end u) (u_curr_version u) (H key) key val in
    live_kv D1 = (live_kv D)(H key \<mapsto> (key, val)) \<and> db_outcome H n 1 u D1 (upd_write_kv H (H key) key val u)"
proof -
  let ?D = "written D (upd_log_end u) (u_sn_end u) (u_curr_version u) (H key) key val"
  have "has_room (Suc (n + 1)) (upd_log_end u) (u_sn_end u)" using assms(5) by (simp add: db_room_def)
  from us.write_ok [OF assms(1) [unfolded db_inv_def] assms(2-4) this] obtain w ix b u' where
    w: "u' = u\<lparr>u_read_buf := b, u_writer := w, u_indexer := ix, u_sn_end := u_sn_end u + 1\<rparr>"
      "upd_write_kv H (H key) key val u = compact_after 1 H u'" "kv_inv upd_store_ok upd_stored upd_log_end H u' ?D"
      "live_kv ?D = (live_kv D)(H key \<mapsto> (key, val))" "has_room (n + 1) (upd_log_end u') (u_sn_end u')" by blast
  have "db_outcome H n 1 u ?D (compact_after 1 H u')"
    by (rule outcome_after [OF _ w(3) _ w(5), of _ _ _ _ "H key"]) (use w(1,4) in simp_all)
  then show ?thesis using w(2,4) by simp
qed

text \<open>C6. Creating a key that is not live adds it with its value and changes no other key, and keeps the
  invariant: the new key is inserted into the chain behind its predecessor, which is written again behind
  it.  The new key must not share its first nine bytes with a live one (see the finding on
  \<^verbatim>\<open>create_kv\<close>), and the leaves of its unit must have room.  The operation returns when no compaction is
  due; when one is due it moves two more live entries and returns, or waits exactly when the jobs in the
  ring name fewer than two.\<close>

theorem create_kv_refines:
  assumes "db_inv H u D" and "in_shard (u_shard_id u) (H key)" and "same9 D (H key) = {}"
    and "kv_fits key val" and "unit_roomy u (H key)" and "db_room (n + 4) u"
  shows "let D1 = created D (upd_log_end u) (u_sn_end u) (u_curr_version u) (H key) key val in
    live_kv D1 = (live_kv D)(H key \<mapsto> (key, val)) \<and> db_outcome H n 2 u D1 (upd_create_kv H (H key) key val u)"
proof -
  let ?D = "created D (upd_log_end u) (u_sn_end u) (u_curr_version u) (H key) key val"
  have "has_room (Suc (Suc (n + 2))) (upd_log_end u) (u_sn_end u)" using assms(6) by (simp add: db_room_def eval_nat_numeral)
  from us.create_ok [OF assms(1) [unfolded db_inv_def] assms(2-4) this assms(5)] obtain w ix b u' where
    w: "u' = u\<lparr>u_read_buf := b, u_writer := w, u_indexer := ix, u_sn_end := u_sn_end u + 2\<rparr>"
      "upd_create_kv H (H key) key val u = compact_after 2 H u'" "kv_inv upd_store_ok upd_stored upd_log_end H u' ?D"
      "live_kv ?D = (live_kv D)(H key \<mapsto> (key, val))" "has_room (n + 2) (upd_log_end u') (u_sn_end u')" by blast
  have "db_outcome H n 2 u ?D (compact_after 2 H u')"
    by (rule outcome_after [OF _ w(3) _ w(5), of _ _ _ _ "H key"]) (use w(1,4) in simp_all)
  then show ?thesis using w(2,4) by simp
qed

text \<open>C7. Deleting a live key always returns, removes this key and no other, and keeps the invariant: the
  predecessor takes over the next key of the deleted entry, also when other live keys share the
  first nine bytes with the key or its predecessor.\<close>

theorem delete_kv_refines:
  assumes "db_inv H u D" and "live_kv D (H key) = Some (key, v0)" and "\<forall>i. key \<noteq> sentry_hash i" and "db_room (n + 1) u"
  shows "\<exists>u' D'. upd_delete_kv (H key) key u = Inr u' \<and> db_inv H u' D' \<and> live_kv D' = (live_kv D)(H key := None) \<and> db_room n u'"
proof -
  have "has_room (Suc n) (upd_log_end u) (u_sn_end u)" using assms(4) by (simp add: db_room_def)
  from us.delete_ok [OF assms(1) [unfolded db_inv_def] assms(2,3) this] show ?thesis by (simp add: db_inv_def db_room_def)
qed

text \<open>C9. Compacting waits exactly when no job in the ring names a live entry.  Otherwise it takes the first
  job that does (\<open>moves\<close>): the entry of this job is the live entry of its key, it is written again at the end
  of the log under the next serial number and lists the old one, the start of the active serial numbers
  moves behind the old number and the compacted position behind the old entry, and the jobs taken are
  handed back.  No key and no value changes, and the invariant is kept.\<close>

theorem compact_refines:
  assumes "db_inv H u D" and "db_room (n + 1) u"
  shows "if job_spots D u = {} then upd_compact H u = Inl (Err ''recv'')
    else \<exists>u' D'. upd_compact H u = Inr u' \<and> moves (upd_log_end u) D u D' u' \<and> db_inv H u' D' \<and> live_kv D' = live_kv D \<and> db_room n u'"
  using us.compact_ok [OF assms(1) [unfolded db_inv_def], of n] assms(2)
  by (cases "job_spots D u = {}") (auto simp: db_inv_def db_room_def)


section \<open>A shard after its creation\<close>

text \<open>The sentries of the first shard, appended one after the other, and the index that lists them.\<close>

lemma sentry_hash_mono: "i < j \<Longrightarrow> j < 2 ^ 16 \<Longrightarrow> sentry_hash i < sentry_hash j"
proof -
  assume ij: "i < j" "j < 2 ^ 16"
  have u: "unit_of (sentry_hash i) = i" "unit_of (sentry_hash j) = j" using ij by (simp_all add: sentry_hash_unit)
  have "take 2 (sentry_hash i) < take 2 (sentry_hash j)"
    using be_less [of "take 2 (sentry_hash i)" "take 2 (sentry_hash j)"] u ij(1) by (simp add: unit_of_def)
  then show ?thesis
    using less_append_same_length [of "take 2 (sentry_hash i)" "take 2 (sentry_hash j)" "drop 2 (sentry_hash i)" "drop 2 (sentry_hash j)"] by simp
qed

lemma sentry_in_shard: "i < 4096 \<Longrightarrow> in_shard 0 (sentry_hash i)"
  using sentry_hash_mono [of i 4096] sentry_hash_unit [of i] by (simp add: in_shard_def shard_top_def layout_defs)

lemma sentry_small: "small (sentry_of i sn)" "i < 2 ^ 16 \<Longrightarrow> key_hash_of H (sentry_of i sn) = sentry_hash i"
  by (simp add: small_def sentry_of_def layout_defs)
    (simp add: key_hash_of_def sentry_of_def sentry_hash_def u16_be_eq)

lemma sentry_layout_len: "length (entry_layout (sentry_of i sn) []) = 88"
  using length_entry_layout [of "sentry_of i sn" "[]"] sentry_len [of i sn] entry_ok_simps(2) [OF sentry_of_ok] by simp

definition demo_table :: "nat \<Rightarrow> table" where
  "demo_table n k = (if \<exists>i<n. k = sentry_hash i
     then (let i = unit_of k in Some (88 * i, sentry_of i (of_nat i), [])) else None)"

lemma demo_table_Suc:
  assumes "n < 2 ^ 16"
  shows "demo_table (Suc n) = (demo_table n)(sentry_hash n \<mapsto> (88 * n, sentry_of n (of_nat n), []))"
  using sentry_hash_unit [OF assms] by (auto simp: demo_table_def fun_eq_iff less_Suc_eq)

definition demo_updater :: "bytes option \<times> entry_buffer \<Rightarrow> updater" where
  "demo_updater w = \<lparr> u_shard_id = 0, u_writer = w, u_cache = ec_new, u_cipher = None, u_file = hp_empty,
     u_indexer = \<lparr>ix_units = [], ix_sizes = []\<rparr>, u_read_buf = [], u_prev_buf = [], u_curr_version = 0, u_sn_start = 0, u_sn_end = 4096,
     u_jobs = ring_new 1 \<lparr> cj_old_pos = 0, cj_entry_bz = [] \<rparr>, u_compact_done_pos = 0, u_utilization_div = 10,
     u_utilization_ratio = 7, u_compact_thres = 10000 \<rparr>"

lemma demo_tab:
  "n \<le> 4096 \<Longrightarrow> \<exists>w. tab_inv upd_store_ok upd_stored upd_log_end H (of_nat n) (demo_updater w) (demo_table n)
    \<and> upd_log_end (demo_updater w) = 88 * n"
proof (induction n)
  case 0
  let ?w = "(Some new_big_buf_boxed, fst (eb_new 0 0))"
  have "upd_store_ok (demo_updater ?w)"
    by (simp add: fresh_cache_misses upd_store_ok_def upd_log_end_def demo_updater_def eb_new_def eb_ok_def new_big_buf_boxed_def)
  then show ?case
    by (intro exI [of _ ?w]) (simp add: tab_inv_def demo_table_def rows_ok_def jobs_ok_def ring_new_def upd_log_end_def demo_updater_def eb_new_def)
next
  case (Suc n)
  then obtain w where w: "tab_inv upd_store_ok upd_stored upd_log_end H (of_nat n) (demo_updater w) (demo_table n)"
      "upd_log_end (demo_updater w) = 88 * n" by auto
  let ?e = "sentry_of n (of_nat n)" and ?u = "demo_updater w"
  have n: "n < 4096" "n < 2 ^ 16" using Suc.prems by simp_all
  have un: "unat (of_nat m :: u64) = m" if "m \<le> 4096" for m using that by (simp add: unat_of_nat)
  have "\<exists>w'. upd_append ?e [] ?u = Inr (of_nat (upd_log_end ?u), ?u\<lparr>u_writer := w'\<rparr>)
    \<and> tab_inv upd_store_ok upd_stored upd_log_end H (of_nat (Suc n)) (?u\<lparr>u_writer := w'\<rparr>) ((demo_table n)(sentry_hash n \<mapsto> (upd_log_end ?u, ?e, [])))
    \<and> upd_log_end ?u < upd_log_end (?u\<lparr>u_writer := w'\<rparr>) \<and> upd_log_end (?u\<lparr>u_writer := w'\<rparr>) \<le> upd_log_end ?u + BIG_BUF_SIZE
    \<and> upd_log_end (?u\<lparr>u_writer := w'\<rparr>) = upd_log_end ?u + length (entry_layout ?e [])"
  proof (rule us.tab_append [OF w(1)])
    show "in_shard (u_shard_id ?u) (sentry_hash n)" using sentry_in_shard [OF n(1)] by (simp add: demo_updater_def)
    show "unat (of_nat n :: u64) \<le> unat (e_serial_number ?e)" "unat (e_serial_number ?e) < unat (of_nat (Suc n) :: u64)"
      using un [of n] un [of "Suc n"] n(1) by (simp_all add: sentry_of_sel del: of_nat_Suc)
    show "upd_log_end ?u + BIG_BUF_SIZE \<le> 2 ^ 51" using w(2) n(1) by (simp add: layout_defs)
  qed (use sentry_small n in simp_all)
  then obtain w' where w': "tab_inv upd_store_ok upd_stored upd_log_end H (of_nat (Suc n)) (?u\<lparr>u_writer := w'\<rparr>) (demo_table (Suc n))"
      "upd_log_end (?u\<lparr>u_writer := w'\<rparr>) = 88 * n + 88"
    unfolding demo_table_Suc [OF n(2)] w(2) sentry_layout_len by blast
  have "?u\<lparr>u_writer := w'\<rparr> = demo_updater w'" by (simp add: demo_updater_def)
  then show ?case using w' by (intro exI [of _ w']) simp
qed


text \<open>A unit with one leaf of capacity two that holds the pair \<open>(0, v)\<close>.\<close>

definition sentry_unit :: "i64 \<Rightarrow> index_unit" where
  "sentry_unit v = \<lparr>u_bt = [(0, 0)],
     u_bufs = \<lparr>lb_list = [u16_le 2 @ u16_le 1 @ enc_kv (0, v) @ replicate 12 0], lb_offset = 28\<rparr>,
     u_last_size = 0, u_change_count = 0, u_temp_vec = []\<rparr>"

lemma sentry_unit_rep:
  assumes v: "unat v < 2 ^ 48"
  shows "unit_rep (sentry_unit v) [(0, [(0, v)])]"
proof -
  have cap: "lb_cap (u_bufs (sentry_unit v)) 0 = 2"
    by (simp add: lb_cap_def lb_buf_def sentry_unit_def pos_off_def pos_buf_def u16_le_def le_dec_enc)
  have live: "lb_live (u_bufs (sentry_unit v)) 0"
    unfolding lb_live_def cap by (simp add: sentry_unit_def pos_buf_def pos_off_def lb_buf_def)
  have get: "lb_get_leaf (u_bufs (sentry_unit v)) 0 = Inr (u16_le 1 @ enc_kv (0, v) @ replicate 12 0)"
    unfolding lb_get_live [OF live] cap by (simp add: lb_buf_def sentry_unit_def pos_off_def pos_buf_def)
  have lo: "map lo_pair [(0, v)] = [(0, v)]" by (simp add: lo_pair_def lo48_def)
  have "leaf_rep (u16_le 1 @ enc_kv (0, v) @ replicate 12 0) (map lo_pair [(0, v)])"
    unfolding lo by (rule leaf_repI [where rest = "replicate 12 0"]) (use v in \<open>simp_all add: small_kv_def\<close>)
  then have "holds (u_bufs (sentry_unit v)) (0, 0) (0, [(0, v)])" by (rule holdsI [OF get])
  moreover have "lb_ok (u_bufs (sentry_unit v)) {0}" using live by (simp add: lb_ok_def sentry_unit_def)
  moreover have "leaves_wf [(0, [(0, v)])]" using v by (simp add: leaves_wf_def leaf_wf_def hi16_def)
  ultimately show ?thesis by (simp add: unit_rep_def) (simp add: sentry_unit_def)
qed

lemma sentry_unit_fits: "unat v < 2 ^ 48 \<Longrightarrow> unit_fits (sentry_unit v) [(0, v)]"
  using sentry_unit_rep [of v]
  by (auto simp: unit_fits_def lb_room_def sentry_unit_def leaves_fit_def intro!: exI [of _ "[(0, [(0, v)])]"])

definition demo_index :: "index_unit indexer" where
  "demo_index = \<lparr>ix_units = map (\<lambda>i. sentry_unit (of_nat (11 * i))) [0..<65536], ix_sizes = (replicate SHARD_COUNT 0)[0 := 4096]\<rparr>"

lemma key56_sentry: "n < 2 ^ 16 \<Longrightarrow> key56 (sentry_hash n) = 0"
proof -
  assume n: "n < 2 ^ 16"
  have "take 7 (drop 2 (sentry_hash n)) = replicate 7 0" using n by (simp add: sentry_hash_def u16_be_def)
  moreover have "le_dec (replicate m 0) = 0" for m by (induction m) simp_all
  ultimately show ?thesis by (simp add: key56_def)
qed

lemma demo_dom: "dom (demo_table n) = sentry_hash ` {..<n}"
  by (auto simp: demo_table_def dom_def Let_def)

lemma demo_rows: "i < n \<Longrightarrow> n \<le> 2 ^ 16 \<Longrightarrow> demo_table n (sentry_hash i) = Some (88 * i, sentry_of i (of_nat i), [])"
  using sentry_hash_unit [of i] by (auto simp: demo_table_def Let_def)

lemma demo_idx: "idx_ok demo_index 0 (demo_table 4096)"
proof -
  let ?vs = "map (\<lambda>i. [(0 :: u64, of_nat (11 * i) :: i64)]) [0..<65536]" and ?D = "demo_table 4096"
  have fit: "unit_fits (sentry_unit (of_nat (11 * i))) [(0, of_nat (11 * i))]" if "i < 65536" for i
    using that by (intro sentry_unit_fits) (simp add: unat_of_nat del: of_nat_mult)
  have "indexer_rep unit_pairs demo_index ?vs"
    using fit iu.fit_rep by (auto simp: indexer_rep_def demo_index_def list_all2_conv_all_nth)
  moreover have "idx_pairs ?vs 0 ?D"
    unfolding idx_pairs_def
  proof (intro allI impI)
    fix i :: nat assume i: "i < 2 ^ 16" "i div SHARD_DIV = 0"
    then have i': "i < 4096" by (simp add: layout_defs div_eq_0_iff)
    have "unit_keys ?D i = {sentry_hash i}" using i' sentry_hash_unit by (auto simp: unit_keys_def demo_dom)
    moreover have "pos_of ?D (sentry_hash i) div 8 = 11 * i" using demo_rows [of i 4096] i' by (simp add: pos_of_def)
    ultimately show "distinct (?vs ! i) \<and> set (?vs ! i) = row_pair ?D ` unit_keys ?D i"
      using i key56_sentry [OF i(1)] by (simp add: row_pair_def)
  qed
  moreover have "card (dom ?D) = 4096"
  proof -
    have "inj_on sentry_hash {..<4096}"
      by (rule inj_on_inverseI [of _ unit_of]) (simp add: sentry_hash_unit)
    then show ?thesis by (simp add: demo_dom card_image)
  qed
  ultimately show ?thesis by (auto simp: idx_ok_def demo_index_def layout_defs)
qed


lemma demo_chain: "sentries_ok 0 (demo_table 4096)" "chain_ok 0 (demo_table 4096)"
proof -
  let ?D = "demo_table 4096"
  have sen: "sentries 0 = sentry_hash ` {..<4096}" by (auto simp: sentries_def layout_defs div_eq_0_iff)
  have ent: "ent_of ?D (sentry_hash i) = sentry_of i (of_nat i)" if "i < 4096" for i
    using demo_rows [of i 4096] that by (simp add: ent_of_def)
  show "sentries_ok 0 ?D" using ent by (auto simp: sentries_ok_def sen demo_dom) (simp_all add: sentry_of_def)
  show "chain_ok 0 ?D"
    unfolding chain_ok_def
  proof
    fix k assume "k \<in> dom ?D"
    then obtain i where i: "i < 4096" "k = sentry_hash i" by (auto simp: demo_dom)
    have "nxt (shard_top 0) (dom ?D) k = sentry_hash (Suc i)"
    proof (rule nxt_eqI)
      show "finite (dom ?D)" by (simp add: demo_dom)
      show "sentry_hash (Suc i) = shard_top 0 \<or> sentry_hash (Suc i) \<in> dom ?D \<and> k < sentry_hash (Suc i)"
        using i sentry_hash_mono [of i "Suc i"] by (cases "Suc i = 4096") (auto simp: shard_top_def layout_defs demo_dom)
      show "sentry_hash (Suc i) \<le> shard_top 0"
        using i sentry_hash_mono [of "Suc i" 4096] by (cases "Suc i = 4096") (auto simp: shard_top_def layout_defs)
      fix x assume "x \<in> dom ?D" "k < x"
      then obtain j where j: "j < 4096" "x = sentry_hash j" by (auto simp: demo_dom)
      have "i < j"
      proof (rule ccontr)
        assume "\<not> i < j"
        then have "sentry_hash j \<le> sentry_hash i" using sentry_hash_mono [of j i] i by (cases "i = j") auto
        then show False using \<open>k < x\<close> i j by simp
      qed
      then show "sentry_hash (Suc i) \<le> x" using sentry_hash_mono [of "Suc i" j] j by (cases "Suc i = j") auto
    qed
    then show "e_next_key_hash (ent_of ?D k) = nxt (shard_top 0) (dom ?D) k" using ent [OF i(1)] i(2) by (simp add: sentry_of_sel)
  qed
qed

lemma demo_live: "live_kv (demo_table n) = Map.empty"
  by (rule ext) (simp add: live_kv_def demo_table_def sentry_of_def Let_def)

abbreviation demo_hash :: "bytes \<Rightarrow> hash32" where "demo_hash \<equiv> \<lambda>_. [0, 1, 1] @ replicate 29 0"

lemma demo_db: "\<exists>u. db_inv H u (demo_table 4096) \<and> u_shard_id u = 0 \<and> unit_roomy u (demo_hash []) \<and> db_room 100 u \<and> u_compact_thres u = 10000"
proof -
  obtain w where w: "tab_inv upd_store_ok upd_stored upd_log_end H (of_nat 4096) (demo_updater w) (demo_table 4096)"
      "upd_log_end (demo_updater w) = 88 * 4096" using demo_tab [of 4096 H] by auto
  let ?u = "(demo_updater w)\<lparr>u_indexer := demo_index\<rparr>"
  have "tab_inv upd_store_ok upd_stored upd_log_end H 4096 ?u (demo_table 4096)"
    using w(1) us.tab_frame [of ?u "demo_updater w"] by simp
  then have "db_inv H ?u (demo_table 4096)"
    using demo_idx demo_chain by (simp add: db_inv_def kv_inv_def demo_updater_def)
  moreover have u: "unit_of (demo_hash []) = 1" by (simp add: unit_of_def)
  have "unit_roomy ?u (demo_hash [])"
    unfolding unit_roomy_def u using sentry_unit_fits [of 11] by (auto simp: demo_index_def intro!: exI [of _ "[(0, 11)]"])
  moreover have "db_room 100 ?u" using w(2) by (simp add: db_room_def has_room_def upd_log_end_def demo_updater_def layout_defs)
  ultimately show ?thesis by (intro exI [of _ ?u]) (simp add: demo_updater_def)
qed

lemma demo_alone: "same9 (demo_table 4096) (demo_hash []) = {}" "in_shard 0 (demo_hash [])" "kv_fits [1] [2]" "kv_fits [1] [3]"
proof -
  have "take 9 (sentry_hash i) ! 2 = 0" if "i < 4096" for i
    using that by (simp add: sentry_hash_def nth_append u16_be_def)
  then have "take 9 (sentry_hash i) \<noteq> take 9 (demo_hash [])" if "i < 4096" for i using that by (auto dest!: arg_cong [of _ _ "\<lambda>l. l ! 2"])
  then show "same9 (demo_table 4096) (demo_hash []) = {}" by (auto simp: same9_def demo_dom)
  have "unit_of (demo_hash []) = 1" by (simp add: unit_of_def)
  moreover have "demo_hash [] < sentry_hash 4096" by (simp add: sentry_hash_def u16_be_eq unat_of_nat)
  ultimately show "in_shard 0 (demo_hash [])" by (simp add: in_shard_def shard_top_def layout_defs)
  show "kv_fits [1] [2]" "kv_fits [1] [3]" by (simp_all add: kv_fits_def layout_defs)
qed


text \<open>Below the threshold no compaction is due.\<close>

lemma not_due: "u_compact_thres u = 10000 \<Longrightarrow> card (dom D) < 10000 \<Longrightarrow> \<not> compaction_due u D sn"
  by (simp add: compaction_due_def is_compactible_def Let_def word_less_nat_alt unat_of_nat)

lemma demo_card: "card (dom (created (demo_table 4096) at sn v kh key val)) < 4100"
proof -
  have "prv (dom (demo_table 4096)) kh \<in> dom (created (demo_table 4096) at sn v kh key val)" by (simp add: created_def Let_def)
  have "card (dom (demo_table 4096)) \<le> 4096" unfolding demo_dom using card_image_le [of "{..<4096}" sentry_hash] by simp
  moreover have "card (dom (created (demo_table 4096) at sn v kh key val)) \<le> Suc (Suc (card (dom (demo_table 4096))))"
    by (auto simp: created_def Let_def card_insert_if demo_dom)
  ultimately show ?thesis by simp
qed

lemma demo_db_live: "\<exists>u D. db_inv demo_hash u D \<and> live_kv D = [demo_hash [1] \<mapsto> ([1], [2])] \<and> db_room 90 u
    \<and> u_compact_thres u = 10000 \<and> card (dom D) < 4100"
proof -
  obtain u where u: "db_inv demo_hash u (demo_table 4096)" "u_shard_id u = 0" "unit_roomy u (demo_hash [1])" "db_room 100 u" "u_compact_thres u = 10000"
    using demo_db [of demo_hash] by blast
  have r: "has_room (Suc (Suc 90)) (upd_log_end u) (u_sn_end u)"
    using room_less [of "Suc (Suc 90)" 8] u(4) by (simp add: db_room_def)
  have k: "in_shard (u_shard_id u) (demo_hash [1])" using demo_alone(2) u(2) by simp
  show ?thesis
    using us.create_ok [where key = "[1]" and val = "[2]", OF u(1) [unfolded db_inv_def] k demo_alone(1,3) r u(3)] demo_live demo_card u(5)
    by (fastforce simp: db_inv_def db_room_def)
qed

lemma not_sentry_key: "\<forall>i. [x] \<noteq> sentry_hash i"
  using length_sentry_hash by (metis length_Cons list.size(3) numeral_eq_iff One_nat_def semiring_norm(85) numeral_One)

theorem write_kv_refines_witness:
  "\<exists>u D u' D'. db_inv demo_hash u D \<and> live_kv D = [demo_hash [1] \<mapsto> ([1], [2])]
    \<and> upd_write_kv demo_hash (demo_hash [1]) [1] [3] u = Inr u' \<and> db_inv demo_hash u' D' \<and> live_kv D' = [demo_hash [1] \<mapsto> ([1], [3])]"
proof -
  obtain u D where u: "db_inv demo_hash u D" "live_kv D = [demo_hash [1] \<mapsto> ([1], [2])]" "db_room (88 + 2) u"
      "u_compact_thres u = 10000" "card (dom D) < 4100" using demo_db_live by auto
  have l: "live_kv D (demo_hash [1]) = Some ([1], [2])" using u(2) by simp
  let ?D = "written D (upd_log_end u) (u_sn_end u) (u_curr_version u) (demo_hash [1]) [1] [3]"
  have "card (dom ?D) < 10000" using u(5) by (auto simp: written_def card_insert_if us.kv_rows(3) [OF u(1) [unfolded db_inv_def]])
  note nd = not_due [OF u(4) this]
  from write_kv_refines [where key = "[1]" and val = "[3]", OF u(1) l not_sentry_key demo_alone(4) u(3)]
  have d: "live_kv ?D = (live_kv D)(demo_hash [1] \<mapsto> ([1], [3]))" "db_outcome demo_hash 88 1 u ?D (upd_write_kv demo_hash (demo_hash [1]) [1] [3] u)"
    by (simp_all only: Let_def)
  then obtain u' where "upd_write_kv demo_hash (demo_hash [1]) [1] [3] u = Inr u'" "db_inv demo_hash u' ?D"
    using nd by (auto simp: db_outcome_def Let_def)
  then show ?thesis using u(1,2) d(1) by (intro exI [of _ u] exI [of _ D] exI [of _ u'] exI [of _ ?D]) simp
qed

theorem create_kv_refines_witness:
  "\<exists>u u' D'. db_inv demo_hash u (demo_table 4096) \<and> live_kv (demo_table 4096) = Map.empty
    \<and> upd_create_kv demo_hash (demo_hash [1]) [1] [2] u = Inr u' \<and> db_inv demo_hash u' D' \<and> live_kv D' = [demo_hash [1] \<mapsto> ([1], [2])]"
proof -
  obtain u where u: "db_inv demo_hash u (demo_table 4096)" "u_shard_id u = 0" "unit_roomy u (demo_hash [1])" "db_room (96 + 4) u"
      "u_compact_thres u = 10000" using demo_db [of demo_hash] by auto
  have k: "in_shard (u_shard_id u) (demo_hash [1])" using demo_alone(2) u(2) by simp
  let ?D = "created (demo_table 4096) (upd_log_end u) (u_sn_end u) (u_curr_version u) (demo_hash [1]) [1] [2]"
  note nd = not_due [OF u(5) less_trans [OF demo_card], of "upd_log_end u" "u_sn_end u" "u_curr_version u" "demo_hash [1]" "[1]" "[2]"]
  from create_kv_refines [where key = "[1]" and val = "[2]", OF u(1) k demo_alone(1,3) u(3,4)]
  have d: "live_kv ?D = (live_kv (demo_table 4096))(demo_hash [1] \<mapsto> ([1], [2]))"
      "db_outcome demo_hash 96 2 u ?D (upd_create_kv demo_hash (demo_hash [1]) [1] [2] u)"
    by (simp_all only: Let_def)
  then obtain u' where "upd_create_kv demo_hash (demo_hash [1]) [1] [2] u = Inr u'" "db_inv demo_hash u' ?D"
    using nd by (auto simp: db_outcome_def Let_def)
  then show ?thesis using u(1) d(1) demo_live by (intro exI [of _ u] exI [of _ u'] exI [of _ ?D]) simp
qed

theorem delete_kv_refines_witness:
  "\<exists>u D u' D'. live_kv D = [demo_hash [1] \<mapsto> ([1], [2])] \<and> upd_delete_kv (demo_hash [1]) [1] u = Inr u'
    \<and> db_inv demo_hash u' D' \<and> live_kv D' = Map.empty"
proof -
  obtain u D where u: "db_inv demo_hash u D" "live_kv D = [demo_hash [1] \<mapsto> ([1], [2])]" "db_room (89 + 1) u" using demo_db_live by auto
  have l: "live_kv D (demo_hash [1]) = Some ([1], [2])" using u(2) by simp
  from delete_kv_refines [where key = "[1]", OF u(1) l not_sentry_key u(3)] obtain u' D' where
    "upd_delete_kv (demo_hash [1]) [1] u = Inr u'" "db_inv demo_hash u' D'" "live_kv D' = (live_kv D)(demo_hash [1] := None)" by blast
  then show ?thesis using u(2) by (intro exI [of _ u] exI [of _ D] exI [of _ u'] exI [of _ D']) simp
qed

theorem compact_refines_witness:
  "\<exists>u D u' D'. db_inv demo_hash u D \<and> upd_compact demo_hash u = Inr u' \<and> moves (upd_log_end u) D u D' u'
    \<and> db_inv demo_hash u' D' \<and> live_kv D' = live_kv D"
proof -
  let ?job = "\<lparr> cj_old_pos = 0, cj_entry_bz = entry_layout (sentry_of 0 0) [] \<rparr>" and ?D = "demo_table 4096"
  obtain u where u: "db_inv demo_hash u ?D" "u_shard_id u = 0" "db_room (99 + 1) u" using demo_db [of demo_hash] by auto
  let ?r = "\<lparr> rc_size = 1, rc_fwd = [?job], rc_bck = [] \<rparr>"
  have D0: "?D (sentry_hash 0) = Some (0, sentry_of 0 0, [])" using demo_rows [of 0 4096] by simp
  have z: "pos_of ?D k = 0 \<Longrightarrow> k = sentry_hash 0" if "k \<in> dom ?D" for k
    using that demo_rows [of _ 4096] by (auto simp: demo_dom pos_of_def)
  have "0 < upd_log_end u" using rows_okD(8) [where D = ?D, OF us.kv_rows(1) [OF u(1) [unfolded db_inv_def]] D0] by simp
  then have "job_ok demo_hash 0 (upd_log_end u) ?D ?job"
    unfolding job_ok_def using sentry_small(1) [of 0 0] sentry_small(2) [of 0 demo_hash 0] sentry_in_shard [of 0] z D0
    by (intro exI [of _ 0] exI [of _ "sentry_of 0 0"] exI [of _ "[]"]) auto
  then have inv: "db_inv demo_hash (u\<lparr>u_jobs := ?r\<rparr>) ?D"
    unfolding db_inv_def by (intro us.kv_jobs) (use u(1,2) in \<open>simp_all add: db_inv_def jobs_ok_def\<close>)
  have room: "db_room (99 + 1) (u\<lparr>u_jobs := ?r\<rparr>)" using u(3) by (simp add: db_room_def upd_log_end_def)
  have "sentry_hash 0 \<in> dom ?D" "pos_of ?D (sentry_hash 0) = 0" using D0 by (auto simp: pos_of_def)
  then have "job_spots ?D (u\<lparr>u_jobs := ?r\<rparr>) \<noteq> {}" by (force simp: job_spots_def spots_def)
  then show ?thesis using compact_refines [OF inv room] inv by auto
qed


end
