(* ===== verification/Meta.thy ===== *)
theory Meta
  imports EntryFile "HOL-Library.Signed_Division"
begin

text \<open>
  \<^verbatim>\<open>src/qmdb/src/metadb.rs\<close>: the metadata of a database, written at the end of each block to one of two files
  in turn, and the file \<^verbatim>\<open>prune_helper\<close> that keeps, every 500 blocks, the first twig of each shard.  The
  directory is a map from the suffix of a metadata file to its content, and the content of the history
  file.  The serialisation (\<^verbatim>\<open>bincode\<close>) is a pair of functions \<open>ser\<close>, \<open>deser\<close>.
\<close>

section \<open>Model\<close>

record meta_info =
  mi_curr_height :: i64
  mi_last_pruned_twig :: "(u64 \<times> i64) list"
  mi_next_serial_num :: "u64 list"
  mi_oldest_active_sn :: "u64 list"
  mi_oldest_active_file_pos :: "i64 list"
  mi_root_hash :: "hash32 list"
  mi_root_hash_by_height :: "hash32 list"
  mi_edge_nodes :: "bytes list"
  mi_twig_file_sizes :: "i64 list"
  mi_entry_file_sizes :: "i64 list"
  mi_first_twig_at_height :: "(u64 \<times> i64) list"
  mi_extra_data :: string

definition mi_new :: meta_info where
  "mi_new = \<lparr> mi_curr_height = 0, mi_last_pruned_twig = replicate SHARD_COUNT (0, 0), mi_next_serial_num = replicate SHARD_COUNT 0,
     mi_oldest_active_sn = replicate SHARD_COUNT 0, mi_oldest_active_file_pos = replicate SHARD_COUNT 0,
     mi_root_hash = replicate SHARD_COUNT (replicate 32 0), mi_root_hash_by_height = [], mi_edge_nodes = replicate SHARD_COUNT [],
     mi_twig_file_sizes = replicate SHARD_COUNT 0, mi_entry_file_sizes = replicate SHARD_COUNT 0,
     mi_first_twig_at_height = replicate SHARD_COUNT (0, 0), mi_extra_data = [] \<rparr>"

record metadb =
  md_info :: meta_info
  md_files :: "int \<rightharpoonup> bytes"
  md_history :: bytes
  md_cursor :: nat
  md_extra :: "i64 \<rightharpoonup> string"
  md_cipher :: "cipher option"

text \<open>Decrypting a metadata file in place, and the plain bytes in it.\<close>

definition md_decrypt :: "cipher option \<Rightarrow> bytes \<Rightarrow> bytes result" where
  "md_decrypt c bz =
     (if length bz < TAG_SIZE + 8 then Inl (Panic ''meta db file size not correct'')
      else
       bindE (unwrap ''called unwrap on None'' c) (\<lambda>c.
       let nonce = take 8 bz @ replicate (NONCE_SIZE - 8) 0; tag_start = length bz - TAG_SIZE; tag = drop tag_start bz in
       bindE (slice bz 8 tag_start) (\<lambda>payload.
       bindE (unwrap ''aead::Error'' (decrypt_detached c nonce payload tag)) (\<lambda>dec. write_at bz 8 dec))))"

definition md_plain :: "cipher option \<Rightarrow> bytes \<Rightarrow> bytes result" where
  "md_plain c bz = (case c of None \<Rightarrow> Inr bz | Some _ \<Rightarrow> bindE (md_decrypt c bz) (\<lambda>bz. slice bz 8 (length bz - TAG_SIZE)))"

definition md_reload_from_file :: "(bytes \<Rightarrow> meta_info option) \<Rightarrow> metadb \<Rightarrow> metadb result" where
  "md_reload_from_file deser db =
     bindE (case md_files db 0 of None \<Rightarrow> Inr db
       | Some bz \<Rightarrow> bindE (md_plain (md_cipher db) bz) (\<lambda>bz.
           case deser bz of Some info \<Rightarrow> Inr (db\<lparr>md_info := info\<rparr>) | None \<Rightarrow> Inr db)) (\<lambda>db.
     case md_files db 1 of None \<Rightarrow> Inr db
     | Some bz \<Rightarrow> bindE (md_plain (md_cipher db) bz) (\<lambda>bz.
         case deser bz of
           Some info \<Rightarrow> Inr (if sint (mi_curr_height (md_info db)) < sint (mi_curr_height info) then db\<lparr>md_info := info\<rparr> else db)
         | None \<Rightarrow> Inr db))"

text \<open>The history file is opened for reading and writing, with the cursor at its start.\<close>

definition md_with_dir :: "(bytes \<Rightarrow> meta_info option) \<Rightarrow> (int \<rightharpoonup> bytes) \<Rightarrow> bytes \<Rightarrow> cipher option \<Rightarrow> metadb result" where
  "md_with_dir deser files history c =
     md_reload_from_file deser \<lparr> md_info = mi_new, md_files = files, md_history = history, md_cursor = 0,
       md_extra = Map.empty, md_cipher = c \<rparr>"

definition md_get_extra_data :: "metadb \<Rightarrow> string" where "md_get_extra_data db = mi_extra_data (md_info db)"

definition md_insert_extra_data :: "i64 \<Rightarrow> string \<Rightarrow> metadb \<Rightarrow> metadb" where
  "md_insert_extra_data height d db = db\<lparr>md_extra := (md_extra db)(height \<mapsto> d)\<rparr>"

definition history_write :: "bytes \<Rightarrow> metadb \<Rightarrow> metadb" where
  "history_write bz db = db\<lparr>md_history := take (md_cursor db) (md_history db) @ bz @ drop (md_cursor db + length bz) (md_history db),
     md_cursor := md_cursor db + length bz\<rparr>"

definition history_record :: "u64 \<times> i64 \<Rightarrow> bytes" where
  "history_record r = u64_le (fst r) @ u64_le (snd r)"

text \<open>The position of a record; \<^verbatim>\<open>n as usize - 1\<close> wraps.\<close>

definition history_pos :: "i64 \<Rightarrow> nat \<Rightarrow> nat \<Rightarrow> nat" where
  "history_pos height shard_id width =
     unat (((word_of_int (sint height sdiv PRUNE_EVERY_NBLOCKS) - 1) * of_nat SHARD_COUNT + of_nat shard_id) * of_nat width :: u64)"

definition md_commit_history :: "metadb \<Rightarrow> metadb result" where
  "md_commit_history db =
     bindE (foldE (\<lambda>shard_id (data, db).
       bindE (index (mi_first_twig_at_height (md_info db)) shard_id) (\<lambda>r.
       let bz = history_record r in
       case md_cipher db of None \<Rightarrow> Inr (data @ bz, db)
       | Some c \<Rightarrow>
           let nonce = nonce_of (history_pos (mi_curr_height (md_info db)) shard_id (16 + TAG_SIZE)) in
           bindE (unwrap ''aead::Error'' (encrypt_detached c nonce bz)) (\<lambda>(enc, tag).
           Inr (data @ enc, history_write tag (history_write enc db))))) [0..<SHARD_COUNT] ([], db)) (\<lambda>(data, db).
     Inr (case md_cipher db of None \<Rightarrow> history_write data db | Some _ \<Rightarrow> db))"

definition md_commit :: "(meta_info \<Rightarrow> bytes) \<Rightarrow> metadb \<Rightarrow> (meta_info \<times> metadb) result" where
  "md_commit ser db =
     bindE (unwrap ''called unwrap on None'' (md_extra db (mi_curr_height (md_info db)))) (\<lambda>d.
     let info = (md_info db)\<lparr>mi_extra_data := d\<rparr>; height = mi_curr_height info;
         db = db\<lparr>md_info := info, md_extra := (md_extra db)(height := None)\<rparr>; bz = ser info in
     bindE (case md_cipher db of None \<Rightarrow> Inr bz
       | Some c \<Rightarrow>
           bindE (unwrap ''aead::Error'' (encrypt_detached c (u64_le height @ replicate (NONCE_SIZE - 8) 0) bz)) (\<lambda>(enc, tag).
           Inr (u64_le height @ enc @ tag))) (\<lambda>out.
     let db = db\<lparr>md_files := (md_files db)(sint height smod 2 \<mapsto> out)\<rparr> in
     bindE (if sint height smod PRUNE_EVERY_NBLOCKS = 0 \<and> 0 < sint height then md_commit_history db else Inr db) (\<lambda>db.
     Inr (md_info db, db))))"

definition md_set_curr_height :: "i64 \<Rightarrow> metadb \<Rightarrow> metadb" where
  "md_set_curr_height h db = db\<lparr>md_info := (md_info db)\<lparr>mi_curr_height := h\<rparr>\<rparr>"

definition md_get_curr_height :: "metadb \<Rightarrow> i64" where "md_get_curr_height db = mi_curr_height (md_info db)"

definition update_at :: "'a list \<Rightarrow> nat \<Rightarrow> 'a \<Rightarrow> 'a list result" where
  "update_at xs i v = (if i < length xs then Inr (xs[i := v]) else Inl (Panic ''index out of bounds''))"

definition md_set_twig_file_size :: "nat \<Rightarrow> i64 \<Rightarrow> metadb \<Rightarrow> metadb result" where
  "md_set_twig_file_size shard_id sz db =
     bindE (update_at (mi_twig_file_sizes (md_info db)) shard_id sz) (\<lambda>xs.
     Inr (db\<lparr>md_info := (md_info db)\<lparr>mi_twig_file_sizes := xs\<rparr>\<rparr>))"

definition md_get_twig_file_size :: "nat \<Rightarrow> metadb \<Rightarrow> i64 result" where
  "md_get_twig_file_size shard_id db = index (mi_twig_file_sizes (md_info db)) shard_id"

definition md_set_entry_file_size :: "nat \<Rightarrow> i64 \<Rightarrow> metadb \<Rightarrow> metadb result" where
  "md_set_entry_file_size shard_id sz db =
     bindE (update_at (mi_entry_file_sizes (md_info db)) shard_id sz) (\<lambda>xs.
     Inr (db\<lparr>md_info := (md_info db)\<lparr>mi_entry_file_sizes := xs\<rparr>\<rparr>))"

definition md_get_entry_file_size :: "nat \<Rightarrow> metadb \<Rightarrow> i64 result" where
  "md_get_entry_file_size shard_id db = index (mi_entry_file_sizes (md_info db)) shard_id"

definition md_set_first_twig_at_height :: "nat \<Rightarrow> i64 \<Rightarrow> u64 \<Rightarrow> i64 \<Rightarrow> metadb \<Rightarrow> metadb result" where
  "md_set_first_twig_at_height shard_id height twig_id entry_file_size db =
     (if sint height smod PRUNE_EVERY_NBLOCKS = 0
      then bindE (update_at (mi_first_twig_at_height (md_info db)) shard_id (twig_id, entry_file_size)) (\<lambda>xs.
        Inr (db\<lparr>md_info := (md_info db)\<lparr>mi_first_twig_at_height := xs\<rparr>\<rparr>))
      else Inr db)"

text \<open>A positioned read into a zeroed buffer; the kernel refuses a position that is negative as an
  \<^verbatim>\<open>i64\<close>, and reads nothing past the end of the file.\<close>

definition history_read :: "bytes \<Rightarrow> nat \<Rightarrow> nat \<Rightarrow> bytes result" where
  "history_read file pos n =
     (if 2 ^ 63 \<le> pos then Inl (Panic ''Invalid argument (os error 22)'')
      else let got = take n (drop pos file) in Inr (got @ replicate (n - length got) 0))"

definition md_get_first_twig_at_height :: "nat \<Rightarrow> i64 \<Rightarrow> metadb \<Rightarrow> (u64 \<times> i64) result" where
  "md_get_first_twig_at_height shard_id height db =
     bindE (case md_cipher db of
         None \<Rightarrow> history_read (md_history db) (history_pos height shard_id 16) 16
       | Some c \<Rightarrow>
           let pos = history_pos height shard_id (16 + TAG_SIZE) in
           bindE (history_read (md_history db) pos 32) (\<lambda>buf.
           unwrap ''aead::Error'' (decrypt_detached c (nonce_of pos) (take 16 buf) (drop 16 buf)))) (\<lambda>buf.
     bindE (read_u64 (take 8 buf)) (\<lambda>twig_id.
     bindE (read_u64 (drop 8 buf)) (\<lambda>entry_file_size.
     Inr (twig_id, entry_file_size))))"

definition md_set_last_pruned_twig :: "nat \<Rightarrow> u64 \<Rightarrow> i64 \<Rightarrow> metadb \<Rightarrow> metadb result" where
  "md_set_last_pruned_twig shard_id twig_id ef_prune_to db =
     bindE (update_at (mi_last_pruned_twig (md_info db)) shard_id (twig_id, ef_prune_to)) (\<lambda>xs.
     Inr (db\<lparr>md_info := (md_info db)\<lparr>mi_last_pruned_twig := xs\<rparr>\<rparr>))"

definition md_get_last_pruned_twig :: "nat \<Rightarrow> metadb \<Rightarrow> (u64 \<times> i64) result" where
  "md_get_last_pruned_twig shard_id db = index (mi_last_pruned_twig (md_info db)) shard_id"

definition md_get_edge_nodes :: "nat \<Rightarrow> metadb \<Rightarrow> bytes result" where
  "md_get_edge_nodes shard_id db = index (mi_edge_nodes (md_info db)) shard_id"

definition md_set_edge_nodes :: "nat \<Rightarrow> bytes \<Rightarrow> metadb \<Rightarrow> metadb result" where
  "md_set_edge_nodes shard_id bz db =
     bindE (update_at (mi_edge_nodes (md_info db)) shard_id bz) (\<lambda>xs.
     Inr (db\<lparr>md_info := (md_info db)\<lparr>mi_edge_nodes := xs\<rparr>\<rparr>))"

definition md_get_next_serial_num :: "nat \<Rightarrow> metadb \<Rightarrow> u64 result" where
  "md_get_next_serial_num shard_id db = index (mi_next_serial_num (md_info db)) shard_id"

definition md_get_youngest_twig_id :: "nat \<Rightarrow> metadb \<Rightarrow> u64 result" where
  "md_get_youngest_twig_id shard_id db =
     bindE (index (mi_next_serial_num (md_info db)) shard_id) (\<lambda>sn. Inr (drop_bit TWIG_SHIFT sn))"

definition md_set_next_serial_num :: "nat \<Rightarrow> u64 \<Rightarrow> metadb \<Rightarrow> metadb result" where
  "md_set_next_serial_num shard_id sn db =
     bindE (update_at (mi_next_serial_num (md_info db)) shard_id sn) (\<lambda>xs.
     Inr (db\<lparr>md_info := (md_info db)\<lparr>mi_next_serial_num := xs\<rparr>\<rparr>))"

definition md_get_root_hash :: "nat \<Rightarrow> metadb \<Rightarrow> hash32 result" where
  "md_get_root_hash shard_id db = index (mi_root_hash (md_info db)) shard_id"

definition md_set_root_hash :: "nat \<Rightarrow> hash32 \<Rightarrow> metadb \<Rightarrow> metadb result" where
  "md_set_root_hash shard_id h db =
     bindE (update_at (mi_root_hash (md_info db)) shard_id h) (\<lambda>xs.
     Inr (db\<lparr>md_info := (md_info db)\<lparr>mi_root_hash := xs\<rparr>\<rparr>))"

definition md_get_hash_of_root_hash :: "i64 \<Rightarrow> metadb \<Rightarrow> hash32 result" where
  "md_get_hash_of_root_hash height db =
     (let is_prev_height = (height \<noteq> mi_curr_height (md_info db)); hs = mi_root_hash_by_height (md_info db) in
      if length hs = 2 then (if is_prev_height then index hs 0 else index hs 1)
      else if length hs = 1 then (if is_prev_height then Inr (replicate 32 0) else index hs 0)
      else Inr (replicate 32 0))"

definition md_get_oldest_active_sn :: "nat \<Rightarrow> metadb \<Rightarrow> u64 result" where
  "md_get_oldest_active_sn shard_id db = index (mi_oldest_active_sn (md_info db)) shard_id"

definition md_set_oldest_active_sn :: "nat \<Rightarrow> u64 \<Rightarrow> metadb \<Rightarrow> metadb result" where
  "md_set_oldest_active_sn shard_id i db =
     bindE (update_at (mi_oldest_active_sn (md_info db)) shard_id i) (\<lambda>xs.
     Inr (db\<lparr>md_info := (md_info db)\<lparr>mi_oldest_active_sn := xs\<rparr>\<rparr>))"

definition md_get_oldest_active_file_pos :: "nat \<Rightarrow> metadb \<Rightarrow> i64 result" where
  "md_get_oldest_active_file_pos shard_id db = index (mi_oldest_active_file_pos (md_info db)) shard_id"

definition md_set_oldest_active_file_pos :: "nat \<Rightarrow> i64 \<Rightarrow> metadb \<Rightarrow> metadb result" where
  "md_set_oldest_active_file_pos shard_id pos db =
     bindE (update_at (mi_oldest_active_file_pos (md_info db)) shard_id pos) (\<lambda>xs.
     Inr (db\<lparr>md_info := (md_info db)\<lparr>mi_oldest_active_file_pos := xs\<rparr>\<rparr>))"

definition md_init :: "(meta_info \<Rightarrow> bytes) \<Rightarrow> metadb \<Rightarrow> metadb result" where
  "md_init ser db =
     bindE (foldE (\<lambda>i db.
       bindE (md_set_last_pruned_twig i 0 0 db) (\<lambda>db.
       bindE (md_set_next_serial_num i 0 db) (\<lambda>db.
       bindE (md_set_oldest_active_sn i 0 db) (\<lambda>db.
       bindE (md_set_oldest_active_file_pos i 0 db) (\<lambda>db.
       bindE (md_set_twig_file_size i 0 db) (md_set_entry_file_size i 0))))))
       [0..<SHARD_COUNT] (md_set_curr_height 0 db)) (\<lambda>db.
     bindE (md_commit ser (md_insert_extra_data 0 [] db)) (\<lambda>(_, db). Inr db))"


section \<open>Commits and reloads without a cipher\<close>

lemma md_plain_None [simp]: "md_plain None bz = Inr bz"
  by (simp add: md_plain_def)

text \<open>What the readers of a metadata file make of it, and what the serialisation promises for one value.\<close>

definition md_read :: "(bytes \<Rightarrow> meta_info option) \<Rightarrow> bytes option \<Rightarrow> meta_info option" where
  "md_read deser f = (case f of None \<Rightarrow> None | Some bz \<Rightarrow> deser bz)"

definition ser_ok :: "(meta_info \<Rightarrow> bytes) \<Rightarrow> (bytes \<Rightarrow> meta_info option) \<Rightarrow> meta_info \<Rightarrow> bool" where
  "ser_ok ser deser m \<longleftrightarrow> deser (ser m) = Some m \<and> (\<forall>n < length (ser m). deser (take n (ser m)) = None)"

lemma md_read_simps [simp]: "md_read deser None = None" "md_read deser (Some bz) = deser bz"
  by (simp_all add: md_read_def)

lemma md_read_torn:
  "ser_ok ser deser m \<Longrightarrow> md_read deser (Some (take n (ser m))) = (if n < length (ser m) then None else Some m)"
  by (simp add: ser_ok_def)

definition md_latest :: "meta_info option \<Rightarrow> meta_info option \<Rightarrow> meta_info" where
  "md_latest a b = (let m = (case a of None \<Rightarrow> mi_new | Some m \<Rightarrow> m) in
     case b of None \<Rightarrow> m | Some m' \<Rightarrow> if sint (mi_curr_height m) < sint (mi_curr_height m') then m' else m)"

lemma md_with_dir_plain:
  "md_with_dir deser files history None = Inr \<lparr> md_info = md_latest (md_read deser (files 0)) (md_read deser (files 1)),
     md_files = files, md_history = history, md_cursor = 0, md_extra = Map.empty, md_cipher = None \<rparr>"
  by (auto simp: md_with_dir_def md_reload_from_file_def md_latest_def md_read_def Let_def split: option.splits)

lemma history_fold:
  assumes "md_cipher db = None" and "k \<le> length (mi_first_twig_at_height (md_info db))"
  shows "foldE (\<lambda>shard_id (data, db).
       bindE (index (mi_first_twig_at_height (md_info db)) shard_id) (\<lambda>r.
       let bz = history_record r in
       case md_cipher db of None \<Rightarrow> Inr (data @ bz, db)
       | Some c \<Rightarrow>
           let nonce = nonce_of (history_pos (mi_curr_height (md_info db)) shard_id (16 + TAG_SIZE)) in
           bindE (unwrap ''aead::Error'' (encrypt_detached c nonce bz)) (\<lambda>(enc, tag).
           Inr (data @ enc, history_write tag (history_write enc db))))) [0..<k] ([], db) =
     Inr (concat (map history_record (take k (mi_first_twig_at_height (md_info db)))), db)"
  using assms(2) by (induction k) (use assms(1) in \<open>auto simp: take_Suc_conv_app_nth\<close>)

definition history_block :: "meta_info \<Rightarrow> bytes" where
  "history_block m = concat (map history_record (mi_first_twig_at_height m))"

lemma md_commit_history_plain:
  assumes "md_cipher db = None" and "length (mi_first_twig_at_height (md_info db)) = SHARD_COUNT"
  shows "md_commit_history db = Inr (history_write (history_block (md_info db)) db)"
  using assms by (simp add: md_commit_history_def history_fold history_block_def del: bindE_eq_Inr)

lemma history_write_fields [simp]:
  "md_info (history_write bz db) = md_info db" "md_files (history_write bz db) = md_files db"
  "md_cipher (history_write bz db) = md_cipher db" "md_extra (history_write bz db) = md_extra db"
  by (simp_all add: history_write_def)

definition md_committed :: "(meta_info \<Rightarrow> bytes) \<Rightarrow> string \<Rightarrow> metadb \<Rightarrow> metadb" where
  "md_committed ser d db =
     (let info = (md_info db)\<lparr>mi_extra_data := d\<rparr>; height = mi_curr_height info;
          db = db\<lparr>md_info := info, md_extra := (md_extra db)(height := None), md_files := (md_files db)(sint height smod 2 \<mapsto> ser info)\<rparr> in
      if sint height smod PRUNE_EVERY_NBLOCKS = 0 \<and> 0 < sint height then history_write (history_block info) db else db)"

lemma md_committed_fields [simp]:
  "md_info (md_committed ser d db) = (md_info db)\<lparr>mi_extra_data := d\<rparr>"
  "md_files (md_committed ser d db) =
     (md_files db)(sint (mi_curr_height (md_info db)) smod 2 \<mapsto> ser ((md_info db)\<lparr>mi_extra_data := d\<rparr>))"
  "md_cipher (md_committed ser d db) = md_cipher db"
  by (simp_all add: md_committed_def Let_def)

lemma md_commit_plain:
  assumes "md_cipher db = None" and "length (mi_first_twig_at_height (md_info db)) = SHARD_COUNT"
    and "md_extra db (mi_curr_height (md_info db)) = Some d"
  shows "md_commit ser db = Inr ((md_info db)\<lparr>mi_extra_data := d\<rparr>, md_committed ser d db)"
  using assms by (simp add: md_commit_def md_committed_def Let_def md_commit_history_plain history_block_def del: bindE_eq_Inr)

text \<open>The state after a commit: the file of the parity of the height holds the metadata, the other
  file nothing that would be preferred to it.\<close>

definition md_stored :: "(meta_info \<Rightarrow> bytes) \<Rightarrow> (bytes \<Rightarrow> meta_info option) \<Rightarrow> metadb \<Rightarrow> bool" where
  "md_stored ser deser db \<longleftrightarrow> md_cipher db = None \<and> 0 \<le> sint (mi_curr_height (md_info db)) \<and>
     md_files db (sint (mi_curr_height (md_info db)) smod 2) = Some (ser (md_info db)) \<and>
     (case md_read deser (md_files db ((sint (mi_curr_height (md_info db)) + 1) smod 2)) of None \<Rightarrow> True
      | Some m \<Rightarrow> sint (mi_curr_height m) < sint (mi_curr_height (md_info db)))"

lemma smod_nonneg: "0 \<le> (a::int) \<Longrightarrow> 0 < b \<Longrightarrow> a smod b = a mod b"
  by (cases "a = 0") (simp_all add: smod_int_alt_def)

lemma sdiv_nonneg: "0 \<le> (a::int) \<Longrightarrow> 0 < b \<Longrightarrow> a sdiv b = a div b"
  by (cases "a = 0") (simp_all add: signed_divide_int_def)

lemma parity_cases:
  assumes "0 \<le> (h::int)"
  obtains "h smod 2 = 0" "(h + 1) smod 2 = 1" | "h smod 2 = 1" "(h + 1) smod 2 = 0"
proof -
  have "h smod 2 = h mod 2" "(h + 1) smod 2 = (h + 1) mod 2"
    using assms by (simp_all add: smod_nonneg)
  moreover have "h mod 2 = 0 \<and> (h + 1) mod 2 = 1 \<or> h mod 2 = 1 \<and> (h + 1) mod 2 = 0"
    by presburger
  ultimately show ?thesis using that by auto
qed

lemma md_latest_new_height: "0 < sint (mi_curr_height m) \<Longrightarrow> md_latest None (Some m) = m"
  by (simp add: md_latest_def mi_new_def)

lemma md_latest_Some [simp]: "md_latest (Some m) None = m"
  by (simp add: md_latest_def)

lemma md_latest_order:
  "sint (mi_curr_height m) < sint (mi_curr_height m') \<Longrightarrow> md_latest (Some m) (Some m') = m'"
  "sint (mi_curr_height m') < sint (mi_curr_height m) \<Longrightarrow> md_latest (Some m) (Some m') = m"
  by (simp_all add: md_latest_def)


lemma md_stored_latest:
  assumes "md_stored ser deser db" and "ser_ok ser deser (md_info db)" and files: "files = md_files db"
    and other: "md_read deser f = None \<or> (\<exists>m. md_read deser f = Some m \<and> sint (mi_curr_height m) = sint (mi_curr_height (md_info db)) + 1)"
  shows "md_latest (md_read deser ((files((sint (mi_curr_height (md_info db)) + 1) smod 2 := f)) 0))
      (md_read deser ((files((sint (mi_curr_height (md_info db)) + 1) smod 2 := f)) 1)) =
    (case md_read deser f of None \<Rightarrow> md_info db | Some m \<Rightarrow> m)"
proof -
  let ?m = "md_info db" and ?h = "sint (mi_curr_height (md_info db))"
  have h: "0 \<le> ?h" and here: "md_read deser (files (?h smod 2)) = Some ?m"
    using assms(1,2) by (auto simp: md_stored_def ser_ok_def files)
  show ?thesis
  proof (rule parity_cases [OF h])
    assume "?h smod 2 = 0" "(?h + 1) smod 2 = 1"
    with here other show ?thesis by (auto simp: md_latest_order)
  next
    assume p: "?h smod 2 = 1" "(?h + 1) smod 2 = 0"
    then have "0 < ?h" using h by (cases "?h = 0") auto
    with p here other show ?thesis by (auto simp: md_latest_order md_latest_new_height)
  qed
qed

lemma md_stored_committed:
  assumes "md_stored ser deser db" and "ser_ok ser deser (md_info db)"
    and "md_cipher db' = None" and "md_files db' = md_files db"
    and next_height: "sint (mi_curr_height (md_info db')) = sint (mi_curr_height (md_info db)) + 1"
  shows "md_stored ser deser (md_committed ser d db')"
proof -
  let ?h = "sint (mi_curr_height (md_info db))"
  have h: "0 \<le> ?h" and here: "md_files db (?h smod 2) = Some (ser (md_info db))"
    using assms(1) by (auto simp: md_stored_def)
  have "(?h + 1 + 1) smod 2 = ?h smod 2" "?h smod 2 \<noteq> (?h + 1) smod 2"
    using h by (simp_all add: smod_nonneg) presburger+
  with assms(2-) h here show ?thesis by (simp add: md_stored_def ser_ok_def)
qed

text \<open>C34. Without a cipher, a crash while the metadata of block \<open>h + 1\<close> is written loses no more than that
  block (with a cipher a torn file makes the decryption panic on reopening): whatever
  prefix of the new file reached the disk, reopening the directory gives the metadata of block \<open>h\<close>,
  and gives that of block \<open>h + 1\<close> exactly if all of it did. The completed commit leaves a state of
  which the same holds. The serialisation is assumed to read back its own output and to reject the
  proper prefixes of it.\<close>

theorem commit_crash_safe:
  assumes "md_stored ser deser db" and "ser_ok ser deser (md_info db)"
    and "md_cipher db' = None" and "md_files db' = md_files db"
    and "length (mi_first_twig_at_height (md_info db')) = SHARD_COUNT"
    and "sint (mi_curr_height (md_info db')) = sint (mi_curr_height (md_info db)) + 1"
    and "md_extra db' (mi_curr_height (md_info db')) = Some d"
    and "ser_ok ser deser ((md_info db')\<lparr>mi_extra_data := d\<rparr>)"
  shows "\<exists>info out. md_commit ser db' = Inr (info, out) \<and> info = (md_info db')\<lparr>mi_extra_data := d\<rparr> \<and> md_stored ser deser out \<and>
    (\<forall>n history. \<exists>r. md_with_dir deser ((md_files db)(sint (mi_curr_height info) smod 2 \<mapsto> take n (ser info))) history None = Inr r \<and>
       md_info r = (if n < length (ser info) then md_info db else info))"
proof -
  let ?info = "(md_info db')\<lparr>mi_extra_data := d\<rparr>"
  have "md_latest (md_read deser (((md_files db)(sint (mi_curr_height ?info) smod 2 \<mapsto> take n (ser ?info))) 0))
      (md_read deser (((md_files db)(sint (mi_curr_height ?info) smod 2 \<mapsto> take n (ser ?info))) 1)) =
    (if n < length (ser ?info) then md_info db else ?info)" for n
  proof -
    have torn: "md_read deser (Some (take n (ser ?info))) = (if n < length (ser ?info) then None else Some ?info)"
      using assms(8) by (rule md_read_torn)
    have "md_read deser (Some (take n (ser ?info))) = None \<or>
      (\<exists>m. md_read deser (Some (take n (ser ?info))) = Some m \<and> sint (mi_curr_height m) = sint (mi_curr_height (md_info db)) + 1)"
      unfolding torn using assms(6) by simp
    from md_stored_latest [OF assms(1,2) refl this] show ?thesis
      by (simp add: torn assms(6) del: fun_upd_apply md_read_simps)
  qed
  then show ?thesis
    using md_commit_plain [OF assms(3,5,7), of ser] md_stored_committed [OF assms(1-4,6), of d]
    by (simp add: md_with_dir_plain)
qed


text \<open>The first commit, on a new directory.\<close>

definition md_fresh :: metadb where
  "md_fresh = \<lparr> md_info = mi_new, md_files = Map.empty, md_history = [], md_cursor = 0, md_extra = Map.empty, md_cipher = None \<rparr>"

lemma foldE_idle: "(\<And>x. x \<in> set xs \<Longrightarrow> f x s = Inr s) \<Longrightarrow> foldE f xs s = Inr s"
  by (induction xs) (auto simp del: bindE_eq_Inr)

lemma update_at_replicate [simp]: "i < n \<Longrightarrow> update_at (replicate n v) i v = Inr (replicate n v)"
  by (simp add: update_at_def list_update_same_conv)

lemma md_init_fresh:
  "md_init ser md_fresh = Inr (md_fresh\<lparr>md_files := [0 \<mapsto> ser mi_new]\<rparr>)"
proof -
  let ?f = "\<lambda>i db. bindE (md_set_last_pruned_twig i 0 0 db) (\<lambda>db.
       bindE (md_set_next_serial_num i 0 db) (\<lambda>db.
       bindE (md_set_oldest_active_sn i 0 db) (\<lambda>db.
       bindE (md_set_oldest_active_file_pos i 0 db) (\<lambda>db.
       bindE (md_set_twig_file_size i 0 db) (md_set_entry_file_size i 0)))))"
  have f: "foldE ?f [0..<SHARD_COUNT] md_fresh = Inr md_fresh"
    by (rule foldE_idle) (simp add: md_set_last_pruned_twig_def md_set_next_serial_num_def md_set_oldest_active_sn_def
        md_set_oldest_active_file_pos_def md_set_twig_file_size_def md_set_entry_file_size_def md_fresh_def mi_new_def del: bindE_eq_Inr)
  have h: "md_set_curr_height 0 md_fresh = md_fresh"
    by (simp add: md_set_curr_height_def md_fresh_def mi_new_def)
  show ?thesis
    unfolding md_init_def h f
    by (simp add: md_insert_extra_data_def md_commit_def md_fresh_def mi_new_def Let_def fun_upd_idem_iff del: bindE_eq_Inr)
qed

lemma md_init_stored:
  "md_init ser md_fresh = Inr db \<Longrightarrow> md_stored ser deser db \<and> md_info db = mi_new"
  unfolding md_init_fresh by (auto simp: md_stored_def md_fresh_def mi_new_def smod_nonneg)

text \<open>A serialisation of the height alone suffices for a first block.\<close>

definition wit_ser :: "meta_info \<Rightarrow> bytes" where "wit_ser m = u64_le (mi_curr_height m)"

definition wit_deser :: "bytes \<Rightarrow> meta_info option" where
  "wit_deser bz = (if length bz \<noteq> 8 then None else case read_u64 bz of Inl _ \<Rightarrow> None | Inr h \<Rightarrow> Some (mi_new\<lparr>mi_curr_height := h\<rparr>))"

lemma length_wit_ser: "length (wit_ser m) = 8"
  by (simp add: wit_ser_def)

lemma wit_ser_ok: "ser_ok wit_ser wit_deser (mi_new\<lparr>mi_curr_height := h\<rparr>)"
  by (simp add: ser_ok_def wit_ser_def wit_deser_def)

theorem commit_crash_safe_witness:
  "\<exists>info out. md_commit wit_ser (md_fresh\<lparr>md_files := [0 \<mapsto> wit_ser mi_new], md_info := mi_new\<lparr>mi_curr_height := 1\<rparr>, md_extra := [1 \<mapsto> []]\<rparr>) =
      Inr (info, out) \<and> mi_curr_height info = 1 \<and>
    (\<forall>n history. \<exists>r. md_with_dir wit_deser ([0 \<mapsto> wit_ser mi_new, 1 \<mapsto> take n (wit_ser info)]) history None = Inr r \<and>
       md_info r = (if n < 8 then mi_new else info))"
proof -
  let ?db = "md_fresh\<lparr>md_files := [0 \<mapsto> wit_ser mi_new]\<rparr>"
  let ?db' = "?db\<lparr>md_info := mi_new\<lparr>mi_curr_height := 1\<rparr>, md_extra := [1 \<mapsto> []]\<rparr>"
  have st: "md_stored wit_ser wit_deser ?db" and new: "md_info ?db = mi_new"
    using md_init_stored [OF md_init_fresh] by auto
  have "ser_ok wit_ser wit_deser (md_info ?db)"
    using wit_ser_ok [of 0] by (simp add: md_fresh_def mi_new_def)
  moreover have same: "mi_new\<lparr>mi_curr_height := 1, mi_extra_data := []\<rparr> = mi_new\<lparr>mi_curr_height := 1\<rparr>"
    by (simp add: mi_new_def)
  moreover have "length (mi_first_twig_at_height mi_new) = SHARD_COUNT" "mi_curr_height mi_new = 0"
    by (simp_all add: mi_new_def)
  ultimately have "\<exists>info out. md_commit wit_ser ?db' = Inr (info, out) \<and> info = mi_new\<lparr>mi_curr_height := 1\<rparr> \<and> md_stored wit_ser wit_deser out \<and>
    (\<forall>n history. \<exists>r. md_with_dir wit_deser ([0 \<mapsto> wit_ser mi_new, sint (mi_curr_height info) smod 2 \<mapsto> take n (wit_ser info)]) history None = Inr r \<and>
       md_info r = (if n < length (wit_ser info) then mi_new else info))"
    using commit_crash_safe [OF st, where db' = ?db' and d = "[]"] wit_ser_ok [of 1] by (simp add: md_fresh_def cong: if_cong)
  then obtain out where "md_commit wit_ser ?db' = Inr (mi_new\<lparr>mi_curr_height := 1\<rparr>, out)"
    "\<forall>n history. \<exists>r. md_with_dir wit_deser ([0 \<mapsto> wit_ser mi_new, 1 smod 2 \<mapsto> take n (wit_ser (mi_new\<lparr>mi_curr_height := 1\<rparr>))]) history None = Inr r \<and>
       md_info r = (if n < length (wit_ser (mi_new\<lparr>mi_curr_height := 1\<rparr>)) then mi_new else mi_new\<lparr>mi_curr_height := 1\<rparr>)"
    by auto
  moreover have "(1::int) smod 2 = 1"
    by (simp add: smod_nonneg)
  ultimately show ?thesis
    by (intro exI [of _ "mi_new\<lparr>mi_curr_height := 1\<rparr>"] exI [of _ out]) (simp only: length_wit_ser, simp)
qed

section \<open>The history file\<close>

lemma length_history_record [simp]: "length (history_record r) = 16"
  by (simp add: history_record_def)

lemma length_concat_records: "length (concat (map history_record rs)) = 16 * length rs"
  by (induction rs) simp_all

lemma history_block_nth:
  assumes "s < length rs"
  shows "take 16 (drop (16 * s) (concat (map history_record rs) @ xs)) = history_record (rs ! s)"
  using assms
proof (induction rs arbitrary: s)
  case Nil
  then show ?case by simp
next
  case (Cons r rs)
  then show ?case by (cases s) (simp_all add: drop_skip)
qed

lemma history_pos_eq:
  assumes "sint height = 500 * (int k + 1)" and "s < 16"
  shows "history_pos height s 16 = 256 * k + 16 * s" and "256 * k + 16 * s < 2 ^ 63"
proof -
  have "sint height < 2 ^ 63" using sint_lt [of height] by simp
  then have k: "500 * (int k + 1) < 2 ^ 63" using assms(1) by simp
  then show small: "256 * k + 16 * s < 2 ^ 63" using assms(2) by simp
  have "sint height sdiv PRUNE_EVERY_NBLOCKS = int k + 1"
    using assms(1) by (simp add: sdiv_nonneg PRUNE_EVERY_NBLOCKS_def)
  then have "history_pos height s 16 = unat (of_nat (256 * k + 16 * s) :: u64)"
    by (simp add: history_pos_def SHARD_COUNT_def algebra_simps)
  also have "\<dots> = 256 * k + 16 * s"
    unfolding unat_of_nat using small by (intro mod_less) simp
  finally show "history_pos height s 16 = 256 * k + 16 * s" .
qed


lemma read_history_record [simp]:
  "bindE (read_u64 (take 8 (history_record r))) (\<lambda>a. bindE (read_u64 (drop 8 (history_record r))) (\<lambda>b. Inr (a, b))) = Inr r"
  by (simp add: history_record_def del: bindE_eq_Inr)

lemma get_first_twig_plain:
  assumes "md_cipher db = None" and "sint height = 500 * (int k + 1)" and "s < 16"
    and "take 16 (drop (256 * k + 16 * s) (md_history db)) = history_record r"
  shows "md_get_first_twig_at_height s height db = Inr r"
proof -
  have "history_read (md_history db) (history_pos height s 16) 16 = Inr (history_record r)"
    using history_pos_eq [OF assms(2,3)] assms(4) by (simp add: history_read_def)
  then show ?thesis by (simp add: md_get_first_twig_at_height_def assms(1) del: bindE_eq_Inr)
qed

lemma le_enc_zero: "le_enc n 0 = replicate n 0"
  by (induction n) simp_all

lemma get_first_twig_past_end:
  assumes "md_cipher db = None" and "sint height = 500 * (int k + 1)" and "s < 16"
    and "length (md_history db) \<le> 256 * k"
  shows "md_get_first_twig_at_height s height db = Inr (0, 0)"
proof -
  have "history_record (0, 0) = replicate 16 0"
    by (simp add: history_record_def u64_le_def le_enc_zero flip: replicate_add)
  then have "history_read (md_history db) (history_pos height s 16) 16 = Inr (history_record (0, 0))"
    using history_pos_eq [OF assms(2,3)] assms(4) by (simp add: history_read_def)
  then show ?thesis by (simp add: md_get_first_twig_at_height_def assms(1) del: bindE_eq_Inr)
qed

lemma committed_history:
  assumes "sint (mi_curr_height (md_info db)) = 500 * (int k + 1)"
  shows "md_history (md_committed ser d db) =
    take (md_cursor db) (md_history db) @ history_block (md_info db) @ drop (md_cursor db + length (history_block (md_info db))) (md_history db)"
  using assms by (simp add: md_committed_def Let_def history_write_def history_block_def smod_nonneg PRUNE_EVERY_NBLOCKS_def)

text \<open>C35. Without a cipher, at every 500th block the commit appends to the history file where each shard's entries of that
  block begin, and the pruner reads back exactly that, as long as the file is written by one run of the
  program from its beginning (its cursor at its end; what a restart does is shown below).\<close>

theorem first_twig_roundtrip:
  assumes "md_cipher db = None" and "length (mi_first_twig_at_height (md_info db)) = SHARD_COUNT"
    and "md_extra db (mi_curr_height (md_info db)) = Some d"
    and "sint (mi_curr_height (md_info db)) = 500 * (int k + 1)"
    and "length (md_history db) = 256 * k" and "md_cursor db = length (md_history db)" and "s < SHARD_COUNT"
  shows "\<exists>info out. md_commit ser db = Inr (info, out) \<and> md_cursor out = length (md_history out) \<and> length (md_history out) = 256 * (k + 1) \<and>
    md_get_first_twig_at_height s (mi_curr_height (md_info db)) out = Inr (mi_first_twig_at_height (md_info db) ! s) \<and>
    (\<forall>j < k. \<forall>h. sint h = 500 * (int j + 1) \<longrightarrow> md_get_first_twig_at_height s h out = md_get_first_twig_at_height s h db)"
proof -
  let ?out = "md_committed ser d db"
  have s: "s < 16" using assms(7) by (simp add: SHARD_COUNT_def)
  have len: "length (history_block (md_info db)) = 256"
    using assms(2) by (simp add: history_block_def length_concat_records SHARD_COUNT_def)
  have hist: "md_history ?out = md_history db @ history_block (md_info db)"
    using assms(5,6) by (simp add: committed_history [OF assms(4)] len)
  have cur: "md_cursor ?out = 256 * (k + 1)"
    using assms(4-6) len by (simp add: md_committed_def Let_def history_write_def history_block_def smod_nonneg PRUNE_EVERY_NBLOCKS_def)
  have "md_get_first_twig_at_height s (mi_curr_height (md_info db)) ?out = Inr (mi_first_twig_at_height (md_info db) ! s)"
    using history_block_nth [of s "mi_first_twig_at_height (md_info db)" "[]"] assms(2,7)
    by (intro get_first_twig_plain [OF _ assms(4) s])
      (simp_all add: assms(1) hist history_block_def drop_skip assms(5))
  moreover have "md_get_first_twig_at_height s h ?out = md_get_first_twig_at_height s h db"
    if "j < k" "sint h = 500 * (int j + 1)" for j h
  proof -
    have "256 * j + 16 * s + 16 \<le> 256 * k" using that(1) s by simp
    then have "take 16 (drop (256 * j + 16 * s) (md_history ?out)) = take 16 (drop (256 * j + 16 * s) (md_history db))"
      by (simp add: hist assms(5))
    then show ?thesis
      using history_pos_eq [OF that(2) s] assms(1) by (simp add: md_get_first_twig_at_height_def history_read_def del: bindE_eq_Inr)
  qed
  ultimately show ?thesis
    using md_commit_plain [OF assms(1-3), of ser] hist cur len assms(5) by simp
qed

text \<open>C37. After a restart the history file is written from its beginning again: the cursor of the reopened
  file is 0, so the commit of the next prune block overwrites the records of block 500 and leaves none
  for its own height, for which the pruner then reads twig 0 at position 0.\<close>

theorem first_twig_lost_after_restart:
  assumes "md_with_dir deser files history None = Inr opened" and "length history = 256 * k" and "0 < k"
    and "md_history db = md_history opened" and "md_cursor db = md_cursor opened" and "md_cipher db = md_cipher opened"
    and "length (mi_first_twig_at_height (md_info db)) = SHARD_COUNT"
    and "md_extra db (mi_curr_height (md_info db)) = Some d"
    and "sint (mi_curr_height (md_info db)) = 500 * (int k + 1)" and "s < SHARD_COUNT"
  shows "\<exists>info out. md_commit ser db = Inr (info, out) \<and> length (md_history out) = 256 * k \<and>
    md_get_first_twig_at_height s (mi_curr_height (md_info db)) out = Inr (0, 0) \<and>
    md_get_first_twig_at_height s 500 out = Inr (mi_first_twig_at_height (md_info db) ! s)"
proof -
  let ?out = "md_committed ser d db"
  have db: "md_history db = history" "md_cursor db = 0" "md_cipher db = None"
    using assms(1,4-6) by (auto simp: md_with_dir_plain)
  have s: "s < 16" using assms(10) by (simp add: SHARD_COUNT_def)
  have len: "length (history_block (md_info db)) = 256"
    using assms(7) by (simp add: history_block_def length_concat_records SHARD_COUNT_def)
  have hist: "md_history ?out = history_block (md_info db) @ drop 256 history"
    using db by (simp add: committed_history [OF assms(9)] len)
  then have l: "length (md_history ?out) = 256 * k" using assms(2,3) len by simp
  have "md_get_first_twig_at_height s (mi_curr_height (md_info db)) ?out = Inr (0, 0)"
    using l by (intro get_first_twig_past_end [OF _ assms(9) s]) (simp_all add: db)
  moreover have "md_get_first_twig_at_height s 500 ?out = Inr (mi_first_twig_at_height (md_info db) ! s)"
    using history_block_nth [of s "mi_first_twig_at_height (md_info db)" "drop 256 history"] assms(7,10)
    by (intro get_first_twig_plain [OF _ _ s, where k = 0]) (simp_all add: db hist history_block_def)
  ultimately show ?thesis
    using md_commit_plain [OF db(3) assms(7,8), of ser] l by simp
qed


definition wit_prune_db :: "i64 \<Rightarrow> bytes \<Rightarrow> metadb" where
  "wit_prune_db height history = md_fresh\<lparr>md_info := mi_new\<lparr>mi_curr_height := height, mi_first_twig_at_height := replicate SHARD_COUNT (3, 7)\<rparr>,
     md_extra := [height \<mapsto> []], md_history := history\<rparr>"

lemma wit_prune_db_fields:
  "md_cipher (wit_prune_db h hist) = None" "md_history (wit_prune_db h hist) = hist" "md_cursor (wit_prune_db h hist) = 0"
  "mi_curr_height (md_info (wit_prune_db h hist)) = h" "md_extra (wit_prune_db h hist) h = Some []"
  "mi_first_twig_at_height (md_info (wit_prune_db h hist)) = replicate SHARD_COUNT (3, 7)"
  by (simp_all add: wit_prune_db_def md_fresh_def)

theorem first_twig_roundtrip_witness:
  "\<exists>info out. md_commit wit_ser (wit_prune_db 500 []) = Inr (info, out) \<and> length (md_history out) = 256 \<and>
     md_get_first_twig_at_height 2 500 out = Inr (3, 7)"
  using first_twig_roundtrip [of "wit_prune_db 500 []" "[]" 0 2 wit_ser]
  by (auto simp: wit_prune_db_fields SHARD_COUNT_def)

theorem first_twig_lost_after_restart_witness:
  "\<exists>info out. md_commit wit_ser (wit_prune_db 1000 (replicate 256 1)) = Inr (info, out) \<and>
     md_get_first_twig_at_height 2 1000 out = Inr (0, 0) \<and> md_get_first_twig_at_height 2 500 out = Inr (3, 7)"
  using first_twig_lost_after_restart [OF md_with_dir_plain, of "replicate 256 1" 1 "wit_prune_db 1000 (replicate 256 1)" wit_deser Map.empty "[]" 2 wit_ser]
  by (auto simp: wit_prune_db_fields SHARD_COUNT_def)

end
