(* ===== verification/Witness.thy ===== *)
theory Witness
  imports Tree EntryVec Tasks
begin

unbundle bit_operations_syntax

text \<open>
  \<^verbatim>\<open>src/qmdb/src/stateless/node.rs\<close>, \<^verbatim>\<open>utils.rs\<close> and \<^verbatim>\<open>witness.rs\<close>: the witness of a block for a stateless
  validator, a list of nodes of the shard's tree with their values before and after the block. Levels
  are natural numbers below 256, indices and serial numbers natural numbers below \<open>2 ^ 64\<close>; where the
  code's \<^verbatim>\<open>u8\<close> and \<^verbatim>\<open>u64\<close> wrap, the model reduces. A \<^verbatim>\<open>Vec\<close> used as a stack has its top first.
\<close>

section \<open>Nodes\<close>

record value_pair =
  vp_old :: hash32
  vp_new :: hash32

record wnode =
  wn_value :: "value_pair option"
  wn_level :: nat
  wn_nth :: nat

definition wn_new :: "nat \<Rightarrow> nat \<Rightarrow> bool \<Rightarrow> wnode" where
  "wn_new level n initial_value =
     \<lparr>wn_value = (if initial_value then Some \<lparr>vp_old = replicate 32 0, vp_new = replicate 32 0\<rparr> else None), wn_level = level, wn_nth = n\<rparr>"

definition wn_pair :: "wnode \<Rightarrow> value_pair result" where
  "wn_pair n = unwrap ''called unwrap on None'' (wn_value n)"

definition wn_get_old :: "wnode \<Rightarrow> hash32 result" where
  "wn_get_old n = bindE (wn_pair n) (\<lambda>p. Inr (vp_old p))"

definition wn_get_new :: "wnode \<Rightarrow> hash32 result" where
  "wn_get_new n = bindE (wn_pair n) (\<lambda>p. Inr (vp_new p))"

definition wn_set_old_and_new :: "wnode \<Rightarrow> bytes \<Rightarrow> wnode result" where
  "wn_set_old_and_new n v =
     bindE (wn_pair n) (\<lambda>p.
     bindE (guardE (length v = 32) (Panic ''source slice length does not match'')) (\<lambda>_.
     Inr (n\<lparr>wn_value := Some \<lparr>vp_old = v, vp_new = v\<rparr>\<rparr>)))"

definition wn_set_old :: "wnode \<Rightarrow> hash32 \<Rightarrow> wnode result" where
  "wn_set_old n v = bindE (wn_pair n) (\<lambda>p. Inr (n\<lparr>wn_value := Some (p\<lparr>vp_old := v\<rparr>)\<rparr>))"

definition wn_set_new :: "wnode \<Rightarrow> hash32 \<Rightarrow> wnode result" where
  "wn_set_new n v = bindE (wn_pair n) (\<lambda>p. Inr (n\<lparr>wn_value := Some (p\<lparr>vp_new := v\<rparr>)\<rparr>))"

definition is_activebits :: "wnode \<Rightarrow> bool" where
  "is_activebits n \<longleftrightarrow> wn_level n = 8 \<and> 8 \<le> wn_nth n mod 16"

definition get_entry_sn :: "wnode \<Rightarrow> nat \<Rightarrow> nat result" where
  "get_entry_sn n bit_idx =
     (if \<not> is_activebits n then Inl (Panic ''not a leaf activebits'')
      else let twig_id = wn_nth n div 16 in Inr ((twig_id * 2048 + (wn_nth n mod 16 - 8) * 256 + bit_idx) mod 2 ^ 64))"

definition wn_actived :: "wnode \<Rightarrow> bool \<Rightarrow> nat \<Rightarrow> bool result" where
  "wn_actived n for_old sn_or_bit_idx =
     (let bit_idx = sn_or_bit_idx mod 256 in
      bindE (if for_old then wn_get_old n else wn_get_new n) (\<lambda>activebits.
      bindE (index activebits (bit_idx div 8)) (\<lambda>b. Inr (drop_bit (bit_idx mod 8) b AND 1 = 1))))"

definition wn_set_actived :: "wnode \<Rightarrow> nat \<Rightarrow> bool \<Rightarrow> wnode result" where
  "wn_set_actived n bit_idx actived =
     (let mask = push_bit (bit_idx mod 8) 1 in
      bindE (wn_pair n) (\<lambda>p.
      bindE (index (vp_new p) (bit_idx div 8)) (\<lambda>b.
      let b' = (if actived then b OR mask else b AND NOT mask) in
      Inr (n\<lparr>wn_value := Some (p\<lparr>vp_new := (vp_new p)[bit_idx div 8 := b']\<rparr>)\<rparr>))))"

section \<open>Positions\<close>

definition sn_to_level0nth :: "nat \<Rightarrow> nat" where
  "sn_to_level0nth sn = (let high = sn div 2048; low = sn mod 2048 in (high * 2048 * 2 + low) mod 2 ^ 64)"

definition level0nth_to_level8nth :: "nat \<Rightarrow> nat" where
  "level0nth_to_level8nth level0nth = (let twig_id = level0nth div (2 * 2048) in 8 * 2 * twig_id + 8 + level0nth div 256 mod 8)"

definition sn_to_level8nth :: "nat \<Rightarrow> nat" where
  "sn_to_level8nth sn = level0nth_to_level8nth (sn_to_level0nth sn)"

section \<open>Witness\<close>

datatype node_value_type = Null | ActiveBits | MerkleOnly | Calculated

definition nvt_try_from :: "byte \<Rightarrow> node_value_type option" where
  "nvt_try_from b = (if b = 0 then Some Null else if b = 1 then Some ActiveBits else if b = 2 then Some MerkleOnly
     else if b = 3 then Some Calculated else None)"

definition nvt_byte :: "node_value_type \<Rightarrow> byte" where
  "nvt_byte t = (case t of Null \<Rightarrow> 0 | ActiveBits \<Rightarrow> 1 | MerkleOnly \<Rightarrow> 2 | Calculated \<Rightarrow> 3)"

definition get_null_hash_by_pos :: "init_data \<Rightarrow> nat \<Rightarrow> nat \<Rightarrow> hash32 result" where
  "get_null_hash_by_pos D level n =
     (if 12 < level then index (NULL_NODE D) level
      else let stride = push_bit (12 - level) 1; k = n mod stride in
      if level = 12 then Inr (twig_root (NULL_TWIG D))
      else if level = 11 \<and> k = 0 then Inr (left_root (NULL_TWIG D))
      else if stride div 2 \<le> k \<and> level = 8 then ab_get_bits ab_new (k - 8) 32
      else if stride div 2 \<le> k \<and> level = 9 then index (active_bits_mtl1 (NULL_TWIG D)) (k - 4)
      else if stride div 2 \<le> k \<and> level = 10 then index (active_bits_mtl2 (NULL_TWIG D)) (k - 2)
      else if stride div 2 \<le> k \<and> level = 11 then Inr (active_bits_mtl3 (NULL_TWIG D))
      else index (NULL_MT D) (stride div 2 + k))"

record witness =
  w_shard_id :: nat
  w_nodes :: "wnode list"
  w_level0map :: "nat \<rightharpoonup> nat"
  w_level8map :: "nat \<rightharpoonup> nat"

definition wit_new :: "nat \<Rightarrow> wnode list \<Rightarrow> witness" where
  "wit_new shard_id nodes =
     fold (\<lambda>(idx, node) w.
         if wn_level node = 0 then w\<lparr>w_level0map := (w_level0map w)(wn_nth node \<mapsto> idx)\<rparr>
         else if wn_level node = 8 then w\<lparr>w_level8map := (w_level8map w)(wn_nth node \<mapsto> idx)\<rparr>
         else w)
       (enumerate 0 nodes) \<lparr>w_shard_id = shard_id, w_nodes = nodes, w_level0map = Map.empty, w_level8map = Map.empty\<rparr>"

text \<open>One encoded node: the value behind its position and type, and the whole node, each with the position
  behind it.\<close>

definition wit_parse_value ::
  "hashfun \<Rightarrow> init_data \<Rightarrow> nat \<Rightarrow> entry_vec \<Rightarrow> bytes \<Rightarrow> nat \<Rightarrow> nat \<Rightarrow> nat \<Rightarrow> node_value_type \<Rightarrow> (wnode \<times> nat) result" where
  "wit_parse_value H D shard_id v bz level n idx ty = (case ty of
       Null \<Rightarrow>
         bindE (get_null_hash_by_pos D level n) (\<lambda>h.
         bindE (wn_set_old_and_new (wn_new level n True) h) (\<lambda>node. Inr (node, idx)))
     | ActiveBits \<Rightarrow>
         bindE (try_get_slice bz idx (idx + 32)) (\<lambda>h.
         bindE (wn_set_old_and_new (wn_new level n True) h) (\<lambda>node. Inr (node, idx + 32)))
     | MerkleOnly \<Rightarrow> Inr (wn_new level n False, idx)
     | Calculated \<Rightarrow>
         bindE (try_get_slice bz idx (idx + 8)) (\<lambda>es.
         bindE (read_u64_be es) (\<lambda>entry_idx.
         bindE (ev_get_entry v shard_id (unat entry_idx)) (\<lambda>e.
         bindE (ebz_hash H e) (\<lambda>h.
         bindE (wn_set_old_and_new (wn_new level n True) h) (\<lambda>node. Inr (node, idx + 8)))))))"

definition wit_parse_node ::
  "hashfun \<Rightarrow> init_data \<Rightarrow> nat \<Rightarrow> entry_vec \<Rightarrow> bytes \<Rightarrow> nat \<Rightarrow> (wnode \<times> nat) result" where
  "wit_parse_node H D shard_id v bz idx =
     bindE (try_get_slice bz idx (idx + 1)) (\<lambda>lv.
     bindE (index lv 0) (\<lambda>level.
     bindE (try_get_slice bz (idx + 1) (idx + 9)) (\<lambda>ns.
     bindE (read_u64_be ns) (\<lambda>n.
     bindE (try_get_slice bz (idx + 9) (idx + 10)) (\<lambda>ts.
     bindE (index ts 0) (\<lambda>ty.
     case nvt_try_from ty of None \<Rightarrow> Inl (Err ''Invalid old_value_type'')
     | Some ty \<Rightarrow> wit_parse_value H D shard_id v bz (unat level) (unat n) (idx + 10) ty))))))"

lemma wit_parse_value_pos:
  "wit_parse_value H D shard_id v bz level n idx ty = Inr (node, idx') \<Longrightarrow> idx \<le> idx'"
  by (cases ty) (auto simp: wit_parse_value_def)

lemma wit_parse_node_pos:
  "wit_parse_node H D shard_id v bz idx = Inr (node, idx') \<Longrightarrow> idx + 10 \<le> idx' \<and> idx + 10 \<le> length bz"
  unfolding wit_parse_node_def try_get_slice_def
  by (auto simp: res_simps dest: wit_parse_value_pos split: if_split_asm option.split_asm)

function wit_parse_nodes ::
  "hashfun \<Rightarrow> init_data \<Rightarrow> nat \<Rightarrow> entry_vec \<Rightarrow> bytes \<Rightarrow> nat \<Rightarrow> wnode list result" where
  "wit_parse_nodes H D shard_id v bz idx =
     bindE (wit_parse_node H D shard_id v bz idx) (\<lambda>(node, idx').
     if length bz \<le> idx' then Inr [node]
     else bindE (wit_parse_nodes H D shard_id v bz idx') (\<lambda>nodes. Inr (node # nodes)))"
  by pat_completeness auto
termination
proof (relation "measure (\<lambda>(H, D, shard_id, v, bz, idx). length bz - idx)", goal_cases)
  case 1
  then show ?case by simp
next
  case (2 H D shard_id v bz idx x node idx')
  then show ?case using wit_parse_node_pos [of H D shard_id v bz idx node idx'] by auto
qed

declare wit_parse_nodes.simps [simp del]

function verify_entries_from :: "entry_vec \<Rightarrow> witness \<Rightarrow> nat \<Rightarrow> bool result" where
  "verify_entries_from v w i =
     bindE (index (pos_list v) (w_shard_id w)) (\<lambda>ps.
     if length ps \<le> i then Inr True
     else
       bindE (ev_get_entry v (w_shard_id w) i) (\<lambda>e.
       bindE (ebz_serial_number e) (\<lambda>sn.
       case w_level8map w (sn_to_level8nth (unat sn)) of
         None \<Rightarrow> Inr False
       | Some idx \<Rightarrow>
           bindE (index (w_nodes w) idx) (\<lambda>n.
           bindE (wn_actived n True (unat sn)) (\<lambda>a.
           if \<not> a then Inr False else verify_entries_from v w (i + 1))))))"
  by pat_completeness auto
termination
  by (relation "measure (\<lambda>(v, w, i). length (pos_list v ! w_shard_id w) - i)") (auto simp: res_simps)

declare verify_entries_from.simps [simp del]

definition verify_entries :: "entry_vec \<Rightarrow> witness \<Rightarrow> bool result" where
  "verify_entries v w = verify_entries_from v w 0"

definition try_from_witness_bz :: "hashfun \<Rightarrow> init_data \<Rightarrow> nat \<Rightarrow> bytes \<Rightarrow> entry_vec \<Rightarrow> witness result" where
  "try_from_witness_bz H D shard_id bz v =
     bindE (wit_parse_nodes H D shard_id v bz 0) (\<lambda>nodes.
     let w = wit_new shard_id nodes in
     bindE (verify_entries v w) (\<lambda>good. if good then Inr w else Inl (Err ''Inactive entry'')))"


text \<open>Checking: the nodes are pushed one after the other; two children on top are replaced by their parent.\<close>

definition two_children_at_top :: "wnode list \<Rightarrow> bool" where
  "two_children_at_top stack = (case stack of
       a # b # _ \<Rightarrow> wn_level a = wn_level b \<and> (wn_nth a XOR wn_nth b) = 1
     | _ \<Rightarrow> False)"

definition wv_combine :: "hashfun \<Rightarrow> wnode \<Rightarrow> wnode \<Rightarrow> wnode result" where
  "wv_combine H left right =
     bindE (wn_get_old left) (\<lambda>lo. bindE (wn_get_old right) (\<lambda>ro.
     bindE (wn_get_new left) (\<lambda>ln. bindE (wn_get_new right) (\<lambda>rn.
     let l = word_of_nat (wn_level left) in
     Inr \<lparr>wn_value = Some \<lparr>vp_old = node_hash_inplace H l lo ro, vp_new = node_hash_inplace H l ln rn\<rparr>,
          wn_level = (wn_level left + 1) mod 256, wn_nth = wn_nth left div 2\<rparr>))))"

text \<open>A node whose value is left to the Merkle nodes takes the next 32 bytes of them.\<close>

definition wv_fetch :: "bytes \<Rightarrow> nat \<Rightarrow> wnode \<Rightarrow> (wnode \<times> nat) result" where
  "wv_fetch merkle_nodes off e = (case wn_value e of
       Some _ \<Rightarrow> Inr (e, off)
     | None \<Rightarrow>
         bindE (slice merkle_nodes off (off + 32)) (\<lambda>v.
         bindE (wn_set_old_and_new (e\<lparr>wn_value := Some \<lparr>vp_old = replicate 32 0, vp_new = replicate 32 0\<rparr>\<rparr>) v) (\<lambda>e.
         Inr (e, off + 32))))"

function wv_run :: "hashfun \<Rightarrow> bytes \<Rightarrow> nat \<Rightarrow> wnode list \<Rightarrow> wnode list \<Rightarrow> wnode list result" where
  "wv_run H merkle_nodes off nodes stack =
     (if two_children_at_top stack then
        bindE (wv_combine H (stack ! 1) (stack ! 0)) (\<lambda>parent. wv_run H merkle_nodes off nodes (parent # drop 2 stack))
      else (case nodes of [] \<Rightarrow> Inr stack
      | e # nodes \<Rightarrow>
          bindE (wv_fetch merkle_nodes off e) (\<lambda>(e, off). wv_run H merkle_nodes off nodes (e # stack))))"
  by pat_completeness auto
termination
  by (relation "measure (\<lambda>(H, m, off, nodes, stack). 2 * length nodes + length stack)")
    (auto simp: two_children_at_top_def split: list.splits)

declare wv_run.simps [simp del]

definition verify_witness :: "hashfun \<Rightarrow> witness \<Rightarrow> bytes \<Rightarrow> hash32 \<Rightarrow> hash32 \<Rightarrow> bool result" where
  "verify_witness H w merkle_nodes old_root new_root =
     bindE (wv_run H merkle_nodes 0 (w_nodes w) []) (\<lambda>stack.
     case stack of
       [root] \<Rightarrow> bindE (wn_get_old root) (\<lambda>ro. if ro \<noteq> old_root then Inr False else bindE (wn_get_new root) (\<lambda>rn. Inr (rn = new_root)))
     | _ \<Rightarrow> Inr False)"

text \<open>Encoding for the transport.\<close>

definition enc_entry_index :: "entry_vec \<Rightarrow> nat \<Rightarrow> (nat \<rightharpoonup> nat) result" where
  "enc_entry_index entries shard_id =
     bindE (ev_enumerate entries shard_id) (\<lambda>es.
     foldE (\<lambda>(i, e) m. bindE (ebz_serial_number e) (\<lambda>sn. Inr (m(sn_to_level0nth (unat sn) \<mapsto> i)))) es Map.empty)"

definition enc_node :: "init_data \<Rightarrow> (nat \<rightharpoonup> nat) \<Rightarrow> wnode \<Rightarrow> bytes \<times> bytes \<Rightarrow> (bytes \<times> bytes) result" where
  "enc_node D m item acc = (case acc of (bz, merkle_nodes) \<Rightarrow>
     let hd = bz @ [word_of_nat (wn_level item)] @ u64_be (word_of_nat (wn_nth item)) in
     bindE (wn_get_old item) (\<lambda>ov.
     bindE (get_null_hash_by_pos D (wn_level item) (wn_nth item)) (\<lambda>null_hash.
     if ov = null_hash then Inr (hd @ [nvt_byte Null], merkle_nodes)
     else case (if wn_level item = 0 then m (wn_nth item) else None) of
       Some i \<Rightarrow> Inr (hd @ [nvt_byte Calculated] @ u64_be (word_of_nat i), merkle_nodes)
     | None \<Rightarrow>
         if wn_level item = 8 then Inr (hd @ [nvt_byte ActiveBits] @ ov, merkle_nodes)
         else Inr (hd @ [nvt_byte MerkleOnly], merkle_nodes @ ov))))"

definition encode_witness :: "init_data \<Rightarrow> entry_vec \<Rightarrow> witness \<Rightarrow> (bytes \<times> bytes) result" where
  "encode_witness D entries w =
     bindE (enc_entry_index entries (w_shard_id w)) (\<lambda>m. foldE (enc_node D m) (w_nodes w) ([], []))"

text \<open>Active bits after the block.\<close>

definition wit_get_active_bit :: "witness \<Rightarrow> nat \<Rightarrow> bool option result" where
  "wit_get_active_bit w sn = (case w_level8map w (sn_to_level8nth sn) of
       None \<Rightarrow> Inr None
     | Some idx \<Rightarrow> bindE (index (w_nodes w) idx) (\<lambda>n. bindE (wn_actived n False (sn mod 256)) (\<lambda>b. Inr (Some b))))"

text \<open>The first active number of a page from bit \<open>i\<close> on, and the loop over the pages, which need not end
  (a result is \<open>Some\<close>).\<close>

function page_next_active :: "wnode \<Rightarrow> nat \<Rightarrow> nat option result" where
  "page_next_active n i =
     (if 256 \<le> i then Inr None
      else bindE (wn_actived n False i) (\<lambda>a.
        if a then bindE (get_entry_sn n i) (\<lambda>sn. Inr (Some sn)) else page_next_active n (i + 1)))"
  by pat_completeness auto
termination
  by (relation "measure (\<lambda>(n, i). 256 - i)") auto

declare page_next_active.simps [simp del]

partial_function (option) find_next_active_sn :: "witness \<Rightarrow> nat \<Rightarrow> nat option result option" where
  "find_next_active_sn w start_sn = (case w_level8map w (sn_to_level8nth start_sn) of
       None \<Rightarrow> Some (Inr None)
     | Some idx \<Rightarrow> (case bindE (index (w_nodes w) idx) (\<lambda>n. page_next_active n (start_sn mod 256)) of
           Inl e \<Rightarrow> Some (Inl e)
         | Inr (Some sn) \<Rightarrow> Some (Inr (Some sn))
         | Inr None \<Rightarrow> find_next_active_sn w ((start_sn + 256) div 256 * 256 mod 2 ^ 64)))"

text \<open>Adding an entry of the block; the code changes the nodes in place also when it returns false.\<close>

definition wit_set_actived :: "nat \<Rightarrow> nat \<Rightarrow> bool \<Rightarrow> witness \<Rightarrow> (bool \<times> witness) result" where
  "wit_set_actived level8nth bit_idx actived w = (case w_level8map w level8nth of
       None \<Rightarrow> Inr (False, w)
     | Some idx \<Rightarrow>
         bindE (index (w_nodes w) idx) (\<lambda>n.
         bindE (wn_set_actived n bit_idx actived) (\<lambda>n. Inr (True, w\<lparr>w_nodes := (w_nodes w)[idx := n]\<rparr>))))"

definition wit_add_entry :: "hashfun \<Rightarrow> bytes \<Rightarrow> witness \<Rightarrow> (bool \<times> witness) result" where
  "wit_add_entry H e w =
     bindE (ebz_serial_number e) (\<lambda>sn.
     let level0nth = sn_to_level0nth (unat sn) in
     case w_level0map w level0nth of None \<Rightarrow> Inr (False, w)
     | Some idx \<Rightarrow>
         bindE (ebz_hash H e) (\<lambda>h.
         bindE (index (w_nodes w) idx) (\<lambda>n.
         bindE (wn_set_new n h) (\<lambda>n.
         let w = w\<lparr>w_nodes := (w_nodes w)[idx := n]\<rparr> in
         bindE (wit_set_actived (level0nth_to_level8nth level0nth) (level0nth mod 256) True w) (\<lambda>(good, w).
         if \<not> good then Inr (False, w)
         else
           bindE (dsn_count e) (\<lambda>count.
           foldE (\<lambda>i (good, w).
             if \<not> good then Inr (False, w)
             else bindE (get_deactived_sn e i) (\<lambda>sn. wit_set_actived (sn_to_level8nth (unat sn)) (unat sn mod 256) False w))
           [0..<count] (True, w)))))))"


section \<open>What the check computes\<close>

text \<open>The nodes as the leaves, from left to right, of a binary tree whose root is at a given position, and
  the hash of the tree over one of the two values of its leaves.\<close>

datatype wtree = WLeaf wnode | WNode wtree wtree

primrec wt_leaves :: "wtree \<Rightarrow> wnode list" where
  "wt_leaves (WLeaf nod) = [nod]"
| "wt_leaves (WNode a b) = wt_leaves a @ wt_leaves b"

primrec wt_at :: "wtree \<Rightarrow> nat \<Rightarrow> nat \<Rightarrow> bool" where
  "wt_at (WLeaf nod) l n \<longleftrightarrow> wn_level nod = l \<and> wn_nth nod = n"
| "wt_at (WNode a b) l n \<longleftrightarrow> 0 < l \<and> wt_at a (l - 1) (2 * n) \<and> wt_at b (l - 1) (2 * n + 1)"

primrec wt_hash :: "hashfun \<Rightarrow> (wnode \<Rightarrow> hash32) \<Rightarrow> wtree \<Rightarrow> nat \<Rightarrow> hash32" where
  "wt_hash H f (WLeaf nod) l = f nod"
| "wt_hash H f (WNode a b) l = hash2 H (word_of_nat (l - 1)) (wt_hash H f a (l - 1)) (wt_hash H f b (l - 1))"

definition old_of :: "wnode \<Rightarrow> hash32" where "old_of nod = (case wn_value nod of Some p \<Rightarrow> vp_old p | None \<Rightarrow> [])"
definition new_of :: "wnode \<Rightarrow> hash32" where "new_of nod = (case wn_value nod of Some p \<Rightarrow> vp_new p | None \<Rightarrow> [])"

definition wt_node :: "hashfun \<Rightarrow> wtree \<Rightarrow> nat \<Rightarrow> nat \<Rightarrow> wnode" where
  "wt_node H t l n = \<lparr>wn_value = Some \<lparr>vp_old = wt_hash H old_of t l, vp_new = wt_hash H new_of t l\<rparr>, wn_level = l, wn_nth = n\<rparr>"

text \<open>The nodes in the order of the leaves below them, inside a tree of 64 levels.\<close>

definition leftmost :: "wnode \<Rightarrow> nat" where "leftmost nod = wn_nth nod * 2 ^ wn_level nod"

definition positioned :: "wnode list \<Rightarrow> bool" where
  "positioned nodes \<longleftrightarrow> sorted_wrt (\<lambda>a b. leftmost a < leftmost b) nodes \<and> (\<forall>nod\<in>set nodes. wn_level nod \<le> 64 \<and> leftmost nod < 2 ^ 64)"

definition valued :: "wnode list \<Rightarrow> bool" where
  "valued nodes \<longleftrightarrow> (\<forall>nod\<in>set nodes. wn_value nod \<noteq> None)"

lemma wt_leaves_ne: "wt_leaves t \<noteq> []"
  by (induction t) auto

lemma xor_one_cases:
  assumes "(a XOR b) = (1::nat)"
  shows "a div 2 = b div 2 \<and> (even b \<and> a = b + 1 \<or> even a \<and> b = a + 1)"
proof -
  have "a = (b XOR 1)" using assms by (metis xor.left_commute xor.right_neutral xor_self_eq)
  then have "a = b + of_bool (even b) - of_bool (odd b)" by (simp add: xor_Suc_0_eq)
  then show ?thesis by (cases "even b") (auto elim: oddE)
qed

lemma xor_one_even: "even b \<Longrightarrow> (b + 1 XOR b) = (1::nat)"
proof -
  assume "even b"
  then have "b + 1 = (b XOR 1)" by (simp add: xor_Suc_0_eq)
  then show "(b + 1 XOR b) = 1" by (metis xor.commute xor.left_commute xor.right_neutral xor_self_eq)
qed

lemma combine_valued:
  assumes "wn_value a = Some p" and "wn_value b = Some q"
  shows "wv_combine H a b = Inr \<lparr>wn_value = Some \<lparr>vp_old = hash2 H (word_of_nat (wn_level a)) (vp_old p) (vp_old q),
      vp_new = hash2 H (word_of_nat (wn_level a)) (vp_new p) (vp_new q)\<rparr>, wn_level = (wn_level a + 1) mod 256, wn_nth = wn_nth a div 2\<rparr>"
  using assms by (simp add: wv_combine_def wn_get_old_def wn_get_new_def wn_pair_def node_hash_inplace_eq Let_def del: bindE_eq_Inr)

lemma two_children_Nil [simp]: "\<not> two_children_at_top []" "\<not> two_children_at_top [a]"
  by (simp_all add: two_children_at_top_def)

lemma two_children_Cons [simp]:
  "two_children_at_top (a # b # s) \<longleftrightarrow> wn_level a = wn_level b \<and> (wn_nth a XOR wn_nth b) = 1"
  by (simp add: two_children_at_top_def)

lemma two_children_elim:
  assumes "two_children_at_top stack"
  obtains a b s where "stack = a # b # s" "wn_level a = wn_level b" "(wn_nth a XOR wn_nth b) = 1"
  using assms by (auto simp: two_children_at_top_def split: list.splits)

lemma sibling_order:
  assumes "wn_level a = wn_level b" "(wn_nth a XOR wn_nth b) = 1" "leftmost b < leftmost a"
  shows "even (wn_nth b)" "wn_nth a = wn_nth b + 1" "wn_nth b div 2 * 2 ^ (wn_level b + 1) = leftmost b"
proof -
  have lt: "wn_nth b < wn_nth a" using assms(1,3) by (simp add: leftmost_def)
  then show e: "even (wn_nth b)" and "wn_nth a = wn_nth b + 1" using xor_one_cases [OF assms(2)] by auto
  from e show "wn_nth b div 2 * 2 ^ (wn_level b + 1) = leftmost b"
    by (auto simp: leftmost_def elim: evenE)
qed


text \<open>The nodes with the values that are left to the Merkle nodes filled in.\<close>

primrec wv_fetch_all :: "bytes \<Rightarrow> nat \<Rightarrow> wnode list \<Rightarrow> wnode list result" where
  "wv_fetch_all m off [] = Inr []"
| "wv_fetch_all m off (e # es) = bindE (wv_fetch m off e) (\<lambda>(e, off). bindE (wv_fetch_all m off es) (\<lambda>es. Inr (e # es)))"

lemma wv_fetch_valued: "wn_value e \<noteq> None \<Longrightarrow> wv_fetch m off e = Inr (e, off)"
  by (auto simp: wv_fetch_def)

lemma wv_fetch_Inr:
  assumes "wv_fetch m off e = Inr (e', off')"
  shows "wn_value e' \<noteq> None" "wn_level e' = wn_level e" "wn_nth e' = wn_nth e" "wn_value e \<noteq> None \<Longrightarrow> e' = e"
    "wn_value e = None \<Longrightarrow> old_of e' = new_of e'"
  using assms by (auto simp: wv_fetch_def wn_set_old_and_new_def wn_pair_def old_of_def new_of_def res_simps split: option.splits)

lemma wv_fetch_all_Inr:
  assumes "wv_fetch_all m off nodes = Inr ns"
  shows "list_all2 (\<lambda>e e'. wn_value e' \<noteq> None \<and> wn_level e' = wn_level e \<and> wn_nth e' = wn_nth e \<and> (wn_value e \<noteq> None \<longrightarrow> e' = e) \<and>
    (wn_value e = None \<longrightarrow> old_of e' = new_of e')) nodes ns"
  using assms
proof (induction nodes arbitrary: off ns)
  case Nil
  then show ?case by simp
next
  case (Cons e es)
  then obtain e' off' r where "wv_fetch m off e = Inr (e', off')" "wv_fetch_all m off' es = Inr r" "ns = e' # r" by auto
  then show ?case using Cons.IH wv_fetch_Inr [of m off e e' off'] by auto
qed

lemma fetch_positioned:
  assumes "wv_fetch_all m off nodes = Inr ns"
  shows "positioned ns \<longleftrightarrow> positioned nodes" "valued ns"
proof -
  note f = wv_fetch_all_Inr [OF assms]
  then have "map leftmost nodes = map leftmost ns" "map wn_level nodes = map wn_level ns"
    by (auto simp: list_all2_conv_all_nth leftmost_def intro!: nth_equalityI)
  then have "sorted_wrt (<) (map leftmost ns) = sorted_wrt (<) (map leftmost nodes)"
    and "(\<forall>l\<in>set (map wn_level ns). l \<le> 64) = (\<forall>l\<in>set (map wn_level nodes). l \<le> 64)"
    and "(\<forall>x\<in>set (map leftmost ns). x < 2 ^ 64) = (\<forall>x\<in>set (map leftmost nodes). x < 2 ^ 64)"
    by simp_all
  then show "positioned ns \<longleftrightarrow> positioned nodes" by (auto simp: positioned_def sorted_wrt_map)
  show "valued ns" using f by (auto simp: valued_def list_all2_conv_all_nth in_set_conv_nth)
qed

lemma wv_run_combine:
  "two_children_at_top (a # b # s) \<Longrightarrow> wv_combine H b a = Inr x \<Longrightarrow> wv_run H m off nodes (a # b # s) = wv_run H m off nodes (x # s)"
  by (subst wv_run.simps) (simp del: bindE_eq_Inr)

lemma wv_run_push:
  "\<not> two_children_at_top s \<Longrightarrow> wn_value e \<noteq> None \<Longrightarrow> wv_run H m off (e # nodes) s = wv_run H m off nodes (e # s)"
  by (subst wv_run.simps) (simp add: wv_fetch_valued del: bindE_eq_Inr)

lemma wv_run_end: "\<not> two_children_at_top s \<Longrightarrow> wv_run H m off [] s = Inr s"
  by (subst wv_run.simps) simp

lemma wv_run_fetch:
  "valued stack \<Longrightarrow> wv_run H m off nodes stack = Inr st \<longleftrightarrow> (\<exists>ns. wv_fetch_all m off nodes = Inr ns \<and> wv_run H [] 0 ns stack = Inr st)"
proof (induction H m off nodes stack rule: wv_run.induct)
  case (1 H m off nodes stack)
  show ?case
  proof (cases "two_children_at_top stack")
    case True
    then obtain a b s where s: "stack = a # b # s" by (auto elim: two_children_elim)
    then obtain p q where "wn_value a = Some p" "wn_value b = Some q" using "1.prems" by (auto simp: valued_def)
    then have c: "\<exists>x. wv_combine H b a = Inr x \<and> wn_value x \<noteq> None" by (simp add: combine_valued)
    then obtain x where x: "wv_combine H b a = Inr x" "wn_value x \<noteq> None" by blast
    have "valued (x # s)" using x(2) "1.prems" s by (simp add: valued_def)
    then have "wv_run H m off nodes (x # s) = Inr st \<longleftrightarrow> (\<exists>ns. wv_fetch_all m off nodes = Inr ns \<and> wv_run H [] 0 ns (x # s) = Inr st)"
      using "1.IH"(1) [OF True, of x] x(1) s by simp
    then show ?thesis using True x(1) unfolding s by (simp only: wv_run_combine)
  next
    case False
    show ?thesis
    proof (cases nodes)
      case Nil
      then show ?thesis using False by (simp add: wv_run_end)
    next
      case (Cons e es)
      have IH: "wv_run H m off' es (e' # stack) = Inr st \<longleftrightarrow> (\<exists>ns. wv_fetch_all m off' es = Inr ns \<and> wv_run H [] 0 ns (e' # stack) = Inr st)"
        if "wv_fetch m off e = Inr (e', off')" for e' off'
      proof -
        have "valued (e' # stack)" using wv_fetch_Inr(1) [OF that] "1.prems" by (simp add: valued_def)
        then show ?thesis using "1.IH"(2) [OF False Cons that refl] by simp
      qed
      have "wv_run H m off (e # es) stack = Inr st \<longleftrightarrow> (\<exists>e' off'. wv_fetch m off e = Inr (e', off') \<and> wv_run H m off' es (e' # stack) = Inr st)"
        using False by (subst wv_run.simps) auto
      also have "\<dots> \<longleftrightarrow> (\<exists>e' off' ns. wv_fetch m off e = Inr (e', off') \<and> wv_fetch_all m off' es = Inr ns \<and> wv_run H [] 0 ns (e' # stack) = Inr st)"
        using IH by blast
      also have "\<dots> \<longleftrightarrow> (\<exists>e' off' ns. wv_fetch m off e = Inr (e', off') \<and> wv_fetch_all m off' es = Inr ns \<and> wv_run H [] 0 (e' # ns) stack = Inr st)"
        using wv_run_push [OF False] by (metis wv_fetch_Inr(1))
      finally show ?thesis unfolding Cons by (simp add: split_beta) blast
    qed
  qed
qed


definition wt_rep :: "hashfun \<Rightarrow> wtree \<Rightarrow> wnode \<Rightarrow> bool" where
  "wt_rep H t nod \<longleftrightarrow> wt_at t (wn_level nod) (wn_nth nod) \<and> nod = wt_node H t (wn_level nod) (wn_nth nod)"

lemma wt_node_leaf: "wn_value e \<noteq> None \<Longrightarrow> wt_node H (WLeaf e) (wn_level e) (wn_nth e) = e"
  by (cases e) (auto simp: wt_node_def old_of_def new_of_def)

lemma wt_rep_leaf: "wn_value e \<noteq> None \<Longrightarrow> wt_rep H (WLeaf e) e"
  by (simp add: wt_rep_def wt_node_leaf)

lemma wt_node_fields [simp]:
  "wn_level (wt_node H t l n) = l" "wn_nth (wt_node H t l n) = n" "wn_value (wt_node H t l n) \<noteq> None"
  by (simp_all add: wt_node_def)

lemma combine_rep:
  assumes a: "wt_rep H ta a" and b: "wt_rep H tb b" and "wn_level a = wn_level b" "even (wn_nth b)" "wn_nth a = wn_nth b + 1" "wn_level b < 64"
  shows "wv_combine H b a = Inr (wt_node H (WNode tb ta) (wn_level b + 1) (wn_nth b div 2))"
    and "wt_rep H (WNode tb ta) (wt_node H (WNode tb ta) (wn_level b + 1) (wn_nth b div 2))"
proof -
  have at: "wt_at ta (wn_level b) (wn_nth b + 1)" "wt_at tb (wn_level b) (wn_nth b)"
    using a b assms(3,5) by (simp_all add: wt_rep_def)
  then show "wt_rep H (WNode tb ta) (wt_node H (WNode tb ta) (wn_level b + 1) (wn_nth b div 2))"
    using assms(4) by (auto simp: wt_rep_def elim!: evenE)
  have va: "wn_value a = Some \<lparr>vp_old = wt_hash H old_of ta (wn_level b), vp_new = wt_hash H new_of ta (wn_level b)\<rparr>"
    using a assms(3) by (metis wt_rep_def wt_node_def wnode.select_convs(1))
  have vb: "wn_value b = Some \<lparr>vp_old = wt_hash H old_of tb (wn_level b), vp_new = wt_hash H new_of tb (wn_level b)\<rparr>"
    using b by (metis wt_rep_def wt_node_def wnode.select_convs(1))
  show "wv_combine H b a = Inr (wt_node H (WNode tb ta) (wn_level b + 1) (wn_nth b div 2))"
    using assms(6) by (simp add: combine_valued [OF vb va] wt_node_def)
qed

lemma positioned_siblings:
  assumes "positioned (xs @ [b, a] @ ys)" and "wn_level a = wn_level b" "(wn_nth a XOR wn_nth b) = 1"
  shows "even (wn_nth b)" "wn_nth a = wn_nth b + 1" "wn_level b < 64"
    and "wn_level x = wn_level b + 1 \<Longrightarrow> wn_nth x = wn_nth b div 2 \<Longrightarrow> positioned (xs @ [x] @ ys)"
proof -
  have lt: "leftmost b < leftmost a" and bnd: "leftmost a < 2 ^ 64" "wn_level b \<le> 64"
    using assms(1) by (auto simp: positioned_def sorted_wrt_append)
  note so = sibling_order [OF assms(2,3) lt]
  show "even (wn_nth b)" "wn_nth a = wn_nth b + 1" using so by simp_all
  have "1 * 2 ^ wn_level b \<le> leftmost a" unfolding leftmost_def so(2) assms(2) by (rule mult_le_mono1) simp
  then have "(2::nat) ^ wn_level b < 2 ^ 64" using bnd by simp
  then show l: "wn_level b < 64" by (rule power_less_imp_less_exp [rotated]) simp
  show "positioned (xs @ [x] @ ys)" if "wn_level x = wn_level b + 1" "wn_nth x = wn_nth b div 2"
  proof -
    have x: "leftmost x = leftmost b" using so(3) that by (simp add: leftmost_def)
    show ?thesis using assms(1) l that(1) lt unfolding positioned_def
      by (auto simp: sorted_wrt_append x)
  qed
qed

lemma wv_run_sound:
  assumes "wv_run H m off nodes stack = Inr st" and "m = []" "off = 0" "valued nodes" "list_all2 (wt_rep H) ts stack" "positioned (rev stack @ nodes)"
  shows "positioned (rev st) \<and> (\<exists>us. list_all2 (wt_rep H) us st \<and> concat (map wt_leaves (rev us)) = concat (map wt_leaves (rev ts)) @ nodes)"
  using assms
proof (induction H m off nodes stack arbitrary: ts rule: wv_run.induct)
  case (1 H m off nodes stack)
  show ?case
  proof (cases "two_children_at_top stack")
    case True
    then obtain a b s where s: "stack = a # b # s" and ab: "wn_level a = wn_level b" "(wn_nth a XOR wn_nth b) = 1"
      by (auto elim: two_children_elim)
    obtain ta tb us where ts: "ts = ta # tb # us" "wt_rep H ta a" "wt_rep H tb b" "list_all2 (wt_rep H) us s"
      using "1.prems"(5) s by (auto simp: list_all2_Cons2)
    have pos: "positioned (rev s @ [b, a] @ nodes)" using "1.prems"(6) s by simp
    note sib = positioned_siblings [OF pos ab]
    let ?x = "wt_node H (WNode tb ta) (wn_level b + 1) (wn_nth b div 2)"
    note c = combine_rep [OF ts(2,3) ab(1) sib(1-3)]
    have "wv_run H m off nodes (?x # s) = Inr st"
      using "1.prems"(1) True c(1) unfolding s by (simp only: wv_run_combine)
    moreover have "positioned (rev (?x # s) @ nodes)" using sib(4) [of ?x] by simp
    ultimately have "positioned (rev st) \<and> (\<exists>vs. list_all2 (wt_rep H) vs st \<and> concat (map wt_leaves (rev vs)) = concat (map wt_leaves (rev (WNode tb ta # us))) @ nodes)"
      using "1.IH"(1) [OF True, of ?x "WNode tb ta # us"] "1.prems"(2-4) c ts(4) s by simp
    then show ?thesis by (simp add: ts(1))
  next
    case False
    show ?thesis
    proof (cases nodes)
      case Nil
      then show ?thesis using "1.prems"(1,5,6) False by (auto simp: wv_run_end)
    next
      case (Cons e es)
      have e: "wn_value e \<noteq> None" using "1.prems"(4) Cons by (simp add: valued_def)
      have f: "wv_fetch m off e = Inr (e, off)" using e by (rule wv_fetch_valued)
      have "wv_run H m off es (e # stack) = Inr st"
        using "1.prems"(1) wv_run_push [OF False e, of H m off es] Cons by simp
      then have "positioned (rev st) \<and> (\<exists>us. list_all2 (wt_rep H) us st \<and> concat (map wt_leaves (rev us)) = concat (map wt_leaves (rev (WLeaf e # ts))) @ es)"
        using "1.IH"(2) [OF False Cons f refl, of "WLeaf e # ts"] "1.prems"(2-6) Cons wt_rep_leaf [OF e, of H]
        by (simp add: valued_def)
      then show ?thesis by (simp add: Cons)
    qed
  qed
qed


lemma wv_run_tree:
  assumes "wt_at t l n" "l \<le> 64" "valued (wt_leaves t)" "\<not> two_children_at_top s" "\<forall>x\<in>set s. leftmost x < n * 2 ^ l"
  shows "wv_run H m off (wt_leaves t @ rest) s = wv_run H m off rest (wt_node H t l n # s)"
  using assms
proof (induction t arbitrary: l n s rest)
  case (WLeaf e)
  then have "wt_node H (WLeaf e) l n = e" "wn_value e \<noteq> None"
    using wt_node_leaf [of e H] by (auto simp: valued_def)
  with WLeaf.prems(4) show ?case by (simp add: wv_run_push)
next
  case (WNode ta tb)
  let ?a = "wt_node H ta (l - 1) (2 * n)" and ?b = "wt_node H tb (l - 1) (2 * n + 1)"
  have l: "0 < l" and at: "wt_at ta (l - 1) (2 * n)" "wt_at tb (l - 1) (2 * n + 1)" using WNode.prems(1) by simp_all
  then have pw: "(2::nat) ^ l = 2 * 2 ^ (l - 1)" by (metis power_eq_if less_numeral_extra(3))
  have v: "valued (wt_leaves ta)" "valued (wt_leaves tb)" using WNode.prems(3) by (simp_all add: valued_def)
  have below: "\<forall>x\<in>set s. leftmost x < 2 * n * 2 ^ (l - 1)" using WNode.prems(5) pw by (simp add: algebra_simps)
  have apart: "\<not> two_children_at_top (?a # s)"
  proof (cases s)
    case (Cons x r)
    show ?thesis
    proof
      assume "two_children_at_top (?a # s)"
      then have "wn_level x = l - 1" "(2 * n XOR wn_nth x) = 1" using Cons by simp_all
      then have "wn_nth x = 2 * n + 1" using xor_one_cases [of "2 * n" "wn_nth x"] by (auto elim!: evenE)
      then show False using below \<open>wn_level x = l - 1\<close> Cons by (simp add: leftmost_def)
    qed
  qed simp
  have "wv_run H m off (wt_leaves ta @ wt_leaves tb @ rest) s = wv_run H m off (wt_leaves tb @ rest) (?a # s)"
    using WNode.prems(2,4) by (intro WNode.IH(1) [OF at(1) _ v(1) _ below]) simp_all
  also have "\<dots> = wv_run H m off rest (?b # ?a # s)"
  proof (rule WNode.IH(2) [OF at(2) _ v(2) apart])
    show "\<forall>x\<in>set (?a # s). leftmost x < (2 * n + 1) * 2 ^ (l - 1)"
      using below by (auto simp: leftmost_def intro: less_le_trans)
  qed (use WNode.prems(2) in simp)
  also have "\<dots> = wv_run H m off rest (wt_node H (WNode ta tb) l n # s)"
  proof (rule wv_run_combine)
    show "two_children_at_top (?b # ?a # s)" using xor_one_even [of "2 * n"] by simp
    show "wv_combine H ?a ?b = Inr (wt_node H (WNode ta tb) l n)"
      using combine_rep(1) [of H tb ?b ta ?a] at l WNode.prems(2) by (simp add: wt_rep_def)
  qed
  finally show ?case by simp
qed

lemma accepted_iff:
  assumes "positioned (w_nodes w)"
  shows "verify_witness H w merkle_nodes old_root new_root = Inr True \<longleftrightarrow>
    (\<exists>t l n. wv_fetch_all merkle_nodes 0 (w_nodes w) = Inr (wt_leaves t) \<and> wt_at t l n \<and> l \<le> 64 \<and>
       wt_hash H old_of t l = old_root \<and> wt_hash H new_of t l = new_root)"
proof
  assume "verify_witness H w merkle_nodes old_root new_root = Inr True"
  then obtain st where run_st: "wv_run H merkle_nodes 0 (w_nodes w) [] = Inr st"
    and chk: "(case st of [root] \<Rightarrow> bindE (wn_get_old root) (\<lambda>ro. if ro \<noteq> old_root then Inr False else bindE (wn_get_new root) (\<lambda>rn. Inr (rn = new_root)))
      | _ \<Rightarrow> Inr False) = Inr True"
    unfolding verify_witness_def bindE_eq_Inr by blast
  from chk obtain root where st: "st = [root]" and ro: "wn_get_old root = Inr old_root" "wn_get_new root = Inr new_root"
    by (auto split: list.splits if_splits)
  have run: "wv_run H merkle_nodes 0 (w_nodes w) [] = Inr [root]" using run_st st by simp
  obtain ns where ns: "wv_fetch_all merkle_nodes 0 (w_nodes w) = Inr ns" and run': "wv_run H [] 0 ns [] = Inr [root]"
    using run wv_run_fetch [of "[]" H merkle_nodes 0 "w_nodes w" "[root]"] unfolding valued_def by auto
  have "positioned (rev [root]) \<and> (\<exists>us. list_all2 (wt_rep H) us [root] \<and> concat (map wt_leaves (rev us)) = concat (map wt_leaves (rev [])) @ ns)"
    using assms fetch_positioned [OF ns] by (intro wv_run_sound [OF run']) simp_all
  then obtain t where t: "wt_rep H t root" "wt_leaves t = ns" and "wn_level root \<le> 64"
    by (auto simp: list_all2_Cons2 positioned_def)
  have "wn_value root = Some \<lparr>vp_old = wt_hash H old_of t (wn_level root), vp_new = wt_hash H new_of t (wn_level root)\<rparr>"
    using t(1) by (metis wt_rep_def wt_node_def wnode.select_convs(1))
  then have "wt_hash H old_of t (wn_level root) = old_root" "wt_hash H new_of t (wn_level root) = new_root"
    using ro by (simp_all add: wn_get_old_def wn_get_new_def wn_pair_def)
  then show "\<exists>t l n. wv_fetch_all merkle_nodes 0 (w_nodes w) = Inr (wt_leaves t) \<and> wt_at t l n \<and> l \<le> 64 \<and>
       wt_hash H old_of t l = old_root \<and> wt_hash H new_of t l = new_root"
    using t ns \<open>wn_level root \<le> 64\<close> by (auto simp: wt_rep_def)
next
  assume "\<exists>t l n. wv_fetch_all merkle_nodes 0 (w_nodes w) = Inr (wt_leaves t) \<and> wt_at t l n \<and> l \<le> 64 \<and>
       wt_hash H old_of t l = old_root \<and> wt_hash H new_of t l = new_root"
  then obtain t l n where f: "wv_fetch_all merkle_nodes 0 (w_nodes w) = Inr (wt_leaves t)" and t: "wt_at t l n" "l \<le> 64"
    and h: "wt_hash H old_of t l = old_root" "wt_hash H new_of t l = new_root" by blast
  have "wv_run H [] 0 (wt_leaves t) [] = Inr [wt_node H t l n]"
    using wv_run_tree [OF t fetch_positioned(2) [OF f], of "[]" H "[]" 0 "[]"] by (simp add: wv_run_end)
  then have "wv_run H merkle_nodes 0 (w_nodes w) [] = Inr [wt_node H t l n]"
    using f wv_run_fetch [of "[]" H merkle_nodes 0 "w_nodes w" "[wt_node H t l n]"] unfolding valued_def by auto
  then show "verify_witness H w merkle_nodes old_root new_root = Inr True"
    using h by (simp add: verify_witness_def wn_get_old_def wn_get_new_def wn_pair_def wt_node_def)
qed


text \<open>C14. The check of a witness whose nodes are in the order of the tree: it accepts exactly if the
  nodes, their missing values taken from the Merkle nodes, are the leaves of one binary tree, each
  at its position, that hashes to the old root with the old values and to the new root with the
  new ones.\<close>

theorem verify_witness_iff:
  assumes "positioned (w_nodes w)"
  shows "verify_witness H w merkle_nodes old_root new_root = Inr True \<longleftrightarrow>
    (\<exists>t l n. wv_fetch_all merkle_nodes 0 (w_nodes w) = Inr (wt_leaves t) \<and> wt_at t l n \<and> l \<le> 64 \<and>
       wt_hash H old_of t l = old_root \<and> wt_hash H new_of t l = new_root)"
  using assms by (rule accepted_iff)

text \<open>A witness of two twigs, the second one changed by the block.\<close>

definition wit_leaf :: "nat \<Rightarrow> nat \<Rightarrow> byte \<Rightarrow> byte \<Rightarrow> wnode" where
  "wit_leaf l n a b = \<lparr>wn_value = Some \<lparr>vp_old = replicate 32 a, vp_new = replicate 32 b\<rparr>, wn_level = l, wn_nth = n\<rparr>"

theorem verify_witness_iff_witness:
  "positioned [wit_leaf 12 0 1 1, wit_leaf 12 1 2 3] \<and>
   verify_witness toy_digest (wit_new 0 [wit_leaf 12 0 1 1, wit_leaf 12 1 2 3]) []
     (hash2 toy_digest 12 (replicate 32 1) (replicate 32 2)) (hash2 toy_digest 12 (replicate 32 1) (replicate 32 3)) = Inr True"
proof -
  let ?w = "wit_new 0 [wit_leaf 12 0 1 1, wit_leaf 12 1 2 3]"
  have pos: "positioned (w_nodes ?w)"
    by (simp add: positioned_def leftmost_def wit_leaf_def wit_new_def)
  have nodes: "w_nodes ?w = [wit_leaf 12 0 1 1, wit_leaf 12 1 2 3]" by (simp add: wit_new_def)
  have "wv_fetch_all [] 0 (w_nodes ?w) = Inr (wt_leaves (WNode (WLeaf (wit_leaf 12 0 1 1)) (WLeaf (wit_leaf 12 1 2 3))))"
    unfolding nodes by (simp add: wv_fetch_valued wit_leaf_def)
  moreover have "wt_at (WNode (WLeaf (wit_leaf 12 0 1 1)) (WLeaf (wit_leaf 12 1 2 3))) 13 0"
    by (simp add: wit_leaf_def)
  moreover have "wt_hash toy_digest old_of (WNode (WLeaf (wit_leaf 12 0 1 1)) (WLeaf (wit_leaf 12 1 2 3))) 13 = hash2 toy_digest 12 (replicate 32 1) (replicate 32 2)"
    "wt_hash toy_digest new_of (WNode (WLeaf (wit_leaf 12 0 1 1)) (WLeaf (wit_leaf 12 1 2 3))) 13 = hash2 toy_digest 12 (replicate 32 1) (replicate 32 3)"
    by (simp_all add: wit_leaf_def old_of_def new_of_def)
  ultimately have "\<exists>t l n. wv_fetch_all [] 0 (w_nodes ?w) = Inr (wt_leaves t) \<and> wt_at t l n \<and> l \<le> 64 \<and>
     wt_hash toy_digest old_of t l = hash2 toy_digest 12 (replicate 32 1) (replicate 32 2) \<and>
     wt_hash toy_digest new_of t l = hash2 toy_digest 12 (replicate 32 1) (replicate 32 3)"
    by (intro exI [of _ "WNode (WLeaf (wit_leaf 12 0 1 1)) (WLeaf (wit_leaf 12 1 2 3))"] exI [of _ 13] exI [of _ 0]) simp
  then have "verify_witness toy_digest ?w []
     (hash2 toy_digest 12 (replicate 32 1) (replicate 32 2)) (hash2 toy_digest 12 (replicate 32 1) (replicate 32 3)) = Inr True"
    using verify_witness_iff [OF pos] by simp
  then show ?thesis using pos nodes by simp
qed

end
