(* ===== verification/Stateless.thy ===== *)
theory Stateless
  imports Witness ProofPath
begin

unbundle bit_operations_syntax

text \<open>
  What a stateless validator may conclude from an accepted witness (\<^verbatim>\<open>src/qmdb/src/stateless\<close>): the tree of
  a shard as a function of its leaves and active bits at every position of the witness, the
  effect of a block on both, and the roots.
\<close>

section \<open>The tree of a shard by position\<close>

text \<open>A position is proper if the tree has a node there: below level 8 only the left half of a twig has.\<close>

definition proper :: "nat \<Rightarrow> nat \<Rightarrow> bool" where
  "proper l n \<longleftrightarrow> 8 \<le> l \<or> n mod 2 ^ (12 - l) < 2 ^ (11 - l)"

definition ref_node :: "hashfun \<Rightarrow> (nat \<Rightarrow> hash32) \<Rightarrow> (nat \<Rightarrow> nat \<Rightarrow> hash32) \<Rightarrow> nat \<Rightarrow> nat \<Rightarrow> hash32" where
  "ref_node H leaf pg l n =
     (if 12 \<le> l then mnode H 12 (twig_ref H leaf pg) (l - 12) n
      else let t = n div 2 ^ (12 - l); r = n mod 2 ^ (12 - l) in
      if r < 2 ^ (11 - l) then mnode H 0 (\<lambda>i. leaf (2048 * t + i)) l r
      else mnode H 8 (pg t) (l - 8) (r - 2 ^ (11 - l)))"

lemma split_child:
  fixes n k :: nat
  shows "2 * n div 2 ^ Suc k = n div 2 ^ k" "(2 * n + 1) div 2 ^ Suc k = n div 2 ^ k"
    "2 * n mod 2 ^ Suc k = 2 * (n mod 2 ^ k)" "(2 * n + 1) mod 2 ^ Suc k = 2 * (n mod 2 ^ k) + 1"
proof -
  show "2 * n div 2 ^ Suc k = n div 2 ^ k" unfolding power_Suc by (rule div_mult_mult1) simp
  show "2 * n mod 2 ^ Suc k = 2 * (n mod 2 ^ k)" unfolding power_Suc by (rule mod_mult_mult1)
  show "(2 * n + 1) div 2 ^ Suc k = n div 2 ^ k" unfolding power_Suc div_mult2_eq by simp
  show "(2 * n + 1) mod 2 ^ Suc k = 2 * (n mod 2 ^ k) + 1" unfolding power_Suc mod_mult2_eq by simp
qed

lemma proper_children: "proper l (2 * n + 1) \<longleftrightarrow> proper l (2 * n)"
proof (cases "8 \<le> l")
  case True
  then show ?thesis by (simp add: proper_def)
next
  case False
  define k where "k = 10 - l"
  have k: "12 - l = Suc (Suc k)" "11 - l = Suc k" using False by (simp_all add: k_def)
  show ?thesis using False unfolding proper_def k split_child by auto
qed

lemma proper_up:
  assumes "proper l (2 * n)"
  shows "proper (Suc l) n"
proof (cases "7 \<le> l")
  case True
  then show ?thesis by (simp add: proper_def)
next
  case False
  define k where "k = 10 - l"
  have k: "12 - l = Suc (Suc k)" "11 - l = Suc k" "12 - Suc l = Suc k" "11 - Suc l = k" using False by (simp_all add: k_def)
  show ?thesis using assms False unfolding proper_def k split_child by simp
qed

lemma mnode_Suc: "mnode H b f (Suc l) q = hash2 H (word_of_nat (b + l)) (mnode H b f l (2 * q)) (mnode H b f l (2 * q + 1))"
  by simp

lemma ref_node_step:
  assumes "proper l (2 * n)"
  shows "ref_node H leaf pg (Suc l) n = hash2 H (word_of_nat l) (ref_node H leaf pg l (2 * n)) (ref_node H leaf pg l (2 * n + 1))"
proof -
  consider "12 \<le> l" | "l = 11" | "l \<le> 10" by linarith
  then show ?thesis
  proof cases
    case 1
    then have "Suc l - 12 = Suc (l - 12)" "12 + (l - 12) = l" by simp_all
    then show ?thesis using 1 unfolding ref_node_def by (simp only: mnode_Suc) simp
  next
    case 2
    then show ?thesis by (simp add: ref_node_def twig_ref_def del: mnode.simps) (simp add: mnode.simps(1) twig_ref_def del: mnode.simps(2))
  next
    case 3
    define k where "k = 10 - l"
    have k: "12 - l = Suc (Suc k)" "11 - l = Suc k" "12 - Suc l = Suc k" "11 - Suc l = k" "\<not> 12 \<le> l" "\<not> 12 \<le> Suc l"
      using 3 by (simp_all add: k_def)
    let ?t = "n div 2 ^ Suc k" and ?r = "n mod 2 ^ Suc k"
    show ?thesis
    proof (cases "?r < 2 ^ k")
      case True
      then have "2 * ?r < 2 ^ Suc k" "2 * ?r + 1 < 2 ^ Suc k" by simp_all
      then show ?thesis using True k unfolding ref_node_def Let_def k split_child
        by (simp only: if_False if_True mnode_Suc add_0)
    next
      case False
      with assms have l: "8 \<le> l" unfolding proper_def k split_child by auto
      then have e: "Suc l - 8 = Suc (l - 8)" "8 + (l - 8) = l" by simp_all
      have d: "2 * ?r - 2 ^ Suc k = 2 * (?r - 2 ^ k)" "2 * ?r + 1 - 2 ^ Suc k = 2 * (?r - 2 ^ k) + 1"
        using False by (simp_all add: algebra_simps)
      have "\<not> 2 * ?r < 2 ^ Suc k" "\<not> 2 * ?r + 1 < 2 ^ Suc k" using False by simp_all
      then show ?thesis using False k unfolding ref_node_def Let_def k split_child e by (simp only: if_False mnode_Suc d e)
    qed
  qed
qed


lemma proper_zero [simp]: "proper l 0"
  by (simp add: proper_def)

lemma length_ref_node:
  assumes H: "digest32 H" and leaf: "\<And>i. length (leaf i) = 32" and pg: "\<And>t i. i < 8 \<Longrightarrow> length (pg t i) = 32" and "proper l n"
  shows "length (ref_node H leaf pg l n) = 32"
proof -
  have m: "length (mnode H b f k q) = 32" if "k = 0 \<Longrightarrow> length (f q) = 32" for b f k q
    using that H by (cases k) (simp_all add: digest32_hash2)
  have tw: "length (twig_ref H leaf pg t) = 32" for t using H by (simp add: twig_ref_def digest32_hash2)
  have page: "length (pg t (n mod 2 ^ (12 - l) - 2 ^ (11 - l))) = 32" if "l - 8 = 0" "\<not> n mod 2 ^ (12 - l) < 2 ^ (11 - l)" for t
  proof -
    have "l = 8" using that assms(4) by (auto simp: proper_def)
    moreover have "n mod 16 < 16" by simp
    ultimately show ?thesis by (intro pg) simp
  qed
  show ?thesis using leaf tw page unfolding ref_node_def Let_def by (auto intro!: m)
qed

text \<open>The strings hashed while the tree over the nodes is built, and those of the shard's tree.\<close>

primrec wt_inputs :: "hashfun \<Rightarrow> (wnode \<Rightarrow> hash32) \<Rightarrow> wtree \<Rightarrow> nat \<Rightarrow> bytes set" where
  "wt_inputs H f (WLeaf nod) l = {}"
| "wt_inputs H f (WNode a b) l =
     insert (word_of_nat (l - 1) # wt_hash H f a (l - 1) @ wt_hash H f b (l - 1)) (wt_inputs H f a (l - 1) \<union> wt_inputs H f b (l - 1))"

definition ref_inputs :: "hashfun \<Rightarrow> (nat \<Rightarrow> hash32) \<Rightarrow> (nat \<Rightarrow> nat \<Rightarrow> hash32) \<Rightarrow> bytes set" where
  "ref_inputs H leaf pg =
     {word_of_nat l # ref_node H leaf pg l (2 * n) @ ref_node H leaf pg l (2 * n + 1) | l n. proper l (2 * n) \<and> l < 64}"

definition collision_in :: "hashfun \<Rightarrow> bytes set \<Rightarrow> bytes set \<Rightarrow> bool" where
  "collision_in H A B \<longleftrightarrow> (\<exists>x\<in>A. \<exists>y\<in>B. collides H x y)"

lemma collision_in_mono: "collision_in H A B \<Longrightarrow> A \<subseteq> A' \<Longrightarrow> collision_in H A' B"
  by (auto simp: collision_in_def)

lemma wt_split:
  assumes root: "wt_hash H f (WNode a b) l = ref_node H leaf pg l n" and l: "0 < l" "l \<le> 64" and p: "proper (l - 1) (2 * n)"
    and no: "\<not> collision_in H (wt_inputs H f (WNode a b) l) (ref_inputs H leaf pg)"
    and len: "length (wt_hash H f a (l - 1)) = 32" "length (ref_node H leaf pg (l - 1) (2 * n)) = 32"
  shows "wt_hash H f a (l - 1) = ref_node H leaf pg (l - 1) (2 * n)" "wt_hash H f b (l - 1) = ref_node H leaf pg (l - 1) (2 * n + 1)"
proof -
  obtain k where k: "l = Suc k" using l(1) gr0_implies_Suc by blast
  have "hash2 H (word_of_nat k) (wt_hash H f a k) (wt_hash H f b k) = hash2 H (word_of_nat k) (ref_node H leaf pg k (2 * n)) (ref_node H leaf pg k (2 * n + 1))"
    using root ref_node_step [of k n H leaf pg] p by (simp add: k)
  moreover have "\<not> collides H (word_of_nat k # wt_hash H f a k @ wt_hash H f b k)
      (word_of_nat k # ref_node H leaf pg k (2 * n) @ ref_node H leaf pg k (2 * n + 1))"
  proof
    assume "collides H (word_of_nat k # wt_hash H f a k @ wt_hash H f b k)
      (word_of_nat k # ref_node H leaf pg k (2 * n) @ ref_node H leaf pg k (2 * n + 1))"
    moreover have "word_of_nat k # ref_node H leaf pg k (2 * n) @ ref_node H leaf pg k (2 * n + 1) \<in> ref_inputs H leaf pg"
      unfolding ref_inputs_def using p l(2) k by (intro CollectI exI [of _ k] exI [of _ n]) simp
    moreover have "word_of_nat k # wt_hash H f a k @ wt_hash H f b k \<in> wt_inputs H f (WNode a b) l" by (simp add: k)
    ultimately show False using no unfolding collision_in_def by blast
  qed
  moreover have "length (wt_hash H f a k) = length (ref_node H leaf pg k (2 * n))" using len k by simp
  ultimately have "wt_hash H f a k = ref_node H leaf pg k (2 * n) \<and> wt_hash H f b k = ref_node H leaf pg k (2 * n + 1)"
    by (metis hash2_inj)
  then show "wt_hash H f a (l - 1) = ref_node H leaf pg (l - 1) (2 * n)" "wt_hash H f b (l - 1) = ref_node H leaf pg (l - 1) (2 * n + 1)"
    by (simp_all add: k)
qed

lemma length_wt_hash:
  "digest32 H \<Longrightarrow> \<forall>nod\<in>set (wt_leaves t). length (f nod) = 32 \<Longrightarrow> length (wt_hash H f t l) = 32"
  by (cases t) (simp_all add: digest32_hash2)

lemma wt_at_below:
  assumes "wt_at t l n" and "nod \<in> set (wt_leaves t)"
  shows "wn_level nod \<le> l" "n * 2 ^ l \<le> leftmost nod" "leftmost nod < (n + 1) * 2 ^ l"
proof -
  have "wn_level nod \<le> l \<and> n * 2 ^ l \<le> leftmost nod \<and> leftmost nod < (n + 1) * 2 ^ l"
    using assms
  proof (induction t arbitrary: l n)
    case (WLeaf e)
    then show ?case by (auto simp: leftmost_def)
  next
    case (WNode a b)
    then have "0 < l" by simp
    then obtain k where k: "l = Suc k" using gr0_implies_Suc by blast
    have at: "wt_at a k (2 * n)" "wt_at b k (2 * n + 1)" using WNode.prems(1) k by simp_all
    show ?case
    proof (cases "nod \<in> set (wt_leaves a)")
      case True
      then show ?thesis using WNode.IH(1) [OF at(1)] k by (auto simp: algebra_simps)
    next
      case False
      then show ?thesis using WNode.IH(2) [OF at(2)] WNode.prems(2) k by (auto simp: algebra_simps)
    qed
  qed
  then show "wn_level nod \<le> l" "n * 2 ^ l \<le> leftmost nod" "leftmost nod < (n + 1) * 2 ^ l" by simp_all
qed


section \<open>Values of an accepted witness\<close>

lemma wt_proper:
  "wt_at t l n \<Longrightarrow> nod \<in> set (wt_leaves t) \<Longrightarrow> proper (wn_level nod) (wn_nth nod) \<Longrightarrow> proper l n"
proof (induction t arbitrary: l n)
  case (WLeaf e)
  then show ?case by auto
next
  case (WNode a b)
  then have at: "0 < l" "wt_at a (l - 1) (2 * n)" "wt_at b (l - 1) (2 * n + 1)" by simp_all
  then have "proper (l - 1) (2 * n)"
    using WNode.IH(1) [OF at(2)] WNode.IH(2) [OF at(3)] WNode.prems(2,3) proper_children by auto
  then show ?case using proper_up [of "l - 1" n] at(1) by simp
qed

lemma wt_sound:
  assumes H: "digest32 H" and ref: "\<And>l n. proper l n \<Longrightarrow> length (ref_node H leaf pg l n) = 32"
  shows "wt_at t l n \<Longrightarrow> l \<le> 64 \<Longrightarrow> \<forall>nod\<in>set (wt_leaves t). length (f nod) = 32 \<Longrightarrow>
    wt_hash H f t l = ref_node H leaf pg l n \<Longrightarrow> \<not> collision_in H (wt_inputs H f t l) (ref_inputs H leaf pg) \<Longrightarrow>
    nod \<in> set (wt_leaves t) \<Longrightarrow> proper (wn_level nod) (wn_nth nod) \<Longrightarrow> f nod = ref_node H leaf pg (wn_level nod) (wn_nth nod)"
proof (induction t arbitrary: l n)
  case (WLeaf e)
  then show ?case by auto
next
  case (WNode a b)
  have at: "0 < l" "wt_at a (l - 1) (2 * n)" "wt_at b (l - 1) (2 * n + 1)" using WNode.prems(1) by simp_all
  have lens: "\<forall>nod\<in>set (wt_leaves a). length (f nod) = 32" "\<forall>nod\<in>set (wt_leaves b). length (f nod) = 32"
    using WNode.prems(3) by simp_all
  have no: "\<not> collision_in H (wt_inputs H f a (l - 1)) (ref_inputs H leaf pg)" "\<not> collision_in H (wt_inputs H f b (l - 1)) (ref_inputs H leaf pg)"
    using WNode.prems(5) by (auto simp: collision_in_def)
  have pr: "proper (l - 1) (2 * n)"
    using wt_proper [OF at(2)] wt_proper [OF at(3)] WNode.prems(6,7) proper_children by auto
  note sp = wt_split [OF WNode.prems(4) at(1) WNode.prems(2) pr WNode.prems(5) length_wt_hash [OF H lens(1)] ref [OF pr]]
  show ?case
  proof (cases "nod \<in> set (wt_leaves a)")
    case True
    then show ?thesis using WNode.IH(1) [OF at(2) _ lens(1) sp(1) no(1)] WNode.prems(2,7) by simp
  next
    case False
    then show ?thesis using WNode.IH(2) [OF at(3) _ lens(2) sp(2) no(2)] WNode.prems(2,6,7) by simp
  qed
qed

text \<open>A tree over nodes that carry the values of the shard has the value of the shard at its root.\<close>

lemma wt_complete:
  "wt_at t l n \<Longrightarrow> \<forall>nod\<in>set (wt_leaves t). proper (wn_level nod) (wn_nth nod) \<and> f nod = ref_node H leaf pg (wn_level nod) (wn_nth nod) \<Longrightarrow>
   wt_hash H f t l = ref_node H leaf pg l n"
proof (induction t arbitrary: l n)
  case (WLeaf e)
  then show ?case by auto
next
  case (WNode a b)
  have at: "0 < l" "wt_at a (l - 1) (2 * n)" "wt_at b (l - 1) (2 * n + 1)" using WNode.prems(1) by simp_all
  obtain nod where "nod \<in> set (wt_leaves a)" using wt_leaves_ne [of a] by (meson list.set_sel(1))
  then have "proper (l - 1) (2 * n)" using wt_proper [OF at(2)] WNode.prems(2) by simp
  then have "ref_node H leaf pg l n = hash2 H (word_of_nat (l - 1)) (ref_node H leaf pg (l - 1) (2 * n)) (ref_node H leaf pg (l - 1) (2 * n + 1))"
    using ref_node_step [of "l - 1" n] at(1) by simp
  then show ?case using WNode.IH(1) [OF at(2)] WNode.IH(2) [OF at(3)] WNode.prems(2) by simp
qed

lemma hd_leftmost: "wt_at t l n \<Longrightarrow> leftmost (hd (wt_leaves t)) = n * 2 ^ l"
proof (induction t arbitrary: l n)
  case (WLeaf e)
  then show ?case by (auto simp: leftmost_def)
next
  case (WNode a b)
  then have "0 < l" and "leftmost (hd (wt_leaves a)) = 2 * n * 2 ^ (l - 1)" by auto
  moreover have "(2::nat) ^ l = 2 * 2 ^ (l - 1)" using \<open>0 < l\<close> by (metis power_eq_if less_numeral_extra(3))
  ultimately show ?case using wt_leaves_ne [of a] by simp
qed

text \<open>The root of the witness is at the level of the shard's root, or two different strings were hashed to it.\<close>

lemma root_level:
  assumes root: "wt_hash H f (WNode a b) l = ref_node H leaf pg L 0" and l: "0 < l" "l \<le> 64" and L: "0 < L" "L \<le> 64"
    and no: "\<not> collision_in H (wt_inputs H f (WNode a b) l) (ref_inputs H leaf pg)"
  shows "l = L"
proof (rule ccontr)
  assume ne: "l \<noteq> L"
  let ?x = "word_of_nat (l - 1) # wt_hash H f a (l - 1) @ wt_hash H f b (l - 1)"
  let ?y = "word_of_nat (L - 1) # ref_node H leaf pg (L - 1) (2 * 0) @ ref_node H leaf pg (L - 1) (2 * 0 + 1)"
  have "ref_node H leaf pg L 0 = H ?y"
    using ref_node_step [of "L - 1" 0 H leaf pg] L(1) by (simp add: hash2_def)
  then have "H ?x = H ?y" using root by (simp add: hash2_def)
  moreover have "(word_of_nat (l - 1) :: byte) \<noteq> word_of_nat (L - 1)"
  proof
    assume "(word_of_nat (l - 1) :: byte) = word_of_nat (L - 1)"
    then have "(l - 1) mod 256 = (L - 1) mod 256" by (metis unat_byte_of_nat)
    then show False using ne l L by simp
  qed
  ultimately have "collides H ?x ?y" by (simp add: collides_def)
  moreover have "?y \<in> ref_inputs H leaf pg"
    unfolding ref_inputs_def using L by (intro CollectI exI [of _ "L - 1"] exI [of _ 0]) simp
  moreover have "?x \<in> wt_inputs H f (WNode a b) l" by simp
  ultimately show False using no unfolding collision_in_def by blast
qed


definition typed :: "wnode list \<Rightarrow> bool" where
  "typed nodes \<longleftrightarrow> (\<forall>nod\<in>set nodes. \<forall>p. wn_value nod = Some p \<longrightarrow> length (vp_old p) = 32 \<and> length (vp_new p) = 32)"

text \<open>The nodes are in the order of the tree, the first one at its left edge, and there is more than one.\<close>

definition ordered :: "wnode list \<Rightarrow> bool" where
  "ordered nodes \<longleftrightarrow> positioned nodes \<and> 2 \<le> length nodes \<and> leftmost (hd nodes) = 0"

text \<open>Two different strings with the same digest, one hashed by the check of the witness, one in the shard's tree.\<close>

definition witness_collision :: "hashfun \<Rightarrow> witness \<Rightarrow> bytes \<Rightarrow> (nat \<Rightarrow> hash32) \<Rightarrow> (nat \<Rightarrow> nat \<Rightarrow> hash32) \<Rightarrow> bool" where
  "witness_collision H w m leaf pg \<longleftrightarrow> (\<exists>t l n. wv_fetch_all m 0 (w_nodes w) = Inr (wt_leaves t) \<and> wt_at t l n \<and> l \<le> 64 \<and>
     collision_in H (wt_inputs H old_of t l) (ref_inputs H leaf pg))"

lemma wv_fetch_typed:
  assumes "wv_fetch m off e = Inr (e', off')" "typed [e]"
  shows "length (old_of e') = 32" "length (new_of e') = 32"
  using assms by (auto simp: wv_fetch_def wn_set_old_and_new_def wn_pair_def old_of_def new_of_def typed_def res_simps split: option.splits)

lemma fetch_typed:
  "wv_fetch_all m off nodes = Inr ns \<Longrightarrow> typed nodes \<Longrightarrow> \<forall>nod\<in>set ns. length (old_of nod) = 32 \<and> length (new_of nod) = 32"
proof (induction nodes arbitrary: off ns)
  case Nil
  then show ?case by simp
next
  case (Cons e es)
  then obtain e' off' r where f: "wv_fetch m off e = Inr (e', off')" "wv_fetch_all m off' es = Inr r" "ns = e' # r" by auto
  have "typed [e]" "typed es" using Cons.prems(2) by (simp_all add: typed_def)
  then show ?case using wv_fetch_typed [OF f(1)] Cons.IH [OF f(2)] f(3) by simp
qed

lemma accepted_tree:
  assumes "positioned (w_nodes w)" "verify_witness H w m old_root new_root = Inr True"
  obtains t l n where "wv_fetch_all m 0 (w_nodes w) = Inr (wt_leaves t)" "wt_at t l n" "l \<le> 64"
    "wt_hash H old_of t l = old_root" "wt_hash H new_of t l = new_root"
  using accepted_iff [OF assms(1), of H m old_root new_root] assms(2) by blast

lemma accepted_root:
  assumes "ordered (w_nodes w)" and f: "wv_fetch_all m 0 (w_nodes w) = Inr (wt_leaves t)" and t: "wt_at t l n" "l \<le> 64"
    and root: "wt_hash H old_of t l = ref_node H leaf pg L 0" and L: "0 < L" "L \<le> 64"
    and no: "\<not> collision_in H (wt_inputs H old_of t l) (ref_inputs H leaf pg)"
  shows "n = 0" "l = L"
proof -
  note fa = wv_fetch_all_Inr [OF f]
  have "length (wt_leaves t) = length (w_nodes w)" using fa by (auto dest: list_all2_lengthD)
  then have two: "2 \<le> length (wt_leaves t)" using assms(1) by (simp add: ordered_def)
  then obtain a b where ab: "t = WNode a b" by (cases t) auto
  have "leftmost (hd (wt_leaves t)) = leftmost (hd (w_nodes w))"
    using fa wt_leaves_ne [of t] by (cases "w_nodes w"; cases "wt_leaves t") (auto simp: leftmost_def)
  then have "n * 2 ^ l = 0" using hd_leftmost [OF t(1)] assms(1) by (simp add: ordered_def)
  then show n: "n = 0" by simp
  show "l = L" using root_level [of H old_of a b l leaf pg L] root t L no ab by auto
qed

text \<open>C13. What an accepted witness says about the state before the block: if its nodes are in the order
  of the tree and the old root is the root of the shard, every value the witness has for a
  position of the tree, in particular the hash of every entry and every page of active bits, is
  the true one, or the check hashed a string that collides with one of the shard's tree.\<close>

theorem witness_values_true:
  assumes H: "digest32 H" and leaf: "\<And>i. length (leaf i) = 32" and pg: "\<And>t i. i < 8 \<Longrightarrow> length (pg t i) = 32"
    and w: "ordered (w_nodes w)" "typed (w_nodes w)" and L: "0 < L" "L \<le> 64"
    and acc: "verify_witness H w m (ref_node H leaf pg L 0) new_root = Inr True"
    and nod: "nod \<in> set (w_nodes w)" "wn_value nod = Some p" "proper (wn_level nod) (wn_nth nod)"
  shows "vp_old p = ref_node H leaf pg (wn_level nod) (wn_nth nod) \<or> witness_collision H w m leaf pg"
proof (cases "witness_collision H w m leaf pg")
  case False
  have "positioned (w_nodes w)" using w(1) by (simp add: ordered_def)
  then obtain t l n where t: "wv_fetch_all m 0 (w_nodes w) = Inr (wt_leaves t)" "wt_at t l n" "l \<le> 64"
    "wt_hash H old_of t l = ref_node H leaf pg L 0"
    using acc by (rule accepted_tree)
  have no: "\<not> collision_in H (wt_inputs H old_of t l) (ref_inputs H leaf pg)"
    using False t by (auto simp: witness_collision_def)
  have n: "n = 0" "l = L" using accepted_root [OF w(1) t L no] by simp_all
  have "nod \<in> set (wt_leaves t)"
    using wv_fetch_all_Inr [OF t(1)] nod(1,2) by (fastforce simp: list_all2_conv_all_nth in_set_conv_nth)
  then have "old_of nod = ref_node H leaf pg (wn_level nod) (wn_nth nod)"
    using wt_sound [OF H length_ref_node [OF H leaf pg] t(2,3) _ _ no _ nod(3)] fetch_typed [OF t(1) w(2)] t(4) n by auto
  then show ?thesis using nod(2) by (simp add: old_of_def)
qed simp


section \<open>Positions that are not checked\<close>

lemma positioned_apart:
  assumes "positioned (xs @ [x] @ ys)" "y \<in> set xs \<union> set ys"
  shows "wn_level y \<noteq> wn_level x \<or> wn_nth y \<noteq> wn_nth x"
  using assms by (force simp: positioned_def sorted_wrt_append leftmost_def)

lemma wv_fetch_moved:
  "wv_fetch m off (e\<lparr>wn_nth := k\<rparr>) = bindE (wv_fetch m off e) (\<lambda>(e, off). Inr (e\<lparr>wn_nth := k\<rparr>, off))"
  by (auto simp: wv_fetch_def wn_set_old_and_new_def wn_pair_def guardE_def bindE_assoc simp del: bindE_eq_Inr split: option.splits
      intro!: bindE_cong)

lemma wv_combine_swapped:
  assumes "wn_level a = wn_level b" "even (wn_nth a)" "wn_nth b = wn_nth a + 1"
  shows "wv_combine H (a\<lparr>wn_nth := wn_nth b\<rparr>) (b\<lparr>wn_nth := wn_nth a\<rparr>) = wv_combine H a b"
proof -
  have "(wn_nth a + 1) div 2 = wn_nth a div 2" using assms(2) by auto
  then show ?thesis using assms(3) by (simp add: wv_combine_def wn_get_old_def wn_get_new_def wn_pair_def Let_def del: bindE_eq_Inr)
qed

lemma push_siblings:
  assumes pos: "positioned (rev s @ [a, b] @ ys)" and ab: "wn_level a = wn_level b" "even (wn_nth a)" "wn_nth b = wn_nth a + 1"
    and s: "\<not> two_children_at_top s"
  shows "wv_run H m off ([a\<lparr>wn_nth := wn_nth b\<rparr>, b\<lparr>wn_nth := wn_nth a\<rparr>] @ ys) s = wv_run H m off ([a, b] @ ys) s"
proof -
  have alone: "\<not> two_children_at_top (fa # s)" if "wn_level fa = wn_level a" "wn_nth fa \<in> {wn_nth a, wn_nth b}" for fa
  proof (cases s)
    case (Cons x r)
    have x: "leftmost x < leftmost a" using pos Cons by (auto simp: positioned_def sorted_wrt_append)
    show ?thesis
    proof
      assume "two_children_at_top (fa # s)"
      then have xl: "wn_level x = wn_level a" "(wn_nth fa XOR wn_nth x) = 1" using Cons that(1) by simp_all
      then have lt: "wn_nth x < wn_nth a" using x by (simp add: leftmost_def)
      have "wn_nth fa div 2 = wn_nth x div 2" using xor_one_cases [OF xl(2)] by simp
      then show False using that(2) ab(2,3) lt by (auto elim!: evenE)
    qed
  qed simp
  show ?thesis
  proof (cases "wv_fetch m off a")
    case (Inl e)
    then show ?thesis using s by (subst (1 2) wv_run.simps) (simp add: wv_fetch_moved)
  next
    case (Inr r)
    then obtain fa o1 where fa: "wv_fetch m off a = Inr (fa, o1)" by (cases r) auto
    note fap = wv_fetch_Inr [OF fa]
    have one: "wv_run H m off (a # zs) s = wv_run H m o1 zs (fa # s)"
      "wv_run H m off (a\<lparr>wn_nth := k\<rparr> # zs) s = wv_run H m o1 zs (fa\<lparr>wn_nth := k\<rparr> # s)" for zs k
      using s fa by (subst wv_run.simps, simp add: wv_fetch_moved del: bindE_eq_Inr)+
    have al: "\<not> two_children_at_top (fa # s)" "\<not> two_children_at_top (fa\<lparr>wn_nth := wn_nth b\<rparr> # s)"
      using fap(2,3) by (simp_all add: alone)
    show ?thesis
    proof (cases "wv_fetch m o1 b")
      case (Inl e)
      then show ?thesis using al by (simp add: one) (subst (1 2) wv_run.simps, simp add: wv_fetch_moved)
    next
      case (Inr r)
      then obtain fb o2 where fb: "wv_fetch m o1 b = Inr (fb, o2)" by (cases r) auto
      note fbp = wv_fetch_Inr [OF fb]
      have two: "wv_run H m o1 (b # ys) (fa # s) = wv_run H m o2 ys (fb # fa # s)"
        "wv_run H m o1 (b\<lparr>wn_nth := k\<rparr> # ys) (fa\<lparr>wn_nth := wn_nth b\<rparr> # s) = wv_run H m o2 ys (fb\<lparr>wn_nth := k\<rparr> # fa\<lparr>wn_nth := wn_nth b\<rparr> # s)" for k
        using al fb by (subst wv_run.simps, simp add: wv_fetch_moved del: bindE_eq_Inr)+
      obtain x where x: "wv_combine H fa fb = Inr x" using combine_valued fap(1) fbp(1) by (metis option.exhaust_sel)
      have sw: "wv_combine H (fa\<lparr>wn_nth := wn_nth b\<rparr>) (fb\<lparr>wn_nth := wn_nth a\<rparr>) = Inr x"
        using wv_combine_swapped [of fa fb H] fap fbp ab x by simp
      have "two_children_at_top (fb # fa # s)" using xor_one_even [OF ab(2)] fap fbp ab by simp
      moreover have "two_children_at_top (fb\<lparr>wn_nth := wn_nth a\<rparr> # fa\<lparr>wn_nth := wn_nth b\<rparr> # s)"
        using xor_one_even [OF ab(2)] fap fbp ab by (simp add: xor.commute)
      ultimately show ?thesis
        using wv_run_combine [OF _ x, of s m o2 ys] wv_run_combine [OF _ sw, of s m o2 ys] by (simp add: one two)
    qed
  qed
qed


lemma wv_run_swapped:
  assumes ab: "wn_level a = wn_level b" "even (wn_nth a)" "wn_nth b = wn_nth a + 1"
  shows "positioned (rev s @ xs @ [a, b] @ ys) \<Longrightarrow>
    wv_run H m off (xs @ [a\<lparr>wn_nth := wn_nth b\<rparr>, b\<lparr>wn_nth := wn_nth a\<rparr>] @ ys) s = wv_run H m off (xs @ [a, b] @ ys) s"
proof (induction "2 * length xs + length s" arbitrary: s xs off rule: less_induct)
  case less
  show ?case
  proof (cases "two_children_at_top s")
    case True
    then obtain c d r where s: "s = c # d # r" and cd: "wn_level c = wn_level d" "(wn_nth c XOR wn_nth d) = 1"
      by (auto elim: two_children_elim)
    have pos: "positioned (rev r @ [d, c] @ xs @ [a, b] @ ys)" using less.prems s by simp
    show ?thesis
    proof (cases "wv_combine H d c")
      case (Inl e)
      then show ?thesis using True s by (subst (1 2) wv_run.simps) simp
    next
      case (Inr x)
      have lx: "wn_level x = wn_level d + 1" "wn_nth x = wn_nth d div 2"
        using Inr positioned_siblings(3) [OF pos cd] by (auto simp: wv_combine_def Let_def)
      have "positioned (rev (x # r) @ xs @ [a, b] @ ys)" using positioned_siblings(4) [OF pos cd lx] by simp
      then show ?thesis using less.hyps [of xs "x # r"] wv_run_combine [OF True [unfolded s] Inr] s by simp
    qed
  next
    case False
    show ?thesis
    proof (cases xs)
      case Nil
      then show ?thesis using push_siblings [OF _ ab False] less.prems by simp
    next
      case (Cons e es)
      show ?thesis
      proof (cases "wv_fetch m off e")
        case (Inl f)
        then show ?thesis using False Cons by (subst (1 2) wv_run.simps) simp
      next
        case (Inr q)
        then obtain e' o1 where e': "wv_fetch m off e = Inr (e', o1)" by (cases q) auto
        have one: "wv_run H m off (e # zs) s = wv_run H m o1 zs (e' # s)" for zs
          using False e' by (subst wv_run.simps) (simp del: bindE_eq_Inr)
        have "leftmost e' = leftmost e" "wn_level e' = wn_level e" using wv_fetch_Inr [OF e'] by (simp_all add: leftmost_def)
        then have "positioned (rev (e' # s) @ es @ [a, b] @ ys)"
          using less.prems unfolding positioned_def Cons by (auto simp: sorted_wrt_append)
        then show ?thesis using less.hyps [of es "e' # s" o1] Cons by (simp add: one)
      qed
    qed
  qed
qed

definition map_level8 :: "nat \<times> wnode \<Rightarrow> (nat \<rightharpoonup> nat) \<Rightarrow> (nat \<rightharpoonup> nat)" where
  "map_level8 = (\<lambda>(idx, node) m. if wn_level node = 8 then m(wn_nth node \<mapsto> idx) else m)"

definition map_level0 :: "nat \<times> wnode \<Rightarrow> (nat \<rightharpoonup> nat) \<Rightarrow> (nat \<rightharpoonup> nat)" where
  "map_level0 = (\<lambda>(idx, node) m. if wn_level node = 0 then m(wn_nth node \<mapsto> idx) else m)"

lemma wit_new_fields [simp]:
  "w_shard_id (wit_new s nodes) = s" "w_nodes (wit_new s nodes) = nodes"
  "w_level0map (wit_new s nodes) = fold map_level0 (enumerate 0 nodes) Map.empty"
  "w_level8map (wit_new s nodes) = fold map_level8 (enumerate 0 nodes) Map.empty"
proof -
  let ?f = "\<lambda>(idx, node) w. if wn_level node = 0 then w\<lparr>w_level0map := (w_level0map w)(wn_nth node \<mapsto> idx)\<rparr>
         else if wn_level node = 8 then w\<lparr>w_level8map := (w_level8map w)(wn_nth node \<mapsto> idx)\<rparr> else (w :: witness)"
  have "w_shard_id (fold ?f es w) = w_shard_id w \<and> w_nodes (fold ?f es w) = w_nodes w \<and>
    w_level0map (fold ?f es w) = fold map_level0 es (w_level0map w) \<and> w_level8map (fold ?f es w) = fold map_level8 es (w_level8map w)" for es w
    by (induction es arbitrary: w) (auto simp: map_level0_def map_level8_def)
  then show "w_shard_id (wit_new s nodes) = s" "w_nodes (wit_new s nodes) = nodes"
    "w_level0map (wit_new s nodes) = fold map_level0 (enumerate 0 nodes) Map.empty"
    "w_level8map (wit_new s nodes) = fold map_level8 (enumerate 0 nodes) Map.empty"
    unfolding wit_new_def by simp_all
qed

lemma map_level8_lookup:
  assumes "i < length nodes" "wn_level (nodes ! i) = 8" "wn_nth (nodes ! i) = k"
    "\<And>j. j < length nodes \<Longrightarrow> wn_level (nodes ! j) = 8 \<Longrightarrow> wn_nth (nodes ! j) = k \<Longrightarrow> j = i"
  shows "fold map_level8 (enumerate 0 nodes) Map.empty k = Some i"
  using assms
proof (induction nodes rule: rev_induct)
  case Nil
  then show ?case by simp
next
  case (snoc x xs)
  show ?case
  proof (cases "i = length xs")
    case True
    then show ?thesis using snoc.prems(2,3) by (simp add: enumerate_append_eq map_level8_def)
  next
    case False
    have "\<not> (wn_level x = 8 \<and> wn_nth x = k)" using snoc.prems(4) [of "length xs"] False by auto
    moreover have "fold map_level8 (enumerate 0 xs) Map.empty k = Some i"
    proof (rule snoc.IH)
      show i: "i < length xs" using snoc.prems(1) False by simp
      show "wn_level (xs ! i) = 8" "wn_nth (xs ! i) = k" using snoc.prems(2,3) i by (simp_all add: nth_append)
      show "j = i" if "j < length xs" "wn_level (xs ! j) = 8" "wn_nth (xs ! j) = k" for j
        using snoc.prems(4) [of j] that by (simp add: nth_append)
    qed
    ultimately show ?thesis by (auto simp: enumerate_append_eq map_level8_def)
  qed
qed


text \<open>C36. The check of a witness does not see in which order two siblings are given: when the positions of two
  sibling nodes of an accepted witness are exchanged, it is accepted for the same two roots. For two pages
  of active bits this exchanges their answers, so the serial numbers of one page are looked up in the bits
  of the other.\<close>

theorem swapped_pages_accepted:
  assumes pos: "positioned (xs @ [a, b] @ ys)" and ab: "wn_level a = 8" "wn_level b = 8" "even (wn_nth a)" "wn_nth b = wn_nth a + 1"
    and w_def: "w = wit_new s (xs @ [a, b] @ ys)"
    and w'_def: "w' = wit_new s (xs @ [a\<lparr>wn_nth := wn_nth b\<rparr>, b\<lparr>wn_nth := wn_nth a\<rparr>] @ ys)"
  shows "verify_witness H w' m old_root new_root = verify_witness H w m old_root new_root \<and>
    (\<exists>i j. w_level8map w (wn_nth a) = Some i \<and> w_level8map w' (wn_nth b) = Some i \<and> wn_value (w_nodes w' ! i) = wn_value a \<and>
       w_level8map w (wn_nth b) = Some j \<and> w_level8map w' (wn_nth a) = Some j \<and> wn_value (w_nodes w' ! j) = wn_value b)"
proof
  have "wn_level a = wn_level b" using ab by simp
  from wv_run_swapped [OF this ab(3,4), of "[]" xs ys H m 0] pos
  show "verify_witness H w' m old_root new_root = verify_witness H w m old_root new_root"
    by (simp add: verify_witness_def w_def w'_def)
  let ?a = "a\<lparr>wn_nth := wn_nth b\<rparr>" and ?b = "b\<lparr>wn_nth := wn_nth a\<rparr>" and ?i = "length xs" and ?j = "length xs + 1"
  have other: "wn_nth y \<notin> {wn_nth a, wn_nth b}" if "y \<in> set xs \<union> set ys" "wn_level y = 8" for y
    using positioned_apart [of xs a "b # ys" y] positioned_apart [of "xs @ [a]" b ys y] pos that ab by auto
  have uniq: "k = (if wn_nth c = n then ?i else ?j)"
    if "wn_level c = 8" "wn_level d = 8" "{wn_nth c, wn_nth d} = {wn_nth a, wn_nth b}" "n \<in> {wn_nth a, wn_nth b}"
      "k < length (xs @ [c, d] @ ys)" "wn_level ((xs @ [c, d] @ ys) ! k) = 8" "wn_nth ((xs @ [c, d] @ ys) ! k) = n" for c d n k
  proof -
    consider "k < ?i" | "k = ?i" | "k = ?j" | "?j < k" by linarith
    then show ?thesis
    proof cases
      case 1
      then have "(xs @ [c, d] @ ys) ! k \<in> set xs" by (simp add: nth_append)
      then show ?thesis using other [of "(xs @ [c, d] @ ys) ! k"] that by auto
    next
      case 4
      then have "(xs @ [c, d] @ ys) ! k = ys ! (k - ?i - 2)" "k - ?i - 2 < length ys" using that(5) by (auto simp: nth_append nth_Cons')
      then have "(xs @ [c, d] @ ys) ! k \<in> set ys" by simp
      then show ?thesis using other [of "(xs @ [c, d] @ ys) ! k"] that by auto
    qed (use that ab in \<open>auto simp: nth_append doubleton_eq_iff\<close>)
  qed
  have at: "w_level8map (wit_new s (xs @ [c, d] @ ys)) n = Some (if wn_nth c = n then ?i else ?j)"
    if "wn_level c = 8" "wn_level d = 8" "{wn_nth c, wn_nth d} = {wn_nth a, wn_nth b}" "n \<in> {wn_nth a, wn_nth b}" for c d n
    unfolding wit_new_fields
  proof (rule map_level8_lookup)
    show "wn_nth ((xs @ [c, d] @ ys) ! (if wn_nth c = n then ?i else ?j)) = n" using that(3,4) by (auto simp: nth_append doubleton_eq_iff)
  qed (use that uniq [OF that] in \<open>auto simp: nth_append\<close>)
  show "\<exists>i j. w_level8map w (wn_nth a) = Some i \<and> w_level8map w' (wn_nth b) = Some i \<and> wn_value (w_nodes w' ! i) = wn_value a \<and>
       w_level8map w (wn_nth b) = Some j \<and> w_level8map w' (wn_nth a) = Some j \<and> wn_value (w_nodes w' ! j) = wn_value b"
  proof (rule exI [of _ ?i], rule exI [of _ ?j], intro conjI)
    show "w_level8map w (wn_nth a) = Some ?i" "w_level8map w (wn_nth b) = Some ?j"
      using at [of a b "wn_nth a"] at [of a b "wn_nth b"] ab unfolding w_def by (simp_all del: wit_new_fields)
    show "w_level8map w' (wn_nth b) = Some ?i" "w_level8map w' (wn_nth a) = Some ?j"
      using at [of ?a ?b "wn_nth b"] at [of ?a ?b "wn_nth a"] ab unfolding w'_def by (simp_all add: insert_commute del: wit_new_fields)
    show "wn_value (w_nodes w' ! ?i) = wn_value a" "wn_value (w_nodes w' ! ?j) = wn_value b"
      unfolding w'_def wit_new_fields by (simp_all add: nth_append)
  qed
qed



section \<open>The effect of a block\<close>

text \<open>The positions that hold data: entries, and pages of active bits.\<close>

definition base :: "nat \<Rightarrow> nat \<Rightarrow> bool" where
  "base l n \<longleftrightarrow> l = 0 \<and> proper 0 n \<or> l = 8 \<and> 8 \<le> n mod 16"

definition below :: "nat \<Rightarrow> nat \<Rightarrow> nat \<Rightarrow> nat \<Rightarrow> bool" where
  "below l n l' n' \<longleftrightarrow> l' \<le> l \<and> n * 2 ^ l \<le> n' * 2 ^ l' \<and> n' * 2 ^ l' < (n + 1) * 2 ^ l"

lemma below_children: "below l (2 * n) l' n' \<or> below l (2 * n + 1) l' n' \<Longrightarrow> below (Suc l) n l' n'"
  by (auto simp: below_def algebra_simps)

lemma below_self: "below l n l n"
  by (simp add: below_def)

lemma improper_child:
  assumes "proper (Suc l) n" "\<not> proper l (2 * n)"
  shows "base (Suc l) n"
proof -
  have "l < 8" using assms(2) by (simp add: proper_def)
  moreover have "\<not> l < 7"
  proof
    assume "l < 7"
    define k where "k = 10 - l"
    have k: "12 - l = Suc (Suc k)" "11 - l = Suc k" "12 - Suc l = Suc k" "11 - Suc l = k" using \<open>l < 7\<close> by (simp_all add: k_def)
    show False using assms \<open>l < 7\<close> unfolding proper_def k split_child by simp
  qed
  ultimately have "l = 7" by simp
  moreover from this have "\<not> 2 * n mod (2 * 16) < 2 * 8" using assms(2) by (simp add: proper_def)
  ultimately show ?thesis unfolding mod_mult_mult1 by (simp add: base_def)
qed

lemma ref_unchanged:
  assumes "proper l n" and "\<And>l' n'. base l' n' \<Longrightarrow> below l n l' n' \<Longrightarrow> ref_node H leaf' pg' l' n' = ref_node H leaf pg l' n'"
  shows "ref_node H leaf' pg' l n = ref_node H leaf pg l n"
  using assms
proof (induction l arbitrary: n)
  case 0
  then show ?case using below_self by (simp add: base_def)
next
  case (Suc l)
  show ?case
  proof (cases "proper l (2 * n)")
    case True
    have "ref_node H leaf' pg' l (2 * n) = ref_node H leaf pg l (2 * n)" "ref_node H leaf' pg' l (2 * n + 1) = ref_node H leaf pg l (2 * n + 1)"
      using True proper_children Suc.prems(2) below_children by (auto intro!: Suc.IH)
    then show ?thesis using ref_node_step [OF True] by simp
  next
    case False
    then show ?thesis using improper_child [OF Suc.prems(1)] Suc.prems(2) below_self by simp
  qed
qed

text \<open>A node follows the block: at a data position its new value is right if its old one is, elsewhere
  the value is kept.\<close>

definition follows :: "(nat \<Rightarrow> nat \<Rightarrow> hash32) \<Rightarrow> (nat \<Rightarrow> nat \<Rightarrow> hash32) \<Rightarrow> wnode \<Rightarrow> bool" where
  "follows R R' nod \<longleftrightarrow> (if base (wn_level nod) (wn_nth nod)
     then old_of nod = R (wn_level nod) (wn_nth nod) \<longrightarrow> new_of nod = R' (wn_level nod) (wn_nth nod)
     else new_of nod = old_of nod)"

lemma base_proper: "base l n \<Longrightarrow> proper l n"
  by (auto simp: base_def proper_def)

lemma wt_same: "\<forall>nod\<in>set (wt_leaves t). f nod = g nod \<Longrightarrow> wt_hash H f t l = wt_hash H g t l"
  by (induction t arbitrary: l) simp_all

lemma wt_new_root:
  assumes H: "digest32 H" and ref: "\<And>l n. proper l n \<Longrightarrow> length (ref_node H leaf pg l n) = 32"
  shows "wt_at t l n \<Longrightarrow> l \<le> 64 \<Longrightarrow> \<forall>nod\<in>set (wt_leaves t). length (old_of nod) = 32 \<and> follows (ref_node H leaf pg) (ref_node H leaf' pg') nod \<Longrightarrow>
    wt_hash H old_of t l = ref_node H leaf pg l n \<Longrightarrow> \<not> collision_in H (wt_inputs H old_of t l) (ref_inputs H leaf pg) \<Longrightarrow>
    proper l n \<Longrightarrow>
    (\<And>l' n'. base l' n' \<Longrightarrow> below l n l' n' \<Longrightarrow> ref_node H leaf' pg' l' n' \<noteq> ref_node H leaf pg l' n' \<Longrightarrow>
      \<exists>nod\<in>set (wt_leaves t). wn_level nod = l' \<and> wn_nth nod = n') \<Longrightarrow>
    wt_hash H new_of t l = ref_node H leaf' pg' l n"
proof (induction t arbitrary: l n)
  case (WLeaf e)
  have e: "wn_level e = l" "wn_nth e = n" and f: "follows (ref_node H leaf pg) (ref_node H leaf' pg') e" "old_of e = ref_node H leaf pg l n"
    using WLeaf.prems by simp_all
  show ?case
  proof (cases "base l n")
    case True
    then show ?thesis using e f by (simp add: follows_def)
  next
    case False
    have "ref_node H leaf' pg' l n = ref_node H leaf pg l n"
      using WLeaf.prems(7) False e by (intro ref_unchanged [OF WLeaf.prems(6)]) auto
    then show ?thesis using False e f by (simp add: follows_def)
  qed
next
  case (WNode a b)
  have at: "0 < l" "wt_at a (l - 1) (2 * n)" "wt_at b (l - 1) (2 * n + 1)" using WNode.prems(1) by simp_all
  have lens: "\<forall>nod\<in>set (wt_leaves a). length (old_of nod) = 32" using WNode.prems(3) by simp
  have no: "\<not> collision_in H (wt_inputs H old_of a (l - 1)) (ref_inputs H leaf pg)" "\<not> collision_in H (wt_inputs H old_of b (l - 1)) (ref_inputs H leaf pg)"
    using WNode.prems(5) by (auto simp: collision_in_def)
  have pos: "n * 2 ^ l = 2 * n * 2 ^ (l - 1)" "(2::nat) ^ l = 2 * 2 ^ (l - 1)" using at(1) by (cases l; simp)+
  show ?case
  proof (cases "proper (l - 1) (2 * n)")
    case True
    note sp = wt_split [OF WNode.prems(4) at(1) WNode.prems(2) True WNode.prems(5) length_wt_hash [OF H lens] ref [OF True]]
    have ch: "\<exists>nod\<in>set (wt_leaves c). wn_level nod = l' \<and> wn_nth nod = n'"
      if c: "(c, m) \<in> {(a, 2 * n), (b, 2 * n + 1)}" and x: "base l' n'" "below (l - 1) m l' n'" "ref_node H leaf' pg' l' n' \<noteq> ref_node H leaf pg l' n'" for c m l' n'
    proof -
      have "below l n l' n'" using below_children [of "l - 1" n l' n'] c x(2) at(1) by auto
      then obtain nod where nod: "nod \<in> set (wt_leaves (WNode a b))" "wn_level nod = l'" "wn_nth nod = n'" using WNode.prems(7) x by blast
      have "leftmost nod = n' * 2 ^ l'" using nod by (simp add: leftmost_def)
      then show ?thesis
        using nod c x(2) wt_at_below(2,3) [OF at(2), of nod] wt_at_below(2,3) [OF at(3), of nod] by (auto simp: below_def)
    qed
    have "wt_hash H new_of a (l - 1) = ref_node H leaf' pg' (l - 1) (2 * n)"
      using WNode.prems(2,3) ch [of a "2 * n"] by (intro WNode.IH(1) [OF at(2) _ _ sp(1) no(1) True]) auto
    moreover have "wt_hash H new_of b (l - 1) = ref_node H leaf' pg' (l - 1) (2 * n + 1)"
      using WNode.prems(2,3) ch [of b "2 * n + 1"] True proper_children by (intro WNode.IH(2) [OF at(3) _ _ sp(2) no(2)]) auto
    ultimately show ?thesis using ref_node_step [OF True, of H leaf' pg'] at(1) by simp
  next
    case False
    have imp: "base l n" using improper_child [of "l - 1" n] WNode.prems(6) False at(1) by simp
    have small: "wn_level nod < l" "\<not> base (wn_level nod) (wn_nth nod)" if "nod \<in> set (wt_leaves (WNode a b))" for nod
    proof -
      show "wn_level nod < l" using that wt_at_below(1) [OF at(2), of nod] wt_at_below(1) [OF at(3), of nod] at(1) by auto
      have "\<not> proper (wn_level nod) (wn_nth nod)"
        using that wt_proper [OF at(2), of nod] wt_proper [OF at(3), of nod] False proper_children by auto
      then show "\<not> base (wn_level nod) (wn_nth nod)" using base_proper by blast
    qed
    have "\<forall>nod\<in>set (wt_leaves (WNode a b)). new_of nod = old_of nod" using WNode.prems(3) small(2) by (auto simp: follows_def)
    then have "wt_hash H new_of (WNode a b) l = ref_node H leaf pg l n" using wt_same WNode.prems(4) by metis
    moreover have "ref_node H leaf' pg' l n = ref_node H leaf pg l n"
    proof (rule ccontr)
      assume "ref_node H leaf' pg' l n \<noteq> ref_node H leaf pg l n"
      then obtain nod where "nod \<in> set (wt_leaves (WNode a b))" "wn_level nod = l" using WNode.prems(7) [OF imp below_self] by blast
      then show False using small(1) by blast
    qed
    ultimately show ?thesis by simp
  qed
qed


text \<open>The block on the state: the active bits of the twigs as the tree sets and clears them, the hash of a
  new entry, and the deactivated entries.\<close>

definition blk_bit :: "(nat \<Rightarrow> bytes) \<Rightarrow> nat \<Rightarrow> bool \<Rightarrow> nat \<Rightarrow> bytes" where
  "blk_bit ab sn v = (let t = sn div 2048 in
     case (if v then ab_set_bit else ab_clear_bit) (ab t) (sn mod 2048) of Inr b \<Rightarrow> ab(t := b) | Inl _ \<Rightarrow> ab)"

definition blk_entry :: "hashfun \<Rightarrow> bytes \<Rightarrow> (nat \<Rightarrow> hash32) \<times> (nat \<Rightarrow> bytes) \<Rightarrow> ((nat \<Rightarrow> hash32) \<times> (nat \<Rightarrow> bytes)) result" where
  "blk_entry H e = (\<lambda>(leaf, ab).
     bindE (ebz_serial_number e) (\<lambda>sn.
     bindE (ebz_hash H e) (\<lambda>h.
     bindE (dsn_count e) (\<lambda>count.
     bindE (foldE (\<lambda>i ab. bindE (get_deactived_sn e i) (\<lambda>sn. Inr (blk_bit ab (unat sn) False))) [0..<count] (blk_bit ab (unat sn) True)) (\<lambda>ab.
     Inr (leaf(unat sn := h), ab))))))"

definition ref_state :: "hashfun \<Rightarrow> (nat \<Rightarrow> hash32) \<times> (nat \<Rightarrow> bytes) \<Rightarrow> nat \<Rightarrow> nat \<Rightarrow> hash32" where
  "ref_state H = (\<lambda>(leaf, ab). ref_node H leaf (\<lambda>t. page (ab t)))"

definition flip_byte :: "bool \<Rightarrow> nat \<Rightarrow> byte \<Rightarrow> byte" where
  "flip_byte v k b = (if v then b OR push_bit k 1 else b AND NOT (push_bit k 1))"

lemma ref_entry: "proper 0 n \<Longrightarrow> ref_node H leaf pg 0 n = leaf (n div 4096 * 2048 + n mod 4096)"
  by (simp add: ref_node_def proper_def Let_def mult.commute)

lemma ref_page: "8 \<le> n mod 16 \<Longrightarrow> ref_node H leaf pg 8 n = pg (n div 16) (n mod 16 - 8)"
  by (simp add: ref_node_def Let_def)

lemma sn_position:
  assumes "sn < 2 ^ 63"
  shows "sn_to_level0nth sn = sn div 2048 * 4096 + sn mod 2048" "sn_to_level0nth sn div 4096 = sn div 2048"
    "sn_to_level0nth sn mod 4096 = sn mod 2048" "base 0 (sn_to_level0nth sn)" "sn_to_level0nth sn mod 256 = sn mod 256"
proof -
  have r: "sn mod 2048 < 2048" by simp
  have "sn div 2048 * 4096 + sn mod 2048 < 2 ^ 64"
  proof -
    have "sn div 2048 < 2 ^ 52" using assms by (simp add: div_less_iff_less_mult)
    then show ?thesis using r by simp
  qed
  then show e: "sn_to_level0nth sn = sn div 2048 * 4096 + sn mod 2048" by (simp add: sn_to_level0nth_def Let_def)
  show "sn_to_level0nth sn div 4096 = sn div 2048" and m: "sn_to_level0nth sn mod 4096 = sn mod 2048" unfolding e using r by simp_all
  show "base 0 (sn_to_level0nth sn)" using m by (simp add: base_def proper_def)
  show "sn_to_level0nth sn mod 256 = sn mod 256"
  proof -
    have "sn div 2048 * 4096 mod 256 = 0" by (simp add: mod_mult_right_eq [symmetric])
    then have "(sn div 2048 * 4096 + sn mod 2048) mod 256 = sn mod 2048 mod 256" by (metis add.left_neutral mod_add_left_eq)
    also have "\<dots> = sn mod 256" by (rule mod_mod_cancel) simp
    finally show ?thesis unfolding e .
  qed
qed

lemma page_position:
  assumes "sn < 2 ^ 63"
  shows "sn_to_level8nth sn = 16 * (sn div 2048) + (8 + sn mod 2048 div 256)"
    "level0nth_to_level8nth (sn_to_level0nth sn) = sn_to_level8nth sn"
    "sn_to_level8nth sn div 16 = sn div 2048" "sn_to_level8nth sn mod 16 - 8 = sn mod 2048 div 256" "base 8 (sn_to_level8nth sn)"
proof -
  have lt: "sn mod 2048 div 256 < 8" by (simp add: div_less_iff_less_mult)
  show "level0nth_to_level8nth (sn_to_level0nth sn) = sn_to_level8nth sn" by (simp add: sn_to_level8nth_def)
  have "sn_to_level0nth sn div 256 mod 8 = sn mod 2048 div 256"
  proof -
    have "sn_to_level0nth sn = 256 * (16 * (sn div 2048)) + sn mod 2048" using sn_position(1) [OF assms] by simp
    then have "sn_to_level0nth sn div 256 = 16 * (sn div 2048) + sn mod 2048 div 256" by simp
    then show ?thesis using lt by (simp add: mod_add_left_eq [symmetric])
  qed
  then show e: "sn_to_level8nth sn = 16 * (sn div 2048) + (8 + sn mod 2048 div 256)"
    using sn_position(2) [OF assms] by (simp add: sn_to_level8nth_def level0nth_to_level8nth_def Let_def)
  have "(8 + sn mod 2048 div 256) < 16" using lt by simp
  then have "sn_to_level8nth sn mod 16 = 8 + sn mod 2048 div 256" "sn_to_level8nth sn div 16 = sn div 2048" unfolding e by simp_all
  then show "sn_to_level8nth sn div 16 = sn div 2048" "sn_to_level8nth sn mod 16 - 8 = sn mod 2048 div 256" "base 8 (sn_to_level8nth sn)"
    by (simp_all add: base_def)
qed


lemma blk_bit_eq:
  assumes "length (ab (sn div 2048)) = 256"
  shows "blk_bit ab sn v = ab(sn div 2048 := (ab (sn div 2048))[sn mod 2048 div 8 := flip_byte v (sn mod 8) (ab (sn div 2048) ! (sn mod 2048 div 8))])"
proof -
  have i: "sn mod 2048 div 8 < 256" "\<not> 2048 < sn mod 2048" by (simp_all add: div_less_iff_less_mult not_less less_imp_le)
  have m: "sn mod 2048 mod 8 = sn mod 8" by (rule mod_mod_cancel) simp
  show ?thesis using i assms
    by (cases v) (simp_all add: blk_bit_def ab_set_bit_def ab_clear_bit_def flip_byte_def and_7 drop_3 m Let_def layout_defs del: bindE_eq_Inr)
qed

lemma length_blk_bit: "\<forall>t. length (ab t) = 256 \<Longrightarrow> length (blk_bit ab sn v t) = 256"
  by (simp add: blk_bit_eq)

lemma byte_in_page: "(sn mod 2048) div 8 = 32 * (sn mod 2048 div 256) + sn mod 256 div (8::nat)"
proof -
  have "sn mod 2048 = 256 * (sn mod 2048 div 256) + sn mod 2048 mod 256" by simp
  moreover have "sn mod 2048 mod 256 = sn mod 256" by (rule mod_mod_cancel) simp
  ultimately have "sn mod 2048 = 8 * (32 * (sn mod 2048 div 256)) + sn mod 256" by simp
  then have "sn mod 2048 div 8 = (8 * (32 * (sn mod 2048 div 256)) + sn mod 256) div 8" by metis
  also have "\<dots> = 32 * (sn mod 2048 div 256) + sn mod 256 div 8" by (rule div_mult_self4) simp
  finally show ?thesis .
qed

lemma page_update:
  assumes "length b = 256" "i < 32" "q < 8" "p < 8"
  shows "page (b[32 * q + i := y]) p = (if p = q then (page b q)[i := y] else page b p)"
proof (rule nth_equalityI)
  show "length (page (b[32 * q + i := y]) p) = length (if p = q then (page b q)[i := y] else page b p)"
    using assms by (simp add: page_def)
  fix k assume "k < length (page (b[32 * q + i := y]) p)"
  then have k: "k < 32" using assms by (simp add: page_def)
  have "(32 * q + i) div 32 = q" "(32 * q + i) mod 32 = i" "(p * 32 + k) div 32 = p" "(p * 32 + k) mod 32 = k"
    using k assms(2) by simp_all
  then have "32 * q + i = p * 32 + k \<longleftrightarrow> p = q \<and> k = i" by (metis mult.commute)
  moreover have "p * 32 + k < length b" "q * 32 + i < length b" using assms k by auto
  ultimately show "page (b[32 * q + i := y]) p ! k = (if p = q then (page b q)[i := y] else page b p) ! k"
    using k assms by (auto simp: page_def nth_list_update)
qed

lemma page_nth: "length b = 256 \<Longrightarrow> q < 8 \<Longrightarrow> i < 32 \<Longrightarrow> page b q ! i = b ! (32 * q + i)"
  by (simp add: page_def mult.commute)

lemma page_blk_bit:
  assumes "\<forall>t. length (ab t) = 256" "p < 8"
  shows "page (blk_bit ab sn v t) p = (if t = sn div 2048 \<and> p = sn mod 2048 div 256
    then (page (ab t) p)[sn mod 256 div 8 := flip_byte v (sn mod 8) (page (ab t) p ! (sn mod 256 div 8))] else page (ab t) p)"
proof -
  have i: "sn mod 256 div 8 < 32" "sn mod 2048 div 256 < 8" by (simp_all add: div_less_iff_less_mult)
  show ?thesis using assms i by (simp add: blk_bit_eq byte_in_page page_update page_nth)
qed

lemma length_page: "length b = 256 \<Longrightarrow> p < 8 \<Longrightarrow> length (page b p) = 32"
  by (simp add: page_def)

lemma ref_state_entry:
  assumes "sn < 2 ^ 63"
  shows "ref_state H (leaf(sn := h), ab) 0 (sn_to_level0nth sn) = h"
    and "base l n \<Longrightarrow> (l, n) \<noteq> (0, sn_to_level0nth sn) \<Longrightarrow> ref_state H (leaf(sn := h), ab) l n = ref_state H (leaf, ab) l n"
proof -
  note pos = sn_position [OF assms]
  show "ref_state H (leaf(sn := h), ab) 0 (sn_to_level0nth sn) = h"
    using pos by (simp add: ref_state_def ref_entry base_proper)
  assume b: "base l n" and ne: "(l, n) \<noteq> (0, sn_to_level0nth sn)"
  show "ref_state H (leaf(sn := h), ab) l n = ref_state H (leaf, ab) l n"
  proof (cases "l = 0")
    case True
    then have p: "n mod 4096 < 2048" "proper 0 n" using b by (auto simp: base_def proper_def)
    have "n div 4096 * 2048 + n mod 4096 \<noteq> sn"
    proof
      assume e: "n div 4096 * 2048 + n mod 4096 = sn"
      then have "sn div 2048 = n div 4096" "sn mod 2048 = n mod 4096" using p(1) by auto
      then have "sn_to_level0nth sn = n" unfolding pos(1) by simp
      then show False using ne True by simp
    qed
    then show ?thesis using True p by (simp add: ref_state_def ref_entry)
  next
    case False
    then show ?thesis using b by (auto simp: base_def ref_state_def ref_page)
  qed
qed

lemma ref_state_bit:
  assumes "sn < 2 ^ 63" and ab: "\<forall>t. length (ab t) = 256"
  shows "ref_state H (leaf, blk_bit ab sn v) 8 (sn_to_level8nth sn) =
      (ref_state H (leaf, ab) 8 (sn_to_level8nth sn))[sn mod 256 div 8 := flip_byte v (sn mod 8) (ref_state H (leaf, ab) 8 (sn_to_level8nth sn) ! (sn mod 256 div 8))]"
    and "base l n \<Longrightarrow> (l, n) \<noteq> (8, sn_to_level8nth sn) \<Longrightarrow> ref_state H (leaf, blk_bit ab sn v) l n = ref_state H (leaf, ab) l n"
proof -
  note pos = page_position [OF assms(1)]
  have lt: "sn mod 2048 div 256 < 8" by (simp add: div_less_iff_less_mult)
  have "8 \<le> sn_to_level8nth sn mod 16" using pos(5) by (simp add: base_def)
  then show "ref_state H (leaf, blk_bit ab sn v) 8 (sn_to_level8nth sn) =
      (ref_state H (leaf, ab) 8 (sn_to_level8nth sn))[sn mod 256 div 8 := flip_byte v (sn mod 8) (ref_state H (leaf, ab) 8 (sn_to_level8nth sn) ! (sn mod 256 div 8))]"
    using lt pos(3,4) by (simp add: ref_state_def ref_page page_blk_bit [OF ab])
  assume b: "base l n" and ne: "(l, n) \<noteq> (8, sn_to_level8nth sn)"
  show "ref_state H (leaf, blk_bit ab sn v) l n = ref_state H (leaf, ab) l n"
  proof (cases "l = 8")
    case True
    then have n: "8 \<le> n mod 16" using b by (simp add: base_def)
    have "\<not> (n div 16 = sn div 2048 \<and> n mod 16 - 8 = sn mod 2048 div 256)"
    proof
      assume e: "n div 16 = sn div 2048 \<and> n mod 16 - 8 = sn mod 2048 div 256"
      have "n = 16 * (n div 16) + n mod 16" by simp
      then have "n = sn_to_level8nth sn" using e n unfolding pos(1) by linarith
      then show False using ne True by simp
    qed
    then show ?thesis using True n by (auto simp: ref_state_def ref_page page_blk_bit [OF ab])
  next
    case False
    then show ?thesis using b by (auto simp: base_def ref_state_def ref_entry)
  qed
qed


text \<open>The witness while the block is applied: every change of the state is at a node of the witness.\<close>

definition tracks :: "(nat \<Rightarrow> nat \<Rightarrow> hash32) \<Rightarrow> (nat \<Rightarrow> nat \<Rightarrow> hash32) \<Rightarrow> wnode \<Rightarrow> bool" where
  "tracks R R' nod \<longleftrightarrow> (if wn_value nod = None
     then base (wn_level nod) (wn_nth nod) \<longrightarrow> R' (wn_level nod) (wn_nth nod) = R (wn_level nod) (wn_nth nod)
     else follows R R' nod)"

definition tracking :: "(nat \<Rightarrow> nat \<Rightarrow> hash32) \<Rightarrow> (nat \<Rightarrow> nat \<Rightarrow> hash32) \<Rightarrow> witness \<Rightarrow> bool" where
  "tracking R R' w \<longleftrightarrow> positioned (w_nodes w) \<and> typed (w_nodes w) \<and>
     (\<forall>k i. w_level0map w k = Some i \<longrightarrow> i < length (w_nodes w) \<and> wn_level (w_nodes w ! i) = 0 \<and> wn_nth (w_nodes w ! i) = k) \<and>
     (\<forall>k i. w_level8map w k = Some i \<longrightarrow> i < length (w_nodes w) \<and> wn_level (w_nodes w ! i) = 8 \<and> wn_nth (w_nodes w ! i) = k) \<and>
     (\<forall>nod\<in>set (w_nodes w). tracks R R' nod) \<and>
     (\<forall>l n. base l n \<longrightarrow> R' l n \<noteq> R l n \<longrightarrow> (\<exists>nod\<in>set (w_nodes w). wn_level nod = l \<and> wn_nth nod = n))"

lemma positioned_inj:
  assumes "positioned ns" "i < length ns" "j < length ns" "wn_level (ns ! i) = wn_level (ns ! j)" "wn_nth (ns ! i) = wn_nth (ns ! j)"
  shows "i = j"
proof (rule ccontr)
  assume "i \<noteq> j"
  have lt: "leftmost (ns ! a) < leftmost (ns ! b)" if "a < b" "b < length ns" for a b
    using assms(1) that unfolding positioned_def sorted_wrt_iff_nth_less by blast
  have "leftmost (ns ! i) \<noteq> leftmost (ns ! j)"
    using \<open>i \<noteq> j\<close> assms(2,3) lt [of i j] lt [of j i] by (cases i j rule: linorder_cases) auto
  then show False using assms(4,5) by (simp add: leftmost_def)
qed

lemma positions_update:
  assumes "i < length ns" "wn_level nod = wn_level (ns ! i)" "wn_nth nod = wn_nth (ns ! i)"
  shows "positioned (ns[i := nod]) \<longleftrightarrow> positioned ns"
proof -
  have "map leftmost (ns[i := nod]) = map leftmost ns" "map wn_level (ns[i := nod]) = map wn_level ns"
    using assms by (auto simp: map_update leftmost_def list_update_same_conv)
  then have "sorted_wrt (<) (map leftmost (ns[i := nod])) = sorted_wrt (<) (map leftmost ns)"
    and "(\<forall>l\<in>set (map wn_level (ns[i := nod])). l \<le> 64) = (\<forall>l\<in>set (map wn_level ns). l \<le> 64)"
    and "(\<forall>x\<in>set (map leftmost (ns[i := nod])). x < 2 ^ 64) = (\<forall>x\<in>set (map leftmost ns). x < 2 ^ 64)"
    by (simp_all del: map_update)
  then show ?thesis by (auto simp: positioned_def sorted_wrt_map simp del: map_update)
qed

lemma tracking_update:
  assumes tr: "tracking R R' w" and i: "i < length (w_nodes w)" and nod: "nod = w_nodes w ! i" and p: "wn_value nod = Some p"
    and b: "base (wn_level nod) (wn_nth nod)" and x: "length x = 32"
    and right: "vp_old p = R (wn_level nod) (wn_nth nod) \<Longrightarrow> x = R'' (wn_level nod) (wn_nth nod)"
    and other: "\<And>l n. base l n \<Longrightarrow> (l, n) \<noteq> (wn_level nod, wn_nth nod) \<Longrightarrow> R'' l n = R' l n"
  shows "tracking R R'' (w\<lparr>w_nodes := (w_nodes w)[i := nod\<lparr>wn_value := Some (p\<lparr>vp_new := x\<rparr>)\<rparr>]\<rparr>)"
proof -
  let ?nod = "nod\<lparr>wn_value := Some (p\<lparr>vp_new := x\<rparr>)\<rparr>" and ?ns = "w_nodes w"
  have pos: "positioned ?ns" using tr by (simp add: tracking_def)
  have lens: "length (vp_old p) = 32" using tr i nod p unfolding tracking_def typed_def by (metis nth_mem)
  have len: "length (?ns[i := ?nod]) = length ?ns" by simp
  have same: "wn_level (?ns[i := ?nod] ! j) = wn_level (?ns ! j)" "wn_nth (?ns[i := ?nod] ! j) = wn_nth (?ns ! j)" for j
    using i nod by (cases "j = i"; simp)+
  have tracks_j: "tracks R R'' (?ns[i := ?nod] ! j)" if j: "j < length ?ns" for j
  proof (cases "j = i")
    case True
    then show ?thesis using i b right by (simp add: tracks_def follows_def old_of_def new_of_def p)
  next
    case False
    have "(wn_level (?ns ! j), wn_nth (?ns ! j)) \<noteq> (wn_level nod, wn_nth nod)"
      using positioned_inj [OF pos j i] False nod by auto
    moreover have "tracks R R' (?ns ! j)" using tr j by (simp add: tracking_def)
    ultimately show ?thesis using False other by (auto simp: tracks_def follows_def)
  qed
  have there: "\<exists>nod'\<in>set (?ns[i := ?nod]). wn_level nod' = l \<and> wn_nth nod' = n" if "j < length ?ns" "wn_level (?ns ! j) = l" "wn_nth (?ns ! j) = n" for l n j
    using that same [of j] by (intro bexI [of _ "?ns[i := ?nod] ! j"]) simp_all
  have changes: "\<exists>nod'\<in>set (?ns[i := ?nod]). wn_level nod' = l \<and> wn_nth nod' = n" if bl: "base l n" "R'' l n \<noteq> R l n" for l n
  proof (cases "(l, n) = (wn_level nod, wn_nth nod)")
    case True
    then show ?thesis using there [OF i] nod by simp
  next
    case False
    then have "R' l n \<noteq> R l n" using other bl by simp
    then obtain nod' where "nod' \<in> set ?ns" "wn_level nod' = l" "wn_nth nod' = n"
      using tr bl(1) unfolding tracking_def by blast
    then obtain j where "j < length ?ns" "wn_level (?ns ! j) = l" "wn_nth (?ns ! j) = n"
      unfolding in_set_conv_nth by blast
    then show ?thesis by (rule there)
  qed
  have "typed (?ns[i := ?nod])"
    using tr lens x set_update_subset_insert [of ?ns i ?nod] unfolding tracking_def typed_def by fastforce
  moreover have "positioned (?ns[i := ?nod])" using pos positions_update [OF i] nod by simp
  moreover have "\<forall>nod'\<in>set (?ns[i := ?nod]). tracks R R'' nod'" using tracks_j by (simp add: all_set_conv_all_nth)
  ultimately show ?thesis using tr changes unfolding tracking_def by (simp add: same)
qed


lemma tracking_map0: "tracking R R' w \<Longrightarrow> w_level0map w k = Some i \<Longrightarrow> i < length (w_nodes w) \<and> wn_level (w_nodes w ! i) = 0 \<and> wn_nth (w_nodes w ! i) = k"
  unfolding tracking_def by blast

lemma tracking_map8: "tracking R R' w \<Longrightarrow> w_level8map w k = Some i \<Longrightarrow> i < length (w_nodes w) \<and> wn_level (w_nodes w ! i) = 8 \<and> wn_nth (w_nodes w ! i) = k"
  unfolding tracking_def by blast

lemma tracking_node: "tracking R R' w \<Longrightarrow> i < length (w_nodes w) \<Longrightarrow> tracks R R' (w_nodes w ! i)"
  unfolding tracking_def by (meson nth_mem)

lemma tracking_typed:
  "tracking R R' w \<Longrightarrow> i < length (w_nodes w) \<Longrightarrow> wn_value (w_nodes w ! i) = Some p \<Longrightarrow> length (vp_new p) = 32"
  unfolding tracking_def typed_def by (meson nth_mem)

lemma set_actived_tracking:
  assumes tr: "tracking R (ref_state H (leaf, ab)) w" and sn: "sn < 2 ^ 63" and ab: "\<forall>t. length (ab t) = 256"
    and run: "wit_set_actived (sn_to_level8nth sn) (sn mod 256) v w = Inr (True, w')"
  shows "tracking R (ref_state H (leaf, blk_bit ab sn v)) w'"
proof -
  obtain i n where i: "w_level8map w (sn_to_level8nth sn) = Some i"
    and n: "wn_set_actived (w_nodes w ! i) (sn mod 256) v = Inr n" "w' = w\<lparr>w_nodes := (w_nodes w)[i := n]\<rparr>" and len: "i < length (w_nodes w)"
    using run by (auto simp: wit_set_actived_def res_simps split: option.splits)
  let ?nod = "w_nodes w ! i"
  note at = tracking_map8 [OF tr i]
  have m: "sn mod 256 mod 8 = sn mod 8" by (rule mod_mod_cancel) simp
  obtain p where p: "wn_value ?nod = Some p"
    and nn: "n = ?nod\<lparr>wn_value := Some (p\<lparr>vp_new := (vp_new p)[sn mod 256 div 8 := flip_byte v (sn mod 8) (vp_new p ! (sn mod 256 div 8))]\<rparr>)\<rparr>"
    using n(1) by (auto simp: wn_set_actived_def wn_pair_def Let_def flip_byte_def m res_simps)
  have b: "base (wn_level ?nod) (wn_nth ?nod)" using at page_position(5) [OF sn] by simp
  show ?thesis unfolding n(2) nn
  proof (rule tracking_update [OF tr len refl p b])
    show "length ((vp_new p)[sn mod 256 div 8 := flip_byte v (sn mod 8) (vp_new p ! (sn mod 256 div 8))]) = 32"
      using tracking_typed [OF tr len p] by simp
    assume "vp_old p = R (wn_level ?nod) (wn_nth ?nod)"
    then have "vp_new p = ref_state H (leaf, ab) 8 (sn_to_level8nth sn)"
      using tracking_node [OF tr len] b p at by (simp add: tracks_def follows_def old_of_def new_of_def)
    then show "(vp_new p)[sn mod 256 div 8 := flip_byte v (sn mod 8) (vp_new p ! (sn mod 256 div 8))] =
        ref_state H (leaf, blk_bit ab sn v) (wn_level ?nod) (wn_nth ?nod)"
      using ref_state_bit(1) [OF sn ab] at by simp
  next
    fix l k assume "base l k" "(l, k) \<noteq> (wn_level ?nod, wn_nth ?nod)"
    then show "ref_state H (leaf, blk_bit ab sn v) l k = ref_state H (leaf, ab) l k"
      using ref_state_bit(2) [OF sn ab] at by simp
  qed
qed

lemma set_new_tracking:
  assumes tr: "tracking R (ref_state H (leaf, ab)) w" and sn: "sn < 2 ^ 63" and i: "w_level0map w (sn_to_level0nth sn) = Some i"
    and n: "wn_set_new (w_nodes w ! i) h = Inr n" and h: "length h = 32"
  shows "tracking R (ref_state H (leaf(sn := h), ab)) (w\<lparr>w_nodes := (w_nodes w)[i := n]\<rparr>)"
proof -
  let ?nod = "w_nodes w ! i"
  note at = tracking_map0 [OF tr i]
  obtain p where p: "wn_value ?nod = Some p" and nn: "n = ?nod\<lparr>wn_value := Some (p\<lparr>vp_new := h\<rparr>)\<rparr>"
    using n by (auto simp: wn_set_new_def wn_pair_def res_simps)
  have b: "base (wn_level ?nod) (wn_nth ?nod)" using at sn_position(4) [OF sn] by simp
  show ?thesis unfolding nn
    using at ref_state_entry [OF sn] h by (intro tracking_update [OF tr _ refl p b]) simp_all
qed

definition small_sns :: "bytes \<Rightarrow> bool" where
  "small_sns e \<longleftrightarrow> (\<forall>sn. ebz_serial_number e = Inr sn \<longrightarrow> unat sn < 2 ^ 63) \<and>
     (\<forall>count i sn. dsn_count e = Inr count \<longrightarrow> i < count \<longrightarrow> get_deactived_sn e i = Inr sn \<longrightarrow> unat sn < 2 ^ 63)"

lemma dsn_tracking:
  "\<forall>i\<in>set is. \<forall>sn. get_deactived_sn e i = Inr sn \<longrightarrow> unat sn < 2 ^ 63 \<Longrightarrow> tracking R (ref_state H (leaf, ab)) w \<Longrightarrow> \<forall>t. length (ab t) = 256 \<Longrightarrow>
    foldE (\<lambda>i (good, w). if \<not> good then Inr (False, w)
      else bindE (get_deactived_sn e i) (\<lambda>sn. wit_set_actived (sn_to_level8nth (unat sn)) (unat sn mod 256) False w)) is (True, w) = Inr (True, w') \<Longrightarrow>
    \<exists>ab'. foldE (\<lambda>i ab. bindE (get_deactived_sn e i) (\<lambda>sn. Inr (blk_bit ab (unat sn) False))) is ab = Inr ab' \<and>
      (\<forall>t. length (ab' t) = 256) \<and> tracking R (ref_state H (leaf, ab')) w'"
proof (induction "is" arbitrary: ab w)
  case Nil
  then show ?case by simp
next
  case (Cons i xs)
  let ?f = "\<lambda>i (good, w). if \<not> good then Inr (False, w)
      else bindE (get_deactived_sn e i) (\<lambda>sn. wit_set_actived (sn_to_level8nth (unat sn)) (unat sn mod 256) False w)"
  have stuck: "foldE ?f ys (False, u) = Inr (False, u)" for ys u by (induction ys) simp_all
  obtain good u sn where sn: "get_deactived_sn e i = Inr sn" and st: "wit_set_actived (sn_to_level8nth (unat sn)) (unat sn mod 256) False w = Inr (good, u)"
    and rest: "foldE ?f xs (good, u) = Inr (True, w')"
    using Cons.prems(4) by auto
  have "good" using rest stuck [of xs u] by (cases good) auto
  have "unat sn < 2 ^ 63" using Cons.prems(1) sn by simp
  then have "tracking R (ref_state H (leaf, blk_bit ab (unat sn) False)) u"
    using st \<open>good\<close> by (intro set_actived_tracking [OF Cons.prems(2) _ Cons.prems(3)]) simp_all
  moreover have "\<forall>t. length (blk_bit ab (unat sn) False t) = 256" using length_blk_bit [OF Cons.prems(3)] by blast
  ultimately show ?case using Cons.IH [of "blk_bit ab (unat sn) False" u] Cons.prems(1) rest \<open>good\<close> sn by simp
qed

lemma add_entry_tracking:
  assumes H: "digest32 H" and tr: "tracking R (ref_state H (leaf, ab)) w" and ab: "\<forall>t. length (ab t) = 256"
    and small: "small_sns e" and run: "wit_add_entry H e w = Inr (True, w')"
  shows "\<exists>leaf' ab'. blk_entry H e (leaf, ab) = Inr (leaf', ab') \<and> (\<forall>t. length (ab' t) = 256) \<and> tracking R (ref_state H (leaf', ab')) w'"
proof -
  obtain sn i h n good u count where sn: "ebz_serial_number e = Inr sn" and i: "w_level0map w (sn_to_level0nth (unat sn)) = Some i"
    and h: "ebz_hash H e = Inr h" and n: "wn_set_new (w_nodes w ! i) h = Inr n"
    and bit: "wit_set_actived (level0nth_to_level8nth (sn_to_level0nth (unat sn))) (sn_to_level0nth (unat sn) mod 256) True
      (w\<lparr>w_nodes := (w_nodes w)[i := n]\<rparr>) = Inr (True, u)"
    and count: "dsn_count e = Inr count"
    and dsns: "foldE (\<lambda>i (good, w). if \<not> good then Inr (False, w)
      else bindE (get_deactived_sn e i) (\<lambda>sn. wit_set_actived (sn_to_level8nth (unat sn)) (unat sn mod 256) False w)) [0..<count] (True, u) = Inr (True, w')"
    using run by (auto simp: wit_add_entry_def Let_def res_simps split: option.splits if_splits)
  have lt: "unat sn < 2 ^ 63" and dl: "\<forall>i\<in>set [0..<count]. \<forall>sn. get_deactived_sn e i = Inr sn \<longrightarrow> unat sn < 2 ^ 63"
    using small sn count by (auto simp: small_sns_def)
  have hl: "length h = 32" using h H by (auto simp: ebz_hash_def hash_def digest32_def)
  have "tracking R (ref_state H (leaf(unat sn := h), ab)) (w\<lparr>w_nodes := (w_nodes w)[i := n]\<rparr>)"
    using set_new_tracking [OF tr lt i n hl] .
  then have "tracking R (ref_state H (leaf(unat sn := h), blk_bit ab (unat sn) True)) u"
    using bit lt ab unfolding page_position(2) [OF lt] sn_position(5) [OF lt] by (intro set_actived_tracking) simp_all
  from dsn_tracking [OF dl this _ dsns] length_blk_bit [OF ab] obtain ab' where
    "foldE (\<lambda>i ab. bindE (get_deactived_sn e i) (\<lambda>sn. Inr (blk_bit ab (unat sn) False))) [0..<count] (blk_bit ab (unat sn) True) = Inr ab'"
    "\<forall>t. length (ab' t) = 256" "tracking R (ref_state H (leaf(unat sn := h), ab')) w'" by blast
  then show ?thesis using sn h count by (simp add: blk_entry_def del: bindE_eq_Inr)
qed


text \<open>A parsed witness: all values are old and new at once and have 32 bytes.\<close>

definition fresh :: "wnode list \<Rightarrow> bool" where
  "fresh nodes \<longleftrightarrow> (\<forall>nod\<in>set nodes. \<forall>p. wn_value nod = Some p \<longrightarrow> vp_new p = vp_old p)"

lemma parse_value_fresh:
  "wit_parse_value H D s v bz level n idx ty = Inr (node, idx') \<Longrightarrow> fresh [node] \<and> typed [node]"
  by (cases ty) (auto simp: wit_parse_value_def wn_set_old_and_new_def wn_new_def fresh_def typed_def res_simps)

lemma parse_node_fresh: "wit_parse_node H D s v bz idx = Inr (node, idx') \<Longrightarrow> fresh [node] \<and> typed [node]"
  unfolding wit_parse_node_def by (auto dest!: parse_value_fresh split: option.split_asm)

lemma parse_nodes_fresh: "wit_parse_nodes H D s v bz idx = Inr nodes \<Longrightarrow> fresh nodes \<and> typed nodes"
proof (induction H D s v bz idx arbitrary: nodes rule: wit_parse_nodes.induct)
  case (1 H D s v bz idx)
  obtain node idx' where n: "wit_parse_node H D s v bz idx = Inr (node, idx')"
    and r: "(if length bz \<le> idx' then Inr [node] else bindE (wit_parse_nodes H D s v bz idx') (\<lambda>nodes. Inr (node # nodes))) = Inr nodes"
    using "1.prems" by (subst (asm) wit_parse_nodes.simps) auto
  show ?case
  proof (cases "length bz \<le> idx'")
    case True
    then show ?thesis using r parse_node_fresh [OF n] by auto
  next
    case False
    then obtain ns where "wit_parse_nodes H D s v bz idx' = Inr ns" "nodes = node # ns" using r by auto
    then show ?thesis using parse_node_fresh [OF n] "1.IH" [OF n refl False] by (auto simp: fresh_def typed_def)
  qed
qed

lemma map_level_sound:
  "fold map_level0 (enumerate k nodes) m key = Some i \<Longrightarrow> m key = Some i \<or> (k \<le> i \<and> i < k + length nodes \<and> wn_level (nodes ! (i - k)) = 0 \<and> wn_nth (nodes ! (i - k)) = key)"
  "fold map_level8 (enumerate k nodes) m key = Some i \<Longrightarrow> m key = Some i \<or> (k \<le> i \<and> i < k + length nodes \<and> wn_level (nodes ! (i - k)) = 8 \<and> wn_nth (nodes ! (i - k)) = key)"
proof (induction nodes arbitrary: k m)
  case (Cons x xs)
  {
    case 1
    then have "map_level0 (k, x) m key = Some i \<or> (Suc k \<le> i \<and> i < Suc k + length xs \<and> wn_level (xs ! (i - Suc k)) = 0 \<and> wn_nth (xs ! (i - Suc k)) = key)"
      using Cons.IH(1) [of "Suc k" "map_level0 (k, x) m"] by simp
    then show ?case by (auto simp: map_level0_def nth_Cons' split: if_splits)
  next
    case 2
    then have "map_level8 (k, x) m key = Some i \<or> (Suc k \<le> i \<and> i < Suc k + length xs \<and> wn_level (xs ! (i - Suc k)) = 8 \<and> wn_nth (xs ! (i - Suc k)) = key)"
      using Cons.IH(2) [of "Suc k" "map_level8 (k, x) m"] by simp
    then show ?case by (auto simp: map_level8_def nth_Cons' split: if_splits)
  }
qed simp_all

lemma tracking_start:
  assumes "positioned nodes" "fresh nodes" "typed nodes"
  shows "tracking R R (wit_new s nodes)"
  using assms map_level_sound(1) [of 0 nodes Map.empty] map_level_sound(2) [of 0 nodes Map.empty]
  by (auto simp: tracking_def tracks_def follows_def fresh_def old_of_def new_of_def)

definition wit_apply :: "hashfun \<Rightarrow> bytes list \<Rightarrow> witness \<Rightarrow> (bool \<times> witness) result" where
  "wit_apply H es w = foldE (\<lambda>e (good, w). if \<not> good then Inr (False, w) else wit_add_entry H e w) es (True, w)"

lemma apply_tracking:
  assumes H: "digest32 H"
  shows "tracking R (ref_state H (leaf, ab)) w \<Longrightarrow> \<forall>t. length (ab t) = 256 \<Longrightarrow> \<forall>e\<in>set es. small_sns e \<Longrightarrow> wit_apply H es w = Inr (True, w') \<Longrightarrow>
    \<exists>st. foldE (blk_entry H) es (leaf, ab) = Inr st \<and> tracking R (ref_state H st) w'"
proof (induction es arbitrary: leaf ab w)
  case Nil
  then show ?case by (auto simp: wit_apply_def)
next
  case (Cons e es)
  let ?f = "\<lambda>e (good, w). if \<not> good then Inr (False, w) else wit_add_entry H e w"
  have stuck: "foldE ?f ys (False, u) = Inr (False, u)" for ys u by (induction ys) simp_all
  obtain good u where a: "wit_add_entry H e w = Inr (good, u)" and rest: "foldE ?f es (good, u) = Inr (True, w')"
    using Cons.prems(4) by (auto simp: wit_apply_def)
  have "good" using rest stuck [of es u] by (cases good) auto
  then obtain leaf' ab' where s: "blk_entry H e (leaf, ab) = Inr (leaf', ab')" "\<forall>t. length (ab' t) = 256" "tracking R (ref_state H (leaf', ab')) u"
    using add_entry_tracking [OF H Cons.prems(1,2), of e u] Cons.prems(3) a by auto
  have "wit_apply H es u = Inr (True, w')" using rest \<open>good\<close> by (simp add: wit_apply_def)
  then show ?case using Cons.IH [OF s(3,2)] Cons.prems(3) s(1) by simp
qed

text \<open>Adding entries keeps the positions.\<close>

definition shape :: "witness \<Rightarrow> (nat \<times> nat) list" where "shape w = map (\<lambda>nod. (wn_level nod, wn_nth nod)) (w_nodes w)"

lemma shape_update:
  "i < length (w_nodes w) \<Longrightarrow> wn_level n = wn_level (w_nodes w ! i) \<Longrightarrow> wn_nth n = wn_nth (w_nodes w ! i) \<Longrightarrow>
   shape (w\<lparr>w_nodes := (w_nodes w)[i := n]\<rparr>) = shape w"
  by (simp add: shape_def map_update list_update_same_conv)

lemma shape_set_actived: "wit_set_actived k b v w = Inr (good, w') \<Longrightarrow> shape w' = shape w"
  by (auto simp: wit_set_actived_def wn_set_actived_def wn_pair_def Let_def res_simps split: option.splits intro!: shape_update)

lemma shape_add_entry:
  assumes "wit_add_entry H e w = Inr (good, w')"
  shows "shape w' = shape w"
proof -
  let ?f = "\<lambda>i (good, w). if \<not> good then Inr (False, w)
      else bindE (get_deactived_sn e i) (\<lambda>sn. wit_set_actived (sn_to_level8nth (unat sn)) (unat sn mod 256) False w)"
  have d: "shape u' = shape u" if "foldE ?f xs (b, u) = Inr (b', u')" for xs b u b' u'
    using that by (induction xs arbitrary: b u) (auto split: if_splits dest!: shape_set_actived)
  have n: "shape (w\<lparr>w_nodes := (w_nodes w)[i := n]\<rparr>) = shape w" if "wn_set_new (w_nodes w ! i) h = Inr n" "i < length (w_nodes w)" for i n h
    using that by (intro shape_update) (auto simp: wn_set_new_def wn_pair_def res_simps)
  show ?thesis
    using assms by (auto simp: wit_add_entry_def Let_def res_simps split: option.splits if_splits dest!: d shape_set_actived simp: n)
qed

lemma shape_apply: "wit_apply H es w = Inr (good, w') \<Longrightarrow> shape w' = shape w"
proof -
  let ?f = "\<lambda>e (good, w). if \<not> good then Inr (False, w) else wit_add_entry H e w"
  have "shape u' = shape u" if "foldE ?f es (b, u) = Inr (b', u')" for es b u b' u'
    using that by (induction es arbitrary: b u) (auto split: if_splits dest!: shape_add_entry)
  then show "wit_apply H es w = Inr (good, w') \<Longrightarrow> shape w' = shape w" by (auto simp: wit_apply_def)
qed

lemma ordered_shape: "shape w' = shape w \<Longrightarrow> ordered (w_nodes w) \<Longrightarrow> ordered (w_nodes w')"
proof -
  assume s: "shape w' = shape w" and o: "ordered (w_nodes w)"
  have "map leftmost (w_nodes w') = map leftmost (w_nodes w)" "map wn_level (w_nodes w') = map wn_level (w_nodes w)" "length (w_nodes w') = length (w_nodes w)"
    using arg_cong [OF s, of "map (\<lambda>(l, n). n * 2 ^ l)"] arg_cong [OF s, of "map fst"] arg_cong [OF s, of length]
    by (simp_all add: shape_def leftmost_def [abs_def] comp_def)
  then have "sorted_wrt (<) (map leftmost (w_nodes w')) = sorted_wrt (<) (map leftmost (w_nodes w))"
    and "(\<forall>l\<in>set (map wn_level (w_nodes w')). l \<le> 64) = (\<forall>l\<in>set (map wn_level (w_nodes w)). l \<le> 64)"
    and "(\<forall>x\<in>set (map leftmost (w_nodes w')). x < 2 ^ 64) = (\<forall>x\<in>set (map leftmost (w_nodes w)). x < 2 ^ 64)"
    and "hd (map leftmost (w_nodes w')) = hd (map leftmost (w_nodes w))" "length (w_nodes w') = length (w_nodes w)"
    by simp_all
  moreover have "w_nodes w \<noteq> []" "w_nodes w' \<noteq> []" using o s by (auto simp: ordered_def shape_def)
  ultimately show "ordered (w_nodes w')" using o by (auto simp: ordered_def positioned_def sorted_wrt_map hd_map)
qed


lemma fetched_follows:
  assumes f: "wv_fetch_all m 0 (w_nodes w) = Inr ns" and tr: "tracking R R' w"
  shows "\<forall>nod\<in>set ns. follows R R' nod"
    and "\<And>l n. base l n \<Longrightarrow> R' l n \<noteq> R l n \<Longrightarrow> \<exists>nod\<in>set ns. wn_level nod = l \<and> wn_nth nod = n"
proof -
  note fa = wv_fetch_all_Inr [OF f]
  have fol: "follows R R' e'" if "tracks R R' e" "wn_value e' \<noteq> None" "wn_level e' = wn_level e" "wn_nth e' = wn_nth e"
      "wn_value e \<noteq> None \<longrightarrow> e' = e" "wn_value e = None \<longrightarrow> old_of e' = new_of e'" for e e'
    using that by (auto simp: tracks_def follows_def)
  have each: "tracks R R' e" if "e \<in> set (w_nodes w)" for e using tr that by (simp add: tracking_def)
  show "\<forall>nod\<in>set ns. follows R R' nod"
  proof
    fix nod assume "nod \<in> set ns"
    then obtain j where j: "j < length ns" "nod = ns ! j" by (auto simp: in_set_conv_nth)
    then have "w_nodes w ! j \<in> set (w_nodes w)" using fa by (auto simp: list_all2_conv_all_nth)
    then show "follows R R' nod" using fol [OF each, of "w_nodes w ! j" nod] fa j by (auto simp: list_all2_conv_all_nth)
  qed
  fix l n assume "base l n" "R' l n \<noteq> R l n"
  then obtain e where "e \<in> set (w_nodes w)" "wn_level e = l" "wn_nth e = n" using tr unfolding tracking_def by blast
  then obtain j where "j < length (w_nodes w)" "wn_level (w_nodes w ! j) = l" "wn_nth (w_nodes w ! j) = n" by (auto simp: in_set_conv_nth)
  then show "\<exists>nod\<in>set ns. wn_level nod = l \<and> wn_nth nod = n"
    using fa by (intro bexI [of _ "ns ! j"]) (auto simp: list_all2_conv_all_nth)
qed

text \<open>C12. The new root of a block is right: let a witness be read from its encoding with its nodes in the
  order of the tree, and let the entries of the block be added to it. If the check accepts the result with the
  root of the shard as the old root, the new root is the root of the shard after the block, the hash of
  every entry at its serial number, its active bit set and those of the deactivated entries
  cleared, or the check hashed a string that collides with one of the shard's tree.\<close>

theorem stateless_new_root:
  assumes H: "digest32 H" and leaf: "\<And>i. length (leaf i) = 32" and ab: "\<And>t. length (ab t) = 256"
    and parse: "try_from_witness_bz H D s bz v = Inr w0" and ord: "ordered (w_nodes w0)" and L: "0 < L" "L \<le> 64"
    and small: "\<forall>e\<in>set es. small_sns e" and app: "wit_apply H es w0 = Inr (True, w)"
    and acc: "verify_witness H w m (ref_state H (leaf, ab) L 0) new_root = Inr True"
  shows "(\<exists>st. foldE (blk_entry H) es (leaf, ab) = Inr st \<and> new_root = ref_state H st L 0) \<or> witness_collision H w m leaf (\<lambda>t. page (ab t))"
proof (cases "witness_collision H w m leaf (\<lambda>t. page (ab t))")
  case False
  let ?pg = "\<lambda>t. page (ab t)" and ?R = "ref_state H (leaf, ab)"
  obtain nodes where w0: "w0 = wit_new s nodes" "wit_parse_nodes H D s v bz 0 = Inr nodes"
    using parse by (auto simp: try_from_witness_bz_def Let_def split: if_splits)
  have "tracking ?R ?R w0"
    using tracking_start parse_nodes_fresh [OF w0(2)] ord w0(1) by (simp add: ordered_def)
  then obtain st where st: "foldE (blk_entry H) es (leaf, ab) = Inr st" and tr: "tracking ?R (ref_state H st) w"
    using apply_tracking [OF H _ _ small app] ab by blast
  have ord_w: "ordered (w_nodes w)" using ordered_shape [OF shape_apply [OF app] ord] .
  have ty: "typed (w_nodes w)" and pos: "positioned (w_nodes w)" using tr by (simp_all add: tracking_def)
  obtain t l n where t: "wv_fetch_all m 0 (w_nodes w) = Inr (wt_leaves t)" "wt_at t l n" "l \<le> 64"
    "wt_hash H old_of t l = ?R L 0" "wt_hash H new_of t l = new_root"
    using pos acc by (rule accepted_tree)
  have Rt: "wt_hash H old_of t l = ref_node H leaf ?pg L 0" using t(4) by (simp add: ref_state_def)
  have no: "\<not> collision_in H (wt_inputs H old_of t l) (ref_inputs H leaf ?pg)"
    using False t by (auto simp: witness_collision_def)
  have n: "n = 0" "l = L" using accepted_root [OF ord_w t(1-3) Rt L no] by simp_all
  have ref: "length (ref_node H leaf ?pg l n) = 32" if "proper l n" for l n
    using that by (intro length_ref_node [OF H leaf]) (simp_all add: length_page ab)
  obtain leaf' ab' where st': "st = (leaf', ab')" by (cases st)
  have R': "ref_state H st = ref_node H leaf' (\<lambda>t. page (ab' t))" "?R = ref_node H leaf ?pg" by (simp_all add: ref_state_def st')
  have "wt_hash H new_of t l = ref_node H leaf' (\<lambda>t. page (ab' t)) l n"
  proof (rule wt_new_root [OF H ref t(2,3) _ _ no])
    show "\<forall>nod\<in>set (wt_leaves t). length (old_of nod) = 32 \<and> follows (ref_node H leaf ?pg) (ref_node H leaf' (\<lambda>t. page (ab' t))) nod"
      using fetch_typed [OF t(1) ty] fetched_follows(1) [OF t(1) tr] unfolding R' by blast
    show "\<exists>nod\<in>set (wt_leaves t). wn_level nod = l' \<and> wn_nth nod = n'"
      if "base l' n'" "ref_node H leaf' (\<lambda>t. page (ab' t)) l' n' \<noteq> ref_node H leaf ?pg l' n'" for l' n'
      using fetched_follows(2) [OF t(1) tr that(1)] that(2) unfolding R' by blast
  qed (use n Rt in simp_all)
  then show ?thesis using st t(5) n R' by auto
qed simp


section \<open>Examples\<close>

definition same_node :: "nat \<Rightarrow> nat \<Rightarrow> hash32 \<Rightarrow> wnode" where
  "same_node l n v = \<lparr>wn_value = Some \<lparr>vp_old = v, vp_new = v\<rparr>, wn_level = l, wn_nth = n\<rparr>"

lemma same_node_fields [simp]:
  "wn_level (same_node l n v) = l" "wn_nth (same_node l n v) = n" "wn_value (same_node l n v) = Some \<lparr>vp_old = v, vp_new = v\<rparr>"
  "old_of (same_node l n v) = v" "new_of (same_node l n v) = v" "leftmost (same_node l n v) = n * 2 ^ l"
  "same_node l n v\<lparr>wn_nth := k\<rparr> = same_node l k v"
  by (simp_all add: same_node_def old_of_def new_of_def leftmost_def)

lemma sibling_pair_accepted:
  assumes "l < 64" "(2 * n + 1) * 2 ^ l < 2 ^ 64"
  shows "positioned [same_node l (2 * n) u, same_node l (2 * n + 1) v]"
    and "verify_witness H (wit_new s [same_node l (2 * n) u, same_node l (2 * n + 1) v]) m
      (hash2 H (word_of_nat l) u v) (hash2 H (word_of_nat l) u v) = Inr True"
proof -
  let ?ns = "[same_node l (2 * n) u, same_node l (2 * n + 1) v]" and ?t = "WNode (WLeaf (same_node l (2 * n) u)) (WLeaf (same_node l (2 * n + 1) v))"
  have "2 * n * 2 ^ l < 2 ^ 64" using assms(2) by (rule le_less_trans [rotated]) simp
  then show p: "positioned ?ns" using assms by (simp add: positioned_def)
  have "wv_fetch_all m 0 ?ns = Inr (wt_leaves ?t)" by (simp add: wv_fetch_valued)
  moreover have "wt_at ?t (l + 1) n" by simp
  moreover have "wt_hash H old_of ?t (l + 1) = hash2 H (word_of_nat l) u v" "wt_hash H new_of ?t (l + 1) = hash2 H (word_of_nat l) u v" by simp_all
  moreover have "l + 1 \<le> 64" using assms(1) by simp
  ultimately show "verify_witness H (wit_new s ?ns) m (hash2 H (word_of_nat l) u v) (hash2 H (word_of_nat l) u v) = Inr True"
    using accepted_iff [of "wit_new s ?ns" H m "hash2 H (word_of_nat l) u v" "hash2 H (word_of_nat l) u v"] p by (simp only: wit_new_fields) blast
qed

theorem swapped_pages_accepted_witness:
  "verify_witness toy_digest (wit_new 0 [same_node 8 9 (replicate 32 1), same_node 8 8 (replicate 32 2)]) []
     (hash2 toy_digest 8 (replicate 32 1) (replicate 32 2)) (hash2 toy_digest 8 (replicate 32 1) (replicate 32 2)) = Inr True \<and>
   w_level8map (wit_new 0 [same_node 8 9 (replicate 32 1), same_node 8 8 (replicate 32 2)]) 9 = Some 0"
proof -
  note p = sibling_pair_accepted(1) [of 8 4 "replicate 32 1" "replicate 32 2", simplified]
    sibling_pair_accepted(2) [where l = 8 and n = 4 and u = "replicate 32 1" and v = "replicate 32 2" and H = toy_digest and s = 0 and m = "[]", simplified]
  have pos: "positioned ([] @ [same_node 8 8 (replicate 32 1), same_node 8 9 (replicate 32 2)] @ [])" using p(1) by simp
  have m: "w_level8map (wit_new 0 [same_node 8 8 (replicate 32 1), same_node 8 9 (replicate 32 2)]) 8 = Some 0"
    by (simp add: map_level8_def)
  show ?thesis
    using swapped_pages_accepted [OF pos, of "wit_new 0 [same_node 8 8 (replicate 32 1), same_node 8 9 (replicate 32 2)]" 0
        "wit_new 0 [same_node 8 9 (replicate 32 1), same_node 8 8 (replicate 32 2)]" toy_digest "[]"
        "hash2 toy_digest 8 (replicate 32 1) (replicate 32 2)" "hash2 toy_digest 8 (replicate 32 1) (replicate 32 2)"] p(2) m
    by (simp del: wit_new_fields(3,4))
qed

definition demo_leaf :: "nat \<Rightarrow> hash32" where "demo_leaf i = replicate 32 7"
definition demo_page :: "nat \<Rightarrow> nat \<Rightarrow> hash32" where "demo_page t i = replicate 32 0"

theorem witness_values_true_witness:
  "verify_witness toy_digest (wit_new 0 [same_node 12 0 (ref_node toy_digest demo_leaf demo_page 12 0), same_node 12 1 (ref_node toy_digest demo_leaf demo_page 12 1)]) []
     (ref_node toy_digest demo_leaf demo_page 13 0) (ref_node toy_digest demo_leaf demo_page 13 0) = Inr True \<and>
   (old_of (same_node 12 1 (ref_node toy_digest demo_leaf demo_page 12 1)) = ref_node toy_digest demo_leaf demo_page 12 1 \<or>
    witness_collision toy_digest (wit_new 0 [same_node 12 0 (ref_node toy_digest demo_leaf demo_page 12 0), same_node 12 1 (ref_node toy_digest demo_leaf demo_page 12 1)]) []
      demo_leaf demo_page)"
proof -
  let ?r = "ref_node toy_digest demo_leaf demo_page"
  let ?ns = "[same_node 12 0 (?r 12 0), same_node 12 1 (?r 12 1)]"
  note p = sibling_pair_accepted(1) [of 12 0 "?r 12 0" "?r 12 1", simplified]
    sibling_pair_accepted(2) [where l = 12 and n = 0 and u = "?r 12 0" and v = "?r 12 1" and H = toy_digest and s = 0 and m = "[]", simplified]
  have root: "?r 13 0 = hash2 toy_digest 12 (?r 12 0) (?r 12 1)" using ref_node_step [of 12 0 toy_digest demo_leaf demo_page] by simp
  have acc: "verify_witness toy_digest (wit_new 0 ?ns) [] (?r 13 0) (?r 13 0) = Inr True" using p(2) root by simp
  have l: "length (?r 12 k) = 32" for k by (rule length_ref_node) (simp_all add: demo_leaf_def demo_page_def proper_def)
  have "ordered (w_nodes (wit_new 0 ?ns))" "typed (w_nodes (wit_new 0 ?ns))"
    using p(1) l by (simp_all add: ordered_def typed_def)
  from witness_values_true [OF digest32_toy _ _ this _ _ acc, of "same_node 12 1 (?r 12 1)" "\<lparr>vp_old = ?r 12 1, vp_new = ?r 12 1\<rparr>"]
  have "vp_old \<lparr>vp_old = ?r 12 1, vp_new = ?r 12 1\<rparr> = ?r 12 1 \<or> witness_collision toy_digest (wit_new 0 ?ns) [] demo_leaf demo_page"
    by (simp add: demo_leaf_def demo_page_def proper_def)
  then show ?thesis using acc by simp
qed


text \<open>A witness for the first entry of a shard of one twig, every node with its value, and an entry that
  replaces it.\<close>

definition enc_valued :: "nat \<times> nat \<times> hash32 \<Rightarrow> bytes" where
  "enc_valued = (\<lambda>(l, n, v). [word_of_nat l] @ u64_be (word_of_nat n) @ [1] @ v)"

lemma parse_valued:
  assumes "l < 256" "n < 2 ^ 64" "length v = 32"
  shows "wit_parse_node H D s es (pre @ enc_valued (l, n, v) @ post) (length pre) = Inr (same_node l n v, length pre + 42)"
proof -
  have "unat (word_of_nat l :: byte) = l" "unat (word_of_nat n :: u64) = n"
    using assms(1,2) by (simp_all add: unat_of_nat)
  then show ?thesis
    using assms(3) by (simp add: wit_parse_node_def wit_parse_value_def try_get_slice_def slice_def enc_valued_def index_def nvt_try_from_def
        wn_set_old_and_new_def wn_new_def wn_pair_def same_node_def nth_append del: bindE_eq_Inr)
qed

lemma parse_all_valued:
  "xs \<noteq> [] \<Longrightarrow> \<forall>(l, n, v)\<in>set xs. l < 256 \<and> n < 2 ^ 64 \<and> length v = 32 \<Longrightarrow>
   wit_parse_nodes H D s es (pre @ concat (map enc_valued xs)) (length pre) = Inr (map (\<lambda>(l, n, v). same_node l n v) xs)"
proof (induction xs arbitrary: pre)
  case (Cons x xs)
  obtain l n v where x: "x = (l, n, v)" by (cases x) auto
  have ok: "l < 256" "n < 2 ^ 64" "length v = 32" using Cons.prems(2) x by auto
  have len: "length (enc_valued (l, n, v)) = 42" using ok(3) by (simp add: enc_valued_def)
  note one = parse_valued [OF ok, of H D s es pre "concat (map enc_valued xs)"]
  show ?case
  proof (cases xs)
    case Nil
    then show ?thesis using one len x by (subst wit_parse_nodes.simps) (simp del: bindE_eq_Inr)
  next
    case (Cons y ys)
    have "length (enc_valued y) = 42" using Cons.prems(2) Cons by (cases y) (auto simp: enc_valued_def)
    have ne: "\<not> length (pre @ concat (map enc_valued (x # xs))) \<le> length pre + 42"
      using len x Cons \<open>length (enc_valued y) = 42\<close> by simp
    have "wit_parse_nodes H D s es ((pre @ enc_valued x) @ concat (map enc_valued xs)) (length (pre @ enc_valued x)) = Inr (map (\<lambda>(l, n, v). same_node l n v) xs)"
      using Cons.prems(2) Cons by (intro Cons.IH) auto
    then show ?thesis using one ne len x by (subst wit_parse_nodes.simps) (auto simp del: bindE_eq_Inr)
  qed
qed simp


definition demo_bits :: "nat \<Rightarrow> bytes" where "demo_bits t = replicate 256 1"

definition demo_ref :: "nat \<Rightarrow> nat \<Rightarrow> hash32" where "demo_ref = ref_state toy_digest (demo_leaf, demo_bits)"

definition demo_positions :: "(nat \<times> nat) list" where
  "demo_positions = (0, 0) # (0, 1) # map (\<lambda>l. (l, 1)) [1..<11] @ [(8, 8), (8, 9), (9, 5), (10, 3)]"

definition demo_nodes :: "wnode list" where "demo_nodes = map (\<lambda>(l, n). same_node l n (demo_ref l n)) demo_positions"

definition demo_witness_bz :: bytes where
  "demo_witness_bz = concat (map enc_valued (map (\<lambda>(l, n). (l, n, demo_ref l n)) demo_positions))"

text \<open>The tree of these nodes, with the first entry and the first page left open.\<close>

definition demo_wtree :: "wnode \<Rightarrow> wnode \<Rightarrow> wtree" where
  "demo_wtree a p = WNode
     (fold (\<lambda>l t. WNode t (WLeaf (same_node l 1 (demo_ref l 1)))) [1..<11] (WNode (WLeaf a) (WLeaf (same_node 0 1 (demo_ref 0 1)))))
     (WNode (WNode (WNode (WLeaf p) (WLeaf (same_node 8 9 (demo_ref 8 9)))) (WLeaf (same_node 9 5 (demo_ref 9 5)))) (WLeaf (same_node 10 3 (demo_ref 10 3))))"

definition demo_new_entry :: bytes where
  "demo_new_entry = entry_layout \<lparr>e_key = [1], e_value = [2], e_next_key_hash = replicate 32 7, e_version = 5, e_serial_number = 0\<rparr> []"

lemma upt_1_11: "[Suc 0..<11] = [1, 2, 3, 4, 5, 6, 7, 8, 9, 10::nat]"
  by (simp add: upt_rec)

lemma demo_proper: "(l, n) \<in> set demo_positions \<Longrightarrow> proper l n"
  by (auto simp: demo_positions_def upt_1_11 proper_def)

lemma demo_ref_length: "(l, n) \<in> set demo_positions \<Longrightarrow> length (demo_ref l n) = 32"
  unfolding demo_ref_def ref_state_def prod.case
  by (intro length_ref_node demo_proper) (simp_all add: demo_leaf_def demo_bits_def length_page)

lemma demo_parse: "wit_parse_nodes toy_digest D 0 ev_new demo_witness_bz 0 = Inr demo_nodes"
proof -
  have "\<forall>(l, n, v)\<in>set (map (\<lambda>(l, n). (l, n, demo_ref l n)) demo_positions). l < 256 \<and> n < 2 ^ 64 \<and> length v = 32"
    using demo_ref_length by (auto simp: demo_positions_def upt_1_11)
  from parse_all_valued [OF _ this, of toy_digest D 0 ev_new "[]"] show ?thesis
    by (simp add: demo_witness_bz_def demo_nodes_def demo_positions_def split_def comp_def)
qed

lemma demo_ordered: "ordered demo_nodes"
  by (simp add: ordered_def positioned_def demo_nodes_def demo_positions_def upt_1_11)

lemma demo_wtree_leaves: "wt_leaves (demo_wtree (same_node 0 0 (demo_ref 0 0)) (same_node 8 8 (demo_ref 8 8))) = demo_nodes"
  by (simp add: demo_wtree_def demo_nodes_def demo_positions_def upt_1_11)

lemma demo_wtree_at: "wn_level a = 0 \<Longrightarrow> wn_nth a = 0 \<Longrightarrow> wn_level p = 8 \<Longrightarrow> wn_nth p = 8 \<Longrightarrow> wt_at (demo_wtree a p) 12 0"
  by (simp add: demo_wtree_def upt_1_11)


lemma demo_entry_reads:
  "ebz_serial_number demo_new_entry = Inr 0" "\<exists>h. ebz_hash toy_digest demo_new_entry = Inr h \<and> length h = 32" "dsn_count demo_new_entry = Inr 0"
proof -
  let ?e = "\<lparr>e_key = [1], e_value = [2], e_next_key_hash = replicate 32 7, e_version = 5, e_serial_number = 0\<rparr>"
  have ok: "entry_ok ?e []" by (simp add: entry_ok_def)
  show "ebz_serial_number demo_new_entry = Inr 0" using read_serial_number [OF ok, of "[]"] by (simp add: demo_new_entry_def)
  have "length (toy_digest x) = 32" for x using digest32_toy by (auto simp: digest32_def)
  then show "\<exists>h. ebz_hash toy_digest demo_new_entry = Inr h \<and> length h = 32"
    using read_hash [OF ok, of toy_digest "[]"] by (simp add: demo_new_entry_def)
  show "dsn_count demo_new_entry = Inr 0" using read_dsn_count [OF ok, of "[]"] by (simp add: demo_new_entry_def)
qed

lemma demo_maps: "w_level0map (wit_new 0 demo_nodes) 0 = Some 0" "w_level8map (wit_new 0 demo_nodes) 8 = Some 12"
  by (simp_all add: demo_nodes_def demo_positions_def upt_1_11 map_level0_def map_level8_def)

lemma demo_node_at: "demo_nodes ! 0 = same_node 0 0 (demo_ref 0 0)" "demo_nodes ! 12 = same_node 8 8 (demo_ref 8 8)" "length demo_nodes = 16"
  by (simp_all add: demo_nodes_def demo_positions_def upt_1_11)

lemma demo_apply:
  "\<exists>a p. wn_level a = 0 \<and> wn_nth a = 0 \<and> wn_level p = 8 \<and> wn_nth p = 8 \<and> wn_value a \<noteq> None \<and> wn_value p \<noteq> None \<and>
     old_of a = demo_ref 0 0 \<and> old_of p = demo_ref 8 8 \<and>
     (\<exists>w. wit_apply toy_digest [demo_new_entry] (wit_new 0 demo_nodes) = Inr (True, w) \<and> w_nodes w = wt_leaves (demo_wtree a p))"
proof -
  obtain h where h: "ebz_hash toy_digest demo_new_entry = Inr h" using demo_entry_reads(2) by blast
  have len: "length (demo_ref 8 8) = 32" by (rule demo_ref_length) (simp add: demo_positions_def)
  define a where "a = (same_node 0 0 (demo_ref 0 0))\<lparr>wn_value := Some \<lparr>vp_old = demo_ref 0 0, vp_new = h\<rparr>\<rparr>"
  define p where "p = (same_node 8 8 (demo_ref 8 8))\<lparr>wn_value := Some \<lparr>vp_old = demo_ref 8 8, vp_new = (demo_ref 8 8)[0 := demo_ref 8 8 ! 0 OR 1]\<rparr>\<rparr>"
  have nodes: "demo_nodes[0 := a, 12 := p] = wt_leaves (demo_wtree a p)"
    by (simp add: demo_wtree_def demo_nodes_def demo_positions_def upt_1_11)
  have pos: "sn_to_level0nth 0 = 0" "level0nth_to_level8nth 0 = 8" by (simp_all add: sn_to_level0nth_def level0nth_to_level8nth_def)
  have "wit_add_entry toy_digest demo_new_entry (wit_new 0 demo_nodes) = Inr (True, (wit_new 0 demo_nodes)\<lparr>w_nodes := demo_nodes[0 := a, 12 := p]\<rparr>)"
    using demo_maps h demo_entry_reads(1,3) demo_node_at len
    by (simp add: wit_add_entry_def wit_set_actived_def wn_set_actived_def wn_set_new_def wn_pair_def pos Let_def a_def p_def del: bindE_eq_Inr wit_new_fields(3,4))
  then have "wit_apply toy_digest [demo_new_entry] (wit_new 0 demo_nodes) = Inr (True, (wit_new 0 demo_nodes)\<lparr>w_nodes := demo_nodes[0 := a, 12 := p]\<rparr>)"
    by (simp add: wit_apply_def del: bindE_eq_Inr)
  moreover have "w_nodes ((wit_new 0 demo_nodes)\<lparr>w_nodes := demo_nodes[0 := a, 12 := p]\<rparr>) = wt_leaves (demo_wtree a p)" using nodes by simp
  moreover have "wn_level a = 0" "wn_nth a = 0" "wn_level p = 8" "wn_nth p = 8" "wn_value a \<noteq> None" "wn_value p \<noteq> None"
    "old_of a = demo_ref 0 0" "old_of p = demo_ref 8 8" by (simp_all add: a_def p_def old_of_def)
  ultimately show ?thesis by blast
qed


theorem stateless_new_root_witness:
  "\<exists>w0 w new_root. try_from_witness_bz toy_digest ([], twig_new, []) 0 demo_witness_bz ev_new = Inr w0 \<and>
     wit_apply toy_digest [demo_new_entry] w0 = Inr (True, w) \<and> verify_witness toy_digest w [] (demo_ref 12 0) new_root = Inr True \<and>
     ((\<exists>st. foldE (blk_entry toy_digest) [demo_new_entry] (demo_leaf, demo_bits) = Inr st \<and> new_root = ref_state toy_digest st 12 0) \<or>
      witness_collision toy_digest w [] demo_leaf (\<lambda>t. page (demo_bits t)))"
proof -
  let ?w0 = "wit_new 0 demo_nodes"
  obtain a p w where ap: "wn_level a = 0" "wn_nth a = 0" "wn_level p = 8" "wn_nth p = 8" "wn_value a \<noteq> None" "wn_value p \<noteq> None"
    "old_of a = demo_ref 0 0" "old_of p = demo_ref 8 8"
    and app: "wit_apply toy_digest [demo_new_entry] ?w0 = Inr (True, w)" and w: "w_nodes w = wt_leaves (demo_wtree a p)"
    using demo_apply by blast
  have "verify_entries ev_new ?w0 = Inr True"
    by (simp add: verify_entries_def verify_entries_from.simps ev_new_def layout_defs)
  then have parse: "try_from_witness_bz toy_digest ([], twig_new, []) 0 demo_witness_bz ev_new = Inr ?w0"
    by (simp add: try_from_witness_bz_def demo_parse Let_def)
  have small: "\<forall>e\<in>set [demo_new_entry]. small_sns e" using demo_entry_reads(1,3) by (simp add: small_sns_def)
  let ?t = "demo_wtree a p"
  have val: "\<forall>nod\<in>set (wt_leaves ?t). wn_value nod \<noteq> None" using ap by (simp add: demo_wtree_def upt_1_11)
  have fetch: "wv_fetch_all m off ns = Inr ns" if "\<forall>nod\<in>set ns. wn_value nod \<noteq> None" for m off ns
    using that by (induction ns) (simp_all add: wv_fetch_valued)
  have ord: "ordered (w_nodes w)" using ordered_shape [OF shape_apply [OF app]] demo_ordered by simp
  have leaves: "\<forall>nod\<in>set (wt_leaves ?t). proper (wn_level nod) (wn_nth nod) \<and> old_of nod = demo_ref (wn_level nod) (wn_nth nod)"
    using ap by (simp add: demo_wtree_def upt_1_11 proper_def)
  have old: "wt_hash toy_digest old_of ?t 12 = demo_ref 12 0"
    using wt_complete [OF demo_wtree_at [OF ap(1-4)], of old_of toy_digest demo_leaf "\<lambda>t. page (demo_bits t)"] leaves
    by (simp add: demo_ref_def ref_state_def)
  have acc: "verify_witness toy_digest w [] (demo_ref 12 0) (wt_hash toy_digest new_of ?t 12) = Inr True"
  proof (rule iffD2 [OF accepted_iff])
    show "positioned (w_nodes w)" using ord by (simp add: ordered_def)
    show "\<exists>t l n. wv_fetch_all [] 0 (w_nodes w) = Inr (wt_leaves t) \<and> wt_at t l n \<and> l \<le> 64 \<and> wt_hash toy_digest old_of t l = demo_ref 12 0 \<and>
        wt_hash toy_digest new_of t l = wt_hash toy_digest new_of ?t 12"
      using fetch [OF val] demo_wtree_at [OF ap(1-4)] old w by (intro exI [of _ ?t] exI [of _ 12] exI [of _ 0]) simp
  qed
  have "(\<exists>st. foldE (blk_entry toy_digest) [demo_new_entry] (demo_leaf, demo_bits) = Inr st \<and> wt_hash toy_digest new_of ?t 12 = ref_state toy_digest st 12 0) \<or>
      witness_collision toy_digest w [] demo_leaf (\<lambda>t. page (demo_bits t))"
    using stateless_new_root [OF digest32_toy _ _ parse _ _ _ small app, of demo_leaf demo_bits 12 "[]" "wt_hash toy_digest new_of ?t 12"] acc demo_ordered
    by (simp add: demo_leaf_def demo_bits_def demo_ref_def del: foldE.simps)
  then show ?thesis using parse app acc by blast
qed


section \<open>The search for an active entry\<close>

definition bit_at :: "hash32 \<Rightarrow> nat \<Rightarrow> bool" where
  "bit_at pg i \<longleftrightarrow> drop_bit (i mod 8) (pg ! (i div 8)) AND 1 = 1"

definition paged :: "witness \<Rightarrow> bool" where
  "paged w \<longleftrightarrow> typed (w_nodes w) \<and> finite (dom (w_level8map w)) \<and>
     (\<forall>k i. w_level8map w k = Some i \<longrightarrow> i < length (w_nodes w) \<and> wn_level (w_nodes w ! i) = 8 \<and> wn_nth (w_nodes w ! i) = k \<and> wn_value (w_nodes w ! i) \<noteq> None)"

lemma wn_actived_new:
  assumes "wn_value n = Some p" "length (vp_new p) = 32"
  shows "wn_actived n False i = Inr (bit_at (vp_new p) (i mod 256))"
proof -
  have "i mod 256 div 8 < 32" by (simp add: div_less_iff_less_mult)
  then show ?thesis using assms by (simp add: wn_actived_def wn_get_new_def wn_pair_def bit_at_def Let_def del: bindE_eq_Inr)
qed

lemma page_next_active_spec:
  assumes p: "wn_value n = Some p" "length (vp_new p) = 32" and n: "is_activebits n"
  and i: "i \<le> 256"
  shows "(page_next_active n i = Inr None \<and> (\<forall>j. i \<le> j \<and> j < 256 \<longrightarrow> \<not> bit_at (vp_new p) j)) \<or>
    (\<exists>j. i \<le> j \<and> j < 256 \<and> bit_at (vp_new p) j \<and> (\<forall>k. i \<le> k \<and> k < j \<longrightarrow> \<not> bit_at (vp_new p) k) \<and>
      page_next_active n i = Inr (Some ((wn_nth n div 16 * 2048 + (wn_nth n mod 16 - 8) * 256 + j) mod 2 ^ 64)))"
  using i
proof (induction i rule: inc_induct)
  case base
  then show ?case by (subst page_next_active.simps) auto
next
  case (step i)
  have a: "wn_actived n False i = Inr (bit_at (vp_new p) i)" using wn_actived_new [OF p, of i] step.hyps(2) by simp
  show ?case
  proof (cases "bit_at (vp_new p) i")
    case True
    then show ?thesis using a n step.hyps(2)
      by (intro disjI2 exI [of _ i]) (subst page_next_active.simps, auto simp: get_entry_sn_def Let_def simp del: bindE_eq_Inr)
  next
    case False
    have next_i: "page_next_active n i = page_next_active n (Suc i)"
      using a False step.hyps(2) by (subst page_next_active.simps) (simp del: bindE_eq_Inr)
    have split_i: "(\<forall>j. i \<le> j \<and> j < m \<longrightarrow> \<not> bit_at (vp_new p) j) \<longleftrightarrow> (\<forall>j. Suc i \<le> j \<and> j < m \<longrightarrow> \<not> bit_at (vp_new p) j)" for m
      using False by (metis le_eq_less_or_eq less_eq_Suc_le)
    from step.IH show ?thesis unfolding next_i split_i by (meson Suc_leD)
  qed
qed

lemma page_key: "sn < 2 ^ 63 \<Longrightarrow> sn_to_level8nth sn = 16 * (sn div 256 div 8) + 8 + sn div 256 mod 8"
proof -
  have "sn div (256 * 8) = sn div 256 div 8" "sn mod (256 * 8) = 256 * (sn div 256 mod 8) + sn mod 256"
    by (rule div_mult2_eq, rule mod_mult2_eq)
  then have "sn div 2048 = sn div 256 div 8" "sn mod 2048 = 256 * (sn div 256 mod 8) + sn mod 256" by (simp_all only: mult_numeral_1 semiring_norm numeral_times_numeral)
  moreover from this(2) have "sn mod 2048 div 256 = sn div 256 mod 8" by (simp only: div_mult_self4 mod_div_trivial)
  ultimately show "sn < 2 ^ 63 \<Longrightarrow> ?thesis" using page_position(1) by simp
qed

lemma page_key_mono: "sn < 2 ^ 63 \<Longrightarrow> q < 2 ^ 63 \<Longrightarrow> sn div 256 < q div 256 \<Longrightarrow> sn_to_level8nth sn < sn_to_level8nth q"
proof -
  have "16 * (u div 8) + 8 + u mod 8 < 16 * (v div 8) + 8 + v mod 8" if "u < v" for u v :: nat
  proof -
    have "u div 8 \<le> v div 8" using that by (simp add: div_le_mono)
    moreover have "u = 8 * (u div 8) + u mod 8" "v = 8 * (v div 8) + v mod 8" "u mod 8 < 8" by simp_all
    ultimately show ?thesis using that by linarith
  qed
  then show "sn < 2 ^ 63 \<Longrightarrow> q < 2 ^ 63 \<Longrightarrow> sn div 256 < q div 256 \<Longrightarrow> sn_to_level8nth sn < sn_to_level8nth q" by (simp add: page_key)
qed

lemma active_bit_in_page:
  assumes w: "paged w" and "w_level8map w (sn_to_level8nth sn) = Some i" "wn_value (w_nodes w ! i) = Some p" "sn < 2 ^ 63" "x < 2 ^ 63" "x div 256 = sn div 256"
  shows "wit_get_active_bit w x = Inr (Some (bit_at (vp_new p) (x mod 256)))"
proof -
  have i: "i < length (w_nodes w)" using w assms(2) unfolding paged_def by blast
  then have "length (vp_new p) = 32" using w assms(3) nth_mem unfolding paged_def typed_def by blast
  moreover have "sn_to_level8nth x = sn_to_level8nth sn" using assms(4-6) by (simp add: page_key)
  ultimately show ?thesis using assms(2,3) i by (simp add: wit_get_active_bit_def wn_actived_new del: bindE_eq_Inr)
qed


definition inactive_from :: "witness \<Rightarrow> nat \<Rightarrow> nat \<Rightarrow> bool" where
  "inactive_from w a b \<longleftrightarrow> (\<forall>x. a \<le> x \<and> x < b \<longrightarrow> wit_get_active_bit w x = Inr (Some False))"

lemma search_page:
  assumes w: "paged w" and key: "w_level8map w (sn_to_level8nth sn) = Some i" and sn: "sn + 256 \<le> 2 ^ 63"
  shows "(bindE (index (w_nodes w) i) (\<lambda>n. page_next_active n (sn mod 256)) = Inr None \<and> inactive_from w sn ((sn div 256 + 1) * 256)) \<or>
    (\<exists>q. bindE (index (w_nodes w) i) (\<lambda>n. page_next_active n (sn mod 256)) = Inr (Some q) \<and> sn \<le> q \<and> q < 2 ^ 63 \<and>
      wit_get_active_bit w q = Inr (Some True) \<and> inactive_from w sn q)"
proof -
  let ?n = "w_nodes w ! i"
  have lt: "sn < 2 ^ 63" using sn by simp
  have i: "i < length (w_nodes w)" "wn_level ?n = 8" "wn_nth ?n = sn_to_level8nth sn" and "wn_value ?n \<noteq> None"
    using w key unfolding paged_def by blast+
  then obtain p where p: "wn_value ?n = Some p" by blast
  have len: "length (vp_new p) = 32" using w p nth_mem [OF i(1)] unfolding paged_def typed_def by blast
  have act: "is_activebits ?n" using i page_position(5) [OF lt] by (simp add: is_activebits_def base_def)
  have page_start: "sn_to_level8nth sn div 16 * 2048 + (sn_to_level8nth sn mod 16 - 8) * 256 = sn div 256 * 256"
  proof -
    have "sn div 2048 * 2048 + sn mod 2048 div 256 * 256 + sn mod 2048 mod 256 = sn" by (metis add.assoc div_mult_mod_eq)
    moreover have "sn div 256 * 256 + sn mod 256 = sn" by simp
    moreover have "sn mod 2048 mod 256 = sn mod 256" by (rule mod_mod_cancel) simp
    ultimately show ?thesis unfolding page_position(3,4) [OF lt] by linarith
  qed
  have sn_eq: "sn div 256 * 256 + sn mod 256 = sn" by simp
  have bits: "wit_get_active_bit w x = Inr (Some (bit_at (vp_new p) (x mod 256)))" if "sn div 256 * 256 \<le> x" "x < (sn div 256 + 1) * 256" for x
  proof -
    have d: "x div 256 = sn div 256" using that by (intro div_nat_eqI) (simp_all add: mult.commute)
    have "(sn div 256 + 1) * 256 \<le> sn + 256" by simp
    then have "x < 2 ^ 63" using that sn by linarith
    then show ?thesis using active_bit_in_page [OF w key p lt _ d] by simp
  qed
  have inact: "inactive_from w sn (sn div 256 * 256 + m)" if "m \<le> 256" "\<forall>j. sn mod 256 \<le> j \<and> j < m \<longrightarrow> \<not> bit_at (vp_new p) j" for m
    unfolding inactive_from_def
  proof (intro allI impI)
    fix x assume x: "sn \<le> x \<and> x < sn div 256 * 256 + m"
    then have r: "sn div 256 * 256 \<le> x" "x < (sn div 256 + 1) * 256" using sn_eq that(1) by (linarith, simp add: add_mult_distrib)
    then have "x div 256 = sn div 256" by (intro div_nat_eqI) (simp_all add: mult.commute)
    then have "x = sn div 256 * 256 + x mod 256" by (metis div_mult_mod_eq)
    then have "sn mod 256 \<le> x mod 256" "x mod 256 < m" using x sn_eq by linarith+
    then show "wit_get_active_bit w x = Inr (Some False)" using bits [OF r] that(2) by simp
  qed
  have idx: "bindE (index (w_nodes w) i) (\<lambda>n. page_next_active n (sn mod 256)) = page_next_active ?n (sn mod 256)" using i(1) by simp
  from page_next_active_spec [OF p len act, of "sn mod 256"] consider
    (none) "page_next_active ?n (sn mod 256) = Inr None" "\<forall>j. sn mod 256 \<le> j \<and> j < 256 \<longrightarrow> \<not> bit_at (vp_new p) j"
  | (some) j where "sn mod 256 \<le> j" "j < 256" "bit_at (vp_new p) j" "\<forall>k. sn mod 256 \<le> k \<and> k < j \<longrightarrow> \<not> bit_at (vp_new p) k"
      "page_next_active ?n (sn mod 256) = Inr (Some ((sn div 256 * 256 + j) mod 2 ^ 64))"
    unfolding i(3) page_start by fastforce
  then show ?thesis
  proof cases
    case none
    then show ?thesis using inact [of 256] idx by (simp add: algebra_simps)
  next
    case some
    let ?q = "sn div 256 * 256 + j"
    have q: "sn \<le> ?q" "?q < 2 ^ 63" using some(1,2) sn_eq sn by linarith+
    moreover have "?q mod 256 = j" using some(2) by simp
    then have "wit_get_active_bit w ?q = Inr (Some True)" using bits [of ?q] some(2,3) by simp
    moreover have "?q mod 2 ^ 64 = ?q" using q(2) by simp
    ultimately have "bindE (index (w_nodes w) i) (\<lambda>n. page_next_active n (sn mod 256)) = Inr (Some ?q) \<and> sn \<le> ?q \<and> ?q < 2 ^ 63 \<and>
      wit_get_active_bit w ?q = Inr (Some True) \<and> inactive_from w sn ?q"
      using some inact [of j] idx by (simp del: bindE_eq_Inr)
    then show ?thesis by blast
  qed
qed


lemma search_terminates:
  assumes w: "paged w"
  shows "card {k \<in> dom (w_level8map w). sn_to_level8nth sn \<le> k} \<le> c \<Longrightarrow> sn + 256 * (c + 1) \<le> 2 ^ 63 \<Longrightarrow>
    \<exists>r q. find_next_active_sn w sn = Some (Inr r) \<and> sn \<le> q \<and> inactive_from w sn q \<and>
      (case r of Some q' \<Rightarrow> q' = q \<and> wit_get_active_bit w q = Inr (Some True) | None \<Rightarrow> w_level8map w (sn_to_level8nth q) = None)"
proof (induction c arbitrary: sn)
  case 0
  have "finite (dom (w_level8map w))" using w by (simp add: paged_def)
  then have "{k \<in> dom (w_level8map w). sn_to_level8nth sn \<le> k} = {}" using 0 by simp
  then have "w_level8map w (sn_to_level8nth sn) = None" by auto
  then show ?case by (subst find_next_active_sn.simps) (auto simp: inactive_from_def intro!: exI [of _ sn])
next
  case (Suc c)
  show ?case
  proof (cases "w_level8map w (sn_to_level8nth sn)")
    case None
    then show ?thesis by (subst find_next_active_sn.simps) (auto simp: inactive_from_def intro!: exI [of _ sn])
  next
    case (Some i)
    let ?s = "(sn div 256 + 1) * 256"
    have lt: "sn + 256 \<le> 2 ^ 63" using Suc.prems(2) by simp
    have bounds: "sn < ?s" "?s \<le> sn + 256" by (simp_all add: add_mult_distrib)
    have s_lt: "?s < 2 ^ 63" using bounds(2) Suc.prems(2) by simp
    consider (none) "bindE (index (w_nodes w) i) (\<lambda>n. page_next_active n (sn mod 256)) = Inr None" "inactive_from w sn ?s"
      | (some) q where "bindE (index (w_nodes w) i) (\<lambda>n. page_next_active n (sn mod 256)) = Inr (Some q)" "sn \<le> q"
        "wit_get_active_bit w q = Inr (Some True)" "inactive_from w sn q"
      using search_page [OF w Some lt] by blast
    then show ?thesis
    proof cases
      case none
      have "(sn + 256) div 256 = sn div 256 + 1" by (simp only: div_add_self2 zero_neq_numeral not_False_eq_True)
      then have "(sn + 256) div 256 * 256 mod 2 ^ 64 = ?s" using s_lt by simp
      then have step: "find_next_active_sn w sn = find_next_active_sn w ?s"
        using none(1) Some by (subst find_next_active_sn.simps) (simp del: bindE_eq_Inr)
      have "sn_to_level8nth sn < sn_to_level8nth ?s" using s_lt lt by (intro page_key_mono) simp_all
      then have "{k \<in> dom (w_level8map w). sn_to_level8nth ?s \<le> k} \<subseteq> {k \<in> dom (w_level8map w). sn_to_level8nth sn \<le> k}"
        and "sn_to_level8nth sn \<in> {k \<in> dom (w_level8map w). sn_to_level8nth sn \<le> k} - {k \<in> dom (w_level8map w). sn_to_level8nth ?s \<le> k}"
        using Some by auto
      then have "{k \<in> dom (w_level8map w). sn_to_level8nth ?s \<le> k} \<subset> {k \<in> dom (w_level8map w). sn_to_level8nth sn \<le> k}" by blast
      then have "card {k \<in> dom (w_level8map w). sn_to_level8nth ?s \<le> k} < card {k \<in> dom (w_level8map w). sn_to_level8nth sn \<le> k}"
        using w by (intro psubset_card_mono) (simp_all add: paged_def)
      then have "card {k \<in> dom (w_level8map w). sn_to_level8nth ?s \<le> k} \<le> c" using Suc.prems(1) by simp
      moreover have "?s + 256 * (c + 1) \<le> 2 ^ 63" using bounds(2) Suc.prems(2) by simp
      ultimately obtain r q where rq: "find_next_active_sn w ?s = Some (Inr r)" "?s \<le> q" "inactive_from w ?s q"
        "case r of Some q' \<Rightarrow> q' = q \<and> wit_get_active_bit w q = Inr (Some True) | None \<Rightarrow> w_level8map w (sn_to_level8nth q) = None"
        using Suc.IH [of ?s] by blast
      have "inactive_from w sn q" using none(2) rq(3) unfolding inactive_from_def by (meson not_le)
      then show ?thesis using rq bounds(1) step by (intro exI [of _ r] exI [of _ q]) auto
    next
      case some
      have "find_next_active_sn w sn = Some (Inr (Some q))"
        using some(1) Some by (subst find_next_active_sn.simps) (simp del: bindE_eq_Inr)
      then show ?thesis using some by (intro exI [of _ "Some q"] exI [of _ q]) simp
    qed
  qed
qed

text \<open>C24. The search for the next active entry ends: in a witness whose pages have their values it returns the
  first active serial number from the start on, or none if it reaches a page that the witness does not have,
  every number passed being inactive.\<close>

theorem find_next_active_sn_returns:
  assumes "paged w" and "sn + 256 * (card (dom (w_level8map w)) + 1) \<le> 2 ^ 63"
  shows "\<exists>r q. find_next_active_sn w sn = Some (Inr r) \<and> sn \<le> q \<and> inactive_from w sn q \<and>
    (case r of Some q' \<Rightarrow> q' = q \<and> wit_get_active_bit w q = Inr (Some True) | None \<Rightarrow> w_level8map w (sn_to_level8nth q) = None)"
proof (rule search_terminates [OF assms(1) _ assms(2)])
  show "card {k \<in> dom (w_level8map w). sn_to_level8nth sn \<le> k} \<le> card (dom (w_level8map w))"
    using assms(1) by (intro card_mono) (auto simp: paged_def)
qed

theorem find_next_active_sn_returns_witness:
  "\<exists>r q. find_next_active_sn (wit_new 0 [same_node 8 8 (replicate 32 0)]) 3 = Some (Inr r) \<and> 3 \<le> q \<and> inactive_from (wit_new 0 [same_node 8 8 (replicate 32 0)]) 3 q \<and>
    (case r of Some q' \<Rightarrow> q' = q \<and> wit_get_active_bit (wit_new 0 [same_node 8 8 (replicate 32 0)]) q = Inr (Some True)
     | None \<Rightarrow> w_level8map (wit_new 0 [same_node 8 8 (replicate 32 0)]) (sn_to_level8nth q) = None)"
proof (rule find_next_active_sn_returns)
  show "paged (wit_new 0 [same_node 8 8 (replicate 32 0)])" by (simp add: paged_def typed_def map_level8_def)
  show "3 + 256 * (card (dom (w_level8map (wit_new 0 [same_node 8 8 (replicate 32 0)]))) + 1) \<le> 2 ^ 63" by (simp add: map_level8_def)
qed

end
