(* ===== verification/Spec2Isabelle.thy ===== *)
theory Spec2Isabelle
  imports Entry EntryVec Bits ShortList Twig ProofPath HPFile TwigFile UpperTree EntryFile Tree Block Recover Check Indexer Changes EntryBuffer Cache Tasks Updater Shard Meta Witness Stateless
begin

text \<open>
  A model of the key-value database QMDB (\<^verbatim>\<open>src/qmdb\<close>, with its file layer \<^verbatim>\<open>src/hpfile\<close>).

  \<^bold>\<open>The program.\<close> QMDB keeps every key-value pair as an entry in an append-only log, one log per
  shard. An entry has a serial number; 2048 consecutive serial numbers form a twig, a perfect
  Merkle tree over the hashes of the entries (the left half) joined with a small tree over one
  active bit per entry (the right half). The roots of the twigs are the leaves of the upper
  tree, whose root commits to the shard. Only the youngest twig's left half is in memory; full
  twigs go to the twig file. At the end of a block the flusher brings the twigs and the upper
  nodes that the block touched up to date and stores the new root. Old entries are moved to the
  end of the log by a compactor, so that old twigs lose all active bits, are evicted and later
  pruned together with the head of the files. After a crash a shard is rebuilt from its log.

  \<^bold>\<open>The theories\<close>, in the order of the code's layers:

  \<^item> \<open>Prelude\<close>: results with errors as values (\<open>result\<close>, \<open>bindE\<close>, \<open>foldE\<close>, \<open>unwrap\<close>, indexing and
    slices that panic out of range) and shared lemmas. \<open>Codec\<close>, \<open>Defs\<close>, \<open>Hasher\<close>: little-endian
    codecs (\<^verbatim>\<open>utils/codec.rs\<close>), the constants and \<open>calc_max_level\<close> (\<^verbatim>\<open>def.rs\<close>), hashing of nodes
    (\<^verbatim>\<open>utils/hasher.rs\<close>).
  \<^item> \<open>Entry\<close>, \<open>EntryVec\<close> (\<^verbatim>\<open>entryfile/entry.rs\<close>): the byte layout of entries, written and read back,
    sentry and null entries, the growing buffers of entries per shard and their transport form.
  \<^item> \<open>Bits\<close> (\<^verbatim>\<open>utils/activebits.rs\<close>, the active bits of \<^verbatim>\<open>merkletree/twig.rs\<close>): the locale \<open>bit_store\<close>
    with both bit sets as interpretations, each refined to a set of numbers. \<open>ShortList\<close>
    (\<^verbatim>\<open>utils/shortlist.rs\<close>).
  \<^item> \<open>HPFile\<close> (\<^verbatim>\<open>hpfile/src/lib.rs\<close>): the head-prunable file as segment files with a write buffer;
    the locale \<open>slice_log\<close> is its contract (what was appended is read back), interpreted on the
    file. \<open>EntryFile\<close> (\<^verbatim>\<open>entryfile/entryfile.rs\<close>) and \<open>TwigFile\<close> (\<^verbatim>\<open>merkletree/twigfile.rs\<close>) are built
    on it.
  \<^item> \<open>Twig\<close> (\<^verbatim>\<open>merkletree/twig.rs\<close>): the reference tree \<open>mnode\<close>, the incremental update of a twig's
    array, the null values. \<open>ProofPath\<close> (\<^verbatim>\<open>merkletree/proof.rs\<close>): proofs, their encoding and check.
  \<^item> \<open>UpperTree\<close>, \<open>Tree\<close>, \<open>Block\<close> (\<^verbatim>\<open>merkletree/tree.rs\<close>, the flush part of \<^verbatim>\<open>flusher.rs\<close>): the nodes
    above the twigs, the tree of a shard, the end of a block; the locale \<open>keyed_store\<close> is the
    contract of the three sharded maps. \<open>Recover\<close> (\<^verbatim>\<open>merkletree/recover.rs\<close>), \<open>Check\<close>
    (\<^verbatim>\<open>merkletree/check.rs\<close>).
  \<^item> \<open>Leaf\<close>, \<open>IndexUnit\<close>, \<open>IndexOps\<close>, \<open>IndexScan\<close>, \<open>IndexCompact\<close>, \<open>Indexer\<close> (\<^verbatim>\<open>indexer/inmem.rs\<close>): leaves of
    packed pairs in a growing buffer (locale \<open>leaf_store\<close>), units of leaves ordered by key, their
    scans and compaction, and the indexer over an array of units, generic in the unit (locale \<open>unit_trait\<close>).
    A unit is refined to the sorted list of its pairs.
  \<^item> \<open>Changes\<close> (\<^verbatim>\<open>utils/changeset.rs\<close>), \<open>EntryBuffer\<close> (\<^verbatim>\<open>entryfile/entrybuffer.rs\<close>), \<open>Cache\<close>
    (\<^verbatim>\<open>utils/bytescache.rs\<close>, \<^verbatim>\<open>entryfile/entrycache.rs\<close>), \<open>Tasks\<close> (\<^verbatim>\<open>tasks/\<close>, \<^verbatim>\<open>utils/ringchannel.rs\<close>,
    \<^verbatim>\<open>utils/slice.rs\<close>): the operations of a block and the structures they travel through; the writer
    and the reader of the entry buffer are a step relation over all their interleavings.
  \<^item> \<open>Updater\<close> (\<^verbatim>\<open>updater.rs\<close>): writing, creating, deleting and compacting entries of a shard. \<open>KeyOrder\<close>
    and \<open>KvIndex\<close> describe the keys of a shard and the index as a table, \<open>Store\<close> what the updater relies
    on of the log (locale \<open>entry_store\<close>, interpreted on the updater's cache, buffer and file),
    \<open>Database\<close> and \<open>Shard\<close> the shard as a map from keys to values.
  \<^item> \<open>Meta\<close> (\<^verbatim>\<open>metadb.rs\<close>): the metadata, committed to two files in turn, and the history of prune points.
  \<^item> \<open>Witness\<close>, \<open>Stateless\<close> (\<^verbatim>\<open>stateless/node.rs\<close>, \<^verbatim>\<open>utils.rs\<close>, \<^verbatim>\<open>witness.rs\<close>): the nodes a stateless validator needs for a
    block, and their check against the roots before and after it.

  \<^bold>\<open>What is proved.\<close> The predicate \<open>synced\<close> says that a tree stands for leaves \<open>leaf\<close> and active bits
  \<open>ab\<close>. The end of a block establishes it with the reference root, provided that the recorded hashes of the
  groups of bits it did not touch are right (the flush itself can break that for the youngest twig, as is shown
  too). Recovery from an unencrypted log establishes it with the root the log determines, from a log that was pruned
  and the edge nodes of the pruning as well, and after cutting the files to the recorded sizes; with an oldest
  active twig behind the first one it needs the twig file. Proofs of a synchronised tree exist and
  check, for twigs on disk when the groups of leaves they need do not cross a segment file. A proof that checks against
  the root of a shard carries the true leaf of the position that the low bits of its serial number give, as many as
  the height of the tree has, or exhibits a hash collision; the bits above are not checked by the code.
  The predicate \<open>db_inv\<close> says that the index, the log and the chain of next keys of a
  shard stand for a map from keys to values (entries on disk that the cache does not have are at most 300 bytes long, since
  longer ones are cut when read). Every operation of the updater keeps it and acts on
  the map as it should; when a compaction is due it moves the first live entry that a job names to the end of the log, and it waits
  exactly when the ring of jobs names fewer live entries than the operation needs. Creating a key is covered when no other
  key shares the first nine bytes of its hash. A witness is accepted exactly if its nodes
  are the leaves of one tree with both roots; if they are in the order of the tree, its values are true and the new
  root is that of the shard after the block, or a collision is exhibited. A crash during a commit of the metadata loses at
  most the block being written. Below that: round trips of all encodings, refinements of
  the containers to sets, lists and maps, files return what was written, pruning
  keeps what recovery needs. Where the code does not do what it means to, the behaviour it has
  is the theorem.

  \<^bold>\<open>Conventions.\<close> Panics, errors and failed unwraps are values of \<open>fault\<close>. Bytes are words of 8
  bits; \<^verbatim>\<open>u64\<close> and \<^verbatim>\<open>i64\<close> in codecs are words of 64 bits; lengths, file positions and twig
  numbers are natural numbers with the bounds as hypotheses where a word would overflow
  (twig numbers below \<open>2 ^ 51\<close>, files below \<open>2 ^ 51\<close> bytes). SHA-256 is a parameter \<open>H\<close>, the
  checksum of the twig file a parameter \<open>X\<close>, the cipher a record of functions; only collision
  freedom and the digest's length are ever assumed of \<open>H\<close>. The lazily built null values are
  the parameter \<open>D\<close> with \<open>get_init_data H = Inr D\<close>. Loops are structural recursion over the
  list they walk or functions with a termination proof; there is no fuel. The one loop that need not
  end, the search for the next active serial number in a witness, is a partial function into \<open>option\<close>. Maps with arbitrary
  iteration order take the order as an argument or are association lists.

  \<^bold>\<open>Not modelled.\<close> Threads and locks: flush and update run one after the other here, as they do
  between the barriers of the program; a call that takes and releases a lock is one step. Hence
  not the threads of the flusher and the compactor, the prefetchers, and the facade \<^verbatim>\<open>lib.rs\<close> that
  wires channels. Direct I/O and io_uring. The hybrid indexer, an alternative to the
  in-memory one behind a cargo feature; the sequential database \<^verbatim>\<open>seqads\<close> and the updater of
  witnesses, which repeat the operations of the updater over other containers. The serialisation of
  the metadata (\<^verbatim>\<open>bincode\<close>) and the cipher are parameters. The comparisons of the feature
  \<^verbatim>\<open>check_rec\<close>, the fuzzing wrapper \<^verbatim>\<open>Unit4Test\<close>, printing, test helpers, benchmarks and examples.
\<close>

end
